(* ===== verification/Prelude.thy ===== *)
theory Prelude
  imports Main
begin

text \<open>
  Shared vocabulary of the development. The program works over GF(2) throughout (parity
  matrices, Pauli bit vectors, phase polynomials), so the prelude holds sums over GF(2)
  of a bit-valued function, and the few facts on bit lists that the component theories
  share. It also holds the program's generic search loop \<open>find_if\<close> over an index range.
\<close>

named_theorems bit_simps "accessor equations of the bit-level data structures"
named_theorems len_simps "sizes are preserved by an operation"

section \<open>Exclusive or\<close>

text \<open>
  The program's \<open>^\<close> on bits. It is kept as a constant of its own, since the simplifier
  rewrites a plain disequality of truth values away; its laws are those of a Boolean group.
\<close>

definition bxor :: "bool \<Rightarrow> bool \<Rightarrow> bool" where
  "bxor a b = (a \<noteq> b)"

lemma bxor_simps [simp]:
  "bxor False a = a" "bxor a False = a" "bxor True a = (\<not> a)" "bxor a True = (\<not> a)"
  "bxor a a = False" "bxor (\<not> a) b = (\<not> bxor a b)" "bxor a (\<not> b) = (\<not> bxor a b)"
  by (auto simp: bxor_def)

lemma bxor_assoc: "bxor (bxor a b) c = bxor a (bxor b c)"
  by (auto simp: bxor_def)

lemma bxor_comm: "bxor a b = bxor b a"
  by (auto simp: bxor_def)

lemma bxor_left_comm: "bxor a (bxor b c) = bxor b (bxor a c)"
  by (auto simp: bxor_def)

lemmas bxor_ac = bxor_assoc bxor_comm bxor_left_comm

lemma bxor_cancel [simp]: "bxor a (bxor a b) = b" "bxor (bxor b a) a = b" "bxor (bxor a b) a = b"
  by (auto simp: bxor_def)

lemma bxor_conj: "(a \<and> bxor b c) = bxor (a \<and> b) (a \<and> c)" "(bxor b c \<and> a) = bxor (b \<and> a) (c \<and> a)"
  by (auto simp: bxor_def)

lemma bxor_eq_False: "bxor a b = False \<longleftrightarrow> a = b" "\<not> bxor a b \<longleftrightarrow> a = b"
  by (auto simp: bxor_def)

section \<open>Sums over GF(2)\<close>

primrec gf2_sum :: "(nat \<Rightarrow> bool) \<Rightarrow> nat \<Rightarrow> bool" where
  "gf2_sum f 0 = False"
| "gf2_sum f (Suc n) = bxor (gf2_sum f n) (f n)"

lemma gf2_sum_cong:
  "n = m \<Longrightarrow> (\<And>i. i < m \<Longrightarrow> f i = g i) \<Longrightarrow> gf2_sum f n = gf2_sum g m"
  by (induction n arbitrary: m) auto

lemma gf2_sum_zero [simp]: "gf2_sum (\<lambda>_. False) n = False"
  by (induction n) auto

lemma gf2_sum_all_zero: "(\<And>i. i < n \<Longrightarrow> \<not> f i) \<Longrightarrow> \<not> gf2_sum f n"
  using gf2_sum_cong [of n n f "\<lambda>_. False"] by simp

lemma gf2_sum_xor: "gf2_sum (\<lambda>i. bxor (f i) (g i)) n = bxor (gf2_sum f n) (gf2_sum g n)"
  by (induction n) (auto simp: bxor_ac)

lemma gf2_sum_conj_left: "gf2_sum (\<lambda>i. a \<and> f i) n = (a \<and> gf2_sum f n)"
  by (cases a) auto

lemma gf2_sum_conj_right: "gf2_sum (\<lambda>i. f i \<and> a) n = (gf2_sum f n \<and> a)"
  by (cases a) auto

lemma gf2_sum_delta: "gf2_sum (\<lambda>i. i = k \<and> f i) n = (k < n \<and> f k)"
  by (induction n) (auto simp: less_Suc_eq)

lemma gf2_sum_delta': "gf2_sum (\<lambda>i. k = i \<and> f i) n = (k < n \<and> f k)"
  by (induction n) (auto simp: less_Suc_eq)

lemma gf2_sum_delta_right: "gf2_sum (\<lambda>i. f i \<and> i = k) n = (k < n \<and> f k)"
  by (induction n) (auto simp: less_Suc_eq)

lemma gf2_sum_swap:
  "gf2_sum (\<lambda>i. gf2_sum (\<lambda>j. f i j) m) n = gf2_sum (\<lambda>j. gf2_sum (\<lambda>i. f i j) n) m"
  by (induction n) (auto simp: gf2_sum_xor)

lemma gf2_sum_split:
  assumes "k < n"
  shows "gf2_sum f n = bxor (f k) (gf2_sum (\<lambda>i. i \<noteq> k \<and> f i) n)"
proof -
  have "gf2_sum f n = gf2_sum (\<lambda>i. bxor (i = k \<and> f i) (i \<noteq> k \<and> f i)) n"
    by (rule gf2_sum_cong) (auto simp: bxor_def)
  with assms show ?thesis by (simp add: gf2_sum_xor gf2_sum_delta)
qed

lemma gf2_sum_upd:
  assumes "k < n"
  shows "gf2_sum (\<lambda>i. if i = k then v else f i) n = bxor (gf2_sum f n) (bxor (f k) v)"
proof -
  have "gf2_sum (\<lambda>i. i \<noteq> k \<and> (if i = k then v else f i)) n = gf2_sum (\<lambda>i. i \<noteq> k \<and> f i) n"
    by (rule gf2_sum_cong) auto
  with assms show ?thesis
    by (simp add: gf2_sum_split [of k n f] gf2_sum_split [of k n "\<lambda>i. if i = k then v else f i"] bxor_ac)
qed

lemma gf2_sum_eq_odd_card: "gf2_sum f n = odd (card {i. i < n \<and> f i})"
proof (induction n)
  case (Suc n)
  have "{i. i < Suc n \<and> f i} = (if f n then insert n {i. i < n \<and> f i} else {i. i < n \<and> f i})"
    by (auto simp: less_Suc_eq)
  with Suc show ?case by auto
qed simp

section \<open>Bit lists\<close>

definition xor_bits :: "bool list \<Rightarrow> bool list \<Rightarrow> bool list" where
  "xor_bits xs ys = map2 bxor xs ys"

lemma length_xor_bits [simp]: "length (xor_bits xs ys) = min (length xs) (length ys)"
  by (simp add: xor_bits_def)

lemma nth_xor_bits [simp]:
  "i < length xs \<Longrightarrow> i < length ys \<Longrightarrow> xor_bits xs ys ! i = bxor (xs ! i) (ys ! i)"
  by (simp add: xor_bits_def)

text \<open>A bit set tested at a position; out of range reads as unset.\<close>

definition test :: "bool list \<Rightarrow> nat \<Rightarrow> bool" where
  "test bs i = (i < length bs \<and> bs ! i)"

lemma test_xor_bits:
  "length xs = length ys \<Longrightarrow> test (xor_bits xs ys) i = bxor (test xs i) (test ys i)"
  by (cases "i < length ys") (auto simp: test_def)

lemma test_replicate_False [simp]: "test (replicate n False) i = False"
  by (simp add: test_def)

lemma test_list_update:
  "test (bs[i := v]) j = (if i = j \<and> i < length bs then v else test bs j)"
  by (auto simp: test_def)

lemma bits_eqI:
  assumes "length xs = length ys" "\<And>i. i < length xs \<Longrightarrow> test xs i = test ys i"
  shows "xs = ys"
  using assms by (intro nth_equalityI) (auto simp: test_def)

lemma test_map_upt [simp]: "test (map f [0..<n]) i = (i < n \<and> f i)"
  by (auto simp: test_def)

definition bit_count :: "bool list \<Rightarrow> nat" where
  "bit_count bs = length (filter id bs)"

lemma bit_count_eq_card: "bit_count bs = card {i. test bs i}"
  by (simp add: bit_count_def length_filter_conv_card test_def)

lemma bit_count_0: "bit_count bs = 0 \<longleftrightarrow> (\<forall>i. \<not> test bs i)"
  by (auto simp: bit_count_def filter_empty_conv test_def in_set_conv_nth)

section \<open>Searching an index range\<close>

text \<open>\<open>std::ranges::find_if\<close> over \<open>[lo, hi)\<close>: the first index that satisfies the predicate,
  or \<open>hi\<close> when there is none.\<close>

function find_index :: "(nat \<Rightarrow> bool) \<Rightarrow> nat \<Rightarrow> nat \<Rightarrow> nat" where
  "find_index p lo hi = (if hi \<le> lo then hi else if p lo then lo else find_index p (Suc lo) hi)"
  by pat_completeness auto
termination
  by (relation "measure (\<lambda>(p, lo, hi). hi - lo)") auto

declare find_index.simps [simp del]

lemma find_index_le: "find_index p lo hi \<le> hi"
  by (induction p lo hi rule: find_index.induct) (subst find_index.simps, auto)

lemma find_index_found:
  "find_index p lo hi < hi \<Longrightarrow> lo \<le> find_index p lo hi \<and> p (find_index p lo hi)"
proof (induction p lo hi rule: find_index.induct)
  case (1 p lo hi)
  then show ?case
    by (cases "hi \<le> lo"; cases "p lo") (auto simp: find_index.simps [of p lo hi])
qed

lemma find_index_before:
  "lo \<le> i \<Longrightarrow> i < find_index p lo hi \<Longrightarrow> i < hi \<Longrightarrow> \<not> p i"
proof (induction p lo hi rule: find_index.induct)
  case (1 p lo hi)
  then show ?case
    by (cases "i = lo"; cases "p lo") (auto simp: find_index.simps [of p lo hi] split: if_splits)
qed

lemma find_index_none:
  "find_index p lo hi = hi \<Longrightarrow> lo \<le> i \<Longrightarrow> i < hi \<Longrightarrow> \<not> p i"
  using find_index_before [of lo i p hi] by simp

lemma find_index_exists:
  "lo \<le> i \<Longrightarrow> i < hi \<Longrightarrow> p i \<Longrightarrow> find_index p lo hi < hi"
  using find_index_le [of p lo hi] find_index_none [of p lo hi i] by (cases "find_index p lo hi = hi") auto

section \<open>Loops over an index range\<close>

text \<open>A \<open>for\<close> loop over \<open>[a, b)\<close> is a fold; its invariant is indexed by the loop variable.\<close>

lemma fold_upt_induct:
  assumes "a \<le> b" "I a s" "\<And>i s. a \<le> i \<Longrightarrow> i < b \<Longrightarrow> I i s \<Longrightarrow> I (Suc i) (f i s)"
  shows "I b (fold f [a..<b] s)"
  using assms
proof (induction b)
  case (Suc b)
  then show ?case by (cases "a = Suc b") auto
qed simp

lemma fold_invariant_set:
  assumes "I s" "\<And>x s. x \<in> set xs \<Longrightarrow> I s \<Longrightarrow> I (f x s)"
  shows "I (fold f xs s)"
  using assms by (induction xs arbitrary: s) auto

end
