(* ===== verification/Gf2Matrix.thy ===== *)
theory Gf2Matrix
  imports Prelude
begin

text \<open>
  Matrices over GF(2) as functions, the common abstraction of the program's three matrix classes
  (\<open>BooleanMatrix\<close>, \<open>ParityMatrix\<close>, the matrices of the TODD pass): row additions, strings of
  row additions and how they undo each other, solutions of linear systems, echelon forms. A CNOT
  circuit acts on a basis state as the same string of row additions on a column vector.
\<close>

section \<open>Row additions\<close>

type_synonym gmat = "nat \<Rightarrow> nat \<Rightarrow> bool"

definition row_add :: "nat \<Rightarrow> nat \<Rightarrow> gmat \<Rightarrow> gmat" where
  "row_add c t f = f(t := (\<lambda>j. bxor (f t j) (f c j)))"

definition row_adds :: "(nat \<times> nat) list \<Rightarrow> gmat \<Rightarrow> gmat" where
  "row_adds ops f = fold (\<lambda>(c, t). row_add c t) ops f"

lemma row_adds_simps [simp]:
  "row_adds [] f = f" "row_adds ((c, t) # ops) f = row_adds ops (row_add c t f)"
  "row_adds (ops @ ops') f = row_adds ops' (row_adds ops f)"
  by (simp_all add: row_adds_def)

definition ops_ok :: "nat \<Rightarrow> (nat \<times> nat) list \<Rightarrow> bool" where
  "ops_ok m ops = list_all (\<lambda>(c, t). c < m \<and> t < m \<and> c \<noteq> t) ops"

lemma ops_ok_simps [simp]:
  "ops_ok m []" "ops_ok m ((c, t) # ops) = (c < m \<and> t < m \<and> c \<noteq> t \<and> ops_ok m ops)"
  "ops_ok m (ops @ ops') = (ops_ok m ops \<and> ops_ok m ops')" "ops_ok m (rev ops) = ops_ok m ops"
  by (auto simp: ops_ok_def)

lemma row_add_apply: "row_add c t f r j = (if r = t then bxor (f t j) (f c j) else f r j)"
  by (simp add: row_add_def)

lemma row_add_twice: "c \<noteq> t \<Longrightarrow> row_add c t (row_add c t f) = f"
  by (auto simp: row_add_def fun_eq_iff bxor_ac)

lemma row_add_commute:
  "{c, t} \<inter> {c', t'} = {} \<Longrightarrow> row_add c t (row_add c' t' f) = row_add c' t' (row_add c t f)"
  by (auto simp: row_add_def fun_eq_iff)

text \<open>A string of row additions is undone by its reversal.\<close>

lemma row_adds_rev: "ops_ok m ops \<Longrightarrow> row_adds (rev ops) (row_adds ops f) = f"
  by (induction ops arbitrary: f) (auto simp: row_add_twice)

lemma row_adds_rev': "ops_ok m ops \<Longrightarrow> row_adds ops (row_adds (rev ops) f) = f"
  using row_adds_rev [of m "rev ops"] by simp

text \<open>Rows outside the range are untouched; columns are combined independently.\<close>

lemma row_adds_outside: "ops_ok m ops \<Longrightarrow> m \<le> r \<Longrightarrow> row_adds ops f r = f r"
  by (induction ops arbitrary: f) (auto simp: row_add_def)

section \<open>Products with a vector\<close>

text \<open>\<open>mul f k x r\<close>: row \<open>r\<close> of \<open>f\<close> times the column \<open>x\<close> of length \<open>k\<close>.\<close>

definition mul :: "gmat \<Rightarrow> nat \<Rightarrow> (nat \<Rightarrow> bool) \<Rightarrow> nat \<Rightarrow> bool" where
  "mul f k x r = gf2_sum (\<lambda>j. f r j \<and> x j) k"

definition vec_add :: "nat \<Rightarrow> nat \<Rightarrow> (nat \<Rightarrow> bool) \<Rightarrow> nat \<Rightarrow> bool" where
  "vec_add c t y = y(t := bxor (y t) (y c))"

definition vec_adds :: "(nat \<times> nat) list \<Rightarrow> (nat \<Rightarrow> bool) \<Rightarrow> nat \<Rightarrow> bool" where
  "vec_adds ops y = fold (\<lambda>(c, t). vec_add c t) ops y"

lemma vec_adds_simps [simp]:
  "vec_adds [] y = y" "vec_adds ((c, t) # ops) y = vec_adds ops (vec_add c t y)"
  "vec_adds (ops @ ops') y = vec_adds ops' (vec_adds ops y)"
  by (simp_all add: vec_adds_def)

lemma mul_row_add: "mul (row_add c t f) k x = vec_add c t (mul f k x)"
  by (auto simp: mul_def row_add_def vec_add_def fun_eq_iff bxor_conj gf2_sum_xor)

lemma mul_row_adds: "mul (row_adds ops f) k x = vec_adds ops (mul f k x)"
  by (induction ops arbitrary: f) (auto simp: mul_row_add)

lemma vec_add_twice: "c \<noteq> t \<Longrightarrow> vec_add c t (vec_add c t y) = y"
  by (auto simp: vec_add_def fun_eq_iff bxor_ac)

lemma vec_adds_rev: "ops_ok m ops \<Longrightarrow> vec_adds (rev ops) (vec_adds ops y) = y"
  by (induction ops arbitrary: y) (auto simp: vec_add_twice)

lemma vec_adds_row_adds: "vec_adds ops (\<lambda>r. f r j) = (\<lambda>r. row_adds ops f r j)"
proof (induction ops arbitrary: f)
  case (Cons x ops)
  obtain c t where [simp]: "x = (c, t)" by fastforce
  have "vec_add c t (\<lambda>r. f r j) = (\<lambda>r. row_add c t f r j)"
    by (auto simp: vec_add_def row_add_def fun_eq_iff)
  with Cons show ?case by simp
qed simp

lemma vec_adds_cong:
  "ops_ok m ops \<Longrightarrow> (\<And>r. r < m \<Longrightarrow> y r = z r) \<Longrightarrow> r < m \<Longrightarrow> vec_adds ops y r = vec_adds ops z r"
proof (induction ops arbitrary: y z)
  case (Cons x ops)
  obtain c t where x: "x = (c, t)" by fastforce
  have "vec_adds ops (vec_add c t y) r = vec_adds ops (vec_add c t z) r"
    by (rule Cons.IH) (use Cons.prems x in \<open>auto simp: vec_add_def\<close>)
  then show ?case by (simp add: x)
qed simp

lemma row_adds_cong_col:
  assumes "\<And>r. f r j = g r k"
  shows "row_adds ops f r j = row_adds ops g r k"
proof -
  have "(\<lambda>r. f r j) = (\<lambda>r. g r k)" using assms by (rule ext)
  then have "vec_adds ops (\<lambda>r. f r j) r = vec_adds ops (\<lambda>r. g r k) r" by (rule arg_cong)
  then show ?thesis by (simp only: vec_adds_row_adds)
qed

lemma row_adds_cong_rows:
  assumes "ops_ok m ops" "\<And>r. r < m \<Longrightarrow> f r j = g r k" "r < m"
  shows "row_adds ops f r j = row_adds ops g r k"
  using vec_adds_cong [OF assms(1), of "\<lambda>r. f r j" "\<lambda>r. g r k" r] assms(2,3)
  by (simp add: vec_adds_row_adds)

lemma vec_adds_zero_iff:
  assumes "ops_ok m ops"
  shows "(\<forall>r < m. \<not> vec_adds ops y r) = (\<forall>r < m. \<not> y r)"
proof -
  have *: "\<forall>r < m. \<not> vec_adds ops y r" if "ops_ok m ops" "\<forall>r < m. \<not> y r" for ops y
    using that by (induction ops arbitrary: y) (auto simp: vec_add_def)
  show ?thesis
    using * [OF assms, of y] * [of "rev ops" "vec_adds ops y"] vec_adds_rev [OF assms, of y] assms by auto
qed

text \<open>Row additions keep the solutions of a linear system \<open>f x = 0\<close> and, with the right-hand side
  as one more column, of \<open>f x = b\<close>.\<close>

definition solves :: "gmat \<Rightarrow> nat \<Rightarrow> nat \<Rightarrow> nat \<Rightarrow> (nat \<Rightarrow> bool) \<Rightarrow> bool" where
  "solves f m k b x \<longleftrightarrow> (\<forall>r < m. mul f k x r = f r b)"

definition in_kernel :: "gmat \<Rightarrow> nat \<Rightarrow> nat \<Rightarrow> (nat \<Rightarrow> bool) \<Rightarrow> bool" where
  "in_kernel f m k x \<longleftrightarrow> (\<forall>r < m. \<not> mul f k x r)"

lemma in_kernel_row_adds: "ops_ok m ops \<Longrightarrow> in_kernel (row_adds ops f) m k x = in_kernel f m k x"
  by (simp add: in_kernel_def mul_row_adds vec_adds_zero_iff)

lemma vec_adds_xor: "vec_adds ops (\<lambda>r. bxor (y r) (z r)) = (\<lambda>r. bxor (vec_adds ops y r) (vec_adds ops z r))"
proof (induction ops arbitrary: y z)
  case (Cons x ops)
  obtain c t where [simp]: "x = (c, t)" by fastforce
  have "vec_add c t (\<lambda>r. bxor (y r) (z r)) = (\<lambda>r. bxor (vec_add c t y r) (vec_add c t z r))"
    by (auto simp: vec_add_def fun_eq_iff bxor_ac)
  with Cons show ?case by simp
qed simp

lemma solves_row_adds:
  assumes "ops_ok m ops"
  shows "solves (row_adds ops f) m k b x = solves f m k b x"
proof -
  have "solves g m k b x = (\<forall>r < m. \<not> bxor (mul g k x r) (g r b))" for g
    by (simp add: solves_def bxor_def)
  moreover have "(\<lambda>r. bxor (mul (row_adds ops f) k x r) (row_adds ops f r b)) = vec_adds ops (\<lambda>r. bxor (mul f k x r) (f r b))"
    by (simp add: vec_adds_xor mul_row_adds vec_adds_row_adds)
  ultimately show ?thesis using vec_adds_zero_iff [OF assms, of "\<lambda>r. bxor (mul f k x r) (f r b)"] by (metis (no_types, lifting))
qed

section \<open>Echelon forms\<close>

text \<open>
  \<open>echelon f m ps cols\<close>: row \<open>i\<close> has its leading one in column \<open>ps ! i\<close>, below it the column is
  zero, and the rows after the pivot rows vanish on the columns before \<open>cols\<close>.
\<close>

definition echelon :: "gmat \<Rightarrow> nat \<Rightarrow> nat list \<Rightarrow> nat \<Rightarrow> bool" where
  "echelon f m ps cols \<longleftrightarrow> length ps \<le> m \<and> sorted_wrt (<) ps \<and> (\<forall>p \<in> set ps. p < cols) \<and>
     (\<forall>i < length ps. f i (ps ! i) \<and> (\<forall>j < ps ! i. \<not> f i j) \<and> (\<forall>r. i < r \<longrightarrow> r < m \<longrightarrow> \<not> f r (ps ! i))) \<and>
     (\<forall>r j. length ps \<le> r \<longrightarrow> r < m \<longrightarrow> j < cols \<longrightarrow> \<not> f r j)"

text \<open>The pivot columns of the last rows, from \<open>p\<close> on, are unit columns.\<close>

definition unit_cols :: "gmat \<Rightarrow> nat \<Rightarrow> nat list \<Rightarrow> nat \<Rightarrow> bool" where
  "unit_cols f m ps p \<longleftrightarrow> (\<forall>i. p \<le> i \<longrightarrow> i < length ps \<longrightarrow> (\<forall>r < m. f r (ps ! i) = (r = i)))"

lemma echelon_init: "echelon f m [] 0"
  by (simp add: echelon_def)

lemma echelon_row_low:
  assumes "echelon f m ps cols" "length ps \<le> c" "c < m" "length ps \<le> t" "t < m"
  shows "echelon (row_add c t f) m ps cols"
  using assms by (auto simp: echelon_def row_add_apply)

lemma echelon_skip:
  assumes "echelon f m ps cols" "\<And>r. length ps \<le> r \<Longrightarrow> r < m \<Longrightarrow> \<not> f r cols"
  shows "echelon f m ps (Suc cols)"
  using assms by (auto simp: echelon_def less_Suc_eq)

lemma echelon_push:
  assumes e: "echelon f m ps cols" and k: "length ps < m" "f (length ps) cols"
    and z: "\<And>r. length ps < r \<Longrightarrow> r < m \<Longrightarrow> \<not> f r cols"
  shows "echelon f m (ps @ [cols]) (Suc cols)"
  using assms by (auto simp: echelon_def nth_append less_Suc_eq sorted_wrt_append)

text \<open>Adding a lower pivot row to a higher one keeps the form and the unit columns.\<close>

lemma echelon_row_up:
  assumes e: "echelon f m ps cols" and t: "t < c" "c < length ps"
  shows "echelon (row_add c t f) m ps cols"
proof -
  have lt: "ps ! t < ps ! c" using e t by (auto simp: echelon_def sorted_wrt_iff_nth_less)
  have "\<not> f c j" if "j \<le> ps ! t" for j
    using e t lt that by (auto simp: echelon_def)
  moreover have "\<not> f c (ps ! i)" if "i < t" for i
    using e t that by (auto simp: echelon_def)
  ultimately show ?thesis
    using e t by (auto simp: echelon_def row_add_apply)
qed

lemma unit_cols_row_up:
  assumes "unit_cols f m ps p" "c < p" "c < m" "t \<noteq> c"
  shows "unit_cols (row_add c t f) m ps p"
  using assms by (auto simp: unit_cols_def row_add_apply)

text \<open>A fully reduced square matrix of full rank is the identity.\<close>

lemma sorted_full:
  assumes "sorted_wrt (<) ps" "length ps = n" "\<forall>p \<in> set ps. p < n"
  shows "ps = [0..<n]"
proof -
  have "set ps = {0..<n}"
  proof (rule card_subset_eq)
    show "card (set ps) = card {0..<n}"
      using assms by (simp add: distinct_card strict_sorted_iff)
  qed (use assms in auto)
  then show ?thesis
    using assms(1) by (intro strict_sorted_equal) auto
qed

lemma reduced_identity:
  assumes "echelon f n ps n" "unit_cols f n ps 0" "length ps = n" "r < n" "j < n"
  shows "f r j = (r = j)"
proof -
  have "ps = [0..<n]" using assms by (intro sorted_full) (auto simp: echelon_def)
  with assms show ?thesis by (auto simp: unit_cols_def)
qed

end
