(* ===== verification/BooleanMatrix.thy ===== *)
theory BooleanMatrix
  imports Gf2Matrix
begin

text \<open>
  The class \<open>dvlab::BooleanMatrix\<close> (src/src/util/boolean_matrix.hpp, boolean_matrix.cpp). A row is a
  list of bytes, as in the code; sums and products are taken in \<open>int\<close> and reduced modulo 2. The
  invariant \<open>bm_ok\<close> says that the entries are 0 or 1 and the rows of equal length; \<open>bm_fun\<close> reads
  such a matrix as a matrix over GF(2). The code reads \<open>_matrix[0]\<close> in \<open>num_cols()\<close>; on a matrix
  without rows the model takes 0 columns.
\<close>

section \<open>Rows\<close>

type_synonym row = "nat list"

definition row_plus :: "row \<Rightarrow> row \<Rightarrow> row" where
  "row_plus l r = map (\<lambda>i. (l ! i + r ! i) mod 2) [0..<length l]"

definition row_scale :: "row \<Rightarrow> nat \<Rightarrow> row" where
  "row_scale l k = map (\<lambda>x. (x * k) mod 2) l"

definition row_times :: "row \<Rightarrow> row \<Rightarrow> row" where
  "row_times l r = map (\<lambda>i. (l ! i * r ! i) mod 2) [0..<length l]"

definition is_one_hot :: "row \<Rightarrow> bool" where
  "is_one_hot r =
     (case dropWhile (\<lambda>e. e \<noteq> 1) r of [] \<Rightarrow> False | _ # rest \<Rightarrow> 1 \<notin> set rest)"

definition is_zeros :: "row \<Rightarrow> bool" where
  "is_zeros r = (\<not> list_ex (\<lambda>e. e = 1) r)"

definition row_sum :: "row \<Rightarrow> nat" where
  "row_sum r = fold (\<lambda>i sum. if i = 1 then sum + 1 else sum) r 0"

definition row_equal :: "row \<Rightarrow> row \<Rightarrow> bool" where
  "row_equal l r = (if length l \<noteq> length r then False else list_all (\<lambda>i. l ! i = r ! i) [0..<length l])"

section \<open>Matrices\<close>

record boolean_matrix =
  bm_rows :: "row list"
  bm_ops :: "(nat \<times> nat) list"

definition bm_of_rows :: "row list \<Rightarrow> boolean_matrix" where
  "bm_of_rows rs = \<lparr>bm_rows = rs, bm_ops = []\<rparr>"

definition bm_filled :: "nat \<Rightarrow> nat \<Rightarrow> nat \<Rightarrow> boolean_matrix" where
  "bm_filled rows cols v = bm_of_rows (replicate rows (replicate cols v))"

definition bm_reset :: "boolean_matrix \<Rightarrow> boolean_matrix" where
  "bm_reset M = \<lparr>bm_rows = [], bm_ops = []\<rparr>"

definition num_rows :: "boolean_matrix \<Rightarrow> nat" where
  "num_rows M = length (bm_rows M)"

definition num_cols :: "boolean_matrix \<Rightarrow> nat" where
  "num_cols M = (case bm_rows M of [] \<Rightarrow> 0 | r # _ \<Rightarrow> length r)"

definition find_row :: "boolean_matrix \<Rightarrow> row \<Rightarrow> nat option" where
  "find_row M r =
     (let i = find_index (\<lambda>i. row_equal (bm_rows M ! i) r) 0 (num_rows M)
      in if i = num_rows M then None else Some i)"

definition entry :: "boolean_matrix \<Rightarrow> nat \<Rightarrow> nat \<Rightarrow> nat" where
  "entry M r c = bm_rows M ! r ! c"

definition push_zeros_column :: "boolean_matrix \<Rightarrow> boolean_matrix" where
  "push_zeros_column M = M\<lparr>bm_rows := map (\<lambda>r. r @ [0]) (bm_rows M)\<rparr>"

definition push_zeros_row :: "boolean_matrix \<Rightarrow> boolean_matrix" where
  "push_zeros_row M = M\<lparr>bm_rows := bm_rows M @ [replicate (num_cols M) 0]\<rparr>"

definition push_row :: "row \<Rightarrow> boolean_matrix \<Rightarrow> boolean_matrix" where
  "push_row r M = M\<lparr>bm_rows := bm_rows M @ [r]\<rparr>"

definition erase_row :: "nat \<Rightarrow> boolean_matrix \<Rightarrow> boolean_matrix" where
  "erase_row r M = M\<lparr>bm_rows := take r (bm_rows M) @ drop (Suc r) (bm_rows M)\<rparr>"

text \<open>A row operation out of range is refused with an error message and the result \<open>false\<close>.\<close>

definition row_operation :: "nat \<Rightarrow> nat \<Rightarrow> bool \<Rightarrow> boolean_matrix \<Rightarrow> bool \<times> boolean_matrix" where
  "row_operation ctrl targ track M =
     (if num_rows M \<le> ctrl then (False, M)
      else if num_rows M \<le> targ then (False, M)
      else (True, M\<lparr>bm_rows := (bm_rows M)[targ := row_plus (bm_rows M ! targ) (bm_rows M ! ctrl)],
                    bm_ops := (if track then bm_ops M @ [(ctrl, targ)] else bm_ops M)\<rparr>))"

definition do_op :: "nat \<Rightarrow> nat \<Rightarrow> bool \<Rightarrow> boolean_matrix \<Rightarrow> boolean_matrix" where
  "do_op ctrl targ track M = snd (row_operation ctrl targ track M)"

section \<open>Gaussian elimination by sections\<close>

definition get_section_range :: "nat \<Rightarrow> nat \<Rightarrow> nat \<Rightarrow> nat \<times> nat" where
  "get_section_range block_size cols section_idx =
     (section_idx * block_size, min cols ((section_idx + 1) * block_size))"

definition get_sub_vec :: "boolean_matrix \<Rightarrow> nat \<Rightarrow> nat \<Rightarrow> nat \<Rightarrow> nat list" where
  "get_sub_vec M row_idx sb se = take (se - sb) (drop sb (bm_rows M ! row_idx))"

text \<open>The hash map from the sub-vectors seen so far to their rows is a map of the model.\<close>

definition clear_section_duplicates ::
  "bool \<Rightarrow> nat \<Rightarrow> nat \<Rightarrow> nat list \<Rightarrow> boolean_matrix \<Rightarrow> boolean_matrix" where
  "clear_section_duplicates track sb se rows M =
     fst (fold (\<lambda>r (M, dup :: nat list \<rightharpoonup> nat).
                  let v = get_sub_vec M r sb se in
                  if list_all (\<lambda>e. e = 0) v then (M, dup)
                  else (case dup v of Some r' \<Rightarrow> (do_op r' r track M, dup)
                                    | None \<Rightarrow> (M, dup(v \<mapsto> r))))
            rows (M, Map.empty))"

definition clear_all_1s_in_column :: "bool \<Rightarrow> nat \<Rightarrow> nat \<Rightarrow> nat list \<Rightarrow> boolean_matrix \<Rightarrow> boolean_matrix" where
  "clear_all_1s_in_column track pivot_row col rows M =
     fold (\<lambda>r M. if entry M r col = 1 then do_op pivot_row r track M else M) rows M"

definition eliminate_column :: "bool \<Rightarrow> nat \<Rightarrow> boolean_matrix \<times> nat list \<Rightarrow> boolean_matrix \<times> nat list" where
  "eliminate_column track col s =
     (case s of (M, pivots) \<Rightarrow>
        (let row_idx = find_index (\<lambda>r. entry M r col = 1) (length pivots) (num_rows M) in
         if num_rows M \<le> row_idx then (M, pivots)
         else (let M1 = (if row_idx \<noteq> length pivots then do_op row_idx (length pivots) track M else M);
                   M2 = clear_all_1s_in_column track (length pivots) col [length pivots + 1..<num_rows M1] M1
               in (M2, pivots @ [col]))))"

definition eliminate_section :: "nat \<Rightarrow> bool \<Rightarrow> nat \<Rightarrow> boolean_matrix \<times> nat list \<Rightarrow> boolean_matrix \<times> nat list" where
  "eliminate_section block_size track section_idx s =
     (case s of (M, pivots) \<Rightarrow>
        (let (sb, se) = get_section_range block_size (num_cols M) section_idx;
             M1 = clear_section_duplicates track sb se [length pivots..<num_rows M] M
         in fold (eliminate_column track) [sb..<se] (M1, pivots)))"

text \<open>The inner \<open>while\<close> of the back substitution: it pops one pivot per round, so the number of
  pivots bounds it. The flag tells whether it returned from the function.\<close>

function back_pivots ::
  "bool \<Rightarrow> nat \<Rightarrow> nat \<Rightarrow> boolean_matrix \<times> nat list \<Rightarrow> boolean_matrix \<times> nat list \<times> bool" where
  "back_pivots track sb se (M, pivots) =
     (if pivots \<noteq> [] \<and> sb \<le> last pivots \<and> last pivots < se
      then (let lst = last pivots; pivots' = butlast pivots;
                M' = clear_all_1s_in_column track (length pivots') lst [0..<length pivots'] M
            in if pivots' = [] then (M', pivots', True) else back_pivots track sb se (M', pivots'))
      else (M, pivots, False))"
  by pat_completeness auto
termination by (relation "measure (\<lambda>(track, sb, se, M, pivots). length pivots)") auto

declare back_pivots.simps [simp del]

fun back_sections :: "nat \<Rightarrow> bool \<Rightarrow> nat list \<Rightarrow> boolean_matrix \<times> nat list \<Rightarrow> boolean_matrix" where
  "back_sections block_size track [] s = fst s"
| "back_sections block_size track (section_idx # rest) s =
     (case s of (M, pivots) \<Rightarrow>
        (let (sb, se) = get_section_range block_size (num_cols M) section_idx;
             M1 = clear_section_duplicates track sb se (rev [0..<length pivots]) M;
             (M2, pivots2, returned) = back_pivots track sb se (M1, pivots)
         in if returned then M2 else back_sections block_size track rest (M2, pivots2)))"

text \<open>The number of sections is the quotient rounded up; a block size of 0 is outside the contract.\<close>

definition n_sections :: "nat \<Rightarrow> nat \<Rightarrow> nat" where
  "n_sections cols block_size = (cols + block_size - 1) div block_size"

definition gaussian_elimination_skip :: "nat \<Rightarrow> bool \<Rightarrow> bool \<Rightarrow> boolean_matrix \<Rightarrow> nat \<times> boolean_matrix" where
  "gaussian_elimination_skip block_size do_fully_reduced track M =
     (let secs = [0..<n_sections (num_cols M) block_size];
          (M1, pivots) = fold (eliminate_section block_size track) secs (M, []);
          rank = length pivots
      in if \<not> do_fully_reduced \<or> rank = 0 then (rank, M1)
         else (rank, back_sections block_size track (rev secs) (M1, pivots)))"

definition matrix_rank :: "boolean_matrix \<Rightarrow> nat" where
  "matrix_rank M = fst (gaussian_elimination_skip (num_cols M) False False M)"

section \<open>Elimination with an augmented column\<close>

text \<open>\<open>num_variables\<close> is \<open>num_cols() - 1\<close> in \<open>size_t\<close>; a matrix without columns is outside the
  contract. The loop variable \<open>cur_col\<close> grows in every round.\<close>

function augmented_loop :: "bool \<Rightarrow> nat \<Rightarrow> nat \<Rightarrow> nat \<Rightarrow> boolean_matrix \<Rightarrow> boolean_matrix \<times> nat" where
  "augmented_loop track num_variables cur_row cur_col M =
     (if cur_row < num_rows M \<and> cur_col < num_variables then
        (if list_all (\<lambda>r. r ! cur_col = 0) (bm_rows M)
         then augmented_loop track num_variables cur_row (cur_col + 1) M
         else
           (let first = find_index (\<lambda>r. entry M r cur_col = 1) cur_row (num_rows M) in
            if entry M cur_row cur_col = 0 \<and> num_rows M \<le> first
            then augmented_loop track num_variables cur_row (cur_col + 1) M
            else
              (let M1 = (if entry M cur_row cur_col = 0 then do_op first cur_row track M else M);
                   M2 = fold (\<lambda>r M. if r \<noteq> cur_row \<and> entry M r cur_col = 1 then do_op cur_row r track M else M)
                          [0..<num_rows M1] M1
               in augmented_loop track num_variables (cur_row + 1) (cur_col + 1) M2)))
      else (M, cur_row))"
  by pat_completeness auto
termination by (relation "measure (\<lambda>(track, nv, cur_row, cur_col, M). nv - cur_col)") auto

declare augmented_loop.simps [simp del]

definition gaussian_elimination_augmented :: "bool \<Rightarrow> boolean_matrix \<Rightarrow> bool \<times> boolean_matrix" where
  "gaussian_elimination_augmented track M =
     (let (M', cur_row) = augmented_loop track (num_cols M - 1) 0 0 (M\<lparr>bm_ops := []\<rparr>)
      in (\<not> list_ex (\<lambda>r. last r = 1) (drop cur_row (bm_rows M')), M'))"

section \<open>Filtering cancelling row operations\<close>

text \<open>\<open>last_used\<close> maps a row to the other row and the index of the last operation on it. The state
  of the loop is the map and the list \<open>dups\<close> of the indices to remove.\<close>

definition filter_step ::
  "(nat \<times> nat) list \<Rightarrow> nat \<Rightarrow> (nat \<rightharpoonup> nat \<times> nat) \<times> nat list \<Rightarrow> (nat \<rightharpoonup> nat \<times> nat) \<times> nat list" where
  "filter_step ops i s =
     (case s of (last_used, dups) \<Rightarrow>
        (let (src, dest) = ops ! i;
             first_match = (case last_used src of None \<Rightarrow> False
                            | Some (other, op_idx) \<Rightarrow> other = dest \<and> fst (ops ! op_idx) = src);
             second_match = (case last_used dest of None \<Rightarrow> False
                             | Some (other, op_idx) \<Rightarrow> other = src \<and> snd (ops ! op_idx) = dest)
         in if first_match \<and> second_match
            then ((last_used(src := None))(dest := None), dups @ [i, snd (the (last_used dest))])
            else (last_used(src \<mapsto> (dest, i), dest \<mapsto> (src, i)), dups)))"

definition erase_at :: "nat \<Rightarrow> 'a list \<Rightarrow> 'a list" where
  "erase_at k xs = take k xs @ drop (Suc k) xs"

definition filter_duplicate_row_operations :: "boolean_matrix \<Rightarrow> nat \<times> boolean_matrix" where
  "filter_duplicate_row_operations M =
     (let ops = bm_ops M;
          dups = sort (snd (fold (filter_step ops) [0..<length ops] (Map.empty, [])))
      in (length dups, M\<lparr>bm_ops := fold erase_at (rev dups) ops\<rparr>))"

definition row_operation_depth :: "boolean_matrix \<Rightarrow> nat" where
  "row_operation_depth M =
     (if bm_ops M = [] then 0
      else Max (set (fold (\<lambda>(a, b) d. let m = max (d ! a) (d ! b) in (d[a := m + 1])[b := m + 1])
                       (bm_ops M) (replicate (num_rows M) 0))))"

section \<open>Stacking, transposition, identity\<close>

definition vstack :: "boolean_matrix \<Rightarrow> boolean_matrix \<Rightarrow> boolean_matrix" where
  "vstack a b =
     (if num_rows b = 0 then a else if num_rows a = 0 then b
      else bm_of_rows (bm_rows a @ bm_rows b))"

definition hstack :: "boolean_matrix \<Rightarrow> boolean_matrix \<Rightarrow> boolean_matrix" where
  "hstack a b =
     (if num_cols b = 0 then a else if num_cols a = 0 then b
      else bm_of_rows (map (\<lambda>i. bm_rows a ! i @ bm_rows b ! i) [0..<num_rows a]))"

definition bm_transpose :: "boolean_matrix \<Rightarrow> boolean_matrix" where
  "bm_transpose M =
     bm_of_rows (map (\<lambda>i. map (\<lambda>j. entry M j i) [0..<num_rows M]) [0..<num_cols M])"

definition bm_identity :: "nat \<Rightarrow> boolean_matrix" where
  "bm_identity n =
     fold (\<lambda>i M. M\<lparr>bm_rows := (bm_rows M)[i := (bm_rows M ! i)[i := 1]]\<rparr>) [0..<n] (bm_filled n n 0)"

section \<open>The invariant and the abstraction\<close>

definition bm_ok :: "nat \<Rightarrow> nat \<Rightarrow> boolean_matrix \<Rightarrow> bool" where
  "bm_ok m k M \<longleftrightarrow> length (bm_rows M) = m \<and> (\<forall>r \<in> set (bm_rows M). length r = k \<and> (\<forall>e \<in> set r. e < 2))"

definition bm_fun :: "boolean_matrix \<Rightarrow> gmat" where
  "bm_fun M r c = (entry M r c = 1)"

lemma bm_ok_rows: "bm_ok m k M \<Longrightarrow> num_rows M = m" "bm_ok m k M \<Longrightarrow> length (bm_rows M) = m"
  by (simp_all add: bm_ok_def num_rows_def)

lemma bm_ok_cols: "bm_ok m k M \<Longrightarrow> 0 < m \<Longrightarrow> num_cols M = k"
  by (auto simp: bm_ok_def num_cols_def split: list.split)

lemma bm_ok_row: "bm_ok m k M \<Longrightarrow> r < m \<Longrightarrow> length (bm_rows M ! r) = k"
  by (auto simp: bm_ok_def)

lemma bm_ok_entry: "bm_ok m k M \<Longrightarrow> r < m \<Longrightarrow> c < k \<Longrightarrow> entry M r c < 2"
  unfolding bm_ok_def entry_def by (metis nth_mem)

lemma entry_fun: "bm_ok m k M \<Longrightarrow> r < m \<Longrightarrow> c < k \<Longrightarrow> entry M r c = of_bool (bm_fun M r c)"
  using bm_ok_entry [of m k M r c] by (auto simp: bm_fun_def)

lemma bm_eqI:
  assumes "bm_ok m k M" "bm_ok m k N" "\<And>r c. r < m \<Longrightarrow> c < k \<Longrightarrow> bm_fun M r c = bm_fun N r c"
  shows "bm_rows M = bm_rows N"
proof (rule nth_equalityI)
  fix r assume "r < length (bm_rows M)"
  then have r: "r < m" using assms by (simp add: bm_ok_def)
  show "bm_rows M ! r = bm_rows N ! r"
  proof (rule nth_equalityI)
    fix c assume "c < length (bm_rows M ! r)"
    with r assms show "bm_rows M ! r ! c = bm_rows N ! r ! c"
      using entry_fun [of m k M r c] entry_fun [of m k N r c] by (simp add: entry_def bm_ok_row)
  qed (use r assms in \<open>simp add: bm_ok_row\<close>)
qed (use assms in \<open>simp add: bm_ok_def\<close>)

lemma do_op_ok:
  assumes M: "bm_ok m k M" and c: "c < m" "t < m"
  shows "bm_ok m k (do_op c t track M)"
    "bm_ops (do_op c t track M) = (if track then bm_ops M @ [(c, t)] else bm_ops M)"
    "r < m \<Longrightarrow> j < k \<Longrightarrow> bm_fun (do_op c t track M) r j = row_add c t (bm_fun M) r j"
proof -
  have len: "length (bm_rows M ! t) = k" "length (bm_rows M ! c) = k" using M c by (simp_all add: bm_ok_row)
  have rows: "bm_rows (do_op c t track M) = (bm_rows M)[t := row_plus (bm_rows M ! t) (bm_rows M ! c)]"
    using bm_ok_rows [OF M] c by (simp add: do_op_def row_operation_def)
  show "bm_ok m k (do_op c t track M)"
    unfolding bm_ok_def rows using M len by (auto simp: bm_ok_def row_plus_def dest!: set_update_subset_insert [THEN subsetD])
  show "bm_ops (do_op c t track M) = (if track then bm_ops M @ [(c, t)] else bm_ops M)"
    using bm_ok_rows [OF M] c by (simp add: do_op_def row_operation_def)
  assume r: "r < m" "j < k"
  have e: "bm_rows M ! t ! j = of_bool (bm_fun M t j)" "bm_rows M ! c ! j = of_bool (bm_fun M c j)"
    using entry_fun [OF M] c r by (simp_all add: entry_def)
  have "bm_rows (do_op c t track M) ! r ! j =
      (if r = t then (of_bool (bm_fun M t j) + of_bool (bm_fun M c j)) mod 2 else bm_rows M ! r ! j)"
    using r c len e by (simp add: rows row_plus_def nth_list_update bm_ok_rows [OF M])
  moreover have "(of_bool x + of_bool y) mod 2 = (1 :: nat) \<longleftrightarrow> bxor x y" for x y
    by (cases x; cases y) simp_all
  ultimately show "bm_fun (do_op c t track M) r j = row_add c t (bm_fun M) r j"
    by (cases "r = t") (simp_all add: bm_fun_def [of "do_op c t track M"] bm_fun_def [of M r] entry_def row_add_apply)
qed

text \<open>
  \<open>steps M N\<close>: \<open>N\<close> comes from \<open>M\<close> by a string of row additions, which is what was recorded if
  recording is on.
\<close>

definition steps :: "nat \<Rightarrow> nat \<Rightarrow> bool \<Rightarrow> boolean_matrix \<Rightarrow> boolean_matrix \<Rightarrow> bool" where
  "steps m k track M N \<longleftrightarrow> bm_ok m k N \<and>
     (\<exists>ops. ops_ok m ops \<and> bm_ops N = (if track then bm_ops M @ ops else bm_ops M) \<and>
        (\<forall>r < m. \<forall>j < k. bm_fun N r j = row_adds ops (bm_fun M) r j))"

lemma steps_refl: "bm_ok m k M \<Longrightarrow> steps m k track M M"
  unfolding steps_def by (auto intro!: exI [of _ "[]"])

lemma steps_ok: "steps m k track M N \<Longrightarrow> bm_ok m k N"
  by (simp add: steps_def)

lemma steps_trans:
  assumes "steps m k track M N" "steps m k track N K"
  shows "steps m k track M K"
proof -
  obtain a b where a: "ops_ok m a" "bm_ops N = (if track then bm_ops M @ a else bm_ops M)"
      "\<And>r j. r < m \<Longrightarrow> j < k \<Longrightarrow> bm_fun N r j = row_adds a (bm_fun M) r j"
    and b: "ops_ok m b" "bm_ops K = (if track then bm_ops N @ b else bm_ops N)"
      "\<And>r j. r < m \<Longrightarrow> j < k \<Longrightarrow> bm_fun K r j = row_adds b (bm_fun N) r j" "bm_ok m k K"
    using assms by (auto simp: steps_def)
  have "bm_fun K r j = row_adds (a @ b) (bm_fun M) r j" if "r < m" "j < k" for r j
    using row_adds_cong_rows [OF b(1), of "bm_fun N" j "row_adds a (bm_fun M)" j r] a(3) b(3) that by simp
  with a b show ?thesis unfolding steps_def by (intro conjI exI [of _ "a @ b"]) auto
qed

lemma steps_op:
  assumes "steps m k track M N" "c < m" "t < m" "c \<noteq> t"
  shows "steps m k track M (do_op c t track N)"
proof (rule steps_trans [OF assms(1)])
  note ok = do_op_ok [OF steps_ok [OF assms(1)] assms(2,3), where track = track]
  show "steps m k track N (do_op c t track N)"
    unfolding steps_def using ok assms by (intro conjI exI [of _ "[(c, t)]"]) auto
qed

end
