(* ===== verification/GaussianElimination.thy ===== *)
theory GaussianElimination
  imports BooleanMatrix
begin

text \<open>
  Correctness of \<open>BooleanMatrix::gaussian_elimination_skip\<close>: it performs row additions only, records
  them when asked to, leaves an echelon form whose pivots are the columns collected in \<open>pivots\<close>,
  and after back substitution every pivot column is a unit column, for every block size. Then
  \<open>gaussian_elimination_augmented\<close>: its answer says whether the linear system has a solution.
\<close>

section \<open>Loops over rows\<close>

lemma steps_entry: "steps m k track M N \<Longrightarrow> r < m \<Longrightarrow> c < k \<Longrightarrow> (entry N r c = 1) = bm_fun N r c"
  by (simp add: bm_fun_def)

lemma echelon_cong:
  assumes e: "echelon f m ps c" and c: "c \<le> k" and fg: "\<And>r j. r < m \<Longrightarrow> j < k \<Longrightarrow> f r j = g r j"
  shows "echelon g m ps c"
proof -
  have eq: "g r j = f r j" if "r < m" "j < c" for r j using fg [of r j] that c by simp
  have len: "length ps \<le> m" using e by (simp add: echelon_def)
  have lt: "ps ! i < c" if "i < length ps" for i using e that by (simp add: echelon_def)
  have "g i (ps ! i) \<and> (\<forall>j < ps ! i. \<not> g i j) \<and> (\<forall>r. i < r \<longrightarrow> r < m \<longrightarrow> \<not> g r (ps ! i))" if i: "i < length ps" for i
  proof -
    have "f i (ps ! i)" "\<And>j. j < ps ! i \<Longrightarrow> \<not> f i j" "\<And>r. i < r \<Longrightarrow> r < m \<Longrightarrow> \<not> f r (ps ! i)"
      using e i by (auto simp: echelon_def)
    moreover have "i < m" "ps ! i < c" using i len lt by auto
    ultimately show ?thesis by (simp add: eq)
  qed
  moreover have "\<not> g r j" if "length ps \<le> r" "r < m" "j < c" for r j
    using e that by (simp add: eq echelon_def)
  ultimately show ?thesis using e by (simp add: echelon_def)
qed

lemma unit_cols_cong:
  assumes "unit_cols f m ps p" "\<And>r j. r < m \<Longrightarrow> j < k \<Longrightarrow> f r j = g r j" "\<forall>x \<in> set ps. x < k"
  shows "unit_cols g m ps p"
  using assms by (auto simp: unit_cols_def)

text \<open>Clearing duplicates adds an earlier row of the list to a later one.\<close>

lemma clear_section_duplicates_inv:
  assumes Q: "Q M" and rows: "sorted_wrt R rows"
    and step: "\<And>N c t. Q N \<Longrightarrow> c \<in> set rows \<Longrightarrow> t \<in> set rows \<Longrightarrow> R c t \<Longrightarrow> Q (do_op c t track N)"
  shows "Q (clear_section_duplicates track sb se rows M)"
proof -
  let ?f = "\<lambda>r (M, dup :: nat list \<rightharpoonup> nat).
                  let v = get_sub_vec M r sb se in
                  if list_all (\<lambda>e. e = 0) v then (M, dup)
                  else (case dup v of Some r' \<Rightarrow> (do_op r' r track M, dup)
                                    | None \<Rightarrow> (M, dup(v \<mapsto> r)))"
  have "Q (fst (fold ?f todo (N, dup)))"
    if "Q N" "rows = done' @ todo" "\<And>v r. dup v = Some r \<Longrightarrow> r \<in> set done'" for todo done' N dup
    using that
  proof (induction todo arbitrary: done' N dup)
    case (Cons r todo)
    have R: "R c r" if "c \<in> set done'" for c
      using rows that unfolding Cons.prems(2) by (simp add: sorted_wrt_append)
    obtain N' dup' where s: "?f r (N, dup) = (N', dup')" by fastforce
    have "Q N' \<and> (\<forall>v x. dup' v = Some x \<longrightarrow> x \<in> set (done' @ [r]))"
    proof (cases "list_all (\<lambda>e. e = 0) (get_sub_vec N r sb se)")
      case False
      show ?thesis
      proof (cases "dup (get_sub_vec N r sb se)")
        case None
        then have "N' = N" "dup' = dup(get_sub_vec N r sb se \<mapsto> r)" using s False by (auto simp: Let_def)
        then show ?thesis using Cons.prems(1,3) by auto
      next
        case (Some c)
        then have "N' = do_op c r track N" "dup' = dup" using s False by (auto simp: Let_def)
        then show ?thesis
          using Cons.prems(1,3) step [OF Cons.prems(1) _ _ R] Some unfolding Cons.prems(2) by fastforce
      qed
    qed (use s Cons.prems in \<open>auto simp: Let_def\<close>)
    then show ?case using Cons.IH [of N' "done' @ [r]" dup'] Cons.prems(2) s by auto
  qed simp
  from this [of M "[]" rows Map.empty] Q show ?thesis by (simp add: clear_section_duplicates_def)
qed

lemma clear_all_1s_spec:
  assumes M: "steps m k track M N" and p: "p < m" "p \<notin> set rows" and rows: "set rows \<subseteq> {..<m}" "distinct rows"
    and col: "col < k" and one: "bm_fun N p col" and Q: "Q N"
    and step: "\<And>N r. steps m k track M N \<Longrightarrow> Q N \<Longrightarrow> r \<in> set rows \<Longrightarrow> Q (do_op p r track N)"
  defines "N' \<equiv> clear_all_1s_in_column track p col rows N"
  shows "steps m k track M N' \<and> Q N' \<and> (\<forall>r \<in> set rows. \<not> bm_fun N' r col) \<and>
    (\<forall>r < m. r \<notin> set rows \<longrightarrow> (\<forall>j < k. bm_fun N' r j = bm_fun N r j))"
proof -
  have "steps m k track M N' \<and> Q N' \<and> (\<forall>r \<in> set todo. \<not> bm_fun N' r col) \<and>
      (\<forall>r < m. r \<notin> set todo \<longrightarrow> (\<forall>j < k. bm_fun N' r j = bm_fun N r j))"
    if "steps m k track M N" "Q N" "set todo \<subseteq> set rows" "distinct todo" "bm_fun N p col"
      "N' = clear_all_1s_in_column track p col todo N" for N N' todo
    using that
  proof (induction todo arbitrary: N)
    case (Cons r todo)
    have r: "r < m" "r \<noteq> p" using Cons.prems(3) rows p by auto
    define N1 where "N1 = (if entry N r col = 1 then do_op p r track N else N)"
    note ok = do_op_ok(3) [OF steps_ok [OF Cons.prems(1)] p(1) r(1), where track = track]
    have N1: "steps m k track M N1" "Q N1"
      using Cons.prems(1,2,3) step [OF Cons.prems(1,2), of r] steps_op [OF Cons.prems(1) p(1) r(1)] r
      by (auto simp: N1_def)
    have fun1: "bm_fun N1 x j = (if x = r \<and> bm_fun N r col then bxor (bm_fun N r j) (bm_fun N p j) else bm_fun N x j)"
      if "x < m" "j < k" for x j
      using ok [OF that] by (auto simp: N1_def row_add_apply bm_fun_def [of N r col])
    have "bm_fun N1 p col" using fun1 [OF p(1) col] r Cons.prems(5) by auto
    moreover have "N' = clear_all_1s_in_column track p col todo N1"
      using Cons.prems(6) by (simp add: clear_all_1s_in_column_def N1_def)
    ultimately have IH: "steps m k track M N' \<and> Q N' \<and> (\<forall>r \<in> set todo. \<not> bm_fun N' r col) \<and>
      (\<forall>r < m. r \<notin> set todo \<longrightarrow> (\<forall>j < k. bm_fun N' r j = bm_fun N1 r j))"
      using Cons.IH [OF N1] Cons.prems(3,4) by auto
    have "\<not> bm_fun N1 r col" using fun1 [OF r(1) col] Cons.prems(5) by auto
    then have "\<not> bm_fun N' r col" using IH r(1) col Cons.prems(4) by auto
    moreover have "bm_fun N' x j = bm_fun N x j" if "x < m" "x \<notin> set (r # todo)" "j < k" for x j
      using IH that fun1 [of x j] by auto
    ultimately show ?case using IH by auto
  qed (simp add: clear_all_1s_in_column_def)
  from this [OF M Q subset_refl rows(2) one] show ?thesis by (simp add: N'_def)
qed

section \<open>The forward pass\<close>

definition forward :: "nat \<Rightarrow> nat \<Rightarrow> bool \<Rightarrow> boolean_matrix \<Rightarrow> nat \<Rightarrow> boolean_matrix \<times> nat list \<Rightarrow> bool" where
  "forward m k track M c s \<longleftrightarrow> steps m k track M (fst s) \<and> echelon (bm_fun (fst s)) m (snd s) c"

lemma forward_op_low:
  assumes "forward m k track M c (N, ps)" "length ps \<le> a" "a < m" "length ps \<le> b" "b < m" "a \<noteq> b" "c \<le> k"
  shows "forward m k track M c (do_op a b track N, ps)"
proof -
  have N: "steps m k track M N" "echelon (bm_fun N) m ps c" using assms(1) by (auto simp: forward_def)
  have "echelon (bm_fun (do_op a b track N)) m ps c"
    by (rule echelon_cong [OF echelon_row_low [OF N(2) assms(2-5)] assms(7)])
      (use do_op_ok(3) [OF steps_ok [OF N(1)] assms(3,5)] in auto)
  with steps_op [OF N(1) assms(3,5,6)] show ?thesis by (simp add: forward_def)
qed

lemma eliminate_column_forward:
  assumes s: "forward m k track M c s" and c: "c < k"
  shows "forward m k track M (Suc c) (eliminate_column track c s)"
proof -
  obtain N ps where [simp]: "s = (N, ps)" by fastforce
  have N: "steps m k track M N" and e: "echelon (bm_fun N) m ps c" using s by (auto simp: forward_def)
  note dims = bm_ok_rows(1) [OF steps_ok [OF N]]
  let ?i = "find_index (\<lambda>r. entry N r c = 1) (length ps) m"
  show ?thesis
  proof (cases "m \<le> ?i")
    case True
    then have "\<not> bm_fun N r c" if "length ps \<le> r" "r < m" for r
      using find_index_exists [of "length ps" r m "\<lambda>r. entry N r c = 1"] that by (auto simp: bm_fun_def)
    with True N e show ?thesis
      by (simp add: eliminate_column_def dims forward_def echelon_skip)
  next
    case False
    then have i: "?i < m" by simp
    then have i': "length ps \<le> ?i" "bm_fun N ?i c" using find_index_found [OF i] by (auto simp: bm_fun_def)
    have lm: "length ps < m" using i i' by simp
    define N1 where "N1 = (if ?i \<noteq> length ps then do_op ?i (length ps) track N else N)"
    have f1: "forward m k track M c (N1, ps)"
      using s forward_op_low [of m k track M c N ps ?i "length ps"] i i'(1) lm c by (auto simp: N1_def)
    have one: "bm_fun N1 (length ps) c"
    proof (cases "?i = length ps")
      case False
      then have "\<not> bm_fun N (length ps) c"
        using find_index_before [of "length ps" "length ps" "\<lambda>r. entry N r c = 1" m] i'(1) lm by (auto simp: bm_fun_def)
      with False show ?thesis
        using do_op_ok(3) [OF steps_ok [OF N] i lm lm c, of track] i'(2) by (simp add: N1_def row_add_apply)
    qed (use i'(2) in \<open>simp add: N1_def\<close>)
    have N1: "steps m k track M N1" using f1 by (simp add: forward_def)
    define N2 where "N2 = clear_all_1s_in_column track (length ps) c [Suc (length ps)..<m] N1"
    have N2: "steps m k track M N2 \<and> forward m k track M c (N2, ps) \<and>
        (\<forall>r \<in> set [Suc (length ps)..<m]. \<not> bm_fun N2 r c) \<and>
        (\<forall>r < m. r \<notin> set [Suc (length ps)..<m] \<longrightarrow> (\<forall>j < k. bm_fun N2 r j = bm_fun N1 r j))"
      unfolding N2_def
      by (rule clear_all_1s_spec [OF N1 lm _ _ _ c one, where Q = "\<lambda>N. forward m k track M c (N, ps)"])
        (use f1 c in \<open>auto intro!: forward_op_low\<close>)
    then have "echelon (bm_fun N2) m (ps @ [c]) (Suc c)"
      using one lm c by (intro echelon_push) (auto simp: forward_def)
    moreover have "eliminate_column track c s = (N2, ps @ [c])"
    proof -
      have "eliminate_column track c s = (let M1 = N1 in
          (clear_all_1s_in_column track (length ps) c [length ps + 1..<num_rows M1] M1, ps @ [c]))"
        using False unfolding eliminate_column_def N1_def by (simp add: dims Let_def)
      then show ?thesis by (simp add: Let_def bm_ok_rows(1) [OF steps_ok [OF N1]] N2_def)
    qed
    ultimately show ?thesis using N2 by (simp add: forward_def)
  qed
qed

lemma eliminate_section_forward:
  assumes s: "forward m k track M (min k (i * bs)) s" and i: "i * bs < k" and m: "0 < m"
  shows "forward m k track M (min k (Suc i * bs)) (eliminate_section bs track i s)"
proof -
  obtain N ps where [simp]: "s = (N, ps)" by fastforce
  have N: "steps m k track M N" using s by (simp add: forward_def)
  note dims = bm_ok_rows(1) [OF steps_ok [OF N]] bm_ok_cols [OF steps_ok [OF N] m]
  define N1 where "N1 = clear_section_duplicates track (i * bs) (min k (Suc i * bs)) [length ps..<m] N"
  have "forward m k track M (i * bs) (N1, ps)"
    unfolding N1_def
    by (rule clear_section_duplicates_inv [where R = "(<)" and Q = "\<lambda>N. forward m k track M (i * bs) (N, ps)"])
      (use s i in \<open>auto intro!: forward_op_low simp: min_def\<close>)
  then have "forward m k track M (min k (Suc i * bs)) (fold (eliminate_column track) [i * bs..<min k (Suc i * bs)] (N1, ps))"
    using i by (intro fold_upt_induct [where I = "forward m k track M"]) (auto intro: eliminate_column_forward)
  then show ?thesis
    by (simp add: eliminate_section_def get_section_range_def dims N1_def)
qed

lemma n_sections_bound: "i < n_sections k bs \<Longrightarrow> 0 < bs \<Longrightarrow> i * bs < k"
proof -
  assume i: "i < n_sections k bs" and bs: "0 < bs"
  then have "Suc i \<le> (k + bs - 1) div bs" by (simp add: n_sections_def)
  then have "Suc i * bs \<le> k + bs - 1" using bs by (simp add: less_eq_div_iff_mult_less_eq)
  then show ?thesis using bs by simp
qed

lemma n_sections_cover: "0 < bs \<Longrightarrow> k \<le> n_sections k bs * bs"
proof -
  assume bs: "0 < bs"
  have "(k + bs - 1) mod bs < bs" using bs by simp
  then show ?thesis unfolding n_sections_def
    using div_mult_mod_eq [of "k + bs - 1" bs] by linarith
qed

lemma forward_all:
  assumes M: "bm_ok m k M" and bs: "0 < bs" and m: "0 < m"
  shows "forward m k track M k (fold (eliminate_section bs track) [0..<n_sections k bs] (M, []))"
proof -
  have "forward m k track M (min k (n_sections k bs * bs)) (fold (eliminate_section bs track) [0..<n_sections k bs] (M, []))"
  proof (rule fold_upt_induct [where I = "\<lambda>i. forward m k track M (min k (i * bs))"])
    show "forward m k track M (min k (0 * bs)) (M, [])"
      using M by (simp add: forward_def steps_refl echelon_init)
    fix i s assume "i < n_sections k bs" "forward m k track M (min k (i * bs)) s"
    then show "forward m k track M (min k (Suc i * bs)) (eliminate_section bs track i s)"
      by (intro eliminate_section_forward n_sections_bound bs m)
  qed simp
  then show ?thesis using n_sections_cover [OF bs, of k] by (simp add: min_absorb1)
qed

section \<open>Back substitution\<close>

definition backward :: "nat \<Rightarrow> nat \<Rightarrow> bool \<Rightarrow> boolean_matrix \<Rightarrow> nat list \<Rightarrow> nat \<Rightarrow> boolean_matrix \<Rightarrow> bool" where
  "backward m k track M ps p N \<longleftrightarrow> steps m k track M N \<and> echelon (bm_fun N) m ps k \<and> unit_cols (bm_fun N) m ps p"

lemma backward_op_up:
  assumes N: "backward m k track M ps p N" and ct: "t < c" "c < p" "p \<le> length ps"
  shows "backward m k track M ps p (do_op c t track N)"
proof -
  have s: "steps m k track M N" and e: "echelon (bm_fun N) m ps k" and u: "unit_cols (bm_fun N) m ps p"
    using N by (auto simp: backward_def)
  have c: "c < m" "t < m" "t \<noteq> c" using e ct by (auto simp: echelon_def)
  have eq: "row_add c t (bm_fun N) r j = bm_fun (do_op c t track N) r j" if "r < m" "j < k" for r j
    using do_op_ok(3) [OF steps_ok [OF s] c(1,2) that] by simp
  have "echelon (bm_fun (do_op c t track N)) m ps k"
    by (rule echelon_cong [OF echelon_row_up [OF e ct(1)] order_refl eq]) (use ct in auto)
  moreover have "unit_cols (bm_fun (do_op c t track N)) m ps p"
    by (rule unit_cols_cong [OF unit_cols_row_up [OF u ct(2) c(1,3)] eq]) (use e in \<open>auto simp: echelon_def\<close>)
  ultimately show ?thesis using steps_op [OF s c(1,2)] c(3) by (auto simp: backward_def)
qed

lemma back_pivots_spec:
  assumes "backward m k track M ps p N" "p \<le> length ps"
  shows "\<exists>N' p' ret. back_pivots track sb se (N, take p ps) = (N', take p' ps, ret) \<and> p' \<le> p \<and>
    backward m k track M ps p' N' \<and> (ret \<longrightarrow> p' = 0) \<and>
    (\<not> ret \<longrightarrow> p' = 0 \<or> ps ! (p' - 1) < sb \<or> se \<le> ps ! (p' - 1))"
  using assms
proof (induction p arbitrary: N)
  case 0
  then show ?case
    by (intro exI [of _ N] exI [of _ 0] exI [of _ False]) (simp add: back_pivots.simps)
next
  case (Suc p)
  have p: "p < length ps" and ne: "take (Suc p) ps \<noteq> []" and l: "last (take (Suc p) ps) = ps ! p"
    using Suc.prems(2) by (auto simp: take_Suc_conv_app_nth)
  have bl: "butlast (take (Suc p) ps) = take p ps" using p by (simp add: take_Suc_conv_app_nth)
  show ?case
  proof (cases "sb \<le> ps ! p \<and> ps ! p < se")
    case False
    then have "back_pivots track sb se (N, take (Suc p) ps) = (N, take (Suc p) ps, False)"
      by (auto simp: back_pivots.simps [of track sb se N "take (Suc p) ps"] l)
    with False Suc.prems show ?thesis by fastforce
  next
    case True
    have s: "steps m k track M N" and e: "echelon (bm_fun N) m ps k" and u: "unit_cols (bm_fun N) m ps (Suc p)"
      using Suc.prems(1) by (auto simp: backward_def)
    have pk: "p < m" "ps ! p < k" "bm_fun N p (ps ! p)" "\<And>r. p < r \<Longrightarrow> r < m \<Longrightarrow> \<not> bm_fun N r (ps ! p)"
      using e p by (auto simp: echelon_def)
    define N1 where "N1 = clear_all_1s_in_column track p (ps ! p) [0..<p] N"
    have N1: "steps m k track M N1 \<and> backward m k track M ps (Suc p) N1 \<and>
        (\<forall>r \<in> set [0..<p]. \<not> bm_fun N1 r (ps ! p)) \<and>
        (\<forall>r < m. r \<notin> set [0..<p] \<longrightarrow> (\<forall>j < k. bm_fun N1 r j = bm_fun N r j))"
      unfolding N1_def
      by (rule clear_all_1s_spec [OF s pk(1) _ _ _ pk(2,3), where Q = "backward m k track M ps (Suc p)"])
        (use Suc.prems pk(1) in \<open>auto intro!: backward_op_up\<close>)
    have "unit_cols (bm_fun N1) m ps p"
    proof -
      have "bm_fun N1 r (ps ! p) = (r = p)" if "r < m" for r
        using N1 pk that by (cases r p rule: linorder_cases) auto
      moreover have "unit_cols (bm_fun N1) m ps (Suc p)" using N1 by (simp add: backward_def)
      ultimately show ?thesis by (auto simp: unit_cols_def le_Suc_eq Suc_le_eq dest: le_neq_implies_less)
    qed
    then have b1: "backward m k track M ps p N1" using N1 by (simp add: backward_def)
    have step: "back_pivots track sb se (N, take (Suc p) ps) =
        (if take p ps = [] then (N1, take p ps, True) else back_pivots track sb se (N1, take p ps))"
      using True ne p
      by (subst back_pivots.simps) (simp add: l bl Let_def N1_def)
    show ?thesis
    proof (cases "p = 0")
      case True
      with step b1 show ?thesis by (intro exI [of _ N1] exI [of _ 0] exI [of _ True]) simp
    next
      case False
      then have "take p ps \<noteq> []" using p by auto
      with step have st: "back_pivots track sb se (N, take (Suc p) ps) = back_pivots track sb se (N1, take p ps)" by simp
      from Suc.IH [OF b1] p obtain N' p' ret where
        "back_pivots track sb se (N1, take p ps) = (N', take p' ps, ret)" "p' \<le> p"
        "backward m k track M ps p' N'" "ret \<longrightarrow> p' = 0"
        "\<not> ret \<longrightarrow> p' = 0 \<or> ps ! (p' - 1) < sb \<or> se \<le> ps ! (p' - 1)" by auto
      then show ?thesis unfolding st by (intro exI [of _ N'] exI [of _ p'] exI [of _ ret]) auto
    qed
  qed
qed

lemma back_sections_spec:
  assumes m: "0 < m"
  shows "backward m k track M ps p N \<Longrightarrow> p \<le> length ps \<Longrightarrow> \<forall>i < p. ps ! i < s * bs \<Longrightarrow>
    backward m k track M ps 0 (back_sections bs track (rev [0..<s]) (N, take p ps))"
proof (induction s arbitrary: p N)
  case 0
  then have "p = 0" by (cases p) auto
  with 0 show ?case by simp
next
  case (Suc s)
  have st: "steps m k track M N" and e: "echelon (bm_fun N) m ps k" using Suc.prems by (auto simp: backward_def)
  have cols: "num_cols N = k" by (rule bm_ok_cols [OF steps_ok [OF st] m])
  define N1 where "N1 = clear_section_duplicates track (s * bs) (min k (Suc s * bs)) (rev [0..<p]) N"
  have b1: "backward m k track M ps p N1"
    unfolding N1_def
    by (rule clear_section_duplicates_inv [where R = "(>)" and Q = "backward m k track M ps p"])
      (use Suc.prems(1,2) in \<open>auto intro!: backward_op_up simp: sorted_wrt_rev\<close>)
  from back_pivots_spec [OF b1 Suc.prems(2), of "s * bs" "min k (Suc s * bs)"]
  obtain N2 p2 ret where B: "back_pivots track (s * bs) (min k (Suc s * bs)) (N1, take p ps) = (N2, take p2 ps, ret)"
    and p2: "p2 \<le> p" "backward m k track M ps p2 N2" "ret \<longrightarrow> p2 = 0"
      "\<not> ret \<longrightarrow> p2 = 0 \<or> ps ! (p2 - 1) < s * bs \<or> min k (Suc s * bs) \<le> ps ! (p2 - 1)" by auto
  have unf: "back_sections bs track (rev [0..<Suc s]) (N, take p ps) =
      (if ret then N2 else back_sections bs track (rev [0..<s]) (N2, take p2 ps))"
    using B Suc.prems(2)
    by (simp add: get_section_range_def cols min_absorb2 N1_def)
  show ?case
  proof (cases ret)
    case True
    with p2 unf show ?thesis by simp
  next
    case False
    have "ps ! i < s * bs" if "i < p2" for i
    proof -
      have "ps ! (p2 - 1) < Suc s * bs" "ps ! (p2 - 1) < k"
        using Suc.prems that p2(1) e by (auto simp: echelon_def)
      with p2(4) False that have "ps ! (p2 - 1) < s * bs" by auto
      moreover have "ps ! i \<le> ps ! (p2 - 1)"
        using e that p2(1) Suc.prems(2) by (cases "i = p2 - 1") (auto simp: echelon_def sorted_wrt_iff_nth_less less_imp_le)
      ultimately show ?thesis by simp
    qed
    then have "backward m k track M ps 0 (back_sections bs track (rev [0..<s]) (N2, take p2 ps))"
      using p2(1,2) Suc.prems(2) by (intro Suc.IH) auto
    with False unf show ?thesis by simp
  qed
qed

text \<open>What the elimination promises, for every block size.\<close>

lemma gaussian_elimination_spec:
  assumes M: "bm_ok m k M" and bs: "0 < bs" and m: "0 < m"
    and G: "gaussian_elimination_skip bs full track M = (rank, N)"
  obtains ps where "steps m k track M N" "echelon (bm_fun N) m ps k" "length ps = rank"
    "full \<Longrightarrow> unit_cols (bm_fun N) m ps 0"
proof -
  obtain N1 ps where F: "fold (eliminate_section bs track) [0..<n_sections k bs] (M, []) = (N1, ps)" by fastforce
  have f: "steps m k track M N1" "echelon (bm_fun N1) m ps k"
    using forward_all [OF M bs m, of track] by (simp_all add: F forward_def)
  have cols: "num_cols M = k" by (rule bm_ok_cols [OF M m])
  let ?N2 = "back_sections bs track (rev [0..<n_sections k bs]) (N1, ps)"
  have G': "rank = length ps" "N = (if \<not> full \<or> length ps = 0 then N1 else ?N2)"
    using G by (auto simp: gaussian_elimination_skip_def cols F Let_def split: if_splits)
  have "backward m k track M ps (length ps) N1" using f by (auto simp: backward_def unit_cols_def)
  moreover have "\<forall>i < length ps. ps ! i < n_sections k bs * bs"
    using f(2) n_sections_cover [OF bs, of k] by (auto simp: echelon_def dest!: nth_mem)
  ultimately have "backward m k track M ps 0 ?N2"
    using back_sections_spec [OF m, of k track M ps "length ps" N1] by simp
  with f G' that [of ps] show thesis by (auto simp: backward_def unit_cols_def split: if_splits)
qed

text \<open>A square matrix of full rank is reduced to the identity.\<close>

lemma elimination_identity:
  assumes M: "bm_ok n n M" and bs: "0 < bs" and n: "0 < n"
    and G: "gaussian_elimination_skip bs True track M = (n, N)"
  shows "r < n \<Longrightarrow> c < n \<Longrightarrow> bm_fun N r c = (r = c)"
  using gaussian_elimination_spec [OF assms] reduced_identity [of "bm_fun N" n _ r c] by metis

section \<open>Linear systems\<close>

text \<open>The state of the elimination with an augmented column: unit columns at the pivots \<open>ps\<close>, and
  the rows from \<open>r\<close> on are zero before column \<open>c\<close>.\<close>

definition partial_solved :: "gmat \<Rightarrow> nat \<Rightarrow> nat \<Rightarrow> nat \<Rightarrow> nat list \<Rightarrow> bool" where
  "partial_solved f m r c ps \<longleftrightarrow> length ps = r \<and> r \<le> m \<and> distinct ps \<and> (\<forall>p \<in> set ps. p < c) \<and>
     (\<forall>i < r. \<forall>x < m. f x (ps ! i) = (x = i)) \<and> (\<forall>x j. r \<le> x \<longrightarrow> x < m \<longrightarrow> j < c \<longrightarrow> \<not> f x j)"

definition aug_inv :: "nat \<Rightarrow> nat \<Rightarrow> bool \<Rightarrow> boolean_matrix \<Rightarrow> nat \<Rightarrow> nat \<Rightarrow> boolean_matrix \<Rightarrow> bool" where
  "aug_inv m k track M r c N \<longleftrightarrow> steps m k track M N \<and> c \<le> k \<and> (\<exists>ps. partial_solved (bm_fun N) m r c ps)"

lemma partial_solved_cong:
  assumes "partial_solved f m r c ps" "c \<le> k" "\<And>x j. x < m \<Longrightarrow> j < k \<Longrightarrow> f x j = g x j"
  shows "partial_solved g m r c ps"
proof -
  have "f x (ps ! i) = g x (ps ! i)" if "x < m" "i < r" for x i
    using assms that by (intro assms(3)) (auto simp: partial_solved_def dest!: nth_mem)
  then show ?thesis using assms by (auto simp: partial_solved_def)
qed

lemma aug_inv_op:
  assumes N: "aug_inv m k track M r c N" and ab: "r \<le> a" "a < m" "b < m" "a \<noteq> b"
  shows "aug_inv m k track M r c (do_op a b track N)"
proof -
  obtain ps where s: "steps m k track M N" "c \<le> k" and p: "partial_solved (bm_fun N) m r c ps"
    using N by (auto simp: aug_inv_def)
  have low: "ps ! i < c" if "i < r" for i using p that by (auto simp: partial_solved_def)
  have "partial_solved (row_add a b (bm_fun N)) m r c ps"
    using p ab low by (auto simp: partial_solved_def row_add_apply)
  then have "partial_solved (bm_fun (do_op a b track N)) m r c ps"
    by (rule partial_solved_cong [OF _ s(2)]) (use do_op_ok(3) [OF steps_ok [OF s(1)] ab(2,3)] in auto)
  with steps_op [OF s(1) ab(2-4)] s(2) show ?thesis by (auto simp: aug_inv_def)
qed

lemma fold_cond_filter: "fold (\<lambda>x s. if P x \<and> Q x s then f x s else s) xs s = fold (\<lambda>x s. if Q x s then f x s else s) (filter P xs) s"
  by (induction xs arbitrary: s) auto

lemma aug_pivot:
  assumes N: "aug_inv m k track M r c N" and r: "r < m" and c: "c < k" and one: "bm_fun N r c"
  defines "N' \<equiv> fold (\<lambda>x N. if x \<noteq> r \<and> entry N x c = 1 then do_op r x track N else N) [0..<m] N"
  shows "aug_inv m k track M (Suc r) (Suc c) N'"
proof -
  have s: "steps m k track M N" using N by (simp add: aug_inv_def)
  have N': "N' = clear_all_1s_in_column track r c (filter (\<lambda>x. x \<noteq> r) [0..<m]) N"
    by (simp add: N'_def fold_cond_filter clear_all_1s_in_column_def)
  have "steps m k track M N' \<and> aug_inv m k track M r c N' \<and>
      (\<forall>x \<in> set (filter (\<lambda>x. x \<noteq> r) [0..<m]). \<not> bm_fun N' x c) \<and>
      (\<forall>x < m. x \<notin> set (filter (\<lambda>x. x \<noteq> r) [0..<m]) \<longrightarrow> (\<forall>j < k. bm_fun N' x j = bm_fun N x j))"
    unfolding N'
    by (rule clear_all_1s_spec [OF s r _ _ _ c one, where Q = "aug_inv m k track M r c"])
      (use N r in \<open>auto intro!: aug_inv_op\<close>)
  then have i: "aug_inv m k track M r c N'" and u: "\<And>x. x < m \<Longrightarrow> bm_fun N' x c = (x = r)"
    using one r c by auto
  then obtain ps where "partial_solved (bm_fun N') m r c ps" by (auto simp: aug_inv_def)
  then have "partial_solved (bm_fun N') m (Suc r) (Suc c) (ps @ [c])"
    using u r by (auto simp: partial_solved_def nth_append less_Suc_eq)
  with i c show ?thesis by (auto simp: aug_inv_def)
qed

lemma aug_skip:
  assumes "aug_inv m k track M r c N" "c < k" "\<And>x. r \<le> x \<Longrightarrow> x < m \<Longrightarrow> \<not> bm_fun N x c"
  shows "aug_inv m k track M r (Suc c) N"
proof -
  obtain ps where "partial_solved (bm_fun N) m r c ps" using assms(1) by (auto simp: aug_inv_def)
  then have "partial_solved (bm_fun N) m r (Suc c) ps"
    using assms(3) by (simp add: partial_solved_def less_Suc_eq)
  with assms show ?thesis by (auto simp: aug_inv_def)
qed

lemma augmented_loop_inv:
  assumes "aug_inv m k track M r c N" "nv < k" "c \<le> nv"
  shows "\<exists>r' c' N'. augmented_loop track nv r c N = (N', r') \<and> aug_inv m k track M r' c' N' \<and> c' \<le> nv \<and>
    (m \<le> r' \<or> nv \<le> c')"
  using assms
proof (induction track nv r c N rule: augmented_loop.induct)
  case (1 track nv r c N)
  have s: "steps m k track M N" using "1.prems" by (simp add: aug_inv_def)
  note dims = bm_ok_rows [OF steps_ok [OF s]]
  show ?case
  proof (cases "r < m \<and> c < nv")
    case False
    then have "augmented_loop track nv r c N = (N, r)"
      by (subst augmented_loop.simps) (simp only: dims if_False)
    moreover have "m \<le> r \<or> nv \<le> c" using False by linarith
    ultimately show ?thesis using "1.prems"(1,3) by blast
  next
    case rc: True
    have skip: "aug_inv m k track M r (c + 1) N" if "\<And>x. r \<le> x \<Longrightarrow> x < m \<Longrightarrow> \<not> bm_fun N x c"
      using aug_skip [OF "1.prems"(1) _ that] rc "1.prems"(2) by simp
    let ?first = "find_index (\<lambda>x. entry N x c = 1) r m"
    consider "list_all (\<lambda>x. x ! c = 0) (bm_rows N)"
      | "\<not> list_all (\<lambda>x. x ! c = 0) (bm_rows N)" "entry N r c = 0 \<and> m \<le> ?first"
      | "\<not> list_all (\<lambda>x. x ! c = 0) (bm_rows N)" "\<not> (entry N r c = 0 \<and> m \<le> ?first)" by blast
    then show ?thesis
    proof cases
      case 1
      have "augmented_loop track nv r c N = augmented_loop track nv r (c + 1) N"
        using 1 rc by (subst augmented_loop.simps) (simp add: dims)
      moreover have "aug_inv m k track M r (c + 1) N"
        using 1 by (intro skip) (auto simp: list_all_length dims bm_fun_def entry_def)
      ultimately show ?thesis using "1.IH"(1) 1 rc "1.prems"(2) by (simp add: dims)
    next
      case 2
      have "augmented_loop track nv r c N = augmented_loop track nv r (c + 1) N"
        using 2 rc by (subst augmented_loop.simps) (simp add: dims)
      moreover have "aug_inv m k track M r (c + 1) N"
        using 2 find_index_exists [of r _ m "\<lambda>x. entry N x c = 1"] by (intro skip) (force simp: bm_fun_def)
      ultimately show ?thesis using "1.IH"(2) 2 rc "1.prems"(2) by (simp add: dims)
    next
      case 3
      define N1 where "N1 = (if entry N r c = 0 then do_op ?first r track N else N)"
      have ck: "c < k" using rc "1.prems"(2) by simp
      have e2: "entry N r c = 0 \<or> entry N r c = 1"
        using bm_ok_entry [OF steps_ok [OF s], of r c] rc ck by auto
      have "aug_inv m k track M r c N1 \<and> bm_fun N1 r c"
      proof (cases "entry N r c = 0")
        case True
        then have f: "?first < m" using 3 by simp
        then have f': "r \<le> ?first" "entry N ?first c = 1" using find_index_found [OF f] by auto
        then have "?first \<noteq> r" using True by auto
        with f f' True rc "1.prems"(1) show ?thesis
          using do_op_ok(3) [OF steps_ok [OF s] f, of r r c track] ck
          by (auto simp: N1_def row_add_apply bm_fun_def [of N] intro!: aug_inv_op)
      qed (use "1.prems"(1) e2 in \<open>auto simp: N1_def bm_fun_def\<close>)
      then have N1: "aug_inv m k track M r c N1" "bm_fun N1 r c" by auto
      then have "steps m k track M N1" by (simp add: aug_inv_def)
      then have s1: "num_rows N1 = m" by (rule bm_ok_rows(1) [OF steps_ok])
      define N2 where "N2 = fold (\<lambda>x N. if x \<noteq> r \<and> entry N x c = 1 then do_op r x track N else N) [0..<m] N1"
      have i2: "aug_inv m k track M (r + 1) (c + 1) N2"
        using aug_pivot [OF N1(1) _ ck N1(2)] rc by (simp add: N2_def)
      have "augmented_loop track nv r c N = augmented_loop track nv (r + 1) (c + 1)
          (fold (\<lambda>x N. if x \<noteq> r \<and> entry N x c = 1 then do_op r x track N else N) [0..<num_rows N1] N1)"
        using 3 rc unfolding N1_def by (subst augmented_loop.simps) (simp only: dims if_True if_False Let_def simp_thms)
      then have "augmented_loop track nv r c N = augmented_loop track nv (r + 1) (c + 1) N2"
        by (simp add: s1 N2_def)
      moreover have "\<exists>r' c' N'. augmented_loop track nv (r + 1) (c + 1) N2 = (N', r') \<and>
          aug_inv m k track M r' c' N' \<and> c' \<le> nv \<and> (m \<le> r' \<or> nv \<le> c')"
        using "1.IH"(3) [OF _ 3(1) refl _ refl refl] 3 rc i2 "1.prems"(2) s1
        unfolding dims N1_def [symmetric] by (simp add: N2_def [symmetric] Suc_le_eq [unfolded Suc_eq_plus1] del: One_nat_def)
      ultimately show ?thesis by simp
    qed
  qed
qed

text \<open>In a reduced system the pivot variables can be read off.\<close>

lemma reduced_solvable:
  assumes p: "partial_solved f m r c ps" and c: "c \<le> nv" "m \<le> r \<or> nv \<le> c"
  shows "(\<exists>x. solves f m nv b x) = (\<forall>i. r \<le> i \<longrightarrow> i < m \<longrightarrow> \<not> f i b)"
proof
  assume "\<exists>x. solves f m nv b x"
  then obtain x where x: "\<And>i. i < m \<Longrightarrow> mul f nv x i = f i b" by (auto simp: solves_def)
  show "\<forall>i. r \<le> i \<longrightarrow> i < m \<longrightarrow> \<not> f i b"
  proof (intro allI impI)
    fix i assume i: "r \<le> i" "i < m"
    then have "\<not> mul f nv x i"
      using p c by (auto simp: mul_def partial_solved_def intro!: gf2_sum_all_zero)
    with x i show "\<not> f i b" by simp
  qed
next
  assume zero: "\<forall>i. r \<le> i \<longrightarrow> i < m \<longrightarrow> \<not> f i b"
  define x where "x j = (\<exists>l < r. ps ! l = j \<and> f l b)" for j
  have rm: "r \<le> m" and len: "length ps = r" and dist: "distinct ps" and lt: "\<And>l. l < r \<Longrightarrow> ps ! l < c"
    and unit: "\<And>l y. l < r \<Longrightarrow> y < m \<Longrightarrow> f y (ps ! l) = (y = l)"
    using p by (auto simp: partial_solved_def)
  have "mul f nv x i = f i b" if i: "i < m" for i
  proof (cases "i < r")
    case True
    have "(f i j \<and> x j) = (j = ps ! i \<and> f i b)" if "j < nv" for j
    proof
      assume "f i j \<and> x j"
      then obtain l where l: "l < r" "ps ! l = j" "f l b" "f i j" by (auto simp: x_def)
      then have "i = l" using unit [OF l(1) i] by simp
      with l show "j = ps ! i \<and> f i b" by simp
    next
      assume "j = ps ! i \<and> f i b"
      then show "f i j \<and> x j" using unit [OF True i] True by (auto simp: x_def)
    qed
    then have "mul f nv x i = gf2_sum (\<lambda>j. j = ps ! i \<and> f i b) nv"
      unfolding mul_def by (intro gf2_sum_cong) auto
    also have "\<dots> = f i b" using lt [OF True] c(1) by (simp add: gf2_sum_delta)
    finally show ?thesis .
  next
    case False
    have "\<not> (f i j \<and> x j)" if "j < nv" for j
      using unit [OF _ i] False by (auto simp: x_def)
    then have "\<not> mul f nv x i" unfolding mul_def by (intro gf2_sum_all_zero) auto
    then show ?thesis using zero False i by auto
  qed
  then show "\<exists>x. solves f m nv b x" by (auto simp: solves_def)
qed

lemma list_ex_drop: "list_ex P (drop r xs) = (\<exists>i. r \<le> i \<and> i < length xs \<and> P (xs ! i))"
proof
  assume "list_ex P (drop r xs)"
  then obtain i where i: "i < length xs - r" "P (drop r xs ! i)" by (auto simp: list_ex_length)
  then have "P (xs ! (r + i))" by simp
  with i(1) show "\<exists>i. r \<le> i \<and> i < length xs \<and> P (xs ! i)" by (intro exI [of _ "r + i"]) simp
next
  assume "\<exists>i. r \<le> i \<and> i < length xs \<and> P (xs ! i)"
  then obtain i where "r \<le> i" "i < length xs" "P (xs ! i)" by blast
  then show "list_ex P (drop r xs)" by (auto simp: list_ex_length intro!: exI [of _ "i - r"])
qed

lemma augmented_solvable:
  assumes M: "bm_ok m (Suc nv) M" and m: "0 < m"
  shows "fst (gaussian_elimination_augmented track M) = (\<exists>x. solves (bm_fun M) m nv nv x)"
    "steps m (Suc nv) track (M\<lparr>bm_ops := []\<rparr>) (snd (gaussian_elimination_augmented track M))"
proof -
  let ?M = "M\<lparr>bm_ops := []\<rparr>"
  have M': "bm_ok m (Suc nv) ?M" and fM: "bm_fun ?M = bm_fun M"
    using M by (auto simp: bm_ok_def bm_fun_def entry_def fun_eq_iff)
  have "aug_inv m (Suc nv) track ?M 0 0 ?M"
    using steps_refl [OF M'] by (auto simp: aug_inv_def partial_solved_def)
  from augmented_loop_inv [OF this, of nv] obtain r c N where
    L: "augmented_loop track nv 0 0 ?M = (N, r)" and i: "aug_inv m (Suc nv) track ?M r c N" "m \<le> r \<or> nv \<le> c"
    and c: "c \<le> nv" by auto
  obtain ps where s: "steps m (Suc nv) track ?M N" and p: "partial_solved (bm_fun N) m r c ps"
    using i(1) by (auto simp: aug_inv_def)
  obtain ops where ops: "ops_ok m ops" "\<And>x j. x < m \<Longrightarrow> j < Suc nv \<Longrightarrow> bm_fun N x j = row_adds ops (bm_fun M) x j"
    using s by (auto simp: steps_def fM)
  have cols: "num_cols M = Suc nv" by (rule bm_ok_cols [OF M m])
  show "steps m (Suc nv) track ?M (snd (gaussian_elimination_augmented track M))"
    using s by (simp add: gaussian_elimination_augmented_def cols L)
  have dims: "length (bm_rows N) = m" by (rule bm_ok_rows(2) [OF steps_ok [OF s]])
  have last: "last (bm_rows N ! x) = entry N x nv" if "x < m" for x
    using bm_ok_row [OF steps_ok [OF s] that] by (simp add: last_conv_nth entry_def flip: length_0_conv)
  have "solves (bm_fun N) m nv nv x = solves (bm_fun M) m nv nv x" for x
  proof -
    have "solves (bm_fun N) m nv nv x = solves (row_adds ops (bm_fun M)) m nv nv x"
      unfolding solves_def mul_def using ops(2) by (intro all_cong arg_cong2 [where f = "(=)"] gf2_sum_cong) auto
    then show ?thesis by (simp add: solves_row_adds [OF ops(1)])
  qed
  then have "(\<exists>x. solves (bm_fun M) m nv nv x) = (\<forall>i. r \<le> i \<longrightarrow> i < m \<longrightarrow> \<not> bm_fun N i nv)"
    using reduced_solvable [OF p c i(2), where b = nv] by (simp only:)
  also have "\<dots> = (\<not> list_ex (\<lambda>r. last r = 1) (drop r (bm_rows N)))"
    using last by (auto simp: list_ex_drop dims bm_fun_def)
  finally show "fst (gaussian_elimination_augmented track M) = (\<exists>x. solves (bm_fun M) m nv nv x)"
    by (simp add: gaussian_elimination_augmented_def cols L)
qed

end
