(* ===== verification/RowOperations.thy ===== *)
theory RowOperations
  imports GaussianElimination
begin

text \<open>
  \<open>BooleanMatrix::filter_duplicate_row_operations\<close> keeps the effect of the recorded operations, and
  facts on the smaller functions of the class: stacking, transposition, the identity, the depth.
\<close>

section \<open>Cancelling pairs\<close>

definition touches :: "nat \<times> nat \<Rightarrow> nat \<Rightarrow> bool" where
  "touches p x \<longleftrightarrow> fst p = x \<or> snd p = x"

lemma row_adds_commute:
  assumes "\<And>p. p \<in> set ops \<Longrightarrow> \<not> touches p s \<and> \<not> touches p d"
  shows "row_adds ops (row_add s d f) = row_add s d (row_adds ops f)"
  using assms
proof (induction ops arbitrary: f)
  case (Cons p ops)
  obtain c t where p: "p = (c, t)" by fastforce
  have "\<not> touches (c, t) s \<and> \<not> touches (c, t) d" using Cons.prems [of p] by (simp add: p)
  then have "row_add c t (row_add s d f) = row_add s d (row_add c t f)"
    by (intro row_add_commute) (auto simp: touches_def)
  with Cons show ?case by (simp add: p)
qed simp

definition kept :: "(nat \<times> nat) list \<Rightarrow> nat \<Rightarrow> nat list \<Rightarrow> (nat \<times> nat) list" where
  "kept ops i dups = map ((!) ops) (filter (\<lambda>j. j \<notin> set dups) [0..<i])"

lemma erase_at_kept:
  assumes "sorted_wrt (<) ds" "\<forall>d \<in> set ds. d < length ops"
  shows "fold erase_at (rev ds) ops = kept ops (length ops) ds"
  using assms
proof (induction ds)
  case Nil
  then show ?case by (simp add: kept_def map_nth)
next
  case (Cons d ds)
  let ?n = "length ops"
  have d: "d < ?n" "\<forall>x \<in> set ds. d < x" using Cons.prems by auto
  have split: "[0..<?n] = [0..<d] @ d # [Suc d..<?n]"
    using d(1) upt_add_eq_append [of 0 d "?n - d"] by (simp add: upt_conv_Cons)
  have low: "filter (\<lambda>j. j \<notin> set ds) [0..<d] = [0..<d]" "filter (\<lambda>j. j \<notin> set (d # ds)) [0..<d] = [0..<d]"
    using d(2) by (auto simp: filter_id_conv)
  have high: "filter (\<lambda>j. j \<notin> set (d # ds)) [Suc d..<?n] = filter (\<lambda>j. j \<notin> set ds) [Suc d..<?n]"
    by (rule filter_cong) auto
  have "d \<notin> set ds" using d(2) by auto
  then have k: "kept ops ?n ds = map ((!) ops) [0..<d] @ ops ! d # map ((!) ops) (filter (\<lambda>j. j \<notin> set ds) [Suc d..<?n])"
    unfolding kept_def split by (simp add: low)
  have "fold erase_at (rev (d # ds)) ops = erase_at d (kept ops ?n ds)" using Cons by simp
  also have "\<dots> = kept ops ?n (d # ds)"
    unfolding k unfolding kept_def split filter_append low by (simp add: erase_at_def high [simplified])
  finally show ?case .
qed

definition filter_inv :: "(nat \<times> nat) list \<Rightarrow> nat \<Rightarrow> (nat \<rightharpoonup> nat \<times> nat) \<times> nat list \<Rightarrow> bool" where
  "filter_inv ops i s \<longleftrightarrow>
     distinct (snd s) \<and> (\<forall>d \<in> set (snd s). d < i) \<and>
     (\<forall>x y k. fst s x = Some (y, k) \<longrightarrow> k < i \<and> k \<notin> set (snd s) \<and> (ops ! k = (x, y) \<or> ops ! k = (y, x)) \<and>
        (\<forall>j. k < j \<longrightarrow> j < i \<longrightarrow> \<not> touches (ops ! j) x)) \<and>
     (\<forall>f. row_adds (kept ops i (snd s)) f = row_adds (take i ops) f)"

lemma kept_Suc: "kept ops (Suc i) dups = kept ops i dups @ (if i \<in> set dups then [] else [ops ! i])"
  by (simp add: kept_def)

lemma kept_cong: "(\<And>j. j < i \<Longrightarrow> (j \<in> set a) = (j \<in> set b)) \<Longrightarrow> kept ops i a = kept ops i b"
  unfolding kept_def by (intro arg_cong [where f = "map ((!) ops)"] filter_cong) auto

lemma filter_step_inv:
  assumes inv: "filter_inv ops i st" and i: "i < length ops" and ok: "ops_ok m ops"
  shows "filter_inv ops (Suc i) (filter_step ops i st)"
proof -
  obtain lu dups where st: "st = (lu, dups)" by fastforce
  obtain s d where op: "ops ! i = (s, d)" by fastforce
  have sd: "s \<noteq> d" using ok i op nth_mem [OF i] by (auto simp: ops_ok_def list_all_iff)
  have dist: "distinct dups" "\<forall>x \<in> set dups. x < i"
    and lu: "\<And>x y k. lu x = Some (y, k) \<Longrightarrow> k < i \<and> k \<notin> set dups \<and> (ops ! k = (x, y) \<or> ops ! k = (y, x)) \<and>
        (\<forall>j. k < j \<longrightarrow> j < i \<longrightarrow> \<not> touches (ops ! j) x)"
    and eff: "\<And>f. row_adds (kept ops i dups) f = row_adds (take i ops) f"
    using inv unfolding filter_inv_def st by auto
  have take: "row_adds (take (Suc i) ops) f = row_add s d (row_adds (take i ops) f)" for f
    using i op by (simp add: take_Suc_conv_app_nth)
  define fm where "fm = (case lu s of None \<Rightarrow> False | Some (other, op_idx) \<Rightarrow> other = d \<and> fst (ops ! op_idx) = s)"
  define sm where "sm = (case lu d of None \<Rightarrow> False | Some (other, op_idx) \<Rightarrow> other = s \<and> snd (ops ! op_idx) = d)"
  have step: "filter_step ops i st = (if fm \<and> sm then ((lu(s := None))(d := None), dups @ [i, snd (the (lu d))])
      else (lu(s \<mapsto> (d, i), d \<mapsto> (s, i)), dups))"
    unfolding filter_step_def st fm_def sm_def by (simp add: op Let_def)
  show ?thesis
  proof (cases "fm \<and> sm")
    case True
    then obtain k1 k2 where k1: "lu s = Some (d, k1)" "fst (ops ! k1) = s" and k2: "lu d = Some (s, k2)" "snd (ops ! k2) = d"
      by (auto simp: fm_def sm_def split: option.splits)
    have "ops ! k1 = (s, d) \<or> ops ! k1 = (d, s)" "ops ! k2 = (d, s) \<or> ops ! k2 = (s, d)"
      using lu [OF k1(1)] lu [OF k2(1)] by blast+
    then have o1: "ops ! k1 = (s, d)" and o2: "ops ! k2 = (s, d)" using k1(2) k2(2) sd by (elim disjE; simp)+
    have "k1 = k2"
      using lu [OF k1(1)] lu [OF k2(1)] o1 o2 by (cases k1 k2 rule: linorder_cases) (auto simp: touches_def)
    then have k: "k1 < i" "k1 \<notin> set dups" and free: "\<And>j. k1 < j \<Longrightarrow> j < i \<Longrightarrow> \<not> touches (ops ! j) s \<and> \<not> touches (ops ! j) d"
      using lu [OF k1(1)] lu [OF k2(1)] by auto
    have split: "[0..<i] = [0..<k1] @ k1 # [Suc k1..<i]"
      using k(1) upt_add_eq_append [of 0 k1 "i - k1"] by (simp add: upt_conv_Cons)
    define A where "A = map ((!) ops) (filter (\<lambda>j. j \<notin> set dups) [0..<k1])"
    define B where "B = map ((!) ops) (filter (\<lambda>j. j \<notin> set dups) [Suc k1..<i])"
    have kA: "kept ops i dups = A @ (s, d) # B" unfolding kept_def split A_def B_def using k(2) o1 by simp
    have e: "filter (\<lambda>j. j \<notin> set (dups @ [i, k1])) [0..<k1] = filter (\<lambda>j. j \<notin> set dups) [0..<k1]"
      "filter (\<lambda>j. j \<notin> set (dups @ [i, k1])) [Suc k1..<i] = filter (\<lambda>j. j \<notin> set dups) [Suc k1..<i]"
      using k(1) by (auto intro!: filter_cong)
    have kB: "kept ops (Suc i) (dups @ [i, k1]) = A @ B"
      unfolding kept_Suc unfolding kept_def split filter_append A_def B_def e by (simp add: e [simplified])
    have "row_adds (A @ B) f = row_adds (take (Suc i) ops) f" for f
    proof -
      have "row_adds (take (Suc i) ops) f = row_add s d (row_adds B (row_add s d (row_adds A f)))"
        unfolding take eff [symmetric] kA by simp
      also have "\<dots> = row_add s d (row_add s d (row_adds B (row_adds A f)))"
        by (subst row_adds_commute) (use free in \<open>auto simp: B_def\<close>)
      finally show ?thesis using sd by (simp add: row_add_twice)
    qed
    moreover have "filter_step ops i st = ((lu(s := None))(d := None), dups @ [i, k1])"
      unfolding step using True k2 \<open>k1 = k2\<close> by simp
    moreover have "x \<noteq> s \<and> x \<noteq> d \<Longrightarrow> lu x = Some (y, k') \<Longrightarrow> k' \<noteq> k1 \<and> k' \<noteq> i" for x y k'
      using lu [of x y k'] o1 by auto
    ultimately show ?thesis
      unfolding filter_inv_def using dist k lu kB
      by (auto simp: less_Suc_eq touches_def op)
  next
    case False
    have "kept ops (Suc i) dups = kept ops i dups @ [(s, d)]" using dist(2) op by (auto simp: kept_Suc)
    then have "row_adds (kept ops (Suc i) dups) f = row_adds (take (Suc i) ops) f" for f
      by (simp add: take eff)
    then show ?thesis
      unfolding filter_inv_def step using False dist lu
      by (auto simp: less_Suc_eq op touches_def)
  qed
qed

lemma filter_duplicate_spec:
  assumes ok: "ops_ok m (bm_ops M)"
  defines "M' \<equiv> snd (filter_duplicate_row_operations M)"
  shows "row_adds (bm_ops M') f = row_adds (bm_ops M) f" "bm_rows M' = bm_rows M"
    "length (bm_ops M') + fst (filter_duplicate_row_operations M) = length (bm_ops M)"
proof -
  let ?ops = "bm_ops M"
  define s where "s = fold (filter_step ?ops) [0..<length ?ops] (Map.empty, [])"
  have inv: "filter_inv ?ops (length ?ops) s"
    unfolding s_def
  proof (rule fold_upt_induct [where I = "filter_inv ?ops"])
    show "filter_inv ?ops 0 (Map.empty, [])" by (simp add: filter_inv_def kept_def)
  qed (auto intro: filter_step_inv [OF _ _ ok])
  then have d: "distinct (snd s)" "\<forall>x \<in> set (snd s). x < length ?ops"
    and e: "row_adds (kept ?ops (length ?ops) (snd s)) f = row_adds ?ops f"
    by (auto simp: filter_inv_def)
  have "sorted_wrt (<) (sort (snd s))" using d(1) by (simp add: strict_sorted_iff)
  then have k: "fold erase_at (rev (sort (snd s))) ?ops = kept ?ops (length ?ops) (sort (snd s))"
    using d(2) by (intro erase_at_kept) auto
  have k2: "kept ?ops (length ?ops) (sort (snd s)) = kept ?ops (length ?ops) (snd s)"
    by (rule kept_cong) simp
  show "row_adds (bm_ops M') f = row_adds (bm_ops M) f" "bm_rows M' = bm_rows M"
    using e by (simp_all add: M'_def filter_duplicate_row_operations_def s_def [symmetric] Let_def k k2)
  have "length (filter (\<lambda>j. j \<notin> set (snd s)) [0..<length ?ops]) = card ({0..<length ?ops} - set (snd s))"
    by (simp add: distinct_length_filter Int_def set_diff_eq conj_commute)
  also have "\<dots> = length ?ops - length (snd s)"
    using d by (subst card_Diff_subset) (auto simp: distinct_card)
  finally have "length (kept ?ops (length ?ops) (snd s)) = length ?ops - length (snd s)" by (simp add: kept_def)
  moreover have "length (snd s) \<le> length ?ops"
  proof -
    have "set (snd s) \<subseteq> {0..<length ?ops}" using d by auto
    then have "card (set (snd s)) \<le> card {0..<length ?ops}" by (intro card_mono) auto
    then show ?thesis using d by (simp add: distinct_card)
  qed
  ultimately show "length (bm_ops M') + fst (filter_duplicate_row_operations M) = length (bm_ops M)"
    by (simp add: M'_def filter_duplicate_row_operations_def s_def [symmetric] Let_def k k2)
qed

section \<open>Transposition and the identity\<close>

lemma bm_transpose_spec:
  assumes "bm_ok m k M" "0 < m" "0 < k"
  shows "bm_ok k m (bm_transpose M)" "r < k \<Longrightarrow> c < m \<Longrightarrow> entry (bm_transpose M) r c = entry M c r"
    "bm_rows (bm_transpose (bm_transpose M)) = bm_rows M"
proof -
  have d: "num_rows M = m" "num_cols M = k" using bm_ok_rows(1) bm_ok_cols assms by blast+
  show ok: "bm_ok k m (bm_transpose M)"
    using bm_ok_entry [OF assms(1)] by (auto simp: bm_ok_def bm_transpose_def bm_of_rows_def d)
  show e: "r < k \<Longrightarrow> c < m \<Longrightarrow> entry (bm_transpose M) r c = entry M c r" for r c
    by (simp add: bm_transpose_def bm_of_rows_def d entry_def)
  have d': "num_rows (bm_transpose M) = k" "num_cols (bm_transpose M) = m" using bm_ok_rows(1) bm_ok_cols ok assms by blast+
  have "bm_ok m k (bm_transpose (bm_transpose M))"
    using bm_ok_entry [OF ok] by (auto simp: bm_ok_def bm_transpose_def [of "bm_transpose M"] bm_of_rows_def d')
  then show "bm_rows (bm_transpose (bm_transpose M)) = bm_rows M"
    using assms(1) e by (intro bm_eqI) (auto simp: bm_fun_def bm_transpose_def [of "bm_transpose M"] bm_of_rows_def d' entry_def [of "boolean_matrix_ext _ _ _"])
qed

lemma bm_identity_spec:
  shows "bm_ok n n (bm_identity n)" "r < n \<Longrightarrow> c < n \<Longrightarrow> entry (bm_identity n) r c = of_bool (r = c)"
proof -
  let ?I = "\<lambda>i M. length (bm_rows M) = n \<and> (\<forall>r < n. length (bm_rows M ! r) = n \<and>
      (\<forall>c < n. bm_rows M ! r ! c = of_bool (r = c \<and> r < i)))"
  have I: "?I n (bm_identity n)"
    unfolding bm_identity_def
    by (rule fold_upt_induct [where I = ?I]) (auto simp: bm_filled_def bm_of_rows_def nth_list_update less_Suc_eq)
  then show "bm_ok n n (bm_identity n)"
    unfolding bm_ok_def by (auto simp: in_set_conv_nth)
  show "r < n \<Longrightarrow> c < n \<Longrightarrow> entry (bm_identity n) r c = of_bool (r = c)"
    using I by (simp add: entry_def)
qed

end
