(* ===== verification/Pauli.thy ===== *)
theory Pauli
  imports Prelude "HOL-Library.Char_ord"
begin

text \<open>
  The Pauli layer of src/src/tableau/pauli_rotation.hpp and pauli_rotation.cpp:
  Clifford operators and operator strings with their adjoints, the mixin \<open>PauliProductTrait\<close>
  that derives every Clifford operator from \<open>h\<close>, \<open>s\<close> and \<open>cx\<close>, and the class
  \<open>PauliProduct\<close> on its \<open>2n + 1\<close> bits: the z bits, the x bits and the sign.
  The contract of the mixin is the locale \<open>pauli_trait\<close>; the classes that implement it
  interpret it in their own theories.
\<close>

section \<open>Clifford operators\<close>

datatype pauli = PI | PX | PY | PZ

definition power_of_i :: "pauli \<Rightarrow> pauli \<Rightarrow> nat" where
  "power_of_i a b =
     (if a = PX \<and> b = PY then 1
      else if a = PY \<and> b = PZ then 1
      else if a = PZ \<and> b = PX then 1
      else if a = PX \<and> b = PZ then 3
      else if a = PZ \<and> b = PY then 3
      else if a = PY \<and> b = PX then 3
      else 0)"

datatype clifford_type =
  COT_h | COT_s | COT_cx | COT_sdg | COT_v | COT_vdg | COT_x | COT_y | COT_z
| COT_cz | COT_swap | COT_ecr

definition to_clifford_operator_type :: "string \<Rightarrow> clifford_type option" where
  "to_clifford_operator_type str =
     (if str = ''h'' then Some COT_h
      else if str = ''s'' then Some COT_s
      else if str = ''cx'' then Some COT_cx
      else if str = ''sdg'' then Some COT_sdg
      else if str = ''v'' then Some COT_v
      else if str = ''vdg'' then Some COT_vdg
      else if str = ''x'' then Some COT_x
      else if str = ''y'' then Some COT_y
      else if str = ''z'' then Some COT_z
      else if str = ''cz'' then Some COT_cz
      else if str = ''swap'' then Some COT_swap
      else if str = ''ecr'' then Some COT_ecr
      else None)"

fun clifford_type_to_string :: "clifford_type \<Rightarrow> string" where
  "clifford_type_to_string COT_h = ''h''"
| "clifford_type_to_string COT_s = ''s''"
| "clifford_type_to_string COT_cx = ''cx''"
| "clifford_type_to_string COT_sdg = ''sdg''"
| "clifford_type_to_string COT_v = ''v''"
| "clifford_type_to_string COT_vdg = ''vdg''"
| "clifford_type_to_string COT_x = ''x''"
| "clifford_type_to_string COT_y = ''y''"
| "clifford_type_to_string COT_z = ''z''"
| "clifford_type_to_string COT_cz = ''cz''"
| "clifford_type_to_string COT_swap = ''swap''"
| "clifford_type_to_string COT_ecr = ''ecr''"

text \<open>An operator is its type and the array of its two qubits.\<close>

type_synonym clifford_op = "clifford_type \<times> nat \<times> nat"
type_synonym clifford_string = "clifford_op list"

fun adjoint_type :: "clifford_type \<Rightarrow> clifford_type" where
  "adjoint_type COT_s = COT_sdg"
| "adjoint_type COT_sdg = COT_s"
| "adjoint_type COT_v = COT_vdg"
| "adjoint_type COT_vdg = COT_v"
| "adjoint_type op = op"

definition adjoint_op :: "clifford_op \<Rightarrow> clifford_op" where
  "adjoint_op op = (adjoint_type (fst op), snd op)"

text \<open>\<open>adjoint_inplace\<close> on a string: reverse, then the adjoint of each operator.\<close>

definition adjoint_string :: "clifford_string \<Rightarrow> clifford_string" where
  "adjoint_string ops = map adjoint_op (rev ops)"

lemma adjoint_string_append: "adjoint_string (xs @ ys) = adjoint_string ys @ adjoint_string xs"
  by (simp add: adjoint_string_def)

lemma adjoint_string_Nil [simp]: "adjoint_string [] = []"
  by (simp add: adjoint_string_def)

lemma adjoint_type_idem [simp]: "adjoint_type (adjoint_type t) = t"
  by (cases t) auto

lemma adjoint_op_idem [simp]: "adjoint_op (adjoint_op x) = x"
  by (simp add: adjoint_op_def)

lemma adjoint_string_idem [simp]: "adjoint_string (adjoint_string xs) = xs"
  by (simp add: adjoint_string_def rev_map comp_def)

text \<open>Operators that address qubits below \<open>n\<close>, two-qubit operators two different ones.\<close>

fun op_ok :: "nat \<Rightarrow> clifford_op \<Rightarrow> bool" where
  "op_ok n (t, a, b) =
     (if t \<in> {COT_cx, COT_cz, COT_swap, COT_ecr} then a < n \<and> b < n \<and> a \<noteq> b else a < n)"

definition string_ok :: "nat \<Rightarrow> clifford_string \<Rightarrow> bool" where
  "string_ok n ops = list_all (op_ok n) ops"

lemma string_ok_simps [simp]:
  "string_ok n []" "string_ok n (x # xs) = (op_ok n x \<and> string_ok n xs)"
  "string_ok n (xs @ ys) = (string_ok n xs \<and> string_ok n ys)"
  by (simp_all add: string_ok_def)

lemma string_ok_rev [simp]: "string_ok n (rev xs) = string_ok n xs"
  by (simp add: string_ok_def)

lemma op_ok_adjoint [simp]: "op_ok n (adjoint_op x) = op_ok n x"
  by (cases x; cases "fst x") (auto simp: adjoint_op_def)

lemma string_ok_adjoint [simp]: "string_ok n (adjoint_string xs) = string_ok n xs"
  by (auto simp: string_ok_def adjoint_string_def list_all_iff)

section \<open>The mixin PauliProductTrait\<close>

record 'a pauli_product_trait =
  h_op :: "nat \<Rightarrow> 'a \<Rightarrow> 'a"
  s_op :: "nat \<Rightarrow> 'a \<Rightarrow> 'a"
  cx_op :: "nat \<Rightarrow> nat \<Rightarrow> 'a \<Rightarrow> 'a"

definition trait_sdg :: "'a pauli_product_trait \<Rightarrow> nat \<Rightarrow> 'a \<Rightarrow> 'a" where
  "trait_sdg T q a = s_op T q (s_op T q (s_op T q a))"

definition trait_v :: "'a pauli_product_trait \<Rightarrow> nat \<Rightarrow> 'a \<Rightarrow> 'a" where
  "trait_v T q a = h_op T q (s_op T q (h_op T q a))"

definition trait_vdg :: "'a pauli_product_trait \<Rightarrow> nat \<Rightarrow> 'a \<Rightarrow> 'a" where
  "trait_vdg T q a = h_op T q (trait_sdg T q (h_op T q a))"

definition trait_z :: "'a pauli_product_trait \<Rightarrow> nat \<Rightarrow> 'a \<Rightarrow> 'a" where
  "trait_z T q a = s_op T q (s_op T q a)"

definition trait_x :: "'a pauli_product_trait \<Rightarrow> nat \<Rightarrow> 'a \<Rightarrow> 'a" where
  "trait_x T q a = h_op T q (trait_z T q (h_op T q a))"

definition trait_y :: "'a pauli_product_trait \<Rightarrow> nat \<Rightarrow> 'a \<Rightarrow> 'a" where
  "trait_y T q a = trait_z T q (trait_x T q a)"

definition trait_cz :: "'a pauli_product_trait \<Rightarrow> nat \<Rightarrow> nat \<Rightarrow> 'a \<Rightarrow> 'a" where
  "trait_cz T c t a = h_op T t (cx_op T c t (h_op T t a))"

definition trait_swap :: "'a pauli_product_trait \<Rightarrow> nat \<Rightarrow> nat \<Rightarrow> 'a \<Rightarrow> 'a" where
  "trait_swap T p q a = cx_op T p q (cx_op T q p (cx_op T p q a))"

definition trait_ecr :: "'a pauli_product_trait \<Rightarrow> nat \<Rightarrow> nat \<Rightarrow> 'a \<Rightarrow> 'a" where
  "trait_ecr T c t a = trait_v T t (trait_x T c (s_op T c (cx_op T c t a)))"

fun trait_apply :: "'a pauli_product_trait \<Rightarrow> clifford_op \<Rightarrow> 'a \<Rightarrow> 'a" where
  "trait_apply T (COT_h, a, b) = h_op T a"
| "trait_apply T (COT_s, a, b) = s_op T a"
| "trait_apply T (COT_cx, a, b) = cx_op T a b"
| "trait_apply T (COT_sdg, a, b) = trait_sdg T a"
| "trait_apply T (COT_v, a, b) = trait_v T a"
| "trait_apply T (COT_vdg, a, b) = trait_vdg T a"
| "trait_apply T (COT_x, a, b) = trait_x T a"
| "trait_apply T (COT_y, a, b) = trait_y T a"
| "trait_apply T (COT_z, a, b) = trait_z T a"
| "trait_apply T (COT_cz, a, b) = trait_cz T a b"
| "trait_apply T (COT_swap, a, b) = trait_swap T a b"
| "trait_apply T (COT_ecr, a, b) = trait_ecr T a b"

definition trait_apply_string :: "'a pauli_product_trait \<Rightarrow> clifford_string \<Rightarrow> 'a \<Rightarrow> 'a" where
  "trait_apply_string T ops a = fold (trait_apply T) ops a"

lemma trait_apply_string_simps [simp]:
  "trait_apply_string T [] a = a"
  "trait_apply_string T (x # xs) a = trait_apply_string T xs (trait_apply T x a)"
  "trait_apply_string T (xs @ ys) a = trait_apply_string T ys (trait_apply_string T xs a)"
  by (simp_all add: trait_apply_string_def)

lemmas trait_defs = trait_sdg_def trait_v_def trait_vdg_def trait_z_def trait_x_def trait_y_def
  trait_cz_def trait_swap_def trait_ecr_def

text \<open>A relation between two classes that holds of the generators and composes holds of every
  operator and operator string.\<close>

lemma trait_apply_rel:
  fixes T :: "'a pauli_product_trait" and T' :: "'b pauli_product_trait"
  assumes C: "\<And>F G F' G'. R F F' \<Longrightarrow> R G G' \<Longrightarrow> R (\<lambda>a. F (G a)) (\<lambda>a. F' (G' a))"
    and h: "\<And>q. q < n \<Longrightarrow> R (h_op T q) (h_op T' q)" and s: "\<And>q. q < n \<Longrightarrow> R (s_op T q) (s_op T' q)"
    and cx: "\<And>c t. c < n \<Longrightarrow> t < n \<Longrightarrow> c \<noteq> t \<Longrightarrow> R (cx_op T c t) (cx_op T' c t)"
    and x: "op_ok n x"
  shows "R (trait_apply T x) (trait_apply T' x)"
proof -
  obtain t a b where x': "x = (t, a, b)" by (cases x) auto
  have one: "R (trait_sdg T q) (trait_sdg T' q)" "R (trait_z T q) (trait_z T' q)" if q: "q < n" for q
    unfolding trait_sdg_def [abs_def] trait_z_def [abs_def] by (rule C [OF s C [OF s s], OF q q q] C [OF s s, OF q q])+
  have two: "R (trait_v T q) (trait_v T' q)" "R (trait_vdg T q) (trait_vdg T' q)" "R (trait_x T q) (trait_x T' q)"
    if q: "q < n" for q
    unfolding trait_v_def [abs_def] trait_vdg_def [abs_def] trait_x_def [abs_def]
    by (rule C [OF h C [OF s h], OF q q q] C [OF h C [OF one(1) h], OF q q q] C [OF h C [OF one(2) h], OF q q q])+
  have y: "R (trait_y T q) (trait_y T' q)" if q: "q < n" for q
    unfolding trait_y_def [abs_def] by (rule C [OF one(2) two(3), OF q q])
  have pair: "R (trait_cz T p q) (trait_cz T' p q)" "R (trait_swap T p q) (trait_swap T' p q)"
    "R (trait_ecr T p q) (trait_ecr T' p q)" if p: "p < n" "q < n" "p \<noteq> q" for p q
  proof -
    note x1 = cx [OF p] and x2 = cx [OF p(2,1) not_sym [OF p(3)]]
    show "R (trait_cz T p q) (trait_cz T' p q)" "R (trait_swap T p q) (trait_swap T' p q)"
      unfolding trait_cz_def [abs_def] trait_swap_def [abs_def]
      by (rule C [OF h C [OF x1 h], OF p(2) p(2)] C [OF x1 C [OF x2 x1]])+
    show "R (trait_ecr T p q) (trait_ecr T' p q)"
      unfolding trait_ecr_def [abs_def]
      by (rule C [OF two(1) [OF p(2)] C [OF two(3) [OF p(1)] C [OF s [OF p(1)] x1]]])
  qed
  show ?thesis
    using x h s cx one two y pair unfolding x' by (cases t) auto
qed

lemma trait_apply_string_rel:
  fixes T :: "'a pauli_product_trait" and T' :: "'b pauli_product_trait"
  assumes C: "\<And>F G F' G'. R F F' \<Longrightarrow> R G G' \<Longrightarrow> R (\<lambda>a. F (G a)) (\<lambda>a. F' (G' a))"
    and h: "\<And>q. q < n \<Longrightarrow> R (h_op T q) (h_op T' q)" and s: "\<And>q. q < n \<Longrightarrow> R (s_op T q) (s_op T' q)"
    and cx: "\<And>c t. c < n \<Longrightarrow> t < n \<Longrightarrow> c \<noteq> t \<Longrightarrow> R (cx_op T c t) (cx_op T' c t)"
    and id: "R (\<lambda>a. a) (\<lambda>a. a)" and xs: "string_ok n xs"
  shows "R (trait_apply_string T xs) (trait_apply_string T' xs)"
  using xs
proof (induction xs)
  case Nil
  then show ?case using id by (simp add: trait_apply_string_def [abs_def] id_def)
next
  case (Cons x xs)
  have "R (trait_apply T x) (trait_apply T' x)"
    by (rule trait_apply_rel [where R = R and n = n]) (use C h s cx Cons.prems in auto)
  moreover have "R (trait_apply_string T xs) (trait_apply_string T' xs)" using Cons by simp
  ultimately have "R (\<lambda>a. trait_apply_string T xs (trait_apply T x a)) (\<lambda>a. trait_apply_string T' xs (trait_apply T' x a))"
    by (rule C [rotated])
  then show ?case by (simp add: trait_apply_string_def [abs_def])
qed

text \<open>The exact inverse of an operator as a string: for Y and ECR it differs from the adjoint that
  the program uses, which undoes them only up to a global phase.\<close>

fun inverse_op :: "clifford_op \<Rightarrow> clifford_string" where
  "inverse_op (COT_h, a, b) = [(COT_h, a, b)]"
| "inverse_op (COT_s, a, b) = [(COT_sdg, a, b)]"
| "inverse_op (COT_cx, a, b) = [(COT_cx, a, b)]"
| "inverse_op (COT_sdg, a, b) = [(COT_s, a, b)]"
| "inverse_op (COT_v, a, b) = [(COT_vdg, a, b)]"
| "inverse_op (COT_vdg, a, b) = [(COT_v, a, b)]"
| "inverse_op (COT_x, a, b) = [(COT_x, a, b)]"
| "inverse_op (COT_y, a, b) = [(COT_z, a, b), (COT_x, a, b)]"
| "inverse_op (COT_z, a, b) = [(COT_z, a, b)]"
| "inverse_op (COT_cz, a, b) = [(COT_cz, a, b)]"
| "inverse_op (COT_swap, a, b) = [(COT_swap, a, b)]"
| "inverse_op (COT_ecr, a, b) = [(COT_vdg, b, a), (COT_x, a, b), (COT_sdg, a, b), (COT_cx, a, b)]"

definition inverse_string :: "clifford_string \<Rightarrow> clifford_string" where
  "inverse_string ops = concat (map inverse_op (rev ops))"

lemma inverse_string_simps [simp]:
  "inverse_string [] = []" "inverse_string (x # xs) = inverse_string xs @ inverse_op x"
  by (simp_all add: inverse_string_def)

text \<open>
  What a class that derives from the mixin promises for states over \<open>n\<close> qubits: the three
  generators keep the class invariant and are of order two, four and two. Classes that track
  signs but no global phase satisfy two more laws: conjugation by Y and by ECR, both derived,
  are involutions.
\<close>

locale gate_trait =
  fixes T :: "'a pauli_product_trait" and ok :: "nat \<Rightarrow> 'a \<Rightarrow> bool"
  assumes h_ok: "ok n a \<Longrightarrow> q < n \<Longrightarrow> ok n (h_op T q a)"
    and s_ok: "ok n a \<Longrightarrow> q < n \<Longrightarrow> ok n (s_op T q a)"
    and cx_ok: "ok n a \<Longrightarrow> c < n \<Longrightarrow> t < n \<Longrightarrow> c \<noteq> t \<Longrightarrow> ok n (cx_op T c t a)"
    and h_h: "ok n a \<Longrightarrow> q < n \<Longrightarrow> h_op T q (h_op T q a) = a"
    and s_4: "ok n a \<Longrightarrow> q < n \<Longrightarrow> s_op T q (s_op T q (s_op T q (s_op T q a))) = a"
    and cx_cx: "ok n a \<Longrightarrow> c < n \<Longrightarrow> t < n \<Longrightarrow> c \<noteq> t \<Longrightarrow> cx_op T c t (cx_op T c t a) = a"
begin

lemma apply_ok: "ok n a \<Longrightarrow> op_ok n x \<Longrightarrow> ok n (trait_apply T x a)"
proof -
  assume a: "ok n a" and x: "op_ok n x"
  obtain t p q where [simp]: "x = (t, p, q)" by (cases x) auto
  show ?thesis
    using a x by (cases t) (auto simp: trait_defs intro!: h_ok s_ok cx_ok)
qed

lemma apply_string_ok: "ok n a \<Longrightarrow> string_ok n xs \<Longrightarrow> ok n (trait_apply_string T xs a)"
  by (induction xs arbitrary: a) (auto intro: apply_ok)

lemma string_inverse_ok: "op_ok n x \<Longrightarrow> string_ok n (inverse_op x)"
proof -
  assume x: "op_ok n x"
  obtain t p q where [simp]: "x = (t, p, q)" by (cases x) auto
  show ?thesis using x by (cases t) auto
qed

lemma inverse_string_ok: "string_ok n xs \<Longrightarrow> string_ok n (inverse_string xs)"
  by (induction xs) (auto simp: string_inverse_ok)

lemma one_qubit_ok:
  assumes "ok n a" "p < n"
  shows "ok n (trait_sdg T p a)" "ok n (trait_z T p a)" "ok n (trait_v T p a)" "ok n (trait_vdg T p a)" "ok n (trait_x T p a)"
  using assms by (auto simp: trait_sdg_def trait_z_def trait_v_def trait_vdg_def trait_x_def intro!: h_ok s_ok)

lemma one_qubit_inverse:
  assumes a: "ok n a" and p: "p < n"
  shows "trait_sdg T p (s_op T p a) = a" "s_op T p (trait_sdg T p a) = a" "trait_z T p (trait_z T p a) = a"
    "trait_v T p (trait_vdg T p a) = a" "trait_vdg T p (trait_v T p a) = a" "trait_x T p (trait_x T p a) = a"
proof -
  note o = h_ok [OF _ p] s_ok [OF _ p] one_qubit_ok [OF _ p]
  show s: "trait_sdg T p (s_op T p a) = a" "s_op T p (trait_sdg T p a) = a" "trait_z T p (trait_z T p a) = a"
    using s_4 [OF a p] by (simp_all add: trait_sdg_def trait_z_def)
  have h: "h_op T p (h_op T p b) = b" "trait_sdg T p (s_op T p b) = b" "s_op T p (trait_sdg T p b) = b"
    "trait_z T p (trait_z T p b) = b" if "ok n b" for b
    using h_h [OF that p] s_4 [OF that p] by (simp_all add: trait_sdg_def trait_z_def)
  have hh: "h_op T p (h_op T p (trait_z T p (h_op T p a))) = trait_z T p (h_op T p a)"
    "h_op T p (h_op T p (trait_sdg T p (h_op T p a))) = trait_sdg T p (h_op T p a)"
    "h_op T p (h_op T p (s_op T p (h_op T p a))) = s_op T p (h_op T p a)"
    using a by (auto intro!: h(1) o)
  show "trait_v T p (trait_vdg T p a) = a" "trait_vdg T p (trait_v T p a) = a" "trait_x T p (trait_x T p a) = a"
    unfolding trait_v_def trait_vdg_def trait_x_def hh
    using h(2-4) [OF h_ok [OF a p]] h(1) [OF a] by simp_all
qed

lemma two_qubit_inverse:
  assumes a: "ok n a" and p: "p < n" "q < n" "p \<noteq> q"
  shows "trait_cz T p q (trait_cz T p q a) = a" "trait_swap T p q (trait_swap T p q a) = a"
proof -
  have "ok n (h_op T q a)" "ok n (cx_op T p q (h_op T q a))"
    using a p by (auto intro!: h_ok cx_ok)
  then show "trait_cz T p q (trait_cz T p q a) = a"
    using a p by (simp add: trait_cz_def h_h [of n] cx_cx [of n])
  have "ok n (cx_op T p q a)" "ok n (cx_op T q p (cx_op T p q a))"
    using a p by (auto intro!: cx_ok)
  then show "trait_swap T p q (trait_swap T p q a) = a"
    using a p by (simp add: trait_swap_def cx_cx [of n])
qed

lemma apply_inverse_op:
  assumes a: "ok n a" and x: "op_ok n x"
  shows "trait_apply_string T (inverse_op x) (trait_apply T x a) = a"
    "trait_apply T x (trait_apply_string T (inverse_op x) a) = a"
proof -
  obtain t p q where x': "x = (t, p, q)" by (cases x) auto
  have y: "trait_x T p (trait_z T p (trait_y T p a)) = a \<and> trait_y T p (trait_x T p (trait_z T p a)) = a" if "p < n"
    using a that unfolding trait_y_def
    by (simp add: one_qubit_inverse(3,6) [OF _ that] one_qubit_ok [OF _ that])
  have e: "cx_op T p q (trait_sdg T p (trait_x T p (trait_vdg T q (trait_ecr T p q a)))) = a \<and>
      trait_ecr T p q (cx_op T p q (trait_sdg T p (trait_x T p (trait_vdg T q a)))) = a" if pq: "p < n" "q < n" "p \<noteq> q"
  proof -
    have c: "ok n (cx_op T p q b)" "cx_op T p q (cx_op T p q b) = b" if "ok n b" for b
      using that pq by (auto intro: cx_ok cx_cx)
    note i = one_qubit_inverse [OF _ pq(1)] one_qubit_inverse [OF _ pq(2)]
      and o = one_qubit_ok [OF _ pq(1)] one_qubit_ok [OF _ pq(2)] s_ok [OF _ pq(1)]
    show ?thesis unfolding trait_ecr_def using a by (simp add: i o c)
  qed
  show "trait_apply_string T (inverse_op x) (trait_apply T x a) = a"
    using a x y e one_qubit_inverse [OF a] two_qubit_inverse [OF a] h_h [OF a] cx_cx [OF a]
    unfolding x' by (cases t) simp_all
  show "trait_apply T x (trait_apply_string T (inverse_op x) a) = a"
    using a x y e one_qubit_inverse [OF a] two_qubit_inverse [OF a] h_h [OF a] cx_cx [OF a]
    unfolding x' by (cases t) simp_all
qed

lemma apply_inverse_string:
  "ok n a \<Longrightarrow> string_ok n xs \<Longrightarrow> trait_apply_string T (inverse_string xs) (trait_apply_string T xs a) = a"
proof (induction xs arbitrary: a)
  case (Cons x xs)
  have "ok n (trait_apply T x a)" using Cons.prems by (auto intro: apply_ok)
  with Cons show ?case by (simp add: apply_inverse_op(1))
qed simp

lemma apply_string_inverse:
  "ok n a \<Longrightarrow> string_ok n xs \<Longrightarrow> trait_apply_string T xs (trait_apply_string T (inverse_string xs) a) = a"
proof (induction xs arbitrary: a)
  case (Cons x xs)
  have "ok n (trait_apply_string T (inverse_string xs) a)"
    using Cons.prems by (auto intro!: apply_string_ok inverse_string_ok)
  with Cons show ?case by (simp add: apply_inverse_op(2))
qed simp

end

locale pauli_trait = gate_trait +
  assumes y_y: "ok n a \<Longrightarrow> q < n \<Longrightarrow> trait_y T q (trait_y T q a) = a"
    and ecr_ecr: "ok n a \<Longrightarrow> c < n \<Longrightarrow> t < n \<Longrightarrow> c \<noteq> t \<Longrightarrow> trait_ecr T c t (trait_ecr T c t a) = a"
begin

text \<open>The adjoint of an operator undoes it.\<close>

lemma apply_adjoint: "ok n a \<Longrightarrow> op_ok n x \<Longrightarrow> trait_apply T (adjoint_op x) (trait_apply T x a) = a"
proof -
  assume a: "ok n a" and x: "op_ok n x"
  obtain t p q where [simp]: "x = (t, p, q)" by (cases x) auto
  note oks = h_ok s_ok cx_ok
  have y: "trait_y T p (trait_y T p a) = a" if "t = COT_y"
    using a x that by (auto intro: y_y)
  have e: "trait_ecr T p q (trait_ecr T p q a) = a" if "t = COT_ecr"
    using a x that by (auto intro: ecr_ecr)
  show ?thesis
    using a x y e
    by (cases t) (auto simp: adjoint_op_def trait_sdg_def trait_v_def trait_vdg_def trait_z_def
        trait_x_def trait_cz_def trait_swap_def h_h [of n] s_4 [of n] cx_cx [of n] oks)
qed

lemma apply_adjoint_string:
  "ok n a \<Longrightarrow> string_ok n xs \<Longrightarrow> trait_apply_string T (adjoint_string xs) (trait_apply_string T xs a) = a"
proof (induction xs arbitrary: a)
  case (Cons x xs)
  have "adjoint_string (x # xs) = adjoint_string xs @ [adjoint_op x]"
    by (simp add: adjoint_string_def)
  with Cons show ?case by (simp add: apply_ok apply_adjoint)
qed simp

lemma apply_string_adjoint:
  "ok n a \<Longrightarrow> string_ok n xs \<Longrightarrow> trait_apply_string T xs (trait_apply_string T (adjoint_string xs) a) = a"
  using apply_adjoint_string [of n a "adjoint_string xs"] by simp

end

end
