(* ===== verification/PauliProduct.thy ===== *)
theory PauliProduct
  imports Pauli
begin

text \<open>
  The class \<open>PauliProduct\<close> (src/src/tableau/pauli_rotation.hpp, pauli_rotation.cpp). A signed
  Pauli string over \<open>n\<close> qubits is a bitset of \<open>2n + 1\<close> bits: \<open>n\<close> z bits, \<open>n\<close> x bits and the
  sign. \<open>pp_ok n\<close> is the class invariant; \<open>zbit\<close>, \<open>xbit\<close> and \<open>is_neg\<close> of each operation
  (collection \<open>bit_simps\<close>) are what all later proofs use. The class implements the contract
  \<open>pauli_trait\<close>.
\<close>

section \<open>State and accessors\<close>

record pauli_product =
  bitset :: "bool list"

definition pp_n_qubits :: "pauli_product \<Rightarrow> nat" where
  "pp_n_qubits P = (length (bitset P) - 1) div 2"

definition z_idx :: "pauli_product \<Rightarrow> nat \<Rightarrow> nat" where
  "z_idx P i = i"

definition x_idx :: "pauli_product \<Rightarrow> nat \<Rightarrow> nat" where
  "x_idx P i = i + pp_n_qubits P"

definition r_idx :: "pauli_product \<Rightarrow> nat" where
  "r_idx P = pp_n_qubits P * 2"

definition is_z_set :: "pauli_product \<Rightarrow> nat \<Rightarrow> bool" where
  "is_z_set P i = test (bitset P) (z_idx P i)"

definition is_x_set :: "pauli_product \<Rightarrow> nat \<Rightarrow> bool" where
  "is_x_set P i = test (bitset P) (x_idx P i)"

definition is_neg :: "pauli_product \<Rightarrow> bool" where
  "is_neg P = test (bitset P) (r_idx P)"

definition get_pauli_type :: "pauli_product \<Rightarrow> nat \<Rightarrow> pauli" where
  "get_pauli_type P i =
     (if is_z_set P i then (if is_x_set P i then PY else PZ)
      else (if is_x_set P i then PX else PI))"

definition is_i :: "pauli_product \<Rightarrow> nat \<Rightarrow> bool" where
  "is_i P i \<longleftrightarrow> \<not> is_z_set P i \<and> \<not> is_x_set P i"

definition is_x :: "pauli_product \<Rightarrow> nat \<Rightarrow> bool" where
  "is_x P i \<longleftrightarrow> \<not> is_z_set P i \<and> is_x_set P i"

definition is_y :: "pauli_product \<Rightarrow> nat \<Rightarrow> bool" where
  "is_y P i \<longleftrightarrow> is_z_set P i \<and> is_x_set P i"

definition is_z :: "pauli_product \<Rightarrow> nat \<Rightarrow> bool" where
  "is_z P i \<longleftrightarrow> is_z_set P i \<and> \<not> is_x_set P i"

definition is_diagonal :: "pauli_product \<Rightarrow> bool" where
  "is_diagonal P = list_all (\<lambda>i. is_i P i \<or> is_z P i) [0..<pp_n_qubits P]"

definition is_identity :: "pauli_product \<Rightarrow> bool" where
  "is_identity P = list_all (is_i P) [0..<pp_n_qubits P]"

definition set_bit_at :: "nat \<Rightarrow> bool \<Rightarrow> pauli_product \<Rightarrow> pauli_product" where
  "set_bit_at i v P = P\<lparr>bitset := (bitset P)[i := v]\<rparr>"

definition flip_bit_at :: "nat \<Rightarrow> pauli_product \<Rightarrow> pauli_product" where
  "flip_bit_at i P = P\<lparr>bitset := (bitset P)[i := \<not> test (bitset P) i]\<rparr>"

fun set_pauli_type :: "nat \<Rightarrow> pauli \<Rightarrow> pauli_product \<Rightarrow> pauli_product" where
  "set_pauli_type i PI P = set_bit_at (x_idx P i) False (set_bit_at (z_idx P i) False P)"
| "set_pauli_type i PX P = set_bit_at (x_idx P i) True (set_bit_at (z_idx P i) False P)"
| "set_pauli_type i PY P = set_bit_at (x_idx P i) True (set_bit_at (z_idx P i) True P)"
| "set_pauli_type i PZ P = set_bit_at (x_idx P i) False (set_bit_at (z_idx P i) True P)"

definition pp_negate :: "pauli_product \<Rightarrow> pauli_product" where
  "pp_negate P = flip_bit_at (r_idx P) P"

section \<open>Construction\<close>

definition pp_blank :: "nat \<Rightarrow> pauli_product" where
  "pp_blank n = \<lparr>bitset = replicate (2 * n + 1) False\<rparr>"

text \<open>The constructor from a range of Paulis and a sign.\<close>

definition pp_of_paulis :: "pauli list \<Rightarrow> bool \<Rightarrow> pauli_product" where
  "pp_of_paulis ps neg =
     (let P = fold (\<lambda>i P. set_pauli_type i (ps ! i) P) [0..<length ps] (pp_blank (length ps))
      in set_bit_at (r_idx P) neg P)"

definition toupper :: "char \<Rightarrow> char" where
  "toupper c =
     (if 97 \<le> (of_char c :: nat) \<and> (of_char c :: nat) \<le> 122 then char_of ((of_char c :: nat) - 32) else c)"

text \<open>The switch over a letter of the input string: any other letter leaves the identity.\<close>

definition set_from_char :: "nat \<Rightarrow> char \<Rightarrow> pauli_product \<Rightarrow> pauli_product" where
  "set_from_char i c P =
     (let u = toupper c in
      if u = CHR ''I'' then P
      else if u = CHR ''Z'' then set_bit_at (z_idx P i) True P
      else if u = CHR ''Y'' then set_bit_at (x_idx P i) True (set_bit_at (z_idx P i) True P)
      else if u = CHR ''X'' then set_bit_at (x_idx P i) True P
      else P)"

text \<open>
  The constructor from a string with an optional leading sign. The code reads \<open>front()\<close> of the
  string without a check, so the empty string is outside its contract; the model returns \<open>None\<close>.
\<close>

definition pp_of_string :: "string \<Rightarrow> pauli_product option" where
  "pp_of_string str =
     (case str of
        [] \<Rightarrow> None
      | c # cs \<Rightarrow>
          (let (body, neg) = (if c = CHR ''+'' then (cs, False)
                              else if c = CHR ''-'' then (cs, True)
                              else (str, False));
               P0 = pp_blank (length body);
               P1 = (if neg then set_bit_at (2 * length body) True P0 else P0)
           in Some (fold (\<lambda>i P. set_from_char i (body ! i) P) [0..<length body] P1)))"

definition pauli_char :: "pauli \<Rightarrow> char" where
  "pauli_char p = (case p of PI \<Rightarrow> CHR ''I'' | PX \<Rightarrow> CHR ''X'' | PY \<Rightarrow> CHR ''Y'' | PZ \<Rightarrow> CHR ''Z'')"

definition pp_to_string :: "char \<Rightarrow> pauli_product \<Rightarrow> string" where
  "pp_to_string signedness P =
     (if is_neg P then ''-''
      else if signedness = CHR ''+'' then ''+''
      else if signedness = CHR '' '' then '' ''
      else [])
     @ map (\<lambda>i. pauli_char (get_pauli_type P i)) [0..<pp_n_qubits P]"

definition bit_char :: "bool \<Rightarrow> char" where
  "bit_char b = (if b then CHR ''1'' else CHR ''0'')"

definition pp_to_bit_string :: "pauli_product \<Rightarrow> string" where
  "pp_to_bit_string P =
     map (\<lambda>i. bit_char (is_z_set P i)) [0..<pp_n_qubits P] @ '' ''
     @ map (\<lambda>i. bit_char (is_x_set P i)) [0..<pp_n_qubits P] @ '' ''
     @ [bit_char (is_neg P)]"

section \<open>Product, commutation, conjugation\<close>

text \<open>The exponent of \<open>i\<close> is accumulated in a \<open>uint8_t\<close>.\<close>

definition pp_power_of_i :: "pauli_product \<Rightarrow> pauli_product \<Rightarrow> nat" where
  "pp_power_of_i P Q =
     fold (\<lambda>i acc. (acc + power_of_i (get_pauli_type P i) (get_pauli_type Q i)) mod 256)
       [0..<pp_n_qubits P] 0"

definition pp_times :: "pauli_product \<Rightarrow> pauli_product \<Rightarrow> pauli_product" where
  "pp_times P Q =
     (let P' = (if (pp_power_of_i P Q mod 4) div 2 = 1 then flip_bit_at (r_idx P) P else P)
      in P'\<lparr>bitset := xor_bits (bitset P') (bitset Q)\<rparr>)"

definition pp_is_commutative :: "pauli_product \<Rightarrow> pauli_product \<Rightarrow> bool" where
  "pp_is_commutative P Q =
     fold (\<lambda>i c. bxor c (bxor (is_z_set P i \<and> is_x_set Q i) (is_x_set P i \<and> is_z_set Q i)))
       [0..<pp_n_qubits P] True"

definition bitset_swap_two :: "nat \<Rightarrow> nat \<Rightarrow> bool list \<Rightarrow> bool list" where
  "bitset_swap_two i j bs =
     (let bs1 = bs[i := bxor (test bs i) (test bs j)];
          bs2 = bs1[j := bxor (test bs1 j) (test bs1 i)]
      in bs2[i := bxor (test bs2 i) (test bs2 j)])"

definition pp_h :: "nat \<Rightarrow> pauli_product \<Rightarrow> pauli_product" where
  "pp_h q P =
     (if pp_n_qubits P \<le> q then P
      else (let P' = (if is_y P q then flip_bit_at (r_idx P) P else P)
            in P'\<lparr>bitset := bitset_swap_two (z_idx P' q) (x_idx P' q) (bitset P')\<rparr>))"

definition pp_s :: "nat \<Rightarrow> pauli_product \<Rightarrow> pauli_product" where
  "pp_s q P =
     (if pp_n_qubits P \<le> q then P
      else (let P' = (if is_y P q then flip_bit_at (r_idx P) P else P)
            in set_bit_at (z_idx P' q) (bxor (is_z_set P' q) (is_x_set P' q)) P'))"

definition pp_cx :: "nat \<Rightarrow> nat \<Rightarrow> pauli_product \<Rightarrow> pauli_product" where
  "pp_cx c t P =
     (if pp_n_qubits P \<le> c \<or> pp_n_qubits P \<le> t then P
      else (let P1 = (if is_x_set P c \<and> is_z_set P t \<and> is_x_set P t = is_z_set P c
                      then flip_bit_at (r_idx P) P else P);
                P2 = set_bit_at (x_idx P1 t) (bxor (is_x_set P1 t) (is_x_set P1 c)) P1
            in set_bit_at (z_idx P2 c) (bxor (is_z_set P2 c) (is_z_set P2 t)) P2))"

definition pp_trait :: "pauli_product pauli_product_trait" where
  "pp_trait = \<lparr>h_op = pp_h, s_op = pp_s, cx_op = pp_cx\<rparr>"

section \<open>The class invariant and the bits of each operation\<close>

definition pp_wf :: "pauli_product \<Rightarrow> bool" where
  "pp_wf P \<longleftrightarrow> length (bitset P) = 2 * pp_n_qubits P + 1"

definition pp_ok :: "nat \<Rightarrow> pauli_product \<Rightarrow> bool" where
  "pp_ok n P \<longleftrightarrow> pp_wf P \<and> pp_n_qubits P = n"

lemma pp_okD: "pp_ok n P \<Longrightarrow> pp_wf P" "pp_ok n P \<Longrightarrow> pp_n_qubits P = n"
  by (simp_all add: pp_ok_def)

lemma pp_ok_length: "pp_ok n P \<longleftrightarrow> length (bitset P) = 2 * n + 1"
  by (auto simp: pp_ok_def pp_wf_def pp_n_qubits_def)

lemma pp_eqI:
  assumes "pp_wf P" "pp_wf Q" "pp_n_qubits P = pp_n_qubits Q" "is_neg P = is_neg Q"
    and z: "\<And>i. i < pp_n_qubits P \<Longrightarrow> is_z_set P i = is_z_set Q i"
    and x: "\<And>i. i < pp_n_qubits P \<Longrightarrow> is_x_set P i = is_x_set Q i"
  shows "P = (Q :: pauli_product)"
proof (rule pauli_product.equality [OF bits_eqI])
  let ?n = "pp_n_qubits P"
  show "length (bitset P) = length (bitset Q)" using assms(1,2,3) by (simp add: pp_wf_def)
  fix i assume "i < length (bitset P)"
  then have "i < ?n \<or> (\<exists>j<?n. i = j + ?n) \<or> i = ?n * 2"
    using assms(1) by (auto simp: pp_wf_def intro!: exI [of _ "i - ?n"])
  then show "test (bitset P) i = test (bitset Q) i"
    using assms(3,4) z x
    by (auto simp: is_z_set_def is_x_set_def is_neg_def z_idx_def x_idx_def r_idx_def)
qed simp

lemmas access_defs = is_z_set_def is_x_set_def is_neg_def z_idx_def x_idx_def r_idx_def

lemma size_set_flip [simp]:
  "pp_n_qubits (set_bit_at i v P) = pp_n_qubits P" "pp_n_qubits (flip_bit_at i P) = pp_n_qubits P"
  "pp_wf (set_bit_at i v P) = pp_wf P" "pp_wf (flip_bit_at i P) = pp_wf P"
  by (simp_all add: pp_n_qubits_def pp_wf_def set_bit_at_def flip_bit_at_def)

lemma flip_r [simp]:
  assumes "pp_wf P"
  shows "i < pp_n_qubits P \<Longrightarrow> is_z_set (flip_bit_at (r_idx P) P) i = is_z_set P i"
    "i < pp_n_qubits P \<Longrightarrow> is_x_set (flip_bit_at (r_idx P) P) i = is_x_set P i"
    "is_neg (flip_bit_at (r_idx P) P) = (\<not> is_neg P)"
  using assms by (simp_all add: access_defs) (auto simp: flip_bit_at_def test_list_update pp_wf_def)

lemma set_r [simp]:
  assumes "pp_wf P"
  shows "i < pp_n_qubits P \<Longrightarrow> is_z_set (set_bit_at (r_idx P) v P) i = is_z_set P i"
    "i < pp_n_qubits P \<Longrightarrow> is_x_set (set_bit_at (r_idx P) v P) i = is_x_set P i"
    "is_neg (set_bit_at (r_idx P) v P) = v"
  using assms by (simp_all add: access_defs) (auto simp: set_bit_at_def test_list_update pp_wf_def)

lemma set_z [simp]:
  assumes "pp_wf P" "q < pp_n_qubits P"
  shows "i < pp_n_qubits P \<Longrightarrow> is_z_set (set_bit_at (z_idx P' q) v P) i = (if i = q then v else is_z_set P i)"
    "i < pp_n_qubits P \<Longrightarrow> is_x_set (set_bit_at (z_idx P' q) v P) i = is_x_set P i"
    "is_neg (set_bit_at (z_idx P' q) v P) = is_neg P"
  using assms by (simp_all add: access_defs) (auto simp: set_bit_at_def test_list_update pp_wf_def)

lemma set_x [simp]:
  assumes "pp_wf P" "q < pp_n_qubits P" "pp_n_qubits P' = pp_n_qubits P"
  shows "i < pp_n_qubits P \<Longrightarrow> is_z_set (set_bit_at (x_idx P' q) v P) i = is_z_set P i"
    "i < pp_n_qubits P \<Longrightarrow> is_x_set (set_bit_at (x_idx P' q) v P) i = (if i = q then v else is_x_set P i)"
    "is_neg (set_bit_at (x_idx P' q) v P) = is_neg P"
  using assms by (simp_all add: access_defs) (auto simp: set_bit_at_def test_list_update pp_wf_def)

lemma test_bitset_swap_two:
  assumes "i < length bs" "j < length bs" "i \<noteq> j"
  shows "test (bitset_swap_two i j bs) k = (if k = i then test bs j else if k = j then test bs i else test bs k)"
  using assms by (auto simp: bitset_swap_two_def Let_def test_list_update bxor_ac)

lemma length_bitset_swap_two [simp]: "length (bitset_swap_two i j bs) = length bs"
  by (simp add: bitset_swap_two_def Let_def)

lemma size_update [simp]:
  "length bs = length (bitset P) \<Longrightarrow> pp_n_qubits (P\<lparr>bitset := bs\<rparr>) = pp_n_qubits P"
  "length bs = length (bitset P) \<Longrightarrow> pp_wf (P\<lparr>bitset := bs\<rparr>) = pp_wf P"
  by (simp_all add: pp_n_qubits_def pp_wf_def)

lemma size_ops [simp]:
  "pp_n_qubits (pp_h q P) = pp_n_qubits P" "pp_wf (pp_h q P) = pp_wf P"
  "pp_n_qubits (pp_s q P) = pp_n_qubits P" "pp_wf (pp_s q P) = pp_wf P"
  "pp_n_qubits (pp_cx c t P) = pp_n_qubits P" "pp_wf (pp_cx c t P) = pp_wf P"
  "pp_n_qubits (pp_negate P) = pp_n_qubits P" "pp_wf (pp_negate P) = pp_wf P"
  by (simp_all add: pp_h_def pp_s_def pp_cx_def pp_negate_def Let_def)

lemma swap_zx:
  assumes "pp_wf P" "q < pp_n_qubits P"
  defines "P' \<equiv> P\<lparr>bitset := bitset_swap_two (z_idx P q) (x_idx P q) (bitset P)\<rparr>"
  shows "i < pp_n_qubits P \<Longrightarrow> is_z_set P' i = (if i = q then is_x_set P q else is_z_set P i)"
    "i < pp_n_qubits P \<Longrightarrow> is_x_set P' i = (if i = q then is_z_set P q else is_x_set P i)"
    "is_neg P' = is_neg P"
proof -
  have n: "pp_n_qubits P' = pp_n_qubits P" by (simp add: P'_def)
  have l: "length (bitset P) = 2 * pp_n_qubits P + 1" using assms(1) by (simp add: pp_wf_def)
  note t = test_bitset_swap_two [of q "bitset P" "q + pp_n_qubits P"]
  have b: "bitset P' = bitset_swap_two q (q + pp_n_qubits P) (bitset P)"
    by (simp add: P'_def z_idx_def x_idx_def)
  show "i < pp_n_qubits P \<Longrightarrow> is_z_set P' i = (if i = q then is_x_set P q else is_z_set P i)"
    "i < pp_n_qubits P \<Longrightarrow> is_x_set P' i = (if i = q then is_z_set P q else is_x_set P i)"
    "is_neg P' = is_neg P"
    using assms(2) l by (auto simp: access_defs n b t)
qed

lemma pp_h_bits [bit_simps]:
  assumes "pp_wf P" "q < pp_n_qubits P"
  shows "i < pp_n_qubits P \<Longrightarrow> is_z_set (pp_h q P) i = (if i = q then is_x_set P q else is_z_set P i)"
    "i < pp_n_qubits P \<Longrightarrow> is_x_set (pp_h q P) i = (if i = q then is_z_set P q else is_x_set P i)"
    "is_neg (pp_h q P) = bxor (is_neg P) (is_z_set P q \<and> is_x_set P q)"
  using assms by (auto simp: pp_h_def Let_def is_y_def swap_zx)

lemma pp_s_bits [bit_simps]:
  assumes "pp_wf P" "q < pp_n_qubits P"
  shows "i < pp_n_qubits P \<Longrightarrow>
      is_z_set (pp_s q P) i = (if i = q then bxor (is_z_set P q) (is_x_set P q) else is_z_set P i)"
    "i < pp_n_qubits P \<Longrightarrow> is_x_set (pp_s q P) i = is_x_set P i"
    "is_neg (pp_s q P) = bxor (is_neg P) (is_z_set P q \<and> is_x_set P q)"
  using assms by (auto simp: pp_s_def Let_def is_y_def)

lemma pp_cx_bits [bit_simps]:
  assumes "pp_wf P" "c < pp_n_qubits P" "t < pp_n_qubits P"
  shows "i < pp_n_qubits P \<Longrightarrow>
      is_z_set (pp_cx c t P) i = (if i = c then bxor (is_z_set P c) (is_z_set P t) else is_z_set P i)"
    "i < pp_n_qubits P \<Longrightarrow>
      is_x_set (pp_cx c t P) i = (if i = t then bxor (is_x_set P t) (is_x_set P c) else is_x_set P i)"
    "is_neg (pp_cx c t P) =
      bxor (is_neg P) (is_x_set P c \<and> is_z_set P t \<and> is_x_set P t = is_z_set P c)"
  using assms by (auto simp: pp_cx_def Let_def)

lemma pp_negate_bits [bit_simps]:
  assumes "pp_wf P"
  shows "i < pp_n_qubits P \<Longrightarrow> is_z_set (pp_negate P) i = is_z_set P i"
    "i < pp_n_qubits P \<Longrightarrow> is_x_set (pp_negate P) i = is_x_set P i"
    "is_neg (pp_negate P) = (\<not> is_neg P)"
  using assms by (auto simp: pp_negate_def)

text \<open>Operators on qubits out of range are ignored.\<close>

lemma pp_ops_out_of_range:
  "pp_n_qubits P \<le> q \<Longrightarrow> pp_h q P = P" "pp_n_qubits P \<le> q \<Longrightarrow> pp_s q P = P"
  "pp_n_qubits P \<le> c \<or> pp_n_qubits P \<le> t \<Longrightarrow> pp_cx c t P = P"
  by (simp_all add: pp_h_def pp_s_def pp_cx_def)

subsection \<open>The derived operators\<close>

lemma trait_sel [simp]: "h_op pp_trait = pp_h" "s_op pp_trait = pp_s" "cx_op pp_trait = pp_cx"
  by (simp_all add: pp_trait_def)

lemma size_derived [simp]:
  "pp_n_qubits (trait_z pp_trait q P) = pp_n_qubits P" "pp_wf (trait_z pp_trait q P) = pp_wf P"
  "pp_n_qubits (trait_x pp_trait q P) = pp_n_qubits P" "pp_wf (trait_x pp_trait q P) = pp_wf P"
  "pp_n_qubits (trait_v pp_trait q P) = pp_n_qubits P" "pp_wf (trait_v pp_trait q P) = pp_wf P"
  by (simp_all add: trait_z_def trait_x_def trait_v_def)

lemma pp_z_bits [bit_simps]:
  assumes "pp_wf P" "q < pp_n_qubits P"
  shows "i < pp_n_qubits P \<Longrightarrow> is_z_set (trait_z pp_trait q P) i = is_z_set P i"
    "i < pp_n_qubits P \<Longrightarrow> is_x_set (trait_z pp_trait q P) i = is_x_set P i"
    "is_neg (trait_z pp_trait q P) = bxor (is_neg P) (is_x_set P q)"
  using assms by (auto simp: trait_z_def bit_simps bxor_ac) (auto simp: bxor_def)

lemma pp_x_bits [bit_simps]:
  assumes "pp_wf P" "q < pp_n_qubits P"
  shows "i < pp_n_qubits P \<Longrightarrow> is_z_set (trait_x pp_trait q P) i = is_z_set P i"
    "i < pp_n_qubits P \<Longrightarrow> is_x_set (trait_x pp_trait q P) i = is_x_set P i"
    "is_neg (trait_x pp_trait q P) = bxor (is_neg P) (is_z_set P q)"
  using assms by (auto simp: trait_x_def bit_simps) (auto simp: bxor_def)

lemma pp_v_bits [bit_simps]:
  assumes "pp_wf P" "q < pp_n_qubits P"
  shows "i < pp_n_qubits P \<Longrightarrow> is_z_set (trait_v pp_trait q P) i = is_z_set P i"
    "i < pp_n_qubits P \<Longrightarrow>
      is_x_set (trait_v pp_trait q P) i = (if i = q then bxor (is_x_set P q) (is_z_set P q) else is_x_set P i)"
    "is_neg (trait_v pp_trait q P) = bxor (is_neg P) (is_z_set P q \<and> \<not> is_x_set P q)"
  using assms by (auto simp: trait_v_def bit_simps) (auto simp: bxor_def)

lemma pp_ecr_bits:
  assumes "pp_wf P" "c < pp_n_qubits P" "t < pp_n_qubits P" "c \<noteq> t"
  shows "i < pp_n_qubits P \<Longrightarrow> is_z_set (trait_ecr pp_trait c t P) i =
      (if i = c then bxor (bxor (is_z_set P c) (is_z_set P t)) (is_x_set P c) else is_z_set P i)"
    "i < pp_n_qubits P \<Longrightarrow> is_x_set (trait_ecr pp_trait c t P) i =
      (if i = t then bxor (bxor (is_x_set P t) (is_x_set P c)) (is_z_set P t) else is_x_set P i)"
    "is_neg (trait_ecr pp_trait c t P) =
      bxor (is_neg P) (bxor (is_x_set P c \<and> is_z_set P t \<and> is_x_set P t = is_z_set P c)
        (bxor (bxor (is_z_set P c) (is_z_set P t) \<and> is_x_set P c)
          (bxor (bxor (bxor (is_z_set P c) (is_z_set P t)) (is_x_set P c))
            (is_z_set P t \<and> \<not> bxor (is_x_set P t) (is_x_set P c)))))"
  using assms by (simp_all add: trait_ecr_def bit_simps bxor_assoc)

lemma size_ecr [simp]:
  "pp_n_qubits (trait_ecr pp_trait c t P) = pp_n_qubits P" "pp_wf (trait_ecr pp_trait c t P) = pp_wf P"
  by (simp_all add: trait_ecr_def)

lemma pp_ecr_ecr:
  assumes "pp_wf P" "c < pp_n_qubits P" "t < pp_n_qubits P" "c \<noteq> t"
  shows "trait_ecr pp_trait c t (trait_ecr pp_trait c t P) = P"
proof (rule pp_eqI)
  show "is_neg (trait_ecr pp_trait c t (trait_ecr pp_trait c t P)) = is_neg P"
    using assms
    by (cases "is_z_set P c"; cases "is_z_set P t"; cases "is_x_set P c"; cases "is_x_set P t")
      (simp_all add: pp_ecr_bits)
qed (use assms in \<open>auto simp: pp_ecr_bits bxor_ac\<close>)

interpretation pp: pauli_trait pp_trait pp_ok
proof unfold_locales
  fix n q :: nat and a :: pauli_product
  assume "pp_ok n a" and "q < n"
  then have a: "pp_wf a" and q: "q < pp_n_qubits a" by (simp_all add: pp_ok_def)
  show "h_op pp_trait q (h_op pp_trait q a) = a"
    by (rule pp_eqI) (use a q in \<open>auto simp: bit_simps bxor_def\<close>)
  show "s_op pp_trait q (s_op pp_trait q (s_op pp_trait q (s_op pp_trait q a))) = a"
    by (rule pp_eqI) (use a q in \<open>auto simp: bit_simps bxor_def\<close>)
  show "trait_y pp_trait q (trait_y pp_trait q a) = a"
    by (rule pp_eqI) (use a q in \<open>auto simp: trait_y_def bit_simps bxor_def\<close>)
next
  fix n c t :: nat and a :: pauli_product
  assume "pp_ok n a" "c < n" "t < n" and ct: "c \<noteq> t"
  then have a: "pp_wf a" and c: "c < pp_n_qubits a" and t: "t < pp_n_qubits a" by (simp_all add: pp_ok_def)
  show "cx_op pp_trait c t (cx_op pp_trait c t a) = a"
    by (rule pp_eqI) (use a c t ct in \<open>auto simp: bit_simps bxor_def\<close>)
  show "trait_ecr pp_trait c t (trait_ecr pp_trait c t a) = a"
    using a c t ct by (rule pp_ecr_ecr)
qed (simp_all add: pp_ok_def)

end
