(* ===== verification/PauliAlgebra.thy ===== *)
theory PauliAlgebra
  imports PauliProduct
begin

text \<open>
  The algebra of Pauli products: the sign rule of \<open>operator*=\<close>, the commutation test as a
  symplectic form over GF(2), and the fact that \<open>h\<close>, \<open>s\<close> and \<open>cx\<close> act as automorphisms. The
  last section gives the operators their meaning on computational basis states: \<open>act_phase\<close> is
  the power of \<open>i\<close> and \<open>act_state\<close> the basis state that a Pauli product produces.
\<close>

section \<open>The product\<close>

definition pauli_of_bits :: "bool \<Rightarrow> bool \<Rightarrow> pauli" where
  "pauli_of_bits z x = (if z then (if x then PY else PZ) else (if x then PX else PI))"

lemma get_pauli_type_bits: "get_pauli_type P i = pauli_of_bits (is_z_set P i) (is_x_set P i)"
  by (simp add: get_pauli_type_def pauli_of_bits_def)

text \<open>The exponent contributed by one qubit.\<close>

definition local_power :: "bool \<Rightarrow> bool \<Rightarrow> bool \<Rightarrow> bool \<Rightarrow> nat" where
  "local_power z x z' x' = power_of_i (pauli_of_bits z x) (pauli_of_bits z' x')"

lemmas local_power_eval = local_power_def power_of_i_def pauli_of_bits_def

definition pw :: "pauli_product \<Rightarrow> pauli_product \<Rightarrow> nat" where
  "pw P Q = (\<Sum>i<pp_n_qubits P. local_power (is_z_set P i) (is_x_set P i) (is_z_set Q i) (is_x_set Q i))"

lemma fold_sum_mod:
  "fold (\<lambda>i acc. (acc + f i) mod m) [0..<n] 0 = (\<Sum>i<n. f i) mod m" for f :: "nat \<Rightarrow> nat"
  by (induction n) (simp_all add: mod_simps)

text \<open>The 8-bit accumulator does no harm: 4 divides 256.\<close>

lemma pp_power_of_i_mod4: "pp_power_of_i P Q mod 4 = pw P Q mod 4"
  by (simp add: pp_power_of_i_def fold_sum_mod pw_def get_pauli_type_bits local_power_def mod_mod_cancel)

lemma size_times [simp]:
  assumes "pp_wf P" "pp_wf Q" "pp_n_qubits Q = pp_n_qubits P"
  shows "pp_n_qubits (pp_times P Q) = pp_n_qubits P" "pp_wf (pp_times P Q)"
  using assms by (auto simp: pp_times_def Let_def pp_n_qubits_def pp_wf_def flip_bit_at_def)

lemma xor_update_bits:
  assumes "pp_wf P" "pp_wf Q" "pp_n_qubits Q = pp_n_qubits P"
  defines "R \<equiv> P\<lparr>bitset := xor_bits (bitset P) (bitset Q)\<rparr>"
  shows "i < pp_n_qubits P \<Longrightarrow> is_z_set R i = bxor (is_z_set P i) (is_z_set Q i)"
    "i < pp_n_qubits P \<Longrightarrow> is_x_set R i = bxor (is_x_set P i) (is_x_set Q i)"
    "is_neg R = bxor (is_neg P) (is_neg Q)"
proof -
  have l: "length (bitset P) = length (bitset Q)" using assms(1-3) by (simp add: pp_wf_def)
  then have "pp_n_qubits R = pp_n_qubits P" by (simp add: R_def)
  with l assms(3) show "i < pp_n_qubits P \<Longrightarrow> is_z_set R i = bxor (is_z_set P i) (is_z_set Q i)"
    "i < pp_n_qubits P \<Longrightarrow> is_x_set R i = bxor (is_x_set P i) (is_x_set Q i)"
    "is_neg R = bxor (is_neg P) (is_neg Q)"
    by (auto simp: access_defs R_def test_xor_bits)
qed

lemma pp_times_bits [bit_simps]:
  assumes "pp_wf P" "pp_wf Q" "pp_n_qubits Q = pp_n_qubits P"
  shows "i < pp_n_qubits P \<Longrightarrow> is_z_set (pp_times P Q) i = bxor (is_z_set P i) (is_z_set Q i)"
    "i < pp_n_qubits P \<Longrightarrow> is_x_set (pp_times P Q) i = bxor (is_x_set P i) (is_x_set Q i)"
    "is_neg (pp_times P Q) = bxor (bxor (is_neg P) (is_neg Q)) (2 \<le> pw P Q mod 4)"
proof -
  have h: "(pp_power_of_i P Q mod 4) div 2 = Suc 0 \<longleftrightarrow> 2 \<le> pw P Q mod 4"
    unfolding pp_power_of_i_mod4 by presburger
  show "i < pp_n_qubits P \<Longrightarrow> is_z_set (pp_times P Q) i = bxor (is_z_set P i) (is_z_set Q i)"
    "i < pp_n_qubits P \<Longrightarrow> is_x_set (pp_times P Q) i = bxor (is_x_set P i) (is_x_set Q i)"
    "is_neg (pp_times P Q) = bxor (bxor (is_neg P) (is_neg Q)) (2 \<le> pw P Q mod 4)"
    using assms by (auto simp: pp_times_def Let_def h xor_update_bits)
qed

section \<open>Commutation as a symplectic form\<close>

definition symp :: "pauli_product \<Rightarrow> pauli_product \<Rightarrow> bool" where
  "symp P Q = gf2_sum (\<lambda>i. bxor (is_z_set P i \<and> is_x_set Q i) (is_x_set P i \<and> is_z_set Q i)) (pp_n_qubits P)"

lemma pp_is_commutative_symp: "pp_is_commutative P Q = (\<not> symp P Q)"
proof -
  have "fold (\<lambda>i c. bxor c (f i)) [0..<n] True = (\<not> gf2_sum f n)" for f n
    by (induction n) auto
  then show ?thesis by (simp add: pp_is_commutative_def symp_def)
qed

lemma symp_sym: "pp_n_qubits P = pp_n_qubits Q \<Longrightarrow> symp P Q = symp Q P"
  by (simp add: symp_def conj_commute bxor_comm)

lemma symp_self: "\<not> symp P P"
  by (simp add: symp_def conj_commute)

lemma symp_times:
  assumes "pp_wf P" "pp_wf Q" "pp_n_qubits Q = pp_n_qubits P"
  shows "symp (pp_times P Q) R = bxor (symp P R) (symp Q R)"
proof -
  let ?f = "\<lambda>A i. bxor (is_z_set A i \<and> is_x_set R i) (is_x_set A i \<and> is_z_set R i)"
  have "symp (pp_times P Q) R = gf2_sum (\<lambda>i. bxor (?f P i) (?f Q i)) (pp_n_qubits P)"
    unfolding symp_def using assms by (intro gf2_sum_cong) (auto simp: pp_times_bits bxor_conj bxor_ac)
  with assms(3) show ?thesis by (simp add: gf2_sum_xor symp_def)
qed

text \<open>The exponent of \<open>i\<close> is odd exactly for anticommuting products.\<close>

lemma odd_pw: "odd (pw P Q) = symp P Q"
proof -
  have "odd (\<Sum>i<n. f i) = gf2_sum (\<lambda>i. odd (f i)) n" for f :: "nat \<Rightarrow> nat" and n
    by (induction n) (auto simp: bxor_def)
  then have "odd (pw P Q) = gf2_sum (\<lambda>i. odd (local_power (is_z_set P i) (is_x_set P i) (is_z_set Q i) (is_x_set Q i))) (pp_n_qubits P)"
    by (simp add: pw_def)
  also have "\<dots> = symp P Q"
    unfolding symp_def by (intro gf2_sum_cong) (auto simp: local_power_eval bxor_def)
  finally show ?thesis .
qed

lemma sum_change_one:
  fixes f g :: "nat \<Rightarrow> nat"
  assumes "q < n" "\<And>i. i < n \<Longrightarrow> i \<noteq> q \<Longrightarrow> f i = g i"
  shows "(\<Sum>i<n. f i) + g q = (\<Sum>i<n. g i) + f q"
proof -
  have "(\<Sum>i\<in>{..<n} - {q}. f i) = (\<Sum>i\<in>{..<n} - {q}. g i)"
    using assms(2) by (intro sum.cong) auto
  with assms(1) show ?thesis by (simp add: sum.remove [of "{..<n}" q])
qed

lemma sum_change_two:
  fixes f g :: "nat \<Rightarrow> nat"
  assumes "c < n" "t < n" "c \<noteq> t" "\<And>i. i < n \<Longrightarrow> i \<noteq> c \<Longrightarrow> i \<noteq> t \<Longrightarrow> f i = g i"
  shows "(\<Sum>i<n. f i) + (g c + g t) = (\<Sum>i<n. g i) + (f c + f t)"
proof -
  have "(\<Sum>i\<in>{..<n} - {c} - {t}. f i) = (\<Sum>i\<in>{..<n} - {c} - {t}. g i)"
    using assms(4) by (intro sum.cong) auto
  with assms(1-3) show ?thesis
    by (simp add: sum.remove [of "{..<n}" c] sum.remove [of "{..<n} - {c}" t])
qed

section \<open>The generators are automorphisms\<close>

text \<open>
  \<open>sign_change\<close> relates the exponents before and after conjugation: with \<open>a\<close> the exponent of
  the operands and \<open>a'\<close> that of their images, and the sign flips of operands and product.
\<close>

lemma sign_change:
  assumes "(a' + (2 * of_bool dP + 2 * of_bool dQ)) mod 4 = (a + 2 * of_bool dR) mod (4::nat)"
  shows "bxor (bxor (bxor nP dP) (bxor nQ dQ)) (2 \<le> a' mod 4) = bxor (bxor (bxor nP nQ) (2 \<le> a mod 4)) dR"
proof -
  have *: "(2 \<le> (k + 2 * of_bool b) mod 4) = bxor b (2 \<le> k mod 4)" for k :: nat and b
    by (cases b) (simp_all, presburger)
  have "(2 \<le> (a' + 2 * of_bool dP + 2 * of_bool dQ) mod 4) = (2 \<le> (a + 2 * of_bool dR) mod 4)"
    using assms by (simp add: add.assoc)
  then have "bxor dQ (bxor dP (2 \<le> a' mod 4)) = bxor dR (2 \<le> a mod 4)"
    by (simp only: *)
  then show ?thesis by (simp add: bxor_def) metis
qed

lemma mod4_shift:
  fixes a a' l l' d e :: nat
  assumes "a' + l = a + l'" "(l' + d) mod 4 = (l + e) mod 4"
  shows "(a' + d) mod 4 = (a + e) mod 4"
proof -
  have cancel: "(x + k) mod 4 = (y + k) mod 4 \<Longrightarrow> x mod 4 = y mod 4" for x y k :: nat
  proof -
    assume "(x + k) mod 4 = (y + k) mod 4"
    then have "int (x + k) mod 4 = int (y + k) mod 4" by (metis zmod_int of_nat_numeral)
    then have "(int (x + k) - int k) mod 4 = (int (y + k) - int k) mod 4"
      by (rule mod_diff_cong) simp
    then show "x mod 4 = y mod 4" by (simp flip: zmod_int) (metis nat_int_comparison(1) of_nat_numeral zmod_int)
  qed
  have "(a' + d + (l + l')) mod 4 = ((a' + l) + (l' + d)) mod 4" by (simp add: ac_simps)
  also have "\<dots> = ((a + l') + (l + e)) mod 4"
    using assms by (metis mod_add_right_eq)
  also have "\<dots> = (a + e + (l + l')) mod 4" by (simp add: ac_simps)
  finally show ?thesis by (rule cancel)
qed

lemma local_power_h:
  "(local_power x z x' z' + (2 * of_bool (z \<and> x) + 2 * of_bool (z' \<and> x'))) mod 4 =
   (local_power z x z' x' + 2 * of_bool (bxor z z' \<and> bxor x x')) mod 4"
  by (cases z; cases x; cases z'; cases x') (simp_all add: local_power_eval)

lemma local_power_s:
  "(local_power (bxor z x) x (bxor z' x') x' + (2 * of_bool (z \<and> x) + 2 * of_bool (z' \<and> x'))) mod 4 =
   (local_power z x z' x' + 2 * of_bool (bxor z z' \<and> bxor x x')) mod 4"
  by (cases z; cases x; cases z'; cases x') (simp_all add: local_power_eval)

text \<open>For two qubits the exponent is split into its two binary digits, with the carry written out.\<close>

definition local_lo :: "bool \<Rightarrow> bool \<Rightarrow> bool \<Rightarrow> bool \<Rightarrow> bool" where
  "local_lo z x z' x' = bxor (z \<and> x') (x \<and> z')"

definition local_hi :: "bool \<Rightarrow> bool \<Rightarrow> bool \<Rightarrow> bool \<Rightarrow> bool" where
  "local_hi z x z' x' =
     ((\<not> z \<and> x \<and> z' \<and> \<not> x') \<or> (z \<and> \<not> x \<and> z' \<and> x') \<or> (z \<and> x \<and> \<not> z' \<and> x'))"

lemma local_power_digits: "local_power z x z' x' = of_bool (local_lo z x z' x') + 2 * of_bool (local_hi z x z' x')"
  by (cases z; cases x; cases z'; cases x') (simp_all add: local_power_eval local_lo_def local_hi_def)

lemma digits_carry:
  "(of_bool l + 2 * of_bool h + (of_bool l' + 2 * of_bool h') + (2 * of_bool d + 2 * of_bool e)) mod 4 =
   (of_bool (bxor l l') + 2 * of_bool (bxor (bxor (bxor h h') (l \<and> l')) (bxor d e)) :: nat)"
  by (cases l; cases h; cases l'; cases h'; cases d; cases e) simp_all

lemma local_lo_cx:
  "bxor (local_lo (bxor zc zt) xc (bxor zc' zt') xc') (local_lo zt (bxor xt xc) zt' (bxor xt' xc')) =
   bxor (local_lo zc xc zc' xc') (local_lo zt xt zt' xt')"
  unfolding local_lo_def bxor_def by argo

lemma local_hi_cx:
  "bxor (bxor (bxor (local_hi (bxor zc zt) xc (bxor zc' zt') xc') (local_hi zt (bxor xt xc) zt' (bxor xt' xc')))
      (local_lo (bxor zc zt) xc (bxor zc' zt') xc' \<and> local_lo zt (bxor xt xc) zt' (bxor xt' xc')))
    (bxor (xc \<and> zt \<and> xt = zc) (xc' \<and> zt' \<and> xt' = zc'))
  = bxor (bxor (bxor (local_hi zc xc zc' xc') (local_hi zt xt zt' xt'))
      (local_lo zc xc zc' xc' \<and> local_lo zt xt zt' xt'))
     (bxor (bxor xc xc' \<and> bxor zt zt' \<and> bxor xt xt' = bxor zc zc') False)"
  unfolding local_lo_def local_hi_def
  by (cases zc; cases xc; cases zt; cases xt; cases zc'; cases xc'; cases zt'; cases xt';
      simp only: bxor_simps simp_thms if_True)

lemma local_power_cx:
  "(local_power (bxor zc zt) xc (bxor zc' zt') xc' + local_power zt (bxor xt xc) zt' (bxor xt' xc')
     + (2 * of_bool (xc \<and> zt \<and> xt = zc) + 2 * of_bool (xc' \<and> zt' \<and> xt' = zc'))) mod 4 =
   (local_power zc xc zc' xc' + local_power zt xt zt' xt'
     + 2 * of_bool (bxor xc xc' \<and> bxor zt zt' \<and> bxor xt xt' = bxor zc zc')) mod 4"
proof -
  let ?e = "bxor xc xc' \<and> bxor zt zt' \<and> bxor xt xt' = bxor zc zc'"
  have "(local_power zc xc zc' xc' + local_power zt xt zt' xt' + 2 * of_bool ?e) mod 4 =
      (local_power zc xc zc' xc' + local_power zt xt zt' xt' + (2 * of_bool ?e + 2 * of_bool False)) mod 4"
    by simp
  then show ?thesis
    unfolding local_power_digits digits_carry local_lo_cx local_hi_cx by (simp only:)
qed

lemma pp_h_times:
  assumes "pp_wf P" "pp_wf Q" "pp_n_qubits Q = pp_n_qubits P"
  shows "pp_times (pp_h q P) (pp_h q Q) = pp_h q (pp_times P Q)"
proof (cases "q < pp_n_qubits P")
  case q: True
  let ?l = "\<lambda>P Q i. local_power (is_z_set P i) (is_x_set P i) (is_z_set Q i) (is_x_set Q i)"
  have "pw (pp_h q P) (pp_h q Q) + ?l P Q q = pw P Q + ?l (pp_h q P) (pp_h q Q) q"
    unfolding pw_def size_ops using assms q by (intro sum_change_one) (auto simp: pp_h_bits)
  then have "pw (pp_h q P) (pp_h q Q) + ?l P Q q =
      pw P Q + local_power (is_x_set P q) (is_z_set P q) (is_x_set Q q) (is_z_set Q q)"
    using assms q by (simp add: pp_h_bits)
  note sign = sign_change [OF mod4_shift [OF this local_power_h]]
  show ?thesis
    by (rule pp_eqI) (use assms q in \<open>auto simp: bit_simps sign\<close>)
qed (use assms in \<open>simp add: pp_ops_out_of_range\<close>)

lemma pp_s_times:
  assumes "pp_wf P" "pp_wf Q" "pp_n_qubits Q = pp_n_qubits P"
  shows "pp_times (pp_s q P) (pp_s q Q) = pp_s q (pp_times P Q)"
proof (cases "q < pp_n_qubits P")
  case q: True
  let ?l = "\<lambda>P Q i. local_power (is_z_set P i) (is_x_set P i) (is_z_set Q i) (is_x_set Q i)"
  have "pw (pp_s q P) (pp_s q Q) + ?l P Q q = pw P Q + ?l (pp_s q P) (pp_s q Q) q"
    unfolding pw_def size_ops using assms q by (intro sum_change_one) (auto simp: pp_s_bits)
  then have "pw (pp_s q P) (pp_s q Q) + ?l P Q q =
      pw P Q + local_power (bxor (is_z_set P q) (is_x_set P q)) (is_x_set P q)
        (bxor (is_z_set Q q) (is_x_set Q q)) (is_x_set Q q)"
    using assms q by (simp add: pp_s_bits)
  note sign = sign_change [OF mod4_shift [OF this local_power_s]]
  show ?thesis
  proof (rule pp_eqI)
    show "is_neg (pp_times (pp_s q P) (pp_s q Q)) = is_neg (pp_s q (pp_times P Q))"
      using assms q by (simp add: bit_simps sign)
  qed (use assms q in \<open>auto simp: bit_simps bxor_ac\<close>)
qed (use assms in \<open>simp add: pp_ops_out_of_range\<close>)

lemma pp_cx_times:
  assumes "pp_wf P" "pp_wf Q" "pp_n_qubits Q = pp_n_qubits P" "c \<noteq> t"
  shows "pp_times (pp_cx c t P) (pp_cx c t Q) = pp_cx c t (pp_times P Q)"
proof (cases "c < pp_n_qubits P \<and> t < pp_n_qubits P")
  case True
  then have ct: "c < pp_n_qubits P" "t < pp_n_qubits P" by auto
  let ?l = "\<lambda>P Q i. local_power (is_z_set P i) (is_x_set P i) (is_z_set Q i) (is_x_set Q i)"
  have "pw (pp_cx c t P) (pp_cx c t Q) + (?l P Q c + ?l P Q t) =
      pw P Q + (?l (pp_cx c t P) (pp_cx c t Q) c + ?l (pp_cx c t P) (pp_cx c t Q) t)"
    unfolding pw_def size_ops using assms ct by (intro sum_change_two) (auto simp: pp_cx_bits)
  then have "pw (pp_cx c t P) (pp_cx c t Q) + (?l P Q c + ?l P Q t) =
      pw P Q + (local_power (bxor (is_z_set P c) (is_z_set P t)) (is_x_set P c)
                  (bxor (is_z_set Q c) (is_z_set Q t)) (is_x_set Q c)
              + local_power (is_z_set P t) (bxor (is_x_set P t) (is_x_set P c))
                  (is_z_set Q t) (bxor (is_x_set Q t) (is_x_set Q c)))"
    using assms ct by (simp add: pp_cx_bits)
  note sign = sign_change [OF mod4_shift [OF this local_power_cx]]
  show ?thesis
  proof (rule pp_eqI)
    show "is_neg (pp_times (pp_cx c t P) (pp_cx c t Q)) = is_neg (pp_cx c t (pp_times P Q))"
      using assms ct by (simp add: bit_simps sign)
  qed (use assms ct in \<open>auto simp: bit_simps bxor_ac\<close>)
qed (use assms in \<open>auto simp: pp_ops_out_of_range\<close>)

lemma pp_h_symp: "pp_wf P \<Longrightarrow> pp_wf Q \<Longrightarrow> pp_n_qubits Q = pp_n_qubits P \<Longrightarrow> symp (pp_h q P) (pp_h q Q) = symp P Q"
  by (cases "q < pp_n_qubits P")
    (auto simp: symp_def pp_h_bits pp_ops_out_of_range bxor_ac intro!: gf2_sum_cong split: if_splits)

lemma pp_s_symp: "pp_wf P \<Longrightarrow> pp_wf Q \<Longrightarrow> pp_n_qubits Q = pp_n_qubits P \<Longrightarrow> symp (pp_s q P) (pp_s q Q) = symp P Q"
  by (cases "q < pp_n_qubits P")
    (auto simp: symp_def pp_s_bits pp_ops_out_of_range bxor_def intro!: gf2_sum_cong split: if_splits)

lemma pp_cx_symp:
  assumes "pp_wf P" "pp_wf Q" "pp_n_qubits Q = pp_n_qubits P" "c \<noteq> t"
  shows "symp (pp_cx c t P) (pp_cx c t Q) = symp P Q"
proof (cases "c < pp_n_qubits P \<and> t < pp_n_qubits P")
  case True
  then have ct: "c < pp_n_qubits P" "t < pp_n_qubits P" by auto
  let ?f = "\<lambda>P Q i. bxor (is_z_set P i \<and> is_x_set Q i) (is_x_set P i \<and> is_z_set Q i)"
  let ?d = "bxor (is_z_set P t \<and> is_x_set Q c) (is_x_set P c \<and> is_z_set Q t)"
  have "symp (pp_cx c t P) (pp_cx c t Q) =
      gf2_sum (\<lambda>i. bxor (?f P Q i) (bxor (i = c \<and> ?d) (i = t \<and> ?d))) (pp_n_qubits P)"
    unfolding symp_def size_ops using assms ct
    by (intro gf2_sum_cong) (auto simp: pp_cx_bits bxor_def)
  also have "\<dots> = symp P Q"
    using ct by (simp add: gf2_sum_xor gf2_sum_delta symp_def)
  finally show ?thesis .
qed (use assms in \<open>auto simp: pp_ops_out_of_range\<close>)

end
