(* ===== verification/PauliSemantics.thy ===== *)
theory PauliSemantics
  imports PauliAlgebra
begin

text \<open>
  What a Pauli product means: it maps the computational basis state \<open>b\<close> to \<open>i ^ act_phase P b\<close>
  times the basis state \<open>act_state P b\<close> (with \<open>Y = i X Z\<close>). Against this meaning \<open>operator*=\<close> is
  operator composition, and \<open>h\<close>, \<open>s\<close> and \<open>cx\<close> are conjugation by the gates: S multiplies
  \<open>b\<close> by \<open>i\<close> when its qubit is set, CX permutes basis states, and H has the matrix entries
  \<open>(-1)^(b_q c_q)\<close> up to the common factor.
\<close>

definition local_phase :: "bool \<Rightarrow> bool \<Rightarrow> bool \<Rightarrow> nat" where
  "local_phase z x b = of_bool (z \<and> x) + 2 * of_bool (z \<and> b)"

definition phase_sum :: "pauli_product \<Rightarrow> (nat \<Rightarrow> bool) \<Rightarrow> nat" where
  "phase_sum P b = (\<Sum>i<pp_n_qubits P. local_phase (is_z_set P i) (is_x_set P i) (b i))"

definition act_phase :: "pauli_product \<Rightarrow> (nat \<Rightarrow> bool) \<Rightarrow> nat" where
  "act_phase P b = (2 * of_bool (is_neg P) + phase_sum P b) mod 4"

definition act_state :: "pauli_product \<Rightarrow> (nat \<Rightarrow> bool) \<Rightarrow> nat \<Rightarrow> bool" where
  "act_state P b = (\<lambda>i. if i < pp_n_qubits P then bxor (b i) (is_x_set P i) else b i)"

definition cx_state :: "nat \<Rightarrow> nat \<Rightarrow> (nat \<Rightarrow> bool) \<Rightarrow> nat \<Rightarrow> bool" where
  "cx_state c t b = b(t := bxor (b t) (b c))"

section \<open>Composition\<close>

lemma local_phase_product:
  "(local_phase z' x' b + local_phase z x (bxor b x')) mod 4 =
   (local_phase (bxor z z') (bxor x x') b + local_power z x z' x') mod 4"
  by (cases z; cases x; cases z'; cases x'; cases b) (simp_all add: local_phase_def local_power_eval)

lemma phase_sum_product:
  assumes "pp_wf P" "pp_wf Q" "pp_n_qubits Q = pp_n_qubits P"
  shows "(phase_sum Q b + phase_sum P (act_state Q b)) mod 4 =
    (phase_sum (pp_times P Q) b + pw P Q) mod 4"
proof -
  let ?l = "\<lambda>i. local_phase (is_z_set Q i) (is_x_set Q i) (b i)
      + local_phase (is_z_set P i) (is_x_set P i) (bxor (b i) (is_x_set Q i))"
  let ?r = "\<lambda>i. local_phase (bxor (is_z_set P i) (is_z_set Q i)) (bxor (is_x_set P i) (is_x_set Q i)) (b i)
      + local_power (is_z_set P i) (is_x_set P i) (is_z_set Q i) (is_x_set Q i)"
  have "(\<Sum>i<pp_n_qubits P. ?l i) mod 4 = (\<Sum>i<pp_n_qubits P. ?l i mod 4) mod 4"
    by (simp add: mod_sum_eq)
  also have "\<dots> = (\<Sum>i<pp_n_qubits P. ?r i) mod 4"
    unfolding local_phase_product by (rule mod_sum_eq)
  finally have "(\<Sum>i<pp_n_qubits P. ?l i) mod 4 = (\<Sum>i<pp_n_qubits P. ?r i) mod 4" .
  moreover have "phase_sum (pp_times P Q) b =
      (\<Sum>i<pp_n_qubits P. local_phase (bxor (is_z_set P i) (is_z_set Q i)) (bxor (is_x_set P i) (is_x_set Q i)) (b i))"
    unfolding phase_sum_def using assms by (intro sum.cong) (auto simp: bit_simps)
  ultimately show ?thesis
    using assms(3) by (simp add: phase_sum_def pw_def act_state_def sum.distrib)
qed

lemma product_signs:
  assumes "(s' + t) mod 4 = (r + w) mod 4" "odd w = o'"
  shows "((2 * of_bool q + s') mod 4 + (2 * of_bool p + t) mod 4) mod 4 =
    ((2 * of_bool (bxor (bxor p q) (2 \<le> w mod 4)) + r) mod 4 + of_bool o') mod (4::nat)"
proof -
  have w: "w mod 4 = 2 * of_bool (2 \<le> w mod 4) + of_bool (odd w)"
    by (cases "odd w"; cases "2 \<le> w mod 4") (simp_all, presburger+)
  have d: "(2 * of_bool (bxor (bxor p q) h)) mod 4 = (2 * of_bool p + 2 * of_bool q + 2 * of_bool h) mod (4::nat)" for h
    by (cases p; cases q; cases h) simp_all
  have "(2 * of_bool (bxor (bxor p q) (2 \<le> w mod 4)) + r + of_bool o') mod 4
      = (2 * of_bool p + 2 * of_bool q + 2 * of_bool (2 \<le> w mod 4) + (r + of_bool o')) mod 4"
    by (metis (no_types) d add.assoc mod_add_left_eq)
  also have "\<dots> = (2 * of_bool p + 2 * of_bool q + r + (2 * of_bool (2 \<le> w mod 4) + of_bool (odd w))) mod 4"
    unfolding assms(2) by (simp only: ac_simps)
  also have "\<dots> = (2 * of_bool p + 2 * of_bool q + r + w mod 4) mod 4"
    by (simp only: w [symmetric])
  also have "\<dots> = (2 * of_bool p + 2 * of_bool q + (r + w) mod 4) mod 4"
    by (metis (no_types) mod_add_right_eq add.assoc)
  also have "\<dots> = (2 * of_bool p + 2 * of_bool q + (s' + t) mod 4) mod 4"
    by (simp add: assms(1))
  finally have eq: "(2 * of_bool (bxor (bxor p q) (2 \<le> w mod 4)) + r + of_bool o') mod 4
      = (2 * of_bool p + 2 * of_bool q + (s' + t) mod 4) mod 4" .
  have L: "((A + s') mod 4 + (B + t) mod 4) mod 4 = (B + A + (s' + t) mod 4) mod 4" for A B :: nat
    by (subst mod_add_eq, subst mod_add_right_eq) (simp only: ac_simps)
  have R: "((A + r) mod 4 + B) mod 4 = (A + r + B) mod 4" for A B :: nat
    by (simp add: mod_simps)
  show ?thesis unfolding L R eq ..
qed

lemma act_times:
  assumes "pp_wf P" "pp_wf Q" "pp_n_qubits Q = pp_n_qubits P"
  shows "act_state (pp_times P Q) b = act_state P (act_state Q b)"
    "(act_phase Q b + act_phase P (act_state Q b)) mod 4 =
      (act_phase (pp_times P Q) b + of_bool (symp P Q)) mod 4"
proof -
  show "act_state (pp_times P Q) b = act_state P (act_state Q b)"
    using assms by (auto simp: act_state_def bit_simps bxor_ac fun_eq_iff)
  show "(act_phase Q b + act_phase P (act_state Q b)) mod 4 =
      (act_phase (pp_times P Q) b + of_bool (symp P Q)) mod 4"
    unfolding act_phase_def pp_times_bits(3) [OF assms]
    by (rule product_signs [OF phase_sum_product [OF assms] odd_pw])
qed

section \<open>Conjugation by the generators\<close>

lemma act_s:
  assumes "pp_wf P" "q < pp_n_qubits P"
  shows "act_state (pp_s q P) b = act_state P b"
    "(act_phase P b + of_bool (act_state P b q)) mod 4 = (of_bool (b q) + act_phase (pp_s q P) b) mod 4"
proof -
  show "act_state (pp_s q P) b = act_state P b"
    using assms by (auto simp: act_state_def bit_simps)
  let ?z = "is_z_set P q" and ?x = "is_x_set P q"
  have a: "phase_sum (pp_s q P) b + local_phase ?z ?x (b q) = phase_sum P b + local_phase (bxor ?z ?x) ?x (b q)"
    using assms sum_change_one [of q "pp_n_qubits P"
        "\<lambda>i. local_phase (is_z_set (pp_s q P) i) (is_x_set (pp_s q P) i) (b i)"
        "\<lambda>i. local_phase (is_z_set P i) (is_x_set P i) (b i)"]
    by (simp add: phase_sum_def bit_simps)
  have b: "(local_phase (bxor ?z ?x) ?x (b q) + (of_bool (b q) + 2 * of_bool (bxor (is_neg P) (?z \<and> ?x)))) mod 4 =
      (local_phase ?z ?x (b q) + (2 * of_bool (is_neg P) + of_bool (bxor (b q) ?x))) mod 4"
    by (cases ?z; cases ?x; cases "b q"; cases "is_neg P") (simp_all add: local_phase_def)
  show "(act_phase P b + of_bool (act_state P b q)) mod 4 = (of_bool (b q) + act_phase (pp_s q P) b) mod 4"
    using mod4_shift [OF a b] assms
    by (simp add: act_phase_def act_state_def bit_simps mod_simps ac_simps)
qed

lemma act_cx:
  assumes "pp_wf P" "c < pp_n_qubits P" "t < pp_n_qubits P" "c \<noteq> t"
  shows "act_state (pp_cx c t P) (cx_state c t b) = cx_state c t (act_state P b)"
    "act_phase (pp_cx c t P) (cx_state c t b) = act_phase P b"
proof -
  show "act_state (pp_cx c t P) (cx_state c t b) = cx_state c t (act_state P b)"
    using assms by (auto simp: act_state_def cx_state_def bit_simps bxor_ac fun_eq_iff)
  let ?z = "is_z_set P" and ?x = "is_x_set P"
  have a: "phase_sum (pp_cx c t P) (cx_state c t b)
        + (local_phase (?z c) (?x c) (b c) + local_phase (?z t) (?x t) (b t)) =
      phase_sum P b + (local_phase (bxor (?z c) (?z t)) (?x c) (b c)
        + local_phase (?z t) (bxor (?x t) (?x c)) (bxor (b t) (b c)))"
    using assms sum_change_two [of c "pp_n_qubits P" t
        "\<lambda>i. local_phase (is_z_set (pp_cx c t P) i) (is_x_set (pp_cx c t P) i) (cx_state c t b i)"
        "\<lambda>i. local_phase (is_z_set P i) (is_x_set P i) (b i)"]
    by (simp add: phase_sum_def bit_simps cx_state_def)
  have b: "(local_phase (bxor (?z c) (?z t)) (?x c) (b c) + local_phase (?z t) (bxor (?x t) (?x c)) (bxor (b t) (b c))
        + 2 * of_bool (bxor (is_neg P) (?x c \<and> ?z t \<and> ?x t = ?z c))) mod 4 =
      (local_phase (?z c) (?x c) (b c) + local_phase (?z t) (?x t) (b t) + 2 * of_bool (is_neg P)) mod 4"
    by (cases "?z c"; cases "?x c"; cases "?z t"; cases "?x t"; cases "b c"; cases "b t"; cases "is_neg P")
      (simp_all add: local_phase_def)
  show "act_phase (pp_cx c t P) (cx_state c t b) = act_phase P b"
    using mod4_shift [OF a b] assms by (simp add: act_phase_def bit_simps ac_simps)
qed

text \<open>
  For H the two sides are compared entry by entry: with \<open>b\<close> the input and \<open>c\<close> the output basis
  state, both \<open>H P\<close> and \<open>P' H\<close> have a nonzero entry only when \<open>c\<close> is \<open>act_state P b\<close> off
  qubit \<open>q\<close>, and there the entries agree.
\<close>

lemma act_h:
  assumes "pp_wf P" "q < pp_n_qubits P"
    and c: "\<And>i. i < pp_n_qubits P \<Longrightarrow> i \<noteq> q \<Longrightarrow> c i = act_state P b i"
  shows "\<And>i. i < pp_n_qubits P \<Longrightarrow> i \<noteq> q \<Longrightarrow> act_state (pp_h q P) c i = b i"
    "(act_phase P b + 2 * of_bool (c q \<and> act_state P b q)) mod 4 =
      (2 * of_bool (act_state (pp_h q P) c q \<and> b q) + act_phase (pp_h q P) (act_state (pp_h q P) c)) mod 4"
proof -
  let ?c' = "act_state (pp_h q P) c"
  show off: "\<And>i. i < pp_n_qubits P \<Longrightarrow> i \<noteq> q \<Longrightarrow> ?c' i = b i"
    using assms by (auto simp: act_state_def bit_simps)
  let ?z = "is_z_set P q" and ?x = "is_x_set P q"
  have cq: "?c' q = bxor (c q) ?z" using assms by (simp add: act_state_def bit_simps)
  have a: "phase_sum (pp_h q P) ?c' + local_phase ?z ?x (b q) = phase_sum P b + local_phase ?x ?z (bxor (c q) ?z)"
    using assms(1,2) off sum_change_one [of q "pp_n_qubits P"
        "\<lambda>i. local_phase (is_z_set (pp_h q P) i) (is_x_set (pp_h q P) i) (?c' i)"
        "\<lambda>i. local_phase (is_z_set P i) (is_x_set P i) (b i)"]
    by (simp add: phase_sum_def bit_simps cq)
  have b: "(local_phase ?x ?z (bxor (c q) ?z)
        + (2 * of_bool (bxor (c q) ?z \<and> b q) + 2 * of_bool (bxor (is_neg P) (?z \<and> ?x)))) mod 4 =
      (local_phase ?z ?x (b q) + (2 * of_bool (is_neg P) + 2 * of_bool (c q \<and> bxor (b q) ?x))) mod 4"
    by (cases ?z; cases ?x; cases "b q"; cases "c q"; cases "is_neg P") (simp_all add: local_phase_def)
  have "act_state P b q = bxor (b q) ?x" using assms by (simp add: act_state_def)
  then show "(act_phase P b + 2 * of_bool (c q \<and> act_state P b q)) mod 4 =
      (2 * of_bool (?c' q \<and> b q) + act_phase (pp_h q P) ?c') mod 4"
    using mod4_shift [OF a b] assms(1,2)
    by (simp add: act_phase_def bit_simps cq mod_simps ac_simps)
qed

end
