(* ===== verification/Stabilizer.thy ===== *)
theory Stabilizer
  imports PauliSemantics
begin

text \<open>
  The class \<open>StabilizerTableau\<close> (src/src/tableau/stabilizer_tableau.hpp, stabilizer_tableau.cpp):
  the images of \<open>Z_0 .. Z_(n-1), X_0 .. X_(n-1)\<close> under a Clifford circuit. Operators of the mixin
  append a gate to the circuit; the \<open>prepend\<close> operations put one in front of it. The invariant
  \<open>st_ok\<close> is the symplectic relation between the rows. Polls of \<open>stop_requested()\<close> belong to
  the synthesis, in the theory \<open>StabilizerSynthesis\<close>.
\<close>

section \<open>State and operations\<close>

record stabilizer_tableau =
  stabs :: "pauli_product list"

definition st_n_qubits :: "stabilizer_tableau \<Rightarrow> nat" where
  "st_n_qubits T = length (stabs T) div 2"

definition stabilizer_idx :: "stabilizer_tableau \<Rightarrow> nat \<Rightarrow> nat" where
  "stabilizer_idx T q = q"

definition destabilizer_idx :: "stabilizer_tableau \<Rightarrow> nat \<Rightarrow> nat" where
  "destabilizer_idx T q = q + st_n_qubits T"

definition stabilizer :: "stabilizer_tableau \<Rightarrow> nat \<Rightarrow> pauli_product" where
  "stabilizer T q = stabs T ! stabilizer_idx T q"

definition destabilizer :: "stabilizer_tableau \<Rightarrow> nat \<Rightarrow> pauli_product" where
  "destabilizer T q = stabs T ! destabilizer_idx T q"

definition set_row :: "nat \<Rightarrow> pauli_product \<Rightarrow> stabilizer_tableau \<Rightarrow> stabilizer_tableau" where
  "set_row r P T = T\<lparr>stabs := (stabs T)[r := P]\<rparr>"

text \<open>The constructor: the identity tableau. The product of \<open>n\<close> letters I has no bit set.\<close>

definition st_init :: "nat \<Rightarrow> stabilizer_tableau" where
  "st_init n =
     fold (\<lambda>i T. let T1 = set_row (stabilizer_idx T i) (set_pauli_type i PZ (stabilizer T i)) T
                 in set_row (destabilizer_idx T1 i) (set_pauli_type i PX (destabilizer T1 i)) T1)
       [0..<n] \<lparr>stabs = replicate (2 * n) (pp_blank n)\<rparr>"

definition st_map :: "(pauli_product \<Rightarrow> pauli_product) \<Rightarrow> stabilizer_tableau \<Rightarrow> stabilizer_tableau" where
  "st_map f T = T\<lparr>stabs := map f (stabs T)\<rparr>"

definition st_h :: "nat \<Rightarrow> stabilizer_tableau \<Rightarrow> stabilizer_tableau" where
  "st_h q T = (if st_n_qubits T \<le> q then T else st_map (pp_h q) T)"

definition st_s :: "nat \<Rightarrow> stabilizer_tableau \<Rightarrow> stabilizer_tableau" where
  "st_s q T = (if st_n_qubits T \<le> q then T else st_map (pp_s q) T)"

definition st_cx :: "nat \<Rightarrow> nat \<Rightarrow> stabilizer_tableau \<Rightarrow> stabilizer_tableau" where
  "st_cx c t T = (if st_n_qubits T \<le> c \<or> st_n_qubits T \<le> t then T else st_map (pp_cx c t) T)"

definition st_trait :: "stabilizer_tableau pauli_product_trait" where
  "st_trait = \<lparr>h_op = st_h, s_op = st_s, cx_op = st_cx\<rparr>"

definition prepend_h :: "nat \<Rightarrow> stabilizer_tableau \<Rightarrow> stabilizer_tableau" where
  "prepend_h q T =
     (if st_n_qubits T \<le> q then T
      else set_row (destabilizer_idx T q) (stabilizer T q)
             (set_row (stabilizer_idx T q) (destabilizer T q) T))"

definition prepend_s :: "nat \<Rightarrow> stabilizer_tableau \<Rightarrow> stabilizer_tableau" where
  "prepend_s q T =
     (if st_n_qubits T \<le> q then T
      else set_row (destabilizer_idx T q) (pp_times (stabilizer T q) (destabilizer T q)) T)"

definition prepend_cx :: "nat \<Rightarrow> nat \<Rightarrow> stabilizer_tableau \<Rightarrow> stabilizer_tableau" where
  "prepend_cx c t T =
     (if st_n_qubits T \<le> c \<or> st_n_qubits T \<le> t then T
      else (let T1 = set_row (stabilizer_idx T t) (pp_times (stabilizer T c) (stabilizer T t)) T
            in set_row (destabilizer_idx T1 c) (pp_times (destabilizer T1 t) (destabilizer T1 c)) T1))"

definition prepend_sdg :: "nat \<Rightarrow> stabilizer_tableau \<Rightarrow> stabilizer_tableau" where
  "prepend_sdg q T = prepend_s q (prepend_s q (prepend_s q T))"

definition prepend_v :: "nat \<Rightarrow> stabilizer_tableau \<Rightarrow> stabilizer_tableau" where
  "prepend_v q T = prepend_h q (prepend_s q (prepend_h q T))"

definition prepend_vdg :: "nat \<Rightarrow> stabilizer_tableau \<Rightarrow> stabilizer_tableau" where
  "prepend_vdg q T = prepend_h q (prepend_sdg q (prepend_h q T))"

definition prepend_z :: "nat \<Rightarrow> stabilizer_tableau \<Rightarrow> stabilizer_tableau" where
  "prepend_z q T = prepend_s q (prepend_s q T)"

definition prepend_x :: "nat \<Rightarrow> stabilizer_tableau \<Rightarrow> stabilizer_tableau" where
  "prepend_x q T = prepend_h q (prepend_z q (prepend_h q T))"

definition prepend_y :: "nat \<Rightarrow> stabilizer_tableau \<Rightarrow> stabilizer_tableau" where
  "prepend_y q T = prepend_z q (prepend_x q T)"

definition prepend_cz :: "nat \<Rightarrow> nat \<Rightarrow> stabilizer_tableau \<Rightarrow> stabilizer_tableau" where
  "prepend_cz c t T = prepend_h t (prepend_cx c t (prepend_h t T))"

definition prepend_swap :: "nat \<Rightarrow> nat \<Rightarrow> stabilizer_tableau \<Rightarrow> stabilizer_tableau" where
  "prepend_swap a b T = prepend_cx a b (prepend_cx b a (prepend_cx a b T))"

definition prepend_ecr :: "nat \<Rightarrow> nat \<Rightarrow> stabilizer_tableau \<Rightarrow> stabilizer_tableau" where
  "prepend_ecr c t T = prepend_cx c t (prepend_v t (prepend_s c (prepend_x c T)))"

fun st_prepend :: "clifford_op \<Rightarrow> stabilizer_tableau \<Rightarrow> stabilizer_tableau" where
  "st_prepend (COT_h, a, b) = prepend_h a"
| "st_prepend (COT_s, a, b) = prepend_s a"
| "st_prepend (COT_cx, a, b) = prepend_cx a b"
| "st_prepend (COT_sdg, a, b) = prepend_sdg a"
| "st_prepend (COT_v, a, b) = prepend_v a"
| "st_prepend (COT_vdg, a, b) = prepend_vdg a"
| "st_prepend (COT_x, a, b) = prepend_x a"
| "st_prepend (COT_y, a, b) = prepend_y a"
| "st_prepend (COT_z, a, b) = prepend_z a"
| "st_prepend (COT_cz, a, b) = prepend_cz a b"
| "st_prepend (COT_swap, a, b) = prepend_swap a b"
| "st_prepend (COT_ecr, a, b) = prepend_ecr a b"

definition st_prepend_string :: "clifford_string \<Rightarrow> stabilizer_tableau \<Rightarrow> stabilizer_tableau" where
  "st_prepend_string ops T = fold st_prepend ops T"

definition st_is_identity :: "stabilizer_tableau \<Rightarrow> bool" where
  "st_is_identity T \<longleftrightarrow> T = st_init (st_n_qubits T)"

definition st_is_commutative :: "stabilizer_tableau \<Rightarrow> pauli_product \<Rightarrow> bool" where
  "st_is_commutative T P = list_all (\<lambda>S. pp_is_commutative S P) (take (st_n_qubits T) (stabs T))"

section \<open>Well-formed tableaux\<close>

definition st_wf :: "nat \<Rightarrow> stabilizer_tableau \<Rightarrow> bool" where
  "st_wf n T \<longleftrightarrow> length (stabs T) = 2 * n \<and> list_all (pp_ok n) (stabs T)"

lemma st_wf_n [simp]: "st_wf n T \<Longrightarrow> st_n_qubits T = n"
  by (simp add: st_wf_def st_n_qubits_def)

lemma st_wf_length: "st_wf n T \<Longrightarrow> length (stabs T) = 2 * n"
  by (simp add: st_wf_def)

lemma st_wf_row: "st_wf n T \<Longrightarrow> r < 2 * n \<Longrightarrow> pp_ok n (stabs T ! r)"
  by (simp add: st_wf_def list_all_length)

lemma st_wf_rowD: "st_wf n T \<Longrightarrow> r < 2 * n \<Longrightarrow> pp_wf (stabs T ! r) \<and> pp_n_qubits (stabs T ! r) = n"
  using st_wf_row by (auto simp: pp_ok_def)

lemma st_eqI:
  assumes "st_wf n T" "st_wf n U" "\<And>r. r < 2 * n \<Longrightarrow> stabs T ! r = stabs U ! r"
  shows "T = U"
  using assms by (intro stabilizer_tableau.equality nth_equalityI) (auto simp: st_wf_length)

lemma stabs_st_map [simp]: "stabs (st_map f T) = map f (stabs T)"
  by (simp add: st_map_def)

lemma st_wf_map: "st_wf n T \<Longrightarrow> (\<And>P. pp_ok n P \<Longrightarrow> pp_ok n (f P)) \<Longrightarrow> st_wf n (st_map f T)"
  by (auto simp: st_wf_def list_all_iff)

lemma st_map_cong: "st_wf n T \<Longrightarrow> (\<And>P. pp_ok n P \<Longrightarrow> f P = g P) \<Longrightarrow> st_map f T = st_map g T"
  by (auto simp: st_wf_def list_all_iff st_map_def)

lemma st_map_id: "st_wf n T \<Longrightarrow> (\<And>P. pp_ok n P \<Longrightarrow> f P = P) \<Longrightarrow> st_map f T = T"
  using st_map_cong [of n T f id] by (simp add: st_map_def)

lemma st_map_comp [simp]: "st_map f (st_map g T) = st_map (\<lambda>P. f (g P)) T"
  by (simp add: st_map_def comp_def)

text \<open>Appending a gate acts on every row.\<close>

lemma st_generators:
  assumes "st_wf n T"
  shows "st_h q T = st_map (pp_h q) T" "st_s q T = st_map (pp_s q) T" "st_cx c t T = st_map (pp_cx c t) T"
  using assms
  by (auto simp: st_h_def st_s_def st_cx_def pp_ok_def pp_ops_out_of_range intro!: st_map_id [symmetric])

lemma st_trait_sel [simp]: "h_op st_trait = st_h" "s_op st_trait = st_s" "cx_op st_trait = st_cx"
  by (simp_all add: st_trait_def)

lemma st_wf_generators [intro]:
  assumes "st_wf n T"
  shows "st_wf n (st_h q T)" "st_wf n (st_s q T)" "st_wf n (st_cx c t T)"
  using assms by (auto simp: st_generators [OF assms] pp_ok_def intro!: st_wf_map)

lemma st_wf_map_ops:
  assumes "st_wf n T"
  shows "st_wf n (st_map f T) = list_all (\<lambda>P. pp_ok n (f P)) (stabs T)"
  using assms by (simp add: st_wf_def list_all_iff)

lemma st_derived:
  assumes "st_wf n T"
  shows "trait_sdg st_trait q T = st_map (trait_sdg pp_trait q) T"
    "trait_v st_trait q T = st_map (trait_v pp_trait q) T"
    "trait_vdg st_trait q T = st_map (trait_vdg pp_trait q) T"
    "trait_z st_trait q T = st_map (trait_z pp_trait q) T"
    "trait_x st_trait q T = st_map (trait_x pp_trait q) T"
    "trait_y st_trait q T = st_map (trait_y pp_trait q) T"
    "trait_cz st_trait c t T = st_map (trait_cz pp_trait c t) T"
    "trait_swap st_trait c t T = st_map (trait_swap pp_trait c t) T"
    "trait_ecr st_trait c t T = st_map (trait_ecr pp_trait c t) T"
proof -
  note g = st_generators [where n = n]
  have r: "\<And>P. P \<in> set (stabs T) \<Longrightarrow> pp_ok n P" using assms by (simp add: st_wf_def list_all_iff)
  show "trait_sdg st_trait q T = st_map (trait_sdg pp_trait q) T"
    "trait_v st_trait q T = st_map (trait_v pp_trait q) T"
    "trait_vdg st_trait q T = st_map (trait_vdg pp_trait q) T"
    "trait_z st_trait q T = st_map (trait_z pp_trait q) T"
    "trait_x st_trait q T = st_map (trait_x pp_trait q) T"
    "trait_y st_trait q T = st_map (trait_y pp_trait q) T"
    "trait_cz st_trait c t T = st_map (trait_cz pp_trait c t) T"
    "trait_swap st_trait c t T = st_map (trait_swap pp_trait c t) T"
    "trait_ecr st_trait c t T = st_map (trait_ecr pp_trait c t) T"
    using assms r by (simp_all add: trait_defs [abs_def] g pp_ok_def list_all_iff st_wf_map_ops)
qed

lemma st_apply_map:
  assumes "st_wf n T"
  shows "trait_apply st_trait x T = st_map (trait_apply pp_trait x) T"
proof -
  obtain t a b where "x = (t, a, b)" by (cases x) auto
  with assms show ?thesis by (cases t) (simp_all add: st_generators st_derived)
qed

lemma st_map_twice:
  assumes T: "st_wf n T"
    and F: "\<And>T. st_wf n T \<Longrightarrow> F T = st_map f T" and f: "\<And>P. pp_ok n P \<Longrightarrow> pp_ok n (f P) \<and> f (f P) = P"
  shows "F (F T) = T"
proof -
  have "st_wf n (st_map f T)" using T f by (intro st_wf_map) auto
  with T have "F (F T) = st_map (\<lambda>P. f (f P)) T" by (simp add: F)
  with T f show ?thesis by (simp add: st_map_id)
qed

interpretation st: pauli_trait st_trait st_wf
proof unfold_locales
  fix n q :: nat and a :: stabilizer_tableau
  assume a: "st_wf n a" and q: "q < n"
  show "st_wf n (h_op st_trait q a)" "st_wf n (s_op st_trait q a)" using a by auto
  show "h_op st_trait q (h_op st_trait q a) = a"
    by (rule st_map_twice [OF a, where f = "pp_h q"])
      (use q pp.h_h pp.h_ok in \<open>auto simp: st_generators\<close>)
  have z: "trait_z st_trait q (trait_z st_trait q a) = a"
    by (rule st_map_twice [OF a, where f = "trait_z pp_trait q"])
      (use q pp.s_4 [of n _ q] pp.apply_ok [of n _ "(COT_z, q, 0)"] in \<open>auto simp: st_derived trait_z_def [of pp_trait]\<close>)
  then show "s_op st_trait q (s_op st_trait q (s_op st_trait q (s_op st_trait q a))) = a"
    by (simp add: trait_z_def)
  show "trait_y st_trait q (trait_y st_trait q a) = a"
    by (rule st_map_twice [OF a, where f = "trait_y pp_trait q"])
      (use q pp.y_y [of n _ q] pp.apply_ok [of n _ "(COT_y, q, 0)"] in \<open>auto simp: st_derived\<close>)
next
  fix n c t :: nat and a :: stabilizer_tableau
  assume a: "st_wf n a" and ct: "c < n" "t < n" "c \<noteq> t"
  show "st_wf n (cx_op st_trait c t a)" using a by auto
  show "cx_op st_trait c t (cx_op st_trait c t a) = a"
    by (rule st_map_twice [OF a, where f = "pp_cx c t"])
      (use ct pp.cx_cx [of n _ c t] pp.cx_ok in \<open>auto simp: st_generators\<close>)
  show "trait_ecr st_trait c t (trait_ecr st_trait c t a) = a"
    by (rule st_map_twice [OF a, where f = "trait_ecr pp_trait c t"])
      (use ct pp.ecr_ecr [of n _ c t] pp.apply_ok [of n _ "(COT_ecr, c, t)"] in \<open>auto simp: st_derived\<close>)
qed

end
