(* ===== verification/StabilizerPrepend.thy ===== *)
theory StabilizerPrepend
  imports Stabilizer
begin

text \<open>
  What a tableau means: its rows are the images of the generators, so appending a gate maps every
  row and commutes with prepending. The relation \<open>prepends\<close> says that an operation on tableaux
  puts a circuit in front of the one represented; it composes, which gives the correctness of
  every \<open>prepend_\<close> operation from that of \<open>prepend_h\<close>, \<open>prepend_s\<close> and \<open>prepend_cx\<close>. The
  second half is the symplectic invariant \<open>st_ok\<close> of the class.
\<close>

section \<open>Automorphisms of the Pauli group\<close>

definition hom :: "nat \<Rightarrow> (pauli_product \<Rightarrow> pauli_product) \<Rightarrow> bool" where
  "hom n f \<longleftrightarrow> (\<forall>P. pp_ok n P \<longrightarrow> pp_ok n (f P)) \<and>
     (\<forall>P Q. pp_ok n P \<longrightarrow> pp_ok n Q \<longrightarrow> pp_times (f P) (f Q) = f (pp_times P Q))"

lemma homD: "hom n f \<Longrightarrow> pp_ok n P \<Longrightarrow> pp_ok n (f P)"
  "hom n f \<Longrightarrow> pp_ok n P \<Longrightarrow> pp_ok n Q \<Longrightarrow> f (pp_times P Q) = pp_times (f P) (f Q)"
  by (auto simp: hom_def)

lemma hom_comp: "hom n f \<Longrightarrow> hom n g \<Longrightarrow> hom n (\<lambda>P. f (g P))"
  by (simp add: hom_def)

lemma hom_generators [intro]: "hom n (pp_h q)" "hom n (pp_s q)" "c \<noteq> t \<Longrightarrow> hom n (pp_cx c t)"
  by (auto simp: hom_def pp_ok_def pp_h_times pp_s_times pp_cx_times)

lemma pp_ok_times [intro, simp]: "pp_ok n P \<Longrightarrow> pp_ok n Q \<Longrightarrow> pp_ok n (pp_times P Q)"
  by (simp add: pp_ok_def)

lemma hom_id: "hom n (\<lambda>P. P)"
  by (simp add: hom_def)

lemma hom_apply: "op_ok n x \<Longrightarrow> hom n (trait_apply pp_trait x)"
  by (rule trait_apply_rel [where R = "\<lambda>F _. hom n F" and T' = pp_trait]) (auto intro: hom_comp)

lemma hom_apply_string: "string_ok n xs \<Longrightarrow> hom n (trait_apply_string pp_trait xs)"
  by (rule trait_apply_string_rel [where R = "\<lambda>F _. hom n F" and T' = pp_trait]) (auto intro: hom_comp hom_id)

lemma st_apply_string_map:
  "st_wf n T \<Longrightarrow> string_ok n xs \<Longrightarrow> trait_apply_string st_trait xs T = st_map (trait_apply_string pp_trait xs) T"
proof (induction xs arbitrary: T)
  case Nil
  then show ?case by (simp add: st_map_def)
next
  case (Cons x xs)
  have "st_wf n (trait_apply st_trait x T)" using Cons.prems by (auto intro: st.apply_ok)
  with Cons show ?case by (simp add: st_apply_map)
qed

section \<open>The identity tableau\<close>

definition z_gen :: "nat \<Rightarrow> nat \<Rightarrow> pauli_product" where
  "z_gen n i = set_pauli_type i PZ (pp_blank n)"

definition x_gen :: "nat \<Rightarrow> nat \<Rightarrow> pauli_product" where
  "x_gen n i = set_pauli_type i PX (pp_blank n)"

lemma pp_blank_bits [simp]:
  "pp_n_qubits (pp_blank n) = n" "pp_wf (pp_blank n)"
  "is_z_set (pp_blank n) i = False" "is_x_set (pp_blank n) i = False" "is_neg (pp_blank n) = False"
  by (simp_all add: pp_blank_def pp_n_qubits_def pp_wf_def access_defs del: replicate_Suc)

lemma gen_bits [simp]:
  assumes "i < n"
  shows "pp_n_qubits (z_gen n i) = n" "pp_wf (z_gen n i)" "pp_n_qubits (x_gen n i) = n" "pp_wf (x_gen n i)"
    "j < n \<Longrightarrow> is_z_set (z_gen n i) j = (j = i)" "j < n \<Longrightarrow> is_x_set (z_gen n i) j = False"
    "j < n \<Longrightarrow> is_z_set (x_gen n i) j = False" "j < n \<Longrightarrow> is_x_set (x_gen n i) j = (j = i)"
    "is_neg (z_gen n i) = False" "is_neg (x_gen n i) = False"
  using assms by (auto simp: z_gen_def x_gen_def)

lemma gen_ok [simp]: "i < n \<Longrightarrow> pp_ok n (z_gen n i)" "i < n \<Longrightarrow> pp_ok n (x_gen n i)"
  by (simp_all add: pp_ok_def)

definition init_rows :: "nat \<Rightarrow> nat \<Rightarrow> pauli_product" where
  "init_rows n r = (if r < n then z_gen n r else x_gen n (r - n))"

lemma stabs_set_row [simp]: "stabs (set_row r P T) = (stabs T)[r := P]"
  by (simp add: set_row_def)

lemma n_qubits_set_row [simp]: "st_n_qubits (set_row r P T) = st_n_qubits T"
  by (simp add: st_n_qubits_def)

lemma st_init_rows: "length (stabs (st_init n)) = 2 * n" "r < 2 * n \<Longrightarrow> stabs (st_init n) ! r = init_rows n r"
proof -
  let ?I = "\<lambda>i (T :: stabilizer_tableau). length (stabs T) = 2 * n \<and> (\<forall>r < 2 * n. stabs T ! r =
      (if r < i \<or> n \<le> r \<and> r < n + i then init_rows n r else pp_blank n))"
  have "?I n (st_init n)"
    unfolding st_init_def
  proof (rule fold_upt_induct [where I = ?I])
    fix i and T :: stabilizer_tableau
    assume "0 \<le> i" "i < n" and I: "?I i T"
    let ?T1 = "set_row i (z_gen n i) T"
    have T: "st_n_qubits T = n" "st_n_qubits ?T1 = n" "stabs T ! i = pp_blank n" "stabs ?T1 ! (i + n) = pp_blank n"
      using I \<open>i < n\<close> by (simp_all add: st_n_qubits_def)
    have "stabs (set_row (i + n) (x_gen n i) ?T1) ! r =
        (if r < Suc i \<or> n \<le> r \<and> r < n + Suc i then init_rows n r else pp_blank n)" if "r < 2 * n" for r
    proof -
      consider "r = i" | "r = i + n" | "r \<noteq> i" "r \<noteq> i + n" by blast
      then show ?thesis
      proof cases
        case 3
        then have "(r < Suc i \<or> n \<le> r \<and> r < n + Suc i) = (r < i \<or> n \<le> r \<and> r < n + i)" by auto
        with 3 I that show ?thesis by simp
      qed (use I \<open>i < n\<close> in \<open>simp_all add: init_rows_def\<close>)
    qed
    moreover have "(let T1 = set_row (stabilizer_idx T i) (set_pauli_type i PZ (stabilizer T i)) T
        in set_row (destabilizer_idx T1 i) (set_pauli_type i PX (destabilizer T1 i)) T1) =
        set_row (i + n) (x_gen n i) ?T1"
      unfolding Let_def stabilizer_idx_def destabilizer_idx_def stabilizer_def destabilizer_def T(1,3)
        z_gen_def [symmetric] T(2,4) x_gen_def [symmetric] ..
    ultimately show "?I (Suc i) (let T1 = set_row (stabilizer_idx T i) (set_pauli_type i PZ (stabilizer T i)) T
        in set_row (destabilizer_idx T1 i) (set_pauli_type i PX (destabilizer T1 i)) T1)"
      using I by simp
  qed auto
  then show "length (stabs (st_init n)) = 2 * n" "r < 2 * n \<Longrightarrow> stabs (st_init n) ! r = init_rows n r"
    by (auto simp: not_less)
qed

lemma init_rows_ok: "r < 2 * n \<Longrightarrow> pp_ok n (init_rows n r)"
  by (simp add: init_rows_def)

lemma st_init_wf [simp, intro]: "st_wf n (st_init n)"
  by (auto simp: st_wf_def list_all_length st_init_rows init_rows_ok)

section \<open>Prepending\<close>

definition prepends :: "nat \<Rightarrow> (stabilizer_tableau \<Rightarrow> stabilizer_tableau) \<Rightarrow> (pauli_product \<Rightarrow> pauli_product) \<Rightarrow> bool" where
  "prepends n A f \<longleftrightarrow> hom n f \<and> A (st_init n) = st_map f (st_init n) \<and>
     (\<forall>g T. hom n g \<longrightarrow> st_wf n T \<longrightarrow> st_wf n (A T) \<and> A (st_map g T) = st_map g (A T))"

lemma st_wf_hom: "hom n f \<Longrightarrow> st_wf n T \<Longrightarrow> st_wf n (st_map f T)"
  by (auto simp: list_all_iff st_wf_def homD)

lemma prepends_comp: "prepends n A f \<Longrightarrow> prepends n B g \<Longrightarrow> prepends n (\<lambda>T. B (A T)) (\<lambda>P. f (g P))"
  by (auto simp: prepends_def hom_comp)

lemma prepends_cong:
  "prepends n A f \<Longrightarrow> hom n g \<Longrightarrow> (\<And>P. pp_ok n P \<Longrightarrow> f P = g P) \<Longrightarrow> prepends n A g"
  using st_map_cong [of n "st_init n" f g] by (auto simp: prepends_def)

lemma st_wf_set_row: "st_wf n T \<Longrightarrow> pp_ok n P \<Longrightarrow> st_wf n (set_row r P T)"
  by (cases "r < 2 * n") (auto simp: st_wf_def list_all_length nth_list_update)

lemma pw_gen:
  assumes "i < n" "j < n"
  shows "pw (z_gen n i) (x_gen n j) = of_bool (i = j)" "pw (z_gen n i) (z_gen n j) = 0"
    "pw (x_gen n i) (x_gen n j) = 0"
proof -
  have "pw (z_gen n i) (x_gen n j) = (\<Sum>k<n. of_bool (k = i \<and> i = j))"
    unfolding pw_def using assms by (intro sum.cong) (auto simp: local_power_eval)
  also have "\<dots> = of_bool (i = j)"
    using assms by (cases "i = j") (simp_all add: of_bool_def sum.delta)
  finally show "pw (z_gen n i) (x_gen n j) = of_bool (i = j)" .
  show "pw (z_gen n i) (z_gen n j) = 0" "pw (x_gen n i) (x_gen n j) = 0"
    unfolding pw_def using assms by (auto simp: local_power_eval)
qed

lemma row_idx:
  assumes "st_wf n T"
  shows "stabilizer T q = stabs T ! q" "destabilizer T q = stabs T ! (q + n)"
    "stabilizer_idx T q = q" "destabilizer_idx T q = q + n"
  using assms by (simp_all add: stabilizer_def destabilizer_def stabilizer_idx_def destabilizer_idx_def)

lemma prepend_h_rows:
  assumes "st_wf n T" "q < n"
  shows "length (stabs (prepend_h q T)) = 2 * n" "r < 2 * n \<Longrightarrow> stabs (prepend_h q T) ! r =
    (if r = q then stabs T ! (q + n) else if r = q + n then stabs T ! q else stabs T ! r)"
  using assms by (auto simp: prepend_h_def row_idx [of n] nth_list_update st_wf_length)

lemma prepend_s_rows:
  assumes "st_wf n T" "q < n"
  shows "length (stabs (prepend_s q T)) = 2 * n" "r < 2 * n \<Longrightarrow> stabs (prepend_s q T) ! r =
    (if r = q + n then pp_times (stabs T ! q) (stabs T ! (q + n)) else stabs T ! r)"
  using assms by (auto simp: prepend_s_def row_idx [of n] nth_list_update st_wf_length)

lemma prepend_cx_rows:
  assumes "st_wf n T" "c < n" "t < n"
  shows "length (stabs (prepend_cx c t T)) = 2 * n" "r < 2 * n \<Longrightarrow> stabs (prepend_cx c t T) ! r =
    (if r = t then pp_times (stabs T ! c) (stabs T ! t)
     else if r = c + n then pp_times (stabs T ! (t + n)) (stabs T ! (c + n)) else stabs T ! r)"
  using assms
  by (auto simp: prepend_cx_def Let_def stabilizer_def destabilizer_def stabilizer_idx_def
      destabilizer_idx_def nth_list_update st_wf_length)

lemma prependsI:
  assumes f: "hom n f"
    and rows: "\<And>T. st_wf n T \<Longrightarrow> length (stabs (A T)) = 2 * n"
      "\<And>T r. st_wf n T \<Longrightarrow> r < 2 * n \<Longrightarrow> stabs (A T) ! r = R (\<lambda>r. stabs T ! r) r"
    and ok: "\<And>v r. (\<And>r. r < 2 * n \<Longrightarrow> pp_ok n (v r)) \<Longrightarrow> r < 2 * n \<Longrightarrow> pp_ok n (R v r)"
    and nat: "\<And>g v w r. hom n g \<Longrightarrow> (\<And>r. r < 2 * n \<Longrightarrow> pp_ok n (v r) \<and> w r = g (v r)) \<Longrightarrow> r < 2 * n \<Longrightarrow>
      R w r = g (R v r)"
    and base: "\<And>v r. (\<And>r. r < 2 * n \<Longrightarrow> v r = init_rows n r) \<Longrightarrow> r < 2 * n \<Longrightarrow> R v r = f (init_rows n r)"
  shows "prepends n A f"
proof -
  have wf: "st_wf n (A T)" if "st_wf n T" for T
    using that rows ok [of "\<lambda>r. stabs T ! r"] by (auto simp: st_wf_def list_all_length)
  have "A (st_init n) = st_map f (st_init n)"
    by (rule st_eqI [of n]) (use f wf in \<open>auto simp: rows base st_init_rows intro: st_wf_hom\<close>)
  moreover have "A (st_map g T) = st_map g (A T)" if "hom n g" "st_wf n T" for g T
  proof (rule st_eqI [of n])
    fix r assume "r < 2 * n"
    then show "stabs (A (st_map g T)) ! r = stabs (st_map g (A T)) ! r"
      using that rows(2) wf nat [OF that(1), of "\<lambda>r. stabs T ! r" "\<lambda>r. stabs (st_map g T) ! r"]
      by (simp add: st_wf_hom st_wf_row st_wf_length [of n T] st_wf_length [of n "A T"])
  qed (use that in \<open>auto intro: wf st_wf_hom\<close>)
  ultimately show ?thesis using f wf by (auto simp: prepends_def)
qed

lemma prepends_h: assumes q: "q < n" shows "prepends n (prepend_h q) (pp_h q)"
proof (rule prependsI [where R = "\<lambda>v r. if r = q then v (q + n) else if r = q + n then v q else v r"])
  fix v :: "nat \<Rightarrow> pauli_product" and r
  assume "\<And>r. r < 2 * n \<Longrightarrow> v r = init_rows n r" "r < 2 * n"
  then show "(if r = q then v (q + n) else if r = q + n then v q else v r) = pp_h q (init_rows n r)"
    using q by (intro pp_eqI) (auto simp: init_rows_def bit_simps split: if_splits)
qed (use q in \<open>auto simp: prepend_h_rows\<close>)

lemma prepends_s: assumes q: "q < n" shows "prepends n (prepend_s q) (pp_s q)"
proof (rule prependsI [where R = "\<lambda>v r. if r = q + n then pp_times (v q) (v (q + n)) else v r"])
  fix v :: "nat \<Rightarrow> pauli_product" and r
  assume "\<And>r. r < 2 * n \<Longrightarrow> v r = init_rows n r" "r < 2 * n"
  then show "(if r = q + n then pp_times (v q) (v (q + n)) else v r) = pp_s q (init_rows n r)"
    using q by (intro pp_eqI) (auto simp: init_rows_def bit_simps pw_gen split: if_splits)
qed (use q in \<open>auto simp: homD prepend_s_rows\<close>)

lemma prepends_cx: assumes q: "c < n" "t < n" "c \<noteq> t" shows "prepends n (prepend_cx c t) (pp_cx c t)"
proof (rule prependsI [where R = "\<lambda>v r. if r = t then pp_times (v c) (v t) else if r = c + n then pp_times (v (t + n)) (v (c + n)) else v r"])
  fix v :: "nat \<Rightarrow> pauli_product" and r
  assume "\<And>r. r < 2 * n \<Longrightarrow> v r = init_rows n r" "r < 2 * n"
  then show "(if r = t then pp_times (v c) (v t) else if r = c + n then pp_times (v (t + n)) (v (c + n)) else v r)
      = pp_cx c t (init_rows n r)"
    using q by (intro pp_eqI) (auto simp: init_rows_def bit_simps pw_gen bxor_def split: if_splits)
qed (use q in \<open>auto simp: homD prepend_cx_rows\<close>)


text \<open>The derived operations. \<open>prepend_y\<close> and \<open>prepend_ecr\<close> put their factors in another order than
  the mixin does; the factors commute.\<close>

lemma z_x_commute: "pp_ok n P \<Longrightarrow> q < n \<Longrightarrow>
    trait_x pp_trait q (trait_z pp_trait q P) = trait_z pp_trait q (trait_x pp_trait q P)"
  by (rule pp_eqI) (auto simp: pp_ok_def bit_simps bxor_ac)

lemma ecr_commute:
  assumes "pp_ok n P" "c < n" "t < n" "c \<noteq> t"
  shows "trait_x pp_trait c (pp_s c (trait_v pp_trait t P)) = trait_v pp_trait t (trait_x pp_trait c (pp_s c P))"
  by (rule pp_eqI) (use assms in \<open>auto simp: pp_ok_def bit_simps bxor_ac\<close>)

lemma prepends_one:
  assumes "q < n"
  shows "prepends n (prepend_sdg q) (trait_sdg pp_trait q)" "prepends n (prepend_z q) (trait_z pp_trait q)"
    "prepends n (prepend_v q) (trait_v pp_trait q)" "prepends n (prepend_vdg q) (trait_vdg pp_trait q)"
    "prepends n (prepend_x q) (trait_x pp_trait q)" "prepends n (prepend_y q) (trait_y pp_trait q)"
proof -
  note C = prepends_comp [of n] and H = prepends_h [OF assms] and S = prepends_s [OF assms]
  show sdg: "prepends n (prepend_sdg q) (trait_sdg pp_trait q)" and z: "prepends n (prepend_z q) (trait_z pp_trait q)"
    using C [OF C [OF S S] S] C [OF S S]
    by (simp_all add: prepend_sdg_def [abs_def] prepend_z_def [abs_def] trait_sdg_def [abs_def] trait_z_def [abs_def])
  show "prepends n (prepend_v q) (trait_v pp_trait q)" "prepends n (prepend_vdg q) (trait_vdg pp_trait q)"
    and x: "prepends n (prepend_x q) (trait_x pp_trait q)"
    using C [OF C [OF H S] H] C [OF C [OF H sdg] H] C [OF C [OF H z] H]
    by (simp_all add: prepend_v_def [abs_def] prepend_vdg_def [abs_def] prepend_x_def [abs_def]
        trait_v_def [abs_def] trait_vdg_def [abs_def] trait_x_def [abs_def])
  have "prepends n (prepend_y q) (\<lambda>P. trait_x pp_trait q (trait_z pp_trait q P))"
    using C [OF x z] by (simp add: prepend_y_def [abs_def])
  then show "prepends n (prepend_y q) (trait_y pp_trait q)"
    by (rule prepends_cong) (use hom_apply [of n "(COT_y, q, 0)"] assms in \<open>auto simp: z_x_commute trait_y_def\<close>)
qed

lemma prepends_two:
  assumes "c < n" "t < n" "c \<noteq> t"
  shows "prepends n (prepend_cz c t) (trait_cz pp_trait c t)" "prepends n (prepend_swap c t) (trait_swap pp_trait c t)"
    "prepends n (prepend_ecr c t) (trait_ecr pp_trait c t)"
proof -
  note C = prepends_comp [of n] and H = prepends_h [OF assms(2)] and X = prepends_cx [OF assms]
    prepends_cx [OF assms(2,1) not_sym [OF assms(3)]]
  show "prepends n (prepend_cz c t) (trait_cz pp_trait c t)" "prepends n (prepend_swap c t) (trait_swap pp_trait c t)"
    using C [OF C [OF H X(1)] H] C [OF C [OF X(1) X(2)] X(1)]
    by (simp_all add: prepend_cz_def [abs_def] prepend_swap_def [abs_def] trait_cz_def [abs_def] trait_swap_def [abs_def])
  have "prepends n (prepend_ecr c t) (\<lambda>P. trait_x pp_trait c (pp_s c (trait_v pp_trait t (pp_cx c t P))))"
    using C [OF C [OF C [OF prepends_one(5) [OF assms(1)] prepends_s [OF assms(1)]] prepends_one(3) [OF assms(2)]] X(1)]
    by (simp add: prepend_ecr_def [abs_def])
  then show "prepends n (prepend_ecr c t) (trait_ecr pp_trait c t)"
    by (rule prepends_cong)
      (use hom_apply [of n "(COT_ecr, c, t)"] assms pp.cx_ok [of n _ c t] in \<open>auto simp: trait_ecr_def ecr_commute [of n]\<close>)
qed

lemma prepends_op:
  assumes "op_ok n x"
  shows "prepends n (st_prepend x) (trait_apply pp_trait x)"
proof -
  obtain t a b where "x = (t, a, b)" by (cases x) auto
  with assms show ?thesis
    by (cases t) (auto simp: prepends_h prepends_s prepends_cx prepends_one prepends_two)
qed

text \<open>Prepending an operator to the tableau of a circuit gives the tableau of the longer circuit.\<close>

lemma st_prepend_circuit:
  assumes "op_ok n x" "string_ok n xs"
  shows "st_prepend x (trait_apply_string st_trait xs (st_init n)) = trait_apply_string st_trait (x # xs) (st_init n)"
proof -
  let ?f = "trait_apply_string pp_trait xs"
  note p = prepends_op [OF assms(1), unfolded prepends_def]
  have i: "trait_apply_string st_trait (x # xs) (st_init n) = st_map ?f (trait_apply st_trait x (st_init n))"
    using assms by (simp add: st_apply_string_map [of n] st.apply_ok)
  have "st_prepend x (trait_apply_string st_trait xs (st_init n)) = st_map ?f (st_prepend x (st_init n))"
    using assms p hom_apply_string [OF assms(2)] by (simp add: st_apply_string_map [of n])
  also have "\<dots> = st_map ?f (trait_apply st_trait x (st_init n))"
    using p by (simp add: st_apply_map [of n])
  finally show ?thesis by (simp only: i)
qed

lemma st_prepend_string_circuit:
  "string_ok n ops \<Longrightarrow> string_ok n xs \<Longrightarrow>
    st_prepend_string ops (trait_apply_string st_trait xs (st_init n)) =
      trait_apply_string st_trait (rev ops @ xs) (st_init n)"
proof (induction ops arbitrary: xs)
  case (Cons x ops)
  have "st_prepend_string (x # ops) (trait_apply_string st_trait xs (st_init n)) =
      st_prepend_string ops (trait_apply_string st_trait (x # xs) (st_init n))"
    using Cons.prems by (simp add: st_prepend_string_def st_prepend_circuit del: trait_apply_string_simps(2))
  with Cons show ?case by (simp del: trait_apply_string_simps(2))
qed (simp add: st_prepend_string_def)

section \<open>The symplectic invariant\<close>

definition paired :: "nat \<Rightarrow> nat \<Rightarrow> nat \<Rightarrow> bool" where
  "paired n i j \<longleftrightarrow> j = i + n \<or> i = j + n"

definition st_ok :: "nat \<Rightarrow> stabilizer_tableau \<Rightarrow> bool" where
  "st_ok n T \<longleftrightarrow> st_wf n T \<and> (\<forall>i < 2 * n. \<forall>j < 2 * n. symp (stabs T ! i) (stabs T ! j) = paired n i j)"

lemma st_ok_wf [simp]: "st_ok n T \<Longrightarrow> st_wf n T"
  by (simp add: st_ok_def)

lemma st_ok_symp: "st_ok n T \<Longrightarrow> i < 2 * n \<Longrightarrow> j < 2 * n \<Longrightarrow> symp (stabs T ! i) (stabs T ! j) = paired n i j"
  by (simp add: st_ok_def)

lemma symp_gen:
  assumes "i < n" "j < n"
  shows "\<not> symp (z_gen n i) (z_gen n j)" "\<not> symp (x_gen n i) (x_gen n j)"
    "symp (z_gen n i) (x_gen n j) = (i = j)" "symp (x_gen n i) (z_gen n j) = (i = j)"
proof -
  show "\<not> symp (z_gen n i) (z_gen n j)" "\<not> symp (x_gen n i) (x_gen n j)"
    unfolding symp_def using assms by (auto intro!: gf2_sum_all_zero)
  have "symp (z_gen n i) (x_gen n j) = gf2_sum (\<lambda>k. k = i \<and> k = j) n"
    unfolding symp_def using assms by (intro gf2_sum_cong) auto
  with assms show zx: "symp (z_gen n i) (x_gen n j) = (i = j)" by (simp add: gf2_sum_delta)
  have "symp (x_gen n i) (z_gen n j) = gf2_sum (\<lambda>k. k = i \<and> k = j) n"
    unfolding symp_def using assms by (intro gf2_sum_cong) auto
  with assms show "symp (x_gen n i) (z_gen n j) = (i = j)" by (simp add: gf2_sum_delta)
qed

lemma st_init_ok: "st_ok n (st_init n)"
  by (auto simp: st_ok_def st_init_rows init_rows_def symp_gen paired_def)

text \<open>Every operator of the mixin keeps the symplectic form.\<close>

lemma apply_symp:
  assumes "op_ok n x" "pp_ok n P" "pp_ok n Q"
  shows "symp (trait_apply pp_trait x P) (trait_apply pp_trait x Q) = symp P Q"
proof -
  have *: "odd (pw P Q) = symp P Q" for P Q by (rule odd_pw)
  obtain t a b where "x = (t, a, b)" by (cases x) auto
  with assms show ?thesis
    by (cases t)
      (auto simp: trait_sdg_def trait_v_def trait_vdg_def trait_z_def trait_x_def trait_y_def trait_cz_def
        trait_swap_def trait_ecr_def pp_ok_def pp_h_symp pp_s_symp pp_cx_symp)
qed

lemma st_apply_ok: "st_ok n T \<Longrightarrow> op_ok n x \<Longrightarrow> st_ok n (trait_apply st_trait x T)"
  using st.apply_ok [of n T x]
  by (auto simp: st_ok_def st_apply_map [of n] st_wf_length apply_symp [of n] st_wf_row)

lemma st_apply_string_ok: "st_ok n T \<Longrightarrow> string_ok n xs \<Longrightarrow> st_ok n (trait_apply_string st_trait xs T)"
  by (induction xs arbitrary: T) (auto intro: st_apply_ok)

lemma st_ok_rowsI:
  assumes "st_wf n U" "\<And>i j. i < 2 * n \<Longrightarrow> j < 2 * n \<Longrightarrow> symp (stabs U ! i) (stabs U ! j) = paired n i j"
  shows "st_ok n U"
  using assms by (simp add: st_ok_def)

lemma prepend_h_ok: assumes "st_ok n T" "q < n" shows "st_ok n (prepend_h q T)"
proof (rule st_ok_rowsI)
  show "st_wf n (prepend_h q T)"
    using assms prepends_h [OF assms(2)] hom_id [of n] by (auto simp: prepends_def)
  fix i j assume "i < 2 * n" "j < 2 * n"
  with assms show "symp (stabs (prepend_h q T) ! i) (stabs (prepend_h q T) ! j) = paired n i j"
    by (auto simp: prepend_h_rows [of n] st_ok_symp paired_def)
qed

lemma symp_times_ok:
  assumes "pp_ok n P" "pp_ok n Q" "pp_ok n R"
  shows "symp (pp_times P Q) R = bxor (symp P R) (symp Q R)" "symp R (pp_times P Q) = bxor (symp R P) (symp R Q)"
proof -
  show *: "symp (pp_times P Q) R = bxor (symp P R) (symp Q R)"
    using assms by (intro symp_times) (auto simp: pp_ok_def)
  have "symp R S = symp S R" if "pp_ok n S" for S
    using assms(3) that by (intro symp_sym) (simp add: pp_ok_def)
  with * assms show "symp R (pp_times P Q) = bxor (symp R P) (symp R Q)" by simp
qed

lemma prepend_s_ok: assumes T: "st_ok n T" and q: "q < n" shows "st_ok n (prepend_s q T)"
proof (rule st_ok_rowsI)
  show "st_wf n (prepend_s q T)"
    using assms prepends_s [OF assms(2)] hom_id [of n] by (auto simp: prepends_def)
  have ok: "r < 2 * n \<Longrightarrow> pp_ok n (stabs T ! r)" for r using T by (simp add: st_wf_row)
  fix i j assume "i < 2 * n" "j < 2 * n"
  with T q show "symp (stabs (prepend_s q T) ! i) (stabs (prepend_s q T) ! j) = paired n i j"
    by (auto simp: prepend_s_rows [of n] symp_times_ok [of n] ok st_ok_symp [OF T] paired_def)
qed

lemma prepend_cx_ok: assumes T: "st_ok n T" and q: "c < n" "t < n" "c \<noteq> t" shows "st_ok n (prepend_cx c t T)"
proof (rule st_ok_rowsI)
  show "st_wf n (prepend_cx c t T)"
    using assms prepends_cx [OF q] hom_id [of n] by (auto simp: prepends_def)
  have ok: "r < 2 * n \<Longrightarrow> pp_ok n (stabs T ! r)" for r using T by (simp add: st_wf_row)
  fix i j assume "i < 2 * n" "j < 2 * n"
  with T q show "symp (stabs (prepend_cx c t T) ! i) (stabs (prepend_cx c t T) ! j) = paired n i j"
    by (auto simp: prepend_cx_rows [of n] symp_times_ok [of n] ok st_ok_symp [OF T] paired_def)
qed

lemma st_prepend_ok:
  assumes "st_ok n T" "op_ok n x"
  shows "st_ok n (st_prepend x T)"
proof -
  obtain t a b where "x = (t, a, b)" by (cases x) auto
  with assms show ?thesis
    by (cases t)
      (auto simp: prepend_sdg_def prepend_z_def prepend_v_def prepend_vdg_def prepend_x_def prepend_y_def
        prepend_cz_def prepend_swap_def prepend_ecr_def intro!: prepend_h_ok prepend_s_ok prepend_cx_ok)
qed

end
