(* ===== verification/StabilizerSynthesis.thy ===== *)
theory StabilizerSynthesis
  imports StabilizerPrepend
begin

text \<open>
  Extraction of a circuit from a tableau (src/src/tableau/stabilizer_tableau.cpp): the
  Aaronson-Gottesman strategy, the strategy with the optimal number of H gates, the adjoint of a
  tableau. A strategy works on a copy of the tableau and on the string of the gates it has
  appended to it; the pair of the two is the state of the model. \<open>stop_requested()\<close> reads a flag
  that a signal handler sets, so the answers of its successive polls are the parameter \<open>stop\<close>.
\<close>

section \<open>Aaronson-Gottesman synthesis\<close>

type_synonym synth_state = "stabilizer_tableau \<times> clifford_string"

definition add_op :: "clifford_op \<Rightarrow> synth_state \<Rightarrow> synth_state" where
  "add_op x st = (trait_apply st_trait x (fst st), snd st @ [x])"

definition add_cx :: "nat \<Rightarrow> nat \<Rightarrow> synth_state \<Rightarrow> synth_state" where
  "add_cx c t = add_op (COT_cx, c, t)"

definition add_h :: "nat \<Rightarrow> synth_state \<Rightarrow> synth_state" where
  "add_h q = add_op (COT_h, q, 0)"

definition add_s :: "nat \<Rightarrow> synth_state \<Rightarrow> synth_state" where
  "add_s q = add_op (COT_s, q, 0)"

definition add_x :: "nat \<Rightarrow> synth_state \<Rightarrow> synth_state" where
  "add_x q = add_op (COT_x, q, 0)"

definition add_z :: "nat \<Rightarrow> synth_state \<Rightarrow> synth_state" where
  "add_z q = add_op (COT_z, q, 0)"

definition make_destab_x_main_diag_1 :: "nat \<Rightarrow> synth_state \<Rightarrow> synth_state" where
  "make_destab_x_main_diag_1 q st =
     (let T = fst st; n = st_n_qubits T; D = destabilizer T q in
      if is_x_set D q then st
      else (let ctrl = find_index (is_x_set D) (q + 1) n in
            if ctrl < n then add_cx ctrl q st
            else (let ctrl = find_index (is_z_set D) q n in
                  if ctrl < n
                  then (let st1 = add_h ctrl st in if ctrl \<noteq> q then add_cx ctrl q st1 else st1)
                  else st)))"

definition make_destab_x_off_diag_0 :: "nat \<Rightarrow> synth_state \<Rightarrow> synth_state" where
  "make_destab_x_off_diag_0 q st =
     (let n = st_n_qubits (fst st);
          st1 = fold (\<lambda>targ st. if is_x_set (destabilizer (fst st) q) targ then add_cx q targ st else st)
                  [q + 1..<n] st
      in if list_ex (is_z_set (destabilizer (fst st1) q)) [q..<n]
         then (let st2 = (if \<not> is_z_set (destabilizer (fst st1) q) q then add_s q st1 else st1);
                   st3 = fold (\<lambda>ctrl st. if is_z_set (destabilizer (fst st) q) ctrl then add_cx ctrl q st else st)
                           [q + 1..<n] st2
               in add_s q st3)
         else st1)"

definition make_stab_z_off_diag_0 :: "nat \<Rightarrow> synth_state \<Rightarrow> synth_state" where
  "make_stab_z_off_diag_0 q st =
     (let n = st_n_qubits (fst st);
          st1 = fold (\<lambda>ctrl st. if is_z_set (stabilizer (fst st) q) ctrl then add_cx ctrl q st else st)
                  [q + 1..<n] st
      in if list_ex (is_x_set (stabilizer (fst st1) q)) [q..<n]
         then (let st2 = add_h q st1;
                   st3 = fold (\<lambda>targ st. if is_x_set (stabilizer (fst st) q) targ then add_cx q targ st else st)
                           [q + 1..<n] st2;
                   st4 = (if is_z_set (stabilizer (fst st3) q) q then add_s q st3 else st3)
               in add_h q st4)
         else st1)"

definition ag_qubit :: "nat \<Rightarrow> synth_state \<Rightarrow> synth_state" where
  "ag_qubit q st = make_stab_z_off_diag_0 q (make_destab_x_off_diag_0 q (make_destab_x_main_diag_1 q st))"

text \<open>The main loop: \<open>k\<close> counts the polls; the result is the state and the next poll.\<close>

function ag_loop :: "(nat \<Rightarrow> bool) \<Rightarrow> nat \<Rightarrow> nat \<Rightarrow> nat \<Rightarrow> synth_state \<Rightarrow> synth_state \<times> nat" where
  "ag_loop stop k n q st =
     (if n \<le> q then (st, k)
      else if stop k then (st, k + 1)
      else ag_loop stop (k + 1) n (q + 1) (ag_qubit q st))"
  by pat_completeness auto
termination by (relation "measure (\<lambda>(stop, k, n, q, st). n - q)") auto

declare ag_loop.simps [simp del]

definition ag_signs :: "nat \<Rightarrow> synth_state \<Rightarrow> synth_state" where
  "ag_signs n st =
     fold (\<lambda>q st. let st1 = (if is_neg (stabilizer (fst st) q) then add_x q st else st)
                  in (if is_neg (destabilizer (fst st1) q) then add_z q st1 else st1))
       [0..<n] st"

definition ag_synthesize :: "(nat \<Rightarrow> bool) \<Rightarrow> nat \<Rightarrow> stabilizer_tableau \<Rightarrow> clifford_string" where
  "ag_synthesize stop k T =
     (let n = st_n_qubits T; (st, k') = ag_loop stop k n 0 (T, [])
      in if stop k' then [] else adjoint_string (snd (ag_signs n st)))"

section \<open>Synthesis with the optimal number of H gates\<close>

datatype hopt_mode = Star | Staircase

definition get_qubits_with_stabilizer_set :: "stabilizer_tableau \<Rightarrow> nat \<Rightarrow> nat list" where
  "get_qubits_with_stabilizer_set T q = filter (is_x_set (stabilizer T q)) [0..<st_n_qubits T]"

definition hopt_row :: "hopt_mode \<Rightarrow> nat \<Rightarrow> synth_state \<Rightarrow> synth_state" where
  "hopt_row mode i st =
     (let qs = get_qubits_with_stabilizer_set (fst st) i in
      if qs = [] then st
      else (let ctrl = hd qs;
                st1 = (case mode of
                         Star \<Rightarrow> fold (\<lambda>targ. add_cx ctrl targ) (drop 1 qs) st
                       | Staircase \<Rightarrow> fold (\<lambda>(t, c). add_cx c t) (zip (rev qs) (tl (rev qs))) st);
                st2 = (if is_z_set (stabilizer (fst st1) i) ctrl then add_s ctrl st1 else st1)
            in add_h ctrl st2))"

function hopt_loop :: "(nat \<Rightarrow> bool) \<Rightarrow> hopt_mode \<Rightarrow> nat \<Rightarrow> nat \<Rightarrow> nat \<Rightarrow> synth_state \<Rightarrow> synth_state \<times> nat" where
  "hopt_loop stop mode k n i st =
     (if n \<le> i then (st, k)
      else if stop k then (st, k + 1)
      else hopt_loop stop mode (k + 1) n (i + 1) (hopt_row mode i st))"
  by pat_completeness auto
termination by (relation "measure (\<lambda>(stop, mode, k, n, i, st). n - i)") auto

declare hopt_loop.simps [simp del]

definition hopt_synthesize :: "(nat \<Rightarrow> bool) \<Rightarrow> hopt_mode \<Rightarrow> nat \<Rightarrow> stabilizer_tableau \<Rightarrow> clifford_string" where
  "hopt_synthesize stop mode k T =
     (let ((T', diag_ops), k') = hopt_loop stop mode k (st_n_qubits T) 0 (T, [])
      in if stop k' then [] else ag_synthesize stop (k' + 1) T' @ adjoint_string diag_ops)"

text \<open>The default strategy of \<open>extract_clifford_operators\<close> is the star mode.\<close>

definition extract_clifford_operators :: "(nat \<Rightarrow> bool) \<Rightarrow> stabilizer_tableau \<Rightarrow> clifford_string" where
  "extract_clifford_operators stop T = hopt_synthesize stop Star 0 T"

definition st_adjoint :: "(nat \<Rightarrow> bool) \<Rightarrow> stabilizer_tableau \<Rightarrow> stabilizer_tableau" where
  "st_adjoint stop T =
     trait_apply_string st_trait (adjoint_string (extract_clifford_operators stop T)) (st_init (st_n_qubits T))"

section \<open>Reading the rows\<close>

definition zb :: "stabilizer_tableau \<Rightarrow> nat \<Rightarrow> nat \<Rightarrow> bool" where
  "zb T r i = is_z_set (stabs T ! r) i"

definition xb :: "stabilizer_tableau \<Rightarrow> nat \<Rightarrow> nat \<Rightarrow> bool" where
  "xb T r i = is_x_set (stabs T ! r) i"

lemma row_bits:
  assumes "st_wf n T"
  shows "is_z_set (stabilizer T q) = zb T q" "is_x_set (stabilizer T q) = xb T q"
    "is_z_set (destabilizer T q) = zb T (q + n)" "is_x_set (destabilizer T q) = xb T (q + n)"
  using assms by (auto simp: row_idx [of n] zb_def xb_def fun_eq_iff)

lemma gate_bits:
  assumes "st_wf n T" "r < 2 * n" "i < n"
  shows "q < n \<Longrightarrow> zb (st_h q T) r i = (if i = q then xb T r q else zb T r i)"
    "q < n \<Longrightarrow> xb (st_h q T) r i = (if i = q then zb T r q else xb T r i)"
    "q < n \<Longrightarrow> zb (st_s q T) r i = (if i = q then bxor (zb T r q) (xb T r q) else zb T r i)"
    "q < n \<Longrightarrow> xb (st_s q T) r i = xb T r i"
    "c < n \<Longrightarrow> t < n \<Longrightarrow> zb (st_cx c t T) r i = (if i = c then bxor (zb T r c) (zb T r t) else zb T r i)"
    "c < n \<Longrightarrow> t < n \<Longrightarrow> xb (st_cx c t T) r i = (if i = t then bxor (xb T r t) (xb T r c) else xb T r i)"
  using assms st_wf_rowD [OF assms(1,2)]
  by (simp_all add: st_generators [of n] zb_def xb_def st_wf_length bit_simps)

text \<open>The state of a synthesis: the string so far turns the input into the current copy.\<close>

definition linked :: "nat \<Rightarrow> stabilizer_tableau \<Rightarrow> synth_state \<Rightarrow> bool" where
  "linked n T0 st \<longleftrightarrow> st_ok n (fst st) \<and> string_ok n (snd st) \<and> fst st = trait_apply_string st_trait (snd st) T0"

lemma linked_ok: "linked n T0 st \<Longrightarrow> st_ok n (fst st)"
  unfolding linked_def by blast

lemma linked_wf [simp]: "linked n T0 st \<Longrightarrow> st_wf n (fst st)"
  by (rule st_ok_wf [OF linked_ok])

lemma linked_add: "linked n T0 st \<Longrightarrow> op_ok n x \<Longrightarrow> linked n T0 (add_op x st)"
  by (auto simp: linked_def add_op_def intro: st_apply_ok)

lemma linked_adds:
  assumes "linked n T0 st"
  shows "q < n \<Longrightarrow> linked n T0 (add_h q st)" "q < n \<Longrightarrow> linked n T0 (add_s q st)"
    "q < n \<Longrightarrow> linked n T0 (add_x q st)" "q < n \<Longrightarrow> linked n T0 (add_z q st)"
    "c < n \<Longrightarrow> t < n \<Longrightarrow> c \<noteq> t \<Longrightarrow> linked n T0 (add_cx c t st)"
  using assms by (auto simp: add_h_def add_s_def add_x_def add_z_def add_cx_def intro!: linked_add)

lemma add_bits:
  assumes "linked n T0 st" "r < 2 * n" "i < n"
  shows "q < n \<Longrightarrow> zb (fst (add_h q st)) r i = (if i = q then xb (fst st) r q else zb (fst st) r i)"
    "q < n \<Longrightarrow> xb (fst (add_h q st)) r i = (if i = q then zb (fst st) r q else xb (fst st) r i)"
    "q < n \<Longrightarrow> zb (fst (add_s q st)) r i = (if i = q then bxor (zb (fst st) r q) (xb (fst st) r q) else zb (fst st) r i)"
    "q < n \<Longrightarrow> xb (fst (add_s q st)) r i = xb (fst st) r i"
    "c < n \<Longrightarrow> t < n \<Longrightarrow> zb (fst (add_cx c t st)) r i = (if i = c then bxor (zb (fst st) r c) (zb (fst st) r t) else zb (fst st) r i)"
    "c < n \<Longrightarrow> t < n \<Longrightarrow> xb (fst (add_cx c t st)) r i = (if i = t then bxor (xb (fst st) r t) (xb (fst st) r c) else xb (fst st) r i)"
  using assms by (simp_all add: add_h_def add_s_def add_cx_def add_op_def gate_bits [OF linked_wf])

text \<open>The pairing of the rows, read off their bits.\<close>

lemma symp_rows:
  assumes "st_ok n T" "r < 2 * n" "s < 2 * n"
  shows "gf2_sum (\<lambda>i. bxor (zb T r i \<and> xb T s i) (xb T r i \<and> zb T s i)) n = paired n r s"
  using st_ok_symp [OF assms] st_wf_rowD [of n T r] assms by (simp add: symp_def zb_def xb_def)

section \<open>Correctness of the Aaronson-Gottesman strategy\<close>

definition clean :: "nat \<Rightarrow> nat \<Rightarrow> stabilizer_tableau \<Rightarrow> bool" where
  "clean n i T \<longleftrightarrow>
     (\<forall>j < n. zb T i j = (j = i) \<and> \<not> xb T i j \<and> \<not> zb T (i + n) j \<and> xb T (i + n) j = (j = i))"

definition reach :: "nat \<Rightarrow> stabilizer_tableau \<Rightarrow> nat \<Rightarrow> synth_state \<Rightarrow> bool" where
  "reach n T0 q st \<longleftrightarrow> linked n T0 st \<and> (\<forall>i < q. clean n i (fst st))"

lemma reach_linked [simp]: "reach n T0 q st \<Longrightarrow> linked n T0 st"
  by (simp add: reach_def)

lemma reach_adds:
  assumes "reach n T0 q st"
  shows "q \<le> p \<Longrightarrow> p < n \<Longrightarrow> reach n T0 q (add_h p st)" "q \<le> p \<Longrightarrow> p < n \<Longrightarrow> reach n T0 q (add_s p st)"
    "q \<le> c \<Longrightarrow> q \<le> t \<Longrightarrow> c < n \<Longrightarrow> t < n \<Longrightarrow> c \<noteq> t \<Longrightarrow> reach n T0 q (add_cx c t st)"
  using assms by (auto simp: reach_def clean_def linked_adds add_bits [of n T0 st])

text \<open>Rows from \<open>q\<close> on commute with the clean rows, so they vanish on the qubits below \<open>q\<close>.\<close>

lemma reach_low:
  assumes "reach n T0 q st" "i < q" "q < n" "r = q \<or> r = q + n"
  shows "\<not> zb (fst st) r i" "\<not> xb (fst st) r i"
proof -
  let ?T = "fst st"
  have T: "st_ok n ?T" and i: "clean n i ?T" using assms by (auto simp: reach_def linked_def)
  have "gf2_sum (\<lambda>k. bxor (zb ?T i k \<and> xb ?T r k) (xb ?T i k \<and> zb ?T r k)) n = gf2_sum (\<lambda>k. k = i \<and> xb ?T r k) n"
    using i by (intro gf2_sum_cong) (auto simp: clean_def)
  moreover have "gf2_sum (\<lambda>k. bxor (zb ?T (i + n) k \<and> xb ?T r k) (xb ?T (i + n) k \<and> zb ?T r k)) n
      = gf2_sum (\<lambda>k. k = i \<and> zb ?T r k) n"
    using i by (intro gf2_sum_cong) (auto simp: clean_def)
  ultimately show "\<not> zb ?T r i" "\<not> xb ?T r i"
    using symp_rows [OF T, of i r] symp_rows [OF T, of "i + n" r] assms
    by (auto simp: gf2_sum_delta paired_def)
qed

lemma reach_rows:
  assumes "reach n T0 q st"
  shows "st_n_qubits (fst st) = n" "is_z_set (stabilizer (fst st) p) = zb (fst st) p"
    "is_x_set (stabilizer (fst st) p) = xb (fst st) p" "is_z_set (destabilizer (fst st) p) = zb (fst st) (p + n)"
    "is_x_set (destabilizer (fst st) p) = xb (fst st) (p + n)"
  using row_bits [OF linked_wf [OF reach_linked [OF assms]]] st_wf_n [OF linked_wf [OF reach_linked [OF assms]]]
  by simp_all

lemma reach_bits:
  assumes "reach n T0 q st" "r < 2 * n" "i < n"
  shows "p < n \<Longrightarrow> zb (fst (add_h p st)) r i = (if i = p then xb (fst st) r p else zb (fst st) r i)"
    "p < n \<Longrightarrow> xb (fst (add_h p st)) r i = (if i = p then zb (fst st) r p else xb (fst st) r i)"
    "p < n \<Longrightarrow> zb (fst (add_s p st)) r i = (if i = p then bxor (zb (fst st) r p) (xb (fst st) r p) else zb (fst st) r i)"
    "p < n \<Longrightarrow> xb (fst (add_s p st)) r i = xb (fst st) r i"
    "c < n \<Longrightarrow> t < n \<Longrightarrow> zb (fst (add_cx c t st)) r i = (if i = c then bxor (zb (fst st) r c) (zb (fst st) r t) else zb (fst st) r i)"
    "c < n \<Longrightarrow> t < n \<Longrightarrow> xb (fst (add_cx c t st)) r i = (if i = t then bxor (xb (fst st) r t) (xb (fst st) r c) else xb (fst st) r i)"
  by (rule add_bits [OF reach_linked [OF assms(1)] assms(2,3)]; assumption)+

text \<open>The two rows of a qubit anticommute, so neither is the identity.\<close>

lemma reach_pair:
  assumes "reach n T0 p st" "q < n"
  shows "gf2_sum (\<lambda>i. bxor (zb (fst st) q i \<and> xb (fst st) (q + n) i) (xb (fst st) q i \<and> zb (fst st) (q + n) i)) n"
  using symp_rows [OF linked_ok [OF reach_linked [OF assms(1)]], of q "q + n"] assms(2) by (simp add: paired_def)

lemma main_diag:
  assumes st: "reach n T0 q st" and q: "q < n"
  defines "st' \<equiv> make_destab_x_main_diag_1 q st"
  shows "reach n T0 q st' \<and> xb (fst st') (q + n) q"
proof (cases "xb (fst st) (q + n) q")
  case True
  with st show ?thesis by (simp add: st'_def make_destab_x_main_diag_1_def Let_def reach_rows)
next
  case x: False
  let ?T = "fst st" and ?r = "q + n"
  let ?c = "find_index (xb ?T ?r) (q + 1) n" and ?k = "find_index (zb ?T ?r) q n"
  note unf = make_destab_x_main_diag_1_def Let_def reach_rows [OF st] reach_rows
  show ?thesis
  proof (cases "?c < n")
    case True
    then have "q < ?c" "xb ?T ?r ?c" using find_index_found [OF True] by auto
    with True st q x show ?thesis
      by (simp add: st'_def unf reach_adds reach_bits [OF st])
  next
    case False
    then have "?c = n" using find_index_le [of _ _ n] by (meson le_neq_implies_less)
    then have nox: "\<not> xb ?T ?r i" if "i < n" for i
      using that x reach_low [OF st _ q, of i ?r] find_index_none [of _ "q + 1" n i] by (cases i q rule: linorder_cases) auto
    have "\<exists>i. q \<le> i \<and> i < n \<and> zb ?T ?r i"
    proof (rule ccontr)
      assume "\<not> ?thesis"
      then have "\<not> zb ?T ?r i" if "i < n" for i
        using that reach_low [OF st _ q, of i ?r] by (cases "i < q") auto
      with nox reach_pair [OF st q] show False by (simp add: gf2_sum_all_zero)
    qed
    then have k: "?k < n" "q \<le> ?k" "zb ?T ?r ?k"
      using find_index_exists find_index_found by blast+
    have h: "reach n T0 q (add_h ?k st)" using st k by (intro reach_adds)
    show ?thesis
    proof (cases "?k = q")
      case True
      with k q h x False show ?thesis by (simp add: st'_def unf reach_bits [OF st])
    next
      case ne: False
      with k q h x False have "st' = add_cx ?k q (add_h ?k st)" by (simp add: st'_def unf)
      with ne k q h x nox show ?thesis
        by (simp add: reach_adds reach_bits [OF st] reach_bits [OF h])
    qed
  qed
qed

text \<open>The two clearing loops; \<open>E\<close> is what the caller wants to keep.\<close>

lemma clear_x:
  assumes st: "reach n T0 q st" and q: "q < n" and r: "r < 2 * n" and x: "xb (fst st) r q" and E: "E (fst st)"
    and keep: "\<And>st t. reach n T0 q st \<Longrightarrow> E (fst st) \<Longrightarrow> q < t \<Longrightarrow> t < n \<Longrightarrow> E (fst (add_cx q t st))"
  defines "st' \<equiv> fold (\<lambda>targ st. if xb (fst st) r targ then add_cx q targ st else st) [Suc q..<n] st"
  shows "reach n T0 q st'" "xb (fst st') r q" "\<And>j. q < j \<Longrightarrow> j < n \<Longrightarrow> \<not> xb (fst st') r j" "E (fst st')"
proof -
  let ?I = "\<lambda>i st. reach n T0 q st \<and> xb (fst st) r q \<and> (\<forall>j. q < j \<longrightarrow> j < i \<longrightarrow> \<not> xb (fst st) r j) \<and> E (fst st)"
  have "?I n st'"
    unfolding st'_def
  proof (rule fold_upt_induct [where I = ?I])
    fix i st assume i: "Suc q \<le> i" "i < n" and I: "?I i st"
    then have "reach n T0 q (add_cx q i st)" using q by (intro reach_adds) auto
    with i I q r keep [of st i] show "?I (Suc i) (if xb (fst st) r i then add_cx q i st else st)"
      by (auto simp: reach_bits less_Suc_eq)
  qed (use st q x E in auto)
  then show "reach n T0 q st'" "xb (fst st') r q" "\<And>j. q < j \<Longrightarrow> j < n \<Longrightarrow> \<not> xb (fst st') r j" "E (fst st')"
    by auto
qed

lemma clear_z:
  assumes st: "reach n T0 q st" and q: "q < n" and r: "r < 2 * n" and x: "zb (fst st) r q" and E: "E (fst st)"
    and keep: "\<And>st t. reach n T0 q st \<Longrightarrow> E (fst st) \<Longrightarrow> q < t \<Longrightarrow> t < n \<Longrightarrow> E (fst (add_cx t q st))"
  defines "st' \<equiv> fold (\<lambda>ctrl st. if zb (fst st) r ctrl then add_cx ctrl q st else st) [Suc q..<n] st"
  shows "reach n T0 q st'" "zb (fst st') r q" "\<And>j. q < j \<Longrightarrow> j < n \<Longrightarrow> \<not> zb (fst st') r j" "E (fst st')"
proof -
  let ?I = "\<lambda>i st. reach n T0 q st \<and> zb (fst st) r q \<and> (\<forall>j. q < j \<longrightarrow> j < i \<longrightarrow> \<not> zb (fst st) r j) \<and> E (fst st)"
  have "?I n st'"
    unfolding st'_def
  proof (rule fold_upt_induct [where I = ?I])
    fix i st assume i: "Suc q \<le> i" "i < n" and I: "?I i st"
    then have "reach n T0 q (add_cx i q st)" using q by (intro reach_adds) auto
    with i I q r keep [of st i] show "?I (Suc i) (if zb (fst st) r i then add_cx i q st else st)"
      by (auto simp: reach_bits less_Suc_eq)
  qed (use st q x E in auto)
  then show "reach n T0 q st'" "zb (fst st') r q" "\<And>j. q < j \<Longrightarrow> j < n \<Longrightarrow> \<not> zb (fst st') r j" "E (fst st')"
    by auto
qed

lemma fold_add_cong:
  assumes "reach n T0 q st" "\<And>st i. reach n T0 q st \<Longrightarrow> i \<in> set is \<Longrightarrow> f i st = g i st \<and> reach n T0 q (f i st)"
  shows "fold f is st = fold g is st"
  using assms
proof (induction "is" arbitrary: st)
  case (Cons i "is")
  have *: "f i st = g i st" "reach n T0 q (f i st)" using Cons.prems(2) [OF Cons.prems(1), of i] by auto
  have "fold f is (f i st) = fold g is (f i st)"
    by (rule Cons.IH [OF *(2)], rule Cons.prems(2)) simp_all
  with * show ?case by simp
qed simp

lemma live_loops:
  assumes st: "reach n T0 q st" and q: "q < n"
  shows "fold (\<lambda>t st. if is_x_set (destabilizer (fst st) q) t then add_cx q t st else st) [Suc q..<n] st =
      fold (\<lambda>t st. if xb (fst st) (q + n) t then add_cx q t st else st) [Suc q..<n] st"
    "fold (\<lambda>t st. if is_x_set (stabilizer (fst st) q) t then add_cx q t st else st) [Suc q..<n] st =
      fold (\<lambda>t st. if xb (fst st) q t then add_cx q t st else st) [Suc q..<n] st"
    "fold (\<lambda>c st. if is_z_set (destabilizer (fst st) q) c then add_cx c q st else st) [Suc q..<n] st =
      fold (\<lambda>c st. if zb (fst st) (q + n) c then add_cx c q st else st) [Suc q..<n] st"
    "fold (\<lambda>c st. if is_z_set (stabilizer (fst st) q) c then add_cx c q st else st) [Suc q..<n] st =
      fold (\<lambda>c st. if zb (fst st) q c then add_cx c q st else st) [Suc q..<n] st"
  by (rule fold_add_cong [OF st]; use q in \<open>simp add: reach_rows reach_adds\<close>)+

definition x_row :: "nat \<Rightarrow> nat \<Rightarrow> nat \<Rightarrow> stabilizer_tableau \<Rightarrow> bool" where
  "x_row n q r T \<longleftrightarrow> (\<forall>j < n. xb T r j = (j = q))"

lemma reach_x_row:
  assumes "reach n T0 q st" "q < n" "r = q \<or> r = q + n" "xb (fst st) r q" "\<And>j. q < j \<Longrightarrow> j < n \<Longrightarrow> \<not> xb (fst st) r j"
  shows "x_row n q r (fst st)"
  unfolding x_row_def
proof (intro allI impI)
  fix j assume "j < n"
  with assms reach_low [OF assms(1) _ assms(2,3), of j] show "xb (fst st) r j = (j = q)"
    by (cases j q rule: linorder_cases) auto
qed

lemma off_diag:
  assumes st: "reach n T0 q st" and q: "q < n" and x: "xb (fst st) (q + n) q"
  defines "st' \<equiv> make_destab_x_off_diag_0 q st"
  shows "reach n T0 q st' \<and> x_row n q (q + n) (fst st') \<and> (\<forall>j < n. \<not> zb (fst st') (q + n) j)"
proof -
  let ?r = "q + n"
  define st1 where "st1 = fold (\<lambda>targ st. if xb (fst st) ?r targ then add_cx q targ st else st) [Suc q..<n] st"
  note c = clear_x [OF st q _ x, of "\<lambda>_. True", folded st1_def]
  have r1: "reach n T0 q st1" and x1: "x_row n q ?r (fst st1)"
    using c q by (auto intro: reach_x_row)
  define st2 where "st2 = (if \<not> zb (fst st1) ?r q then add_s q st1 else st1)"
  have r2: "reach n T0 q st2" and x2: "x_row n q ?r (fst st2)" and z2: "zb (fst st2) ?r q"
    using r1 x1 q by (auto simp: st2_def reach_adds reach_bits [OF r1] x_row_def)
  define st3 where "st3 = fold (\<lambda>ctrl st. if zb (fst st) ?r ctrl then add_cx ctrl q st else st) [Suc q..<n] st2"
  have keep: "x_row n q ?r (fst (add_cx t q st))"
    if "reach n T0 q st" "x_row n q ?r (fst st)" "q < t" "t < n" for st t
    using that q by (auto simp: x_row_def reach_bits [OF that(1)])
  note d = clear_z [OF r2 q _ z2, of "x_row n q ?r", OF _ x2 keep, folded st3_def]
  have r3: "reach n T0 q st3" "zb (fst st3) ?r q" "\<And>j. q < j \<Longrightarrow> j < n \<Longrightarrow> \<not> zb (fst st3) ?r j" "x_row n q ?r (fst st3)"
    using d q by auto
  have z3: "zb (fst st3) ?r j = (j = q)" if "j < n" for j
    using r3(2,3) that reach_low [OF r3(1) _ q, of j ?r] by (cases j q rule: linorder_cases) auto
  have unf: "st' = (if list_ex (zb (fst st1) ?r) [q..<n] then add_s q st3 else st1)"
    unfolding st'_def make_destab_x_off_diag_0_def Suc_eq_plus1 [symmetric] reach_rows(1) [OF st] live_loops(1) [OF st q]
      st1_def [symmetric] Let_def reach_rows(4) [OF r1] st2_def [symmetric] live_loops(3) [OF r2 q] st3_def [symmetric] ..
  show ?thesis
  proof (cases "list_ex (zb (fst st1) ?r) [q..<n]")
    case True
    then have "st' = add_s q st3" by (simp add: unf)
    with r3 z3 q show ?thesis by (auto simp: reach_adds reach_bits [OF r3(1)] x_row_def)
  next
    case False
    then have "st' = st1" by (simp add: unf)
    moreover have "\<not> zb (fst st1) ?r j" if "j < n" for j
      using False that reach_low [OF r1 _ q, of j ?r] by (cases "j < q") (auto simp: list_ex_iff)
    ultimately show ?thesis using r1 x1 by auto
  qed
qed

text \<open>With the destabilizer an X up to sign, the stabilizer has a z bit on the qubit.\<close>

definition x_only :: "nat \<Rightarrow> nat \<Rightarrow> stabilizer_tableau \<Rightarrow> bool" where
  "x_only n q T \<longleftrightarrow> x_row n q (q + n) T \<and> (\<forall>j < n. \<not> zb T (q + n) j)"

definition z_only :: "nat \<Rightarrow> nat \<Rightarrow> stabilizer_tableau \<Rightarrow> bool" where
  "z_only n q T \<longleftrightarrow> (\<forall>j < n. zb T (q + n) j = (j = q) \<and> \<not> xb T (q + n) j \<and> (j \<noteq> q \<longrightarrow> \<not> zb T q j))"

lemma stab_z:
  assumes st: "reach n T0 q st" and q: "q < n" and x: "x_only n q (fst st)"
  defines "st' \<equiv> make_stab_z_off_diag_0 q st"
  shows "reach n T0 (Suc q) st'"
proof -
  have "gf2_sum (\<lambda>i. bxor (zb (fst st) q i \<and> xb (fst st) (q + n) i) (xb (fst st) q i \<and> zb (fst st) (q + n) i)) n
      = gf2_sum (\<lambda>i. i = q \<and> zb (fst st) q i) n"
    using x by (intro gf2_sum_cong) (auto simp: x_only_def x_row_def)
  then have z: "zb (fst st) q q" using reach_pair [OF st q] by (simp add: gf2_sum_delta)
  define st1 where "st1 = fold (\<lambda>ctrl st. if zb (fst st) q ctrl then add_cx ctrl q st else st) [Suc q..<n] st"
  have keep: "x_only n q (fst (add_cx t q st))" if "reach n T0 q st" "x_only n q (fst st)" "q < t" "t < n" for st t
    using that q by (auto simp: x_only_def x_row_def reach_bits [OF that(1)])
  note c = clear_z [OF st q _ z, of "x_only n q", OF _ x keep, folded st1_def]
  have r1: "reach n T0 q st1" and z1': "zb (fst st1) q q" "\<And>j. q < j \<Longrightarrow> j < n \<Longrightarrow> \<not> zb (fst st1) q j"
    and x1: "x_only n q (fst st1)" using c q by auto
  have z1: "zb (fst st1) q j = (j = q)" if "j < n" for j
    using z1' that reach_low [OF r1 _ q, of j q] by (cases j q rule: linorder_cases) auto
  define st2 where "st2 = add_h q st1"
  have r2: "reach n T0 q st2" and x2: "xb (fst st2) q q" and o2: "z_only n q (fst st2)"
    using r1 x1 z1 q by (auto simp: st2_def reach_adds reach_bits [OF r1] z_only_def x_only_def x_row_def)
  define st3 where "st3 = fold (\<lambda>targ st. if xb (fst st) q targ then add_cx q targ st else st) [Suc q..<n] st2"
  have keep2: "z_only n q (fst (add_cx q t st))" if "reach n T0 q st" "z_only n q (fst st)" "q < t" "t < n" for st t
    using that q by (auto simp: z_only_def reach_bits [OF that(1)])
  note d = clear_x [OF r2 q _ x2, of "z_only n q", OF _ o2 keep2, folded st3_def]
  have r3: "reach n T0 q st3" and x3': "xb (fst st3) q q" "\<And>j. q < j \<Longrightarrow> j < n \<Longrightarrow> \<not> xb (fst st3) q j"
    and o3: "z_only n q (fst st3)" using d q by auto
  have x3: "x_row n q q (fst st3)" using reach_x_row [OF r3 q _ x3'] by simp
  define st4 where "st4 = (if zb (fst st3) q q then add_s q st3 else st3)"
  have r4: "reach n T0 q st4" and x4: "x_row n q q (fst st4)" and o4: "z_only n q (fst st4)" and z4: "\<not> zb (fst st4) q q"
    using r3 x3 o3 q by (auto simp: st4_def reach_adds reach_bits [OF r3] x_row_def z_only_def)
  have unf: "st' = (if list_ex (xb (fst st1) q) [q..<n] then add_h q st4 else st1)"
    unfolding st'_def make_stab_z_off_diag_0_def Suc_eq_plus1 [symmetric] reach_rows(1) [OF st] live_loops(4) [OF st q]
      st1_def [symmetric] Let_def reach_rows(3) [OF r1] st2_def [symmetric] live_loops(2) [OF r2 q] st3_def [symmetric]
      reach_rows(2) [OF r3] st4_def [symmetric] ..
  show ?thesis
  proof (cases "list_ex (xb (fst st1) q) [q..<n]")
    case True
    have "clean n q (fst (add_h q st4))"
      using q x4 o4 z4 by (auto simp: clean_def reach_bits [OF r4] x_row_def z_only_def)
    with True r4 q show ?thesis by (auto simp: unf reach_def less_Suc_eq linked_adds reach_adds(1) [unfolded reach_def])
  next
    case False
    then have "\<not> xb (fst st1) q j" if "j < n" for j
      using that reach_low [OF r1 _ q, of j q] by (cases "j < q") (auto simp: list_ex_iff)
    then have "clean n q (fst st1)"
      using z1 x1 by (auto simp: clean_def x_only_def x_row_def)
    with False r1 show ?thesis by (auto simp: unf reach_def less_Suc_eq)
  qed
qed

lemma ag_qubit_reach:
  assumes "reach n T0 q st" "q < n"
  shows "reach n T0 (Suc q) (ag_qubit q st)"
proof -
  let ?a = "make_destab_x_main_diag_1 q st"
  let ?b = "make_destab_x_off_diag_0 q ?a"
  have a: "reach n T0 q ?a" "xb (fst ?a) (q + n) q" using main_diag [OF assms] by auto
  have b: "reach n T0 q ?b" "x_only n q (fst ?b)" using off_diag [OF a(1) assms(2) a(2)] by (auto simp: x_only_def)
  show ?thesis unfolding ag_qubit_def by (rule stab_z [OF b(1) assms(2) b(2)])
qed

lemma ag_loop_reach:
  assumes "reach n T0 q st" "q \<le> n"
  shows "\<exists>p. reach n T0 p (fst (ag_loop stop k n q st)) \<and> p \<le> n \<and>
    (p = n \<or> k < snd (ag_loop stop k n q st) \<and> stop (snd (ag_loop stop k n q st) - 1))"
  using assms
proof (induction stop k n q st rule: ag_loop.induct)
  case (1 stop k n q st)
  consider "n \<le> q" | "q < n" "stop k" | "q < n" "\<not> stop k" by linarith
  then show ?case
  proof cases
    case 1
    with "1.prems" show ?thesis by (auto simp: ag_loop.simps [of stop k n n])
  next
    case 2
    with "1.prems" show ?thesis by (auto simp: ag_loop.simps [of stop k n q])
  next
    case 3
    with "1.IH" "1.prems" ag_qubit_reach [OF "1.prems"(1)]
    obtain p where "reach n T0 p (fst (ag_loop stop (k + 1) n (q + 1) (ag_qubit q st)))" "p \<le> n"
      "p = n \<or> k + 1 < snd (ag_loop stop (k + 1) n (q + 1) (ag_qubit q st)) \<and>
         stop (snd (ag_loop stop (k + 1) n (q + 1) (ag_qubit q st)) - 1)" by fastforce
    moreover have "ag_loop stop k n q st = ag_loop stop (k + 1) n (q + 1) (ag_qubit q st)"
      using 3 by (simp add: ag_loop.simps [of stop k n q])
    ultimately show ?thesis by auto
  qed
qed

text \<open>The signs: an X flips the sign of the stabilizer only, a Z that of the destabilizer.\<close>

definition nb :: "stabilizer_tableau \<Rightarrow> nat \<Rightarrow> bool" where
  "nb T r = is_neg (stabs T ! r)"

lemma sign_bits:
  assumes "linked n T0 st" "r < 2 * n" "q < n"
  shows "i < n \<Longrightarrow> zb (fst (add_x q st)) r i = zb (fst st) r i" "i < n \<Longrightarrow> xb (fst (add_x q st)) r i = xb (fst st) r i"
    "nb (fst (add_x q st)) r = bxor (nb (fst st) r) (zb (fst st) r q)"
    "i < n \<Longrightarrow> zb (fst (add_z q st)) r i = zb (fst st) r i" "i < n \<Longrightarrow> xb (fst (add_z q st)) r i = xb (fst st) r i"
    "nb (fst (add_z q st)) r = bxor (nb (fst st) r) (xb (fst st) r q)"
  using assms st_wf_rowD [OF linked_wf [OF assms(1)] assms(2)] st_wf_length [OF linked_wf [OF assms(1)]]
  by (simp_all add: add_x_def add_z_def add_op_def st_derived [OF linked_wf] zb_def xb_def nb_def bit_simps)

lemma reach_sign:
  assumes "reach n T0 n st" "q < n"
  shows "reach n T0 n (add_x q st)" "reach n T0 n (add_z q st)"
  using assms by (auto simp: reach_def clean_def linked_adds sign_bits)

lemma ag_signs_init:
  assumes "reach n T0 n st"
  shows "linked n T0 (ag_signs n st)" "fst (ag_signs n st) = st_init n"
proof -
  let ?I = "\<lambda>i st. reach n T0 n st \<and> (\<forall>j < i. \<not> nb (fst st) j \<and> \<not> nb (fst st) (j + n))"
  have step: "?I (Suc i) (let st1 = (if is_neg (stabilizer (fst st) i) then add_x i st else st)
      in (if is_neg (destabilizer (fst st1) i) then add_z i st1 else st1))"
    if i: "i < n" and I: "?I i st" for i st
  proof -
    have r: "reach n T0 n st" using I by blast
    then have c: "clean n j (fst st)" if "j < n" for j using that by (simp add: reach_def)
    define st1 where "st1 = (if nb (fst st) i then add_x i st else st)"
    have r1: "reach n T0 n st1" using r i by (simp add: st1_def reach_sign)
    have 1: "(\<forall>j < i. \<not> nb (fst st1) j \<and> \<not> nb (fst st1) (j + n)) \<and> \<not> nb (fst st1) i"
      using I i c by (auto simp: st1_def sign_bits [OF reach_linked [OF r]] clean_def)
    have c1: "clean n j (fst st1)" if "j < n" for j using r1 that by (simp add: reach_def)
    define st2 where "st2 = (if nb (fst st1) (i + n) then add_z i st1 else st1)"
    have "reach n T0 n st2" using r1 i by (simp add: st2_def reach_sign)
    moreover have "\<forall>j < Suc i. \<not> nb (fst st2) j \<and> \<not> nb (fst st2) (j + n)"
      using 1 i c1 by (auto simp: st2_def sign_bits [OF reach_linked [OF r1]] clean_def less_Suc_eq)
    moreover have "(let st1 = (if is_neg (stabilizer (fst st) i) then add_x i st else st)
      in (if is_neg (destabilizer (fst st1) i) then add_z i st1 else st1)) = st2"
    proof -
      have n1: "is_neg (stabilizer (fst st) i) = nb (fst st) i"
        "is_neg (destabilizer (fst st1) i) = nb (fst st1) (i + n)"
        by (simp_all add: nb_def row_idx [OF linked_wf [OF reach_linked [OF r]]]
            row_idx [OF linked_wf [OF reach_linked [OF r1]]])
      show ?thesis unfolding Let_def n1(1) st1_def [symmetric] n1(2) st2_def [symmetric] ..
    qed
    ultimately show ?thesis by simp
  qed
  have "?I n (ag_signs n st)"
    unfolding ag_signs_def by (rule fold_upt_induct [where I = ?I]) (use assms step in auto)
  then have r: "reach n T0 n (ag_signs n st)"
    and nb: "\<And>r. r < 2 * n \<Longrightarrow> \<not> nb (fst (ag_signs n st)) r"
  proof -
    assume I: "?I n (ag_signs n st)"
    then show "reach n T0 n (ag_signs n st)" by blast
    fix r assume "r < 2 * n"
    then have "r < n \<or> (\<exists>j < n. r = j + n)" by presburger
    with I show "\<not> nb (fst (ag_signs n st)) r" by auto
  qed
  then show l: "linked n T0 (ag_signs n st)" by simp
  let ?T = "fst (ag_signs n st)"
  show "?T = st_init n"
  proof (rule st_eqI [of n])
    fix r assume r2: "r < 2 * n"
    have c: "clean n j ?T" if "j < n" for j using r that by (simp add: reach_def)
    have rw: "r < n \<or> (\<exists>j < n. r = j + n)" using r2 by presburger
    show "stabs ?T ! r = stabs (st_init n) ! r"
      by (rule pp_eqI)
        (use rw r2 nb [OF r2] c st_wf_rowD [OF linked_wf [OF l] r2] in
          \<open>auto simp: st_init_rows init_rows_def clean_def zb_def xb_def nb_def\<close>)
  qed (use l in auto)
qed

lemma linked_adjoint:
  assumes T: "st_ok n T" and l: "linked n T st"
  shows "trait_apply_string st_trait (adjoint_string (snd st)) (fst st) = T"
  using l st.apply_adjoint_string [of n T "snd st"] T by (auto simp: linked_def)

lemma ag_synthesize_linked:
  fixes k :: nat
  assumes T: "st_ok n T" and mono: "\<And>i. stop i \<Longrightarrow> stop (Suc i)"
  defines "ops \<equiv> ag_synthesize stop k T"
  shows "string_ok n ops" "ops = [] \<or> trait_apply_string st_trait ops (st_init n) = T"
    "(\<And>i. \<not> stop i) \<Longrightarrow> trait_apply_string st_trait ops (st_init n) = T"
proof -
  have r0: "reach n T 0 (T, [])" using T by (simp add: reach_def linked_def)
  obtain st k' where L: "ag_loop stop k n 0 (T, []) = (st, k')" by fastforce
  with ag_loop_reach [OF r0, of stop k] obtain p where p: "reach n T p st" "p \<le> n" "p = n \<or> k < k' \<and> stop (k' - 1)"
    by auto
  have ops: "ops = (if stop k' then [] else adjoint_string (snd (ag_signs n st)))"
    by (simp add: ops_def ag_synthesize_def L st_wf_n [OF st_ok_wf [OF T]])
  have pn: "p = n" if "\<not> stop k'"
    using p(3) mono [of "k' - 1"] that by auto
  have s: "linked n T (ag_signs n st)" "fst (ag_signs n st) = st_init n" if "\<not> stop k'"
    using ag_signs_init p(1) pn [OF that] by auto
  show "string_ok n ops" using s by (auto simp: ops linked_def)
  have main: "trait_apply_string st_trait ops (st_init n) = T" if "\<not> stop k'"
    using linked_adjoint [OF T s(1) [OF that]] s(2) [OF that] that by (simp add: ops)
  then show "ops = [] \<or> trait_apply_string st_trait ops (st_init n) = T" by (auto simp: ops)
  show "(\<And>i. \<not> stop i) \<Longrightarrow> trait_apply_string st_trait ops (st_init n) = T" using main by simp
qed

section \<open>Correctness of the H-optimal strategy\<close>

definition diag_below :: "nat \<Rightarrow> nat \<Rightarrow> stabilizer_tableau \<Rightarrow> bool" where
  "diag_below n m T \<longleftrightarrow> (\<forall>r < m. \<forall>j < n. \<not> xb T r j)"

definition h_count :: "clifford_string \<Rightarrow> nat" where
  "h_count ops = length (filter (\<lambda>x. fst x = COT_h) ops)"

lemma h_count_simps [simp]:
  "h_count [] = 0" "h_count (x # xs) = (if fst x = COT_h then Suc (h_count xs) else h_count xs)"
  "h_count (xs @ ys) = h_count xs + h_count ys"
  by (simp_all add: h_count_def)

lemma h_count_adjoint [simp]: "h_count (adjoint_string xs) = h_count xs"
proof -
  have "fst (adjoint_op x) = COT_h \<longleftrightarrow> fst x = COT_h" for x
    by (cases "fst x") (auto simp: adjoint_op_def)
  then show ?thesis by (induction xs) (simp_all add: adjoint_string_def h_count_def filter_map comp_def)
qed

lemma h_count_adds [simp]:
  "h_count (snd (add_h q st)) = Suc (h_count (snd st))" "h_count (snd (add_s q st)) = h_count (snd st)"
  "h_count (snd (add_x q st)) = h_count (snd st)" "h_count (snd (add_z q st)) = h_count (snd st)"
  "h_count (snd (add_cx c t st)) = h_count (snd st)"
  by (simp_all add: add_h_def add_s_def add_x_def add_z_def add_cx_def add_op_def)

text \<open>The state of the diagonalisation: row \<open>i\<close> has x bits exactly on \<open>Q\<close>.\<close>

definition hrow :: "nat \<Rightarrow> stabilizer_tableau \<Rightarrow> nat \<Rightarrow> nat \<Rightarrow> nat set \<Rightarrow> synth_state \<Rightarrow> bool" where
  "hrow n T0 i c Q st \<longleftrightarrow> linked n T0 st \<and> diag_below n i (fst st) \<and> h_count (snd st) = c \<and>
     (\<forall>j < n. xb (fst st) i j = (j \<in> Q))"

lemma hrow_cx:
  assumes "hrow n T0 i c Q st" "i < n" "p \<in> Q" "t \<in> Q" "p \<noteq> t" "Q \<subseteq> {..<n}"
  shows "hrow n T0 i c (Q - {t}) (add_cx p t st)"
proof -
  have "p < n" "t < n" and l: "linked n T0 st" using assms by (auto simp: hrow_def)
  with assms show ?thesis by (auto simp: hrow_def linked_adds add_bits [OF l] diag_below_def)
qed

lemma star_loop:
  assumes "hrow n T0 i c (insert p (set ts)) st" "i < n" "distinct (p # ts)" "insert p (set ts) \<subseteq> {..<n}"
  shows "hrow n T0 i c {p} (fold (\<lambda>t. add_cx p t) ts st)"
  using assms
proof (induction ts arbitrary: st)
  case (Cons t ts)
  then have "hrow n T0 i c (insert p (set (t # ts)) - {t}) (add_cx p t st)" by (intro hrow_cx) auto
  moreover have "insert p (set (t # ts)) - {t} = insert p (set ts)" using Cons.prems(3) by auto
  ultimately show ?case using Cons by simp
qed simp

lemma staircase_loop:
  assumes "hrow n T0 i c (set L) st" "i < n" "distinct L" "set L \<subseteq> {..<n}" "L \<noteq> []"
  shows "hrow n T0 i c {last L} (fold (\<lambda>(t, c). add_cx c t) (zip L (tl L)) st)"
  using assms
proof (induction L arbitrary: st rule: induct_list012)
  case (3 x y zs)
  then have "hrow n T0 i c (set (x # y # zs) - {x}) (add_cx y x st)" by (intro hrow_cx) auto
  moreover have "set (x # y # zs) - {x} = set (y # zs)" using "3.prems"(3) by auto
  ultimately show ?case using 3 by simp
qed simp_all

lemma hopt_row_diag:
  fixes mode :: hopt_mode
  assumes st: "linked n T0 st" and d: "diag_below n i (fst st)" and i: "i < n"
  defines "st' \<equiv> hopt_row mode i st"
  shows "linked n T0 st' \<and> diag_below n (Suc i) (fst st') \<and> h_count (snd st') \<le> Suc (h_count (snd st))"
proof -
  let ?c = "h_count (snd st)"
  define qs where "qs = get_qubits_with_stabilizer_set (fst st) i"
  have qs: "qs = filter (xb (fst st) i) [0..<n]"
    by (simp add: qs_def get_qubits_with_stabilizer_set_def row_bits [OF linked_wf [OF st]] st_wf_n [OF linked_wf [OF st]])
  show ?thesis
  proof (cases "qs = []")
    case True
    then have "\<forall>j < n. \<not> xb (fst st) i j" by (auto simp: qs filter_empty_conv)
    with True st d show ?thesis
      by (auto simp: st'_def hopt_row_def Let_def qs_def [symmetric] diag_below_def less_Suc_eq)
  next
    case False
    then obtain p ts where p: "qs = p # ts" by (cases qs) auto
    have set: "set qs = {j. j < n \<and> xb (fst st) i j}" by (auto simp: qs)
    have h0: "hrow n T0 i ?c (set qs) st" using st d by (auto simp: hrow_def set)
    have dist: "distinct qs" by (simp add: qs)
    have pn: "p < n" using set p by auto
    define st1 where "st1 = (case mode of Star \<Rightarrow> fold (\<lambda>targ. add_cx (hd qs) targ) (drop 1 qs) st
        | Staircase \<Rightarrow> fold (\<lambda>(t, c). add_cx c t) (zip (rev qs) (tl (rev qs))) st)"
    have "hrow n T0 i ?c {p} st1"
    proof (cases mode)
      case Star
      then show ?thesis
        using star_loop [of n T0 i ?c p ts st] h0 i dist p set by (auto simp: st1_def)
    next
      case Staircase
      have "last (rev qs) = p" by (simp add: p)
      with Staircase show ?thesis
        using staircase_loop [of n T0 i ?c "rev qs" st] h0 i dist set False by (auto simp: st1_def)
    qed
    then have l1: "linked n T0 st1" and d1: "diag_below n i (fst st1)" and c1: "h_count (snd st1) = ?c"
      and x1: "\<And>j. j < n \<Longrightarrow> xb (fst st1) i j = (j = p)" by (auto simp: hrow_def)
    have zp: "\<not> zb (fst st1) r p" if "r < i" for r
    proof -
      have "gf2_sum (\<lambda>k. bxor (zb (fst st1) r k \<and> xb (fst st1) i k) (xb (fst st1) r k \<and> zb (fst st1) i k)) n
          = gf2_sum (\<lambda>k. k = p \<and> zb (fst st1) r k) n"
        using d1 x1 that by (intro gf2_sum_cong) (auto simp: diag_below_def)
      with symp_rows [OF linked_ok [OF l1], of r i] that i pn show ?thesis
        by (simp add: gf2_sum_delta paired_def)
    qed
    define st2 where "st2 = (if zb (fst st1) i p then add_s p st1 else st1)"
    have l2: "linked n T0 st2" using l1 pn by (simp add: st2_def linked_adds)
    have st': "st' = add_h p st2"
    proof -
      have "st' = add_h (hd qs) (if zb (fst st1) i (hd qs) then add_s (hd qs) st1 else st1)"
        unfolding st'_def hopt_row_def Let_def qs_def [symmetric] st1_def [symmetric] row_bits(1) [OF linked_wf [OF l1]]
        using False by (simp only: if_False)
      then show ?thesis by (simp add: st2_def p)
    qed
    have "r < 2 * n \<Longrightarrow> j < n \<Longrightarrow> xb (fst st2) r j = xb (fst st1) r j"
      "r < 2 * n \<Longrightarrow> zb (fst st2) r p = bxor (zb (fst st1) r p) (zb (fst st1) i p \<and> xb (fst st1) r p)" for r j
      using pn by (auto simp: st2_def add_bits [OF l1])
    then have "diag_below n (Suc i) (fst st')"
      using d1 x1 zp pn i by (auto simp: st' diag_below_def less_Suc_eq add_bits [OF l2])
    moreover have "h_count (snd st') = Suc ?c" by (simp add: st' st2_def c1)
    ultimately show ?thesis using l2 pn by (simp add: st' linked_adds)
  qed
qed

lemma hopt_loop_diag:
  assumes "linked n T0 st" "diag_below n i (fst st)" "i \<le> n" "h_count (snd st) \<le> i"
  shows "linked n T0 (fst (hopt_loop stop mode k n i st)) \<and> h_count (snd (fst (hopt_loop stop mode k n i st))) \<le> n \<and>
    (diag_below n n (fst (fst (hopt_loop stop mode k n i st))) \<or>
      k < snd (hopt_loop stop mode k n i st) \<and> stop (snd (hopt_loop stop mode k n i st) - 1))"
  using assms
proof (induction stop mode k n i st rule: hopt_loop.induct)
  case (1 stop mode k n i st)
  consider "n \<le> i" | "i < n" "stop k" | "i < n" "\<not> stop k" by linarith
  then show ?case
  proof cases
    case 1
    with "1.prems" show ?thesis by (auto simp: hopt_loop.simps [of stop mode k n n])
  next
    case 2
    with "1.prems" show ?thesis by (auto simp: hopt_loop.simps [of stop mode k n i])
  next
    case 3
    have e: "hopt_loop stop mode k n i st = hopt_loop stop mode (k + 1) n (i + 1) (hopt_row mode i st)"
      using 3 by (simp add: hopt_loop.simps [of stop mode k n i])
    have "linked n T0 (hopt_row mode i st) \<and> diag_below n (i + 1) (fst (hopt_row mode i st)) \<and>
        h_count (snd (hopt_row mode i st)) \<le> i + 1"
      using hopt_row_diag [OF "1.prems"(1,2) 3(1), of mode] "1.prems"(4) by auto
    with "1.IH" 3 show ?thesis unfolding e by fastforce
  qed
qed

text \<open>On a diagonal tableau the Aaronson-Gottesman strategy uses no H: \<open>dg\<close> is preserved.\<close>

definition dg :: "nat \<Rightarrow> stabilizer_tableau \<Rightarrow> nat \<Rightarrow> synth_state \<Rightarrow> bool" where
  "dg n T0 q st \<longleftrightarrow> reach n T0 q st \<and> diag_below n n (fst st) \<and> h_count (snd st) = 0"

lemma dg_adds:
  assumes "dg n T0 q st"
  shows "q \<le> p \<Longrightarrow> p < n \<Longrightarrow> dg n T0 q (add_s p st)"
    "q \<le> c \<Longrightarrow> q \<le> t \<Longrightarrow> c < n \<Longrightarrow> t < n \<Longrightarrow> c \<noteq> t \<Longrightarrow> dg n T0 q (add_cx c t st)"
proof -
  have r: "reach n T0 q st" using assms by (simp add: dg_def)
  show "q \<le> p \<Longrightarrow> p < n \<Longrightarrow> dg n T0 q (add_s p st)"
    "q \<le> c \<Longrightarrow> q \<le> t \<Longrightarrow> c < n \<Longrightarrow> t < n \<Longrightarrow> c \<noteq> t \<Longrightarrow> dg n T0 q (add_cx c t st)"
    using assms by (auto simp: dg_def reach_adds diag_below_def reach_bits [OF r])
qed

lemma dg_loops:
  assumes "dg n T0 q st" "q < n"
  shows "dg n T0 q (fold (\<lambda>t st. if P t st then add_cx q t st else st) [Suc q..<n] st)"
    "dg n T0 q (fold (\<lambda>t st. if P t st then add_cx t q st else st) [Suc q..<n] st)"
  by (rule fold_invariant_set; use assms in \<open>auto intro!: dg_adds\<close>)+

lemma dg_reach [simp]: "dg n T0 q st \<Longrightarrow> reach n T0 q st"
  by (simp add: dg_def)

lemma dg_main_diag:
  assumes st: "dg n T0 q st" and q: "q < n"
  shows "dg n T0 q (make_destab_x_main_diag_1 q st)"
proof (cases "xb (fst st) (q + n) q")
  case True
  with st show ?thesis by (simp add: make_destab_x_main_diag_1_def Let_def reach_rows [OF dg_reach])
next
  case x: False
  let ?T = "fst st" and ?r = "q + n"
  let ?c = "find_index (xb ?T ?r) (q + 1) n"
  note r = dg_reach [OF st]
  have "?c < n"
  proof (rule ccontr)
    assume "\<not> ?c < n"
    then have "?c = n" using find_index_le [of _ _ n] by (meson le_neq_implies_less)
    then have "\<not> xb ?T ?r i" if "i < n" for i
      using that x reach_low [OF r _ q, of i ?r] find_index_none [of _ "q + 1" n i] by (cases i q rule: linorder_cases) auto
    then show False using reach_pair [OF r q] st q by (auto simp: gf2_sum_all_zero dg_def diag_below_def)
  qed
  moreover have "q < ?c" using find_index_found [OF \<open>?c < n\<close>] by simp
  ultimately show ?thesis
    using st q x by (simp add: make_destab_x_main_diag_1_def Let_def reach_rows [OF r] dg_adds)
qed

lemma dg_off_diag:
  assumes st: "dg n T0 q st" and q: "q < n"
  shows "dg n T0 q (make_destab_x_off_diag_0 q st)"
  unfolding make_destab_x_off_diag_0_def Let_def reach_rows(1) [OF dg_reach [OF st]]
  using q by (auto intro!: dg_adds dg_loops st)

lemma dg_stab_z:
  assumes st: "dg n T0 q st" and q: "q < n"
  shows "dg n T0 q (make_stab_z_off_diag_0 q st)"
proof -
  define st1 where "st1 = fold (\<lambda>ctrl st. if is_z_set (stabilizer (fst st) q) ctrl then add_cx ctrl q st else st) [Suc q..<n] st"
  have 1: "dg n T0 q st1" unfolding st1_def by (rule dg_loops [OF st q])
  then have "\<not> list_ex (is_x_set (stabilizer (fst st1) q)) [q..<n]"
    using q by (auto simp: reach_rows [OF dg_reach [OF 1]] list_ex_iff dg_def diag_below_def)
  with 1 show ?thesis
    by (simp add: make_stab_z_off_diag_0_def Let_def reach_rows(1) [OF dg_reach [OF st]] st1_def)
qed

lemma dg_qubit:
  assumes "dg n T0 q st" "q < n"
  shows "dg n T0 (Suc q) (ag_qubit q st)"
  using dg_stab_z [OF dg_off_diag [OF dg_main_diag [OF assms] assms(2)] assms(2)] ag_qubit_reach [OF dg_reach assms(2)] assms(1)
  by (simp add: dg_def ag_qubit_def)

lemma dg_loop:
  assumes "dg n T0 q st" "q \<le> n"
  shows "h_count (snd (fst (ag_loop stop k n q st))) = 0"
  using assms
proof (induction stop k n q st rule: ag_loop.induct)
  case (1 stop k n q st)
  then show ?case
    using dg_qubit [of n T0 q st] by (auto simp: ag_loop.simps [of stop k n q] dg_def)
qed

lemma h_count_signs: "h_count (snd (ag_signs n st)) = h_count (snd st)"
  unfolding ag_signs_def by (rule fold_invariant_set) (auto simp: Let_def)

lemma ag_synthesize_no_h:
  assumes "st_ok n T" "diag_below n n T"
  shows "h_count (ag_synthesize stop k T) = 0"
proof -
  have "dg n T 0 (T, [])" using assms by (simp add: dg_def reach_def linked_def)
  then show ?thesis
    using assms(1) dg_loop [of n T 0 "(T, [])" stop k]
    by (auto simp: ag_synthesize_def Let_def h_count_signs st_wf_n [OF st_ok_wf [OF assms(1)]] split: prod.split)
qed

lemma hopt_synthesize_linked:
  fixes k :: nat and mode :: hopt_mode
  assumes T: "st_ok n T" and mono: "\<And>i. stop i \<Longrightarrow> stop (Suc i)"
  defines "ops \<equiv> hopt_synthesize stop mode k T"
  shows "string_ok n ops" "h_count ops \<le> n"
    "(\<And>i. \<not> stop i) \<Longrightarrow> trait_apply_string st_trait ops (st_init n) = T"
    "ops = [] \<or> (\<exists>j. stop j) \<or> trait_apply_string st_trait ops (st_init n) = T"
proof -
  have l0: "linked n T (T, [])" using T by (simp add: linked_def)
  obtain T' dops k' where L: "hopt_loop stop mode k n 0 (T, []) = ((T', dops), k')" by (metis surj_pair)
  with hopt_loop_diag [OF l0, of 0 stop mode k]
  have l: "linked n T (T', dops)" and h: "h_count dops \<le> n" and d: "diag_below n n T' \<or> k < k' \<and> stop (k' - 1)"
    by (auto simp: diag_below_def)
  have ops: "ops = (if stop k' then [] else ag_synthesize stop (k' + 1) T' @ adjoint_string dops)"
    by (simp add: ops_def hopt_synthesize_def L st_wf_n [OF st_ok_wf [OF T]])
  have T': "st_ok n T'" and ok: "string_ok n dops" using l by (auto simp: linked_def)
  have ag: "string_ok n (ag_synthesize stop (k' + 1) T')"
    by (rule ag_synthesize_linked(1) [OF T']) (rule mono)
  show "string_ok n ops" using ag ok by (simp add: ops)
  have "diag_below n n T'" if "\<not> stop k'" using d mono [of "k' - 1"] that by auto
  then show "h_count ops \<le> n" using ag_synthesize_no_h [OF T'] h by (simp add: ops)
  have main: "trait_apply_string st_trait ops (st_init n) = T" if "\<And>i. \<not> stop i"
    using linked_adjoint [OF T l] ag_synthesize_linked(3) [OF T', of stop "k' + 1"] that by (simp add: ops)
  then show "(\<And>i. \<not> stop i) \<Longrightarrow> trait_apply_string st_trait ops (st_init n) = T" .
  show "ops = [] \<or> (\<exists>j. stop j) \<or> trait_apply_string st_trait ops (st_init n) = T" using main by blast
qed

text \<open>The assertion in the code: after the diagonalisation, no H is left to synthesize.\<close>

lemma hopt_assertion:
  assumes T: "st_ok n T" and L: "hopt_loop stop mode k n 0 (T, []) = ((T', dops), k')"
    and s: "\<And>i. stop i \<Longrightarrow> stop (Suc i)" "\<not> stop k'"
  shows "h_count (ag_synthesize stop (k' + 1) T') = 0"
proof -
  have l0: "linked n T (T, [])" using T by (simp add: linked_def)
  with hopt_loop_diag [OF l0, of 0 stop mode k] L s(1) [of "k' - 1"] s(2)
  have "linked n T (T', dops)" "diag_below n n T'" by (auto simp: diag_below_def)
  then show ?thesis by (intro ag_synthesize_no_h) (auto simp: linked_def)
qed

section \<open>The adjoint of a tableau\<close>

lemma st_adjoint_props:
  assumes T: "st_ok n T" and stop: "\<And>i. \<not> stop i"
  shows "st_ok n (st_adjoint stop T)"
    "string_ok n xs \<Longrightarrow> trait_apply_string st_trait xs (st_init n) = T \<Longrightarrow>
      st_adjoint stop T = trait_apply_string st_trait (adjoint_string xs) (st_init n)"
proof -
  define ops where "ops = extract_clifford_operators stop T"
  have ops: "string_ok n ops" "trait_apply_string st_trait ops (st_init n) = T"
    using hopt_synthesize_linked [OF T, of stop Star 0] stop by (auto simp: ops_def extract_clifford_operators_def)
  have adj: "st_adjoint stop T = trait_apply_string st_trait (adjoint_string ops) (st_init n)"
    by (simp add: st_adjoint_def ops_def st_wf_n [OF st_ok_wf [OF T]])
  show "st_ok n (st_adjoint stop T)"
    unfolding adj using ops(1) by (intro st_apply_string_ok st_init_ok) simp
  assume xs: "string_ok n xs" "trait_apply_string st_trait xs (st_init n) = T"
  let ?ax = "adjoint_string xs" and ?ao = "adjoint_string ops"
  have "trait_apply_string st_trait (?ao @ xs) (st_init n) = st_prepend_string (rev ?ao) T"
    using st_prepend_string_circuit [of n "rev ?ao" xs] ops xs by simp
  also have "\<dots> = trait_apply_string st_trait (?ao @ ops) (st_init n)"
    using st_prepend_string_circuit [of n "rev ?ao" ops] ops by simp
  also have "\<dots> = st_init n"
    using st.apply_string_adjoint [of n "st_init n" ops] ops by simp
  finally have "trait_apply_string st_trait xs (trait_apply_string st_trait ?ao (st_init n)) = st_init n" by simp
  then have "trait_apply_string st_trait ?ax (st_init n) =
      trait_apply_string st_trait ?ax (trait_apply_string st_trait xs (trait_apply_string st_trait ?ao (st_init n)))"
    by simp
  also have "\<dots> = trait_apply_string st_trait ?ao (st_init n)"
    using xs ops by (intro st.apply_adjoint_string) (auto intro!: st.apply_string_ok)
  finally show "st_adjoint stop T = trait_apply_string st_trait ?ax (st_init n)" by (simp add: adj)
qed

lemma st_adjoint_adjoint:
  assumes T: "st_ok n T" and stop: "\<And>i. \<not> stop i"
  shows "st_adjoint stop (st_adjoint stop T) = T"
proof -
  define ops where "ops = extract_clifford_operators stop T"
  have ops: "string_ok n ops" "trait_apply_string st_trait ops (st_init n) = T"
    using hopt_synthesize_linked [OF T, of stop Star 0] stop by (auto simp: ops_def extract_clifford_operators_def)
  have adj: "trait_apply_string st_trait (adjoint_string ops) (st_init n) = st_adjoint stop T"
    by (simp add: st_adjoint_def ops_def st_wf_n [OF st_ok_wf [OF T]])
  show ?thesis
    using st_adjoint_props(2) [OF st_adjoint_props(1) [OF T stop] stop _ adj] ops by simp
qed

end
