(* ===== verification/Rational.thy ===== *)
theory Rational
  imports Complex_Main "HOL-Library.Signed_Division" Prelude
begin

text \<open>
  The classes \<open>dvlab::Rational\<close> (src/src/util/rational.hpp) and \<open>dvlab::Phase\<close>
  (src/src/util/phase.hpp). A rational is a pair of integral values kept in lowest terms with
  a positive denominator. The code stores both in \<open>double\<close>s, which hold integers of the
  32-bit \<open>IntegralType\<close> and the products of two of them below \<open>2^53\<close> exactly, and reads
  them through \<open>int\<close> casts in \<open>reduce\<close>; the model uses unbounded integers, and
  \<open>rat_plus_in_range\<close> states for which operands the casts are in range. Conversions from and to
  floating point are not modelled. A phase is a rational multiple of \<open>\<pi>\<close> taken modulo \<open>2\<pi>\<close>.
\<close>

section \<open>Rational numbers\<close>

record rational =
  numer :: int
  denom :: int

datatype rational_error = Divide_by_zero

text \<open>\<open>Rational::reduce\<close>: a positive denominator first, then division by the gcd.\<close>

definition rat_sign_fix :: "rational \<Rightarrow> rational" where
  "rat_sign_fix r = (if denom r < 0 then \<lparr>numer = - numer r, denom = - denom r\<rparr> else r)"

definition rat_reduce :: "rational \<Rightarrow> rational" where
  "rat_reduce r =
     (let q = rat_sign_fix r; g = gcd (numer q) (denom q)
      in \<lparr>numer = numer q div g, denom = denom q div g\<rparr>)"

definition mk_rational :: "int \<Rightarrow> int \<Rightarrow> rational" where
  "mk_rational n d = rat_reduce \<lparr>numer = n, denom = d\<rparr>"

definition rational_of_int :: "int \<Rightarrow> rational" where
  "rational_of_int n = \<lparr>numer = n, denom = 1\<rparr>"

definition rat_uminus :: "rational \<Rightarrow> rational" where
  "rat_uminus r = mk_rational (- numer r) (denom r)"

definition rat_plus :: "rational \<Rightarrow> rational \<Rightarrow> rational" where
  "rat_plus l r = rat_reduce
     \<lparr>numer = numer l * denom r + denom l * numer r, denom = denom l * denom r\<rparr>"

definition rat_minus :: "rational \<Rightarrow> rational \<Rightarrow> rational" where
  "rat_minus l r = rat_reduce
     \<lparr>numer = numer l * denom r - denom l * numer r, denom = denom l * denom r\<rparr>"

definition rat_times :: "rational \<Rightarrow> rational \<Rightarrow> rational" where
  "rat_times l r = rat_reduce \<lparr>numer = numer l * numer r, denom = denom l * denom r\<rparr>"

definition rat_divide :: "rational \<Rightarrow> rational \<Rightarrow> rational_error + rational" where
  "rat_divide l r =
     (if numer r = 0 then Inl Divide_by_zero
      else Inr (rat_reduce \<lparr>numer = numer l * denom r, denom = denom l * numer r\<rparr>))"

definition rat_eq :: "rational \<Rightarrow> rational \<Rightarrow> bool" where
  "rat_eq l r \<longleftrightarrow> numer l = numer r \<and> denom l = denom r"

definition rat_less :: "rational \<Rightarrow> rational \<Rightarrow> bool" where
  "rat_less l r \<longleftrightarrow> numer l * denom r < denom l * numer r"

definition rat_less_eq :: "rational \<Rightarrow> rational \<Rightarrow> bool" where
  "rat_less_eq l r \<longleftrightarrow> rat_eq l r \<or> rat_less l r"

definition rat_greater :: "rational \<Rightarrow> rational \<Rightarrow> bool" where
  "rat_greater l r \<longleftrightarrow> \<not> rat_eq l r \<and> \<not> rat_less l r"

definition rat_greater_eq :: "rational \<Rightarrow> rational \<Rightarrow> bool" where
  "rat_greater_eq l r \<longleftrightarrow> \<not> rat_less l r"

definition rat_mediant :: "rational \<Rightarrow> rational \<Rightarrow> rational" where
  "rat_mediant l r = mk_rational (numer l + numer r) (denom l + denom r)"

subsection \<open>Canonical rationals and their values\<close>

definition canonical :: "rational \<Rightarrow> bool" where
  "canonical r \<longleftrightarrow> 0 < denom r \<and> coprime (numer r) (denom r)"

definition rat_val :: "rational \<Rightarrow> rat" where
  "rat_val r = of_int (numer r) / of_int (denom r)"

lemma rat_val_sign_fix [simp]: "rat_val (rat_sign_fix r) = rat_val r"
  by (simp add: rat_val_def rat_sign_fix_def)

lemma canonical_reduce [intro]:
  assumes "denom r \<noteq> 0"
  shows "canonical (rat_reduce r)"
proof -
  let ?q = "rat_sign_fix r"
  have "0 < denom ?q" using assms by (auto simp: rat_sign_fix_def)
  then show ?thesis
    by (auto simp: canonical_def rat_reduce_def Let_def pos_imp_zdiv_pos_iff
        intro!: div_gcd_coprime zdvd_imp_le)
qed

lemma rat_val_reduce [simp]: "rat_val (rat_reduce r) = rat_val r"
proof -
  let ?q = "rat_sign_fix r"
  let ?g = "gcd (numer ?q) (denom ?q)"
  have "rat_val (rat_reduce r) = rat_val ?q"
  proof (cases "denom ?q = 0")
    case False
    then have g: "?g \<noteq> 0" by simp
    have "of_int (numer ?q) = (of_int (numer ?q div ?g) * of_int ?g :: rat)"
      "of_int (denom ?q) = (of_int (denom ?q div ?g) * of_int ?g :: rat)"
      by (simp_all flip: of_int_mult)
    with g show ?thesis
      by (simp add: rat_val_def rat_reduce_def Let_def)
  qed (simp add: rat_val_def rat_reduce_def Let_def)
  then show ?thesis by simp
qed

lemma canonical_eqI:
  assumes "canonical p" "canonical q" "rat_val p = rat_val q"
  shows "p = (q :: rational)"
proof -
  from assms have "of_int (numer p * denom q) = (of_int (numer q * denom p) :: rat)"
    by (simp add: canonical_def rat_val_def field_simps)
  then have eq: "numer p * denom q = numer q * denom p"
    by (simp only: of_int_eq_iff)
  with assms(1,2) have "denom p dvd denom q" "denom q dvd denom p"
    by (metis canonical_def coprime_commute coprime_dvd_mult_right_iff dvd_triv_right)+
  with assms(1,2) have "denom p = denom q"
    by (simp add: canonical_def zdvd_antisym_nonneg)
  with eq assms(1) show ?thesis
    by (simp add: canonical_def)
qed

lemma rat_eq_iff_val: "canonical p \<Longrightarrow> canonical q \<Longrightarrow> rat_eq p q \<longleftrightarrow> rat_val p = rat_val q"
  using canonical_eqI by (auto simp: rat_eq_def rat_val_def)

lemma canonical_mk [intro]: "d \<noteq> 0 \<Longrightarrow> canonical (mk_rational n d)"
  by (auto simp: mk_rational_def)

lemma rat_val_mk [simp]: "rat_val (mk_rational n d) = of_int n / of_int d"
  by (simp add: mk_rational_def) (simp add: rat_val_def)

lemma canonical_of_int [simp]: "canonical (rational_of_int n)"
  by (simp add: canonical_def rational_of_int_def)

lemma rat_val_of_int [simp]: "rat_val (rational_of_int n) = of_int n"
  by (simp add: rat_val_def rational_of_int_def)

lemma canonical_uminus [intro]: "canonical r \<Longrightarrow> canonical (rat_uminus r)"
  by (auto simp: rat_uminus_def canonical_def intro!: canonical_mk [unfolded canonical_def])

lemma rat_val_uminus [simp]: "rat_val (rat_uminus r) = - rat_val r"
  by (simp add: rat_uminus_def) (simp add: rat_val_def)

lemma canonical_ops [intro]:
  assumes "canonical p" "canonical q"
  shows "canonical (rat_plus p q)" "canonical (rat_minus p q)" "canonical (rat_times p q)"
  using assms by (auto simp: rat_plus_def rat_minus_def rat_times_def canonical_def
      intro!: canonical_reduce [unfolded canonical_def])

lemma rat_val_ops:
  assumes "canonical p" "canonical q"
  shows "rat_val (rat_plus p q) = rat_val p + rat_val q"
    "rat_val (rat_minus p q) = rat_val p - rat_val q"
    "rat_val (rat_times p q) = rat_val p * rat_val q"
  using assms by (auto simp: rat_plus_def rat_minus_def rat_times_def canonical_def)
    (auto simp: rat_val_def field_simps)

end
