(* ===== verification/Phase.thy ===== *)
theory Phase
  imports Rational
begin

text \<open>
  The class \<open>dvlab::Phase\<close> (src/src/util/phase.hpp, phase.cpp): a rational multiple of \<open>\<pi>\<close>,
  normalised after every operation. \<open>phase_ok\<close> is the class invariant, \<open>phase_val\<close> the value
  in units of \<open>\<pi>\<close>, and \<open>mod2\<close> congruence modulo \<open>2\<pi>\<close>. The parser \<open>str_to_phase\<close> goes through
  floating point and is not modelled.
\<close>

record phase =
  phase_rational :: rational

text \<open>The lambda \<open>floor\<close> of \<open>normalize\<close>, with C++ truncating division.\<close>

definition phase_floor :: "rational \<Rightarrow> int" where
  "phase_floor q = (numer q - (if 0 \<le> numer q then 0 else denom q)) sdiv denom q"

definition phase_normalize :: "rational \<Rightarrow> rational" where
  "phase_normalize r =
     (let half = projr (rat_divide r (rational_of_int 2));
          r' = rat_minus r (rational_of_int (phase_floor half * 2))
      in if rat_greater r' (rational_of_int 1) then rat_minus r' (rational_of_int 2) else r')"

definition phase_of_rational :: "rational \<Rightarrow> phase" where
  "phase_of_rational r = \<lparr>phase_rational = phase_normalize r\<rparr>"

definition phase_zero :: phase where
  "phase_zero = \<lparr>phase_rational = mk_rational 0 1\<rparr>"

definition phase_of_int :: "int \<Rightarrow> phase" where
  "phase_of_int n = phase_of_rational (mk_rational n 1)"

definition mk_phase :: "int \<Rightarrow> int \<Rightarrow> phase" where
  "mk_phase n d = phase_of_rational (mk_rational n d)"

definition phase_numerator :: "phase \<Rightarrow> int" where
  "phase_numerator p = numer (phase_rational p)"

definition phase_denominator :: "phase \<Rightarrow> int" where
  "phase_denominator p = denom (phase_rational p)"

definition phase_uminus :: "phase \<Rightarrow> phase" where
  "phase_uminus p = mk_phase (- phase_numerator p) (phase_denominator p)"

definition phase_plus :: "phase \<Rightarrow> phase \<Rightarrow> phase" where
  "phase_plus p q = phase_of_rational (rat_plus (phase_rational p) (phase_rational q))"

definition phase_minus :: "phase \<Rightarrow> phase \<Rightarrow> phase" where
  "phase_minus p q = phase_of_rational (rat_minus (phase_rational p) (phase_rational q))"

definition phase_times :: "phase \<Rightarrow> rational \<Rightarrow> phase" where
  "phase_times p c = phase_of_rational (rat_times (phase_rational p) c)"

definition phase_divide :: "phase \<Rightarrow> rational \<Rightarrow> rational_error + phase" where
  "phase_divide p c =
     (case rat_divide (phase_rational p) c of
        Inl e \<Rightarrow> Inl e
      | Inr r \<Rightarrow> Inr (phase_of_rational r))"

definition phase_ratio :: "phase \<Rightarrow> phase \<Rightarrow> rational_error + rational" where
  "phase_ratio p q = rat_divide (phase_rational p) (phase_rational q)"

definition phase_eq :: "phase \<Rightarrow> phase \<Rightarrow> bool" where
  "phase_eq p q \<longleftrightarrow> rat_eq (phase_rational p) (phase_rational q)"

text \<open>\<open>*= -1\<close>, the only multiplication the tableau code performs.\<close>

definition phase_negate :: "phase \<Rightarrow> phase" where
  "phase_negate p = phase_times p (rational_of_int (- 1))"

subsection \<open>Printing\<close>

definition digit_char :: "nat \<Rightarrow> char" where
  "digit_char d = char_of (48 + d)"

fun string_of_nat :: "nat \<Rightarrow> string" where
  "string_of_nat n =
     (if n < 10 then [digit_char n] else string_of_nat (n div 10) @ [digit_char (n mod 10)])"

declare string_of_nat.simps [simp del]

text \<open>\<open>std::to_string(int)\<close>.\<close>

definition string_of_int :: "int \<Rightarrow> string" where
  "string_of_int i = (if i < 0 then CHR ''-'' # string_of_nat (nat (- i)) else string_of_nat (nat i))"

definition get_ascii_string :: "phase \<Rightarrow> string" where
  "get_ascii_string p =
     (if phase_numerator p \<noteq> 1 then string_of_int (phase_numerator p) @ ''*'' else [])
     @ ''pi''
     @ (if phase_denominator p \<noteq> 1 then ''/'' @ string_of_int (phase_denominator p) else [])"

text \<open>The letter \<open>\<pi>\<close> is written as its two UTF-8 bytes.\<close>

definition pi_bytes :: string where
  "pi_bytes = [CHR 0xCF, CHR 0x80]"

definition get_print_string :: "phase \<Rightarrow> string" where
  "get_print_string p =
     (if phase_numerator p = 1 then []
      else if phase_numerator p = - 1 then ''-''
      else string_of_int (phase_numerator p))
     @ (if phase_numerator p \<noteq> 0 then pi_bytes else [])
     @ (if phase_denominator p \<noteq> 1 then ''/'' @ string_of_int (phase_denominator p) else [])"

section \<open>The value of a phase\<close>

definition phase_val :: "phase \<Rightarrow> rat" where
  "phase_val p = rat_val (phase_rational p)"

definition phase_ok :: "phase \<Rightarrow> bool" where
  "phase_ok p \<longleftrightarrow> canonical (phase_rational p) \<and> - 1 < phase_val p \<and> phase_val p \<le> 1"

definition mod2 :: "rat \<Rightarrow> rat \<Rightarrow> bool" where
  "mod2 x y \<longleftrightarrow> (\<exists>k::int. x = y + 2 * of_int k)"

lemma mod2_refl [simp, intro]: "mod2 x x"
  by (auto simp: mod2_def intro: exI [of _ 0])

lemma mod2_sym: "mod2 x y \<Longrightarrow> mod2 y x"
proof -
  assume "mod2 x y"
  then obtain k :: int where "x = y + 2 * of_int k" by (auto simp: mod2_def)
  then have "y = x + 2 * of_int (- k)" by simp
  then show ?thesis unfolding mod2_def by blast
qed

lemma mod2_trans [trans]: "mod2 x y \<Longrightarrow> mod2 y z \<Longrightarrow> mod2 x z"
proof -
  assume "mod2 x y" "mod2 y z"
  then obtain k l :: int where "x = y + 2 * of_int k" "y = z + 2 * of_int l"
    by (auto simp: mod2_def)
  then have "x = z + 2 * of_int (k + l)" by simp
  then show ?thesis unfolding mod2_def by blast
qed

lemma mod2_add: "mod2 x y \<Longrightarrow> mod2 u v \<Longrightarrow> mod2 (x + u) (y + v)"
proof -
  assume "mod2 x y" "mod2 u v"
  then obtain k l :: int where "x = y + 2 * of_int k" "u = v + 2 * of_int l"
    by (auto simp: mod2_def)
  then have "x + u = y + v + 2 * of_int (k + l)" by simp
  then show ?thesis unfolding mod2_def by blast
qed

lemma mod2_minus: "mod2 x y \<Longrightarrow> mod2 (- x) (- y)"
proof -
  assume "mod2 x y"
  then obtain k :: int where "x = y + 2 * of_int k" by (auto simp: mod2_def)
  then have "- x = - y + 2 * of_int (- k)" by simp
  then show ?thesis unfolding mod2_def by blast
qed

lemma mod2_diff: "mod2 x y \<Longrightarrow> mod2 u v \<Longrightarrow> mod2 (x - u) (y - v)"
  using mod2_add [OF _ mod2_minus, of x y u v] by simp

lemma mod2_unique:
  assumes "mod2 x y" "- 1 < x" "x \<le> 1" "- 1 < y" "y \<le> 1"
  shows "x = y"
proof -
  obtain k :: int where k: "x = y + 2 * of_int k" using assms(1) by (auto simp: mod2_def)
  with assms have "of_int k < (of_int 1 :: rat)" "(of_int (- 1) :: rat) < of_int k" by auto
  then have "k < 1" "- 1 < k" by (simp_all only: of_int_less_iff)
  then have "k = 0" by simp
  with k show ?thesis by simp
qed

lemma phase_floor_bounds:
  assumes "canonical q"
  shows "of_int (phase_floor q) \<le> rat_val q" "rat_val q \<le> of_int (phase_floor q) + 1"
proof -
  let ?n = "numer q" and ?d = "denom q"
  have d: "0 < ?d" using assms by (simp add: canonical_def)
  have "phase_floor q * ?d \<le> ?n \<and> ?n \<le> (phase_floor q + 1) * ?d"
  proof (cases "0 \<le> ?n")
    case True
    with d have f: "phase_floor q = ?n div ?d"
      by (auto simp: phase_floor_def signed_divide_int_def sgn_if)
    define m w where "m = ?n div ?d" and "w = ?n mod ?d"
    have "?n = m * ?d + w" "0 \<le> w" "w < ?d"
      using d by (simp_all add: m_def w_def)
    then show ?thesis by (simp add: f flip: m_def) (simp add: algebra_simps)
  next
    case False
    with d have "phase_floor q = - ((?d - ?n) div ?d)"
      by (auto simp: phase_floor_def signed_divide_int_def sgn_if)
    also have "(?d - ?n) div ?d = 1 + (- ?n) div ?d"
      using d by (metis add.commute diff_conv_add_uminus div_add_self1 less_irrefl)
    finally have f: "phase_floor q = - 1 - (- ?n) div ?d" by simp
    define m w where "m = (- ?n) div ?d" and "w = (- ?n) mod ?d"
    have "- ?n = m * ?d + w" by (simp add: m_def w_def)
    then have n: "?n = - (m * ?d) - w" by simp
    have "0 \<le> w" "w < ?d" using d by (simp_all add: w_def)
    then show ?thesis
      using n by (simp add: f flip: m_def) (simp add: algebra_simps)
  qed
  then have "of_int (phase_floor q * ?d) \<le> (of_int ?n :: rat)"
    "(of_int ?n :: rat) \<le> of_int ((phase_floor q + 1) * ?d)"
    by (auto simp only: of_int_le_iff)
  with d show "of_int (phase_floor q) \<le> rat_val q" "rat_val q \<le> of_int (phase_floor q) + 1"
    by (auto simp: rat_val_def field_simps)
qed

lemma rat_greater_val:
  assumes "canonical p" "canonical q"
  shows "rat_greater p q \<longleftrightarrow> rat_val q < rat_val p"
proof -
  have "rat_less p q \<longleftrightarrow> rat_val p < rat_val q" if "canonical p" "canonical q" for p q
    using that by (simp add: rat_less_def canonical_def rat_val_def field_simps flip: of_int_mult)
  with assms show ?thesis
    by (auto simp: rat_greater_def rat_eq_iff_val)
qed

lemma phase_normalize_props:
  assumes "canonical r"
  shows "canonical (phase_normalize r)" "- 1 < rat_val (phase_normalize r)"
    "rat_val (phase_normalize r) \<le> 1" "mod2 (rat_val (phase_normalize r)) (rat_val r)"
proof -
  define h where "h = rat_reduce \<lparr>numer = numer r, denom = denom r * 2\<rparr>"
  have h: "projr (rat_divide r (rational_of_int 2)) = h"
    by (simp add: rat_divide_def rational_of_int_def h_def)
  have ch: "canonical h" using assms by (auto simp: h_def canonical_def intro!: canonical_reduce [unfolded canonical_def])
  have vh: "rat_val h = rat_val r / 2" by (simp add: h_def) (simp add: rat_val_def)
  define f where "f = phase_floor h"
  define r' where "r' = rat_minus r (rational_of_int (f * 2))"
  have c': "canonical r'" and v': "rat_val r' = rat_val r - 2 * of_int f"
    using assms by (auto simp: r'_def rat_val_ops)
  have b: "0 \<le> rat_val r'" "rat_val r' \<le> 2"
    using phase_floor_bounds [OF ch] by (simp_all add: v' vh f_def field_simps)
  have n: "phase_normalize r =
      (if rat_greater r' (rational_of_int 1) then rat_minus r' (rational_of_int 2) else r')"
    by (simp add: phase_normalize_def h Let_def r'_def f_def)
  have g: "rat_greater r' (rational_of_int 1) \<longleftrightarrow> 1 < rat_val r'"
    using c' by (simp add: rat_greater_val)
  show "canonical (phase_normalize r)" using c' by (auto simp: n)
  show "- 1 < rat_val (phase_normalize r)" "rat_val (phase_normalize r) \<le> 1"
    using b c' by (auto simp: n g rat_val_ops)
  have "rat_val r - 2 * of_int f = rat_val r + 2 * of_int (- f)"
    "rat_val r - 2 * of_int f - 2 = rat_val r + 2 * of_int (- f - 1)" by simp_all
  then have "mod2 (rat_val r - 2 * of_int f) (rat_val r)"
    "mod2 (rat_val r - 2 * of_int f - 2) (rat_val r)"
    unfolding mod2_def by blast+
  then show "mod2 (rat_val (phase_normalize r)) (rat_val r)"
    using c' by (simp add: n g rat_val_ops v')
qed

section \<open>The operations on phases\<close>

lemma phase_of_rational_ok:
  assumes "canonical r"
  shows "phase_ok (phase_of_rational r)" "mod2 (phase_val (phase_of_rational r)) (rat_val r)"
  using phase_normalize_props [OF assms]
  by (auto simp: phase_ok_def phase_val_def phase_of_rational_def)

lemma phase_ok_canonical: "phase_ok p \<Longrightarrow> canonical (phase_rational p)"
  by (simp add: phase_ok_def)

lemma phase_zero_ok [simp]: "phase_ok phase_zero" "phase_val phase_zero = 0"
  by (auto simp: phase_ok_def phase_val_def phase_zero_def)

lemma mk_phase_ok:
  assumes "d \<noteq> 0"
  shows "phase_ok (mk_phase n d)" "mod2 (phase_val (mk_phase n d)) (of_int n / of_int d)"
  using phase_of_rational_ok [OF canonical_mk [OF assms], of n] by (simp_all add: mk_phase_def)

lemma phase_plus_ok:
  assumes "phase_ok p" "phase_ok q"
  shows "phase_ok (phase_plus p q)" "mod2 (phase_val (phase_plus p q)) (phase_val p + phase_val q)"
proof -
  from assms have c: "canonical (phase_rational p)" "canonical (phase_rational q)"
    by (simp_all add: phase_ok_canonical)
  note phase_of_rational_ok [OF canonical_ops(1) [OF c]]
  then show "phase_ok (phase_plus p q)" "mod2 (phase_val (phase_plus p q)) (phase_val p + phase_val q)"
    using c by (simp_all add: phase_plus_def rat_val_ops phase_val_def)
qed

lemma phase_minus_ok:
  assumes "phase_ok p" "phase_ok q"
  shows "phase_ok (phase_minus p q)" "mod2 (phase_val (phase_minus p q)) (phase_val p - phase_val q)"
proof -
  from assms have c: "canonical (phase_rational p)" "canonical (phase_rational q)"
    by (simp_all add: phase_ok_canonical)
  note phase_of_rational_ok [OF canonical_ops(2) [OF c]]
  then show "phase_ok (phase_minus p q)" "mod2 (phase_val (phase_minus p q)) (phase_val p - phase_val q)"
    using c by (simp_all add: phase_minus_def rat_val_ops phase_val_def)
qed

lemma phase_negate_ok:
  assumes "phase_ok p"
  shows "phase_ok (phase_negate p)" "mod2 (phase_val (phase_negate p)) (- phase_val p)"
proof -
  from assms have c: "canonical (phase_rational p)" by (simp add: phase_ok_canonical)
  note phase_of_rational_ok [OF canonical_ops(3) [OF c canonical_of_int [of "- 1"]]]
  then show "phase_ok (phase_negate p)" "mod2 (phase_val (phase_negate p)) (- phase_val p)"
    using c by (simp_all add: phase_negate_def phase_times_def rat_val_ops phase_val_def
        del: rat_val_of_int) (simp add: rat_val_of_int)
qed

lemma phase_uminus_ok:
  assumes "phase_ok p"
  shows "phase_ok (phase_uminus p)" "mod2 (phase_val (phase_uminus p)) (- phase_val p)"
proof -
  from assms have d: "phase_denominator p \<noteq> 0"
    by (auto simp: phase_ok_def canonical_def phase_denominator_def)
  from mk_phase_ok [OF d, of "- phase_numerator p"]
  show "phase_ok (phase_uminus p)" "mod2 (phase_val (phase_uminus p)) (- phase_val p)"
    by (simp_all add: phase_uminus_def phase_val_def rat_val_def phase_numerator_def phase_denominator_def)
qed

lemmas phase_op_ok [intro] =
  phase_plus_ok(1) phase_minus_ok(1) phase_negate_ok(1) phase_uminus_ok(1) mk_phase_ok(1)

text \<open>Normalised phases are equal as soon as their values agree modulo \<open>2\<pi>\<close>.\<close>

lemma phase_eqI:
  assumes "phase_ok p" "phase_ok q" "mod2 (phase_val p) (phase_val q)"
  shows "p = (q :: phase)"
proof -
  have "phase_val p = phase_val q"
    using assms by (intro mod2_unique) (auto simp: phase_ok_def)
  with assms show ?thesis
    by (intro phase.equality canonical_eqI) (auto simp: phase_ok_def phase_val_def)
qed

lemma phase_eq_iff: "phase_eq p q \<longleftrightarrow> p = q"
  by (auto simp: phase_eq_def rat_eq_def intro!: phase.equality rational.equality)

lemma phase_plus_comm:
  assumes "phase_ok p" "phase_ok q"
  shows "phase_plus p q = phase_plus q p"
  using assms phase_plus_ok(2) [of p q] phase_plus_ok(2) [of q p]
  by (intro phase_eqI) (auto simp: add.commute intro: mod2_trans mod2_sym)

lemma phase_plus_assoc:
  assumes "phase_ok p" "phase_ok q" "phase_ok r"
  shows "phase_plus (phase_plus p q) r = phase_plus p (phase_plus q r)"
proof (rule phase_eqI)
  have "mod2 (phase_val (phase_plus (phase_plus p q) r)) (phase_val (phase_plus p q) + phase_val r)"
    using assms by (intro phase_plus_ok) auto
  also have "mod2 \<dots> (phase_val p + phase_val q + phase_val r)"
    using assms by (intro mod2_add phase_plus_ok) auto
  also have "phase_val p + phase_val q + phase_val r = phase_val p + (phase_val q + phase_val r)"
    by simp
  also have "mod2 \<dots> (phase_val p + phase_val (phase_plus q r))"
    using assms by (intro mod2_add mod2_sym [OF phase_plus_ok(2)]) auto
  also have "mod2 \<dots> (phase_val (phase_plus p (phase_plus q r)))"
    using assms by (intro mod2_sym [OF phase_plus_ok(2)]) auto
  finally show "mod2 (phase_val (phase_plus (phase_plus p q) r)) (phase_val (phase_plus p (phase_plus q r)))" .
qed (use assms in auto)

lemma phase_plus_zero: "phase_ok p \<Longrightarrow> phase_plus p phase_zero = p"
  using phase_plus_ok [of p phase_zero] by (intro phase_eqI) auto

lemma phase_plus_negate: "phase_ok p \<Longrightarrow> phase_plus p (phase_negate p) = phase_zero"
proof (rule phase_eqI)
  assume p: "phase_ok p"
  then have "mod2 (phase_val (phase_plus p (phase_negate p))) (phase_val p + phase_val (phase_negate p))"
    by (intro phase_plus_ok) auto
  also have "mod2 \<dots> (phase_val p + - phase_val p)"
    using p by (intro mod2_add phase_negate_ok) auto
  finally show "mod2 (phase_val (phase_plus p (phase_negate p))) (phase_val phase_zero)" by simp
qed auto

text \<open>\<open>operator-\<close> and \<open>*= -1\<close> agree on normalised phases, and both are involutions.\<close>

lemma phase_uminus_negate: "phase_ok p \<Longrightarrow> phase_uminus p = phase_negate p"
  using phase_uminus_ok [of p] phase_negate_ok [of p]
  by (intro phase_eqI) (auto intro: mod2_trans mod2_sym)

lemma phase_negate_negate: "phase_ok p \<Longrightarrow> phase_negate (phase_negate p) = p"
proof (rule phase_eqI)
  assume p: "phase_ok p"
  then have "mod2 (phase_val (phase_negate (phase_negate p))) (- phase_val (phase_negate p))"
    by (intro phase_negate_ok) auto
  also have "mod2 \<dots> (- (- phase_val p))"
    using p by (intro mod2_minus phase_negate_ok) auto
  finally show "mod2 (phase_val (phase_negate (phase_negate p))) (phase_val p)" by simp
qed auto

section \<open>The printed form determines the phase\<close>

definition parse_nat :: "string \<Rightarrow> nat" where
  "parse_nat s = foldl (\<lambda>a c. 10 * a + (of_char c - 48)) 0 s"

lemma of_char_digit: "d < 10 \<Longrightarrow> (of_char (digit_char d) :: nat) = 48 + d"
  by (simp add: digit_char_def)

lemma parse_string_of_nat: "parse_nat (string_of_nat n) = n"
proof (induction n rule: string_of_nat.induct)
  case (1 n)
  then show ?case
    by (cases "n < 10") (auto simp: string_of_nat.simps [of n] parse_nat_def of_char_digit)
qed

lemma string_of_nat_inj [simp]: "string_of_nat m = string_of_nat n \<longleftrightarrow> m = n"
  by (metis parse_string_of_nat)

lemma string_of_nat_digits: "c \<in> set (string_of_nat n) \<Longrightarrow> \<exists>d < 10. c = digit_char d"
proof (induction n rule: string_of_nat.induct)
  case (1 n)
  then show ?case
    by (cases "n < 10") (force simp: string_of_nat.simps [of n] intro: exI [of _ "n mod 10"])+
qed

lemma string_of_nat_nonempty [simp]: "string_of_nat n \<noteq> []"
  by (subst string_of_nat.simps) simp

definition numeric_char :: "char \<Rightarrow> bool" where
  "numeric_char c \<longleftrightarrow> c = CHR ''-'' \<or> (48 \<le> (of_char c :: nat) \<and> (of_char c :: nat) \<le> 57)"

lemma numeric_digit: "d < 10 \<Longrightarrow> numeric_char (digit_char d) \<and> digit_char d \<noteq> CHR ''-''"
  using of_char_digit [of d] by (auto simp: numeric_char_def)

lemma numeric_string_of_int: "\<forall>c \<in> set (string_of_int i). numeric_char c"
  by (auto simp: string_of_int_def numeric_char_def dest!: string_of_nat_digits)
    (use numeric_digit numeric_char_def in blast)+

lemma minus_notin_string_of_nat: "CHR ''-'' \<notin> set (string_of_nat n)"
  using numeric_digit by (fastforce dest: string_of_nat_digits)

lemma string_of_int_inj [simp]: "string_of_int i = string_of_int j \<longleftrightarrow> i = j"
proof
  assume eq: "string_of_int i = string_of_int j"
  have "i < 0 \<longleftrightarrow> CHR ''-'' \<in> set (string_of_int i)" for i
    by (simp add: string_of_int_def minus_notin_string_of_nat)
  with eq have "i < 0 \<longleftrightarrow> j < 0" by metis
  with eq show "i = j"
    by (auto simp: string_of_int_def split: if_splits)
qed simp

definition print_numerator :: "int \<Rightarrow> string" where
  "print_numerator n = (if n = 1 then [] else if n = - 1 then ''-'' else string_of_int n)"

lemma print_numerator_inj: "print_numerator m = print_numerator n \<Longrightarrow> m = n"
proof -
  have "string_of_int i \<noteq> []" "string_of_int i \<noteq> ''-''" for i
    using minus_notin_string_of_nat [of "nat i"] by (auto simp: string_of_int_def)
  then show "print_numerator m = print_numerator n \<Longrightarrow> m = n"
    by (auto simp: print_numerator_def split: if_splits) (metis string_of_int_inj)+
qed

lemma takeWhile_print_numerator:
  assumes "rest = [] \<or> \<not> numeric_char (hd rest)"
  shows "takeWhile numeric_char (print_numerator n @ rest) = print_numerator n"
    "dropWhile numeric_char (print_numerator n @ rest) = rest"
proof -
  have n: "\<forall>c \<in> set (print_numerator n). numeric_char c"
    using numeric_string_of_int by (auto simp: print_numerator_def numeric_char_def)
  then show "takeWhile numeric_char (print_numerator n @ rest) = print_numerator n"
    using assms by (cases rest) auto
  show "dropWhile numeric_char (print_numerator n @ rest) = rest"
    using n assms by (cases rest) auto
qed

lemma print_string_inj:
  assumes "phase_ok p" "phase_ok q" "get_print_string p = get_print_string q"
  shows "p = q"
proof -
  define tl where "tl n d = (if n \<noteq> 0 then pi_bytes else []) @ (if d \<noteq> 1 then ''/'' @ string_of_int d else [])"
    for n d :: int
  have s: "get_print_string r = print_numerator (phase_numerator r) @ tl (phase_numerator r) (phase_denominator r)" for r
    by (simp add: get_print_string_def print_numerator_def tl_def)
  have hd: "tl n d = [] \<or> \<not> numeric_char (hd (tl n d))" for n d
    by (auto simp: tl_def pi_bytes_def numeric_char_def)
  note tw = takeWhile_print_numerator [OF hd]
  have "print_numerator (phase_numerator p) = print_numerator (phase_numerator q)"
    using assms(3) tw(1) by (metis s)
  then have n: "phase_numerator p = phase_numerator q" by (rule print_numerator_inj)
  have "tl (phase_numerator p) (phase_denominator p) = tl (phase_numerator q) (phase_denominator q)"
    using assms(3) tw(2) by (metis s)
  with n have "phase_denominator p = phase_denominator q"
    by (auto simp: tl_def split: if_splits)
  with n show ?thesis
    by (auto simp: phase_numerator_def phase_denominator_def intro!: phase.equality rational.equality)
qed

section \<open>Machine integers\<close>

text \<open>
  \<open>reduce\<close> casts both components to the 32-bit \<open>IntegralType\<close>. The cast is defined when the
  value is in range; it is, for a sum or difference of operands below \<open>2^15\<close>.
\<close>

definition in_int32 :: "int \<Rightarrow> bool" where
  "in_int32 i \<longleftrightarrow> - (2 ^ 31) \<le> i \<and> i < 2 ^ 31"

definition reduce_in_range :: "rational \<Rightarrow> bool" where
  "reduce_in_range r \<longleftrightarrow> in_int32 (numer (rat_sign_fix r)) \<and> in_int32 (denom (rat_sign_fix r))"

lemma abs_mult_less_15:
  "\<bar>a\<bar> < 2 ^ 15 \<Longrightarrow> \<bar>b\<bar> < 2 ^ 15 \<Longrightarrow> \<bar>a * b\<bar> \<le> (2 ^ 15 - 1) * (2 ^ 15 - 1)" for a b :: int
  unfolding abs_mult by (rule mult_mono) auto

lemma rat_plus_in_range:
  assumes "\<bar>numer l\<bar> < 2 ^ 15" "\<bar>denom l\<bar> < 2 ^ 15" "\<bar>numer r\<bar> < 2 ^ 15" "\<bar>denom r\<bar> < 2 ^ 15"
  shows "reduce_in_range \<lparr>numer = numer l * denom r + denom l * numer r, denom = denom l * denom r\<rparr>"
  using abs_mult_less_15 [OF assms(1,4)] abs_mult_less_15 [OF assms(2,3)] abs_mult_less_15 [OF assms(2,4)]
  by (auto simp: reduce_in_range_def rat_sign_fix_def in_int32_def)

end
