(* ===== verification/Circuits.thy ===== *)
theory Circuits
  imports StabilizerSynthesis Phase
begin

text \<open>
  The meaning of Clifford operators as operators on state vectors. A vector over \<open>n\<close> qubits is a
  complex function of the basis states that vanishes outside the first \<open>n\<close> bits. Gates and Pauli
  products are linear operators; conjugating a Pauli product by a gate is what \<open>PauliProduct::h\<close>,
  \<open>s\<close> and \<open>cx\<close> compute. The last section shows that a stabilizer tableau determines a Clifford
  circuit up to a global scalar, so a tableau can stand for a circuit, as it does in the program.
\<close>

section \<open>Vectors and linear operators\<close>

type_synonym qstate = "nat \<Rightarrow> bool"
type_synonym qvec = "qstate \<Rightarrow> complex"

definition vscale :: "complex \<Rightarrow> qvec \<Rightarrow> qvec" where
  "vscale c v = (\<lambda>b. c * v b)"

definition vplus :: "qvec \<Rightarrow> qvec \<Rightarrow> qvec" where
  "vplus v w = (\<lambda>b. v b + w b)"

definition ket :: "qstate \<Rightarrow> qvec" where
  "ket b = (\<lambda>b'. if b' = b then 1 else 0)"

definition linear_op :: "(qvec \<Rightarrow> qvec) \<Rightarrow> bool" where
  "linear_op F \<longleftrightarrow> (\<forall>v w. F (vplus v w) = vplus (F v) (F w)) \<and> (\<forall>c v. F (vscale c v) = vscale c (F v))"

lemma linear_opD: "linear_op F \<Longrightarrow> F (vplus v w) = vplus (F v) (F w)" "linear_op F \<Longrightarrow> F (vscale c v) = vscale c (F v)"
  by (simp_all add: linear_op_def)

lemma linear_op_comp: "linear_op F \<Longrightarrow> linear_op G \<Longrightarrow> linear_op (\<lambda>v. F (G v))"
  by (simp add: linear_op_def)

lemma linear_op_id: "linear_op (\<lambda>v. v)"
  by (simp add: linear_op_def)

lemma vscale_vscale [simp]: "vscale a (vscale b v) = vscale (a * b) v"
  by (simp add: vscale_def mult.assoc)

lemma vscale_one [simp]: "vscale 1 v = v"
  by (simp add: vscale_def)

lemma vscale_vplus: "vscale a (vplus v w) = vplus (vscale a v) (vscale a w)"
  by (simp add: vscale_def vplus_def distrib_left)

section \<open>Gates\<close>

definition q_s :: "nat \<Rightarrow> qvec \<Rightarrow> qvec" where
  "q_s q v = (\<lambda>b. (if b q then \<i> else 1) * v b)"

definition q_h :: "nat \<Rightarrow> qvec \<Rightarrow> qvec" where
  "q_h q v = (\<lambda>b. (v (b(q := False)) + (if b q then -1 else 1) * v (b(q := True))) / complex_of_real (sqrt 2))"

definition q_cx :: "nat \<Rightarrow> nat \<Rightarrow> qvec \<Rightarrow> qvec" where
  "q_cx c t v = (\<lambda>b. v (cx_state c t b))"

definition q_trait :: "qvec pauli_product_trait" where
  "q_trait = \<lparr>h_op = q_h, s_op = q_s, cx_op = q_cx\<rparr>"

lemma q_trait_sel [simp]: "h_op q_trait = q_h" "s_op q_trait = q_s" "cx_op q_trait = q_cx"
  by (simp_all add: q_trait_def)

text \<open>A Pauli product sends the basis state \<open>b'\<close> to \<open>act_state P b'\<close> with a power of \<open>i\<close>.\<close>

definition q_pauli :: "pauli_product \<Rightarrow> qvec \<Rightarrow> qvec" where
  "q_pauli P v = (\<lambda>b. \<i> ^ act_phase P (act_state P b) * v (act_state P b))"

definition in_space :: "nat \<Rightarrow> qvec \<Rightarrow> bool" where
  "in_space n v \<longleftrightarrow> (\<forall>b. v b \<noteq> 0 \<longrightarrow> (\<forall>i \<ge> n. \<not> b i))"

lemma linear_gates [intro]: "linear_op (q_h q)" "linear_op (q_s q)" "linear_op (q_cx c t)" "linear_op (q_pauli P)"
  by (auto simp: linear_op_def q_h_def q_s_def q_cx_def q_pauli_def vplus_def vscale_def fun_eq_iff field_simps)

lemma q_cx_cx: "c \<noteq> t \<Longrightarrow> q_cx c t (q_cx c t v) = v"
proof -
  assume "c \<noteq> t"
  then have "cx_state c t (cx_state c t b) = b" for b by (auto simp: cx_state_def fun_eq_iff)
  then show ?thesis by (simp add: q_cx_def)
qed

lemma sqrt2_sq: "complex_of_real (sqrt 2) * complex_of_real (sqrt 2) = 2"
  by (metis of_real_mult of_real_numeral real_sqrt_mult_self abs_numeral)

lemma q_h_h: "q_h q (q_h q v) = v"
proof
  fix b :: qstate
  have "b(q := b q) = b" by (rule fun_upd_triv)
  moreover have "(x / complex_of_real (sqrt 2) + y) / complex_of_real (sqrt 2) = x / 2 + y / complex_of_real (sqrt 2)" for x y
    by (simp add: add_divide_distrib sqrt2_sq)
  ultimately show "q_h q (q_h q v) b = v b"
    unfolding q_h_def using sqrt2_sq
    by (cases "b q") (simp_all add: fun_upd_idem add_divide_distrib diff_divide_distrib)
qed

lemma q_s_4: "q_s q (q_s q (q_s q (q_s q v))) = v"
  by (auto simp: q_s_def fun_eq_iff mult.assoc [symmetric])

section \<open>Conjugation\<close>

lemma i_power_cong: "a mod 4 = b mod 4 \<Longrightarrow> \<i> ^ a = \<i> ^ b"
proof -
  have "\<i> ^ a = \<i> ^ (a mod 4)" for a :: nat
  proof -
    have "\<i> ^ a = \<i> ^ (4 * (a div 4) + a mod 4)" by simp
    also have "\<dots> = (\<i> ^ 4) ^ (a div 4) * \<i> ^ (a mod 4)" by (simp only: power_add power_mult)
    finally show ?thesis by simp
  qed
  then show "a mod 4 = b mod 4 \<Longrightarrow> \<i> ^ a = \<i> ^ b" by metis
qed

lemma mult_swap: "a * e = e' * a' \<Longrightarrow> e * (a * x) = a' * (e' * (x :: complex))"
  by (metis mult.assoc mult.commute)

lemma act_state_twice [simp]: "act_state P (act_state P b) = b"
  by (auto simp: act_state_def fun_eq_iff)

lemma act_state_comm: "pp_n_qubits P = pp_n_qubits Q \<Longrightarrow> act_state P (act_state Q b) = act_state Q (act_state P b)"
  by (auto simp: act_state_def fun_eq_iff bxor_ac)

text \<open>The product of Pauli products is composition, up to the \<open>i\<close> that \<open>operator*=\<close> drops.\<close>

lemma q_pauli_times:
  assumes "pp_ok n P" "pp_ok n Q"
  shows "q_pauli P (q_pauli Q v) = vscale (if symp P Q then \<i> else 1) (q_pauli (pp_times P Q) v)"
proof
  fix b :: qstate
  have wf: "pp_wf P" "pp_wf Q" "pp_n_qubits Q = pp_n_qubits P" using assms by (auto simp: pp_ok_def)
  define b0 where "b0 = act_state Q (act_state P b)"
  have b1: "act_state Q b0 = act_state P b" "act_state (pp_times P Q) b = b0"
    using wf by (simp_all add: b0_def act_times(1) act_state_comm [of P Q])
  have "\<i> ^ (act_phase Q b0 + act_phase P (act_state Q b0)) = \<i> ^ (act_phase (pp_times P Q) b0 + of_bool (symp P Q))"
    by (rule i_power_cong) (use act_times(2) [OF wf] in auto)
  then show "q_pauli P (q_pauli Q v) b = vscale (if symp P Q then \<i> else 1) (q_pauli (pp_times P Q) v) b"
    unfolding q_pauli_def vscale_def b0_def [symmetric] b1
    by (simp add: power_add mult.assoc [symmetric] mult.commute [of "\<i> ^ act_phase P _"])
qed

lemma q_s_conj:
  assumes "pp_ok n P" "q < n"
  shows "q_s q (q_pauli P v) = q_pauli (pp_s q P) (q_s q v)"
proof
  fix b :: qstate
  have wf: "pp_wf P" "q < pp_n_qubits P" using assms by (auto simp: pp_ok_def)
  define b0 where "b0 = act_state P b"
  have b: "act_state P b0 = b" "act_state (pp_s q P) b = b0" using act_s(1) [OF wf] by (simp_all add: b0_def)
  have "\<i> ^ (act_phase P b0 + of_bool (act_state P b0 q)) = \<i> ^ (of_bool (b0 q) + act_phase (pp_s q P) b0)"
    by (rule i_power_cong [OF act_s(2) [OF wf]])
  then have "\<i> ^ act_phase P b0 * (if b q then \<i> else 1) = (if b0 q then \<i> else 1) * \<i> ^ act_phase (pp_s q P) b0"
    unfolding b by (cases "b q"; cases "b0 q") (simp_all add: power_add mult.commute)
  then have "(if b q then \<i> else 1) * (\<i> ^ act_phase P b0 * v b0) =
      \<i> ^ act_phase (pp_s q P) b0 * ((if b0 q then \<i> else 1) * v b0)"
    by (rule mult_swap)
  then show "q_s q (q_pauli P v) b = q_pauli (pp_s q P) (q_s q v) b"
    unfolding q_s_def q_pauli_def b(2) b0_def [symmetric] .
qed

lemma q_cx_conj:
  assumes "pp_ok n P" "c < n" "t < n" "c \<noteq> t"
  shows "q_cx c t (q_pauli P v) = q_pauli (pp_cx c t P) (q_cx c t v)"
proof
  fix b :: qstate
  have wf: "pp_wf P" "c < pp_n_qubits P" "t < pp_n_qubits P" "c \<noteq> t" using assms by (auto simp: pp_ok_def)
  define d where "d = act_state P (cx_state c t b)"
  have cc: "cx_state c t (cx_state c t x) = x" for x using assms(4) by (auto simp: cx_state_def fun_eq_iff)
  have "act_state (pp_cx c t P) (cx_state c t d) = b" using act_cx(1) [OF wf, of d] cc by (simp add: d_def)
  then have e: "act_state (pp_cx c t P) b = cx_state c t d" using act_state_twice by metis
  show "q_cx c t (q_pauli P v) b = q_pauli (pp_cx c t P) (q_cx c t v) b"
    unfolding q_cx_def q_pauli_def e cc act_cx(2) [OF wf] d_def [symmetric] ..
qed

text \<open>For H both sides are sums of two terms; the terms match in one of the two orders.\<close>

lemma q_h_conj:
  assumes "pp_ok n P" "q < n"
  shows "q_h q (q_pauli P v) = q_pauli (pp_h q P) (q_h q v)"
proof
  fix c :: qstate
  let ?P' = "pp_h q P"
  have wf: "pp_wf P" "q < pp_n_qubits P" using assms by (auto simp: pp_ok_def)
  define d where "d = act_state ?P' c"
  define w where "w x = (\<i> ^ (2 * of_bool (c q \<and> x))) * (q_pauli P v (c(q := x)))" for x
  define u where "u y = \<i> ^ act_phase ?P' d * (\<i> ^ (2 * of_bool (d q \<and> y)) * v (d(q := y)))" for y
  have wu: "w x = u (bxor x (is_x_set P q))" for x
  proof -
    define b where "b = act_state P (c(q := x))"
    have bq: "b q = bxor x (is_x_set P q)" using wf by (simp add: b_def act_state_def)
    have off: "c i = act_state P b i" if "i \<noteq> q" for i using that by (simp add: b_def)
    have ab: "act_state P b q = x" by (simp add: b_def)
    have "d i = b i" if "i \<noteq> q" for i
    proof (cases "i < pp_n_qubits P")
      case True
      then show ?thesis using act_h(1) [OF wf off True that] by (simp add: d_def)
    next
      case False
      then show ?thesis using that by (simp add: d_def b_def act_state_def)
    qed
    then have db: "d(q := b q) = b" by (auto simp: fun_eq_iff)
    have "(act_phase P b + 2 * of_bool (c q \<and> act_state P b q)) mod 4 =
      (2 * of_bool (act_state (pp_h q P) c q \<and> b q) + act_phase (pp_h q P) (act_state (pp_h q P) c)) mod 4"
      using act_h(2) [OF wf, of c b] off by auto
    then have "\<i> ^ (act_phase P b + 2 * of_bool (c q \<and> x)) = \<i> ^ (2 * of_bool (d q \<and> b q) + act_phase ?P' d)"
      unfolding ab d_def [symmetric] by (rule i_power_cong)
    then have "\<i> ^ act_phase P b * \<i> ^ (2 * of_bool (c q \<and> x)) = \<i> ^ (2 * of_bool (d q \<and> b q)) * \<i> ^ act_phase ?P' d"
      by (simp only: power_add)
    then have "\<i> ^ (2 * of_bool (c q \<and> x)) * (\<i> ^ act_phase P b * v b) =
        \<i> ^ act_phase ?P' d * (\<i> ^ (2 * of_bool (d q \<and> b q)) * v b)"
      by (rule mult_swap)
    then show ?thesis
      unfolding w_def u_def q_pauli_def b_def [symmetric] bq [symmetric] db .
  qed
  have sgn: "\<i> ^ (2 * of_bool (e \<and> x)) = (if e \<and> x then -1 else 1)" for e x by simp
  have "q_h q (q_pauli P v) c = (w False + w True) / complex_of_real (sqrt 2)"
    by (simp add: q_h_def w_def)
  also have "w False + w True = u False + u True" by (cases "is_x_set P q") (simp_all add: wu)
  also have "(u False + u True) / complex_of_real (sqrt 2) = q_pauli ?P' (q_h q v) c"
    by (simp add: q_h_def q_pauli_def u_def d_def [symmetric] distrib_left)
  finally show "q_h q (q_pauli P v) c = q_pauli ?P' (q_h q v) c" .
qed

text \<open>The operators of the mixin, hence operator strings.\<close>

lemma linear_apply_string: "string_ok n xs \<Longrightarrow> linear_op (trait_apply_string q_trait xs)"
  by (rule trait_apply_string_rel [where R = "\<lambda>F _. linear_op F" and T' = q_trait]) (auto intro: linear_op_comp linear_op_id)

definition conjugates :: "nat \<Rightarrow> (qvec \<Rightarrow> qvec) \<Rightarrow> (pauli_product \<Rightarrow> pauli_product) \<Rightarrow> bool" where
  "conjugates n F f \<longleftrightarrow> (\<forall>P v. pp_ok n P \<longrightarrow> pp_ok n (f P) \<and> F (q_pauli P v) = q_pauli (f P) (F v))"

lemma conjugates_comp: "conjugates n F f \<Longrightarrow> conjugates n G g \<Longrightarrow> conjugates n (\<lambda>v. F (G v)) (\<lambda>P. f (g P))"
  by (simp add: conjugates_def)

lemma conjugates_generators:
  "q < n \<Longrightarrow> conjugates n (q_h q) (pp_h q)" "q < n \<Longrightarrow> conjugates n (q_s q) (pp_s q)"
  "c < n \<Longrightarrow> t < n \<Longrightarrow> c \<noteq> t \<Longrightarrow> conjugates n (q_cx c t) (pp_cx c t)"
  by (simp_all add: conjugates_def q_h_conj q_s_conj q_cx_conj) (simp_all add: pp_ok_def)

lemma conjugates_string: "string_ok n xs \<Longrightarrow> conjugates n (trait_apply_string q_trait xs) (trait_apply_string pp_trait xs)"
  by (rule trait_apply_string_rel [where R = "conjugates n"])
    (auto intro: conjugates_comp conjugates_generators simp: conjugates_def [of n "\<lambda>a. a"])

section \<open>The space of n qubits\<close>

lemma in_space_scale: "in_space n v \<Longrightarrow> in_space n (vscale c v)"
  by (auto simp: in_space_def vscale_def)

interpretation qv: gate_trait q_trait in_space
proof unfold_locales
  fix n q :: nat and v :: qvec
  assume v: "in_space n v" and q: "q < n"
  show "in_space n (h_op q_trait q v)"
    unfolding in_space_def
  proof (intro allI impI)
    fix b i assume nz: "h_op q_trait q v b \<noteq> 0" and i: "n \<le> i"
    have "v (b(q := False)) \<noteq> 0 \<or> v (b(q := True)) \<noteq> 0"
    proof (rule ccontr)
      assume "\<not> ?thesis"
      with nz show False by (simp add: q_h_def)
    qed
    then show "\<not> b i" using v i q by (auto simp: in_space_def split: if_splits)
  qed
  show "in_space n (s_op q_trait q v)" using v by (auto simp: in_space_def q_s_def)
  show "h_op q_trait q (h_op q_trait q v) = v" by (simp add: q_h_h)
  show "s_op q_trait q (s_op q_trait q (s_op q_trait q (s_op q_trait q v))) = v" by (simp add: q_s_4)
next
  fix n c t :: nat and v :: qvec
  assume v: "in_space n v" and ct: "c < n" "t < n" "c \<noteq> t"
  show "in_space n (cx_op q_trait c t v)"
    unfolding in_space_def
  proof (intro allI impI)
    fix b i assume "cx_op q_trait c t v b \<noteq> 0" and i: "n \<le> i"
    then have "\<forall>i\<ge>n. \<not> cx_state c t b i" using v by (auto simp: in_space_def q_cx_def)
    with i ct show "\<not> b i" by (auto simp: cx_state_def split: if_splits)
  qed
  show "cx_op q_trait c t (cx_op q_trait c t v) = v" using ct by (simp add: q_cx_cx)
qed

section \<open>A tableau determines the circuit\<close>

lemma q_pauli_z_gen: "i < n \<Longrightarrow> q_pauli (z_gen n i) v b = (if b i then - v b else v b)"
proof -
  assume i: "i < n"
  have s: "act_state (z_gen n i) b = b" using i by (auto simp: act_state_def fun_eq_iff)
  have "phase_sum (z_gen n i) b = (\<Sum>k<n. if k = i then 2 * of_bool (b i) else 0)"
    unfolding phase_sum_def using i by (intro sum.cong) (auto simp: local_phase_def)
  then have "act_phase (z_gen n i) b = 2 * of_bool (b i)" using i by (simp add: act_phase_def)
  with s show ?thesis by (simp add: q_pauli_def)
qed

lemma q_pauli_x_gen: "i < n \<Longrightarrow> q_pauli (x_gen n i) v b = v (b(i := \<not> b i))"
proof -
  assume i: "i < n"
  have s: "act_state (x_gen n i) b = b(i := \<not> b i)" using i by (auto simp: act_state_def fun_eq_iff)
  have "phase_sum (x_gen n i) c = 0" for c
    unfolding phase_sum_def using i by (auto simp: local_phase_def)
  then have "act_phase (x_gen n i) c = 0" for c using i by (simp add: act_phase_def)
  with s show ?thesis by (simp add: q_pauli_def)
qed

definition zero_state :: qstate where
  "zero_state = (\<lambda>_. False)"

definition states :: "nat \<Rightarrow> qstate set" where
  "states n = {b. \<forall>i \<ge> n. \<not> b i}"

lemma finite_states: "finite (states n)"
proof -
  have "states n \<subseteq> (\<lambda>A i. i \<in> A) ` Pow {..<n}"
  proof
    fix b assume "b \<in> states n"
    then have "b = (\<lambda>i. i \<in> {i. b i})" "{i. b i} \<subseteq> {..<n}" by (auto simp: states_def not_less [symmetric])
    then show "b \<in> (\<lambda>A i. i \<in> A) ` Pow {..<n}" by blast
  qed
  then show ?thesis by (rule finite_subset) simp
qed

lemma states_induct:
  assumes "b \<in> states n" "Q zero_state"
    and flip: "\<And>b i. b \<in> states n \<Longrightarrow> i < n \<Longrightarrow> \<not> b i \<Longrightarrow> Q b \<Longrightarrow> Q (b(i := True))"
  shows "Q b"
proof -
  have "finite A \<Longrightarrow> A \<subseteq> {..<n} \<Longrightarrow> Q (\<lambda>i. i \<in> A)" for A
  proof (induction A rule: finite_induct)
    case empty
    then show ?case using assms(2) by (simp add: zero_state_def)
  next
    case (insert i A)
    have "Q ((\<lambda>j. j \<in> A)(i := True))"
      by (rule flip) (use insert in \<open>auto simp: states_def\<close>)
    moreover have "(\<lambda>j. j \<in> A)(i := True) = (\<lambda>j. j \<in> insert i A)" by (auto simp: fun_eq_iff)
    ultimately show ?case by simp
  qed
  moreover have "b = (\<lambda>i. i \<in> {i. b i})" "{i. b i} \<subseteq> {..<n}"
    using assms(1) by (auto simp: states_def not_less [symmetric])
  moreover have "finite {i. b i}" using calculation(3) finite_subset by blast
  ultimately show ?thesis by metis
qed

text \<open>An operator that commutes with all generators and keeps the space is a scalar.\<close>

lemma commutant_scalar:
  assumes lin: "linear_op F" and sp: "\<And>v. in_space n v \<Longrightarrow> in_space n (F v)"
    and z: "\<And>i v. i < n \<Longrightarrow> F (q_pauli (z_gen n i) v) = q_pauli (z_gen n i) (F v)"
    and x: "\<And>i v. i < n \<Longrightarrow> F (q_pauli (x_gen n i) v) = q_pauli (x_gen n i) (F v)"
  shows "\<exists>c. \<forall>v. in_space n v \<longrightarrow> F v = vscale c v"
proof -
  have ket_space: "in_space n (ket b)" if "b \<in> states n" for b using that by (auto simp: in_space_def ket_def states_def split: if_splits)
  have diag: "F (ket b) b' = 0" if b: "b \<in> states n" and ne: "b' \<noteq> b" for b b'
  proof (rule ccontr)
    assume nz: "F (ket b) b' \<noteq> 0"
    then have out: "\<forall>i\<ge>n. \<not> b' i" using sp [OF ket_space [OF b]] by (auto simp: in_space_def)
    obtain i where i: "b' i \<noteq> b i" using ne by auto
    then have "i < n" using out b by (auto simp: states_def not_less [symmetric])
    have "q_pauli (z_gen n i) (ket b) = vscale (if b i then -1 else 1) (ket b)"
      using \<open>i < n\<close> by (auto simp: q_pauli_z_gen fun_eq_iff vscale_def ket_def)
    then have "q_pauli (z_gen n i) (F (ket b)) = vscale (if b i then -1 else 1) (F (ket b))"
      using z [OF \<open>i < n\<close>, where v = "ket b"] lin by (simp add: linear_opD)
    then have "q_pauli (z_gen n i) (F (ket b)) b' = vscale (if b i then -1 else 1) (F (ket b)) b'" by (rule fun_cong)
    with nz i \<open>i < n\<close> show False by (auto simp: q_pauli_z_gen vscale_def split: if_splits)
  qed
  define c where "c = F (ket zero_state) zero_state"
  have all: "F (ket b) = vscale c (ket b)" if "b \<in> states n" for b
    using that
  proof (rule states_induct [where Q = "\<lambda>b. F (ket b) = vscale c (ket b)"])
    have "zero_state \<in> states n" by (simp add: states_def zero_state_def)
    then show "F (ket zero_state) = vscale c (ket zero_state)"
    proof (intro ext)
      fix b' :: qstate
      show "F (ket zero_state) b' = vscale c (ket zero_state) b'"
      proof (cases "b' = zero_state")
        case False
        then show ?thesis using diag [OF \<open>zero_state \<in> states n\<close> False] by (simp add: vscale_def ket_def)
      qed (simp add: vscale_def c_def ket_def)
    qed
  next
    fix b i assume b: "b \<in> states n" and i: "i < n" "\<not> b i" and IH: "F (ket b) = vscale c (ket b)"
    have flip: "q_pauli (x_gen n i) (ket b) = ket (b(i := True))"
    proof
      fix b' :: qstate
      have "b'(i := \<not> b' i) = b \<longleftrightarrow> b' = b(i := True)" using i(2) by (auto simp: fun_eq_iff)
      then show "q_pauli (x_gen n i) (ket b) b' = ket (b(i := True)) b'" using i(1) by (simp add: q_pauli_x_gen ket_def)
    qed
    have "F (ket (b(i := True))) = q_pauli (x_gen n i) (F (ket b))" unfolding flip [symmetric] by (rule x [OF i(1)])
    also have "\<dots> = vscale c (ket (b(i := True)))"
      unfolding IH using linear_opD(2) [OF linear_gates(4)] by (simp add: flip)
    finally show "F (ket (b(i := True))) = vscale c (ket (b(i := True)))" .
  qed
  have part: "finite A \<Longrightarrow> A \<subseteq> states n \<Longrightarrow> F (\<lambda>b. if b \<in> A then v b else 0) = vscale c (\<lambda>b. if b \<in> A then v b else 0)" for A v
  proof (induction A rule: finite_induct)
    case empty
    have "(\<lambda>b. 0) = vscale 0 (\<lambda>b. 0 :: complex)" by (simp add: vscale_def)
    then have "F (\<lambda>b. 0) = vscale 0 (F (\<lambda>b. 0))" using linear_opD(2) [OF lin] by metis
    then show ?case by (simp add: vscale_def)
  next
    case (insert a A)
    have "(\<lambda>b. if b \<in> insert a A then v b else 0) = vplus (vscale (v a) (ket a)) (\<lambda>b. if b \<in> A then v b else 0)"
      using insert.hyps by (intro ext) (auto simp: vplus_def vscale_def ket_def)
    with insert show ?case
      using all [where b = a] by (simp add: linear_opD [OF lin] vscale_vplus mult.commute)
  qed
  have "F v = vscale c v" if "in_space n v" for v
  proof -
    have "v b = (if b \<in> states n then v b else 0)" for b
      using that by (cases "v b = 0") (auto simp: in_space_def states_def)
    then have "v = (\<lambda>b. if b \<in> states n then v b else 0)" by (rule ext)
    with part [of "states n" v, OF finite_states order_refl] show ?thesis by simp
  qed
  then show ?thesis by blast
qed

text \<open>Strings over \<open>n\<close> qubits act injectively, so the scalar is not zero.\<close>

lemma in_space_apply: "in_space n v \<Longrightarrow> string_ok n xs \<Longrightarrow> in_space n (trait_apply_string q_trait xs v)"
  by (rule qv.apply_string_ok)

lemma vscale_zero_state: "in_space n (ket zero_state)" "ket zero_state zero_state = 1"
  by (auto simp: in_space_def ket_def zero_state_def split: if_splits)

lemma identity_tableau_scalar:
  assumes xs: "string_ok n xs" and id: "trait_apply_string st_trait xs (st_init n) = st_init n"
  shows "\<exists>c. c \<noteq> 0 \<and> (\<forall>v. in_space n v \<longrightarrow> trait_apply_string q_trait xs v = vscale c v)"
proof -
  let ?F = "trait_apply_string q_trait xs" and ?f = "trait_apply_string pp_trait xs"
  have rows: "?f (init_rows n r) = init_rows n r" if "r < 2 * n" for r
  proof -
    have "stabs (st_map ?f (st_init n)) ! r = stabs (st_init n) ! r"
      using id xs by (simp add: st_apply_string_map [of n])
    then show ?thesis using that by (simp add: st_init_rows)
  qed
  have z: "?f (z_gen n i) = z_gen n i" "?f (x_gen n i) = x_gen n i" if "i < n" for i
    using rows [of i] rows [of "i + n"] that by (simp_all add: init_rows_def)
  have conj: "?F (q_pauli P v) = q_pauli (?f P) (?F v)" if "pp_ok n P" for P v
    using conjugates_string [OF xs] that by (simp add: conjugates_def)
  obtain c where c: "\<And>v. in_space n v \<Longrightarrow> ?F v = vscale c v"
    using commutant_scalar [of ?F n] linear_apply_string [OF xs] in_space_apply [OF _ xs] conj z by (metis gen_ok)
  have "c \<noteq> 0"
  proof
    assume "c = 0"
    then have "?F (ket zero_state) = vscale 0 (ket zero_state)" using c vscale_zero_state(1) by simp
    then have "ket zero_state = trait_apply_string q_trait (inverse_string xs) (vscale 0 (ket zero_state))"
      using qv.apply_inverse_string [OF vscale_zero_state(1) xs] by simp
    also have "\<dots> = vscale 0 (trait_apply_string q_trait (inverse_string xs) (ket zero_state))"
      by (rule linear_opD(2) [OF linear_apply_string [OF qv.inverse_string_ok [OF xs]]])
    finally have "ket zero_state zero_state = vscale 0 (trait_apply_string q_trait (inverse_string xs) (ket zero_state)) zero_state"
      by (rule fun_cong)
    then show False by (simp add: vscale_def vscale_zero_state)
  qed
  with c show ?thesis by blast
qed

text \<open>Operators equal up to a global scalar on the space of \<open>n\<close> qubits.\<close>

definition op_eq :: "nat \<Rightarrow> (qvec \<Rightarrow> qvec) \<Rightarrow> (qvec \<Rightarrow> qvec) \<Rightarrow> bool" where
  "op_eq n F G \<longleftrightarrow> (\<exists>c. c \<noteq> 0 \<and> (\<forall>v. in_space n v \<longrightarrow> F v = vscale c (G v)))"

lemma op_eq_refl [simp, intro]: "op_eq n F F"
  unfolding op_eq_def by (intro exI [of _ 1]) simp

lemma op_eq_sym: "op_eq n F G \<Longrightarrow> op_eq n G F"
proof -
  assume "op_eq n F G"
  then obtain c where c: "c \<noteq> 0" "\<And>v. in_space n v \<Longrightarrow> F v = vscale c (G v)" by (auto simp: op_eq_def)
  then have "in_space n v \<Longrightarrow> G v = vscale (1 / c) (F v)" for v by simp
  with c(1) show ?thesis unfolding op_eq_def by (intro exI [of _ "1 / c"]) auto
qed

lemma op_eq_trans [trans]: "op_eq n F G \<Longrightarrow> op_eq n G H \<Longrightarrow> op_eq n F H"
proof -
  assume "op_eq n F G" "op_eq n G H"
  then obtain c d where "c \<noteq> 0" "\<And>v. in_space n v \<Longrightarrow> F v = vscale c (G v)"
    "d \<noteq> 0" "\<And>v. in_space n v \<Longrightarrow> G v = vscale d (H v)" by (auto simp: op_eq_def)
  then show ?thesis unfolding op_eq_def by (intro exI [of _ "c * d"]) auto
qed

definition space_op :: "nat \<Rightarrow> (qvec \<Rightarrow> qvec) \<Rightarrow> bool" where
  "space_op n F \<longleftrightarrow> linear_op F \<and> (\<forall>v. in_space n v \<longrightarrow> in_space n (F v))"

lemma space_op_comp: "space_op n F \<Longrightarrow> space_op n G \<Longrightarrow> space_op n (\<lambda>v. F (G v))"
  by (simp add: space_op_def linear_op_def)

lemma space_op_string [intro]: "string_ok n xs \<Longrightarrow> space_op n (trait_apply_string q_trait xs)"
  by (simp add: space_op_def linear_apply_string in_space_apply)

lemma op_eq_comp:
  assumes "op_eq n F F'" "op_eq n G G'" "space_op n F" "space_op n G'"
  shows "op_eq n (\<lambda>v. F (G v)) (\<lambda>v. F' (G' v))"
proof -
  obtain c d where c: "c \<noteq> 0" "\<And>v. in_space n v \<Longrightarrow> F v = vscale c (F' v)"
    and d: "d \<noteq> 0" "\<And>v. in_space n v \<Longrightarrow> G v = vscale d (G' v)" using assms by (auto simp: op_eq_def)
  have "F (G v) = vscale (d * c) (F' (G' v))" if "in_space n v" for v
  proof -
    have g: "in_space n (G' v)" using assms(4) that by (simp add: space_op_def)
    have "F (G v) = vscale d (F (G' v))" using d that assms(3) by (simp add: space_op_def linear_opD(2))
    with c(2) [OF g] show ?thesis by simp
  qed
  with c(1) d(1) show ?thesis unfolding op_eq_def by (intro exI [of _ "d * c"]) auto
qed

text \<open>Two circuits with the same tableau are the same operator up to a global scalar.\<close>

lemma tableau_determines_circuit:
  assumes xs: "string_ok n xs" and ys: "string_ok n ys"
    and eq: "trait_apply_string st_trait xs (st_init n) = trait_apply_string st_trait ys (st_init n)"
  shows "op_eq n (trait_apply_string q_trait xs) (trait_apply_string q_trait ys)"
proof -
  let ?zs = "xs @ inverse_string ys"
  have zs: "string_ok n ?zs" using xs ys by (simp add: qv.inverse_string_ok)
  have "trait_apply_string st_trait ?zs (st_init n) = st_init n"
    using eq st.apply_inverse_string [OF st_init_wf ys] by simp
  then obtain c where c: "c \<noteq> 0" "\<And>v. in_space n v \<Longrightarrow> trait_apply_string q_trait ?zs v = vscale c v"
    using identity_tableau_scalar [OF zs] by blast
  have "trait_apply_string q_trait xs v = vscale c (trait_apply_string q_trait ys v)" if v: "in_space n v" for v
  proof -
    have "trait_apply_string q_trait xs v = trait_apply_string q_trait ys (trait_apply_string q_trait ?zs v)"
      using qv.apply_string_inverse [OF in_space_apply [OF v xs] ys] by simp
    also have "\<dots> = vscale c (trait_apply_string q_trait ys v)"
      unfolding c(2) [OF v] by (rule linear_opD(2) [OF linear_apply_string [OF ys]])
    finally show ?thesis .
  qed
  with c(1) show ?thesis by (auto simp: op_eq_def)
qed

lemma adjoint_circuit:
  assumes xs: "string_ok n xs"
  shows "op_eq n (\<lambda>v. trait_apply_string q_trait (adjoint_string xs) (trait_apply_string q_trait xs v)) (\<lambda>v. v)"
proof -
  have "trait_apply_string st_trait (xs @ adjoint_string xs) (st_init n) = trait_apply_string st_trait [] (st_init n)"
    using st.apply_adjoint_string [OF st_init_wf xs] by simp
  with tableau_determines_circuit [of n "xs @ adjoint_string xs" "[]"] xs
  have "op_eq n (trait_apply_string q_trait (xs @ adjoint_string xs)) (trait_apply_string q_trait [])" by simp
  then show ?thesis by (simp add: op_eq_def)
qed

end
