(* ===== verification/Rotations.thy ===== *)
theory Rotations
  imports StabilizerPrepend Phase BooleanMatrix
begin

text \<open>
  The class \<open>PauliRotation\<close> and the functions on rotations of src/src/tableau/pauli_rotation.hpp and
  pauli_rotation.cpp. A rotation is a Pauli product with a phase; every operation that can turn the
  sign of the product moves the sign into the phase. \<open>extract_clifford_operators\<close> on a rotation
  returns the operators that turn its product into a single Z. \<open>back()\<close> on the empty list of
  qubits is undefined in C++, so the model returns \<open>None\<close> for a product of identities.
\<close>

section \<open>Definitions\<close>

record pauli_rotation =
  rot_product :: pauli_product
  rot_phase :: phase

definition rot_normalize :: "pauli_rotation \<Rightarrow> pauli_rotation" where
  "rot_normalize R =
     (if is_neg (rot_product R)
      then R\<lparr>rot_product := pp_negate (rot_product R), rot_phase := phase_negate (rot_phase R)\<rparr>
      else R)"

definition mk_rotation :: "pauli_product \<Rightarrow> phase \<Rightarrow> pauli_rotation" where
  "mk_rotation P ph = rot_normalize \<lparr>rot_product = P, rot_phase = ph\<rparr>"

definition rotation_of_paulis :: "pauli list \<Rightarrow> phase \<Rightarrow> pauli_rotation" where
  "rotation_of_paulis ps ph = mk_rotation (pp_of_paulis ps False) ph"

definition rotation_of_string :: "string \<Rightarrow> phase \<Rightarrow> pauli_rotation option" where
  "rotation_of_string str ph = map_option (\<lambda>P. mk_rotation P ph) (pp_of_string str)"

definition rot_n_qubits :: "pauli_rotation \<Rightarrow> nat" where
  "rot_n_qubits R = pp_n_qubits (rot_product R)"

definition rot_is_commutative :: "pauli_rotation \<Rightarrow> pauli_rotation \<Rightarrow> bool" where
  "rot_is_commutative R S = pp_is_commutative (rot_product R) (rot_product S)"

definition rot_is_diagonal :: "pauli_rotation \<Rightarrow> bool" where
  "rot_is_diagonal R = is_diagonal (rot_product R)"

definition rot_to_string :: "char \<Rightarrow> pauli_rotation \<Rightarrow> string" where
  "rot_to_string signedness R =
     ''exp(i * '' @ get_print_string (rot_phase R) @ '' * '' @ pp_to_string signedness (rot_product R) @ '')''"

definition rot_to_bit_string :: "pauli_rotation \<Rightarrow> string" where
  "rot_to_bit_string R =
     take (2 * rot_n_qubits R + 1) (pp_to_bit_string (rot_product R)) @ '' '' @ get_print_string (rot_phase R)"

definition rot_h :: "nat \<Rightarrow> pauli_rotation \<Rightarrow> pauli_rotation" where
  "rot_h q R = rot_normalize (R\<lparr>rot_product := pp_h q (rot_product R)\<rparr>)"

definition rot_s :: "nat \<Rightarrow> pauli_rotation \<Rightarrow> pauli_rotation" where
  "rot_s q R = rot_normalize (R\<lparr>rot_product := pp_s q (rot_product R)\<rparr>)"

definition rot_cx :: "nat \<Rightarrow> nat \<Rightarrow> pauli_rotation \<Rightarrow> pauli_rotation" where
  "rot_cx c t R = rot_normalize (R\<lparr>rot_product := pp_cx c t (rot_product R)\<rparr>)"

definition rot_trait :: "pauli_rotation pauli_product_trait" where
  "rot_trait = \<lparr>h_op = rot_h, s_op = rot_s, cx_op = rot_cx\<rparr>"

text \<open>The basis changes, the qubits that are not I, and the chain of CX over adjacent ones.\<close>

definition basis_change_ops :: "pauli_product \<Rightarrow> clifford_string" where
  "basis_change_ops P =
     concat (map (\<lambda>i. if get_pauli_type P i = PX then [(COT_h, i, 0)]
                      else if get_pauli_type P i = PY then [(COT_v, i, 0)] else [])
       [0..<pp_n_qubits P])"

definition non_i_qubits :: "pauli_product \<Rightarrow> nat list" where
  "non_i_qubits P = filter (\<lambda>i. get_pauli_type P i \<noteq> PI) [0..<pp_n_qubits P]"

definition cx_chain :: "nat list \<Rightarrow> clifford_string" where
  "cx_chain qs = map (\<lambda>(c, t). (COT_cx, c, t)) (zip qs (tl qs))"

definition rot_extract_clifford_operators :: "pauli_rotation \<Rightarrow> (clifford_string \<times> nat) option" where
  "rot_extract_clifford_operators R =
     (let P = rot_product R; qs = non_i_qubits P in
      if qs = [] then None else Some (basis_change_ops P @ cx_chain qs, last qs))"

text \<open>The rank of the Z parts of a list of rotations; the code reads \<open>front()\<close>, so the list is not empty.\<close>

definition rot_matrix_rank :: "pauli_rotation list \<Rightarrow> nat" where
  "rot_matrix_rank rs =
     (let n = rot_n_qubits (hd rs) in
      matrix_rank (bm_of_rows (map (\<lambda>R. map (\<lambda>j. if is_z_set (rot_product R) j then 1 else 0) [0..<n]) rs)))"

section \<open>The class invariant\<close>

definition rot_ok :: "nat \<Rightarrow> pauli_rotation \<Rightarrow> bool" where
  "rot_ok n R \<longleftrightarrow> pp_ok n (rot_product R) \<and> \<not> is_neg (rot_product R) \<and> phase_ok (rot_phase R)"

lemma rot_okD:
  "rot_ok n R \<Longrightarrow> pp_ok n (rot_product R)" "rot_ok n R \<Longrightarrow> \<not> is_neg (rot_product R)" "rot_ok n R \<Longrightarrow> phase_ok (rot_phase R)"
  by (simp_all add: rot_ok_def)

lemma rot_trait_sel [simp]: "h_op rot_trait = rot_h" "s_op rot_trait = rot_s" "cx_op rot_trait = rot_cx"
  by (simp_all add: rot_trait_def)

lemma pp_ok_negate [simp]: "pp_ok n (pp_negate P) = pp_ok n P"
  by (simp add: pp_ok_def pp_negate_def)

lemma mk_rotation_ok: "pp_ok n P \<Longrightarrow> phase_ok ph \<Longrightarrow> rot_ok n (mk_rotation P ph)"
  by (auto simp: mk_rotation_def rot_normalize_def rot_ok_def pp_negate_bits phase_negate_ok pp_okD)

lemma mk_rotation_self: "rot_ok n R \<Longrightarrow> mk_rotation (rot_product R) (rot_phase R) = R"
  by (simp add: mk_rotation_def rot_normalize_def rot_ok_def)

lemma mk_rotation_sign:
  "mk_rotation P ph = (if is_neg P then \<lparr>rot_product = pp_negate P, rot_phase = phase_negate ph\<rparr>
     else \<lparr>rot_product = P, rot_phase = ph\<rparr>)"
  by (simp add: mk_rotation_def rot_normalize_def)

text \<open>A gate on a rotation is the gate on its product, whatever its sign.\<close>

lemma size_negate [simp]: "pp_n_qubits (pp_negate P) = pp_n_qubits P" "pp_wf (pp_negate P) = pp_wf P"
  by (simp_all add: pp_negate_def)

lemma pp_negate_negate: "pp_wf P \<Longrightarrow> pp_negate (pp_negate P) = P"
  by (rule pp_eqI) (auto simp: pp_negate_bits)

lemma mk_rotation_negate: "pp_ok n P \<Longrightarrow> phase_ok ph \<Longrightarrow> mk_rotation (pp_negate P) (phase_negate ph) = mk_rotation P ph"
  by (auto simp: mk_rotation_sign pp_negate_bits pp_okD pp_negate_negate phase_negate_negate)

lemma pp_gates_negate:
  "pp_wf P \<Longrightarrow> pp_h q (pp_negate P) = pp_negate (pp_h q P)"
  "pp_wf P \<Longrightarrow> pp_s q (pp_negate P) = pp_negate (pp_s q P)"
  "pp_wf P \<Longrightarrow> pp_cx c t (pp_negate P) = pp_negate (pp_cx c t P)"
proof -
  assume P: "pp_wf P"
  show "pp_h q (pp_negate P) = pp_negate (pp_h q P)"
  proof (cases "q < pp_n_qubits P")
    case True
    with P show ?thesis by (intro pp_eqI) (auto simp: bit_simps bxor_def)
  qed (simp add: pp_ops_out_of_range)
  show "pp_s q (pp_negate P) = pp_negate (pp_s q P)"
  proof (cases "q < pp_n_qubits P")
    case True
    with P show ?thesis by (intro pp_eqI) (auto simp: bit_simps bxor_def)
  qed (simp add: pp_ops_out_of_range)
  show "pp_cx c t (pp_negate P) = pp_negate (pp_cx c t P)"
  proof (cases "c < pp_n_qubits P \<and> t < pp_n_qubits P")
    case True
    with P show ?thesis by (intro pp_eqI) (auto simp: bit_simps bxor_def)
  qed (auto simp: pp_ops_out_of_range not_less)
qed

definition lifts :: "nat \<Rightarrow> (pauli_rotation \<Rightarrow> pauli_rotation) \<Rightarrow> (pauli_product \<Rightarrow> pauli_product) \<Rightarrow> bool" where
  "lifts n F f \<longleftrightarrow> (\<forall>P ph. pp_ok n P \<longrightarrow> phase_ok ph \<longrightarrow>
     pp_ok n (f P) \<and> F (mk_rotation P ph) = mk_rotation (f P) ph)"

lemma lifts_comp: "lifts n F f \<Longrightarrow> lifts n G g \<Longrightarrow> lifts n (\<lambda>a. F (G a)) (\<lambda>a. f (g a))"
  by (simp add: lifts_def)

lemma liftsI:
  assumes "\<And>P. pp_ok n P \<Longrightarrow> pp_ok n (f P)" "\<And>P. pp_ok n P \<Longrightarrow> f (pp_negate P) = pp_negate (f P)"
    and "\<And>R. F R = rot_normalize (R\<lparr>rot_product := f (rot_product R)\<rparr>)"
  shows "lifts n F f"
  unfolding lifts_def
proof (intro allI impI conjI)
  fix P ph assume P: "pp_ok n P" "phase_ok ph"
  show "pp_ok n (f P)" by (rule assms(1) [OF P(1)])
  have F: "F \<lparr>rot_product = Q, rot_phase = p\<rparr> = mk_rotation (f Q) p" for Q p
    by (simp add: assms(3) mk_rotation_def)
  show "F (mk_rotation P ph) = mk_rotation (f P) ph"
    using P mk_rotation_negate [OF assms(1) [OF P(1)] P(2)] assms(2) [OF P(1)]
    by (cases "is_neg P") (simp_all add: mk_rotation_sign [of P] F)
qed

lemma lifts_generators:
  "lifts n (rot_h q) (pp_h q)" "lifts n (rot_s q) (pp_s q)" "lifts n (rot_cx c t) (pp_cx c t)"
proof -
  show "lifts n (rot_h q) (pp_h q)"
    by (rule liftsI) (auto simp: rot_h_def pp_gates_negate pp_ok_def)
  show "lifts n (rot_s q) (pp_s q)"
    by (rule liftsI) (auto simp: rot_s_def pp_gates_negate pp_ok_def)
  show "lifts n (rot_cx c t) (pp_cx c t)"
    by (rule liftsI) (auto simp: rot_cx_def pp_gates_negate pp_ok_def)
qed

lemma lifts_op: "op_ok n x \<Longrightarrow> lifts n (trait_apply rot_trait x) (trait_apply pp_trait x)"
proof (rule trait_apply_rel [where R = "lifts n" and n = n])
  show "lifts n F F' \<Longrightarrow> lifts n G G' \<Longrightarrow> lifts n (\<lambda>a. F (G a)) (\<lambda>a. F' (G' a))" for F G F' G'
    by (simp add: lifts_def)
qed (simp_all add: lifts_generators)

lemma lifts_string: "string_ok n xs \<Longrightarrow> lifts n (trait_apply_string rot_trait xs) (trait_apply_string pp_trait xs)"
proof (rule trait_apply_string_rel [where R = "lifts n" and n = n])
  show "lifts n F F' \<Longrightarrow> lifts n G G' \<Longrightarrow> lifts n (\<lambda>a. F (G a)) (\<lambda>a. F' (G' a))" for F G F' G'
    by (simp add: lifts_def)
qed (simp_all add: lifts_generators lifts_def [of n "\<lambda>a. a"])

lemma lifts_self:
  assumes "lifts n F f" "rot_ok n R"
  shows "F R = mk_rotation (f (rot_product R)) (rot_phase R)"
  using assms mk_rotation_self [OF assms(2)] rot_okD [OF assms(2)] unfolding lifts_def by metis

lemma lifts_ok:
  assumes "lifts n F f" "rot_ok n R"
  shows "rot_ok n (F R)"
  unfolding lifts_self [OF assms]
  using assms rot_okD [OF assms(2)] by (intro mk_rotation_ok) (simp_all add: lifts_def)

text \<open>An identity of operators on products is one on rotations.\<close>

lemma lifts_id:
  assumes "lifts n F f" "rot_ok n R" "f (rot_product R) = rot_product R"
  shows "F R = R"
  by (simp add: lifts_self [OF assms(1,2)] assms(3) mk_rotation_self [OF assms(2)])

interpretation rt: pauli_trait rot_trait rot_ok
proof unfold_locales
  fix n q :: nat and a :: pauli_rotation
  assume a: "rot_ok n a" and q: "q < n"
  note P = rot_okD(1) [OF a]
  show "rot_ok n (h_op rot_trait q a)" "rot_ok n (s_op rot_trait q a)"
    using a by (auto intro: lifts_ok lifts_generators)
  show "h_op rot_trait q (h_op rot_trait q a) = a"
    unfolding rot_trait_sel
    by (rule lifts_id [OF lifts_comp [OF lifts_generators(1) lifts_generators(1)] a])
      (use pp.h_h [OF P q] in simp)
  show "s_op rot_trait q (s_op rot_trait q (s_op rot_trait q (s_op rot_trait q a))) = a"
    unfolding rot_trait_sel
    by (rule lifts_id [OF lifts_comp [OF lifts_generators(2) lifts_comp [OF lifts_generators(2)
        lifts_comp [OF lifts_generators(2) lifts_generators(2)]]] a])
      (use pp.s_4 [OF P q] in simp)
  have "op_ok n (COT_y, q, 0)" using q by simp
  note y = lifts_op [OF this]
  show "trait_y rot_trait q (trait_y rot_trait q a) = a"
    using lifts_id [OF lifts_comp [OF y y] a] pp.y_y [OF P q] by simp
next
  fix n c t :: nat and a :: pauli_rotation
  assume a: "rot_ok n a" and ct: "c < n" "t < n" "c \<noteq> t"
  note P = rot_okD(1) [OF a]
  show "rot_ok n (cx_op rot_trait c t a)" using a by (auto intro: lifts_ok lifts_generators)
  show "cx_op rot_trait c t (cx_op rot_trait c t a) = a"
    unfolding rot_trait_sel
    by (rule lifts_id [OF lifts_comp [OF lifts_generators(3) lifts_generators(3)] a])
      (use pp.cx_cx [OF P ct] in simp)
  have "op_ok n (COT_ecr, c, t)" using ct by simp
  note e = lifts_op [OF this]
  show "trait_ecr rot_trait c t (trait_ecr rot_trait c t a) = a"
    using lifts_id [OF lifts_comp [OF e e] a] pp.ecr_ecr [OF P ct] by simp
qed

section \<open>Reduction of a product to a single Z\<close>

lemma type_not_I: "get_pauli_type P i \<noteq> PI \<longleftrightarrow> is_z_set P i \<or> is_x_set P i"
  by (simp add: get_pauli_type_def)

lemma basis_change:
  assumes P: "pp_ok n P" and k: "k \<le> n"
  defines "f \<equiv> \<lambda>i. if get_pauli_type P i = PX then [(COT_h, i, 0)]
                      else if get_pauli_type P i = PY then [(COT_v, i, 0)] else []"
  defines "Q \<equiv> trait_apply_string pp_trait (concat (map f [0..<k])) P"
  shows "pp_ok n Q \<and> is_neg Q = is_neg P \<and>
    (\<forall>i < n. is_z_set Q i = (if i < k then get_pauli_type P i \<noteq> PI else is_z_set P i) \<and>
      is_x_set Q i = (k \<le> i \<and> is_x_set P i))"
  using k unfolding Q_def
proof (induction k)
  case (Suc k)
  define Q where "Q = trait_apply_string pp_trait (concat (map f [0..<k])) P"
  have Q: "pp_ok n Q" "is_neg Q = is_neg P"
    "\<And>i. i < n \<Longrightarrow> is_z_set Q i = (if i < k then get_pauli_type P i \<noteq> PI else is_z_set P i)"
    "\<And>i. i < n \<Longrightarrow> is_x_set Q i = (k \<le> i \<and> is_x_set P i)"
    using Suc by (auto simp: Q_def)
  have Qw: "pp_wf Q" "pp_n_qubits Q = n" using Q(1) by (simp_all add: pp_okD)
  have step: "trait_apply_string pp_trait (concat (map f [0..<Suc k])) P = trait_apply_string pp_trait (f k) Q"
    by (simp add: Q_def)
  have k: "k < n" using Suc.prems by simp
  consider "get_pauli_type P k = PX" | "get_pauli_type P k = PY" | "get_pauli_type P k = PI \<or> get_pauli_type P k = PZ"
    by (cases "get_pauli_type P k") auto
  then show ?case
  proof cases
    case 1
    then have "is_x_set P k" "\<not> is_z_set P k" by (auto simp: get_pauli_type_def split: if_splits)
    moreover have "f k = [(COT_h, k, 0)]" using 1 by (simp add: f_def)
    ultimately show ?thesis
      unfolding step using 1 Q Qw k by (auto simp: pp_ok_def pp_h_bits less_Suc_eq)
  next
    case 2
    then have "is_x_set P k" "is_z_set P k" by (auto simp: get_pauli_type_def split: if_splits)
    moreover have "f k = [(COT_v, k, 0)]" using 2 by (simp add: f_def)
    ultimately show ?thesis
      unfolding step using 2 Q Qw k by (auto simp: pp_ok_def pp_v_bits less_Suc_eq)
  next
    case 3
    then have "\<not> is_x_set P k" "get_pauli_type P k \<noteq> PI \<longleftrightarrow> is_z_set P k" "f k = []"
      by (auto simp: get_pauli_type_def f_def split: if_splits)
    then show ?thesis
      unfolding step using Q k by (auto simp: less_Suc_eq)
  qed
qed (use P in auto)

lemma chain_reduces:
  assumes "pp_ok n P" "\<not> is_neg P" "qs \<noteq> []" "distinct qs" "set qs \<subseteq> {..<n}"
    and "\<And>i. i < n \<Longrightarrow> is_z_set P i = (i \<in> set qs) \<and> \<not> is_x_set P i"
  shows "trait_apply_string pp_trait (cx_chain qs) P = z_gen n (last qs)"
  using assms
proof (induction qs arbitrary: P)
  case (Cons q qs)
  have w: "pp_wf P" "pp_n_qubits P = n" using Cons.prems(1) by (simp_all add: pp_okD)
  show ?case
  proof (cases qs)
    case Nil
    have q: "q < n" using Cons.prems(5) by simp
    have "P = z_gen n q"
      by (rule pp_eqI) (use w q Nil Cons.prems(2,6) in auto)
    then show ?thesis by (simp add: Nil cx_chain_def)
  next
    case (Cons r rs)
    have qr: "q < n" "r < n" "q \<noteq> r" using Cons.prems Cons by auto
    have "trait_apply_string pp_trait (cx_chain qs) (pp_cx q r P) = z_gen n (last qs)"
    proof (rule Cons.IH)
      show "pp_ok n (pp_cx q r P)" using w by (simp add: pp_ok_def)
      show "\<not> is_neg (pp_cx q r P)" using w qr Cons.prems(2,6) by (simp add: pp_cx_bits)
      fix i assume i: "i < n"
      show "is_z_set (pp_cx q r P) i = (i \<in> set qs) \<and> \<not> is_x_set (pp_cx q r P) i"
        using w qr i Cons.prems(4,6) Cons by (auto simp: pp_cx_bits)
    qed (use Cons.prems Cons in auto)
    then show ?thesis by (simp add: Cons cx_chain_def)
  qed
qed simp

lemma string_ok_basis_change: "pp_ok n P \<Longrightarrow> string_ok n (basis_change_ops P)"
  by (auto simp: string_ok_def basis_change_ops_def list_all_iff pp_okD split: if_splits)

lemma string_ok_chain: "distinct qs \<Longrightarrow> set qs \<subseteq> {..<n} \<Longrightarrow> string_ok n (cx_chain qs)"
proof (induction qs)
  case (Cons q qs)
  then show ?case by (cases qs) (auto simp: cx_chain_def)
qed (simp add: cx_chain_def)

lemma non_i_props: "pp_ok n P \<Longrightarrow> distinct (non_i_qubits P) \<and> set (non_i_qubits P) \<subseteq> {..<n}"
  "pp_ok n P \<Longrightarrow> non_i_qubits P = [] \<longleftrightarrow> is_identity P"
  by (auto simp: non_i_qubits_def pp_okD is_identity_def list_all_iff is_i_def filter_empty_conv get_pauli_type_def
      split: if_splits)

lemma reduce_product:
  assumes P: "pp_ok n P" "\<not> is_neg P" and qs: "non_i_qubits P \<noteq> []"
  shows "trait_apply_string pp_trait (basis_change_ops P @ cx_chain (non_i_qubits P)) P = z_gen n (last (non_i_qubits P))"
proof -
  define Q where "Q = trait_apply_string pp_trait (basis_change_ops P) P"
  have Q: "pp_ok n Q \<and> is_neg Q = is_neg P \<and>
    (\<forall>i < n. is_z_set Q i = (if i < n then get_pauli_type P i \<noteq> PI else is_z_set P i) \<and>
      is_x_set Q i = (n \<le> i \<and> is_x_set P i))"
    unfolding Q_def basis_change_ops_def pp_okD(2) [OF P(1)] by (rule basis_change [OF P(1) order_refl])
  have "trait_apply_string pp_trait (cx_chain (non_i_qubits P)) Q = z_gen n (last (non_i_qubits P))"
    by (rule chain_reduces)
      (use Q P qs non_i_props(1) [OF P(1)] in \<open>auto simp: non_i_qubits_def pp_okD(2) [OF P(1)]\<close>)
  then show ?thesis by (simp add: Q_def)
qed

lemma rot_extract_spec:
  assumes R: "rot_ok n R"
  shows "rot_extract_clifford_operators R = None \<longleftrightarrow> is_identity (rot_product R)"
    "rot_extract_clifford_operators R = Some (ops, q) \<Longrightarrow> string_ok n ops \<and> q < n \<and>
       trait_apply_string pp_trait ops (rot_product R) = z_gen n q \<and>
       trait_apply_string rot_trait ops R = \<lparr>rot_product = z_gen n q, rot_phase = rot_phase R\<rparr>"
proof -
  let ?P = "rot_product R"
  note P = rot_okD(1,2) [OF R]
  show "rot_extract_clifford_operators R = None \<longleftrightarrow> is_identity ?P"
    by (simp add: rot_extract_clifford_operators_def Let_def non_i_props [OF P(1)])
  assume "rot_extract_clifford_operators R = Some (ops, q)"
  then have qs: "non_i_qubits ?P \<noteq> []" and ops: "ops = basis_change_ops ?P @ cx_chain (non_i_qubits ?P)"
    and q: "q = last (non_i_qubits ?P)"
    by (auto simp: rot_extract_clifford_operators_def Let_def split: if_splits)
  have s: "string_ok n ops"
    using string_ok_basis_change [OF P(1)] string_ok_chain non_i_props(1) [OF P(1)] by (simp add: ops)
  have q': "q < n" using last_in_set [OF qs] non_i_props(1) [OF P(1)] q by auto
  have pp: "trait_apply_string pp_trait ops ?P = z_gen n q"
    unfolding ops q by (rule reduce_product [OF P qs])
  have "trait_apply_string rot_trait ops R = mk_rotation (z_gen n q) (rot_phase R)"
    using lifts_self [OF lifts_string [OF s] R] pp by simp
  then show "string_ok n ops \<and> q < n \<and> trait_apply_string pp_trait ops ?P = z_gen n q \<and>
       trait_apply_string rot_trait ops R = \<lparr>rot_product = z_gen n q, rot_phase = rot_phase R\<rparr>"
    using s q' pp by (simp add: mk_rotation_sign)
qed

end
