(* ===== verification/RotationSemantics.thy ===== *)
theory RotationSemantics
  imports Circuits Rotations
begin

text \<open>
  The meaning of Pauli rotations as operators on state vectors: a rotation of the product \<open>P\<close> by
  the angle \<open>t\<close> times pi is \<open>(1+w)/2 + (1-w)/2 P\<close> with \<open>w = cis (pi t)\<close>, which is
  \<open>exp(-i pi t P / 2)\<close> up to a global scalar. The lemmas are what the optimisation passes rest on:
  angles of equal products add, rotations of commuting products commute, a gate moves through a
  rotation by conjugating its product, and rotations by a quarter, half and minus a quarter turn
  around a single Z are the gates S, Z and the adjoint of S.
\<close>

section \<open>Pauli products as operators\<close>

lemma in_space_q_pauli: "pp_ok n P \<Longrightarrow> in_space n v \<Longrightarrow> in_space n (q_pauli P v)"
  by (auto simp: in_space_def q_pauli_def act_state_def pp_okD)

lemma q_pauli_negate: "pp_wf P \<Longrightarrow> q_pauli (pp_negate P) v = vscale (-1) (q_pauli P v)"
proof
  fix b assume P: "pp_wf P"
  have s: "act_state (pp_negate P) b = act_state P b" using P by (auto simp: act_state_def fun_eq_iff pp_negate_bits)
  have ps: "phase_sum (pp_negate P) c = phase_sum P c" for c
    unfolding phase_sum_def using P by (simp add: pp_negate_bits)
  have "\<i> ^ act_phase (pp_negate P) c = \<i> ^ (2 + act_phase P c)" for c
    by (rule i_power_cong) (use P in \<open>auto simp: act_phase_def ps pp_negate_bits mod_simps\<close>)
  then show "q_pauli (pp_negate P) v b = vscale (-1) (q_pauli P v) b"
    by (simp add: q_pauli_def s vscale_def power_add)
qed

lemma q_pauli_identity: "pp_ok n P \<Longrightarrow> is_identity P \<Longrightarrow> \<not> is_neg P \<Longrightarrow> q_pauli P v = v"
proof
  fix b assume P: "pp_ok n P" "is_identity P" "\<not> is_neg P"
  then have z: "\<not> is_z_set P i" "\<not> is_x_set P i" if "i < pp_n_qubits P" for i
    using that by (auto simp: is_identity_def is_i_def list_all_iff)
  have "act_state P b = b" using z by (auto simp: act_state_def fun_eq_iff)
  moreover have "phase_sum P b = 0" unfolding phase_sum_def using z by (simp add: local_phase_def)
  ultimately show "q_pauli P v b = v b" using P(3) by (simp add: q_pauli_def act_phase_def)
qed

lemma pw_self: "pw P P = 0"
  unfolding pw_def by (rule sum.neutral) (auto simp: local_power_eval)

lemma q_pauli_twice:
  assumes "pp_ok n P"
  shows "q_pauli P (q_pauli P v) = v"
proof -
  have w: "pp_wf P" "pp_n_qubits P = n" using assms by (simp_all add: pp_okD)
  have "is_identity (pp_times P P)"
    using w by (simp add: is_identity_def is_i_def list_all_iff pp_times_bits)
  moreover have "\<not> is_neg (pp_times P P)" using w by (simp add: pp_times_bits pw_self)
  moreover have "pp_ok n (pp_times P P)" using assms by simp
  ultimately show ?thesis
    using q_pauli_times [OF assms assms] by (simp add: symp_self q_pauli_identity [of n])
qed

lemma local_power_swap: "(local_power z x z' x' + local_power z' x' z x) mod 4 = 0"
  by (auto simp: local_power_eval)

lemma pw_swap: "pp_n_qubits P = pp_n_qubits Q \<Longrightarrow> (pw P Q + pw Q P) mod 4 = 0"
  unfolding pw_def
  by (simp add: sum.distrib [symmetric])
    (subst mod_sum_eq [symmetric], simp add: local_power_swap)

lemma pp_times_commute:
  assumes "pp_ok n P" "pp_ok n Q" "\<not> symp P Q"
  shows "pp_times P Q = pp_times Q P"
proof -
  have w: "pp_wf P" "pp_wf Q" "pp_n_qubits P = n" "pp_n_qubits Q = n" using assms by (simp_all add: pp_okD)
  have "even (pw P Q)" "(pw P Q + pw Q P) mod 4 = 0" using assms(3) odd_pw pw_swap w by auto
  then have "(2 \<le> pw P Q mod 4) = (2 \<le> pw Q P mod 4)" by presburger
  with w show ?thesis by (intro pp_eqI) (auto simp: pp_times_bits bxor_ac)
qed

lemma q_pauli_commute:
  assumes "pp_ok n P" "pp_ok n Q" "\<not> symp P Q"
  shows "q_pauli P (q_pauli Q v) = q_pauli Q (q_pauli P v)"
  using q_pauli_times [OF assms(1,2)] q_pauli_times [OF assms(2,1)] assms pp_times_commute [OF assms]
    symp_sym [of P Q] by (simp add: pp_okD)

section \<open>Rotations\<close>

definition q_rot :: "pauli_product \<Rightarrow> real \<Rightarrow> qvec \<Rightarrow> qvec" where
  "q_rot P t v = vplus (vscale ((1 + cis (pi * t)) / 2) v) (vscale ((1 - cis (pi * t)) / 2) (q_pauli P v))"

lemma linear_q_rot: "linear_op (q_rot P t)"
proof -
  have "linear_op (\<lambda>v. vplus (vscale a v) (vscale b (q_pauli P v)))" for a b
    using linear_gates(4) [of P]
    by (simp add: linear_op_def vplus_def vscale_def fun_eq_iff distrib_left add_ac mult_ac)
  then show ?thesis unfolding q_rot_def .
qed

lemma in_space_plus: "in_space n v \<Longrightarrow> in_space n w \<Longrightarrow> in_space n (vplus v w)"
  unfolding in_space_def vplus_def by (metis add.right_neutral)

lemma space_op_q_rot: "pp_ok n P \<Longrightarrow> space_op n (q_rot P t)"
  by (auto simp: space_op_def linear_q_rot q_rot_def intro!: in_space_plus in_space_scale in_space_q_pauli)

lemma q_rot_conj:
  assumes "linear_op F" "\<And>v. F (q_pauli P v) = q_pauli P' (F v)"
  shows "F (q_rot P t v) = q_rot P' t (F v)"
  by (simp add: q_rot_def linear_opD [OF assms(1)] assms(2))

lemma q_rot_add:
  assumes "pp_ok n P"
  shows "q_rot P s (q_rot P t v) = q_rot P (s + t) v"
proof
  fix b
  define x y where "x = cis (pi * s)" and "y = cis (pi * t)"
  have PP: "q_pauli P (q_rot P t v) = vplus (vscale ((1 + y) / 2) (q_pauli P v)) (vscale ((1 - y) / 2) v)"
    by (simp add: q_rot_def linear_opD [OF linear_gates(4)] q_pauli_twice [OF assms] y_def)
  have c: "cis (pi * (s + t)) = x * y" by (simp add: cis_mult distrib_left x_def y_def)
  have "(1 + x) / 2 * ((1 + y) / 2 * a + (1 - y) / 2 * b) + (1 - x) / 2 * ((1 + y) / 2 * b + (1 - y) / 2 * a)
    = (1 + x * y) / 2 * a + (1 - x * y) / 2 * b" for a b
    by (simp add: field_simps)
  then show "q_rot P s (q_rot P t v) b = q_rot P (s + t) v b"
    unfolding q_rot_def [of P s] PP
    unfolding q_rot_def vplus_def vscale_def c x_def [symmetric] y_def [symmetric] .
qed

lemma q_rot_zero: "q_rot P 0 v = v"
  by (simp add: q_rot_def vplus_def vscale_def)

lemma q_rot_commute:
  assumes "pp_ok n P" "pp_ok n Q" "\<not> symp P Q"
  shows "q_rot P s (q_rot Q t v) = q_rot Q t (q_rot P s v)"
proof (rule q_rot_conj [OF linear_q_rot])
  show "q_rot P s (q_pauli Q v) = q_pauli Q (q_rot P s v)" for v
    by (rule q_rot_conj [OF linear_gates(4), symmetric]) (rule q_pauli_commute [OF assms, symmetric])
qed

lemma q_rot_identity: "pp_ok n P \<Longrightarrow> is_identity P \<Longrightarrow> \<not> is_neg P \<Longrightarrow> q_rot P t v = v"
  by (auto simp: q_rot_def q_pauli_identity [of n] vplus_def vscale_def fun_eq_iff field_simps)

lemma q_rot_negate: "pp_wf P \<Longrightarrow> q_rot (pp_negate P) t v = vscale (cis (pi * t)) (q_rot P (- t) v)"
proof -
  assume P: "pp_wf P"
  have c: "cis (pi * t) * cis (- (pi * t)) = 1" by (simp add: cis_mult)
  have "(1 + cis (pi * t)) / 2 = cis (pi * t) * ((1 + cis (- (pi * t))) / 2)"
    "- ((1 - cis (pi * t)) / 2) = cis (pi * t) * ((1 - cis (- (pi * t))) / 2)"
    using c by (simp_all add: field_simps)
  note e = this
  have "q_rot (pp_negate P) t v = vplus (vscale ((1 + cis (pi * t)) / 2) v) (vscale (- ((1 - cis (pi * t)) / 2)) (q_pauli P v))"
    by (simp add: q_rot_def q_pauli_negate [OF P])
  also have "\<dots> = vscale (cis (pi * t)) (q_rot P (- t) v)"
    unfolding e by (simp only: q_rot_def vscale_vplus vscale_vscale mult_minus_right)
  finally show ?thesis .
qed

lemma cis_mod2: "mod2 x y \<Longrightarrow> cis (pi * real_of_rat x) = cis (pi * real_of_rat y)"
proof -
  assume "mod2 x y"
  then obtain k where "x = y + 2 * of_int k" by (auto simp: mod2_def)
  then have "pi * real_of_rat x = pi * real_of_rat y + 2 * pi * of_int k"
    by (simp add: of_rat_add of_rat_mult distrib_left)
  then have "cis (pi * real_of_rat x) = cis (pi * real_of_rat y) * cis (2 * pi * of_int k)" by (simp only: cis_mult)
  also have "cis (2 * pi * of_int k) = 1"
    by (rule cis_multiple_2pi) simp
  finally show ?thesis by simp
qed

lemma q_rot_mod2: "mod2 x y \<Longrightarrow> q_rot P (real_of_rat x) v = q_rot P (real_of_rat y) v"
  by (simp add: q_rot_def cis_mod2)

definition phase_angle :: "phase \<Rightarrow> real" where
  "phase_angle ph = real_of_rat (phase_val ph)"

definition rot_op :: "pauli_rotation \<Rightarrow> qvec \<Rightarrow> qvec" where
  "rot_op R = q_rot (rot_product R) (phase_angle (rot_phase R))"

definition rots_op :: "pauli_rotation list \<Rightarrow> qvec \<Rightarrow> qvec" where
  "rots_op rs v = fold rot_op rs v"

definition rots_ok :: "nat \<Rightarrow> pauli_rotation list \<Rightarrow> bool" where
  "rots_ok n rs = list_all (rot_ok n) rs"

lemma rots_op_simps [simp]: "rots_op [] v = v" "rots_op (R # rs) v = rots_op rs (rot_op R v)"
  "rots_op (rs @ ss) v = rots_op ss (rots_op rs v)"
  by (simp_all add: rots_op_def)

lemma rots_ok_simps [simp]: "rots_ok n []" "rots_ok n (R # rs) \<longleftrightarrow> rot_ok n R \<and> rots_ok n rs"
  "rots_ok n (rs @ ss) \<longleftrightarrow> rots_ok n rs \<and> rots_ok n ss"
  by (simp_all add: rots_ok_def)

lemma space_op_rot [intro]: "rot_ok n R \<Longrightarrow> space_op n (rot_op R)"
  by (simp add: rot_op_def space_op_q_rot rot_okD)

lemma space_op_rots [intro]: "rots_ok n rs \<Longrightarrow> space_op n (rots_op rs)"
proof (induction rs)
  case Nil
  then show ?case by (simp add: space_op_def linear_op_def rots_op_def)
next
  case (Cons R rs)
  then have "space_op n (\<lambda>v. rots_op rs (rot_op R v))"
    by (intro space_op_comp [of n "rots_op rs" "rot_op R"]) auto
  moreover have "rots_op (R # rs) = (\<lambda>v. rots_op rs (rot_op R v))" by (rule ext) simp
  ultimately show ?case by (simp only:)
qed

text \<open>Moving the sign of the product into the phase changes the operator by a scalar only.\<close>

lemma mk_rotation_op:
  assumes "pp_ok n P" "phase_ok ph"
  shows "op_eq m (rot_op (mk_rotation P ph)) (q_rot P (phase_angle ph))"
proof (cases "is_neg P")
  case True
  have "mod2 (phase_val (phase_negate ph)) (- phase_val ph)" using phase_negate_ok [OF assms(2)] by simp
  then have "rot_op (mk_rotation P ph) v = q_rot (pp_negate P) (- phase_angle ph) v" for v
    using True by (simp add: mk_rotation_sign rot_op_def phase_angle_def q_rot_mod2 flip: of_rat_minus)
  also have "\<dots> v = vscale (cis (pi * - phase_angle ph)) (q_rot P (phase_angle ph) v)" for v
    using q_rot_negate [of P] assms(1) by (simp add: pp_okD)
  finally show ?thesis unfolding op_eq_def by (intro exI [of _ "cis (pi * - phase_angle ph)"]) simp
qed (simp add: mk_rotation_sign rot_op_def)

section \<open>Gates and rotations\<close>

text \<open>A Clifford string moves through a list of rotations by conjugating each of them.\<close>

lemma string_through_rotation:
  assumes xs: "string_ok n xs" and R: "rot_ok n R"
  shows "op_eq n (\<lambda>v. trait_apply_string q_trait xs (rot_op R v))
    (\<lambda>v. rot_op (trait_apply_string rot_trait xs R) (trait_apply_string q_trait xs v))"
proof -
  let ?F = "trait_apply_string q_trait xs" and ?P = "trait_apply_string pp_trait xs (rot_product R)"
  note ok = rot_okD [OF R]
  have P: "pp_ok n ?P" using pp.apply_string_ok [OF ok(1) xs] .
  have c: "?F (rot_op R v) = q_rot ?P (phase_angle (rot_phase R)) (?F v)" for v
    unfolding rot_op_def
    by (rule q_rot_conj [OF linear_apply_string [OF xs]])
      (use conjugates_string [OF xs] ok(1) in \<open>simp add: conjugates_def\<close>)
  have r: "trait_apply_string rot_trait xs R = mk_rotation ?P (rot_phase R)"
    by (rule lifts_self [OF lifts_string [OF xs] R])
  have "op_eq n (\<lambda>v. q_rot ?P (phase_angle (rot_phase R)) (?F v)) (\<lambda>v. rot_op (mk_rotation ?P (rot_phase R)) (?F v))"
    by (rule op_eq_comp) (use xs P ok(3) in \<open>auto intro!: op_eq_sym [OF mk_rotation_op] space_op_q_rot\<close>)
  then show ?thesis by (simp add: c r)
qed

lemma string_through_rotations:
  assumes xs: "string_ok n xs" and rs: "rots_ok n rs"
  shows "op_eq n (\<lambda>v. trait_apply_string q_trait xs (rots_op rs v))
    (\<lambda>v. rots_op (map (trait_apply_string rot_trait xs) rs) (trait_apply_string q_trait xs v))"
  using rs
proof (induction rs)
  case (Cons R rs)
  let ?F = "trait_apply_string q_trait xs" and ?f = "trait_apply_string rot_trait xs"
  have ok: "rots_ok n (map ?f rs)" "rot_ok n (?f R)" "rots_ok n rs" "rot_ok n R"
    using Cons.prems xs by (auto simp: rots_ok_def list_all_iff intro: rt.apply_string_ok)
  have "op_eq n (\<lambda>v. ?F (rots_op rs (rot_op R v))) (\<lambda>v. rots_op (map ?f rs) (?F (rot_op R v)))"
    by (rule op_eq_comp [OF Cons.IH op_eq_refl]) (use ok xs in \<open>auto intro: space_op_comp\<close>)
  also have "op_eq n \<dots> (\<lambda>v. rots_op (map ?f rs) (rot_op (?f R) (?F v)))"
    by (rule op_eq_comp [OF op_eq_refl string_through_rotation [OF xs]])
      (use ok xs in \<open>auto intro: space_op_comp\<close>)
  finally show ?case by simp
qed simp

text \<open>Rotations around a single Z.\<close>

lemma q_rot_z_gen:
  assumes "q < n"
  shows "q_rot (z_gen n q) (1 / 2) v = q_s q v" "q_rot (z_gen n q) 1 v = trait_z q_trait q v"
    "q_rot (z_gen n q) (- (1 / 2)) v = trait_sdg q_trait q v"
proof -
  have c: "cis (pi / 2) = \<i>" "cis (- (pi / 2)) = - \<i>" by (simp_all add: complex_eq_iff)
  show "q_rot (z_gen n q) (1 / 2) v = q_s q v"
    using assms by (auto simp: q_rot_def q_s_def vplus_def vscale_def q_pauli_z_gen fun_eq_iff c field_simps)
  show "q_rot (z_gen n q) 1 v = trait_z q_trait q v"
    using assms by (auto simp: q_rot_def trait_z_def q_s_def vplus_def vscale_def q_pauli_z_gen fun_eq_iff field_simps)
  show "q_rot (z_gen n q) (- (1 / 2)) v = trait_sdg q_trait q v"
    using assms by (auto simp: q_rot_def trait_sdg_def q_s_def vplus_def vscale_def q_pauli_z_gen fun_eq_iff c field_simps)
qed

end
