(* ===== verification/Tableau.thy ===== *)
theory Tableau
  imports RotationSemantics
begin

text \<open>
  The class \<open>Tableau\<close> (src/src/tableau/tableau.hpp, tableau.cpp): a sequence of stabilizer tableaux
  and lists of Pauli rotations, applied from the front to the back. The polls of
  \<open>stop_requested()\<close> made by the synthesis of a stabilizer tableau are the parameter \<open>stop\<close>, read
  from the start in every call. The second half gives the operator a sequence stands for and the
  laws by which the optimisation passes may rewrite it.
\<close>

section \<open>Definitions\<close>

datatype sub_tableau = SubST stabilizer_tableau | SubPR "pauli_rotation list"

record tableau =
  subtableaux :: "sub_tableau list"
  tab_n_qubits :: nat
  tab_filename :: string
  tab_procedures :: "string list"

definition tableau_new :: "nat \<Rightarrow> tableau" where
  "tableau_new n = \<lparr>subtableaux = [SubST (st_init n)], tab_n_qubits = n, tab_filename = [], tab_procedures = []\<rparr>"

text \<open>The constructor from a list reads the size from the front, so the list is not empty and a
  leading list of rotations is not empty.\<close>

definition tableau_of_list :: "sub_tableau list \<Rightarrow> tableau option" where
  "tableau_of_list ss =
     (case ss of
        [] \<Rightarrow> None
      | SubST T # _ \<Rightarrow>
          Some \<lparr>subtableaux = ss, tab_n_qubits = st_n_qubits T, tab_filename = [], tab_procedures = []\<rparr>
      | SubPR [] # _ \<Rightarrow> None
      | SubPR (R # _) # _ \<Rightarrow>
          Some \<lparr>subtableaux = ss, tab_n_qubits = rot_n_qubits R, tab_filename = [], tab_procedures = []\<rparr>)"

definition n_cliffords :: "sub_tableau list \<Rightarrow> nat" where
  "n_cliffords ss = length (filter (\<lambda>s. case s of SubST _ \<Rightarrow> True | SubPR _ \<Rightarrow> False) ss)"

definition n_pauli_rotations :: "sub_tableau list \<Rightarrow> nat" where
  "n_pauli_rotations ss =
     fold (\<lambda>s acc. acc + (case s of SubST _ \<Rightarrow> 0 | SubPR rs \<Rightarrow> length rs)) ss 0"

definition tab_insert :: "nat \<Rightarrow> sub_tableau \<Rightarrow> tableau \<Rightarrow> tableau" where
  "tab_insert pos s t = t\<lparr>subtableaux := take pos (subtableaux t) @ s # drop pos (subtableaux t)\<rparr>"

definition tab_erase :: "nat \<Rightarrow> nat \<Rightarrow> tableau \<Rightarrow> tableau" where
  "tab_erase lo hi t = t\<lparr>subtableaux := take lo (subtableaux t) @ drop hi (subtableaux t)\<rparr>"

definition tab_push_back :: "sub_tableau \<Rightarrow> tableau \<Rightarrow> tableau" where
  "tab_push_back s t = t\<lparr>subtableaux := subtableaux t @ [s]\<rparr>"

definition set_filename :: "string \<Rightarrow> tableau \<Rightarrow> tableau" where
  "set_filename f t = t\<lparr>tab_filename := f\<rparr>"

definition add_procedure :: "string \<Rightarrow> tableau \<Rightarrow> tableau" where
  "add_procedure p t = t\<lparr>tab_procedures := tab_procedures t @ [p]\<rparr>"

definition add_procedures :: "string list \<Rightarrow> tableau \<Rightarrow> tableau" where
  "add_procedures ps t = t\<lparr>tab_procedures := tab_procedures t @ ps\<rparr>"

text \<open>A gate acts on the sub-tableaux from the back and stops after the first stabilizer tableau.\<close>

fun gate_from_back ::
  "(stabilizer_tableau \<Rightarrow> stabilizer_tableau) \<Rightarrow> (pauli_rotation \<Rightarrow> pauli_rotation) \<Rightarrow> sub_tableau list \<Rightarrow> sub_tableau list" where
  "gate_from_back f g [] = []"
| "gate_from_back f g (SubST T # rest) = SubST (f T) # rest"
| "gate_from_back f g (SubPR rs # rest) = SubPR (map g rs) # gate_from_back f g rest"

definition tab_h :: "nat \<Rightarrow> tableau \<Rightarrow> tableau" where
  "tab_h q t = t\<lparr>subtableaux := rev (gate_from_back (st_h q) (rot_h q) (rev (subtableaux t)))\<rparr>"

definition tab_s :: "nat \<Rightarrow> tableau \<Rightarrow> tableau" where
  "tab_s q t = t\<lparr>subtableaux := rev (gate_from_back (st_s q) (rot_s q) (rev (subtableaux t)))\<rparr>"

definition tab_cx :: "nat \<Rightarrow> nat \<Rightarrow> tableau \<Rightarrow> tableau" where
  "tab_cx c t tb = tb\<lparr>subtableaux := rev (gate_from_back (st_cx c t) (rot_cx c t) (rev (subtableaux tb)))\<rparr>"

definition tab_trait :: "tableau pauli_product_trait" where
  "tab_trait = \<lparr>h_op = tab_h, s_op = tab_s, cx_op = tab_cx\<rparr>"

definition sub_adjoint :: "(nat \<Rightarrow> bool) \<Rightarrow> sub_tableau \<Rightarrow> sub_tableau" where
  "sub_adjoint stop s =
     (case s of
        SubST T \<Rightarrow> SubST (st_adjoint stop T)
      | SubPR rs \<Rightarrow> SubPR (rev (map (\<lambda>R. R\<lparr>rot_phase := phase_negate (rot_phase R)\<rparr>) rs)))"

definition tab_adjoint :: "(nat \<Rightarrow> bool) \<Rightarrow> tableau \<Rightarrow> tableau" where
  "tab_adjoint stop t = t\<lparr>subtableaux := map (sub_adjoint stop) (rev (subtableaux t))\<rparr>"

section \<open>The operator of a sequence\<close>

definition st_op :: "stabilizer_tableau \<Rightarrow> qvec \<Rightarrow> qvec" where
  "st_op T = trait_apply_string q_trait (extract_clifford_operators (\<lambda>_. False) T)"

definition sub_op :: "sub_tableau \<Rightarrow> qvec \<Rightarrow> qvec" where
  "sub_op s = (case s of SubST T \<Rightarrow> st_op T | SubPR rs \<Rightarrow> rots_op rs)"

definition subs_op :: "sub_tableau list \<Rightarrow> qvec \<Rightarrow> qvec" where
  "subs_op ss v = fold sub_op ss v"

definition sub_ok :: "nat \<Rightarrow> sub_tableau \<Rightarrow> bool" where
  "sub_ok n s = (case s of SubST T \<Rightarrow> st_ok n T | SubPR rs \<Rightarrow> rots_ok n rs)"

definition subs_ok :: "nat \<Rightarrow> sub_tableau list \<Rightarrow> bool" where
  "subs_ok n ss = list_all (sub_ok n) ss"

lemma sub_simps [simp]: "sub_op (SubST T) = st_op T" "sub_op (SubPR rs) = rots_op rs"
  "sub_ok n (SubST T) = st_ok n T" "sub_ok n (SubPR rs) = rots_ok n rs"
  by (simp_all add: sub_op_def sub_ok_def)

lemma subs_simps [simp]: "subs_op [] v = v" "subs_op (s # ss) v = subs_op ss (sub_op s v)"
  "subs_op (ss @ ss') v = subs_op ss' (subs_op ss v)"
  "subs_ok n []" "subs_ok n (s # ss) \<longleftrightarrow> sub_ok n s \<and> subs_ok n ss"
  "subs_ok n (ss @ ss') \<longleftrightarrow> subs_ok n ss \<and> subs_ok n ss'"
  by (simp_all add: subs_op_def subs_ok_def)

lemma extract_props:
  assumes "st_ok n T" "\<And>i. \<not> stop i"
  shows "string_ok n (extract_clifford_operators stop T)"
    "trait_apply_string st_trait (extract_clifford_operators stop T) (st_init n) = T"
  using hopt_synthesize_linked [OF assms(1), of stop Star 0] assms(2)
  by (auto simp: extract_clifford_operators_def)

lemma space_op_st [intro]: "st_ok n T \<Longrightarrow> space_op n (st_op T)"
  unfolding st_op_def by (intro space_op_string extract_props(1)) auto

lemma space_op_sub [intro]: "sub_ok n s \<Longrightarrow> space_op n (sub_op s)"
  by (cases s) auto

lemma space_op_subs [intro]: "subs_ok n ss \<Longrightarrow> space_op n (subs_op ss)"
proof (induction ss)
  case Nil
  then show ?case by (simp add: space_op_def linear_op_def)
next
  case (Cons s ss)
  then have "space_op n (\<lambda>v. subs_op ss (sub_op s v))"
    by (intro space_op_comp [of n "subs_op ss" "sub_op s"]) auto
  moreover have "subs_op (s # ss) = (\<lambda>v. subs_op ss (sub_op s v))" by (rule ext) simp
  ultimately show ?case by (simp only:)
qed

text \<open>The operator of a tableau is that of any circuit with that tableau.\<close>

lemma st_op_circuit:
  assumes xs: "string_ok n xs"
  shows "op_eq n (st_op (trait_apply_string st_trait xs (st_init n))) (trait_apply_string q_trait xs)"
proof -
  let ?T = "trait_apply_string st_trait xs (st_init n)"
  have T: "st_ok n ?T" by (rule st_apply_string_ok [OF st_init_ok xs])
  show ?thesis
    unfolding st_op_def by (rule tableau_determines_circuit) (use xs extract_props [OF T, of "\<lambda>_. False"] in auto)
qed

lemma st_op_append:
  assumes T: "st_ok n T" and xs: "string_ok n xs"
  shows "op_eq n (st_op (trait_apply_string st_trait xs T)) (\<lambda>v. trait_apply_string q_trait xs (st_op T v))"
proof -
  let ?ops = "extract_clifford_operators (\<lambda>_. False) T"
  note e = extract_props [OF T, of "\<lambda>_. False", simplified]
  have "op_eq n (st_op (trait_apply_string st_trait (?ops @ xs) (st_init n))) (trait_apply_string q_trait (?ops @ xs))"
    by (rule st_op_circuit) (use e xs in simp)
  with e(2) have "op_eq n (st_op (trait_apply_string st_trait xs T)) (trait_apply_string q_trait (?ops @ xs))" by simp
  then show ?thesis by (simp add: op_eq_def st_op_def)
qed

section \<open>Equivalent sequences\<close>

definition equivalent :: "nat \<Rightarrow> sub_tableau list \<Rightarrow> sub_tableau list \<Rightarrow> bool" where
  "equivalent n ss ss' \<longleftrightarrow> subs_ok n ss \<and> subs_ok n ss' \<and> op_eq n (subs_op ss) (subs_op ss')"

lemma equivD: "equivalent n ss ss' \<Longrightarrow> subs_ok n ss" "equivalent n ss ss' \<Longrightarrow> subs_ok n ss'"
  "equivalent n ss ss' \<Longrightarrow> op_eq n (subs_op ss) (subs_op ss')"
  by (simp_all add: equivalent_def)

lemma equiv_refl [simp]: "equivalent n ss ss \<longleftrightarrow> subs_ok n ss"
  by (auto simp: equivalent_def)

lemma equiv_sym: "equivalent n ss ss' \<Longrightarrow> equivalent n ss' ss"
  by (auto simp: equivalent_def op_eq_sym)

lemma equiv_trans [trans]: "equivalent n ss ss' \<Longrightarrow> equivalent n ss' ss'' \<Longrightarrow> equivalent n ss ss''"
  unfolding equivalent_def by (blast intro: op_eq_trans)

lemma equiv_append:
  assumes "equivalent n a a'" "equivalent n b b'"
  shows "equivalent n (a @ b) (a' @ b')"
proof -
  have "op_eq n (\<lambda>v. subs_op b (subs_op a v)) (\<lambda>v. subs_op b' (subs_op a' v))"
    by (rule op_eq_comp) (use assms in \<open>auto simp: equivalent_def\<close>)
  then have "op_eq n (subs_op (a @ b)) (subs_op (a' @ b'))" by (simp add: op_eq_def)
  with assms show ?thesis by (simp add: equivalent_def)
qed

lemma equiv_Cons: "sub_ok n s \<Longrightarrow> equivalent n b b' \<Longrightarrow> equivalent n (s # b) (s # b')"
  using equiv_append [of n "[s]" "[s]" b b'] by simp

lemma equivI:
  assumes "subs_ok n ss" "subs_ok n ss'" "op_eq n (\<lambda>v. subs_op ss v) (\<lambda>v. subs_op ss' v)"
  shows "equivalent n ss ss'"
  using assms by (simp add: equivalent_def)

lemma equiv_identity: "equivalent n [SubST (st_init n)] []"
proof (rule equivI)
  show "op_eq n (\<lambda>v. subs_op [SubST (st_init n)] v) (\<lambda>v. subs_op [] v)"
    using st_op_circuit [of n "[]"] by (simp add: op_eq_def)
qed (simp_all add: st_init_ok)

lemma equiv_no_rotations: "equivalent n [SubPR []] []"
  by (rule equivI) simp_all

lemma equiv_rotations_append: "rots_ok n rs \<Longrightarrow> rots_ok n ss \<Longrightarrow> equivalent n [SubPR rs, SubPR ss] [SubPR (rs @ ss)]"
  by (rule equivI) simp_all

text \<open>A string appended to a tableau, and a string in place of a tableau that yields it.\<close>

lemma op_eq_st_append:
  assumes "st_ok n T" "string_ok n xs"
  shows "op_eq n (\<lambda>v. subs_op [SubST (trait_apply_string st_trait xs T)] v) (\<lambda>v. trait_apply_string q_trait xs (subs_op [SubST T] v))"
  using st_op_append [OF assms] by simp

lemma op_eq_extract:
  assumes "st_ok n U" "\<And>i. \<not> stop i"
  shows "op_eq n (st_op U) (trait_apply_string q_trait (extract_clifford_operators stop U))"
proof -
  note e = extract_props [OF assms(1), of stop, OF assms(2)]
  show ?thesis using st_op_circuit [OF e(1)] unfolding e(2) .
qed

lemma equiv_cliffords:
  assumes T: "st_ok n T" and U: "st_ok n U" and stop: "\<And>i. \<not> stop i"
  defines "T' \<equiv> trait_apply_string st_trait (extract_clifford_operators stop U) T"
  shows "equivalent n [SubST T, SubST U] [SubST T']"
proof (rule equivI)
  let ?xs = "extract_clifford_operators stop U"
  have xs: "string_ok n ?xs" by (rule extract_props(1) [OF U stop])
  have T': "st_ok n T'" unfolding T'_def by (rule st_apply_string_ok [OF T xs])
  show "subs_ok n [SubST T, SubST U]" "subs_ok n [SubST T']" using T U T' by simp_all
  have "op_eq n (\<lambda>v. st_op U (st_op T v)) (\<lambda>v. trait_apply_string q_trait ?xs (st_op T v))"
    by (rule op_eq_comp [OF op_eq_extract [OF U stop] op_eq_refl]) (use T U in auto)
  also have "op_eq n \<dots> (st_op T')" unfolding T'_def by (rule op_eq_sym [OF st_op_append [OF T xs]])
  finally show "op_eq n (\<lambda>v. subs_op [SubST T, SubST U] v) (\<lambda>v. subs_op [SubST T'] v)" by simp
qed

text \<open>A Clifford operator moves to the front of a list of rotations by conjugating them.\<close>

lemma rots_ok_map: "rots_ok n rs \<Longrightarrow> string_ok n xs \<Longrightarrow> rots_ok n (map (trait_apply_string rot_trait xs) rs)"
  by (auto simp: rots_ok_def list_all_iff intro: rt.apply_string_ok)

lemma equiv_push:
  assumes rs: "rots_ok n rs" and U: "st_ok n U" and stop: "\<And>i. \<not> stop i"
  shows "equivalent n [SubPR rs, SubST U] [SubST U, SubPR (map (trait_apply_string rot_trait (extract_clifford_operators stop U)) rs)]"
proof (rule equivI)
  let ?xs = "extract_clifford_operators stop U"
  let ?rs = "map (trait_apply_string rot_trait ?xs) rs"
  have xs: "string_ok n ?xs" by (rule extract_props(1) [OF U stop])
  have ok: "rots_ok n ?rs" by (rule rots_ok_map [OF rs xs])
  show "subs_ok n [SubPR rs, SubST U]" "subs_ok n [SubST U, SubPR ?rs]" using rs U ok by simp_all
  have "op_eq n (\<lambda>v. st_op U (rots_op rs v)) (\<lambda>v. trait_apply_string q_trait ?xs (rots_op rs v))"
    by (rule op_eq_comp [OF op_eq_extract [OF U stop] op_eq_refl]) (use U rs in auto)
  also have "op_eq n \<dots> (\<lambda>v. rots_op ?rs (trait_apply_string q_trait ?xs v))"
    by (rule string_through_rotations [OF xs rs])
  also have "op_eq n \<dots> (\<lambda>v. rots_op ?rs (st_op U v))"
    by (rule op_eq_comp [OF op_eq_refl op_eq_sym [OF op_eq_extract [OF U stop]]]) (use U ok in auto)
  finally show "op_eq n (\<lambda>v. subs_op [SubPR rs, SubST U] v) (\<lambda>v. subs_op [SubST U, SubPR ?rs] v)" by simp
qed

section \<open>Gates on a tableau\<close>

definition has_clifford :: "sub_tableau list \<Rightarrow> bool" where
  "has_clifford ss = list_ex (\<lambda>s. case s of SubST _ \<Rightarrow> True | SubPR _ \<Rightarrow> False) ss"

definition tab_ok :: "nat \<Rightarrow> tableau \<Rightarrow> bool" where
  "tab_ok n t \<longleftrightarrow> tab_n_qubits t = n \<and> subs_ok n (subtableaux t)"

lemma apply_single [simp]: "trait_apply_string T [x] = trait_apply T x"
  by (rule ext) simp

lemma gate_from_back_op:
  assumes x: "op_ok n x" and ok: "subs_ok n ss" and c: "has_clifford ss"
  defines "ss' \<equiv> gate_from_back (trait_apply st_trait x) (trait_apply rot_trait x) ss"
  shows "subs_ok n ss' \<and> has_clifford ss' \<and>
    op_eq n (\<lambda>v. subs_op (rev ss') v) (\<lambda>v. trait_apply q_trait x (subs_op (rev ss) v))"
  using ok c unfolding ss'_def
proof (induction ss)
  case (Cons s rest)
  show ?case
  proof (cases s)
    case [simp]: (SubST T)
    have xs: "string_ok n [x]" using x by simp
    have T: "st_ok n T" and r: "subs_ok n (rev rest)" using Cons.prems by (auto simp: subs_ok_def)
    have T': "st_ok n (trait_apply st_trait x T)" by (rule st_apply_ok [OF T x])
    have "op_eq n (\<lambda>v. st_op (trait_apply st_trait x T) (subs_op (rev rest) v))
        (\<lambda>v. trait_apply q_trait x (st_op T (subs_op (rev rest) v)))"
      using op_eq_comp [OF st_op_append [OF T xs] op_eq_refl [of n "subs_op (rev rest)"]] T' r by auto
    then show ?thesis using Cons.prems T' by (simp add: has_clifford_def)
  next
    case [simp]: (SubPR rs)
    have xs: "string_ok n [x]" using x by simp
    let ?rs = "map (trait_apply rot_trait x) rs"
    let ?r = "gate_from_back (trait_apply st_trait x) (trait_apply rot_trait x) rest"
    have ok: "rots_ok n rs" "subs_ok n (rev rest)" "rots_ok n ?rs"
      using Cons.prems rots_ok_map [OF _ xs, of rs] by (auto simp: subs_ok_def)
    have IH: "subs_ok n ?r" "has_clifford ?r"
      "op_eq n (\<lambda>v. subs_op (rev ?r) v) (\<lambda>v. trait_apply q_trait x (subs_op (rev rest) v))"
      using Cons by (auto simp: has_clifford_def)
    have "space_op n (trait_apply q_trait x)" using space_op_string [OF xs] by (simp add: space_op_def linear_op_def)
    then have sp: "space_op n (\<lambda>v. trait_apply q_trait x (subs_op (rev rest) v))"
      using ok(2) by (intro space_op_comp [of n "trait_apply q_trait x" "subs_op (rev rest)"]) auto
    have "op_eq n (\<lambda>v. rots_op ?rs (subs_op (rev ?r) v)) (\<lambda>v. rots_op ?rs (trait_apply q_trait x (subs_op (rev rest) v)))"
      by (rule op_eq_comp [OF op_eq_refl IH(3)]) (use ok sp in auto)
    also have "op_eq n \<dots> (\<lambda>v. trait_apply q_trait x (rots_op rs (subs_op (rev rest) v)))"
    proof -
      have "op_eq n (\<lambda>v. rots_op ?rs (trait_apply q_trait x v)) (\<lambda>v. trait_apply q_trait x (rots_op rs v))"
        using op_eq_sym [OF string_through_rotations [OF xs ok(1)]] by simp
      moreover have "space_op n (\<lambda>v. rots_op ?rs (trait_apply q_trait x v))"
        using ok(3) \<open>space_op n (trait_apply q_trait x)\<close>
        by (intro space_op_comp [of n "rots_op ?rs" "trait_apply q_trait x"]) auto
      ultimately show ?thesis
        by (intro op_eq_comp [where F = "\<lambda>v. rots_op ?rs (trait_apply q_trait x v)"
              and F' = "\<lambda>v. trait_apply q_trait x (rots_op rs v)"
              and G = "subs_op (rev rest)" and G' = "subs_op (rev rest)"]) (use ok in auto)
    qed
    finally show ?thesis using IH ok by (simp add: has_clifford_def)
  qed
qed (simp add: has_clifford_def)

text \<open>The mixin on tableaux: a string of operators acts after the operator of the sequence.\<close>

lemma tab_trait_sel [simp]: "h_op tab_trait = tab_h" "s_op tab_trait = tab_s" "cx_op tab_trait = tab_cx"
  by (simp_all add: tab_trait_def)

definition acts :: "nat \<Rightarrow> (tableau \<Rightarrow> tableau) \<Rightarrow> (qvec \<Rightarrow> qvec) \<Rightarrow> bool" where
  "acts n F G \<longleftrightarrow> space_op n G \<and> (\<forall>t. tab_ok n t \<longrightarrow> has_clifford (subtableaux t) \<longrightarrow>
     tab_ok n (F t) \<and> has_clifford (subtableaux (F t)) \<and>
     op_eq n (\<lambda>v. subs_op (subtableaux (F t)) v) (\<lambda>v. G (subs_op (subtableaux t) v)))"

lemma acts_comp:
  assumes F: "acts n F G" and F': "acts n F' G'"
  shows "acts n (\<lambda>t. F (F' t)) (\<lambda>v. G (G' v))"
  unfolding acts_def
proof (intro conjI allI impI)
  show "space_op n (\<lambda>v. G (G' v))" using assms by (auto simp: acts_def intro: space_op_comp)
  fix t assume t: "tab_ok n t" "has_clifford (subtableaux t)"
  then have t': "tab_ok n (F' t)" "has_clifford (subtableaux (F' t))"
    and e': "op_eq n (\<lambda>v. subs_op (subtableaux (F' t)) v) (\<lambda>v. G' (subs_op (subtableaux t) v))"
    using F' by (auto simp: acts_def)
  then show "tab_ok n (F (F' t))" "has_clifford (subtableaux (F (F' t)))" using F by (auto simp: acts_def)
  have "op_eq n (\<lambda>v. subs_op (subtableaux (F (F' t))) v) (\<lambda>v. G (subs_op (subtableaux (F' t)) v))"
    using F t' by (auto simp: acts_def)
  also have "op_eq n \<dots> (\<lambda>v. G (G' (subs_op (subtableaux t) v)))"
  proof (rule op_eq_comp [OF op_eq_refl e'])
    show "space_op n G" using F by (simp add: acts_def)
    show "space_op n (\<lambda>v. G' (subs_op (subtableaux t) v))"
      using F' t by (intro space_op_comp [of n G' "subs_op (subtableaux t)"]) (auto simp: acts_def tab_ok_def)
  qed
  finally show "op_eq n (\<lambda>v. subs_op (subtableaux (F (F' t))) v) (\<lambda>v. G (G' (subs_op (subtableaux t) v)))" .
qed

lemma acts_gate:
  assumes x: "op_ok n x"
    and F: "\<And>t. F t = t\<lparr>subtableaux := rev (gate_from_back (trait_apply st_trait x) (trait_apply rot_trait x) (rev (subtableaux t)))\<rparr>"
  shows "acts n F (trait_apply q_trait x)"
  unfolding acts_def
proof (intro conjI allI impI)
  show "space_op n (trait_apply q_trait x)"
    using space_op_string [of n "[x]"] x by (simp add: space_op_def linear_op_def)
  fix t assume t: "tab_ok n t" "has_clifford (subtableaux t)"
  then have r: "subs_ok n (rev (subtableaux t))" "has_clifford (rev (subtableaux t))"
    by (auto simp: tab_ok_def subs_ok_def has_clifford_def)
  note g = gate_from_back_op [OF x r]
  show "tab_ok n (F t)" "has_clifford (subtableaux (F t))"
    using g t by (auto simp: F tab_ok_def subs_ok_def has_clifford_def)
  show "op_eq n (\<lambda>v. subs_op (subtableaux (F t)) v) (\<lambda>v. trait_apply q_trait x (subs_op (subtableaux t) v))"
    using g by (simp add: F)
qed

lemma acts_generators:
  "q < n \<Longrightarrow> acts n (tab_h q) (q_h q)" "q < n \<Longrightarrow> acts n (tab_s q) (q_s q)"
  "c < n \<Longrightarrow> t < n \<Longrightarrow> c \<noteq> t \<Longrightarrow> acts n (tab_cx c t) (q_cx c t)"
  using acts_gate [of n "(COT_h, q, 0)" "tab_h q"] acts_gate [of n "(COT_s, q, 0)" "tab_s q"]
    acts_gate [of n "(COT_cx, c, t)" "tab_cx c t"]
  by (auto simp: tab_h_def tab_s_def tab_cx_def)

lemma acts_string:
  assumes "string_ok n xs"
  shows "acts n (trait_apply_string tab_trait xs) (trait_apply_string q_trait xs)"
proof (rule trait_apply_string_rel [where R = "acts n" and n = n])
  show "acts n F F' \<Longrightarrow> acts n G G' \<Longrightarrow> acts n (\<lambda>a. F (G a)) (\<lambda>a. F' (G' a))" for F G F' G'
    by (rule acts_comp)
qed (use assms in \<open>simp_all add: acts_generators acts_def [of n "\<lambda>a. a"] space_op_def linear_op_def\<close>)

text \<open>A new tableau is the identity, so gates applied to it build their circuit.\<close>

lemma tableau_new_circuit:
  assumes "string_ok n xs"
  shows "tab_ok n (trait_apply_string tab_trait xs (tableau_new n))"
    "op_eq n (\<lambda>v. subs_op (subtableaux (trait_apply_string tab_trait xs (tableau_new n))) v) (trait_apply_string q_trait xs)"
proof -
  have t: "tab_ok n (tableau_new n)" "has_clifford (subtableaux (tableau_new n))"
    by (simp_all add: tableau_new_def tab_ok_def st_init_ok has_clifford_def)
  note a = acts_string [OF assms]
  show "tab_ok n (trait_apply_string tab_trait xs (tableau_new n))" using a t by (simp add: acts_def)
  have "op_eq n (\<lambda>v. subs_op (subtableaux (trait_apply_string tab_trait xs (tableau_new n))) v)
      (\<lambda>v. trait_apply_string q_trait xs (subs_op (subtableaux (tableau_new n)) v))"
    using a t by (simp add: acts_def)
  also have "op_eq n \<dots> (\<lambda>v. trait_apply_string q_trait xs v)"
  proof (rule op_eq_comp [OF op_eq_refl, where G' = "\<lambda>v. v"])
    show "op_eq n (subs_op (subtableaux (tableau_new n))) (\<lambda>v. v)"
      using equivD(3) [OF equiv_identity [of n]] by (simp add: tableau_new_def op_eq_def)
  qed (use assms in \<open>auto simp: space_op_def [of n "\<lambda>v. v"] linear_op_def\<close>)
  finally show "op_eq n (\<lambda>v. subs_op (subtableaux (trait_apply_string tab_trait xs (tableau_new n))) v) (trait_apply_string q_trait xs)" .
qed

section \<open>The adjoint of a tableau\<close>

lemma rot_op_inverse:
  assumes "rot_ok n R"
  shows "rot_op (R\<lparr>rot_phase := phase_negate (rot_phase R)\<rparr>) (rot_op R v) = v"
proof -
  have "mod2 (phase_val (phase_negate (rot_phase R)) + phase_val (rot_phase R)) (- phase_val (rot_phase R) + phase_val (rot_phase R))"
    using phase_negate_ok [OF rot_okD(3) [OF assms]] by (intro mod2_add) auto
  then have "mod2 (phase_val (phase_negate (rot_phase R)) + phase_val (rot_phase R)) 0" by simp
  from q_rot_mod2 [OF this] show ?thesis
    using rot_okD(1) [OF assms] by (simp add: rot_op_def phase_angle_def q_rot_add [of n] q_rot_zero flip: of_rat_add)
qed

lemma adjoint_rotation_ok: "rot_ok n R \<Longrightarrow> rot_ok n (R\<lparr>rot_phase := phase_negate (rot_phase R)\<rparr>)"
  by (auto simp: rot_ok_def intro: phase_op_ok)

lemma rots_op_inverse:
  "rots_ok n rs \<Longrightarrow> rots_op (rev (map (\<lambda>R. R\<lparr>rot_phase := phase_negate (rot_phase R)\<rparr>) rs)) (rots_op rs v) = v"
  by (induction rs arbitrary: v) (auto simp: rot_op_inverse)

lemma op_eq_id_conj:
  assumes "op_eq n (\<lambda>v. F (G v)) (\<lambda>v. v)" "op_eq n (\<lambda>v. F' (G' v)) (\<lambda>v. v)"
    and "space_op n F'" "space_op n F" "space_op n G" "space_op n G'"
  shows "op_eq n (\<lambda>v. F' (F (G (G' v)))) (\<lambda>v. v)"
proof -
  have FG: "space_op n (\<lambda>v. F (G v))" using assms(4,5) by (rule space_op_comp)
  have "op_eq n (\<lambda>v. F (G (G' v))) (\<lambda>v. G' v)"
    by (rule op_eq_comp [OF assms(1) op_eq_refl FG assms(6)])
  then have "op_eq n (\<lambda>v. F' (F (G (G' v)))) (\<lambda>v. F' (G' v))"
    by (rule op_eq_comp [OF op_eq_refl _ assms(3,6)])
  also note assms(2)
  finally show ?thesis .
qed

lemma sub_adjoint_op:
  assumes ok: "sub_ok n s" and stop: "\<And>i. \<not> stop i"
  shows "sub_ok n (sub_adjoint stop s)" "op_eq n (\<lambda>v. sub_op (sub_adjoint stop s) (sub_op s v)) (\<lambda>v. v)"
proof -
  have "sub_ok n (sub_adjoint stop s) \<and> op_eq n (\<lambda>v. sub_op (sub_adjoint stop s) (sub_op s v)) (\<lambda>v. v)"
  proof (cases s)
    case (SubST T)
    let ?xs = "extract_clifford_operators stop T"
    have T: "st_ok n T" using ok SubST by simp
    note e = extract_props [OF T, of stop, OF stop]
    note a = st_adjoint_props [OF T, of stop, OF stop]
    have adj: "st_adjoint stop T = trait_apply_string st_trait (adjoint_string ?xs) (st_init n)"
      by (rule a(2) [OF e])
    have s1: "op_eq n (st_op (st_adjoint stop T)) (trait_apply_string q_trait (adjoint_string ?xs))"
      unfolding adj by (rule st_op_circuit) (simp add: e)
    have "op_eq n (\<lambda>v. st_op (st_adjoint stop T) (st_op T v))
        (\<lambda>v. trait_apply_string q_trait (adjoint_string ?xs) (trait_apply_string q_trait ?xs v))"
      by (rule op_eq_comp [OF s1 op_eq_extract [OF T stop]]) (use a(1) e(1) in auto)
    also have "op_eq n \<dots> (\<lambda>v. v)" by (rule adjoint_circuit [OF e(1)])
    finally show ?thesis using a(1) by (simp add: SubST sub_adjoint_def)
  next
    case (SubPR rs)
    with ok have rs: "rots_ok n rs" by simp
    then have "rots_ok n (rev (map (\<lambda>R. R\<lparr>rot_phase := phase_negate (rot_phase R)\<rparr>) rs))"
      by (auto simp: rots_ok_def list_all_iff adjoint_rotation_ok)
    then show ?thesis by (simp add: SubPR sub_adjoint_def rots_op_inverse [OF rs])
  qed
  then show "sub_ok n (sub_adjoint stop s)" "op_eq n (\<lambda>v. sub_op (sub_adjoint stop s) (sub_op s v)) (\<lambda>v. v)" by auto
qed

lemma subs_adjoint_op:
  assumes ok: "subs_ok n ss" and stop: "\<And>i. \<not> stop i"
  shows "subs_ok n (map (sub_adjoint stop) (rev ss)) \<and>
    op_eq n (\<lambda>v. subs_op (map (sub_adjoint stop) (rev ss)) (subs_op ss v)) (\<lambda>v. v)"
  using ok
proof (induction ss)
  case (Cons s ss)
  have s: "sub_ok n s" and ss: "subs_ok n ss" using Cons.prems by simp_all
  note a = sub_adjoint_op [OF s, of stop, OF stop]
  have "op_eq n (\<lambda>v. sub_op (sub_adjoint stop s) (subs_op (map (sub_adjoint stop) (rev ss)) (subs_op ss (sub_op s v)))) (\<lambda>v. v)"
    by (rule op_eq_id_conj) (use Cons.IH a s ss in auto)
  with a Cons.IH ss show ?case by simp
qed simp

end
