(* ===== verification/TableauOptimization.thy ===== *)
theory TableauOptimization
  imports Tableau
begin

text \<open>
  The passes of src/src/tableau/tableau_optimization.cpp that move Clifford operators to the front
  and merge rotations: \<open>collapse\<close>, \<open>remove_identities\<close>, \<open>merge_rotations\<close>,
  \<open>absorb_clifford_rotations\<close> and \<open>properize\<close>. Reading \<open>back()\<close> of an empty vector and a
  \<open>std::get\<close> of the wrong alternative are the result \<open>None\<close>; the theorems of
  \<open>TableauPasses\<close> show that it does not arise from well-formed input.
\<close>

section \<open>Removing identities\<close>

definition rot_is_trivial :: "pauli_rotation \<Rightarrow> bool" where
  "rot_is_trivial R \<longleftrightarrow> phase_eq (rot_phase R) (phase_of_int 0) \<or> is_identity (rot_product R)"

definition remove_identity_rotations :: "pauli_rotation list \<Rightarrow> pauli_rotation list" where
  "remove_identity_rotations rs = filter (\<lambda>R. \<not> rot_is_trivial R) rs"

text \<open>The loop over adjacent sub-tableaux: a stabilizer tableau takes over its right neighbour,
  which becomes the identity and is itself the left one in the next round.\<close>

fun merge_adjacent_cliffords :: "(nat \<Rightarrow> bool) \<Rightarrow> sub_tableau list \<Rightarrow> sub_tableau list" where
  "merge_adjacent_cliffords stop (SubST T # SubST U # rest) =
     SubST (trait_apply_string st_trait (extract_clifford_operators stop U) T)
       # merge_adjacent_cliffords stop (SubST (st_init (st_n_qubits T)) # rest)"
| "merge_adjacent_cliffords stop (s # rest) = s # merge_adjacent_cliffords stop rest"
| "merge_adjacent_cliffords stop [] = []"

definition sub_is_trivial :: "sub_tableau \<Rightarrow> bool" where
  "sub_is_trivial s = (case s of SubST T \<Rightarrow> st_is_identity T | SubPR rs \<Rightarrow> rs = [])"

definition sub_is_identity_clifford :: "sub_tableau \<Rightarrow> bool" where
  "sub_is_identity_clifford s = (case s of SubST T \<Rightarrow> st_is_identity T | SubPR rs \<Rightarrow> False)"

definition remove_identities :: "(nat \<Rightarrow> bool) \<Rightarrow> tableau \<Rightarrow> tableau" where
  "remove_identities stop t =
     (let ss1 = map (\<lambda>s. case s of SubPR rs \<Rightarrow> SubPR (remove_identity_rotations rs) | SubST T \<Rightarrow> s) (subtableaux t);
          ss2 = filter (\<lambda>s. \<not> sub_is_trivial s) ss1;
          ss3 = merge_adjacent_cliffords stop ss2
      in t\<lparr>subtableaux := filter (\<lambda>s. \<not> sub_is_identity_clifford s) ss3\<rparr>)"

section \<open>Collapsing\<close>

text \<open>The loop over the reversed sub-tableaux, with the operator string still to be applied.\<close>

fun push_cliffords :: "(nat \<Rightarrow> bool) \<Rightarrow> clifford_string \<Rightarrow> sub_tableau list \<Rightarrow> sub_tableau list" where
  "push_cliffords stop cs [] = []"
| "push_cliffords stop cs (SubST T # rest) =
     (let T' = trait_apply_string st_trait cs T
      in SubST T' # push_cliffords stop (extract_clifford_operators stop T') rest)"
| "push_cliffords stop cs (SubPR rs # rest) =
     SubPR (map (trait_apply_string rot_trait cs) rs) # push_cliffords stop cs rest"

definition is_clifford :: "sub_tableau \<Rightarrow> bool" where
  "is_clifford s = (case s of SubST _ \<Rightarrow> True | SubPR _ \<Rightarrow> False)"

definition rotations_of :: "sub_tableau \<Rightarrow> pauli_rotation list" where
  "rotations_of s = (case s of SubST _ \<Rightarrow> [] | SubPR rs \<Rightarrow> rs)"

definition front_clifford :: "nat \<Rightarrow> sub_tableau list \<Rightarrow> sub_tableau list" where
  "front_clifford n ss = (case ss of SubPR _ # _ \<Rightarrow> SubST (st_init n) # ss | _ \<Rightarrow> ss)"

definition collapse :: "(nat \<Rightarrow> bool) \<Rightarrow> tableau \<Rightarrow> tableau" where
  "collapse stop t =
     (if subtableaux t = [] then t
      else
        (let ss = front_clifford (tab_n_qubits t) (subtableaux t) in
         if length ss \<le> 1 then t\<lparr>subtableaux := ss\<rparr>
         else
           (let ss1 = rev (push_cliffords stop [] (rev ss));
                ss2 = hd ss1 # filter (\<lambda>s. \<not> is_clifford s) (tl ss1)
            in if length ss2 = 1 then t\<lparr>subtableaux := ss2\<rparr>
               else t\<lparr>subtableaux := [ss2 ! 0, SubPR (rotations_of (ss2 ! 1) @ concat (map rotations_of (drop 2 ss2)))]\<rparr>)))"

section \<open>Merging rotations\<close>

text \<open>The inner loop of \<open>merge_rotations\<close>: rotation \<open>R\<close> runs over its successors.\<close>

fun merge_into :: "pauli_rotation \<Rightarrow> pauli_rotation list \<Rightarrow> pauli_rotation \<times> pauli_rotation list" where
  "merge_into R [] = (R, [])"
| "merge_into R (S # rest) =
     (if \<not> rot_is_commutative R S then (R, S # rest)
      else if rot_product R = rot_product S
      then (let (R', rest') = merge_into (R\<lparr>rot_phase := phase_plus (rot_phase R) (rot_phase S)\<rparr>) rest
            in (R', S\<lparr>rot_phase := phase_of_int 0\<rparr> # rest'))
      else (let (R', rest') = merge_into R rest in (R', S # rest')))"

lemma length_merge_into: "length (snd (merge_into R rs)) = length rs"
  by (induction R rs rule: merge_into.induct) (auto split: prod.split)

function merge_loop :: "pauli_rotation list \<Rightarrow> pauli_rotation list" where
  "merge_loop [] = []"
| "merge_loop (R # rest) = fst (merge_into R rest) # merge_loop (snd (merge_into R rest))"
  by pat_completeness auto
termination by (relation "measure length") (auto simp: length_merge_into)

definition merge_rotations :: "pauli_rotation list \<Rightarrow> pauli_rotation list" where
  "merge_rotations rs = remove_identity_rotations (merge_loop rs)"

section \<open>Moving Clifford rotations to the front\<close>

text \<open>\<open>ConjugationView\<close>: a gate acts on the tableau and on the first \<open>m\<close> rotations (\<open>_upto\<close>).\<close>

type_synonym conj_state = "stabilizer_tableau \<times> pauli_rotation list"

definition cv_apply :: "nat \<Rightarrow> (stabilizer_tableau \<Rightarrow> stabilizer_tableau) \<Rightarrow> (pauli_rotation \<Rightarrow> pauli_rotation) \<Rightarrow> conj_state \<Rightarrow> conj_state" where
  "cv_apply m f g s = (f (fst s), map g (take m (snd s)) @ drop m (snd s))"

definition cv_trait :: "nat \<Rightarrow> conj_state pauli_product_trait" where
  "cv_trait m =
     \<lparr>h_op = \<lambda>q. cv_apply m (st_h q) (rot_h q), s_op = \<lambda>q. cv_apply m (st_s q) (rot_s q),
      cx_op = \<lambda>c t. cv_apply m (st_cx c t) (rot_cx c t)\<rparr>"

definition absorb_step :: "nat \<Rightarrow> conj_state \<Rightarrow> conj_state option" where
  "absorb_step i s =
     (let R = snd s ! i; ph = rot_phase R in
      if \<not> phase_eq ph (mk_phase 1 2) \<and> \<not> phase_eq ph (mk_phase (-1) 2) \<and> \<not> phase_eq ph (phase_of_int 1) then Some s
      else (case rot_extract_clifford_operators R of
              None \<Rightarrow> None
            | Some (ops, q) \<Rightarrow>
                (let s1 = trait_apply_string (cv_trait i) ops s;
                     s2 = (if phase_eq ph (mk_phase 1 2) then s_op (cv_trait i) q s1
                           else if phase_eq ph (mk_phase (-1) 2) then trait_sdg (cv_trait i) q s1
                           else trait_z (cv_trait i) q s1);
                     s3 = (fst s2, (snd s2)[i := (snd s2 ! i)\<lparr>rot_phase := phase_of_int 0\<rparr>])
                 in Some (trait_apply_string (cv_trait i) (adjoint_string ops) s3))))"

fun absorb_loop :: "nat list \<Rightarrow> conj_state \<Rightarrow> conj_state option" where
  "absorb_loop [] s = Some s"
| "absorb_loop (i # is) s = (case absorb_step i s of None \<Rightarrow> None | Some s' \<Rightarrow> absorb_loop is s')"

definition absorb_clifford_rotations :: "stabilizer_tableau \<Rightarrow> pauli_rotation list \<Rightarrow> conj_state option" where
  "absorb_clifford_rotations T rs =
     map_option (\<lambda>(T', rs'). (T', remove_identity_rotations rs')) (absorb_loop [0..<length rs] (T, rs))"

text \<open>The \<open>do\<close> loop of the pass on a tableau goes on while the number of rotations shrinks.\<close>

function merge_absorb_loop :: "stabilizer_tableau \<Rightarrow> pauli_rotation list \<Rightarrow> conj_state option" where
  "merge_absorb_loop T rs =
     (case absorb_clifford_rotations T (merge_rotations rs) of
        None \<Rightarrow> None
      | Some (T', rs') \<Rightarrow> if length rs' < length rs then merge_absorb_loop T' rs' else Some (T', rs'))"
  by pat_completeness auto
termination by (relation "measure (\<lambda>(T, rs). length rs)") auto

declare merge_absorb_loop.simps [simp del]

definition merge_rotations_tableau :: "(nat \<Rightarrow> bool) \<Rightarrow> tableau \<Rightarrow> tableau option" where
  "merge_rotations_tableau stop t =
     (let t1 = collapse stop t in
      if length (subtableaux t1) \<le> 1 then Some t1
      else (case (hd (subtableaux t1), last (subtableaux t1)) of
              (SubST T, SubPR rs) \<Rightarrow>
                map_option (\<lambda>(T', rs'). t1\<lparr>subtableaux := SubST T' # butlast (tl (subtableaux t1)) @ [SubPR rs']\<rparr>)
                  (merge_absorb_loop T rs)
            | _ \<Rightarrow> None))"

section \<open>Proper rotations\<close>

definition is_proper_phase :: "phase \<Rightarrow> bool" where
  "is_proper_phase ph \<longleftrightarrow> 0 \<le> phase_numerator ph \<and> 2 * phase_numerator ph < phase_denominator ph"

text \<open>The \<open>while\<close> loop on one phase; not returning is \<open>None\<close>.\<close>

partial_function (option) complement_loop :: "phase \<Rightarrow> phase \<Rightarrow> (phase \<times> phase) option" where
  "complement_loop ph complement =
     (if is_proper_phase ph then Some (ph, complement)
      else complement_loop (phase_minus ph (mk_phase 1 2)) (phase_plus complement (mk_phase 1 2)))"

declare complement_loop.simps [code]

definition properize_step :: "nat \<Rightarrow> conj_state \<Rightarrow> conj_state option" where
  "properize_step i s =
     (case complement_loop (rot_phase (snd s ! i)) (phase_of_int 0) of
        None \<Rightarrow> None
      | Some (ph, complement) \<Rightarrow>
          (let s0 = (fst s, (snd s)[i := (snd s ! i)\<lparr>rot_phase := ph\<rparr>]) in
           if phase_eq complement (phase_of_int 0) then Some s0
           else (case rot_extract_clifford_operators (snd s0 ! i) of
                   None \<Rightarrow> None
                 | Some (ops, q) \<Rightarrow>
                     (let s1 = trait_apply_string (cv_trait i) ops s0;
                          s2 = (if phase_eq complement (mk_phase 1 2) then s_op (cv_trait i) q s1
                                else if phase_eq complement (mk_phase (-1) 2) then trait_sdg (cv_trait i) q s1
                                else trait_z (cv_trait i) q s1)
                      in Some (trait_apply_string (cv_trait i) (adjoint_string ops) s2)))))"

fun properize_loop :: "nat list \<Rightarrow> conj_state \<Rightarrow> conj_state option" where
  "properize_loop [] s = Some s"
| "properize_loop (i # is) s = (case properize_step i s of None \<Rightarrow> None | Some s' \<Rightarrow> properize_loop is s')"

definition properize :: "stabilizer_tableau \<Rightarrow> pauli_rotation list \<Rightarrow> conj_state option" where
  "properize T rs =
     (let rs1 = merge_rotations rs in
      map_option (\<lambda>(T', rs'). (T', remove_identity_rotations rs')) (properize_loop (rev [0..<length rs1]) (T, rs1)))"

text \<open>On a tableau: neighbours of the same kind are joined, then each list of rotations is made
  proper with the stabilizer tableau last seen.\<close>

definition join_back :: "(nat \<Rightarrow> bool) \<Rightarrow> sub_tableau \<Rightarrow> sub_tableau list \<Rightarrow> sub_tableau list" where
  "join_back stop s acc =
     (case (last acc, s) of
        (SubST T, SubST U) \<Rightarrow> butlast acc @ [SubST (trait_apply_string st_trait (extract_clifford_operators stop U) T)]
      | (SubST T, SubPR rs) \<Rightarrow> acc @ [SubPR rs]
      | (SubPR rs, SubST U) \<Rightarrow> acc @ [SubST U]
      | (SubPR rs, SubPR rs') \<Rightarrow> butlast acc @ [SubPR (rs @ rs')])"

text \<open>The loops over a tableau keep a reference to the stabilizer tableau last seen, here its position
  \<open>c\<close>, and replace it together with each list of rotations.\<close>

type_synonym pp_strategy = "stabilizer_tableau \<Rightarrow> pauli_rotation list \<Rightarrow> conj_state option"

fun walk_subs :: "pp_strategy \<Rightarrow> nat list \<Rightarrow> nat \<Rightarrow> sub_tableau list \<Rightarrow> sub_tableau list option" where
  "walk_subs F [] c ss = Some ss"
| "walk_subs F (i # is) c ss =
     (case ss ! i of
        SubST T \<Rightarrow> walk_subs F is i ss
      | SubPR rs \<Rightarrow>
          (case ss ! c of
             SubPR _ \<Rightarrow> None
           | SubST T \<Rightarrow>
               (case F T rs of
                  None \<Rightarrow> None
                | Some (T', rs') \<Rightarrow> walk_subs F is c ((ss[c := SubST T'])[i := SubPR rs']))))"

definition properize_subs :: "nat list \<Rightarrow> nat \<Rightarrow> sub_tableau list \<Rightarrow> sub_tableau list option" where
  "properize_subs = walk_subs properize"

definition properize_tableau :: "(nat \<Rightarrow> bool) \<Rightarrow> tableau \<Rightarrow> tableau option" where
  "properize_tableau stop t =
     (if subtableaux t = [] then Some t
      else
        (let ss = front_clifford (tab_n_qubits t) (subtableaux t);
             new = fold (join_back stop) (tl ss) (subtableaux (tableau_new (tab_n_qubits t)) @ [hd ss])
         in (case properize_subs [1..<length new] 0 new of
               None \<Rightarrow> None
             | Some ss' \<Rightarrow> Some (remove_identities stop ((tableau_new (tab_n_qubits t))\<lparr>subtableaux := ss'\<rparr>)))))"

section \<open>Phase polynomials\<close>

text \<open>\<open>is_phase_polynomial\<close> reads \<open>front()\<close> once all rotations are diagonal, so it is undefined on
  the empty list.\<close>

definition is_phase_polynomial :: "pauli_rotation list \<Rightarrow> bool option" where
  "is_phase_polynomial rs =
     (if \<not> list_all rot_is_diagonal rs then Some False
      else (case rs of [] \<Rightarrow> None
            | R # _ \<Rightarrow> Some (list_all (\<lambda>S. rot_n_qubits S = rot_n_qubits R) rs)))"

definition optimize_phase_polynomial :: "pp_strategy \<Rightarrow> pp_strategy" where
  "optimize_phase_polynomial strategy T rs =
     (case is_phase_polynomial rs of
        None \<Rightarrow> None
      | Some False \<Rightarrow> Some (T, rs)
      | Some True \<Rightarrow> strategy T rs)"

definition optimize_subs :: "pp_strategy \<Rightarrow> nat list \<Rightarrow> nat \<Rightarrow> sub_tableau list \<Rightarrow> sub_tableau list option" where
  "optimize_subs strategy = walk_subs (optimize_phase_polynomial strategy)"

definition optimize_phase_polynomials :: "(nat \<Rightarrow> bool) \<Rightarrow> pp_strategy \<Rightarrow> tableau \<Rightarrow> tableau option" where
  "optimize_phase_polynomials stop strategy t =
     (if subtableaux t = [] then Some t
      else
        (let ss = front_clifford (tab_n_qubits t) (subtableaux t) in
         map_option (\<lambda>ss'. remove_identities stop (t\<lparr>subtableaux := ss'\<rparr>))
           (optimize_subs strategy [0..<length ss] 0 ss)))"

section \<open>Matroid partition\<close>

definition is_independent :: "nat \<Rightarrow> pauli_rotation list \<Rightarrow> bool" where
  "is_independent num_ancillae rs =
     (let dim_v = rot_n_qubits (hd rs); n = dim_v + num_ancillae
      in dim_v + length rs \<le> n + rot_matrix_rank rs)"

type_synonym matroid_strategy = "pauli_rotation list \<Rightarrow> nat \<Rightarrow> pauli_rotation list list option"

text \<open>The naive strategy; a failed assertion at the end is \<open>None\<close>.\<close>

definition naive_step :: "nat \<Rightarrow> pauli_rotation \<Rightarrow> pauli_rotation list list \<Rightarrow> pauli_rotation list list" where
  "naive_step num_ancillae R ms =
     (let m = last ms @ [R] in
      if is_independent num_ancillae m then butlast ms @ [m] else ms @ [[R]])"

definition naive_partition :: matroid_strategy where
  "naive_partition rs num_ancillae =
     (if rs = [] then Some [[]]
      else (let ms = fold (naive_step num_ancillae) rs [[]]
            in if list_ex (\<lambda>m. m = []) ms then None else Some ms))"

datatype 'a outcome = Undefined | NullOpt | Result 'a

definition matroid_partition :: "matroid_strategy \<Rightarrow> nat \<Rightarrow> pauli_rotation list \<Rightarrow> pauli_rotation list list outcome" where
  "matroid_partition strategy num_ancillae rs =
     (case is_phase_polynomial rs of
        None \<Rightarrow> Undefined
      | Some False \<Rightarrow> NullOpt
      | Some True \<Rightarrow> (case strategy rs num_ancillae of None \<Rightarrow> Undefined | Some ms \<Rightarrow> Result ms))"

fun partition_subs :: "matroid_strategy \<Rightarrow> nat \<Rightarrow> sub_tableau list \<Rightarrow> sub_tableau list \<Rightarrow> sub_tableau list outcome" where
  "partition_subs strategy num_ancillae [] acc = Result acc"
| "partition_subs strategy num_ancillae (SubST T # rest) acc =
     partition_subs strategy num_ancillae rest (acc @ [SubST T])"
| "partition_subs strategy num_ancillae (SubPR rs # rest) acc =
     (case matroid_partition strategy num_ancillae rs of
        Undefined \<Rightarrow> Undefined
      | NullOpt \<Rightarrow> NullOpt
      | Result ms \<Rightarrow> partition_subs strategy num_ancillae rest (acc @ map SubPR ms))"

definition matroid_partition_tableau :: "matroid_strategy \<Rightarrow> nat \<Rightarrow> tableau \<Rightarrow> tableau outcome" where
  "matroid_partition_tableau strategy num_ancillae t =
     (case partition_subs strategy num_ancillae (subtableaux t) (subtableaux (tableau_new (tab_n_qubits t))) of
        Undefined \<Rightarrow> Undefined
      | NullOpt \<Rightarrow> NullOpt
      | Result ss \<Rightarrow> Result ((tableau_new (tab_n_qubits t))\<lparr>subtableaux := ss\<rparr>))"

end
