(* ===== verification/TableauPasses.thy ===== *)
theory TableauPasses
  imports TableauOptimization
begin

text \<open>
  Correctness of the passes of \<open>TableauOptimization\<close>: each leaves the operator of the sequence
  unchanged up to a global scalar, keeps it well-formed, and returns.
\<close>

section \<open>Removing and merging rotations\<close>

lemma phase_of_int_ok: "phase_ok (phase_of_int k)" "mod2 (phase_val (phase_of_int k)) (of_int k)"
  using mk_phase_ok [of 1 k] by (simp_all add: phase_of_int_def mk_phase_def)

lemma phase_constants:
  "phase_val (phase_of_int 0) = 0" "phase_val (phase_of_int 1) = 1"
  "phase_val (mk_phase 1 2) = 1 / 2" "phase_val (mk_phase (-1) 2) = - (1 / 2)"
  "phase_val (mk_phase 1 4) = 1 / 4"
proof -
  have *: "phase_val p = x" if "phase_ok p" "mod2 (phase_val p) x" "- 1 < x" "x \<le> 1" for p x
    using that by (intro mod2_unique) (auto simp: phase_ok_def)
  show "phase_val (phase_of_int 0) = 0" "phase_val (phase_of_int 1) = 1"
    using phase_of_int_ok [of 0] phase_of_int_ok [of 1] by (auto intro: *)
  show "phase_val (mk_phase 1 2) = 1 / 2" "phase_val (mk_phase (-1) 2) = - (1 / 2)" "phase_val (mk_phase 1 4) = 1 / 4"
    using *[OF mk_phase_ok [of 2 1]] *[OF mk_phase_ok [of 2 "-1"]] *[OF mk_phase_ok [of 4 1]] by simp_all
qed

lemma rots_ok_filter: "rots_ok n rs \<Longrightarrow> rots_ok n (filter p rs)"
  by (auto simp: rots_ok_def list_all_iff)

lemma trivial_rotation: "rot_ok n R \<Longrightarrow> rot_is_trivial R \<Longrightarrow> rot_op R v = v"
  using rot_okD [of n R]
  by (auto simp: rot_is_trivial_def rot_op_def phase_eq_iff phase_angle_def phase_constants q_rot_zero q_rot_identity [of n])

lemma remove_identity_op: "rots_ok n rs \<Longrightarrow> rots_op (remove_identity_rotations rs) v = rots_op rs v"
  by (induction rs arbitrary: v) (auto simp: remove_identity_rotations_def trivial_rotation)

lemma remove_identity_ok [intro]: "rots_ok n rs \<Longrightarrow> rots_ok n (remove_identity_rotations rs)"
  by (simp add: remove_identity_rotations_def rots_ok_filter)

lemma add_phase_ok: "rot_ok n R \<Longrightarrow> rot_ok n S \<Longrightarrow> rot_ok n (R\<lparr>rot_phase := phase_plus (rot_phase R) (rot_phase S)\<rparr>)"
  by (auto simp: rot_ok_def intro: phase_op_ok)

lemma set_phase_ok: "rot_ok n R \<Longrightarrow> phase_ok ph \<Longrightarrow> rot_ok n (R\<lparr>rot_phase := ph\<rparr>)"
  by (auto simp: rot_ok_def)

lemma add_phase_op:
  assumes "rot_ok n R" "rot_ok n S" "rot_product R = rot_product S"
  shows "rot_op (R\<lparr>rot_phase := phase_plus (rot_phase R) (rot_phase S)\<rparr>) v = rot_op S (rot_op R v)"
proof -
  have "rot_op S (rot_op R v) = q_rot (rot_product R) (real_of_rat (phase_val (rot_phase R) + phase_val (rot_phase S))) v"
    using rot_okD(1) [OF assms(1)] assms(3)
    by (simp add: rot_op_def phase_angle_def q_rot_add [of n] of_rat_add add.commute)
  also have "\<dots> = rot_op (R\<lparr>rot_phase := phase_plus (rot_phase R) (rot_phase S)\<rparr>) v"
    unfolding rot_op_def phase_angle_def
    using phase_plus_ok(2) [OF rot_okD(3) [OF assms(1)] rot_okD(3) [OF assms(2)]]
    by (simp add: q_rot_mod2 [OF mod2_sym])
  finally show ?thesis by simp
qed

lemma commuting_rotations:
  assumes "rot_ok n R" "rot_ok n S" "rot_is_commutative R S"
  shows "rot_op R (rot_op S v) = rot_op S (rot_op R v)"
  unfolding rot_op_def
  by (rule q_rot_commute [of n]) (use assms rot_okD in \<open>auto simp: rot_is_commutative_def pp_is_commutative_symp\<close>)

lemma merge_into_op:
  assumes "rot_ok n R" "rots_ok n rs"
  defines "R' \<equiv> fst (merge_into R rs)" and "rs' \<equiv> snd (merge_into R rs)"
  shows "rot_ok n R' \<and> rots_ok n rs' \<and> rot_product R' = rot_product R \<and> rots_op (R' # rs') v = rots_op (R # rs) v"
  using assms(1,2) unfolding R'_def rs'_def
proof (induction R rs arbitrary: v rule: merge_into.induct)
  case (2 R S rest)
  have S: "rot_ok n S" and rest: "rots_ok n rest" using "2.prems" by simp_all
  let ?R = "R\<lparr>rot_phase := phase_plus (rot_phase R) (rot_phase S)\<rparr>"
  show ?case
  proof (cases "rot_is_commutative R S")
    case False
    then show ?thesis using "2.prems" by simp
  next
    case c: True
    show ?thesis
    proof (cases "rot_product R = rot_product S")
      case True
      have IH: "rot_ok n (fst (merge_into ?R rest)) \<and> rots_ok n (snd (merge_into ?R rest)) \<and>
          rot_product (fst (merge_into ?R rest)) = rot_product ?R \<and>
          rots_op (fst (merge_into ?R rest) # snd (merge_into ?R rest)) v = rots_op (?R # rest) v" for v
        by (rule "2.IH"(1)) (use c True S rest "2.prems" in \<open>auto intro: add_phase_ok\<close>)
      have z: "rot_op (S\<lparr>rot_phase := phase_of_int 0\<rparr>) w = w" for w
        by (simp add: rot_op_def phase_angle_def phase_constants q_rot_zero)
      have "rot_ok n (S\<lparr>rot_phase := phase_of_int 0\<rparr>)" by (rule set_phase_ok [OF S phase_of_int_ok(1)])
      with IH [of v] c True z add_phase_op [OF "2.prems"(1) S True] show ?thesis
        by (simp add: split_beta)
    next
      case False
      let ?R' = "fst (merge_into R rest)"
      have IH: "rot_ok n ?R' \<and> rots_ok n (snd (merge_into R rest)) \<and> rot_product ?R' = rot_product R \<and>
          rots_op (?R' # snd (merge_into R rest)) v = rots_op (R # rest) v" for v
        by (rule "2.IH"(2)) (use c False rest "2.prems" in auto)
      have "rot_is_commutative ?R' S" using c IH [of v] by (simp add: rot_is_commutative_def)
      then have "rot_op ?R' (rot_op S v) = rot_op S (rot_op ?R' v)" "rot_op R (rot_op S v) = rot_op S (rot_op R v)"
        using commuting_rotations [OF _ S] IH c "2.prems"(1) by blast+
      with IH [of "rot_op S v"] c False S show ?thesis by (simp add: split_beta)
    qed
  qed
qed simp

lemma merge_loop_op: "rots_ok n rs \<Longrightarrow> rots_ok n (merge_loop rs) \<and> rots_op (merge_loop rs) v = rots_op rs v"
proof (induction rs arbitrary: v rule: merge_loop.induct)
  case (2 R rest)
  have m: "rot_ok n (fst (merge_into R rest)) \<and> rots_ok n (snd (merge_into R rest)) \<and>
      rot_product (fst (merge_into R rest)) = rot_product R \<and>
      rots_op (fst (merge_into R rest) # snd (merge_into R rest)) v = rots_op (R # rest) v"
    by (rule merge_into_op) (use "2.prems" in auto)
  then show ?case using "2.IH" by simp
qed simp

lemma merge_rotations_op:
  assumes "rots_ok n rs"
  shows "rots_ok n (merge_rotations rs)" "rots_op (merge_rotations rs) v = rots_op rs v"
  using merge_loop_op [OF assms] remove_identity_op [of n "merge_loop rs"] by (auto simp: merge_rotations_def)

lemma length_merge_loop [simp]: "length (merge_loop rs) = length rs"
  by (induction rs rule: merge_loop.induct) (auto simp: length_merge_into)

lemma length_merge_rotations: "length (merge_rotations rs) \<le> length rs"
  using length_filter_le [of "\<lambda>R. \<not> rot_is_trivial R" "merge_loop rs"]
  by (simp add: merge_rotations_def remove_identity_rotations_def del: length_filter_le)

text \<open>What is left is not trivial, so its product can be reduced to a single Z.\<close>

definition reducible :: "pauli_rotation list \<Rightarrow> bool" where
  "reducible rs = list_all (\<lambda>R. \<not> is_identity (rot_product R)) rs"

lemma reducible_remove [intro]: "reducible (remove_identity_rotations rs)"
  by (auto simp: reducible_def remove_identity_rotations_def list_all_iff rot_is_trivial_def)

lemma reducible_merge: "reducible (merge_rotations rs)"
  by (simp add: merge_rotations_def reducible_remove)

section \<open>Moving one rotation to the front\<close>

text \<open>A string applied to the view acts on the tableau and on the first rotations.\<close>

lemma cv_trait_sel [simp]:
  "h_op (cv_trait m) q s = (st_h q (fst s), map (rot_h q) (take m (snd s)) @ drop m (snd s))"
  "s_op (cv_trait m) q s = (st_s q (fst s), map (rot_s q) (take m (snd s)) @ drop m (snd s))"
  "cx_op (cv_trait m) c t s = (st_cx c t (fst s), map (rot_cx c t) (take m (snd s)) @ drop m (snd s))"
  by (simp_all add: cv_trait_def cv_apply_def)

lemma map_prefix:
  "take m (map f (take m xs) @ drop m xs) = map f (take m xs)" "drop m (map f (take m xs) @ drop m xs) = drop m xs"
  by (cases "m \<le> length xs"; simp)+

lemma cv_string:
  assumes "string_ok n xs"
  shows "trait_apply_string (cv_trait m) xs s =
    (trait_apply_string st_trait xs (fst s), map (trait_apply_string rot_trait xs) (take m (snd s)) @ drop m (snd s))"
proof (rule prod_eqI)
  have "\<forall>s. fst (trait_apply_string (cv_trait m) xs s) = trait_apply_string st_trait xs (fst s)"
    by (rule trait_apply_string_rel [where n = n and R = "\<lambda>F f. \<forall>s. fst (F s) = f (fst s)"])
      (use assms in \<open>simp_all del: split_paired_All\<close>)
  then show "fst (trait_apply_string (cv_trait m) xs s) = fst (trait_apply_string st_trait xs (fst s),
      map (trait_apply_string rot_trait xs) (take m (snd s)) @ drop m (snd s))" by (simp del: split_paired_All)
  have "\<forall>s. snd (trait_apply_string (cv_trait m) xs s) =
      map (trait_apply_string rot_trait xs) (take m (snd s)) @ drop m (snd s)"
    by (rule trait_apply_string_rel [where n = n and R = "\<lambda>F f. \<forall>s. snd (F s) = map f (take m (snd s)) @ drop m (snd s)"])
      (use assms in \<open>simp_all add: map_prefix del: split_paired_All take_append drop_append\<close>)
  then show "snd (trait_apply_string (cv_trait m) xs s) = snd (trait_apply_string st_trait xs (fst s),
      map (trait_apply_string rot_trait xs) (take m (snd s)) @ drop m (snd s))" by (simp del: split_paired_All)
qed

text \<open>A rotation by a quarter, half or minus a quarter turn is a Clifford string.\<close>

definition quarter_gate :: "phase \<Rightarrow> nat \<Rightarrow> clifford_op" where
  "quarter_gate ph q =
     (if phase_eq ph (mk_phase 1 2) then COT_s else if phase_eq ph (mk_phase (-1) 2) then COT_sdg else COT_z, q, 0)"

definition quarter :: "phase \<Rightarrow> bool" where
  "quarter ph \<longleftrightarrow> phase_eq ph (mk_phase 1 2) \<or> phase_eq ph (mk_phase (-1) 2) \<or> phase_eq ph (phase_of_int 1)"

definition rotation_string :: "pauli_rotation \<Rightarrow> clifford_string" where
  "rotation_string R =
     (case rot_extract_clifford_operators R of None \<Rightarrow> []
      | Some (ops, q) \<Rightarrow> ops @ [quarter_gate (rot_phase R) q] @ adjoint_string ops)"

lemma rotation_string_ok:
  assumes "rot_ok n R"
  shows "string_ok n (rotation_string R)"
  using rot_extract_spec(2) [OF assms]
  by (auto simp: rotation_string_def quarter_gate_def split: option.split prod.split)

lemma quarter_gate_op:
  assumes "quarter ph" "q < n"
  shows "trait_apply q_trait (quarter_gate ph q) v = q_rot (z_gen n q) (phase_angle ph) v"
proof -
  have "mk_phase (-1) 2 \<noteq> mk_phase 1 2" "phase_of_int 1 \<noteq> mk_phase 1 2" "phase_of_int 1 \<noteq> mk_phase (-1) 2"
    using phase_constants by auto
  then show ?thesis
    using assms q_rot_z_gen [OF assms(2)]
    by (auto simp: quarter_def quarter_gate_def phase_eq_iff phase_angle_def phase_constants of_rat_minus of_rat_divide)
qed

lemma rotation_string_op:
  assumes R: "rot_ok n R" and q: "quarter (rot_phase R)" and ni: "\<not> is_identity (rot_product R)"
  shows "op_eq n (rot_op R) (trait_apply_string q_trait (rotation_string R))"
proof -
  obtain ops k where e: "rot_extract_clifford_operators R = Some (ops, k)"
    using rot_extract_spec(1) [OF R] ni by (cases "rot_extract_clifford_operators R") auto
  note s = rot_extract_spec(2) [OF R e]
  let ?F = "trait_apply_string q_trait ops" and ?A = "trait_apply_string q_trait (adjoint_string ops)"
  have F: "?F (rot_op R v) = trait_apply q_trait (quarter_gate (rot_phase R) k) (?F v)" for v
  proof -
    have "?F (rot_op R v) = q_rot (z_gen n k) (phase_angle (rot_phase R)) (?F v)"
      unfolding rot_op_def
    proof (rule q_rot_conj)
      show "linear_op ?F" using s by (intro linear_apply_string) auto
      show "?F (q_pauli (rot_product R) v) = q_pauli (z_gen n k) (?F v)" for v
        using conjugates_string [of n ops] s rot_okD(1) [OF R] by (auto simp: conjugates_def)
    qed
    also have "\<dots> = trait_apply q_trait (quarter_gate (rot_phase R) k) (?F v)"
      by (rule quarter_gate_op [OF q, symmetric]) (use s in simp)
    finally show ?thesis .
  qed
  have "op_eq n (\<lambda>v. ?A (?F (rot_op R v))) (\<lambda>v. rot_op R v)"
    using op_eq_comp [OF adjoint_circuit op_eq_refl [of n "rot_op R"]] s R
      space_op_comp [OF space_op_string space_op_string] by auto
  from op_eq_sym [OF this] show ?thesis
    by (simp add: F e rotation_string_def) (simp add: op_eq_def)
qed

text \<open>A Clifford rotation leaves the list: the rotations before it are conjugated.\<close>

lemma rotation_to_front:
  assumes T: "st_ok n T" and a: "rots_ok n a" and b: "rots_ok n b" and R: "rot_ok n R"
    and G: "string_ok n G" "op_eq n (rot_op R) (trait_apply_string q_trait G)"
  shows "equivalent n [SubST T, SubPR (a @ R # b)]
    [SubST (trait_apply_string st_trait G T), SubPR (map (trait_apply_string rot_trait G) a @ b)]"
proof (rule equivI)
  let ?G = "trait_apply_string q_trait G" and ?a = "map (trait_apply_string rot_trait G) a"
  let ?T = "trait_apply_string st_trait G T"
  have a': "rots_ok n ?a" by (rule rots_ok_map [OF a G(1)])
  have T': "st_ok n ?T" by (rule st_apply_string_ok [OF T G(1)])
  show "subs_ok n [SubST T, SubPR (a @ R # b)]" "subs_ok n [SubST ?T, SubPR (?a @ b)]"
    using T a b R a' T' by simp_all
  have sp: "space_op n (rots_op b)" "space_op n (rots_op a)" "space_op n (st_op T)" "space_op n (rots_op ?a)"
    using a b T a' by auto
  have "op_eq n (\<lambda>v. rot_op R (rots_op a (st_op T v))) (\<lambda>v. ?G (rots_op a (st_op T v)))"
    by (rule op_eq_comp [OF G(2) op_eq_refl]) (use R space_op_comp [OF sp(2,3)] in auto)
  also have "op_eq n \<dots> (\<lambda>v. rots_op ?a (?G (st_op T v)))"
    by (rule op_eq_comp [OF string_through_rotations [OF G(1) a] op_eq_refl])
      (use sp space_op_comp [OF space_op_string [OF G(1)] sp(2)] in auto)
  also have "op_eq n \<dots> (\<lambda>v. rots_op ?a (st_op ?T v))"
    by (rule op_eq_comp [OF op_eq_refl op_eq_sym [OF st_op_append [OF T G(1)]]]) (use sp T' in auto)
  finally have "op_eq n (\<lambda>v. rot_op R (rots_op a (st_op T v))) (\<lambda>v. rots_op ?a (st_op ?T v))" .
  then have "op_eq n (\<lambda>v. rots_op b (rot_op R (rots_op a (st_op T v)))) (\<lambda>v. rots_op b (rots_op ?a (st_op ?T v)))"
    by (rule op_eq_comp [OF op_eq_refl]) (use sp space_op_comp [OF sp(4) space_op_st [OF T']] in auto)
  then show "op_eq n (\<lambda>v. subs_op [SubST T, SubPR (a @ R # b)] v) (\<lambda>v. subs_op [SubST ?T, SubPR (?a @ b)] v)"
    by simp
qed

text \<open>Conjugation keeps products away from the identity.\<close>

lemma identity_conj:
  assumes "string_ok n xs"
  shows "\<forall>P. pp_ok n P \<and> is_identity P \<longrightarrow> pp_ok n (trait_apply_string pp_trait xs P) \<and> is_identity (trait_apply_string pp_trait xs P)"
proof (rule trait_apply_string_rel [where n = n and T' = pp_trait
      and R = "\<lambda>F _. \<forall>P. pp_ok n P \<and> is_identity P \<longrightarrow> pp_ok n (F P) \<and> is_identity (F P)"])
  show "\<forall>P. pp_ok n P \<and> is_identity P \<longrightarrow> pp_ok n (h_op pp_trait q P) \<and> is_identity (h_op pp_trait q P)" if "q < n" for q
    using that by (auto simp: pp_ok_def is_identity_def list_all_iff is_i_def pp_h_bits)
  show "\<forall>P. pp_ok n P \<and> is_identity P \<longrightarrow> pp_ok n (s_op pp_trait q P) \<and> is_identity (s_op pp_trait q P)" if "q < n" for q
    using that by (auto simp: pp_ok_def is_identity_def list_all_iff is_i_def pp_s_bits)
  show "\<forall>P. pp_ok n P \<and> is_identity P \<longrightarrow> pp_ok n (cx_op pp_trait c t P) \<and> is_identity (cx_op pp_trait c t P)"
    if "c < n" "t < n" "c \<noteq> t" for c t
    using that by (auto simp: pp_ok_def is_identity_def list_all_iff is_i_def pp_cx_bits)
qed (use assms in auto)

lemma product_negate_identity: "pp_ok n P \<Longrightarrow> is_identity (pp_negate P) = is_identity P"
  by (auto simp: is_identity_def list_all_iff is_i_def pp_negate_bits pp_ok_def)

lemma reducible_conj:
  assumes "rots_ok n rs" "string_ok n xs" "reducible rs"
  shows "reducible (map (trait_apply_string rot_trait xs) rs)"
proof -
  have "\<not> is_identity (rot_product (trait_apply_string rot_trait xs R))" if R: "rot_ok n R" "\<not> is_identity (rot_product R)" for R
  proof -
    let ?P = "trait_apply_string pp_trait xs (rot_product R)"
    have P: "pp_ok n ?P" using pp.apply_string_ok [OF rot_okD(1) [OF R(1)] assms(2)] .
    have "\<not> is_identity ?P"
      using identity_conj [OF pp.inverse_string_ok [OF assms(2)]] P pp.apply_inverse_string [OF rot_okD(1) [OF R(1)] assms(2)] R(2)
      by metis
    then show ?thesis
      by (simp add: lifts_self [OF lifts_string [OF assms(2)] R(1)] mk_rotation_sign product_negate_identity [OF P])
  qed
  with assms show ?thesis by (auto simp: reducible_def rots_ok_def list_all_iff)
qed

lemma reducible_simps [simp]: "reducible []" "reducible (R # rs) \<longleftrightarrow> \<not> is_identity (rot_product R) \<and> reducible rs"
  "reducible (rs @ ss) \<longleftrightarrow> reducible rs \<and> reducible ss"
  by (simp_all add: reducible_def)

section \<open>Absorbing Clifford rotations\<close>

text \<open>The passes keep this relation to the state they start from.\<close>

definition pass_rel :: "nat \<Rightarrow> conj_state \<Rightarrow> conj_state \<Rightarrow> bool" where
  "pass_rel n s s' \<longleftrightarrow> equivalent n [SubST (fst s), SubPR (snd s)] [SubST (fst s'), SubPR (snd s')]"

lemma pass_rel_ok: "pass_rel n s s' \<Longrightarrow> st_ok n (fst s')" "pass_rel n s s' \<Longrightarrow> rots_ok n (snd s')"
  "pass_rel n s s' \<Longrightarrow> st_ok n (fst s)" "pass_rel n s s' \<Longrightarrow> rots_ok n (snd s)"
  by (auto simp: pass_rel_def equivalent_def)

lemma pass_rel_refl: "st_ok n (fst s) \<Longrightarrow> rots_ok n (snd s) \<Longrightarrow> pass_rel n s s"
  by (simp add: pass_rel_def)

lemma pass_rel_trans [trans]: "pass_rel n s s' \<Longrightarrow> pass_rel n s' s'' \<Longrightarrow> pass_rel n s s''"
  unfolding pass_rel_def by (rule equiv_trans)

lemma pass_rel_rotations:
  assumes "st_ok n T" "rots_ok n rs" "rots_ok n rs'" "\<And>v. rots_op rs' v = rots_op rs v"
  shows "pass_rel n (T, rs) (T, rs')"
  unfolding pass_rel_def by (rule equivI) (use assms in auto)

lemma pass_rel_front:
  assumes T: "st_ok n T" and ok: "rots_ok n (a @ R # b)" and G: "string_ok n G" "op_eq n (rot_op R) (trait_apply_string q_trait G)"
  shows "pass_rel n (T, a @ R # b) (trait_apply_string st_trait G T, map (trait_apply_string rot_trait G) a @ b)"
  unfolding pass_rel_def using rotation_to_front [OF T _ _ _ G, of a b] ok by simp

lemma zero_phase_op: "rot_op (R\<lparr>rot_phase := phase_of_int 0\<rparr>) v = v"
  by (simp add: rot_op_def phase_angle_def phase_constants q_rot_zero)

lemma split_at: "i < length xs \<Longrightarrow> xs = take i xs @ xs ! i # drop (Suc i) xs"
  by (rule id_take_nth_drop)

text \<open>The body of the loop: extraction, gate and adjoint amount to one string on the view.\<close>

lemma view_string:
  assumes xs: "string_ok n xs" and i: "i < length rs"
  shows "trait_apply_string (cv_trait i) xs (T, rs) =
    (trait_apply_string st_trait xs T, map (trait_apply_string rot_trait xs) (take i rs) @ rs ! i # drop (Suc i) rs)"
  using i by (simp add: cv_string [OF xs] Cons_nth_drop_Suc)

lemma quarter_gate_view:
  "(if phase_eq ph (mk_phase 1 2) then s_op (cv_trait i) q s
    else if phase_eq ph (mk_phase (-1) 2) then trait_sdg (cv_trait i) q s else trait_z (cv_trait i) q s) =
   trait_apply (cv_trait i) (quarter_gate ph q) s"
  by (simp add: quarter_gate_def)

lemma absorb_step_rel:
  assumes T: "st_ok n T" and rs: "rots_ok n rs" and red: "reducible rs" and i: "i < length rs"
  shows "\<exists>T' rs'. absorb_step i (T, rs) = Some (T', rs') \<and> length rs' = length rs \<and> reducible rs' \<and>
    pass_rel n (T, rs) (T', rs')"
proof -
  let ?R = "rs ! i" and ?a = "take i rs" and ?b = "drop (Suc i) rs"
  have R: "rot_ok n ?R" "\<not> is_identity (rot_product ?R)"
    using rs red i by (auto simp: rots_ok_def reducible_def list_all_length)
  show ?thesis
  proof (cases "quarter (rot_phase ?R)")
    case False
    then have "absorb_step i (T, rs) = Some (T, rs)" by (simp add: absorb_step_def quarter_def)
    with T rs red show ?thesis by (auto intro: pass_rel_refl)
  next
    case q: True
    obtain ops k where e: "rot_extract_clifford_operators ?R = Some (ops, k)"
      using rot_extract_spec(1) [OF R(1)] R(2) by (cases "rot_extract_clifford_operators ?R") auto
    note s = rot_extract_spec(2) [OF R(1) e]
    let ?g = "quarter_gate (rot_phase ?R) k" and ?G = "rotation_string ?R"
    let ?Rz = "?R\<lparr>rot_phase := phase_of_int 0\<rparr>"
    have G: "?G = ops @ [?g] @ adjoint_string ops" by (simp add: rotation_string_def e)
    have Gok: "string_ok n ?G" by (rule rotation_string_ok [OF R(1)])
    then have g: "string_ok n (ops @ [?g])" "string_ok n (adjoint_string ops)" by (simp_all add: G)
    let ?T' = "trait_apply_string st_trait ?G T" and ?rs' = "map (trait_apply_string rot_trait ?G) ?a @ ?Rz # ?b"
    have "trait_apply (cv_trait i) ?g (trait_apply_string (cv_trait i) ops (T, rs)) =
        trait_apply_string (cv_trait i) (ops @ [?g]) (T, rs)" by simp
    also note view_string [OF g(1) i]
    finally have v: "trait_apply (cv_trait i) ?g (trait_apply_string (cv_trait i) ops (T, rs)) =
        (trait_apply_string st_trait (ops @ [?g]) T, map (trait_apply_string rot_trait (ops @ [?g])) ?a @ ?R # ?b)" .
    have "absorb_step i (T, rs) = Some (?T', ?rs')"
      using i q
      by (auto simp: absorb_step_def Let_def e quarter_gate_view v quarter_def view_string [OF g(2)] G comp_def nth_append)
    moreover have "pass_rel n (T, rs) (?T', ?rs')"
    proof -
      have "pass_rel n (T, ?a @ ?R # ?b) (?T', map (trait_apply_string rot_trait ?G) ?a @ ?b)"
        by (rule pass_rel_front [OF T _ Gok rotation_string_op [OF R(1) q R(2)]]) (use rs split_at [OF i] in simp)
      also have "pass_rel n \<dots> (?T', ?rs')"
        by (rule pass_rel_rotations)
          (use pass_rel_ok [OF calculation] in \<open>auto simp: zero_phase_op intro: set_phase_ok [OF R(1) phase_of_int_ok(1)]\<close>)
      finally show ?thesis using split_at [OF i] by simp
    qed
    moreover have "reducible ?rs'"
      using reducible_conj [OF _ Gok, of ?a] rs red split_at [OF i] R(2)
      by (metis reducible_simps(2,3) rots_ok_simps(3) pauli_rotation.select_convs(1) pauli_rotation.surjective pauli_rotation.update_convs(2))
    ultimately show ?thesis using i by auto
  qed
qed

lemma absorb_loop_rel:
  assumes "st_ok n (fst s)" "rots_ok n (snd s)" "reducible (snd s)" "\<And>i. i \<in> set is \<Longrightarrow> i < length (snd s)"
  shows "\<exists>s'. absorb_loop is s = Some s' \<and> pass_rel n s s' \<and> length (snd s') = length (snd s)"
  using assms
proof (induction "is" arbitrary: s)
  case (Cons i "is")
  obtain T' rs' where s': "absorb_step i s = Some (T', rs')" "length rs' = length (snd s)" "reducible rs'" "pass_rel n s (T', rs')"
    using absorb_step_rel [of n "fst s" "snd s" i] Cons.prems by auto
  obtain s'' where "absorb_loop is (T', rs') = Some s''" "pass_rel n (T', rs') s''" "length (snd s'') = length rs'"
    using Cons.IH [of "(T', rs')"] s' pass_rel_ok [OF s'(4)] Cons.prems by auto
  with s' show ?case by (auto intro: pass_rel_trans)
qed (simp add: pass_rel_refl)

lemma absorb_rel:
  assumes T: "st_ok n T" and rs: "rots_ok n rs" and red: "reducible rs"
  shows "\<exists>T' rs'. absorb_clifford_rotations T rs = Some (T', rs') \<and> pass_rel n (T, rs) (T', rs') \<and> length rs' \<le> length rs"
proof -
  obtain T1 rs1 where l: "absorb_loop [0..<length rs] (T, rs) = Some (T1, rs1)" "pass_rel n (T, rs) (T1, rs1)" "length rs1 = length rs"
    using absorb_loop_rel [of n "(T, rs)" "[0..<length rs]"] assms by auto
  have "pass_rel n (T1, rs1) (T1, remove_identity_rotations rs1)"
    by (rule pass_rel_rotations) (use pass_rel_ok [OF l(2)] in \<open>auto simp: remove_identity_op\<close>)
  with l(2) have "pass_rel n (T, rs) (T1, remove_identity_rotations rs1)" by (rule pass_rel_trans)
  moreover have "length (remove_identity_rotations rs1) \<le> length rs"
    using l(3) length_filter_le [of _ rs1] unfolding remove_identity_rotations_def by metis
  ultimately show ?thesis using l by (simp add: absorb_clifford_rotations_def)
qed

lemma merge_rel: "st_ok n T \<Longrightarrow> rots_ok n rs \<Longrightarrow> pass_rel n (T, rs) (T, merge_rotations rs)"
  by (rule pass_rel_rotations) (simp_all add: merge_rotations_op)

lemma merge_absorb_rel:
  "st_ok n T \<Longrightarrow> rots_ok n rs \<Longrightarrow>
    \<exists>T' rs'. merge_absorb_loop T rs = Some (T', rs') \<and> pass_rel n (T, rs) (T', rs') \<and> length rs' \<le> length rs"
proof (induction T rs rule: merge_absorb_loop.induct)
  case (1 T rs)
  note m = merge_rel [OF "1.prems"]
  obtain T1 rs1 where a: "absorb_clifford_rotations T (merge_rotations rs) = Some (T1, rs1)"
    "pass_rel n (T, merge_rotations rs) (T1, rs1)" "length rs1 \<le> length (merge_rotations rs)"
    using absorb_rel [OF "1.prems"(1) merge_rotations_op(1) [OF "1.prems"(2)] reducible_merge] by blast
  have r: "pass_rel n (T, rs) (T1, rs1)" using m a(2) by (rule pass_rel_trans)
  have l: "length rs1 \<le> length rs" using a(3) length_merge_rotations [of rs] by simp
  show ?case
  proof (cases "length rs1 < length rs")
    case True
    obtain T2 rs2 where "merge_absorb_loop T1 rs1 = Some (T2, rs2)" "pass_rel n (T1, rs1) (T2, rs2)" "length rs2 \<le> length rs1"
      using "1.IH" [OF a(1) refl True] pass_rel_ok [OF r] by auto
    with r l True a(1) show ?thesis by (subst merge_absorb_loop.simps) (auto intro: pass_rel_trans)
  next
    case False
    with a(1) r l show ?thesis by (subst merge_absorb_loop.simps) auto
  qed
qed

section \<open>Proper rotations\<close>

lemma is_proper_phase_val: "phase_ok ph \<Longrightarrow> is_proper_phase ph \<longleftrightarrow> 0 \<le> phase_val ph \<and> phase_val ph < 1 / 2"
proof -
  assume "phase_ok ph"
  then have d: "0 < phase_denominator ph" by (auto simp: phase_ok_def canonical_def phase_denominator_def)
  have v: "phase_val ph = of_int (phase_numerator ph) / of_int (phase_denominator ph)"
    by (simp add: phase_val_def rat_val_def phase_numerator_def phase_denominator_def)
  have "phase_val ph < 1 / 2 \<longleftrightarrow> 2 * (of_int (phase_numerator ph) :: rat) < of_int (phase_denominator ph)"
    unfolding v using d by (simp add: field_simps)
  also have "\<dots> \<longleftrightarrow> 2 * phase_numerator ph < phase_denominator ph"
    by (metis of_int_less_iff of_int_mult of_int_numeral)
  moreover have "0 \<le> phase_val ph \<longleftrightarrow> 0 \<le> phase_numerator ph" unfolding v using d by (simp add: zero_le_divide_iff)
  ultimately show ?thesis by (simp add: is_proper_phase_def)
qed

lemma half_step:
  assumes "phase_ok ph"
  defines "ph' \<equiv> phase_minus ph (mk_phase 1 2)"
  shows "phase_ok ph'"
    "phase_val ph' = (if - (1 / 2) < phase_val ph then phase_val ph - 1 / 2 else phase_val ph + 3 / 2)"
proof -
  have h: "phase_ok (mk_phase 1 2)" by (rule mk_phase_ok) simp
  note m = phase_minus_ok [OF assms(1) h]
  show ok: "phase_ok ph'" unfolding ph'_def by (rule m(1))
  let ?x = "if - (1 / 2) < phase_val ph then phase_val ph - 1 / 2 else phase_val ph + 3 / 2"
  have "mod2 (phase_val ph - 1 / 2) ?x"
    by (auto simp: mod2_def intro: exI [of _ 0] exI [of _ "-1"])
  with m(2) have "mod2 (phase_val ph') ?x"
    unfolding ph'_def phase_constants by (rule mod2_trans)
  with ok show "phase_val ph' = ?x"
    by (rule_tac mod2_unique) (use assms(1) in \<open>auto simp: phase_ok_def\<close>)
qed

lemma complement_steps:
  "phase_plus (phase_of_int 0) (mk_phase 1 2) = mk_phase 1 2"
  "phase_plus (mk_phase 1 2) (mk_phase 1 2) = phase_of_int 1"
  "phase_plus (phase_of_int 1) (mk_phase 1 2) = mk_phase (-1) 2"
proof -
  have h: "phase_ok (mk_phase 1 2)" "phase_ok (mk_phase (-1) 2)" by (auto intro: mk_phase_ok)
  note z = phase_of_int_ok(1)
  show "phase_plus (phase_of_int 0) (mk_phase 1 2) = mk_phase 1 2"
    by (rule phase_eqI) (use phase_plus_ok [OF z h(1), of 0] h in \<open>auto simp: phase_constants\<close>)
  show "phase_plus (mk_phase 1 2) (mk_phase 1 2) = phase_of_int 1"
    by (rule phase_eqI) (use phase_plus_ok [OF h(1) h(1)] z in \<open>auto simp: phase_constants\<close>)
  show "phase_plus (phase_of_int 1) (mk_phase 1 2) = mk_phase (-1) 2"
  proof (rule phase_eqI)
    have "mod2 (1 + 1 / 2) (- (1 / 2))" by (auto simp: mod2_def intro: exI [of _ 1])
    then show "mod2 (phase_val (phase_plus (phase_of_int 1) (mk_phase 1 2))) (phase_val (mk_phase (-1) 2))"
      using mod2_trans [OF phase_plus_ok(2) [OF z h(1), of 1]] by (simp add: phase_constants)
  qed (use phase_plus_ok(1) [OF z h(1)] h in auto)
qed

lemma complement_loop_result:
  assumes ph: "phase_ok ph"
  shows "\<exists>ph' c. complement_loop ph (phase_of_int 0) = Some (ph', c) \<and> phase_ok ph' \<and> is_proper_phase ph' \<and>
    phase_ok c \<and> mod2 (phase_val c + phase_val ph') (phase_val ph) \<and> (c = phase_of_int 0 \<or> quarter c)"
proof -
  define h where "h p = phase_minus p (mk_phase 1 2)" for p
  have stop: "complement_loop p c = Some (p, c)" if "is_proper_phase p" for p c
    using that by (subst complement_loop.simps) simp
  have go: "complement_loop p c = complement_loop (h p) (phase_plus c (mk_phase 1 2))" if "\<not> is_proper_phase p" for p c
    using that by (subst complement_loop.simps) (simp add: h_def)
  note H = half_step [folded h_def]
  have ok: "phase_ok (h ph)" "phase_ok (h (h ph))" "phase_ok (h (h (h ph)))" using H ph by auto
  note val = H(2) [OF ph] H(2) [OF ok(1)] H(2) [OF ok(2)]
  note P = is_proper_phase_val [OF ph] is_proper_phase_val [OF ok(1)] is_proper_phase_val [OF ok(2)] is_proper_phase_val [OF ok(3)]
  have r: "- 1 < phase_val ph" "phase_val ph \<le> 1" using ph by (auto simp: phase_ok_def)
  have oks: "phase_ok (mk_phase 1 2)" "phase_ok (mk_phase (-1) 2)" by (auto intro: mk_phase_ok)
  have q: "quarter (mk_phase 1 2)" "quarter (phase_of_int 1)" "quarter (mk_phase (-1) 2)"
    by (auto simp: quarter_def phase_eq_iff)
  have m: "mod2 (x + 2) x" "mod2 (x - 2) x" for x by (auto simp: mod2_def intro: exI [of _ 1] exI [of _ "-1"])
  consider "is_proper_phase ph" | "\<not> is_proper_phase ph" "is_proper_phase (h ph)"
    | "\<not> is_proper_phase ph" "\<not> is_proper_phase (h ph)" "is_proper_phase (h (h ph))"
    | "\<not> is_proper_phase ph" "\<not> is_proper_phase (h ph)" "\<not> is_proper_phase (h (h ph))"
    by blast
  then show ?thesis
  proof cases
    case 1
    then show ?thesis using ph by (auto simp: stop phase_of_int_ok phase_constants)
  next
    case 2
    then have "phase_val (mk_phase 1 2) + phase_val (h ph) = phase_val ph"
      unfolding P val phase_constants using r by (auto split: if_splits)
    with 2 show ?thesis using ok oks q by (auto simp: go stop complement_steps)
  next
    case 3
    then have "phase_val (phase_of_int 1) + phase_val (h (h ph)) = phase_val ph \<or>
        phase_val (phase_of_int 1) + phase_val (h (h ph)) = phase_val ph + 2"
      unfolding P val phase_constants using r by (auto split: if_splits)
    with 3 show ?thesis using ok oks q m [of "phase_val ph"] by (auto simp: go stop complement_steps phase_of_int_ok)
  next
    case 4
    then have p: "is_proper_phase (h (h (h ph)))" "phase_val (mk_phase (-1) 2) + phase_val (h (h (h ph))) = phase_val ph"
      unfolding P val phase_constants using r by (auto split: if_splits)
    with 4 show ?thesis using ok oks q by (auto simp: go stop complement_steps)
  qed
qed

lemma split_phase_op:
  assumes R: "rot_ok n R" and ok: "phase_ok p" "phase_ok c" and m: "mod2 (phase_val c + phase_val p) (phase_val (rot_phase R))"
  shows "rot_op (R\<lparr>rot_phase := p\<rparr>) (rot_op (R\<lparr>rot_phase := c\<rparr>) v) = rot_op R v"
proof -
  have "rot_op (R\<lparr>rot_phase := p\<rparr>) (rot_op (R\<lparr>rot_phase := c\<rparr>) v) = q_rot (rot_product R) (real_of_rat (phase_val c + phase_val p)) v"
    using rot_okD(1) [OF R] by (simp add: rot_op_def phase_angle_def q_rot_add [of n] of_rat_add add.commute)
  also have "\<dots> = rot_op R v" by (simp add: rot_op_def phase_angle_def q_rot_mod2 [OF m])
  finally show ?thesis .
qed

definition proper_from :: "nat \<Rightarrow> pauli_rotation list \<Rightarrow> bool" where
  "proper_from k rs \<longleftrightarrow> (\<forall>j. k \<le> j \<longrightarrow> j < length rs \<longrightarrow> is_proper_phase (rot_phase (rs ! j)))"

text \<open>One step in closed form: the complement moves to the front as a string, unless it is zero.\<close>

definition complement_string :: "pauli_rotation \<Rightarrow> phase \<Rightarrow> clifford_string" where
  "complement_string R c = (if c = phase_of_int 0 then [] else rotation_string (R\<lparr>rot_phase := c\<rparr>))"

lemma properize_step_form:
  assumes R: "rot_ok n (rs ! i)" "\<not> is_identity (rot_product (rs ! i))" and i: "i < length rs"
    and l: "complement_loop (rot_phase (rs ! i)) (phase_of_int 0) = Some (p, c)" and c: "phase_ok c" "c = phase_of_int 0 \<or> quarter c"
  defines "d \<equiv> complement_string (rs ! i) c"
  shows "string_ok n d"
    "properize_step i (T, rs) = Some (trait_apply_string st_trait d T,
      map (trait_apply_string rot_trait d) (take i rs) @ (rs ! i)\<lparr>rot_phase := p\<rparr> # drop (Suc i) rs)"
proof -
  let ?R = "rs ! i"
  let ?Rp = "?R\<lparr>rot_phase := p\<rparr>" and ?Rc = "?R\<lparr>rot_phase := c\<rparr>"
  have Rc: "rot_ok n ?Rc" using c(1) R(1) by (auto intro: set_phase_ok)
  show ok: "string_ok n d" using rotation_string_ok [OF Rc] by (simp add: d_def complement_string_def)
  have upd: "rs[i := ?Rp] = take i rs @ ?Rp # drop (Suc i) rs" using i by (rule upd_conv_take_nth_drop)
  show "properize_step i (T, rs) = Some (trait_apply_string st_trait d T,
      map (trait_apply_string rot_trait d) (take i rs) @ ?Rp # drop (Suc i) rs)"
  proof (cases "c = phase_of_int 0")
    case True
    have "map (trait_apply_string rot_trait []) xs = xs" for xs by (simp add: map_idI)
    then show ?thesis using True by (simp add: properize_step_def l upd phase_eq_iff d_def complement_string_def)
  next
    case False
    obtain ops k where e: "rot_extract_clifford_operators ?Rp = Some (ops, k)" "rot_extract_clifford_operators ?Rc = Some (ops, k)"
      using rot_extract_spec(1) [OF R(1)] R(2)
      by (cases "rot_extract_clifford_operators ?R") (auto simp: rot_extract_clifford_operators_def)
    have G: "d = ops @ [quarter_gate c k] @ adjoint_string ops" using False by (simp add: d_def complement_string_def rotation_string_def e)
    have "properize_step i (T, rs) = Some (trait_apply_string (cv_trait i) d (T, rs[i := ?Rp]))"
      using False i by (simp add: properize_step_def l Let_def phase_eq_iff [of c "phase_of_int 0"] e quarter_gate_view G)
    then show ?thesis using view_string [OF ok, of i "rs[i := ?Rp]" T] i by simp
  qed
qed

lemma properize_step_rel:
  assumes T: "st_ok n T" and rs: "rots_ok n rs" and red: "reducible rs" and i: "i < length rs" and pf: "proper_from (Suc i) rs"
  shows "\<exists>T' rs'. properize_step i (T, rs) = Some (T', rs') \<and> length rs' = length rs \<and> reducible rs' \<and>
    proper_from i rs' \<and> pass_rel n (T, rs) (T', rs')"
proof -
  let ?R = "rs ! i" and ?a = "take i rs" and ?b = "drop (Suc i) rs"
  have R: "rot_ok n ?R" "\<not> is_identity (rot_product ?R)"
    using rs red i by (auto simp: rots_ok_def reducible_def list_all_length)
  have ab: "rots_ok n ?a" "rots_ok n ?b" "reducible ?a" "reducible ?b"
    using rs red split_at [OF i] by (metis rots_ok_simps(2,3), metis rots_ok_simps(2,3), metis reducible_simps(2,3), metis reducible_simps(2,3))
  obtain p c where l: "complement_loop (rot_phase ?R) (phase_of_int 0) = Some (p, c)" "phase_ok p" "is_proper_phase p"
    "phase_ok c" "mod2 (phase_val c + phase_val p) (phase_val (rot_phase ?R))" "c = phase_of_int 0 \<or> quarter c"
    using complement_loop_result [OF rot_okD(3) [OF R(1)]] by blast
  let ?Rp = "?R\<lparr>rot_phase := p\<rparr>" and ?Rc = "?R\<lparr>rot_phase := c\<rparr>" and ?d = "complement_string ?R c"
  have Rpc: "rot_ok n ?Rp" "rot_ok n ?Rc" using l R(1) by (auto intro: set_phase_ok)
  note st = properize_step_form [OF R i l(1,4,6)]
  let ?T' = "trait_apply_string st_trait ?d T" and ?rs' = "map (trait_apply_string rot_trait ?d) ?a @ ?Rp # ?b"
  have pf': "proper_from i ?rs'"
    using pf l(3) i by (auto simp: proper_from_def nth_append nth_Cons' not_less Suc_le_eq)
  have split: "pass_rel n (T, rs) (T, ?a @ ?Rc # ?Rp # ?b)"
  proof (rule pass_rel_rotations [OF T rs])
    show "rots_op (?a @ ?Rc # ?Rp # ?b) v = rots_op rs v" for v
      using split_phase_op [OF R(1) l(2,4,5)] arg_cong [OF split_at [OF i], of "\<lambda>rs. rots_op rs v"] by simp
  qed (use ab Rpc in simp)
  also have "pass_rel n (T, ?a @ ?Rc # ?Rp # ?b) (?T', ?rs')"
  proof (cases "c = phase_of_int 0")
    case True
    have "map (trait_apply_string rot_trait []) xs = xs" for xs by (simp add: map_idI)
    then have e: "?T' = T" "?rs' = ?a @ ?Rp # ?b" using True by (simp_all add: complement_string_def)
    show ?thesis
      unfolding e by (rule pass_rel_rotations [OF T]) (use ab Rpc in \<open>auto simp: True zero_phase_op\<close>)
  next
    case False
    then have q: "quarter c" "?d = rotation_string ?Rc" using l(6) by (simp_all add: complement_string_def)
    show ?thesis
      unfolding q(2) by (rule pass_rel_front [OF T _ rotation_string_ok [OF Rpc(2)] rotation_string_op [OF Rpc(2)]]) (use ab Rpc R q in auto)
  qed
  finally have "pass_rel n (T, rs) (?T', ?rs')" .
  moreover have "reducible ?rs'" using reducible_conj [OF ab(1) st(1) ab(3)] ab R(2) by simp
  ultimately show ?thesis using st(2) pf' i by auto
qed

lemma properize_loop_rel:
  assumes "st_ok n (fst s)" "rots_ok n (snd s)" "reducible (snd s)" "k \<le> length (snd s)" "proper_from k (snd s)"
  shows "\<exists>s'. properize_loop (rev [0..<k]) s = Some s' \<and> pass_rel n s s' \<and> proper_from 0 (snd s')"
  using assms
proof (induction k arbitrary: s)
  case (Suc k)
  obtain T' rs' where s': "properize_step k s = Some (T', rs')" "length rs' = length (snd s)" "reducible rs'"
    "proper_from k rs'" "pass_rel n s (T', rs')"
    using properize_step_rel [of n "fst s" "snd s" k] Suc.prems by auto
  obtain s'' where "properize_loop (rev [0..<k]) (T', rs') = Some s''" "pass_rel n (T', rs') s''" "proper_from 0 (snd s'')"
    using Suc.IH [of "(T', rs')"] s' pass_rel_ok [OF s'(5)] Suc.prems by auto
  with s' show ?case by (auto intro: pass_rel_trans)
qed (simp add: pass_rel_refl)

definition all_proper :: "pauli_rotation list \<Rightarrow> bool" where
  "all_proper rs = list_all (\<lambda>R. is_proper_phase (rot_phase R) \<and> \<not> rot_is_trivial R) rs"

lemma properize_rel:
  assumes T: "st_ok n T" and rs: "rots_ok n rs"
  shows "\<exists>T' rs'. properize T rs = Some (T', rs') \<and> pass_rel n (T, rs) (T', rs') \<and> all_proper rs'"
proof -
  let ?rs = "merge_rotations rs"
  obtain T1 rs1 where l: "properize_loop (rev [0..<length ?rs]) (T, ?rs) = Some (T1, rs1)" "pass_rel n (T, ?rs) (T1, rs1)"
    "proper_from 0 rs1"
    using properize_loop_rel [of n "(T, ?rs)" "length ?rs"] T merge_rotations_op(1) [OF rs] reducible_merge
    by (auto simp: proper_from_def)
  note merge_rel [OF assms]
  also note l(2)
  also have "pass_rel n (T1, rs1) (T1, remove_identity_rotations rs1)"
    by (rule pass_rel_rotations) (use pass_rel_ok [OF l(2)] in \<open>auto simp: remove_identity_op\<close>)
  finally have "pass_rel n (T, rs) (T1, remove_identity_rotations rs1)" .
  moreover have "all_proper (remove_identity_rotations rs1)"
    using l(3) by (auto simp: all_proper_def remove_identity_rotations_def proper_from_def list_all_iff in_set_conv_nth)
  ultimately show ?thesis using l(1) by (simp add: properize_def Let_def)
qed

end
