(* ===== verification/SequencePasses.thy ===== *)
theory SequencePasses
  imports TableauPasses
begin

text \<open>
  Correctness of the passes on whole tableaux: collapsing, removal of identities, merging and
  properizing. Each returns a tableau whose sequence is equivalent to the given one.
\<close>

section \<open>Removal of identities\<close>

lemma sub_ok_trivial_equiv:
  assumes "sub_ok n s" "sub_is_trivial s"
  shows "equivalent n [s] []"
proof (cases s)
  case (SubST T)
  then have "T = st_init n" using assms by (simp add: sub_is_trivial_def st_is_identity_def st_wf_n [OF st_ok_wf])
  then show ?thesis using SubST equiv_identity by simp
next
  case (SubPR rs)
  then show ?thesis using assms by (simp add: sub_is_trivial_def equiv_no_rotations)
qed

lemma filter_equiv:
  assumes "subs_ok n ss" "\<And>s. s \<in> set ss \<Longrightarrow> \<not> p s \<Longrightarrow> equivalent n [s] []"
  shows "equivalent n ss (filter p ss)"
  using assms
proof (induction ss)
  case (Cons s ss)
  have IH: "equivalent n ss (filter p ss)" using Cons by simp
  show ?case
  proof (cases "p s")
    case True
    then show ?thesis using IH Cons.prems by (simp add: equiv_Cons)
  next
    case False
    then show ?thesis using equiv_append [OF Cons.prems(2) IH, of s] by simp
  qed
qed simp

lemma map_equiv:
  assumes "subs_ok n ss" "\<And>s. s \<in> set ss \<Longrightarrow> equivalent n [s] [f s]"
  shows "equivalent n ss (map f ss)"
  using assms
proof (induction ss)
  case (Cons s ss)
  then show ?case using equiv_append [of n "[s]" "[f s]" ss "map f ss"] by simp
qed simp

lemma equiv_identity_front: "st_ok n T \<Longrightarrow> equivalent n [SubST T] [SubST T, SubST (st_init n)]"
  using equiv_append [of n "[SubST T]" "[SubST T]" "[]" "[SubST (st_init n)]"] equiv_sym [OF equiv_identity] by simp

lemma merge_adjacent_equiv:
  assumes "subs_ok n ss" "\<And>i. \<not> stop i"
  shows "equivalent n ss (merge_adjacent_cliffords stop ss)"
  using assms
proof (induction stop ss rule: merge_adjacent_cliffords.induct)
  case (1 stop T U rest)
  have T: "st_ok n T" and U: "st_ok n U" and rest: "subs_ok n rest" using "1.prems"(1) by auto
  let ?T = "trait_apply_string st_trait (extract_clifford_operators stop U) T"
  have e: "equivalent n [SubST T, SubST U] [SubST ?T]" by (rule equiv_cliffords [OF T U "1.prems"(2)])
  then have T': "st_ok n ?T" by (simp add: equivalent_def)
  have "equivalent n [SubST T, SubST U] [SubST ?T, SubST (st_init n)]"
    by (rule equiv_trans [OF e equiv_identity_front [OF T']])
  from equiv_append [OF this, of rest rest] rest
  have "equivalent n (SubST T # SubST U # rest) (SubST ?T # SubST (st_init n) # rest)" by simp
  also have "equivalent n \<dots> (SubST ?T # merge_adjacent_cliffords stop (SubST (st_init n) # rest))"
  proof (rule equiv_Cons)
    show "equivalent n (SubST (st_init n) # rest) (merge_adjacent_cliffords stop (SubST (st_init n) # rest))"
      using "1.IH" [OF _ "1.prems"(2)] rest by (simp only: st_wf_n [OF st_ok_wf [OF T]] subs_simps sub_simps st_init_ok)
  qed (use T' in simp)
  finally show ?case by (simp add: st_wf_n [OF st_ok_wf [OF T]])
qed (auto intro: equiv_Cons)

lemma remove_identities_equiv:
  assumes t: "tab_ok n t" and stop: "\<And>i. \<not> stop i"
  shows "equivalent n (subtableaux t) (subtableaux (remove_identities stop t))"
proof -
  let ?f = "\<lambda>s. case s of SubPR rs \<Rightarrow> SubPR (remove_identity_rotations rs) | SubST T \<Rightarrow> s"
  have t': "subs_ok n (subtableaux t)" using t by (simp add: tab_ok_def)
  have f: "equivalent n [s] [?f s]" if "s \<in> set (subtableaux t)" for s
  proof -
    have "sub_ok n s" using t' that by (auto simp: subs_ok_def list_all_iff)
    then show ?thesis by (cases s) (auto simp: remove_identity_op intro!: equivI)
  qed
  have tr: "equivalent n [s] []" if "subs_ok n ss" "s \<in> set ss" "sub_is_trivial s \<or> sub_is_identity_clifford s" for s ss
  proof -
    have "sub_is_trivial s" using that(3) by (auto simp: sub_is_trivial_def sub_is_identity_clifford_def split: sub_tableau.splits)
    with that show ?thesis by (auto simp: subs_ok_def list_all_iff intro: sub_ok_trivial_equiv)
  qed
  have "equivalent n (subtableaux t) (map ?f (subtableaux t))" by (rule map_equiv [OF t' f])
  also have "equivalent n \<dots> (filter (\<lambda>s. \<not> sub_is_trivial s) (map ?f (subtableaux t)))"
    by (rule filter_equiv) (use calculation tr in \<open>auto simp: equivalent_def\<close>)
  also have "equivalent n \<dots> (merge_adjacent_cliffords stop (filter (\<lambda>s. \<not> sub_is_trivial s) (map ?f (subtableaux t))))"
    by (rule merge_adjacent_equiv) (use calculation stop in \<open>auto simp: equivalent_def\<close>)
  also have "equivalent n \<dots> (subtableaux (remove_identities stop t))"
  proof -
    have "subtableaux (remove_identities stop t) = filter (\<lambda>s. \<not> sub_is_identity_clifford s)
        (merge_adjacent_cliffords stop (filter (\<lambda>s. \<not> sub_is_trivial s) (map ?f (subtableaux t))))"
      by (simp add: remove_identities_def)
    then show ?thesis
      by (simp only:) (rule filter_equiv [OF equivD(2) [OF calculation]], rule tr [OF equivD(2) [OF calculation]], auto)
  qed
  finally show ?thesis .
qed

lemma equiv_tab_ok: "equivalent n (subtableaux t) (subtableaux t') \<Longrightarrow> tab_n_qubits t' = n \<Longrightarrow> tab_ok n t'"
  by (simp add: tab_ok_def equivalent_def)

section \<open>Collapsing\<close>

text \<open>Reading the loop: \<open>push_string\<close> is the operator string that is left at its end.\<close>

fun push_string :: "(nat \<Rightarrow> bool) \<Rightarrow> clifford_string \<Rightarrow> sub_tableau list \<Rightarrow> clifford_string" where
  "push_string stop cs [] = cs"
| "push_string stop cs (SubST T # rest) = push_string stop (extract_clifford_operators stop (trait_apply_string st_trait cs T)) rest"
| "push_string stop cs (SubPR rs # rest) = push_string stop cs rest"

lemma push_append:
  "push_cliffords stop cs (xs @ ys) = push_cliffords stop cs xs @ push_cliffords stop (push_string stop cs xs) ys"
proof (induction xs arbitrary: cs)
  case (Cons s xs)
  then show ?case by (cases s) (simp_all add: Let_def)
qed simp

definition only_rotations :: "sub_tableau list \<Rightarrow> sub_tableau list" where
  "only_rotations ss = filter (\<lambda>s. \<not> is_clifford s) ss"

lemma only_rotations_simps [simp]: "only_rotations [] = []" "only_rotations (SubST T # ss) = only_rotations ss"
  "only_rotations (SubPR rs # ss) = SubPR rs # only_rotations ss"
  "only_rotations (ss @ ss') = only_rotations ss @ only_rotations ss'"
  by (simp_all add: only_rotations_def is_clifford_def)

lemma push_ok:
  assumes "subs_ok n xs" "string_ok n cs" "\<And>i. \<not> stop i"
  shows "subs_ok n (push_cliffords stop cs xs) \<and> string_ok n (push_string stop cs xs)"
  using assms(1,2)
proof (induction xs arbitrary: cs)
  case (Cons s xs)
  show ?case
  proof (cases s)
    case (SubST T)
    have T: "st_ok n (trait_apply_string st_trait cs T)" using Cons.prems SubST by (auto intro: st_apply_string_ok)
    then show ?thesis using Cons.IH [OF _ extract_props(1) [OF T assms(3)]] Cons.prems SubST by (simp add: Let_def)
  next
    case (SubPR rs)
    then show ?thesis using Cons.IH [of cs] Cons.prems by (simp add: rots_ok_map)
  qed
qed simp

text \<open>After a suffix, all its Clifford operators act in front of its rotations.\<close>

lemma push_op:
  assumes "subs_ok n xs" "string_ok n cs" "\<And>i. \<not> stop i"
  shows "op_eq n (\<lambda>v. trait_apply_string q_trait cs (subs_op (rev xs) v))
    (\<lambda>v. subs_op (only_rotations (rev (push_cliffords stop cs xs))) (trait_apply_string q_trait (push_string stop cs xs) v))"
  using assms(1,2)
proof (induction xs arbitrary: cs)
  case (Cons s xs)
  have xs: "subs_ok n xs" "subs_ok n (rev xs)" using Cons.prems(1) by (auto simp: subs_ok_def)
  have cs: "string_ok n cs" using Cons.prems(2) .
  let ?c = "trait_apply_string q_trait cs"
  show ?case
  proof (cases s)
    case (SubST T)
    let ?T = "trait_apply_string st_trait cs T"
    let ?cs = "extract_clifford_operators stop ?T"
    have T: "st_ok n T" "st_ok n ?T" using Cons.prems SubST by (auto intro: st_apply_string_ok)
    have "op_eq n (\<lambda>v. ?c (st_op T (subs_op (rev xs) v))) (\<lambda>v. st_op ?T (subs_op (rev xs) v))"
      by (rule op_eq_comp [OF op_eq_sym [OF st_op_append [OF T(1) cs]] op_eq_refl])
        (use T xs cs space_op_comp [OF space_op_string [OF cs] space_op_st [OF T(1)]] in auto)
    also have "op_eq n \<dots> (\<lambda>v. trait_apply_string q_trait ?cs (subs_op (rev xs) v))"
      by (rule op_eq_comp [OF op_eq_extract [OF T(2) assms(3)] op_eq_refl]) (use T xs in auto)
    also have "op_eq n \<dots> (\<lambda>v. subs_op (only_rotations (rev (push_cliffords stop ?cs xs)))
        (trait_apply_string q_trait (push_string stop ?cs xs) v))"
      by (rule Cons.IH [OF xs(1) extract_props(1) [OF T(2) assms(3)]])
    finally show ?thesis by (simp add: SubST Let_def)
  next
    case (SubPR rs)
    let ?rs = "map (trait_apply_string rot_trait cs) rs"
    have rs: "rots_ok n rs" "rots_ok n ?rs" using Cons.prems SubPR rots_ok_map [of n rs cs] by auto
    have sp: "space_op n (\<lambda>v. ?c (subs_op (rev xs) v))" by (intro space_op_comp [of n ?c "subs_op (rev xs)"]) (use cs xs in auto)
    have "op_eq n (\<lambda>v. ?c (rots_op rs (subs_op (rev xs) v))) (\<lambda>v. rots_op ?rs (?c (subs_op (rev xs) v)))"
      by (rule op_eq_comp [OF string_through_rotations [OF cs rs(1)] op_eq_refl])
        (use rs xs cs space_op_comp [OF space_op_string [OF cs] space_op_rots [OF rs(1)]] in auto)
    also have "op_eq n \<dots> (\<lambda>v. rots_op ?rs (subs_op (only_rotations (rev (push_cliffords stop cs xs)))
        (trait_apply_string q_trait (push_string stop cs xs) v)))"
    proof (rule op_eq_comp [OF op_eq_refl Cons.IH [OF xs(1) cs]])
      have p: "subs_ok n (only_rotations (rev (push_cliffords stop cs xs)))" "string_ok n (push_string stop cs xs)"
        using push_ok [OF xs(1) cs assms(3)] by (auto simp: subs_ok_def only_rotations_def list_all_iff)
      then show "space_op n (\<lambda>v. subs_op (only_rotations (rev (push_cliffords stop cs xs)))
        (trait_apply_string q_trait (push_string stop cs xs) v))"
        by (intro space_op_comp [of n "subs_op (only_rotations (rev (push_cliffords stop cs xs)))"
              "trait_apply_string q_trait (push_string stop cs xs)"]) auto
    qed (use rs in auto)
    finally show ?thesis by (simp add: SubPR)
  qed
qed simp

lemma rotations_of_simps [simp]: "rotations_of (SubST T) = []" "rotations_of (SubPR rs) = rs"
  by (simp_all add: rotations_of_def)

lemma only_rotations_merge: "subs_ok n ss \<Longrightarrow> equivalent n (only_rotations ss) [SubPR (concat (map rotations_of ss))]"
proof (induction ss)
  case Nil
  then show ?case using equiv_sym [OF equiv_no_rotations] by simp
next
  case (Cons s ss)
  then have IH: "equivalent n (only_rotations ss) [SubPR (concat (map rotations_of ss))]" by simp
  show ?case
  proof (cases s)
    case (SubST T)
    then show ?thesis using IH by simp
  next
    case (SubPR rs)
    have "equivalent n (SubPR rs # only_rotations ss) [SubPR rs, SubPR (concat (map rotations_of ss))]"
      using IH Cons.prems SubPR by (intro equiv_Cons) auto
    also have "equivalent n \<dots> [SubPR (rs @ concat (map rotations_of ss))]"
      using IH Cons.prems SubPR by (intro equiv_rotations_append) (auto simp: equivalent_def)
    finally show ?thesis by (simp add: SubPR)
  qed
qed

lemma front_clifford_equiv: "subs_ok n ss \<Longrightarrow> equivalent n ss (front_clifford n ss)"
  using equiv_append [OF equiv_sym [OF equiv_identity [of n]], of ss ss]
  by (auto simp: front_clifford_def split: list.split sub_tableau.split)

lemma front_clifford_shape: "ss \<noteq> [] \<Longrightarrow> \<exists>T rest. front_clifford n ss = SubST T # rest"
  by (auto simp: front_clifford_def neq_Nil_conv split: sub_tableau.split)

text \<open>The shape of the result and its equivalence.\<close>

definition collapsed :: "sub_tableau list \<Rightarrow> bool" where
  "collapsed ss \<longleftrightarrow> ss = [] \<or> (\<exists>T. ss = [SubST T]) \<or> (\<exists>T rs. ss = [SubST T, SubPR rs])"

lemma collapse_equiv:
  assumes t: "tab_ok n t" and stop: "\<And>i. \<not> stop i"
  shows "equivalent n (subtableaux t) (subtableaux (collapse stop t))" "collapsed (subtableaux (collapse stop t))"
    "tab_n_qubits (collapse stop t) = n" "subtableaux t \<noteq> [] \<Longrightarrow> subtableaux (collapse stop t) \<noteq> []"
proof -
  have ok: "subs_ok n (subtableaux t)" and n: "tab_n_qubits t = n" using t by (auto simp: tab_ok_def)
  have "equivalent n (subtableaux t) (subtableaux (collapse stop t)) \<and> collapsed (subtableaux (collapse stop t)) \<and>
    tab_n_qubits (collapse stop t) = n \<and> (subtableaux t \<noteq> [] \<longrightarrow> subtableaux (collapse stop t) \<noteq> [])"
  proof (cases "subtableaux t = []")
    case True
    then show ?thesis by (simp add: collapse_def collapsed_def n)
  next
    case False
    then obtain T rest where ss: "front_clifford n (subtableaux t) = SubST T # rest" using front_clifford_shape by blast
    have e0: "equivalent n (subtableaux t) (SubST T # rest)" using front_clifford_equiv [OF ok] ss by simp
    then have okT: "st_ok n T" and okr: "subs_ok n rest" by (auto simp: equivalent_def)
    show ?thesis
    proof (cases "rest = []")
      case True
      then show ?thesis using False e0 ss by (simp add: collapse_def n collapsed_def)
    next
      case ne: False
      let ?p = "push_cliffords stop [] (rev rest)" and ?cs = "push_string stop [] (rev rest)"
      let ?T = "trait_apply_string st_trait ?cs T"
      have okrr: "subs_ok n (rev rest)" using okr by (simp add: subs_ok_def)
      note p = push_ok [OF okrr, of "[]" stop, OF _ stop, simplified]
      have okp: "subs_ok n (rev ?p)" "string_ok n ?cs" "st_ok n ?T" using p okT by (auto simp: subs_ok_def intro: st_apply_string_ok)
      have oko: "subs_ok n (only_rotations (rev ?p))" using okp(1) by (auto simp: subs_ok_def only_rotations_def list_all_iff)
      have e1: "equivalent n (SubST T # rest) (SubST ?T # only_rotations (rev ?p))"
      proof (rule equivI)
        have "op_eq n (\<lambda>v. subs_op rest (st_op T v)) (\<lambda>v. subs_op (only_rotations (rev ?p)) (trait_apply_string q_trait ?cs (st_op T v)))"
          using op_eq_comp [OF push_op [OF okrr, of "[]" stop, OF _ stop] op_eq_refl [of n "st_op T"]] okr okT by auto
        also have "op_eq n \<dots> (\<lambda>v. subs_op (only_rotations (rev ?p)) (st_op ?T v))"
          by (rule op_eq_comp [OF op_eq_refl op_eq_sym [OF st_op_append [OF okT okp(2)]]]) (use oko okp in auto)
        finally show "op_eq n (\<lambda>v. subs_op (SubST T # rest) v) (\<lambda>v. subs_op (SubST ?T # only_rotations (rev ?p)) v)" by simp
      qed (use okT okr okp oko in simp_all)
      have e2: "equivalent n (SubST ?T # only_rotations (rev ?p)) [SubST ?T, SubPR (concat (map rotations_of (only_rotations (rev ?p))))]"
      proof (rule equiv_Cons)
        have "only_rotations (only_rotations (rev ?p)) = only_rotations (rev ?p)" by (simp add: only_rotations_def)
        then show "equivalent n (only_rotations (rev ?p)) [SubPR (concat (map rotations_of (only_rotations (rev ?p))))]"
          using only_rotations_merge [OF oko] by simp
      qed (use okp in simp)
      have pr: "rev (push_cliffords stop [] (rev (SubST T # rest))) = SubST ?T # rev ?p"
        by (simp add: push_append Let_def)
      show ?thesis
      proof (cases "only_rotations (rev ?p)")
        case Nil
        then have "subtableaux (collapse stop t) = [SubST ?T] \<and> tab_n_qubits (collapse stop t) = n"
          using False ne by (simp add: collapse_def n ss pr [simplified] only_rotations_def [symmetric] Let_def)
        then show ?thesis using equiv_trans [OF e0 e1] Nil by (simp add: collapsed_def)
      next
        case (Cons s ss')
        then have "subtableaux (collapse stop t) = [SubST ?T, SubPR (concat (map rotations_of (only_rotations (rev ?p))))] \<and>
            tab_n_qubits (collapse stop t) = n"
          using False ne by (simp add: collapse_def n ss pr [simplified] only_rotations_def [symmetric] Let_def)
        then show ?thesis using equiv_trans [OF e0 equiv_trans [OF e1 e2]] by (simp add: collapsed_def)
      qed
    qed
  qed
  then show "equivalent n (subtableaux t) (subtableaux (collapse stop t))" "collapsed (subtableaux (collapse stop t))"
    "tab_n_qubits (collapse stop t) = n" "subtableaux t \<noteq> [] \<Longrightarrow> subtableaux (collapse stop t) \<noteq> []" by auto
qed

section \<open>Merging on a tableau\<close>

lemma merge_rotations_tableau_equiv:
  assumes t: "tab_ok n t" and stop: "\<And>i. \<not> stop i"
  shows "\<exists>t'. merge_rotations_tableau stop t = Some t' \<and> tab_n_qubits t' = n \<and> collapsed (subtableaux t') \<and>
    equivalent n (subtableaux t) (subtableaux t') \<and> n_pauli_rotations (subtableaux t') \<le> n_pauli_rotations (subtableaux (collapse stop t))"
proof -
  note c = collapse_equiv [OF t, of stop, OF stop]
  let ?t1 = "collapse stop t"
  show ?thesis
  proof (cases "length (subtableaux ?t1) \<le> 1")
    case True
    then show ?thesis using c by (simp add: merge_rotations_tableau_def Let_def)
  next
    case False
    then obtain T rs where ss: "subtableaux ?t1 = [SubST T, SubPR rs]" using c(2) by (auto simp: collapsed_def)
    then have ok: "st_ok n T" "rots_ok n rs" using c(1) by (auto simp: equivalent_def)
    obtain T' rs' where m: "merge_absorb_loop T rs = Some (T', rs')" "pass_rel n (T, rs) (T', rs')" "length rs' \<le> length rs"
      using merge_absorb_rel [OF ok] by blast
    have "equivalent n (subtableaux ?t1) [SubST T', SubPR rs']" using m(2) by (simp add: ss pass_rel_def)
    with c(1) have "equivalent n (subtableaux t) [SubST T', SubPR rs']" by (rule equiv_trans)
    then show ?thesis
      using c(3) m by (simp add: merge_rotations_tableau_def Let_def ss collapsed_def n_pauli_rotations_def)
  qed
qed

section \<open>Walking over the lists of rotations\<close>

text \<open>\<open>ready good pre m ss\<close>: every list of rotations satisfies \<open>pre\<close>, and a list that follows others
  without a stabilizer tableau between follows \<open>good\<close> ones only; \<open>m\<close> says that this holds so far.\<close>

fun ready :: "(pauli_rotation list \<Rightarrow> bool) \<Rightarrow> (pauli_rotation list \<Rightarrow> bool) \<Rightarrow> bool \<Rightarrow> sub_tableau list \<Rightarrow> bool" where
  "ready good pre m [] = True"
| "ready good pre m (SubST T # ss) = ready good pre True ss"
| "ready good pre m (SubPR rs # ss) = (m \<and> pre rs \<and> ready good pre (m \<and> good rs) ss)"

definition step_ok :: "nat \<Rightarrow> pp_strategy \<Rightarrow> (pauli_rotation list \<Rightarrow> bool) \<Rightarrow> (pauli_rotation list \<Rightarrow> bool) \<Rightarrow> bool" where
  "step_ok n F good pre \<longleftrightarrow> (\<forall>T rs mid. st_ok n T \<longrightarrow> rots_ok n rs \<longrightarrow> pre rs \<longrightarrow>
     list_all (rots_ok n) mid \<longrightarrow> list_all good mid \<longrightarrow>
     (\<exists>T' rs'. F T rs = Some (T', rs') \<and> (good rs \<longrightarrow> good rs') \<and>
        equivalent n (SubST T # map SubPR mid @ [SubPR rs]) (SubST T' # map SubPR mid @ [SubPR rs'])))"

lemma step_okD:
  assumes "step_ok n F good pre" "st_ok n T" "rots_ok n rs" "pre rs" "list_all (rots_ok n) mid" "list_all good mid"
  obtains T' rs' where "F T rs = Some (T', rs')" "good rs \<longrightarrow> good rs'"
    "equivalent n (SubST T # map SubPR mid @ [SubPR rs]) (SubST T' # map SubPR mid @ [SubPR rs'])"
  using assms unfolding step_ok_def by blast

lemma walk_equiv:
  assumes F: "step_ok n F good pre"
  shows "subs_ok n (p @ SubST T # map SubPR mid @ q) \<Longrightarrow> ready good pre (list_all good mid) q \<Longrightarrow>
    \<exists>ss'. walk_subs F [length p + 1 + length mid..<length p + 1 + length mid + length q] (length p)
        (p @ SubST T # map SubPR mid @ q) = Some ss' \<and> equivalent n (p @ SubST T # map SubPR mid @ q) ss'"
proof (induction q arbitrary: p T mid)
  case (Cons s q)
  let ?i = "length p + 1 + length mid" and ?ss = "p @ SubST T # map SubPR mid @ s # q"
  have rng: "[?i..<?i + length (s # q)] = ?i # [?i + 1..<?i + 1 + length q]"
    by (simp add: upt_rec)
  have at: "?ss ! ?i = s" "?ss ! length p = SubST T" by (simp_all add: nth_append)
  show ?case
  proof (cases s)
    case (SubST U)
    have "\<exists>ss'. walk_subs F [length (p @ SubST T # map SubPR mid) + 1 + length ([] :: pauli_rotation list list)..<
        length (p @ SubST T # map SubPR mid) + 1 + length ([] :: pauli_rotation list list) + length q]
        (length (p @ SubST T # map SubPR mid)) ((p @ SubST T # map SubPR mid) @ SubST U # map SubPR [] @ q) = Some ss' \<and>
        equivalent n ((p @ SubST T # map SubPR mid) @ SubST U # map SubPR [] @ q) ss'"
      by (rule Cons.IH) (use Cons.prems SubST in auto)
    then show ?thesis unfolding rng using at SubST by (simp add: ac_simps)
  next
    case (SubPR rs)
    have ok: "subs_ok n p" "st_ok n T" "rots_ok n rs" "subs_ok n q" "subs_ok n (map SubPR mid)"
      using Cons.prems(1) SubPR by auto
    then have okm: "list_all (rots_ok n) mid" by (simp add: subs_ok_def list_all_iff)
    have r: "list_all good mid" "pre rs" "ready good pre (list_all good mid \<and> good rs) q"
      using Cons.prems(2) SubPR by auto
    obtain T' rs' where f: "F T rs = Some (T', rs')" "good rs \<longrightarrow> good rs'"
      "equivalent n (SubST T # map SubPR mid @ [SubPR rs]) (SubST T' # map SubPR mid @ [SubPR rs'])"
      by (rule step_okD [OF F ok(2,3) r(2) okm r(1)])
    have upd: "(?ss[length p := SubST T'])[?i := SubPR rs'] = p @ SubST T' # map SubPR (mid @ [rs']) @ q"
      by (simp add: list_update_append SubPR)
    have "equivalent n (p @ (SubST T # map SubPR mid @ [SubPR rs]) @ q) (p @ (SubST T' # map SubPR mid @ [SubPR rs']) @ q)"
      using ok f(3) by (intro equiv_append) auto
    then have e: "equivalent n ?ss (p @ SubST T' # map SubPR (mid @ [rs']) @ q)" using SubPR by simp
    have rd: "ready good pre (list_all good (mid @ [rs'])) q"
    proof -
      have mono: "ready good pre m q \<Longrightarrow> (m \<longrightarrow> m') \<Longrightarrow> ready good pre m' q" for m m'
        by (induction good pre m q arbitrary: m' rule: ready.induct) auto
      show ?thesis by (rule mono [OF r(3)]) (use f(2) in simp)
    qed
    obtain ss' where w: "walk_subs F [length p + 1 + length (mid @ [rs'])..<length p + 1 + length (mid @ [rs']) + length q] (length p)
        (p @ SubST T' # map SubPR (mid @ [rs']) @ q) = Some ss'" "equivalent n (p @ SubST T' # map SubPR (mid @ [rs']) @ q) ss'"
      using Cons.IH [of p T' "mid @ [rs']"] e rd by (auto simp: equivalent_def)
    then show ?thesis
      unfolding rng using at SubPR f(1) upd equiv_trans [OF e w(2)] by (auto simp: ac_simps)
  qed
qed simp

lemma walk_front:
  assumes F: "step_ok n F good pre" and ok: "subs_ok n (SubST T # q)" and r: "ready good pre True q"
  shows "\<exists>ss'. walk_subs F [1..<length (SubST T # q)] 0 (SubST T # q) = Some ss' \<and> equivalent n (SubST T # q) ss'"
  using walk_equiv [OF F, of "[]" T "[]" q] ok r by simp

section \<open>Properizing a tableau\<close>

lemma join_back_equiv:
  assumes acc: "acc \<noteq> []" "subs_ok n acc" and s: "sub_ok n s" and stop: "\<And>i. \<not> stop i"
  shows "equivalent n (acc @ [s]) (join_back stop s acc)" "join_back stop s acc \<noteq> []"
proof -
  obtain a l where al: "acc = a @ [l]" using acc(1) by (metis append_butlast_last_id)
  have a: "subs_ok n a" "sub_ok n l" using acc(2) al by auto
  have "equivalent n (acc @ [s]) (join_back stop s acc) \<and> join_back stop s acc \<noteq> []"
  proof (cases l; cases s)
    fix T U assume lU: "l = SubST T" "s = SubST U"
    have "equivalent n (a @ [SubST T, SubST U]) (a @ [SubST (trait_apply_string st_trait (extract_clifford_operators stop U) T)])"
      by (rule equiv_append) (use a lU s stop in \<open>auto intro!: equiv_cliffords\<close>)
    then show ?thesis by (simp add: join_back_def al lU)
  next
    fix rs rs' assume lU: "l = SubPR rs" "s = SubPR rs'"
    have "equivalent n (a @ [SubPR rs, SubPR rs']) (a @ [SubPR (rs @ rs')])"
      by (rule equiv_append) (use a lU s in \<open>auto intro!: equiv_rotations_append\<close>)
    then show ?thesis by (simp add: join_back_def al lU)
  qed (use a s in \<open>auto simp: join_back_def al\<close>)
  then show "equivalent n (acc @ [s]) (join_back stop s acc)" "join_back stop s acc \<noteq> []" by auto
qed

lemma join_all_equiv:
  assumes "acc \<noteq> []" "subs_ok n acc" "subs_ok n ss" "\<And>i. \<not> stop i"
  shows "equivalent n (acc @ ss) (fold (join_back stop) ss acc)"
  using assms(1-3)
proof (induction ss arbitrary: acc)
  case (Cons s ss)
  have s: "sub_ok n s" "subs_ok n ss" using Cons.prems by auto
  note j = join_back_equiv [OF Cons.prems(1,2) s(1), of stop, OF assms(4)]
  have "equivalent n ((acc @ [s]) @ ss) (join_back stop s acc @ ss)" by (rule equiv_append [OF j(1)]) (use s in simp)
  also have "equivalent n \<dots> (fold (join_back stop) ss (join_back stop s acc))"
    by (rule Cons.IH) (use j s in \<open>auto simp: equivalent_def\<close>)
  finally show ?case by simp
qed simp

text \<open>Joining leaves no two lists of rotations side by side.\<close>

definition never :: "pauli_rotation list \<Rightarrow> bool" where
  "never rs = False"

definition always :: "pauli_rotation list \<Rightarrow> bool" where
  "always rs = True"

lemma ready_snoc:
  "ready never always m (ss @ [SubST T]) = ready never always m ss"
  "ss \<noteq> [] \<Longrightarrow> is_clifford (last ss) \<Longrightarrow> ready never always m ss \<Longrightarrow> ready never always m (ss @ [SubPR rs])"
proof -
  show "ready never always m (ss @ [SubST T]) = ready never always m ss"
    by (induction never always m ss rule: ready.induct) auto
  show "ss \<noteq> [] \<Longrightarrow> is_clifford (last ss) \<Longrightarrow> ready never always m ss \<Longrightarrow> ready never always m (ss @ [SubPR rs])"
  proof (induction ss arbitrary: m)
    case (Cons s ss)
    then show ?case by (cases s; cases "ss = []") (auto simp: always_def is_clifford_def)
  qed simp
qed

lemma ready_last: "ss = a @ [SubPR rs] \<Longrightarrow> ready never always m ss = ready never always m (a @ [SubPR rs'])"
  by (induction never always m a arbitrary: ss rule: ready.induct) (auto simp: always_def)

lemma ready_butlast: "ss = a @ [SubST T] \<Longrightarrow> ready never always m ss = ready never always m (a @ [SubST T'])"
  by (simp add: ready_snoc(1))

lemma join_back_ready:
  assumes "acc = SubST A # q" "ready never always True q"
  shows "\<exists>A' q'. join_back stop s acc = SubST A' # q' \<and> ready never always True q'"
proof (cases q rule: rev_cases)
  case Nil
  then show ?thesis using assms by (cases s) (auto simp: join_back_def always_def)
next
  case (snoc a l)
  then have q: "q = a @ [l]" .
  show ?thesis
  proof (cases l; cases s)
    fix T U assume "l = SubST T" "s = SubST U"
    then show ?thesis using assms by (simp add: q join_back_def ready_snoc(1))
  next
    fix T rs assume l: "l = SubST T" "s = SubPR rs"
    then show ?thesis
      using assms ready_snoc(2) [of q True rs] by (simp add: q join_back_def is_clifford_def)
  next
    fix rs U assume "l = SubPR rs" "s = SubST U"
    then show ?thesis using assms ready_snoc(1) [of True q U] by (simp add: q join_back_def)
  next
    fix rs rs' assume "l = SubPR rs" "s = SubPR rs'"
    then show ?thesis using assms ready_last [OF refl, of True a rs "rs @ rs'"] by (simp add: q join_back_def)
  qed
qed

lemma join_all_ready:
  "acc = SubST A # q \<Longrightarrow> ready never always True q \<Longrightarrow>
    \<exists>A' q'. fold (join_back stop) ss acc = SubST A' # q' \<and> ready never always True q'"
proof (induction ss arbitrary: acc A q)
  case (Cons s ss)
  then show ?case using join_back_ready [of acc A q stop s] by force
qed simp

lemma properize_step_ok: "step_ok n properize never always"
  unfolding step_ok_def
proof (intro allI impI)
  fix T rs and mid :: "pauli_rotation list list"
  assume ok: "st_ok n T" "rots_ok n rs" and "list_all never mid"
  then have "mid = []" by (cases mid) (auto simp: never_def)
  with properize_rel [OF ok] show "\<exists>T' rs'. properize T rs = Some (T', rs') \<and> (never rs \<longrightarrow> never rs') \<and>
      equivalent n (SubST T # map SubPR mid @ [SubPR rs]) (SubST T' # map SubPR mid @ [SubPR rs'])"
    by (auto simp: never_def pass_rel_def)
qed

lemma properize_tableau_equiv:
  assumes t: "tab_ok n t" and stop: "\<And>i. \<not> stop i"
  shows "\<exists>t'. properize_tableau stop t = Some t' \<and> equivalent n (subtableaux t) (subtableaux t') \<and> tab_n_qubits t' = n"
proof (cases "subtableaux t = []")
  case True
  then show ?thesis using t by (auto simp: properize_tableau_def tab_ok_def)
next
  case False
  have n: "tab_n_qubits t = n" and ok: "subs_ok n (subtableaux t)" using t by (auto simp: tab_ok_def)
  obtain T rest where ss: "front_clifford n (subtableaux t) = SubST T # rest" using front_clifford_shape [OF False] by blast
  have e0: "equivalent n (subtableaux t) (SubST T # rest)" using front_clifford_equiv [OF ok] ss by simp
  then have ok': "st_ok n T" "subs_ok n rest" by (auto simp: equivalent_def)
  let ?acc = "[SubST (st_init n), SubST T]"
  let ?new = "fold (join_back stop) rest ?acc"
  have e1: "equivalent n (SubST T # rest) (?acc @ rest)"
    using equiv_append [OF equiv_sym [OF equiv_identity [of n]], of "SubST T # rest" "SubST T # rest"] ok' by simp
  have e2: "equivalent n (?acc @ rest) ?new"
    by (rule join_all_equiv) (use ok' stop in \<open>auto simp: st_init_ok\<close>)
  obtain A q where new: "?new = SubST A # q" "ready never always True q"
    using join_all_ready [of ?acc "st_init n" "[SubST T]" stop rest] by auto
  have okn: "subs_ok n (SubST A # q)" using e2 new by (auto simp: equivalent_def)
  obtain ss' where w: "properize_subs [1..<length ?new] 0 ?new = Some ss'" "equivalent n ?new ss'"
    unfolding properize_subs_def new(1) using walk_front [OF properize_step_ok okn new(2)] by auto
  let ?t1 = "(tableau_new n)\<lparr>subtableaux := ss'\<rparr>"
  have t1: "tab_ok n ?t1" using w(2) by (simp add: tab_ok_def tableau_new_def equivalent_def)
  have "equivalent n ss' (subtableaux (remove_identities stop ?t1))"
    using remove_identities_equiv [OF t1, of stop, OF stop] by simp
  then have "equivalent n (subtableaux t) (subtableaux (remove_identities stop ?t1))"
    using e0 e1 e2 w(2) by (blast intro: equiv_trans)
  moreover have "tab_n_qubits (remove_identities stop ?t1) = n" by (simp add: remove_identities_def tableau_new_def Let_def)
  moreover have "properize_tableau stop t = Some (remove_identities stop ?t1)"
    using False w(1) by (simp add: properize_tableau_def n ss tableau_new_def Let_def)
  ultimately show ?thesis by blast
qed

end
