(* ===== verification/PhasePolynomials.thy ===== *)
theory PhasePolynomials
  imports SequencePasses GaussianElimination
begin

text \<open>
  Diagonal operator strings and lists of diagonal rotations, which commute, and the interface
  \<open>MatroidPartitionStrategy\<close> of src/src/tableau/tableau_optimization.hpp as a locale: what the
  pass over a tableau needs of a strategy is the assumption, the pass is proved inside, and the
  naive partition interprets it.
\<close>

section \<open>Diagonal operator strings\<close>

definition diag_string :: "nat \<Rightarrow> clifford_string \<Rightarrow> bool" where
  "diag_string n d \<longleftrightarrow> string_ok n d \<and> (\<forall>P. pp_ok n P \<longrightarrow> is_diagonal P \<longrightarrow> trait_apply_string pp_trait d P = P)"

definition diag_rotations :: "pauli_rotation list \<Rightarrow> bool" where
  "diag_rotations rs = list_all rot_is_diagonal rs"

lemma diag_rotations_simps [simp]: "diag_rotations []" "diag_rotations (R # rs) \<longleftrightarrow> rot_is_diagonal R \<and> diag_rotations rs"
  "diag_rotations (rs @ ss) \<longleftrightarrow> diag_rotations rs \<and> diag_rotations ss"
  by (simp_all add: diag_rotations_def)

lemma diag_string_Nil: "diag_string n []"
  by (simp add: diag_string_def)

lemma diag_string_append: "diag_string n d \<Longrightarrow> diag_string n e \<Longrightarrow> diag_string n (d @ e)"
  by (simp add: diag_string_def)

lemma diag_string_rotations:
  assumes d: "diag_string n d" and rs: "rots_ok n rs" "diag_rotations rs"
  shows "map (trait_apply_string rot_trait d) rs = rs"
proof -
  have "trait_apply_string rot_trait d R = R" if "rot_ok n R" "rot_is_diagonal R" for R
    by (rule lifts_id [OF lifts_string])
      (use d that in \<open>auto simp: diag_string_def rot_is_diagonal_def rot_okD\<close>)
  then show ?thesis using rs by (intro map_idI) (auto simp: rots_ok_def diag_rotations_def list_all_iff)
qed

text \<open>A diagonal correction moves in front of diagonal rotations unchanged.\<close>

lemma diag_correction_equiv:
  assumes d: "diag_string n d" and T: "st_ok n T" and mid: "rots_ok n mid" "diag_rotations mid"
    and rs: "rots_ok n rs" "rots_ok n rs'" and e: "op_eq n (rots_op rs) (\<lambda>v. rots_op rs' (trait_apply_string q_trait d v))"
  shows "equivalent n [SubST T, SubPR mid, SubPR rs] [SubST (trait_apply_string st_trait d T), SubPR mid, SubPR rs']"
proof (rule equivI)
  let ?d = "trait_apply_string q_trait d" and ?T = "trait_apply_string st_trait d T"
  have dk: "string_ok n d" using d by (simp add: diag_string_def)
  have T': "st_ok n ?T" by (rule st_apply_string_ok [OF T dk])
  show "subs_ok n [SubST T, SubPR mid, SubPR rs]" "subs_ok n [SubST ?T, SubPR mid, SubPR rs']"
    using T T' mid rs by simp_all
  have sp: "space_op n (\<lambda>v. rots_op mid (st_op T v))" "space_op n (rots_op rs')" "space_op n (rots_op mid)"
    using T mid rs space_op_comp [OF space_op_rots [OF mid(1)] space_op_st [OF T]] by auto
  have spd: "space_op n (\<lambda>v. ?d (rots_op mid v))"
    by (rule space_op_comp [OF space_op_string [OF dk] sp(3)])
  have "op_eq n (\<lambda>v. rots_op rs (rots_op mid (st_op T v))) (\<lambda>v. rots_op rs' (?d (rots_op mid (st_op T v))))"
    by (rule op_eq_comp [OF e op_eq_refl]) (use sp rs in auto)
  also have "op_eq n \<dots> (\<lambda>v. rots_op rs' (rots_op mid (?d (st_op T v))))"
  proof (rule op_eq_comp [OF op_eq_refl [of n "rots_op rs'"]])
    show "op_eq n (\<lambda>v. ?d (rots_op mid (st_op T v))) (\<lambda>v. rots_op mid (?d (st_op T v)))"
      using op_eq_comp [OF string_through_rotations [OF dk mid(1)] op_eq_refl spd space_op_st [OF T]]
      by (simp add: diag_string_rotations [OF d mid])
    show "space_op n (\<lambda>v. rots_op mid (?d (st_op T v)))"
      by (rule space_op_comp [OF sp(3) space_op_comp [OF space_op_string [OF dk] space_op_st [OF T]]])
  qed (use sp in auto)
  also have "op_eq n \<dots> (\<lambda>v. rots_op rs' (rots_op mid (st_op ?T v)))"
  proof (rule op_eq_comp [OF op_eq_refl [of n "rots_op rs'"]])
    show "op_eq n (\<lambda>v. rots_op mid (?d (st_op T v))) (\<lambda>v. rots_op mid (st_op ?T v))"
      by (rule op_eq_comp [OF op_eq_refl op_eq_sym [OF st_op_append [OF T dk]]]) (use sp T' in auto)
    show "space_op n (\<lambda>v. rots_op mid (st_op ?T v))" by (rule space_op_comp [OF sp(3) space_op_st [OF T']])
  qed (use sp in auto)
  finally show "op_eq n (\<lambda>v. subs_op [SubST T, SubPR mid, SubPR rs] v) (\<lambda>v. subs_op [SubST ?T, SubPR mid, SubPR rs'] v)"
    by simp
qed

lemma lists_concat_equiv: "list_all (rots_ok n) mid \<Longrightarrow> equivalent n (map SubPR mid) [SubPR (concat mid)]"
proof (induction mid)
  case Nil
  then show ?case using equiv_sym [OF equiv_no_rotations] by simp
next
  case (Cons m mid)
  have ok: "rots_ok n (concat mid)" using Cons by (auto simp: equivalent_def)
  have "equivalent n (SubPR m # map SubPR mid) [SubPR m, SubPR (concat mid)]"
    using Cons by (intro equiv_Cons) auto
  also have "equivalent n \<dots> [SubPR (m @ concat mid)]"
    using Cons ok by (intro equiv_rotations_append) auto
  finally show ?case by simp
qed

section \<open>Matroid partitions\<close>

definition nontrivial_diag :: "nat \<Rightarrow> pauli_rotation list \<Rightarrow> bool" where
  "nontrivial_diag n rs \<longleftrightarrow> rots_ok n rs \<and> diag_rotations rs \<and> reducible rs \<and> rs \<noteq> []"

locale matroid_partition_strategy =
  fixes partition :: matroid_strategy
  assumes partition_spec: "nontrivial_diag n rs \<Longrightarrow>
    \<exists>ms. partition rs a = Some ms \<and> concat ms = rs \<and> list_all (is_independent a) ms"
begin

lemma partition_subs_spec:
  assumes "subs_ok n ss" "\<And>rs. SubPR rs \<in> set ss \<Longrightarrow> nontrivial_diag n rs" "subs_ok n acc"
  shows "\<exists>ss'. partition_subs partition a ss acc = Result ss' \<and> equivalent n (acc @ ss) ss' \<and>
    (\<forall>m. SubPR m \<in> set ss' \<longrightarrow> SubPR m \<in> set acc \<or> is_independent a m)"
  using assms
proof (induction ss arbitrary: acc)
  case (Cons s ss)
  have ok: "subs_ok n ss" "subs_ok n acc" using Cons.prems by auto
  have nt: "\<And>rs. SubPR rs \<in> set ss \<Longrightarrow> nontrivial_diag n rs" using Cons.prems(2) by simp
  show ?case
  proof (cases s)
    case (SubST T)
    then obtain ss' where "partition_subs partition a ss (acc @ [SubST T]) = Result ss'"
      "equivalent n ((acc @ [SubST T]) @ ss) ss'" "\<forall>m. SubPR m \<in> set ss' \<longrightarrow> SubPR m \<in> set (acc @ [SubST T]) \<or> is_independent a m"
      using Cons.IH [OF ok(1) nt, of "acc @ [SubST T]"] Cons.prems by auto
    then show ?thesis by (auto simp: SubST)
  next
    case (SubPR rs)
    then have rs: "nontrivial_diag n rs" using Cons.prems(2) by simp
    then have rs': "rots_ok n rs" "diag_rotations rs" "rs \<noteq> []" by (auto simp: nontrivial_diag_def)
    have "rot_n_qubits R = n" if "R \<in> set rs" for R
      using rs' that by (auto simp: rots_ok_def list_all_iff rot_ok_def pp_ok_def rot_n_qubits_def)
    then have pp: "is_phase_polynomial rs = Some True"
      using rs' by (cases rs) (auto simp: is_phase_polynomial_def diag_rotations_def list_all_iff)
    obtain ms where ms: "partition rs a = Some ms" "concat ms = rs" "list_all (is_independent a) ms"
      using partition_spec [OF rs] by blast
    have okm: "list_all (rots_ok n) ms" using rs'(1) by (auto simp: ms(2) [symmetric] rots_ok_def list_all_iff)
    have e: "equivalent n [SubPR rs] (map SubPR ms)" using equiv_sym [OF lists_concat_equiv [OF okm]] ms(2) by simp
    have e2: "equivalent n (acc @ [SubPR rs] @ ss) (acc @ map SubPR ms @ ss)"
      using ok by (intro equiv_append e) auto
    obtain ss' where w: "partition_subs partition a ss (acc @ map SubPR ms) = Result ss'"
      "equivalent n ((acc @ map SubPR ms) @ ss) ss'"
      "\<forall>m. SubPR m \<in> set ss' \<longrightarrow> SubPR m \<in> set (acc @ map SubPR ms) \<or> is_independent a m"
      using Cons.IH [OF ok(1) nt, of "acc @ map SubPR ms"] e ok by (auto simp: equivalent_def)
    have "equivalent n (acc @ SubPR rs # ss) ss'" using equiv_trans [OF e2] w(2) by simp
    moreover have "partition_subs partition a (s # ss) acc = Result ss'"
      by (simp add: SubPR matroid_partition_def pp ms(1) w(1))
    ultimately show ?thesis using w(3) ms(3) by (auto simp: SubPR list_all_iff)
  qed
qed auto

lemma matroid_partition_tableau_spec:
  assumes t: "tab_ok n t" and nt: "\<And>rs. SubPR rs \<in> set (subtableaux t) \<Longrightarrow> nontrivial_diag n rs"
  shows "\<exists>t'. matroid_partition_tableau partition a t = Result t' \<and> equivalent n (subtableaux t) (subtableaux t') \<and>
    (\<forall>m. SubPR m \<in> set (subtableaux t') \<longrightarrow> is_independent a m)"
proof -
  have ok: "subs_ok n (subtableaux t)" and n: "tab_n_qubits t = n" using t by (auto simp: tab_ok_def)
  obtain ss' where w: "partition_subs partition a (subtableaux t) [SubST (st_init n)] = Result ss'"
    "equivalent n ([SubST (st_init n)] @ subtableaux t) ss'"
    "\<forall>m. SubPR m \<in> set ss' \<longrightarrow> SubPR m \<in> set [SubST (st_init n)] \<or> is_independent a m"
    using partition_subs_spec [OF ok nt, of "[SubST (st_init n)]" a] by (auto simp: st_init_ok)
  have "equivalent n (subtableaux t) ([SubST (st_init n)] @ subtableaux t)"
    using equiv_append [OF equiv_sym [OF equiv_identity [of n]], of "subtableaux t" "subtableaux t"] ok by simp
  from equiv_trans [OF this w(2)] show ?thesis
    using w by (simp add: matroid_partition_tableau_def n tableau_new_def)
qed

end

text \<open>A single rotation around a product that is not the identity is independent.\<close>

lemma ops_ok_single: "ops_ok 1 ops \<Longrightarrow> ops = []"
  by (cases ops) auto

lemma rank_single:
  assumes r: "length r = k" "\<forall>e \<in> set r. e < 2" and j: "j < k" "r ! j = 1"
  shows "matrix_rank (bm_of_rows [r]) = 1"
proof -
  let ?M = "bm_of_rows [r]"
  have M: "bm_ok 1 k ?M" using r by (simp add: bm_ok_def bm_of_rows_def)
  obtain rank N where G: "gaussian_elimination_skip k False False ?M = (rank, N)" by fastforce
  obtain ps where ps: "steps 1 k False ?M N" "echelon (bm_fun N) 1 ps k" "length ps = rank"
    using gaussian_elimination_spec [OF M _ _ G] j by auto
  have "bm_fun N 0 j = bm_fun ?M 0 j"
    using ps(1) j(1) by (auto simp: steps_def dest: ops_ok_single [unfolded One_nat_def])
  then have "bm_fun N 0 j" using j by (simp add: bm_fun_def entry_def bm_of_rows_def)
  then have "rank \<noteq> 0" using ps(2,3) j(1) by (auto simp: echelon_def)
  moreover have "rank \<le> 1" using ps(2,3) by (simp add: echelon_def)
  moreover have "num_cols ?M = k" using r by (simp add: num_cols_def bm_of_rows_def)
  ultimately show ?thesis using G by (simp add: matrix_rank_def)
qed

lemma independent_single:
  assumes "rot_ok n R" "rot_is_diagonal R" "\<not> is_identity (rot_product R)"
  shows "is_independent a [R]"
proof -
  have n: "pp_n_qubits (rot_product R) = n" using assms(1) by (simp add: rot_ok_def pp_ok_def)
  obtain j where "j < n" "is_z_set (rot_product R) j"
    using assms n by (auto simp: is_identity_def rot_is_diagonal_def is_diagonal_def list_all_iff is_i_def is_z_def)
  then have "rot_matrix_rank [R] = 1"
    unfolding rot_matrix_rank_def Let_def rot_n_qubits_def list.sel(1) n list.map
    by (intro rank_single [where j = j and k = n]) auto
  then show ?thesis by (simp add: is_independent_def Let_def)
qed

lemma naive_step_inv:
  assumes "ms \<noteq> []" "list_all (\<lambda>m. m \<noteq> []) (butlast ms)" "list_all (\<lambda>m. m \<noteq> [] \<longrightarrow> is_independent a m) ms" "is_independent a [R]"
  shows "naive_step a R ms \<noteq> []" "list_all (\<lambda>m. m \<noteq> []) (naive_step a R ms)"
    "list_all (is_independent a) (naive_step a R ms)" "concat (naive_step a R ms) = concat ms @ [R]"
proof -
  obtain b l where ms: "ms = b @ [l]" using assms(1) by (metis append_butlast_last_id)
  have "l \<noteq> []" if "\<not> is_independent a (l @ [R])" using assms(4) that by auto
  then show "naive_step a R ms \<noteq> []" "list_all (\<lambda>m. m \<noteq> []) (naive_step a R ms)"
    "list_all (is_independent a) (naive_step a R ms)" "concat (naive_step a R ms) = concat ms @ [R]"
    using assms by (auto simp: naive_step_def Let_def ms list_all_iff)
qed

lemma naive_fold_inv:
  assumes "ms \<noteq> []" "list_all (\<lambda>m. m \<noteq> []) ms" "list_all (is_independent a) ms" "list_all (\<lambda>R. is_independent a [R]) rs"
  shows "list_all (\<lambda>m. m \<noteq> []) (fold (naive_step a) rs ms) \<and> list_all (is_independent a) (fold (naive_step a) rs ms) \<and>
    concat (fold (naive_step a) rs ms) = concat ms @ rs"
  using assms
proof (induction rs arbitrary: ms)
  case (Cons R rs)
  have b: "list_all (\<lambda>m. m \<noteq> []) (butlast ms)" using Cons.prems(2) by (auto simp: list_all_iff dest: in_set_butlastD)
  have i: "list_all (\<lambda>m. m \<noteq> [] \<longrightarrow> is_independent a m) ms" using Cons.prems(3) by (auto simp: list_all_iff)
  note n = naive_step_inv [OF Cons.prems(1) b i, of R]
  show ?case using Cons.IH [of "naive_step a R ms"] n Cons.prems(4) by simp
qed simp

interpretation naive: matroid_partition_strategy naive_partition
proof unfold_locales
  fix n rs a assume nt: "nontrivial_diag n rs"
  then obtain R rest where rs: "rs = R # rest" by (auto simp: nontrivial_diag_def neq_Nil_conv)
  have ind: "list_all (\<lambda>R. is_independent a [R]) rs"
    using nt independent_single by (auto simp: nontrivial_diag_def rots_ok_def diag_rotations_def reducible_def list_all_iff)
  then have R: "is_independent a [R]" by (simp add: rs)
  let ?ms = "naive_step a R [[]]"
  note s = naive_step_inv [of "[[]]" a R, OF _ _ _ R, simplified]
  have "list_all (\<lambda>m. m \<noteq> []) (fold (naive_step a) rest ?ms) \<and> list_all (is_independent a) (fold (naive_step a) rest ?ms) \<and>
    concat (fold (naive_step a) rest ?ms) = concat ?ms @ rest"
    by (rule naive_fold_inv) (use s ind in \<open>simp_all add: rs\<close>)
  then show "\<exists>ms. naive_partition rs a = Some ms \<and> concat ms = rs \<and> list_all (is_independent a) ms"
    using s(4) by (auto simp: naive_partition_def rs Let_def list_all_iff list_ex_iff)
qed

end
