(* ===== verification/InternalH.thy ===== *)
theory InternalH
  imports PhasePolynomials
begin

text \<open>
  The internal-H optimisation of src/src/tableau/optimize/internal_h_opt.cpp. A context tableau holds
  the part of the circuit not yet emitted; each rotation is emitted as a diagonal one, after the gates
  that make it diagonal are moved from the context to the new tableau. The passes are proved to keep
  the operator and to emit diagonal rotations only, which is what the phase-polynomial pass needs.
\<close>

section \<open>Definitions\<close>

definition circ :: "nat \<Rightarrow> clifford_string \<Rightarrow> stabilizer_tableau" where
  "circ n cs = trait_apply_string st_trait cs (st_init n)"

definition set_clifford :: "nat \<Rightarrow> clifford_string \<Rightarrow> sub_tableau list \<Rightarrow> sub_tableau list" where
  "set_clifford i cs ss =
     (case ss ! i of SubST T \<Rightarrow> ss[i := SubST (trait_apply_string st_trait cs T)] | SubPR _ \<Rightarrow> ss)"

definition apply_clifford :: "nat \<Rightarrow> clifford_string \<Rightarrow> sub_tableau list \<Rightarrow> sub_tableau list" where
  "apply_clifford n cs ss =
     (if cs = [] then ss
      else if ss = [] then [SubST (circ n cs)]
      else (case last ss of
              SubST T \<Rightarrow> set_clifford (length ss - 1) cs ss
            | SubPR rs \<Rightarrow>
                (if map (trait_apply_string rot_trait cs) rs \<noteq> rs then ss @ [SubST (circ n cs)]
                 else if 1 < length ss \<and> is_clifford (ss ! (length ss - 2)) then set_clifford (length ss - 2) cs ss
                 else butlast ss @ [SubST (circ n cs), SubPR rs])))"

text \<open>The gates that make row \<open>q\<close> of the context diagonal; the row is read through a reference, so it
  is the current one in every round.\<close>

definition diagonalize_row :: "nat \<Rightarrow> stabilizer_tableau \<Rightarrow> synth_state" where
  "diagonalize_row q K =
     (let n = st_n_qubits K;
          ctrl = find_index (\<lambda>i. is_x_set (stabilizer K q) i) 0 n
      in if ctrl < n
         then (let st1 = fold (\<lambda>targ st. if is_x_set (stabilizer (fst st) q) targ then add_cx ctrl targ st else st)
                           [ctrl + 1..<n] (K, []);
                   st2 = (if is_z_set (stabilizer (fst st1) q) ctrl then add_s ctrl st1 else st1)
               in add_h ctrl st2)
         else (K, []))"

definition push_rotation :: "pauli_rotation \<Rightarrow> sub_tableau list \<Rightarrow> sub_tableau list" where
  "push_rotation R ss =
     (case last ss of
        SubST _ \<Rightarrow> ss @ [SubPR [R]]
      | SubPR rs \<Rightarrow> butlast ss @ [SubPR (rs @ [R])])"

definition implement_into_tableau :: "nat \<Rightarrow> phase \<Rightarrow> sub_tableau list \<times> stabilizer_tableau \<Rightarrow> sub_tableau list \<times> stabilizer_tableau" where
  "implement_into_tableau q ph s =
     (let (K, cs) = diagonalize_row q (snd s);
          ss = apply_clifford (st_n_qubits K) cs (fst s)
      in (push_rotation (mk_rotation (stabilizer K q) ph) ss, K))"

definition prepend_adjoints :: "clifford_string \<Rightarrow> stabilizer_tableau \<Rightarrow> stabilizer_tableau" where
  "prepend_adjoints ops K = fold (\<lambda>x. st_prepend (adjoint_op x)) ops K"

fun minimize_loop :: "pauli_rotation list \<Rightarrow> sub_tableau list \<times> stabilizer_tableau \<Rightarrow> (sub_tableau list \<times> stabilizer_tableau) option" where
  "minimize_loop [] s = Some s"
| "minimize_loop (R # rs) s =
     (case rot_extract_clifford_operators R of
        None \<Rightarrow> None
      | Some (ops, q) \<Rightarrow>
          (let (ss, K) = implement_into_tableau q (rot_phase R) (fst s, prepend_adjoints ops (snd s))
           in minimize_loop rs (ss, prepend_adjoints (adjoint_string ops) K)))"

definition minimize_hadamards :: "(nat \<Rightarrow> bool) \<Rightarrow> tableau \<Rightarrow> stabilizer_tableau \<Rightarrow> (tableau \<times> stabilizer_tableau) option" where
  "minimize_hadamards stop t K =
     (let new = tableau_new (st_n_qubits K) in
      if subtableaux t = [] then Some (new, K)
      else (case subtableaux (collapse stop t) of
              [SubST T] \<Rightarrow> Some (new, prepend_adjoints (extract_clifford_operators stop T) K)
            | [SubST T, SubPR rs] \<Rightarrow>
                map_option (\<lambda>(ss, K'). (new\<lparr>subtableaux := ss\<rparr>, K'))
                  (minimize_loop rs (subtableaux new, prepend_adjoints (extract_clifford_operators stop T) K))
            | _ \<Rightarrow> None))"

definition minimize_internal_hadamards :: "(nat \<Rightarrow> bool) \<Rightarrow> tableau \<Rightarrow> tableau option" where
  "minimize_internal_hadamards stop t =
     (if subtableaux t = [] then Some t
      else
        (let t1 = collapse stop t in
         case hd (subtableaux t1) of
           SubPR _ \<Rightarrow> None
         | SubST T \<Rightarrow>
             (let context = prepend_adjoints (extract_clifford_operators stop T) (st_init (tab_n_qubits t1)) in
              case minimize_hadamards stop (tab_adjoint stop t1) context of
                None \<Rightarrow> None
              | Some (_, initial) \<Rightarrow>
                  (case minimize_hadamards stop t1 initial of
                     None \<Rightarrow> None
                   | Some (t2, final) \<Rightarrow>
                       Some (remove_identities stop
                         (tab_push_back (SubST (st_adjoint stop final)) (tab_insert 0 (SubST initial) t2)))))))"

section \<open>Circuits as sub-tableaux\<close>

lemma circ_ok [intro, simp]: "string_ok n cs \<Longrightarrow> st_ok n (circ n cs)"
  unfolding circ_def by (rule st_apply_string_ok [OF st_init_ok])

lemma circ_op: "string_ok n cs \<Longrightarrow> op_eq n (st_op (circ n cs)) (trait_apply_string q_trait cs)"
  unfolding circ_def by (rule st_op_circuit)

lemma circ_Nil: "circ n [] = st_init n"
  by (simp add: circ_def)

lemma circ_append: "circ n (xs @ ys) = trait_apply_string st_trait ys (circ n xs)"
  by (simp add: circ_def)

lemma equiv_circ_append:
  assumes T: "st_ok n T" and cs: "string_ok n cs"
  shows "equivalent n [SubST T, SubST (circ n cs)] [SubST (trait_apply_string st_trait cs T)]"
proof (rule equivI)
  have T': "st_ok n (trait_apply_string st_trait cs T)" by (rule st_apply_string_ok [OF T cs])
  show "subs_ok n [SubST T, SubST (circ n cs)]" "subs_ok n [SubST (trait_apply_string st_trait cs T)]"
    using T T' cs by simp_all
  have "op_eq n (\<lambda>v. st_op (circ n cs) (st_op T v)) (\<lambda>v. trait_apply_string q_trait cs (st_op T v))"
    by (rule op_eq_comp [OF circ_op [OF cs] op_eq_refl]) (use T cs in auto)
  also have "op_eq n \<dots> (st_op (trait_apply_string st_trait cs T))" by (rule op_eq_sym [OF st_op_append [OF T cs]])
  finally show "op_eq n (\<lambda>v. subs_op [SubST T, SubST (circ n cs)] v) (\<lambda>v. subs_op [SubST (trait_apply_string st_trait cs T)] v)"
    by simp
qed

lemma equiv_circ_circ: "string_ok n xs \<Longrightarrow> string_ok n ys \<Longrightarrow>
    equivalent n [SubST (circ n xs), SubST (circ n ys)] [SubST (circ n (xs @ ys))]"
  using equiv_circ_append [OF circ_ok, of n xs ys] by (simp add: circ_append)

lemma equiv_circ_cancel:
  assumes xs: "string_ok n xs"
  shows "equivalent n [SubST (circ n xs), SubST (circ n (adjoint_string xs))] []"
proof (rule equivI)
  have "op_eq n (\<lambda>v. st_op (circ n (adjoint_string xs)) (st_op (circ n xs) v))
      (\<lambda>v. trait_apply_string q_trait (adjoint_string xs) (trait_apply_string q_trait xs v))"
    by (rule op_eq_comp [OF circ_op circ_op]) (use xs in auto)
  also have "op_eq n \<dots> (\<lambda>v. v)" by (rule adjoint_circuit [OF xs])
  finally show "op_eq n (\<lambda>v. subs_op [SubST (circ n xs), SubST (circ n (adjoint_string xs))] v) (\<lambda>v. subs_op [] v)"
    by simp
qed (use xs in simp_all)

lemma equiv_circ_push:
  assumes rs: "rots_ok n rs" and cs: "string_ok n cs"
  shows "equivalent n [SubPR rs, SubST (circ n cs)] [SubST (circ n cs), SubPR (map (trait_apply_string rot_trait cs) rs)]"
proof (rule equivI)
  let ?rs = "map (trait_apply_string rot_trait cs) rs"
  have ok: "rots_ok n ?rs" by (rule rots_ok_map [OF rs cs])
  show "subs_ok n [SubPR rs, SubST (circ n cs)]" "subs_ok n [SubST (circ n cs), SubPR ?rs]" using rs cs ok by simp_all
  have "op_eq n (\<lambda>v. st_op (circ n cs) (rots_op rs v)) (\<lambda>v. trait_apply_string q_trait cs (rots_op rs v))"
    by (rule op_eq_comp [OF circ_op [OF cs] op_eq_refl]) (use cs rs in auto)
  also have "op_eq n \<dots> (\<lambda>v. rots_op ?rs (trait_apply_string q_trait cs v))" by (rule string_through_rotations [OF cs rs])
  also have "op_eq n \<dots> (\<lambda>v. rots_op ?rs (st_op (circ n cs) v))"
    by (rule op_eq_comp [OF op_eq_refl op_eq_sym [OF circ_op [OF cs]]]) (use cs ok in auto)
  finally show "op_eq n (\<lambda>v. subs_op [SubPR rs, SubST (circ n cs)] v) (\<lambda>v. subs_op [SubST (circ n cs), SubPR ?rs] v)" by simp
qed

lemma extract_circ:
  assumes "st_ok n K" "\<And>i. \<not> stop i"
  shows "string_ok n (extract_clifford_operators stop K)" "circ n (extract_clifford_operators stop K) = K"
  using extract_props [OF assms(1), of stop, OF assms(2)] by (simp_all add: circ_def)

text \<open>Prepending the adjoints of a string puts its inverse in front of the context.\<close>

lemma prepend_adjoints_string: "prepend_adjoints ops K = st_prepend_string (map adjoint_op ops) K"
  by (simp add: prepend_adjoints_def st_prepend_string_def fold_map comp_def)

lemma equiv_prepend:
  assumes K: "st_ok n K" and ops: "string_ok n ops"
  shows "st_ok n (prepend_adjoints ops K)"
    "equivalent n [SubST (prepend_adjoints ops K)] [SubST (circ n (adjoint_string ops)), SubST K]"
proof -
  let ?ys = "extract_clifford_operators (\<lambda>_. False) K"
  note e = extract_circ [OF K, of "\<lambda>_. False", simplified]
  have a: "string_ok n (map adjoint_op ops)" "rev (map adjoint_op ops) = adjoint_string ops"
    using ops by (induction ops) (auto simp: adjoint_string_def)
  have p: "prepend_adjoints ops K = circ n (adjoint_string ops @ ?ys)"
    using st_prepend_string_circuit [OF a(1) e(1)] e(2) by (simp add: prepend_adjoints_string a(2) circ_def)
  then show "st_ok n (prepend_adjoints ops K)" using ops e by simp
  show "equivalent n [SubST (prepend_adjoints ops K)] [SubST (circ n (adjoint_string ops)), SubST K]"
    using equiv_sym [OF equiv_circ_circ [of n "adjoint_string ops" ?ys]] ops e p by simp
qed

text \<open>A rotation around \<open>Z\<close> of qubit \<open>q\<close> in front of a context is one around its row \<open>q\<close> behind it.\<close>

lemma stabilizer_circ: "string_ok n xs \<Longrightarrow> q < n \<Longrightarrow> stabilizer (circ n xs) q = trait_apply_string pp_trait xs (z_gen n q)"
  using st_apply_string_map [OF st_init_wf, of n xs]
  by (simp add: circ_def row_idx [of n] st_wf_hom [OF hom_apply_string] st_init_rows st_wf_length [of n] init_rows_def)

lemma equiv_through_context:
  assumes K: "st_ok n K" and q: "q < n" and ph: "phase_ok ph"
  shows "rot_ok n (mk_rotation (stabilizer K q) ph)"
    "equivalent n [SubPR [mk_rotation (z_gen n q) ph], SubST K] [SubST K, SubPR [mk_rotation (stabilizer K q) ph]]"
proof -
  let ?xs = "extract_clifford_operators (\<lambda>_. False) K"
  note e = extract_circ [OF K, of "\<lambda>_. False", simplified]
  have z: "rot_ok n (mk_rotation (z_gen n q) ph)" using q ph by (intro mk_rotation_ok) simp_all
  have "trait_apply_string rot_trait ?xs (mk_rotation (z_gen n q) ph) = mk_rotation (stabilizer K q) ph \<and> pp_ok n (stabilizer K q)"
    using lifts_string [OF e(1)] q ph stabilizer_circ [OF e(1) q] by (simp add: lifts_def e(2))
  then show "rot_ok n (mk_rotation (stabilizer K q) ph)"
      "equivalent n [SubPR [mk_rotation (z_gen n q) ph], SubST K] [SubST K, SubPR [mk_rotation (stabilizer K q) ph]]"
    using equiv_circ_push [of n "[mk_rotation (z_gen n q) ph]" ?xs] z e ph by (auto intro: mk_rotation_ok)
qed

section \<open>The gates of the new tableau\<close>

definition all_diagonal :: "sub_tableau list \<Rightarrow> bool" where
  "all_diagonal ss \<longleftrightarrow> (\<forall>rs. SubPR rs \<in> set ss \<longrightarrow> rs \<noteq> [] \<and> diag_rotations rs)"

lemma set_clifford_at:
  assumes "ss = a @ SubST T # b"
  shows "set_clifford (length a) cs ss = a @ SubST (trait_apply_string st_trait cs T) # b"
  using assms by (simp add: set_clifford_def)

lemma equiv_context:
  "equivalent n x y \<Longrightarrow> subs_ok n a \<Longrightarrow> subs_ok n b \<Longrightarrow> equivalent n (a @ x @ b) (a @ y @ b)"
  by (intro equiv_append) auto

lemma apply_clifford_equiv:
  assumes ss: "subs_ok n ss" and cs: "string_ok n cs"
  shows "equivalent n (ss @ [SubST (circ n cs)]) (apply_clifford n cs ss)"
    "SubPR rs \<in> set (apply_clifford n cs ss) \<Longrightarrow> SubPR rs \<in> set ss"
    "ss \<noteq> [] \<Longrightarrow> apply_clifford n cs ss \<noteq> []"
proof -
  have "equivalent n (ss @ [SubST (circ n cs)]) (apply_clifford n cs ss) \<and>
    (\<forall>rs. SubPR rs \<in> set (apply_clifford n cs ss) \<longrightarrow> SubPR rs \<in> set ss) \<and> (ss \<noteq> [] \<longrightarrow> apply_clifford n cs ss \<noteq> [])"
  proof (cases "cs = [] \<or> ss = []")
    case True
    then show ?thesis
      using equiv_append [OF _ equiv_identity, of n ss ss] ss cs by (auto simp: apply_clifford_def circ_Nil)
  next
    case False
    then obtain a s where a: "ss = a @ [s]" by (metis append_butlast_last_id)
    have ok: "subs_ok n a" "sub_ok n s" using ss a by simp_all
    show ?thesis
    proof (cases s)
      case [simp]: (SubST T)
      have "apply_clifford n cs ss = a @ [SubST (trait_apply_string st_trait cs T)]"
        using False set_clifford_at [of ss a T "[]" cs] by (simp add: apply_clifford_def a)
      then show ?thesis
        using equiv_context [OF equiv_circ_append [OF _ cs], of T a "[]"] ok by (auto simp: a)
    next
      case [simp]: (SubPR rs)
      have rs: "rots_ok n rs" using ok by simp
      let ?rs = "map (trait_apply_string rot_trait cs) rs"
      consider "?rs \<noteq> rs" | T b where "?rs = rs" "a = b @ [SubST T]" | "?rs = rs" "\<not> (a \<noteq> [] \<and> is_clifford (last a))"
        by (cases "?rs = rs"; cases a rule: rev_cases; cases "last a") (auto simp: is_clifford_def)
      then show ?thesis
      proof cases
        case 1
        then show ?thesis using False ss cs by (simp add: apply_clifford_def a)
      next
        case 2
        then have c: "apply_clifford n cs ss = b @ [SubST (trait_apply_string st_trait cs T), SubPR rs]"
          using False set_clifford_at [of ss b T "[SubPR rs]" cs] by (simp add: apply_clifford_def a is_clifford_def nth_append)
        have T: "st_ok n T" "subs_ok n b" using ok 2 by simp_all
        have "equivalent n (ss @ [SubST (circ n cs)]) (b @ [SubST T] @ [SubPR rs, SubST (circ n cs)])"
          using ss cs by (simp add: a 2)
        also have "equivalent n \<dots> (b @ [SubST T] @ [SubST (circ n cs), SubPR rs])"
          using equiv_circ_push [OF rs cs] 2(1) T by (intro equiv_append) auto
        also have "equivalent n \<dots> (b @ [SubST (trait_apply_string st_trait cs T)] @ [SubPR rs])"
          using equiv_context [OF equiv_circ_append [OF T(1) cs] T(2), of "[SubPR rs]"] rs by simp
        finally show ?thesis unfolding c by (auto simp: a 2)
      next
        case 3
        have l: "a \<noteq> [] \<Longrightarrow> ss ! (length ss - 2) = last a" by (simp add: a nth_append last_conv_nth)
        have c: "apply_clifford n cs ss = a @ [SubST (circ n cs), SubPR rs]"
          using False 3 l by (cases "a = []") (auto simp: apply_clifford_def a)
        have "equivalent n (ss @ [SubST (circ n cs)]) (a @ [SubST (circ n cs), SubPR rs])"
          using equiv_context [OF equiv_circ_push [OF rs cs] ok(1), of "[]"] 3(1) by (simp add: a)
        then show ?thesis unfolding c by (auto simp: a)
      qed
    qed
  qed
  then show "equivalent n (ss @ [SubST (circ n cs)]) (apply_clifford n cs ss)"
    "SubPR rs \<in> set (apply_clifford n cs ss) \<Longrightarrow> SubPR rs \<in> set ss" "ss \<noteq> [] \<Longrightarrow> apply_clifford n cs ss \<noteq> []"
    by blast+
qed

lemma push_rotation_equiv:
  assumes ss: "subs_ok n ss" "ss \<noteq> []" and R: "rot_ok n R"
  shows "equivalent n (ss @ [SubPR [R]]) (push_rotation R ss)" "push_rotation R ss \<noteq> []"
    "all_diagonal ss \<Longrightarrow> rot_is_diagonal R \<Longrightarrow> all_diagonal (push_rotation R ss)"
proof -
  obtain a s where a: "ss = a @ [s]" using ss(2) by (metis append_butlast_last_id)
  have ok: "subs_ok n a" "sub_ok n s" using ss a by simp_all
  have "equivalent n (a @ [SubPR rs, SubPR [R]] @ []) (a @ [SubPR (rs @ [R])] @ [])" if "s = SubPR rs" for rs
    using ok that R by (intro equiv_context equiv_rotations_append) auto
  then show "equivalent n (ss @ [SubPR [R]]) (push_rotation R ss)"
    using ok R by (cases s) (auto simp: push_rotation_def a)
  show "push_rotation R ss \<noteq> []" "all_diagonal ss \<Longrightarrow> rot_is_diagonal R \<Longrightarrow> all_diagonal (push_rotation R ss)"
    by (cases s; auto simp: push_rotation_def a all_diagonal_def)+
qed

section \<open>Making a row diagonal\<close>

lemma diag_iff: "pp_ok n P \<Longrightarrow> is_diagonal P \<longleftrightarrow> (\<forall>i < n. \<not> is_x_set P i)"
  by (auto simp: is_diagonal_def list_all_iff is_i_def is_z_def pp_ok_def)

lemma mk_rotation_diagonal: "pp_ok n P \<Longrightarrow> is_diagonal P \<Longrightarrow> rot_is_diagonal (mk_rotation P ph)"
  by (auto simp: rot_is_diagonal_def mk_rotation_def rot_normalize_def diag_iff [of n] pp_ok_def bit_simps)

lemma diagonalize_row_spec:
  assumes K: "st_ok n K" and q: "q < n"
  obtains K' cs where "diagonalize_row q K = (K', cs)" "st_ok n K'" "string_ok n cs"
    "K' = trait_apply_string st_trait cs K" "is_diagonal (stabilizer K' q)"
proof -
  have n: "st_n_qubits K = n" and wf: "st_wf n K" using st_ok_wf [OF K] by simp_all
  note found = that
  let ?ctrl = "find_index (\<lambda>i. is_x_set (stabilizer K q) i) 0 n"
  have l0: "linked n K (K, [])" using K by (simp add: linked_def)
  have diag: "is_diagonal (stabilizer T q)" if "st_ok n T" "\<And>i. i < n \<Longrightarrow> \<not> xb T q i" for T
    using that st_wf_row [OF st_ok_wf [OF that(1)], of q] q diag_iff [of n "stabilizer T q"] row_bits(2) [OF st_ok_wf [OF that(1)], of q]
      row_idx(1) [OF st_ok_wf [OF that(1)], of q] by simp
  have res: thesis if "linked n K st" "\<And>i. i < n \<Longrightarrow> \<not> xb (fst st) q i" "diagonalize_row q K = st" for st
    using found [of "fst st" "snd st"] diag [of "fst st"] that unfolding linked_def by (metis prod.collapse)
  show thesis
  proof (cases "?ctrl < n")
    case False
    then have "\<not> is_x_set (stabilizer K q) i" if "i < n" for i
      using find_index_exists [of 0 i n "\<lambda>i. is_x_set (stabilizer K q) i"] that by auto
    then show thesis using False by (intro res [OF l0]) (simp_all add: row_bits [OF wf] diagonalize_row_def n Let_def)
  next
    case True
    define c where "c = ?ctrl"
    have c: "c < n" using True by (simp add: c_def)
    let ?I = "\<lambda>k st. linked n K st \<and> xb (fst st) q c \<and> (\<forall>i < k. i \<noteq> c \<longrightarrow> \<not> xb (fst st) q i)"
    let ?f = "\<lambda>targ st. if is_x_set (stabilizer (fst st) q) targ then add_cx c targ st else st"
    have "?I n (fold ?f [c + 1..<n] (K, []))"
    proof (rule fold_upt_induct [where I = ?I])
      show "?I (c + 1) (K, [])"
        using find_index_found [of "\<lambda>i. is_x_set (stabilizer K q) i" 0 n] True l0
          find_index_before [of 0 _ "\<lambda>i. is_x_set (stabilizer K q) i" n]
        by (auto simp: c_def row_bits [OF wf] less_Suc_eq)
      fix k st assume k: "c + 1 \<le> k" "k < n" and I: "?I k st"
      then show "?I (Suc k) (?f k st)"
        using add_bits(6) [of n K st q _ c k] q c
        by (auto simp: linked_adds row_bits [OF linked_wf [of n K st]] less_Suc_eq bxor_def)
    qed (use c in auto)
    then obtain st1 where st1: "fold ?f [c + 1..<n] (K, []) = st1" and I: "?I n st1" by blast
    define st2 where "st2 = (if is_z_set (stabilizer (fst st1) q) c then add_s c st1 else st1)"
    have I2: "?I n st2" "\<not> zb (fst st2) q c"
      using I q c add_bits(3,4) [of n K st1 q _ c] by (auto simp: st2_def linked_adds row_bits [OF linked_wf [of n K st1]] bxor_def)
    show thesis
    proof (rule res)
      show "linked n K (add_h c st2)" using I2 c by (auto intro: linked_adds)
      show "\<not> xb (fst (add_h c st2)) q i" if "i < n" for i
        using I2 q c that add_bits(2) [of n K st2 q i c] by auto
      show "diagonalize_row q K = add_h c st2"
        using True by (simp add: diagonalize_row_def n Let_def c_def [symmetric] st1 [symmetric] st2_def [unfolded st1 [symmetric]] cong: if_cong)
    qed
  qed
qed

section \<open>The passes\<close>

definition emits :: "nat \<Rightarrow> stabilizer_tableau \<Rightarrow> sub_tableau list \<Rightarrow> sub_tableau list \<times> stabilizer_tableau \<Rightarrow> bool" where
  "emits n K0 ps s \<longleftrightarrow> st_ok n (snd s) \<and> fst s \<noteq> [] \<and> all_diagonal (fst s) \<and>
     equivalent n (SubST K0 # fst s) (ps @ [SubST (snd s)])"

lemma emits_step:
  assumes e: "emits n K0 ps s" and R: "rot_ok n R" and x: "rot_extract_clifford_operators R = Some (ops, q)"
  defines "s1 \<equiv> implement_into_tableau q (rot_phase R) (fst s, prepend_adjoints ops (snd s))"
  shows "emits n K0 (ps @ [SubPR [R]]) (fst s1, prepend_adjoints (adjoint_string ops) (snd s1))"
proof -
  obtain ss K where s: "s = (ss, K)" by fastforce
  have K: "st_ok n K" and ss: "ss \<noteq> []" "all_diagonal ss" and inv: "equivalent n (SubST K0 # ss) (ps @ [SubST K])"
    using e by (auto simp: emits_def s)
  have ok: "subs_ok n ss" "subs_ok n ps" "st_ok n K0" using inv by (auto simp: equivalent_def)
  note r = rot_extract_spec(2) [OF R x]
  have ops: "string_ok n ops" and q: "q < n" and Rz: "trait_apply_string rot_trait ops R = \<lparr>rot_product = z_gen n q, rot_phase = rot_phase R\<rparr>"
    using r by simp_all
  have ph: "phase_ok (rot_phase R)" by (rule rot_okD(3) [OF R])
  have mz: "mk_rotation (z_gen n q) (rot_phase R) = trait_apply_string rot_trait ops R"
    using q by (simp add: Rz mk_rotation_def rot_normalize_def)
  let ?K1 = "prepend_adjoints ops K"
  note p1 = equiv_prepend [OF K ops]
  obtain K2 cs where d: "diagonalize_row q ?K1 = (K2, cs)" and K2: "st_ok n K2" and cs: "string_ok n cs"
    and K2e: "K2 = trait_apply_string st_trait cs ?K1" and dg: "is_diagonal (stabilizer K2 q)"
    using diagonalize_row_spec [OF p1(1) q] by blast
  have n2: "st_n_qubits K2 = n" using st_ok_wf [OF K2] by simp
  let ?R' = "mk_rotation (stabilizer K2 q) (rot_phase R)" and ?ss1 = "apply_clifford n cs ss"
  let ?ss2 = "push_rotation ?R' ?ss1"
  have s1: "s1 = (?ss2, K2)" by (simp add: s1_def s implement_into_tableau_def d n2)
  note ac = apply_clifford_equiv [OF ok(1) cs]
  note tc = equiv_through_context [OF K2 q ph]
  have R': "rot_is_diagonal ?R'"
    using dg q st_wf_row [OF st_ok_wf [OF K2], of q] row_idx(1) [OF st_ok_wf [OF K2], of q]
    by (intro mk_rotation_diagonal [of n]) simp_all
  have ad: "all_diagonal ?ss1" using ss(2) ac(2) by (auto simp: all_diagonal_def)
  note pr = push_rotation_equiv [OF equivD(2) [OF ac(1)] ac(3) [OF ss(1)] tc(1)]
  note p3 = equiv_prepend [OF K2, of "adjoint_string ops"]
  let ?K3 = "prepend_adjoints (adjoint_string ops) K2"
  have K3: "st_ok n ?K3" using p3(1) ops by simp
  have "equivalent n (SubST K0 # ?ss2) ([SubST K0] @ (?ss1 @ [SubPR [?R']]))"
    using equiv_append [OF _ equiv_sym [OF pr(1)], of "[SubST K0]" "[SubST K0]"] ok by simp
  also have "equivalent n \<dots> ([SubST K0] @ (ss @ [SubST (circ n cs)]) @ [SubPR [?R']])"
    using equiv_context [OF equiv_sym [OF ac(1)], of "[SubST K0]" "[SubPR [?R']]"] ok tc(1) by simp
  also have "equivalent n \<dots> ((ps @ [SubST K]) @ [SubST (circ n cs), SubPR [?R']])"
    using equiv_append [OF inv, of "[SubST (circ n cs), SubPR [?R']]" "[SubST (circ n cs), SubPR [?R']]"] cs tc(1) by simp
  also have "equivalent n \<dots> (ps @ [SubPR [R], SubST ?K3])"
  proof -
    have "equivalent n ([SubPR [R]] @ [SubST ?K3]) ([SubPR [R]] @ [SubST (circ n ops), SubST K2])"
      using p3(2) ops R by (intro equiv_append) auto
    also have "equivalent n \<dots> ([SubST (circ n ops), SubPR [mk_rotation (z_gen n q) (rot_phase R)]] @ [SubST K2])"
      using equiv_append [OF equiv_circ_push [of n "[R]" ops], of "[SubST K2]" "[SubST K2]"] R ops K2 by (simp add: mz)
    also have "equivalent n \<dots> ([SubST (circ n ops)] @ [SubST K2, SubPR [?R']])"
      using equiv_append [OF _ tc(2), of "[SubST (circ n ops)]" "[SubST (circ n ops)]"] ops by simp
    also have "equivalent n \<dots> ([SubST (circ n ops)] @ [SubST ?K1, SubST (circ n cs)] @ [SubPR [?R']])"
      using equiv_context [OF equiv_sym [OF equiv_circ_append [OF p1(1) cs]], of "[SubST (circ n ops)]" "[SubPR [?R']]"] ops tc(1)
      by (simp add: K2e)
    also have "equivalent n \<dots> ([SubST (circ n ops)] @ [SubST (circ n (adjoint_string ops)), SubST K] @ [SubST (circ n cs), SubPR [?R']])"
      using equiv_context [OF p1(2), of "[SubST (circ n ops)]" "[SubST (circ n cs), SubPR [?R']]"] ops cs tc(1) by simp
    also have "equivalent n \<dots> ([] @ [SubST K, SubST (circ n cs), SubPR [?R']])"
      using equiv_append [OF equiv_circ_cancel [OF ops], of "[SubST K, SubST (circ n cs), SubPR [?R']]"] K cs tc(1) by simp
    finally have "equivalent n [SubPR [R], SubST ?K3] [SubST K, SubST (circ n cs), SubPR [?R']]" by simp
    from equiv_append [OF _ equiv_sym [OF this], of ps ps] ok(2) show ?thesis by simp
  qed
  finally show ?thesis using K3 pr(2) pr(3) [OF ad R'] by (simp add: emits_def s1)
qed

lemma minimize_loop_emits:
  "emits n K0 ps s \<Longrightarrow> rots_ok n rs \<Longrightarrow> reducible rs \<Longrightarrow>
    \<exists>s'. minimize_loop rs s = Some s' \<and> emits n K0 (ps @ [SubPR rs]) s'"
proof (induction rs arbitrary: s ps)
  case Nil
  then have "equivalent n (ps @ [SubST (snd s)]) (ps @ [SubPR []] @ [SubST (snd s)])"
    using equiv_context [OF equiv_sym [OF equiv_no_rotations], of n ps "[SubST (snd s)]"] by (auto simp: emits_def equivalent_def)
  with Nil show ?case by (auto simp: emits_def intro: equiv_trans)
next
  case (Cons R rs)
  have R: "rot_ok n R" and rs: "rots_ok n rs" "reducible rs" and nid: "\<not> is_identity (rot_product R)" using Cons.prems by auto
  obtain ops q where x: "rot_extract_clifford_operators R = Some (ops, q)"
    using rot_extract_spec(1) [OF R] nid by (cases "rot_extract_clifford_operators R") auto
  let ?s1 = "implement_into_tableau q (rot_phase R) (fst s, prepend_adjoints ops (snd s))"
  obtain s' where s': "minimize_loop rs (fst ?s1, prepend_adjoints (adjoint_string ops) (snd ?s1)) = Some s'"
    "emits n K0 ((ps @ [SubPR [R]]) @ [SubPR rs]) s'"
    using Cons.IH [OF emits_step [OF Cons.prems(1) R x] rs] by blast
  have ps: "subs_ok n ps" "st_ok n (snd s')" using Cons.prems(1) s'(2) by (auto simp: emits_def equivalent_def)
  have "equivalent n (ps @ [SubPR [R], SubPR rs] @ [SubST (snd s')]) (ps @ [SubPR ([R] @ rs)] @ [SubST (snd s')])"
    using R rs ps by (intro equiv_context equiv_rotations_append) auto
  with s'(2) have "emits n K0 (ps @ [SubPR (R # rs)]) s'" by (auto simp: emits_def intro: equiv_trans)
  with s'(1) show ?case by (auto simp: x split_beta)
qed

text \<open>The lists of rotations that \<open>remove_identities\<close> leaves.\<close>

lemma merge_adjacent_lists: "SubPR rs \<in> set (merge_adjacent_cliffords stop ss) \<Longrightarrow> SubPR rs \<in> set ss"
  by (induction stop ss rule: merge_adjacent_cliffords.induct) auto

lemma remove_identities_lists:
  assumes "SubPR rs \<in> set (subtableaux (remove_identities stop t))"
  shows "\<exists>rs0. SubPR rs0 \<in> set (subtableaux t) \<and> rs = remove_identity_rotations rs0 \<and> rs \<noteq> []"
proof -
  let ?g = "\<lambda>s. case s of SubPR rs \<Rightarrow> SubPR (remove_identity_rotations rs) | SubST T \<Rightarrow> s"
  have "SubPR rs \<in> set (filter (\<lambda>s. \<not> sub_is_trivial s) (map ?g (subtableaux t)))"
    using assms by (auto simp: remove_identities_def Let_def dest: merge_adjacent_lists)
  then have "rs \<noteq> []" "SubPR rs \<in> ?g ` set (subtableaux t)" by (auto simp: sub_is_trivial_def)
  then show ?thesis by (auto split: sub_tableau.splits)
qed

text \<open>No rotation of a sequence is around the identity.\<close>

definition subs_reducible :: "sub_tableau list \<Rightarrow> bool" where
  "subs_reducible ss \<longleftrightarrow> (\<forall>s \<in> set ss. reducible (rotations_of s))"

lemma subs_reducible_simps [simp]: "subs_reducible []"
  "subs_reducible (s # ss) \<longleftrightarrow> reducible (rotations_of s) \<and> subs_reducible ss"
  "subs_reducible (ss @ ss') \<longleftrightarrow> subs_reducible ss \<and> subs_reducible ss'" "subs_reducible (rev ss) \<longleftrightarrow> subs_reducible ss"
  by (auto simp: subs_reducible_def)

lemma subs_reducible_drop: "subs_reducible ss \<Longrightarrow> subs_reducible (drop k ss)"
  unfolding subs_reducible_def by (meson in_set_dropD)

lemma subs_reducible_concat: "subs_reducible ss \<Longrightarrow> reducible (concat (map rotations_of ss))"
  by (induction ss) auto

lemma push_reducible:
  assumes "subs_ok n xs" "string_ok n cs" "\<And>i. \<not> stop i" "subs_reducible xs"
  shows "subs_reducible (push_cliffords stop cs xs)"
  using assms(1,2,4)
proof (induction xs arbitrary: cs)
  case (Cons s xs)
  show ?case
  proof (cases s)
    case (SubST T)
    have T: "st_ok n (trait_apply_string st_trait cs T)" using Cons.prems SubST by (auto intro: st_apply_string_ok)
    then show ?thesis using Cons.IH [OF _ extract_props(1) [OF T assms(3)]] Cons.prems SubST by (simp add: Let_def)
  next
    case (SubPR rs)
    then show ?thesis using Cons.IH [of cs] Cons.prems reducible_conj [of n rs cs] by simp
  qed
qed simp

lemma collapse_reducible:
  assumes t: "tab_ok n t" and stop: "\<And>i. \<not> stop i" and r: "subs_reducible (subtableaux t)"
  shows "subs_reducible (subtableaux (collapse stop t))"
proof (cases "subtableaux t = []")
  case False
  let ?ss = "front_clifford (tab_n_qubits t) (subtableaux t)"
  let ?ss1 = "rev (push_cliffords stop [] (rev ?ss))"
  let ?ss2 = "hd ?ss1 # filter (\<lambda>s. \<not> is_clifford s) (tl ?ss1)"
  have n: "tab_n_qubits t = n" using t by (simp add: tab_ok_def)
  have ok: "subs_ok n ?ss" using front_clifford_equiv [of n "subtableaux t"] t by (auto simp: tab_ok_def equivalent_def)
  have rs: "subs_reducible ?ss" using r by (auto simp: front_clifford_def split: list.split sub_tableau.split)
  have "subs_reducible ?ss1" using push_reducible [of n "rev ?ss" "[]" stop, OF _ _ stop] ok rs by (simp add: subs_ok_def)
  moreover have "?ss1 \<noteq> []" "?ss \<noteq> []"
  proof -
    obtain T rest where e: "?ss = SubST T # rest" using front_clifford_shape [OF False] by blast
    show "?ss1 \<noteq> []" "?ss \<noteq> []" unfolding e by (simp_all add: push_append Let_def)
  qed
  ultimately have r2: "subs_reducible ?ss2" by (cases "?ss1") (auto simp: subs_reducible_def)
  then have "subs_reducible (drop 2 ?ss2)" by (rule subs_reducible_drop)
  then have d: "reducible (concat (map rotations_of (drop 2 ?ss2)))" by (rule subs_reducible_concat)
  have nth: "reducible (rotations_of (?ss2 ! k))" if "k < length ?ss2" for k
    using r2 nth_mem [OF that] by (auto simp: subs_reducible_def)
  show ?thesis
  proof (cases "length ?ss \<le> 1 \<or> length ?ss2 = 1")
    case True
    then show ?thesis using rs r2 False by (auto simp: collapse_def Let_def)
  next
    case l: False
    then have "1 < length ?ss2" by (cases "filter (\<lambda>s. \<not> is_clifford s) (tl ?ss1)") auto
    then have "reducible (rotations_of (?ss2 ! 0))" "reducible (rotations_of (?ss2 ! 1))" by (simp_all only: nth)
    moreover have "subtableaux (collapse stop t) =
        [?ss2 ! 0, SubPR (rotations_of (?ss2 ! 1) @ concat (map rotations_of (drop 2 ?ss2)))]"
      using l False by (simp add: collapse_def Let_def)
    ultimately show ?thesis using d by (simp only: subs_reducible_simps rotations_of_simps reducible_simps simp_thms)
  qed
qed (simp add: collapse_def)

lemma minimize_hadamards_spec:
  assumes t: "tab_ok n t" and K: "st_ok n K" and stop: "\<And>i. \<not> stop i" and r: "subs_reducible (subtableaux t)"
  shows "\<exists>t' K'. minimize_hadamards stop t K = Some (t', K') \<and> tab_n_qubits t' = n \<and> st_ok n K' \<and>
    all_diagonal (subtableaux t') \<and> equivalent n (SubST K # subtableaux t') (subtableaux t @ [SubST K'])"
proof -
  have nk: "st_n_qubits K = n" using st_ok_wf [OF K] by simp
  have new: "subtableaux (tableau_new n) = [SubST (st_init n)]" "tab_n_qubits (tableau_new n) = n"
    by (simp_all add: tableau_new_def)
  have ad: "all_diagonal [SubST (st_init n)]" by (simp add: all_diagonal_def)
  have ok: "subs_ok n (subtableaux t)" using t by (simp add: tab_ok_def)
  have e0: "equivalent n (SubST K # [SubST (st_init n)]) [SubST K]"
    using equiv_append [OF _ equiv_identity, of n "[SubST K]" "[SubST K]"] K by simp
  show ?thesis
  proof (cases "subtableaux t = []")
    case True
    then show ?thesis using e0 K ad by (simp add: minimize_hadamards_def nk new)
  next
    case False
    note c = collapse_equiv [OF t, of stop, OF stop]
    obtain T where T: "subtableaux (collapse stop t) = [SubST T] \<or> (\<exists>rs. subtableaux (collapse stop t) = [SubST T, SubPR rs])"
      using c(2) c(4) [OF False] by (auto simp: collapsed_def)
    have okT: "st_ok n T" using T equivD(2) [OF c(1)] by auto
    let ?xs = "extract_clifford_operators stop T" and ?K = "prepend_adjoints (extract_clifford_operators stop T) K"
    note e = extract_circ [OF okT, of stop, OF stop]
    note p = equiv_prepend [OF K e(1)]
    have "equivalent n [SubST T, SubST ?K] ([SubST (circ n ?xs)] @ [SubST (circ n (adjoint_string ?xs)), SubST K])"
      using equiv_append [OF _ p(2), of "[SubST T]" "[SubST T]"] okT by (simp add: e(2))
    also have "equivalent n \<dots> ([] @ [SubST K])"
      using equiv_append [OF equiv_circ_cancel [OF e(1)], of "[SubST K]" "[SubST K]"] K by simp
    also have "equivalent n \<dots> (SubST K # [SubST (st_init n)])" using equiv_sym [OF e0] by simp
    finally have e1: "equivalent n (SubST K # [SubST (st_init n)]) ([SubST T] @ [SubST ?K])" using equiv_sym by simp
    then have em: "emits n K [SubST T] ([SubST (st_init n)], ?K)" using p(1) ad by (simp add: emits_def)
    from T show ?thesis
    proof (elim disjE exE)
      assume T1: "subtableaux (collapse stop t) = [SubST T]"
      note e1
      also have "equivalent n ([SubST T] @ [SubST ?K]) (subtableaux t @ [SubST ?K])"
        using equiv_append [OF equiv_sym [OF c(1)], of "[SubST ?K]" "[SubST ?K]"] p(1) by (simp add: T1)
      finally show ?thesis using False T1 p(1) ad by (simp add: minimize_hadamards_def nk new)
    next
      fix rs assume T2: "subtableaux (collapse stop t) = [SubST T, SubPR rs]"
      have rs: "rots_ok n rs" "reducible rs"
        using equivD(2) [OF c(1)] collapse_reducible [OF t, of stop, OF stop r] by (simp_all add: T2)
      obtain s' where s': "minimize_loop rs ([SubST (st_init n)], ?K) = Some s'" "emits n K ([SubST T] @ [SubPR rs]) s'"
        using minimize_loop_emits [OF em rs] by blast
      then have q: "st_ok n (snd s')" "all_diagonal (fst s')" "equivalent n (SubST K # fst s') ([SubST T, SubPR rs] @ [SubST (snd s')])"
        by (simp_all add: emits_def)
      note q(3)
      also have "equivalent n ([SubST T, SubPR rs] @ [SubST (snd s')]) (subtableaux t @ [SubST (snd s')])"
        using equiv_append [OF equiv_sym [OF c(1)], of "[SubST (snd s')]" "[SubST (snd s')]"] q(1) by (simp add: T2)
      finally show ?thesis using False T2 s' q by (auto simp: minimize_hadamards_def nk new split_beta)
    qed
  qed
qed

lemma subs_reducible_adjoint: "subs_reducible (map (sub_adjoint stop) (rev ss)) = subs_reducible ss"
  by (induction ss) (auto simp: sub_adjoint_def reducible_def list_all_iff split: sub_tableau.splits)

lemma equiv_adjoint_cancel:
  assumes K: "st_ok n K" and stop: "\<And>i. \<not> stop i"
  shows "st_ok n (st_adjoint stop K)" "equivalent n [SubST K, SubST (st_adjoint stop K)] []"
proof -
  note a = sub_adjoint_op [of n "SubST K" stop, OF _ stop]
  show ok: "st_ok n (st_adjoint stop K)" by (rule st_adjoint_props(1) [OF K stop])
  show "equivalent n [SubST K, SubST (st_adjoint stop K)] []"
    by (rule equivI) (use a(2) K ok in \<open>simp_all add: sub_adjoint_def\<close>)
qed

theorem minimize_internal_hadamards_equiv:
  assumes t: "tab_ok n t" and stop: "\<And>i. \<not> stop i" and r: "subs_reducible (subtableaux t)"
  shows "\<exists>t'. minimize_internal_hadamards stop t = Some t' \<and> tab_n_qubits t' = n \<and>
    equivalent n (subtableaux t) (subtableaux t') \<and>
    (\<forall>rs. SubPR rs \<in> set (subtableaux t') \<longrightarrow> rs \<noteq> [] \<and> diag_rotations rs \<and> reducible rs)"
proof (cases "subtableaux t = []")
  case True
  then show ?thesis using t by (auto simp: minimize_internal_hadamards_def tab_ok_def)
next
  case False
  let ?t1 = "collapse stop t"
  note c = collapse_equiv [OF t, of stop, OF stop]
  have t1: "tab_ok n ?t1" using c(1,3) by (simp add: tab_ok_def equivalent_def)
  have r1: "subs_reducible (subtableaux ?t1)" by (rule collapse_reducible [OF t stop r])
  obtain T rest where T: "subtableaux ?t1 = SubST T # rest" using c(2) c(4) [OF False] by (auto simp: collapsed_def)
  have okT: "st_ok n T" using t1 T by (simp add: tab_ok_def)
  let ?ctx = "prepend_adjoints (extract_clifford_operators stop T) (st_init n)"
  have ctx: "st_ok n ?ctx" by (rule equiv_prepend(1) [OF st_init_ok extract_props(1) [OF okT stop]])
  have a: "tab_ok n (tab_adjoint stop ?t1)" "subs_reducible (subtableaux (tab_adjoint stop ?t1))"
    using subs_adjoint_op [of n "subtableaux ?t1" stop, OF _ stop] t1 r1
    by (auto simp: tab_ok_def tab_adjoint_def subs_reducible_adjoint)
  obtain t0 K1 where m1: "minimize_hadamards stop (tab_adjoint stop ?t1) ?ctx = Some (t0, K1)" and K1: "st_ok n K1"
    using minimize_hadamards_spec [OF a(1) ctx, of stop, OF stop a(2)] by blast
  obtain t2 K2 where m2: "minimize_hadamards stop ?t1 K1 = Some (t2, K2)" and n2: "tab_n_qubits t2 = n" and K2: "st_ok n K2"
    and d2: "all_diagonal (subtableaux t2)" and e2: "equivalent n (SubST K1 # subtableaux t2) (subtableaux ?t1 @ [SubST K2])"
    using minimize_hadamards_spec [OF t1 K1, of stop, OF stop r1] by blast
  let ?t3 = "tab_push_back (SubST (st_adjoint stop K2)) (tab_insert 0 (SubST K1) t2)"
  note k = equiv_adjoint_cancel [OF K2, of stop, OF stop]
  have s3: "subtableaux ?t3 = (SubST K1 # subtableaux t2) @ [SubST (st_adjoint stop K2)]"
    by (simp add: tab_push_back_def tab_insert_def)
  have "equivalent n (subtableaux ?t3) ((subtableaux ?t1 @ [SubST K2]) @ [SubST (st_adjoint stop K2)])"
    unfolding s3 by (rule equiv_append [OF e2]) (use k in simp)
  also have "equivalent n \<dots> (subtableaux ?t1 @ [])"
    using equiv_append [OF _ k(2), of "subtableaux ?t1" "subtableaux ?t1"] t1 by (simp add: tab_ok_def)
  also have "equivalent n \<dots> (subtableaux t)" using equiv_sym [OF c(1)] by simp
  finally have e3: "equivalent n (subtableaux t) (subtableaux ?t3)" by (rule equiv_sym)
  have t3: "tab_ok n ?t3" using e3 n2 by (auto simp: tab_ok_def equivalent_def tab_push_back_def tab_insert_def)
  have "equivalent n (subtableaux t) (subtableaux (remove_identities stop ?t3))"
    by (rule equiv_trans [OF e3 remove_identities_equiv [OF t3, of stop, OF stop]])
  moreover have "tab_n_qubits (remove_identities stop ?t3) = n"
    by (simp add: remove_identities_def n2 Let_def tab_push_back_def tab_insert_def)
  moreover have "minimize_internal_hadamards stop t = Some (remove_identities stop ?t3)"
    using False T m1 m2 c(3) by (simp add: minimize_internal_hadamards_def Let_def)
  moreover have "rs \<noteq> [] \<and> diag_rotations rs \<and> reducible rs" if l: "SubPR rs \<in> set (subtableaux (remove_identities stop ?t3))" for rs
  proof -
    obtain rs0 where "SubPR rs0 \<in> set (subtableaux ?t3)" "rs = remove_identity_rotations rs0" "rs \<noteq> []"
      using remove_identities_lists [OF l] by blast
    then show ?thesis using d2 unfolding s3 by (auto simp: all_diagonal_def diag_rotations_def list_all_iff remove_identity_rotations_def reducible_def rot_is_trivial_def)
  qed
  ultimately show ?thesis by blast
qed

end
