(* ===== verification/Todd.thy ===== *)
theory Todd
  imports InternalH GaussianElimination RowOperations
begin

text \<open>
  The TODD strategy of src/src/tableau/optimize/todd.cpp: the search for a vector that lets two terms
  of the phase polynomial cancel, and the multilinear polynomial that yields the Clifford correction.
  The combinations of \<open>dvlab::combinations\<close> over ascending indices come in lexicographic order. Of the
  hash containers, \<open>ordered_hashmap\<close> is an association list in insertion order; an unordered map is
  one too; the standard leaves its order open, and \<open>mlp_extract_spec\<close> of \<open>ToddExtraction\<close> holds in
  whatever order the terms are.
\<close>

section \<open>Combinations\<close>

fun combinations2 :: "'a list \<Rightarrow> ('a \<times> 'a) list" where
  "combinations2 [] = []"
| "combinations2 (x # xs) = map (Pair x) xs @ combinations2 xs"

fun combinations3 :: "'a list \<Rightarrow> ('a \<times> 'a \<times> 'a) list" where
  "combinations3 [] = []"
| "combinations3 (x # xs) = map (Pair x) (combinations2 xs) @ combinations3 xs"

section \<open>The matrices of a move\<close>

definition get_row_products :: "boolean_matrix \<Rightarrow> boolean_matrix" where
  "get_row_products M =
     fold (\<lambda>(a, b). push_row (row_times (bm_rows M ! a) (bm_rows M ! b))) (combinations2 [0..<num_rows M]) (bm_of_rows [])"

text \<open>\<open>std::ceil(std::sqrt(k))\<close>, exact for the sizes of a polynomial.\<close>

definition ceil_sqrt :: "nat \<Rightarrow> nat" where
  "ceil_sqrt k = find_index (\<lambda>i. k \<le> i * i) 0 k"

definition get_row_product_idx :: "nat \<Rightarrow> nat \<Rightarrow> nat \<Rightarrow> nat" where
  "get_row_product_idx n a b =
     (let (a, b) = (if b < a then (b, a) else (a, b))
      in a * n - (a * (a + 1) div 2) + b - a - 1)"

definition chi_row :: "boolean_matrix \<Rightarrow> row \<Rightarrow> nat \<Rightarrow> nat \<times> nat \<times> nat \<Rightarrow> row" where
  "chi_row products z n t =
     (case t of (a, b, c) \<Rightarrow>
        row_plus (row_plus (row_scale (bm_rows products ! get_row_product_idx n b c) (z ! a))
                           (row_scale (bm_rows products ! get_row_product_idx n a c) (z ! b)))
                 (row_scale (bm_rows products ! get_row_product_idx n a b) (z ! c)))"

definition get_chi_matrix :: "boolean_matrix \<Rightarrow> row \<Rightarrow> boolean_matrix" where
  "get_chi_matrix products z =
     (let n = ceil_sqrt (num_rows products * 2)
      in snd (fold (\<lambda>t (seen, chi).
                let r = chi_row products z n t in
                if r \<in> seen then (seen, chi)
                else if is_zeros r then (seen, chi)
                else (insert r seen, push_row r chi))
              (combinations3 [0..<n]) ({}, bm_of_rows [])))"

definition add_row :: "nat \<Rightarrow> nat \<Rightarrow> boolean_matrix \<Rightarrow> boolean_matrix" where
  "add_row source dest M = M\<lparr>bm_rows := (bm_rows M)[dest := row_plus (bm_rows M ! dest) (bm_rows M ! source)]\<rparr>"

fun nullspace_loop :: "nat \<Rightarrow> nat list \<Rightarrow> nat \<Rightarrow> boolean_matrix \<Rightarrow> nat \<times> boolean_matrix" where
  "nullspace_loop n_rows [] p A = (p, A)"
| "nullspace_loop n_rows (col # cols) p A =
     (let A1 = (if entry A p col = 0
                then (let r = find_index (\<lambda>r. entry A r col \<noteq> 0) (p + 1) n_rows
                      in if r < n_rows then add_row r p A else A)
                else A)
      in if entry A1 p col = 0 then nullspace_loop n_rows cols p A1
         else (let A2 = fold (\<lambda>r A. if entry A r col \<noteq> 0 then add_row p r A else A) [p + 1..<n_rows] A1
               in if p + 1 = n_rows then (p + 1, A2) else nullspace_loop n_rows cols (p + 1) A2))"

definition get_nullspace_transposed :: "boolean_matrix \<Rightarrow> boolean_matrix" where
  "get_nullspace_transposed M =
     (let (p, A) = nullspace_loop (num_cols M) [0..<num_rows M] 0 (hstack (bm_transpose M) (bm_identity (num_cols M)))
      in bm_of_rows (map (\<lambda>r. map (\<lambda>c. entry A r c) [num_rows M..<num_cols A]) [p..<num_rows A]))"

definition load_phase_poly_matrix :: "pauli_rotation list \<Rightarrow> boolean_matrix" where
  "load_phase_poly_matrix polynomial =
     bm_of_rows (map (\<lambda>i. map (\<lambda>R. of_bool (is_z_set (rot_product R) i)) polynomial) [0..<rot_n_qubits (hd polynomial)])"

text \<open>Terms that occur an even number of times cancel.\<close>

fun count_term :: "row \<Rightarrow> (row \<times> nat) list \<Rightarrow> (row \<times> nat) list" where
  "count_term r [] = [(r, 1)]"
| "count_term r ((r', k) # m) = (if r' = r then (r', k + 1) # m else (r', k) # count_term r m)"

definition term_counts :: "row list \<Rightarrow> (row \<times> nat) list" where
  "term_counts rows = fold (\<lambda>r m. if row_sum r = 0 then m else count_term r m) rows []"

definition from_boolean_matrix :: "boolean_matrix \<Rightarrow> pauli_rotation list" where
  "from_boolean_matrix M =
     map (\<lambda>r. rotation_of_paulis (map (\<lambda>x. if x = 1 then PZ else PI) r) (mk_phase 1 4))
       (map fst (filter (\<lambda>(r, k). k mod 2 = 1) (term_counts (bm_rows M))))"

text \<open>The move: \<open>z\<close> is added to the terms where \<open>y\<close> is set, with an empty term more if these are odd
  in number.\<close>

definition todd_move :: "boolean_matrix \<Rightarrow> row \<Rightarrow> row \<Rightarrow> pauli_rotation list" where
  "todd_move M z y =
     (let (M1, y1) = (if row_sum y mod 2 = 1 then (push_zeros_column M, y @ [1]) else (M, y))
      in from_boolean_matrix (bm_transpose
           (fold (\<lambda>i N. if z ! i = 1 then N\<lparr>bm_rows := (bm_rows N)[i := row_plus (bm_rows N ! i) y1]\<rparr> else N)
              [0..<num_rows M1] M1)))"

definition column_sum :: "boolean_matrix \<Rightarrow> nat \<Rightarrow> nat \<Rightarrow> row" where
  "column_sum M a b = map (\<lambda>r. of_bool (r ! a \<noteq> r ! b)) (bm_rows M)"

fun todd_pairs :: "(nat \<Rightarrow> bool) \<Rightarrow> pauli_rotation list \<Rightarrow> boolean_matrix \<Rightarrow> boolean_matrix \<Rightarrow> row set \<Rightarrow> (nat \<times> nat) list \<Rightarrow>
    nat \<Rightarrow> pauli_rotation list \<times> nat" where
  "todd_pairs stop polynomial M products seen [] k = (polynomial, k)"
| "todd_pairs stop polynomial M products seen ((a, b) # pairs) k =
     (if stop k then (polynomial, k + 1)
      else
        (let z = column_sum M a b in
         if z \<in> seen then todd_pairs stop polynomial M products seen pairs (k + 1)
         else
           (let ns = get_nullspace_transposed (vstack M (get_chi_matrix products z)) in
            case find (\<lambda>y. y ! a \<noteq> y ! b) (bm_rows ns) of
              None \<Rightarrow> todd_pairs stop polynomial M products (insert z seen) pairs (k + 1)
            | Some y \<Rightarrow> (todd_move M z y, k + 1))))"

definition todd_once :: "(nat \<Rightarrow> bool) \<Rightarrow> nat \<Rightarrow> pauli_rotation list \<Rightarrow> pauli_rotation list \<times> nat" where
  "todd_once stop k polynomial =
     (if polynomial = [] then (polynomial, k)
      else
        (let M = load_phase_poly_matrix polynomial
         in todd_pairs stop polynomial M (get_row_products M) {} (combinations2 [0..<length polynomial]) k))"

section \<open>The multilinear polynomial\<close>

record multi_linear_polynomial =
  linear_terms :: "(nat \<times> nat) list"
  quadratic_terms :: "((nat \<times> nat) \<times> nat) list"
  cubic_terms :: "(nat \<times> nat \<times> nat) list"

fun bump :: "nat \<Rightarrow> nat \<Rightarrow> 'k \<Rightarrow> ('k \<times> nat) list \<Rightarrow> ('k \<times> nat) list" where
  "bump m d key [] = [(key, (0 + d) mod m)]"
| "bump m d key ((key', c) # al) = (if key' = key then (key', (c + d) mod m) # al else (key', c) # bump m d key al)"

fun toggle :: "'k \<Rightarrow> 'k list \<Rightarrow> 'k list" where
  "toggle key [] = [key]"
| "toggle key (key' # ks) = (if key' = key then ks else key' # toggle key ks)"

definition quarter_multiple :: "phase \<Rightarrow> bool" where
  "quarter_multiple ph \<longleftrightarrow> 4 mod phase_denominator ph = 0"

definition ones :: "pauli_rotation \<Rightarrow> nat list" where
  "ones R = filter (is_z_set (rot_product R)) [0..<rot_n_qubits R]"

definition add_rotation :: "bool \<Rightarrow> pauli_rotation \<Rightarrow> multi_linear_polynomial \<Rightarrow> multi_linear_polynomial" where
  "add_rotation subtract R p =
     (if \<not> rot_is_diagonal R then p
      else if \<not> quarter_multiple (rot_phase R) then p
      else \<lparr>linear_terms = fold (bump 8 (if subtract then 7 else 1)) (ones R) (linear_terms p),
            quadratic_terms = fold (bump 4 (if subtract then 3 else 1)) (combinations2 (ones R)) (quadratic_terms p),
            cubic_terms = fold toggle (combinations3 (ones R)) (cubic_terms p)\<rparr>)"

definition add_rotations :: "bool \<Rightarrow> pauli_rotation list \<Rightarrow> multi_linear_polynomial \<Rightarrow> multi_linear_polynomial" where
  "add_rotations subtract rs p = fold (add_rotation subtract) rs p"

definition empty_polynomial :: multi_linear_polynomial where
  "empty_polynomial = \<lparr>linear_terms = [], quadratic_terms = [], cubic_terms = []\<rparr>"

definition mlp_is_clifford :: "multi_linear_polynomial \<Rightarrow> bool" where
  "mlp_is_clifford p \<longleftrightarrow> list_all (\<lambda>(_, c). c mod 2 = 0) (linear_terms p) \<and>
     list_all (\<lambda>(_, c). c mod 2 = 0) (quadratic_terms p) \<and> cubic_terms p = []"

definition linear_gate :: "nat \<times> nat \<Rightarrow> clifford_string" where
  "linear_gate t =
     (case t of (i, c) \<Rightarrow>
        if c = 2 then [(COT_s, i, 0)] else if c = 4 then [(COT_z, i, 0)] else if c = 6 then [(COT_sdg, i, 0)] else [])"

definition quadratic_gate :: "(nat \<times> nat) \<times> nat \<Rightarrow> clifford_string" where
  "quadratic_gate t = (case t of ((i, j), c) \<Rightarrow> if c = 2 then [(COT_cz, i, j)] else [])"

definition mlp_extract_clifford_operators :: "multi_linear_polynomial \<Rightarrow> clifford_string option" where
  "mlp_extract_clifford_operators p =
     (if \<not> mlp_is_clifford p then None
      else Some (concat (map linear_gate (linear_terms p)) @ concat (map quadratic_gate (quadratic_terms p))))"

section \<open>The strategy\<close>

text \<open>The \<open>while (true)\<close> loop; not returning is \<open>None\<close>.\<close>

partial_function (option) todd_loop :: "(nat \<Rightarrow> bool) \<Rightarrow> nat \<Rightarrow> pauli_rotation list \<Rightarrow> pauli_rotation list option" where
  "todd_loop stop k polynomial =
     (let (polynomial', k') = todd_once stop k polynomial in
      if polynomial' = [] \<or> length polynomial' = length polynomial then Some polynomial'
      else todd_loop stop k' polynomial')"

declare todd_loop.simps [code]

definition todd_optimize :: "(nat \<Rightarrow> bool) \<Rightarrow> pp_strategy" where
  "todd_optimize stop clifford polynomial =
     (if polynomial = [] then Some (clifford, polynomial)
      else if list_ex (\<lambda>R. \<not> quarter_multiple (rot_phase R)) polynomial then Some (clifford, polynomial)
      else (case properize clifford polynomial of
              None \<Rightarrow> None
            | Some (ret_clifford, ret_polynomial) \<Rightarrow>
                (case todd_loop stop 0 ret_polynomial of
                   None \<Rightarrow> None
                 | Some final \<Rightarrow>
                     (case mlp_extract_clifford_operators
                             (add_rotations True final (add_rotations False ret_polynomial empty_polynomial)) of
                        None \<Rightarrow> Some (clifford, polynomial)
                      | Some ops \<Rightarrow> Some (trait_apply_string st_trait ops ret_clifford, final)))))"

end
