(* ===== verification/ToddMove.thy ===== *)
theory ToddMove
  imports Todd
begin

text \<open>
  The linear algebra of a TODD move: the rows of the matrix of row products are found where the
  code looks for them, the vectors of the null space are in the kernel of the stacked matrix, a move
  makes two columns equal, and it keeps all parities of products of at most three rows.
\<close>

section \<open>Row products\<close>

lemma in_combinations2: "sorted_wrt (<) xs \<Longrightarrow> (a, b) \<in> set (combinations2 xs) \<longleftrightarrow> a \<in> set xs \<and> b \<in> set xs \<and> a < (b :: nat)"
  by (induction xs) auto

lemma in_combinations3: "sorted_wrt (<) xs \<Longrightarrow>
    (a, b, c) \<in> set (combinations3 xs) \<longleftrightarrow> a \<in> set xs \<and> b \<in> set xs \<and> c \<in> set xs \<and> a < b \<and> b < (c :: nat)"
  by (induction xs) (auto simp: in_combinations2)

lemma length_combinations2: "2 * length (combinations2 xs) = length xs * (length xs - 1)"
proof (induction xs)
  case (Cons x xs)
  then show ?case by (cases "length xs") (simp_all add: algebra_simps)
qed simp

lemma triangle_Suc: "Suc a * Suc (Suc a) div 2 = a * Suc a div 2 + Suc a"
proof -
  have "Suc a * Suc (Suc a) = a * Suc a + 2 * Suc a" by (simp add: algebra_simps)
  then show ?thesis by simp
qed

lemma row_product_idx_Suc:
  assumes "a < b" "b < n"
  shows "get_row_product_idx (Suc n) (Suc a) (Suc b) = n + get_row_product_idx n a b"
proof -
  define t where "t = a * Suc a div 2"
  define x where "x = a * n"
  have "a * Suc a \<le> a * n" using assms by (intro mult_left_mono) auto
  then have le: "t \<le> x" by (simp add: t_def x_def)
  have "get_row_product_idx n a b = x - t + b - a - 1"
    using assms by (simp add: get_row_product_idx_def t_def x_def)
  moreover have "get_row_product_idx (Suc n) (Suc a) (Suc b) = Suc a * Suc n - Suc a * Suc (Suc a) div 2 + Suc b - Suc a - 1"
    using assms by (simp add: get_row_product_idx_def del: mult_Suc mult_Suc_right)
  moreover have "Suc a * Suc n = x + n + a + 1" by (simp add: x_def)
  moreover have "Suc a * Suc (Suc a) div 2 = t + Suc a" by (simp only: triangle_Suc t_def)
  ultimately show ?thesis using le assms by linarith
qed

lemma row_product_idx_less: "a < b \<Longrightarrow> b < n \<Longrightarrow> get_row_product_idx n a b < length (combinations2 [s..<s + n]) \<and>
    combinations2 [s..<s + n] ! get_row_product_idx n a b = (s + a, s + b)"
proof (induction a arbitrary: b n s)
  case 0
  then obtain n' b' where n: "n = Suc n'" "b = Suc b'" by (metis gr0_implies_Suc not_less_zero less_trans lessE)
  have "[s..<s + n] = s # [Suc s..<Suc s + n']" unfolding n(1) by (subst upt_rec) simp
  then show ?case using 0 unfolding n(1) by (simp add: n(2) get_row_product_idx_def nth_append del: upt_Suc)
next
  case (Suc a)
  then obtain n' b' where n: "n = Suc n'" "b = Suc b'" by (metis gr0_implies_Suc not_less_zero less_trans lessE)
  have u: "[s..<s + n] = s # [Suc s..<Suc s + n']" unfolding n(1) by (subst upt_rec) simp
  note IH = Suc.IH [of b' n' "Suc s"]
  have "a < b'" "b' < n'" using Suc.prems n by auto
  then show ?case using IH row_product_idx_Suc [of a b' n'] unfolding u by (simp add: n nth_append del: upt_Suc)
qed

lemma row_products_rows:
  "bm_rows (get_row_products M) = map (\<lambda>(a, b). row_times (bm_rows M ! a) (bm_rows M ! b)) (combinations2 [0..<num_rows M])"
proof -
  have *: "bm_rows (fold (\<lambda>(a, b). push_row (f a b)) ts N) = bm_rows N @ map (\<lambda>(a, b). f a b) ts" for f ts N
    by (induction ts arbitrary: N) (auto simp: push_row_def)
  show ?thesis
    using * [of "\<lambda>a b. row_times (bm_rows M ! a) (bm_rows M ! b)" "combinations2 [0..<num_rows M]" "bm_of_rows []"]
    by (simp add: get_row_products_def bm_of_rows_def)
qed

lemma row_products_nth:
  assumes "num_rows M = m" "a < b" "b < m"
  shows "bm_rows (get_row_products M) ! get_row_product_idx m a b = row_times (bm_rows M ! a) (bm_rows M ! b)"
  using row_product_idx_less [OF assms(2,3), of 0] by (simp add: row_products_rows assms(1))

lemma square_less: "i < m \<Longrightarrow> i * i < m * (m - 1)" if "2 \<le> m" for i m :: nat
proof -
  assume i: "i < m"
  then have "i * i \<le> (m - 1) * (m - 1)" by (intro mult_le_mono) auto
  also have "\<dots> < m * (m - 1)" using that by (intro mult_strict_right_mono) auto
  finally show ?thesis .
qed

lemma ceil_sqrt_rows:
  assumes "2 \<le> m"
  shows "ceil_sqrt (m * (m - 1)) = m"
proof -
  let ?k = "m * (m - 1)" and ?p = "\<lambda>i. m * (m - 1) \<le> i * i"
  have m: "m \<le> ?k" using assms by (cases m) auto
  have lt: "\<not> ?p i" if "i < m" for i using square_less [OF assms that] by simp
  have le: "?p m" by (intro mult_le_mono) auto
  have "find_index ?p 0 ?k = m"
  proof (cases "m < ?k")
    case True
    then have f: "find_index ?p 0 ?k < ?k" using find_index_exists [of 0 m ?k ?p] le by simp
    then have "?p (find_index ?p 0 ?k)" by (rule find_index_found [THEN conjunct2])
    then have "m \<le> find_index ?p 0 ?k" using lt by (meson not_le)
    moreover have "\<not> m < find_index ?p 0 ?k" using find_index_before [of 0 m ?p ?k] le True by auto
    ultimately show ?thesis by simp
  next
    case False
    then have k: "?k = m" using m by linarith
    have "find_index ?p 0 ?k = ?k"
      using find_index_found [of ?p 0 ?k] find_index_le [of ?p 0 ?k] lt by (metis k le_neq_implies_less)
    then show ?thesis using k by simp
  qed
  then show ?thesis by (simp add: ceil_sqrt_def)
qed

section \<open>Rows over GF(2)\<close>

definition row_ok :: "nat \<Rightarrow> row \<Rightarrow> bool" where
  "row_ok k r \<longleftrightarrow> length r = k \<and> (\<forall>e \<in> set r. e < 2)"

definition bit_at :: "row \<Rightarrow> nat \<Rightarrow> bool" where
  "bit_at r j \<longleftrightarrow> r ! j = 1"

lemma row_entry: "row_ok k r \<Longrightarrow> j < k \<Longrightarrow> r ! j = of_bool (bit_at r j)"
  using nth_mem [of j r] by (auto simp: row_ok_def bit_at_def less_2_cases_iff)

lemma bm_ok_row_ok: "bm_ok m k M \<longleftrightarrow> length (bm_rows M) = m \<and> (\<forall>r \<in> set (bm_rows M). row_ok k r)"
  by (auto simp: bm_ok_def row_ok_def)

lemma bm_row_ok: "bm_ok m k M \<Longrightarrow> i < m \<Longrightarrow> row_ok k (bm_rows M ! i)"
  by (auto simp: bm_ok_row_ok)

lemma bm_fun_bit: "bm_fun M i j = bit_at (bm_rows M ! i) j"
  by (simp add: bm_fun_def entry_def bit_at_def)

lemma row_ok_map: "(\<And>j. j < k \<Longrightarrow> f j < 2) \<Longrightarrow> row_ok k (map f [0..<k])"
  by (auto simp: row_ok_def)

lemma row_ops_ok:
  assumes "row_ok k l" "row_ok k r"
  shows "row_ok k (row_plus l r)" "row_ok k (row_times l r)" "row_ok k (row_scale l c)"
  using assms by (auto simp: row_ok_def row_plus_def row_times_def row_scale_def)

lemma row_ops_bits:
  assumes "row_ok k l" "row_ok k r" "j < k"
  shows "bit_at (row_plus l r) j = bxor (bit_at l j) (bit_at r j)"
    "bit_at (row_times l r) j = (bit_at l j \<and> bit_at r j)"
    "c < 2 \<Longrightarrow> bit_at (row_scale l c) j = (c = 1 \<and> bit_at l j)"
proof -
  have len: "length l = k" "length r = k" using assms by (auto simp: row_ok_def)
  have e: "l ! j = of_bool (bit_at l j)" "r ! j = of_bool (bit_at r j)" by (rule row_entry [OF assms(1,3)], rule row_entry [OF assms(2,3)])
  have p: "row_plus l r ! j = (l ! j + r ! j) mod 2" "row_times l r ! j = (l ! j * r ! j) mod 2" "row_scale l c ! j = (l ! j * c) mod 2"
    using assms(3) len by (simp_all add: row_plus_def row_times_def row_scale_def)
  show "bit_at (row_plus l r) j = bxor (bit_at l j) (bit_at r j)"
    unfolding bit_at_def [of "row_plus l r"] p e by (cases "bit_at l j"; cases "bit_at r j") simp_all
  show "bit_at (row_times l r) j = (bit_at l j \<and> bit_at r j)"
    unfolding bit_at_def [of "row_times l r"] p e by (cases "bit_at l j"; cases "bit_at r j") simp_all
  show "bit_at (row_scale l c) j = (c = 1 \<and> bit_at l j)" if "c < 2"
    using that unfolding bit_at_def [of "row_scale l c"] p e by (cases "bit_at l j") (auto simp: less_2_cases_iff)
qed

lemma row_eqI: "row_ok k l \<Longrightarrow> row_ok k r \<Longrightarrow> (\<And>j. j < k \<Longrightarrow> bit_at l j = bit_at r j) \<Longrightarrow> l = r"
  by (rule nth_equalityI) (simp_all add: row_ok_def row_entry [unfolded row_ok_def])

definition orth :: "nat \<Rightarrow> (nat \<Rightarrow> bool) \<Rightarrow> (nat \<Rightarrow> bool) \<Rightarrow> bool" where
  "orth k y f \<longleftrightarrow> \<not> gf2_sum (\<lambda>j. y j \<and> f j) k"

lemma orth_zero: "row_ok k r \<Longrightarrow> is_zeros r \<Longrightarrow> orth k y (bit_at r)"
  unfolding orth_def by (rule gf2_sum_all_zero) (auto simp: is_zeros_def row_ok_def bit_at_def list_ex_iff in_set_conv_nth)

section \<open>The chi matrix\<close>

definition chi_fun :: "boolean_matrix \<Rightarrow> row \<Rightarrow> nat \<times> nat \<times> nat \<Rightarrow> nat \<Rightarrow> bool" where
  "chi_fun M z t j = (case t of (a, b, c) \<Rightarrow>
     bxor (bxor (bit_at z a \<and> bm_fun M b j \<and> bm_fun M c j) (bit_at z b \<and> bm_fun M a j \<and> bm_fun M c j))
       (bit_at z c \<and> bm_fun M a j \<and> bm_fun M b j))"

lemma chi_row_spec:
  assumes M: "bm_ok m k M" and z: "row_ok m z" and t: "t \<in> set (combinations3 [0..<m])"
  shows "row_ok k (chi_row (get_row_products M) z m t)"
    "j < k \<Longrightarrow> bit_at (chi_row (get_row_products M) z m t) j = chi_fun M z t j"
proof -
  obtain a b c where [simp]: "t = (a, b, c)" by (metis surj_pair)
  have abc: "a < b" "b < c" "c < m" using t in_combinations3 [of "[0..<m]" a b c] by auto
  have n: "num_rows M = m" using bm_ok_rows(1) [OF M] .
  have r: "row_ok k (bm_rows M ! i)" if "i < m" for i by (rule bm_row_ok [OF M that])
  note ok = r [of a] r [of b] r [of c]
  have zc: "z ! i < 2" "(z ! i = 1) = bit_at z i" if "i < m" for i
    using z that by (auto simp: row_ok_def bit_at_def)
  show "row_ok k (chi_row (get_row_products M) z m t)"
    using abc ok by (simp add: chi_row_def row_products_nth [OF n] row_ops_ok)
  assume j: "j < k"
  show "bit_at (chi_row (get_row_products M) z m t) j = chi_fun M z t j"
    using abc ok j zc by (simp add: chi_row_def row_products_nth [OF n] row_ops_ok row_ops_bits [of k] chi_fun_def bm_fun_bit)
qed

lemma chi_fold_rows:
  "let (S', C') = fold (\<lambda>t (seen, chi).
        let r = f t in if r \<in> seen then (seen, chi) else if is_zeros r then (seen, chi) else (insert r seen, push_row r chi))
      ts (set (bm_rows C), C)
   in S' = set (bm_rows C') \<and> set (bm_rows C') = set (bm_rows C) \<union> {r \<in> f ` set ts. \<not> is_zeros r}"
proof (induction ts arbitrary: C)
  case (Cons t ts)
  show ?case using Cons.IH [of C] Cons.IH [of "push_row (f t) C"] by (auto simp: Let_def push_row_def split: prod.splits)
qed simp

lemma ceil_sqrt_products: "num_rows M = m \<Longrightarrow> 2 \<le> m \<Longrightarrow> ceil_sqrt (num_rows (get_row_products M) * 2) = m"
  using length_combinations2 [of "[0..<m]"] ceil_sqrt_rows [of m] by (simp add: num_rows_def row_products_rows mult.commute)

lemma chi_rows:
  assumes M: "bm_ok m k M" and z: "row_ok m z"
  shows "set (bm_rows (get_chi_matrix (get_row_products M) z)) =
    {r \<in> chi_row (get_row_products M) z m ` set (combinations3 [0..<m]). \<not> is_zeros r}"
proof -
  have n: "num_rows M = m" using bm_ok_rows(1) [OF M] .
  let ?n = "ceil_sqrt (num_rows (get_row_products M) * 2)"
  have "chi_row (get_row_products M) z ?n ` set (combinations3 [0..<?n]) = chi_row (get_row_products M) z m ` set (combinations3 [0..<m])"
  proof (cases "2 \<le> m")
    case True
    then show ?thesis by (simp add: ceil_sqrt_products [OF n])
  next
    case False
    then have "m = 0 \<or> m = 1" by auto
    moreover from this have "length (bm_rows (get_row_products M)) = 0" by (auto simp: row_products_rows n)
    then have "?n = 0" using find_index_le [of _ 0 0] by (simp add: num_rows_def ceil_sqrt_def)
    ultimately show ?thesis by auto
  qed
  then show ?thesis
    using chi_fold_rows [of "chi_row (get_row_products M) z ?n" "combinations3 [0..<?n]" "bm_of_rows []"]
    by (simp add: get_chi_matrix_def Let_def bm_of_rows_def split: prod.splits)
qed

lemma stacked_spec:
  assumes M: "bm_ok m k M" and z: "row_ok m z" and m: "0 < m"
  defines "A \<equiv> vstack M (get_chi_matrix (get_row_products M) z)"
  shows "\<exists>m'. bm_ok m' k A \<and> 0 < m' \<and> m' = num_rows A"
    "(\<And>r. r \<in> set (bm_rows A) \<Longrightarrow> orth k y (bit_at r)) \<Longrightarrow> i < m \<Longrightarrow> orth k y (bm_fun M i)"
    "(\<And>r. r \<in> set (bm_rows A) \<Longrightarrow> orth k y (bit_at r)) \<Longrightarrow> t \<in> set (combinations3 [0..<m]) \<Longrightarrow> orth k y (chi_fun M z t)"
proof -
  let ?C = "get_chi_matrix (get_row_products M) z"
  have "num_rows M \<noteq> 0" using m bm_ok_rows(1) [OF M] by simp
  then have rows: "bm_rows A = bm_rows M @ bm_rows ?C" by (auto simp: A_def vstack_def num_rows_def bm_of_rows_def)
  have c: "row_ok k r" if "r \<in> set (bm_rows ?C)" for r
    using that chi_rows [OF M z] chi_row_spec(1) [OF M z] by auto
  show "\<exists>m'. bm_ok m' k A \<and> 0 < m' \<and> m' = num_rows A"
    using M m c by (auto simp: bm_ok_row_ok rows num_rows_def)
  assume y: "\<And>r. r \<in> set (bm_rows A) \<Longrightarrow> orth k y (bit_at r)"
  show "orth k y (bm_fun M i)" if "i < m"
    using y [of "bm_rows M ! i"] that M by (simp add: rows bm_ok_row_ok bm_fun_bit [abs_def])
  show "orth k y (chi_fun M z t)" if t: "t \<in> set (combinations3 [0..<m])"
  proof -
    let ?r = "chi_row (get_row_products M) z m t"
    have "orth k y (bit_at ?r)"
    proof (cases "is_zeros ?r")
      case True
      then show ?thesis by (rule orth_zero [OF chi_row_spec(1) [OF M z t]])
    next
      case False
      then show ?thesis using y chi_rows [OF M z] t by (auto simp: rows)
    qed
    moreover have "gf2_sum (\<lambda>j. y j \<and> bit_at ?r j) k = gf2_sum (\<lambda>j. y j \<and> chi_fun M z t j) k"
      by (rule gf2_sum_cong) (use chi_row_spec(2) [OF M z t] in auto)
    ultimately show ?thesis by (simp add: orth_def)
  qed
qed

end
