(* ===== verification/ToddNullspace.thy ===== *)
theory ToddNullspace
  imports ToddMove
begin

text \<open>
  \<open>get_nullspace_transposed\<close>: every row of the augmented matrix stays a combination, recorded in its
  right half, of the columns of the input, and the rows below the pivots are zero on the left, so
  their right halves are in the kernel.
\<close>

definition nul :: "nat \<Rightarrow> nat \<Rightarrow> boolean_matrix \<Rightarrow> nat \<Rightarrow> nat \<Rightarrow> boolean_matrix \<Rightarrow> bool" where
  "nul k m M col p A \<longleftrightarrow> bm_ok k (m + k) A \<and>
     (\<forall>r < k. \<forall>c < m. gf2_sum (\<lambda>j. bm_fun A r (m + j) \<and> bm_fun M c j) k = bm_fun A r c) \<and>
     (\<forall>r c. p \<le> r \<longrightarrow> r < k \<longrightarrow> c < col \<longrightarrow> \<not> bm_fun A r c)"

lemma entry_zero: "bm_ok m k M \<Longrightarrow> r < m \<Longrightarrow> c < k \<Longrightarrow> entry M r c = 0 \<longleftrightarrow> \<not> bm_fun M r c"
  by (simp add: entry_fun)

lemma add_row_do_op: "bm_ok m k M \<Longrightarrow> s < m \<Longrightarrow> d < m \<Longrightarrow> add_row s d M = do_op s d False M"
  by (simp add: add_row_def do_op_def row_operation_def bm_ok_rows)

lemma add_row_spec:
  assumes "bm_ok m k M" "s < m" "d < m"
  shows "bm_ok m k (add_row s d M)"
    "r < m \<Longrightarrow> c < k \<Longrightarrow> bm_fun (add_row s d M) r c = (if r = d then bxor (bm_fun M d c) (bm_fun M s c) else bm_fun M r c)"
  using do_op_ok [OF assms, where track = False] by (simp_all add: add_row_do_op [OF assms] row_add_apply)

lemma nul_add:
  assumes A: "nul k m M col p A" and s: "p \<le> s" "s < k" and d: "p \<le> d" "d < k" and col: "col \<le> m"
  shows "nul k m M col p (add_row s d A)"
proof -
  have ok: "bm_ok k (m + k) A" using A by (simp add: nul_def)
  note a = add_row_spec [OF ok s(2) d(2)]
  have rel: "gf2_sum (\<lambda>j. bm_fun (add_row s d A) r (m + j) \<and> bm_fun M c j) k = bm_fun (add_row s d A) r c" if r: "r < k" "c < m" for r c
  proof -
    have "gf2_sum (\<lambda>j. bm_fun (add_row s d A) r (m + j) \<and> bm_fun M c j) k =
        gf2_sum (\<lambda>j. (if r = d then bxor (bm_fun A d (m + j)) (bm_fun A s (m + j)) else bm_fun A r (m + j)) \<and> bm_fun M c j) k"
      by (rule gf2_sum_cong) (use r in \<open>simp_all add: a(2)\<close>)
    also have "\<dots> = bm_fun (add_row s d A) r c"
      using A r s d by (cases "r = d") (simp_all add: a(2) nul_def bxor_conj gf2_sum_xor)
    finally show ?thesis .
  qed
  have zero: "\<not> bm_fun (add_row s d A) r c" if "p \<le> r" "r < k" "c < col" for r c
    using A that s d col a(2) [of r c] by (auto simp: nul_def)
  show ?thesis using rel zero a(1) by (simp add: nul_def)
qed

lemma nullspace_clear:
  assumes A: "nul k m M col p A" and p: "p < k" and col: "col < m" and piv: "bm_fun A p col"
  shows "nul k m M (Suc col) (Suc p) (fold (\<lambda>r A. if entry A r col \<noteq> 0 then add_row p r A else A) [p + 1..<k] A)"
proof -
  let ?f = "\<lambda>r A. if entry A r col \<noteq> 0 then add_row p r A else A"
  let ?I = "\<lambda>i A. nul k m M col p A \<and> bm_fun A p col \<and> (\<forall>r. p < r \<longrightarrow> r < i \<longrightarrow> \<not> bm_fun A r col)"
  have "?I k (fold ?f [p + 1..<k] A)"
  proof (rule fold_upt_induct [where I = ?I])
    fix i B assume i: "p + 1 \<le> i" "i < k" and I: "?I i B"
    have ok: "bm_ok k (m + k) B" using I by (simp add: nul_def)
    show "?I (Suc i) (?f i B)"
    proof (cases "bm_fun B i col")
      case True
      then have "?f i B = add_row p i B" using entry_zero [OF ok, of i col] i col by simp
      then show ?thesis
        using nul_add [of k m M col p B p i] I i p col add_row_spec(2) [OF ok p i(2)] True by (auto simp: less_Suc_eq)
    next
      case False
      then show ?thesis using entry_zero [OF ok, of i col] i col I by (auto simp: less_Suc_eq)
    qed
  qed (use A p piv in auto)
  then show ?thesis by (auto simp: nul_def less_Suc_eq Suc_le_eq)
qed

lemma nullspace_loop_spec:
  "nul k m M col p A \<Longrightarrow> p < k \<Longrightarrow> col \<le> m \<Longrightarrow> nullspace_loop k [col..<m] p A = (p', A') \<Longrightarrow> nul k m M m p' A'"
proof (induction "m - col" arbitrary: col p A)
  case 0
  then show ?case by simp
next
  case (Suc d)
  have col: "col < m" using Suc.hyps by simp
  then have u: "[col..<m] = col # [Suc col..<m]" by (rule upt_conv_Cons)
  have ok: "bm_ok k (m + k) A" using Suc.prems(1) by (simp add: nul_def)
  have z: "entry B r col = 0 \<longleftrightarrow> \<not> bm_fun B r col" if "bm_ok k (m + k) B" "r < k" for B r
    using entry_zero [OF that] col by simp
  let ?r = "find_index (\<lambda>r. entry A r col \<noteq> 0) (p + 1) k"
  define A1 where "A1 = (if entry A p col = 0 then (if ?r < k then add_row ?r p A else A) else A)"
  have A1: "nul k m M col p A1" and none: "\<not> bm_fun A1 p col \<Longrightarrow> p \<le> r \<Longrightarrow> r < k \<Longrightarrow> \<not> bm_fun A1 r col" for r
  proof -
    have "nul k m M col p A1 \<and> (\<not> bm_fun A1 p col \<longrightarrow> (\<forall>r. p \<le> r \<longrightarrow> r < k \<longrightarrow> \<not> bm_fun A1 r col))"
    proof (cases "bm_fun A p col")
      case True
      then show ?thesis using Suc.prems z [OF ok] by (simp add: A1_def)
    next
      case False
      show ?thesis
      proof (cases "?r < k")
        case True
        then have f: "p + 1 \<le> ?r" "entry A ?r col \<noteq> 0" using find_index_found [OF True] by auto
        then have "bm_fun (add_row ?r p A) p col" using add_row_spec(2) [OF ok True Suc.prems(2)] Suc.prems(2) col False z [OF ok True] by simp
        moreover have "A1 = add_row ?r p A" using True False z [OF ok Suc.prems(2)] by (simp add: A1_def)
        moreover have "nul k m M col p (add_row ?r p A)" using Suc.prems f True by (intro nul_add) auto
        ultimately show ?thesis by simp
      next
        case nr: False
        then have fi: "?r = k" by (intro antisym find_index_le) simp
        have "\<not> bm_fun A r col" if "p \<le> r" "r < k" for r
        proof (cases "r = p")
          case nrp: False
          then have "\<not> entry A r col \<noteq> 0" using that by (intro find_index_none [OF fi]) simp_all
          then show ?thesis using z [OF ok that(2)] by simp
        qed (use False in simp)
        then show ?thesis using nr Suc.prems by (simp add: A1_def)
      qed
    qed
    then show "nul k m M col p A1" "\<not> bm_fun A1 p col \<Longrightarrow> p \<le> r \<Longrightarrow> r < k \<Longrightarrow> \<not> bm_fun A1 r col" by auto
  qed
  have ok1: "bm_ok k (m + k) A1" using A1 by (simp add: nul_def)
  have step: "nullspace_loop k [col..<m] p A = (if entry A1 p col = 0 then nullspace_loop k [Suc col..<m] p A1
      else (let A2 = fold (\<lambda>r A. if entry A r col \<noteq> 0 then add_row p r A else A) [p + 1..<k] A1
            in if p + 1 = k then (p + 1, A2) else nullspace_loop k [Suc col..<m] (p + 1) A2))"
    by (simp only: u nullspace_loop.simps Let_def A1_def)
  show ?case
  proof (cases "bm_fun A1 p col")
    case False
    then have "nul k m M (Suc col) p A1" using A1 none by (auto simp: nul_def less_Suc_eq)
    then show ?thesis using Suc.hyps(1) [of "Suc col" p A1] Suc.hyps(2) Suc.prems col step z [OF ok1 Suc.prems(2)] False by simp
  next
    case True
    let ?A2 = "fold (\<lambda>r A. if entry A r col \<noteq> 0 then add_row p r A else A) [p + 1..<k] A1"
    note A2 = nullspace_clear [OF A1 Suc.prems(2) col True]
    show ?thesis
    proof (cases "p + 1 = k")
      case True
      then have "(p', A') = (k, ?A2)" using step Suc.prems z [OF ok1 Suc.prems(2)] \<open>bm_fun A1 p col\<close> by (simp add: Let_def)
      then show ?thesis using A2 True by (simp add: nul_def)
    next
      case False
      then show ?thesis
        using Suc.hyps(1) [of "Suc col" "p + 1" ?A2] Suc.hyps(2) A2 Suc.prems col step z [OF ok1 Suc.prems(2)] \<open>bm_fun A1 p col\<close>
        by (simp add: Let_def)
    qed
  qed
qed

lemma nullspace_spec:
  assumes M: "bm_ok m k M" and m: "0 < m" and k: "0 < k" and y: "y \<in> set (bm_rows (get_nullspace_transposed M))"
  shows "row_ok k y" "c < m \<Longrightarrow> orth k (bit_at y) (bm_fun M c)"
proof -
  let ?T = "bm_transpose M" and ?I = "bm_identity k"
  let ?A = "hstack ?T ?I"
  note t = bm_transpose_spec [OF M m k] and i = bm_identity_spec [where n = k]
  have d: "num_rows M = m" "num_cols M = k" "num_cols ?T = m" "num_cols ?I = k" "num_rows ?T = k"
    using bm_ok_rows(1) bm_ok_cols M t(1) i(1) m k by blast+
  have rows: "bm_rows ?A = map (\<lambda>r. bm_rows ?T ! r @ bm_rows ?I ! r) [0..<k]"
    using m k d by (simp add: hstack_def bm_of_rows_def)
  have len: "length (bm_rows ?T ! r) = m" "length (bm_rows ?I ! r) = k" if "r < k" for r
    using bm_row_ok [OF t(1) that] bm_row_ok [OF i(1) that] by (auto simp: row_ok_def)
  have okA: "bm_ok k (m + k) ?A"
    using bm_row_ok [OF t(1)] bm_row_ok [OF i(1)] by (auto simp: bm_ok_row_ok rows row_ok_def)
  have e: "bm_fun ?A r c = bm_fun M c r" "bm_fun ?A r (m + j) = (r = j)" if "r < k" "c < m" "j < k" for r c j
    using that t(2) [of r c] i(2) [of r j] len by (simp_all add: bm_fun_def entry_def rows nth_append)
  have "nul k m M 0 0 ?A"
    unfolding nul_def
  proof (intro conjI allI impI)
    fix r c assume r: "r < k" "c < m"
    have "gf2_sum (\<lambda>j. bm_fun ?A r (m + j) \<and> bm_fun M c j) k = gf2_sum (\<lambda>j. r = j \<and> bm_fun M c j) k"
      by (rule gf2_sum_cong) (use r in \<open>simp_all add: e(2) [of r c]\<close>)
    then show "gf2_sum (\<lambda>j. bm_fun ?A r (m + j) \<and> bm_fun M c j) k = bm_fun ?A r c"
      using r e(1) [of r c] k by (simp add: gf2_sum_delta')
  qed (use okA in auto)
  then obtain p A where l: "nullspace_loop k [0..<m] 0 ?A = (p, A)" and A: "nul k m M m p A"
    using nullspace_loop_spec [of k m M 0 0 ?A] k by (metis le0 surj_pair)
  have ok: "bm_ok k (m + k) A" using A by (simp add: nul_def)
  have dA: "num_rows A = k" "num_cols A = m + k" using bm_ok_rows(1) bm_ok_cols ok k by blast+
  obtain r where r: "p \<le> r" "r < k" "y = map (\<lambda>c. entry A r c) [m..<m + k]"
    using y by (auto simp: get_nullspace_transposed_def d l dA bm_of_rows_def)
  have yj: "y ! j = entry A r (m + j)" if "j < k" for j using that by (simp add: r(3))
  show "row_ok k y" using bm_ok_entry [OF ok r(2)] by (auto simp: r(3) row_ok_def)
  assume c: "c < m"
  have "gf2_sum (\<lambda>j. bit_at y j \<and> bm_fun M c j) k = gf2_sum (\<lambda>j. bm_fun A r (m + j) \<and> bm_fun M c j) k"
    by (rule gf2_sum_cong) (auto simp: bit_at_def yj bm_fun_def)
  then show "orth k (bit_at y) (bm_fun M c)" using A r c by (auto simp: orth_def nul_def)
qed

end
