(* ===== verification/ToddPolynomial.thy ===== *)
theory ToddPolynomial
  imports Todd
begin

text \<open>
  What the multilinear polynomial of TODD stands for: on a basis state \<open>b\<close> its value modulo 8 is the
  number of rotations with odd parity on \<open>b\<close>, added minus subtracted. The Clifford string read off it
  is therefore the difference of the two phase polynomials.
\<close>

section \<open>Counting combinations\<close>

definition cnt :: "('a \<Rightarrow> bool) \<Rightarrow> 'a list \<Rightarrow> nat" where
  "cnt p xs = length (filter p xs)"

lemma cnt_simps [simp]: "cnt p [] = 0" "cnt p (x # xs) = of_bool (p x) + cnt p xs" "cnt p (xs @ ys) = cnt p xs + cnt p ys"
  by (simp_all add: cnt_def)

lemma cnt_map: "cnt p (map f xs) = cnt (\<lambda>x. p (f x)) xs"
  by (simp add: cnt_def filter_map comp_def)

lemma cnt_cong: "(\<And>x. x \<in> set xs \<Longrightarrow> p x = q x) \<Longrightarrow> cnt p xs = cnt q xs"
  by (simp add: cnt_def cong: filter_cong)

definition both :: "('a \<Rightarrow> bool) \<Rightarrow> 'a \<times> 'a \<Rightarrow> bool" where
  "both p t \<longleftrightarrow> p (fst t) \<and> p (snd t)"

definition triple :: "('a \<Rightarrow> bool) \<Rightarrow> 'a \<times> 'a \<times> 'a \<Rightarrow> bool" where
  "triple p t \<longleftrightarrow> p (fst t) \<and> both p (snd t)"

lemma cnt_const: "cnt (\<lambda>x. False) xs = 0"
  by (simp add: cnt_def)

lemma cnt_combinations2: "cnt (both p) (combinations2 xs) = cnt p xs choose 2"
  by (induction xs) (auto simp: cnt_map both_def cnt_const numeral_2_eq_2)

lemma cnt_combinations3: "cnt (triple p) (combinations3 xs) = cnt p xs choose 3"
  by (induction xs) (auto simp: cnt_map triple_def cnt_const cnt_combinations2 numeral_3_eq_3 numeral_2_eq_2)

lemma parity_identity: "8 dvd (int w - 2 * int (w choose 2) + 4 * int (w choose 3) - of_bool (odd w))"
proof (induction w)
  case (Suc w)
  have c: "int (Suc w choose 2) = int (w choose 2) + int w" "int (Suc w choose 3) = int (w choose 3) + int (w choose 2)"
    by (simp_all add: numeral_2_eq_2 numeral_3_eq_3)
  obtain k where k: "int w - 2 * int (w choose 2) + 4 * int (w choose 3) - of_bool (odd w) = 8 * k"
    using Suc.IH by (auto elim: dvdE)
  have "int (Suc w) - 2 * int (Suc w choose 2) + 4 * int (Suc w choose 3) - of_bool (odd (Suc w)) = 8 * (int (w choose 3) - k)"
    unfolding c using k by (cases "odd w") simp_all
  then show ?case by (metis dvd_triv_left)
qed (simp add: numeral_2_eq_2 numeral_3_eq_3)

section \<open>Weighted sums over association lists\<close>

definition wsum :: "('k \<Rightarrow> bool) \<Rightarrow> ('k \<times> nat) list \<Rightarrow> int" where
  "wsum w al = (\<Sum>(k, c) \<leftarrow> al. int c * of_bool (w k))"

lemma wsum_simps [simp]: "wsum w [] = 0" "wsum w ((k, c) # al) = int c * of_bool (w k) + wsum w al"
  by (simp_all add: wsum_def)

lemma mod_diff: "\<exists>j. int ((c + d) mod m) = int c + int d + int m * j"
  by (rule exI [of _ "- int ((c + d) div m)"]) (simp add: zmod_int zdiv_int minus_mult_div_eq_mod [symmetric])

lemma bump_sum: "\<exists>j. wsum w (bump m d k al) = wsum w al + int d * of_bool (w k) + int m * j"
proof (induction al)
  case Nil
  obtain j where "int (d mod m) = int d + int m * j" using mod_diff [of 0 d m] by auto
  then show ?case by (auto intro: exI [of _ j] exI [of _ 0])
next
  case (Cons x al)
  obtain k' c where x: "x = (k', c)" by fastforce
  obtain j where "int ((c + d) mod m) = int c + int d + int m * j" using mod_diff by blast
  then have "wsum w (bump m d k (x # al)) = wsum w (x # al) + int d * of_bool (w k) + int m * j" if "k' = k" "w k"
    using that by (simp add: x)
  then show ?case using Cons.IH by (cases "k' = k"; cases "w k") (auto simp: x intro: exI [of _ 0])
qed

lemma bumps_sum: "\<exists>j. wsum w (fold (bump m d) ks al) = wsum w al + int d * int (cnt w ks) + int m * j"
proof (induction ks arbitrary: al)
  case Nil
  then show ?case by (auto intro: exI [of _ 0])
next
  case (Cons k ks)
  obtain i where i: "wsum w (bump m d k al) = wsum w al + int d * of_bool (w k) + int m * i"
    using bump_sum [of w m d k al] by blast
  obtain j where "wsum w (fold (bump m d) ks (bump m d k al)) = wsum w (bump m d k al) + int d * int (cnt w ks) + int m * j"
    using Cons.IH by blast
  then show ?case by (intro exI [of _ "i + j"]) (simp add: i algebra_simps)
qed

lemma toggle_sum: "\<exists>j. int (cnt w (toggle k ks)) = int (cnt w ks) + of_bool (w k) + 2 * j"
proof (induction ks)
  case Nil
  then show ?case by (auto intro: exI [of _ 0])
next
  case (Cons k' ks)
  show ?case
  proof (cases "k' = k")
    case True
    then show ?thesis by (intro exI [of _ "- of_bool (w k)"]) simp
  next
    case False
    then show ?thesis using Cons.IH by (auto simp: algebra_simps)
  qed
qed

lemma toggles_sum: "\<exists>j. int (cnt w (fold toggle ks al)) = int (cnt w al) + int (cnt w ks) + 2 * j"
proof (induction ks arbitrary: al)
  case Nil
  then show ?case by (auto intro: exI [of _ 0])
next
  case (Cons k ks)
  obtain i where i: "int (cnt w (toggle k al)) = int (cnt w al) + of_bool (w k) + 2 * i" using toggle_sum [of w k al] by blast
  obtain j where "int (cnt w (fold toggle ks (toggle k al))) = int (cnt w (toggle k al)) + int (cnt w ks) + 2 * j"
    using Cons.IH by blast
  then show ?case by (intro exI [of _ "i + j"]) (simp add: i algebra_simps)
qed

section \<open>The value of a multilinear polynomial\<close>

definition mlp_value :: "multi_linear_polynomial \<Rightarrow> qstate \<Rightarrow> int" where
  "mlp_value p b = wsum b (linear_terms p) - 2 * wsum (both b) (quadratic_terms p) + 4 * int (cnt (triple b) (cubic_terms p))"

definition parity :: "pauli_rotation \<Rightarrow> qstate \<Rightarrow> bool" where
  "parity R b = odd (cnt b (ones R))"

definition n_odd :: "pauli_rotation list \<Rightarrow> qstate \<Rightarrow> nat" where
  "n_odd rs b = cnt (\<lambda>R. parity R b) rs"

lemma n_odd_simps [simp]: "n_odd [] b = 0" "n_odd (R # rs) b = of_bool (parity R b) + n_odd rs b"
  by (simp_all add: n_odd_def)

definition quarter_turns :: "pauli_rotation list \<Rightarrow> bool" where
  "quarter_turns rs \<longleftrightarrow> (\<forall>R \<in> set rs. rot_is_diagonal R \<and> rot_phase R = mk_phase 1 4)"

lemma quarter_turns_simps [simp]: "quarter_turns []"
  "quarter_turns (R # rs) \<longleftrightarrow> (rot_is_diagonal R \<and> rot_phase R = mk_phase 1 4) \<and> quarter_turns rs"
  by (auto simp: quarter_turns_def)

lemma mk_quarter: "phase_denominator (mk_phase 1 4) = 4" "phase_val (mk_phase 1 4) = 1 / 4"
  by code_simp+

lemma add_rotation_value:
  assumes "rot_is_diagonal R" "rot_phase R = mk_phase 1 4"
  shows "\<exists>j. mlp_value (add_rotation subtract R p) b = mlp_value p b + (if subtract then -1 else 1) * of_bool (parity R b) + 8 * j"
proof -
  let ?w = "cnt b (ones R)" and ?d = "if subtract then 7 else 1 :: nat" and ?e = "if subtract then 3 else 1 :: nat"
  define s :: int where "s = (if subtract then -1 else 1)"
  obtain i where i: "wsum b (fold (bump 8 ?d) (ones R) (linear_terms p)) = wsum b (linear_terms p) + int ?d * int ?w + 8 * i"
    using bumps_sum [of b 8 ?d "ones R" "linear_terms p"] by auto
  obtain j where j: "wsum (both b) (fold (bump 4 ?e) (combinations2 (ones R)) (quadratic_terms p)) =
      wsum (both b) (quadratic_terms p) + int ?e * int (?w choose 2) + 4 * j"
    using bumps_sum [of "both b" 4 ?e "combinations2 (ones R)" "quadratic_terms p"] by (auto simp: cnt_combinations2)
  obtain k where k: "int (cnt (triple b) (fold toggle (combinations3 (ones R)) (cubic_terms p))) =
      int (cnt (triple b) (cubic_terms p)) + int (?w choose 3) + 2 * k"
    using toggles_sum [of "triple b" "combinations3 (ones R)" "cubic_terms p"] by (auto simp: cnt_combinations3)
  obtain l where l: "int ?w - 2 * int (?w choose 2) + 4 * int (?w choose 3) - of_bool (odd ?w) = 8 * l"
    using parity_identity [of ?w] by (auto elim: dvdE)
  have v: "mlp_value (add_rotation subtract R p) b =
      (wsum b (linear_terms p) + int ?d * int ?w + 8 * i) -
      2 * (wsum (both b) (quadratic_terms p) + int ?e * int (?w choose 2) + 4 * j) +
      4 * (int (cnt (triple b) (cubic_terms p)) + int (?w choose 3) + 2 * k)"
    using assms by (simp add: mlp_value_def add_rotation_def quarter_multiple_def mk_quarter i j k del: fold.simps)
  show ?thesis
  proof (cases subtract)
    case True
    define m where "m = i - j + k + int ?w - int (?w choose 2) + int (?w choose 3) - l"
    have "mlp_value (add_rotation subtract R p) b = mlp_value p b - of_bool (parity R b) + 8 * m"
      unfolding v m_def using l True by (simp add: mlp_value_def parity_def)
    then show ?thesis using True by (intro exI [of _ m]) simp
  next
    case False
    define m where "m = i - j + k + l"
    have "mlp_value (add_rotation subtract R p) b = mlp_value p b + of_bool (parity R b) + 8 * m"
      unfolding v m_def using l False by (simp add: mlp_value_def parity_def)
    then show ?thesis using False by (intro exI [of _ m]) simp
  qed
qed

lemma add_rotations_value:
  "quarter_turns rs \<Longrightarrow>
    \<exists>j. mlp_value (add_rotations subtract rs p) b = mlp_value p b + (if subtract then -1 else 1) * int (n_odd rs b) + 8 * j"
proof (induction rs arbitrary: p)
  case Nil
  then show ?case by (auto simp: add_rotations_def intro: exI [of _ 0])
next
  case (Cons R rs)
  obtain i where i: "mlp_value (add_rotation subtract R p) b = mlp_value p b + (if subtract then -1 else 1) * of_bool (parity R b) + 8 * i"
    using add_rotation_value Cons.prems by fastforce
  obtain j where "mlp_value (add_rotations subtract rs (add_rotation subtract R p)) b =
      mlp_value (add_rotation subtract R p) b + (if subtract then -1 else 1) * int (n_odd rs b) + 8 * j"
    using Cons.IH Cons.prems by fastforce
  then have "mlp_value (add_rotations subtract (R # rs) p) b =
      mlp_value p b + (if subtract then -1 else 1) * int (n_odd (R # rs) b) + 8 * (i + j)"
    using i by (simp add: add_rotations_def)
  then show ?case by blast
qed

end
