(* ===== verification/ToddTerms.thy ===== *)
theory ToddTerms
  imports ToddNullspace ToddPolynomial
begin

text \<open>
  The terms after a TODD move: every product of at most three rows keeps its parity over the columns,
  the two chosen columns become equal, and \<open>from_boolean_matrix\<close>, which cancels equal columns in
  pairs, keeps these parities and drops at least two columns.
\<close>

section \<open>Counting over GF(2)\<close>

lemma cnt_snoc: "cnt p (xs @ [x]) = cnt p xs + of_bool (p x)"
  by simp

lemma odd_cnt_gf2: "odd (cnt p xs) = gf2_sum (\<lambda>j. p (xs ! j)) (length xs)"
proof (induction xs rule: rev_induct)
  case (snoc x xs)
  have "gf2_sum (\<lambda>j. p ((xs @ [x]) ! j)) (length xs) = gf2_sum (\<lambda>j. p (xs ! j)) (length xs)"
    by (rule gf2_sum_cong) (auto simp: nth_append)
  with snoc show ?case by (auto simp: bxor_def)
qed simp

lemma row_sum_cnt: "row_sum r = cnt (\<lambda>e. e = 1) r"
  unfolding row_sum_def by (induction r rule: rev_induct) auto

lemma row_sum_parity: "row_ok k y \<Longrightarrow> row_sum y mod 2 = 1 \<longleftrightarrow> gf2_sum (bit_at y) k"
  using odd_cnt_gf2 [of "\<lambda>e. e = 1" y] by (simp add: row_sum_cnt row_ok_def bit_at_def [abs_def] odd_iff_mod_2_eq_one)

section \<open>The moved matrix\<close>

definition moved :: "boolean_matrix \<Rightarrow> row \<Rightarrow> row \<Rightarrow> boolean_matrix" where
  "moved M z y =
     fold (\<lambda>i N. if z ! i = 1 then N\<lparr>bm_rows := (bm_rows N)[i := row_plus (bm_rows N ! i) y]\<rparr> else N) [0..<num_rows M] M"

lemma moved_spec:
  assumes M: "bm_ok n k M" and y: "row_ok k y"
  shows "bm_ok n k (moved M z y)"
    "i < n \<Longrightarrow> j < k \<Longrightarrow> bm_fun (moved M z y) i j = bxor (bm_fun M i j) (bit_at z i \<and> bit_at y j)"
proof -
  have d: "num_rows M = n" using bm_ok_rows(1) [OF M] .
  let ?I = "\<lambda>l N. bm_ok n k N \<and> (\<forall>i < n. bm_rows N ! i = (if i < l \<and> z ! i = 1 then row_plus (bm_rows M ! i) y else bm_rows M ! i))"
  have I: "?I n (moved M z y)"
    unfolding moved_def d
  proof (rule fold_upt_induct [where I = ?I])
    fix l N assume l: "0 \<le> l" "l < n" and I: "?I l N"
    have "row_ok k (row_plus (bm_rows N ! l) y)" using I l y by (intro row_ops_ok bm_row_ok [of n k N]) auto
    then show "?I (Suc l) (if z ! l = 1 then N\<lparr>bm_rows := (bm_rows N)[l := row_plus (bm_rows N ! l) y]\<rparr> else N)"
      using I l by (auto simp: bm_ok_row_ok nth_list_update less_Suc_eq dest!: set_update_subset_insert [THEN subsetD])
  qed (use M in auto)
  then show "bm_ok n k (moved M z y)" by blast
  assume i: "i < n" "j < k"
  show "bm_fun (moved M z y) i j = bxor (bm_fun M i j) (bit_at z i \<and> bit_at y j)"
    using I i row_ops_bits(1) [OF bm_row_ok [OF M i(1)] y i(2)] by (auto simp: bm_fun_bit bit_at_def [of z])
qed

lemma push_zeros_spec:
  assumes M: "bm_ok n k M"
  shows "bm_ok n (Suc k) (push_zeros_column M)"
    "i < n \<Longrightarrow> j < Suc k \<Longrightarrow> bm_fun (push_zeros_column M) i j = (j < k \<and> bm_fun M i j)"
  using M bm_row_ok [OF M, of i]
  by (auto simp: bm_ok_row_ok push_zeros_column_def row_ok_def bm_fun_bit bit_at_def nth_append less_Suc_eq)

text \<open>A vector in the kernel, of even weight, keeps the parities of products of up to three rows.\<close>

definition neutral :: "nat \<Rightarrow> nat \<Rightarrow> boolean_matrix \<Rightarrow> row \<Rightarrow> row \<Rightarrow> bool" where
  "neutral n k M z y \<longleftrightarrow> bm_ok n k M \<and> row_ok k y \<and> \<not> gf2_sum (bit_at y) k \<and>
     (\<forall>i < n. orth k (bit_at y) (bm_fun M i)) \<and> (\<forall>t \<in> set (combinations3 [0..<n]). orth k (bit_at y) (chi_fun M z t))"

lemma expand_three:
  "(bxor A (p \<and> Y) \<and> bxor B (q \<and> Y) \<and> bxor C (r \<and> Y)) =
    bxor (A \<and> B \<and> C) (bxor (Y \<and> bxor (bxor (p \<and> B \<and> C) (q \<and> A \<and> C)) (r \<and> A \<and> B))
      (bxor ((p \<and> q) \<and> (Y \<and> C)) (bxor ((p \<and> r) \<and> (Y \<and> B)) (bxor ((q \<and> r) \<and> (Y \<and> A)) ((p \<and> q \<and> r) \<and> Y)))))"
  by (cases Y; cases A; cases B; cases C; cases p; cases q; cases r; simp)

lemma expand_two:
  "(bxor A (p \<and> Y) \<and> bxor B (q \<and> Y)) =
    bxor (A \<and> B) (bxor (p \<and> (Y \<and> B)) (bxor (q \<and> (Y \<and> A)) ((p \<and> q) \<and> Y)))"
  by (cases Y; cases A; cases B; cases p; cases q; simp)

lemma parity_three:
  assumes s: "neutral n k M z y" and t: "a < b" "b < c" "c < n"
  shows "gf2_sum (\<lambda>j. bm_fun (moved M z y) a j \<and> bm_fun (moved M z y) b j \<and> bm_fun (moved M z y) c j) k =
    gf2_sum (\<lambda>j. bm_fun M a j \<and> bm_fun M b j \<and> bm_fun M c j) k"
proof -
  have M: "bm_ok n k M" "row_ok k y" using s by (auto simp: neutral_def)
  have m: "bm_fun (moved M z y) i j = bxor (bm_fun M i j) (bit_at z i \<and> bit_at y j)" if "i \<in> {a, b, c}" "j < k" for i j
    using that t by (intro moved_spec(2) [OF M]) auto
  let ?Y = "bit_at y" and ?z = "bit_at z" and ?f = "bm_fun M"
  have t3: "(a, b, c) \<in> set (combinations3 [0..<n])" using t in_combinations3 [of "[0..<n]" a b c] by auto
  have o: "\<not> gf2_sum (\<lambda>j. ?Y j \<and> ?f i j) k" if "i < n" for i using s that by (simp add: neutral_def orth_def)
  have x: "\<not> gf2_sum (\<lambda>j. ?Y j \<and> chi_fun M z (a, b, c) j) k" using s t3 by (auto simp: neutral_def orth_def)
  have e: "\<not> gf2_sum ?Y k" using s by (simp add: neutral_def)
  have "gf2_sum (\<lambda>j. bm_fun (moved M z y) a j \<and> bm_fun (moved M z y) b j \<and> bm_fun (moved M z y) c j) k =
      gf2_sum (\<lambda>j. bxor (?f a j \<and> ?f b j \<and> ?f c j) (bxor (?Y j \<and> chi_fun M z (a, b, c) j)
        (bxor ((?z a \<and> ?z b) \<and> (?Y j \<and> ?f c j)) (bxor ((?z a \<and> ?z c) \<and> (?Y j \<and> ?f b j))
          (bxor ((?z b \<and> ?z c) \<and> (?Y j \<and> ?f a j)) ((?z a \<and> ?z b \<and> ?z c) \<and> ?Y j)))))) k"
    by (rule gf2_sum_cong) (use t in \<open>simp_all only: m chi_fun_def prod.case expand_three insert_iff simp_thms\<close>)
  also have "\<dots> = gf2_sum (\<lambda>j. ?f a j \<and> ?f b j \<and> ?f c j) k"
    unfolding gf2_sum_xor gf2_sum_conj_left using o [of a] o [of b] o [of c] x e t by simp
  finally show ?thesis .
qed

lemma parity_two:
  assumes s: "neutral n k M z y" and t: "a < n" "b < n" "a \<noteq> b"
  shows "gf2_sum (\<lambda>j. bm_fun (moved M z y) a j \<and> bm_fun (moved M z y) b j) k = gf2_sum (\<lambda>j. bm_fun M a j \<and> bm_fun M b j) k"
proof -
  have M: "bm_ok n k M" "row_ok k y" using s by (auto simp: neutral_def)
  let ?Y = "bit_at y" and ?z = "bit_at z" and ?f = "bm_fun M"
  have o: "\<not> gf2_sum (\<lambda>j. ?Y j \<and> ?f i j) k" if "i < n" for i using s that by (simp add: neutral_def orth_def)
  have e: "\<not> gf2_sum ?Y k" using s by (simp add: neutral_def)
  have "gf2_sum (\<lambda>j. bm_fun (moved M z y) a j \<and> bm_fun (moved M z y) b j) k =
      gf2_sum (\<lambda>j. bxor (?f a j \<and> ?f b j) (bxor (?z a \<and> (?Y j \<and> ?f b j)) (bxor (?z b \<and> (?Y j \<and> ?f a j)) ((?z a \<and> ?z b) \<and> ?Y j)))) k"
    by (rule gf2_sum_cong) (use t in \<open>simp_all only: moved_spec(2) [OF M] expand_two\<close>)
  also have "\<dots> = gf2_sum (\<lambda>j. ?f a j \<and> ?f b j) k"
    unfolding gf2_sum_xor gf2_sum_conj_left using o [of a] o [of b] e t by simp
  finally show ?thesis .
qed

lemma parity_one:
  assumes s: "neutral n k M z y" and t: "a < n"
  shows "gf2_sum (\<lambda>j. bm_fun (moved M z y) a j) k = gf2_sum (\<lambda>j. bm_fun M a j) k"
proof -
  have M: "bm_ok n k M" "row_ok k y" using s by (auto simp: neutral_def)
  have e: "\<not> gf2_sum (bit_at y) k" using s by (simp add: neutral_def)
  have "gf2_sum (\<lambda>j. bm_fun (moved M z y) a j) k = gf2_sum (\<lambda>j. bxor (bm_fun M a j) (bit_at z a \<and> bit_at y j)) k"
    by (rule gf2_sum_cong) (use t in \<open>simp_all add: moved_spec(2) [OF M]\<close>)
  also have "\<dots> = gf2_sum (\<lambda>j. bm_fun M a j) k" unfolding gf2_sum_xor gf2_sum_conj_left using e by simp
  finally show ?thesis .
qed

text \<open>Padding to an even weight.\<close>

lemma pad_gf2:
  assumes "\<And>j. j < k \<Longrightarrow> g j = f j" "\<not> g k"
  shows "gf2_sum g (Suc k) = gf2_sum f k"
  using gf2_sum_cong [of k k g f] assms by simp

lemma padded_neutral:
  assumes M: "bm_ok n k M" and y: "row_ok k y" and odd: "gf2_sum (bit_at y) k"
    and o: "\<And>i. i < n \<Longrightarrow> orth k (bit_at y) (bm_fun M i)"
    and x: "\<And>t. t \<in> set (combinations3 [0..<n]) \<Longrightarrow> orth k (bit_at y) (chi_fun M z t)"
  shows "neutral n (Suc k) (push_zeros_column M) z (y @ [1])"
proof -
  note p = push_zeros_spec [OF M]
  have ly: "length y = k" using y by (simp add: row_ok_def)
  have b: "bit_at (y @ [1]) j = bit_at y j" if "j < k" for j using that ly by (simp add: bit_at_def nth_append)
  have bk: "bit_at (y @ [1]) k" using ly by (simp add: bit_at_def nth_append)
  have "\<not> gf2_sum (bit_at (y @ [1])) (Suc k)" using odd bk gf2_sum_cong [of k k "bit_at (y @ [1])" "bit_at y"] b by simp
  moreover have "orth (Suc k) (bit_at (y @ [1])) (bm_fun (push_zeros_column M) i)" if "i < n" for i
  proof -
    have "gf2_sum (\<lambda>j. bit_at (y @ [1]) j \<and> bm_fun (push_zeros_column M) i j) (Suc k) = gf2_sum (\<lambda>j. bit_at y j \<and> bm_fun M i j) k"
      by (rule pad_gf2) (use that p b in auto)
    then show ?thesis using o [OF that] by (simp add: orth_def)
  qed
  moreover have "orth (Suc k) (bit_at (y @ [1])) (chi_fun (push_zeros_column M) z t)" if t: "t \<in> set (combinations3 [0..<n])" for t
  proof -
    obtain a b' c where [simp]: "t = (a, b', c)" by (metis surj_pair)
    have abc: "a < n" "b' < n" "c < n" using t in_combinations3 [of "[0..<n]" a b' c] by auto
    have "gf2_sum (\<lambda>j. bit_at (y @ [1]) j \<and> chi_fun (push_zeros_column M) z t j) (Suc k) = gf2_sum (\<lambda>j. bit_at y j \<and> chi_fun M z t j) k"
      by (rule pad_gf2) (use abc p b in \<open>auto simp: chi_fun_def\<close>)
    then show ?thesis using x [OF t] by (simp add: orth_def)
  qed
  moreover have "row_ok (Suc k) (y @ [1])" using y by (auto simp: row_ok_def)
  ultimately show ?thesis using p(1) by (simp add: neutral_def)
qed

section \<open>Cancelling equal terms\<close>

lemma count_term_wsum: "wsum w (count_term r al) = wsum w al + of_bool (w r)"
  by (induction al) (auto split: prod.splits)

lemma count_term_keys: "set (map fst (count_term r al)) = insert r (set (map fst al))"
  "distinct (map fst al) \<Longrightarrow> distinct (map fst (count_term r al))"
proof -
  show *: "set (map fst (count_term r al)) = insert r (set (map fst al))" for al
  proof (induction al)
    case (Cons x al)
    then show ?case by (cases x) (simp add: insert_commute)
  qed simp
  show "distinct (map fst al) \<Longrightarrow> distinct (map fst (count_term r al))"
  proof (induction al)
    case (Cons x al)
    then show ?case using * [of al] by (cases x) auto
  qed simp
qed

lemma term_counts_snoc: "term_counts (rows @ [r]) = (if row_sum r = 0 then term_counts rows else count_term r (term_counts rows))"
  by (simp add: term_counts_def)

lemma term_counts_wsum: "wsum w (term_counts rows) = int (cnt (\<lambda>r. w r \<and> row_sum r \<noteq> 0) rows)"
proof (induction rows rule: rev_induct)
  case Nil
  then show ?case by (simp add: term_counts_def)
next
  case (snoc r rows)
  then show ?case by (simp add: term_counts_snoc count_term_wsum)
qed

lemma term_counts_keys: "distinct (map fst (term_counts rows))" "set (map fst (term_counts rows)) \<subseteq> {r \<in> set rows. row_sum r \<noteq> 0}"
proof (induction rows rule: rev_induct)
  case Nil
  show "distinct (map fst (term_counts []))" "set (map fst (term_counts [])) \<subseteq> {r \<in> set []. row_sum r \<noteq> 0}"
    by (simp_all add: term_counts_def)
next
  case (snoc r rows)
  then show "distinct (map fst (term_counts (rows @ [r])))"
      "set (map fst (term_counts (rows @ [r]))) \<subseteq> {x \<in> set (rows @ [r]). row_sum x \<noteq> 0}"
    using count_term_keys [where r = r and al = "term_counts rows"] by (auto simp: term_counts_snoc simp del: set_map)
qed

definition odd_terms :: "row list \<Rightarrow> row list" where
  "odd_terms rows = map fst (filter (\<lambda>(r, k). k mod 2 = 1) (term_counts rows))"

lemma odd_terms_set: "set (odd_terms rows) \<subseteq> {r \<in> set rows. row_sum r \<noteq> 0}"
  using term_counts_keys(2) [of rows] by (auto simp: odd_terms_def)

lemma odd_terms_parity:
  assumes "\<And>r. r \<in> set rows \<Longrightarrow> w r \<Longrightarrow> row_sum r \<noteq> 0"
  shows "odd (cnt w (odd_terms rows)) = odd (cnt w rows)"
proof -
  have "odd (cnt w (map fst (filter (\<lambda>(r, k). k mod 2 = 1) al))) = odd (wsum w al)" for al :: "(row \<times> nat) list"
    by (induction al) auto
  moreover have "cnt (\<lambda>r. w r \<and> row_sum r \<noteq> 0) rows = cnt w rows"
    by (rule cnt_cong) (use assms in auto)
  ultimately show ?thesis using term_counts_wsum [of w rows] by (simp add: odd_terms_def)
qed

lemma wsum_filter_odd: "int (length (filter (\<lambda>(r, k). k mod 2 = 1) al)) \<le> wsum (\<lambda>_. True) al"
proof (induction al)
  case (Cons x al)
  then show ?case by (cases x) (auto split: if_splits intro: order_trans)
qed simp

lemma wsum_filter_odd2: "(r, c) \<in> set al \<Longrightarrow> 2 \<le> c \<Longrightarrow> int (length (filter (\<lambda>(r, k). k mod 2 = 1) al)) + 2 \<le> wsum (\<lambda>_. True) al"
proof (induction al)
  case (Cons x al)
  obtain r' c' where x: "x = (r', c')" by fastforce
  have step: "int (of_bool (c' mod 2 = 1)) \<le> int c'" by (cases "c' = 0") auto
  show ?case
  proof (cases "(r, c) = x")
    case True
    then have "int (of_bool (c' mod 2 = 1)) + 2 \<le> int c'" using Cons.prems(2) x by (cases "c' = 2") auto
    then show ?thesis using wsum_filter_odd [of al] by (auto simp: x)
  next
    case False
    then show ?thesis using Cons step by (auto simp: x)
  qed
qed simp

lemma wsum_distinct: "distinct (map fst al) \<Longrightarrow> 0 < wsum (\<lambda>k. k = r) al \<Longrightarrow> (r, nat (wsum (\<lambda>k. k = r) al)) \<in> set al"
proof (induction al)
  case (Cons x al)
  obtain r' c' where x: "x = (r', c')" by fastforce
  have "r \<notin> set (map fst al) \<Longrightarrow> wsum (\<lambda>k. k = r) al = 0" by (induction al) auto
  with Cons show ?case by (cases "r' = r") (auto simp: x)
qed simp

lemma cnt_le: "cnt p xs \<le> length xs"
  by (simp add: cnt_def)

lemma cnt_two: "a < b \<Longrightarrow> b < length xs \<Longrightarrow> p (xs ! a) \<Longrightarrow> p (xs ! b) \<Longrightarrow> 2 \<le> cnt p xs"
proof (induction xs arbitrary: a b)
  case (Cons x xs)
  have one: "1 \<le> cnt p xs" if "i < length xs" "p (xs ! i)" for i
    using that nth_mem [OF that(1)] by (auto simp: cnt_def Suc_le_eq filter_empty_conv)
  obtain b' where b: "b = Suc b'" using Cons.prems(1) by (cases b) auto
  show ?case
  proof (cases a)
    case 0
    then show ?thesis using Cons.prems one [of b'] by (simp add: b)
  next
    case (Suc a')
    then show ?thesis using Cons.IH [of a' b'] Cons.prems by (simp add: b)
  qed
qed simp

lemma odd_terms_shrink:
  assumes "a < b" "b < length rows" "rows ! a = rows ! b"
  shows "length (odd_terms rows) + 2 \<le> length rows"
proof -
  let ?al = "term_counts rows"
  have l: "length (odd_terms rows) = length (filter (\<lambda>(r, k). k mod 2 = 1) ?al)" by (simp add: odd_terms_def)
  have total: "wsum (\<lambda>_. True) ?al = int (cnt (\<lambda>r. row_sum r \<noteq> 0) rows)" using term_counts_wsum [of "\<lambda>_. True" rows] by simp
  show ?thesis
  proof (cases "row_sum (rows ! a) = 0")
    case True
    have "cnt (\<lambda>r. row_sum r \<noteq> 0) rows + cnt (\<lambda>r. row_sum r = 0) rows = length rows"
      by (simp add: cnt_def sum_length_filter_compl [of "\<lambda>r. row_sum r \<noteq> 0", simplified])
    moreover have "2 \<le> cnt (\<lambda>r. row_sum r = 0) rows" using assms True by (intro cnt_two [of a b]) auto
    ultimately show ?thesis using wsum_filter_odd [of ?al] total l by linarith
  next
    case False
    let ?r = "rows ! a"
    have "wsum (\<lambda>k. k = ?r) ?al = int (cnt (\<lambda>r. r = ?r \<and> row_sum r \<noteq> 0) rows)" by (rule term_counts_wsum)
    moreover have "2 \<le> cnt (\<lambda>r. r = ?r \<and> row_sum r \<noteq> 0) rows" using assms False by (intro cnt_two [of a b]) auto
    ultimately have c: "2 \<le> wsum (\<lambda>k. k = ?r) ?al" by simp
    then have "(?r, nat (wsum (\<lambda>k. k = ?r) ?al)) \<in> set ?al" by (intro wsum_distinct term_counts_keys) auto
    then have "int (length (odd_terms rows)) + 2 \<le> wsum (\<lambda>_. True) ?al"
      unfolding l by (rule wsum_filter_odd2) (use c in simp)
    then show ?thesis using total cnt_le [of "\<lambda>r. row_sum r \<noteq> 0" rows] by linarith
  qed
qed

end
