(* ===== verification/ToddExtraction.thy ===== *)
theory ToddExtraction
  imports ToddPolynomial
begin

text \<open>
  Diagonal operators multiply each basis state by a factor. The factor of a list of rotations by
  \<open>\<pi>/4\<close> is given by the number of odd parities, and the one of the operators extracted from a
  multilinear polynomial by its value, so the extraction is correct whenever it succeeds.
\<close>

section \<open>Operators that multiply\<close>

definition multiplies :: "(qvec \<Rightarrow> qvec) \<Rightarrow> (qstate \<Rightarrow> complex) \<Rightarrow> bool" where
  "multiplies F \<phi> \<longleftrightarrow> (\<forall>v b. F v b = \<phi> b * v b)"

lemma multiplies_comp: "multiplies F \<phi> \<Longrightarrow> multiplies G \<psi> \<Longrightarrow> multiplies (\<lambda>v. F (G v)) (\<lambda>b. \<psi> b * \<phi> b)"
  by (simp add: multiplies_def)

lemma multiplies_id: "multiplies (\<lambda>v. v) (\<lambda>b. 1)"
  by (simp add: multiplies_def)

lemma multiplies_unique: "multiplies F \<phi> \<Longrightarrow> multiplies G \<phi> \<Longrightarrow> F v = G v"
  by (simp add: multiplies_def fun_eq_iff)

lemma multiplies_cong: "multiplies F \<phi> \<Longrightarrow> (\<And>b. \<phi> b = \<psi> b) \<Longrightarrow> multiplies F \<psi>"
  by (simp add: multiplies_def)

definition eighth :: "int \<Rightarrow> complex" where
  "eighth k = cis (pi * real_of_int k / 4)"

lemma eighth_add: "eighth (a + b) = eighth a * eighth b"
  by (simp add: eighth_def cis_mult ring_distribs add_divide_distrib)

lemma eighth_mult8: "eighth (8 * k) = 1"
proof -
  have "pi * real_of_int (8 * k) / 4 = 2 * pi * real_of_int k" by simp
  then show ?thesis unfolding eighth_def by (simp only: cis_multiple_2pi Ints_of_int)
qed

lemma eighth_cong: "a = b + 8 * k \<Longrightarrow> eighth a = eighth b"
  by (simp add: eighth_add eighth_mult8)

lemma eighth_values: "eighth 0 = 1" "eighth 2 = \<i>" "eighth 4 = -1" "eighth (- 4) = -1" "eighth 6 = - \<i>"
proof -
  have h: "cis (pi / 2) = \<i>" "cis (- (pi / 2)) = - \<i>" by (simp_all add: complex_eq_iff)
  show "eighth 0 = 1" "eighth 2 = \<i>" and e4: "eighth 4 = -1" by (simp_all add: eighth_def h)
  have "eighth (- 4) = eighth 4" by (rule eighth_cong [of _ _ "- 1"]) simp
  then show "eighth (- 4) = -1" using e4 by simp
  have "eighth 6 = eighth (-2)" by (rule eighth_cong [of _ _ 1]) simp
  then show "eighth 6 = - \<i>" by (simp add: eighth_def h)
qed

section \<open>Rotations around diagonal products\<close>

lemma q_pauli_diagonal:
  assumes P: "pp_ok n P" "is_diagonal P" "\<not> is_neg P"
  shows "q_pauli P v b = (if odd (cnt b (filter (is_z_set P) [0..<n])) then - v b else v b)"
proof -
  have x: "\<not> is_x_set P i" if "i < n" for i using P that by (simp add: diag_iff)
  have n: "pp_n_qubits P = n" using P by (simp add: pp_ok_def)
  have s: "act_state P b = b" by (auto simp: act_state_def fun_eq_iff n x)
  have "phase_sum P b = (\<Sum>i<n. 2 * of_bool (is_z_set P i \<and> b i))"
    unfolding phase_sum_def n by (rule sum.cong) (auto simp: local_phase_def x)
  also have "\<dots> = 2 * cnt b (filter (is_z_set P) [0..<n])"
    by (induction n) auto
  finally have "act_phase P b mod 4 = (2 * cnt b (filter (is_z_set P) [0..<n])) mod 4" by (simp add: act_phase_def P(3))
  then have "\<i> ^ act_phase P b = \<i> ^ (2 * cnt b (filter (is_z_set P) [0..<n]))" by (rule i_power_cong)
  then show ?thesis by (simp add: q_pauli_def s power_mult)
qed

lemma rot_op_quarter:
  assumes R: "rot_ok n R" "rot_is_diagonal R" "rot_phase R = mk_phase 1 4"
  shows "multiplies (rot_op R) (\<lambda>b. eighth (of_bool (parity R b)))"
proof -
  have n: "rot_n_qubits R = n" using R(1) by (auto simp: rot_ok_def pp_ok_def rot_n_qubits_def)
  have "q_pauli (rot_product R) v b = (if parity R b then - v b else v b)" for v b
    using q_pauli_diagonal [of n "rot_product R"] rot_okD [OF R(1)] R(2) by (simp add: parity_def ones_def n rot_is_diagonal_def)
  then show ?thesis
    by (auto simp: multiplies_def rot_op_def q_rot_def vplus_def vscale_def R(3) phase_angle_def mk_quarter eighth_def of_rat_divide field_simps)
qed

lemma rots_op_quarter: "rots_ok n rs \<Longrightarrow> quarter_turns rs \<Longrightarrow> multiplies (rots_op rs) (\<lambda>b. eighth (int (n_odd rs b)))"
proof (induction rs)
  case Nil
  then show ?case by (simp add: multiplies_def eighth_values)
next
  case (Cons R rs)
  have "multiplies (\<lambda>v. rots_op rs (rot_op R v)) (\<lambda>b. eighth (of_bool (parity R b)) * eighth (int (n_odd rs b)))"
    using Cons by (intro multiplies_comp [of "rots_op rs" _ "rot_op R"] rot_op_quarter) auto
  then show ?case by (simp add: multiplies_def eighth_add)
qed

section \<open>The gates of the correction\<close>

lemma s_diagonal: "pp_ok n P \<Longrightarrow> is_diagonal P \<Longrightarrow> q < n \<Longrightarrow> pp_s q P = P"
  by (rule pp_eqI) (auto simp: pp_ok_def bit_simps diag_iff [unfolded pp_ok_def])

lemma cz_diagonal: "pp_ok n P \<Longrightarrow> is_diagonal P \<Longrightarrow> i < n \<Longrightarrow> j < n \<Longrightarrow> i \<noteq> j \<Longrightarrow> trait_cz pp_trait i j P = P"
  by (rule pp_eqI) (auto simp: trait_cz_def pp_ok_def bit_simps bxor_def diag_iff [unfolded pp_ok_def])

lemma diag_gates:
  assumes "i < n"
  shows "diag_string n [(COT_s, i, 0)]" "diag_string n [(COT_z, i, 0)]" "diag_string n [(COT_sdg, i, 0)]"
    "j < n \<Longrightarrow> i \<noteq> j \<Longrightarrow> diag_string n [(COT_cz, i, j)]"
  using assms by (auto simp: diag_string_def trait_z_def trait_sdg_def s_diagonal cz_diagonal)

lemma s_multiplies: "multiplies (q_s i) (\<lambda>b. eighth (2 * of_bool (b i)))"
  by (auto simp: multiplies_def q_s_def eighth_values)

lemma cz_multiplies:
  assumes "i \<noteq> j"
  shows "multiplies (trait_cz q_trait i j) (\<lambda>b. eighth (- 4 * of_bool (b i \<and> b j)))"
proof -
  have r: "complex_of_real (sqrt 2) * complex_of_real (sqrt 2) = 2" by (rule sqrt2_sq)
  have "trait_cz q_trait i j v b = (if b i \<and> b j then - v b else v b)" for v b
  proof -
    have u: "\<not> b j \<Longrightarrow> b(j := False) = b" "b j \<Longrightarrow> b(j := True) = b" by (auto simp: fun_eq_iff)
    show ?thesis
      using assms r
      by (cases "b i"; cases "b j")
        (auto simp: u trait_cz_def q_h_def q_cx_def cx_state_def bxor_def fun_upd_twist field_simps)
  qed
  then show ?thesis by (auto simp: multiplies_def eighth_values)
qed

section \<open>Well-formed polynomials\<close>

definition mlp_ok :: "nat \<Rightarrow> multi_linear_polynomial \<Rightarrow> bool" where
  "mlp_ok n p \<longleftrightarrow> (\<forall>(i, c) \<in> set (linear_terms p). i < n \<and> c < 8) \<and>
     (\<forall>(k, c) \<in> set (quadratic_terms p). (fst k < snd k \<and> snd k < n) \<and> c < 4)"

lemma bump_keys: "0 < m \<Longrightarrow> \<forall>(k, c) \<in> set al. K k \<and> c < m \<Longrightarrow> K key \<Longrightarrow> \<forall>(k, c) \<in> set (bump m d key al). K k \<and> c < m"
  by (induction m d key al rule: bump.induct) auto

lemma bumps_keys:
  "0 < m \<Longrightarrow> \<forall>(k, c) \<in> set al. K k \<and> c < m \<Longrightarrow> \<forall>k \<in> set ks. K k \<Longrightarrow> \<forall>(k, c) \<in> set (fold (bump m d) ks al). K k \<and> c < m"
proof (induction ks arbitrary: al)
  case (Cons k ks)
  then have "\<forall>(k, c) \<in> set (bump m d k al). K k \<and> c < m" by (intro bump_keys) auto
  with Cons show ?case by simp
qed simp

lemma combinations2_sorted: "sorted_wrt (<) xs \<Longrightarrow> (i, j) \<in> set (combinations2 xs) \<Longrightarrow> i < j \<and> i \<in> set xs \<and> j \<in> set xs"
  by (induction xs) auto

lemma ones_props: "rot_ok n R \<Longrightarrow> i \<in> set (ones R) \<Longrightarrow> i < n" "sorted_wrt (<) (ones R)"
  by (auto simp: ones_def rot_n_qubits_def rot_ok_def pp_ok_def intro: sorted_wrt_filter)

lemma add_rotation_ok: "mlp_ok n p \<Longrightarrow> rot_ok n R \<Longrightarrow> mlp_ok n (add_rotation subtract R p)"
proof -
  assume p: "mlp_ok n p" and R: "rot_ok n R"
  have "\<forall>(i, c) \<in> set (fold (bump 8 d) (ones R) (linear_terms p)). i < n \<and> c < 8" for d
    by (rule bumps_keys) (use p ones_props(1) [OF R] in \<open>auto simp: mlp_ok_def\<close>)
  moreover have "\<forall>(k, c) \<in> set (fold (bump 4 d) (combinations2 (ones R)) (quadratic_terms p)). (fst k < snd k \<and> snd k < n) \<and> c < 4" for d
    by (rule bumps_keys)
      (use p ones_props(1) [OF R] combinations2_sorted [OF ones_props(2) [of R]] in \<open>auto simp: mlp_ok_def\<close>)
  ultimately show ?thesis using p by (simp add: mlp_ok_def add_rotation_def)
qed

lemma add_rotations_ok: "mlp_ok n p \<Longrightarrow> rots_ok n rs \<Longrightarrow> mlp_ok n (add_rotations subtract rs p)"
  by (induction rs arbitrary: p) (auto simp: add_rotations_def add_rotation_ok)

lemma empty_polynomial_ok: "mlp_ok n empty_polynomial" "mlp_value empty_polynomial b = 0"
  by (simp_all add: mlp_ok_def empty_polynomial_def mlp_value_def)

section \<open>Extraction\<close>

lemma linear_gate_spec:
  assumes "i < n" "c < 8" "even c"
  shows "diag_string n (linear_gate (i, c))"
    "multiplies (trait_apply_string q_trait (linear_gate (i, c))) (\<lambda>b. eighth (int c * of_bool (b i)))"
proof -
  have "c = 0 \<or> c = 2 \<or> c = 4 \<or> c = 6" using assms(2,3) by presburger
  then consider "c = 0" | "c = 2" | "c = 4" | "c = 6" by blast
  then show "diag_string n (linear_gate (i, c))"
    "multiplies (trait_apply_string q_trait (linear_gate (i, c))) (\<lambda>b. eighth (int c * of_bool (b i)))"
    using diag_gates [OF assms(1)]
    by (cases; simp add: linear_gate_def diag_string_Nil multiplies_def trait_z_def trait_sdg_def q_s_def eighth_values)+
qed

lemma quadratic_gate_spec:
  assumes "i < j" "j < n" "c < 4" "even c"
  shows "diag_string n (quadratic_gate ((i, j), c))"
    "multiplies (trait_apply_string q_trait (quadratic_gate ((i, j), c))) (\<lambda>b. eighth (- 2 * (int c * of_bool (b i \<and> b j))))"
proof -
  have "c = 0 \<or> c = 2" using assms(3,4) by presburger
  then consider "c = 0" | "c = 2" by blast
  then show "diag_string n (quadratic_gate ((i, j), c))"
    "multiplies (trait_apply_string q_trait (quadratic_gate ((i, j), c))) (\<lambda>b. eighth (- 2 * (int c * of_bool (b i \<and> b j))))"
    using diag_gates(4) [of i n j] cz_multiplies [of i j] assms
    by (cases; simp add: quadratic_gate_def diag_string_Nil multiplies_def eighth_values)+
qed

lemma concat_gates:
  assumes "\<And>t. t \<in> set ts \<Longrightarrow> diag_string n (g t) \<and> multiplies (trait_apply_string q_trait (g t)) (\<lambda>b. eighth (w t b))"
  shows "diag_string n (concat (map g ts)) \<and>
    multiplies (trait_apply_string q_trait (concat (map g ts))) (\<lambda>b. eighth (\<Sum>t \<leftarrow> ts. w t b))"
  using assms
proof (induction ts)
  case Nil
  then show ?case by (simp add: diag_string_Nil multiplies_def eighth_values)
next
  case (Cons t ts)
  then have "diag_string n (g t)" "diag_string n (concat (map g ts))"
    and m: "multiplies (trait_apply_string q_trait (g t)) (\<lambda>b. eighth (w t b))"
      "multiplies (trait_apply_string q_trait (concat (map g ts))) (\<lambda>b. eighth (\<Sum>t \<leftarrow> ts. w t b))" by auto
  then show ?case using multiplies_comp [OF m(2,1)] by (simp add: diag_string_append multiplies_def eighth_add)
qed

lemma mlp_extract_spec:
  assumes p: "mlp_ok n p" and e: "mlp_extract_clifford_operators p = Some d"
  shows "diag_string n d" "multiplies (trait_apply_string q_trait d) (\<lambda>b. eighth (mlp_value p b))"
proof -
  let ?l = "concat (map linear_gate (linear_terms p))" and ?q = "concat (map quadratic_gate (quadratic_terms p))"
  have c: "mlp_is_clifford p" and d: "d = ?l @ ?q" using e by (auto simp: mlp_extract_clifford_operators_def split: if_splits)
  have l: "diag_string n ?l \<and> multiplies (trait_apply_string q_trait ?l)
      (\<lambda>b. eighth (\<Sum>t \<leftarrow> linear_terms p. case t of (i, c) \<Rightarrow> int c * of_bool (b i)))"
  proof (rule concat_gates)
    fix t assume t: "t \<in> set (linear_terms p)"
    obtain i k where [simp]: "t = (i, k)" by fastforce
    have "i < n" "k < 8" "even k" using p c t by (auto simp: mlp_ok_def mlp_is_clifford_def list_all_iff)
    then show "diag_string n (linear_gate t) \<and> multiplies (trait_apply_string q_trait (linear_gate t))
        (\<lambda>b. eighth (case t of (i, c) \<Rightarrow> int c * of_bool (b i)))"
      using linear_gate_spec [of i n k] by simp
  qed
  have q: "diag_string n ?q \<and> multiplies (trait_apply_string q_trait ?q)
      (\<lambda>b. eighth (\<Sum>t \<leftarrow> quadratic_terms p. case t of (k, c) \<Rightarrow> - 2 * (int c * of_bool (both b k))))"
  proof (rule concat_gates)
    fix t assume t: "t \<in> set (quadratic_terms p)"
    obtain i j k where [simp]: "t = ((i, j), k)" by (metis surj_pair)
    have "i < j" "j < n" "k < 4" "even k" using p c t by (auto simp: mlp_ok_def mlp_is_clifford_def list_all_iff)
    then show "diag_string n (quadratic_gate t) \<and> multiplies (trait_apply_string q_trait (quadratic_gate t))
        (\<lambda>b. eighth (case t of (k, c) \<Rightarrow> - 2 * (int c * of_bool (both b k))))"
      using quadratic_gate_spec [of i j n k] by (simp add: both_def)
  qed
  show "diag_string n d" using l q by (simp add: d diag_string_append)
  have w: "(\<Sum>t \<leftarrow> ts. case t of (k, c) \<Rightarrow> - 2 * (int c * of_bool (both b k))) = - 2 * wsum (both b) ts" for ts b
    by (induction ts) auto
  have "mlp_value p b = wsum b (linear_terms p) + (- 2 * wsum (both b) (quadratic_terms p))" for b
    using c by (simp add: mlp_value_def mlp_is_clifford_def)
  then show "multiplies (trait_apply_string q_trait d) (\<lambda>b. eighth (mlp_value p b))"
    using multiplies_comp [OF conjunct2 [OF q] conjunct2 [OF l]]
    by (simp only: multiplies_def d trait_apply_string_simps w wsum_def [symmetric] eighth_add simp_thms)
qed

text \<open>Adding the old rotations, subtracting the new ones and extracting gives the operator between them.\<close>

lemma difference_correct:
  assumes rs: "rots_ok n rs" "quarter_turns rs" and rs': "rots_ok n rs'" "quarter_turns rs'"
    and e: "mlp_extract_clifford_operators (add_rotations True rs' (add_rotations False rs empty_polynomial)) = Some d"
  shows "diag_string n d" "rots_op rs v = rots_op rs' (trait_apply_string q_trait d v)"
proof -
  let ?p = "add_rotations True rs' (add_rotations False rs empty_polynomial)"
  have ok: "mlp_ok n ?p" using rs rs' by (intro add_rotations_ok empty_polynomial_ok)
  show "diag_string n d" by (rule mlp_extract_spec(1) [OF ok e])
  have m: "multiplies (\<lambda>v. rots_op rs' (trait_apply_string q_trait d v)) (\<lambda>b. eighth (mlp_value ?p b) * eighth (int (n_odd rs' b)))"
    by (rule multiplies_comp [OF rots_op_quarter [OF rs'] mlp_extract_spec(2) [OF ok e]])
  have "eighth (mlp_value ?p b) * eighth (int (n_odd rs' b)) = eighth (int (n_odd rs b))" for b
  proof -
    obtain i where i: "mlp_value (add_rotations False rs empty_polynomial) b = int (n_odd rs b) + 8 * i"
      using add_rotations_value [OF rs(2), of False empty_polynomial b] by (auto simp: empty_polynomial_ok)
    obtain j where "mlp_value ?p b = mlp_value (add_rotations False rs empty_polynomial) b - int (n_odd rs' b) + 8 * j"
      using add_rotations_value [OF rs'(2), of True "add_rotations False rs empty_polynomial" b] by auto
    then have "mlp_value ?p b + int (n_odd rs' b) = int (n_odd rs b) + 8 * (i + j)" using i by simp
    from eighth_cong [OF this] show ?thesis by (simp add: eighth_add)
  qed
  then have "multiplies (\<lambda>v. rots_op rs' (trait_apply_string q_trait d v)) (\<lambda>b. eighth (int (n_odd rs b)))"
    using m by (simp add: multiplies_def)
  then show "rots_op rs v = rots_op rs' (trait_apply_string q_trait d v)"
    using multiplies_unique [OF rots_op_quarter [OF rs]] by blast
qed

end
