(* ===== verification/DiagonalProperize.thy ===== *)
theory DiagonalProperize
  imports ToddExtraction
begin

text \<open>
  \<open>properize\<close> on diagonal rotations: the strings it moves to the front are diagonal, so it leaves the
  products alone, and phases that are multiples of \<open>\<pi>/4\<close> become exactly \<open>\<pi>/4\<close>.
\<close>

section \<open>Strings of diagonal rotations\<close>

definition cx_only :: "clifford_string \<Rightarrow> bool" where
  "cx_only xs \<longleftrightarrow> (\<forall>x \<in> set xs. fst x = COT_cx)"

lemma cx_only_diagonal:
  "cx_only xs \<Longrightarrow> string_ok n xs \<Longrightarrow> pp_ok n P \<Longrightarrow> is_diagonal P \<Longrightarrow>
    pp_ok n (trait_apply_string pp_trait xs P) \<and> is_diagonal (trait_apply_string pp_trait xs P)"
proof (induction xs arbitrary: P)
  case (Cons x xs)
  obtain c t where x: "x = (COT_cx, c, t)" using Cons.prems(1) by (cases x) (auto simp: cx_only_def)
  have ct: "c < n" "t < n" "c \<noteq> t" using Cons.prems(2) by (auto simp: x)
  have "pp_ok n (pp_cx c t P)" using Cons.prems ct by (simp add: pp_ok_def bit_simps)
  moreover from this have "is_diagonal (pp_cx c t P)"
    using Cons.prems ct by (auto simp: diag_iff [of n] pp_cx_bits pp_ok_def)
  ultimately show ?case using Cons by (simp add: x cx_only_def)
qed simp

lemma basis_change_diagonal: "is_diagonal P \<Longrightarrow> basis_change_ops P = []"
  by (auto simp: basis_change_ops_def is_diagonal_def list_all_iff is_i_def is_z_def get_pauli_type_def)

lemma rotation_string_diagonal:
  assumes R: "rot_ok n R" "rot_is_diagonal R"
  shows "diag_string n (rotation_string R)"
proof (cases "rot_extract_clifford_operators R")
  case None
  then show ?thesis by (simp add: rotation_string_def diag_string_Nil)
next
  case (Some s)
  then obtain ops q where e: "rot_extract_clifford_operators R = Some (ops, q)" by fastforce
  then have ops: "ops = cx_chain (non_i_qubits (rot_product R))"
    using R(2) by (auto simp: rot_extract_clifford_operators_def Let_def basis_change_diagonal rot_is_diagonal_def split: if_splits)
  have cx: "cx_only ops" "cx_only (adjoint_string ops)" by (auto simp: ops cx_only_def cx_chain_def adjoint_string_def adjoint_op_def)
  have ok: "string_ok n ops" "q < n" using rot_extract_spec(2) [OF R(1) e] by auto
  let ?g = "quarter_gate (rot_phase R) q"
  have g: "diag_string n [?g]" using diag_gates(1-3) [OF ok(2)] by (simp add: quarter_gate_def)
  show ?thesis
    unfolding diag_string_def
  proof (intro conjI allI impI)
    show "string_ok n (rotation_string R)" by (rule rotation_string_ok [OF R(1)])
    fix P assume P: "pp_ok n P" "is_diagonal P"
    let ?Q = "trait_apply_string pp_trait ops P"
    have Q: "pp_ok n ?Q" "is_diagonal ?Q" using cx_only_diagonal [OF cx(1) ok(1) P] by auto
    have "trait_apply pp_trait ?g ?Q = ?Q" using g Q by (simp add: diag_string_def)
    then show "trait_apply_string pp_trait (rotation_string R) P = P"
      using pp.apply_adjoint_string [OF P(1) ok(1)] by (simp add: rotation_string_def e)
  qed
qed

section \<open>Multiples of a quarter\<close>

definition quarters :: "rat \<Rightarrow> bool" where
  "quarters x \<longleftrightarrow> (\<exists>k :: int. x = of_int k / 4)"

lemma quarters_mod2: "mod2 x y \<Longrightarrow> quarters y \<Longrightarrow> quarters x"
proof -
  assume "mod2 x y" "quarters y"
  then obtain j k :: int where "x = y + 2 * of_int j" "y = of_int k / 4" unfolding mod2_def quarters_def by blast
  then have "x = of_int (k + 8 * j) / 4" by simp
  then show ?thesis unfolding quarters_def by blast
qed

lemma quarters_add: "quarters x \<Longrightarrow> quarters y \<Longrightarrow> quarters (x + y)"
proof -
  assume "quarters x" "quarters y"
  then obtain j k :: int where "x = of_int j / 4" "y = of_int k / 4" by (auto simp: quarters_def)
  then have "x + y = of_int (j + k) / 4" by (simp add: add_divide_distrib)
  then show ?thesis unfolding quarters_def by blast
qed

lemma quarters_minus: "quarters x \<Longrightarrow> quarters (- x)"
  unfolding quarters_def by (metis of_int_minus minus_divide_left)

lemma quarters_constants: "quarters 0" "quarters (1 / 2)" "quarters (- (1 / 2))" "quarters 1"
  unfolding quarters_def
  by (rule exI [of _ 0], simp, rule exI [of _ 2], simp, rule exI [of _ "- 2"], simp, rule exI [of _ 4], simp)

lemma quarter_multiple_val: "phase_ok ph \<Longrightarrow> quarter_multiple ph \<Longrightarrow> quarters (phase_val ph)"
proof -
  assume ok: "phase_ok ph" and q: "quarter_multiple ph"
  let ?n = "phase_numerator ph" and ?d = "phase_denominator ph"
  have d: "0 < ?d" using ok by (simp add: phase_ok_def canonical_def phase_denominator_def)
  have "?d dvd 4" using q by (simp add: quarter_multiple_def mod_eq_0_iff_dvd)
  then obtain m where m: "4 = ?d * m" by (elim dvdE)
  have "m \<noteq> 0" using m by auto
  have "phase_val ph = of_int ?n / of_int ?d" by (simp add: phase_val_def rat_val_def phase_numerator_def phase_denominator_def)
  also have "\<dots> = of_int (?n * m) / of_int (?d * m)" using \<open>m \<noteq> 0\<close> by simp
  also have "\<dots> = of_int (?n * m) / 4" using m by simp
  finally show ?thesis unfolding quarters_def by blast
qed

text \<open>Diagonal rotations by multiples of \<open>\<pi>/4\<close>, and what merging does to them.\<close>

definition diag_quarter :: "nat \<Rightarrow> pauli_rotation \<Rightarrow> bool" where
  "diag_quarter n R \<longleftrightarrow> rot_ok n R \<and> rot_is_diagonal R \<and> quarters (phase_val (rot_phase R))"

lemma diag_quarter_phase: "diag_quarter n R \<Longrightarrow> phase_ok ph \<Longrightarrow> quarters (phase_val ph) \<Longrightarrow> diag_quarter n (R\<lparr>rot_phase := ph\<rparr>)"
  by (auto simp: diag_quarter_def rot_is_diagonal_def intro: set_phase_ok)

lemma diag_quarter_plus:
  assumes "diag_quarter n R" "diag_quarter n S"
  shows "diag_quarter n (R\<lparr>rot_phase := phase_plus (rot_phase R) (rot_phase S)\<rparr>)"
proof (rule diag_quarter_phase [OF assms(1)])
  note p = phase_plus_ok [of "rot_phase R" "rot_phase S"]
  have ok: "phase_ok (rot_phase R)" "phase_ok (rot_phase S)" using assms by (auto simp: diag_quarter_def dest: rot_okD(3))
  show "phase_ok (phase_plus (rot_phase R) (rot_phase S))" by (rule p(1) [OF ok])
  show "quarters (phase_val (phase_plus (rot_phase R) (rot_phase S)))"
    by (rule quarters_mod2 [OF p(2) [OF ok]]) (use assms in \<open>auto simp: diag_quarter_def intro: quarters_add\<close>)
qed

lemma diag_quarter_zero: "diag_quarter n R \<Longrightarrow> diag_quarter n (R\<lparr>rot_phase := phase_of_int 0\<rparr>)"
  by (rule diag_quarter_phase) (auto simp: phase_of_int_ok phase_constants quarters_constants)

lemma merge_into_diag:
  "diag_quarter n R \<Longrightarrow> list_all (diag_quarter n) rs \<Longrightarrow>
    diag_quarter n (fst (merge_into R rs)) \<and> list_all (diag_quarter n) (snd (merge_into R rs))"
proof (induction R rs rule: merge_into.induct)
  case (2 R S rest)
  then show ?case by (auto simp: diag_quarter_plus diag_quarter_zero split: prod.splits)
qed simp

lemma merge_rotations_diag: "list_all (diag_quarter n) rs \<Longrightarrow> list_all (diag_quarter n) (merge_rotations rs)"
proof -
  have "list_all (diag_quarter n) rs \<Longrightarrow> list_all (diag_quarter n) (merge_loop rs)"
    by (induction rs rule: merge_loop.induct) (auto dest: merge_into_diag)
  moreover assume "list_all (diag_quarter n) rs"
  ultimately show ?thesis by (auto simp: merge_rotations_def remove_identity_rotations_def list_all_iff)
qed

lemma diag_quarter_list: "list_all (diag_quarter n) rs \<Longrightarrow> rots_ok n rs \<and> diag_rotations rs"
  by (auto simp: list_all_iff diag_quarter_def rots_ok_def diag_rotations_def)

section \<open>The pass\<close>

lemma properize_step_diag:
  assumes rs: "list_all (diag_quarter n) rs" "reducible rs" and i: "i < length rs"
  shows "\<exists>d rs'. diag_string n d \<and> list_all (diag_quarter n) rs' \<and> reducible rs' \<and> length rs' = length rs \<and>
    (\<forall>T. properize_step i (T, rs) = Some (trait_apply_string st_trait d T, rs'))"
proof -
  let ?R = "rs ! i" and ?a = "take i rs" and ?b = "drop (Suc i) rs"
  have R: "diag_quarter n ?R" "\<not> is_identity (rot_product ?R)" using rs i by (auto simp: reducible_def list_all_length)
  then have ok: "rot_ok n ?R" "rot_is_diagonal ?R" "quarters (phase_val (rot_phase ?R))" by (auto simp: diag_quarter_def)
  obtain p c where l: "complement_loop (rot_phase ?R) (phase_of_int 0) = Some (p, c)" "phase_ok p"
    "phase_ok c" "mod2 (phase_val c + phase_val p) (phase_val (rot_phase ?R))" "c = phase_of_int 0 \<or> quarter c"
    using complement_loop_result [OF rot_okD(3) [OF ok(1)]] by blast
  have qc: "quarters (phase_val c)" using l(5) by (auto simp: quarter_def phase_eq_iff phase_constants quarters_constants)
  have "mod2 (phase_val p) (phase_val (rot_phase ?R) + - phase_val c)"
    using mod2_add [OF l(4) mod2_refl [of "- phase_val c"]] by simp
  then have qp: "quarters (phase_val p)" by (rule quarters_mod2) (intro quarters_add ok(3) quarters_minus qc)
  let ?d = "complement_string ?R c"
  note st = properize_step_form [OF ok(1) R(2) i l(1,3,5)]
  have "rot_ok n (?R\<lparr>rot_phase := c\<rparr>)" "rot_is_diagonal (?R\<lparr>rot_phase := c\<rparr>)"
    using ok l(3) by (auto intro: set_phase_ok simp: rot_is_diagonal_def)
  then have d: "diag_string n ?d" by (simp add: complement_string_def diag_string_Nil rotation_string_diagonal)
  have ab: "list_all (diag_quarter n) ?a" "list_all (diag_quarter n) ?b" "reducible ?a" "reducible ?b"
    using rs by (auto simp: list_all_iff reducible_def dest: in_set_takeD in_set_dropD)
  have a: "map (trait_apply_string rot_trait ?d) ?a = ?a"
    by (rule diag_string_rotations [OF d]) (use diag_quarter_list [OF ab(1)] in auto)
  have "list_all (diag_quarter n) (?a @ ?R\<lparr>rot_phase := p\<rparr> # ?b)" using ab diag_quarter_phase [OF R(1) l(2) qp] by simp
  moreover have "reducible (?a @ ?R\<lparr>rot_phase := p\<rparr> # ?b)" using ab R(2) by simp
  ultimately show ?thesis using st(2) d i unfolding a by (intro exI [of _ ?d] exI [of _ "?a @ ?R\<lparr>rot_phase := p\<rparr> # ?b"]) auto
qed

lemma properize_loop_diag:
  "list_all (diag_quarter n) rs \<Longrightarrow> reducible rs \<Longrightarrow> k \<le> length rs \<Longrightarrow>
    \<exists>d rs'. diag_string n d \<and> list_all (diag_quarter n) rs' \<and>
      (\<forall>T. properize_loop (rev [0..<k]) (T, rs) = Some (trait_apply_string st_trait d T, rs'))"
proof (induction k arbitrary: rs)
  case 0
  then show ?case by (intro exI [of _ "[]"] exI [of _ rs]) (simp add: diag_string_Nil)
next
  case (Suc k)
  obtain d rs1 where s: "diag_string n d" "list_all (diag_quarter n) rs1" "reducible rs1" "length rs1 = length rs"
    "\<And>T. properize_step k (T, rs) = Some (trait_apply_string st_trait d T, rs1)"
    using properize_step_diag [of n rs k] Suc.prems by auto
  obtain e rs2 where l: "diag_string n e" "list_all (diag_quarter n) rs2"
    "\<And>T. properize_loop (rev [0..<k]) (T, rs1) = Some (trait_apply_string st_trait e T, rs2)"
    using Suc.IH [of rs1] s Suc.prems by auto
  show ?case
    by (intro exI [of _ "d @ e"] exI [of _ rs2]) (use s l in \<open>simp add: diag_string_append\<close>)
qed

lemma proper_quarter:
  assumes R: "diag_quarter n R" and p: "is_proper_phase (rot_phase R)" "\<not> rot_is_trivial R"
  shows "rot_phase R = mk_phase 1 4"
proof -
  have ok: "phase_ok (rot_phase R)" using R by (auto simp: diag_quarter_def dest: rot_okD(3))
  obtain k :: int where k: "phase_val (rot_phase R) = of_int k / 4" using R by (auto simp: diag_quarter_def quarters_def)
  have "phase_val (rot_phase R) \<noteq> 0"
  proof
    assume "phase_val (rot_phase R) = 0"
    then have "rot_phase R = phase_of_int 0" by (intro phase_eqI ok phase_of_int_ok) (simp add: phase_constants)
    then show False using p(2) by (simp add: rot_is_trivial_def phase_eq_iff)
  qed
  then have "k \<noteq> 0" using k by auto
  moreover have "0 \<le> phase_val (rot_phase R)" "phase_val (rot_phase R) < 1 / 2" using is_proper_phase_val [OF ok] p(1) by auto
  ultimately have "0 < k" "k < 2" using k by (auto simp: field_simps)
  then have v: "phase_val (rot_phase R) = 1 / 4" using k by simp
  show ?thesis by (intro phase_eqI ok mk_phase_ok(1)) (simp, simp only: v phase_constants mod2_refl)
qed

lemma properize_diag:
  assumes rs: "list_all (diag_quarter n) rs"
  shows "\<exists>d rs'. diag_string n d \<and> rots_ok n rs' \<and> quarter_turns rs' \<and> reducible rs' \<and>
    (\<forall>T. properize T rs = Some (trait_apply_string st_trait d T, rs')) \<and>
    op_eq n (rots_op rs) (\<lambda>v. rots_op rs' (trait_apply_string q_trait d v))"
proof -
  let ?m = "merge_rotations rs"
  obtain d rs1 where l: "diag_string n d" "list_all (diag_quarter n) rs1"
    "\<And>T. properize_loop (rev [0..<length ?m]) (T, ?m) = Some (trait_apply_string st_trait d T, rs1)"
    using properize_loop_diag [of n ?m "length ?m"] merge_rotations_diag [OF rs] reducible_merge by auto
  let ?rs' = "remove_identity_rotations rs1"
  have p: "properize T rs = Some (trait_apply_string st_trait d T, ?rs')" for T by (simp add: properize_def Let_def l(3))
  have rok: "rots_ok n rs" using diag_quarter_list [OF rs] by simp
  obtain T' rs'' where r: "properize (st_init n) rs = Some (T', rs'')" "pass_rel n (st_init n, rs) (T', rs'')" "all_proper rs''"
    using properize_rel [OF st_init_ok rok] by blast
  have eq: "T' = circ n d" "rs'' = ?rs'" using r(1) p [of "st_init n"] by (simp_all add: circ_def)
  have dk: "string_ok n d" using l(1) by (simp add: diag_string_def)
  have rs': "rots_ok n ?rs'" using pass_rel_ok(2) [OF r(2)] eq by simp
  have q: "quarter_turns ?rs'"
    unfolding quarter_turns_def
  proof
    fix R assume R: "R \<in> set ?rs'"
    then have "diag_quarter n R" using l(2) by (auto simp: remove_identity_rotations_def list_all_iff)
    then show "rot_is_diagonal R \<and> rot_phase R = mk_phase 1 4"
      using proper_quarter [of n R] r(3) R by (auto simp: eq all_proper_def list_all_iff diag_quarter_def)
  qed
  have "op_eq n (\<lambda>v. rots_op rs (st_op (st_init n) v)) (\<lambda>v. rots_op ?rs' (st_op (circ n d) v))"
    using r(2) by (simp add: pass_rel_def equivalent_def op_eq_def eq)
  moreover have "op_eq n (\<lambda>v. rots_op rs v) (\<lambda>v. rots_op rs (st_op (st_init n) v))"
  proof (rule op_eq_comp [OF op_eq_refl, where G = "\<lambda>v. v"])
    show "op_eq n (\<lambda>v. v) (st_op (st_init n))" using op_eq_sym [OF circ_op [of n "[]"]] by (simp add: circ_Nil op_eq_def)
  qed (use rok in \<open>auto simp: st_init_ok\<close>)
  moreover have "op_eq n (\<lambda>v. rots_op ?rs' (st_op (circ n d) v)) (\<lambda>v. rots_op ?rs' (trait_apply_string q_trait d v))"
    by (rule op_eq_comp [OF op_eq_refl circ_op [OF dk]]) (use rs' dk in auto)
  ultimately have "op_eq n (rots_op rs) (\<lambda>v. rots_op ?rs' (trait_apply_string q_trait d v))" by (blast intro: op_eq_trans)
  moreover have "reducible ?rs'" by (rule reducible_remove)
  ultimately show ?thesis using l(1) rs' q p by blast
qed

end
