(* ===== verification/ToddStrategy.thy ===== *)
theory ToddStrategy
  imports ToddTerms DiagonalProperize
begin

text \<open>
  The TODD strategy as a whole: one round returns rotations by \<open>\<pi>/4\<close> with the same parities and, when
  it finds a move, fewer of them, so the loop ends, the correction is Clifford and the error branch
  is never taken; the result is the operator of the input.
\<close>

section \<open>One round\<close>

definition poly_ok :: "nat \<Rightarrow> pauli_rotation list \<Rightarrow> bool" where
  "poly_ok n rs \<longleftrightarrow> rots_ok n rs \<and> quarter_turns rs"

definition z_bits :: "pauli_rotation \<Rightarrow> nat \<Rightarrow> bool" where
  "z_bits R = is_z_set (rot_product R)"

definition same_signature :: "nat \<Rightarrow> pauli_rotation list \<Rightarrow> pauli_rotation list \<Rightarrow> bool" where
  "same_signature n rs rs' \<longleftrightarrow>
     (\<forall>a < n. odd (cnt (\<lambda>R. z_bits R a) rs) = odd (cnt (\<lambda>R. z_bits R a) rs')) \<and>
     (\<forall>b < n. \<forall>a < b. odd (cnt (\<lambda>R. z_bits R a \<and> z_bits R b) rs) = odd (cnt (\<lambda>R. z_bits R a \<and> z_bits R b) rs')) \<and>
     (\<forall>c < n. \<forall>b < c. \<forall>a < b. odd (cnt (\<lambda>R. z_bits R a \<and> z_bits R b \<and> z_bits R c) rs) =
       odd (cnt (\<lambda>R. z_bits R a \<and> z_bits R b \<and> z_bits R c) rs'))"

lemma same_signature_refl [simp]: "same_signature n rs rs"
  by (simp add: same_signature_def)

lemma same_signature_trans: "same_signature n a b \<Longrightarrow> same_signature n b c \<Longrightarrow> same_signature n a c"
  by (simp add: same_signature_def)

text \<open>The rotation of a row.\<close>

lemma paulis_of_row:
  assumes r: "row_ok n r"
  defines "P \<equiv> pp_of_paulis (map (\<lambda>x. if x = 1 then PZ else PI) r) False"
  shows "pp_ok n P" "\<not> is_neg P" "i < n \<Longrightarrow> is_z_set P i = bit_at r i" "i < n \<Longrightarrow> \<not> is_x_set P i"
proof -
  have len: "length r = n" using r by (simp add: row_ok_def)
  let ?ps = "map (\<lambda>x. if x = 1 then PZ else PI) r"
  let ?I = "\<lambda>k P. pp_ok n P \<and> \<not> is_neg P \<and> (\<forall>i < n. \<not> is_x_set P i \<and> is_z_set P i = (i < k \<and> bit_at r i))"
  have "?I n (fold (\<lambda>i P. set_pauli_type i (?ps ! i) P) [0..<n] (pp_blank n))"
  proof (rule fold_upt_induct [where I = ?I])
    fix k P assume k: "0 \<le> k" "k < n" and I: "?I k P"
    then show "?I (Suc k) (set_pauli_type k (?ps ! k) P)"
      using len by (cases "r ! k = 1") (auto simp: pp_ok_def bit_at_def less_Suc_eq)
  qed (auto simp: pp_ok_def)
  then show "pp_ok n P" "\<not> is_neg P" "i < n \<Longrightarrow> is_z_set P i = bit_at r i" "i < n \<Longrightarrow> \<not> is_x_set P i"
    by (auto simp: P_def pp_of_paulis_def len Let_def pp_ok_def)
qed

definition row_rotation :: "row \<Rightarrow> pauli_rotation" where
  "row_rotation r = rotation_of_paulis (map (\<lambda>x. if x = 1 then PZ else PI) r) (mk_phase 1 4)"

lemma row_rotation_spec:
  assumes r: "row_ok n r"
  shows "rot_ok n (row_rotation r)" "rot_is_diagonal (row_rotation r)" "rot_phase (row_rotation r) = mk_phase 1 4"
    "i < n \<Longrightarrow> z_bits (row_rotation r) i = bit_at r i"
proof -
  define P where "P = pp_of_paulis (map (\<lambda>x. if x = 1 then PZ else PI) r) False"
  note p = paulis_of_row [OF r, folded P_def]
  have e: "row_rotation r = \<lparr>rot_product = P, rot_phase = mk_phase 1 4\<rparr>"
    unfolding row_rotation_def rotation_of_paulis_def P_def [symmetric] using p(2) by (simp add: mk_rotation_def rot_normalize_def)
  show "rot_ok n (row_rotation r)" "rot_is_diagonal (row_rotation r)" "rot_phase (row_rotation r) = mk_phase 1 4"
    "i < n \<Longrightarrow> z_bits (row_rotation r) i = bit_at r i"
    using p by (simp_all add: e rot_ok_def mk_phase_ok rot_is_diagonal_def diag_iff [OF p(1)] z_bits_def)
qed

lemma from_boolean_matrix_rows: "from_boolean_matrix M = map row_rotation (odd_terms (bm_rows M))"
  by (simp add: from_boolean_matrix_def odd_terms_def row_rotation_def [abs_def])

lemma from_boolean_matrix_ok:
  assumes "\<forall>r \<in> set (bm_rows M). row_ok n r"
  shows "poly_ok n (from_boolean_matrix M)"
  using assms odd_terms_set [of "bm_rows M"] row_rotation_spec(1-3) [of n]
  by (auto simp: poly_ok_def from_boolean_matrix_rows rots_ok_def list_all_iff quarter_turns_def)

text \<open>A predicate on the bits of a term, and its parity over the columns of a matrix.\<close>

definition local_on :: "nat \<Rightarrow> ((nat \<Rightarrow> bool) \<Rightarrow> bool) \<Rightarrow> bool" where
  "local_on n W \<longleftrightarrow> (\<forall>f g. (\<forall>i < n. f i = g i) \<longrightarrow> W f = W g) \<and> (\<forall>f. W f \<longrightarrow> (\<exists>i < n. f i))"

lemma bit_row_sum: "row_ok n r \<Longrightarrow> i < n \<Longrightarrow> bit_at r i \<Longrightarrow> row_sum r \<noteq> 0"
  using nth_mem [of i r] by (auto simp: row_sum_cnt cnt_def filter_empty_conv row_ok_def bit_at_def)

lemma load_spec:
  assumes "poly_ok n rs" "rs \<noteq> []"
  shows "bm_ok n (length rs) (load_phase_poly_matrix rs)"
    "i < n \<Longrightarrow> j < length rs \<Longrightarrow> bm_fun (load_phase_poly_matrix rs) i j = z_bits (rs ! j) i"
proof -
  have "rot_ok n (hd rs)" using assms by (cases rs) (auto simp: poly_ok_def)
  then have n: "rot_n_qubits (hd rs) = n" by (auto simp: rot_ok_def pp_ok_def rot_n_qubits_def)
  show "bm_ok n (length rs) (load_phase_poly_matrix rs)"
    by (auto simp: load_phase_poly_matrix_def n bm_of_rows_def bm_ok_def)
  show "i < n \<Longrightarrow> j < length rs \<Longrightarrow> bm_fun (load_phase_poly_matrix rs) i j = z_bits (rs ! j) i"
    by (simp add: load_phase_poly_matrix_def n bm_of_rows_def bm_fun_def entry_def z_bits_def)
qed

lemma cnt_map_rotation:
  assumes "\<forall>r \<in> set rows. row_ok n r" "local_on n W"
  shows "cnt (\<lambda>R. W (z_bits R)) (map row_rotation rows) = cnt (\<lambda>r. W (bit_at r)) rows"
  unfolding cnt_map by (rule cnt_cong) (use assms row_rotation_spec(4) [of n] in \<open>auto simp: local_on_def\<close>)

text \<open>The columns of the moved matrix.\<close>

lemma transposed_rows:
  assumes N: "bm_ok n k N" and n: "0 < n" and k: "0 < k"
  shows "length (bm_rows (bm_transpose N)) = k" "\<forall>r \<in> set (bm_rows (bm_transpose N)). row_ok n r"
    "j < k \<Longrightarrow> i < n \<Longrightarrow> bit_at (bm_rows (bm_transpose N) ! j) i = bm_fun N i j"
  using bm_transpose_spec(1) [OF N n k] bm_transpose_spec(2) [OF N n k, of j i]
  by (auto simp: bm_ok_row_ok bit_at_def bm_fun_def entry_def)

lemma parity_columns:
  assumes N: "bm_ok n k N" and n: "0 < n" and k: "0 < k" and W: "local_on n W"
  shows "odd (cnt (\<lambda>R. W (z_bits R)) (from_boolean_matrix (bm_transpose N))) = gf2_sum (\<lambda>j. W (\<lambda>i. bm_fun N i j)) k"
proof -
  let ?T = "bm_rows (bm_transpose N)"
  note t = transposed_rows [OF N n k]
  have o: "\<forall>r \<in> set (odd_terms ?T). row_ok n r" using odd_terms_set t(2) by blast
  have "odd (cnt (\<lambda>R. W (z_bits R)) (from_boolean_matrix (bm_transpose N))) = odd (cnt (\<lambda>r. W (bit_at r)) (odd_terms ?T))"
    by (simp add: from_boolean_matrix_rows cnt_map_rotation [OF o W])
  also have "\<dots> = odd (cnt (\<lambda>r. W (bit_at r)) ?T)"
  proof (rule odd_terms_parity)
    fix r assume r: "r \<in> set ?T" "W (bit_at r)"
    then obtain i where "i < n" "bit_at r i" using W by (auto simp: local_on_def)
    then show "row_sum r \<noteq> 0" using bit_row_sum t(2) r(1) by blast
  qed
  also have "\<dots> = gf2_sum (\<lambda>j. W (bit_at (?T ! j))) k" using odd_cnt_gf2 t(1) by auto
  also have "\<dots> = gf2_sum (\<lambda>j. W (\<lambda>i. bm_fun N i j)) k"
    by (rule gf2_sum_cong) (use W t(3) in \<open>auto simp: local_on_def\<close>)
  finally show ?thesis .
qed

lemma parity_load:
  assumes "poly_ok n rs" "rs \<noteq> []" "local_on n W"
  shows "odd (cnt (\<lambda>R. W (z_bits R)) rs) = gf2_sum (\<lambda>j. W (\<lambda>i. bm_fun (load_phase_poly_matrix rs) i j)) (length rs)"
  unfolding odd_cnt_gf2
  by (rule gf2_sum_cong) (use assms load_spec(2) [OF assms(1,2)] in \<open>auto simp: local_on_def\<close>)

lemma local_bits:
  "a < n \<Longrightarrow> local_on n (\<lambda>f. f a)" "a < n \<Longrightarrow> b < n \<Longrightarrow> local_on n (\<lambda>f. f a \<and> f b)"
  "a < n \<Longrightarrow> b < n \<Longrightarrow> c < n \<Longrightarrow> local_on n (\<lambda>f. f a \<and> f b \<and> f c)"
  by (auto simp: local_on_def)

lemma neutral_signature:
  assumes rs: "poly_ok n rs" "rs \<noteq> []" and n: "0 < n" and s: "neutral n k M z y" and k: "0 < k"
    and M: "\<And>W. local_on n W \<Longrightarrow> gf2_sum (\<lambda>j. W (\<lambda>i. bm_fun M i j)) k = gf2_sum (\<lambda>j. W (\<lambda>i. bm_fun (load_phase_poly_matrix rs) i j)) (length rs)"
  shows "same_signature n rs (from_boolean_matrix (bm_transpose (moved M z y)))"
proof -
  have N: "bm_ok n k (moved M z y)" using s moved_spec(1) by (auto simp: neutral_def)
  have *: "odd (cnt (\<lambda>R. W (z_bits R)) rs) = odd (cnt (\<lambda>R. W (z_bits R)) (from_boolean_matrix (bm_transpose (moved M z y))))"
    if W: "local_on n W" and p: "gf2_sum (\<lambda>j. W (\<lambda>i. bm_fun (moved M z y) i j)) k = gf2_sum (\<lambda>j. W (\<lambda>i. bm_fun M i j)) k" for W
    using parity_load [OF rs W] parity_columns [OF N n k W] p M [OF W] by simp
  show ?thesis
    unfolding same_signature_def
    using * [OF local_bits(1) parity_one [OF s]] * [OF local_bits(2) parity_two [OF s]] * [OF local_bits(3) parity_three [OF s]]
    by (auto dest: less_trans)
qed

text \<open>The move found by the search.\<close>

definition good_round :: "nat \<Rightarrow> pauli_rotation list \<Rightarrow> pauli_rotation list \<Rightarrow> bool" where
  "good_round n rs rs' \<longleftrightarrow> poly_ok n rs' \<and> same_signature n rs rs' \<and> (rs' = rs \<or> length rs' < length rs)"

lemma column_sum_spec:
  assumes M: "bm_ok n k M"
  shows "row_ok n (column_sum M a b)" "a < k \<Longrightarrow> b < k \<Longrightarrow> i < n \<Longrightarrow> bit_at (column_sum M a b) i = (bm_fun M i a \<noteq> bm_fun M i b)"
proof -
  have len: "length (bm_rows M) = n" using M by (simp add: bm_ok_def)
  show "row_ok n (column_sum M a b)" using len by (auto simp: row_ok_def column_sum_def)
  assume "a < k" "b < k" "i < n"
  then show "bit_at (column_sum M a b) i = (bm_fun M i a \<noteq> bm_fun M i b)"
    using len entry_fun [OF M, of i a] entry_fun [OF M, of i b] by (simp add: column_sum_def bit_at_def entry_def)
qed

lemma equal_columns:
  assumes N: "bm_ok n k (moved M z y)" and M: "bm_ok n k M" "row_ok k y" and ab: "a < b" "b < k" and n: "0 < n"
    and z: "\<And>i. i < n \<Longrightarrow> bit_at z i = (bm_fun M i a \<noteq> bm_fun M i b)" and y: "bit_at y a \<noteq> bit_at y b"
  shows "length (from_boolean_matrix (bm_transpose (moved M z y))) + 2 \<le> k"
proof -
  have k: "0 < k" using ab by simp
  note t = transposed_rows [OF N n k]
  let ?T = "bm_rows (bm_transpose (moved M z y))"
  have "?T ! a = ?T ! b"
  proof (rule row_eqI)
    show "row_ok n (?T ! a)" "row_ok n (?T ! b)" using t(1,2) ab by auto
    show "bit_at (?T ! a) i = bit_at (?T ! b) i" if "i < n" for i
      using that ab z [OF that] y t(3) [of a i] t(3) [of b i] moved_spec(2) [OF M, of i a z] moved_spec(2) [OF M, of i b z]
      by (auto simp: bxor_def)
  qed
  then have "length (odd_terms ?T) + 2 \<le> length ?T" by (intro odd_terms_shrink [of a b]) (use ab t(1) in auto)
  then show ?thesis by (simp add: from_boolean_matrix_rows t(1))
qed

lemma todd_move_spec:
  assumes rs: "poly_ok n rs" and n: "0 < n" and ab: "a < b" "b < length rs"
  defines "M \<equiv> load_phase_poly_matrix rs"
  assumes z: "z = column_sum M a b"
    and y: "y \<in> set (bm_rows (get_nullspace_transposed (vstack M (get_chi_matrix (get_row_products M) z))))" "y ! a \<noteq> y ! b"
  shows "good_round n rs (todd_move M z y)"
proof -
  let ?k = "length rs"
  have ne: "rs \<noteq> []" and k: "0 < ?k" using ab by auto
  have M: "bm_ok n ?k M" unfolding M_def by (rule load_spec(1) [OF rs ne])
  have zok: "row_ok n z" unfolding z by (rule column_sum_spec(1) [OF M])
  let ?A = "vstack M (get_chi_matrix (get_row_products M) z)"
  obtain m' where A: "bm_ok m' ?k ?A" "0 < m'" using stacked_spec(1) [OF M zok n] by blast
  have yok: "row_ok ?k y" by (rule nullspace_spec(1) [OF A k y(1)])
  have orth: "orth ?k (bit_at y) (bit_at r)" if r: "r \<in> set (bm_rows ?A)" for r
  proof -
    have "length (bm_rows ?A) = m'" using A(1) by (simp only: bm_ok_def)
    then obtain c where "c < m'" "r = bm_rows ?A ! c" using r unfolding in_set_conv_nth by blast
    then show ?thesis using nullspace_spec(2) [OF A k y(1)] by (simp add: bm_fun_bit [abs_def])
  qed
  note st = stacked_spec(2,3) [OF M zok n, of "bit_at y", OF orth]
  have zb: "bit_at z i = (bm_fun M i a \<noteq> bm_fun M i b)" if "i < n" for i
    unfolding z by (rule column_sum_spec(2) [OF M]) (use ab that in auto)
  have yb: "bit_at y a \<noteq> bit_at y b" using y(2) row_entry [OF yok, of a] row_entry [OF yok, of b] ab by auto
  define M1 where "M1 = (if row_sum y mod 2 = 1 then push_zeros_column M else M)"
  define y1 where "y1 = (if row_sum y mod 2 = 1 then y @ [1] else y)"
  define k1 where "k1 = (if row_sum y mod 2 = 1 then Suc ?k else ?k)"
  have s: "neutral n k1 M1 z y1"
  proof (cases "row_sum y mod 2 = 1")
    case True
    then show ?thesis
      using padded_neutral [OF M yok] row_sum_parity [OF yok] st by (simp add: M1_def y1_def k1_def)
  next
    case False
    then show ?thesis using M yok row_sum_parity [OF yok] st by (simp add: M1_def y1_def k1_def neutral_def)
  qed
  then have M1: "bm_ok n k1 M1" "row_ok k1 y1" by (auto simp: neutral_def)
  have N: "bm_ok n k1 (moved M1 z y1)" by (rule moved_spec(1) [OF M1])
  have k1: "0 < k1" "?k \<le> k1" "k1 \<le> Suc ?k" using k by (auto simp: k1_def)
  have ly: "length y = ?k" using yok by (simp add: row_ok_def)
  have M1j: "bm_fun M1 i j = bm_fun M i j" if "i < n" "j < ?k" for i j
    using push_zeros_spec(2) [OF M, of i j] that by (simp add: M1_def)
  have y1j: "bit_at y1 j = bit_at y j" if "j < ?k" for j using that ly by (simp add: y1_def bit_at_def nth_append)
  have e: "todd_move M z y = from_boolean_matrix (bm_transpose (moved M1 z y1))"
    by (simp add: todd_move_def moved_def M1_def y1_def Let_def del: One_nat_def)
  have sum: "gf2_sum (\<lambda>j. W (\<lambda>i. bm_fun M1 i j)) k1 = gf2_sum (\<lambda>j. W (\<lambda>i. bm_fun M i j)) ?k" if W: "local_on n W" for W
  proof (cases "row_sum y mod 2 = 1")
    case True
    have c: "W (\<lambda>i. bm_fun M1 i j) = W (\<lambda>i. bm_fun M i j)" if "j < ?k" for j using W M1j that by (auto simp: local_on_def)
    have "\<not> W (\<lambda>i. bm_fun M1 i ?k)" using W push_zeros_spec(2) [OF M, of _ ?k] True by (auto simp: local_on_def M1_def)
    then show ?thesis using True c gf2_sum_cong [of ?k ?k "\<lambda>j. W (\<lambda>i. bm_fun M1 i j)" "\<lambda>j. W (\<lambda>i. bm_fun M i j)"] by (simp add: k1_def)
  qed (simp add: M1_def k1_def)
  have "same_signature n rs (todd_move M z y)"
    unfolding e by (rule neutral_signature [OF rs ne n s k1(1)]) (use sum in \<open>simp add: M_def\<close>)
  moreover have "length (todd_move M z y) + 2 \<le> k1"
    unfolding e by (rule equal_columns [OF N M1 ab(1) _ n]) (use ab k1 zb yb M1j y1j in auto)
  moreover have "poly_ok n (todd_move M z y)"
    unfolding e by (rule from_boolean_matrix_ok [OF transposed_rows(2) [OF N n k1(1)]])
  ultimately show ?thesis using k1 by (simp add: good_round_def)
qed

lemma todd_pairs_spec:
  assumes rs: "poly_ok n rs" and n: "0 < n" and M: "M = load_phase_poly_matrix rs"
  shows "\<forall>(a, b) \<in> set pairs. a < b \<and> b < length rs \<Longrightarrow>
    good_round n rs (fst (todd_pairs stop rs M (get_row_products M) seen pairs k))"
proof (induction pairs arbitrary: seen k)
  case Nil
  then show ?case using rs by (simp add: good_round_def)
next
  case (Cons x pairs)
  obtain a b where x: "x = (a, b)" by fastforce
  let ?z = "column_sum M a b"
  let ?ns = "get_nullspace_transposed (vstack M (get_chi_matrix (get_row_products M) ?z))"
  have ab: "a < b" "b < length rs" and rest: "\<forall>(a, b) \<in> set pairs. a < b \<and> b < length rs" using Cons.prems by (auto simp: x)
  note IH = Cons.IH [OF rest]
  show ?case
  proof (cases "find (\<lambda>y. y ! a \<noteq> y ! b) (bm_rows ?ns)")
    case None
    then show ?thesis using IH rs by (simp add: x Let_def good_round_def)
  next
    case (Some y)
    then have y: "y \<in> set (bm_rows ?ns)" "y ! a \<noteq> y ! b" by (auto simp: find_Some_iff)
    have "good_round n rs (todd_move M ?z y)"
      unfolding M by (rule todd_move_spec [OF rs n ab refl]) (use y in \<open>simp_all add: M\<close>)
    then show ?thesis using Some IH rs by (simp add: x Let_def good_round_def)
  qed
qed

lemma todd_once_spec:
  assumes "poly_ok n rs" "0 < n"
  shows "good_round n rs (fst (todd_once stop k rs))"
proof (cases "rs = []")
  case False
  have "\<forall>(a, b) \<in> set (combinations2 [0..<length rs]). a < b \<and> b < length rs"
    using in_combinations2 [of "[0..<length rs]"] by auto
  then show ?thesis using todd_pairs_spec [OF assms refl] False by (simp add: todd_once_def Let_def)
qed (use assms in \<open>simp add: todd_once_def good_round_def\<close>)

text \<open>The loop ends: a round that changes the list shortens it.\<close>

lemma todd_loop_spec:
  assumes "poly_ok n rs" "0 < n"
  shows "\<exists>rs'. todd_loop stop k rs = Some rs' \<and> good_round n rs rs'"
  using assms
proof (induction "length rs" arbitrary: rs k rule: less_induct)
  case less
  obtain rs1 k1 where o: "todd_once stop k rs = (rs1, k1)" by fastforce
  have g: "good_round n rs rs1" using todd_once_spec [OF less.prems, of stop k] o by simp
  show ?case
  proof (cases "rs1 = [] \<or> length rs1 = length rs")
    case True
    then show ?thesis using g by (subst todd_loop.simps) (auto simp: o)
  next
    case False
    then have l: "length rs1 < length rs" using g by (auto simp: good_round_def)
    then obtain rs' where rs': "todd_loop stop k1 rs1 = Some rs'" "good_round n rs1 rs'"
      using less.hyps [of rs1 k1] g less.prems by (auto simp: good_round_def)
    have "good_round n rs rs'" using g rs'(2) l by (auto simp: good_round_def intro: same_signature_trans)
    then show ?thesis using rs'(1) False by (subst todd_loop.simps) (simp add: o)
  qed
qed

end
