(* ===== verification/PolynomialStrategies.thy ===== *)
theory PolynomialStrategies
  imports PhasePolynomials
begin

text \<open>
  The contract of a strategy that rewrites one list of diagonal rotations, as
  \<open>optimize_phase_polynomial\<close> of src/src/tableau/tableau_optimization.cpp relies on it, and what the
  pass over a whole tableau does with any strategy that keeps the contract.
\<close>

section \<open>Strategies for phase polynomials\<close>

definition nonempty :: "pauli_rotation list \<Rightarrow> bool" where
  "nonempty rs \<longleftrightarrow> rs \<noteq> []"

locale phase_polynomial_strategy =
  fixes optimize :: pp_strategy
  assumes optimize_spec: "st_ok n T \<Longrightarrow> rots_ok n rs \<Longrightarrow> rs \<noteq> [] \<Longrightarrow> diag_rotations rs \<Longrightarrow>
    \<exists>d rs'. optimize T rs = Some (trait_apply_string st_trait d T, rs') \<and> diag_string n d \<and> rots_ok n rs' \<and>
      diag_rotations rs' \<and> op_eq n (rots_op rs) (\<lambda>v. rots_op rs' (trait_apply_string q_trait d v))"
begin

lemma is_phase_polynomial_ok: "rots_ok n rs \<Longrightarrow> rs \<noteq> [] \<Longrightarrow> is_phase_polynomial rs = Some (diag_rotations rs)"
proof -
  assume rs: "rots_ok n rs" "rs \<noteq> []"
  have "rot_n_qubits R = n" if "R \<in> set rs" for R
    using rs that by (auto simp: rots_ok_def list_all_iff rot_ok_def pp_ok_def rot_n_qubits_def)
  with rs(2) show ?thesis by (cases rs) (auto simp: is_phase_polynomial_def diag_rotations_def list_all_iff)
qed

lemma step: "step_ok n (optimize_phase_polynomial optimize) diag_rotations nonempty"
  unfolding step_ok_def
proof (intro allI impI)
  fix T rs and mid :: "pauli_rotation list list"
  assume T: "st_ok n T" and rs: "rots_ok n rs" "nonempty rs" and mid: "list_all (rots_ok n) mid" "list_all diag_rotations mid"
  note p = is_phase_polynomial_ok [OF rs(1) rs(2) [unfolded nonempty_def]]
  let ?m = "concat mid"
  have m: "rots_ok n ?m" "diag_rotations ?m" using mid by (auto simp: rots_ok_def diag_rotations_def list_all_iff)
  have cat: "equivalent n (SubST U # map SubPR mid @ [SubPR x]) [SubST U, SubPR ?m, SubPR x]" if "st_ok n U" "rots_ok n x" for U x
    using equiv_append [of n "[SubST U]" "[SubST U]", OF _ equiv_append [OF lists_concat_equiv [OF mid(1)], of "[SubPR x]" "[SubPR x]"]]
      that by simp
  show "\<exists>T' rs'. optimize_phase_polynomial optimize T rs = Some (T', rs') \<and> (diag_rotations rs \<longrightarrow> diag_rotations rs') \<and>
      equivalent n (SubST T # map SubPR mid @ [SubPR rs]) (SubST T' # map SubPR mid @ [SubPR rs'])"
  proof (cases "diag_rotations rs")
    case True
    obtain d rs' where o: "optimize T rs = Some (trait_apply_string st_trait d T, rs')" "diag_string n d" "rots_ok n rs'"
      "diag_rotations rs'" "op_eq n (rots_op rs) (\<lambda>v. rots_op rs' (trait_apply_string q_trait d v))"
      using optimize_spec [OF T rs(1) rs(2) [unfolded nonempty_def] True] by blast
    have T': "st_ok n (trait_apply_string st_trait d T)"
      using o(2) T by (auto simp: diag_string_def intro: st_apply_string_ok)
    note cat [OF T rs(1)]
    also note diag_correction_equiv [OF o(2) T m rs(1) o(3,5)]
    also note equiv_sym [OF cat [OF T' o(3)]]
    finally show ?thesis using o p True by (auto simp: optimize_phase_polynomial_def)
  next
    case False
    then show ?thesis
      using p cat [OF T rs(1)] by (auto simp: optimize_phase_polynomial_def equivalent_def)
  qed
qed

text \<open>The pass over a tableau whose lists are not empty and are diagonal when another follows.\<close>

lemma optimize_phase_polynomials_equiv:
  assumes t: "tab_ok n t" and stop: "\<And>i. \<not> stop i" and r: "ready diag_rotations nonempty True (subtableaux t)"
  shows "\<exists>t'. optimize_phase_polynomials stop optimize t = Some t' \<and> tab_n_qubits t' = n \<and>
    equivalent n (subtableaux t) (subtableaux t')"
proof (cases "subtableaux t = []")
  case True
  then show ?thesis using t by (auto simp: optimize_phase_polynomials_def tab_ok_def)
next
  case False
  have n: "tab_n_qubits t = n" and ok: "subs_ok n (subtableaux t)" using t by (auto simp: tab_ok_def)
  obtain T q where ss: "front_clifford n (subtableaux t) = SubST T # q" using front_clifford_shape [OF False] by blast
  have e0: "equivalent n (subtableaux t) (SubST T # q)" using front_clifford_equiv [OF ok] ss by simp
  have "ready diag_rotations nonempty True (SubST T # q)"
    using r by (simp add: ss [symmetric] front_clifford_def split: list.split sub_tableau.split)
  then have rq: "ready diag_rotations nonempty True q" by simp
  obtain ss' where w: "walk_subs (optimize_phase_polynomial optimize) [1..<length (SubST T # q)] 0 (SubST T # q) = Some ss'"
    "equivalent n (SubST T # q) ss'"
    using walk_front [OF step equivD(2) [OF e0] rq] by blast
  have "[0..<length (SubST T # q)] = 0 # [1..<length (SubST T # q)]"
    using upt_conv_Cons [of 0 "length (SubST T # q)"] by (simp del: upt_Suc)
  with w have w': "optimize_subs optimize [0..<length (SubST T # q)] 0 (SubST T # q) = Some ss'"
    by (simp add: optimize_subs_def)
  let ?t1 = "t\<lparr>subtableaux := ss'\<rparr>"
  have t1: "tab_ok n ?t1" using w(2) n by (simp add: tab_ok_def equivalent_def)
  have "equivalent n ss' (subtableaux (remove_identities stop ?t1))"
    using remove_identities_equiv [OF t1, of stop, OF stop] by simp
  then have "equivalent n (subtableaux t) (subtableaux (remove_identities stop ?t1))"
    using e0 w(2) by (blast intro: equiv_trans)
  moreover have "tab_n_qubits (remove_identities stop ?t1) = n" by (simp add: remove_identities_def n Let_def)
  ultimately show ?thesis using False w' by (auto simp: optimize_phase_polynomials_def n ss Let_def)
qed

end

end
