(* ===== verification/ToddCertificate.thy ===== *)
theory ToddCertificate
  imports ToddStrategy PolynomialStrategies
begin

text \<open>
  TODD never takes its error branch. The parities of the coefficients of a multilinear polynomial are
  the parities of the rotations that contain a variable, a pair or a triple of variables; a round keeps
  these, so the difference of the two phase polynomials is Clifford. With this, TODD is a strategy for
  phase polynomials, and the pass over a tableau with TODD is correct.
\<close>

section \<open>Parities of coefficients\<close>

lemma bumps_parity:
  assumes "even m" "odd d"
  shows "even (wsum w (fold (bump m d) ks al)) \<longleftrightarrow> even (wsum w al) = even (cnt w ks)"
proof -
  obtain j where "wsum w (fold (bump m d) ks al) = wsum w al + int d * int (cnt w ks) + int m * j"
    using bumps_sum by blast
  then show ?thesis using assms by simp
qed

lemma toggles_parity: "even (cnt w (fold toggle ks al)) \<longleftrightarrow> even (cnt w al) = even (cnt w ks)"
proof -
  obtain j where "int (cnt w (fold toggle ks al)) = int (cnt w al) + int (cnt w ks) + 2 * j" using toggles_sum by blast
  then have "even (int (cnt w (fold toggle ks al))) \<longleftrightarrow> even (int (cnt w al) + int (cnt w ks))" by simp
  then show ?thesis by simp
qed

lemma bump_dom: "fst ` set (bump m d k al) = insert k (fst ` set al)"
proof (induction al)
  case (Cons x al)
  then show ?case by (cases x) (auto simp del: bump.simps(1) simp: insert_commute)
qed simp

lemma bump_distinct: "distinct (map fst al) \<Longrightarrow> distinct (map fst (bump m d k al))"
proof (induction al)
  case (Cons x al)
  obtain a c where x: "x = (a, c)" by fastforce
  show ?case using Cons bump_dom [of m d k al] by (cases "a = k") (auto simp: x simp flip: set_map)
qed simp

lemma bumps_distinct: "distinct (map fst al) \<Longrightarrow> distinct (map fst (fold (bump m d) ks al))"
  by (induction ks arbitrary: al) (auto dest: bump_distinct)

lemma toggle_distinct: "distinct ks \<Longrightarrow> distinct (toggle k ks) \<and> set (toggle k ks) \<subseteq> insert k (set ks)"
  by (induction ks) auto

lemma toggles_distinct: "distinct al \<Longrightarrow> distinct (fold toggle ks al) \<and> set (fold toggle ks al) \<subseteq> set ks \<union> set al"
proof (induction ks arbitrary: al)
  case (Cons k ks)
  from Cons.IH [of "toggle k al"] toggle_distinct [OF Cons.prems, of k] show ?case by auto
qed simp

lemma wsum_other: "k \<notin> fst ` set al \<Longrightarrow> wsum ((=) k) al = 0"
  by (induction al) auto

lemma wsum_key: "distinct (map fst al) \<Longrightarrow> (k, c) \<in> set al \<Longrightarrow> wsum ((=) k) al = int c"
  by (induction al) (auto simp: wsum_other image_iff)

lemma cnt_key: "distinct ks \<Longrightarrow> cnt ((=) k) ks = of_bool (k \<in> set ks)"
  by (induction ks) auto

lemma distinct_combinations2: "distinct xs \<Longrightarrow> distinct (combinations2 xs) \<and> set (combinations2 xs) \<subseteq> set xs \<times> set xs"
  by (induction xs) (auto simp: distinct_map inj_on_def)

lemma distinct_combinations3: "distinct xs \<Longrightarrow> distinct (combinations3 xs) \<and> set (combinations3 xs) \<subseteq> set xs \<times> set xs \<times> set xs"
proof (induction xs)
  case (Cons x xs)
  with distinct_combinations2 [of xs] show ?case by (auto simp: distinct_map inj_on_def)
qed simp

lemma ones_distinct: "distinct (ones R)"
  by (simp add: ones_def)

section \<open>The polynomial of a list of rotations\<close>

definition mlp_keys :: "nat \<Rightarrow> multi_linear_polynomial \<Rightarrow> bool" where
  "mlp_keys n p \<longleftrightarrow> distinct (map fst (linear_terms p)) \<and> distinct (map fst (quadratic_terms p)) \<and> distinct (cubic_terms p) \<and>
     (\<forall>(a, b, c) \<in> set (cubic_terms p). a < b \<and> b < c \<and> c < n)"

lemma mlp_keysI:
  assumes "mlp_keys n p" "rot_ok n R"
  shows "mlp_keys n (add_rotation subtract R p)"
proof -
  have "set (fold toggle (combinations3 (ones R)) (cubic_terms p)) \<subseteq> set (combinations3 (ones R)) \<union> set (cubic_terms p)"
    using toggles_distinct [of "cubic_terms p"] assms(1) by (simp add: mlp_keys_def)
  moreover have "a < b \<and> b < c \<and> c < n" if "(a, b, c) \<in> set (combinations3 (ones R))" for a b c
    using that in_combinations3 [OF ones_props(2) [of R], of a b c] ones_props(1) [OF assms(2), of c] by simp
  moreover have "distinct (fold toggle (combinations3 (ones R)) (cubic_terms p))"
    using toggles_distinct [of "cubic_terms p"] assms(1) by (simp add: mlp_keys_def)
  ultimately show ?thesis using assms(1) by (fastforce simp: mlp_keys_def add_rotation_def bumps_distinct)
qed

lemma add_rotations_keys: "mlp_keys n p \<Longrightarrow> rots_ok n rs \<Longrightarrow> mlp_keys n (add_rotations subtract rs p)"
  by (induction rs arbitrary: p) (auto simp: add_rotations_def mlp_keysI)

lemma add_rotations_linear:
  "quarter_turns rs \<Longrightarrow> even (wsum ((=) i) (linear_terms (add_rotations s rs p))) \<longleftrightarrow>
     even (wsum ((=) i) (linear_terms p)) = even (cnt (\<lambda>R. i \<in> set (ones R)) rs)"
proof (induction rs arbitrary: p)
  case (Cons R rs)
  have "even (wsum ((=) i) (linear_terms (add_rotation s R p))) \<longleftrightarrow> even (wsum ((=) i) (linear_terms p)) \<noteq> (i \<in> set (ones R))"
    using Cons.prems by (auto simp: add_rotation_def quarter_multiple_def mk_quarter bumps_parity cnt_key ones_distinct)
  then show ?case using Cons by (auto simp: add_rotations_def)
qed (simp add: add_rotations_def)

lemma add_rotations_quadratic:
  "quarter_turns rs \<Longrightarrow> even (wsum ((=) t) (quadratic_terms (add_rotations s rs p))) \<longleftrightarrow>
     even (wsum ((=) t) (quadratic_terms p)) = even (cnt (\<lambda>R. t \<in> set (combinations2 (ones R))) rs)"
proof (induction rs arbitrary: p)
  case (Cons R rs)
  have "even (wsum ((=) t) (quadratic_terms (add_rotation s R p))) \<longleftrightarrow>
      even (wsum ((=) t) (quadratic_terms p)) \<noteq> (t \<in> set (combinations2 (ones R)))"
    using Cons.prems distinct_combinations2 [OF ones_distinct, of R]
    by (auto simp: add_rotation_def quarter_multiple_def mk_quarter bumps_parity cnt_key)
  then show ?case using Cons by (auto simp: add_rotations_def)
qed (simp add: add_rotations_def)

lemma add_rotations_cubic:
  "quarter_turns rs \<Longrightarrow> even (cnt ((=) t) (cubic_terms (add_rotations s rs p))) \<longleftrightarrow>
     even (cnt ((=) t) (cubic_terms p)) = even (cnt (\<lambda>R. t \<in> set (combinations3 (ones R))) rs)"
proof (induction rs arbitrary: p)
  case (Cons R rs)
  have "even (cnt ((=) t) (cubic_terms (add_rotation s R p))) \<longleftrightarrow>
      even (cnt ((=) t) (cubic_terms p)) \<noteq> (t \<in> set (combinations3 (ones R)))"
    using Cons.prems distinct_combinations3 [OF ones_distinct, of R]
    by (auto simp: add_rotation_def quarter_multiple_def mk_quarter toggles_parity cnt_key)
  then show ?case using Cons by (auto simp: add_rotations_def)
qed (simp add: add_rotations_def)

lemma in_ones: "rot_ok n R \<Longrightarrow> i < n \<Longrightarrow> i \<in> set (ones R) \<longleftrightarrow> z_bits R i"
  by (auto simp: ones_def z_bits_def rot_n_qubits_def rot_ok_def pp_ok_def)

lemma cnt_ones:
  assumes "rots_ok n rs"
  shows "i < n \<Longrightarrow> cnt (\<lambda>R. i \<in> set (ones R)) rs = cnt (\<lambda>R. z_bits R i) rs"
    "i < j \<Longrightarrow> j < n \<Longrightarrow> cnt (\<lambda>R. (i, j) \<in> set (combinations2 (ones R))) rs = cnt (\<lambda>R. z_bits R i \<and> z_bits R j) rs"
    "i < j \<Longrightarrow> j < k \<Longrightarrow> k < n \<Longrightarrow>
      cnt (\<lambda>R. (i, j, k) \<in> set (combinations3 (ones R))) rs = cnt (\<lambda>R. z_bits R i \<and> z_bits R j \<and> z_bits R k) rs"
  using assms
  by (auto intro!: cnt_cong simp: rots_ok_def list_all_iff in_ones in_combinations2 [OF ones_props(2)] in_combinations3 [OF ones_props(2)])

text \<open>Equal parities make the difference Clifford.\<close>

lemma difference_clifford:
  assumes rs: "poly_ok n rs" "poly_ok n rs'" and s: "same_signature n rs rs'"
  shows "mlp_is_clifford (add_rotations True rs' (add_rotations False rs empty_polynomial))"
proof -
  let ?p = "add_rotations True rs' (add_rotations False rs empty_polynomial)"
  have ok: "rots_ok n rs" "rots_ok n rs'" "quarter_turns rs" "quarter_turns rs'" using rs by (auto simp: poly_ok_def)
  have "mlp_keys n empty_polynomial" by (simp add: mlp_keys_def empty_polynomial_def)
  then have m: "mlp_ok n ?p" "mlp_keys n ?p" using ok by (auto intro!: add_rotations_ok add_rotations_keys empty_polynomial_ok)
  have e: "wsum w (linear_terms empty_polynomial) = 0" "wsum w' (quadratic_terms empty_polynomial) = 0"
    "cnt w'' (cubic_terms empty_polynomial) = 0" for w w' w''
    by (simp_all add: empty_polynomial_def)
  have l: "even c" if t: "(i, c) \<in> set (linear_terms ?p)" for i c
  proof -
    have "i < n" using m(1) t by (auto simp: mlp_ok_def)
    then have "even (wsum ((=) i) (linear_terms ?p))"
      using s by (simp add: add_rotations_linear ok e cnt_ones [where n = n] same_signature_def)
    then show ?thesis using wsum_key [OF _ t] m(2) by (simp add: mlp_keys_def)
  qed
  have q: "even c" if t: "(k, c) \<in> set (quadratic_terms ?p)" for k c
  proof -
    obtain i j where k: "k = (i, j)" by fastforce
    have "i < j" "j < n" using m(1) t k by (auto simp: mlp_ok_def)
    then have "even (wsum ((=) k) (quadratic_terms ?p))"
      using s by (simp add: add_rotations_quadratic ok e cnt_ones [where n = n] same_signature_def k)
    then show ?thesis using wsum_key [OF _ t] m(2) by (simp add: mlp_keys_def)
  qed
  have "t \<notin> set (cubic_terms ?p)" for t
  proof
    assume t: "t \<in> set (cubic_terms ?p)"
    obtain a b c where abc: "t = (a, b, c)" by (metis surj_pair)
    have "a < b" "b < c" "c < n" using m(2) t abc by (auto simp: mlp_keys_def)
    then have "even (cnt ((=) t) (cubic_terms ?p))"
      using s by (simp add: add_rotations_cubic ok e cnt_ones [where n = n] same_signature_def abc)
    then show False using m(2) t by (simp add: cnt_key mlp_keys_def)
  qed
  then have "cubic_terms ?p = []" by (cases "cubic_terms ?p") auto
  then show ?thesis using l q by (auto simp: mlp_is_clifford_def list_all_iff even_iff_mod_2_eq_zero)
qed
section \<open>The strategy\<close>

lemma todd_loop_total:
  assumes "poly_ok n rs" "reducible rs"
  shows "\<exists>rs'. todd_loop stop k rs = Some rs' \<and> good_round n rs rs'"
proof (cases rs)
  case Nil
  have "todd_once stop k [] = ([], k)" by (simp add: todd_once_def)
  then have "todd_loop stop k [] = Some []" by (subst todd_loop.simps) simp
  then show ?thesis using assms(1) Nil by (simp add: good_round_def)
next
  case (Cons R rs')
  have "pp_ok n (rot_product R)" "\<not> is_identity (rot_product R)"
    using assms Cons by (auto simp: poly_ok_def reducible_def dest: rot_okD(1))
  then have "0 < n" by (cases n) (auto simp: is_identity_def pp_ok_def)
  then show ?thesis by (rule todd_loop_spec [OF assms(1)])
qed

text \<open>The strategy is correct on every diagonal list; the error branch is not taken.\<close>

lemma todd_optimize_spec:
  assumes rs: "rots_ok n rs" "diag_rotations rs"
  shows "\<exists>d rs'. todd_optimize stop T rs = Some (trait_apply_string st_trait d T, rs') \<and> diag_string n d \<and> rots_ok n rs' \<and>
    diag_rotations rs' \<and> op_eq n (rots_op rs) (\<lambda>v. rots_op rs' (trait_apply_string q_trait d v))"
proof (cases "rs = [] \<or> list_ex (\<lambda>R. \<not> quarter_multiple (rot_phase R)) rs")
  case True
  then show ?thesis using rs by (intro exI [of _ "[]"] exI [of _ rs]) (auto simp: todd_optimize_def diag_string_Nil)
next
  case False
  have "list_all (diag_quarter n) rs"
    using False rs quarter_multiple_val rot_okD(3)
    by (auto simp: list_all_iff list_ex_iff diag_quarter_def rots_ok_def diag_rotations_def)
  from properize_diag [OF this]
  obtain d rs1 where p: "diag_string n d" "rots_ok n rs1" "quarter_turns rs1" "reducible rs1" "\<And>T. properize T rs = Some (trait_apply_string st_trait d T, rs1)"
    "op_eq n (rots_op rs) (\<lambda>v. rots_op rs1 (trait_apply_string q_trait d v))" by blast
  have p1: "poly_ok n rs1" using p by (simp add: poly_ok_def)
  obtain rs2 where l: "todd_loop stop 0 rs1 = Some rs2" "good_round n rs1 rs2"
    using todd_loop_total [OF p1 p(4)] by blast
  have p2: "poly_ok n rs2" "rots_ok n rs2" "quarter_turns rs2" using l(2) by (auto simp: good_round_def poly_ok_def)
  let ?p = "add_rotations True rs2 (add_rotations False rs1 empty_polynomial)"
  obtain e where e: "mlp_extract_clifford_operators ?p = Some e"
    using difference_clifford [OF p1 p2(1)] l(2) by (auto simp: good_round_def mlp_extract_clifford_operators_def)
  note dc = difference_correct [OF p(2,3) p2(2,3) e]
  have "op_eq n (rots_op rs) (\<lambda>v. rots_op rs2 (trait_apply_string q_trait (d @ e) v))"
    using p(6) dc(2) by (simp add: op_eq_def)
  moreover have "diag_rotations rs2" using p2(3) by (simp add: quarter_turns_def diag_rotations_def list_all_iff)
  moreover have "todd_optimize stop T rs = Some (trait_apply_string st_trait (d @ e) T, rs2)"
    using False p(5) l(1) e by (simp add: todd_optimize_def)
  ultimately show ?thesis using p(1) dc(1) p2(2) diag_string_append by blast
qed

interpretation todd: phase_polynomial_strategy "todd_optimize stop"
  by unfold_locales (rule todd_optimize_spec)

text \<open>Applied to a tableau.\<close>

lemma todd_tableau_equiv:
  assumes "tab_ok n t" "\<And>i. \<not> stop' i" "ready diag_rotations nonempty True (subtableaux t)"
  shows "\<exists>t'. optimize_phase_polynomials stop' (todd_optimize stop) t = Some t' \<and> tab_n_qubits t' = n \<and>
    equivalent n (subtableaux t) (subtableaux t')"
  using assms by (rule todd.optimize_phase_polynomials_equiv)

end
