(* ===== verification/FullOptimize.thy ===== *)
theory FullOptimize
  imports InternalH ToddCertificate
begin

text \<open>
  \<open>full_optimize\<close> of src/src/tableau/tableau_optimization.cpp: rounds of merging rotations, minimising the
  internal Hadamard gates and optimising the phase polynomials with TODD, for as long as the number of
  rotations shrinks, and a last minimisation. The composition establishes by itself what each pass needs
  of its input, so the routine is correct on every well-formed tableau, and it returns.
\<close>

section \<open>The routine\<close>

definition optimization_round :: "(nat \<Rightarrow> bool) \<Rightarrow> tableau \<Rightarrow> tableau option" where
  "optimization_round stop t =
     (case merge_rotations_tableau stop t of
        None \<Rightarrow> None
      | Some t1 \<Rightarrow>
          (case minimize_internal_hadamards stop t1 of
             None \<Rightarrow> None
           | Some t2 \<Rightarrow> optimize_phase_polynomials stop (todd_optimize stop) t2))"

partial_function (option) full_optimize_loop :: "(nat \<Rightarrow> bool) \<Rightarrow> tableau \<Rightarrow> tableau option" where
  "full_optimize_loop stop t =
     (case optimization_round stop t of
        None \<Rightarrow> None
      | Some t' \<Rightarrow>
          if n_pauli_rotations (subtableaux t') < n_pauli_rotations (subtableaux t) then full_optimize_loop stop t' else Some t')"

declare full_optimize_loop.simps [code]

definition full_optimize :: "(nat \<Rightarrow> bool) \<Rightarrow> tableau \<Rightarrow> tableau option" where
  "full_optimize stop t =
     (case full_optimize_loop stop t of None \<Rightarrow> None | Some t' \<Rightarrow> minimize_internal_hadamards stop t')"

section \<open>What each pass leaves for the next\<close>

lemma absorb_reducible: "absorb_clifford_rotations T rs = Some (T', rs') \<Longrightarrow> reducible rs'"
  by (auto simp: absorb_clifford_rotations_def reducible_remove)

lemma merge_absorb_reducible: "merge_absorb_loop T rs = Some (T', rs') \<Longrightarrow> reducible rs'"
proof (induction T rs rule: merge_absorb_loop.induct)
  case (1 T rs)
  obtain T1 rs1 where a: "absorb_clifford_rotations T (merge_rotations rs) = Some (T1, rs1)"
    using "1.prems" by (subst (asm) merge_absorb_loop.simps) (auto split: option.splits)
  show ?case
  proof (cases "length rs1 < length rs")
    case True
    then show ?thesis using 1 a by (subst (asm) merge_absorb_loop.simps) simp
  next
    case False
    then have "rs' = rs1" using "1.prems" a by (subst (asm) merge_absorb_loop.simps) simp
    then show ?thesis using absorb_reducible [OF a] by simp
  qed
qed

lemma merge_tableau_reducible:
  assumes t: "tab_ok n t" and stop: "\<And>i. \<not> stop i" and m: "merge_rotations_tableau stop t = Some t'"
  shows "subs_reducible (subtableaux t')"
proof -
  note c = collapse_equiv(2) [OF t, of stop, OF stop]
  let ?t1 = "collapse stop t"
  show ?thesis
  proof (cases "length (subtableaux ?t1) \<le> 1")
    case True
    then show ?thesis using m c by (auto simp: merge_rotations_tableau_def Let_def collapsed_def reducible_def)
  next
    case False
    then obtain T rs where "subtableaux ?t1 = [SubST T, SubPR rs]" using c by (auto simp: collapsed_def)
    then show ?thesis
      using m False by (auto simp: merge_rotations_tableau_def Let_def reducible_def [of "[]"] dest: merge_absorb_reducible)
  qed
qed

lemma remove_identities_reducible: "subs_reducible (subtableaux (remove_identities stop t))"
  unfolding subs_reducible_def
proof
  fix s assume s: "s \<in> set (subtableaux (remove_identities stop t))"
  show "reducible (rotations_of s)"
  proof (cases s)
    case (SubPR rs)
    then show ?thesis using remove_identities_lists [of rs stop t] s by (auto intro: reducible_remove)
  qed (simp add: reducible_def)
qed

lemma optimize_reducible: "optimize_phase_polynomials stop F t = Some t' \<Longrightarrow> subs_reducible (subtableaux t')"
  by (auto simp: optimize_phase_polynomials_def Let_def remove_identities_reducible split: if_splits)

lemma ready_diagonal: "(\<And>rs. SubPR rs \<in> set ss \<Longrightarrow> rs \<noteq> [] \<and> diag_rotations rs) \<Longrightarrow> ready diag_rotations nonempty True ss"
proof (induction ss)
  case (Cons s ss)
  then show ?case by (cases s) (auto simp: nonempty_def)
qed simp

section \<open>Correctness\<close>

lemma optimization_round_equiv:
  assumes t: "tab_ok n t" and stop: "\<And>i. \<not> stop i"
  shows "\<exists>t'. optimization_round stop t = Some t' \<and> tab_ok n t' \<and> equivalent n (subtableaux t) (subtableaux t') \<and>
    subs_reducible (subtableaux t')"
proof -
  obtain t1 where m: "merge_rotations_tableau stop t = Some t1" "tab_n_qubits t1 = n" "equivalent n (subtableaux t) (subtableaux t1)"
    using merge_rotations_tableau_equiv [OF t, of stop, OF stop] by blast
  have t1: "tab_ok n t1" using m by (simp add: tab_ok_def equivalent_def)
  have r1: "subs_reducible (subtableaux t1)" by (rule merge_tableau_reducible [OF t stop m(1)])
  obtain t2 where h: "minimize_internal_hadamards stop t1 = Some t2" "tab_n_qubits t2 = n" "equivalent n (subtableaux t1) (subtableaux t2)"
    "\<And>rs. SubPR rs \<in> set (subtableaux t2) \<Longrightarrow> rs \<noteq> [] \<and> diag_rotations rs \<and> reducible rs"
    using minimize_internal_hadamards_equiv [OF t1, of stop, OF stop r1] by blast
  have t2: "tab_ok n t2" using h by (simp add: tab_ok_def equivalent_def)
  have "ready diag_rotations nonempty True (subtableaux t2)" by (rule ready_diagonal) (use h(4) in blast)
  then obtain t3 where o: "optimize_phase_polynomials stop (todd_optimize stop) t2 = Some t3" "tab_n_qubits t3 = n"
    "equivalent n (subtableaux t2) (subtableaux t3)"
    using todd_tableau_equiv [OF t2, of stop, OF stop] by blast
  have "equivalent n (subtableaux t) (subtableaux t3)" by (rule equiv_trans [OF m(3) equiv_trans [OF h(3) o(3)]])
  then show ?thesis
    using m h o optimize_reducible [OF o(1)] by (auto simp: optimization_round_def tab_ok_def equivalent_def)
qed

lemma full_optimize_loop_equiv:
  assumes "tab_ok n t" and stop: "\<And>i. \<not> stop i"
  shows "\<exists>t'. full_optimize_loop stop t = Some t' \<and> tab_ok n t' \<and> equivalent n (subtableaux t) (subtableaux t') \<and>
    subs_reducible (subtableaux t')"
  using assms(1)
proof (induction "n_pauli_rotations (subtableaux t)" arbitrary: t rule: less_induct)
  case less
  obtain t1 where r: "optimization_round stop t = Some t1" "tab_ok n t1" "equivalent n (subtableaux t) (subtableaux t1)"
    "subs_reducible (subtableaux t1)"
    using optimization_round_equiv [OF less.prems, of stop, OF stop] by blast
  show ?case
  proof (cases "n_pauli_rotations (subtableaux t1) < n_pauli_rotations (subtableaux t)")
    case True
    obtain t2 where "full_optimize_loop stop t1 = Some t2" "tab_ok n t2" "equivalent n (subtableaux t1) (subtableaux t2)"
      "subs_reducible (subtableaux t2)"
      using less.hyps [OF True r(2)] by blast
    then show ?thesis using r True equiv_trans [OF r(3)] by (subst full_optimize_loop.simps) auto
  next
    case False
    then show ?thesis using r by (subst full_optimize_loop.simps) auto
  qed
qed

theorem full_optimize_equiv:
  assumes t: "tab_ok n t" and stop: "\<And>i. \<not> stop i"
  shows "\<exists>t'. full_optimize stop t = Some t' \<and> tab_n_qubits t' = n \<and> equivalent n (subtableaux t) (subtableaux t') \<and>
    (\<forall>rs. SubPR rs \<in> set (subtableaux t') \<longrightarrow> rs \<noteq> [] \<and> diag_rotations rs \<and> reducible rs)"
proof -
  obtain t1 where l: "full_optimize_loop stop t = Some t1" "tab_ok n t1" "equivalent n (subtableaux t) (subtableaux t1)"
    "subs_reducible (subtableaux t1)"
    using full_optimize_loop_equiv [OF t, of stop, OF stop] by blast
  obtain t2 where h: "minimize_internal_hadamards stop t1 = Some t2" "tab_n_qubits t2 = n" "equivalent n (subtableaux t1) (subtableaux t2)"
    "\<forall>rs. SubPR rs \<in> set (subtableaux t2) \<longrightarrow> rs \<noteq> [] \<and> diag_rotations rs \<and> reducible rs"
    using minimize_internal_hadamards_equiv [OF l(2), of stop, OF stop l(4)] by blast
  then show ?thesis using l(1) equiv_trans [OF l(3) h(3)] by (auto simp: full_optimize_def)
qed

end
