(* ===== verification/ParityMatrices.thy ===== *)
theory ParityMatrices
  imports GaussianElimination
begin

text \<open>
  The class \<open>ParityMatrix\<close> (src/src/tableau/phasepoly/parity_matrix.hpp, parity_matrix.cpp) and the forward
  simulator \<open>SymbolicState\<close> (symbolic_state.hpp, symbolic_state.cpp). A row is a bit list of width
  \<open>n_cols\<close>; a bit beyond it reads as unset, where the code's assertions exclude the access. \<open>pm_get\<close>
  reads a matrix as one over GF(2), on which a CNOT is the row addition that adds the target to the
  control.
\<close>

section \<open>The class\<close>

record parity_matrix =
  n_cols :: nat
  pm_rows :: "bool list list"

definition n_rows :: "parity_matrix \<Rightarrow> nat" where
  "n_rows M = length (pm_rows M)"

definition has_no_columns :: "parity_matrix \<Rightarrow> bool" where
  "has_no_columns M \<longleftrightarrow> n_cols M = 0"

definition pm_get :: "parity_matrix \<Rightarrow> nat \<Rightarrow> nat \<Rightarrow> bool" where
  "pm_get M r c = test (pm_rows M ! r) c"

definition pm_set :: "nat \<Rightarrow> nat \<Rightarrow> bool \<Rightarrow> parity_matrix \<Rightarrow> parity_matrix" where
  "pm_set r c v M = M\<lparr>pm_rows := (pm_rows M)[r := (pm_rows M ! r)[c := v]]\<rparr>"

definition pm_blank :: "nat \<Rightarrow> nat \<Rightarrow> parity_matrix" where
  "pm_blank rows cols = \<lparr>n_cols = cols, pm_rows = replicate rows (replicate cols False)\<rparr>"

definition pm_identity :: "nat \<Rightarrow> parity_matrix" where
  "pm_identity n = fold (\<lambda>i. pm_set i i True) [0..<n] (pm_blank n n)"

definition from_rows :: "bool list list \<Rightarrow> parity_matrix" where
  "from_rows rows =
     (let cols = (case rows of [] \<Rightarrow> 0 | r # _ \<Rightarrow> length r)
      in fold (\<lambda>r. fold (\<lambda>c M. if rows ! r ! c then pm_set r c True M else M) [0..<cols]) [0..<length rows]
           (pm_blank (length rows) cols))"

definition from_columns :: "nat \<Rightarrow> bool list list \<Rightarrow> parity_matrix" where
  "from_columns n columns =
     fold (\<lambda>c. fold (\<lambda>r M. if test (columns ! c) r then pm_set r c True M else M) [0..<n]) [0..<length columns]
       (pm_blank n (length columns))"

definition pm_column :: "parity_matrix \<Rightarrow> nat \<Rightarrow> bool list" where
  "pm_column M col = map (\<lambda>r. pm_get M r col) [0..<n_rows M]"

definition pm_cnot :: "nat \<Rightarrow> nat \<Rightarrow> parity_matrix \<Rightarrow> parity_matrix" where
  "pm_cnot control target M =
     (if control = target then M
      else M\<lparr>pm_rows := (pm_rows M)[control := xor_bits (pm_rows M ! control) (pm_rows M ! target)]\<rparr>)"

definition column_weight :: "parity_matrix \<Rightarrow> nat \<Rightarrow> nat" where
  "column_weight M col = fold (\<lambda>r weight. if test r col then weight + 1 else weight) (pm_rows M) 0"

fun single_one_loop :: "(nat \<Rightarrow> bool) \<Rightarrow> nat list \<Rightarrow> nat option \<Rightarrow> nat option" where
  "single_one_loop p [] found = found"
| "single_one_loop p (r # rs) found =
     (if p r then (if found \<noteq> None then None else single_one_loop p rs (Some r)) else single_one_loop p rs found)"

definition single_one_row :: "parity_matrix \<Rightarrow> nat \<Rightarrow> nat option" where
  "single_one_row M col = single_one_loop (\<lambda>r. pm_get M r col) [0..<n_rows M] None"

definition is_square_identity :: "parity_matrix \<Rightarrow> bool" where
  "is_square_identity M \<longleftrightarrow>
     n_rows M = n_cols M \<and> list_all (\<lambda>r. bit_count (pm_rows M ! r) = 1 \<and> pm_get M r r) [0..<n_rows M]"

definition remove_column :: "nat \<Rightarrow> parity_matrix \<Rightarrow> parity_matrix" where
  "remove_column col M =
     (let shrink = (\<lambda>r. fold (\<lambda>c s. if c = col then s else if test r c then s[if c < col then c else c - 1 := True] else s)
                      [0..<n_cols M] (replicate (n_cols M - 1) False))
      in \<lparr>n_cols = n_cols M - 1, pm_rows = map shrink (pm_rows M)\<rparr>)"

definition pm_to_string :: "parity_matrix \<Rightarrow> string" where
  "pm_to_string M =
     concat (map (\<lambda>r. map (\<lambda>c. if test r c then CHR ''1'' else CHR ''0'') [0..<n_cols M] @ [CHR 0x0A]) (pm_rows M))"

section \<open>Well-formed matrices\<close>

definition pm_ok :: "nat \<Rightarrow> nat \<Rightarrow> parity_matrix \<Rightarrow> bool" where
  "pm_ok m k M \<longleftrightarrow> n_cols M = k \<and> length (pm_rows M) = m \<and> (\<forall>r \<in> set (pm_rows M). length r = k)"

lemma pm_okD: "pm_ok m k M \<Longrightarrow> n_rows M = m" "pm_ok m k M \<Longrightarrow> n_cols M = k" "pm_ok m k M \<Longrightarrow> r < m \<Longrightarrow> length (pm_rows M ! r) = k"
  "pm_ok m k M \<Longrightarrow> k \<le> c \<Longrightarrow> r < m \<Longrightarrow> \<not> pm_get M r c"
  by (auto simp: pm_ok_def n_rows_def pm_get_def test_def)

lemma pm_eqI:
  assumes M: "pm_ok m k M" and N: "pm_ok m k N" and g: "\<And>r c. r < m \<Longrightarrow> c < k \<Longrightarrow> pm_get M r c = pm_get N r c"
  shows "M = N"
proof -
  have "pm_rows M = pm_rows N"
  proof (rule nth_equalityI)
    show "length (pm_rows M) = length (pm_rows N)" using M N by (simp add: pm_ok_def)
    fix r assume "r < length (pm_rows M)"
    then have r: "r < m" using M by (simp add: pm_ok_def)
    show "pm_rows M ! r = pm_rows N ! r"
      using pm_okD(3) [OF M r] pm_okD(3) [OF N r] g [OF r] by (intro bits_eqI) (auto simp: pm_get_def)
  qed
  then show ?thesis using M N by (simp add: pm_ok_def)
qed

lemma pm_set_ok:
  assumes M: "pm_ok m k M" and i: "i < m" "j < k"
  shows "pm_ok m k (pm_set i j v M)" "r < m \<Longrightarrow> pm_get (pm_set i j v M) r c = (if r = i \<and> c = j then v else pm_get M r c)"
  using M i pm_okD(3) [OF M i(1)]
  by (auto simp: pm_ok_def pm_set_def pm_get_def test_list_update nth_list_update dest!: set_update_subset_insert [THEN subsetD])

lemma pm_blank_ok: "pm_ok m k (pm_blank m k)" "r < m \<Longrightarrow> \<not> pm_get (pm_blank m k) r c"
  by (auto simp: pm_ok_def pm_blank_def pm_get_def)

text \<open>Setting the entries of a region one by one.\<close>

lemma set_row_loop:
  assumes M: "pm_ok m k M" and r: "r < m"
  shows "pm_ok m k (fold (\<lambda>c M. if p c then pm_set r c True M else M) [0..<k] M) \<and>
    (\<forall>x < m. \<forall>y < k. pm_get (fold (\<lambda>c M. if p c then pm_set r c True M else M) [0..<k] M) x y = (pm_get M x y \<or> x = r \<and> p y))"
proof -
  let ?I = "\<lambda>i N. pm_ok m k N \<and> (\<forall>x < m. \<forall>y < k. pm_get N x y = (pm_get M x y \<or> x = r \<and> y < i \<and> p y))"
  have "?I k (fold (\<lambda>c M. if p c then pm_set r c True M else M) [0..<k] M)"
  proof (rule fold_upt_induct [where I = ?I])
    fix i N assume "0 \<le> i" "i < k" "?I i N"
    then show "?I (Suc i) (if p i then pm_set r i True N else N)"
      using r by (auto simp: pm_set_ok less_Suc_eq split: if_splits)
  qed (use M in auto)
  then show ?thesis by auto
qed

lemma set_column_loop:
  assumes M: "pm_ok m k M" and c: "c < k"
  shows "pm_ok m k (fold (\<lambda>r M. if p r then pm_set r c True M else M) [0..<m] M) \<and>
    (\<forall>x < m. \<forall>y < k. pm_get (fold (\<lambda>r M. if p r then pm_set r c True M else M) [0..<m] M) x y = (pm_get M x y \<or> y = c \<and> p x))"
proof -
  let ?I = "\<lambda>i N. pm_ok m k N \<and> (\<forall>x < m. \<forall>y < k. pm_get N x y = (pm_get M x y \<or> y = c \<and> x < i \<and> p x))"
  have "?I m (fold (\<lambda>r M. if p r then pm_set r c True M else M) [0..<m] M)"
  proof (rule fold_upt_induct [where I = ?I])
    fix i N assume "0 \<le> i" "i < m" "?I i N"
    then show "?I (Suc i) (if p i then pm_set i c True N else N)"
      using c by (auto simp: pm_set_ok less_Suc_eq split: if_splits)
  qed (use M in auto)
  then show ?thesis by auto
qed

lemma from_columns_spec:
  "pm_ok n (length cs) (from_columns n cs)" "r < n \<Longrightarrow> c < length cs \<Longrightarrow> pm_get (from_columns n cs) r c = test (cs ! c) r"
proof -
  let ?k = "length cs"
  let ?I = "\<lambda>i N. pm_ok n ?k N \<and> (\<forall>x < n. \<forall>y < ?k. pm_get N x y = (y < i \<and> test (cs ! y) x))"
  have "?I ?k (from_columns n cs)"
    unfolding from_columns_def
  proof (rule fold_upt_induct [where I = ?I])
    fix i N assume i: "0 \<le> i" "i < ?k" "?I i N"
    then show "?I (Suc i) (fold (\<lambda>r M. if test (cs ! i) r then pm_set r i True M else M) [0..<n] N)"
      using set_column_loop [of n ?k N i "test (cs ! i)"] by (auto simp: less_Suc_eq)
  qed (auto simp: pm_blank_ok)
  then show "pm_ok n ?k (from_columns n cs)" "r < n \<Longrightarrow> c < ?k \<Longrightarrow> pm_get (from_columns n cs) r c = test (cs ! c) r"
    by auto
qed

lemma from_rows_spec:
  assumes rs: "length rs = m" "\<forall>r \<in> set rs. length r = k" and m: "0 < m"
  shows "pm_ok m k (from_rows rs) \<and> (\<forall>r < m. \<forall>c < k. pm_get (from_rows rs) r c = rs ! r ! c)"
proof -
  have k: "(case rs of [] \<Rightarrow> 0 | r # _ \<Rightarrow> length r) = k" using rs m by (cases rs) auto
  let ?I = "\<lambda>i N. pm_ok m k N \<and> (\<forall>x < m. \<forall>y < k. pm_get N x y = (x < i \<and> rs ! x ! y))"
  have "?I m (from_rows rs)"
    unfolding from_rows_def Let_def k rs(1)
  proof (rule fold_upt_induct [where I = ?I])
    fix i N assume i: "0 \<le> i" "i < m" "?I i N"
    then show "?I (Suc i) (fold (\<lambda>c M. if rs ! i ! c then pm_set i c True M else M) [0..<k] N)"
      using set_row_loop [of m k N i "\<lambda>c. rs ! i ! c"] by (auto simp: less_Suc_eq)
  qed (auto simp: pm_blank_ok)
  then show ?thesis by auto
qed

lemma pm_identity_spec: "pm_ok n n (pm_identity n)" "r < n \<Longrightarrow> c < n \<Longrightarrow> pm_get (pm_identity n) r c = (r = c)"
proof -
  let ?I = "\<lambda>i N. pm_ok n n N \<and> (\<forall>x < n. \<forall>y < n. pm_get N x y = (x < i \<and> x = y))"
  have "?I n (pm_identity n)"
    unfolding pm_identity_def
    by (rule fold_upt_induct [where I = ?I]) (auto simp: pm_blank_ok pm_set_ok less_Suc_eq split: if_splits)
  then show "pm_ok n n (pm_identity n)" "r < n \<Longrightarrow> c < n \<Longrightarrow> pm_get (pm_identity n) r c = (r = c)" by auto
qed

text \<open>A matrix is determined by its columns, and by its rows.\<close>

lemma columns_roundtrip:
  assumes M: "pm_ok m k M"
  shows "from_columns m (map (pm_column M) [0..<k]) = M"
  by (rule pm_eqI [OF _ M]) (use from_columns_spec [where n = m and cs = "map (pm_column M) [0..<k]"] M in \<open>auto simp: pm_column_def pm_okD\<close>)

lemma rows_roundtrip:
  assumes M: "pm_ok m k M" and m: "0 < m"
  shows "from_rows (pm_rows M) = M"
  by (rule pm_eqI [OF _ M]) (use from_rows_spec [of "pm_rows M" m k] M m in \<open>auto simp: pm_ok_def pm_get_def test_def\<close>)

section \<open>Row operations\<close>

lemma pm_cnot_spec:
  assumes M: "pm_ok m k M" and ij: "i < m" "j < m"
  shows "pm_ok m k (pm_cnot i j M)" "i \<noteq> j \<Longrightarrow> r < m \<Longrightarrow> pm_get (pm_cnot i j M) r c = row_add j i (pm_get M) r c"
  using M ij pm_okD(3) [OF M]
  by (auto simp: pm_ok_def pm_cnot_def pm_get_def test_xor_bits row_add_apply nth_list_update
      dest!: set_update_subset_insert [THEN subsetD])

lemma column_weight_cnt: "column_weight M c = length (filter (\<lambda>r. test r c) (pm_rows M))"
proof -
  have "fold (\<lambda>r weight. if test r c then weight + 1 else weight) rs w = w + length (filter (\<lambda>r. test r c) rs)" for rs w
    by (induction rs arbitrary: w) auto
  then show ?thesis by (simp add: column_weight_def)
qed

lemma column_weight_card: "column_weight M c = card {r. r < n_rows M \<and> pm_get M r c}"
  by (simp add: column_weight_cnt length_filter_conv_card pm_get_def n_rows_def)

lemma single_one_loop_spec:
  "distinct rs \<Longrightarrow> single_one_loop p rs found = Some q \<longleftrightarrow>
     (found = None \<and> q \<in> set rs \<and> (\<forall>r \<in> set rs. p r = (r = q))) \<or> (found = Some q \<and> (\<forall>r \<in> set rs. \<not> p r))"
proof (induction rs arbitrary: found)
  case (Cons r rs)
  then have r: "r \<notin> set rs" "distinct rs" by auto
  show ?case
  proof (cases "p r")
    case True
    then show ?thesis using Cons.IH [OF r(2), of "Some r"] r(1) by (cases found) auto
  next
    case False
    then show ?thesis using Cons.IH [OF r(2), of found] r(1) by (cases found) auto
  qed
qed simp

lemma single_one_row_iff:
  "single_one_row M c = Some q \<longleftrightarrow> q < n_rows M \<and> (\<forall>r < n_rows M. pm_get M r c = (r = q))"
  by (auto simp: single_one_row_def single_one_loop_spec)

lemma card_one_iff: "(card A = 1 \<and> a \<in> A) \<longleftrightarrow> A = {a}"
  by (metis card_1_singletonE card.empty card.insert_remove empty_Diff finite.emptyI insertI1 singletonD One_nat_def)

lemma is_square_identity_iff:
  assumes M: "pm_ok m k M"
  shows "is_square_identity M \<longleftrightarrow> m = k \<and> (\<forall>r < m. \<forall>c < k. pm_get M r c = (r = c))"
proof -
  have "(bit_count (pm_rows M ! r) = 1 \<and> pm_get M r r) \<longleftrightarrow> (\<forall>c < k. pm_get M r c = (r = c))" if r: "r < m" "r < k" for r
  proof -
    have "bit_count (pm_rows M ! r) = card {c. pm_get M r c}" by (simp add: bit_count_eq_card pm_get_def)
    then have "(bit_count (pm_rows M ! r) = 1 \<and> pm_get M r r) \<longleftrightarrow> {c. pm_get M r c} = {r}"
      using card_one_iff [of "{c. pm_get M r c}" r] by simp
    also have "\<dots> \<longleftrightarrow> (\<forall>c < k. pm_get M r c = (r = c))"
    proof
      assume "{c. pm_get M r c} = {r}"
      then have "pm_get M r c \<longleftrightarrow> c = r" for c by blast
      then show "\<forall>c < k. pm_get M r c = (r = c)" by auto
    next
      assume g: "\<forall>c < k. pm_get M r c = (r = c)"
      have "pm_get M r c \<longleftrightarrow> c = r" for c using g pm_okD(4) [OF M _ r(1), of c] r(2) by (cases "c < k") auto
      then show "{c. pm_get M r c} = {r}" by simp
    qed
    finally show ?thesis .
  qed
  then show ?thesis by (auto simp: is_square_identity_def pm_okD(1,2) [OF M] list_all_iff)
qed

lemma shrink_spec:
  assumes "length r = k" "col < k"
  defines "s \<equiv> fold (\<lambda>c s. if c = col then s else if test r c then s[if c < col then c else c - 1 := True] else s)
    [0..<k] (replicate (k - 1) False)"
  shows "length s = k - 1 \<and> (\<forall>c. test s c = test r (if c < col then c else Suc c))"
proof -
  let ?I = "\<lambda>i s. length s = k - 1 \<and> (\<forall>c. test s c = ((if c < col then c else Suc c) < i \<and> test r (if c < col then c else Suc c)))"
  have "?I k s"
    unfolding s_def
  proof (rule fold_upt_induct [where I = ?I])
    fix i s assume "0 \<le> i" "i < k" "?I i s"
    then have l: "length s = k - 1" and g: "\<And>c. test s c = ((if c < col then c else Suc c) < i \<and> test r (if c < col then c else Suc c))"
      and i: "i < k" by auto
    show "?I (Suc i) (if i = col then s else if test r i then s[if i < col then i else i - 1 := True] else s)"
    proof (intro conjI allI)
      fix c
      define d where "d = (if c < col then c else Suc c)"
      have gd: "test s c = (d < i \<and> test r d)" using g [of c] by (simp only: d_def)
      have d: "d \<noteq> col" by (simp add: d_def)
      have u: "test (s[if i < col then i else i - 1 := True]) c = (test s c \<or> d = i)" if "i \<noteq> col"
      proof -
        have "(if i < col then i else i - 1) = c \<longleftrightarrow> d = i" using that by (cases "i < col"; cases "c < col") (auto simp: d_def)
        moreover have "(if i < col then i else i - 1) < length s" using that l i assms(2) by (cases "i < col") auto
        ultimately show ?thesis by (simp add: test_list_update)
      qed
      have "test (if i = col then s else if test r i then s[if i < col then i else i - 1 := True] else s) c = (d < Suc i \<and> test r d)"
      proof (cases "i = col")
        case True
        then show ?thesis using gd d by (simp only: if_True less_Suc_eq simp_thms)
      next
        case False
        show ?thesis
        proof (cases "test r i")
          case True
          then show ?thesis using u [OF False] gd False by (simp only: if_True if_False less_Suc_eq) blast
        next
          case nr: False
          then show ?thesis using gd False by (simp only: if_False less_Suc_eq) blast
        qed
      qed
      then show "test (if i = col then s else if test r i then s[if i < col then i else i - 1 := True] else s) c =
          ((if c < col then c else Suc c) < Suc i \<and> test r (if c < col then c else Suc c))"
        by (simp only: d_def)
    qed (simp add: l)
  qed simp_all
  moreover have "test r d \<Longrightarrow> d < k" for d using assms(1) by (simp add: test_def)
  ultimately show ?thesis by blast
qed

lemma remove_column_spec:
  assumes M: "pm_ok m k M" and col: "col < k"
  shows "pm_ok m (k - 1) (remove_column col M)"
    "r < m \<Longrightarrow> pm_get (remove_column col M) r c = pm_get M r (if c < col then c else Suc c)"
  using shrink_spec [of _ k col] M col
  by (auto simp: pm_ok_def remove_column_def pm_get_def Let_def)

section \<open>The forward simulator\<close>

type_synonym symbolic_state = "bool list list"

definition sym_init :: "nat \<Rightarrow> symbolic_state" where
  "sym_init n = map (\<lambda>q. (replicate n False)[q := True]) [0..<n]"

definition parity_of :: "symbolic_state \<Rightarrow> nat \<Rightarrow> bool list" where
  "parity_of s q = s ! q"

definition sym_cnot :: "nat \<Rightarrow> nat \<Rightarrow> symbolic_state \<Rightarrow> symbolic_state" where
  "sym_cnot control target s =
     (if control = target then s else s[target := xor_bits (s ! target) (s ! control)])"

definition to_output_matrix :: "symbolic_state \<Rightarrow> parity_matrix" where
  "to_output_matrix s =
     (let n = length s
      in fold (\<lambda>q. fold (\<lambda>r M. if test (s ! q) r then pm_set r q True M else M) [0..<n]) [0..<n] (pm_blank n n))"

lemma to_output_matrix_columns: "to_output_matrix s = from_columns (length s) s"
  by (simp add: to_output_matrix_def from_columns_def Let_def)

definition sym_ok :: "nat \<Rightarrow> symbolic_state \<Rightarrow> bool" where
  "sym_ok n s \<longleftrightarrow> length s = n \<and> (\<forall>v \<in> set s. length v = n)"

lemma sym_init_ok: "sym_ok n (sym_init n)" "q < n \<Longrightarrow> test (parity_of (sym_init n) q) r = (r = q)"
  by (auto simp: sym_ok_def sym_init_def parity_of_def test_list_update)

lemma sym_cnot_ok:
  assumes s: "sym_ok n s" and ct: "c < n" "t < n"
  shows "sym_ok n (sym_cnot c t s)"
    "c \<noteq> t \<Longrightarrow> q < n \<Longrightarrow> test (parity_of (sym_cnot c t s) q) r =
      (if q = t then bxor (test (parity_of s t) r) (test (parity_of s c) r) else test (parity_of s q) r)"
proof -
  have l: "length (s ! q) = n" if "q < n" for q using s that by (auto simp: sym_ok_def)
  show "sym_ok n (sym_cnot c t s)"
    using s ct l by (auto simp: sym_ok_def sym_cnot_def dest!: set_update_subset_insert [THEN subsetD])
  show "c \<noteq> t \<Longrightarrow> q < n \<Longrightarrow> test (parity_of (sym_cnot c t s) q) r =
      (if q = t then bxor (test (parity_of s t) r) (test (parity_of s c) r) else test (parity_of s q) r)"
    using s ct l by (auto simp: parity_of_def sym_cnot_def sym_ok_def test_xor_bits)
qed

lemma to_output_matrix_spec:
  assumes s: "sym_ok n s"
  shows "pm_ok n n (to_output_matrix s)" "r < n \<Longrightarrow> q < n \<Longrightarrow> pm_get (to_output_matrix s) r q = test (parity_of s q) r"
  using from_columns_spec [where n = n and cs = s] s by (auto simp: to_output_matrix_columns sym_ok_def parity_of_def)

end
