(* ===== verification/LinearSynthesis.thy ===== *)
theory LinearSynthesis
  imports ParityMatrices
begin

text \<open>
  The synthesis of a linear map by CNOTs (src/src/tableau/phasepoly/gaussian.cpp): Gauss-Jordan elimination
  with a sparsest pivot, and block elimination by \<open>BooleanMatrix\<close> over all block sizes. A missing pivot,
  on which the code asserts, is \<open>None\<close>. Both reduce every invertible matrix to the identity.
\<close>

section \<open>The routines\<close>

type_synonym cnot_op = "nat \<times> nat"

datatype linear_synthesis_mode = GaussJordan | PatelMarkovHayes

text \<open>The sparsest row below \<open>col\<close> with a one in that column; the initial \<open>best_weight\<close> exceeds every weight.\<close>

definition seed_pivot :: "parity_matrix \<Rightarrow> nat \<Rightarrow> nat option" where
  "seed_pivot m col =
     map_option snd
       (fold (\<lambda>r best. if pm_get m r col \<and> (case best of None \<Rightarrow> True | Some (w, _) \<Rightarrow> bit_count (pm_rows m ! r) < w)
                       then Some (bit_count (pm_rows m ! r), r) else best)
          [col + 1..<n_rows m] None)"

definition gj_seed :: "nat \<Rightarrow> parity_matrix \<times> cnot_op list \<Rightarrow> (parity_matrix \<times> cnot_op list) option" where
  "gj_seed col s =
     (case s of (m, ops) \<Rightarrow>
        if pm_get m col col then Some (m, ops)
        else (case seed_pivot m col of None \<Rightarrow> None | Some p \<Rightarrow> Some (pm_cnot col p m, ops @ [(col, p)])))"

definition gj_clear :: "nat \<Rightarrow> nat \<Rightarrow> parity_matrix \<times> cnot_op list \<Rightarrow> parity_matrix \<times> cnot_op list" where
  "gj_clear col r s =
     (case s of (m, ops) \<Rightarrow> if r \<noteq> col \<and> pm_get m r col then (pm_cnot r col m, ops @ [(r, col)]) else (m, ops))"

fun gj_loop :: "nat \<Rightarrow> nat list \<Rightarrow> parity_matrix \<times> cnot_op list \<Rightarrow> (parity_matrix \<times> cnot_op list) option" where
  "gj_loop n [] s = Some s"
| "gj_loop n (col # cols) s =
     (case gj_seed col s of None \<Rightarrow> None | Some s' \<Rightarrow> gj_loop n cols (fold (gj_clear col) [0..<n] s'))"

definition gauss_jordan_reduce :: "parity_matrix \<Rightarrow> cnot_op list option" where
  "gauss_jordan_reduce m = map_option snd (gj_loop (n_rows m) [0..<n_rows m] (m, []))"

definition to_boolean_matrix :: "parity_matrix \<Rightarrow> boolean_matrix" where
  "to_boolean_matrix M = bm_of_rows (map (\<lambda>r. map (\<lambda>c. of_bool (pm_get M r c)) [0..<n_cols M]) [0..<n_rows M])"

definition pmh_candidate :: "parity_matrix \<Rightarrow> nat \<Rightarrow> (nat \<times> nat) list" where
  "pmh_candidate M block_size = bm_ops (snd (gaussian_elimination_skip block_size True True (to_boolean_matrix M)))"

definition patel_markov_hayes_reduce :: "parity_matrix \<Rightarrow> cnot_op list" where
  "patel_markov_hayes_reduce M =
     (let best = fold (\<lambda>block_size best.
                   let row_ops = pmh_candidate M block_size in
                   case best of None \<Rightarrow> Some row_ops
                   | Some b \<Rightarrow> if length row_ops < length b then Some row_ops else Some b)
                 [1..<n_rows M + 1] None
      in map (\<lambda>(ctrl, targ). (targ, ctrl)) (case best of None \<Rightarrow> [] | Some b \<Rightarrow> b))"

definition synthesize_linear_reversible :: "linear_synthesis_mode \<Rightarrow> parity_matrix \<Rightarrow> cnot_op list option" where
  "synthesize_linear_reversible mode M =
     (if n_rows M = 0 then Some []
      else (case mode of GaussJordan \<Rightarrow> gauss_jordan_reduce M
                       | PatelMarkovHayes \<Rightarrow> Some (patel_markov_hayes_reduce M)))"

definition linear_reversible_cnot_cost :: "linear_synthesis_mode \<Rightarrow> parity_matrix \<Rightarrow> nat option" where
  "linear_reversible_cnot_cost mode M = map_option length (synthesize_linear_reversible mode M)"

section \<open>Invertible matrices\<close>

definition invertible :: "nat \<Rightarrow> gmat \<Rightarrow> bool" where
  "invertible n f \<longleftrightarrow> (\<exists>ops. ops_ok n ops \<and> (\<forall>r < n. \<forall>c < n. row_adds ops f r c = (r = c)))"

lemma invertible_kernel:
  assumes "invertible n f" "in_kernel f n n x" "j < n"
  shows "\<not> x j"
proof -
  obtain ops where ops: "ops_ok n ops" and I: "\<And>r c. r < n \<Longrightarrow> c < n \<Longrightarrow> row_adds ops f r c = (r = c)"
    using assms(1) by (auto simp: invertible_def)
  have "in_kernel (row_adds ops f) n n x" using in_kernel_row_adds [OF ops] assms(2) by simp
  then have "\<not> gf2_sum (\<lambda>c. row_adds ops f j c \<and> x c) n" using assms(3) by (simp add: in_kernel_def mul_def)
  moreover have "gf2_sum (\<lambda>c. row_adds ops f j c \<and> x c) n = gf2_sum (\<lambda>c. j = c \<and> x c) n"
    by (rule gf2_sum_cong) (use I assms(3) in auto)
  ultimately show ?thesis using assms(3) by (simp add: gf2_sum_delta')
qed

lemma invertible_cong: "invertible n f \<Longrightarrow> (\<And>r c. r < n \<Longrightarrow> c < n \<Longrightarrow> f r c = g r c) \<Longrightarrow> invertible n g"
  unfolding invertible_def using row_adds_cong_rows [of n _ g _ f] by metis

lemma invertible_row_adds:
  assumes "invertible n f" "ops_ok n ops"
  shows "invertible n (row_adds ops f)"
proof -
  obtain ops0 where o: "ops_ok n ops0" "\<And>r c. r < n \<Longrightarrow> c < n \<Longrightarrow> row_adds ops0 f r c = (r = c)"
    using assms(1) by (auto simp: invertible_def)
  have "row_adds (rev ops @ ops0) (row_adds ops f) = row_adds ops0 f" using row_adds_rev [OF assms(2)] by simp
  then show ?thesis unfolding invertible_def using o assms(2) by (intro exI [of _ "rev ops @ ops0"]) simp
qed

lemma invertible_identity: "(\<And>r c. r < n \<Longrightarrow> c < n \<Longrightarrow> f r c = (r = c)) \<Longrightarrow> invertible n f"
  unfolding invertible_def by (auto intro!: exI [of _ "[]"])

text \<open>A column that depends on unit columns: there is a vector in the kernel.\<close>

lemma dependent_column:
  assumes u: "\<And>i r. i < length ps \<Longrightarrow> r < n \<Longrightarrow> f r (ps ! i) = (r = i)" and ps: "\<forall>p \<in> set ps. p < n" "j \<notin> set ps"
    and j: "j < n" "\<And>r. length ps \<le> r \<Longrightarrow> r < n \<Longrightarrow> \<not> f r j"
  shows "\<not> invertible n f"
proof
  assume inv: "invertible n f"
  define x where "x c \<longleftrightarrow> c = j \<or> (\<exists>i < length ps. c = ps ! i \<and> f i j)" for c
  have "\<not> mul f n x r" if r: "r < n" for r
  proof -
    have "mul f n x r = gf2_sum (\<lambda>c. bxor (c = j \<and> f r j) (c = ps ! r \<and> (r < length ps \<and> f r j))) n"
      unfolding mul_def
    proof (rule gf2_sum_cong)
      fix c assume "c < n"
      show "(f r c \<and> x c) = bxor (c = j \<and> f r j) (c = ps ! r \<and> r < length ps \<and> f r j)"
      proof (cases "c = j")
        case True
        then show ?thesis using ps(2) nth_mem [of r ps] by (auto simp: x_def bxor_def)
      next
        case False
        then show ?thesis using u r by (auto simp: x_def bxor_def)
      qed
    qed simp
    also have "\<dots> = bxor (f r j) (r < length ps \<and> f r j)"
      unfolding gf2_sum_xor gf2_sum_delta using j(1) ps(1) nth_mem [of r ps] by (cases "r < length ps") auto
    finally show ?thesis using j(2) [of r] r by (cases "r < length ps") auto
  qed
  then have "in_kernel f n n x" by (simp add: in_kernel_def)
  from invertible_kernel [OF inv this j(1)] show False by (simp add: x_def)
qed

section \<open>Strings of CNOTs on a matrix\<close>

definition pm_cnots :: "cnot_op list \<Rightarrow> parity_matrix \<Rightarrow> parity_matrix" where
  "pm_cnots ops M = fold (\<lambda>(c, t). pm_cnot c t) ops M"

lemma pm_cnots_simps [simp]: "pm_cnots [] M = M" "pm_cnots ((c, t) # ops) M = pm_cnots ops (pm_cnot c t M)"
  "pm_cnots (ops @ ops') M = pm_cnots ops' (pm_cnots ops M)"
  by (simp_all add: pm_cnots_def)

definition mirror :: "(nat \<times> nat) list \<Rightarrow> (nat \<times> nat) list" where
  "mirror ops = map (\<lambda>(a, b). (b, a)) ops"

lemma mirror_simps [simp]: "mirror [] = []" "mirror ((a, b) # ops) = (b, a) # mirror ops" "mirror (xs @ ys) = mirror xs @ mirror ys"
  "ops_ok n (mirror ops) = ops_ok n ops" "mirror (mirror ops) = ops"
  by (induction ops) (auto simp: mirror_def)

lemma pm_cnots_spec:
  assumes "pm_ok m k M" "ops_ok m ops"
  shows "pm_ok m k (pm_cnots ops M) \<and> (\<forall>r < m. \<forall>c. pm_get (pm_cnots ops M) r c = row_adds (mirror ops) (pm_get M) r c)"
  using assms
proof (induction ops arbitrary: M)
  case (Cons x ops)
  obtain i j where x: "x = (i, j)" by fastforce
  have ij: "i < m" "j < m" "i \<noteq> j" "ops_ok m ops" using Cons.prems(2) by (auto simp: x)
  note s = pm_cnot_spec [OF Cons.prems(1) ij(1,2)]
  have "row_adds (mirror ops) (pm_get (pm_cnot i j M)) r c = row_adds (mirror ops) (row_add j i (pm_get M)) r c" if "r < m" for r c
    by (rule row_adds_cong_rows [OF _ _ that]) (use s(2) ij in auto)
  then show ?case using Cons.IH [OF s(1) ij(4)] by (simp add: x)
qed simp

lemma invertible_cnots:
  assumes "pm_ok n n M" "ops_ok n ops" "invertible n (pm_get M)"
  shows "invertible n (pm_get (pm_cnots ops M))"
  by (rule invertible_cong [OF invertible_row_adds [OF assms(3)], of "mirror ops"])
    (use pm_cnots_spec [OF assms(1,2)] assms(2) in auto)

section \<open>Gauss-Jordan elimination\<close>

lemma seed_pivot_spec:
  "(case seed_pivot m col of None \<Rightarrow> \<forall>r. col < r \<longrightarrow> r < n_rows m \<longrightarrow> \<not> pm_get m r col
    | Some p \<Rightarrow> col < p \<and> p < n_rows m \<and> pm_get m p col)"
proof -
  let ?f = "\<lambda>r best. if pm_get m r col \<and> (case best of None \<Rightarrow> True | Some (w, _) \<Rightarrow> bit_count (pm_rows m ! r) < w)
    then Some (bit_count (pm_rows m ! r), r) else best"
  have "case fold ?f rs best of None \<Rightarrow> best = None \<and> (\<forall>r \<in> set rs. \<not> pm_get m r col)
      | Some (w, p) \<Rightarrow> best = Some (w, p) \<or> (p \<in> set rs \<and> pm_get m p col)" for rs best
  proof (induction rs arbitrary: best)
    case (Cons r rs)
    show ?case using Cons.IH [of "?f r best"] by (auto split: option.splits if_splits)
  qed (auto split: option.split)
  from this [where rs = "[col + 1..<n_rows m]" and best = None] show ?thesis
    unfolding seed_pivot_def by (auto split: option.splits simp: Suc_le_eq)
qed

definition gj_inv :: "nat \<Rightarrow> parity_matrix \<Rightarrow> parity_matrix \<times> cnot_op list \<Rightarrow> bool" where
  "gj_inv n M s \<longleftrightarrow> ops_ok n (snd s) \<and> fst s = pm_cnots (snd s) M"

lemma gj_inv_ok: "pm_ok n n M \<Longrightarrow> gj_inv n M (m, ops) \<Longrightarrow> pm_ok n n m"
  using pm_cnots_spec by (auto simp: gj_inv_def)

lemma gj_inv_op: "gj_inv n M (m, ops) \<Longrightarrow> i < n \<Longrightarrow> j < n \<Longrightarrow> i \<noteq> j \<Longrightarrow> gj_inv n M (pm_cnot i j m, ops @ [(i, j)])"
  by (simp add: gj_inv_def)

definition unit_upto :: "nat \<Rightarrow> nat \<Rightarrow> parity_matrix \<Rightarrow> bool" where
  "unit_upto n k m \<longleftrightarrow> (\<forall>r < n. \<forall>c < k. pm_get m r c = (r = c))"

lemma gj_seed_spec:
  assumes M: "pm_ok n n M" "invertible n (pm_get M)" and s: "gj_inv n M (m, ops)" "unit_upto n col m" and col: "col < n"
  shows "\<exists>m' ops'. gj_seed col (m, ops) = Some (m', ops') \<and> gj_inv n M (m', ops') \<and> unit_upto n col m' \<and> pm_get m' col col"
proof (cases "pm_get m col col")
  case True
  then show ?thesis using s by (simp add: gj_seed_def)
next
  case False
  have m: "pm_ok n n m" by (rule gj_inv_ok [OF M(1) s(1)])
  have inv: "invertible n (pm_get m)" using invertible_cnots [OF M(1) _ M(2)] s(1) by (auto simp: gj_inv_def)
  obtain p where p: "seed_pivot m col = Some p"
  proof (cases "seed_pivot m col")
    case None
    then have "\<not> pm_get m r col" if "col \<le> r" "r < n" for r
      using seed_pivot_spec [where m = m and col = col] False that pm_okD(1) [OF m] by (cases "r = col") auto
    then have "\<not> invertible n (pm_get m)"
      using dependent_column [of "[0..<col]" n "pm_get m" col] s(2) col by (auto simp: unit_upto_def)
    then show ?thesis using inv by simp
  qed auto
  then have pp: "col < p" "p < n" "pm_get m p col" using seed_pivot_spec [where m = m and col = col] pm_okD(1) [OF m] by auto
  note c = pm_cnot_spec [OF m col pp(2)]
  have "unit_upto n col (pm_cnot col p m)" "pm_get (pm_cnot col p m) col col"
    using s(2) pp False col by (auto simp: unit_upto_def c(2) row_add_apply)
  then show ?thesis using p False gj_inv_op [OF s(1) col pp(2)] pp(1) by (simp add: gj_seed_def)
qed

lemma gj_clear_spec:
  assumes M: "pm_ok n n M" and s: "gj_inv n M (m, ops)" "unit_upto n col m" "pm_get m col col" and col: "col < n"
  shows "\<exists>m' ops'. fold (gj_clear col) [0..<n] (m, ops) = (m', ops') \<and> gj_inv n M (m', ops') \<and> unit_upto n (Suc col) m'"
proof -
  let ?I = "\<lambda>i s. gj_inv n M s \<and> unit_upto n col (fst s) \<and> pm_get (fst s) col col \<and> (\<forall>r < i. r \<noteq> col \<longrightarrow> \<not> pm_get (fst s) r col)"
  have "?I n (fold (gj_clear col) [0..<n] (m, ops))"
  proof (rule fold_upt_induct [where I = ?I])
    fix r s assume r: "0 \<le> r" "r < n" "?I r s"
    obtain m' ops' where [simp]: "s = (m', ops')" by fastforce
    have ok: "pm_ok n n m'" by (rule gj_inv_ok [OF M, of _ ops']) (use r in simp)
    show "?I (Suc r) (gj_clear col r s)"
    proof (cases "r \<noteq> col \<and> pm_get m' r col")
      case True
      then show ?thesis
        using r col pm_cnot_spec(2) [OF ok r(2) col] gj_inv_op [of n M m' ops' r col]
        by (auto simp: gj_clear_def unit_upto_def row_add_apply less_Suc_eq)
    next
      case False
      then show ?thesis using r by (auto simp: gj_clear_def less_Suc_eq)
    qed
  qed (use s in auto)
  then show ?thesis by (cases "fold (gj_clear col) [0..<n] (m, ops)") (auto simp: unit_upto_def less_Suc_eq)
qed

lemma gj_loop_spec:
  assumes M: "pm_ok n n M" "invertible n (pm_get M)"
  shows "gj_inv n M s \<Longrightarrow> unit_upto n k (fst s) \<Longrightarrow> k \<le> n \<Longrightarrow>
    \<exists>s'. gj_loop n [k..<n] s = Some s' \<and> gj_inv n M s' \<and> unit_upto n n (fst s')"
proof (induction "n - k" arbitrary: k s)
  case (Suc d)
  then have k: "k < n" "[k..<n] = k # [Suc k..<n]" by (simp_all add: upt_conv_Cons)
  obtain m ops where [simp]: "s = (m, ops)" by fastforce
  obtain m1 ops1 where s1: "gj_seed k s = Some (m1, ops1)" "gj_inv n M (m1, ops1)" "unit_upto n k m1" "pm_get m1 k k"
    using gj_seed_spec [OF M, of m ops k] Suc.prems k(1) by auto
  obtain m2 ops2 where s2: "fold (gj_clear k) [0..<n] (m1, ops1) = (m2, ops2)" "gj_inv n M (m2, ops2)" "unit_upto n (Suc k) m2"
    using gj_clear_spec [OF M(1) s1(2-4) k(1)] by blast
  have "\<exists>s'. gj_loop n [Suc k..<n] (m2, ops2) = Some s' \<and> gj_inv n M s' \<and> unit_upto n n (fst s')"
    by (rule Suc.hyps(1)) (use Suc.hyps(2) s2 k(1) in auto)
  then show ?case using s1(1) s2(1) by (simp add: k(2))
qed auto

lemma gauss_jordan_spec:
  assumes M: "pm_ok n n M" "invertible n (pm_get M)"
  shows "\<exists>ops. gauss_jordan_reduce M = Some ops \<and> ops_ok n ops \<and> unit_upto n n (pm_cnots ops M)"
proof -
  obtain s where "gj_loop n [0..<n] (M, []) = Some s" "gj_inv n M s" "unit_upto n n (fst s)"
    using gj_loop_spec [OF M, of "(M, [])" 0] by (auto simp: gj_inv_def unit_upto_def)
  then show ?thesis using pm_okD(1) [OF M(1)] by (auto simp: gauss_jordan_reduce_def gj_inv_def)
qed

section \<open>Block elimination\<close>

lemma to_boolean_matrix_spec:
  assumes M: "pm_ok m k M"
  shows "bm_ok m k (to_boolean_matrix M)" "bm_ops (to_boolean_matrix M) = []"
    "r < m \<Longrightarrow> c < k \<Longrightarrow> bm_fun (to_boolean_matrix M) r c = pm_get M r c"
  using pm_okD(1,2) [OF M] by (auto simp: to_boolean_matrix_def bm_of_rows_def bm_ok_def bm_fun_def entry_def)

lemma pmh_candidate_spec:
  assumes M: "pm_ok n n M" "invertible n (pm_get M)" and bs: "0 < bs" and n: "0 < n"
  shows "ops_ok n (pmh_candidate M bs)" "unit_upto n n (pm_cnots (mirror (pmh_candidate M bs)) M)"
proof -
  let ?B = "to_boolean_matrix M"
  note B = to_boolean_matrix_spec [OF M(1)]
  obtain rank N where G: "gaussian_elimination_skip bs True True ?B = (rank, N)" by fastforce
  obtain ps where st: "steps n n True ?B N" "echelon (bm_fun N) n ps n" "length ps = rank" "unit_cols (bm_fun N) n ps 0"
    using gaussian_elimination_spec [OF B(1) bs n G] by blast
  obtain ops where ops: "ops_ok n ops" "bm_ops N = ops" "\<And>r c. r < n \<Longrightarrow> c < n \<Longrightarrow> bm_fun N r c = row_adds ops (bm_fun ?B) r c"
    using st(1) B(2) by (auto simp: steps_def)
  have c: "pmh_candidate M bs = ops" by (simp add: pmh_candidate_def G ops(2))
  have "invertible n (bm_fun ?B)" by (rule invertible_cong [OF M(2)]) (use B(3) in simp)
  then have "invertible n (row_adds ops (bm_fun ?B))" by (rule invertible_row_adds [OF _ ops(1)])
  then have inv: "invertible n (bm_fun N)" by (rule invertible_cong) (use ops(3) in simp)
  have ps: "length ps \<le> n" "sorted_wrt (<) ps" "\<forall>p \<in> set ps. p < n" "\<And>r j. length ps \<le> r \<Longrightarrow> r < n \<Longrightarrow> j < n \<Longrightarrow> \<not> bm_fun N r j"
    using st(2) by (auto simp: echelon_def)
  have "length ps = n"
  proof (rule ccontr)
    assume "length ps \<noteq> n"
    then have "card (set ps) < n" using ps(1) card_length [of ps] by linarith
    then obtain j where j: "j < n" "j \<notin> set ps"
      using card_mono [of "set ps" "{..<n}"] by (metis List.finite_set card_lessThan lessThan_iff not_le subsetI)
    have "\<not> invertible n (bm_fun N)"
      by (rule dependent_column [of ps n "bm_fun N" j]) (use st(4) ps(3,4) j in \<open>auto simp: unit_cols_def\<close>)
    then show False using inv by simp
  qed
  then have id: "bm_fun N r c = (r = c)" if "r < n" "c < n" for r c
    using reduced_identity [OF st(2,4)] that by simp
  show "ops_ok n (pmh_candidate M bs)" using ops(1) c by simp
  have "row_adds ops (pm_get M) r c = row_adds ops (bm_fun ?B) r c" if "r < n" "c < n" for r c
    by (rule row_adds_cong_rows [OF ops(1) _ that(1)]) (use B(3) that in simp)
  then show "unit_upto n n (pm_cnots (mirror (pmh_candidate M bs)) M)"
    using pm_cnots_spec [OF M(1), of "mirror ops"] ops id by (auto simp: c unit_upto_def)
qed

lemma pmh_spec:
  assumes M: "pm_ok n n M" "invertible n (pm_get M)" and n: "0 < n"
  shows "ops_ok n (patel_markov_hayes_reduce M)" "unit_upto n n (pm_cnots (patel_markov_hayes_reduce M) M)"
proof -
  let ?f = "\<lambda>block_size best. let row_ops = pmh_candidate M block_size in
    case best of None \<Rightarrow> Some row_ops | Some b \<Rightarrow> if length row_ops < length b then Some row_ops else Some b"
  have "\<exists>bs \<ge> 1. fold ?f [1..<Suc k] None = Some (pmh_candidate M bs)" if "0 < k" for k
    using that
  proof (induction k)
    case (Suc k)
    show ?case
    proof (cases "k = 0")
      case False
      then obtain bs where bs: "bs \<ge> 1" "fold ?f [1..<Suc k] None = Some (pmh_candidate M bs)" using Suc.IH by auto
      have "fold ?f [1..<Suc (Suc k)] None = ?f (Suc k) (fold ?f [1..<Suc k] None)" by simp
      then show ?thesis using bs by (cases "length (pmh_candidate M (Suc k)) < length (pmh_candidate M bs)") (auto simp: Let_def)
    qed (auto simp: Let_def)
  qed simp
  from this [of n] obtain bs where bs: "bs \<ge> 1" "fold ?f [1..<n_rows M + 1] None = Some (pmh_candidate M bs)"
    using n pm_okD(1) [OF M(1)] by auto
  then have "patel_markov_hayes_reduce M = mirror (pmh_candidate M bs)"
    by (simp add: patel_markov_hayes_reduce_def mirror_def)
  then show "ops_ok n (patel_markov_hayes_reduce M)" "unit_upto n n (pm_cnots (patel_markov_hayes_reduce M) M)"
    using pmh_candidate_spec [OF M _ n, of bs] bs(1) by auto
qed

text \<open>Both modes: the string returned reduces the matrix to the identity.\<close>

theorem synthesize_linear_spec:
  assumes M: "pm_ok n n M" "invertible n (pm_get M)"
  shows "\<exists>ops. synthesize_linear_reversible mode M = Some ops \<and> ops_ok n ops \<and> is_square_identity (pm_cnots ops M)"
proof (cases "n = 0")
  case True
  then show ?thesis using pm_okD(1) [OF M(1)] is_square_identity_iff [OF M(1)] by (auto simp: synthesize_linear_reversible_def)
next
  case False
  have "\<exists>ops. synthesize_linear_reversible mode M = Some ops \<and> ops_ok n ops \<and> unit_upto n n (pm_cnots ops M)"
    using gauss_jordan_spec [OF M] pmh_spec [OF M] False pm_okD(1) [OF M(1)]
    by (cases mode) (auto simp: synthesize_linear_reversible_def)
  then obtain ops where o: "synthesize_linear_reversible mode M = Some ops" "ops_ok n ops" "unit_upto n n (pm_cnots ops M)" by blast
  have "pm_ok n n (pm_cnots ops M)" using pm_cnots_spec [OF M(1) o(2)] by simp
  then have "is_square_identity (pm_cnots ops M)" using is_square_identity_iff o(3) by (auto simp: unit_upto_def)
  then show ?thesis using o by blast
qed

end
