(* ===== verification/PhaseProblems.thy ===== *)
theory PhaseProblems
  imports LinearSynthesis StabilizerSynthesis RotationSemantics "HOL-Library.Multiset"
begin

text \<open>
  Blocks of CNOT and \<open>Rz\<close> gates and the problem extracted from them (src/src/tableau/phasepoly/phase_block.hpp,
  phase_poly_problem.hpp, extractor.cpp). A block maps the basis state \<open>b\<close> to \<open>ops_bits ops b\<close> and turns it by
  the angle \<open>ops_turn ops b\<close>, in units of \<open>\<pi>\<close>; a problem says the same of its matrices: column \<open>c\<close> of the phase
  matrix turns by its angle when it has odd overlap with \<open>b\<close>, and column \<open>q\<close> of the output matrix gives qubit
  \<open>q\<close>. Extraction keeps both.
\<close>

section \<open>Gates and blocks\<close>

datatype phase_op_kind = OpCx | OpRz

record phase_op =
  op_kind :: phase_op_kind
  op_control :: nat
  op_target :: nat
  op_phase :: phase

definition make_cx :: "nat \<Rightarrow> nat \<Rightarrow> phase_op" where
  "make_cx c t = \<lparr>op_kind = OpCx, op_control = c, op_target = t, op_phase = phase_of_int 0\<rparr>"

definition make_rz :: "nat \<Rightarrow> phase \<Rightarrow> phase_op" where
  "make_rz q ph = \<lparr>op_kind = OpRz, op_control = q, op_target = q, op_phase = ph\<rparr>"

definition is_cx :: "phase_op \<Rightarrow> bool" where
  "is_cx op \<longleftrightarrow> op_kind op = OpCx"

definition is_rz :: "phase_op \<Rightarrow> bool" where
  "is_rz op \<longleftrightarrow> op_kind op = OpRz"

definition op_qubit :: "phase_op \<Rightarrow> nat" where
  "op_qubit op = op_control op"

record phase_block =
  blk_qubits :: nat
  blk_ops :: "phase_op list"
  blk_num_cx :: nat
  blk_num_rz :: nat

definition block_new :: "nat \<Rightarrow> phase_block" where
  "block_new n = \<lparr>blk_qubits = n, blk_ops = [], blk_num_cx = 0, blk_num_rz = 0\<rparr>"

definition append_cx :: "nat \<Rightarrow> nat \<Rightarrow> phase_block \<Rightarrow> phase_block" where
  "append_cx c t B = B\<lparr>blk_ops := blk_ops B @ [make_cx c t], blk_num_cx := blk_num_cx B + 1\<rparr>"

definition append_rz :: "nat \<Rightarrow> phase \<Rightarrow> phase_block \<Rightarrow> phase_block" where
  "append_rz q ph B = B\<lparr>blk_ops := blk_ops B @ [make_rz q ph], blk_num_rz := blk_num_rz B + 1\<rparr>"

definition num_ops :: "phase_block \<Rightarrow> nat" where
  "num_ops B = length (blk_ops B)"

definition append_block :: "phase_op list \<Rightarrow> phase_block \<Rightarrow> phase_block" where
  "append_block ops B =
     fold (\<lambda>op. if is_cx op then append_cx (op_control op) (op_target op) else append_rz (op_qubit op) (op_phase op)) ops B"

definition from_ops :: "nat \<Rightarrow> phase_op list \<Rightarrow> phase_block" where
  "from_ops n ops = append_block ops (block_new n)"

section \<open>Problems\<close>

record phase_poly_problem =
  prob_qubits :: nat
  phase_matrix :: parity_matrix
  phase_angles :: "phase list"
  output_matrix :: parity_matrix

definition num_phase_terms :: "phase_poly_problem \<Rightarrow> nat" where
  "num_phase_terms P = length (phase_angles P)"

definition problem_is_trivial :: "phase_poly_problem \<Rightarrow> bool" where
  "problem_is_trivial P \<longleftrightarrow> has_no_columns (phase_matrix P) \<and> is_square_identity (output_matrix P)"

text \<open>The columns met so far with their angles; \<open>column_of_parity\<close> finds a column by its key.\<close>

type_synonym parity_terms = "(bool list \<times> phase) list"

definition bits_key :: "bool list \<Rightarrow> string" where
  "bits_key bits = map (\<lambda>b. if b then CHR ''1'' else CHR ''0'') bits"

fun add_term :: "bool list \<Rightarrow> phase \<Rightarrow> parity_terms \<Rightarrow> parity_terms" where
  "add_term parity ph [] = [(parity, ph)]"
| "add_term parity ph ((parity', ph') # ts) =
     (if bits_key parity' = bits_key parity then (parity', phase_plus ph' ph) # ts
      else (parity', ph') # add_term parity ph ts)"

definition live_terms :: "parity_terms \<Rightarrow> parity_terms" where
  "live_terms ts = filter (\<lambda>(_, ph). \<not> phase_eq ph (phase_of_int 0)) ts"

definition problem_of_terms :: "nat \<Rightarrow> parity_terms \<Rightarrow> parity_matrix \<Rightarrow> phase_poly_problem" where
  "problem_of_terms n ts out =
     \<lparr>prob_qubits = n, phase_matrix = from_columns n (map fst ts), phase_angles = map snd ts, output_matrix = out\<rparr>"

definition scan_op :: "phase_op \<Rightarrow> symbolic_state \<times> parity_terms \<Rightarrow> symbolic_state \<times> parity_terms" where
  "scan_op op s =
     (case s of (state, ts) \<Rightarrow>
        if is_cx op then (sym_cnot (op_control op) (op_target op) state, ts)
        else (let parity = parity_of state (op_qubit op) in
              if bit_count parity = 0 then (state, ts) else (state, add_term parity (op_phase op) ts)))"

definition phase_block_to_problem :: "phase_block \<Rightarrow> phase_poly_problem" where
  "phase_block_to_problem B =
     (let n = blk_qubits B; (state, ts) = fold scan_op (blk_ops B) (sym_init n, [])
      in problem_of_terms n (live_terms ts) (to_output_matrix state))"

definition rotation_parity :: "nat \<Rightarrow> pauli_rotation \<Rightarrow> bool list" where
  "rotation_parity n R = map (is_z (rot_product R)) [0..<n]"

definition rotations_to_problem :: "pauli_rotation list \<Rightarrow> parity_matrix \<Rightarrow> phase_poly_problem" where
  "rotations_to_problem rotations out =
     (if rotations = [] then \<lparr>prob_qubits = n_rows out, phase_matrix = \<lparr>n_cols = 0, pm_rows = []\<rparr>, phase_angles = [], output_matrix = out\<rparr>
      else (let n = rot_n_qubits (hd rotations);
                ts = fold (\<lambda>R ts. let parity = rotation_parity n R in
                       if bit_count parity = 0 then ts else add_term parity (rot_phase R) ts) rotations []
            in problem_of_terms n (live_terms ts) out))"

text \<open>The synthesis strategy for stabilizer tableaux is an argument, as in the code.\<close>

fun replay_cnots :: "clifford_string \<Rightarrow> symbolic_state \<Rightarrow> symbolic_state option" where
  "replay_cnots [] s = Some s"
| "replay_cnots ((ty, a, b) # ops) s = (if ty \<noteq> COT_cx then None else replay_cnots ops (sym_cnot a b s))"

definition output_matrix_from_stabilizer :: "(stabilizer_tableau \<Rightarrow> clifford_string) \<Rightarrow> stabilizer_tableau \<Rightarrow> parity_matrix option" where
  "output_matrix_from_stabilizer synth clifford =
     map_option to_output_matrix (replay_cnots (synth clifford) (sym_init (st_n_qubits clifford)))"

definition tableau_block_to_problem ::
  "(stabilizer_tableau \<Rightarrow> clifford_string) \<Rightarrow> stabilizer_tableau \<Rightarrow> pauli_rotation list \<Rightarrow> phase_poly_problem option" where
  "tableau_block_to_problem synth clifford rotations =
     (if rotations \<noteq> [] \<and> \<not> list_all rot_is_diagonal rotations then None
      else map_option (rotations_to_problem rotations) (output_matrix_from_stabilizer synth clifford))"

section \<open>What gates do to a basis state\<close>

definition op_bits :: "phase_op \<Rightarrow> qstate \<Rightarrow> qstate" where
  "op_bits op b = (if is_cx op then cx_state (op_control op) (op_target op) b else b)"

definition op_turn :: "phase_op \<Rightarrow> qstate \<Rightarrow> rat" where
  "op_turn op b = (if is_cx op then 0 else if b (op_qubit op) then phase_val (op_phase op) else 0)"

definition ops_bits :: "phase_op list \<Rightarrow> qstate \<Rightarrow> qstate" where
  "ops_bits ops b = fold op_bits ops b"

fun ops_turn :: "phase_op list \<Rightarrow> qstate \<Rightarrow> rat" where
  "ops_turn [] b = 0"
| "ops_turn (op # ops) b = op_turn op b + ops_turn ops (op_bits op b)"

definition phase_op_ok :: "nat \<Rightarrow> phase_op \<Rightarrow> bool" where
  "phase_op_ok n op \<longleftrightarrow> op_control op < n \<and> (if is_cx op then op_target op < n \<and> op_target op \<noteq> op_control op else phase_ok (op_phase op))"

lemma op_simps [simp]:
  "is_cx (make_cx c t)" "\<not> is_cx (make_rz q ph)" "op_bits (make_cx c t) b = cx_state c t b" "op_bits (make_rz q ph) b = b"
  "op_turn (make_cx c t) b = 0" "op_turn (make_rz q ph) b = (if b q then phase_val ph else 0)"
  "phase_op_ok n (make_cx c t) \<longleftrightarrow> c < n \<and> t < n \<and> t \<noteq> c" "phase_op_ok n (make_rz q ph) \<longleftrightarrow> q < n \<and> phase_ok ph"
  by (simp_all add: make_cx_def make_rz_def is_cx_def op_bits_def op_turn_def phase_op_ok_def op_qubit_def)

lemma ops_bits_simps [simp]: "ops_bits [] b = b" "ops_bits (op # ops) b = ops_bits ops (op_bits op b)"
  "ops_bits (xs @ ys) b = ops_bits ys (ops_bits xs b)"
  by (simp_all add: ops_bits_def)

lemma ops_turn_append: "ops_turn (xs @ ys) b = ops_turn xs b + ops_turn ys (ops_bits xs b)"
  by (induction xs arbitrary: b) simp_all

text \<open>A copied gate does the same.\<close>

definition op_copy :: "phase_op \<Rightarrow> phase_op" where
  "op_copy op = (if is_cx op then make_cx (op_control op) (op_target op) else make_rz (op_control op) (op_phase op))"

lemma op_copy_same [simp]: "op_bits (op_copy op) b = op_bits op b" "op_turn (op_copy op) b = op_turn op b"
  "is_cx (op_copy op) = is_cx op" "phase_op_ok n op \<Longrightarrow> phase_op_ok n (op_copy op)"
  by (simp_all add: op_copy_def op_bits_def op_turn_def op_qubit_def is_cx_def make_cx_def make_rz_def phase_op_ok_def)

lemma append_block_ops:
  "blk_ops (append_block ops B) = blk_ops B @ map op_copy ops" "blk_qubits (append_block ops B) = blk_qubits B"
  "blk_num_cx (append_block ops B) = blk_num_cx B + length (filter is_cx ops)"
  "blk_num_rz (append_block ops B) = blk_num_rz B + length (filter (\<lambda>op. \<not> is_cx op) ops)"
  by (induction ops arbitrary: B) (simp_all add: append_block_def append_cx_def append_rz_def op_qubit_def op_copy_def)

lemma copy_bits [simp]: "ops_bits (map op_copy ops) b = ops_bits ops b" "ops_turn (map op_copy ops) b = ops_turn ops b"
  by (induction ops arbitrary: b) simp_all

lemma from_ops_spec:
  "blk_ops (from_ops n ops) = map op_copy ops" "blk_qubits (from_ops n ops) = n"
  "blk_num_cx (from_ops n ops) = length (filter is_cx ops)" "blk_num_rz (from_ops n ops) = length (filter (\<lambda>op. \<not> is_cx op) ops)"
  by (simp_all add: from_ops_def append_block_ops block_new_def)

text \<open>As operators on state vectors.\<close>

definition phase_op_op :: "phase_op \<Rightarrow> qvec \<Rightarrow> qvec" where
  "phase_op_op op v =
     (if is_cx op then q_cx (op_control op) (op_target op) v
      else (\<lambda>b. if b (op_qubit op) then cis (pi * phase_angle (op_phase op)) * v b else v b))"

definition phase_ops_op :: "phase_op list \<Rightarrow> qvec \<Rightarrow> qvec" where
  "phase_ops_op ops v = fold phase_op_op ops v"

definition turn :: "rat \<Rightarrow> complex" where
  "turn x = cis (pi * real_of_rat x)"

lemma turn_add: "turn (x + y) = turn x * turn y"
  by (simp add: turn_def of_rat_add cis_mult ring_distribs)

lemma turn_mod2: "mod2 x y \<Longrightarrow> turn x = turn y"
proof -
  assume "mod2 x y"
  then obtain k :: int where x: "x = y + 2 * of_int k" by (auto simp: mod2_def)
  have "real_of_rat (2 * of_int k) = 2 * real_of_int k" by (simp add: of_rat_mult)
  then have "turn (2 * of_int k) = cis (2 * pi * real_of_int k)" by (simp add: turn_def ac_simps)
  also have "\<dots> = 1" by (rule cis_multiple_2pi) simp
  finally show ?thesis by (simp add: x turn_add)
qed

lemma cx_state_twice: "c \<noteq> t \<Longrightarrow> cx_state c t (cx_state c t b) = b"
  by (auto simp: cx_state_def fun_eq_iff)

lemma phase_ops_basis:
  "list_all (phase_op_ok n) ops \<Longrightarrow> phase_ops_op ops v (ops_bits ops b) = turn (ops_turn ops b) * v b"
proof (induction ops arbitrary: v b)
  case Nil
  then show ?case by (simp add: phase_ops_op_def turn_def)
next
  case (Cons op ops)
  have "phase_op_op op v (op_bits op b) = turn (op_turn op b) * v b"
    using Cons.prems cx_state_twice [of "op_control op" "op_target op" b]
    by (auto simp: phase_op_op_def op_bits_def op_turn_def phase_op_ok_def q_cx_def turn_def phase_angle_def)
  then show ?case using Cons by (simp add: phase_ops_op_def turn_add)
qed

text \<open>Equal action on basis states is equality of operators.\<close>

lemma ops_bits_surj: "list_all (phase_op_ok n) ops \<Longrightarrow> \<exists>b. ops_bits ops b = b'"
proof (induction ops arbitrary: b')
  case (Cons op ops)
  then obtain b where b: "ops_bits ops b = b'" by auto
  have "op_bits op (op_bits op b) = b" using Cons.prems by (auto simp: op_bits_def phase_op_ok_def cx_state_twice split: if_splits)
  then have "\<exists>a. op_bits op a = b" by blast
  then show ?case using b by auto
qed simp

lemma phase_ops_unique:
  assumes "list_all (phase_op_ok n) xs" "\<And>b. F v (ops_bits xs b) = turn (ops_turn xs b) * v b"
  shows "F v = phase_ops_op xs v"
proof
  fix b' obtain b where "ops_bits xs b = b'" using ops_bits_surj [OF assms(1)] by blast
  then show "F v b' = phase_ops_op xs v b'" using assms(2) phase_ops_basis [OF assms(1), of v b] by metis
qed

section \<open>Overlaps\<close>

definition dot :: "nat \<Rightarrow> (nat \<Rightarrow> bool) \<Rightarrow> qstate \<Rightarrow> bool" where
  "dot n u b = gf2_sum (\<lambda>r. u r \<and> b r) n"

lemma dot_cong: "(\<And>r. r < n \<Longrightarrow> u r = w r) \<Longrightarrow> (\<And>r. r < n \<Longrightarrow> b r = b' r) \<Longrightarrow> dot n u b = dot n w b'"
  unfolding dot_def by (rule gf2_sum_cong) auto

lemma dot_xor: "dot n (\<lambda>r. bxor (u r) (w r)) b = bxor (dot n u b) (dot n w b)"
  by (simp add: dot_def bxor_conj gf2_sum_xor)

lemma dot_unit: "q < n \<Longrightarrow> dot n (\<lambda>r. r = q) b = b q" "q < n \<Longrightarrow> dot n u (\<lambda>r. r = q) = u q"
  by (simp_all add: dot_def gf2_sum_delta gf2_sum_delta_right)

text \<open>A CNOT on the qubits is a row operation on the parities that adds the target row to the control row.\<close>

lemma dot_cnot:
  assumes "c < n" "t < n" "c \<noteq> t"
  shows "dot n (\<lambda>r. row_add t c f r q) (cx_state c t b) = dot n (\<lambda>r. f r q) b"
proof -
  let ?h = "\<lambda>r. f r q \<and> b r"
  let ?g = "\<lambda>r. if r = t then f t q \<and> bxor (b t) (b c) else ?h r"
  have "dot n (\<lambda>r. row_add t c f r q) (cx_state c t b) = gf2_sum (\<lambda>r. if r = c then bxor (f c q) (f t q) \<and> b c else ?g r) n"
    unfolding dot_def by (rule gf2_sum_cong) (use assms in \<open>auto simp: row_add_apply cx_state_def\<close>)
  also have "\<dots> = bxor (gf2_sum ?g n) (bxor (?g c) (bxor (f c q) (f t q) \<and> b c))" by (rule gf2_sum_upd [OF assms(1)])
  also have "gf2_sum ?g n = bxor (gf2_sum ?h n) (bxor (?h t) (f t q \<and> bxor (b t) (b c)))" by (rule gf2_sum_upd [OF assms(2)])
  finally show ?thesis using assms(3) by (simp add: dot_def bxor_conj bxor_ac)
qed

definition terms_turn :: "nat \<Rightarrow> parity_terms \<Rightarrow> qstate \<Rightarrow> rat" where
  "terms_turn n ts b = (\<Sum>(p, a) \<leftarrow> ts. if dot n (test p) b then phase_val a else 0)"

lemma terms_turn_simps [simp]: "terms_turn n [] b = 0"
  "terms_turn n ((p, a) # ts) b = (if dot n (test p) b then phase_val a else 0) + terms_turn n ts b"
  by (simp_all add: terms_turn_def)

definition cols_turn :: "nat \<Rightarrow> parity_matrix \<Rightarrow> phase list \<Rightarrow> qstate \<Rightarrow> rat" where
  "cols_turn n M as b = (\<Sum>c < length as. if dot n (\<lambda>r. pm_get M r c) b then phase_val (as ! c) else 0)"

definition problem_turn :: "phase_poly_problem \<Rightarrow> qstate \<Rightarrow> rat" where
  "problem_turn P b = cols_turn (prob_qubits P) (phase_matrix P) (phase_angles P) b"

definition problem_map :: "phase_poly_problem \<Rightarrow> qstate \<Rightarrow> qstate" where
  "problem_map P b q = dot (prob_qubits P) (\<lambda>r. pm_get (output_matrix P) r q) b"

lemma cols_turn_terms: "cols_turn n (from_columns n (map fst ts)) (map snd ts) b = terms_turn n ts b"
proof -
  have "dot n (\<lambda>r. pm_get (from_columns n (map fst ts)) r c) b = dot n (test (fst (ts ! c))) b" if "c < length ts" for c
    by (rule dot_cong) (use that from_columns_spec(2) [of _ n c "map fst ts"] in auto)
  then have "cols_turn n (from_columns n (map fst ts)) (map snd ts) b =
      (\<Sum>c < length ts. if dot n (test (fst (ts ! c))) b then phase_val (snd (ts ! c)) else 0)"
    unfolding cols_turn_def by (intro sum.cong) auto
  also have "\<dots> = terms_turn n ts b"
    by (simp add: terms_turn_def sum_list_sum_nth case_prod_beta atLeast0LessThan)
  finally show ?thesis .
qed

text \<open>The parities that gates turn, each with its angle, as functions of the input; \<open>pull\<close> puts gates in front.\<close>

type_synonym turned = "((qstate \<Rightarrow> bool) \<times> phase) multiset"

definition pull :: "(qstate \<Rightarrow> qstate) \<Rightarrow> turned \<Rightarrow> turned" where
  "pull f T = image_mset (map_prod (\<lambda>u. u \<circ> f) id) T"

fun ops_terms :: "phase_op list \<Rightarrow> turned" where
  "ops_terms [] = {#}"
| "ops_terms (op # ops) = (if is_cx op then {#} else {#(\<lambda>b. b (op_qubit op), op_phase op)#}) + pull (op_bits op) (ops_terms ops)"

definition cols_terms :: "nat \<Rightarrow> parity_matrix \<Rightarrow> phase list \<Rightarrow> turned" where
  "cols_terms n M as = mset (map (\<lambda>c. (dot n (\<lambda>r. pm_get M r c), as ! c)) [0..<length as])"

definition problem_terms :: "phase_poly_problem \<Rightarrow> turned" where
  "problem_terms P = cols_terms (prob_qubits P) (phase_matrix P) (phase_angles P)"

lemma pull_simps [simp]: "pull f {#} = {#}" "pull f (S + T) = pull f S + pull f T" "pull f (add_mset x T) = add_mset (fst x \<circ> f, snd x) (pull f T)"
  by (simp_all add: pull_def map_prod_def split_beta)

lemma pull_pull: "pull f (pull g T) = pull (\<lambda>b. g (f b)) T"
  by (induction T) (simp_all add: comp_def)

lemma pull_id: "(\<And>b. f b = b) \<Longrightarrow> pull f T = T"
proof -
  assume "\<And>b. f b = b"
  then have "f = (\<lambda>b. b)" by (rule ext)
  then show ?thesis by (simp add: pull_def comp_def map_prod_def)
qed

lemma ops_terms_append: "ops_terms (xs @ ys) = ops_terms xs + pull (ops_bits xs) (ops_terms ys)"
proof (induction xs)
  case Nil
  then show ?case by (simp add: pull_id)
next
  case (Cons op xs)
  have "ops_bits (op # xs) = (\<lambda>b. ops_bits xs (op_bits op b))" by (simp add: fun_eq_iff)
  then show ?case using Cons by (simp add: add.assoc pull_pull)
qed

lemma ops_terms_snoc: "ops_terms (xs @ [make_cx c t]) = ops_terms xs"
  "ops_terms (xs @ [make_rz q a]) = add_mset (\<lambda>b. ops_bits xs b q, a) (ops_terms xs)"
  by (simp_all add: ops_terms_append make_rz_def make_cx_def is_cx_def op_qubit_def comp_def)

lemma cols_terms_Nil [simp]: "cols_terms n M [] = {#}"
  by (simp add: cols_terms_def)

end
