(* ===== verification/PhaseSearch.thy ===== *)
theory PhaseSearch
  imports PhaseProblems "HOL-Library.Product_Lexorder"
begin

text \<open>
  The search for a cheap block (src/src/tableau/phasepoly/search.cpp, search.hpp, config.hpp): a memory-bounded A*
  over the phase and the output matrix, with a greedy synthesis to fall back on. The open set, a \<open>std::map\<close> whose
  keys end in a counter, is a list sorted by key; the best costs are a map over the printed states. A failed
  elimination, on which the code asserts, and a loop that does not end are \<open>None\<close>.
\<close>

section \<open>States\<close>

record search_state =
  s_phase :: parity_matrix
  s_angles :: "phase list"
  s_output :: parity_matrix
  s_gates :: "phase_op list"
  g_cost :: nat

record phase_poly_config =
  max_queue_size :: nat
  max_solutions :: nat
  max_expansions :: nat
  finish_mode :: linear_synthesis_mode
  h2_mode :: linear_synthesis_mode
  group_sizes :: "nat list"
  apply_block_todd :: bool

definition default_config :: phase_poly_config where
  "default_config = \<lparr>max_queue_size = 10000, max_solutions = 5, max_expansions = 500000,
     finish_mode = PatelMarkovHayes, h2_mode = GaussJordan, group_sizes = [1, 2, 3, 5], apply_block_todd = True\<rparr>"

record synthesis_result =
  res_qubits :: nat
  res_gates :: "phase_op list"
  num_cx :: nat
  num_rz :: nat
  expansions :: nat
  max_queue :: nat
  num_solutions :: nat
  used_fallback :: bool

definition total_gates :: "synthesis_result \<Rightarrow> nat" where
  "total_gates r = num_cx r + num_rz r"

definition phase_cost :: "search_state \<Rightarrow> nat" where
  "phase_cost s = fold (\<lambda>c sum. sum + column_weight (s_phase s) c) [0..<n_cols (s_phase s)] 0"

text \<open>The first column with a single one, if there is one, becomes an \<open>Rz\<close> and is removed; then the scan
  starts again. A removal leaves one column less, which bounds the rounds.\<close>

definition find_ready :: "parity_matrix \<Rightarrow> nat option" where
  "find_ready M = (let c = find_index (\<lambda>c. single_one_row M c \<noteq> None) 0 (n_cols M) in if c < n_cols M then Some c else None)"

definition emit_ready :: "nat \<Rightarrow> search_state \<Rightarrow> search_state" where
  "emit_ready c s =
     s\<lparr>s_gates := s_gates s @ [make_rz (the (single_one_row (s_phase s) c)) (s_angles s ! c)],
       s_phase := remove_column c (s_phase s),
       s_angles := take c (s_angles s) @ drop (Suc c) (s_angles s)\<rparr>"

function remove_ready_phase_columns :: "search_state \<Rightarrow> search_state" where
  "remove_ready_phase_columns s =
     (case find_ready (s_phase s) of None \<Rightarrow> s | Some c \<Rightarrow> remove_ready_phase_columns (emit_ready c s))"
  by pat_completeness auto
termination
  by (relation "measure (\<lambda>s. n_cols (s_phase s))") (auto simp: find_ready_def Let_def emit_ready_def remove_column_def split: if_splits)

declare remove_ready_phase_columns.simps [simp del]

definition active_row_pairs :: "parity_matrix \<Rightarrow> (nat \<times> nat) list" where
  "active_row_pairs M =
     concat (map (\<lambda>i. map (Pair i) (filter (\<lambda>j. i \<noteq> j \<and> list_ex (\<lambda>c. pm_get M i c \<and> pm_get M j c) [0..<n_cols M]) [0..<n_rows M]))
       [0..<n_rows M])"

definition state_key :: "search_state \<Rightarrow> string" where
  "state_key s =
     concat (map (\<lambda>c. map (\<lambda>r. if pm_get (s_phase s) r c then CHR ''1'' else CHR ''0'') [0..<n_rows (s_phase s)] @
         '':'' @ get_print_string (s_angles s ! c) @ '';'') [0..<n_cols (s_phase s)]) @ ''#'' @
     concat (map (\<lambda>r. map (\<lambda>c. if pm_get (s_output s) r c then CHR ''1'' else CHR ''0'') [0..<n_cols (s_output s)])
       [0..<n_rows (s_output s)])"

definition step_cnot :: "nat \<Rightarrow> nat \<Rightarrow> search_state \<Rightarrow> search_state" where
  "step_cnot i j s =
     s\<lparr>s_phase := pm_cnot i j (s_phase s), s_output := pm_cnot i j (s_output s), s_gates := s_gates s @ [make_cx i j],
       g_cost := g_cost s + 1\<rparr>"

definition finish_output :: "linear_synthesis_mode \<Rightarrow> search_state \<Rightarrow> search_state option" where
  "finish_output mode s =
     map_option (\<lambda>ops. fold (\<lambda>(c, t) s. s\<lparr>s_output := pm_cnot c t (s_output s), s_gates := s_gates s @ [make_cx c t],
                               g_cost := g_cost s + 1\<rparr>) ops s)
       (synthesize_linear_reversible mode (s_output s))"

definition root_state :: "phase_poly_problem \<Rightarrow> search_state" where
  "root_state P = remove_ready_phase_columns
     \<lparr>s_phase = phase_matrix P, s_angles = phase_angles P, s_output = output_matrix P, s_gates = [], g_cost = 0\<rparr>"

section \<open>The greedy synthesis\<close>

text \<open>The first two rows with a one in the column; a missing one is \<open>n_rows\<close>, as in the code.\<close>

definition first_two :: "parity_matrix \<Rightarrow> nat \<Rightarrow> nat \<times> nat" where
  "first_two M col =
     (let first = find_index (\<lambda>r. pm_get M r col) 0 (n_rows M)
      in (first, find_index (\<lambda>r. pm_get M r col) (first + 1) (n_rows M)))"

partial_function (option) fold_column :: "nat \<Rightarrow> search_state \<Rightarrow> search_state option" where
  "fold_column col s =
     (if 1 < column_weight (s_phase s) col
      then (let (first, second) = first_two (s_phase s) col in fold_column col (step_cnot first second s))
      else Some s)"

declare fold_column.simps [code]

partial_function (option) greedy_loop :: "search_state \<Rightarrow> search_state option" where
  "greedy_loop s =
     (if has_no_columns (s_phase s) then Some s
      else (case fold_column 0 s of None \<Rightarrow> None | Some s' \<Rightarrow> greedy_loop (remove_ready_phase_columns s')))"

declare greedy_loop.simps [code]

definition greedy_synthesize :: "linear_synthesis_mode \<Rightarrow> phase_poly_problem \<Rightarrow> search_state option" where
  "greedy_synthesize mode P =
     (case greedy_loop (root_state P) of None \<Rightarrow> None | Some s \<Rightarrow> finish_output mode s)"

definition to_result :: "search_state \<Rightarrow> phase_poly_problem \<Rightarrow> synthesis_result" where
  "to_result s P =
     \<lparr>res_qubits = prob_qubits P, res_gates = s_gates s, num_cx = g_cost s, num_rz = num_phase_terms P,
      expansions = 0, max_queue = 0, num_solutions = 0, used_fallback = False\<rparr>"

definition greedy_synthesize_problem :: "phase_poly_config \<Rightarrow> phase_poly_problem \<Rightarrow> synthesis_result option" where
  "greedy_synthesize_problem cfg P = map_option (\<lambda>s. to_result s P) (greedy_synthesize (finish_mode cfg) P)"

section \<open>The A* search\<close>

type_synonym priority = "nat \<times> nat \<times> nat \<times> nat \<times> nat"

record open_set =
  queue :: "(priority \<times> search_state) list"
  best_g :: "string \<rightharpoonup> nat"
  counter :: nat

definition size_max :: nat where
  "size_max = 2 ^ 64 - 1"

definition priority_of :: "phase_poly_config \<Rightarrow> nat \<Rightarrow> search_state \<Rightarrow> priority option" where
  "priority_of cfg number s =
     map_option (\<lambda>h2. let h1 = phase_cost s in (g_cost s + h1 + h2, h1, h2, size_max - g_cost s, number))
       (linear_reversible_cnot_cost (h2_mode cfg) (s_output s))"

definition push_state :: "phase_poly_config \<Rightarrow> search_state \<Rightarrow> open_set \<Rightarrow> open_set option" where
  "push_state cfg s os =
     (let key = state_key s in
      if (case best_g os key of None \<Rightarrow> False | Some g \<Rightarrow> g \<le> g_cost s) then Some os
      else map_option (\<lambda>p. os\<lparr>best_g := (best_g os)(key \<mapsto> g_cost s), counter := counter os + 1,
                              queue := insort_key fst (p, s) (queue os)\<rparr>)
             (priority_of cfg (counter os) s))"

definition successor :: "search_state \<Rightarrow> nat \<times> nat \<Rightarrow> search_state" where
  "successor s ij = remove_ready_phase_columns (step_cnot (fst ij) (snd ij) s)"

fun push_all :: "phase_poly_config \<Rightarrow> search_state list \<Rightarrow> open_set \<Rightarrow> open_set option" where
  "push_all cfg [] os = Some os"
| "push_all cfg (s # ss) os = (case push_state cfg s os of None \<Rightarrow> None | Some os' \<Rightarrow> push_all cfg ss os')"

text \<open>One round per expansion, so \<open>max_expansions\<close> bounds them.\<close>

function astar_loop :: "phase_poly_config \<Rightarrow> open_set \<Rightarrow> search_state list \<Rightarrow> nat \<Rightarrow> nat \<Rightarrow>
    (search_state list \<times> nat \<times> nat) option" where
  "astar_loop cfg os solutions expd peak =
     (if queue os = [] \<or> \<not> expd < max_expansions cfg then Some (solutions, expd, peak)
      else
        (let s = snd (hd (queue os)); os1 = os\<lparr>queue := tl (queue os)\<rparr> in
         if has_no_columns (s_phase s) then
           (case (if is_square_identity (s_output s) then Some s else finish_output (finish_mode cfg) s) of
              None \<Rightarrow> None
            | Some s' \<Rightarrow>
                (if max_solutions cfg \<le> length (solutions @ [s']) then Some (solutions @ [s'], expd + 1, peak)
                 else astar_loop cfg os1 (solutions @ [s']) (expd + 1) peak))
         else
           (case push_all cfg (map (successor s) (active_row_pairs (s_phase s))) os1 of
              None \<Rightarrow> None
            | Some os2 \<Rightarrow>
                (let os3 = os2\<lparr>queue := take (max_queue_size cfg) (queue os2)\<rparr>
                 in astar_loop cfg os3 solutions (expd + 1) (max peak (length (queue os3)))))))"
  by pat_completeness auto
termination by (relation "measure (\<lambda>(cfg, os, solutions, expd, peak). max_expansions cfg - expd)") auto

declare astar_loop.simps [simp del]

text \<open>The first of the cheapest solutions.\<close>

definition best_solution :: "search_state list \<Rightarrow> search_state" where
  "best_solution ss = fold (\<lambda>s best. if g_cost s < g_cost best then s else best) ss (hd ss)"

definition synthesize_phasepoly :: "phase_poly_config \<Rightarrow> phase_poly_problem \<Rightarrow> synthesis_result option" where
  "synthesize_phasepoly cfg P =
     (case push_state cfg (root_state P) \<lparr>queue = [], best_g = Map.empty, counter = 0\<rparr> of
        None \<Rightarrow> None
      | Some os \<Rightarrow>
          (case astar_loop cfg os [] 0 (length (queue os)) of
             None \<Rightarrow> None
           | Some (solutions, expd, peak) \<Rightarrow>
               if solutions = [] then
                 map_option (\<lambda>s. (to_result s P)\<lparr>expansions := expd, max_queue := peak, num_solutions := 0, used_fallback := True\<rparr>)
                   (greedy_synthesize (finish_mode cfg) P)
               else Some ((to_result (best_solution solutions) P)\<lparr>expansions := expd, max_queue := peak,
                            num_solutions := length solutions\<rparr>)))"

end
