(* ===== verification/PhaseExtraction.thy ===== *)
theory PhaseExtraction
  imports PhaseProblems ToddExtraction
begin

text \<open>
  Extraction is correct: the problem of a block, of a list of diagonal rotations and of a CNOT-only stabilizer
  tableau has the angles and the linear map of what it was extracted from, identical parities are merged, and
  the CNOTs of a block, in their order, reduce its output matrix to the identity.
\<close>

section \<open>Collecting the terms\<close>

lemma bits_key_inj: "bits_key p = bits_key q \<longleftrightarrow> p = q"
proof
  show "bits_key p = bits_key q \<Longrightarrow> p = q"
    by (induction p arbitrary: q) (auto simp: bits_key_def Cons_eq_map_conv map_eq_Cons_conv split: if_splits)
qed simp

definition terms_ok :: "nat \<Rightarrow> parity_terms \<Rightarrow> bool" where
  "terms_ok n ts \<longleftrightarrow> distinct (map fst ts) \<and> (\<forall>(p, a) \<in> set ts. length p = n \<and> bit_count p \<noteq> 0 \<and> phase_ok a)"

lemma terms_ok_simps [simp]: "terms_ok n []"
  "terms_ok n ((p, a) # ts) \<longleftrightarrow> p \<notin> fst ` set ts \<and> length p = n \<and> bit_count p \<noteq> 0 \<and> phase_ok a \<and> terms_ok n ts"
  by (auto simp: terms_ok_def)

lemma add_term_dom: "fst ` set (add_term p a ts) = insert p (fst ` set ts)"
  by (induction p a ts rule: add_term.induct) (auto simp: bits_key_inj)

lemma add_term_ok: "terms_ok n ts \<Longrightarrow> length p = n \<Longrightarrow> bit_count p \<noteq> 0 \<Longrightarrow> phase_ok a \<Longrightarrow> terms_ok n (add_term p a ts)"
  by (induction p a ts rule: add_term.induct) (auto simp: bits_key_inj add_term_dom phase_plus_ok(1))

definition angles_ok :: "parity_terms \<Rightarrow> bool" where
  "angles_ok ts \<longleftrightarrow> (\<forall>(p, a) \<in> set ts. phase_ok a)"

lemma terms_ok_angles: "terms_ok n ts \<Longrightarrow> angles_ok ts"
  by (auto simp: terms_ok_def angles_ok_def)

lemma angles_ok_simps [simp]: "angles_ok []" "angles_ok ((p, a) # ts) \<longleftrightarrow> phase_ok a \<and> angles_ok ts"
  by (auto simp: angles_ok_def)

lemma add_term_turn:
  "angles_ok ts \<Longrightarrow> phase_ok a \<Longrightarrow>
    mod2 (terms_turn n (add_term p a ts) b) (terms_turn n ts b + (if dot n (test p) b then phase_val a else 0))"
proof (induction p a ts rule: add_term.induct)
  case (2 p a p' a' ts)
  show ?case
  proof (cases "bits_key p' = bits_key p")
    case True
    have "mod2 (phase_val (phase_plus a' a) + terms_turn n ts b) (phase_val a' + phase_val a + terms_turn n ts b)"
      using 2 phase_plus_ok(2) by (intro mod2_add) auto
    then show ?thesis using True by (simp add: bits_key_inj ac_simps)
  next
    case False
    have "mod2 ((if dot n (test p') b then phase_val a' else 0) + terms_turn n (add_term p a ts) b)
        ((if dot n (test p') b then phase_val a' else 0) + (terms_turn n ts b + (if dot n (test p) b then phase_val a else 0)))"
      using "2.IH" [OF False] "2.prems" by (intro mod2_add mod2_refl) simp
    then show ?thesis using False by (simp add: add.assoc)
  qed
qed simp

lemma phase_zero: "phase_ok a \<Longrightarrow> phase_eq a (phase_of_int 0) \<Longrightarrow> phase_val a = 0"
  by (simp add: phase_eq_iff phase_constants)

lemma live_terms_turn: "angles_ok ts \<Longrightarrow> terms_turn n (live_terms ts) b = terms_turn n ts b"
proof (induction ts)
  case (Cons t ts)
  then show ?case by (cases t) (auto simp: live_terms_def dest: phase_zero)
qed (simp add: live_terms_def)

lemma live_terms_ok: "terms_ok n ts \<Longrightarrow> terms_ok n (live_terms ts)"
  unfolding terms_ok_def live_terms_def using distinct_map_filter [of fst ts] by auto

section \<open>Blocks\<close>

text \<open>A problem without rotations has a phase matrix without rows.\<close>

definition phase_dims :: "nat \<Rightarrow> nat \<Rightarrow> parity_matrix \<Rightarrow> bool" where
  "phase_dims n k M \<longleftrightarrow> pm_ok n k M \<or> (k = 0 \<and> n_cols M = 0)"

definition problem_ok :: "nat \<Rightarrow> phase_poly_problem \<Rightarrow> bool" where
  "problem_ok n P \<longleftrightarrow> prob_qubits P = n \<and> phase_dims n (length (phase_angles P)) (phase_matrix P) \<and>
     (\<forall>a \<in> set (phase_angles P). phase_ok a) \<and> pm_ok n n (output_matrix P) \<and> invertible n (pm_get (output_matrix P))"

definition no_zero_columns :: "parity_matrix \<Rightarrow> bool" where
  "no_zero_columns M \<longleftrightarrow> (\<forall>c < n_cols M. \<exists>r < n_rows M. pm_get M r c)"

lemma problem_of_terms_spec:
  assumes "terms_ok n ts" "pm_ok n n out" "invertible n (pm_get out)"
  shows "problem_ok n (problem_of_terms n ts out)" "no_zero_columns (phase_matrix (problem_of_terms n ts out))"
    "problem_turn (problem_of_terms n ts out) b = terms_turn n ts b"
    "problem_map (problem_of_terms n ts out) b q = dot n (\<lambda>r. pm_get out r q) b"
proof -
  note c = from_columns_spec [where n = n and cs = "map fst ts"]
  show "problem_ok n (problem_of_terms n ts out)"
    using assms c(1) by (auto simp: problem_ok_def problem_of_terms_def terms_ok_def phase_dims_def)
  have "\<exists>r < n. test (fst (ts ! i)) r" if "i < length ts" for i
  proof -
    have "length (fst (ts ! i)) = n" "bit_count (fst (ts ! i)) \<noteq> 0"
      using assms(1) nth_mem [OF that] by (cases "ts ! i"; force simp: terms_ok_def)+
    then show ?thesis by (auto simp: bit_count_0 test_def)
  qed
  then show "no_zero_columns (phase_matrix (problem_of_terms n ts out))"
    using pm_okD(1,2) [OF c(1)] c(2) unfolding no_zero_columns_def problem_of_terms_def by simp (metis (no_types, lifting) nth_map)
  show "problem_turn (problem_of_terms n ts out) b = terms_turn n ts b"
    by (simp add: problem_turn_def problem_of_terms_def cols_turn_terms)
  show "problem_map (problem_of_terms n ts out) b q = dot n (\<lambda>r. pm_get out r q) b"
    by (simp add: problem_map_def problem_of_terms_def)
qed

definition scan_inv :: "nat \<Rightarrow> phase_op list \<Rightarrow> symbolic_state \<times> parity_terms \<Rightarrow> bool" where
  "scan_inv n ops s \<longleftrightarrow> sym_ok n (fst s) \<and> terms_ok n (snd s) \<and>
     (\<forall>b. (\<forall>q < n. dot n (test (parity_of (fst s) q)) b = ops_bits ops b q) \<and> mod2 (terms_turn n (snd s) b) (ops_turn ops b))"

lemma sym_cnot_dot:
  assumes s: "sym_ok n s" and ct: "c < n" "t < n" "c \<noteq> t" and d: "\<And>q. q < n \<Longrightarrow> dot n (test (parity_of s q)) b = x q" and q: "q < n"
  shows "dot n (test (parity_of (sym_cnot c t s) q)) b = cx_state c t x q"
proof (cases "q = t")
  case True
  then have "dot n (test (parity_of (sym_cnot c t s) q)) b = dot n (\<lambda>r. bxor (test (parity_of s t) r) (test (parity_of s c) r)) b"
    using sym_cnot_ok(2) [OF s ct(1,2,3) q] by (intro dot_cong) auto
  then show ?thesis using True d ct by (simp add: dot_xor cx_state_def)
next
  case False
  then have "dot n (test (parity_of (sym_cnot c t s) q)) b = dot n (test (parity_of s q)) b"
    using sym_cnot_ok(2) [OF s ct(1,2,3) q] by (intro dot_cong) auto
  then show ?thesis using False d q by (simp add: cx_state_def)
qed

lemma parity_length: "sym_ok n s \<Longrightarrow> q < n \<Longrightarrow> length (parity_of s q) = n"
  by (auto simp: sym_ok_def parity_of_def)

lemma zero_parity: "bit_count p = 0 \<Longrightarrow> \<not> dot n (test p) b"
  by (auto simp: dot_def bit_count_0 intro: gf2_sum_all_zero)

lemma scan_op_inv:
  assumes s: "scan_inv n ops s" and op: "phase_op_ok n op"
  shows "scan_inv n (ops @ [op]) (scan_op op s)"
proof -
  obtain st ts where [simp]: "s = (st, ts)" by fastforce
  have st: "sym_ok n st" and ts: "terms_ok n ts" and d: "\<And>b q. q < n \<Longrightarrow> dot n (test (parity_of st q)) b = ops_bits ops b q"
    and m: "\<And>b. mod2 (terms_turn n ts b) (ops_turn ops b)"
    using s by (auto simp: scan_inv_def)
  show ?thesis
  proof (cases "is_cx op")
    case True
    then have ct: "op_control op < n" "op_target op < n" "op_control op \<noteq> op_target op" using op by (auto simp: phase_op_ok_def)
    show ?thesis
      using sym_cnot_ok(1) [OF st ct(1,2)] ts m sym_cnot_dot [OF st ct d] True
      by (simp add: scan_inv_def scan_op_def op_bits_def ops_turn_append op_turn_def)
  next
    case False
    then have q: "op_qubit op < n" "phase_ok (op_phase op)" using op by (auto simp: phase_op_ok_def op_qubit_def)
    let ?p = "parity_of st (op_qubit op)"
    have t: "ops_turn (ops @ [op]) b = ops_turn ops b + (if dot n (test ?p) b then phase_val (op_phase op) else 0)" for b
      using False d [OF q(1)] by (simp add: ops_turn_append op_turn_def)
    have m1: "mod2 (terms_turn n (add_term ?p (op_phase op) ts) b) (ops_turn (ops @ [op]) b)" for b
      unfolding t by (rule mod2_trans [OF add_term_turn [OF terms_ok_angles [OF ts] q(2)] mod2_add [OF m mod2_refl]])
    show ?thesis
    proof (cases "bit_count ?p = 0")
      case True
      then show ?thesis using False st ts d m t zero_parity by (simp add: scan_inv_def scan_op_def op_bits_def)
    next
      case nz: False
      then show ?thesis
        using False st d m1 add_term_ok [OF ts parity_length [OF st q(1)] nz q(2)]
        by (simp add: scan_inv_def scan_op_def op_bits_def Let_def)
    qed
  qed
qed

lemma scan_inv_all: "list_all (phase_op_ok n) ops \<Longrightarrow> scan_inv n ops (fold scan_op ops (sym_init n, []))"
proof (induction ops rule: rev_induct)
  case Nil
  have "dot n (test (parity_of (sym_init n) q)) b = b q" if "q < n" for b q
    using dot_cong [of n "test (parity_of (sym_init n) q)" "\<lambda>r. r = q" b b] sym_init_ok(2) [OF that] dot_unit(1) [OF that] by simp
  then show ?case by (simp add: scan_inv_def sym_init_ok(1))
next
  case (snoc op ops)
  then show ?case using scan_op_inv by simp
qed

text \<open>A matrix whose columns are the final parities is reduced by the CNOTs of the block, in their order.\<close>

lemma output_reduces:
  assumes "list_all (phase_op_ok n) ops" "\<And>b q. q < n \<Longrightarrow> dot n (\<lambda>r. f r q) b = ops_bits ops b q"
  defines "cs \<equiv> map (\<lambda>op. (op_control op, op_target op)) (filter is_cx ops)"
  shows "ops_ok n cs" "r < n \<Longrightarrow> q < n \<Longrightarrow> row_adds (mirror cs) f r q = (r = q)"
proof -
  have "ops_ok n cs \<and> (\<forall>r < n. \<forall>q < n. row_adds (mirror cs) f r q = (r = q))"
    using assms(1,2) unfolding cs_def
  proof (induction ops arbitrary: f)
    case Nil
    have "f r q = (r = q)" if "r < n" "q < n" for r q
      using Nil.prems(2) [OF that(2), of "\<lambda>i. i = r"] dot_unit(2) [OF that(1)] by auto
    then show ?case by simp
  next
    case (Cons op ops)
    show ?case
    proof (cases "is_cx op")
      case True
      let ?c = "op_control op" and ?t = "op_target op"
      have ct: "?c < n" "?t < n" "?c \<noteq> ?t" using Cons.prems(1) True by (auto simp: phase_op_ok_def)
      have "dot n (\<lambda>r. row_add ?t ?c f r q) b = ops_bits ops b q" if "q < n" for b q
        using dot_cnot [OF ct, of f q "cx_state ?c ?t b"] Cons.prems(2) [OF that, of "cx_state ?c ?t b"] True
        by (simp add: cx_state_twice [OF ct(3)] op_bits_def)
      then show ?thesis using Cons.IH [of "row_add ?t ?c f"] Cons.prems(1) True ct by simp
    next
      case False
      then show ?thesis using Cons.IH [of f] Cons.prems by (simp add: op_bits_def)
    qed
  qed
  then show "ops_ok n cs" "r < n \<Longrightarrow> q < n \<Longrightarrow> row_adds (mirror cs) f r q = (r = q)" by auto
qed

lemma scan_output:
  assumes ops: "list_all (phase_op_ok n) ops" and s: "scan_inv n ops s"
  shows "pm_ok n n (to_output_matrix (fst s))" "invertible n (pm_get (to_output_matrix (fst s)))"
    "q < n \<Longrightarrow> dot n (\<lambda>r. pm_get (to_output_matrix (fst s)) r q) b = ops_bits ops b q"
proof -
  have st: "sym_ok n (fst s)" and d: "\<And>b q. q < n \<Longrightarrow> dot n (test (parity_of (fst s) q)) b = ops_bits ops b q"
    using s by (auto simp: scan_inv_def)
  note o = to_output_matrix_spec [OF st]
  show "pm_ok n n (to_output_matrix (fst s))" by (rule o(1))
  have e: "dot n (\<lambda>r. pm_get (to_output_matrix (fst s)) r q) b = ops_bits ops b q" if "q < n" for b q
    using dot_cong [of n "\<lambda>r. pm_get (to_output_matrix (fst s)) r q" "test (parity_of (fst s) q)" b b] o(2) that d by simp
  then show "q < n \<Longrightarrow> dot n (\<lambda>r. pm_get (to_output_matrix (fst s)) r q) b = ops_bits ops b q" .
  show "invertible n (pm_get (to_output_matrix (fst s)))"
    unfolding invertible_def
    by (intro exI [of _ "mirror (map (\<lambda>op. (op_control op, op_target op)) (filter is_cx ops))"])
      (use output_reduces [OF ops e] in auto)
qed

theorem phase_block_spec:
  assumes B: "list_all (phase_op_ok n) (blk_ops B)" "blk_qubits B = n"
  defines "P \<equiv> phase_block_to_problem B"
  shows "problem_ok n P" "no_zero_columns (phase_matrix P)"
    "mod2 (problem_turn P b) (ops_turn (blk_ops B) b)" "q < n \<Longrightarrow> problem_map P b q = ops_bits (blk_ops B) b q"
proof -
  obtain st ts where s: "fold scan_op (blk_ops B) (sym_init n, []) = (st, ts)" by fastforce
  have inv: "scan_inv n (blk_ops B) (st, ts)" using scan_inv_all [OF B(1)] s by simp
  then have ts: "terms_ok n ts" and m: "mod2 (terms_turn n ts b) (ops_turn (blk_ops B) b)" by (auto simp: scan_inv_def)
  note o = scan_output [OF B(1) inv, simplified]
  have P: "P = problem_of_terms n (live_terms ts) (to_output_matrix st)"
    by (simp add: P_def phase_block_to_problem_def B(2) s)
  note p = problem_of_terms_spec [OF live_terms_ok [OF ts] o(1,2), folded P]
  show "problem_ok n P" "no_zero_columns (phase_matrix P)" by (rule p(1), rule p(2))
  show "mod2 (problem_turn P b) (ops_turn (blk_ops B) b)" using m by (simp add: p(3) live_terms_turn terms_ok_angles [OF ts])
  show "q < n \<Longrightarrow> problem_map P b q = ops_bits (blk_ops B) b q" by (simp add: p(4) o(3))
qed

section \<open>Diagonal rotations\<close>

lemma rot_op_turn:
  assumes R: "rot_ok n R" "rot_is_diagonal R"
  shows "rot_op R v b = turn (if dot n (test (rotation_parity n R)) b then phase_val (rot_phase R) else 0) * v b"
proof -
  have P: "pp_ok n (rot_product R)" "is_diagonal (rot_product R)" "\<not> is_neg (rot_product R)"
    using rot_okD [OF R(1)] R(2) by (auto simp: rot_is_diagonal_def)
  have z: "is_z (rot_product R) i = is_z_set (rot_product R) i" if "i < n" for i
    using P that by (auto simp: is_z_def diag_iff)
  have "dot n (test (rotation_parity n R)) b = odd (cnt b (filter (is_z_set (rot_product R)) [0..<n]))"
  proof -
    have "dot n (test (rotation_parity n R)) b = gf2_sum (\<lambda>i. is_z_set (rot_product R) i \<and> b i) n"
      unfolding dot_def by (rule gf2_sum_cong) (simp_all add: rotation_parity_def z)
    also have "\<dots> = odd (cnt b (filter (is_z_set (rot_product R)) [0..<n]))"
      by (induction n) (auto simp: bxor_def)
    finally show ?thesis .
  qed
  then show ?thesis
    using q_pauli_diagonal [OF P, of v b]
    by (simp add: rot_op_def q_rot_def vplus_def vscale_def turn_def phase_angle_def field_simps)
qed

lemma turn_nonzero [simp]: "turn x \<noteq> 0"
  by (simp add: turn_def)

definition collect_rotations :: "nat \<Rightarrow> pauli_rotation list \<Rightarrow> parity_terms \<Rightarrow> parity_terms" where
  "collect_rotations n rs ts =
     fold (\<lambda>R ts. let parity = rotation_parity n R in
       if bit_count parity = 0 then ts else add_term parity (rot_phase R) ts) rs ts"

lemma collect_rotations_spec:
  "rots_ok n rs \<Longrightarrow> diag_rotations rs \<Longrightarrow> terms_ok n ts \<Longrightarrow>
    terms_ok n (collect_rotations n rs ts) \<and>
    rots_op rs v b * turn (terms_turn n ts b) = turn (terms_turn n (collect_rotations n rs ts) b) * v b"
proof (induction rs arbitrary: ts v)
  case Nil
  then show ?case by (simp add: collect_rotations_def)
next
  case (Cons R rs)
  have R: "rot_ok n R" "rot_is_diagonal R" using Cons.prems by (auto simp: diag_rotations_def)
  let ?p = "rotation_parity n R"
  let ?ts = "if bit_count ?p = 0 then ts else add_term ?p (rot_phase R) ts"
  have l: "length ?p = n" by (simp add: rotation_parity_def)
  have ok: "terms_ok n ?ts" using Cons.prems(3) add_term_ok [OF _ l _ rot_okD(3) [OF R(1)]] by auto
  have t: "turn (terms_turn n ?ts b) = turn (terms_turn n ts b) * turn (if dot n (test ?p) b then phase_val (rot_phase R) else 0)"
  proof (cases "bit_count ?p = 0")
    case True
    then show ?thesis using zero_parity by (simp add: turn_def)
  next
    case False
    then show ?thesis
      using turn_mod2 [OF add_term_turn [OF terms_ok_angles [OF Cons.prems(3)] rot_okD(3) [OF R(1)], of n ?p b]]
      by (simp only: if_False turn_add simp_thms)
  qed
  have c: "collect_rotations n (R # rs) ts = collect_rotations n rs ?ts" by (simp add: collect_rotations_def Let_def)
  have ih: "terms_ok n (collect_rotations n rs ?ts) \<and>
    rots_op rs w b * turn (terms_turn n ?ts b) = turn (terms_turn n (collect_rotations n rs ?ts) b) * w b" for w
    by (rule Cons.IH) (use Cons.prems ok in \<open>auto simp: diag_rotations_def\<close>)
  let ?\<rho> = "turn (if dot n (test ?p) b then phase_val (rot_phase R) else 0)"
  have "rots_op rs (rot_op R v) b * (turn (terms_turn n ts b) * ?\<rho>) = turn (terms_turn n (collect_rotations n rs ?ts) b) * (?\<rho> * v b)"
    using ih [of "rot_op R v"] rot_op_turn [OF R, of v b] t by simp
  then have "rots_op rs (rot_op R v) b * turn (terms_turn n ts b) = turn (terms_turn n (collect_rotations n rs ?ts) b) * v b"
    using turn_nonzero by (simp add: ac_simps)
  then show ?case using ih unfolding c by simp
qed

theorem rotations_to_problem_spec:
  assumes rs: "rots_ok n rs" "diag_rotations rs" and out: "pm_ok n n out" "invertible n (pm_get out)"
  defines "P \<equiv> rotations_to_problem rs out"
  shows "problem_ok n P" "no_zero_columns (phase_matrix P)" "rots_op rs v b = turn (problem_turn P b) * v b"
    "problem_map P b q = dot n (\<lambda>r. pm_get out r q) b"
proof -
  have "problem_ok n P \<and> no_zero_columns (phase_matrix P) \<and> rots_op rs v b = turn (problem_turn P b) * v b \<and>
    problem_map P b q = dot n (\<lambda>r. pm_get out r q) b"
  proof (cases rs)
    case Nil
    then show ?thesis
      using out pm_okD(1) [OF out(1)]
      by (simp add: P_def rotations_to_problem_def problem_ok_def phase_dims_def no_zero_columns_def problem_turn_def cols_turn_def
          problem_map_def turn_def)
  next
    case (Cons R rs')
    have n: "rot_n_qubits (hd rs) = n" using rs(1) by (auto simp: Cons rot_ok_def pp_ok_def rot_n_qubits_def)
    let ?ts = "collect_rotations n rs []"
    have c: "terms_ok n ?ts" "rots_op rs v b = turn (terms_turn n ?ts b) * v b"
      using collect_rotations_spec [OF rs terms_ok_simps(1), of v b] by (simp_all add: turn_def)
    have "P = problem_of_terms n (live_terms ?ts) out"
      using Cons n by (simp only: P_def rotations_to_problem_def Let_def collect_rotations_def list.simps if_False)
    then show ?thesis
      using problem_of_terms_spec [OF live_terms_ok [OF c(1)] out] c(2) by (simp add: live_terms_turn terms_ok_angles [OF c(1)])
  qed
  then show "problem_ok n P" "no_zero_columns (phase_matrix P)" "rots_op rs v b = turn (problem_turn P b) * v b"
    "problem_map P b q = dot n (\<lambda>r. pm_get out r q) b" by auto
qed

section \<open>CNOT-only tableaux\<close>

lemma replay_cnots_spec:
  "string_ok n cs \<Longrightarrow> replay_cnots cs s = Some s' \<Longrightarrow>
    (\<exists>ops. list_all (phase_op_ok n) ops \<and> (\<forall>ts. fold scan_op ops (s, ts) = (s', ts)) \<and>
      (\<forall>v. trait_apply_string q_trait cs v = phase_ops_op ops v))"
proof (induction cs arbitrary: s)
  case Nil
  then show ?case by (intro exI [of _ "[]"]) (simp add: phase_ops_op_def)
next
  case (Cons x cs)
  obtain a b where x: "x = (COT_cx, a, b)" using Cons.prems(2) by (cases x) (auto split: if_splits)
  obtain ops where o: "list_all (phase_op_ok n) ops" "\<And>ts. fold scan_op ops (sym_cnot a b s, ts) = (s', ts)"
    "\<And>v. trait_apply_string q_trait cs v = phase_ops_op ops v"
    using Cons.IH [of "sym_cnot a b s"] Cons.prems unfolding x by auto
  have g: "scan_op (make_cx a b) (s, ts) = (sym_cnot a b s, ts)" "phase_op_op (make_cx a b) v = q_cx a b v" for ts v
    by (simp_all add: scan_op_def phase_op_op_def make_cx_def is_cx_def)
  have "trait_apply_string q_trait (x # cs) v = phase_ops_op (make_cx a b # ops) v" for v
    using o(3) [of "q_cx a b v"] by (simp add: x phase_ops_op_def g(2))
  then show ?case
    using o(1,2) Cons.prems(1) by (intro exI [of _ "make_cx a b # ops"]) (auto simp: x g)
qed

theorem output_matrix_from_stabilizer_spec:
  assumes cs: "string_ok n (synth T)" and T: "st_n_qubits T = n" and o: "output_matrix_from_stabilizer synth T = Some out"
  shows "pm_ok n n out" "invertible n (pm_get out)"
    "\<exists>ops. list_all (phase_op_ok n) ops \<and> (\<forall>v. trait_apply_string q_trait (synth T) v = phase_ops_op ops v) \<and>
      (\<forall>b. turn (ops_turn ops b) = 1) \<and> (\<forall>b. \<forall>q < n. dot n (\<lambda>r. pm_get out r q) b = ops_bits ops b q)"
proof -
  obtain s' where s': "replay_cnots (synth T) (sym_init n) = Some s'" "out = to_output_matrix s'"
    using o T by (auto simp: output_matrix_from_stabilizer_def)
  obtain ops where ops: "list_all (phase_op_ok n) ops" "\<And>ts. fold scan_op ops (sym_init n, ts) = (s', ts)"
    "\<And>v. trait_apply_string q_trait (synth T) v = phase_ops_op ops v"
    using replay_cnots_spec [OF cs s'(1)] by blast
  have inv: "scan_inv n ops (s', [])" using scan_inv_all [OF ops(1)] ops(2) [of "[]"] by simp
  note so = scan_output [OF ops(1) inv, simplified, folded s'(2)]
  show "pm_ok n n out" "invertible n (pm_get out)" by (rule so(1), rule so(2))
  show "\<exists>ops. list_all (phase_op_ok n) ops \<and> (\<forall>v. trait_apply_string q_trait (synth T) v = phase_ops_op ops v) \<and>
      (\<forall>b. turn (ops_turn ops b) = 1) \<and> (\<forall>b. \<forall>q < n. dot n (\<lambda>r. pm_get out r q) b = ops_bits ops b q)"
    using ops so(3) inv turn_mod2 [of 0] by (intro exI [of _ ops]) (auto simp: scan_inv_def turn_def)
qed

end
