(* ===== verification/PhaseSearchCorrect.thy ===== *)
theory PhaseSearchCorrect
  imports PhaseSearch PhaseExtraction
begin

text \<open>
  The invariant of the search: the gates emitted so far followed by what the matrices of the state still ask for
  are what the problem asks for. Every step of the search keeps it, the costs count the CNOTs, and a state without
  columns whose output is the identity holds a solution.
\<close>

section \<open>The invariant\<close>

definition search_inv :: "nat \<Rightarrow> phase_poly_problem \<Rightarrow> search_state \<Rightarrow> bool" where
  "search_inv n P s \<longleftrightarrow> phase_dims n (length (s_angles s)) (s_phase s) \<and> (\<forall>a \<in> set (s_angles s). phase_ok a) \<and>
     pm_ok n n (s_output s) \<and> invertible n (pm_get (s_output s)) \<and> list_all (phase_op_ok n) (s_gates s) \<and>
     g_cost s = length (filter is_cx (s_gates s)) \<and>
     length (filter (\<lambda>op. \<not> is_cx op) (s_gates s)) + length (s_angles s) = num_phase_terms P \<and>
     ops_terms (s_gates s) + pull (ops_bits (s_gates s)) (cols_terms n (s_phase s) (s_angles s)) = problem_terms P \<and>
     (\<forall>b. ops_turn (s_gates s) b + cols_turn n (s_phase s) (s_angles s) (ops_bits (s_gates s) b) = problem_turn P b \<and>
        (\<forall>q < n. dot n (\<lambda>r. pm_get (s_output s) r q) (ops_bits (s_gates s) b) = problem_map P b q))"

lemma search_invD:
  assumes "search_inv n P s"
  shows "phase_dims n (length (s_angles s)) (s_phase s)" "pm_ok n n (s_output s)" "invertible n (pm_get (s_output s))"
    "list_all (phase_op_ok n) (s_gates s)" "g_cost s = length (filter is_cx (s_gates s))"
    "ops_turn (s_gates s) b + cols_turn n (s_phase s) (s_angles s) (ops_bits (s_gates s) b) = problem_turn P b"
    "q < n \<Longrightarrow> dot n (\<lambda>r. pm_get (s_output s) r q) (ops_bits (s_gates s) b) = problem_map P b q"
    "a \<in> set (s_angles s) \<Longrightarrow> phase_ok a"
    "length (filter (\<lambda>op. \<not> is_cx op) (s_gates s)) + length (s_angles s) = num_phase_terms P"
    "ops_terms (s_gates s) + pull (ops_bits (s_gates s)) (cols_terms n (s_phase s) (s_angles s)) = problem_terms P"
  using assms by (auto simp: search_inv_def)

lemma phase_dims_cols: "phase_dims n k M \<Longrightarrow> n_cols M = k"
  by (auto simp: phase_dims_def pm_ok_def)

lemma phase_dims_ok: "phase_dims n k M \<Longrightarrow> c < k \<Longrightarrow> pm_ok n k M"
  by (auto simp: phase_dims_def)

section \<open>Removing ready columns\<close>

lemma cols_turn_remove:
  assumes M: "pm_ok n (length as) M" and c: "c < length as"
  shows "cols_turn n M as b = (if dot n (\<lambda>r. pm_get M r c) b then phase_val (as ! c) else 0) +
    cols_turn n (remove_column c M) (take c as @ drop (Suc c) as) b"
proof -
  let ?k = "length as" and ?as = "take c as @ drop (Suc c) as"
  let ?f = "\<lambda>i. if dot n (\<lambda>r. pm_get M r i) b then phase_val (as ! i) else 0"
  have l: "length ?as = ?k - 1" using c by simp
  have d: "dot n (\<lambda>r. pm_get (remove_column c M) r i) b = dot n (\<lambda>r. pm_get M r (if i < c then i else Suc i)) b" for i
    by (rule dot_cong) (use remove_column_spec(2) [OF M c] in auto)
  have "cols_turn n (remove_column c M) ?as b = (\<Sum>i<?k - 1. ?f (if i < c then i else Suc i))"
    unfolding cols_turn_def l by (intro sum.cong) (use c in \<open>auto simp: d nth_append min_def\<close>)
  also have "\<dots> = (\<Sum>i<c. ?f i) + (\<Sum>i=c..<?k - 1. ?f (Suc i))"
  proof -
    have "{..<?k - 1} = {..<c} \<union> {c..<?k - 1}" "{..<c} \<inter> {c..<?k - 1} = {}" using c by auto
    then have "(\<Sum>i<?k - 1. ?f (if i < c then i else Suc i)) =
        (\<Sum>i<c. ?f (if i < c then i else Suc i)) + (\<Sum>i=c..<?k - 1. ?f (if i < c then i else Suc i))"
      by (metis (no_types, lifting) finite_atLeastLessThan finite_lessThan sum.union_disjoint)
    also have "(\<Sum>i<c. ?f (if i < c then i else Suc i)) = (\<Sum>i<c. ?f i)" by (intro sum.cong) auto
    also have "(\<Sum>i=c..<?k - 1. ?f (if i < c then i else Suc i)) = (\<Sum>i=c..<?k - 1. ?f (Suc i))" by (intro sum.cong) auto
    finally show ?thesis .
  qed
  also have "(\<Sum>i=c..<?k - 1. ?f (Suc i)) = (\<Sum>i=Suc c..<Suc (?k - 1). ?f i)" by (rule sum.shift_bounds_Suc_ivl [symmetric])
  also have "Suc (?k - 1) = ?k" using c by simp
  finally have r: "cols_turn n (remove_column c M) ?as b = (\<Sum>i<c. ?f i) + (\<Sum>i=Suc c..<?k. ?f i)" .
  have "cols_turn n M as b = (\<Sum>i<c. ?f i) + (\<Sum>i=c..<?k. ?f i)"
    unfolding cols_turn_def using c by (simp add: lessThan_atLeast0 sum.atLeastLessThan_concat)
  also have "(\<Sum>i=c..<?k. ?f i) = ?f c + (\<Sum>i=Suc c..<?k. ?f i)" by (rule sum.atLeast_Suc_lessThan [OF c])
  finally show ?thesis unfolding r by simp
qed

lemma cols_terms_remove:
  assumes M: "pm_ok n (length as) M" and c: "c < length as"
  shows "cols_terms n M as = add_mset (dot n (\<lambda>r. pm_get M r c), as ! c) (cols_terms n (remove_column c M) (take c as @ drop (Suc c) as))"
proof -
  let ?k = "length as" and ?as = "take c as @ drop (Suc c) as"
  let ?f = "\<lambda>i. (dot n (\<lambda>r. pm_get M r i), as ! i)"
  have "dot n (\<lambda>r. pm_get (remove_column c M) r i) = dot n (\<lambda>r. pm_get M r (if i < c then i else Suc i))" for i
    by (rule ext, rule dot_cong) (use remove_column_spec(2) [OF M c] in auto)
  then have g: "(dot n (\<lambda>r. pm_get (remove_column c M) r i), ?as ! i) = ?f (if i < c then i else Suc i)" if "i < ?k - 1" for i
    using c that by (auto simp: nth_append min_def)
  have l: "length ?as = ?k - 1" using c by simp
  have "map (\<lambda>i. (dot n (\<lambda>r. pm_get (remove_column c M) r i), ?as ! i)) [0..<length ?as] = map ?f ([0..<c] @ [Suc c..<?k])"
    unfolding l by (rule nth_equalityI) (use c g in \<open>auto simp: nth_append\<close>)
  moreover have "[0..<?k] = [0..<c] @ c # [Suc c..<?k]"
    using c by (metis le_add1 le_add_same_cancel1 less_imp_add_positive upt_add_eq_append upt_conv_Cons)
  ultimately show ?thesis unfolding cols_terms_def by simp
qed

lemma find_ready_Some: "find_ready M = Some c \<Longrightarrow> c < n_cols M \<and> single_one_row M c \<noteq> None"
  using find_index_found [of "\<lambda>c. single_one_row M c \<noteq> None" 0 "n_cols M"]
  by (auto simp: find_ready_def Let_def split: if_splits)

lemma find_ready_None: "find_ready M = None \<Longrightarrow> c < n_cols M \<Longrightarrow> single_one_row M c = None"
  using find_index_exists [of 0 c "n_cols M" "\<lambda>c. single_one_row M c \<noteq> None"]
  unfolding find_ready_def Let_def by (cases "single_one_row M c") (auto split: if_splits)

lemma emit_ready_inv:
  assumes s: "search_inv n P s" and c: "find_ready (s_phase s) = Some c"
  shows "search_inv n P (emit_ready c s)"
proof -
  let ?k = "length (s_angles s)"
  have ck: "c < ?k" using find_ready_Some [OF c] phase_dims_cols [OF search_invD(1) [OF s]] by simp
  have M: "pm_ok n ?k (s_phase s)" by (rule phase_dims_ok [OF search_invD(1) [OF s] ck])
  obtain q where q: "single_one_row (s_phase s) c = Some q" using find_ready_Some [OF c] by auto
  then have qn: "q < n" and u: "\<And>r. r < n \<Longrightarrow> pm_get (s_phase s) r c = (r = q)"
    using pm_okD(1) [OF M] by (auto simp: single_one_row_iff)
  let ?a = "s_angles s ! c"
  have a: "phase_ok ?a" using search_invD(8) [OF s nth_mem [OF ck]] .
  have d: "dot n (\<lambda>r. pm_get (s_phase s) r c) b = b q" for b
    using dot_cong [of n "\<lambda>r. pm_get (s_phase s) r c" "\<lambda>r. r = q" b b] u dot_unit(1) [OF qn] by simp
  have t: "ops_turn (s_gates s @ [make_rz q ?a]) b +
      cols_turn n (remove_column c (s_phase s)) (take c (s_angles s) @ drop (Suc c) (s_angles s)) (ops_bits (s_gates s) b) = problem_turn P b" for b
    using search_invD(6) [OF s, of b] cols_turn_remove [OF M ck, of "ops_bits (s_gates s) b"]
    by (simp add: ops_turn_append d)
  have fd: "dot n (\<lambda>r. pm_get (s_phase s) r c) = (\<lambda>b. b q)" using d by (rule ext)
  have terms: "ops_terms (s_gates s @ [make_rz q ?a]) +
      pull (ops_bits (s_gates s @ [make_rz q ?a])) (cols_terms n (remove_column c (s_phase s)) (take c (s_angles s) @ drop (Suc c) (s_angles s))) = problem_terms P"
  proof -
    have "ops_bits (s_gates s @ [make_rz q ?a]) = ops_bits (s_gates s)" by (simp add: fun_eq_iff)
    then show ?thesis
      using search_invD(10) [OF s] unfolding cols_terms_remove [OF M ck] fd by (simp add: ops_terms_snoc comp_def)
  qed
  have "phase_dims n (?k - 1) (remove_column c (s_phase s))" using remove_column_spec(1) [OF M ck] by (simp add: phase_dims_def)
  then show ?thesis
    using search_invD [OF s] t terms qn a ck unfolding search_inv_def emit_ready_def q
    by (auto dest: in_set_takeD in_set_dropD)
qed

lemma remove_ready_inv: "search_inv n P s \<Longrightarrow> search_inv n P (remove_ready_phase_columns s)"
proof (induction s rule: remove_ready_phase_columns.induct)
  case (1 s)
  then show ?case
    by (cases "find_ready (s_phase s)") (auto simp: remove_ready_phase_columns.simps [of s] emit_ready_inv)
qed

lemma remove_ready_none: "find_ready (s_phase (remove_ready_phase_columns s)) = None"
proof (induction s rule: remove_ready_phase_columns.induct)
  case (1 s)
  then show ?case by (cases "find_ready (s_phase s)") (auto simp: remove_ready_phase_columns.simps [of s])
qed

section \<open>Row operations\<close>

lemma cols_turn_cnot:
  assumes M: "phase_dims n (length as) M" and ij: "i < n" "j < n" "i \<noteq> j"
  shows "phase_dims n (length as) (pm_cnot i j M)" "cols_turn n (pm_cnot i j M) as (cx_state i j b) = cols_turn n M as b"
    "pull (cx_state i j) (cols_terms n (pm_cnot i j M) as) = cols_terms n M as"
proof -
  show "phase_dims n (length as) (pm_cnot i j M)"
    using M pm_cnot_spec(1) [OF _ ij(1,2)] by (auto simp: phase_dims_def pm_cnot_def)
  have dots: "dot n (\<lambda>r. pm_get (pm_cnot i j M) r c) (cx_state i j b) = dot n (\<lambda>r. pm_get M r c) b" if "c < length as" for c b
  proof -
    have "dot n (\<lambda>r. pm_get (pm_cnot i j M) r c) (cx_state i j b) = dot n (\<lambda>r. row_add j i (pm_get M) r c) (cx_state i j b)"
      by (rule dot_cong) (use pm_cnot_spec(2) [OF phase_dims_ok [OF M that] ij] in auto)
    then show ?thesis using dot_cnot [OF ij] by simp
  qed
  then show "cols_turn n (pm_cnot i j M) as (cx_state i j b) = cols_turn n M as b"
    unfolding cols_turn_def by (intro sum.cong) auto
  have "dot n (\<lambda>r. pm_get (pm_cnot i j M) r c) \<circ> cx_state i j = dot n (\<lambda>r. pm_get M r c)" if "c < length as" for c
    using dots [OF that] by (simp add: fun_eq_iff)
  then have "map (map_prod (\<lambda>u. u \<circ> cx_state i j) id \<circ> (\<lambda>c. (dot n (\<lambda>r. pm_get (pm_cnot i j M) r c), as ! c))) [0..<length as] =
      map (\<lambda>c. (dot n (\<lambda>r. pm_get M r c), as ! c)) [0..<length as]"
    by (intro map_cong) auto
  then show "pull (cx_state i j) (cols_terms n (pm_cnot i j M) as) = cols_terms n M as"
    unfolding pull_def cols_terms_def mset_map [symmetric] map_map by (rule arg_cong)
qed

lemma output_cnot:
  assumes M: "pm_ok n n M" "invertible n (pm_get M)" and ij: "i < n" "j < n" "i \<noteq> j"
  shows "pm_ok n n (pm_cnot i j M)" "invertible n (pm_get (pm_cnot i j M))"
    "dot n (\<lambda>r. pm_get (pm_cnot i j M) r q) (cx_state i j b) = dot n (\<lambda>r. pm_get M r q) b"
proof -
  note c = pm_cnot_spec [OF M(1) ij(1,2)]
  show "pm_ok n n (pm_cnot i j M)" by (rule c(1))
  show "invertible n (pm_get (pm_cnot i j M))" using invertible_cnots [OF M(1) _ M(2), of "[(i, j)]"] ij by simp
  have "dot n (\<lambda>r. pm_get (pm_cnot i j M) r q) (cx_state i j b) = dot n (\<lambda>r. row_add j i (pm_get M) r q) (cx_state i j b)"
    by (rule dot_cong) (use c(2) ij in auto)
  then show "dot n (\<lambda>r. pm_get (pm_cnot i j M) r q) (cx_state i j b) = dot n (\<lambda>r. pm_get M r q) b" using dot_cnot [OF ij] by simp
qed

lemma step_cnot_inv:
  assumes s: "search_inv n P s" and ij: "i < n" "j < n" "i \<noteq> j"
  shows "search_inv n P (step_cnot i j s)"
proof -
  note c = cols_turn_cnot [OF search_invD(1) [OF s] ij] and o = output_cnot [OF search_invD(2,3) [OF s] ij]
  have b: "ops_bits (s_gates s @ [make_cx i j]) = (\<lambda>b. cx_state i j (ops_bits (s_gates s) b))" by (simp add: fun_eq_iff)
  have "pull (ops_bits (s_gates s @ [make_cx i j])) (cols_terms n (pm_cnot i j (s_phase s)) (s_angles s)) =
      pull (ops_bits (s_gates s)) (cols_terms n (s_phase s) (s_angles s))"
    unfolding b pull_pull [symmetric] c(3) ..
  then show ?thesis
    using search_invD [OF s] c(1,2) o ij unfolding search_inv_def step_cnot_def by (simp add: ops_turn_append ops_terms_snoc)
qed

lemma active_row_pairs_ok: "(i, j) \<in> set (active_row_pairs M) \<Longrightarrow> i < n_rows M \<and> j < n_rows M \<and> i \<noteq> j \<and> n_cols M \<noteq> 0"
  by (auto simp: active_row_pairs_def list_ex_iff)

lemma successor_inv:
  assumes s: "search_inv n P s" and ij: "ij \<in> set (active_row_pairs (s_phase s))"
  shows "search_inv n P (successor s ij)"
proof -
  obtain i j where [simp]: "ij = (i, j)" by fastforce
  have a: "i < n_rows (s_phase s)" "j < n_rows (s_phase s)" "i \<noteq> j" "n_cols (s_phase s) \<noteq> 0" using active_row_pairs_ok ij by auto
  have "pm_ok n (length (s_angles s)) (s_phase s)"
    using phase_dims_ok [OF search_invD(1) [OF s], of 0] phase_dims_cols [OF search_invD(1) [OF s]] a(4) by simp
  then have "i < n" "j < n" using a pm_okD(1) by auto
  then show ?thesis unfolding successor_def using a(3) s by (intro remove_ready_inv step_cnot_inv) auto
qed

section \<open>Finishing the output\<close>

definition goal :: "nat \<Rightarrow> phase_poly_problem \<Rightarrow> search_state \<Rightarrow> bool" where
  "goal n P s \<longleftrightarrow> search_inv n P s \<and> s_angles s = [] \<and> is_square_identity (s_output s)"

lemma finish_output_spec:
  assumes s: "search_inv n P s" and k: "s_angles s = []"
  shows "\<exists>s'. finish_output mode s = Some s' \<and> goal n P s'"
proof -
  let ?f = "\<lambda>(c, t) s. s\<lparr>s_output := pm_cnot c t (s_output s), s_gates := s_gates s @ [make_cx c t], g_cost := g_cost s + 1\<rparr>"
  obtain ops where ops: "synthesize_linear_reversible mode (s_output s) = Some ops" "ops_ok n ops"
    "is_square_identity (pm_cnots ops (s_output s))"
    using synthesize_linear_spec [OF search_invD(2,3) [OF s]] by blast
  have "search_inv n P (fold ?f ops s) \<and> s_angles (fold ?f ops s) = [] \<and> s_output (fold ?f ops s) = pm_cnots ops (s_output s)"
    using ops(2) s k
  proof (induction ops arbitrary: s)
    case (Cons x ops)
    obtain i j where x: "x = (i, j)" by fastforce
    have ij: "i < n" "j < n" "i \<noteq> j" "ops_ok n ops" using Cons.prems(1) by (auto simp: x)
    note o = output_cnot [OF search_invD(2,3) [OF Cons.prems(2)] ij(1-3)]
    have "search_inv n P (?f x s)"
      using search_invD [OF Cons.prems(2)] o ij Cons.prems(3) unfolding search_inv_def x
      by (simp add: ops_turn_append cols_turn_def ops_terms_snoc)
    from Cons.IH [OF ij(4) this] show ?case using Cons.prems(3) by (simp add: x)
  qed simp
  then show ?thesis using ops(1,3) by (auto simp: finish_output_def goal_def)
qed

text \<open>What a goal state has found.\<close>

definition solves_problem :: "nat \<Rightarrow> phase_poly_problem \<Rightarrow> phase_op list \<Rightarrow> bool" where
  "solves_problem n P gates \<longleftrightarrow> list_all (phase_op_ok n) gates \<and> ops_terms gates = problem_terms P \<and>
     (\<forall>b. ops_turn gates b = problem_turn P b \<and> (\<forall>q < n. ops_bits gates b q = problem_map P b q))"

lemma goal_solves:
  assumes "goal n P s"
  shows "solves_problem n P (s_gates s)" "g_cost s = length (filter is_cx (s_gates s))"
    "num_phase_terms P = length (filter (\<lambda>op. \<not> is_cx op) (s_gates s))"
proof -
  have s: "search_inv n P s" and k: "s_angles s = []" and I: "is_square_identity (s_output s)" using assms by (auto simp: goal_def)
  have "ops_bits (s_gates s) b q = problem_map P b q" if q: "q < n" for b q
  proof -
    have "dot n (\<lambda>r. pm_get (s_output s) r q) (ops_bits (s_gates s) b) = dot n (\<lambda>r. r = q) (ops_bits (s_gates s) b)"
      by (rule dot_cong) (use I is_square_identity_iff [OF search_invD(2) [OF s]] q in auto)
    then show ?thesis using search_invD(7) [OF s q, of b] dot_unit(1) [OF q] by simp
  qed
  then show "solves_problem n P (s_gates s)"
    using search_invD(4) [OF s] search_invD(6) [OF s] search_invD(10) [OF s] k by (simp add: solves_problem_def cols_turn_def)
  show "g_cost s = length (filter is_cx (s_gates s))" "num_phase_terms P = length (filter (\<lambda>op. \<not> is_cx op) (s_gates s))"
    using search_invD(5,9) [OF s] k by auto
qed

lemma root_state_inv: "problem_ok n P \<Longrightarrow> search_inv n P (root_state P)"
  unfolding root_state_def
  by (rule remove_ready_inv) (simp add: search_inv_def problem_ok_def num_phase_terms_def problem_turn_def problem_map_def problem_terms_def pull_id)

text \<open>
  The search and the greedy synthesis return solutions of every problem without an all-zero phase column, within
  any bounds on the queue, the solutions and the expansions. On a problem with such a column neither returns: the
  column is never ready, so the search finds no goal and the greedy loop does not end.
\<close>

section \<open>Columns that are not zero\<close>

lemma no_zero_step:
  assumes M: "pm_ok n k M" "no_zero_columns M" and ij: "i < n" "j < n" "i \<noteq> j"
  shows "no_zero_columns (pm_cnot i j M)"
proof -
  note c = pm_cnot_spec [OF M(1) ij(1,2)]
  have "\<exists>r < n. pm_get (pm_cnot i j M) r col" if col: "col < k" for col
  proof -
    obtain r where r: "r < n" "pm_get M r col" using M col by (auto simp: no_zero_columns_def pm_okD)
    show ?thesis
    proof (cases "r = i \<and> pm_get M j col")
      case True
      then have "pm_get (pm_cnot i j M) j col" using ij c(2) [OF ij(3) ij(2), of col] by (simp add: row_add_apply)
      then show ?thesis using ij(2) by blast
    next
      case False
      then have "pm_get (pm_cnot i j M) r col" using r c(2) [OF ij(3) r(1), of col] by (cases "r = i") (auto simp: row_add_apply)
      then show ?thesis using r(1) by blast
    qed
  qed
  then show ?thesis using pm_okD(1,2) [OF c(1)] by (simp add: no_zero_columns_def)
qed

lemma no_zero_remove:
  assumes M: "pm_ok n k M" "no_zero_columns M" and c: "c < k"
  shows "no_zero_columns (remove_column c M)"
  unfolding no_zero_columns_def
proof (intro allI impI)
  note r = remove_column_spec [OF M(1) c]
  fix d assume "d < n_cols (remove_column c M)"
  then have "(if d < c then d else Suc d) < k" using pm_okD(2) [OF r(1)] c by auto
  then obtain i where "i < n" "pm_get M i (if d < c then d else Suc d)" using M unfolding no_zero_columns_def by (metis pm_okD(1,2))
  then show "\<exists>i < n_rows (remove_column c M). pm_get (remove_column c M) i d" using r(2) pm_okD(1) [OF r(1)] by auto
qed

definition live :: "nat \<Rightarrow> phase_poly_problem \<Rightarrow> search_state \<Rightarrow> bool" where
  "live n P s \<longleftrightarrow> search_inv n P s \<and> no_zero_columns (s_phase s)"

lemma search_cols: "search_inv n P s \<Longrightarrow> n_cols (s_phase s) = length (s_angles s)"
  by (rule phase_dims_cols) (rule search_invD(1))

lemma search_phase_ok: "search_inv n P s \<Longrightarrow> c < n_cols (s_phase s) \<Longrightarrow> pm_ok n (n_cols (s_phase s)) (s_phase s)"
  using search_cols [of n P s] phase_dims_ok [OF search_invD(1), of n P s c] by simp

lemma remove_ready_live: "live n P s \<Longrightarrow> live n P (remove_ready_phase_columns s)"
proof (induction s rule: remove_ready_phase_columns.induct)
  case (1 s)
  show ?case
  proof (cases "find_ready (s_phase s)")
    case None
    then show ?thesis using "1.prems" by (simp add: remove_ready_phase_columns.simps [of s])
  next
    case (Some c)
    have s: "search_inv n P s" and z: "no_zero_columns (s_phase s)" using "1.prems" by (auto simp: live_def)
    have c: "c < n_cols (s_phase s)" using find_ready_Some [OF Some] by simp
    have "live n P (emit_ready c s)"
      using emit_ready_inv [OF s Some] no_zero_remove [OF search_phase_ok [OF s c] z c] by (simp add: live_def emit_ready_def)
    then show ?thesis using "1.IH" [OF Some] Some by (simp add: remove_ready_phase_columns.simps [of s])
  qed
qed

lemma remove_ready_cols: "n_cols (s_phase (remove_ready_phase_columns s)) \<le> n_cols (s_phase s) \<and>
  (find_ready (s_phase s) \<noteq> None \<longrightarrow> n_cols (s_phase (remove_ready_phase_columns s)) < n_cols (s_phase s))"
proof (induction s rule: remove_ready_phase_columns.induct)
  case (1 s)
  show ?case
  proof (cases "find_ready (s_phase s)")
    case None
    then show ?thesis by (simp add: remove_ready_phase_columns.simps [of s])
  next
    case (Some c)
    have "n_cols (s_phase (emit_ready c s)) < n_cols (s_phase s)"
      using find_ready_Some [OF Some] by (auto simp: emit_ready_def remove_column_def Let_def)
    then show ?thesis using "1.IH" [OF Some] Some by (simp add: remove_ready_phase_columns.simps [of s])
  qed
qed

section \<open>The greedy synthesis\<close>

lemma first_two_spec:
  assumes "1 < column_weight M c"
  obtains a b where "first_two M c = (a, b)" "a < b" "b < n_rows M" "pm_get M a c" "pm_get M b c"
proof -
  let ?p = "\<lambda>r. pm_get M r c" and ?m = "n_rows M"
  define a where "a = find_index ?p 0 ?m"
  have card: "1 < card {r. r < ?m \<and> ?p r}" using assms by (simp add: column_weight_card)
  then obtain r where r: "r < ?m" "?p r" by (cases "{r. r < ?m \<and> ?p r} = {}") auto
  have a: "a < ?m" "?p a" using find_index_exists [of 0 r ?m ?p] find_index_found [of ?p 0 ?m] r by (auto simp: a_def)
  have before: "\<not> ?p i" if "i < a" for i using find_index_before [of 0 i ?p ?m] that a(1) by (simp add: a_def)
  have "\<exists>r > a. r < ?m \<and> ?p r"
  proof (rule ccontr)
    assume "\<not> (\<exists>r > a. r < ?m \<and> ?p r)"
    then have "{r. r < ?m \<and> ?p r} \<subseteq> {a}" using before by (auto elim: linorder_neqE_nat)
    then have "card {r. r < ?m \<and> ?p r} \<le> 1" using card_mono [of "{a}"] by fastforce
    then show False using card by simp
  qed
  then obtain r' where r': "a < r'" "r' < ?m" "?p r'" by auto
  let ?b = "find_index ?p (a + 1) ?m"
  have b: "?b < ?m" using find_index_exists [of "a + 1" r' ?m ?p] r' by simp
  then have "a + 1 \<le> ?b" "?p ?b" using find_index_found [of ?p "a + 1" ?m] by auto
  then show thesis using that [of a ?b] a b by (simp add: first_two_def Let_def a_def)
qed

lemma fold_column_spec:
  assumes "live n P s" "col < n_cols (s_phase s)"
  shows "\<exists>s'. fold_column col s = Some s' \<and> live n P s' \<and> n_cols (s_phase s') = n_cols (s_phase s) \<and> column_weight (s_phase s') col \<le> 1"
  using assms
proof (induction "column_weight (s_phase s) col" arbitrary: s rule: less_induct)
  case less
  have s: "search_inv n P s" and z: "no_zero_columns (s_phase s)" using less.prems by (auto simp: live_def)
  note ok = search_phase_ok [OF s less.prems(2)]
  show ?case
  proof (cases "1 < column_weight (s_phase s) col")
    case True
    obtain a b where ab: "first_two (s_phase s) col = (a, b)" "a < b" "b < n" "pm_get (s_phase s) a col" "pm_get (s_phase s) b col"
      using first_two_spec [OF True] pm_okD(1) [OF ok] by metis
    have ij: "a < n" "b < n" "a \<noteq> b" using ab by auto
    let ?s = "step_cnot a b s"
    note c = pm_cnot_spec [OF ok ij(1,2)]
    have ph: "s_phase ?s = pm_cnot a b (s_phase s)" by (simp add: step_cnot_def)
    have l: "live n P ?s" using step_cnot_inv [OF s ij] no_zero_step [OF ok z ij] by (simp add: live_def ph)
    have k: "n_cols (s_phase ?s) = n_cols (s_phase s)" unfolding ph by (rule pm_okD(2) [OF c(1)])
    have sub: "{r. r < n_rows (s_phase ?s) \<and> pm_get (s_phase ?s) r col} \<subset> {r. r < n_rows (s_phase s) \<and> pm_get (s_phase s) r col}"
    proof
      show "{r. r < n_rows (s_phase ?s) \<and> pm_get (s_phase ?s) r col} \<subseteq> {r. r < n_rows (s_phase s) \<and> pm_get (s_phase s) r col}"
        using ab c(2) [OF ij(3)] pm_okD(1) [OF c(1)] pm_okD(1) [OF ok] unfolding ph by (auto simp: row_add_apply split: if_splits)
      have "\<not> pm_get (s_phase ?s) a col" using ab c(2) [OF ij(3) ij(1)] unfolding ph by (simp add: row_add_apply)
      then show "{r. r < n_rows (s_phase ?s) \<and> pm_get (s_phase ?s) r col} \<noteq> {r. r < n_rows (s_phase s) \<and> pm_get (s_phase s) r col}"
        using ab(4) ij(1) pm_okD(1) [OF ok] by blast
    qed
    have "column_weight (s_phase ?s) col < column_weight (s_phase s) col"
      unfolding column_weight_card by (rule psubset_card_mono [OF _ sub]) simp
    from less.hyps [OF this l] show ?thesis
      using True less.prems(2) k by (subst fold_column.simps) (simp add: ab(1))
  next
    case False
    then show ?thesis using less.prems by (subst fold_column.simps) simp
  qed
qed

lemma weight_one_ready:
  assumes M: "no_zero_columns M" and c: "c < n_cols M" "column_weight M c \<le> 1"
  shows "find_ready M \<noteq> None"
proof
  assume "find_ready M = None"
  then have n: "single_one_row M c = None" using find_ready_None c(1) by blast
  obtain r where r: "r < n_rows M" "pm_get M r c" using M c(1) by (auto simp: no_zero_columns_def)
  have u: "r' = r" if "r' < n_rows M" "pm_get M r' c" for r'
  proof (rule ccontr)
    assume "r' \<noteq> r"
    then have "card {r, r'} = 2" by simp
    moreover have "card {r, r'} \<le> card {r. r < n_rows M \<and> pm_get M r c}" by (rule card_mono) (use r that in auto)
    ultimately show False using c(2) by (simp add: column_weight_card)
  qed
  have "\<forall>r' < n_rows M. pm_get M r' c = (r' = r)" using u r(2) by blast
  then have "single_one_row M c = Some r" unfolding single_one_row_iff using r(1) by blast
  then show False using n by simp
qed

lemma greedy_loop_spec:
  assumes "live n P s"
  shows "\<exists>s'. greedy_loop s = Some s' \<and> live n P s' \<and> s_angles s' = []"
  using assms
proof (induction "n_cols (s_phase s)" arbitrary: s rule: less_induct)
  case less
  show ?case
  proof (cases "has_no_columns (s_phase s)")
    case True
    then show ?thesis
      using less.prems search_cols [of n P s] by (subst greedy_loop.simps) (auto simp: has_no_columns_def live_def)
  next
    case False
    then have k: "0 < n_cols (s_phase s)" by (simp add: has_no_columns_def)
    obtain s1 where s1: "fold_column 0 s = Some s1" "live n P s1" "n_cols (s_phase s1) = n_cols (s_phase s)"
      "column_weight (s_phase s1) 0 \<le> 1"
      using fold_column_spec [OF less.prems k] by blast
    have "find_ready (s_phase s1) \<noteq> None" by (rule weight_one_ready [of _ 0]) (use s1 k in \<open>auto simp: live_def\<close>)
    then have "n_cols (s_phase (remove_ready_phase_columns s1)) < n_cols (s_phase s)"
      using remove_ready_cols [of s1] s1(3) by simp
    from less.hyps [OF this remove_ready_live [OF s1(2)]] show ?thesis
      using False s1(1) by (subst greedy_loop.simps) simp
  qed
qed

lemma root_state_live: "problem_ok n P \<Longrightarrow> no_zero_columns (phase_matrix P) \<Longrightarrow> live n P (root_state P)"
  unfolding root_state_def
  by (rule remove_ready_live) (simp add: live_def search_inv_def problem_ok_def num_phase_terms_def problem_turn_def problem_map_def problem_terms_def pull_id)

lemma greedy_synthesize_spec:
  assumes "problem_ok n P" "no_zero_columns (phase_matrix P)"
  shows "\<exists>s. greedy_synthesize mode P = Some s \<and> goal n P s"
proof -
  obtain s where s: "greedy_loop (root_state P) = Some s" "live n P s" "s_angles s = []"
    using greedy_loop_spec [OF root_state_live [OF assms]] by blast
  then show ?thesis using finish_output_spec [of n P s mode] by (simp add: greedy_synthesize_def live_def)
qed

section \<open>The search\<close>

definition open_inv :: "(search_state \<Rightarrow> bool) \<Rightarrow> open_set \<Rightarrow> bool" where
  "open_inv I os \<longleftrightarrow> (\<forall>(p, s) \<in> set (queue os). I s)"

lemma push_state_spec:
  assumes I: "\<And>s. I s \<Longrightarrow> search_inv n P s" and s: "I s" and os: "open_inv I os"
  shows "\<exists>os'. push_state cfg s os = Some os' \<and> open_inv I os'"
proof -
  obtain ops where "synthesize_linear_reversible (h2_mode cfg) (s_output s) = Some ops"
    using synthesize_linear_spec [OF search_invD(2,3) [OF I [OF s]]] by blast
  then obtain p where "priority_of cfg (counter os) s = Some p"
    by (auto simp: priority_of_def linear_reversible_cnot_cost_def)
  then show ?thesis
    using s os by (cases "case best_g os (state_key s) of None \<Rightarrow> False | Some g \<Rightarrow> g \<le> g_cost s")
      (auto simp: push_state_def Let_def open_inv_def set_insort_key)
qed

lemma push_all_spec:
  assumes I: "\<And>s. I s \<Longrightarrow> search_inv n P s"
  shows "\<forall>s \<in> set ss. I s \<Longrightarrow> open_inv I os \<Longrightarrow> \<exists>os'. push_all cfg ss os = Some os' \<and> open_inv I os'"
proof (induction ss arbitrary: os)
  case (Cons s ss)
  then obtain os1 where o: "push_state cfg s os = Some os1" "open_inv I os1" using push_state_spec [where I = I and s = s and cfg = cfg and os = os, OF I] by auto
  then show ?case using Cons by simp
qed simp

text \<open>For any invariant \<open>I\<close> of the states that the successors keep, the search returns goals reached from it.\<close>

lemma astar_loop_spec:
  assumes I: "\<And>s. I s \<Longrightarrow> search_inv n P s"
    and step: "\<And>s ij. I s \<Longrightarrow> ij \<in> set (active_row_pairs (s_phase s)) \<Longrightarrow> I (successor s ij)"
  shows "open_inv I os \<Longrightarrow> \<forall>s \<in> set solutions. goal n P s \<Longrightarrow>
    \<exists>sols expd' peak'. astar_loop cfg os solutions expd peak = Some (sols, expd', peak') \<and> (\<forall>s \<in> set sols. goal n P s) \<and>
      (sols = solutions \<or> (\<exists>s. I s \<and> s_angles s = [])) \<and> expd' \<le> max expd (max_expansions cfg)"
proof (induction cfg os solutions expd peak rule: astar_loop.induct)
  case (1 cfg os solutions expd peak)
  show ?case
  proof (cases "queue os = [] \<or> \<not> expd < max_expansions cfg")
    case True
    then show ?thesis using "1.prems" by (subst astar_loop.simps) auto
  next
    case False
    define s where "s = snd (hd (queue os))"
    define os1 where "os1 = os\<lparr>queue := tl (queue os)\<rparr>"
    have s: "I s" and os1: "open_inv I os1"
      using "1.prems"(1) False by (auto simp: open_inv_def s_def os1_def split_beta dest: list.set_sel(2) hd_in_set)
    show ?thesis
    proof (cases "has_no_columns (s_phase s)")
      case True
      then have k: "s_angles s = []" using search_cols [OF I [OF s]] by (simp add: has_no_columns_def)
      obtain s' where s': "(if is_square_identity (s_output s) then Some s else finish_output (finish_mode cfg) s) = Some s'" "goal n P s'"
        using finish_output_spec [OF I [OF s] k, of "finish_mode cfg"] I [OF s] k
        by (cases "is_square_identity (s_output s)") (auto simp: goal_def)
      have g: "\<forall>s \<in> set (solutions @ [s']). goal n P s" using "1.prems"(2) s'(2) by auto
      show ?thesis
      proof (cases "max_solutions cfg \<le> length (solutions @ [s'])")
        case m: True
        then have "astar_loop cfg os solutions expd peak = Some (solutions @ [s'], expd + 1, peak)"
          using False True s'(1) by (subst astar_loop.simps) (simp add: s_def [symmetric] Let_def)
        then show ?thesis using g s k False by auto
      next
        case m: False
        have "astar_loop cfg os solutions expd peak = astar_loop cfg os1 (solutions @ [s']) (expd + 1) peak"
          using False True s'(1) m by (subst astar_loop.simps) (simp add: s_def [symmetric] os1_def [symmetric] Let_def)
        moreover have "\<exists>sols expd' peak'. astar_loop cfg os1 (solutions @ [s']) (expd + 1) peak = Some (sols, expd', peak') \<and>
            (\<forall>s \<in> set sols. goal n P s) \<and> (sols = solutions @ [s'] \<or> (\<exists>s. I s \<and> s_angles s = [])) \<and>
            expd' \<le> max (expd + 1) (max_expansions cfg)"
          by (rule "1.IH"(1) [OF False s_def os1_def True s'(1) m os1 g])
        ultimately show ?thesis using s k False by fastforce
      qed
    next
      case nc: False
      have "\<forall>s \<in> set (map (successor s) (active_row_pairs (s_phase s))). I s" using step [OF s] by auto
      then obtain os2 where os2: "push_all cfg (map (successor s) (active_row_pairs (s_phase s))) os1 = Some os2" "open_inv I os2"
        using push_all_spec [where I = I, OF I _ os1] by blast
      define os3 where "os3 = os2\<lparr>queue := take (max_queue_size cfg) (queue os2)\<rparr>"
      have os3: "open_inv I os3" using os2(2) by (auto simp: os3_def open_inv_def dest: in_set_takeD)
      have "astar_loop cfg os solutions expd peak = astar_loop cfg os3 solutions (expd + 1) (max peak (length (queue os3)))"
        using False nc os2(1) by (subst astar_loop.simps) (simp add: s_def [symmetric] os1_def [symmetric] os3_def Let_def)
      moreover have "\<exists>sols expd' peak'. astar_loop cfg os3 solutions (expd + 1) (max peak (length (queue os3))) = Some (sols, expd', peak') \<and>
          (\<forall>s \<in> set sols. goal n P s) \<and> (sols = solutions \<or> (\<exists>s. I s \<and> s_angles s = [])) \<and>
          expd' \<le> max (expd + 1) (max_expansions cfg)"
        by (rule "1.IH"(2) [OF False s_def os1_def nc os2(1) os3_def os3 "1.prems"(2)])
      ultimately show ?thesis using False by fastforce
    qed
  qed
qed

lemma best_solution_spec:
  assumes "ss \<noteq> []"
  shows "best_solution ss \<in> set ss" "s \<in> set ss \<Longrightarrow> g_cost (best_solution ss) \<le> g_cost s"
proof -
  let ?f = "\<lambda>s best. if g_cost s < g_cost best then s else best"
  have "(fold ?f xs b = b \<or> fold ?f xs b \<in> set xs) \<and> (\<forall>s \<in> insert b (set xs). g_cost (fold ?f xs b) \<le> g_cost s)" for xs b
  proof (induction xs arbitrary: b)
    case (Cons x xs)
    show ?case using Cons.IH [of "?f x b"] by (auto split: if_splits)
  qed simp
  from this [of ss "hd ss"] show "best_solution ss \<in> set ss" "s \<in> set ss \<Longrightarrow> g_cost (best_solution ss) \<le> g_cost s"
    using assms by (auto simp: best_solution_def)
qed

theorem synthesize_phasepoly_spec:
  assumes P: "problem_ok n P" "no_zero_columns (phase_matrix P)"
  shows "\<exists>r. synthesize_phasepoly cfg P = Some r \<and> solves_problem n P (res_gates r) \<and>
    num_cx r = length (filter is_cx (res_gates r)) \<and> num_rz r = length (filter (\<lambda>op. \<not> is_cx op) (res_gates r)) \<and>
    expansions r \<le> max_expansions cfg"
proof -
  let ?I = "search_inv n P"
  obtain os where os: "push_state cfg (root_state P) \<lparr>queue = [], best_g = Map.empty, counter = 0\<rparr> = Some os" "open_inv ?I os"
    using push_state_spec [of ?I n P "root_state P" "\<lparr>queue = [], best_g = Map.empty, counter = 0\<rparr>" cfg] root_state_inv [OF P(1)]
    by (auto simp: open_inv_def)
  obtain sols expd peak where a: "astar_loop cfg os [] 0 (length (queue os)) = Some (sols, expd, peak)"
    "\<forall>s \<in> set sols. goal n P s" "expd \<le> max_expansions cfg"
    using astar_loop_spec [of ?I n P os "[]" cfg 0 "length (queue os)"] successor_inv os(2) by auto
  show ?thesis
  proof (cases "sols = []")
    case True
    obtain s where s: "greedy_synthesize (finish_mode cfg) P = Some s" "goal n P s" using greedy_synthesize_spec [OF P] by blast
    then show ?thesis using True a os goal_solves [OF s(2)] by (simp add: synthesize_phasepoly_def to_result_def)
  next
    case False
    have "goal n P (best_solution sols)" using best_solution_spec(1) [OF False] a(2) by blast
    then show ?thesis using False a os goal_solves by (simp add: synthesize_phasepoly_def to_result_def)
  qed
qed

section \<open>A zero column\<close>

definition zero_column :: "parity_matrix \<Rightarrow> bool" where
  "zero_column M \<longleftrightarrow> (\<exists>c < n_cols M. \<forall>r < n_rows M. \<not> pm_get M r c)"

definition stuck :: "nat \<Rightarrow> phase_poly_problem \<Rightarrow> search_state \<Rightarrow> bool" where
  "stuck n P s \<longleftrightarrow> search_inv n P s \<and> zero_column (s_phase s)"

lemma emit_ready_stuck:
  assumes s: "stuck n P s" and c: "find_ready (s_phase s) = Some c"
  shows "stuck n P (emit_ready c s)"
proof -
  have inv: "search_inv n P s" using s by (simp add: stuck_def)
  obtain d where d: "d < n_cols (s_phase s)" "\<And>r. r < n_rows (s_phase s) \<Longrightarrow> \<not> pm_get (s_phase s) r d"
    using s by (auto simp: stuck_def zero_column_def)
  note f = find_ready_Some [OF c]
  then obtain q where "single_one_row (s_phase s) c = Some q" by auto
  then have "c \<noteq> d" using d(2) by (auto simp: single_one_row_iff)
  note ok = search_phase_ok [OF inv d(1)]
  note r = remove_column_spec [OF ok conjunct1 [OF f]]
  have "zero_column (remove_column c (s_phase s))"
    unfolding zero_column_def
    by (intro exI [of _ "if d < c then d else d - 1"])
      (use \<open>c \<noteq> d\<close> d f r(2) pm_okD(1,2) [OF r(1)] pm_okD(1) [OF ok] in \<open>auto split: if_splits\<close>)
  then show ?thesis using emit_ready_inv [OF inv c] by (simp add: stuck_def emit_ready_def)
qed

lemma remove_ready_stuck: "stuck n P s \<Longrightarrow> stuck n P (remove_ready_phase_columns s)"
proof (induction s rule: remove_ready_phase_columns.induct)
  case (1 s)
  then show ?case by (cases "find_ready (s_phase s)") (auto simp: remove_ready_phase_columns.simps [of s] emit_ready_stuck)
qed

lemma step_cnot_stuck:
  assumes s: "stuck n P s" and ij: "i < n" "j < n" "i \<noteq> j"
  shows "stuck n P (step_cnot i j s)"
proof -
  have inv: "search_inv n P s" using s by (simp add: stuck_def)
  obtain d where d: "d < n_cols (s_phase s)" "\<And>r. r < n_rows (s_phase s) \<Longrightarrow> \<not> pm_get (s_phase s) r d"
    using s by (auto simp: stuck_def zero_column_def)
  note ok = search_phase_ok [OF inv d(1)]
  note c = pm_cnot_spec [OF ok ij(1,2)]
  have "zero_column (pm_cnot i j (s_phase s))"
    unfolding zero_column_def using d c(2) [OF ij(3)] pm_okD(1,2) [OF c(1)] pm_okD(1) [OF ok] ij
    by (intro exI [of _ d]) (auto simp: row_add_apply)
  then show ?thesis using step_cnot_inv [OF inv ij] by (simp add: stuck_def step_cnot_def)
qed

lemma stuck_columns: "stuck n P s \<Longrightarrow> \<not> has_no_columns (s_phase s)"
  by (auto simp: stuck_def zero_column_def has_no_columns_def)

lemma successor_stuck:
  assumes s: "stuck n P s" and ij: "ij \<in> set (active_row_pairs (s_phase s))"
  shows "stuck n P (successor s ij)"
proof -
  obtain i j where [simp]: "ij = (i, j)" by fastforce
  have a: "i < n_rows (s_phase s)" "j < n_rows (s_phase s)" "i \<noteq> j" "n_cols (s_phase s) \<noteq> 0" using active_row_pairs_ok ij by auto
  have "n_rows (s_phase s) = n" using s search_phase_ok [of n P s 0] a(4) pm_okD(1) by (auto simp: stuck_def)
  then show ?thesis unfolding successor_def using a s by (intro remove_ready_stuck step_cnot_stuck) auto
qed

lemma fold_column_stuck: "fold_column col s = Some s' \<Longrightarrow> stuck n P s \<Longrightarrow> stuck n P s'"
proof (induction rule: fold_column.raw_induct [rotated, consumes 1, of col s s'])
  case (1 fold_column col s s')
  show ?case
  proof (cases "1 < column_weight (s_phase s) col")
    case True
    obtain a b where ab: "first_two (s_phase s) col = (a, b)" "a < b" "b < n_rows (s_phase s)"
      using first_two_spec [OF True] by metis
    have "n_rows (s_phase s) = n" using 1(3) stuck_columns [OF 1(3)] search_phase_ok [of n P s 0] pm_okD(1)
      by (auto simp: stuck_def has_no_columns_def)
    then have "stuck n P (step_cnot a b s)" using step_cnot_stuck [OF 1(3), of a b] ab by simp
    then show ?thesis using 1(1,2) True ab by auto
  next
    case False
    then show ?thesis using 1(2,3) by simp
  qed
qed

lemma greedy_loop_stuck: "greedy_loop s = Some s' \<Longrightarrow> \<not> stuck n P s"
proof (induction rule: greedy_loop.raw_induct [rotated, consumes 1, of s s'])
  case (1 greedy_loop s s')
  show ?case
  proof
    assume s: "stuck n P s"
    then obtain s1 where s1: "fold_column 0 s = Some s1" "greedy_loop (remove_ready_phase_columns s1) = Some s'"
      using 1(2) stuck_columns [OF s] by (auto split: option.splits)
    have "stuck n P (remove_ready_phase_columns s1)" by (rule remove_ready_stuck [OF fold_column_stuck [OF s1(1) s]])
    then show False using 1(1) [OF s1(2)] by simp
  qed
qed

theorem zero_column_diverges:
  assumes P: "problem_ok n P" "zero_column (phase_matrix P)"
  shows "synthesize_phasepoly cfg P = None" "greedy_synthesize mode P = None"
proof -
  let ?I = "stuck n P"
  have root: "?I (root_state P)"
    unfolding root_state_def by (rule remove_ready_stuck)
      (use P in \<open>simp add: stuck_def search_inv_def problem_ok_def num_phase_terms_def problem_turn_def problem_map_def problem_terms_def pull_id\<close>)
  have g: "greedy_loop (root_state P) = None" using greedy_loop_stuck [of "root_state P" _ n P] root by (cases "greedy_loop (root_state P)") auto
  then show "greedy_synthesize mode P = None" for mode by (simp add: greedy_synthesize_def)
  note gs = this
  have inv: "\<And>s. ?I s \<Longrightarrow> search_inv n P s" by (simp add: stuck_def)
  obtain os where os: "push_state cfg (root_state P) \<lparr>queue = [], best_g = Map.empty, counter = 0\<rparr> = Some os" "open_inv ?I os"
    using push_state_spec [where I = ?I and s = "root_state P" and cfg = cfg and
        os = "\<lparr>queue = [], best_g = Map.empty, counter = 0\<rparr>", OF inv root] by (auto simp: open_inv_def)
  obtain sols expd peak where a: "astar_loop cfg os [] 0 (length (queue os)) = Some (sols, expd, peak)"
    "sols = [] \<or> (\<exists>s. ?I s \<and> s_angles s = [])"
    using astar_loop_spec [where I = ?I and solutions = "[]" and expd = 0 and peak = "length (queue os)" and cfg = cfg,
        OF inv successor_stuck os(2)] by auto
  have "\<not> (\<exists>s. ?I s \<and> s_angles s = [])"
  proof
    assume "\<exists>s. ?I s \<and> s_angles s = []"
    then obtain s where s: "?I s" "s_angles s = []" by blast
    then show False using stuck_columns [OF s(1)] search_cols [of n P s] by (simp add: stuck_def has_no_columns_def)
  qed
  then have "sols = []" using a(2) by blast
  then show "synthesize_phasepoly cfg P = None" using os(1) a(1) gs by (simp add: synthesize_phasepoly_def)
qed

end
