(* ===== verification/PhaseStrategy.thy ===== *)
theory PhaseStrategy
  imports PhaseSearchCorrect "HOL-Library.List_Lexorder" "HOL-Library.Char_ord" "HOL-Library.Multiset"
begin

text \<open>
  The strategy that synthesizes diagonal rotations with the search (src/src/tableau/phasepoly/strategy.cpp), the
  circuit it builds and the check of a synthesized block (synthesizer.cpp). The circuit is the sequence of gates
  that \<open>build_qcir\<close> appends, with the number of qubits. A call that does not return is \<open>None\<close>, one that returns
  \<open>std::nullopt\<close> is \<open>Some None\<close>.
\<close>

section \<open>Building and checking\<close>

definition build_qcir :: "nat \<Rightarrow> phase_op list \<Rightarrow> nat \<times> phase_op list" where
  "build_qcir n gates = (n, filter (\<lambda>op. \<not> (is_cx op \<and> op_control op = op_target op)) gates)"

definition phase_terms :: "parity_matrix \<Rightarrow> phase list \<Rightarrow> (string \<times> string) list" where
  "phase_terms M angles =
     sort (map (\<lambda>c. (map (\<lambda>r. if pm_get M r c then CHR ''1'' else CHR ''0'') [0..<n_rows M], get_print_string (angles ! c)))
       [0..<n_cols M])"

definition verify_synthesis :: "phase_poly_problem \<Rightarrow> synthesis_result \<Rightarrow> bool" where
  "verify_synthesis P r =
     (let rebuilt = phase_block_to_problem (from_ops (prob_qubits P) (res_gates r)) in
      if output_matrix rebuilt \<noteq> output_matrix P then False
      else phase_terms (phase_matrix rebuilt) (phase_angles rebuilt) = phase_terms (phase_matrix P) (phase_angles P))"

section \<open>The strategy\<close>

text \<open>Here an all-zero parity is kept as a term.\<close>

definition strategy_terms :: "nat \<Rightarrow> pauli_rotation list \<Rightarrow> parity_terms" where
  "strategy_terms n rotations = live_terms (fold (\<lambda>R. add_term (rotation_parity n R) (rot_phase R)) rotations [])"

definition strategy_problem :: "nat \<Rightarrow> pauli_rotation list \<Rightarrow> phase_poly_problem" where
  "strategy_problem n rotations =
     (let ts = strategy_terms n rotations; m = length ts
      in \<lparr>prob_qubits = n,
          phase_matrix = fold (\<lambda>j. fold (\<lambda>q. pm_set q j (test (fst (ts ! j)) q)) [0..<n]) [0..<m] (pm_blank n m),
          phase_angles = map snd ts, output_matrix = pm_identity n\<rparr>)"

definition phasepoly_synthesize :: "phase_poly_config \<Rightarrow> pauli_rotation list \<Rightarrow> (nat \<times> phase_op list) option option" where
  "phasepoly_synthesize cfg rotations =
     (if rotations = [] then Some (Some (0, []))
      else (let n = rot_n_qubits (hd rotations) in
            if n = 0 then Some (Some (0, []))
            else if \<not> list_all rot_is_diagonal rotations then Some None
            else (case synthesize_phasepoly cfg (strategy_problem n rotations) of
                    None \<Rightarrow> None
                  | Some r \<Rightarrow> Some (Some (build_qcir (res_qubits r) (res_gates r))))))"

section \<open>Correctness\<close>

lemma build_qcir_ok: "list_all (phase_op_ok n) gates \<Longrightarrow> build_qcir n gates = (n, gates)"
  by (auto simp: build_qcir_def filter_id_conv list_all_iff phase_op_ok_def)

lemma strategy_matrix:
  "fold (\<lambda>j. fold (\<lambda>q. pm_set q j (test (fst (ts ! j)) q)) [0..<n]) [0..<length ts] (pm_blank n (length ts)) = from_columns n (map fst ts)"
proof (rule pm_eqI [where m = n and k = "length ts"])
  let ?k = "length ts"
  have row: "pm_ok n ?k N \<Longrightarrow> j < ?k \<Longrightarrow>
      pm_ok n ?k (fold (\<lambda>q. pm_set q j (p q)) [0..<n] N) \<and>
      (\<forall>x < n. \<forall>y < ?k. pm_get (fold (\<lambda>q. pm_set q j (p q)) [0..<n] N) x y = (if y = j then p x else pm_get N x y))" for N j p
  proof -
    assume N: "pm_ok n ?k N" "j < ?k"
    let ?I = "\<lambda>i K. pm_ok n ?k K \<and> (\<forall>x < n. \<forall>y < ?k. pm_get K x y = (if y = j \<and> x < i then p x else pm_get N x y))"
    have "?I n (fold (\<lambda>q. pm_set q j (p q)) [0..<n] N)"
    proof (rule fold_upt_induct [where I = ?I])
      fix i K assume "0 \<le> i" "i < n" "?I i K"
      then show "?I (Suc i) (pm_set i j (p i) K)" using N(2) by (auto simp: pm_set_ok less_Suc_eq)
    qed (use N in auto)
    then show ?thesis by auto
  qed
  let ?J = "\<lambda>i K. pm_ok n ?k K \<and> (\<forall>x < n. \<forall>y < ?k. pm_get K x y = (y < i \<and> test (fst (ts ! y)) x))"
  let ?M = "fold (\<lambda>j. fold (\<lambda>q. pm_set q j (test (fst (ts ! j)) q)) [0..<n]) [0..<?k] (pm_blank n ?k)"
  have "?J ?k ?M"
  proof (rule fold_upt_induct [where I = ?J])
    fix i K assume i: "0 \<le> i" "i < ?k" "?J i K"
    then show "?J (Suc i) (fold (\<lambda>q. pm_set q i (test (fst (ts ! i)) q)) [0..<n] K)"
      using row [of K i "test (fst (ts ! i))"] by (auto simp: less_Suc_eq)
  qed (auto simp: pm_blank_ok)
  then show "pm_ok n ?k ?M" "\<And>r c. r < n \<Longrightarrow> c < ?k \<Longrightarrow> pm_get ?M r c = pm_get (from_columns n (map fst ts)) r c"
    using from_columns_spec(2) [of _ n _ "map fst ts"] by auto
  show "pm_ok n ?k (from_columns n (map fst ts))" using from_columns_spec(1) [of n "map fst ts"] by simp
qed

lemma strategy_problem_terms: "strategy_problem n rs = problem_of_terms n (strategy_terms n rs) (pm_identity n)"
  by (simp add: strategy_problem_def problem_of_terms_def Let_def strategy_matrix)

lemma bits_nonzero:
  assumes R: "rot_ok n R" "rot_is_diagonal R" "\<not> is_identity (rot_product R)"
  shows "bit_count (rotation_parity n R) \<noteq> 0"
proof -
  have P: "pp_ok n (rot_product R)" "is_diagonal (rot_product R)" using rot_okD [OF R(1)] R(2) by (auto simp: rot_is_diagonal_def)
  obtain i where "i < n" "is_z (rot_product R) i"
    using P R(3) by (auto simp: is_identity_def is_diagonal_def list_all_iff pp_ok_def)
  then show ?thesis by (auto simp: bit_count_0 rotation_parity_def)
qed

lemma strategy_terms_collect:
  assumes "rots_ok n rs" "diag_rotations rs" "reducible rs"
  shows "strategy_terms n rs = live_terms (collect_rotations n rs [])"
proof -
  have "fold (\<lambda>R. add_term (rotation_parity n R) (rot_phase R)) rs ts = collect_rotations n rs ts" for ts
    using assms
  proof (induction rs arbitrary: ts)
    case (Cons R rs)
    have "bit_count (rotation_parity n R) \<noteq> 0" using Cons.prems by (intro bits_nonzero) (auto simp: diag_rotations_def)
    then show ?case using Cons by (simp add: collect_rotations_def diag_rotations_def)
  qed (simp add: collect_rotations_def)
  then show ?thesis by (simp add: strategy_terms_def)
qed

lemma pm_identity_invertible: "invertible n (pm_get (pm_identity n))"
  by (rule invertible_identity) (simp add: pm_identity_spec)

lemma ops_bits_outside: "list_all (phase_op_ok n) ops \<Longrightarrow> n \<le> q \<Longrightarrow> ops_bits ops b q = b q"
  by (induction ops arbitrary: b) (auto simp: op_bits_def phase_op_ok_def cx_state_def split: if_splits)

theorem phasepoly_synthesize_spec:
  assumes rs: "rots_ok n rs" "diag_rotations rs" "reducible rs" "rs \<noteq> []"
  shows "\<exists>gates. phasepoly_synthesize cfg rs = Some (Some (n, gates)) \<and> list_all (phase_op_ok n) gates \<and>
    (\<forall>v. phase_ops_op gates v = rots_op rs v) \<and> length (filter (\<lambda>op. \<not> is_cx op) gates) \<le> length rs"
proof -
  have n: "rot_n_qubits (hd rs) = n" using rs(1,4) by (cases rs) (auto simp: rot_ok_def pp_ok_def rot_n_qubits_def)
  obtain R rs' where R: "rs = R # rs'" using rs(4) by (cases rs) auto
  have "pp_ok n (rot_product R)" "\<not> is_identity (rot_product R)" using rs R by (auto dest: rot_okD(1))
  then have n0: "0 < n" by (cases n) (auto simp: is_identity_def pp_ok_def)
  let ?ts = "collect_rotations n rs []" and ?P = "strategy_problem n rs"
  have c: "terms_ok n ?ts" "\<And>v b. rots_op rs v b = turn (terms_turn n ?ts b) * v b"
    using collect_rotations_spec [OF rs(1,2) terms_ok_simps(1)] by (simp_all add: turn_def)
  have P: "?P = problem_of_terms n (live_terms ?ts) (pm_identity n)"
    by (simp add: strategy_problem_terms strategy_terms_collect [OF rs(1-3)])
  note p = problem_of_terms_spec [OF live_terms_ok [OF c(1)] pm_identity_spec(1) pm_identity_invertible, folded P]
  obtain r where r: "synthesize_phasepoly cfg ?P = Some r" "solves_problem n ?P (res_gates r)"
    "num_rz r = length (filter (\<lambda>op. \<not> is_cx op) (res_gates r))"
    using synthesize_phasepoly_spec [OF p(1,2)] by blast
  have rq: "res_qubits r = n" "num_rz r = num_phase_terms ?P"
    using r(1) by (auto simp: synthesize_phasepoly_def to_result_def P problem_of_terms_def split: option.splits if_splits prod.splits)
  have ok: "list_all (phase_op_ok n) (res_gates r)" using r(2) by (simp add: solves_problem_def)
  have bits: "ops_bits (res_gates r) b = b" for b
  proof
    fix q
    show "ops_bits (res_gates r) b q = b q"
    proof (cases "q < n")
      case True
      have "problem_map ?P b q = dot n (\<lambda>i. i = q) b"
        unfolding p(4) by (rule dot_cong) (use True pm_identity_spec(2) in auto)
      then show ?thesis using True r(2) dot_unit(1) [OF True] by (simp add: solves_problem_def)
    next
      case False
      then show ?thesis using ops_bits_outside [OF ok] by simp
    qed
  qed
  have "phase_ops_op (res_gates r) v b = rots_op rs v b" for v b
    using phase_ops_basis [OF ok, of v b] r(2) c(2) live_terms_turn [OF terms_ok_angles [OF c(1)]]
    by (simp add: bits solves_problem_def p(3))
  then have "\<forall>v. phase_ops_op (res_gates r) v = rots_op rs v" by (simp add: fun_eq_iff)
  moreover have "num_phase_terms ?P \<le> length rs"
  proof -
    have a: "length (add_term q a ts) \<le> Suc (length ts)" for q a ts by (induction q a ts rule: add_term.induct) auto
    have "length (collect_rotations n rs ts) \<le> length ts + length rs" for ts
    proof (induction rs arbitrary: ts)
      case (Cons R rs)
      show ?case
        using Cons.IH [of "if bit_count (rotation_parity n R) = 0 then ts else add_term (rotation_parity n R) (rot_phase R) ts"]
          a [of "rotation_parity n R" "rot_phase R" ts]
        by (simp add: collect_rotations_def Let_def split: if_splits)
    qed (simp add: collect_rotations_def)
    from this [of "[]"] have "length (live_terms ?ts) \<le> length rs"
      using length_filter_le [of _ ?ts] by (metis (no_types, lifting) add_0 le_trans list.size(3) live_terms_def)
    then show ?thesis by (simp add: P problem_of_terms_def num_phase_terms_def)
  qed
  ultimately show ?thesis
    using r(1,3) rq n n0 rs(2,4) ok build_qcir_ok [OF ok] by (auto simp: phasepoly_synthesize_def diag_rotations_def Let_def)
qed

text \<open>A rotation around the identity is a phase column of zeros, on which the search does not return.\<close>

theorem identity_rotation_diverges:
  assumes R: "rot_ok n R" "is_identity (rot_product R)" "\<not> phase_eq (rot_phase R) (phase_of_int 0)" and n: "0 < n"
  shows "phasepoly_synthesize cfg [R] = None"
proof -
  have P: "pp_ok n (rot_product R)" by (rule rot_okD(1) [OF R(1)])
  have nq: "rot_n_qubits R = n" using P by (simp add: pp_ok_def rot_n_qubits_def)
  have d: "rot_is_diagonal R" using R(2) by (auto simp: rot_is_diagonal_def is_diagonal_def is_identity_def list_all_iff)
  have ts: "strategy_terms n [R] = [(rotation_parity n R, rot_phase R)]" using R(3) by (simp add: strategy_terms_def live_terms_def)
  let ?P = "strategy_problem n [R]"
  have e: "?P = problem_of_terms n [(rotation_parity n R, rot_phase R)] (pm_identity n)" by (simp add: strategy_problem_terms ts)
  note c = from_columns_spec [where n = n and cs = "[rotation_parity n R]"]
  have z: "\<not> is_z (rot_product R) i" if "i < n" for i
    using R(2) P that by (auto simp: is_identity_def list_all_iff pp_ok_def is_i_def is_z_def)
  have "problem_ok n ?P"
    using c(1) rot_okD(3) [OF R(1)] by (simp add: e problem_of_terms_def problem_ok_def phase_dims_def pm_identity_spec(1) pm_identity_invertible)
  moreover have "zero_column (phase_matrix ?P)"
    unfolding zero_column_def
    by (rule exI [of _ 0]) (use c pm_okD(1,2) [OF c(1)] z in \<open>simp add: e problem_of_terms_def rotation_parity_def\<close>)
  ultimately have "synthesize_phasepoly cfg ?P = None" by (rule zero_column_diverges(1))
  then show ?thesis using nq n d by (simp add: phasepoly_synthesize_def)
qed

section \<open>The check is sound\<close>

definition term_value :: "nat \<Rightarrow> qstate \<Rightarrow> string \<times> string \<Rightarrow> rat" where
  "term_value n b t =
     (if dot n (\<lambda>r. fst t ! r = CHR ''1'') b then phase_val (SOME p. phase_ok p \<and> get_print_string p = snd t) else 0)"

lemma printed_phase: "phase_ok p \<Longrightarrow> (SOME q. phase_ok q \<and> get_print_string q = get_print_string p) = p"
  by (rule some_equality) (auto intro: print_string_inj)

lemma phase_terms_turn:
  assumes M: "phase_dims n (length as) M" and as: "\<forall>a \<in> set as. phase_ok a"
  shows "cols_turn n M as b = sum_mset (image_mset (term_value n b) (mset (phase_terms M as)))"
proof -
  let ?t = "\<lambda>c. (map (\<lambda>r. if pm_get M r c then CHR ''1'' else CHR ''0'') [0..<n_rows M], get_print_string (as ! c))"
  have k: "n_cols M = length as" by (rule phase_dims_cols [OF M])
  have "sum_mset (image_mset (term_value n b) (mset (phase_terms M as))) = (\<Sum>c \<leftarrow> [0..<length as]. term_value n b (?t c))"
    by (simp add: phase_terms_def k sum_mset_sum_list comp_def flip: mset_map)
  also have "\<dots> = (\<Sum>c < length as. term_value n b (?t c))"
    by (simp add: interv_sum_list_conv_sum_set_nat atLeast0LessThan)
  also have "\<dots> = cols_turn n M as b"
    unfolding cols_turn_def
  proof (intro sum.cong refl)
    fix c assume "c \<in> {..<length as}"
    then have c: "c < length as" by simp
    have "n_rows M = n" by (rule pm_okD(1) [OF phase_dims_ok [OF M c]])
    then have "dot n (\<lambda>r. fst (?t c) ! r = CHR ''1'') b = dot n (\<lambda>r. pm_get M r c) b" by (intro dot_cong) auto
    then show "term_value n b (?t c) = (if dot n (\<lambda>r. pm_get M r c) b then phase_val (as ! c) else 0)"
      using printed_phase [of "as ! c"] as nth_mem [OF c] by (simp add: term_value_def)
  qed
  finally show ?thesis by simp
qed

theorem verify_synthesis_sound:
  assumes P: "problem_ok n P" and r: "list_all (phase_op_ok n) (res_gates r)" and v: "verify_synthesis P r"
  shows "mod2 (ops_turn (res_gates r) b) (problem_turn P b) \<and> (\<forall>q < n. ops_bits (res_gates r) b q = problem_map P b q)"
proof -
  have n: "prob_qubits P = n" using P by (simp add: problem_ok_def)
  let ?B = "from_ops n (res_gates r)"
  let ?Q = "phase_block_to_problem ?B"
  have B: "list_all (phase_op_ok n) (blk_ops ?B)" "blk_qubits ?B = n"
    using r by (simp_all add: from_ops_spec list_all_iff)
  note q = phase_block_spec [OF B]
  have e: "output_matrix ?Q = output_matrix P" "phase_terms (phase_matrix ?Q) (phase_angles ?Q) = phase_terms (phase_matrix P) (phase_angles P)"
    using v by (auto simp: verify_synthesis_def n Let_def split: if_splits)
  have ok: "problem_ok n ?Q" by (rule q(1))
  then have "problem_turn ?Q b = problem_turn P b"
    using P phase_terms_turn [of n "phase_angles ?Q" "phase_matrix ?Q" b] phase_terms_turn [of n "phase_angles P" "phase_matrix P" b] e(2)
    by (simp add: problem_ok_def problem_turn_def)
  moreover have "problem_map ?Q b = problem_map P b" using e(1) ok P by (simp add: problem_map_def problem_ok_def fun_eq_iff)
  ultimately show ?thesis using q(3,4) mod2_sym by (metis B(1) copy_bits from_ops_spec(1))
qed

section \<open>The check is complete\<close>

text \<open>What the search finds passes the check: it turns each parity of the problem once, and those are distinct.\<close>

definition term_of :: "nat \<Rightarrow> bool list \<times> phase \<Rightarrow> (qstate \<Rightarrow> bool) \<times> phase" where
  "term_of n t = (dot n (test (fst t)), snd t)"

definition bits_of :: "nat \<Rightarrow> (qstate \<Rightarrow> bool) \<times> phase \<Rightarrow> bool list \<times> phase" where
  "bits_of n t = (map (\<lambda>i. fst t (\<lambda>r. r = i)) [0..<n], snd t)"

lemma bits_of_term: "length (fst t) = n \<Longrightarrow> bits_of n (term_of n t) = t"
  by (cases t) (auto simp: bits_of_def term_of_def dot_unit(2) test_def intro!: nth_equalityI)

lemma terms_unique:
  assumes "\<And>t. t \<in> set ts \<union> set ts' \<Longrightarrow> length (fst t) = n" "mset (map (term_of n) ts) = mset (map (term_of n) ts')"
  shows "mset ts = mset ts'"
proof -
  have "mset xs = image_mset (bits_of n) (mset (map (term_of n) xs))" if "\<And>t. t \<in> set xs \<Longrightarrow> length (fst t) = n" for xs
    using that by (induction xs) (simp_all add: bits_of_term)
  then show ?thesis using assms by (metis Un_iff)
qed

lemma add_term_new: "p \<notin> fst ` set ts \<Longrightarrow> add_term p a ts = ts @ [(p, a)]"
  by (induction p a ts rule: add_term.induct) (auto simp: bits_key_inj)

lemma copy_terms: "ops_terms (map op_copy ops) = ops_terms ops"
proof (induction ops)
  case (Cons op ops)
  have "op_bits (op_copy op) = op_bits op" by (simp add: fun_eq_iff)
  moreover have "\<not> is_cx op \<Longrightarrow> op_qubit (op_copy op) = op_qubit op \<and> op_phase (op_copy op) = op_phase op"
    by (simp add: op_copy_def make_rz_def op_qubit_def)
  ultimately show ?case using Cons by simp
qed simp

lemma scan_terms:
  assumes xs: "distinct (map fst xs)" "\<And>u a. (u, a) \<in> set xs \<Longrightarrow> \<exists>b. u b"
  shows "list_all (phase_op_ok n) ops \<Longrightarrow> ops_terms ops \<subseteq># mset xs \<Longrightarrow>
    mset (map (term_of n) (snd (fold scan_op ops (sym_init n, [])))) = ops_terms ops"
proof (induction ops rule: rev_induct)
  case (snoc op ops)
  obtain st ts where s: "fold scan_op ops (sym_init n, []) = (st, ts)" by fastforce
  have ok: "list_all (phase_op_ok n) ops" "phase_op_ok n op" using snoc.prems(1) by simp_all
  have inv: "scan_inv n ops (st, ts)" using scan_inv_all [OF ok(1)] s by simp
  have sub: "ops_terms ops \<subseteq># ops_terms (ops @ [op])" by (simp add: ops_terms_append)
  have ih: "mset (map (term_of n) ts) = ops_terms ops"
    using snoc.IH [OF ok(1) subset_mset.order_trans [OF sub snoc.prems(2)]] s by simp
  show ?case
  proof (cases "is_cx op")
    case True
    then have "snd (scan_op op (st, ts)) = ts" by (simp add: scan_op_def)
    then show ?thesis using True ih s by (simp add: ops_terms_append)
  next
    case False
    let ?q = "op_qubit op"
    let ?p = "parity_of st ?q" and ?u = "\<lambda>b. ops_bits ops b ?q"
    have q: "?q < n" using ok(2) False by (auto simp: phase_op_ok_def op_qubit_def)
    have u: "dot n (test ?p) = ?u" using inv q by (auto simp: scan_inv_def fun_eq_iff)
    have t: "ops_terms (ops @ [op]) = add_mset (?u, op_phase op) (ops_terms ops)"
      using False by (simp add: ops_terms_append comp_def)
    have in_xs: "(?u, op_phase op) \<in> set xs"
      using mset_subset_eqD [OF snoc.prems(2), of "(?u, op_phase op)"] by (simp add: t)
    have "add_mset ?u (image_mset fst (ops_terms ops)) \<subseteq># mset (map fst xs)"
      using image_mset_subseteq_mono [OF snoc.prems(2), of fst] by (simp add: t)
    then have "count (add_mset ?u (image_mset fst (ops_terms ops))) ?u \<le> count (mset (map fst xs)) ?u" by (rule mset_subset_eq_count)
    also have "\<dots> \<le> 1" using xs(1) by (simp add: distinct_count_atmost_1)
    finally have "count (image_mset fst (ops_terms ops)) ?u = 0" by simp
    then have "?u \<notin> set_mset (image_mset fst (ops_terms ops))" by (simp only: count_eq_zero_iff) simp
    then have "?u \<notin> fst ` set (map (term_of n) ts)" unfolding ih [symmetric] by simp
    then have new: "?p \<notin> fst ` set ts" using u by (force simp: term_of_def)
    have "bit_count ?p \<noteq> 0" using zero_parity [of ?p n] xs(2) [OF in_xs] u by (auto simp: fun_eq_iff)
    then have "snd (scan_op op (st, ts)) = ts @ [(?p, op_phase op)]" using False add_term_new [OF new] by (simp add: scan_op_def Let_def)
    moreover have "term_of n (?p, op_phase op) = (?u, op_phase op)" using u by (simp add: term_of_def)
    ultimately show ?thesis using s ih t by simp
  qed
qed simp

definition printed_term :: "bool list \<times> phase \<Rightarrow> string \<times> string" where
  "printed_term t = (map (\<lambda>b. if b then CHR ''1'' else CHR ''0'') (fst t), get_print_string (snd t))"

lemma phase_terms_of:
  assumes "\<And>t. t \<in> set ts \<Longrightarrow> length (fst t) = n"
  shows "phase_terms (from_columns n (map fst ts)) (map snd ts) = sort (map printed_term ts)"
proof -
  note c = from_columns_spec [where n = n and cs = "map fst ts"]
  have "(map (\<lambda>r. if pm_get (from_columns n (map fst ts)) r c then CHR ''1'' else CHR ''0'') [0..<n], get_print_string (map snd ts ! c)) =
      printed_term (ts ! c)" if "c < length ts" for c
    using c(2) that assms [OF nth_mem [OF that]] by (auto simp: printed_term_def test_def intro!: nth_equalityI)
  then have "map (\<lambda>c. (map (\<lambda>r. if pm_get (from_columns n (map fst ts)) r c then CHR ''1'' else CHR ''0'') [0..<n], get_print_string (map snd ts ! c)))
      [0..<length ts] = map printed_term ts"
    by (intro nth_equalityI) auto
  then show ?thesis using pm_okD(1,2) [OF c(1)] unfolding phase_terms_def by (simp del: map_eq_conv)
qed

lemma problem_terms_of: "cols_terms n (from_columns n (map fst ts)) (map snd ts) = mset (map (term_of n) ts)"
proof -
  have "dot n (\<lambda>r. pm_get (from_columns n (map fst ts)) r c) = dot n (test (fst (ts ! c)))" if "c < length ts" for c
    by (rule ext, rule dot_cong) (use that from_columns_spec(2) [of _ n c "map fst ts"] in auto)
  then have "map (\<lambda>c. (dot n (\<lambda>r. pm_get (from_columns n (map fst ts)) r c), map snd ts ! c)) [0..<length ts] = map (term_of n) ts"
    by (intro nth_equalityI) (auto simp: term_of_def)
  then show ?thesis by (simp add: cols_terms_def del: map_eq_conv mset_map)
qed

text \<open>A problem given by merged parities with angles other than zero, up to an empty phase matrix.\<close>

definition merged_problem :: "nat \<Rightarrow> parity_terms \<Rightarrow> phase_poly_problem \<Rightarrow> bool" where
  "merged_problem n ts P \<longleftrightarrow> problem_ok n P \<and> terms_ok n ts \<and> live_terms ts = ts \<and> problem_terms P = mset (map (term_of n) ts) \<and>
     phase_terms (phase_matrix P) (phase_angles P) = phase_terms (from_columns n (map fst ts)) (map snd ts)"

theorem verify_synthesis_complete:
  assumes P: "merged_problem n ts P" and r: "solves_problem n P (res_gates r)"
  shows "verify_synthesis P r"
proof -
  let ?ops = "res_gates r"
  have p: "problem_ok n P" "terms_ok n ts" "live_terms ts = ts" "problem_terms P = mset (map (term_of n) ts)"
    "phase_terms (phase_matrix P) (phase_angles P) = phase_terms (from_columns n (map fst ts)) (map snd ts)"
    using P by (simp_all add: merged_problem_def)
  have s: "list_all (phase_op_ok n) ?ops" "ops_terms ?ops = problem_terms P" "\<And>b q. q < n \<Longrightarrow> ops_bits ?ops b q = problem_map P b q"
    using r by (simp_all add: solves_problem_def)
  have n: "prob_qubits P = n" "pm_ok n n (output_matrix P)" using p(1) by (simp_all add: problem_ok_def)
  let ?cs = "map op_copy ?ops"
  have cs: "list_all (phase_op_ok n) ?cs" using s(1) by (simp add: list_all_iff)
  obtain st ts' where f: "fold scan_op ?cs (sym_init n, []) = (st, ts')" by fastforce
  have inv: "scan_inv n ?cs (st, ts')" using scan_inv_all [OF cs] f by simp
  have len: "length (fst t) = n" if "t \<in> set ts \<union> set ts'" for t
    using p(2) inv that by (auto simp: scan_inv_def terms_ok_def)
  have d: "distinct (map fst (map (term_of n) ts))"
  proof -
    have "inj_on (\<lambda>q. dot n (test q)) (fst ` set ts)"
    proof (rule inj_onI)
      fix q q' assume "q \<in> fst ` set ts" "q' \<in> fst ` set ts" "dot n (test q) = dot n (test q')"
      moreover from this have "length q = n" "length q' = n" using len by fastforce+
      ultimately show "q = q'" using bits_of_term [of "(q, phase_of_int 0)" n] bits_of_term [of "(q', phase_of_int 0)" n]
        by (simp add: term_of_def)
    qed
    then show ?thesis using p(2) distinct_map [of "\<lambda>q. dot n (test q)" "map fst ts"] by (simp add: terms_ok_def term_of_def comp_def)
  qed
  have nz: "\<exists>b. u b" if ua: "(u, a) \<in> set (map (term_of n) ts)" for u a
  proof -
    obtain q where q: "(q, a) \<in> set ts" "u = dot n (test q)" using ua by (auto simp: term_of_def)
    then have "length q = n" "bit_count q \<noteq> 0" using p(2) by (auto simp: terms_ok_def)
    then obtain i where "i < n" "test q i" by (auto simp: bit_count_0 test_def)
    then show ?thesis using q(2) dot_unit(2) [of i n "test q"] by blast
  qed
  have "mset (map (term_of n) ts') = mset (map (term_of n) ts)"
    using scan_terms [OF d nz cs] f by (simp add: copy_terms s(2) p(4) del: mset_map)
  then have m: "mset ts' = mset ts" by (rule terms_unique [rotated]) (use len in auto)
  then have set: "set ts' = set ts" by (rule mset_eq_setD)
  have live: "live_terms ts' = ts'"
    using p(3) set unfolding live_terms_def by (metis (no_types, lifting) filter_True filter_id_conv)
  have "sort (map printed_term ts') = sort (map printed_term ts)"
    by (rule properties_for_sort [OF _ sorted_sort, symmetric, THEN sym]) (simp add: m)
  then have terms: "phase_terms (from_columns n (map fst ts')) (map snd ts') = phase_terms (phase_matrix P) (phase_angles P)"
    using p(5) phase_terms_of [of ts n] phase_terms_of [of ts' n] len by auto
  note o = scan_output [OF cs inv, simplified]
  have "to_output_matrix st = output_matrix P"
  proof (rule pm_eqI [OF o(1) n(2)])
    fix i q assume iq: "i < n" "q < n"
    have "dot n (\<lambda>r. pm_get (to_output_matrix st) r q) b = dot n (\<lambda>r. pm_get (output_matrix P) r q) b" for b
      using o(3) [OF iq(2)] s(3) [OF iq(2)] by (simp add: problem_map_def n(1))
    from this [of "\<lambda>r. r = i"] show "pm_get (to_output_matrix st) i q = pm_get (output_matrix P) i q" using dot_unit(2) [OF iq(1)] by simp
  qed
  then show ?thesis
    using f live terms by (simp add: verify_synthesis_def phase_block_to_problem_def from_ops_spec n(1) problem_of_terms_def)
qed

lemma rotations_problem_merged:
  assumes rs: "rots_ok n rs" "diag_rotations rs" and out: "pm_ok n n out" "invertible n (pm_get out)"
  shows "\<exists>ts. merged_problem n ts (rotations_to_problem rs out)"
proof (cases "rs = []")
  case True
  have "merged_problem n [] (rotations_to_problem rs out)"
    using rotations_to_problem_spec(1) [OF assms] pm_okD(1) [OF out(1)] from_columns_spec(1) [of n "[]"] pm_okD(2)
    by (auto simp: True merged_problem_def rotations_to_problem_def live_terms_def problem_terms_def phase_terms_def)
  then show ?thesis ..
next
  case False
  have n: "rot_n_qubits (hd rs) = n" using rs(1) False by (cases rs) (auto simp: rot_ok_def pp_ok_def rot_n_qubits_def)
  let ?ts = "collect_rotations n rs []"
  have ok: "terms_ok n ?ts" using collect_rotations_spec [OF rs terms_ok_simps(1)] by blast
  have P: "rotations_to_problem rs out = problem_of_terms n (live_terms ?ts) out"
    using False n by (simp only: rotations_to_problem_def Let_def collect_rotations_def list.simps if_False)
  have "live_terms (live_terms ?ts) = live_terms ?ts" by (simp add: live_terms_def)
  then have "merged_problem n (live_terms ?ts) (rotations_to_problem rs out)"
    using rotations_to_problem_spec(1) [OF assms] live_terms_ok [OF ok]
    unfolding merged_problem_def P by (simp add: problem_terms_def problem_of_terms_def problem_terms_of del: mset_map)
  then show ?thesis ..
qed

end
