(* ===== verification/ToddPreprocess.thy ===== *)
theory ToddPreprocess
  imports PhaseSearchCorrect FullOptimize
begin

text \<open>
  TODD as a preprocessing of one block (src/src/tableau/phasepoly/todd_preprocess.cpp). What the code returns is
  well formed and has fewer terms. It does not always mean what the input means: a Clifford correction that is not
  a circuit of CNOTs is dropped, and a correction that is one replaces the output matrix of the problem.
\<close>

definition problem_to_rotations :: "phase_poly_problem \<Rightarrow> pauli_rotation list" where
  "problem_to_rotations P =
     map (\<lambda>c. rotation_of_paulis
            (fold (\<lambda>r paulis. if pm_get (phase_matrix P) r c then paulis[r := PZ] else paulis) [0..<prob_qubits P]
               (replicate (prob_qubits P) PI))
            (phase_angles P ! c))
       [0..<num_phase_terms P]"

definition todd_optimize_problem :: "(nat \<Rightarrow> bool) \<Rightarrow> phase_poly_problem \<Rightarrow> phase_poly_problem option option" where
  "todd_optimize_problem stop P =
     (let rotations = problem_to_rotations P in
      if length rotations < 2 then Some None
      else (case is_phase_polynomial rotations of
              None \<Rightarrow> None
            | Some False \<Rightarrow> Some None
            | Some True \<Rightarrow>
                (case todd_optimize stop (st_init (prob_qubits P)) rotations of
                   None \<Rightarrow> None
                 | Some (opt_clifford, opt_rotations) \<Rightarrow>
                     if length rotations \<le> length opt_rotations then Some None
                     else (case tableau_block_to_problem (ag_synthesize stop 0) opt_clifford opt_rotations of
                             Some opt \<Rightarrow> Some (Some opt)
                           | None \<Rightarrow> Some (Some (rotations_to_problem opt_rotations (output_matrix P)))))))"

text \<open>The only use of the preprocessing of segments is the count, the segments stay as they are.\<close>

definition count_rz_after_todd :: "(nat \<Rightarrow> bool) \<Rightarrow> phase_block list \<Rightarrow> nat option" where
  "count_rz_after_todd stop segments =
     fold (\<lambda>B acc. case acc of None \<Rightarrow> None
                   | Some n \<Rightarrow> if blk_ops B = [] then Some n
                              else (case todd_optimize_problem stop (phase_block_to_problem B) of
                                      None \<Rightarrow> None
                                    | Some None \<Rightarrow> Some (n + blk_num_rz B)
                                    | Some (Some opt) \<Rightarrow> Some (n + num_phase_terms opt)))
       segments (Some 0)"

definition two_s_gates :: phase_poly_problem where
  "two_s_gates = phase_block_to_problem (from_ops 2 [make_rz 0 (mk_phase 1 2), make_rz 1 (mk_phase 1 2)])"

section \<open>What the result is\<close>

lemma problem_to_rotations_nth:
  assumes P: "problem_ok n P" and c: "c < num_phase_terms P"
  shows "problem_to_rotations P ! c = rotation_of_paulis
      (map (\<lambda>x. if x = 1 then PZ else PI) (map (\<lambda>r. of_bool (pm_get (phase_matrix P) r c)) [0..<n] :: row)) (phase_angles P ! c)"
proof -
  let ?p = "\<lambda>r. pm_get (phase_matrix P) r c"
  let ?I = "\<lambda>i ps. length ps = n \<and> (\<forall>r < n. ps ! r = (if r < i \<and> ?p r then PZ else PI))"
  have "?I n (fold (\<lambda>r paulis. if ?p r then paulis[r := PZ] else paulis) [0..<n] (replicate n PI))"
    by (rule fold_upt_induct [where I = ?I]) (auto simp: nth_list_update less_Suc_eq)
  then have "fold (\<lambda>r paulis. if ?p r then paulis[r := PZ] else paulis) [0..<n] (replicate n PI) =
      map (\<lambda>x. if x = 1 then PZ else PI) (map (\<lambda>r. of_bool (?p r)) [0..<n] :: row)"
    by (intro nth_equalityI) auto
  then show ?thesis using P c by (simp add: problem_to_rotations_def problem_ok_def del: map_map)
qed

lemma problem_to_rotations_ok:
  assumes P: "problem_ok n P"
  shows "rots_ok n (problem_to_rotations P)" "diag_rotations (problem_to_rotations P)"
    "length (problem_to_rotations P) = num_phase_terms P"
proof -
  show l: "length (problem_to_rotations P) = num_phase_terms P" by (simp add: problem_to_rotations_def)
  have "rot_ok n (problem_to_rotations P ! c) \<and> rot_is_diagonal (problem_to_rotations P ! c)" if c: "c < num_phase_terms P" for c
  proof -
    let ?row = "map (\<lambda>r. of_bool (pm_get (phase_matrix P) r c)) [0..<n] :: row"
    define Q where "Q = pp_of_paulis (map (\<lambda>x. if x = 1 then PZ else PI) ?row) False"
    have "row_ok n ?row" by (simp add: row_ok_def)
    note q = paulis_of_row [OF this, folded Q_def]
    have a: "phase_ok (phase_angles P ! c)" using P nth_mem [of c "phase_angles P"] c by (simp add: problem_ok_def num_phase_terms_def)
    have "problem_to_rotations P ! c = \<lparr>rot_product = Q, rot_phase = phase_angles P ! c\<rparr>"
      unfolding problem_to_rotations_nth [OF P c] rotation_of_paulis_def Q_def [symmetric]
      using q(2) by (simp add: mk_rotation_def rot_normalize_def)
    then show ?thesis using q a by (simp add: rot_ok_def rot_is_diagonal_def diag_iff [OF q(1)])
  qed
  then show "rots_ok n (problem_to_rotations P)" "diag_rotations (problem_to_rotations P)"
    using l by (auto simp: rots_ok_def diag_rotations_def list_all_length)
qed

lemma rotations_to_problem_length: "num_phase_terms (rotations_to_problem rs out) \<le> length rs"
proof -
  have a: "length (add_term q a ts) \<le> Suc (length ts)" for q a ts by (induction q a ts rule: add_term.induct) auto
  have "length (collect_rotations n rs ts) \<le> length ts + length rs" for n ts
  proof (induction rs arbitrary: ts)
    case (Cons R rs)
    show ?case
      using Cons.IH [of "if bit_count (rotation_parity n R) = 0 then ts else add_term (rotation_parity n R) (rot_phase R) ts"]
        a [of "rotation_parity n R" "rot_phase R" ts]
      by (simp add: collect_rotations_def Let_def split: if_splits)
  qed (simp add: collect_rotations_def)
  from this [where ts = "[]"] have "length (live_terms (collect_rotations n rs [])) \<le> length rs" for n
    using length_filter_le [of _ "collect_rotations n rs []"] by (metis (no_types, lifting) add_0 le_trans list.size(3) live_terms_def)
  then show ?thesis
    unfolding rotations_to_problem_def collect_rotations_def by (auto simp: num_phase_terms_def problem_of_terms_def Let_def)
qed

theorem todd_optimize_problem_ok:
  assumes P: "problem_ok n P" and stop: "\<And>i. stop i \<Longrightarrow> stop (Suc i)"
  shows "\<exists>res. todd_optimize_problem stop P = Some res \<and>
    (case res of None \<Rightarrow> True
     | Some P' \<Rightarrow> problem_ok n P' \<and> no_zero_columns (phase_matrix P') \<and> num_phase_terms P' < num_phase_terms P)"
proof -
  let ?rs = "problem_to_rotations P"
  note r = problem_to_rotations_ok [OF P]
  show ?thesis
  proof (cases "length ?rs < 2")
    case True
    then show ?thesis by (auto simp: todd_optimize_problem_def)
  next
    case False
    then have ne: "?rs \<noteq> []" by auto
    have pp: "is_phase_polynomial ?rs = Some True" using todd.is_phase_polynomial_ok [OF r(1) ne] r(2) by simp
    have n: "prob_qubits P = n" and O: "pm_ok n n (output_matrix P)" "invertible n (pm_get (output_matrix P))"
      using P by (auto simp: problem_ok_def)
    obtain d rs' where o: "todd_optimize stop (st_init n) ?rs = Some (trait_apply_string st_trait d (st_init n), rs')"
      "diag_string n d" "rots_ok n rs'" "diag_rotations rs'"
      using todd_optimize_spec [OF r(1,2)] by blast
    let ?T = "trait_apply_string st_trait d (st_init n)"
    have T: "st_ok n ?T" using o(2) by (auto simp: diag_string_def intro: st_apply_string_ok [OF st_init_ok])
    have T': "st_n_qubits ?T = n" by (rule st_wf_n [OF st_ok_wf [OF T]])
    show ?thesis
    proof (cases "length ?rs \<le> length rs'")
      case True
      then show ?thesis using False pp o(1) by (simp add: todd_optimize_problem_def Let_def n)
    next
      case less: False
      show ?thesis
      proof (cases "output_matrix_from_stabilizer (ag_synthesize stop 0) ?T")
        case None
        then have "todd_optimize_problem stop P = Some (Some (rotations_to_problem rs' (output_matrix P)))"
          using False pp o(1) less by (simp add: todd_optimize_problem_def Let_def n tableau_block_to_problem_def)
        then show ?thesis
          using rotations_to_problem_spec(1,2) [OF o(3,4) O] rotations_to_problem_length [of rs' "output_matrix P"] less r(3) by simp
      next
        case (Some out)
        have cs: "string_ok n (ag_synthesize stop 0 ?T)" by (rule ag_synthesize_linked(1) [OF T]) (rule stop)
        note out = output_matrix_from_stabilizer_spec(1,2) [OF cs T' Some]
        have "list_all rot_is_diagonal rs'" using o(4) by (simp add: diag_rotations_def)
        then have "todd_optimize_problem stop P = Some (Some (rotations_to_problem rs' out))"
          using False pp o(1) less Some by (simp add: todd_optimize_problem_def Let_def n tableau_block_to_problem_def)
        then show ?thesis
          using rotations_to_problem_spec(1,2) [OF o(3,4) out] rotations_to_problem_length [of rs' out] less r(3) by simp
      qed
    qed
  qed
qed

text \<open>Two S gates are absorbed into the Clifford part, which is then dropped: nothing is left of them.\<close>

lemma two_s_gates_dropped:
  "\<exists>P'. todd_optimize_problem (\<lambda>_. False) two_s_gates = Some (Some P') \<and>
     problem_turn two_s_gates (\<lambda>q. q = 0) = 1 / 2 \<and> problem_turn P' (\<lambda>q. q = 0) = 0 \<and> is_square_identity (output_matrix P')"
proof -
  let ?r = "todd_optimize_problem (\<lambda>_. False) two_s_gates"
  have "(case ?r of Some (Some P') \<Rightarrow> phase_angles P' = [] \<and> is_square_identity (output_matrix P') | _ \<Rightarrow> False)" by code_simp
  then obtain P' where P': "?r = Some (Some P')" "phase_angles P' = []" "is_square_identity (output_matrix P')"
    by (auto split: option.splits)
  have "problem_turn two_s_gates (\<lambda>q. q = 0) = 1 / 2" by code_simp
  then show ?thesis using P' by (simp add: problem_turn_def cols_turn_def)
qed

end
