(* ===== verification/Samples.thy ===== *)
theory Samples
  imports RowOperations FullOptimize PhaseStrategy ToddPreprocess
begin

text \<open>
  Small inputs on which the properties of the root theory are applied: a circuit on two qubits, its
  tableau, two lists of rotations and a sequence of sub-tableaux.
\<close>

definition sample_circuit :: clifford_string where
  "sample_circuit = [(COT_h, 0, 0), (COT_cx, 0, 1), (COT_s, 1, 0)]"

definition sample_st :: stabilizer_tableau where
  "sample_st = trait_apply_string st_trait sample_circuit (st_init 2)"

definition sample_rotations :: "pauli_rotation list" where
  "sample_rotations = [mk_rotation (z_gen 2 0) (mk_phase 1 4), mk_rotation (x_gen 2 1) (mk_phase 1 2)]"

definition sample_diagonal :: "pauli_rotation list" where
  "sample_diagonal = [mk_rotation (z_gen 2 0) (mk_phase 1 4), mk_rotation (z_gen 2 1) (mk_phase 1 4)]"

definition sample_tableau :: tableau where
  "sample_tableau = \<lparr>subtableaux = [SubPR sample_rotations, SubST sample_st, SubPR sample_diagonal],
     tab_n_qubits = 2, tab_filename = [], tab_procedures = []\<rparr>"

definition sample_matrix :: boolean_matrix where
  "sample_matrix = bm_of_rows [[1, 0, 1], [1, 1, 0]]"

lemma sample_circuit_ok [simp]: "string_ok 2 sample_circuit"
  by (simp add: sample_circuit_def)

lemma sample_st_ok [simp]: "st_ok 2 sample_st"
  unfolding sample_st_def by (rule st_apply_string_ok [OF st_init_ok sample_circuit_ok])

lemma gen_not_identity: "i < n \<Longrightarrow> \<not> is_identity (z_gen n i)" "i < n \<Longrightarrow> \<not> is_identity (x_gen n i)"
  by (auto simp: is_identity_def list_all_iff is_i_def intro!: bexI [of _ i])

lemma gen_diagonal: "i < n \<Longrightarrow> is_diagonal (z_gen n i)"
  by (auto simp: is_diagonal_def list_all_iff is_i_def is_z_def)

lemma sample_rots_ok [simp]: "rots_ok 2 sample_rotations" "rots_ok 2 sample_diagonal"
  "reducible sample_rotations" "nontrivial_diag 2 sample_diagonal"
  by (auto simp: sample_rotations_def sample_diagonal_def nontrivial_diag_def rots_ok_def reducible_def
      rot_is_diagonal_def mk_rotation_def rot_normalize_def gen_not_identity gen_diagonal
      rot_ok_def mk_phase_ok)

lemma sample_tableau_ok [simp]: "tab_ok 2 sample_tableau" "has_clifford (subtableaux sample_tableau)"
  by (simp_all add: sample_tableau_def tab_ok_def has_clifford_def)

lemma sample_matrix_ok [simp]: "bm_ok 2 3 sample_matrix"
  by (simp add: sample_matrix_def bm_ok_def bm_of_rows_def)

lemma sample_reducible [simp]: "subs_reducible (subtableaux sample_tableau)" "reducible sample_diagonal" "diag_rotations sample_diagonal"
  using sample_rots_ok by (auto simp: sample_tableau_def reducible_def nontrivial_diag_def rot_is_trivial_def diag_rotations_def list_all_iff)

lemma sample_quarters [simp]: "poly_ok 2 sample_diagonal"
  by (simp add: poly_ok_def sample_diagonal_def rots_ok_def rot_is_diagonal_def mk_rotation_def rot_normalize_def
      gen_diagonal rot_ok_def mk_phase_ok)

text \<open>Inputs of the phase-polynomial synthesis.\<close>

definition sample_block :: phase_block where
  "sample_block = from_ops 2 [make_cx 0 1, make_rz 1 (mk_phase 1 4), make_cx 0 1]"

definition sample_synthesis :: synthesis_result where
  "sample_synthesis = \<lparr>res_qubits = 2, res_gates = [make_cx 1 0, make_rz 0 (mk_phase 1 4), make_cx 1 0], num_cx = 2, num_rz = 1,
     expansions = 0, max_queue = 0, num_solutions = 0, used_fallback = False\<rparr>"

definition sample_identity_rotation :: pauli_rotation where
  "sample_identity_rotation = mk_rotation (pp_of_paulis [PI] False) (mk_phase 1 4)"

lemma sample_diagonal_nonempty: "sample_diagonal \<noteq> []"
  by (simp add: sample_diagonal_def)

lemma sample_block_ops: "list_all (phase_op_ok 2) (blk_ops sample_block)" "blk_qubits sample_block = 2"
  by (simp_all add: sample_block_def from_ops_spec mk_phase_ok)

lemma sample_block_ok: "problem_ok 2 (phase_block_to_problem sample_block)"
    "no_zero_columns (phase_matrix (phase_block_to_problem sample_block))"
  using phase_block_spec(1,2) [OF sample_block_ops] by simp_all

lemma sample_synthesis_ok: "list_all (phase_op_ok 2) (res_gates sample_synthesis)"
    "verify_synthesis (phase_block_to_problem sample_block) sample_synthesis"
  by (simp add: sample_synthesis_def mk_phase_ok, code_simp)

lemma sample_identity_rotation_ok: "rot_ok 1 sample_identity_rotation" "is_identity (rot_product sample_identity_rotation)"
    "\<not> phase_eq (rot_phase sample_identity_rotation) (phase_of_int 0)"
  by code_simp+

lemma never_stops: "\<not> (\<lambda>_ :: nat. False) i"
  by simp

end
