(* ===== verification/Operations.thy ===== *)
theory Operations
  imports Phase
begin

text \<open>
  The gates of a circuit (src/src/qcir/basic_gate_type.hpp, operation.hpp, gate_type.cpp) and circuits as the
  conversions see them (qcir.cpp, qcir_action.cpp, qcir_gate.cpp). The type-erased class \<open>Operation\<close> is a datatype
  with one constructor for each wrapped class, a circuit among them. A circuit holds the gates in the order in
  which \<open>get_gates()\<close> lists them; \<open>append\<close> puts a gate behind those it depends on. The assertions of \<open>append\<close>
  and of the constructor of a gate are the predicate \<open>gate_ok\<close>.
\<close>

section \<open>Operations\<close>

datatype operation =
    IdGate | HGate | SwapGate | ECRGate
  | PZGate phase | PXGate phase | PYGate phase
  | RZGate phase | RXGate phase | RYGate phase
  | ControlGate operation nat
  | QCirOp string nat "(operation \<times> nat list) list"

type_synonym gate = "operation \<times> nat list"

abbreviation ZGate :: operation where "ZGate \<equiv> PZGate (phase_of_int 1)"
abbreviation SGate :: operation where "SGate \<equiv> PZGate (mk_phase 1 2)"
abbreviation SdgGate :: operation where "SdgGate \<equiv> PZGate (mk_phase (- 1) 2)"
abbreviation TGate :: operation where "TGate \<equiv> PZGate (mk_phase 1 4)"
abbreviation TdgGate :: operation where "TdgGate \<equiv> PZGate (mk_phase (- 1) 4)"
abbreviation XGate :: operation where "XGate \<equiv> PXGate (phase_of_int 1)"
abbreviation SXGate :: operation where "SXGate \<equiv> PXGate (mk_phase 1 2)"
abbreviation SXdgGate :: operation where "SXdgGate \<equiv> PXGate (mk_phase (- 1) 2)"
abbreviation YGate :: operation where "YGate \<equiv> PYGate (phase_of_int 1)"
abbreviation CXGate :: operation where "CXGate \<equiv> ControlGate XGate 1"
abbreviation CYGate :: operation where "CYGate \<equiv> ControlGate YGate 1"
abbreviation CZGate :: operation where "CZGate \<equiv> ControlGate ZGate 1"

primrec op_num_qubits :: "operation \<Rightarrow> nat" where
  "op_num_qubits IdGate = 1"
| "op_num_qubits HGate = 1"
| "op_num_qubits SwapGate = 2"
| "op_num_qubits ECRGate = 2"
| "op_num_qubits (PZGate p) = 1"
| "op_num_qubits (PXGate p) = 1"
| "op_num_qubits (PYGate p) = 1"
| "op_num_qubits (RZGate p) = 1"
| "op_num_qubits (RXGate p) = 1"
| "op_num_qubits (RYGate p) = 1"
| "op_num_qubits (ControlGate op k) = op_num_qubits op + k"
| "op_num_qubits (QCirOp f n gs) = n"

primrec get_type :: "operation \<Rightarrow> string" where
  "get_type IdGate = ''id''"
| "get_type HGate = ''h''"
| "get_type SwapGate = ''swap''"
| "get_type ECRGate = ''ecr''"
| "get_type (PZGate p) = ''p''"
| "get_type (PXGate p) = ''px''"
| "get_type (PYGate p) = ''py''"
| "get_type (RZGate p) = ''rz''"
| "get_type (RXGate p) = ''rx''"
| "get_type (RYGate p) = ''ry''"
| "get_type (ControlGate op k) = replicate k CHR ''c'' @ get_type op"
| "get_type (QCirOp f n gs) = ''qcir''"

definition pz_repr :: "phase \<Rightarrow> string" where
  "pz_repr p =
     (if phase_eq p (phase_of_int 1) then ''z''
      else if phase_eq p (mk_phase 1 2) then ''s''
      else if phase_eq p (mk_phase (- 1) 2) then ''sdg''
      else if phase_eq p (mk_phase 1 4) then ''t''
      else if phase_eq p (mk_phase (- 1) 4) then ''tdg''
      else ''p('' @ get_print_string p @ '')'')"

definition px_repr :: "phase \<Rightarrow> string" where
  "px_repr p =
     (if phase_eq p (phase_of_int 1) then ''x''
      else if phase_eq p (mk_phase 1 2) then ''sx''
      else if phase_eq p (mk_phase (- 1) 2) then ''sxdg''
      else if phase_eq p (mk_phase 1 4) then ''tx''
      else if phase_eq p (mk_phase (- 1) 4) then ''txdg''
      else ''px('' @ get_print_string p @ '')'')"

definition py_repr :: "phase \<Rightarrow> string" where
  "py_repr p =
     (if phase_eq p (phase_of_int 1) then ''y''
      else if phase_eq p (mk_phase 1 2) then ''sy''
      else if phase_eq p (mk_phase (- 1) 2) then ''sydg''
      else if phase_eq p (mk_phase 1 4) then ''ty''
      else if phase_eq p (mk_phase (- 1) 4) then ''tydg''
      else ''py('' @ get_print_string p @ '')'')"

primrec get_repr :: "operation \<Rightarrow> string" where
  "get_repr IdGate = ''id''"
| "get_repr HGate = ''h''"
| "get_repr SwapGate = ''swap''"
| "get_repr ECRGate = ''ecr''"
| "get_repr (PZGate p) = pz_repr p"
| "get_repr (PXGate p) = px_repr p"
| "get_repr (PYGate p) = py_repr p"
| "get_repr (RZGate p) = ''rz('' @ get_print_string p @ '')''"
| "get_repr (RXGate p) = ''rx('' @ get_print_string p @ '')''"
| "get_repr (RYGate p) = ''ry('' @ get_print_string p @ '')''"
| "get_repr (ControlGate op k) = replicate k CHR ''c'' @ get_repr op"
| "get_repr (QCirOp f n gs) = f"

text \<open>\<open>Operation::operator==\<close>.\<close>

definition operation_eq :: "operation \<Rightarrow> operation \<Rightarrow> bool" where
  "operation_eq a b \<longleftrightarrow> get_repr a = get_repr b \<and> op_num_qubits a = op_num_qubits b"

primrec op_adjoint :: "operation \<Rightarrow> operation" where
  "op_adjoint IdGate = IdGate"
| "op_adjoint HGate = HGate"
| "op_adjoint SwapGate = SwapGate"
| "op_adjoint ECRGate = ECRGate"
| "op_adjoint (PZGate p) = PZGate (phase_uminus p)"
| "op_adjoint (PXGate p) = PXGate (phase_uminus p)"
| "op_adjoint (PYGate p) = PYGate (phase_uminus p)"
| "op_adjoint (RZGate p) = RZGate (phase_uminus p)"
| "op_adjoint (RXGate p) = RXGate (phase_uminus p)"
| "op_adjoint (RYGate p) = RYGate (phase_uminus p)"
| "op_adjoint (ControlGate op k) = ControlGate (op_adjoint op) k"
| "op_adjoint (QCirOp f n gs) = QCirOp f n (rev (map (map_prod op_adjoint id) gs))"

definition is_single_qubit_pauli :: "operation \<Rightarrow> bool" where
  "is_single_qubit_pauli op \<longleftrightarrow> operation_eq op XGate \<or> operation_eq op YGate \<or> operation_eq op ZGate"

text \<open>\<open>is_clifford\<close> of every class but the circuit, whose own goes through the tableau.\<close>

definition is_clifford_control :: "operation \<Rightarrow> nat \<Rightarrow> bool" where
  "is_clifford_control op k \<longleftrightarrow> k = 1 \<and> is_single_qubit_pauli op"

section \<open>Circuits\<close>

record qcir =
  qc_qubits :: nat
  qc_gates :: "gate list"
  qc_filename :: string
  qc_gate_set :: string
  qc_procedures :: "string list"

definition qcir_new :: "nat \<Rightarrow> qcir" where
  "qcir_new n = \<lparr>qc_qubits = n, qc_gates = [], qc_filename = [], qc_gate_set = [], qc_procedures = []\<rparr>"

definition qc_append :: "operation \<Rightarrow> nat list \<Rightarrow> qcir \<Rightarrow> qcir" where
  "qc_append op bits c = c\<lparr>qc_gates := qc_gates c @ [(op, bits)]\<rparr>"

definition qc_prepend :: "operation \<Rightarrow> nat list \<Rightarrow> qcir \<Rightarrow> qcir" where
  "qc_prepend op bits c = c\<lparr>qc_gates := (op, bits) # qc_gates c\<rparr>"

definition qc_compose :: "qcir \<Rightarrow> qcir \<Rightarrow> qcir" where
  "qc_compose c other =
     fold (\<lambda>(op, bits). qc_append op bits) (qc_gates other)
       (if qc_qubits c < qc_qubits other then c\<lparr>qc_qubits := qc_qubits c + (qc_qubits other - qc_qubits c)\<rparr> else c)"

definition tensor_product :: "qcir \<Rightarrow> qcir \<Rightarrow> qcir" where
  "tensor_product c other =
     fold (\<lambda>(op, bits). qc_append op (map (\<lambda>q. q + qc_qubits c) bits)) (qc_gates other)
       (c\<lparr>qc_qubits := qc_qubits c + qc_qubits other\<rparr>)"

definition adjoint_inplace :: "qcir \<Rightarrow> qcir" where
  "adjoint_inplace c = c\<lparr>qc_gates := rev (map (\<lambda>(op, bits). (op_adjoint op, bits)) (qc_gates c))\<rparr>"

text \<open>The map is \<open>std::map::at\<close>, which throws on a missing key.\<close>

definition qc_concat :: "(nat \<rightharpoonup> nat) \<Rightarrow> qcir \<Rightarrow> qcir \<Rightarrow> qcir option" where
  "qc_concat m other c =
     fold (\<lambda>(op, bits) r. case r of None \<Rightarrow> None
                          | Some c \<Rightarrow> map_option (\<lambda>qs. qc_append op qs c) (those (map m bits)))
       (qc_gates other) (Some c)"

definition as_qcir :: "operation \<Rightarrow> qcir" where
  "as_qcir op = qc_append op [0..<op_num_qubits op] (qcir_new (op_num_qubits op))"

section \<open>Decomposition into basic gates\<close>

definition append_all :: "gate list \<Rightarrow> qcir \<Rightarrow> qcir" where
  "append_all gs c = fold (\<lambda>(op, bits). qc_append op bits) gs c"

definition control_to_basic_gates :: "operation \<Rightarrow> nat \<Rightarrow> qcir option" where
  "control_to_basic_gates target_op k =
     (if is_clifford_control target_op k then Some (as_qcir (ControlGate target_op k))
      else if \<not> is_single_qubit_pauli target_op \<or> k \<noteq> 2 then None
      else Some (append_all
             ((if operation_eq target_op XGate then [(HGate, [2])]
               else if operation_eq target_op YGate then [(SXGate, [2])] else []) @
              [(TGate, [2]), (CXGate, [1, 2]), (TdgGate, [2]), (CXGate, [0, 2]), (TGate, [2]), (CXGate, [1, 2]),
               (TdgGate, [2]), (TGate, [1]), (CXGate, [0, 1]), (TGate, [0]), (TdgGate, [1]), (CXGate, [0, 1])] @
              (if operation_eq target_op XGate then [(HGate, [2])]
               else if operation_eq target_op YGate then [(SXdgGate, [2])] else []))
             (qcir_new (op_num_qubits target_op + k))))"

definition swap_to_basic_gates :: qcir where
  "swap_to_basic_gates = append_all [(CXGate, [0, 1]), (CXGate, [1, 0]), (CXGate, [0, 1])] (qcir_new 2)"

text \<open>The decompositions of the gates of a circuit, on the qubits of the gates; the first that is missing ends the loop.\<close>

fun concat_basic :: "(qcir option \<times> nat list) list \<Rightarrow> qcir \<Rightarrow> qcir option" where
  "concat_basic [] new_qcir = Some new_qcir"
| "concat_basic ((None, qs) # rest) new_qcir = None"
| "concat_basic ((Some sub, qs) # rest) new_qcir =
     concat_basic rest (append_all (map (map_prod id (map (\<lambda>q. qs ! q))) (qc_gates sub)) new_qcir)"

primrec to_basic_gates :: "operation \<Rightarrow> qcir option" where
  "to_basic_gates IdGate = Some (as_qcir IdGate)"
| "to_basic_gates HGate = Some (as_qcir HGate)"
| "to_basic_gates SwapGate = Some swap_to_basic_gates"
| "to_basic_gates ECRGate = Some (as_qcir ECRGate)"
| "to_basic_gates (PZGate p) = Some (as_qcir (PZGate p))"
| "to_basic_gates (PXGate p) = Some (as_qcir (PXGate p))"
| "to_basic_gates (PYGate p) = Some (as_qcir (PYGate p))"
| "to_basic_gates (RZGate p) = Some (as_qcir (RZGate p))"
| "to_basic_gates (RXGate p) = Some (as_qcir (RXGate p))"
| "to_basic_gates (RYGate p) = Some (as_qcir (RYGate p))"
| "to_basic_gates (ControlGate op k) = control_to_basic_gates op k"
| "to_basic_gates (QCirOp f n gs) = concat_basic (map (map_prod to_basic_gates id) gs) (qcir_new n)"

section \<open>Parsing a gate name\<close>

text \<open>\<open>tolower_string\<close> of src/src/util/dvlab_string.cpp in the C locale.\<close>

definition tolower_string :: "string \<Rightarrow> string" where
  "tolower_string s = map (\<lambda>ch. if of_char ch \<in> {65..90 :: nat} then char_of (of_char ch + 32 :: nat) else ch) s"

definition str_to_basic_operation :: "string \<Rightarrow> phase list \<Rightarrow> operation option" where
  "str_to_basic_operation name params =
     (let str = tolower_string name in
      case params of
        [] \<Rightarrow>
          (if str = ''id'' then Some IdGate
           else if str = ''h'' then Some HGate
           else if str = ''swap'' then Some SwapGate
           else if str = ''ecr'' then Some ECRGate
           else if str = ''z'' then Some ZGate
           else if str = ''s'' then Some SGate
           else if str = ''sdg'' then Some SdgGate
           else if str = ''t'' then Some TGate
           else if str = ''t*'' \<or> str = ''tdg'' then Some TdgGate
           else if str = ''s*'' then Some SdgGate
           else if str = ''x'' \<or> str = ''not'' then Some XGate
           else if str = ''sx'' \<or> str = ''x_1_2'' then Some SXGate
           else if str = ''sxdg'' then Some SXdgGate
           else if str = ''tx'' then Some (PXGate (mk_phase 1 4))
           else if str = ''txdg'' then Some (PXGate (mk_phase (- 1) 4))
           else if str = ''y'' then Some YGate
           else if str = ''sy'' \<or> str = ''y_1_2'' then Some (PYGate (mk_phase 1 2))
           else if str = ''sydg'' then Some (PYGate (mk_phase (- 1) 2))
           else if str = ''ty'' then Some (PYGate (mk_phase 1 4))
           else if str = ''tydg'' then Some (PYGate (mk_phase (- 1) 4))
           else None)
      | [p] \<Rightarrow>
          (if str = ''p'' \<or> str = ''pz'' then Some (PZGate p)
           else if str = ''px'' then Some (PXGate p)
           else if str = ''py'' then Some (PYGate p)
           else if str = ''rz'' then Some (RZGate p)
           else if str = ''rx'' then Some (RXGate p)
           else if str = ''ry'' then Some (RYGate p)
           else None)
      | _ \<Rightarrow> None)"

text \<open>\<open>find_first_not_of\<close> on a name of only the letter \<open>c\<close> gives \<open>npos\<close>, at which \<open>substr\<close> throws: \<open>None\<close>. A name that is
  not one of a gate is \<open>Some None\<close>.\<close>

definition str_to_operation :: "string \<Rightarrow> phase list \<Rightarrow> operation option option" where
  "str_to_operation name params =
     (let str = tolower_string name; rest = dropWhile (\<lambda>ch. ch = CHR ''c'') str; n_ctrls = length str - length rest in
      if rest = [] then None
      else (case str_to_basic_operation rest params of
              None \<Rightarrow> Some None
            | Some op \<Rightarrow> Some (Some (if 0 < n_ctrls then ControlGate op n_ctrls else op))))"

end
