(* ===== verification/OperationSemantics.thy ===== *)
theory OperationSemantics
  imports Operations TableauPasses
begin

text \<open>
  The meaning of the gates as operators on state vectors. It follows the tensors that the program itself
  gives its gates (src/src/convert/qcir_to_tensor.cpp): the phase gates multiply an eigenspace of a Pauli matrix
  by a factor, the rotation gates are the same up to half of the angle, a controlled gate acts where all controls
  are set. Every operation is local to its qubits, and the adjoint is the inverse unless a rotation by \<open>\<pi>\<close> is
  involved: \<open>Phase\<close> identifies \<open>\<pi>\<close> with \<open>-\<pi>\<close>, but the rotations by the two differ in sign, which shows under a control.
\<close>

section \<open>The operators\<close>

definition phase_factor :: "phase \<Rightarrow> complex" where
  "phase_factor p = cis (pi * phase_angle p)"

definition half_factor :: "phase \<Rightarrow> complex" where
  "half_factor p = cis (- (pi * phase_angle p / 2))"

definition q_pz :: "complex \<Rightarrow> nat \<Rightarrow> qvec \<Rightarrow> qvec" where
  "q_pz w q v = (\<lambda>b. (if b q then w else 1) * v b)"

definition q_px :: "complex \<Rightarrow> nat \<Rightarrow> qvec \<Rightarrow> qvec" where
  "q_px w q v = (\<lambda>b. (1 + w) / 2 * v b + (1 - w) / 2 * v (b(q := \<not> b q)))"

definition q_py :: "complex \<Rightarrow> nat \<Rightarrow> qvec \<Rightarrow> qvec" where
  "q_py w q v = (\<lambda>b. (1 + w) / 2 * v b + (1 - w) / 2 * ((if b q then \<i> else - \<i>) * v (b(q := \<not> b q))))"

definition q_swap :: "nat \<Rightarrow> nat \<Rightarrow> qvec \<Rightarrow> qvec" where
  "q_swap p q v = (\<lambda>b. v (b(p := b q, q := b p)))"

definition q_ecr :: "nat \<Rightarrow> nat \<Rightarrow> qvec \<Rightarrow> qvec" where
  "q_ecr p q v = (\<lambda>b. (v (b(p := \<not> b p)) + (if b p then - \<i> else \<i>) * v (b(p := \<not> b p, q := \<not> b q))) / complex_of_real (sqrt 2))"

definition controlled :: "nat list \<Rightarrow> (qvec \<Rightarrow> qvec) \<Rightarrow> qvec \<Rightarrow> qvec" where
  "controlled cs F v = (\<lambda>b. if \<forall>c \<in> set cs. b c then F v b else v b)"

primrec op_sem :: "operation \<Rightarrow> nat list \<Rightarrow> qvec \<Rightarrow> qvec" where
  "op_sem IdGate = (\<lambda>qs v. v)"
| "op_sem HGate = (\<lambda>qs. q_h (hd qs))"
| "op_sem SwapGate = (\<lambda>qs. q_swap (qs ! 0) (qs ! 1))"
| "op_sem ECRGate = (\<lambda>qs. q_ecr (qs ! 0) (qs ! 1))"
| "op_sem (PZGate p) = (\<lambda>qs. q_pz (phase_factor p) (hd qs))"
| "op_sem (PXGate p) = (\<lambda>qs. q_px (phase_factor p) (hd qs))"
| "op_sem (PYGate p) = (\<lambda>qs. q_py (phase_factor p) (hd qs))"
| "op_sem (RZGate p) = (\<lambda>qs v. vscale (half_factor p) (q_pz (phase_factor p) (hd qs) v))"
| "op_sem (RXGate p) = (\<lambda>qs v. vscale (half_factor p) (q_px (phase_factor p) (hd qs) v))"
| "op_sem (RYGate p) = (\<lambda>qs v. vscale (half_factor p) (q_py (phase_factor p) (hd qs) v))"
| "op_sem (ControlGate op k) = (\<lambda>qs. controlled (take k qs) (op_sem op (drop k qs)))"
| "op_sem (QCirOp f n gs) =
     (\<lambda>qs v. fold (\<lambda>g. fst g (map (\<lambda>i. qs ! i) (snd g))) (map (map_prod op_sem id) gs) v)"

definition gates_sem :: "gate list \<Rightarrow> qvec \<Rightarrow> qvec" where
  "gates_sem gs v = fold (\<lambda>g. op_sem (fst g) (snd g)) gs v"

definition relabel :: "nat list \<Rightarrow> gate \<Rightarrow> gate" where
  "relabel qs g = (fst g, map (\<lambda>i. qs ! i) (snd g))"

lemma gates_sem_simps [simp]: "gates_sem [] v = v" "gates_sem (g # gs) v = gates_sem gs (op_sem (fst g) (snd g) v)"
  "gates_sem (gs @ gs') v = gates_sem gs' (gates_sem gs v)"
  by (simp_all add: gates_sem_def)

lemma op_sem_circuit: "op_sem (QCirOp f n gs) qs v = gates_sem (map (relabel qs) gs) v"
  by (induction gs arbitrary: v) (simp_all add: relabel_def)

section \<open>Well-formed gates\<close>

definition on_qubits :: "nat \<Rightarrow> gate \<Rightarrow> bool" where
  "on_qubits n g \<longleftrightarrow> length (snd g) = op_num_qubits (fst g) \<and> distinct (snd g) \<and> set (snd g) \<subseteq> {..<n}"

primrec op_wf :: "operation \<Rightarrow> bool" where
  "op_wf IdGate = True"
| "op_wf HGate = True"
| "op_wf SwapGate = True"
| "op_wf ECRGate = True"
| "op_wf (PZGate p) = phase_ok p"
| "op_wf (PXGate p) = phase_ok p"
| "op_wf (PYGate p) = phase_ok p"
| "op_wf (RZGate p) = phase_ok p"
| "op_wf (RXGate p) = phase_ok p"
| "op_wf (RYGate p) = phase_ok p"
| "op_wf (ControlGate op k) = (0 < k \<and> op_wf op)"
| "op_wf (QCirOp f n gs) = (list_all fst (map (map_prod op_wf id) gs) \<and> list_all (on_qubits n) gs)"

definition gate_ok :: "nat \<Rightarrow> gate \<Rightarrow> bool" where
  "gate_ok n g \<longleftrightarrow> op_wf (fst g) \<and> on_qubits n g"

definition gates_ok :: "nat \<Rightarrow> gate list \<Rightarrow> bool" where
  "gates_ok n gs = list_all (gate_ok n) gs"

definition qc_ok :: "qcir \<Rightarrow> bool" where
  "qc_ok c = gates_ok (qc_qubits c) (qc_gates c)"

lemma gates_ok_simps [simp]: "gates_ok n []" "gates_ok n (g # gs) \<longleftrightarrow> gate_ok n g \<and> gates_ok n gs"
  "gates_ok n (gs @ gs') \<longleftrightarrow> gates_ok n gs \<and> gates_ok n gs'" "gates_ok n (rev gs) = gates_ok n gs"
  by (simp_all add: gates_ok_def)

lemma op_wf_circuit: "op_wf (QCirOp f n gs) = gates_ok n gs"
  by (auto simp: gates_ok_def gate_ok_def list_all_iff)

lemma relabel_ok: "gate_ok m g \<Longrightarrow> length qs = m \<Longrightarrow> distinct qs \<Longrightarrow> set qs \<subseteq> {..<n} \<Longrightarrow> gate_ok n (relabel qs g)"
proof -
  assume g: "gate_ok m g" and qs: "length qs = m" "distinct qs" "set qs \<subseteq> {..<n}"
  have "inj_on (\<lambda>i. qs ! i) (set (snd g))"
    by (rule inj_onI) (use g qs nth_eq_iff_index_eq [of qs] in \<open>auto simp: gate_ok_def on_qubits_def subset_iff\<close>)
  moreover have "qs ! i < n" if "i \<in> set (snd g)" for i
    using that g qs nth_mem [of i qs] by (auto simp: gate_ok_def on_qubits_def subset_iff)
  ultimately show ?thesis using g by (auto simp: gate_ok_def on_qubits_def relabel_def distinct_map)
qed

lemma relabel_gates_ok: "gates_ok m gs \<Longrightarrow> length qs = m \<Longrightarrow> distinct qs \<Longrightarrow> set qs \<subseteq> {..<n} \<Longrightarrow> gates_ok n (map (relabel qs) gs)"
  unfolding gates_ok_def list_all_iff by (metis (no_types, lifting) imageE list.set_map relabel_ok)

lemma gate_ok_circuit: "gate_ok n (QCirOp f m gs, qs) \<Longrightarrow> gates_ok n (map (relabel qs) gs)"
  by (rule relabel_gates_ok [of m]) (auto simp: gate_ok_def on_qubits_def op_wf_circuit simp del: op_wf.simps(12))

lemma gate_ok_control:
  assumes "gate_ok n (ControlGate op k, qs)"
  shows "gate_ok n (op, drop k qs)" "distinct (take k qs)" "set (take k qs) \<subseteq> {..<n}"
    "set (take k qs) \<inter> set (drop k qs) = {}" "length qs = op_num_qubits op + k"
  using assms set_take_subset [of k qs] set_drop_subset [of k qs]
  by (auto simp: gate_ok_def on_qubits_def set_take_disj_set_drop_if_distinct)

section \<open>Locality\<close>

definition acts_on :: "nat set \<Rightarrow> (qvec \<Rightarrow> qvec) \<Rightarrow> bool" where
  "acts_on Q F \<longleftrightarrow> (\<forall>v w b. (\<forall>b'. (\<forall>i. i \<notin> Q \<longrightarrow> b' i = b i) \<longrightarrow> v b' = w b') \<longrightarrow> F v b = F w b)"

lemma acts_onD: "acts_on Q F \<Longrightarrow> (\<And>b'. (\<And>i. i \<notin> Q \<Longrightarrow> b' i = b i) \<Longrightarrow> v b' = w b') \<Longrightarrow> F v b = F w b"
  unfolding acts_on_def by blast

lemma acts_on_mono: "acts_on Q F \<Longrightarrow> Q \<subseteq> R \<Longrightarrow> acts_on R F"
proof -
  assume F: "acts_on Q F" and QR: "Q \<subseteq> R"
  have "F v b = F w b" if e: "\<forall>b'. (\<forall>i. i \<notin> R \<longrightarrow> b' i = b i) \<longrightarrow> v b' = w b'" for v w b
  proof (rule acts_onD [OF F])
    fix b' assume "\<And>i. i \<notin> Q \<Longrightarrow> b' i = b i"
    then have "\<forall>i. i \<notin> R \<longrightarrow> b' i = b i" using QR by blast
    with e show "v b' = w b'" by blast
  qed
  then show ?thesis unfolding acts_on_def by blast
qed

lemma acts_on_id: "acts_on Q (\<lambda>v. v)"
  by (simp add: acts_on_def)

lemma acts_on_comp:
  assumes F: "acts_on Q F" and G: "acts_on Q G"
  shows "acts_on Q (\<lambda>v. F (G v))"
  unfolding acts_on_def
proof (intro allI impI)
  fix v w :: qvec and b
  assume e: "\<forall>b'. (\<forall>i. i \<notin> Q \<longrightarrow> b' i = b i) \<longrightarrow> v b' = w b'"
  show "F (G v) b = F (G w) b"
    by (rule acts_onD [OF F], rule acts_onD [OF G]) (use e in auto)
qed

lemma acts_on_gates:
  "acts_on {q} (q_h q)" "acts_on {q} (q_s q)" "acts_on {q} (q_pz w q)" "acts_on {q} (q_px w q)" "acts_on {q} (q_py w q)"
  "acts_on {p, q} (q_swap p q)" "acts_on {p, q} (q_ecr p q)" "acts_on Q (vscale c)"
  by (auto simp: acts_on_def q_h_def q_s_def q_pz_def q_px_def q_py_def q_swap_def q_ecr_def vscale_def)

lemma acts_on_controlled: "acts_on Q F \<Longrightarrow> acts_on (set cs \<union> Q) (controlled cs F)"
  using acts_on_mono [of Q F "set cs \<union> Q"] by (auto simp: acts_on_def controlled_def)

lemma linear_controlled: "linear_op F \<Longrightarrow> linear_op (controlled cs F)"
  by (auto simp: linear_op_def controlled_def vplus_def vscale_def fun_eq_iff)

lemma linear_ops: "linear_op (q_pz w q)" "linear_op (q_px w q)" "linear_op (q_py w q)" "linear_op (q_swap p q)" "linear_op (q_ecr p q)"
  by (auto simp: linear_op_def q_pz_def q_px_def q_py_def q_swap_def q_ecr_def vplus_def vscale_def fun_eq_iff field_simps)

lemma linear_vscale: "linear_op (vscale c)"
  by (simp add: linear_op_def vscale_vplus mult.commute)

lemma space_op_local:
  assumes l: "linear_op F" and a: "acts_on Q F" and Q: "Q \<subseteq> {..<n}"
  shows "space_op n F"
  unfolding space_op_def
proof (intro conjI allI impI l)
  fix v assume v: "in_space n v"
  show "in_space n (F v)"
    unfolding in_space_def
  proof (intro allI impI)
    fix b i assume nz: "F v b \<noteq> 0" and i: "n \<le> i"
    show "\<not> b i"
    proof
      assume bi: "b i"
      have "F v b = F (vscale 0 v) b"
      proof (rule acts_onD [OF a])
        fix b' assume "\<And>j. j \<notin> Q \<Longrightarrow> b' j = b j"
        moreover have "i \<notin> Q" using i Q by auto
        ultimately have "b' i" using bi by simp
        then show "v b' = vscale 0 v b'" using v i by (auto simp: in_space_def vscale_def)
      qed
      also have "\<dots> = 0" unfolding linear_opD(2) [OF l] by (simp add: vscale_def)
      finally show False using nz by simp
    qed
  qed
qed

text \<open>A gate that leaves the controls alone moves through a controlled gate.\<close>

lemma controlled_conj:
  assumes G: "acts_on Q G" and d: "set cs \<inter> Q = {}" and inv: "G (G' v) = v"
  shows "controlled cs (\<lambda>v. G (F (G' v))) v = G (controlled cs F (G' v))"
proof
  fix b
  show "controlled cs (\<lambda>v. G (F (G' v))) v b = G (controlled cs F (G' v)) b"
  proof (cases "\<forall>c \<in> set cs. b c")
    case True
    have "G (F (G' v)) b = G (controlled cs F (G' v)) b"
      by (rule acts_onD [OF G]) (use True d in \<open>auto simp: controlled_def\<close>)
    then show ?thesis using True by (simp add: controlled_def)
  next
    case False
    have "G (G' v) b = G (controlled cs F (G' v)) b"
      by (rule acts_onD [OF G]) (use False d in \<open>auto simp: controlled_def\<close>)
    moreover have "controlled cs (\<lambda>v. G (F (G' v))) v b = v b" unfolding controlled_def using False by (rule if_not_P)
    ultimately show ?thesis using inv by simp
  qed
qed

lemma fold_local:
  assumes "\<And>F. F \<in> set Fs \<Longrightarrow> linear_op F \<and> acts_on Q F"
  shows "linear_op (fold (\<lambda>F. F) Fs) \<and> acts_on Q (fold (\<lambda>F. F) Fs)"
  using assms
proof (induction Fs rule: rev_induct)
  case Nil
  then show ?case using linear_op_id acts_on_id by (simp add: id_def)
next
  case (snoc F Fs)
  then show ?case by (simp add: comp_def linear_op_comp acts_on_comp)
qed

lemma op_sem_local:
  "op_wf op \<Longrightarrow> length qs = op_num_qubits op \<Longrightarrow> linear_op (op_sem op qs) \<and> acts_on (set qs) (op_sem op qs)"
proof (induction op arbitrary: qs)
  case (ControlGate op k)
  then have "linear_op (op_sem op (drop k qs)) \<and> acts_on (set (drop k qs)) (op_sem op (drop k qs))" by simp
  moreover have "set (take k qs) \<union> set (drop k qs) = set qs" by (metis append_take_drop_id set_append)
  ultimately show ?case using linear_controlled acts_on_controlled by (metis op_sem.simps(11))
next
  case (QCirOp f n gs)
  let ?Fs = "map (\<lambda>g. op_sem (fst g) (map (\<lambda>i. qs ! i) (snd g))) gs"
  have "linear_op F \<and> acts_on (set qs) F" if "F \<in> set ?Fs" for F
  proof -
    obtain g where g: "g \<in> set gs" "F = op_sem (fst g) (map (\<lambda>i. qs ! i) (snd g))" using \<open>F \<in> set ?Fs\<close> by auto
    have ok: "gate_ok n g" using QCirOp.prems(1) g(1) by (simp add: op_wf_circuit gates_ok_def list_all_iff del: op_wf.simps(12))
    then have "linear_op F \<and> acts_on (set (map (\<lambda>i. qs ! i) (snd g))) F"
      unfolding g(2) using g(1) by (intro QCirOp.IH [of g]) (auto simp: gate_ok_def on_qubits_def intro: fsts.intros)
    moreover have "set (map (\<lambda>i. qs ! i) (snd g)) \<subseteq> set qs" using ok QCirOp.prems(2) by (auto simp: gate_ok_def on_qubits_def)
    ultimately show ?thesis using acts_on_mono by blast
  qed
  then have "linear_op (fold (\<lambda>F. F) ?Fs) \<and> acts_on (set qs) (fold (\<lambda>F. F) ?Fs)" by (rule fold_local)
  moreover have "op_sem (QCirOp f n gs) qs = fold (\<lambda>F. F) ?Fs" by (simp add: fun_eq_iff fold_map comp_def)
  ultimately show ?case by (simp only:)
qed (auto simp: length_Suc_conv numeral_2_eq_2 linear_op_id acts_on_id linear_gates linear_ops acts_on_gates
    intro!: linear_op_comp [OF linear_vscale] acts_on_comp [OF acts_on_gates(8)])

lemma space_op_gate [intro]: "gate_ok n g \<Longrightarrow> space_op n (op_sem (fst g) (snd g))"
  using op_sem_local [of "fst g" "snd g"] space_op_local by (auto simp: gate_ok_def on_qubits_def)

lemma space_op_gates [intro]: "gates_ok n gs \<Longrightarrow> space_op n (gates_sem gs)"
proof (induction gs)
  case Nil
  then show ?case by (simp add: space_op_def linear_op_def gates_sem_def)
next
  case (Cons g gs)
  then have "space_op n (\<lambda>v. gates_sem gs (op_sem (fst g) (snd g) v))"
    by (intro space_op_comp [of n "gates_sem gs" "op_sem (fst g) (snd g)"]) auto
  moreover have "gates_sem (g # gs) = (\<lambda>v. gates_sem gs (op_sem (fst g) (snd g) v))" by (rule ext) simp
  ultimately show ?case by (simp only:)
qed

section \<open>The Clifford gates of the mixin\<close>

lemma half_sums:
  fixes s x y w :: complex
  assumes s: "s * s = 2"
  shows "((x + y) / s + w * ((x - y) / s)) / s = (1 + w) / 2 * x + (1 - w) / 2 * y"
    "((x + y) / s - w * ((x - y) / s)) / s = (1 + w) / 2 * y + (1 - w) / 2 * x"
proof -
  have "s \<noteq> 0" using s by auto
  then have e: "((x + y) / s + w * ((x - y) / s)) / s = ((x + y) + w * (x - y)) / (s * s)"
    "((x + y) / s - w * ((x - y) / s)) / s = ((x + y) - w * (x - y)) / (s * s)"
    by (simp_all add: field_simps)
  show "((x + y) / s + w * ((x - y) / s)) / s = (1 + w) / 2 * x + (1 - w) / 2 * y"
    "((x + y) / s - w * ((x - y) / s)) / s = (1 + w) / 2 * y + (1 - w) / 2 * x"
    unfolding e s by (simp_all add: field_simps)
qed

lemma i_sums:
  "(1 - \<i>) / 2 * (w * ((1 + \<i>) / 2 * x + (1 - \<i>) / 2 * y)) + (1 + \<i>) / 2 * ((1 + \<i>) / 2 * y + (1 - \<i>) / 2 * x) =
     (1 + w) / 2 * x + (1 - w) / 2 * (\<i> * y)"
  "(1 - \<i>) / 2 * ((1 + \<i>) / 2 * x + (1 - \<i>) / 2 * y) + (1 + \<i>) / 2 * (w * ((1 + \<i>) / 2 * y + (1 - \<i>) / 2 * x)) =
     (1 + w) / 2 * x + (1 - w) / 2 * (- \<i> * y)"
  by (simp_all add: field_simps)

lemma q_h_pz: "q_h q (q_pz w q (q_h q v)) = q_px w q v"
proof
  fix b :: qstate
  note h = half_sums [OF sqrt2_sq, where x = "v (b(q := False))" and y = "v (b(q := True))" and w = w]
  show "q_h q (q_pz w q (q_h q v)) b = q_px w q v b"
    using h by (cases "b q") (simp_all add: q_h_def q_pz_def q_px_def fun_upd_idem)
qed

lemma q_px_pz: "q_px (- \<i>) q (q_pz w q (q_px \<i> q v)) = q_py w q v"
proof
  fix b :: qstate
  note h = i_sums [where x = "v b" and y = "v (b(q := \<not> b q))" and w = w]
  show "q_px (- \<i>) q (q_pz w q (q_px \<i> q v)) b = q_py w q v b"
    using h by (cases "b q") (simp_all add: q_pz_def q_px_def q_py_def fun_upd_idem)
qed

lemma q_pz_px: "q_pz \<i> q (q_px w q (q_pz (- \<i>) q v)) = q_py w q v"
proof
  fix b
  show "q_pz \<i> q (q_px w q (q_pz (- \<i>) q v)) b = q_py w q v b"
    by (cases "b q") (simp_all add: q_pz_def q_px_def q_py_def algebra_simps)
qed

lemma trait_single:
  "q_s q = q_pz \<i> q" "trait_sdg q_trait q = q_pz (- \<i>) q" "trait_z q_trait q = q_pz (- 1) q"
  "trait_v q_trait q = q_px \<i> q" "trait_vdg q_trait q = q_px (- \<i>) q" "trait_x q_trait q = q_px (- 1) q"
proof -
  show s: "q_s q = q_pz \<i> q" by (auto simp: fun_eq_iff q_s_def q_pz_def)
  show d: "trait_sdg q_trait q = q_pz (- \<i>) q" by (auto simp: fun_eq_iff trait_sdg_def s q_pz_def)
  show z: "trait_z q_trait q = q_pz (- 1) q" by (auto simp: fun_eq_iff trait_z_def s q_pz_def)
  show "trait_v q_trait q = q_px \<i> q" "trait_vdg q_trait q = q_px (- \<i>) q" "trait_x q_trait q = q_px (- 1) q"
    by (auto simp: fun_eq_iff trait_v_def trait_vdg_def trait_x_def d z s [symmetric] q_h_pz) (simp_all add: s q_h_pz)
qed

lemma trait_y_single: "trait_y q_trait q v = vscale \<i> (q_py (- 1) q v)"
  by (auto simp: trait_y_def trait_single fun_eq_iff q_pz_def q_px_def q_py_def vscale_def)

lemma q_cx_controlled: "c \<noteq> t \<Longrightarrow> q_cx c t = controlled [c] (q_px (- 1) t)"
proof (intro ext)
  fix v b assume "c \<noteq> t"
  then have "cx_state c t b = (if b c then b(t := \<not> b t) else b)" by (auto simp: cx_state_def fun_eq_iff)
  then show "q_cx c t v b = controlled [c] (q_px (- 1) t) v b" by (simp add: q_cx_def controlled_def q_px_def)
qed

lemma trait_cz_controlled:
  assumes "c \<noteq> t"
  shows "trait_cz q_trait c t v = controlled [c] (q_pz (- 1) t) v"
proof -
  have "q_h t (q_px w t (q_h t v)) = q_pz w t v" for w v by (simp add: q_h_pz [symmetric] q_h_h)
  then have "controlled [c] (q_pz (- 1) t) v = controlled [c] (\<lambda>v. q_h t (q_px (- 1) t (q_h t v))) v" by (simp add: controlled_def)
  also have "\<dots> = q_h t (controlled [c] (q_px (- 1) t) (q_h t v))"
    by (rule controlled_conj [OF acts_on_gates(1)]) (use assms in \<open>auto simp: q_h_h\<close>)
  finally show ?thesis using assms by (simp add: trait_cz_def q_cx_controlled)
qed

lemma trait_swap_q: "p \<noteq> q \<Longrightarrow> trait_swap q_trait p q = q_swap p q"
proof (intro ext)
  fix v b assume "p \<noteq> q"
  then have "cx_state p q (cx_state q p (cx_state p q b)) = b(p := b q, q := b p)"
    by (auto simp: cx_state_def fun_eq_iff bxor_def)
  then show "trait_swap q_trait p q v b = q_swap p q v b" by (simp add: trait_swap_def q_cx_def q_swap_def)
qed

lemma trait_ecr_q:
  assumes "p \<noteq> q"
  shows "trait_ecr q_trait p q v = vscale (complex_of_real (sqrt 2) * (1 + \<i>) / 2) (q_ecr p q v)"
proof
  fix b :: qstate
  have e: "vscale (complex_of_real (sqrt 2) * (1 + \<i>) / 2) (q_ecr p q v) b =
      (1 + \<i>) / 2 * (v (b(p := \<not> b p)) + (if b p then - \<i> else \<i>) * v (b(p := \<not> b p, q := \<not> b q)))"
    by (simp add: vscale_def q_ecr_def)
  show "trait_ecr q_trait p q v b = vscale (complex_of_real (sqrt 2) * (1 + \<i>) / 2) (q_ecr p q v) b"
    unfolding e using assms
    by (cases "b p"; cases "b q")
      (simp_all add: trait_ecr_def trait_single q_cx_controlled controlled_def q_px_def q_pz_def fun_upd_twist fun_upd_idem field_simps)
qed

section \<open>The adjoint\<close>

primrec no_half_turn :: "operation \<Rightarrow> bool" where
  "no_half_turn IdGate = True"
| "no_half_turn HGate = True"
| "no_half_turn SwapGate = True"
| "no_half_turn ECRGate = True"
| "no_half_turn (PZGate p) = True"
| "no_half_turn (PXGate p) = True"
| "no_half_turn (PYGate p) = True"
| "no_half_turn (RZGate p) = (\<not> phase_eq p (phase_of_int 1))"
| "no_half_turn (RXGate p) = (\<not> phase_eq p (phase_of_int 1))"
| "no_half_turn (RYGate p) = (\<not> phase_eq p (phase_of_int 1))"
| "no_half_turn (ControlGate op k) = no_half_turn op"
| "no_half_turn (QCirOp f n gs) = list_all fst (map (map_prod no_half_turn id) gs)"

primrec adjointable :: "operation \<Rightarrow> bool" where
  "adjointable IdGate = True"
| "adjointable HGate = True"
| "adjointable SwapGate = True"
| "adjointable ECRGate = True"
| "adjointable (PZGate p) = True"
| "adjointable (PXGate p) = True"
| "adjointable (PYGate p) = True"
| "adjointable (RZGate p) = True"
| "adjointable (RXGate p) = True"
| "adjointable (RYGate p) = True"
| "adjointable (ControlGate op k) = no_half_turn op"
| "adjointable (QCirOp f n gs) = list_all fst (map (map_prod adjointable id) gs)"

lemma phase_uminus_val:
  assumes "phase_ok p" "\<not> phase_eq p (phase_of_int 1)"
  shows "phase_val (phase_uminus p) = - phase_val p"
proof -
  have "phase_val p \<noteq> 1"
    using assms phase_eqI [OF assms(1) phase_of_int_ok(1) [of 1]] by (auto simp: phase_constants phase_eq_iff)
  then show ?thesis
    using assms(1) phase_uminus_ok [OF assms(1)] by (intro mod2_unique) (auto simp: phase_ok_def)
qed

lemma phase_factor_uminus: "phase_ok p \<Longrightarrow> phase_factor (phase_uminus p) * phase_factor p = 1"
proof -
  assume p: "phase_ok p"
  have "phase_factor (phase_uminus p) = cis (pi * real_of_rat (- phase_val p))"
    unfolding phase_factor_def phase_angle_def by (rule cis_mod2 [OF phase_uminus_ok(2) [OF p]])
  then show ?thesis by (simp add: phase_factor_def phase_angle_def cis_mult of_rat_minus)
qed

lemma half_factor_uminus:
  assumes "phase_ok p" "\<not> phase_eq p (phase_of_int 1)"
  shows "half_factor (phase_uminus p) * half_factor p = 1"
  using phase_uminus_val [OF assms] by (simp add: half_factor_def phase_angle_def cis_mult of_rat_minus)

lemma half_factor_nonzero: "half_factor p \<noteq> 0"
  by (simp add: half_factor_def)

lemma q_phase_inverse:
  assumes "w' * w = 1"
  shows "q_pz w' q (q_pz w q v) = v" "q_px w' q (q_px w q v) = v" "q_py w' q (q_py w q v) = v"
proof -
  show z: "q_pz w' q (q_pz w q v) = v" for v using assms by (auto simp: q_pz_def fun_eq_iff mult.assoc [symmetric])
  show x: "q_px w' q (q_px w q v) = v" for v unfolding q_h_pz [symmetric] by (simp add: q_h_h z)
  have "q_px \<i> q (q_px (- \<i>) q v) = v" "q_px (- \<i>) q (q_px \<i> q v) = v" for v
    by (auto simp: q_px_def fun_eq_iff field_simps)
  then show "q_py w' q (q_py w q v) = v" unfolding q_px_pz [symmetric] by (simp add: z)
qed

lemma q_swap_swap: "q_swap p q (q_swap p q v) = v"
  by (rule ext) (simp add: q_swap_def fun_upd_idem fun_upd_twist)

lemma q_ecr_ecr: "p \<noteq> q \<Longrightarrow> q_ecr p q (q_ecr p q v) = v"
proof
  fix b :: qstate
  assume pq: "p \<noteq> q"
  have s: "(x / complex_of_real (sqrt 2) + c * (y / complex_of_real (sqrt 2))) / complex_of_real (sqrt 2) = (x + c * y) / 2" for x y c
    by (simp add: sqrt2_sq add_divide_distrib)
  show "q_ecr p q (q_ecr p q v) b = v b"
    using pq unfolding q_ecr_def
    by (cases "b p"; cases "b q") (simp_all add: s fun_upd_twist fun_upd_idem sqrt2_sq field_simps)
qed

lemma op_adjoint_qubits [simp]: "op_num_qubits (op_adjoint op) = op_num_qubits op"
  by (induction op) auto

lemma op_adjoint_wf: "op_wf op \<Longrightarrow> op_wf (op_adjoint op)"
proof (induction op)
  case (QCirOp f n gs)
  then show ?case by (fastforce simp: list_all_iff on_qubits_def fsts.simps)
qed (simp_all add: phase_uminus_ok)

lemma adjoint_gate_ok: "gate_ok n g \<Longrightarrow> gate_ok n (op_adjoint (fst g), snd g)"
  by (simp add: gate_ok_def on_qubits_def op_adjoint_wf)

definition adjoint_gates :: "gate list \<Rightarrow> gate list" where
  "adjoint_gates gs = rev (map (\<lambda>(op, bits). (op_adjoint op, bits)) gs)"

lemma adjoint_gates_simps [simp]: "adjoint_gates [] = []" "adjoint_gates (g # gs) = adjoint_gates gs @ [(op_adjoint (fst g), snd g)]"
  by (simp_all add: adjoint_gates_def case_prod_beta)

lemma adjoint_gates_ok: "gates_ok n gs \<Longrightarrow> gates_ok n (adjoint_gates gs)"
  by (induction gs) (simp_all add: adjoint_gate_ok)

lemma relabel_adjoint: "map (relabel qs) (adjoint_gates gs) = adjoint_gates (map (relabel qs) gs)"
  by (simp add: adjoint_gates_def rev_map relabel_def case_prod_beta)

lemma op_adjoint_circuit: "op_adjoint (QCirOp f n gs) = QCirOp f n (adjoint_gates gs)"
proof -
  have "map_prod op_adjoint id g = (case g of (op, bits) \<Rightarrow> (op_adjoint op, bits))" for g :: gate by (cases g) simp
  then show ?thesis by (simp add: adjoint_gates_def)
qed

text \<open>Without half turns the adjoint is the inverse.\<close>

lemma op_adjoint_inverse:
  assumes "gate_ok n (op, qs)" "no_half_turn op"
  shows "op_sem (op_adjoint op) qs (op_sem op qs v) = v"
  using assms
proof (induction op arbitrary: n qs v)
  case (ControlGate op k)
  note c = gate_ok_control [OF ControlGate.prems(1)]
  let ?F = "op_sem op (drop k qs)" and ?G = "op_sem (op_adjoint op) (drop k qs)"
  have inv: "?G (?F v) = v" for v using ControlGate.IH [OF c(1)] ControlGate.prems(2) by simp
  have G: "acts_on (set (drop k qs)) ?G"
    using op_sem_local [of "op_adjoint op" "drop k qs"] c(1) by (auto simp: gate_ok_def on_qubits_def op_adjoint_wf)
  have "controlled (take k qs) ?G (controlled (take k qs) ?F v) b = v b" for b
  proof (cases "\<forall>c \<in> set (take k qs). b c")
    case True
    have "?G (controlled (take k qs) ?F v) b = ?G (?F v) b"
      by (rule acts_onD [OF G]) (use True c(4) in \<open>auto simp: controlled_def\<close>)
    then show ?thesis using True inv by (simp add: controlled_def)
  next
    case False
    then have "controlled (take k qs) F w b = w b" for F w unfolding controlled_def by (rule if_not_P)
    then show ?thesis by simp
  qed
  then show ?case by (simp add: fun_eq_iff)
next
  case (QCirOp f m gs)
  have "gates_sem (adjoint_gates gs') (gates_sem gs' v) = v"
    if "\<And>g v. g \<in> set gs' \<Longrightarrow> op_sem (op_adjoint (fst g)) (snd g) (op_sem (fst g) (snd g) v) = v" for gs' v
    using that by (induction gs' arbitrary: v) simp_all
  moreover have "op_sem (op_adjoint (fst g)) (snd g) (op_sem (fst g) (snd g) v) = v" if g: "g \<in> set (map (relabel qs) gs)" for g v
  proof -
    obtain h where h: "h \<in> set gs" "g = relabel qs h" using g by auto
    have "gate_ok n (relabel qs h)"
      using gate_ok_circuit [OF QCirOp.prems(1)] h(1) by (simp add: gates_ok_def list_all_iff)
    moreover have "no_half_turn (fst h)" using QCirOp.prems(2) h(1) by (auto simp: list_all_iff)
    ultimately show ?thesis
      using QCirOp.IH [of h "fst h" n "snd (relabel qs h)" v] h by (simp add: relabel_def fsts.intros)
  qed
  ultimately show ?case
    unfolding op_adjoint_circuit op_sem_circuit relabel_adjoint by blast
qed (auto simp: gate_ok_def on_qubits_def q_h_h q_swap_swap q_ecr_ecr q_phase_inverse phase_factor_uminus
    linear_opD(2) [OF linear_ops(1)] linear_opD(2) [OF linear_ops(2)] linear_opD(2) [OF linear_ops(3)] half_factor_uminus
    length_Suc_conv numeral_2_eq_2)

end
