(* ===== verification/AdjointCircuits.thy ===== *)
theory AdjointCircuits
  imports OperationSemantics
begin

text \<open>
  The adjoint of a circuit undoes it up to a global scalar when no rotation by \<open>\<pi>\<close> is under a control, and the
  counterexample when one is. Then the decompositions of \<open>to_basic_gates\<close>: the one of the swap gate is exact,
  the one of the doubly controlled Pauli gates is not the gate, it lacks the last CNOT from qubit 0 to qubit 2.
\<close>

section \<open>Adjoint circuits\<close>

lemma scalar_chain:
  assumes "c \<noteq> 0" "\<And>v. F (G v) = vscale c v" "d \<noteq> 0" "\<And>v. F' (G' v) = vscale d v" "linear_op F"
  shows "c * d \<noteq> 0 \<and> (\<forall>v. F (F' (G' (G v))) = vscale (c * d) v)"
  using assms by (simp add: linear_opD(2) mult.commute)

lemma scalar_self: "\<exists>c. c \<noteq> 0 \<and> (\<forall>v. v = vscale c v)"
  by (intro exI [of _ 1]) simp

lemma scalar_vscale: "k \<noteq> 0 \<Longrightarrow> \<exists>c. c \<noteq> 0 \<and> (\<forall>v. vscale k v = vscale c v)"
  by (intro exI [of _ k]) simp

lemma gates_adjoint_scalar:
  assumes ok: "gates_ok n gs"
    and inv: "\<And>g. g \<in> set gs \<Longrightarrow> \<exists>c. c \<noteq> 0 \<and> (\<forall>v. op_sem (op_adjoint (fst g)) (snd g) (op_sem (fst g) (snd g) v) = vscale c v)"
  shows "\<exists>c. c \<noteq> 0 \<and> (\<forall>v. gates_sem (adjoint_gates gs) (gates_sem gs v) = vscale c v)"
  using assms
proof (induction gs)
  case Nil
  show ?case by (intro exI [of _ 1]) simp
next
  case (Cons g gs)
  obtain d where d: "d \<noteq> 0" "\<And>v. gates_sem (adjoint_gates gs) (gates_sem gs v) = vscale d v" using Cons by auto
  obtain c where c: "c \<noteq> 0" "\<And>v. op_sem (op_adjoint (fst g)) (snd g) (op_sem (fst g) (snd g) v) = vscale c v"
    using Cons.prems(2) [of g] by auto
  have "linear_op (op_sem (op_adjoint (fst g)) (snd g))"
    using space_op_gate [OF adjoint_gate_ok [of n g]] Cons.prems(1) by (simp add: space_op_def)
  from scalar_chain [where F = "op_sem (op_adjoint (fst g)) (snd g)" and G = "op_sem (fst g) (snd g)"
      and F' = "gates_sem (adjoint_gates gs)" and G' = "gates_sem gs", OF c d this]
  have "c * d \<noteq> 0 \<and> (\<forall>v. gates_sem (adjoint_gates (g # gs)) (gates_sem (g # gs) v) = vscale (c * d) v)" by simp
  then show ?case by blast
qed

lemma op_adjoint_scalar:
  assumes "gate_ok n (op, qs)" "adjointable op"
  shows "\<exists>c. c \<noteq> 0 \<and> (\<forall>v. op_sem (op_adjoint op) qs (op_sem op qs v) = vscale c v)"
  using assms
proof (induction op arbitrary: n qs)
  case (QCirOp f m gs)
  have "\<exists>c. c \<noteq> 0 \<and> (\<forall>v. op_sem (op_adjoint (fst g)) (snd g) (op_sem (fst g) (snd g) v) = vscale c v)"
    if g: "g \<in> set (map (relabel qs) gs)" for g
  proof -
    obtain h where h: "h \<in> set gs" "g = relabel qs h" using g by auto
    have "gate_ok n (relabel qs h)"
      using gate_ok_circuit [OF QCirOp.prems(1)] h(1) by (simp add: gates_ok_def list_all_iff)
    moreover have "adjointable (fst h)" using QCirOp.prems(2) h(1) by (auto simp: list_all_iff)
    ultimately show ?thesis
      using QCirOp.IH [of h "fst h" n "snd (relabel qs h)"] h by (simp add: relabel_def fsts.intros)
  qed
  from gates_adjoint_scalar [OF gate_ok_circuit [OF QCirOp.prems(1)] this] show ?case
    unfolding op_adjoint_circuit op_sem_circuit relabel_adjoint by blast
next
  case (ControlGate op k)
  then show ?case using op_adjoint_inverse [of n "ControlGate op k" qs] by (intro exI [of _ 1]) simp
qed (auto simp: gate_ok_def on_qubits_def q_h_h q_swap_swap q_ecr_ecr q_phase_inverse phase_factor_uminus scalar_self
      scalar_vscale half_factor_nonzero linear_opD(2) [OF linear_ops(1)] linear_opD(2) [OF linear_ops(2)]
      linear_opD(2) [OF linear_ops(3)] length_Suc_conv numeral_2_eq_2)

theorem adjoint_circuit_inverse:
  assumes "qc_ok c" "\<And>g. g \<in> set (qc_gates c) \<Longrightarrow> adjointable (fst g)"
  shows "qc_ok (adjoint_inplace c)"
    "op_eq (qc_qubits c) (\<lambda>v. gates_sem (qc_gates (adjoint_inplace c)) (gates_sem (qc_gates c) v)) (\<lambda>v. v)"
proof -
  have e: "qc_gates (adjoint_inplace c) = adjoint_gates (qc_gates c)" "qc_qubits (adjoint_inplace c) = qc_qubits c"
    by (simp_all add: adjoint_inplace_def adjoint_gates_def)
  show "qc_ok (adjoint_inplace c)" using assms(1) by (simp add: qc_ok_def e adjoint_gates_ok)
  have "\<exists>k. k \<noteq> 0 \<and> (\<forall>v. gates_sem (adjoint_gates (qc_gates c)) (gates_sem (qc_gates c) v) = vscale k v)"
    by (rule gates_adjoint_scalar [of "qc_qubits c"])
      (use assms op_adjoint_scalar [of "qc_qubits c"] in \<open>auto simp: qc_ok_def gates_ok_def list_all_iff\<close>)
  then show "op_eq (qc_qubits c) (\<lambda>v. gates_sem (qc_gates (adjoint_inplace c)) (gates_sem (qc_gates c) v)) (\<lambda>v. v)"
    by (auto simp: op_eq_def e)
qed

section \<open>Circuits that are not what they should be\<close>

lemma not_op_eqI: "in_space n v \<Longrightarrow> F v b * G v b' \<noteq> F v b' * G v b \<Longrightarrow> \<not> op_eq n F G"
  by (auto simp: op_eq_def vscale_def)

definition uniform :: "nat \<Rightarrow> qvec" where
  "uniform n = (\<lambda>b. if \<forall>i \<ge> n. \<not> b i then 1 else 0)"

lemma uniform_space: "in_space n (uniform n)"
  by (auto simp: in_space_def uniform_def)

lemma controlled_half_turn:
  "\<not> op_eq 2 (\<lambda>v. op_sem (op_adjoint (ControlGate (RZGate (phase_of_int 1)) 1)) [0, 1]
       (op_sem (ControlGate (RZGate (phase_of_int 1)) 1) [0, 1] v)) (\<lambda>v. v)"
proof (rule not_op_eqI [OF uniform_space, where b = "\<lambda>i. i = 0" and b' = zero_state])
  have u: "phase_uminus (phase_of_int 1) = phase_of_int 1" by code_simp
  have h: "half_factor (phase_of_int 1) = - \<i>"
    by (simp add: half_factor_def phase_angle_def phase_constants complex_eq_iff)
  show "op_sem (op_adjoint (ControlGate (RZGate (phase_of_int 1)) 1)) [0, 1]
        (op_sem (ControlGate (RZGate (phase_of_int 1)) 1) [0, 1] (uniform 2)) (\<lambda>i. i = 0) * uniform 2 zero_state
      \<noteq> op_sem (op_adjoint (ControlGate (RZGate (phase_of_int 1)) 1)) [0, 1]
        (op_sem (ControlGate (RZGate (phase_of_int 1)) 1) [0, 1] (uniform 2)) zero_state * uniform 2 (\<lambda>i. i = 0)"
    by (simp add: u h controlled_def vscale_def q_pz_def uniform_def zero_state_def)
qed

lemma swap_decomposition:
  "to_basic_gates SwapGate = Some c \<Longrightarrow> gates_sem (qc_gates c) v = op_sem SwapGate [0, 1] v"
proof -
  assume "to_basic_gates SwapGate = Some c"
  then have c: "qc_gates c = [(CXGate, [0, 1]), (CXGate, [1, 0]), (CXGate, [0, 1])]"
    by (auto simp: swap_to_basic_gates_def append_all_def qc_append_def qcir_new_def)
  have w: "phase_factor (phase_of_int 1) = - 1" by (simp add: phase_factor_def phase_angle_def phase_constants)
  show ?thesis
    using trait_swap_q [of 0 1] by (simp add: c w q_cx_controlled [symmetric] trait_swap_def fun_eq_iff)
qed

text \<open>The doubly controlled Z gate: on the state with qubit 0 set the circuit also flips qubit 2.\<close>

lemma ccz_decomposition_wrong:
  "\<exists>c. to_basic_gates (ControlGate ZGate 2) = Some c \<and>
     \<not> op_eq 3 (gates_sem (qc_gates c)) (op_sem (ControlGate ZGate 2) [0, 1, 2])"
proof -
  let ?gs = "[(TGate, [2]), (CXGate, [1, 2]), (TdgGate, [2]), (CXGate, [0, 2]), (TGate, [2]), (CXGate, [1, 2]),
               (TdgGate, [2]), (TGate, [1]), (CXGate, [0, 1]), (TGate, [0]), (TdgGate, [1]), (CXGate, [0, 1])]"
  have "map_option qc_gates (to_basic_gates (ControlGate ZGate 2)) = Some ?gs" by code_simp
  then obtain c where c: "to_basic_gates (ControlGate ZGate 2) = Some c" "qc_gates c = ?gs" by auto
  have w: "phase_factor (phase_of_int 1) = - 1" by (simp add: phase_factor_def phase_angle_def phase_constants)
  let ?b = "\<lambda>i :: nat. i = 0"
  have "\<not> op_eq 3 (gates_sem ?gs) (op_sem (ControlGate ZGate 2) [0, 1, 2])"
  proof
    assume "op_eq 3 (gates_sem ?gs) (op_sem (ControlGate ZGate 2) [0, 1, 2])"
    then obtain k where k: "k \<noteq> 0"
      "\<And>v. in_space 3 v \<Longrightarrow> gates_sem ?gs v = vscale k (op_sem (ControlGate ZGate 2) [0, 1, 2] v)" by (auto simp: op_eq_def)
    have "in_space 3 (ket ?b)" by (auto simp: in_space_def ket_def)
    then have "gates_sem ?gs (ket ?b) ?b = vscale k (op_sem (ControlGate ZGate 2) [0, 1, 2] (ket ?b)) ?b" by (simp only: k(2))
    moreover have "gates_sem ?gs (ket ?b) ?b = 0"
      by (simp add: w q_cx_controlled [symmetric] q_cx_def cx_state_def q_pz_def ket_def fun_eq_iff)
        (auto dest: spec [of _ "2 :: nat"])
    moreover have "op_sem (ControlGate ZGate 2) [0, 1, 2] (ket ?b) ?b = 1" by (simp add: controlled_def ket_def)
    ultimately show False using k(1) by (simp add: vscale_def)
  qed
  then show ?thesis using c by metis
qed

end
