(* ===== verification/CircuitToTableau.thy ===== *)
theory CircuitToTableau
  imports AdjointCircuits FullOptimize PhaseExtraction
begin

text \<open>
  The conversion of a circuit to a tableau (src/src/convert/qcir_to_tableau.cpp). Clifford gates go to the operations
  of the tableau, every other phase gate and its controlled versions to rotations around products of Z, between
  gates that turn the target's axis to Z. \<open>stop_requested()\<close> is polled before each gate and each rotation; the
  state of the model is the number of polls so far with the tableau. A call that returns \<open>false\<close>, and the
  \<open>std::get\<close> of the wrong alternative, which does not occur, are \<open>None\<close>.
\<close>

section \<open>The conversion\<close>

text \<open>\<open>dvlab::combinations\<close> of src/src/util/util.hpp on sorted elements.\<close>

fun combinations :: "nat list \<Rightarrow> nat \<Rightarrow> nat list list" where
  "combinations xs 0 = [[]]"
| "combinations [] (Suc k) = []"
| "combinations (x # xs) (Suc k) = map ((#) x) (combinations xs k) @ combinations xs (Suc k)"

definition z_rotation :: "nat \<Rightarrow> (nat \<Rightarrow> bool) \<Rightarrow> phase \<Rightarrow> pauli_rotation" where
  "z_rotation n on p = rotation_of_paulis (map (\<lambda>i. if on i then PZ else PI) [0..<n]) p"

definition split_phase :: "phase \<Rightarrow> nat list \<Rightarrow> phase" where
  "split_phase ph qubits = phase_times ph (mk_rational 1 (2 ^ (length qubits - 1)))"

definition mcr_rotations :: "nat \<Rightarrow> nat list \<Rightarrow> phase \<Rightarrow> pauli_rotation list" where
  "mcr_rotations n qubits ph =
     (let phase = split_phase ph qubits; targ = last qubits
      in concat (map (\<lambda>comb_size. map (\<lambda>comb. z_rotation n (\<lambda>i. i = targ \<or> i \<in> set comb)
                                             (if comb_size mod 2 \<noteq> 0 then phase_uminus phase else phase))
                   (combinations (sort qubits) comb_size)) [0..<length qubits]))"

definition mcp_rotations :: "nat \<Rightarrow> nat list \<Rightarrow> phase \<Rightarrow> pauli_rotation list" where
  "mcp_rotations n qubits ph =
     (let phase = split_phase ph qubits
      in concat (map (\<lambda>comb_size. map (\<lambda>comb. z_rotation n (\<lambda>i. i \<in> set comb)
                                             (if (comb_size - 1) mod 2 \<noteq> 0 then phase_uminus phase else phase))
                   (combinations (sort qubits) comb_size)) [1..<length qubits + 1]))"

type_synonym convert_state = "nat \<times> tableau"

definition append_rotation :: "pauli_rotation \<Rightarrow> tableau \<Rightarrow> tableau option" where
  "append_rotation R t =
     (case rev (subtableaux t) of
        SubPR rs # before \<Rightarrow> Some (t\<lparr>subtableaux := rev before @ [SubPR (rs @ [R])]\<rparr>)
      | _ \<Rightarrow> None)"

fun push_rotations :: "(nat \<Rightarrow> bool) \<Rightarrow> pauli_rotation list \<Rightarrow> convert_state \<Rightarrow> convert_state option" where
  "push_rotations stop [] s = Some s"
| "push_rotations stop (R # rs) (k, t) =
     (if stop k then None
      else (case append_rotation R t of None \<Rightarrow> None | Some t' \<Rightarrow> push_rotations stop rs (Suc k, t')))"

definition ensure_rotations :: "tableau \<Rightarrow> tableau" where
  "ensure_rotations t = (case rev (subtableaux t) of SubST _ # _ \<Rightarrow> tab_push_back (SubPR []) t | _ \<Rightarrow> t)"

definition to_z_plane :: "pauli \<Rightarrow> nat \<Rightarrow> tableau \<Rightarrow> tableau" where
  "to_z_plane pauli targ t = (case pauli of PX \<Rightarrow> tab_h targ t | PY \<Rightarrow> trait_v tab_trait targ t | _ \<Rightarrow> t)"

definition from_z_plane :: "pauli \<Rightarrow> nat \<Rightarrow> tableau \<Rightarrow> tableau" where
  "from_z_plane pauli targ t = (case pauli of PX \<Rightarrow> tab_h targ t | PY \<Rightarrow> trait_vdg tab_trait targ t | _ \<Rightarrow> t)"

definition implement_mcr :: "(nat \<Rightarrow> bool) \<Rightarrow> nat list \<Rightarrow> phase \<Rightarrow> pauli \<Rightarrow> convert_state \<Rightarrow> convert_state option" where
  "implement_mcr stop qubits ph pauli s =
     map_option (map_prod id (from_z_plane pauli (last qubits)))
       (push_rotations stop (mcr_rotations (tab_n_qubits (snd s)) qubits ph)
          (fst s, to_z_plane pauli (last qubits) (ensure_rotations (snd s))))"

definition implement_mcp :: "(nat \<Rightarrow> bool) \<Rightarrow> nat list \<Rightarrow> phase \<Rightarrow> pauli \<Rightarrow> convert_state \<Rightarrow> convert_state option" where
  "implement_mcp stop qubits ph pauli s =
     map_option (map_prod id (from_z_plane pauli (last qubits)))
       (push_rotations stop (mcp_rotations (tab_n_qubits (snd s)) qubits ph)
          (fst s, to_z_plane pauli (last qubits) (ensure_rotations (snd s))))"

text \<open>A phase or rotation gate: the Clifford ones by the three given operations, the others by \<open>other\<close>.\<close>

definition append_single ::
  "(tableau \<Rightarrow> tableau) \<Rightarrow> (tableau \<Rightarrow> tableau) \<Rightarrow> (tableau \<Rightarrow> tableau) \<Rightarrow> (convert_state \<Rightarrow> convert_state option) \<Rightarrow>
    phase \<Rightarrow> convert_state \<Rightarrow> convert_state option" where
  "append_single f_half f_quarter f_minus_quarter other p s =
     (if phase_eq p (phase_of_int 1) then Some (map_prod id f_half s)
      else if phase_eq p (mk_phase 1 2) then Some (map_prod id f_quarter s)
      else if phase_eq p (mk_phase (- 1) 2) then Some (map_prod id f_minus_quarter s)
      else other s)"

definition tab_sy :: "nat \<Rightarrow> tableau \<Rightarrow> tableau" where
  "tab_sy q t = tab_s q (trait_v tab_trait q (trait_sdg tab_trait q t))"

definition tab_sydg :: "nat \<Rightarrow> tableau \<Rightarrow> tableau" where
  "tab_sydg q t = tab_s q (trait_vdg tab_trait q (trait_sdg tab_trait q t))"

definition append_z :: "(convert_state \<Rightarrow> convert_state option) \<Rightarrow> nat \<Rightarrow> phase \<Rightarrow> convert_state \<Rightarrow> convert_state option" where
  "append_z other q = append_single (trait_z tab_trait q) (tab_s q) (trait_sdg tab_trait q) other"

definition append_x :: "(convert_state \<Rightarrow> convert_state option) \<Rightarrow> nat \<Rightarrow> phase \<Rightarrow> convert_state \<Rightarrow> convert_state option" where
  "append_x other q = append_single (trait_x tab_trait q) (trait_v tab_trait q) (trait_vdg tab_trait q) other"

definition append_y :: "(convert_state \<Rightarrow> convert_state option) \<Rightarrow> nat \<Rightarrow> phase \<Rightarrow> convert_state \<Rightarrow> convert_state option" where
  "append_y other q = append_single (trait_y tab_trait q) (tab_sy q) (tab_sydg q) other"

definition append_control ::
  "(nat \<Rightarrow> bool) \<Rightarrow> operation \<Rightarrow> nat \<Rightarrow> nat list \<Rightarrow> convert_state \<Rightarrow> convert_state option" where
  "append_control stop op k qs s =
     (let two = op_num_qubits (ControlGate op k) = 2 in
      case op of
        PXGate p \<Rightarrow> if two \<and> phase_eq p (phase_of_int 1) then Some (map_prod id (tab_cx (qs ! 0) (qs ! 1)) s)
                    else implement_mcp stop qs p PX s
      | PYGate p \<Rightarrow> if two \<and> phase_eq p (phase_of_int 1)
                    then Some (map_prod id (\<lambda>t. tab_s (qs ! 1) (tab_cx (qs ! 0) (qs ! 1) (trait_sdg tab_trait (qs ! 1) t))) s)
                    else implement_mcp stop qs p PY s
      | PZGate p \<Rightarrow> if two \<and> phase_eq p (phase_of_int 1) then Some (map_prod id (trait_cz tab_trait (qs ! 0) (qs ! 1)) s)
                    else implement_mcp stop qs p PZ s
      | RXGate p \<Rightarrow> implement_mcr stop qs p PX s
      | RYGate p \<Rightarrow> implement_mcr stop qs p PY s
      | RZGate p \<Rightarrow> implement_mcr stop qs p PZ s
      | _ \<Rightarrow> None)"

fun run_all :: "((convert_state \<Rightarrow> convert_state option)) list \<Rightarrow> convert_state \<Rightarrow> convert_state option" where
  "run_all [] s = Some s"
| "run_all (f # fs) s = (case f s of None \<Rightarrow> None | Some s' \<Rightarrow> run_all fs s')"

primrec append_to_tableau :: "(nat \<Rightarrow> bool) \<Rightarrow> operation \<Rightarrow> nat list \<Rightarrow> convert_state \<Rightarrow> convert_state option" where
  "append_to_tableau stop IdGate = (\<lambda>qs s. Some s)"
| "append_to_tableau stop HGate = (\<lambda>qs s. Some (map_prod id (tab_h (qs ! 0)) s))"
| "append_to_tableau stop SwapGate = (\<lambda>qs s. Some (map_prod id (trait_swap tab_trait (qs ! 0) (qs ! 1)) s))"
| "append_to_tableau stop ECRGate = (\<lambda>qs s. Some (map_prod id (trait_ecr tab_trait (qs ! 0) (qs ! 1)) s))"
| "append_to_tableau stop (PZGate p) = (\<lambda>qs. append_z (implement_mcp stop qs p PZ) (qs ! 0) p)"
| "append_to_tableau stop (PXGate p) = (\<lambda>qs. append_x (implement_mcp stop qs p PX) (qs ! 0) p)"
| "append_to_tableau stop (PYGate p) = (\<lambda>qs. append_y (implement_mcp stop qs p PY) (qs ! 0) p)"
| "append_to_tableau stop (RZGate p) = (\<lambda>qs. append_z (implement_mcr stop qs p PZ) (qs ! 0) p)"
| "append_to_tableau stop (RXGate p) = (\<lambda>qs. append_x (implement_mcr stop qs p PX) (qs ! 0) p)"
| "append_to_tableau stop (RYGate p) = (\<lambda>qs. append_y (implement_mcr stop qs p PY) (qs ! 0) p)"
| "append_to_tableau stop (ControlGate op k) = (\<lambda>qs. append_control stop op k qs)"
| "append_to_tableau stop (QCirOp f n gs) =
     (\<lambda>qs. run_all (map (\<lambda>g. fst g (map (\<lambda>i. qs ! i) (snd g))) (map (map_prod (append_to_tableau stop) id) gs)))"

fun to_tableau_loop :: "(nat \<Rightarrow> bool) \<Rightarrow> gate list \<Rightarrow> convert_state \<Rightarrow> convert_state option" where
  "to_tableau_loop stop [] s = Some s"
| "to_tableau_loop stop (g # gs) (k, t) =
     (if stop k then None
      else (case append_to_tableau stop (fst g) (snd g) (Suc k, t) of None \<Rightarrow> None | Some s \<Rightarrow> to_tableau_loop stop gs s))"

definition to_tableau :: "(nat \<Rightarrow> bool) \<Rightarrow> qcir \<Rightarrow> tableau option" where
  "to_tableau stop c = map_option snd (to_tableau_loop stop (qc_gates c) (0, tableau_new (qc_qubits c)))"

section \<open>Combinations\<close>

lemma combinations_sub: "c \<in> set (combinations xs k) \<Longrightarrow> distinct xs \<Longrightarrow> distinct c \<and> set c \<subseteq> set xs"
proof (induction xs k arbitrary: c rule: combinations.induct)
  case (3 x xs k)
  then consider d where "c = x # d" "d \<in> set (combinations xs k)" | "c \<in> set (combinations xs (Suc k))" by auto
  then show ?case
  proof cases
    case 1
    then show ?thesis using "3.IH"(1) [of d] "3.prems" by auto
  next
    case 2
    then show ?thesis using "3.IH"(2) "3.prems" by fastforce
  qed
qed auto

lemma combinations_too_many: "length xs < k \<Longrightarrow> combinations xs k = []"
  by (induction xs k rule: combinations.induct) auto

text \<open>The alternating sum over all subsets of a multiplicative function is a product.\<close>

lemma sum_combinations:
  fixes g :: "nat \<Rightarrow> rat"
  shows "(\<Sum>k \<le> length xs. (- 1) ^ k * (\<Sum>c \<leftarrow> combinations xs k. prod_list (map g c))) = prod_list (map (\<lambda>x. 1 - g x) xs)"
proof (induction xs)
  case (Cons x xs)
  let ?f = "\<lambda>k. \<Sum>c \<leftarrow> combinations xs k. prod_list (map g c)" and ?L = "length xs"
  have m: "sum_list (map ((\<lambda>c. prod_list (map g c)) \<circ> (#) x) cs) = g x * (\<Sum>c \<leftarrow> cs. prod_list (map g c))" for cs
    by (induction cs) (simp_all add: algebra_simps)
  have "(\<Sum>k \<le> Suc ?L. (- 1) ^ k * (\<Sum>c \<leftarrow> combinations (x # xs) k. prod_list (map g c))) =
      1 + (\<Sum>k \<le> ?L. (- 1) ^ Suc k * (g x * ?f k + ?f (Suc k)))"
    by (subst sum.atMost_Suc_shift) (simp add: m)
  also have "\<dots> = (1 + (\<Sum>k \<le> ?L. (- 1) ^ Suc k * ?f (Suc k))) - g x * (\<Sum>k \<le> ?L. (- 1) ^ k * ?f k)"
    by (simp add: sum_distrib_left algebra_simps sum.distrib sum_negf sum_subtractf)
  also have "1 + (\<Sum>k \<le> ?L. (- 1) ^ Suc k * ?f (Suc k)) = (\<Sum>k \<le> Suc ?L. (- 1) ^ k * ?f k)"
    by (subst sum.atMost_Suc_shift) simp
  also have "\<dots> = (\<Sum>k \<le> ?L. (- 1) ^ k * ?f k)" by (simp add: combinations_too_many)
  finally show ?case using Cons.IH by (simp add: algebra_simps)
qed simp

section \<open>Rotations around products of Z\<close>

lemma z_rotation_ok:
  assumes "phase_ok p"
  shows "rot_ok n (z_rotation n on p)" "rot_is_diagonal (z_rotation n on p)"
    "rot_op (z_rotation n on p) v b = turn (if dot n on b then phase_val p else 0) * v b"
proof -
  let ?row = "map (\<lambda>i. of_bool (on i)) [0..<n] :: row"
  define P where "P = pp_of_paulis (map (\<lambda>x. if x = 1 then PZ else PI) ?row) False"
  have "row_ok n ?row" by (simp add: row_ok_def)
  note q = paulis_of_row [OF this, folded P_def]
  have "map (\<lambda>x. if x = 1 then PZ else PI) ?row = map (\<lambda>i. if on i then PZ else PI) [0..<n]" by simp
  then have P: "pp_of_paulis (map (\<lambda>i. if on i then PZ else PI) [0..<n]) False = P" unfolding P_def by (rule arg_cong [symmetric])
  have e: "z_rotation n on p = \<lparr>rot_product = P, rot_phase = p\<rparr>"
    using q(2) by (simp add: z_rotation_def rotation_of_paulis_def P mk_rotation_def rot_normalize_def)
  show ok: "rot_ok n (z_rotation n on p)" "rot_is_diagonal (z_rotation n on p)"
    using q assms by (simp_all add: e rot_ok_def rot_is_diagonal_def diag_iff [OF q(1)])
  have "dot n (test (rotation_parity n (z_rotation n on p))) b = dot n on b"
    by (rule dot_cong) (use q in \<open>simp_all add: rotation_parity_def e is_z_def bit_at_def\<close>)
  then show "rot_op (z_rotation n on p) v b = turn (if dot n on b then phase_val p else 0) * v b"
    using rot_op_turn [OF ok] by (simp add: e)
qed

lemma dot_sign:
  "distinct xs \<Longrightarrow> set xs \<subseteq> {..<n} \<Longrightarrow>
    (if dot n (\<lambda>i. i \<in> set xs) b then 1 else 0) = (1 - prod_list (map (\<lambda>x. if b x then - 1 else 1) xs)) / (2 :: rat)"
proof (induction xs)
  case Nil
  then show ?case by (simp add: dot_def)
next
  case (Cons x xs)
  have "dot n (\<lambda>i. i \<in> set (x # xs)) b = dot n (\<lambda>i. bxor (i = x) (i \<in> set xs)) b"
    by (rule dot_cong) (use Cons.prems in \<open>auto simp: bxor_def\<close>)
  also have "\<dots> = bxor (b x) (dot n (\<lambda>i. i \<in> set xs) b)" using Cons.prems dot_unit(1) [of x n b] by (simp add: dot_xor)
  finally show ?case using Cons by (auto simp: bxor_def split: if_splits)
qed

text \<open>The angles by which a list of such rotations turns a basis state add up.\<close>

definition z_rotations :: "nat \<Rightarrow> ((nat \<Rightarrow> bool) \<times> phase) list \<Rightarrow> pauli_rotation list" where
  "z_rotations n L = map (\<lambda>(on, p). z_rotation n on p) L"

lemma z_rotations_op:
  assumes "\<forall>(on, p) \<in> set L. phase_ok p"
  shows "rots_ok n (z_rotations n L) \<and>
    rots_op (z_rotations n L) v b = turn (\<Sum>(on, p) \<leftarrow> L. if dot n on b then phase_val p else 0) * v b"
  using assms
proof (induction L arbitrary: v)
  case Nil
  show ?case by (simp add: z_rotations_def turn_def)
next
  case (Cons x L)
  obtain on p where x: "x = (on, p)" by (cases x)
  have p: "phase_ok p" using Cons.prems by (simp add: x)
  show ?case
    using Cons z_rotation_ok(1) [OF p] z_rotation_ok(3) [OF p, of n on v b] by (simp add: z_rotations_def x turn_add)
qed

lemma mod2_concat:
  assumes "\<And>k c. k \<in> set ks \<Longrightarrow> c \<in> set (cs k) \<Longrightarrow> mod2 (f k c) (g k c)"
  shows "mod2 (sum_list (concat (map (\<lambda>k. map (f k) (cs k)) ks))) (\<Sum>k \<leftarrow> ks. \<Sum>c \<leftarrow> cs k. g k c)"
proof -
  have "mod2 (\<Sum>c \<leftarrow> xs. f k c) (\<Sum>c \<leftarrow> xs. g k c)" if "\<And>c. c \<in> set xs \<Longrightarrow> mod2 (f k c) (g k c)" for k xs
    using that by (induction xs) (auto intro: mod2_add)
  then show ?thesis using assms by (induction ks) (auto intro!: mod2_add)
qed

lemma split_phase_ok:
  assumes "phase_ok ph"
  shows "phase_ok (split_phase ph qs)" "mod2 (phase_val (split_phase ph qs)) (phase_val ph / 2 ^ (length qs - 1))"
proof -
  have c: "canonical (phase_rational ph)" "canonical (mk_rational 1 (2 ^ (length qs - 1)))"
    using assms by (auto simp: phase_ok_canonical)
  have v: "rat_val (mk_rational 1 (2 ^ (length qs - 1))) = 1 / 2 ^ (length qs - 1)"
    by (simp add: rat_val_mk)
  show "phase_ok (split_phase ph qs)" "mod2 (phase_val (split_phase ph qs)) (phase_val ph / 2 ^ (length qs - 1))"
    using phase_of_rational_ok [OF canonical_ops(3) [OF c]] v c
    by (simp_all add: split_phase_def phase_times_def rat_val_ops phase_val_def)
qed

lemma signed_split:
  assumes "phase_ok ph" "p = split_phase ph qs"
  shows "phase_ok (if k mod 2 \<noteq> 0 then phase_uminus p else p)"
    "mod2 (phase_val (if k mod 2 \<noteq> 0 then phase_uminus p else p)) ((- 1) ^ k * (phase_val ph / 2 ^ (length qs - 1)))"
proof -
  note p = split_phase_ok [OF assms(1), of qs, folded assms(2)]
  note u = phase_uminus_ok [OF p(1)]
  show "phase_ok (if k mod 2 \<noteq> 0 then phase_uminus p else p)" using p u by simp
  show "mod2 (phase_val (if k mod 2 \<noteq> 0 then phase_uminus p else p)) ((- 1) ^ k * (phase_val ph / 2 ^ (length qs - 1)))"
  proof (cases "even k")
    case True
    then show ?thesis using p by (simp add: even_iff_mod_2_eq_zero)
  next
    case False
    then show ?thesis using mod2_trans [OF u(2) mod2_minus [OF p(2)]] by (simp add: odd_iff_mod_2_eq_one)
  qed
qed

lemma alternating_subsets:
  fixes g :: "nat \<Rightarrow> rat"
  assumes L: "0 < length xs" and g: "\<And>x. g x = (if b x then - 1 else 1)"
  shows "(\<Sum>k \<leftarrow> [1..<length xs + 1]. \<Sum>c \<leftarrow> combinations xs k. (- 1) ^ (k - 1) * a * ((1 - prod_list (map g c)) / 2)) =
    (if \<forall>x \<in> set xs. b x then a * 2 ^ (length xs - 1) else 0)"
proof -
  let ?L = "length xs"
  let ?h = "\<lambda>k. (- 1) ^ k * (\<Sum>c \<leftarrow> combinations xs k. prod_list (map (\<lambda>_. 1) c)) -
    (- 1) ^ k * (\<Sum>c \<leftarrow> combinations xs k. prod_list (map g c))"
  have one: "(\<Sum>c \<leftarrow> cs. z * ((1 - prod_list (map g c)) / 2)) =
      z / 2 * ((\<Sum>c \<leftarrow> cs. prod_list (map (\<lambda>_. 1) c)) - (\<Sum>c \<leftarrow> cs. prod_list (map g c)))" for z and cs :: "nat list list"
    by (induction cs) (simp_all add: map_replicate_const field_simps)
  have "(\<Sum>k \<leftarrow> [1..<?L + 1]. \<Sum>c \<leftarrow> combinations xs k. (- 1) ^ (k - 1) * a * ((1 - prod_list (map g c)) / 2)) =
      (\<Sum>k \<in> {1..<?L + 1}. - (a / 2) * ?h k)"
    unfolding one interv_sum_list_conv_sum_set_nat
  proof (rule sum.cong)
    fix k assume "k \<in> {1..<?L + 1}"
    then have "k \<noteq> 0" by auto
    then obtain j where "k = Suc j" using not0_implies_Suc by blast
    then show "(- 1) ^ (k - 1) * a / 2 * ((\<Sum>c \<leftarrow> combinations xs k. prod_list (map (\<lambda>_. 1) c)) - (\<Sum>c \<leftarrow> combinations xs k. prod_list (map g c))) =
      - (a / 2) * ?h k" by (simp add: algebra_simps)
  qed (simp only: set_upt)
  also have "\<dots> = (\<Sum>k \<le> ?L. - (a / 2) * ?h k)"
    by (rule sum.mono_neutral_left) (auto simp: not_le Suc_le_eq less_Suc_eq_le)
  also have "\<dots> = - (a / 2) * (prod_list (map (\<lambda>x. 1 - 1) xs) - prod_list (map (\<lambda>x. 1 - g x) xs))"
    by (simp only: sum_combinations [symmetric] sum_distrib_left [symmetric] sum_subtractf)
  also have "prod_list (map (\<lambda>x. 1 - 1) xs) = (0 :: rat)" using L by (cases xs) auto
  also have "prod_list (map (\<lambda>x. 1 - g x) xs) = (if \<forall>x \<in> set xs. b x then 2 ^ ?L else 0)"
    by (induction xs) (auto simp: g)
  also have "- (a / 2) * (0 - (if \<forall>x \<in> set xs. b x then 2 ^ ?L else 0)) = (if \<forall>x \<in> set xs. b x then a * 2 ^ (?L - 1) else 0)"
    using L by (simp add: power_eq_if)
  finally show ?thesis .
qed

text \<open>The rotations of a controlled phase gate turn the states with all qubits set, and no others.\<close>

lemma mcp_rotations_op:
  assumes qs: "distinct qs" "set qs \<subseteq> {..<n}" "qs \<noteq> []" and ph: "phase_ok ph"
  shows "rots_ok n (mcp_rotations n qs ph) \<and>
    rots_op (mcp_rotations n qs ph) v b = (if \<forall>q \<in> set qs. b q then turn (phase_val ph) else 1) * v b"
proof -
  let ?L = "length qs" and ?xs = "sort qs" and ?p = "split_phase ph qs"
  define s where "s k = (if (k - 1) mod 2 \<noteq> 0 then phase_uminus ?p else ?p)" for k :: nat
  let ?cs = "\<lambda>k. map (\<lambda>c. (\<lambda>i. i \<in> set c, s k)) (combinations ?xs k)"
  let ?M = "concat (map ?cs [1..<?L + 1])"
  let ?\<theta> = "phase_val ph / 2 ^ (?L - 1)"
  define g :: "nat \<Rightarrow> rat" where "g = (\<lambda>x. if b x then - 1 else 1)"
  have L: "0 < ?L" using qs(3) by simp
  have xs: "distinct ?xs" "set ?xs \<subseteq> {..<n}" "length ?xs = ?L" using qs by simp_all
  have m: "mcp_rotations n qs ph = z_rotations n ?M"
    by (simp add: mcp_rotations_def z_rotations_def Let_def map_concat comp_def s_def)
  have s: "phase_ok (s k)" "mod2 (phase_val (s k)) ((- 1) ^ (k - 1) * ?\<theta>)" for k
    unfolding s_def by (rule signed_split [OF ph refl])+
  have ok: "\<forall>(on, p) \<in> set ?M. phase_ok p" using s(1) by auto
  have "(\<Sum>(on, p) \<leftarrow> ?M. if dot n on b then phase_val p else 0) =
      sum_list (concat (map (\<lambda>k. map (\<lambda>c. if dot n (\<lambda>i. i \<in> set c) b then phase_val (s k) else 0) (combinations ?xs k)) [1..<?L + 1]))"
    by (simp add: map_concat comp_def)
  also have "mod2 \<dots> (\<Sum>k \<leftarrow> [1..<?L + 1]. \<Sum>c \<leftarrow> combinations ?xs k. (- 1) ^ (k - 1) * ?\<theta> * ((1 - prod_list (map g c)) / 2))"
  proof (rule mod2_concat)
    fix k c assume "c \<in> set (combinations ?xs k)"
    then have "distinct c" "set c \<subseteq> {..<n}" using combinations_sub [of c ?xs k] xs by auto
    from dot_sign [OF this, of b] show "mod2 (if dot n (\<lambda>i. i \<in> set c) b then phase_val (s k) else 0)
        ((- 1) ^ (k - 1) * ?\<theta> * ((1 - prod_list (map g c)) / 2))"
      using s(2) [of k] by (auto simp: g_def split: if_splits)
  qed
  also have "(\<Sum>k \<leftarrow> [1..<?L + 1]. \<Sum>c \<leftarrow> combinations ?xs k. (- 1) ^ (k - 1) * ?\<theta> * ((1 - prod_list (map g c)) / 2)) =
      (if \<forall>q \<in> set qs. b q then phase_val ph else 0)"
  proof -
    note a = alternating_subsets [of ?xs g b "?\<theta>", unfolded xs(3) set_sort, OF L fun_cong [OF g_def]]
    show ?thesis unfolding a by simp
  qed
  finally have "turn (\<Sum>(on, p) \<leftarrow> ?M. if dot n on b then phase_val p else 0) = (if \<forall>q \<in> set qs. b q then turn (phase_val ph) else 1)"
    using turn_mod2 by (auto simp: turn_def split: if_splits)
  then show ?thesis using z_rotations_op [OF ok, of n v b] by (simp only: m)
qed

end
