(* ===== verification/ConversionCorrect.thy ===== *)
theory ConversionCorrect
  imports CircuitToTableau
begin

text \<open>
  The tableau of a circuit is the circuit up to a global scalar, for every circuit without controlled rotation
  gates. The code draws the combinations of \<open>implement_mcr\<close> from all qubits, the target among them, so that of a
  controlled rotation only the rotation around the product over all qubits is left; the last section shows the
  difference on the controlled RZ gate.
\<close>

section \<open>Conversions that follow an operator\<close>

definition appends :: "nat \<Rightarrow> (convert_state \<Rightarrow> convert_state option) \<Rightarrow> (qvec \<Rightarrow> qvec) \<Rightarrow> bool" where
  "appends n f G \<longleftrightarrow> space_op n G \<and> (\<forall>k t k' t'. tab_ok n t \<longrightarrow> has_clifford (subtableaux t) \<longrightarrow> f (k, t) = Some (k', t') \<longrightarrow>
     tab_ok n t' \<and> has_clifford (subtableaux t') \<and>
     op_eq n (\<lambda>v. subs_op (subtableaux t') v) (\<lambda>v. G (subs_op (subtableaux t) v)))"

lemma appends_space: "appends n f G \<Longrightarrow> space_op n G"
  unfolding appends_def by (rule conjunct1)

lemma appendsD:
  assumes "appends n f G" "tab_ok n t" "has_clifford (subtableaux t)" "f (k, t) = Some (k', t')"
  shows "tab_ok n t'" "has_clifford (subtableaux t')" "op_eq n (\<lambda>v. subs_op (subtableaux t') v) (\<lambda>v. G (subs_op (subtableaux t) v))"
  using assms unfolding appends_def by blast+

lemma appends_acts: "acts n F G \<Longrightarrow> appends n (\<lambda>s. Some (map_prod id F s)) G"
  by (auto simp: appends_def acts_def)

lemma acts_id: "acts n (\<lambda>t. t) (\<lambda>v. v)"
  by (simp add: acts_def space_op_def linear_op_def)

lemma space_op_tab: "tab_ok n t \<Longrightarrow> space_op n (subs_op (subtableaux t))"
  by (simp add: tab_ok_def space_op_subs)

lemma appends_op_eq:
  assumes f: "appends n f G" and G: "op_eq n G G'" "space_op n G'"
  shows "appends n f G'"
  unfolding appends_def
proof (intro conjI allI impI G(2))
  fix k t k' t' assume t: "tab_ok n t" "has_clifford (subtableaux t)" "f (k, t) = Some (k', t')"
  note d = appendsD [OF f t]
  show "tab_ok n t'" "has_clifford (subtableaux t')" by (rule d(1), rule d(2))
  have "op_eq n (\<lambda>v. G (subs_op (subtableaux t) v)) (\<lambda>v. G' (subs_op (subtableaux t) v))"
    by (rule op_eq_comp [OF G(1) op_eq_refl appends_space [OF f] space_op_tab [OF t(1)]])
  with d(3) show "op_eq n (\<lambda>v. subs_op (subtableaux t') v) (\<lambda>v. G' (subs_op (subtableaux t) v))" by (rule op_eq_trans)
qed

lemma appends_comp:
  assumes f: "appends n f F" and g: "appends n g G"
  shows "appends n (\<lambda>s. case f s of None \<Rightarrow> None | Some s' \<Rightarrow> g s') (\<lambda>v. G (F v))"
  unfolding appends_def
proof (intro conjI allI impI)
  show "space_op n (\<lambda>v. G (F v))" by (rule space_op_comp [OF appends_space [OF g] appends_space [OF f]])
  fix k t k' t'
  assume t: "tab_ok n t" "has_clifford (subtableaux t)" and e: "(case f (k, t) of None \<Rightarrow> None | Some s' \<Rightarrow> g s') = Some (k', t')"
  then obtain j u where u: "f (k, t) = Some (j, u)" "g (j, u) = Some (k', t')" by (auto split: option.splits)
  note a = appendsD [OF f t u(1)]
  note b = appendsD [OF g a(1,2) u(2)]
  show "tab_ok n t'" "has_clifford (subtableaux t')" by (rule b(1), rule b(2))
  have "op_eq n (\<lambda>v. G (subs_op (subtableaux u) v)) (\<lambda>v. G (F (subs_op (subtableaux t) v)))"
  proof (rule op_eq_comp [OF op_eq_refl a(3)])
    show "space_op n G" by (rule appends_space [OF g])
    show "space_op n (\<lambda>v. F (subs_op (subtableaux t) v))"
      by (rule space_op_comp [OF appends_space [OF f] space_op_tab [OF t(1)]])
  qed
  with b(3) show "op_eq n (\<lambda>v. subs_op (subtableaux t') v) (\<lambda>v. G (F (subs_op (subtableaux t) v)))" by (rule op_eq_trans)
qed

section \<open>Rotations at the back\<close>

definition ends_with :: "tableau \<Rightarrow> sub_tableau list \<Rightarrow> pauli_rotation list \<Rightarrow> bool" where
  "ends_with t ss rs \<longleftrightarrow> subtableaux t = ss @ [SubPR rs]"

lemma push_rotations_spec:
  "ends_with t ss rs \<Longrightarrow> push_rotations stop Rs (k, t) = Some (k', t') \<Longrightarrow> t' = t\<lparr>subtableaux := ss @ [SubPR (rs @ Rs)]\<rparr>"
proof (induction Rs arbitrary: rs k t)
  case Nil
  then show ?case by (simp add: ends_with_def)
next
  case (Cons R Rs)
  let ?t = "t\<lparr>subtableaux := ss @ [SubPR (rs @ [R])]\<rparr>"
  have a: "append_rotation R t = Some ?t" using Cons.prems(1) by (simp add: append_rotation_def ends_with_def)
  have "push_rotations stop Rs (Suc k, ?t) = Some (k', t')" using Cons.prems(2) a by (simp split: if_splits)
  from Cons.IH [OF _ this, of "rs @ [R]"] show ?case by (simp add: ends_with_def)
qed

lemma push_rotations_total: "ends_with t ss rs \<Longrightarrow> (\<And>i. \<not> stop i) \<Longrightarrow> push_rotations stop Rs (k, t) \<noteq> None"
  by (induction Rs arbitrary: rs k t) (auto simp: append_rotation_def ends_with_def)

lemma ensure_rotations_spec:
  assumes "tab_ok n t" "has_clifford (subtableaux t)"
  shows "\<exists>ss rs. ends_with (ensure_rotations t) ss rs" "tab_ok n (ensure_rotations t)"
    "has_clifford (subtableaux (ensure_rotations t))" "subs_op (subtableaux (ensure_rotations t)) v = subs_op (subtableaux t) v"
proof -
  obtain s r where r: "rev (subtableaux t) = s # r" using assms(2) by (cases "rev (subtableaux t)") (auto simp: has_clifford_def)
  then have t: "subtableaux t = rev r @ [s]" by (metis rev.simps(2) rev_rev_ident)
  show "\<exists>ss rs. ends_with (ensure_rotations t) ss rs" "tab_ok n (ensure_rotations t)"
    "has_clifford (subtableaux (ensure_rotations t))" "subs_op (subtableaux (ensure_rotations t)) v = subs_op (subtableaux t) v"
    using assms by (cases s; auto simp: ensure_rotations_def r t ends_with_def tab_push_back_def tab_ok_def has_clifford_def)+
qed

lemma gate_keeps_end: "ends_with t ss rs \<Longrightarrow> \<exists>ss' rs'. ends_with (tab_h q t) ss' rs'"
    "ends_with t ss rs \<Longrightarrow> \<exists>ss' rs'. ends_with (tab_s q t) ss' rs'"
  by (simp_all add: ends_with_def tab_h_def tab_s_def)

lemma plane_keeps_end: "ends_with t ss rs \<Longrightarrow> \<exists>ss' rs'. ends_with (to_z_plane p q t) ss' rs'"
proof -
  assume t: "ends_with t ss rs"
  have "\<exists>ss' rs'. ends_with (trait_v tab_trait q t) ss' rs'"
    using gate_keeps_end [of t] t unfolding trait_v_def tab_trait_sel by (meson gate_keeps_end)
  then show ?thesis using t gate_keeps_end(1) [OF t] by (cases p) (auto simp: to_z_plane_def)
qed

lemma q_plane: "q < n \<Longrightarrow> acts n (to_z_plane p q) (case p of PX \<Rightarrow> q_h q | PY \<Rightarrow> q_px \<i> q | _ \<Rightarrow> (\<lambda>v. v))"
  "q < n \<Longrightarrow> acts n (from_z_plane p q) (case p of PX \<Rightarrow> q_h q | PY \<Rightarrow> q_px (- \<i>) q | _ \<Rightarrow> (\<lambda>v. v))"
proof -
  assume q: "q < n"
  have v: "acts n (trait_v tab_trait q) (q_px \<i> q)" "acts n (trait_vdg tab_trait q) (q_px (- \<i>) q)"
    using acts_string [of n "[(COT_v, q, 0)]"] acts_string [of n "[(COT_vdg, q, 0)]"] q by (simp_all add: trait_single acts_def)
  have e: "to_z_plane p q = (case p of PX \<Rightarrow> tab_h q | PY \<Rightarrow> trait_v tab_trait q | _ \<Rightarrow> (\<lambda>t. t))"
    "from_z_plane p q = (case p of PX \<Rightarrow> tab_h q | PY \<Rightarrow> trait_vdg tab_trait q | _ \<Rightarrow> (\<lambda>t. t))"
    by (auto simp: to_z_plane_def from_z_plane_def split: pauli.splits)
  show "acts n (to_z_plane p q) (case p of PX \<Rightarrow> q_h q | PY \<Rightarrow> q_px \<i> q | _ \<Rightarrow> (\<lambda>v. v))"
    "acts n (from_z_plane p q) (case p of PX \<Rightarrow> q_h q | PY \<Rightarrow> q_px (- \<i>) q | _ \<Rightarrow> (\<lambda>v. v))"
    using v acts_id acts_generators(1) [OF q] unfolding e by (cases p; simp)+
qed

section \<open>Phase gates and their controlled versions\<close>

definition plane_in :: "pauli \<Rightarrow> nat \<Rightarrow> qvec \<Rightarrow> qvec" where
  "plane_in p q = (case p of PX \<Rightarrow> q_h q | PY \<Rightarrow> q_px \<i> q | _ \<Rightarrow> (\<lambda>v. v))"

definition plane_out :: "pauli \<Rightarrow> nat \<Rightarrow> qvec \<Rightarrow> qvec" where
  "plane_out p q = (case p of PX \<Rightarrow> q_h q | PY \<Rightarrow> q_px (- \<i>) q | _ \<Rightarrow> (\<lambda>v. v))"

definition implement_rotations :: "(nat \<Rightarrow> bool) \<Rightarrow> pauli_rotation list \<Rightarrow> pauli \<Rightarrow> nat \<Rightarrow> convert_state \<Rightarrow> convert_state option" where
  "implement_rotations stop Rs p q s =
     map_option (map_prod id (from_z_plane p q)) (push_rotations stop Rs (fst s, to_z_plane p q (ensure_rotations (snd s))))"

lemma implement_rotations_appends:
  assumes q: "q < n" and Rs: "rots_ok n Rs"
  shows "appends n (implement_rotations stop Rs p q) (\<lambda>v. plane_out p q (rots_op Rs (plane_in p q v)))"
  unfolding appends_def
proof (intro conjI allI impI)
  note p = q_plane [OF q, of p, folded plane_in_def plane_out_def]
  have sp: "space_op n (plane_in p q)" "space_op n (plane_out p q)" using p by (simp_all add: acts_def)
  show "space_op n (\<lambda>v. plane_out p q (rots_op Rs (plane_in p q v)))"
    by (rule space_op_comp [OF sp(2) space_op_comp [OF space_op_rots [OF Rs] sp(1)]])
  fix k t k' t'
  assume t: "tab_ok n t" "has_clifford (subtableaux t)" and i: "implement_rotations stop Rs p q (k, t) = Some (k', t')"
  let ?t = "ensure_rotations t" and ?t1 = "to_z_plane p q (ensure_rotations t)"
  note e = ensure_rotations_spec [OF t]
  have t1: "tab_ok n ?t1" "has_clifford (subtableaux ?t1)"
    "op_eq n (\<lambda>v. subs_op (subtableaux ?t1) v) (\<lambda>v. plane_in p q (subs_op (subtableaux t) v))"
    using p(1) e(2,3) unfolding acts_def e(4) [symmetric] by blast+
  obtain ss rs where fin: "ends_with ?t1 ss rs" using e(1) plane_keeps_end by blast
  obtain t2 where t2: "push_rotations stop Rs (k, ?t1) = Some (k', t2)" "t' = from_z_plane p q t2"
    using i by (auto simp: implement_rotations_def)
  have s2: "t2 = ?t1\<lparr>subtableaux := ss @ [SubPR (rs @ Rs)]\<rparr>" by (rule push_rotations_spec [OF fin t2(1)])
  have s1: "subtableaux ?t1 = ss @ [SubPR rs]" using fin by (simp add: ends_with_def)
  have ok2: "tab_ok n t2" "has_clifford (subtableaux t2)" using t1(1,2) Rs s1 by (auto simp: s2 tab_ok_def has_clifford_def)
  have o2: "subs_op (subtableaux t2) v = rots_op Rs (subs_op (subtableaux ?t1) v)" for v by (simp add: s2 s1)
  have a: "tab_ok n t'" "has_clifford (subtableaux t')"
    "op_eq n (\<lambda>v. subs_op (subtableaux t') v) (\<lambda>v. plane_out p q (subs_op (subtableaux t2) v))"
    using p(2) ok2 unfolding acts_def t2(2) by blast+
  show "tab_ok n t'" "has_clifford (subtableaux t')" by (rule a(1), rule a(2))
  note a(3)
  also have "op_eq n (\<lambda>v. plane_out p q (subs_op (subtableaux t2) v))
      (\<lambda>v. plane_out p q (rots_op Rs (plane_in p q (subs_op (subtableaux t) v))))"
  proof (rule op_eq_comp [OF op_eq_refl _ sp(2)])
    have it: "space_op n (\<lambda>v. plane_in p q (subs_op (subtableaux t) v))" by (rule space_op_comp [OF sp(1) space_op_tab [OF t(1)]])
    then show "space_op n (\<lambda>v. rots_op Rs (plane_in p q (subs_op (subtableaux t) v)))"
      by (rule space_op_comp [OF space_op_rots [OF Rs]])
    show "op_eq n (\<lambda>v. subs_op (subtableaux t2) v) (\<lambda>v. rots_op Rs (plane_in p q (subs_op (subtableaux t) v)))"
      unfolding o2 by (rule op_eq_comp [OF op_eq_refl t1(3) space_op_rots [OF Rs] it])
  qed
  finally show "op_eq n (\<lambda>v. subs_op (subtableaux t') v) (\<lambda>v. plane_out p q (rots_op Rs (plane_in p q (subs_op (subtableaux t) v))))" .
qed

lemma implement_rotations_total:
  assumes "tab_ok n t" "has_clifford (subtableaux t)" "\<And>i. \<not> stop i"
  shows "implement_rotations stop Rs p q (k, t) \<noteq> None"
proof -
  obtain ss rs where "ends_with (to_z_plane p q (ensure_rotations t)) ss rs"
    using ensure_rotations_spec(1) [OF assms(1,2)] plane_keeps_end by blast
  then show ?thesis using push_rotations_total [of _ ss rs stop] assms(3) by (simp add: implement_rotations_def)
qed

lemma appends_cong:
  assumes "\<And>k t. tab_ok n t \<Longrightarrow> f (k, t) = g (k, t)" "appends n g G"
  shows "appends n f G"
  unfolding appends_def
proof (intro conjI allI impI appends_space [OF assms(2)])
  fix k t k' t'
  assume t: "tab_ok n t" "has_clifford (subtableaux t)" and e: "f (k, t) = Some (k', t')"
  have g: "g (k, t) = Some (k', t')" using e assms(1) [OF t(1)] by simp
  note d = appendsD [OF assms(2) t g]
  show "tab_ok n t'" "has_clifford (subtableaux t')"
    "op_eq n (\<lambda>v. subs_op (subtableaux t') v) (\<lambda>v. G (subs_op (subtableaux t) v))" by (rule d)+
qed

text \<open>The phase gate around the axis \<open>p\<close>.\<close>

definition axis_op :: "pauli \<Rightarrow> complex \<Rightarrow> nat \<Rightarrow> qvec \<Rightarrow> qvec" where
  "axis_op p w q = (case p of PX \<Rightarrow> q_px w q | PY \<Rightarrow> q_py w q | _ \<Rightarrow> q_pz w q)"

lemma plane_conj:
  assumes "q \<notin> set cs"
  shows "plane_out p q (controlled cs (q_pz w q) (plane_in p q v)) = controlled cs (axis_op p w q) v"
proof -
  have inv: "plane_out p q (plane_in p q v) = v"
    by (cases p) (auto simp: plane_in_def plane_out_def q_h_h q_phase_inverse)
  have loc: "acts_on {q} (plane_out p q)" using acts_on_gates acts_on_id by (cases p) (auto simp: plane_out_def)
  have "plane_out p q (q_pz w q (plane_in p q v)) = axis_op p w q v" for v
    by (cases p) (auto simp: plane_in_def plane_out_def axis_op_def q_h_pz q_px_pz)
  then have "controlled cs (axis_op p w q) v = controlled cs (\<lambda>v. plane_out p q (q_pz w q (plane_in p q v))) v"
    by (simp add: controlled_def)
  also have "\<dots> = plane_out p q (controlled cs (q_pz w q) (plane_in p q v))"
    by (rule controlled_conj [where F = "q_pz w q" and G = "plane_out p q" and G' = "plane_in p q" and Q = "{q}"]) (use assms loc inv in simp_all)
  finally show ?thesis by simp
qed

lemma implement_mcp_appends:
  assumes qs: "distinct qs" "set qs \<subseteq> {..<n}" "qs \<noteq> []" and ph: "phase_ok ph"
  shows "appends n (implement_mcp stop qs ph p) (controlled (butlast qs) (axis_op p (phase_factor ph) (last qs)))"
proof -
  let ?Rs = "mcp_rotations n qs ph" and ?q = "last qs"
  have q: "?q < n" "?q \<notin> set (butlast qs)"
    using qs by (auto simp: subset_iff) (metis append_butlast_last_id distinct_append IntI disjoint_iff list.set_intros(1))
  note R = mcp_rotations_op [OF qs ph]
  have D: "rots_op ?Rs v = controlled (butlast qs) (q_pz (phase_factor ph) ?q) v" for v
  proof
    fix b
    have "(\<forall>x \<in> set qs. b x) \<longleftrightarrow> (\<forall>x \<in> set (butlast qs). b x) \<and> b ?q"
      using qs(3) by (metis append_butlast_last_id in_set_conv_decomp last_in_set Un_iff in_set_butlastD set_append empty_iff empty_set set_ConsD)
    then show "rots_op ?Rs v b = controlled (butlast qs) (q_pz (phase_factor ph) ?q) v b"
      using R [of v b] by (auto simp: controlled_def q_pz_def turn_def phase_factor_def phase_angle_def)
  qed
  have "appends n (implement_rotations stop ?Rs p ?q) (controlled (butlast qs) (axis_op p (phase_factor ph) ?q))"
    using implement_rotations_appends [OF q(1), of ?Rs stop p] R plane_conj [OF q(2)] by (simp add: D)
  then show ?thesis
    by (rule appends_cong [rotated]) (simp add: implement_mcp_def implement_rotations_def tab_ok_def)
qed

section \<open>Every gate\<close>

lemma phase_factors:
  "phase_factor (phase_of_int 1) = - 1" "phase_factor (mk_phase 1 2) = \<i>" "phase_factor (mk_phase (- 1) 2) = - \<i>"
  by (simp_all add: phase_factor_def phase_angle_def phase_constants of_rat_divide of_rat_minus complex_eq_iff)

lemma acts_op_eq:
  assumes F: "acts n F G" and G: "op_eq n G G'" "space_op n G'"
  shows "acts n F G'"
  unfolding acts_def
proof (intro conjI allI impI G(2))
  fix t assume t: "tab_ok n t" "has_clifford (subtableaux t)"
  have a: "appends n (\<lambda>s. Some (map_prod id F s)) G'" by (rule appends_op_eq [OF appends_acts [OF F] G])
  note d = appendsD [OF a t, of 0 0 "F t", simplified]
  show "tab_ok n (F t)" "has_clifford (subtableaux (F t))"
    "op_eq n (\<lambda>v. subs_op (subtableaux (F t)) v) (\<lambda>v. G' (subs_op (subtableaux t) v))" by (rule d)+
qed

lemma space_op_axis: "q < n \<Longrightarrow> space_op n (axis_op a w q)"
  by (rule space_op_local [where Q = "{q}"]) (cases a; simp add: axis_op_def linear_ops acts_on_gates)+

lemma acts_op: "op_ok n x \<Longrightarrow> acts n (trait_apply tab_trait x) (trait_apply q_trait x)"
  using acts_string [of n "[x]"] by (simp add: acts_def)

lemma acts_axis:
  assumes q: "q < n"
  shows "acts n (trait_z tab_trait q) (axis_op PZ (- 1) q)" "acts n (tab_s q) (axis_op PZ \<i> q)" "acts n (trait_sdg tab_trait q) (axis_op PZ (- \<i>) q)"
    "acts n (trait_x tab_trait q) (axis_op PX (- 1) q)" "acts n (trait_v tab_trait q) (axis_op PX \<i> q)" "acts n (trait_vdg tab_trait q) (axis_op PX (- \<i>) q)"
    "acts n (trait_y tab_trait q) (axis_op PY (- 1) q)" "acts n (tab_sy q) (axis_op PY \<i> q)" "acts n (tab_sydg q) (axis_op PY (- \<i>) q)"
proof -
  show z: "acts n (trait_z tab_trait q) (axis_op PZ (- 1) q)" "acts n (tab_s q) (axis_op PZ \<i> q)" "acts n (trait_sdg tab_trait q) (axis_op PZ (- \<i>) q)"
    using acts_op [of n "(COT_z, q, 0)"] acts_op [of n "(COT_s, q, 0)"] acts_op [of n "(COT_sdg, q, 0)"] q
    by (simp_all add: axis_op_def trait_single)
  show x: "acts n (trait_x tab_trait q) (axis_op PX (- 1) q)" "acts n (trait_v tab_trait q) (axis_op PX \<i> q)" "acts n (trait_vdg tab_trait q) (axis_op PX (- \<i>) q)"
    using acts_op [of n "(COT_x, q, 0)"] acts_op [of n "(COT_v, q, 0)"] acts_op [of n "(COT_vdg, q, 0)"] q
    by (simp_all add: axis_op_def trait_single)
  have "acts n (trait_y tab_trait q) (trait_y q_trait q)" using acts_op [of n "(COT_y, q, 0)"] q by simp
  then show "acts n (trait_y tab_trait q) (axis_op PY (- 1) q)"
    by (rule acts_op_eq) (auto simp: op_eq_def axis_op_def trait_y_single space_op_axis [OF q, of PY, simplified axis_op_def, simplified]
        intro!: exI [of _ \<i>])
  have "acts n (\<lambda>t. tab_s q (F (trait_sdg tab_trait q t))) (\<lambda>v. axis_op PZ \<i> q (axis_op PX w q (axis_op PZ (- \<i>) q v)))"
    if "acts n F (axis_op PX w q)" for F w
    by (rule acts_comp [OF z(2) acts_comp [OF that z(3)]])
  from this [OF x(2)] this [OF x(3)]
  show "acts n (tab_sy q) (axis_op PY \<i> q)" "acts n (tab_sydg q) (axis_op PY (- \<i>) q)"
    by (simp_all add: tab_sy_def [abs_def] tab_sydg_def [abs_def] axis_op_def q_pz_px)
qed

definition append_axis :: "pauli \<Rightarrow> (convert_state \<Rightarrow> convert_state option) \<Rightarrow> nat \<Rightarrow> phase \<Rightarrow> convert_state \<Rightarrow> convert_state option" where
  "append_axis a = (case a of PX \<Rightarrow> append_x | PY \<Rightarrow> append_y | _ \<Rightarrow> append_z)"

lemma append_axis_appends:
  assumes q: "q < n" and other: "appends n other (axis_op a (phase_factor p) q)"
  shows "appends n (append_axis a other q p) (axis_op a (phase_factor p) q)"
proof -
  have e: "append_single f g h other p = (if p = phase_of_int 1 then \<lambda>s. Some (map_prod id f s) else if p = mk_phase 1 2 then \<lambda>s. Some (map_prod id g s)
      else if p = mk_phase (- 1) 2 then \<lambda>s. Some (map_prod id h s) else other)" for f g h
    by (auto simp: append_single_def phase_eq_iff fun_eq_iff)
  have "appends n (append_single f g h other p) (axis_op a (phase_factor p) q)"
    if "acts n f (axis_op a (- 1) q)" "acts n g (axis_op a \<i> q)" "acts n h (axis_op a (- \<i>) q)" for f g h
    unfolding e using other appends_acts [OF that(1)] appends_acts [OF that(2)] appends_acts [OF that(3)]
    by (simp add: phase_factors)
  note single = this
  have Z: "axis_op PI = axis_op PZ" by (simp add: axis_op_def fun_eq_iff)
  show ?thesis
    using single [of "trait_z tab_trait q" "tab_s q" "trait_sdg tab_trait q"]
      single [of "trait_x tab_trait q" "trait_v tab_trait q" "trait_vdg tab_trait q"]
      single [of "trait_y tab_trait q" "tab_sy q" "tab_sydg q"] acts_axis [OF q]
    by (cases a) (simp_all add: append_axis_def append_x_def append_y_def append_z_def Z)
qed

primrec supported :: "operation \<Rightarrow> bool" where
  "supported IdGate = True"
| "supported HGate = True"
| "supported SwapGate = True"
| "supported ECRGate = True"
| "supported (PZGate p) = True"
| "supported (PXGate p) = True"
| "supported (PYGate p) = True"
| "supported (RZGate p) = True"
| "supported (RXGate p) = True"
| "supported (RYGate p) = True"
| "supported (ControlGate op k) = (case op of PZGate _ \<Rightarrow> True | PXGate _ \<Rightarrow> True | PYGate _ \<Rightarrow> True | _ \<Rightarrow> False)"
| "supported (QCirOp f n gs) = list_all fst (map (map_prod supported id) gs)"

lemma controlled_nil [simp]: "controlled [] F = F"
  by (simp add: controlled_def fun_eq_iff)

lemma mcr_single: "implement_mcr stop [q] p a = implement_mcp stop [q] p a"
  by (simp add: fun_eq_iff implement_mcr_def implement_mcp_def mcr_rotations_def mcp_rotations_def Let_def)

lemma single_appends:
  assumes "q < n" "phase_ok p"
  shows "appends n (append_axis a (implement_mcp stop [q] p a) q p) (axis_op a (phase_factor p) q)"
  by (rule append_axis_appends [OF assms(1)]) (use implement_mcp_appends [of "[q]" n p stop a] assms in simp)

lemma rotation_appends:
  assumes "q < n" "phase_ok p"
  shows "appends n (append_axis a (implement_mcr stop [q] p a) q p) (\<lambda>v. vscale (half_factor p) (axis_op a (phase_factor p) q v))"
proof (rule appends_op_eq [OF single_appends [OF assms, of a stop, folded mcr_single]])
  show "op_eq n (axis_op a (phase_factor p) q) (\<lambda>v. vscale (half_factor p) (axis_op a (phase_factor p) q v))"
    unfolding op_eq_def by (intro exI [of _ "1 / half_factor p"]) (simp add: half_factor_nonzero)
  have "space_op n (vscale (half_factor p))" by (simp add: space_op_def linear_vscale in_space_scale)
  then show "space_op n (\<lambda>v. vscale (half_factor p) (axis_op a (phase_factor p) q v))"
    by (rule space_op_comp [OF _ space_op_axis [OF assms(1)]])
qed

lemma control_appends:
  assumes g: "gate_ok n (ControlGate op k, qs)" and a: "op_sem op = (\<lambda>qs. axis_op a (phase_factor p) (hd qs))" "op_num_qubits op = 1" "phase_ok p"
  shows "appends n (implement_mcp stop qs p a) (op_sem (ControlGate op k) qs)"
proof -
  have qs: "distinct qs" "set qs \<subseteq> {..<n}" "length qs = Suc k" using g a(2) by (auto simp: gate_ok_def on_qubits_def)
  then have "qs \<noteq> []" by auto
  moreover have "take k qs = butlast qs" "hd (drop k qs) = last qs"
    using qs(3) by (simp_all add: butlast_conv_take hd_drop_conv_nth last_conv_nth \<open>qs \<noteq> []\<close>)
  ultimately show ?thesis using implement_mcp_appends [OF qs(1,2) _ a(3), of stop a] by (simp add: a(1))
qed

lemma run_all_appends:
  assumes "list_all2 (appends n) fs Gs" "Gs = map (\<lambda>g. op_sem (fst g) (snd g)) gs"
  shows "appends n (run_all fs) (gates_sem gs)"
  using assms
proof (induction fs arbitrary: Gs gs)
  case Nil
  then have "run_all [] = (\<lambda>s. Some (map_prod id (\<lambda>t. t) s))" "gates_sem gs = (\<lambda>v. v)" by (auto simp: gates_sem_def)
  then show ?case using appends_acts [OF acts_id] by simp
next
  case (Cons f fs)
  then obtain g gs' where gs: "gs = g # gs'" by (cases gs) auto
  have "appends n (\<lambda>s. case f s of None \<Rightarrow> None | Some s' \<Rightarrow> run_all fs s') (\<lambda>v. gates_sem gs' (op_sem (fst g) (snd g) v))"
    by (rule appends_comp) (use Cons gs in auto)
  moreover have "run_all (f # fs) = (\<lambda>s. case f s of None \<Rightarrow> None | Some s' \<Rightarrow> run_all fs s')"
    "gates_sem gs = (\<lambda>v. gates_sem gs' (op_sem (fst g) (snd g) v))" by (auto simp: gs)
  ultimately show ?case by simp
qed

lemma control_clifford:
  assumes g: "gate_ok n (ControlGate op k, qs)" and k: "op_num_qubits op = 1" "k = 1"
  obtains c t where "qs = [c, t]" "c < n" "t < n" "c \<noteq> t"
  using g k by (auto simp: gate_ok_def on_qubits_def length_Suc_conv numeral_2_eq_2)

lemma controlled_pauli_appends:
  assumes "c < n" "t < n" "c \<noteq> t"
  shows "acts n (tab_cx c t) (controlled [c] (q_px (- 1) t))" "acts n (trait_cz tab_trait c t) (controlled [c] (q_pz (- 1) t))"
    "acts n (\<lambda>tb. tab_s t (tab_cx c t (trait_sdg tab_trait t tb))) (controlled [c] (q_py (- 1) t))"
proof -
  show x: "acts n (tab_cx c t) (controlled [c] (q_px (- 1) t))"
    using acts_generators(3) [OF assms] assms by (simp add: q_cx_controlled)
  show "acts n (trait_cz tab_trait c t) (controlled [c] (q_pz (- 1) t))"
    using acts_op [of n "(COT_cz, c, t)"] assms by (simp add: trait_cz_controlled fun_eq_iff [where f = "trait_cz q_trait c t"] ext [OF trait_cz_controlled])
  have "q_pz \<i> t (controlled [c] (q_px (- 1) t) (q_pz (- \<i>) t v)) = controlled [c] (\<lambda>v. q_pz \<i> t (q_px (- 1) t (q_pz (- \<i>) t v))) v" for v
    by (rule controlled_conj [where F = "q_px (- 1) t" and Q = "{t}", symmetric])
      (use assms in \<open>auto simp: acts_on_gates q_phase_inverse\<close>)
  then have e: "q_pz \<i> t (controlled [c] (q_px (- 1) t) (q_pz (- \<i>) t v)) = controlled [c] (q_py (- 1) t) v" for v
    by (simp add: q_pz_px)
  show "acts n (\<lambda>tb. tab_s t (tab_cx c t (trait_sdg tab_trait t tb))) (controlled [c] (q_py (- 1) t))"
    using acts_comp [OF acts_axis(2) [OF assms(2)] acts_comp [OF x acts_axis(3) [OF assms(2)]]] by (simp add: axis_op_def e)
qed

theorem gate_appends:
  assumes "gate_ok n (op, qs)" "supported op"
  shows "appends n (append_to_tableau stop op qs) (op_sem op qs)"
  using assms
proof (induction op arbitrary: qs)
  case (ControlGate op k)
  have one: "op_num_qubits op = 1" "\<And>p. op = PZGate p \<or> op = PXGate p \<or> op = PYGate p \<Longrightarrow> phase_ok p"
    using ControlGate.prems by (auto simp: gate_ok_def split: operation.splits)
  note ca = control_appends [OF ControlGate.prems(1) _ one(1)]
  have x: "appends n (implement_mcp stop qs p PX) (op_sem (ControlGate op k) qs)" if "op = PXGate p" for p
    by (rule ca) (use that one(2) in \<open>auto simp: axis_op_def\<close>)
  have y: "appends n (implement_mcp stop qs p PY) (op_sem (ControlGate op k) qs)" if "op = PYGate p" for p
    by (rule ca) (use that one(2) in \<open>auto simp: axis_op_def\<close>)
  have z: "appends n (implement_mcp stop qs p PZ) (op_sem (ControlGate op k) qs)" if "op = PZGate p" for p
    by (rule ca) (use that one(2) in \<open>auto simp: axis_op_def\<close>)
  show ?case
  proof (cases "k = 1")
    case False
    then have "append_to_tableau stop (ControlGate op k) qs = (case op of PXGate p \<Rightarrow> implement_mcp stop qs p PX
        | PYGate p \<Rightarrow> implement_mcp stop qs p PY | PZGate p \<Rightarrow> implement_mcp stop qs p PZ | _ \<Rightarrow> append_control stop op k qs)"
      using one(1) by (auto simp: append_control_def fun_eq_iff split: operation.splits)
    then show ?thesis using x y z ControlGate.prems(2) by (auto split: operation.splits)
  next
    case True
    obtain c t where q: "qs = [c, t]" "c < n" "t < n" "c \<noteq> t" by (rule control_clifford [OF ControlGate.prems(1) one(1) True])
    note cp = controlled_pauli_appends [OF q(2-4)]
    have two: "op_num_qubits (ControlGate op k) = 2" using one(1) True by simp
    have e: "append_to_tableau stop (ControlGate op k) qs = (case op of
        PXGate p \<Rightarrow> if p = phase_of_int 1 then \<lambda>s. Some (map_prod id (tab_cx c t) s) else implement_mcp stop qs p PX
      | PYGate p \<Rightarrow> if p = phase_of_int 1 then \<lambda>s. Some (map_prod id (\<lambda>tb. tab_s t (tab_cx c t (trait_sdg tab_trait t tb))) s)
                    else implement_mcp stop qs p PY
      | PZGate p \<Rightarrow> if p = phase_of_int 1 then \<lambda>s. Some (map_prod id (trait_cz tab_trait c t) s) else implement_mcp stop qs p PZ
      | _ \<Rightarrow> append_control stop op k qs)"
      using two q(1) by (auto simp: append_control_def phase_eq_iff fun_eq_iff split: operation.splits)
    have td: "take k qs = [c]" "drop k qs = [t]" using q(1) True by simp_all
    show ?thesis
      unfolding e using x y z cp [THEN appends_acts] ControlGate.prems(2) by (auto simp: td phase_factors split: operation.splits)
  qed
next
  case (QCirOp f m gs)
  let ?fs = "map (\<lambda>g. append_to_tableau stop (fst g) (snd g)) (map (relabel qs) gs)"
  have "list_all2 (appends n) ?fs (map (\<lambda>g. op_sem (fst g) (snd g)) (map (relabel qs) gs))"
    unfolding list_all2_map1 list_all2_map2
  proof (rule list_all2_all_nthI)
    fix i assume "i < length gs"
    then have g: "gs ! i \<in> set gs" by simp
    have "gate_ok n (relabel qs (gs ! i))"
      using gate_ok_circuit [OF QCirOp.prems(1)] g by (simp add: gates_ok_def list_all_iff)
    moreover have "supported (fst (gs ! i))" using QCirOp.prems(2) g by (auto simp: list_all_iff)
    ultimately show "appends n (append_to_tableau stop (fst (relabel qs (gs ! i))) (snd (relabel qs (gs ! i))))
        (op_sem (fst (relabel qs (gs ! i))) (snd (relabel qs (gs ! i))))"
      using QCirOp.IH [OF g, of "fst (gs ! i)"] by (simp add: relabel_def fsts.intros)
  qed simp
  from run_all_appends [OF this refl] have "appends n (run_all ?fs) (gates_sem (map (relabel qs) gs))" .
  moreover have "append_to_tableau stop (QCirOp f m gs) qs = run_all ?fs" by (simp add: relabel_def comp_def)
  moreover have "op_sem (QCirOp f m gs) qs = gates_sem (map (relabel qs) gs)" by (rule ext) (rule op_sem_circuit)
  ultimately show ?case by (simp only:)
next
  case IdGate
  have "appends n (\<lambda>s. Some (map_prod id (\<lambda>t. t) s)) (\<lambda>v. v)" by (rule appends_acts [OF acts_id])
  then show ?case by (simp add: map_prod_def)
next
  case HGate
  then obtain q where "qs = [q]" "q < n" by (auto simp: gate_ok_def on_qubits_def length_Suc_conv)
  then show ?case using appends_acts [OF acts_generators(1)] by simp
next
  case SwapGate
  then obtain p q where q: "qs = [p, q]" "p < n" "q < n" "p \<noteq> q" by (auto simp: gate_ok_def on_qubits_def length_Suc_conv numeral_2_eq_2)
  then show ?case using appends_acts [OF acts_op [of n "(COT_swap, p, q)"]] by (simp add: trait_swap_q)
next
  case ECRGate
  then obtain p q where q: "qs = [p, q]" "p < n" "q < n" "p \<noteq> q" by (auto simp: gate_ok_def on_qubits_def length_Suc_conv numeral_2_eq_2)
  have "acts n (trait_ecr tab_trait p q) (trait_ecr q_trait p q)" using acts_op [of n "(COT_ecr, p, q)"] q by simp
  then have "acts n (trait_ecr tab_trait p q) (q_ecr p q)"
  proof (rule acts_op_eq)
    have "complex_of_real (sqrt 2) * (1 + \<i>) / 2 \<noteq> 0" by (simp add: complex_eq_iff)
    then show "op_eq n (trait_ecr q_trait p q) (q_ecr p q)" unfolding op_eq_def using trait_ecr_q [OF q(4)] by blast
    show "space_op n (q_ecr p q)" by (rule space_op_local [OF linear_ops(5) acts_on_gates(7)]) (use q in auto)
  qed
  then show ?case using q by (simp add: appends_acts)
qed (use single_appends [of _ n _ PZ] single_appends [of _ n _ PX] single_appends [of _ n _ PY]
      rotation_appends [of _ n _ PZ] rotation_appends [of _ n _ PX] rotation_appends [of _ n _ PY] in
    \<open>auto simp: gate_ok_def on_qubits_def length_Suc_conv append_axis_def axis_op_def\<close>)

section \<open>Circuits\<close>

lemma to_tableau_loop_appends:
  "gates_ok n gs \<Longrightarrow> \<forall>g \<in> set gs. supported (fst g) \<Longrightarrow> appends n (to_tableau_loop stop gs) (gates_sem gs)"
proof (induction gs)
  case Nil
  have "appends n (\<lambda>s. Some (map_prod id (\<lambda>t. t) s)) (\<lambda>v. v)" by (rule appends_acts [OF acts_id])
  moreover have "to_tableau_loop stop [] = (\<lambda>s. Some (map_prod id (\<lambda>t. t) s))" "gates_sem [] = (\<lambda>v. v)" by auto
  ultimately show ?case by simp
next
  case (Cons g gs)
  let ?f = "\<lambda>s. if stop (fst s) then None else append_to_tableau stop (fst g) (snd g) (Suc (fst s), snd s)"
  have g: "appends n (append_to_tableau stop (fst g) (snd g)) (op_sem (fst g) (snd g))"
    by (rule gate_appends) (use Cons.prems in auto)
  have "appends n ?f (op_sem (fst g) (snd g))"
    unfolding appends_def
  proof (intro conjI allI impI appends_space [OF g])
    fix k t k' t'
    assume t: "tab_ok n t" "has_clifford (subtableaux t)" and e: "?f (k, t) = Some (k', t')"
    then have e': "append_to_tableau stop (fst g) (snd g) (Suc k, t) = Some (k', t')" by (simp split: if_splits)
    note d = appendsD [OF g t e']
    show "tab_ok n t'" "has_clifford (subtableaux t')"
      "op_eq n (\<lambda>v. subs_op (subtableaux t') v) (\<lambda>v. op_sem (fst g) (snd g) (subs_op (subtableaux t) v))" by (rule d)+
  qed
  from appends_comp [OF this Cons.IH] Cons.prems
  have "appends n (\<lambda>s. case ?f s of None \<Rightarrow> None | Some s' \<Rightarrow> to_tableau_loop stop gs s') (\<lambda>v. gates_sem gs (op_sem (fst g) (snd g) v))" by simp
  moreover have "to_tableau_loop stop (g # gs) = (\<lambda>s. case ?f s of None \<Rightarrow> None | Some s' \<Rightarrow> to_tableau_loop stop gs s')"
    "gates_sem (g # gs) = (\<lambda>v. gates_sem gs (op_sem (fst g) (snd g) v))" by auto
  ultimately show ?case by (simp only:)
qed

lemma tableau_new_ok: "tab_ok n (tableau_new n)" "has_clifford (subtableaux (tableau_new n))"
  "op_eq n (subs_op (subtableaux (tableau_new n))) (\<lambda>v. v)"
  using equivD(3) [OF equiv_identity [of n]]
  by (simp_all add: tableau_new_def tab_ok_def st_init_ok has_clifford_def op_eq_def)

theorem to_tableau_sound:
  assumes c: "qc_ok c" "\<forall>g \<in> set (qc_gates c). supported (fst g)" and t: "to_tableau stop c = Some t"
  shows "tab_ok (qc_qubits c) t" "has_clifford (subtableaux t)" "op_eq (qc_qubits c) (subs_op (subtableaux t)) (gates_sem (qc_gates c))"
proof -
  let ?n = "qc_qubits c"
  have g: "gates_ok ?n (qc_gates c)" using c(1) by (simp add: qc_ok_def)
  have a: "appends ?n (to_tableau_loop stop (qc_gates c)) (gates_sem (qc_gates c))" by (rule to_tableau_loop_appends [OF g c(2)])
  obtain k where k: "to_tableau_loop stop (qc_gates c) (0, tableau_new ?n) = Some (k, t)" using t by (auto simp: to_tableau_def)
  note d = appendsD [OF a tableau_new_ok(1,2) k]
  show "tab_ok ?n t" "has_clifford (subtableaux t)" by (rule d(1), rule d(2))
  have "op_eq ?n (\<lambda>v. gates_sem (qc_gates c) (subs_op (subtableaux (tableau_new ?n)) v)) (\<lambda>v. gates_sem (qc_gates c) v)"
    by (rule op_eq_comp [OF op_eq_refl tableau_new_ok(3) space_op_gates [OF g]]) (simp add: space_op_def linear_op_def)
  with d(3) show "op_eq ?n (subs_op (subtableaux t)) (gates_sem (qc_gates c))" by (rule op_eq_trans)
qed

text \<open>The conversion fails only when it is interrupted.\<close>

lemma implement_total:
  assumes "tab_ok n t" "has_clifford (subtableaux t)" "\<And>i. \<not> stop i"
  shows "implement_mcp stop qs ph p (k, t) \<noteq> None" "implement_mcr stop qs ph p (k, t) \<noteq> None"
proof -
  note total = implement_rotations_total [OF assms(1,2), of stop, OF assms(3)]
  show "implement_mcp stop qs ph p (k, t) \<noteq> None" "implement_mcr stop qs ph p (k, t) \<noteq> None"
    using total [of "mcp_rotations (tab_n_qubits t) qs ph" p "last qs" k] total [of "mcr_rotations (tab_n_qubits t) qs ph" p "last qs" k]
    unfolding implement_mcp_def implement_mcr_def implement_rotations_def fst_conv snd_conv by - (assumption+)
qed

lemma run_all_total:
  assumes "list_all2 (appends n) fs Gs" "\<And>f k t. f \<in> set fs \<Longrightarrow> tab_ok n t \<Longrightarrow> has_clifford (subtableaux t) \<Longrightarrow> f (k, t) \<noteq> None"
    "tab_ok n t" "has_clifford (subtableaux t)"
  shows "run_all fs (k, t) \<noteq> None"
  using assms
proof (induction fs arbitrary: Gs k t)
  case (Cons f fs)
  then obtain G Gs' where G: "Gs = G # Gs'" "appends n f G" "list_all2 (appends n) fs Gs'" by (auto simp: list_all2_Cons1)
  obtain k' t' where f: "f (k, t) = Some (k', t')" using Cons.prems(2) [of f t k] Cons.prems(3,4) by (cases "f (k, t)") auto
  have "run_all fs (k', t') \<noteq> None"
    by (rule Cons.IH [OF G(3)]) (use Cons.prems(2) appendsD [OF G(2) Cons.prems(3,4) f] in auto)
  then show ?case using f by simp
qed simp

lemma relabel_appends:
  assumes "gate_ok n (QCirOp f m gs, qs)" "supported (QCirOp f m gs)"
  shows "list_all2 (appends n) (map (\<lambda>g. append_to_tableau stop (fst g) (snd g)) (map (relabel qs) gs))
    (map (\<lambda>g. op_sem (fst g) (snd g)) (map (relabel qs) gs))"
  unfolding list_all2_map1 list_all2_map2
proof (rule list_all2_all_nthI)
  fix i assume "i < length gs"
  then have g: "gs ! i \<in> set gs" by simp
  have "gate_ok n (relabel qs (gs ! i))" using gate_ok_circuit [OF assms(1)] g by (simp add: gates_ok_def list_all_iff)
  moreover have "supported (fst (gs ! i))" using assms(2) g by (auto simp: list_all_iff)
  ultimately show "appends n (append_to_tableau stop (fst (relabel qs (gs ! i))) (snd (relabel qs (gs ! i))))
      (op_sem (fst (relabel qs (gs ! i))) (snd (relabel qs (gs ! i))))"
    by (intro gate_appends) (simp_all add: relabel_def)
qed simp

lemma append_total:
  assumes "gate_ok n (op, qs)" "supported op" "tab_ok n t" "has_clifford (subtableaux t)" "\<And>i. \<not> stop i"
  shows "append_to_tableau stop op qs (k, t) \<noteq> None"
  using assms(1-4)
proof (induction op arbitrary: qs k t)
  case (ControlGate op k')
  note total = implement_total [OF ControlGate.prems(3,4), of stop, OF assms(5)]
  show ?case using ControlGate.prems(2) total(1) by (auto simp: append_control_def Let_def split: operation.splits)
next
  case (QCirOp f m gs)
  let ?fs = "map (\<lambda>g. append_to_tableau stop (fst g) (snd g)) (map (relabel qs) gs)"
  have "run_all ?fs (k, t) \<noteq> None"
  proof (rule run_all_total [OF relabel_appends [OF QCirOp.prems(1,2)] _ QCirOp.prems(3,4)])
    fix h k t assume h: "h \<in> set ?fs" and t: "tab_ok n t" "has_clifford (subtableaux t)"
    obtain g where g: "g \<in> set gs" "h = append_to_tableau stop (fst (relabel qs g)) (snd (relabel qs g))" using h by auto
    have "gate_ok n (relabel qs g)" using gate_ok_circuit [OF QCirOp.prems(1)] g(1) by (simp add: gates_ok_def list_all_iff)
    moreover have "supported (fst g)" using QCirOp.prems(2) g(1) by (auto simp: list_all_iff)
    ultimately show "h (k, t) \<noteq> None"
      using QCirOp.IH [of g "fst g" "snd (relabel qs g)" t k] g t by (simp add: relabel_def fsts.intros)
  qed
  moreover have "append_to_tableau stop (QCirOp f m gs) qs = run_all ?fs" by (simp add: relabel_def comp_def)
  ultimately show ?case by metis
qed (use implement_total [where stop = stop and n = n] assms(5) in
    \<open>auto simp: append_z_def append_x_def append_y_def append_single_def\<close>)

theorem to_tableau_total:
  assumes c: "qc_ok c" "\<forall>g \<in> set (qc_gates c). supported (fst g)" and stop: "\<And>i. \<not> stop i"
  shows "to_tableau stop c \<noteq> None"
proof -
  have "to_tableau_loop stop gs (k, t) \<noteq> None"
    if "gates_ok n gs" "\<forall>g \<in> set gs. supported (fst g)" "tab_ok n t" "has_clifford (subtableaux t)" for gs n k t
    using that
  proof (induction gs arbitrary: k t)
    case (Cons g gs)
    have g: "gate_ok n (fst g, snd g)" "supported (fst g)" using Cons.prems by auto
    obtain k' t' where a: "append_to_tableau stop (fst g) (snd g) (Suc k, t) = Some (k', t')"
      using append_total [OF g Cons.prems(3,4), of stop "Suc k"] stop by (cases "append_to_tableau stop (fst g) (snd g) (Suc k, t)") auto
    have "to_tableau_loop stop gs (k', t') \<noteq> None"
      by (rule Cons.IH) (use Cons.prems appendsD [OF gate_appends [OF g] Cons.prems(3,4) a] in auto)
    moreover have "\<not> stop k" by (rule stop)
    ultimately show ?case using a by simp
  qed simp
  from this [of "qc_qubits c" "qc_gates c" "tableau_new (qc_qubits c)" 0] show ?thesis
    using c tableau_new_ok by (simp add: to_tableau_def qc_ok_def)
qed

section \<open>Controlled rotations\<close>

text \<open>With the control unset the gate is the identity, the rotation around ZZ is not.\<close>

definition crz_gate :: gate where
  "crz_gate = (ControlGate (RZGate (mk_phase 1 2)) 1, [0, 1])"

definition crz_circuit :: qcir where
  "crz_circuit = qc_append (fst crz_gate) (snd crz_gate) (qcir_new 2)"

lemma crz_rotations:
  "rots_ok 2 (mcr_rotations 2 [0, 1] (mk_phase 1 2))"
  "rots_op (mcr_rotations 2 [0, 1] (mk_phase 1 2)) (uniform 2) zero_state = 1"
  "rots_op (mcr_rotations 2 [0, 1] (mk_phase 1 2)) (uniform 2) (\<lambda>i. i = 1) = turn (- (1 / 4))"
proof -
  define p where "p = split_phase (mk_phase 1 2) [0, 1]"
  define q where "q = phase_uminus p"
  let ?L = "[(\<lambda>i. i = 1, p), (\<lambda>i. i = 1 \<or> i \<in> {0}, q), (\<lambda>i. i = 1 \<or> i \<in> {1}, q)] :: ((nat \<Rightarrow> bool) \<times> phase) list"
  have e: "mcr_rotations 2 [0, 1] (mk_phase 1 2) = z_rotations 2 ?L"
    by (simp add: mcr_rotations_def z_rotations_def Let_def p_def q_def numeral_2_eq_2)
  have p: "p = mk_phase 1 4" "q = mk_phase (- 1) 4" unfolding p_def q_def by code_simp+
  have ok: "phase_ok (mk_phase 1 4)" "phase_ok (mk_phase (- 1) 4)" by code_simp+
  have val: "phase_val (mk_phase 1 4) = 1 / 4" "phase_val (mk_phase (- 1) 4) = - (1 / 4)" by code_simp+
  have "\<forall>(on, p) \<in> set ?L. phase_ok p" using ok p by simp
  note op = z_rotations_op [OF this, of 2, folded e]
  show "rots_ok 2 (mcr_rotations 2 [0, 1] (mk_phase 1 2))" using op by (rule conjunct1)
  show "rots_op (mcr_rotations 2 [0, 1] (mk_phase 1 2)) (uniform 2) zero_state = 1"
    using op by (simp add: p val uniform_def zero_state_def dot_def numeral_2_eq_2 turn_def)
  show "rots_op (mcr_rotations 2 [0, 1] (mk_phase 1 2)) (uniform 2) (\<lambda>i. i = 1) = turn (- (1 / 4))"
    using op by (simp add: p val uniform_def zero_state_def dot_def numeral_2_eq_2 bxor_def)
qed

lemma crz_values:
  "gates_sem (qc_gates crz_circuit) (uniform 2) zero_state = 1" "gates_sem (qc_gates crz_circuit) (uniform 2) (\<lambda>i. i = 1) = 1"
  by (auto simp: crz_circuit_def crz_gate_def qc_append_def qcir_new_def controlled_def uniform_def zero_state_def)

lemma quarter_turn: "turn (- (1 / 4)) \<noteq> 1"
proof
  assume "turn (- (1 / 4)) = 1"
  then have "Im (turn (- (1 / 4))) = 0" by simp
  then show False using sin_45 by (simp add: turn_def of_rat_minus of_rat_divide)
qed

theorem controlled_rotation_lost:
  "\<exists>t. to_tableau (\<lambda>_. False) crz_circuit = Some t \<and> \<not> op_eq 2 (subs_op (subtableaux t)) (gates_sem (qc_gates crz_circuit))"
proof -
  let ?Rs = "mcr_rotations 2 [0, 1] (mk_phase 1 2)"
  have "map_option subtableaux (to_tableau (\<lambda>_. False) crz_circuit) = Some [SubST (st_init 2), SubPR ?Rs]" by code_simp
  then obtain t where t: "to_tableau (\<lambda>_. False) crz_circuit = Some t" "subtableaux t = [SubST (st_init 2), SubPR ?Rs]" by auto
  show ?thesis
  proof (intro exI conjI notI)
    show "to_tableau (\<lambda>_. False) crz_circuit = Some t" by (rule t(1))
    assume a: "op_eq 2 (subs_op (subtableaux t)) (gates_sem (qc_gates crz_circuit))"
    have b: "op_eq 2 (\<lambda>v. rots_op ?Rs (subs_op (subtableaux (tableau_new 2)) v)) (\<lambda>v. rots_op ?Rs v)"
      by (rule op_eq_comp [OF op_eq_refl tableau_new_ok(3) space_op_rots [OF crz_rotations(1)]])
        (simp add: space_op_def linear_op_def)
    have "(\<lambda>v. rots_op ?Rs (subs_op (subtableaux (tableau_new 2)) v)) = subs_op (subtableaux t)"
      by (simp add: t(2) tableau_new_def fun_eq_iff)
    from op_eq_trans [OF op_eq_sym [OF b [unfolded this]] a] have "op_eq 2 (rots_op ?Rs) (gates_sem (qc_gates crz_circuit))" .
    then show False
      using not_op_eqI [OF uniform_space [of 2], where F = "rots_op ?Rs" and G = "gates_sem (qc_gates crz_circuit)"
          and b = zero_state and b' = "\<lambda>i. i = 1"] crz_values crz_rotations(2,3) quarter_turn by simp
  qed
qed

end
