(* ===== verification/CliffordToCircuit.thy ===== *)
theory CliffordToCircuit
  imports ConversionCorrect
begin

text \<open>
  The first half of src/src/convert/tableau_to_qcir.cpp: the circuit of a stabilizer tableau and the naive strategy for
  rotations. The program polls \<open>stop_requested()\<close> inside the synthesis and before each gate; the polls are
  numbered through a whole conversion, and every operation returns the number of the next one. \<open>NullOpt\<close> is
  \<open>std::nullopt\<close>; \<open>Undefined\<close> is a failed assertion or a read outside of a vector.
\<close>

section \<open>Circuits of stabilizer tableaux\<close>

definition clifford_gates :: "clifford_op \<Rightarrow> gate list" where
  "clifford_gates x =
     (case x of (ty, a, b) \<Rightarrow>
       (case ty of
          COT_h \<Rightarrow> [(HGate, [a])]
        | COT_s \<Rightarrow> [(SGate, [a])]
        | COT_cx \<Rightarrow> if a \<noteq> b then [(CXGate, [a, b])] else []
        | COT_sdg \<Rightarrow> [(SdgGate, [a])]
        | COT_v \<Rightarrow> [(SXGate, [a])]
        | COT_vdg \<Rightarrow> [(SXdgGate, [a])]
        | COT_x \<Rightarrow> [(XGate, [a])]
        | COT_y \<Rightarrow> [(YGate, [a])]
        | COT_z \<Rightarrow> [(ZGate, [a])]
        | COT_cz \<Rightarrow> [(CZGate, [a, b])]
        | COT_swap \<Rightarrow> [(SwapGate, [a, b])]
        | COT_ecr \<Rightarrow> [(ECRGate, [a, b])]))"

definition add_clifford_gate :: "qcir \<Rightarrow> clifford_op \<Rightarrow> qcir" where
  "add_clifford_gate c x = append_all (clifford_gates x) c"

definition add_clifford_gates :: "clifford_string \<Rightarrow> qcir \<Rightarrow> qcir" where
  "add_clifford_gates ops c = fold (\<lambda>x c. add_clifford_gate c x) ops c"

text \<open>The strategies of src/src/tableau/stabilizer_tableau.hpp, with the number of the next poll.\<close>

datatype st_strategy = AGSynthesis | HOptSynthesis hopt_mode

definition ag_polls :: "(nat \<Rightarrow> bool) \<Rightarrow> nat \<Rightarrow> stabilizer_tableau \<Rightarrow> nat" where
  "ag_polls stop k T = Suc (snd (ag_loop stop k (st_n_qubits T) 0 (T, [])))"

definition st_synthesize :: "(nat \<Rightarrow> bool) \<Rightarrow> st_strategy \<Rightarrow> nat \<Rightarrow> stabilizer_tableau \<Rightarrow> clifford_string \<times> nat" where
  "st_synthesize stop strategy k T =
     (case strategy of
        AGSynthesis \<Rightarrow> (ag_synthesize stop k T, ag_polls stop k T)
      | HOptSynthesis mode \<Rightarrow>
          (hopt_synthesize stop mode k T,
           (case hopt_loop stop mode k (st_n_qubits T) 0 (T, []) of
              ((T', ops), k') \<Rightarrow> if stop k' then Suc k' else ag_polls stop (Suc k') T')))"

fun emit_ops :: "(nat \<Rightarrow> bool) \<Rightarrow> clifford_string \<Rightarrow> nat \<Rightarrow> qcir \<Rightarrow> qcir outcome \<times> nat" where
  "emit_ops stop [] k c = (Result c, k)"
| "emit_ops stop (x # xs) k c = (if stop k then (NullOpt, Suc k) else emit_ops stop xs (Suc k) (add_clifford_gate c x))"

definition clifford_to_qcir :: "(nat \<Rightarrow> bool) \<Rightarrow> st_strategy \<Rightarrow> nat \<Rightarrow> stabilizer_tableau \<Rightarrow> qcir outcome \<times> nat" where
  "clifford_to_qcir stop strategy k T =
     (let (ops, k') = st_synthesize stop strategy k T in emit_ops stop ops k' (qcir_new (st_n_qubits T)))"

section \<open>The naive strategy\<close>

fun naive_rotations :: "pauli_rotation list \<Rightarrow> qcir \<Rightarrow> qcir outcome" where
  "naive_rotations [] c = Result c"
| "naive_rotations (R # rs) c =
     (case rot_extract_clifford_operators R of
        None \<Rightarrow> Undefined
      | Some (ops, qubit) \<Rightarrow>
          naive_rotations rs
            (add_clifford_gates (adjoint_string ops)
              (qc_append (PZGate (rot_phase R)) [qubit] (add_clifford_gates ops c))))"

definition naive_rotation_synthesis :: "pauli_rotation list \<Rightarrow> qcir outcome" where
  "naive_rotation_synthesis rotations =
     (if rotations = [] then Result (qcir_new 0)
      else naive_rotations rotations (qcir_new (rot_n_qubits (hd rotations))))"

definition tpar_rotation_synthesis :: "pauli_rotation list \<Rightarrow> qcir outcome" where
  "tpar_rotation_synthesis rotations = NullOpt"

section \<open>Circuits that follow an operator\<close>

text \<open>\<open>circuit_extends n F c c'\<close>: the gates of \<open>c'\<close> are those of \<open>c\<close> and then some that act as \<open>F\<close>.\<close>

definition extends_by :: "nat \<Rightarrow> (qvec \<Rightarrow> qvec) \<Rightarrow> qcir \<Rightarrow> qcir \<Rightarrow> bool" where
  "extends_by n F c c' \<longleftrightarrow> (\<exists>gs. c' = c\<lparr>qc_gates := qc_gates c @ gs\<rparr> \<and> gates_ok n gs \<and> op_eq n (gates_sem gs) F)"

lemma append_all_gates: "append_all gs c = c\<lparr>qc_gates := qc_gates c @ gs\<rparr>"
  by (induction gs arbitrary: c) (auto simp: append_all_def qc_append_def)

lemma extends_refl [simp]: "extends_by n (\<lambda>v. v) c c"
  by (auto simp: extends_by_def op_eq_def fun_eq_iff intro!: exI [of _ "[]"] exI [of _ "1 :: complex"])

lemma extends_append: "gates_ok n gs \<Longrightarrow> op_eq n (gates_sem gs) F \<Longrightarrow> extends_by n F c (append_all gs c)"
  by (auto simp: extends_by_def append_all_gates)

lemma extends_trans:
  assumes a: "extends_by n F a b" and b: "extends_by n G b c" and G: "space_op n F"
  shows "extends_by n (\<lambda>v. G (F v)) a c"
proof -
  obtain gs where gs: "b = a\<lparr>qc_gates := qc_gates a @ gs\<rparr>" "gates_ok n gs" "op_eq n (gates_sem gs) F"
    using a by (auto simp: extends_by_def)
  obtain hs where hs: "c = b\<lparr>qc_gates := qc_gates b @ hs\<rparr>" "gates_ok n hs" "op_eq n (gates_sem hs) G"
    using b by (auto simp: extends_by_def)
  have "op_eq n (\<lambda>v. gates_sem hs (gates_sem gs v)) (\<lambda>v. G (F v))"
    by (rule op_eq_comp [OF hs(3) gs(3) space_op_gates [OF hs(2)] G])
  moreover have "gates_sem (gs @ hs) = (\<lambda>v. gates_sem hs (gates_sem gs v))" by (rule ext) simp
  ultimately show ?thesis using gs hs by (auto simp: extends_by_def intro!: exI [of _ "gs @ hs"])
qed

lemma extends_op_eq: "extends_by n F c c' \<Longrightarrow> op_eq n F G \<Longrightarrow> extends_by n G c c'"
  unfolding extends_by_def using op_eq_trans by blast

lemma extends_gate:
  assumes "gate_ok n (op, qs)" "op_eq n (op_sem op qs) F"
  shows "extends_by n F c (qc_append op qs c)"
proof -
  have "gates_sem [(op, qs)] = op_sem op qs" by (rule ext) simp
  then show ?thesis
    using extends_append [of n "[(op, qs)]" F c] assms by (simp add: append_all_def)
qed

lemma op_eqI: "c \<noteq> 0 \<Longrightarrow> (\<And>v. F v = vscale c (G v)) \<Longrightarrow> op_eq n F G"
  unfolding op_eq_def by blast

lemma clifford_gates_spec:
  assumes x: "op_ok n x"
  shows "gates_ok n (clifford_gates x)" "op_eq n (gates_sem (clifford_gates x)) (trait_apply q_trait x)"
proof -
  obtain ty a b where e: "x = (ty, a, b)" by (cases x)
  note p = phase_of_int_ok(1) [of 1] mk_phase_ok(1) [of 2 1] mk_phase_ok(1) [of 2 "- 1"]
  show "gates_ok n (clifford_gates x)"
    using x p by (cases ty) (auto simp: e clifford_gates_def gate_ok_def on_qubits_def)
  have nz: "complex_of_real (sqrt 2) * (1 + \<i>) / 2 \<noteq> 0" by (simp add: complex_eq_iff)
  have "op_eq n (trait_apply q_trait x) (gates_sem (clifford_gates x))"
  proof (cases "ty = COT_y \<or> ty = COT_ecr")
    case False
    then have "gates_sem (clifford_gates x) v = trait_apply q_trait x v" for v
      using x by (cases ty) (simp_all add: e clifford_gates_def phase_factors trait_single trait_swap_q trait_cz_controlled q_cx_controlled)
    then show ?thesis by (intro op_eqI [of 1]) simp_all
  next
    case True
    then show ?thesis
    proof
      assume ty: "ty = COT_y"
      show ?thesis
        by (rule op_eqI [of \<i>]) (simp_all add: ty e clifford_gates_def phase_factors trait_y_single)
    next
      assume ty: "ty = COT_ecr"
      show ?thesis
        by (rule op_eqI [OF nz]) (use x in \<open>simp add: ty e clifford_gates_def trait_ecr_q\<close>)
    qed
  qed
  then show "op_eq n (gates_sem (clifford_gates x)) (trait_apply q_trait x)" by (rule op_eq_sym)
qed

lemma add_clifford_gates_extends:
  "string_ok n ops \<Longrightarrow> extends_by n (trait_apply_string q_trait ops) c (add_clifford_gates ops c)"
proof (induction ops arbitrary: c)
  case Nil
  have "trait_apply_string q_trait [] = (\<lambda>v. v)" by (rule ext) simp
  then show ?case by (simp add: add_clifford_gates_def)
next
  case (Cons x ops)
  have "extends_by n (trait_apply q_trait x) c (add_clifford_gate c x)"
    using Cons.prems by (auto simp: add_clifford_gate_def intro!: extends_append clifford_gates_spec)
  moreover have "extends_by n (trait_apply_string q_trait ops) (add_clifford_gate c x) (add_clifford_gates ops (add_clifford_gate c x))"
    using Cons by simp
  moreover have "space_op n (trait_apply q_trait x)" using space_op_string [of n "[x]"] Cons.prems by simp
  ultimately have "extends_by n (\<lambda>v. trait_apply_string q_trait ops (trait_apply q_trait x v)) c (add_clifford_gates ops (add_clifford_gate c x))"
    by (rule extends_trans)
  moreover have "trait_apply_string q_trait (x # ops) = (\<lambda>v. trait_apply_string q_trait ops (trait_apply q_trait x v))" by (rule ext) simp
  ultimately show ?case by (simp add: add_clifford_gates_def)
qed

section \<open>Correctness\<close>

lemma st_synthesize_spec:
  assumes T: "st_ok n T" and stop: "\<And>i. \<not> stop i"
  shows "string_ok n (fst (st_synthesize stop strategy k T))"
    "op_eq n (trait_apply_string q_trait (fst (st_synthesize stop strategy k T))) (st_op T)"
proof -
  let ?ops = "fst (st_synthesize stop strategy k T)"
  have s: "string_ok n ?ops" "trait_apply_string st_trait ?ops (st_init n) = T"
    using ag_synthesize_linked [OF T, of stop k] hopt_synthesize_linked [OF T, of stop _ k] stop
    by (auto simp: st_synthesize_def split: st_strategy.splits)
  show "string_ok n ?ops" by (rule s(1))
  show "op_eq n (trait_apply_string q_trait ?ops) (st_op T)" using op_eq_sym [OF st_op_circuit [OF s(1)]] s(2) by simp
qed

lemma emit_ops_spec: "(\<And>i. \<not> stop i) \<Longrightarrow> emit_ops stop ops k c = (Result (add_clifford_gates ops c), k + length ops)"
  by (induction ops arbitrary: k c) (simp_all add: add_clifford_gates_def)

theorem clifford_to_qcir_spec:
  assumes T: "st_ok n T" and stop: "\<And>i. \<not> stop i"
  shows "\<exists>c k'. clifford_to_qcir stop strategy k T = (Result c, k') \<and> extends_by n (st_op T) (qcir_new n) c"
proof -
  obtain ops k' where s: "st_synthesize stop strategy k T = (ops, k')" by (cases "st_synthesize stop strategy k T")
  note p = st_synthesize_spec [OF T, of stop strategy k, OF stop, unfolded s fst_conv]
  have "extends_by n (st_op T) (qcir_new n) (add_clifford_gates ops (qcir_new n))"
    by (rule extends_op_eq [OF add_clifford_gates_extends [OF p(1)] p(2)])
  moreover have "st_n_qubits T = n" using st_ok_wf [OF T] by simp
  ultimately show ?thesis using stop by (simp add: clifford_to_qcir_def s emit_ops_spec)
qed

text \<open>A rotation between the circuit of its basis change and the adjoint of that.\<close>

lemma q_rot_pz: "q < n \<Longrightarrow> q_rot (z_gen n q) (phase_angle p) v = q_pz (phase_factor p) q v"
  by (auto simp: q_rot_def q_pz_def vplus_def vscale_def q_pauli_z_gen fun_eq_iff phase_factor_def field_simps)

lemma naive_rotation_op:
  assumes R: "rot_ok n R" and e: "rot_extract_clifford_operators R = Some (ops, q)"
  shows "op_eq n (\<lambda>v. trait_apply_string q_trait (adjoint_string ops) (q_pz (phase_factor (rot_phase R)) q (trait_apply_string q_trait ops v))) (rot_op R)"
proof -
  note x = rot_extract_spec(2) [OF R e]
  have ops: "string_ok n ops" "string_ok n (adjoint_string ops)" and q: "q < n" using x by simp_all
  let ?F = "trait_apply_string q_trait ops" and ?G = "trait_apply_string q_trait (adjoint_string ops)"
  let ?Z = "q_pz (phase_factor (rot_phase R)) q"
  have Z: "rot_op (trait_apply_string rot_trait ops R) = ?Z" using x q by (simp add: rot_op_def q_rot_pz fun_eq_iff)
  have sp: "space_op n ?F" "space_op n ?G" "space_op n (rot_op R)" using ops R by auto
  have "op_eq n (\<lambda>v. ?F (rot_op R v)) (\<lambda>v. ?Z (?F v))"
    using string_through_rotation [OF ops(1) R] by (simp add: Z)
  then have "op_eq n (\<lambda>v. ?G (?F (rot_op R v))) (\<lambda>v. ?G (?Z (?F v)))"
  proof (rule op_eq_comp [OF op_eq_refl _ sp(2)])
    have "space_op n ?Z" by (rule space_op_local [OF linear_ops(1) acts_on_gates(3)]) (use q in simp)
    then show "space_op n (\<lambda>v. ?Z (?F v))" by (rule space_op_comp [OF _ sp(1)])
  qed
  moreover have "op_eq n (\<lambda>v. ?G (?F (rot_op R v))) (\<lambda>v. rot_op R v)"
    by (rule op_eq_comp [OF adjoint_circuit [OF ops(1)] op_eq_refl space_op_comp [OF sp(2,1)] sp(3)])
  ultimately show ?thesis using op_eq_sym op_eq_trans by blast
qed

lemma naive_rotations_spec:
  assumes "rots_ok n rs" "reducible rs"
  shows "\<exists>c'. naive_rotations rs c = Result c' \<and> extends_by n (rots_op rs) c c'"
  using assms
proof (induction rs arbitrary: c)
  case Nil
  have "rots_op [] = (\<lambda>v. v)" by (rule ext) simp
  then show ?case by simp
next
  case (Cons R rs)
  have R: "rot_ok n R" "rots_ok n rs" "reducible rs" "\<not> is_identity (rot_product R)" using Cons.prems by auto
  obtain ops q where e: "rot_extract_clifford_operators R = Some (ops, q)"
    using rot_extract_spec(1) [OF R(1)] R(4) by (cases "rot_extract_clifford_operators R") auto
  note x = rot_extract_spec(2) [OF R(1) e]
  have ops: "string_ok n ops" "string_ok n (adjoint_string ops)" and q: "q < n" using x by simp_all
  let ?F = "trait_apply_string q_trait ops" and ?G = "trait_apply_string q_trait (adjoint_string ops)"
  let ?Z = "q_pz (phase_factor (rot_phase R)) q"
  let ?c1 = "add_clifford_gates ops c" let ?c2 = "qc_append (PZGate (rot_phase R)) [q] ?c1"
  let ?c3 = "add_clifford_gates (adjoint_string ops) ?c2"
  have g: "gate_ok n (PZGate (rot_phase R), [q])" using q rot_okD(3) [OF R(1)] by (simp add: gate_ok_def on_qubits_def)
  have "op_sem (PZGate (rot_phase R)) [q] = ?Z" by (rule ext) simp
  then have c2: "extends_by n ?Z ?c1 ?c2" using extends_gate [OF g] by simp
  have sp: "space_op n ?F" "space_op n ?Z"
    using ops by (auto intro!: space_op_local [OF linear_ops(1) acts_on_gates(3)] simp: q)
  have "extends_by n (\<lambda>v. ?G (?Z (?F v))) c ?c3"
    by (rule extends_trans [OF extends_trans [OF add_clifford_gates_extends [OF ops(1)] c2 sp(1)]
          add_clifford_gates_extends [OF ops(2)] space_op_comp [OF sp(2,1)]])
  then have c3: "extends_by n (rot_op R) c ?c3" by (rule extends_op_eq [OF _ naive_rotation_op [OF R(1) e]])
  obtain c' where c': "naive_rotations rs ?c3 = Result c'" "extends_by n (rots_op rs) ?c3 c'"
    using Cons.IH [OF R(2,3), of ?c3] by blast
  have "extends_by n (\<lambda>v. rots_op rs (rot_op R v)) c c'"
    by (rule extends_trans [OF c3 c'(2) space_op_rot [OF R(1)]])
  moreover have "rots_op (R # rs) = (\<lambda>v. rots_op rs (rot_op R v))" by (rule ext) simp
  ultimately show ?case using c'(1) by (simp add: e)
qed

theorem naive_rotation_synthesis_spec:
  assumes rs: "rots_ok n rs" "reducible rs" "rs \<noteq> []"
  shows "\<exists>c. naive_rotation_synthesis rs = Result c \<and> extends_by n (rots_op rs) (qcir_new n) c"
proof -
  have "rot_n_qubits (hd rs) = n" using rs(1,3) by (cases rs) (auto simp: rot_ok_def pp_ok_def rot_n_qubits_def)
  then show ?thesis using naive_rotations_spec [OF rs(1,2), of "qcir_new n"] rs(3) by (simp add: naive_rotation_synthesis_def)
qed

text \<open>The circuit of an identity rotation has no qubit for its phase gate.\<close>

lemma naive_identity_undefined: "is_identity (rot_product R) \<Longrightarrow> rot_ok n R \<Longrightarrow> naive_rotation_synthesis [R] = Undefined"
  using rot_extract_spec(1) [of n R] by (simp add: naive_rotation_synthesis_def)

end
