(* ===== verification/ParityNetworks.thy ===== *)
theory ParityNetworks
  imports CliffordToCircuit
begin

text \<open>
  What the strategies for diagonal rotations of src/src/convert/tableau_to_qcir.cpp share (\<open>apply_cx\<close> and \<open>add_cx\<close>): they emit CX
  gates and phase gates, move the CX gates through the rotations that are left, and collect in a tableau the
  circuit that undoes the CX gates. The invariant of such a state is stated once, with what a finished one computes.
\<close>

section \<open>The state\<close>

record network =
  net_rotations :: "pauli_rotation list"
  net_circuit :: qcir
  net_clifford :: stabilizer_tableau

definition network_init :: "nat \<Rightarrow> pauli_rotation list \<Rightarrow> network" where
  "network_init n rotations = \<lparr>net_rotations = rotations, net_circuit = qcir_new n, net_clifford = st_init n\<rparr>"

definition network_cx :: "(pauli_rotation list \<Rightarrow> pauli_rotation list) \<Rightarrow> nat \<Rightarrow> nat \<Rightarrow> network \<Rightarrow> network" where
  "network_cx through ctrl targ s =
     s\<lparr>net_rotations := through (net_rotations s),
       net_circuit := qc_append CXGate [ctrl, targ] (net_circuit s),
       net_clifford := prepend_cx ctrl targ (net_clifford s)\<rparr>"

definition network_rz :: "phase \<Rightarrow> nat \<Rightarrow> network \<Rightarrow> network" where
  "network_rz ph q s = s\<lparr>net_circuit := qc_append (PZGate ph) [q] (net_circuit s)\<rparr>"

text \<open>The end: the circuit of the collected tableau, composed to the gates.\<close>

definition finish_network :: "(nat \<Rightarrow> bool) \<Rightarrow> nat \<Rightarrow> network \<Rightarrow> qcir outcome \<times> nat" where
  "finish_network stop k s =
     (case clifford_to_qcir stop AGSynthesis k (net_clifford s) of
        (Result c, k') \<Rightarrow> (Result (qc_compose (net_circuit s) c), k')
      | (r, k') \<Rightarrow> (r, k'))"

section \<open>Gates and phase operations\<close>

definition phase_gate :: "phase_op \<Rightarrow> gate" where
  "phase_gate op = (if is_cx op then (CXGate, [op_control op, op_target op]) else (PZGate (op_phase op), [op_qubit op]))"

lemma phase_gate_simps [simp]: "phase_gate (make_cx c t) = (CXGate, [c, t])" "phase_gate (make_rz q ph) = (PZGate ph, [q])"
  by (simp_all add: phase_gate_def make_cx_def make_rz_def is_cx_def op_qubit_def)

lemma phase_gate_ok: "phase_op_ok n op \<Longrightarrow> gate_ok n (phase_gate op)"
  using phase_of_int_ok(1) [of 1] by (auto simp: phase_op_ok_def phase_gate_def gate_ok_def on_qubits_def op_qubit_def split: if_splits)

lemma phase_gates_ok: "list_all (phase_op_ok n) ops \<Longrightarrow> gates_ok n (map phase_gate ops)"
  by (auto simp: gates_ok_def list_all_iff phase_gate_ok)

lemma phase_gate_op: "phase_op_ok n op \<Longrightarrow> op_sem (fst (phase_gate op)) (snd (phase_gate op)) v = phase_op_op op v"
proof (cases "is_cx op")
  case True
  then show "phase_op_ok n op \<Longrightarrow> ?thesis"
    by (simp add: phase_op_ok_def phase_gate_def phase_op_op_def phase_factors q_cx_controlled)
next
  case False
  then show ?thesis by (simp add: phase_gate_def phase_op_op_def op_qubit_def q_pz_def phase_factor_def fun_eq_iff)
qed

lemma phase_gates_op: "list_all (phase_op_ok n) ops \<Longrightarrow> gates_sem (map phase_gate ops) v = phase_ops_op ops v"
  by (induction ops arbitrary: v) (simp_all add: phase_ops_op_def phase_gate_op [of n])

section \<open>The circuit that undoes the CX gates\<close>

definition undo_string :: "phase_op list \<Rightarrow> clifford_string" where
  "undo_string ops = rev (map (\<lambda>op. (COT_cx, op_control op, op_target op)) (filter is_cx ops))"

lemma undo_string_simps [simp]: "undo_string [] = []" "undo_string (ops @ [make_cx c t]) = (COT_cx, c, t) # undo_string ops"
  "undo_string (ops @ [make_rz q ph]) = undo_string ops"
  by (simp_all add: undo_string_def make_cx_def is_cx_def make_rz_def)

lemma undo_string_ok: "list_all (phase_op_ok n) ops \<Longrightarrow> string_ok n (undo_string ops)"
  by (auto simp: undo_string_def string_ok_def list_all_iff phase_op_ok_def)

lemma undo_string_op: "list_all (phase_op_ok n) ops \<Longrightarrow> trait_apply_string q_trait (undo_string ops) w b = w (ops_bits ops b)"
proof (induction ops arbitrary: w b rule: rev_induct)
  case (snoc op ops)
  have e: "undo_string (ops @ [op]) = (if is_cx op then [(COT_cx, op_control op, op_target op)] else []) @ undo_string ops"
    by (simp add: undo_string_def)
  show ?case
    using snoc by (simp add: e op_bits_def q_cx_def phase_op_ok_def)
qed (simp add: undo_string_def)

section \<open>The invariant\<close>

text \<open>The gates are \<open>ops\<close>; the rotation at \<open>i\<close> is, unless it is done, the original one seen behind them.\<close>

definition parity_at :: "nat \<Rightarrow> pauli_rotation \<Rightarrow> qstate \<Rightarrow> bool" where
  "parity_at n R b = dot n (is_z (rot_product R)) b"

lemma parity_at_rotation: "dot n (test (rotation_parity n R)) b = parity_at n R b"
  unfolding parity_at_def by (rule dot_cong) (simp_all add: rotation_parity_def bit_at_def)

definition carries :: "nat \<Rightarrow> phase_op list \<Rightarrow> pauli_rotation \<Rightarrow> pauli_rotation \<Rightarrow> bool" where
  "carries n ops R S \<longleftrightarrow> rot_ok n S \<and> rot_is_diagonal S \<and> rot_phase S = rot_phase R \<and>
     (\<forall>b. parity_at n S (ops_bits ops b) = parity_at n R b)"

definition net_gates :: "nat \<Rightarrow> phase_op list \<Rightarrow> network \<Rightarrow> bool" where
  "net_gates n ops s \<longleftrightarrow> list_all (phase_op_ok n) ops \<and>
     net_circuit s = (qcir_new n)\<lparr>qc_gates := map phase_gate ops\<rparr> \<and>
     net_clifford s = trait_apply_string st_trait (undo_string ops) (st_init n)"

lemma net_gates_init: "net_gates n [] (network_init n rs)"
  by (simp add: net_gates_def network_init_def qcir_new_def)

lemma net_gates_cx:
  assumes s: "net_gates n ops s" and ct: "c < n" "t < n" "t \<noteq> c"
  shows "net_gates n (ops @ [make_cx c t]) (network_cx f c t s)"
proof -
  have ops: "list_all (phase_op_ok n) ops" using s by (simp add: net_gates_def)
  have "prepend_cx c t (net_clifford s) = trait_apply_string st_trait ((COT_cx, c, t) # undo_string ops) (st_init n)"
    using st_prepend_circuit [OF _ undo_string_ok [OF ops], of "(COT_cx, c, t)"] ct s by (simp add: net_gates_def)
  then show ?thesis using s ct by (simp add: net_gates_def network_cx_def qc_append_def)
qed

lemma net_gates_rz: "net_gates n ops s \<Longrightarrow> q < n \<Longrightarrow> phase_ok ph \<Longrightarrow> net_gates n (ops @ [make_rz q ph]) (network_rz ph q s)"
  by (simp add: net_gates_def network_rz_def qc_append_def)

lemma carries_refl: "rot_ok n R \<Longrightarrow> rot_is_diagonal R \<Longrightarrow> carries n [] R R"
  by (simp add: carries_def)

lemma carries_rz: "carries n ops R S \<Longrightarrow> carries n (ops @ [make_rz q ph]) R S"
  by (simp add: carries_def)

text \<open>A CX gate on a diagonal rotation adds the row of the target to that of the control.\<close>

lemma rot_cx_diagonal:
  assumes R: "rot_ok n R" "rot_is_diagonal R" and ct: "c < n" "t < n" "t \<noteq> c"
  shows "rot_ok n (rot_cx c t R)" "rot_is_diagonal (rot_cx c t R)" "rot_phase (rot_cx c t R) = rot_phase R"
    "q < n \<Longrightarrow> is_z (rot_product (rot_cx c t R)) q = (if q = c then is_z (rot_product R) c \<noteq> is_z (rot_product R) t else is_z (rot_product R) q)"
proof -
  let ?P = "rot_product R"
  have P: "pp_ok n ?P" "pp_wf ?P" "pp_n_qubits ?P = n" "\<not> is_neg ?P" using rot_okD [OF R(1)] by (auto simp: pp_okD)
  have x: "\<not> is_x_set ?P i" if "i < n" for i using R(2) P(1) that by (simp add: rot_is_diagonal_def diag_iff)
  have neg: "\<not> is_neg (pp_cx c t ?P)" using P x ct by (simp add: bit_simps)
  have e: "rot_product (rot_cx c t R) = pp_cx c t ?P" "rot_phase (rot_cx c t R) = rot_phase R"
    using neg by (simp_all add: rot_cx_def rot_normalize_def)
  have ok: "pp_ok n (pp_cx c t ?P)" by (rule homD(1) [OF hom_generators(3) P(1)]) (use ct in simp)
  have x': "\<not> is_x_set (pp_cx c t ?P) i" if "i < n" for i using P x ct that by (simp add: bit_simps bxor_def)
  show "rot_ok n (rot_cx c t R)" using ok neg rot_okD(3) [OF R(1)] by (simp add: rot_ok_def e)
  show "rot_is_diagonal (rot_cx c t R)" using x' ok by (simp add: rot_is_diagonal_def e diag_iff)
  show "rot_phase (rot_cx c t R) = rot_phase R" by (rule e(2))
  show "q < n \<Longrightarrow> is_z (rot_product (rot_cx c t R)) q = (if q = c then is_z ?P c \<noteq> is_z ?P t else is_z ?P q)"
    using P x x' ct by (auto simp: e is_z_def bit_simps bxor_def)
qed

lemma carries_cx:
  assumes S: "carries n ops R S" and ops: "list_all (phase_op_ok n) ops" and ct: "c < n" "t < n" "t \<noteq> c"
  shows "carries n (ops @ [make_cx c t]) R (rot_cx c t S)"
proof -
  have s: "rot_ok n S" "rot_is_diagonal S" using S by (simp_all add: carries_def)
  note r = rot_cx_diagonal [OF s ct]
  have "parity_at n (rot_cx c t S) (cx_state c t b) = parity_at n S b" for b
  proof -
    let ?f = "\<lambda>q (_ :: nat). is_z (rot_product S) q"
    have "parity_at n (rot_cx c t S) (cx_state c t b) = dot n (\<lambda>q. row_add t c ?f q 0) (cx_state c t b)"
      unfolding parity_at_def by (rule dot_cong) (use r(4) in \<open>auto simp: row_add_def bxor_def\<close>)
    also have "\<dots> = parity_at n S b"
      unfolding parity_at_def using ct by (subst dot_cnot) auto
    finally show ?thesis .
  qed
  then show ?thesis using S r by (simp add: carries_def)
qed

section \<open>Finished networks\<close>

definition rots_turn :: "nat \<Rightarrow> pauli_rotation list \<Rightarrow> qstate \<Rightarrow> rat" where
  "rots_turn n rs b = (\<Sum>R \<leftarrow> rs. if parity_at n R b then phase_val (rot_phase R) else 0)"

lemma rots_op_rots_turn: "rots_ok n rs \<Longrightarrow> diag_rotations rs \<Longrightarrow> rots_op rs v b = turn (rots_turn n rs b) * v b"
proof (induction rs arbitrary: v)
  case Nil
  then show ?case by (simp add: rots_turn_def turn_def)
next
  case (Cons R rs)
  then show ?case
    using rot_op_turn [of n R v b] by (simp add: rots_turn_def diag_rotations_def turn_add parity_at_rotation)
qed

lemma qc_compose_gates: "qc_qubits c' \<le> qc_qubits c \<Longrightarrow> qc_compose c c' = append_all (qc_gates c') c"
  by (simp add: qc_compose_def append_all_def)

theorem finish_network_spec:
  assumes s: "net_gates n ops s" and turn: "\<And>b. ops_turn ops b = rots_turn n rs b"
    and rs: "rots_ok n rs" "diag_rotations rs" and stop: "\<And>i. \<not> stop i"
  shows "\<exists>c k'. finish_network stop k s = (Result c, k') \<and> extends_by n (rots_op rs) (qcir_new n) c"
proof -
  let ?T = "net_clifford s"
  have ops: "list_all (phase_op_ok n) ops" using s by (simp add: net_gates_def)
  note u = undo_string_ok [OF ops]
  have T: "st_ok n ?T" and st: "op_eq n (st_op ?T) (trait_apply_string q_trait (undo_string ops))"
    using s st_apply_string_ok [OF st_init_ok u] st_op_circuit [OF u] by (simp_all add: net_gates_def)
  obtain c k' where c: "clifford_to_qcir stop AGSynthesis k ?T = (Result c, k')" "extends_by n (st_op ?T) (qcir_new n) c"
    using clifford_to_qcir_spec [OF T, of stop AGSynthesis k, OF stop] by blast
  have g: "extends_by n (phase_ops_op ops) (qcir_new n) (net_circuit s)"
    using s phase_gates_ok [OF ops] phase_gates_op [OF ops]
    by (auto simp: net_gates_def extends_by_def qcir_new_def op_eq_def intro: exI [of _ "1 :: complex"])
  have sp: "space_op n (phase_ops_op ops)"
    using space_op_gates [OF phase_gates_ok [OF ops]] phase_gates_op [OF ops] by (simp add: space_op_def linear_op_def)
  have "extends_by n (st_op ?T) (net_circuit s) (qc_compose (net_circuit s) c)"
    using c(2) s by (auto simp: extends_by_def net_gates_def qcir_new_def qc_compose_gates append_all_gates)
  then have "extends_by n (\<lambda>v. st_op ?T (phase_ops_op ops v)) (qcir_new n) (qc_compose (net_circuit s) c)"
    by (rule extends_trans [OF g _ sp])
  moreover have "op_eq n (\<lambda>v. st_op ?T (phase_ops_op ops v)) (\<lambda>v. trait_apply_string q_trait (undo_string ops) (phase_ops_op ops v))"
    by (rule op_eq_comp [OF st op_eq_refl space_op_st [OF T] sp])
  moreover have "trait_apply_string q_trait (undo_string ops) (phase_ops_op ops v) b = rots_op rs v b" for v b
    by (simp add: undo_string_op [OF ops] phase_ops_basis [OF ops] turn rots_op_rots_turn [OF rs])
  then have "(\<lambda>v. trait_apply_string q_trait (undo_string ops) (phase_ops_op ops v)) = rots_op rs" by (intro ext)
  ultimately have "extends_by n (rots_op rs) (qcir_new n) (qc_compose (net_circuit s) c)" using extends_op_eq by metis
  then show ?thesis using c(1) by (simp add: finish_network_def)
qed

end
