(* ===== verification/GraySynth.thy ===== *)
theory GraySynth
  imports ParityNetworks
begin

text \<open>
  \<open>GraySynthPauliRotationsSynthesisStrategy\<close> of src/src/convert/tableau_to_qcir.cpp. The strategy splits the rotations by the rows of
  their Z bits and gathers the parity of each group on one target qubit. The order of the qubits that the code draws
  with a static generator is an argument; the target \<open>SIZE_MAX\<close> is \<open>None\<close>. A failed assertion is \<open>Undefined\<close>, so is the
  read of the front of an empty vector.
\<close>

section \<open>The strategy\<close>

datatype gray_mode = GrayStar | GrayStaircase

definition z_at :: "pauli_rotation list \<Rightarrow> nat \<Rightarrow> nat \<Rightarrow> bool" where
  "z_at rs x i = is_z_set (rot_product (rs ! x)) i"

definition get_control_rows :: "pauli_rotation list \<Rightarrow> nat list \<Rightarrow> nat \<Rightarrow> nat list" where
  "get_control_rows rs rotation_filter pivot =
     filter (\<lambda>i. i \<noteq> pivot \<and> list_all (\<lambda>x. z_at rs x i) rotation_filter) [0..<rot_n_qubits (hd rs)]"

definition gray_cx :: "nat list \<Rightarrow> nat \<Rightarrow> nat \<Rightarrow> network \<Rightarrow> network" where
  "gray_cx frozen ctrl targ s =
     (if ctrl = targ then s
      else network_cx (\<lambda>rs. map (\<lambda>(i, R). if i \<in> set frozen then R else rot_cx ctrl targ R) (enumerate 0 rs)) ctrl targ s)"

definition apply_cxs :: "gray_mode \<Rightarrow> nat list \<Rightarrow> nat list \<Rightarrow> nat list \<Rightarrow> nat \<Rightarrow> network \<Rightarrow> network" where
  "apply_cxs mode order frozen ctrls targ s =
     (case mode of
        GrayStar \<Rightarrow> fold (\<lambda>ctrl. gray_cx frozen ctrl targ) ctrls s
      | GrayStaircase \<Rightarrow>
          (let cs = sort_key (\<lambda>x. order ! x) ctrls;
               s1 = fold (\<lambda>(c, t). gray_cx frozen c t) (zip cs (tl cs)) s
           in if cs \<noteq> [] then gray_cx frozen (last cs) targ s1 else s1))"

text \<open>\<open>minmax_element\<close> gives the first of the least and the last of the greatest elements.\<close>

definition first_least :: "nat list \<Rightarrow> nat" where
  "first_least counts = length (takeWhile (\<lambda>c. c \<noteq> Min (set counts)) counts)"

definition last_greatest :: "nat list \<Rightarrow> nat" where
  "last_greatest counts = length counts - 1 - length (takeWhile (\<lambda>c. c \<noteq> Max (set counts)) (rev counts))"

definition get_cofactor_row :: "pauli_rotation list \<Rightarrow> nat list \<Rightarrow> nat list \<Rightarrow> nat" where
  "get_cofactor_row rs rotation_filter qubit_filter =
     (let counts = map (\<lambda>q. length (filter (\<lambda>x. z_at rs x q) rotation_filter)) qubit_filter;
          most_ones = last_greatest counts; most_zeros = first_least counts
      in if length rotation_filter - counts ! most_zeros \<le> counts ! most_ones then qubit_filter ! most_ones
         else qubit_filter ! most_zeros)"

definition filter_out_number :: "nat list \<Rightarrow> nat \<Rightarrow> nat list" where
  "filter_out_number vec num = filter (\<lambda>x. x \<noteq> num) vec"

fun freeze_all :: "nat option \<Rightarrow> nat list \<Rightarrow> nat list \<Rightarrow> network \<Rightarrow> (nat list \<times> network) option" where
  "freeze_all targ [] frozen s = Some (frozen, s)"
| "freeze_all targ (x # xs) frozen s =
     (if x \<in> set frozen then freeze_all targ xs frozen s
      else (case targ of
              None \<Rightarrow> None
            | Some t \<Rightarrow> freeze_all targ xs (x # frozen) (network_rz (rot_phase (net_rotations s ! x)) t s)))"

type_synonym gray_stack = "(nat list \<times> nat list \<times> nat option) list"

lemma extremes_in_range:
  assumes "xs \<noteq> []"
  shows "first_least xs < length xs" "last_greatest xs < length xs"
proof -
  have "takeWhile (\<lambda>c. c \<noteq> Min (set xs)) xs \<noteq> xs" using assms Min_in [of "set xs"] by (auto simp: takeWhile_eq_all_conv)
  then have "length (takeWhile (\<lambda>c. c \<noteq> Min (set xs)) xs) < length xs"
    by (metis append_take_drop_id length_takeWhile_le linorder_le_less_linear nless_le takeWhile_eq_take take_all)
  then show "first_least xs < length xs" by (simp add: first_least_def)
  show "last_greatest xs < length xs" using assms by (simp add: last_greatest_def)
qed

lemma cofactor_row_in: "qs \<noteq> [] \<Longrightarrow> get_cofactor_row rs xs qs \<in> set qs"
  using extremes_in_range [of "map (\<lambda>q. length (filter (\<lambda>x. z_at rs x q) xs)) qs"]
  by (simp add: get_cofactor_row_def Let_def)

function gray_loop :: "gray_mode \<Rightarrow> nat list \<Rightarrow> gray_stack \<Rightarrow> nat list \<Rightarrow> network \<Rightarrow> network option" where
  "gray_loop mode order [] frozen s = Some s"
| "gray_loop mode order ((rotation_filter, qubit_filter, targ) # stack) frozen s =
     (if rotation_filter = [] then gray_loop mode order stack frozen s
      else (let s1 = (case targ of
                        None \<Rightarrow> s
                      | Some t \<Rightarrow> apply_cxs mode order frozen (get_control_rows (net_rotations s) rotation_filter t) t s)
            in if qubit_filter = []
               then (case freeze_all targ rotation_filter frozen s1 of
                       None \<Rightarrow> None
                     | Some (frozen', s2) \<Rightarrow> gray_loop mode order stack frozen' s2)
               else (let row_id = get_cofactor_row (net_rotations s1) rotation_filter qubit_filter;
                         zero_rotations = filter (\<lambda>x. \<not> z_at (net_rotations s1) x row_id) rotation_filter;
                         one_rotations = filter (\<lambda>x. z_at (net_rotations s1) x row_id) rotation_filter;
                         rest = filter_out_number qubit_filter row_id
                     in gray_loop mode order
                          ((one_rotations, rest, if targ = None then Some row_id else targ) # (zero_rotations, rest, targ) # stack)
                          frozen s1)))"
  by pat_completeness auto
termination
proof (relation "measure (\<lambda>(mode, order, stack, frozen, s). \<Sum>(F, Q, t) \<leftarrow> stack. 3 ^ length Q)", goal_cases)
  case (4 mode order F Q targ stack frozen s s1 row zero one rest)
  have "length (filter (\<lambda>x. x \<noteq> row) Q) < length Q"
    by (rule length_filter_less [of row]) (use 4 cofactor_row_in [of Q] in auto)
  then have "length rest < length Q" using 4 by (simp add: filter_out_number_def)
  then obtain k where k: "length Q = Suc (length rest + k)" using less_imp_Suc_add by blast
  have "(3 :: nat) ^ length rest \<le> 3 ^ (length rest + k)" "(0 :: nat) < 3 ^ (length rest + k)" by simp_all
  then have "(3 :: nat) ^ length rest + 3 ^ length rest < 3 * 3 ^ (length rest + k)" by linarith
  then show ?case by (simp add: k)
qed auto

declare gray_loop.simps(2) [simp del]

definition gray_synthesize :: "(nat \<Rightarrow> bool) \<Rightarrow> gray_mode \<Rightarrow> nat list \<Rightarrow> nat \<Rightarrow> pauli_rotation list \<Rightarrow> qcir outcome \<times> nat" where
  "gray_synthesize stop mode order k rotations =
     (if rotations = [] then (Undefined, k)
      else (let num_qubits = rot_n_qubits (hd rotations) in
            if num_qubits = 0 then (Result (qcir_new 0), k)
            else if \<not> list_all rot_is_diagonal rotations then (NullOpt, k)
            else (case gray_loop mode order [([0..<length rotations], [0..<num_qubits], None)] [] (network_init num_qubits rotations) of
                    None \<Rightarrow> (Undefined, k)
                  | Some s \<Rightarrow> finish_network stop k s)))"

section \<open>What the loop keeps\<close>

text \<open>The rows of the rotations that are left, as a matrix by rotation and qubit. A CX gate changes one row.\<close>

type_synonym z_matrix = "nat \<Rightarrow> nat \<Rightarrow> bool"

definition z_cx :: "nat \<Rightarrow> nat \<Rightarrow> z_matrix \<Rightarrow> z_matrix" where
  "z_cx c t Z = (\<lambda>x i. if i = c then Z x c \<noteq> Z x t else Z x i)"

text \<open>A group with a target: its row is full, and any other split row is determined by the rows that are not
  split and come later in the order. A group without a target has only rows that are not split.\<close>

definition active :: "nat \<Rightarrow> nat list \<Rightarrow> z_matrix \<Rightarrow> nat \<Rightarrow> nat list \<times> nat list \<Rightarrow> bool" where
  "active n order Z t g \<longleftrightarrow> t \<notin> set (snd g) \<and> set (snd g) \<subseteq> {..<n} \<and> (\<forall>x \<in> set (fst g). Z x t) \<and>
     (\<forall>i x y. i < n \<longrightarrow> i \<notin> set (snd g) \<longrightarrow> i \<noteq> t \<longrightarrow> x \<in> set (fst g) \<longrightarrow> y \<in> set (fst g) \<longrightarrow>
       (\<forall>j \<in> set (snd g). order ! i < order ! j \<longrightarrow> Z x j = Z y j) \<longrightarrow> Z x i = Z y i)"

definition idle :: "nat \<Rightarrow> z_matrix \<Rightarrow> nat list \<times> nat list \<Rightarrow> bool" where
  "idle n Z g \<longleftrightarrow> set (snd g) \<subseteq> {..<n} \<and> (\<forall>x \<in> set (fst g). \<forall>i < n. i \<notin> set (snd g) \<longrightarrow> \<not> Z x i)"

text \<open>The group without a target is at the bottom; the targets above it are split rows of it, and the groups above it
  have no bits in its other split rows.\<close>

definition beneath :: "nat \<Rightarrow> z_matrix \<Rightarrow> nat \<Rightarrow> nat list \<times> nat list \<Rightarrow> nat list \<times> nat list \<Rightarrow> bool" where
  "beneath n Z t g h \<longleftrightarrow> t \<notin> set (snd g) \<and> (\<forall>x \<in> set (fst h). \<forall>i < n. i \<notin> set (snd g) \<longrightarrow> i \<noteq> t \<longrightarrow> \<not> Z x i)"

definition groups_ok :: "nat \<Rightarrow> nat list \<Rightarrow> z_matrix \<Rightarrow> nat \<Rightarrow> (nat list \<times> nat list) list \<Rightarrow> (nat list \<times> nat list) list \<Rightarrow> bool" where
  "groups_ok n order Z t A B \<longleftrightarrow> t < n \<and> length B \<le> 1 \<and> (\<forall>g \<in> set A. active n order Z t g) \<and>
     (\<forall>g \<in> set B. idle n Z g \<and> (\<forall>h \<in> set A. beneath n Z t g h))"

definition cx_allowed :: "nat \<Rightarrow> nat list \<Rightarrow> nat \<Rightarrow> (nat list \<times> nat list) list \<Rightarrow> nat \<times> nat \<Rightarrow> bool" where
  "cx_allowed n order t B p \<longleftrightarrow> fst p < n \<and> snd p < n \<and> fst p \<noteq> snd p \<and> fst p \<noteq> t \<and>
     (snd p = t \<or> order ! fst p < order ! snd p) \<and> (\<forall>g \<in> set B. fst p \<in> set (snd g))"

lemma active_cx:
  assumes g: "active n order Z t g" and p: "cx_allowed n order t B p"
  shows "active n order (z_cx (fst p) (snd p) Z) t g"
proof -
  let ?c = "fst p" and ?b = "snd p" and ?F = "fst g" and ?Q = "snd g"
  let ?Z = "z_cx ?c ?b Z"
  have p': "?c < n" "?b < n" "?c \<noteq> ?b" "?c \<noteq> t" "?b = t \<or> order ! ?c < order ! ?b" using p by (simp_all add: cx_allowed_def)
  have g': "t \<notin> set ?Q" "set ?Q \<subseteq> {..<n}" "\<And>x. x \<in> set ?F \<Longrightarrow> Z x t" using g by (simp_all add: active_def)
  have det: "Z x i = Z y i" if "i < n" "i \<notin> set ?Q" "i \<noteq> t" "x \<in> set ?F" "y \<in> set ?F"
    "\<And>j. j \<in> set ?Q \<Longrightarrow> order ! i < order ! j \<Longrightarrow> Z x j = Z y j" for i x y
    using g that unfolding active_def by blast
  have later: "Z x i = Z y i" if xy: "x \<in> set ?F" "y \<in> set ?F" and i: "i < n" "i \<noteq> t" "order ! k < order ! i"
    and a: "\<And>j. j \<in> set ?Q \<Longrightarrow> order ! k < order ! j \<Longrightarrow> Z x j = Z y j" for i k x y
    using det [OF i(1) _ i(2) xy] a i(3) by (cases "i \<in> set ?Q") auto
  have b: "Z x ?b = Z y ?b" if "x \<in> set ?F" "y \<in> set ?F" and "\<And>j. j \<in> set ?Q \<Longrightarrow> order ! ?c < order ! j \<Longrightarrow> Z x j = Z y j" for x y
    using later [of x y ?b ?c] p' g'(3) that by (cases "?b = t") auto
  show ?thesis
    unfolding active_def
  proof (intro conjI allI impI ballI g'(1,2))
    fix x assume "x \<in> set ?F"
    then show "?Z x t" using g'(3) p'(4) by (simp add: z_cx_def)
  next
    fix i x y
    assume i: "i < n" "i \<notin> set ?Q" "i \<noteq> t" and xy: "x \<in> set ?F" "y \<in> set ?F"
      and a: "\<forall>j \<in> set ?Q. order ! i < order ! j \<longrightarrow> ?Z x j = ?Z y j"
    have old: "Z x j = Z y j" if j: "j \<in> set ?Q" "order ! i < order ! j" for j
    proof (cases "j = ?c")
      case True
      have "Z x k = Z y k" if k: "k \<in> set ?Q" "order ! ?c < order ! k" for k
      proof -
        have "order ! i < order ! k" "k \<noteq> ?c" using k j True by auto
        then show ?thesis using a k(1) by (auto simp: z_cx_def)
      qed
      from b [OF xy this] show ?thesis using a j True by (auto simp: z_cx_def)
    next
      case False
      then show ?thesis using a j by (auto simp: z_cx_def)
    qed
    show "?Z x i = ?Z y i"
    proof (cases "i = ?c")
      case True
      then show ?thesis using det [OF i xy] old b [OF xy] by (simp add: z_cx_def)
    next
      case False
      then show ?thesis using det [OF i xy] old by (simp add: z_cx_def)
    qed
  qed
qed

lemma groups_cx:
  assumes "groups_ok n order Z t A B" "cx_allowed n order t B p"
  shows "groups_ok n order (z_cx (fst p) (snd p) Z) t A B"
  using assms active_cx [OF _ assms(2)] unfolding groups_ok_def idle_def beneath_def cx_allowed_def z_cx_def by auto

text \<open>The pairs of qubits of one gathering of a parity.\<close>

definition cx_pairs :: "gray_mode \<Rightarrow> nat list \<Rightarrow> nat list \<Rightarrow> nat \<Rightarrow> (nat \<times> nat) list" where
  "cx_pairs mode order ctrls t =
     (case mode of GrayStar \<Rightarrow> map (\<lambda>c. (c, t)) ctrls
                 | GrayStaircase \<Rightarrow> (let cs = sort_key (\<lambda>x. order ! x) ctrls in zip cs (tl cs @ [t])))"

lemma zip_last: "cs \<noteq> [] \<Longrightarrow> zip cs (tl cs @ [t]) = zip cs (tl cs) @ [(last cs, t)]"
proof (induction cs)
  case (Cons c cs)
  then show ?case by (cases cs) simp_all
qed simp

lemma apply_cxs_pairs:
  "apply_cxs mode order frozen ctrls t s = fold (\<lambda>(c, b). gray_cx frozen c b) (cx_pairs mode order ctrls t) s"
proof (cases mode)
  case GrayStar
  then show ?thesis by (simp add: apply_cxs_def cx_pairs_def fold_map comp_def)
next
  case GrayStaircase
  show ?thesis
  proof (cases "ctrls = []")
    case False
    then have "sort_key (\<lambda>x. order ! x) ctrls \<noteq> []" by (metis length_0_conv length_sort)
    then show ?thesis by (simp add: GrayStaircase apply_cxs_def cx_pairs_def Let_def zip_last)
  qed (simp add: GrayStaircase apply_cxs_def cx_pairs_def)
qed

lemma zip_next: "(a, b) \<in> set (zip cs (tl cs @ [t])) \<Longrightarrow> sorted_wrt R cs \<Longrightarrow> a \<in> set cs \<and> (b = t \<or> b \<in> set cs \<and> R a b)"
proof (induction cs)
  case (Cons c cs)
  then show ?case by (cases cs) auto
qed simp

lemma cx_pairs_props:
  assumes c: "distinct ctrls" "set ctrls \<subseteq> {..<n}" "t \<notin> set ctrls" and o: "distinct order" "length order = n" and t: "t < n"
    and B: "\<forall>g \<in> set B. set ctrls \<subseteq> set (snd g)"
  shows "\<forall>p \<in> set (cx_pairs mode order ctrls t). cx_allowed n order t B p" "fst ` set (cx_pairs mode order ctrls t) = set ctrls"
proof -
  let ?cs = "sort_key (\<lambda>x. order ! x) ctrls"
  have inj: "inj_on (\<lambda>x. order ! x) (set ctrls)" using c(2) o by (intro inj_onI) (metis lessThan_iff nth_eq_iff_index_eq subsetD)
  have "sorted (map (\<lambda>x. order ! x) ?cs)" "distinct (map (\<lambda>x. order ! x) ?cs)" using c(1) inj by (simp_all add: distinct_map)
  then have s: "sorted_wrt (\<lambda>a b. order ! a < order ! b) ?cs" by (simp add: strict_sorted_iff sorted_wrt_map [symmetric])
  show "\<forall>p \<in> set (cx_pairs mode order ctrls t). cx_allowed n order t B p"
  proof (cases mode)
    case GrayStar
    then show ?thesis using c t B by (auto simp: cx_pairs_def cx_allowed_def)
  next
    case GrayStaircase
    have "cx_allowed n order t B (a, b)" if "(a, b) \<in> set (zip ?cs (tl ?cs @ [t]))" for a b
      using zip_next [OF that s] c t B by (auto simp: cx_allowed_def)
    then show ?thesis by (auto simp: GrayStaircase cx_pairs_def Let_def)
  qed
  show "fst ` set (cx_pairs mode order ctrls t) = set ctrls"
  proof (cases mode)
    case GrayStar
    then show ?thesis by (simp add: cx_pairs_def image_image)
  next
    case GrayStaircase
    have "map fst (zip ?cs (tl ?cs @ [t])) = ?cs" by (cases ?cs) simp_all
    then have "fst ` set (zip ?cs (tl ?cs @ [t])) = set ?cs" by (metis list.set_map)
    then show ?thesis by (simp add: GrayStaircase cx_pairs_def Let_def)
  qed
qed

text \<open>In a rotation with bits in the controls and in the target, the pairs clear the controls.\<close>

fun clearing :: "nat \<Rightarrow> (nat \<times> nat) list \<Rightarrow> bool" where
  "clearing t [] = True"
| "clearing t ((a, b) # ps) \<longleftrightarrow> a \<noteq> b \<and> a \<noteq> t \<and> a \<notin> fst ` set ps \<and> a \<notin> snd ` set ps \<and> (b = t \<or> b \<in> fst ` set ps) \<and> clearing t ps"

lemma clearing_z:
  "clearing t ps \<Longrightarrow> Z x t \<Longrightarrow> (\<And>a. a \<in> fst ` set ps \<Longrightarrow> Z x a) \<Longrightarrow>
    fold (\<lambda>p. z_cx (fst p) (snd p)) ps Z x i = (i \<notin> fst ` set ps \<and> Z x i)"
proof (induction ps arbitrary: Z)
  case (Cons p ps)
  obtain a b where p: "p = (a, b)" by (cases p)
  have ab: "Z x a" "Z x b" using Cons.prems by (auto simp: p)
  have "fold (\<lambda>p. z_cx (fst p) (snd p)) ps (z_cx a b Z) x i = (i \<notin> fst ` set ps \<and> z_cx a b Z x i)"
  proof (rule Cons.IH)
    fix c assume c: "c \<in> fst ` set ps"
    then have "c \<noteq> a" using Cons.prems(1) by (auto simp: p)
    then show "z_cx a b Z x c" using Cons.prems(3) c by (auto simp: z_cx_def p)
  qed (use Cons.prems in \<open>auto simp: p z_cx_def\<close>)
  moreover have "fold (\<lambda>p. z_cx (fst p) (snd p)) (p # ps) Z = fold (\<lambda>p. z_cx (fst p) (snd p)) ps (z_cx a b Z)" by (simp add: p)
  moreover have "z_cx a b Z x i = (i \<noteq> a \<and> Z x i)" using ab by (simp add: z_cx_def)
  ultimately show ?case by (auto simp: p)
qed simp

lemma clearing_pairs: "distinct ctrls \<Longrightarrow> t \<notin> set ctrls \<Longrightarrow> clearing t (cx_pairs mode order ctrls t)"
proof (cases mode)
  case GrayStar
  have "distinct cs \<Longrightarrow> t \<notin> set cs \<Longrightarrow> clearing t (map (\<lambda>c. (c, t)) cs)" for cs
    by (induction cs) auto
  then show "distinct ctrls \<Longrightarrow> t \<notin> set ctrls \<Longrightarrow> ?thesis" by (simp add: GrayStar cx_pairs_def)
next
  case GrayStaircase
  have "distinct cs \<Longrightarrow> t \<notin> set cs \<Longrightarrow> clearing t (zip cs (tl cs @ [t]))" for cs
  proof (induction cs)
    case (Cons c cs)
    show ?case
    proof (cases cs)
      case (Cons d ds)
      have "map fst (zip cs (tl cs @ [t])) = cs" "map snd (zip cs (tl cs @ [t])) = tl cs @ [t]" by (simp_all add: Cons)
      then have "fst ` set (zip cs (tl cs @ [t])) = set cs" "snd ` set (zip cs (tl cs @ [t])) = set (tl cs @ [t])"
        by (metis list.set_map)+
      then show ?thesis using Cons.IH Cons.prems by (auto simp: Cons)
    qed (use Cons.prems in simp)
  qed simp
  then show "distinct ctrls \<Longrightarrow> t \<notin> set ctrls \<Longrightarrow> ?thesis" by (simp add: GrayStaircase cx_pairs_def Let_def)
qed

text \<open>The invariant of the loop: the gates so far are \<open>ops\<close>, the rotations in \<open>frozen\<close> are done.\<close>

definition turn_of :: "nat \<Rightarrow> pauli_rotation \<Rightarrow> qstate \<Rightarrow> rat" where
  "turn_of n R b = (if parity_at n R b then phase_val (rot_phase R) else 0)"

definition gray_inv ::
  "nat \<Rightarrow> nat list \<Rightarrow> pauli_rotation list \<Rightarrow> nat \<Rightarrow> (nat list \<times> nat list) list \<Rightarrow> (nat list \<times> nat list) list \<Rightarrow>
    nat list \<Rightarrow> phase_op list \<Rightarrow> network \<Rightarrow> bool" where
  "gray_inv n order rs t A B frozen ops s \<longleftrightarrow>
     net_gates n ops s \<and> length (net_rotations s) = length rs \<and>
     (\<forall>i < length rs. i \<notin> set frozen \<longrightarrow> carries n ops (rs ! i) (net_rotations s ! i)) \<and>
     (\<forall>b. ops_turn ops b = (\<Sum>i \<leftarrow> frozen. turn_of n (rs ! i) b)) \<and>
     distinct (concat (map fst (A @ B)) @ frozen) \<and> set (concat (map fst (A @ B)) @ frozen) = {..<length rs} \<and>
     groups_ok n order (z_at (net_rotations s)) t A B"

lemma gray_invD:
  assumes "gray_inv n order rs t A B frozen ops s"
  shows "net_gates n ops s" "length (net_rotations s) = length rs"
    "\<And>i. i < length rs \<Longrightarrow> i \<notin> set frozen \<Longrightarrow> carries n ops (rs ! i) (net_rotations s ! i)"
    "\<And>b. ops_turn ops b = (\<Sum>i \<leftarrow> frozen. turn_of n (rs ! i) b)"
    "distinct (concat (map fst (A @ B)) @ frozen)" "set (concat (map fst (A @ B)) @ frozen) = {..<length rs}"
    "groups_ok n order (z_at (net_rotations s)) t A B"
  using assms by (auto simp: gray_inv_def)

lemma groups_cong:
  assumes "groups_ok n order Z t A B" "\<And>x i. x \<in> set (concat (map fst (A @ B))) \<Longrightarrow> i < n \<Longrightarrow> Z' x i = Z x i"
  shows "groups_ok n order Z' t A B"
proof -
  have e: "Z' x i = Z x i" if "g \<in> set A \<union> set B" "x \<in> set (fst g)" "i < n" for g x i
    using assms(2) [of x i] that by auto
  have t: "t < n" using assms(1) by (simp add: groups_ok_def)
  have "active n order Z' t g" if g: "g \<in> set A" for g
  proof -
    have a: "active n order Z t g" using assms(1) g by (simp add: groups_ok_def)
    then have q: "set (snd g) \<subseteq> {..<n}" by (simp add: active_def)
    show ?thesis
      unfolding active_def
    proof (intro conjI allI impI ballI)
      fix i x y
      assume i: "i < n" "i \<notin> set (snd g)" "i \<noteq> t" and xy: "x \<in> set (fst g)" "y \<in> set (fst g)"
        and h: "\<forall>j \<in> set (snd g). order ! i < order ! j \<longrightarrow> Z' x j = Z' y j"
      have "\<forall>j \<in> set (snd g). order ! i < order ! j \<longrightarrow> Z x j = Z y j" using h q e [of g] g xy by auto
      then have "Z x i = Z y i" using a i xy unfolding active_def by blast
      then show "Z' x i = Z' y i" using e [of g] g xy i by simp
    qed (use a e [of g] g t in \<open>auto simp: active_def\<close>)
  qed
  moreover have "idle n Z' g" if "g \<in> set B" for g
    using assms(1) that e [of g] by (auto simp: groups_ok_def idle_def)
  moreover have "beneath n Z' t g h" if "g \<in> set B" "h \<in> set A" for g h
    using assms(1) that e [of h] by (auto simp: groups_ok_def beneath_def)
  ultimately show ?thesis using assms(1) by (simp add: groups_ok_def)
qed

lemma gray_cx_inv:
  assumes I: "gray_inv n order rs t A B frozen ops s" and p: "cx_allowed n order t B (c, b)"
  shows "gray_inv n order rs t A B frozen (ops @ [make_cx c b]) (gray_cx frozen c b s)"
    "x < length rs \<Longrightarrow> x \<notin> set frozen \<Longrightarrow> i < n \<Longrightarrow>
      z_at (net_rotations (gray_cx frozen c b s)) x i = z_cx c b (z_at (net_rotations s)) x i"
proof -
  note d = gray_invD [OF I]
  let ?rs = "net_rotations s" and ?s = "gray_cx frozen c b s"
  have cb: "c < n" "b < n" "b \<noteq> c" "c \<noteq> b" using p by (auto simp: cx_allowed_def)
  have ops: "list_all (phase_op_ok n) ops" using d(1) by (simp add: net_gates_def)
  have len: "length (net_rotations ?s) = length rs" using d(2) cb by (simp add: gray_cx_def network_cx_def)
  have at: "net_rotations ?s ! x = (if x \<in> set frozen then ?rs ! x else rot_cx c b (?rs ! x))" if "x < length rs" for x
    using that d(2) cb by (simp add: gray_cx_def network_cx_def nth_enumerate_eq split_beta)
  have z: "z_at (net_rotations ?s) x i = z_cx c b (z_at ?rs) x i" if x: "x < length rs" "x \<notin> set frozen" and i: "i < n" for x i
  proof -
    have S: "rot_ok n (?rs ! x)" "rot_is_diagonal (?rs ! x)" using d(3) [OF x] by (simp_all add: carries_def)
    have "is_z_set (rot_product R) j = is_z (rot_product R) j" if "rot_ok n R" "rot_is_diagonal R" "j < n" for R j
      using that rot_okD(1) [OF that(1)] by (auto simp: rot_is_diagonal_def is_z_def diag_iff)
    then show ?thesis
      using rot_cx_diagonal [OF S cb(1-3)] S cb i x by (simp add: z_at_def at z_cx_def)
  qed
  show "x < length rs \<Longrightarrow> x \<notin> set frozen \<Longrightarrow> i < n \<Longrightarrow> z_at (net_rotations ?s) x i = z_cx c b (z_at ?rs) x i" by (rule z)
  have "groups_ok n order (z_at (net_rotations ?s)) t A B"
    using d(5,6) by (intro groups_cong [OF groups_cx [OF d(7) p, simplified]] z) auto
  moreover have "carries n (ops @ [make_cx c b]) (rs ! i) (net_rotations ?s ! i)" if "i < length rs" "i \<notin> set frozen" for i
    using carries_cx [OF d(3) [OF that] ops cb(1-3)] that by (simp add: at)
  moreover have "net_gates n (ops @ [make_cx c b]) ?s" using net_gates_cx [OF d(1) cb(1-3)] cb(4) by (simp add: gray_cx_def)
  moreover have "ops_turn (ops @ [make_cx c b]) b' = ops_turn ops b'" for b' by (simp add: ops_turn_append)
  ultimately show "gray_inv n order rs t A B frozen (ops @ [make_cx c b]) ?s"
    unfolding gray_inv_def using d len by simp
qed

lemma gray_cxs_inv:
  assumes "gray_inv n order rs t A B frozen ops s" "\<forall>p \<in> set ps. cx_allowed n order t B p"
  shows "\<exists>ops'. gray_inv n order rs t A B frozen ops' (fold (\<lambda>(c, b). gray_cx frozen c b) ps s) \<and>
    (\<forall>x i. x < length rs \<longrightarrow> x \<notin> set frozen \<longrightarrow> i < n \<longrightarrow>
      z_at (net_rotations (fold (\<lambda>(c, b). gray_cx frozen c b) ps s)) x i = fold (\<lambda>p. z_cx (fst p) (snd p)) ps (z_at (net_rotations s)) x i)"
  using assms
proof (induction ps arbitrary: ops s)
  case (Cons p ps)
  obtain c b where p: "p = (c, b)" by (cases p)
  let ?s = "gray_cx frozen c b s"
  have cb: "cx_allowed n order t B (c, b)" using Cons.prems(2) p by simp
  note one = gray_cx_inv [OF Cons.prems(1) cb]
  obtain ops' where o: "gray_inv n order rs t A B frozen ops' (fold (\<lambda>(c, b). gray_cx frozen c b) ps ?s)"
    "\<And>x i. x < length rs \<Longrightarrow> x \<notin> set frozen \<Longrightarrow> i < n \<Longrightarrow>
      z_at (net_rotations (fold (\<lambda>(c, b). gray_cx frozen c b) ps ?s)) x i = fold (\<lambda>p. z_cx (fst p) (snd p)) ps (z_at (net_rotations ?s)) x i"
    using Cons.IH [OF one(1)] Cons.prems(2) by auto
  have cong: "fold (\<lambda>p. z_cx (fst p) (snd p)) qs Z x i = fold (\<lambda>p. z_cx (fst p) (snd p)) qs Z' x i"
    if "\<And>i. i < n \<Longrightarrow> Z x i = Z' x i" "\<forall>p \<in> set qs. cx_allowed n order t B p" "i < n" for qs x i Z Z'
    using that
  proof (induction qs arbitrary: Z Z')
    case (Cons q qs)
    have "fold (\<lambda>p. z_cx (fst p) (snd p)) qs (z_cx (fst q) (snd q) Z) x i = fold (\<lambda>p. z_cx (fst p) (snd p)) qs (z_cx (fst q) (snd q) Z') x i"
      by (rule Cons.IH) (use Cons.prems in \<open>auto simp: z_cx_def cx_allowed_def\<close>)
    then show ?case by simp
  qed simp
  have "z_at (net_rotations (fold (\<lambda>(c, b). gray_cx frozen c b) ps ?s)) x i = fold (\<lambda>p. z_cx (fst p) (snd p)) ps (z_cx c b (z_at (net_rotations s))) x i"
    if x: "x < length rs" "x \<notin> set frozen" "i < n" for x i
    unfolding o(2) [OF x] by (rule cong) (use one(2) [OF x(1,2)] Cons.prems(2) x in auto)
  then show ?case using o(1) by (auto simp: p)
qed auto

lemma active_uniform:
  assumes "active n order Z t (F, [])" "x \<in> set F" "y \<in> set F" "i < n" "i \<noteq> t"
  shows "Z x i = Z y i"
  using assms(1) unfolding active_def fst_conv snd_conv by (metis assms(2-5) empty_iff list.set(1))

lemma groups_head:
  "groups_ok n order Z t (g # A) B \<longleftrightarrow> active n order Z t g \<and> (\<forall>h \<in> set B. beneath n Z t h g) \<and> groups_ok n order Z t A B"
  unfolding groups_ok_def by auto

lemma groups_smaller:
  assumes "set F' \<subseteq> set F"
  shows "active n order Z t (F, Q) \<Longrightarrow> active n order Z t (F', Q)" "beneath n Z t h (F, Q) \<Longrightarrow> beneath n Z t h (F', Q')"
proof -
  assume a: "active n order Z t (F, Q)"
  show "active n order Z t (F', Q)"
    unfolding active_def fst_conv snd_conv
  proof (intro conjI allI impI)
    fix i x y assume "i < n" "i \<notin> set Q" "i \<noteq> t" "x \<in> set F'" "y \<in> set F'" "\<forall>j \<in> set Q. order ! i < order ! j \<longrightarrow> Z x j = Z y j"
    moreover have "x \<in> set F" "y \<in> set F" using calculation assms by auto
    ultimately show "Z x i = Z y i" using a unfolding active_def fst_conv snd_conv by blast
  qed (use a assms in \<open>auto simp: active_def\<close>)
qed (use assms in \<open>auto simp: beneath_def\<close>)

lemma rotations_qubits: "rots_ok n rs \<Longrightarrow> rs \<noteq> [] \<Longrightarrow> rot_n_qubits (hd rs) = n"
  by (cases rs) (auto simp: rot_ok_def pp_ok_def rot_n_qubits_def)

text \<open>Gathering the parity of the topmost group on its target.\<close>

lemma gather_inv:
  fixes mode :: gray_mode
  assumes I: "gray_inv n order rs t ((F, Q) # A) B frozen ops s" and F: "F \<noteq> []" and o: "distinct order" "length order = n"
    and n: "rot_n_qubits (hd (net_rotations s)) = n"
  defines "s1 \<equiv> apply_cxs mode order frozen (get_control_rows (net_rotations s) F t) t s"
  shows "\<exists>ops1. gray_inv n order rs t ((F, Q) # A) B frozen ops1 s1"
    "Q = [] \<Longrightarrow> x \<in> set F \<Longrightarrow> i < n \<Longrightarrow> z_at (net_rotations s1) x i = (i = t)"
proof -
  note d = gray_invD [OF I]
  let ?Z = "z_at (net_rotations s)" and ?cs = "get_control_rows (net_rotations s) F t"
  let ?ps = "cx_pairs mode order ?cs t"
  have t: "t < n" and act: "active n order ?Z t (F, Q)" and B: "\<And>g. g \<in> set B \<Longrightarrow> beneath n ?Z t g (F, Q)"
    using d(7) by (auto simp: groups_ok_def)
  have cs: "i \<in> set ?cs \<longleftrightarrow> i < n \<and> i \<noteq> t \<and> (\<forall>x \<in> set F. ?Z x i)" for i by (auto simp: get_control_rows_def n list_all_iff)
  have dcs: "distinct ?cs" by (simp add: get_control_rows_def)
  have inB: "i \<in> set (snd g)" if g: "g \<in> set B" and i: "i \<in> set ?cs" for g i
  proof -
    obtain x where x: "x \<in> set F" using F by (cases F) auto
    then have "?Z x i" "i < n" "i \<noteq> t" using i cs by auto
    then show ?thesis using B [OF g] x by (auto simp: beneath_def)
  qed
  have ps: "\<forall>p \<in> set ?ps. cx_allowed n order t B p" "fst ` set ?ps = set ?cs"
  proof -
    have "set ?cs \<subseteq> {..<n}" "t \<notin> set ?cs" "\<forall>g \<in> set B. set ?cs \<subseteq> set (snd g)" using cs inB by auto
    from cx_pairs_props [OF dcs this(1,2) o t this(3), of mode]
    show "\<forall>p \<in> set ?ps. cx_allowed n order t B p" "fst ` set ?ps = set ?cs" .
  qed
  have e: "s1 = fold (\<lambda>(c, b). gray_cx frozen c b) ?ps s" by (simp add: s1_def apply_cxs_pairs)
  obtain ops1 where r: "gray_inv n order rs t ((F, Q) # A) B frozen ops1 s1"
    "\<And>x i. x < length rs \<Longrightarrow> x \<notin> set frozen \<Longrightarrow> i < n \<Longrightarrow> z_at (net_rotations s1) x i = fold (\<lambda>p. z_cx (fst p) (snd p)) ?ps ?Z x i"
    using gray_cxs_inv [OF I ps(1)] unfolding e by blast
  show "\<exists>ops1. gray_inv n order rs t ((F, Q) # A) B frozen ops1 s1" using r(1) by blast
  assume Q: "Q = []" and x: "x \<in> set F" and i: "i < n"
  have xt: "?Z x t" using act x by (simp add: active_def)
  have "x < length rs" "x \<notin> set frozen" using d(5,6) x by auto
  then have "z_at (net_rotations s1) x i = fold (\<lambda>p. z_cx (fst p) (snd p)) ?ps ?Z x i" using i by (rule r(2))
  also have "\<dots> = (i \<notin> fst ` set ?ps \<and> ?Z x i)"
  proof (rule clearing_z [where t = t])
    show "clearing t ?ps" by (rule clearing_pairs) (use dcs cs in simp_all)
    show "?Z x t" by (rule xt)
    show "?Z x a" if "a \<in> fst ` set ?ps" for a using that x cs unfolding ps(2) by simp
  qed
  also have "\<dots> = (i \<notin> set ?cs \<and> ?Z x i)" unfolding ps(2) ..
  also have "\<dots> = (i = t)"
  proof (cases "i = t")
    case False
    have "?Z x i = ?Z y i" if "y \<in> set F" for y
      by (rule active_uniform [OF act [unfolded Q] x that i False])
    then have "i \<in> set ?cs \<longleftrightarrow> ?Z x i" unfolding cs using False i x by blast
    then show ?thesis using False by simp
  next
    case True
    then have "i \<notin> set ?cs" using cs by simp
    then show ?thesis using True xt by simp
  qed
  finally show "z_at (net_rotations s1) x i = (i = t)" .
qed

lemma unit_parity:
  assumes R: "rot_ok n R" "rot_is_diagonal R" and z: "\<And>i. i < n \<Longrightarrow> is_z_set (rot_product R) i = (i = t)" and t: "t < n"
  shows "parity_at n R b = b t"
proof -
  have "parity_at n R b = dot n (\<lambda>i. i = t) b"
    unfolding parity_at_def
    by (rule dot_cong) (use R z rot_okD(1) [OF R(1)] in \<open>auto simp: is_z_def rot_is_diagonal_def diag_iff\<close>)
  then show ?thesis using t by (simp add: dot_unit)
qed

text \<open>At a group whose rows are all split, its rotations are emitted.\<close>

lemma freeze_inv:
  assumes "gray_inv n order rs t ((F, []) # A) B frozen ops s" "\<And>x i. x \<in> set F \<Longrightarrow> i < n \<Longrightarrow> z_at (net_rotations s) x i = (i = t)"
    "rots_ok n rs"
  shows "\<exists>frozen' ops' s'. freeze_all (Some t) F frozen s = Some (frozen', s') \<and> gray_inv n order rs t A B frozen' ops' s' \<and>
    net_rotations s' = net_rotations s"
  using assms
proof (induction F arbitrary: frozen ops s)
  case Nil
  then show ?case by (auto simp: gray_inv_def groups_ok_def)
next
  case (Cons x F)
  note d = gray_invD [OF Cons.prems(1)]
  have t: "t < n" using d(7) by (simp add: groups_ok_def)
  have x: "x < length rs" "x \<notin> set frozen" using d(5,6) by auto
  let ?S = "net_rotations s ! x" let ?s = "network_rz (rot_phase ?S) t s" and ?ops = "ops @ [make_rz t (rot_phase ?S)]"
  have S: "rot_ok n ?S" "rot_is_diagonal ?S" "rot_phase ?S = rot_phase (rs ! x)"
    "\<And>b. parity_at n ?S (ops_bits ops b) = parity_at n (rs ! x) b"
    using d(3) [OF x] by (simp_all add: carries_def)
  have "parity_at n ?S b = b t" for b
    by (rule unit_parity [OF S(1,2) _ t]) (use Cons.prems(2) in \<open>simp add: z_at_def\<close>)
  then have par: "ops_bits ops b t = parity_at n (rs ! x) b" for b using S(4) by simp
  have rots: "net_rotations ?s = net_rotations s" by (simp add: network_rz_def)
  have turn: "ops_turn ?ops b = (\<Sum>i \<leftarrow> x # frozen. turn_of n (rs ! i) b)" for b
    using d(4) by (simp add: ops_turn_append par turn_of_def S(3))
  have groups: "groups_ok n order (z_at (net_rotations ?s)) t ((F, []) # A) B"
  proof -
    have F: "set F \<subseteq> set (x # F)" by auto
    show ?thesis using d(7) groups_smaller [OF F] unfolding rots groups_head by blast
  qed
  have gates: "net_gates n ?ops ?s" by (rule net_gates_rz [OF d(1) t rot_okD(3) [OF S(1)]])
  have "gray_inv n order rs t ((F, []) # A) B (x # frozen) ?ops ?s"
    unfolding gray_inv_def
  proof (intro conjI allI impI gates groups turn)
    show "length (net_rotations ?s) = length rs" using d(2) by (simp add: rots)
    show "carries n ?ops (rs ! i) (net_rotations ?s ! i)" if "i < length rs" "i \<notin> set (x # frozen)" for i
      unfolding rots by (rule carries_rz) (use d(3) that in auto)
    show "distinct (concat (map fst (((F, []) # A) @ B)) @ x # frozen)" using d(5) by auto
    show "set (concat (map fst (((F, []) # A) @ B)) @ x # frozen) = {..<length rs}" using d(6) by auto
  qed
  from Cons.IH [OF this] Cons.prems(2,3)
  obtain frozen' ops' s' where "freeze_all (Some t) F (x # frozen) ?s = Some (frozen', s')" "gray_inv n order rs t A B frozen' ops' s'"
    "net_rotations s' = net_rotations s" by (auto simp: rots)
  then show ?case using x by auto
qed

text \<open>Splitting a group by a row.\<close>

lemma split_active:
  assumes a: "active n order Z t (F, Q)" and r: "r \<in> set Q"
  shows "active n order Z t (filter (\<lambda>x. Z x r = v) F, filter_out_number Q r)"
  unfolding active_def fst_conv snd_conv
proof (intro conjI allI impI ballI)
  show "t \<notin> set (filter_out_number Q r)" "set (filter_out_number Q r) \<subseteq> {..<n}"
    using a by (auto simp: active_def filter_out_number_def)
  show "Z x t" if "x \<in> set (filter (\<lambda>x. Z x r = v) F)" for x using a that by (auto simp: active_def)
  fix i x y
  assume i: "i < n" "i \<notin> set (filter_out_number Q r)" "i \<noteq> t"
    and xy: "x \<in> set (filter (\<lambda>x. Z x r = v) F)" "y \<in> set (filter (\<lambda>x. Z x r = v) F)"
    and h: "\<forall>j \<in> set (filter_out_number Q r). order ! i < order ! j \<longrightarrow> Z x j = Z y j"
  have r': "Z x r = Z y r" using xy by auto
  show "Z x i = Z y i"
  proof (cases "i = r")
    case False
    then have "i \<notin> set Q" using i(2) by (simp add: filter_out_number_def)
    moreover have "\<forall>j \<in> set Q. order ! i < order ! j \<longrightarrow> Z x j = Z y j" using h r' by (auto simp: filter_out_number_def)
    ultimately show ?thesis using a xy i unfolding active_def fst_conv snd_conv by simp
  qed (use r' in simp)
qed

lemma split_idle:
  assumes b: "idle n Z (F, Q)" and r: "r \<in> set Q" "r < n"
  defines "zero \<equiv> filter (\<lambda>x. \<not> Z x r) F" and "one \<equiv> filter (\<lambda>x. Z x r) F" and "Q' \<equiv> filter_out_number Q r"
  shows "active n order Z r (one, Q')" "idle n Z (zero, Q')" "beneath n Z r (zero, Q') (one, Q')"
  using b r by (auto simp: active_def idle_def beneath_def filter_out_number_def zero_def one_def Q'_def)

text \<open>A rotation without bits left was the identity from the start.\<close>

lemma carried_identity:
  assumes c: "carries n ops R S" and R: "rot_ok n R" "rot_is_diagonal R" and z: "\<And>i. i < n \<Longrightarrow> \<not> is_z_set (rot_product S) i"
  shows "is_identity (rot_product R)"
proof (rule ccontr)
  assume "\<not> is_identity (rot_product R)"
  moreover have P: "pp_ok n (rot_product R)" "is_diagonal (rot_product R)" using rot_okD [OF R(1)] R(2) by (auto simp: rot_is_diagonal_def)
  ultimately obtain q where q: "q < n" "is_z (rot_product R) q"
    by (auto simp: is_identity_def is_diagonal_def list_all_iff pp_ok_def)
  have "parity_at n R (\<lambda>i. i = q)" using q by (simp add: parity_at_def dot_unit)
  moreover have "\<not> parity_at n S b" for b
    unfolding parity_at_def dot_def using z by (intro gf2_sum_all_zero notI) (auto simp: is_z_def)
  ultimately show False using c by (auto simp: carries_def)
qed

lemma freeze_rotations: "freeze_all targ F frozen s = Some (frozen', s') \<Longrightarrow> net_rotations s' = net_rotations s"
  by (induction targ F frozen s rule: freeze_all.induct) (auto simp: network_rz_def split: if_splits option.splits)

lemma gray_qubits:
  assumes I: "gray_inv n order rs t A B frozen ops s" and i: "i < length rs" "i \<notin> set frozen"
  shows "rot_ok n (net_rotations s ! i)"
  using gray_invD(3) [OF I i] by (simp add: carries_def)

definition live_widths :: "nat \<Rightarrow> network \<Rightarrow> bool" where
  "live_widths n s \<longleftrightarrow> list_all (\<lambda>R. rot_n_qubits R = n) (net_rotations s)"

lemma live_widths_cx: "live_widths n s \<Longrightarrow> live_widths n (gray_cx frozen c t s)"
proof -
  have w: "rot_n_qubits (rot_cx c t R) = rot_n_qubits R" for R
    by (simp add: rot_cx_def rot_normalize_def rot_n_qubits_def)
  show "live_widths n s \<Longrightarrow> ?thesis"
    by (auto simp: live_widths_def gray_cx_def network_cx_def list_all_length nth_enumerate_eq w)
qed

lemma live_widths_cxs: "live_widths n s \<Longrightarrow> live_widths n (apply_cxs mode order frozen cs t s)"
proof -
  have "live_widths n s \<Longrightarrow> live_widths n (fold (\<lambda>(c, b). gray_cx frozen c b) ps s)" for ps s
    by (induction ps arbitrary: s) (auto simp: live_widths_cx)
  then show "live_widths n s \<Longrightarrow> ?thesis" unfolding apply_cxs_pairs .
qed

lemma drop_group:
  "gray_inv n order rs t (([], Q) # A) B frozen ops s \<Longrightarrow> gray_inv n order rs t A B frozen ops s"
  "gray_inv n order rs t [] [([], Q)] frozen ops s \<Longrightarrow> gray_inv n order rs t [] [] frozen ops s"
  by (auto simp: gray_inv_def groups_ok_def)

lemma split_inv:
  fixes s :: network
  assumes r: "r \<in> set Q"
  defines "Z \<equiv> z_at (net_rotations s)"
  shows "gray_inv n order rs t ((F, Q) # A) B frozen ops s \<Longrightarrow>
      gray_inv n order rs t ((filter (\<lambda>x. Z x r) F, filter_out_number Q r) # (filter (\<lambda>x. \<not> Z x r) F, filter_out_number Q r) # A) B frozen ops s"
    "gray_inv n order rs t [] [(F, Q)] frozen ops s \<Longrightarrow>
      gray_inv n order rs r [(filter (\<lambda>x. Z x r) F, filter_out_number Q r)] [(filter (\<lambda>x. \<not> Z x r) F, filter_out_number Q r)] frozen ops s"
proof -
  let ?one = "filter (\<lambda>x. Z x r) F" and ?zero = "filter (\<lambda>x. \<not> Z x r) F" and ?Q = "filter_out_number Q r"
  have sub: "set ?one \<subseteq> set F" "set ?zero \<subseteq> set F" by auto
  have cover: "distinct (F @ xs) \<Longrightarrow> distinct ((?one @ ?zero) @ xs)" "set ((?one @ ?zero) @ xs) = set (F @ xs)" for xs by auto
  show "gray_inv n order rs t ((?one, ?Q) # (?zero, ?Q) # A) B frozen ops s" if I: "gray_inv n order rs t ((F, Q) # A) B frozen ops s"
  proof -
    note d = gray_invD [OF I]
    have g: "active n order Z t (F, Q)" "\<forall>h \<in> set B. beneath n Z t h (F, Q)" "groups_ok n order Z t A B"
      using d(7) unfolding groups_head Z_def [symmetric] by auto
    have "groups_ok n order Z t ((?one, ?Q) # (?zero, ?Q) # A) B"
      unfolding groups_head
      using split_active [OF g(1) r, of True] split_active [OF g(1) r, of False] groups_smaller(2) [OF sub(1)] groups_smaller(2) [OF sub(2)] g(2,3)
      by auto
    then show ?thesis
      using I cover [of "concat (map fst (A @ B)) @ frozen"] unfolding gray_inv_def Z_def by simp
  qed
  show "gray_inv n order rs r [(?one, ?Q)] [(?zero, ?Q)] frozen ops s" if I: "gray_inv n order rs t [] [(F, Q)] frozen ops s"
  proof -
    note d = gray_invD [OF I]
    have b: "idle n Z (F, Q)" using d(7) by (simp add: groups_ok_def Z_def)
    then have rn: "r < n" using r by (auto simp: idle_def)
    have "groups_ok n order Z r [(?one, ?Q)] [(?zero, ?Q)]"
      using split_idle [OF b r rn] rn by (simp add: groups_ok_def)
    then show ?thesis
      using I cover [of frozen] unfolding gray_inv_def Z_def by simp
  qed
qed

lemma gray_loop_spec:
  assumes "gray_inv n order rs t A B frozen ops s" "live_widths n s"
    "stack = map (\<lambda>(F, Q). (F, Q, Some t)) A @ map (\<lambda>(F, Q). (F, Q, None)) B"
    "rots_ok n rs" "diag_rotations rs" "reducible rs" "distinct order" "length order = n"
  shows "\<exists>s' ops'. gray_loop mode order stack frozen s = Some s' \<and> net_gates n ops' s' \<and> (\<forall>b. ops_turn ops' b = rots_turn n rs b)"
  using assms
proof (induction mode order stack frozen s arbitrary: A B t ops rule: gray_loop.induct)
  case (1 mode order frozen s)
  have AB: "A = []" "B = []" using "1.prems"(3) by simp_all
  note d = gray_invD [OF "1.prems"(1)]
  have "(\<Sum>i \<leftarrow> frozen. turn_of n (rs ! i) b) = rots_turn n rs b" for b
  proof -
    have "(\<Sum>i \<leftarrow> frozen. turn_of n (rs ! i) b) = (\<Sum>i < length rs. turn_of n (rs ! i) b)"
      using d(5,6) by (simp add: AB sum_list_distinct_conv_sum_set)
    also have "\<dots> = rots_turn n rs b"
      by (simp add: rots_turn_def turn_of_def sum_list_sum_nth atLeast0LessThan)
    finally show ?thesis .
  qed
  then show ?case using d(1,4) by auto
next
  case (2 mode order F Q targ stack frozen s)
  consider (A) A' where "A = (F, Q) # A'" "targ = Some t" "stack = map (\<lambda>(F, Q). (F, Q, Some t)) A' @ map (\<lambda>(F, Q). (F, Q, None)) B"
    | (B) "A = []" "B = [(F, Q)]" "targ = None" "stack = []"
  proof (cases A)
    case Nil
    moreover have "length B \<le> 1" using gray_invD(7) [OF "2.prems"(1)] by (simp add: groups_ok_def)
    ultimately show ?thesis using "2.prems"(3) that(2) by (cases B) auto
  next
    case (Cons g A')
    then show ?thesis using "2.prems"(3) that(1) by (cases g) auto
  qed
  then show ?case
  proof cases
    case A
    note I = "2.prems"(1) [unfolded A(1)] and widths = "2.prems"(2) and props = "2.prems"(4-8)
    show ?thesis
    proof (cases "F = []")
      case True
      show ?thesis
        using "2.IH"(1) [OF True drop_group(1) [OF I [unfolded True]] widths A(3) props] True by (subst gray_loop.simps(2)) simp
    next
      case False
      let ?s1 = "apply_cxs mode order frozen (get_control_rows (net_rotations s) F t) t s"
      have s1: "?s1 = (case targ of None \<Rightarrow> s | Some t \<Rightarrow> apply_cxs mode order frozen (get_control_rows (net_rotations s) F t) t s)"
        by (simp add: A(2))
      have "0 < length (net_rotations s)"
      proof -
        obtain x where "x \<in> set F" using False by (cases F) auto
        then have "x \<in> set (concat (map fst (((F, Q) # A') @ B)) @ frozen)" by simp
        then have "x < length rs" unfolding gray_invD(6) [OF I] by simp
        then show ?thesis unfolding gray_invD(2) [OF I] by (cases rs) simp_all
      qed
      then have n: "rot_n_qubits (hd (net_rotations s)) = n" using widths by (cases "net_rotations s") (auto simp: live_widths_def)
      note ga = gather_inv [OF I False props(4,5) n, where mode = mode]
      obtain ops1 where I1: "gray_inv n order rs t ((F, Q) # A') B frozen ops1 ?s1" using ga(1) by blast
      have w1: "live_widths n ?s1" by (rule live_widths_cxs [OF widths])
      show ?thesis
      proof (cases "Q = []")
        case True
        obtain frozen' ops2 s2 where f: "freeze_all (Some t) F frozen ?s1 = Some (frozen', s2)"
          "gray_inv n order rs t A' B frozen' ops2 s2" "net_rotations s2 = net_rotations ?s1"
          using freeze_inv [OF I1 [unfolded True] ga(2) [OF True] props(1)] by blast
        have "live_widths n s2" using w1 f(3) by (simp add: live_widths_def)
        from "2.IH"(2) [OF False s1 True _ _ f(2) this A(3) props, of "(frozen', s2)"] f(1)
        show ?thesis using False True f(1) by (subst gray_loop.simps(2)) (simp add: A(2))
      next
        case q: False
        let ?r = "get_cofactor_row (net_rotations ?s1) F Q"
        let ?zero = "filter (\<lambda>x. \<not> z_at (net_rotations ?s1) x ?r) F" and ?one = "filter (\<lambda>x. z_at (net_rotations ?s1) x ?r) F"
        note sp = split_inv(1) [OF cofactor_row_in [OF q] I1]
        show ?thesis
          using "2.IH"(3) [OF False s1 q refl refl refl refl sp w1 _ props] False q
          by (subst gray_loop.simps(2)) (simp add: A(2,3) Let_def)
      qed
    qed
  next
    case B
    note I = "2.prems"(1) [unfolded B(1,2)] and widths = "2.prems"(2) and props = "2.prems"(4-8)
    have stack: "stack = map (\<lambda>(F, Q). (F, Q, Some t)) [] @ map (\<lambda>(F, Q). (F, Q, None)) []" by (simp add: B(4))
    show ?thesis
    proof (cases "F = []")
      case True
      show ?thesis
        using "2.IH"(1) [OF True drop_group(2) [OF I [unfolded True]] widths stack props] True by (subst gray_loop.simps(2)) simp
    next
      case False
      have s1: "s = (case targ of None \<Rightarrow> s | Some t \<Rightarrow> apply_cxs mode order frozen (get_control_rows (net_rotations s) F t) t s)"
        by (simp add: B(3))
      have q: "Q \<noteq> []"
      proof
        assume Q: "Q = []"
        obtain x where x: "x \<in> set F" using False by (cases F) auto
        note d = gray_invD [OF I]
        have xr: "x < length rs" "x \<notin> set frozen" using d(5,6) x by auto
        have "\<not> is_z_set (rot_product (net_rotations s ! x)) i" if "i < n" for i
          using d(7) x that Q by (auto simp: groups_ok_def idle_def z_at_def)
        moreover have "rot_ok n (rs ! x)" "rot_is_diagonal (rs ! x)" "\<not> is_identity (rot_product (rs ! x))"
          using props(1-3) xr(1) by (simp_all add: rots_ok_def diag_rotations_def reducible_def list_all_length)
        ultimately show False using carried_identity [OF d(3) [OF xr]] by blast
      qed
      note sp = split_inv(2) [OF cofactor_row_in [OF q] I]
      show ?thesis
        using "2.IH"(3) [OF False s1 q refl refl refl refl sp widths _ props] False q
        by (subst gray_loop.simps(2)) (simp add: B(3,4) Let_def)
    qed
  qed
qed

theorem gray_synthesize_spec:
  assumes rs: "rots_ok n rs" "diag_rotations rs" "reducible rs" "rs \<noteq> []"
    and o: "distinct order" "length order = n" and stop: "\<And>i. \<not> stop i"
  shows "\<exists>c k'. gray_synthesize stop mode order k rs = (Result c, k') \<and> extends_by n (rots_op rs) (qcir_new n) c"
proof -
  note n = rotations_qubits [OF rs(1,4)]
  obtain R rs' where R: "rs = R # rs'" using rs(4) by (cases rs) auto
  have "pp_ok n (rot_product R)" "\<not> is_identity (rot_product R)" using rs R by (auto dest: rot_okD(1))
  then have n0: "0 < n" by (cases n) (auto simp: is_identity_def pp_ok_def)
  let ?s = "network_init n rs" and ?B = "[([0..<length rs], [0..<n])]"
  have I: "gray_inv n order rs 0 [] ?B [] [] ?s"
    unfolding gray_inv_def
    using rs(1,2) n0 net_gates_init [of n rs]
    by (auto simp: groups_ok_def idle_def rots_ok_def diag_rotations_def list_all_length lessThan_atLeast0
        intro: carries_refl) (simp_all add: network_init_def carries_refl)
  have w: "live_widths n ?s"
    using rs(1) by (auto simp: live_widths_def network_init_def rots_ok_def list_all_iff rot_ok_def pp_ok_def rot_n_qubits_def)
  obtain s' ops' where s: "gray_loop mode order [([0..<length rs], [0..<n], None)] [] ?s = Some s'" "net_gates n ops' s'"
    "\<And>b. ops_turn ops' b = rots_turn n rs b"
    using gray_loop_spec [OF I w _ rs(1-3) o, of _ mode] by fastforce
  obtain c k' where "finish_network stop k s' = (Result c, k')" "extends_by n (rots_op rs) (qcir_new n) c"
    using finish_network_spec [OF s(2,3) rs(1,2), of stop k, OF stop] by blast
  then show ?thesis
    using rs(2,4) n n0 s(1) by (simp add: gray_synthesize_def diag_rotations_def)
qed

end
