(* ===== verification/Digraph.thy ===== *)
theory Digraph
  imports Prelude "HOL-Library.AList"
begin

text \<open>
  \<open>dvlab::Digraph\<close> (src/src/util/graph/digraph.hpp) with attributes on vertices and edges. The ordered hash maps and sets of
  the class are the lists of their elements, which \<open>OrderedHashTable\<close> justifies; the unordered maps are association
  lists of which only the lookup is used. \<open>at\<close> on a missing key throws, which is \<open>None\<close>.
\<close>

section \<open>The class\<close>

record ('v, 'e) digraph =
  next_vertex_id :: nat
  out_map :: "(nat \<times> nat list) list"
  in_map :: "(nat \<times> nat list) list"
  vertex_attributes :: "(nat \<times> 'v) list"
  edge_attributes :: "((nat \<times> nat) \<times> 'e) list"

definition dg_empty :: "('v, 'e) digraph" where
  "dg_empty = \<lparr>next_vertex_id = 0, out_map = [], in_map = [], vertex_attributes = [], edge_attributes = []\<rparr>"

definition insert_last :: "'a \<Rightarrow> 'a list \<Rightarrow> 'a list" where
  "insert_last x xs = (if x \<in> set xs then xs else xs @ [x])"

text \<open>\<open>operator[]\<close> of a map of neighbor sets, which makes an empty set for a missing key, with an update.\<close>

definition neighbors_of :: "nat \<Rightarrow> (nat \<times> nat list) list \<Rightarrow> nat list" where
  "neighbors_of v m = (case map_of m v of None \<Rightarrow> [] | Some ns \<Rightarrow> ns)"

definition update_neighbors :: "nat \<Rightarrow> (nat list \<Rightarrow> nat list) \<Rightarrow> (nat \<times> nat list) list \<Rightarrow> (nat \<times> nat list) list" where
  "update_neighbors v f m = AList.update v (f (neighbors_of v m)) m"

definition has_vertex :: "nat \<Rightarrow> ('v, 'e) digraph \<Rightarrow> bool" where
  "has_vertex v g \<longleftrightarrow> v \<in> set (map fst (vertex_attributes g))"

definition vertices :: "('v, 'e) digraph \<Rightarrow> nat list" where
  "vertices g = map fst (vertex_attributes g)"

definition put_vertex :: "nat \<Rightarrow> 'v \<Rightarrow> ('v, 'e) digraph \<Rightarrow> ('v, 'e) digraph" where
  "put_vertex v attr g =
     g\<lparr>vertex_attributes := AList.update v attr (vertex_attributes g),
       in_map := AList.update v [] (in_map g), out_map := AList.update v [] (out_map g)\<rparr>"

definition add_vertex :: "'v \<Rightarrow> ('v, 'e) digraph \<Rightarrow> ('v, 'e) digraph \<times> nat" where
  "add_vertex attr g = (let v = next_vertex_id g in (put_vertex v attr (g\<lparr>next_vertex_id := v + 1\<rparr>), v))"

definition add_vertex_with_id :: "'v \<Rightarrow> nat \<Rightarrow> ('v, 'e) digraph \<Rightarrow> ('v, 'e) digraph" where
  "add_vertex_with_id attr v g =
     (if has_vertex v g then g
      else (let g1 = put_vertex v attr g in if next_vertex_id g1 \<le> v then g1\<lparr>next_vertex_id := v + 1\<rparr> else g1))"

definition remove_vertex :: "nat \<Rightarrow> ('v, 'e) digraph \<Rightarrow> ('v, 'e) digraph \<times> nat" where
  "remove_vertex v g =
     (let n = (if has_vertex v g then 1 else 0);
          g1 = g\<lparr>vertex_attributes := AList.delete v (vertex_attributes g)\<rparr>;
          g2 = fold (\<lambda>dst g. g\<lparr>in_map := update_neighbors dst (removeAll v) (in_map g),
                               edge_attributes := AList.delete (v, dst) (edge_attributes g)\<rparr>) (neighbors_of v (out_map g1)) g1;
          g3 = fold (\<lambda>src g. g\<lparr>out_map := update_neighbors src (removeAll v) (out_map g),
                               edge_attributes := AList.delete (src, v) (edge_attributes g)\<rparr>) (neighbors_of v (in_map g2)) g2
      in (g3\<lparr>out_map := AList.delete v (out_map g3), in_map := AList.delete v (in_map g3)\<rparr>, n))"

definition add_edge :: "nat \<times> nat \<Rightarrow> 'e \<Rightarrow> ('v, 'e) digraph \<Rightarrow> ('v, 'e) digraph" where
  "add_edge e attr g =
     g\<lparr>edge_attributes := AList.update e attr (edge_attributes g),
       out_map := update_neighbors (fst e) (insert_last (snd e)) (out_map g),
       in_map := update_neighbors (snd e) (insert_last (fst e)) (in_map g)\<rparr>"

definition out_neighbors :: "nat \<Rightarrow> ('v, 'e) digraph \<Rightarrow> nat list option" where
  "out_neighbors v g = map_of (out_map g) v"

definition in_neighbors :: "nat \<Rightarrow> ('v, 'e) digraph \<Rightarrow> nat list option" where
  "in_neighbors v g = map_of (in_map g) v"

definition has_edge :: "nat \<times> nat \<Rightarrow> ('v, 'e) digraph \<Rightarrow> bool" where
  "has_edge e g \<longleftrightarrow> has_vertex (fst e) g \<and> has_vertex (snd e) g \<and> snd e \<in> set (the (out_neighbors (fst e) g))"

definition remove_edge :: "nat \<times> nat \<Rightarrow> ('v, 'e) digraph \<Rightarrow> ('v, 'e) digraph \<times> nat" where
  "remove_edge e g =
     (if \<not> has_edge e g then (g, 0)
      else (g\<lparr>out_map := update_neighbors (fst e) (removeAll (snd e)) (out_map g),
              in_map := update_neighbors (snd e) (removeAll (fst e)) (in_map g),
              edge_attributes := AList.delete e (edge_attributes g)\<rparr>, 1))"

definition vertex_attr :: "nat \<Rightarrow> ('v, 'e) digraph \<Rightarrow> 'v option" where
  "vertex_attr v g = map_of (vertex_attributes g) v"

definition edge_attr :: "nat \<times> nat \<Rightarrow> ('v, 'e) digraph \<Rightarrow> 'e option" where
  "edge_attr e g = map_of (edge_attributes g) e"

definition num_vertices :: "('v, 'e) digraph \<Rightarrow> nat" where
  "num_vertices g = length (vertex_attributes g)"

definition num_edges :: "('v, 'e) digraph \<Rightarrow> nat" where
  "num_edges g = length (edge_attributes g)"

definition in_degree :: "nat \<Rightarrow> ('v, 'e) digraph \<Rightarrow> nat option" where
  "in_degree v g = map_option length (in_neighbors v g)"

definition out_degree :: "nat \<Rightarrow> ('v, 'e) digraph \<Rightarrow> nat option" where
  "out_degree v g = map_option length (out_neighbors v g)"

definition dg_degree :: "nat \<Rightarrow> ('v, 'e) digraph \<Rightarrow> nat option" where
  "dg_degree v g = (case (out_degree v g, in_degree v g) of (Some a, Some b) \<Rightarrow> Some (a + b) | _ \<Rightarrow> None)"

definition in_edges :: "nat \<Rightarrow> ('v, 'e) digraph \<Rightarrow> (nat \<times> nat) list option" where
  "in_edges v g = map_option (map (\<lambda>src. (src, v))) (in_neighbors v g)"

definition out_edges :: "nat \<Rightarrow> ('v, 'e) digraph \<Rightarrow> (nat \<times> nat) list option" where
  "out_edges v g = map_option (map (\<lambda>dst. (v, dst))) (out_neighbors v g)"

definition edges :: "('v, 'e) digraph \<Rightarrow> (nat \<times> nat) list option" where
  "edges g = map_option concat (those (map (\<lambda>v. out_edges v g) (vertices g)))"

definition digraph_eq :: "('v, 'e) digraph \<Rightarrow> ('v, 'e) digraph \<Rightarrow> bool" where
  "digraph_eq g h \<longleftrightarrow> num_vertices g = num_vertices h \<and> num_edges g = num_edges h \<and>
     list_all (\<lambda>v. has_vertex v h \<and> vertex_attr v g = vertex_attr v h) (vertices g) \<and>
     list_all (\<lambda>e. has_edge e h \<and> edge_attr e g = edge_attr e h) (map fst (edge_attributes g))"

section \<open>Well-formed graphs\<close>

definition arcs :: "('v, 'e) digraph \<Rightarrow> (nat \<times> nat) set" where
  "arcs g = {(u, v). v \<in> set (neighbors_of u (out_map g))}"

definition verts :: "('v, 'e) digraph \<Rightarrow> nat set" where
  "verts g = set (vertices g)"

definition dg_ok :: "('v, 'e) digraph \<Rightarrow> bool" where
  "dg_ok g \<longleftrightarrow> distinct (vertices g) \<and> distinct (map fst (edge_attributes g)) \<and>
     dom (map_of (out_map g)) = verts g \<and> dom (map_of (in_map g)) = verts g \<and>
     (\<forall>u v. v \<in> set (neighbors_of u (out_map g)) \<longleftrightarrow> u \<in> set (neighbors_of v (in_map g))) \<and>
     (\<forall>u. distinct (neighbors_of u (out_map g)) \<and> distinct (neighbors_of u (in_map g))) \<and>
     fst ` set (edge_attributes g) = arcs g \<and> arcs g \<subseteq> verts g \<times> verts g \<and> (\<forall>v \<in> verts g. v < next_vertex_id g)"

lemma has_vertex_iff [simp]: "has_vertex v g \<longleftrightarrow> v \<in> verts g"
  by (simp add: has_vertex_def verts_def vertices_def)

lemma map_of_update [simp]: "map_of (AList.update k v m) k' = (if k' = k then Some v else map_of m k')"
  by (simp add: update_conv)

lemma map_of_delete [simp]: "map_of (AList.delete k m) k' = (if k' = k then None else map_of m k')"
  by (simp add: delete_conv)

lemma neighbors_simps [simp]:
  "neighbors_of u (AList.update v ns m) = (if u = v then ns else neighbors_of u m)"
  "neighbors_of u (AList.delete v m) = (if u = v then [] else neighbors_of u m)"
  "neighbors_of u (update_neighbors v f m) = (if u = v then f (neighbors_of v m) else neighbors_of u m)"
  by (auto simp: neighbors_of_def update_neighbors_def)

lemma dom_map_of_update [simp]: "dom (map_of (AList.update k v m)) = insert k (dom (map_of m))"
  by (auto simp: dom_def)

lemma dom_map_of_delete [simp]: "dom (map_of (AList.delete k m)) = dom (map_of m) - {k}"
  by (auto simp: dom_def)

lemma dom_update_neighbors [simp]: "dom (map_of (update_neighbors k f m)) = insert k (dom (map_of m))"
  by (simp add: update_neighbors_def)

lemma insert_last_props [simp]: "set (insert_last x xs) = insert x (set xs)" "distinct (insert_last x xs) = distinct xs"
  by (auto simp: insert_last_def)

lemma keys_dom: "fst ` set m = dom (map_of m)"
  by (simp add: dom_map_of_conv_image_fst)

lemma keys_update: "distinct (map fst m) \<Longrightarrow> distinct (map fst (AList.update k v m))" "fst ` set (AList.update k v m) = insert k (fst ` set m)"
  by (rule distinct_update) (simp_all only: keys_dom dom_map_of_update)

lemma keys_delete: "distinct (map fst m) \<Longrightarrow> distinct (map fst (AList.delete k m))" "fst ` set (AList.delete k m) = fst ` set m - {k}"
  by (rule distinct_delete) (simp_all only: keys_dom dom_map_of_delete)

lemma dg_okD:
  assumes "dg_ok g"
  shows "distinct (vertices g)" "distinct (map fst (edge_attributes g))" "dom (map_of (out_map g)) = verts g" "dom (map_of (in_map g)) = verts g"
    "\<And>u v. v \<in> set (neighbors_of u (out_map g)) \<longleftrightarrow> u \<in> set (neighbors_of v (in_map g))"
    "\<And>u. distinct (neighbors_of u (out_map g))" "\<And>u. distinct (neighbors_of u (in_map g))"
    "fst ` set (edge_attributes g) = arcs g" "arcs g \<subseteq> verts g \<times> verts g" "\<And>v. v \<in> verts g \<Longrightarrow> v < next_vertex_id g"
  using assms by (simp_all add: dg_ok_def)

lemma neighbors_at:
  assumes "dg_ok g" "v \<in> verts g"
  shows "out_neighbors v g = Some (neighbors_of v (out_map g))" "in_neighbors v g = Some (neighbors_of v (in_map g))"
  using dg_okD(3,4) [OF assms(1)] assms(2) by (auto simp: out_neighbors_def in_neighbors_def neighbors_of_def split: option.splits)

lemma arcs_iff:
  assumes "dg_ok g"
  shows "(u, v) \<in> arcs g \<longleftrightarrow> v \<in> set (neighbors_of u (out_map g))" "(u, v) \<in> arcs g \<longleftrightarrow> u \<in> set (neighbors_of v (in_map g))"
  using dg_okD(5) [OF assms] by (auto simp: arcs_def)

lemma edge_attr_iff: "dg_ok g \<Longrightarrow> edge_attr e g \<noteq> None \<longleftrightarrow> e \<in> arcs g"
  by (simp add: edge_attr_def map_of_eq_None_iff dg_okD(8))

lemma has_edge_iff: "dg_ok g \<Longrightarrow> has_edge e g \<longleftrightarrow> e \<in> arcs g"
proof -
  assume g: "dg_ok g"
  obtain u v where e: "e = (u, v)" by (cases e)
  show ?thesis using neighbors_at(1) [OF g, of u] arcs_iff(1) [OF g, of u v] dg_okD(9) [OF g] by (auto simp: has_edge_def e)
qed

lemma dg_empty_ok: "dg_ok dg_empty" "verts dg_empty = {}" "arcs dg_empty = {}"
  by (simp_all add: dg_ok_def dg_empty_def vertices_def verts_def neighbors_of_def arcs_def)

section \<open>Operations on vertices and edges\<close>

lemma dg_okI:
  assumes "distinct (vertices g)" "distinct (map fst (edge_attributes g))" "dom (map_of (out_map g)) = verts g" "dom (map_of (in_map g)) = verts g"
    "\<And>u v. v \<in> set (neighbors_of u (out_map g)) \<longleftrightarrow> u \<in> set (neighbors_of v (in_map g))"
    "\<And>u. distinct (neighbors_of u (out_map g))" "\<And>u. distinct (neighbors_of u (in_map g))"
    "fst ` set (edge_attributes g) = arcs g" "arcs g \<subseteq> verts g \<times> verts g" "\<And>v. v \<in> verts g \<Longrightarrow> v < next_vertex_id g"
  shows "dg_ok g"
  unfolding dg_ok_def using assms by blast

lemma no_neighbors:
  assumes "dg_ok g" "v \<notin> verts g"
  shows "neighbors_of v (out_map g) = []" "neighbors_of v (in_map g) = []"
  using dg_okD(3,4) [OF assms(1)] assms(2) by (auto simp: neighbors_of_def domIff split: option.splits)

lemma put_vertex_fields [simp]:
  "vertex_attributes (put_vertex v a g) = AList.update v a (vertex_attributes g)" "edge_attributes (put_vertex v a g) = edge_attributes g"
  "in_map (put_vertex v a g) = AList.update v [] (in_map g)" "out_map (put_vertex v a g) = AList.update v [] (out_map g)"
  "next_vertex_id (put_vertex v a g) = next_vertex_id g"
  by (simp_all add: put_vertex_def)

lemma verts_put_vertex [simp]: "verts (put_vertex v a g) = insert v (verts g)"
  using keys_update(2) [of v a "vertex_attributes g"] by (simp add: verts_def vertices_def)

lemma put_vertex_fresh:
  assumes g: "dg_ok g" and v: "v \<notin> verts g"
  shows "arcs (put_vertex v a g) = arcs g" "dg_ok ((put_vertex v a g)\<lparr>next_vertex_id := max (next_vertex_id g) (v + 1)\<rparr>)"
proof -
  show arcs: "arcs (put_vertex v a g) = arcs g" using no_neighbors [OF g v] by (auto simp: arcs_def split: if_splits)
  let ?g = "(put_vertex v a g)\<lparr>next_vertex_id := max (next_vertex_id g) (v + 1)\<rparr>"
  have vs: "verts ?g = insert v (verts g)" using verts_put_vertex [of v a g] by (simp add: verts_def vertices_def)
  have as: "arcs ?g = arcs g" using arcs by (simp add: arcs_def)
  show "dg_ok ?g"
  proof (rule dg_okI)
    show "distinct (vertices ?g)" using dg_okD(1) [OF g] keys_update(1) [of "vertex_attributes g"] by (simp add: vertices_def)
    show "\<And>u w. w \<in> set (neighbors_of u (out_map ?g)) \<longleftrightarrow> u \<in> set (neighbors_of w (in_map ?g))"
      using dg_okD(5) [OF g] no_neighbors [OF g v] by (simp, metis empty_iff empty_set)
    show "arcs ?g \<subseteq> verts ?g \<times> verts ?g" unfolding as vs using dg_okD(9) [OF g] by blast
    show "\<And>w. w \<in> verts ?g \<Longrightarrow> w < next_vertex_id ?g" unfolding vs using dg_okD(10) [OF g] by fastforce
    show "fst ` set (edge_attributes ?g) = arcs ?g" unfolding as using dg_okD(8) [OF g] by simp
  qed (use dg_okD [OF g] vs in simp_all)
qed

theorem add_vertex_spec:
  assumes g: "dg_ok g" and r: "add_vertex a g = (g', v)"
  shows "v \<notin> verts g" "dg_ok g'" "verts g' = insert v (verts g)" "arcs g' = arcs g" "edge_attr e g' = edge_attr e g"
proof -
  have v: "v = next_vertex_id g" and g': "g' = (put_vertex v a g)\<lparr>next_vertex_id := max (next_vertex_id g) (v + 1)\<rparr>"
    using r by (auto simp: add_vertex_def put_vertex_def Let_def)
  show nv: "v \<notin> verts g" using dg_okD(10) [OF g, of v] v by blast
  show "dg_ok g'" unfolding g' by (rule put_vertex_fresh(2) [OF g nv])
  show "verts g' = insert v (verts g)" using verts_put_vertex [of v a g] by (simp add: g' verts_def vertices_def)
  show "arcs g' = arcs g" using put_vertex_fresh(1) [OF g nv, of a] by (simp add: g' arcs_def)
  show "edge_attr e g' = edge_attr e g" by (simp add: g' edge_attr_def)
qed

theorem add_vertex_with_id_spec:
  assumes g: "dg_ok g"
  shows "dg_ok (add_vertex_with_id a v g)" "verts (add_vertex_with_id a v g) = insert v (verts g)"
    "arcs (add_vertex_with_id a v g) = arcs g" "edge_attr e (add_vertex_with_id a v g) = edge_attr e g"
proof -
  let ?g = "add_vertex_with_id a v g"
  have new: "?g = (put_vertex v a g)\<lparr>next_vertex_id := max (next_vertex_id g) (v + 1)\<rparr>" if "v \<notin> verts g"
    using that by (auto simp: add_vertex_with_id_def put_vertex_def Let_def max_def)
  have old: "?g = g" if "v \<in> verts g" using that by (simp add: add_vertex_with_id_def)
  show "dg_ok ?g" using put_vertex_fresh(2) [OF g] new old g by metis
  show "verts ?g = insert v (verts g)" using verts_put_vertex [of v a g] new old
    by (cases "v \<in> verts g") (simp_all add: insert_absorb verts_def vertices_def)
  show "arcs ?g = arcs g" using put_vertex_fresh(1) [OF g, of v a] new old by (cases "v \<in> verts g") (simp_all add: arcs_def)
  show "edge_attr e ?g = edge_attr e g" using new old by (cases "v \<in> verts g") (simp_all add: edge_attr_def)
qed

theorem add_edge_spec:
  assumes g: "dg_ok g" and e: "fst e \<in> verts g" "snd e \<in> verts g"
  shows "dg_ok (add_edge e c g)" "verts (add_edge e c g) = verts g" "arcs (add_edge e c g) = insert e (arcs g)"
    "edge_attr f (add_edge e c g) = (if f = e then Some c else edge_attr f g)"
proof -
  let ?g = "add_edge e c g"
  show vs: "verts ?g = verts g" by (simp add: add_edge_def verts_def vertices_def)
  show as: "arcs ?g = insert e (arcs g)" by (cases e) (auto simp: add_edge_def arcs_def split: if_splits)
  show "edge_attr f ?g = (if f = e then Some c else edge_attr f g)" by (simp add: add_edge_def edge_attr_def)
  show "dg_ok ?g"
  proof (rule dg_okI)
    show "distinct (vertices ?g)" using dg_okD(1) [OF g] by (simp add: add_edge_def vertices_def)
    show "distinct (map fst (edge_attributes ?g))" using keys_update(1) [OF dg_okD(2) [OF g]] by (simp add: add_edge_def)
    show "dom (map_of (out_map ?g)) = verts ?g" unfolding vs using dg_okD(3) [OF g] e by (auto simp: add_edge_def)
    show "dom (map_of (in_map ?g)) = verts ?g" unfolding vs using dg_okD(4) [OF g] e by (auto simp: add_edge_def)
    show "\<And>u w. w \<in> set (neighbors_of u (out_map ?g)) \<longleftrightarrow> u \<in> set (neighbors_of w (in_map ?g))"
      using dg_okD(5) [OF g] by (auto simp: add_edge_def)
    show "\<And>u. distinct (neighbors_of u (out_map ?g))" "\<And>u. distinct (neighbors_of u (in_map ?g))"
      using dg_okD(6,7) [OF g] by (simp_all add: add_edge_def)
    show "fst ` set (edge_attributes ?g) = arcs ?g" unfolding as using dg_okD(8) [OF g] by (simp add: add_edge_def keys_update(2))
    show "arcs ?g \<subseteq> verts ?g \<times> verts ?g" unfolding as vs using dg_okD(9) [OF g] e by (cases e) auto
    show "\<And>v. v \<in> verts ?g \<Longrightarrow> v < next_vertex_id ?g" unfolding vs using dg_okD(10) [OF g] by (simp add: add_edge_def)
  qed
qed

lemma cut_in_edges:
  fixes g :: "('v, 'e) digraph" and v :: nat
  defines "h \<equiv> \<lambda>ds. fold (\<lambda>dst g. g\<lparr>in_map := update_neighbors dst (removeAll v) (in_map g),
                                      edge_attributes := AList.delete (v, dst) (edge_attributes g)\<rparr>) ds"
  shows "neighbors_of u (in_map (h ds g)) = (if u \<in> set ds then removeAll v (neighbors_of u (in_map g)) else neighbors_of u (in_map g))"
    "dom (map_of (in_map (h ds g))) = dom (map_of (in_map g)) \<union> set ds" "out_map (h ds g) = out_map g"
    "vertex_attributes (h ds g) = vertex_attributes g" "next_vertex_id (h ds g) = next_vertex_id g"
    "map_of (edge_attributes (h ds g)) e = (if fst e = v \<and> snd e \<in> set ds then None else map_of (edge_attributes g) e)"
    "distinct (map fst (edge_attributes g)) \<Longrightarrow> distinct (map fst (edge_attributes (h ds g)))"
  by (induction ds arbitrary: g) (auto simp: h_def keys_delete(1))

lemma cut_out_edges:
  fixes g :: "('v, 'e) digraph" and v :: nat
  defines "h \<equiv> \<lambda>ss. fold (\<lambda>src g. g\<lparr>out_map := update_neighbors src (removeAll v) (out_map g),
                                      edge_attributes := AList.delete (src, v) (edge_attributes g)\<rparr>) ss"
  shows "neighbors_of u (out_map (h ss g)) = (if u \<in> set ss then removeAll v (neighbors_of u (out_map g)) else neighbors_of u (out_map g))"
    "dom (map_of (out_map (h ss g))) = dom (map_of (out_map g)) \<union> set ss" "in_map (h ss g) = in_map g"
    "vertex_attributes (h ss g) = vertex_attributes g" "next_vertex_id (h ss g) = next_vertex_id g"
    "map_of (edge_attributes (h ss g)) e = (if snd e = v \<and> fst e \<in> set ss then None else map_of (edge_attributes g) e)"
    "distinct (map fst (edge_attributes g)) \<Longrightarrow> distinct (map fst (edge_attributes (h ss g)))"
  by (induction ss arbitrary: g) (auto simp: h_def keys_delete(1))

theorem remove_vertex_spec:
  assumes g: "dg_ok g" and r: "remove_vertex v g = (g', n)"
  shows "dg_ok g'" "verts g' = verts g - {v}" "arcs g' = {(u, w) \<in> arcs g. u \<noteq> v \<and> w \<noteq> v}" "n = (if v \<in> verts g then 1 else 0)"
    "edge_attr e g' = (if fst e = v \<or> snd e = v then None else edge_attr e g)"
proof -
  let ?g1 = "g\<lparr>vertex_attributes := AList.delete v (vertex_attributes g)\<rparr>"
  define g2 where "g2 = fold (\<lambda>dst g. g\<lparr>in_map := update_neighbors dst (removeAll v) (in_map g),
       edge_attributes := AList.delete (v, dst) (edge_attributes g)\<rparr>) (neighbors_of v (out_map ?g1)) ?g1"
  define g3 where "g3 = fold (\<lambda>src g. g\<lparr>out_map := update_neighbors src (removeAll v) (out_map g),
       edge_attributes := AList.delete (src, v) (edge_attributes g)\<rparr>) (neighbors_of v (in_map g2)) g2"
  have g': "g' = g3\<lparr>out_map := AList.delete v (out_map g3), in_map := AList.delete v (in_map g3)\<rparr>" and n: "n = (if v \<in> verts g then 1 else 0)"
    using r by (simp_all add: remove_vertex_def Let_def g2_def g3_def split: if_splits)
  note D = dg_okD [OF g]
  note c2 = cut_in_edges [where ds = "neighbors_of v (out_map ?g1)" and v = v and g = ?g1, folded g2_def]
  note c3 = cut_out_edges [where ss = "neighbors_of v (in_map g2)" and v = v and g = g2, folded g3_def]
  have va: "vertex_attributes g' = AList.delete v (vertex_attributes g)" by (simp add: g' c3 c2)
  show vs: "verts g' = verts g - {v}" using keys_delete(2) [of v "vertex_attributes g"] va by (simp add: verts_def vertices_def)
  have in2: "neighbors_of u (in_map g2) = removeAll v (neighbors_of u (in_map g))" for u
    using c2(1) [of u] D(5) [of u v] by (simp add: removeAll_id)
  have out3: "neighbors_of u (out_map g3) = (if u = v then neighbors_of u (out_map g) else removeAll v (neighbors_of u (out_map g)))" for u
    using c3(1) [of u] c2(3) D(5) [of v u] D(5) [of v v] by (auto simp: in2 removeAll_id)
  have nout: "neighbors_of u (out_map g') = (if u = v then [] else removeAll v (neighbors_of u (out_map g)))" for u
    by (simp add: g' out3)
  have nin: "neighbors_of u (in_map g') = (if u = v then [] else removeAll v (neighbors_of u (in_map g)))" for u
    by (simp add: g' c3(3) in2)
  show as: "arcs g' = {(u, w) \<in> arcs g. u \<noteq> v \<and> w \<noteq> v}" by (auto simp: arcs_def nout split: if_splits)
  have ea: "map_of (edge_attributes g') f = (if fst f = v \<or> snd f = v then None else map_of (edge_attributes g) f)" for f
  proof (cases "f \<in> arcs g")
    case True
    obtain x y where f: "f = (x, y)" by (cases f)
    have "y \<in> set (neighbors_of x (out_map g))" "x \<in> set (neighbors_of y (in_map g))" using arcs_iff [OF g, of x y] True f by simp_all
    then show ?thesis using c3(6) [of f] c2(6) [of f] f in2 [of v] by (auto simp: g')
  next
    case False
    then have "map_of (edge_attributes g) f = None" using D(8) by (simp add: map_of_eq_None_iff)
    then show ?thesis using c3(6) [of f] c2(6) [of f] by (auto simp: g')
  qed
  show "edge_attr e g' = (if fst e = v \<or> snd e = v then None else edge_attr e g)" using ea by (simp add: edge_attr_def)
  show "n = (if v \<in> verts g then 1 else 0)" by (rule n)
  have outs: "set (neighbors_of v (out_map g)) \<subseteq> verts g" "set (neighbors_of v (in_map g2)) \<subseteq> verts g"
    using D(9) D(5) in2 [of v] by (auto simp: arcs_def)
  show "dg_ok g'"
  proof (rule dg_okI)
    show "distinct (vertices g')" using D(1) keys_delete(1) [of "vertex_attributes g"] by (simp add: vertices_def va)
    show "distinct (map fst (edge_attributes g'))" using c3(7) [OF c2(7)] D(2) by (simp add: g')
    show "dom (map_of (out_map g')) = verts g'" unfolding vs using c3(2) c2(3) outs D(3) by (auto simp: g')
    show "dom (map_of (in_map g')) = verts g'" unfolding vs using c3(3) c2(2) outs D(4) by (auto simp: g')
    show "\<And>u w. w \<in> set (neighbors_of u (out_map g')) \<longleftrightarrow> u \<in> set (neighbors_of w (in_map g'))"
      by (simp add: nout nin D(5))
    show "\<And>u. distinct (neighbors_of u (out_map g'))" "\<And>u. distinct (neighbors_of u (in_map g'))"
      by (simp_all add: nout nin D(6,7) distinct_removeAll)
    show "fst ` set (edge_attributes g') = arcs g'" unfolding keys_dom using ea D(8) unfolding keys_dom as by (auto simp: dom_def split: if_splits)
    show "arcs g' \<subseteq> verts g' \<times> verts g'" unfolding as vs using D(9) by blast
    show "\<And>w. w \<in> verts g' \<Longrightarrow> w < next_vertex_id g'" unfolding vs using D(10) by (simp add: g' c3(5) c2(5))
  qed
qed

lemma remove_vertex_next: "next_vertex_id (fst (remove_vertex v g)) = next_vertex_id g"
  by (simp add: remove_vertex_def Let_def cut_in_edges(5) cut_out_edges(5))

theorem remove_edge_spec:
  assumes g: "dg_ok g" and r: "remove_edge e g = (g', n)"
  shows "dg_ok g'" "verts g' = verts g" "arcs g' = arcs g - {e}" "n = (if e \<in> arcs g then 1 else 0)"
    "edge_attr f g' = (if f = e then None else edge_attr f g)"
proof -
  have miss: "edge_attr e g = None" if "e \<notin> arcs g" using edge_attr_iff [OF g, of e] that by simp
  have no: "g' = g" if "e \<notin> arcs g" using r that by (simp add: remove_edge_def has_edge_iff [OF g])
  have yes: "g' = g\<lparr>out_map := update_neighbors (fst e) (removeAll (snd e)) (out_map g),
              in_map := update_neighbors (snd e) (removeAll (fst e)) (in_map g),
              edge_attributes := AList.delete e (edge_attributes g)\<rparr>" if "e \<in> arcs g"
    using r that by (simp add: remove_edge_def has_edge_iff [OF g])
  show "n = (if e \<in> arcs g then 1 else 0)" using r by (auto simp: remove_edge_def has_edge_iff [OF g] split: if_splits)
  show vs: "verts g' = verts g" using no yes by (cases "e \<in> arcs g") (simp_all add: verts_def vertices_def)
  show as: "arcs g' = arcs g - {e}" using no yes by (cases "e \<in> arcs g"; cases e) (auto simp: arcs_def split: if_splits)
  show "edge_attr f g' = (if f = e then None else edge_attr f g)"
    using no yes miss by (cases "e \<in> arcs g") (simp_all add: edge_attr_def)
  show "dg_ok g'"
  proof (cases "e \<in> arcs g")
    case True
    note g' = yes [OF True]
    have e: "fst e \<in> verts g" "snd e \<in> verts g" using dg_okD(9) [OF g] True by auto
    show ?thesis
    proof (rule dg_okI)
      show "distinct (vertices g')" using dg_okD(1) [OF g] by (simp add: g' vertices_def)
      show "distinct (map fst (edge_attributes g'))" using keys_delete(1) [OF dg_okD(2) [OF g]] by (simp add: g')
      show "dom (map_of (out_map g')) = verts g'" unfolding vs using dg_okD(3) [OF g] e by (auto simp: g')
      show "dom (map_of (in_map g')) = verts g'" unfolding vs using dg_okD(4) [OF g] e by (auto simp: g')
      show "\<And>u w. w \<in> set (neighbors_of u (out_map g')) \<longleftrightarrow> u \<in> set (neighbors_of w (in_map g'))"
        using dg_okD(5) [OF g] by (auto simp: g')
      show "\<And>u. distinct (neighbors_of u (out_map g'))" "\<And>u. distinct (neighbors_of u (in_map g'))"
        using dg_okD(6,7) [OF g] by (simp_all add: g' distinct_removeAll)
      show "fst ` set (edge_attributes g') = arcs g'" unfolding as using dg_okD(8) [OF g] by (simp add: g' keys_delete(2))
      show "arcs g' \<subseteq> verts g' \<times> verts g'" unfolding as vs using dg_okD(9) [OF g] by blast
      show "\<And>v. v \<in> verts g' \<Longrightarrow> v < next_vertex_id g'" unfolding vs using dg_okD(10) [OF g] by (simp add: g')
    qed
  qed (use no g in simp)
qed

end
