(* ===== verification/Arborescence.thy ===== *)
theory Arborescence
  imports Digraph
begin

text \<open>
  src/src/util/graph/minimum_spanning_arborescence.hpp: the contraction algorithm for a spanning arborescence with a given
  root, and the choice of the best root. Reads that are out of range, dereferences of an empty range and failed
  assertions are \<open>None\<close>. The costs are unbounded integers; their sum has to stay below the bound of the machine type.
\<close>

section \<open>Cycles\<close>

text \<open>\<open>while (cycle.empty() || cycle.front() != w)\<close>; the fuel is one more than the number of vertices.\<close>

fun cycle_from :: "nat \<Rightarrow> ('v, int) digraph \<Rightarrow> nat list \<Rightarrow> nat \<Rightarrow> nat list option" where
  "cycle_from 0 g cycle w = None"
| "cycle_from (Suc fuel) g cycle w =
     (if cycle \<noteq> [] \<and> hd cycle = w then Some cycle
      else (case in_neighbors w g of
              Some (p # ps) \<Rightarrow> cycle_from fuel g (cycle @ [w]) p
            | _ \<Rightarrow> None))"

datatype search = Failed | NoCycle | Cycle "nat list"

text \<open>The stack has its top at the head.\<close>

function find_cycle_from :: "('v, int) digraph \<Rightarrow> nat list \<Rightarrow> nat list \<Rightarrow> search" where
  "find_cycle_from g visited [] = NoCycle"
| "find_cycle_from g visited (w # stack) =
     (if w \<in> set visited then (case cycle_from (num_vertices g + 1) g [] w of None \<Rightarrow> Failed | Some c \<Rightarrow> Cycle c)
      else (case out_neighbors w g of
              None \<Rightarrow> Failed
            | Some us \<Rightarrow> find_cycle_from g (w # visited) (rev us @ stack)))"
  by pat_completeness auto
termination
proof (relation "measure (\<lambda>(g, visited, stack). length (filter (\<lambda>v. v \<notin> set visited) (map fst (out_map g))))", goal_cases)
  case (2 g visited w stack us)
  let ?ks = "map fst (out_map g)"
  have w: "w \<in> set ?ks" using 2(2) unfolding set_map keys_dom by (auto simp: out_neighbors_def)
  have "length (filter (\<lambda>v. v \<notin> set (w # visited)) ?ks) = length (filter (\<lambda>v. v \<noteq> w) (filter (\<lambda>v. v \<notin> set visited) ?ks))"
    unfolding filter_filter by (metis (lifting) list.set_intros(1) set_ConsD list.set_intros(2))
  also have "\<dots> < length (filter (\<lambda>v. v \<notin> set visited) ?ks)"
    by (rule length_filter_less [of w]) (use w 2(1) in auto)
  finally show ?case by simp
qed simp

declare find_cycle_from.simps(2) [simp del]

fun find_cycle_at :: "('v, int) digraph \<Rightarrow> nat list \<Rightarrow> search" where
  "find_cycle_at g [] = NoCycle"
| "find_cycle_at g (v # vs) = (case find_cycle_from g [] [v] of NoCycle \<Rightarrow> find_cycle_at g vs | r \<Rightarrow> r)"

definition find_cycle :: "('v, int) digraph \<Rightarrow> search" where
  "find_cycle g = find_cycle_at g (vertices g)"

section \<open>The cheapest edges\<close>

text \<open>\<open>min_element\<close> gives the first of the least elements.\<close>

fun min_element_by :: "(nat \<Rightarrow> int) \<Rightarrow> nat list \<Rightarrow> nat option" where
  "min_element_by f [] = None"
| "min_element_by f (w # ws) = (case min_element_by f ws of None \<Rightarrow> Some w | Some m \<Rightarrow> if f m < f w then Some m else Some w)"

definition cost :: "('v, int) digraph \<Rightarrow> nat \<times> nat \<Rightarrow> int" where
  "cost g e = the (edge_attr e g)"

definition min_in_edges :: "('v, int) digraph \<Rightarrow> nat \<Rightarrow> (nat \<times> nat) list option" where
  "min_in_edges g root =
     those (map (\<lambda>v. map_option (\<lambda>w. (w, v)) (Option.bind (in_neighbors v g) (min_element_by (\<lambda>w. cost g (w, v)))))
                (filter (\<lambda>v. v \<noteq> root) (vertices g)))"

definition build_min_edge_subgraph :: "'v \<Rightarrow> ('v, int) digraph \<Rightarrow> nat \<Rightarrow> ('v, int) digraph option" where
  "build_min_edge_subgraph attr g root =
     map_option (\<lambda>es. fold (\<lambda>e. add_edge e (cost g e)) es (fold (add_vertex_with_id attr) (vertices g) dg_empty)) (min_in_edges g root)"

section \<open>Contraction of a cycle\<close>

type_synonym 'v contraction = "('v, int) digraph \<times> (nat \<rightharpoonup> nat) \<times> (nat \<rightharpoonup> nat)"

definition first_pred :: "('v, int) digraph \<Rightarrow> nat \<Rightarrow> nat" where
  "first_pred g v = hd (the (in_neighbors v g))"

definition contract_edge :: "('v, int) digraph \<Rightarrow> ('v, int) digraph \<Rightarrow> nat \<Rightarrow> nat \<times> nat \<Rightarrow> 'v contraction \<Rightarrow> 'v contraction" where
  "contract_edge g min_edges v_cycle e s =
     (let (u, v) = e; (g', in_idx, out_idx) = s in
      if has_vertex u g' \<and> \<not> has_vertex v g' then
        (let new_weight = cost g (u, v) + cost min_edges (first_pred min_edges v, v) in
         if \<not> has_edge (u, v_cycle) g' \<or> new_weight < cost g' (u, v_cycle)
         then (add_edge (u, v_cycle) new_weight g', in_idx(u \<mapsto> v), out_idx)
         else s)
      else if \<not> has_vertex u g' \<and> has_vertex v g' then
        (let weight = cost g (u, v) in
         if \<not> has_edge (v_cycle, v) g' \<or> weight < cost g' (v_cycle, v)
         then (add_edge (v_cycle, v) weight g', in_idx, out_idx(v \<mapsto> u))
         else s)
      else s)"

definition contract :: "'v \<Rightarrow> ('v, int) digraph \<Rightarrow> ('v, int) digraph \<Rightarrow> nat list \<Rightarrow> 'v contraction \<times> nat" where
  "contract attr g min_edges cycle =
     (let (g', v_cycle) = add_vertex attr (fold (\<lambda>v g. fst (remove_vertex v g)) cycle g)
      in (fold (contract_edge g min_edges v_cycle) (the (edges g)) (g', Map.empty, Map.empty), v_cycle))"

definition expand :: "'v \<Rightarrow> ('v, int) digraph \<Rightarrow> ('v, int) digraph \<Rightarrow> nat list \<Rightarrow> nat \<Rightarrow> (nat \<rightharpoonup> nat) \<Rightarrow> (nat \<rightharpoonup> nat)
    \<Rightarrow> ('v, int) digraph \<Rightarrow> ('v, int) digraph option" where
  "expand attr g min_edges cycle v_cycle in_idx out_idx mst =
     (let mst1 = fold (add_vertex_with_id attr) cycle mst in
      case out_neighbors v_cycle mst1 of
        None \<Rightarrow> None
      | Some outs \<Rightarrow>
          (if \<not> list_all (\<lambda>w. out_idx w \<noteq> None) outs then None
           else (let mst2 = fold (\<lambda>w. add_edge (the (out_idx w), w) (cost g (the (out_idx w), w))) outs mst1 in
                 case in_neighbors v_cycle mst2 of
                   Some [src] \<Rightarrow>
                     (case in_idx src of
                        None \<Rightarrow> None
                      | Some orig_in \<Rightarrow>
                          (let mst3 = add_edge (src, orig_in) (cost g (src, orig_in)) mst2;
                               (mst4, n) = remove_vertex v_cycle mst3;
                               mst5 = fold (\<lambda>v. add_edge (first_pred min_edges v, v) (cost min_edges (first_pred min_edges v, v)))
                                           (filter (\<lambda>v. v \<noteq> orig_in) cycle) mst4
                           in if n = 1 \<and> num_edges mst5 = num_vertices g - 1 then Some mst5 else None))
                 | _ \<Rightarrow> None)))"

text \<open>Every contraction of a cycle of two vertices or more leaves fewer vertices, so that their number is enough fuel.\<close>

fun spanning_arborescence :: "nat \<Rightarrow> 'v \<Rightarrow> ('v, int) digraph \<Rightarrow> nat \<Rightarrow> ('v, int) digraph option" where
  "spanning_arborescence 0 attr g root = None"
| "spanning_arborescence (Suc fuel) attr g root =
     (case build_min_edge_subgraph attr g root of
        None \<Rightarrow> None
      | Some min_edges \<Rightarrow>
          (case find_cycle min_edges of
             Failed \<Rightarrow> None
           | NoCycle \<Rightarrow> Some min_edges
           | Cycle cycle \<Rightarrow>
               (let ((g', in_idx, out_idx), v_cycle) = contract attr g min_edges cycle
                in Option.bind (spanning_arborescence fuel attr g' root) (expand attr g min_edges cycle v_cycle in_idx out_idx))))"

definition total_weight :: "('v, int) digraph \<Rightarrow> int" where
  "total_weight g = (\<Sum>e \<leftarrow> the (edges g). cost g e)"

fun best_root :: "'v \<Rightarrow> ('v, int) digraph \<Rightarrow> nat list \<Rightarrow> int \<times> ('v, int) digraph \<times> nat \<Rightarrow> (('v, int) digraph \<times> nat) option" where
  "best_root attr g [] (c, mst, root) = Some (mst, root)"
| "best_root attr g (v # vs) (c, mst, root) =
     (case spanning_arborescence (num_vertices g) attr g v of
        None \<Rightarrow> None
      | Some t \<Rightarrow> best_root attr g vs (if total_weight t < c then (total_weight t, t, v) else (c, mst, root)))"

definition max_cost :: int where
  "max_cost = 2 ^ 31 - 1"

definition minimum_spanning_arborescence :: "'v \<Rightarrow> ('v, int) digraph \<Rightarrow> (('v, int) digraph \<times> nat) option" where
  "minimum_spanning_arborescence attr g = best_root attr g (vertices g) (max_cost, dg_empty, 0)"

text \<open>
  The contraction algorithm returns a spanning arborescence of every complete digraph, with the costs of the graph. (It
  is not always a cheapest one.)
\<close>

section \<open>Bulk updates\<close>

lemma add_vertices_spec:
  assumes "dg_ok g"
  shows "dg_ok (fold (add_vertex_with_id a) vs g)" "verts (fold (add_vertex_with_id a) vs g) = set vs \<union> verts g"
    "arcs (fold (add_vertex_with_id a) vs g) = arcs g" "edge_attr e (fold (add_vertex_with_id a) vs g) = edge_attr e g"
  using assms by (induction vs arbitrary: g) (auto simp: add_vertex_with_id_spec)

lemma add_edges_all:
  "dg_ok g \<Longrightarrow> set es \<subseteq> verts g \<times> verts g \<Longrightarrow>
    dg_ok (fold (\<lambda>e. add_edge e (c e)) es g) \<and> verts (fold (\<lambda>e. add_edge e (c e)) es g) = verts g \<and>
    arcs (fold (\<lambda>e. add_edge e (c e)) es g) = set es \<union> arcs g \<and>
    (\<forall>f. edge_attr f (fold (\<lambda>e. add_edge e (c e)) es g) = (if f \<in> set es then Some (c f) else edge_attr f g))"
proof (induction es arbitrary: g)
  case (Cons e es)
  have e: "fst e \<in> verts g" "snd e \<in> verts g" using Cons.prems(2) by auto
  note s = add_edge_spec [OF Cons.prems(1) e, where c = "c e"]
  show ?case using Cons.IH [OF s(1)] s(2-4) Cons.prems(2) by simp
qed simp

lemma add_edges_spec:
  assumes "dg_ok g" "set es \<subseteq> verts g \<times> verts g"
  shows "dg_ok (fold (\<lambda>e. add_edge e (c e)) es g)" "verts (fold (\<lambda>e. add_edge e (c e)) es g) = verts g"
    "arcs (fold (\<lambda>e. add_edge e (c e)) es g) = set es \<union> arcs g"
    "edge_attr f (fold (\<lambda>e. add_edge e (c e)) es g) = (if f \<in> set es then Some (c f) else edge_attr f g)"
  using add_edges_all [OF assms, of c] by blast+

lemma remove_vertices_all:
  "dg_ok g \<Longrightarrow> dg_ok (fold (\<lambda>v g. fst (remove_vertex v g)) vs g) \<and>
    verts (fold (\<lambda>v g. fst (remove_vertex v g)) vs g) = verts g - set vs \<and>
    arcs (fold (\<lambda>v g. fst (remove_vertex v g)) vs g) = {(u, w) \<in> arcs g. u \<notin> set vs \<and> w \<notin> set vs} \<and>
    (\<forall>e. edge_attr e (fold (\<lambda>v g. fst (remove_vertex v g)) vs g) = (if fst e \<in> set vs \<or> snd e \<in> set vs then None else edge_attr e g))"
proof (induction vs arbitrary: g)
  case (Cons v vs)
  note s = remove_vertex_spec [OF Cons.prems surjective_pairing, where v = v]
  show ?case using Cons.IH [OF s(1)] s(2,3,5) by auto
qed auto

lemma remove_vertices_spec:
  assumes "dg_ok g"
  shows "dg_ok (fold (\<lambda>v g. fst (remove_vertex v g)) vs g)" "verts (fold (\<lambda>v g. fst (remove_vertex v g)) vs g) = verts g - set vs"
    "arcs (fold (\<lambda>v g. fst (remove_vertex v g)) vs g) = {(u, w) \<in> arcs g. u \<notin> set vs \<and> w \<notin> set vs}"
    "edge_attr e (fold (\<lambda>v g. fst (remove_vertex v g)) vs g) = (if fst e \<in> set vs \<or> snd e \<in> set vs then None else edge_attr e g)"
  using remove_vertices_all [OF assms, of vs] by blast+

lemma edges_set:
  assumes "dg_ok g"
  shows "set (the (edges g)) = arcs g"
proof -
  have "those (map (\<lambda>v. out_edges v g) vs) = Some (map (\<lambda>v. map (\<lambda>dst. (v, dst)) (neighbors_of v (out_map g))) vs)"
    if "set vs \<subseteq> verts g" for vs
    using that by (induction vs) (simp_all add: out_edges_def neighbors_at [OF assms])
  from this [of "vertices g"] show ?thesis
    using dg_okD(9) [OF assms] by (force simp: edges_def verts_def arcs_def)
qed

lemma num_vertices_card: "dg_ok g \<Longrightarrow> num_vertices g = card (verts g)"
  using distinct_card [OF dg_okD(1), of g] by (simp add: num_vertices_def verts_def vertices_def)

lemma num_edges_card: "dg_ok g \<Longrightarrow> num_edges g = card (arcs g)"
  using distinct_card [OF dg_okD(2)] dg_okD(8) by (fastforce simp: num_edges_def)

lemma finite_verts [simp]: "finite (verts g)" by (simp add: verts_def)

lemma finite_arcs: "dg_ok g \<Longrightarrow> finite (arcs g)"
  using dg_okD(9) by (metis finite_SigmaI finite_subset finite_verts)

section \<open>Graphs of one predecessor\<close>

definition pred_graph :: "('v, int) digraph \<Rightarrow> (nat \<Rightarrow> nat) \<Rightarrow> nat \<Rightarrow> bool" where
  "pred_graph h f root \<longleftrightarrow> dg_ok h \<and> root \<in> verts h \<and> (\<forall>u v. (u, v) \<in> arcs h \<longleftrightarrow> v \<in> verts h - {root} \<and> u = f v)"

lemma pred_graphD:
  assumes "pred_graph h f root"
  shows "dg_ok h" "root \<in> verts h" "(u, v) \<in> arcs h \<longleftrightarrow> v \<in> verts h - {root} \<and> u = f v" "v \<in> verts h - {root} \<Longrightarrow> f v \<in> verts h"
  using assms dg_okD(9) [of h] unfolding pred_graph_def by blast+

lemma distinct_one: "distinct xs \<Longrightarrow> set xs = {a} \<Longrightarrow> xs = [a]"
  by (cases xs) (simp, metis distinct.simps(2) list.set_intros(1) set_ConsD set_empty singletonD subset_singletonD subset_insertI list.simps(15))

lemma pred_graph_in:
  assumes h: "pred_graph h f root" and v: "v \<in> verts h"
  shows "in_neighbors v h = Some (if v = root then [] else [f v])"
proof -
  note d = pred_graphD [OF h]
  have in_iff: "u \<in> set (neighbors_of v (in_map h)) \<longleftrightarrow> v \<noteq> root \<and> u = f v" for u
    using arcs_iff(2) [OF d(1), of u v] d(3) [of u v] v by simp
  then have "set (neighbors_of v (in_map h)) = (if v = root then {} else {f v})" by (simp add: set_eq_iff)
  moreover have "distinct (neighbors_of v (in_map h))" by (rule dg_okD(7) [OF d(1)])
  ultimately have "neighbors_of v (in_map h) = (if v = root then [] else [f v])"
    using distinct_one by (cases "v = root") simp_all
  then show ?thesis using neighbors_at(2) [OF d(1) v] by simp
qed

lemma pred_graph_first:
  "pred_graph h f root \<Longrightarrow> v \<in> verts h - {root} \<Longrightarrow> first_pred h v = f v"
  by (simp add: first_pred_def pred_graph_in)

lemma pred_path:
  assumes h: "pred_graph h f root" and p: "(u, w) \<in> (arcs h)\<^sup>+"
  shows "\<exists>n > 0. (f ^^ n) w = u \<and> (\<forall>i < n. (f ^^ i) w \<in> verts h - {root})"
  using p
proof (induction rule: converse_trancl_induct)
  case (base u)
  then show ?case using pred_graphD(3) [OF h, of u w] by (intro exI [of _ 1]) simp
next
  case (step u u')
  then obtain n where n: "0 < n" "(f ^^ n) w = u'" "\<forall>i < n. (f ^^ i) w \<in> verts h - {root}" by blast
  have "u' \<in> verts h - {root} \<and> u = f u'" using pred_graphD(3) [OF h, of u u'] step(1) by blast
  then show ?case using n by (intro exI [of _ "Suc n"]) (auto simp: less_Suc_eq)
qed

lemma cycle_from_spec:
  assumes h: "pred_graph h f root" and n: "0 < n" "(f ^^ n) w = w" "\<And>i. 0 < i \<Longrightarrow> i < n \<Longrightarrow> (f ^^ i) w \<noteq> w"
    "\<And>i. i < n \<Longrightarrow> (f ^^ i) w \<in> verts h - {root}"
  shows "j \<le> n \<Longrightarrow> n - j < fuel \<Longrightarrow> (0 < j \<Longrightarrow> c \<noteq> []) \<Longrightarrow> c = map (\<lambda>i. (f ^^ i) w) [0..<j] \<Longrightarrow>
    cycle_from fuel h c ((f ^^ j) w) = Some (map (\<lambda>i. (f ^^ i) w) [0..<n])"
proof (induction fuel arbitrary: j c)
  case (Suc fuel)
  have hd: "c \<noteq> [] \<Longrightarrow> hd c = w" using Suc.prems(4) by (cases j) (simp_all add: upt_conv_Cons del: upt_Suc)
  show ?case
  proof (cases "j = n")
    case True
    then show ?thesis using Suc.prems n(1,2) hd by simp
  next
    case False
    then have j: "j < n" using Suc.prems(1) by simp
    then have "\<not> (c \<noteq> [] \<and> hd c = (f ^^ j) w)" using Suc.prems(3,4) n(3) [of j] hd by (cases "j = 0") auto
    moreover have "in_neighbors ((f ^^ j) w) h = Some [(f ^^ Suc j) w]"
      using pred_graph_in [OF h, of "(f ^^ j) w"] n(4) [OF j] by simp
    moreover have "cycle_from fuel h (c @ [(f ^^ j) w]) ((f ^^ Suc j) w) = Some (map (\<lambda>i. (f ^^ i) w) [0..<n])"
      by (rule Suc.IH) (use Suc.prems j in auto)
    ultimately show ?thesis by (simp only: cycle_from.simps if_False option.case list.case funpow.simps comp_apply)
  qed
qed simp

definition is_cycle :: "('v, int) digraph \<Rightarrow> (nat \<Rightarrow> nat) \<Rightarrow> nat \<Rightarrow> nat list \<Rightarrow> bool" where
  "is_cycle h f root c \<longleftrightarrow> c \<noteq> [] \<and> distinct c \<and> set c \<subseteq> verts h - {root} \<and> (\<forall>x \<in> set c. f x \<in> set c) \<and>
     (\<forall>x \<in> set c. \<forall>y \<in> set c. \<exists>k. (f ^^ k) y = x)"

lemma cycle_from_cycle:
  assumes h: "pred_graph h f root" and w: "(w, w) \<in> (arcs h)\<^sup>+"
  shows "\<exists>c. cycle_from (num_vertices h + 1) h [] w = Some c \<and> is_cycle h f root c"
proof -
  let ?P = "\<lambda>n. 0 < n \<and> (f ^^ n) w = w"
  obtain m where m: "0 < m" "(f ^^ m) w = w" "\<forall>i < m. (f ^^ i) w \<in> verts h - {root}" using pred_path [OF h w] by blast
  define n where "n = (LEAST n. ?P n)"
  have n: "0 < n" "(f ^^ n) w = w" using LeastI [of ?P m] m(1,2) by (simp_all add: n_def)
  have least: "(f ^^ i) w \<noteq> w" if "0 < i" "i < n" for i using not_less_Least [of i ?P] that by (auto simp: n_def)
  have "n \<le> m" unfolding n_def by (rule Least_le) (use m in simp)
  then have vs: "(f ^^ i) w \<in> verts h - {root}" if "i < n" for i using m(3) that by simp
  let ?c = "map (\<lambda>i. (f ^^ i) w) [0..<n]"
  have inj: "(f ^^ i) w \<noteq> (f ^^ j) w" if "i < j" "j < n" for i j
  proof
    assume eq: "(f ^^ i) w = (f ^^ j) w"
    have "(f ^^ (n - j + i)) w = (f ^^ (n - j)) ((f ^^ j) w)" by (simp add: funpow_add eq)
    also have "\<dots> = (f ^^ (n - j + j)) w" by (simp only: funpow_add comp_apply)
    also have "\<dots> = w" using that n(2) by simp
    finally have eq': "(f ^^ (n - j + i)) w = w" .
    have lt: "0 < n - j + i" "n - j + i < n" using that by linarith+
    show False by (rule notE [OF least [OF lt] eq'])
  qed
  have "inj_on (\<lambda>i. (f ^^ i) w) {0..<n}" by (rule linorder_inj_onI') (simp add: inj)
  then have dist: "distinct ?c" by (simp add: distinct_map)
  have sub: "set ?c \<subseteq> verts h" using vs by auto
  have "n \<le> num_vertices h"
    using distinct_card [OF dist] card_mono [OF finite_verts sub] num_vertices_card [OF pred_graphD(1) [OF h]] by simp
  then have run: "cycle_from (num_vertices h + 1) h [] ((f ^^ 0) w) = Some ?c"
    by (intro cycle_from_spec [OF h n least vs]) simp_all
  have mem: "x \<in> set ?c \<longleftrightarrow> (\<exists>i < n. x = (f ^^ i) w)" for x by (simp only: set_map set_upt image_iff) auto
  have "f x \<in> set ?c" if xc: "x \<in> set ?c" for x
  proof -
    obtain i where i: "i < n" "x = (f ^^ i) w" using xc unfolding mem by blast
    show ?thesis
    proof (cases "Suc i = n")
      case True
      then have "f x = (f ^^ 0) w" using i n(2) by auto
      then show ?thesis unfolding mem using n(1) by blast
    next
      case False
      then have "Suc i < n" "f x = (f ^^ Suc i) w" using i by simp_all
      then show ?thesis unfolding mem by blast
    qed
  qed
  moreover have "\<exists>k. (f ^^ k) y = x" if x: "x \<in> set ?c" and y: "y \<in> set ?c" for x y
  proof -
    obtain i where i: "i < n" "x = (f ^^ i) w" using x unfolding mem by blast
    obtain j where j: "j < n" "y = (f ^^ j) w" using y unfolding mem by blast
    have "(f ^^ (i + (n - j))) y = (f ^^ i) ((f ^^ (n - j)) ((f ^^ j) w))" by (simp add: j funpow_add)
    also have "(f ^^ (n - j)) ((f ^^ j) w) = (f ^^ (n - j + j)) w" by (simp only: funpow_add comp_apply)
    also have "(f ^^ (n - j + j)) w = w" using j(1) n(2) by simp
    finally show ?thesis using i(2) by blast
  qed
  moreover have "?c \<noteq> []" using n(1) by simp
  moreover have "set ?c \<subseteq> verts h - {root}" using vs unfolding subset_iff mem by blast
  ultimately have "is_cycle h f root ?c" unfolding is_cycle_def using dist by blast
  then show ?thesis using run by (intro exI [of _ ?c]) simp
qed


section \<open>The search for a cycle\<close>

text \<open>The vertices on the stack are the successors of visited ones that are not visited, the start apart.\<close>

definition cycle_search_inv :: "('v, int) digraph \<Rightarrow> nat \<Rightarrow> nat list \<Rightarrow> nat list \<Rightarrow> bool" where
  "cycle_search_inv h v visited stack \<longleftrightarrow> v \<in> set visited \<and> distinct stack \<and> set visited \<inter> set stack \<subseteq> {v} \<and> set stack \<subseteq> verts h \<and>
     (\<forall>x \<in> set stack. \<exists>p \<in> set visited. (p, x) \<in> arcs h) \<and> (\<forall>x \<in> set visited - {v}. \<exists>p \<in> set visited. (p, x) \<in> arcs h) \<and>
     (\<forall>x \<in> set visited. (v, x) \<in> (arcs h)\<^sup>*)"

lemma cycle_search_invD:
  assumes "cycle_search_inv h v visited stack"
  shows "v \<in> set visited" "distinct stack" "x \<in> set visited \<Longrightarrow> x \<in> set stack \<Longrightarrow> x = v" "set stack \<subseteq> verts h"
    "x \<in> set stack \<Longrightarrow> \<exists>p \<in> set visited. (p, x) \<in> arcs h" "x \<in> set visited \<Longrightarrow> x \<noteq> v \<Longrightarrow> \<exists>p \<in> set visited. (p, x) \<in> arcs h"
    "x \<in> set visited \<Longrightarrow> (v, x) \<in> (arcs h)\<^sup>*"
  using assms unfolding cycle_search_inv_def by blast+

lemma search_step:
  assumes h: "pred_graph h f root" and I: "cycle_search_inv h v visited (w # stack)" and w: "w \<notin> set visited"
  shows "out_neighbors w h = Some (neighbors_of w (out_map h))"
    "cycle_search_inv h v (w # visited) (rev (neighbors_of w (out_map h)) @ stack)"
proof -
  note d = pred_graphD [OF h]
  have uniq: "a = b" if "(a, x) \<in> arcs h" "(b, x) \<in> arcs h" for a b x
    using d(3) [of a x] d(3) [of b x] that by simp
  have wv: "w \<in> verts h" using I by (simp add: cycle_search_inv_def)
  show "out_neighbors w h = Some (neighbors_of w (out_map h))" by (rule neighbors_at(1) [OF d(1) wv])
  let ?us = "neighbors_of w (out_map h)"
  have us: "u \<in> set ?us \<longleftrightarrow> (w, u) \<in> arcs h" for u using arcs_iff(1) [OF d(1)] by blast
  note i = cycle_search_invD [OF I]
  have new: "u \<notin> set stack" "u \<in> set visited \<Longrightarrow> u = v" "u \<noteq> w" if u: "(w, u) \<in> arcs h" for u
  proof -
    have no: "\<not> (\<exists>p \<in> set visited. (p, u) \<in> arcs h)" using uniq [OF u] w by blast
    show "u \<notin> set stack" using no i(5) [of u] by auto
    show "u \<in> set visited \<Longrightarrow> u = v" using no i(6) [of u] by blast
    show "u \<noteq> w" using no i(5) [of w] by auto
  qed
  obtain p where p: "p \<in> set visited" "(p, w) \<in> arcs h" using i(5) [of w] by auto
  have reach: "(v, w) \<in> (arcs h)\<^sup>*" by (rule rtrancl.rtrancl_into_rtrancl [OF i(7) [OF p(1)] p(2)])
  have rest: "distinct stack" "w \<notin> set stack" "set stack \<subseteq> verts h" using i(2,4) by simp_all
  have us_verts: "u \<in> verts h" if "(w, u) \<in> arcs h" for u using dg_okD(9) [OF d(1)] that by blast
  show "cycle_search_inv h v (w # visited) (rev ?us @ stack)"
    unfolding cycle_search_inv_def
  proof (intro conjI ballI subsetI)
    show "v \<in> set (w # visited)" using i(1) by simp
    show "distinct (rev ?us @ stack)" using rest(1) dg_okD(6) [OF d(1), of w] new(1) us by auto
  next
    fix x assume x: "x \<in> set (w # visited) \<inter> set (rev ?us @ stack)"
    show "x \<in> {v}"
    proof (cases "(w, x) \<in> arcs h")
      case True
      then show ?thesis using new(2,3) [OF True] x by auto
    next
      case False
      then have "x \<in> set stack" using x us [of x] by simp
      then show ?thesis using x rest(2) i(3) [of x] by auto
    qed
  next
    fix x assume x: "x \<in> set (rev ?us @ stack)"
    then show "x \<in> verts h" using us [of x] us_verts [of x] rest(3) by auto
    show "\<exists>p \<in> set (w # visited). (p, x) \<in> arcs h" using x us [of x] i(5) [of x] by auto
  next
    fix x assume x: "x \<in> set (w # visited) - {v}"
    show "\<exists>p \<in> set (w # visited). (p, x) \<in> arcs h" using x p i(6) [of x] by auto
  next
    fix x assume x: "x \<in> set (w # visited)"
    show "(v, x) \<in> (arcs h)\<^sup>*" using x reach i(7) [of x] by auto
  qed
qed

lemma search_spec:
  assumes "pred_graph h f root" "cycle_search_inv h v visited stack"
  shows "find_cycle_from h visited stack = NoCycle \<or> (\<exists>c. find_cycle_from h visited stack = Cycle c \<and> is_cycle h f root c)"
  using assms
proof (induction h visited stack rule: find_cycle_from.induct)
  case (2 h visited w stack)
  show ?case
  proof (cases "w \<in> set visited")
    case True
    note i = cycle_search_invD [OF "2.prems"(2)]
    have wv: "w = v" using i(3) [of w] True by simp
    obtain p where p: "p \<in> set visited" "(p, w) \<in> arcs h" using i(5) [of w] by auto
    have "(w, w) \<in> (arcs h)\<^sup>+" using rtrancl_into_trancl1 [OF i(7) [OF p(1)] p(2)] wv by simp
    from cycle_from_cycle [OF "2.prems"(1) this] show ?thesis using True by (auto simp: find_cycle_from.simps(2))
  next
    case False
    note s = search_step [OF "2.prems" False]
    show ?thesis using "2.IH" [OF False s(1) "2.prems"(1) s(2)] False s(1) by (simp add: find_cycle_from.simps(2))
  qed
qed simp

lemma no_cycle_reach:
  "find_cycle_from h visited stack = NoCycle \<Longrightarrow> dg_ok h \<Longrightarrow> x \<in> set stack \<Longrightarrow> (x, y) \<in> (arcs h)\<^sup>* \<Longrightarrow> y \<notin> set visited"
proof (induction h visited stack arbitrary: x y rule: find_cycle_from.induct)
  case (2 h visited w stack)
  have w: "w \<notin> set visited" using "2.prems"(1) by (auto simp: find_cycle_from.simps(2) split: option.splits)
  then obtain us where us: "out_neighbors w h = Some us" "find_cycle_from h (w # visited) (rev us @ stack) = NoCycle"
    using "2.prems"(1) by (auto simp: find_cycle_from.simps(2) split: option.splits)
  note IH = "2.IH" [OF w us "2.prems"(2)]
  show ?case
  proof (cases "x = w")
    case True
    show ?thesis
    proof (cases "y = w")
      case False
      then obtain u where u: "(w, u) \<in> arcs h" "(u, y) \<in> (arcs h)\<^sup>*" using "2.prems"(4) True by (metis converse_rtranclE)
      have "u \<in> set us" using u(1) us(1) by (simp add: arcs_def neighbors_of_def out_neighbors_def)
      then show ?thesis using IH [of u y] u(2) by simp
    qed (use w in simp)
  next
    case False
    then show ?thesis using IH [of x y] "2.prems"(3,4) by simp
  qed
qed simp

lemma find_cycle_spec:
  assumes h: "pred_graph h f root"
  shows "find_cycle h = NoCycle \<and> acyclic (arcs h) \<or> (\<exists>c. find_cycle h = Cycle c \<and> is_cycle h f root c)"
proof -
  note d = pred_graphD [OF h]
  have at: "find_cycle_from h [] [v] = NoCycle \<or> (\<exists>c. find_cycle_from h [] [v] = Cycle c \<and> is_cycle h f root c)" if v: "v \<in> verts h" for v
  proof -
    let ?us = "neighbors_of v (out_map h)"
    have us: "u \<in> set ?us \<longleftrightarrow> (v, u) \<in> arcs h" for u using arcs_iff(1) [OF d(1)] by blast
    have "cycle_search_inv h v [v] (rev ?us)"
      unfolding cycle_search_inv_def using us dg_okD(6) [OF d(1), of v] dg_okD(9) [OF d(1)] by auto
    from search_spec [OF h this] show ?thesis using neighbors_at(1) [OF d(1) v] by (simp add: find_cycle_from.simps(2))
  qed
  have all: "(find_cycle_at h vs = NoCycle \<and> (\<forall>v \<in> set vs. find_cycle_from h [] [v] = NoCycle)) \<or>
      (\<exists>c. find_cycle_at h vs = Cycle c \<and> is_cycle h f root c)" if "set vs \<subseteq> verts h" for vs
    using that
  proof (induction vs)
    case (Cons v vs)
    then show ?case using at [of v] by auto
  qed simp
  have "(v, v) \<notin> (arcs h)\<^sup>+" if no: "\<forall>v \<in> verts h. find_cycle_from h [] [v] = NoCycle" for v
  proof
    assume loop: "(v, v) \<in> (arcs h)\<^sup>+"
    then obtain u where u: "(v, u) \<in> arcs h" "(u, v) \<in> (arcs h)\<^sup>*" by (meson tranclD)
    have v: "v \<in> verts h" using dg_okD(9) [OF d(1)] u(1) by blast
    have "u \<in> set (neighbors_of v (out_map h))" using arcs_iff(1) [OF d(1)] u(1) by blast
    moreover have "find_cycle_from h [v] (rev (neighbors_of v (out_map h))) = NoCycle"
      using no v neighbors_at(1) [OF d(1) v] by (auto simp: find_cycle_from.simps(2))
    ultimately show False using no_cycle_reach [OF _ d(1) _ u(2), of "[v]" "rev (neighbors_of v (out_map h))"] by simp
  qed
  then show ?thesis using all [of "vertices h"] by (auto simp: find_cycle_def acyclic_def verts_def)
qed

end
