(* ===== verification/ArborescenceSpan.thy ===== *)
theory ArborescenceSpan
  imports Arborescence
begin

text \<open>Contraction and expansion of a cycle, and the arborescence that results.\<close>

section \<open>The cheapest edges\<close>

lemma min_element_in: "ws \<noteq> [] \<Longrightarrow> \<exists>m. min_element_by f ws = Some m \<and> m \<in> set ws"
proof (induction ws)
  case (Cons w ws)
  then show ?case by (cases "ws = []") auto
qed simp

lemma min_in_edges_spec:
  assumes g: "dg_ok g" and into: "\<And>v. v \<in> verts g - {root} \<Longrightarrow> \<exists>u. (u, v) \<in> arcs g"
  shows "\<exists>f. min_in_edges g root = Some (map (\<lambda>v. (f v, v)) (filter (\<lambda>v. v \<noteq> root) (vertices g))) \<and>
    (\<forall>v \<in> verts g - {root}. (f v, v) \<in> arcs g)"
proof -
  define f where "f v = the (min_element_by (\<lambda>w. cost g (w, v)) (neighbors_of v (in_map g)))" for v
  have f: "min_element_by (\<lambda>w. cost g (w, v)) (neighbors_of v (in_map g)) = Some (f v)" "(f v, v) \<in> arcs g" if v: "v \<in> verts g - {root}" for v
  proof -
    have "neighbors_of v (in_map g) \<noteq> []" using into [OF v] arcs_iff(2) [OF g] by force
    from min_element_in [OF this, of "\<lambda>w. cost g (w, v)"] show "min_element_by (\<lambda>w. cost g (w, v)) (neighbors_of v (in_map g)) = Some (f v)" "(f v, v) \<in> arcs g"
      using arcs_iff(2) [OF g] by (auto simp: f_def)
  qed
  have "those (map (\<lambda>v. map_option (\<lambda>w. (w, v)) (Option.bind (in_neighbors v g) (min_element_by (\<lambda>w. cost g (w, v))))) vs) =
      Some (map (\<lambda>v. (f v, v)) vs)" if "set vs \<subseteq> verts g - {root}" for vs
    using that
  proof (induction vs)
    case (Cons v vs)
    then show ?case using neighbors_at(2) [OF g, of v] f(1) [of v] by simp
  qed simp
  from this [of "filter (\<lambda>v. v \<noteq> root) (vertices g)"] show ?thesis
    using f(2) by (intro exI [of _ f]) (auto simp: min_in_edges_def verts_def)
qed

lemma edge_cost: "dg_ok g \<Longrightarrow> e \<in> arcs g \<Longrightarrow> edge_attr e g = Some (cost g e)"
  using edge_attr_iff [of g e] by (auto simp: cost_def)

lemma build_spec:
  assumes g: "dg_ok g" and root: "root \<in> verts g" and into: "\<And>v. v \<in> verts g - {root} \<Longrightarrow> \<exists>u. (u, v) \<in> arcs g"
  shows "\<exists>h f. build_min_edge_subgraph attr g root = Some h \<and> pred_graph h f root \<and> verts h = verts g \<and> arcs h \<subseteq> arcs g \<and>
    (\<forall>e \<in> arcs h. edge_attr e h = edge_attr e g)"
proof -
  obtain f where f: "min_in_edges g root = Some (map (\<lambda>v. (f v, v)) (filter (\<lambda>v. v \<noteq> root) (vertices g)))"
    "\<forall>v \<in> verts g - {root}. (f v, v) \<in> arcs g" using min_in_edges_spec [OF g into] by blast
  let ?es = "map (\<lambda>v. (f v, v)) (filter (\<lambda>v. v \<noteq> root) (vertices g))"
  let ?vs = "fold (add_vertex_with_id attr) (vertices g) dg_empty :: ('a, int) digraph"
  let ?h = "fold (\<lambda>e. add_edge e (cost g e)) ?es ?vs"
  note h0 = add_vertices_spec [OF dg_empty_ok(1), where a = attr and vs = "vertices g"]
  have "verts ?vs = set (vertices g) \<union> {}" by (rule trans [OF h0(2)]) (simp only: dg_empty_ok(2))
  also have "\<dots> = verts g" by (simp add: verts_def)
  finally have v0: "verts ?vs = verts g" .
  have es: "set ?es = {(f v, v) | v. v \<in> verts g - {root}}" by (auto simp: verts_def)
  have sub: "set ?es \<subseteq> verts ?vs \<times> verts ?vs" unfolding es v0 using f(2) dg_okD(9) [OF g] by blast
  note h = add_edges_spec [OF h0(1) sub, where c = "cost g"]
  have arcs: "arcs ?h = {(f v, v) | v. v \<in> verts g - {root}}" unfolding h(3) h0(3) dg_empty_ok(3) es by simp
  have "pred_graph ?h f root" unfolding pred_graph_def arcs unfolding h(2) v0 using h(1) root by blast
  moreover have "arcs ?h \<subseteq> arcs g" unfolding arcs using f(2) by blast
  moreover have "edge_attr e ?h = edge_attr e g" if "e \<in> arcs ?h" for e
    using that h(4) [of e] edge_cost [OF g, of e] \<open>arcs ?h \<subseteq> arcs g\<close> unfolding arcs es by auto
  moreover have "build_min_edge_subgraph attr g root = Some ?h" using f(1) by (simp add: build_min_edge_subgraph_def)
  moreover have "verts ?h = verts g" by (rule trans [OF h(2) v0])
  ultimately show ?thesis by (intro exI [of _ ?h] exI [of _ f]) blast
qed

section \<open>Arborescences\<close>

definition arborescence :: "nat set \<Rightarrow> nat \<Rightarrow> (nat \<times> nat) set \<Rightarrow> bool" where
  "arborescence V r A \<longleftrightarrow> r \<in> V \<and> A \<subseteq> V \<times> V \<and> (\<forall>u. (u, r) \<notin> A) \<and> (\<forall>v \<in> V - {r}. \<exists>!u. (u, v) \<in> A) \<and> (\<forall>v \<in> V. (r, v) \<in> A\<^sup>*)"

lemma arborescenceD:
  assumes "arborescence V r A"
  shows "r \<in> V" "A \<subseteq> V \<times> V" "(u, r) \<notin> A" "v \<in> V \<Longrightarrow> v \<noteq> r \<Longrightarrow> \<exists>!u. (u, v) \<in> A" "v \<in> V \<Longrightarrow> (r, v) \<in> A\<^sup>*"
  using assms unfolding arborescence_def by blast+

lemma arborescence_card:
  assumes A: "arborescence V r A" and V: "finite V"
  shows "card A = card V - 1"
proof -
  have "snd ` A \<subseteq> V - {r}" using A unfolding arborescence_def by auto
  moreover have "v \<in> snd ` A" if v: "v \<in> V - {r}" for v
  proof -
    have "\<exists>!u. (u, v) \<in> A" using A v unfolding arborescence_def by simp
    then show ?thesis by force
  qed
  ultimately have "snd ` A = V - {r}" by blast
  moreover have "inj_on snd A"
  proof (rule inj_onI)
    fix p q assume pq: "p \<in> A" "q \<in> A" "snd p = snd q"
    obtain u v u' where e: "p = (u, v)" "q = (u', v)" using pq(3) by (cases p, cases q) auto
    have "v \<in> V - {r}" using A pq(1) e unfolding arborescence_def by auto
    then have "\<exists>!u. (u, v) \<in> A" using A unfolding arborescence_def by simp
    then show "p = q" using pq(1,2) e by auto
  qed
  ultimately have "card A = card (V - {r})" by (metis card_image)
  moreover have "r \<in> V" using A by (simp add: arborescence_def)
  ultimately show ?thesis using V by simp
qed

lemma acyclic_arborescence:
  assumes h: "pred_graph h f root" and ac: "acyclic (arcs h)"
  shows "arborescence (verts h) root (arcs h)"
proof -
  note d = pred_graphD [OF h]
  have "wf (arcs h)" by (rule finite_acyclic_wf [OF finite_arcs [OF d(1)] ac])
  then have "v \<in> verts h \<longrightarrow> (root, v) \<in> (arcs h)\<^sup>*" for v
  proof (induction v rule: wf_induct_rule)
    case (less v)
    show ?case
    proof (cases "v = root")
      case False
      show ?thesis
      proof
        assume v: "v \<in> verts h"
        then have a: "(f v, v) \<in> arcs h" "f v \<in> verts h" using d(3) [of "f v" v] d(4) [of v] False by simp_all
        then show "(root, v) \<in> (arcs h)\<^sup>*" using less by (meson rtrancl.rtrancl_into_rtrancl)
      qed
    qed simp
  qed
  then show ?thesis unfolding arborescence_def using d(2,3) dg_okD(9) [OF d(1)] by auto
qed

section \<open>Contraction\<close>

definition complete_graph :: "('v, int) digraph \<Rightarrow> bool" where
  "complete_graph g \<longleftrightarrow> dg_ok g \<and> arcs g = {(u, v). u \<in> verts g \<and> v \<in> verts g \<and> u \<noteq> v}"

text \<open>What the loop over the edges keeps, with the edges that it has seen.\<close>

definition contract_inv :: "('v, int) digraph \<Rightarrow> nat list \<Rightarrow> nat \<Rightarrow> (nat \<times> nat) set \<Rightarrow> 'v contraction \<Rightarrow> bool" where
  "contract_inv g C vc seen s \<longleftrightarrow> (case s of (g', ii, oi) \<Rightarrow>
     dg_ok g' \<and> verts g' = insert vc (verts g - set C) \<and>
     arcs g' = {(u, v) \<in> arcs g. u \<notin> set C \<and> v \<notin> set C} \<union> {(u, vc) | u. ii u \<noteq> None} \<union> {(vc, v) | v. oi v \<noteq> None} \<and>
     (\<forall>u x. ii u = Some x \<longrightarrow> x \<in> set C \<and> u \<notin> set C \<and> (u, x) \<in> arcs g) \<and>
     (\<forall>v x. oi v = Some x \<longrightarrow> x \<in> set C \<and> v \<notin> set C \<and> (x, v) \<in> arcs g) \<and>
     (\<forall>u x. (u, x) \<in> seen \<longrightarrow> u \<notin> set C \<longrightarrow> x \<in> set C \<longrightarrow> ii u \<noteq> None) \<and>
     (\<forall>v x. (x, v) \<in> seen \<longrightarrow> v \<notin> set C \<longrightarrow> x \<in> set C \<longrightarrow> oi v \<noteq> None) \<and>
     (\<forall>e. fst e \<noteq> vc \<longrightarrow> snd e \<noteq> vc \<longrightarrow> e \<in> arcs g' \<longrightarrow> edge_attr e g' = edge_attr e g))"

lemma contract_invD:
  assumes "contract_inv g C vc seen (g', ii, oi)"
  shows "dg_ok g'" "verts g' = insert vc (verts g - set C)"
    "arcs g' = {(u, v) \<in> arcs g. u \<notin> set C \<and> v \<notin> set C} \<union> {(u, vc) | u. ii u \<noteq> None} \<union> {(vc, v) | v. oi v \<noteq> None}"
    "ii u = Some x \<Longrightarrow> x \<in> set C \<and> u \<notin> set C \<and> (u, x) \<in> arcs g" "oi v = Some x \<Longrightarrow> x \<in> set C \<and> v \<notin> set C \<and> (x, v) \<in> arcs g"
    "(u, x) \<in> seen \<Longrightarrow> u \<notin> set C \<Longrightarrow> x \<in> set C \<Longrightarrow> ii u \<noteq> None" "(x, v) \<in> seen \<Longrightarrow> v \<notin> set C \<Longrightarrow> x \<in> set C \<Longrightarrow> oi v \<noteq> None"
    "fst e \<noteq> vc \<Longrightarrow> snd e \<noteq> vc \<Longrightarrow> e \<in> arcs g' \<Longrightarrow> edge_attr e g' = edge_attr e g"
proof -
  note a = assms [unfolded contract_inv_def prod.case]
  show "dg_ok g'" by (rule a [THEN conjunct1, rule_format])
  show "verts g' = insert vc (verts g - set C)" by (rule a [THEN conjunct2, THEN conjunct1, rule_format])
  show "arcs g' = {(u, v) \<in> arcs g. u \<notin> set C \<and> v \<notin> set C} \<union> {(u, vc) | u. ii u \<noteq> None} \<union> {(vc, v) | v. oi v \<noteq> None}" by (rule a [THEN conjunct2, THEN conjunct2, THEN conjunct1, rule_format])
  show "ii u = Some x \<Longrightarrow> x \<in> set C \<and> u \<notin> set C \<and> (u, x) \<in> arcs g" by (rule a [THEN conjunct2, THEN conjunct2, THEN conjunct2, THEN conjunct1, rule_format]) assumption+
  show "oi v = Some x \<Longrightarrow> x \<in> set C \<and> v \<notin> set C \<and> (x, v) \<in> arcs g" by (rule a [THEN conjunct2, THEN conjunct2, THEN conjunct2, THEN conjunct2, THEN conjunct1, rule_format]) assumption+
  show "(u, x) \<in> seen \<Longrightarrow> u \<notin> set C \<Longrightarrow> x \<in> set C \<Longrightarrow> ii u \<noteq> None" by (rule a [THEN conjunct2, THEN conjunct2, THEN conjunct2, THEN conjunct2, THEN conjunct2, THEN conjunct1, rule_format]) assumption+
  show "(x, v) \<in> seen \<Longrightarrow> v \<notin> set C \<Longrightarrow> x \<in> set C \<Longrightarrow> oi v \<noteq> None" by (rule a [THEN conjunct2, THEN conjunct2, THEN conjunct2, THEN conjunct2, THEN conjunct2, THEN conjunct2, THEN conjunct1, rule_format]) assumption+
  show "fst e \<noteq> vc \<Longrightarrow> snd e \<noteq> vc \<Longrightarrow> e \<in> arcs g' \<Longrightarrow> edge_attr e g' = edge_attr e g" by (rule a [THEN conjunct2, THEN conjunct2, THEN conjunct2, THEN conjunct2, THEN conjunct2, THEN conjunct2, THEN conjunct2, rule_format]) assumption+
qed

lemma contract_invI:
  assumes "dg_ok g'" "verts g' = insert vc (verts g - set C)"
    "arcs g' = {(u, v) \<in> arcs g. u \<notin> set C \<and> v \<notin> set C} \<union> {(u, vc) | u. ii u \<noteq> None} \<union> {(vc, v) | v. oi v \<noteq> None}"
    "\<And>u x. ii u = Some x \<Longrightarrow> x \<in> set C \<and> u \<notin> set C \<and> (u, x) \<in> arcs g" "\<And>v x. oi v = Some x \<Longrightarrow> x \<in> set C \<and> v \<notin> set C \<and> (x, v) \<in> arcs g"
    "\<And>u x. (u, x) \<in> seen \<Longrightarrow> u \<notin> set C \<Longrightarrow> x \<in> set C \<Longrightarrow> ii u \<noteq> None" "\<And>v x. (x, v) \<in> seen \<Longrightarrow> v \<notin> set C \<Longrightarrow> x \<in> set C \<Longrightarrow> oi v \<noteq> None"
    "\<And>e. fst e \<noteq> vc \<Longrightarrow> snd e \<noteq> vc \<Longrightarrow> e \<in> arcs g' \<Longrightarrow> edge_attr e g' = edge_attr e g"
  shows "contract_inv g C vc seen (g', ii, oi)"
  unfolding contract_inv_def prod.case using assms by (intro conjI allI impI) simp_all

lemma contract_see:
  assumes "contract_inv g C vc seen (g', ii, oi)" "u \<notin> set C \<Longrightarrow> v \<in> set C \<Longrightarrow> ii u \<noteq> None" "v \<notin> set C \<Longrightarrow> u \<in> set C \<Longrightarrow> oi v \<noteq> None"
  shows "contract_inv g C vc (insert (u, v) seen) (g', ii, oi)"
  by (rule contract_invI) (use contract_invD [OF assms(1)] assms(2,3) in \<open>simp_all del: not_None_eq, auto\<close>)

lemma contract_into:
  assumes I: "contract_inv g C vc seen (g', ii, oi)" and u: "u \<in> verts g" "u \<notin> set C" and x: "x \<in> set C" "(u, x) \<in> arcs g"
  shows "contract_inv g C vc seen (add_edge (u, vc) c g', ii(u \<mapsto> x), oi)"
proof -
  note i = contract_invD [OF I]
  have "u \<in> verts g'" "vc \<in> verts g'" using i(2) u by auto
  with add_edge_spec [OF i(1), of "(u, vc)"]
  have sp: "dg_ok (add_edge (u, vc) c g')" "verts (add_edge (u, vc) c g') = verts g'" "arcs (add_edge (u, vc) c g') = insert (u, vc) (arcs g')"
    "\<And>f. edge_attr f (add_edge (u, vc) c g') = (if f = (u, vc) then Some c else edge_attr f g')" by simp_all
  show ?thesis
  proof (rule contract_invI)
    show "arcs (add_edge (u, vc) c g') = {(u, v) \<in> arcs g. u \<notin> set C \<and> v \<notin> set C} \<union> {(y, vc) | y. (ii(u \<mapsto> x)) y \<noteq> None} \<union> {(vc, v) | v. oi v \<noteq> None}"
      unfolding sp(3) i(3) by auto
    show "\<And>y z. (ii(u \<mapsto> x)) y = Some z \<Longrightarrow> z \<in> set C \<and> y \<notin> set C \<and> (y, z) \<in> arcs g" using i(4) u x by (auto split: if_splits)
    show "\<And>y z. (y, z) \<in> seen \<Longrightarrow> y \<notin> set C \<Longrightarrow> z \<in> set C \<Longrightarrow> (ii(u \<mapsto> x)) y \<noteq> None" using i(6) by simp
    show "\<And>e. fst e \<noteq> vc \<Longrightarrow> snd e \<noteq> vc \<Longrightarrow> e \<in> arcs (add_edge (u, vc) c g') \<Longrightarrow> edge_attr e (add_edge (u, vc) c g') = edge_attr e g"
      unfolding sp(3,4) using i(8) by auto
  qed (use sp(1,2) i(2,5,7) in simp_all)
qed

lemma contract_out:
  assumes I: "contract_inv g C vc seen (g', ii, oi)" and v: "v \<in> verts g" "v \<notin> set C" and x: "x \<in> set C" "(x, v) \<in> arcs g"
  shows "contract_inv g C vc seen (add_edge (vc, v) c g', ii, oi(v \<mapsto> x))"
proof -
  note i = contract_invD [OF I]
  have "v \<in> verts g'" "vc \<in> verts g'" using i(2) v by auto
  with add_edge_spec [OF i(1), of "(vc, v)"]
  have sp: "dg_ok (add_edge (vc, v) c g')" "verts (add_edge (vc, v) c g') = verts g'" "arcs (add_edge (vc, v) c g') = insert (vc, v) (arcs g')"
    "\<And>f. edge_attr f (add_edge (vc, v) c g') = (if f = (vc, v) then Some c else edge_attr f g')" by simp_all
  show ?thesis
  proof (rule contract_invI)
    show "arcs (add_edge (vc, v) c g') = {(u, v) \<in> arcs g. u \<notin> set C \<and> v \<notin> set C} \<union> {(y, vc) | y. ii y \<noteq> None} \<union> {(vc, y) | y. (oi(v \<mapsto> x)) y \<noteq> None}"
      unfolding sp(3) i(3) by auto
    show "\<And>y z. (oi(v \<mapsto> x)) y = Some z \<Longrightarrow> z \<in> set C \<and> y \<notin> set C \<and> (z, y) \<in> arcs g" using i(5) v x by (auto split: if_splits)
    show "\<And>y z. (z, y) \<in> seen \<Longrightarrow> y \<notin> set C \<Longrightarrow> z \<in> set C \<Longrightarrow> (oi(v \<mapsto> x)) y \<noteq> None" using i(7) by simp
    show "\<And>e. fst e \<noteq> vc \<Longrightarrow> snd e \<noteq> vc \<Longrightarrow> e \<in> arcs (add_edge (vc, v) c g') \<Longrightarrow> edge_attr e (add_edge (vc, v) c g') = edge_attr e g"
      unfolding sp(3,4) using i(8) by auto
  qed (use sp(1,2) i(2,4,6) in simp_all)
qed

lemma contract_step:
  assumes g: "dg_ok g" and vc: "vc \<notin> verts g" and I: "contract_inv g C vc seen s" and e: "e \<in> arcs g"
  shows "contract_inv g C vc (insert e seen) (contract_edge g m vc e s)"
proof -
  obtain u v where e': "e = (u, v)" by (cases e)
  obtain g' ii oi where s: "s = (g', ii, oi)" by (cases s)
  note I = I [unfolded s]
  note i = contract_invD [OF I]
  have uv: "u \<in> verts g" "v \<in> verts g" using dg_okD(9) [OF g] e e' by auto
  then have ne: "u \<noteq> vc" "v \<noteq> vc" using vc by auto
  have uin: "u \<in> verts g' \<longleftrightarrow> u \<notin> set C" and vin: "v \<in> verts g' \<longleftrightarrow> v \<notin> set C" using uv ne i(2) by auto
  have no: "(u, vc) \<notin> arcs g" "(vc, v) \<notin> arcs g" using dg_okD(9) [OF g] vc by blast+
  consider (into) "u \<notin> set C" "v \<in> set C" | (out) "u \<in> set C" "v \<notin> set C" | (other) "u \<in> set C \<longleftrightarrow> v \<in> set C" by blast
  then show ?thesis
  proof cases
    case into
    let ?w = "cost g (u, v) + cost m (first_pred m v, v)"
    show ?thesis
    proof (cases "\<not> has_edge (u, vc) g' \<or> ?w < cost g' (u, vc)")
      case True
      then have r: "contract_edge g m vc e s = (add_edge (u, vc) ?w g', ii(u \<mapsto> v), oi)"
        using into uin vin by (simp add: contract_edge_def e' s)
      have "contract_inv g C vc seen (add_edge (u, vc) ?w g', ii(u \<mapsto> v), oi)"
        by (rule contract_into [OF I uv(1) into]) (use e e' in simp)
      then show ?thesis unfolding r unfolding e' by (rule contract_see) (use into in simp_all)
    next
      case False
      then have r: "contract_edge g m vc e s = (g', ii, oi)" using into uin vin by (simp add: contract_edge_def e' s)
      have "(u, vc) \<in> arcs g'" using False has_edge_iff [OF i(1)] by simp
      then have "ii u \<noteq> None" using i(3) ne no by auto
      then show ?thesis unfolding r unfolding e' by (intro contract_see [OF I]) (use into in simp_all)
    qed
  next
    case out
    let ?w = "cost g (u, v)"
    show ?thesis
    proof (cases "\<not> has_edge (vc, v) g' \<or> ?w < cost g' (vc, v)")
      case True
      then have r: "contract_edge g m vc e s = (add_edge (vc, v) ?w g', ii, oi(v \<mapsto> u))"
        using out uin vin by (simp add: contract_edge_def e' s)
      have "contract_inv g C vc seen (add_edge (vc, v) ?w g', ii, oi(v \<mapsto> u))"
        by (rule contract_out [OF I uv(2) out(2,1)]) (use e e' in simp)
      then show ?thesis unfolding r unfolding e' by (rule contract_see) (use out in simp_all)
    next
      case False
      then have r: "contract_edge g m vc e s = (g', ii, oi)" using out uin vin by (simp add: contract_edge_def e' s)
      have "(vc, v) \<in> arcs g'" using False has_edge_iff [OF i(1)] by simp
      then have "oi v \<noteq> None" using i(3) ne no by auto
      then show ?thesis unfolding r unfolding e' by (intro contract_see [OF I]) (use out in simp_all)
    qed
  next
    case other
    then have r: "contract_edge g m vc e s = (g', ii, oi)" using uin vin by (auto simp: contract_edge_def e' s)
    show ?thesis unfolding r unfolding e' by (intro contract_see [OF I]) (use other in simp_all)
  qed
qed

lemma contract_edges:
  assumes g: "dg_ok g" and vc: "vc \<notin> verts g"
  shows "set es \<subseteq> arcs g \<Longrightarrow> contract_inv g C vc seen s \<Longrightarrow> contract_inv g C vc (set es \<union> seen) (fold (contract_edge g m vc) es s)"
proof (induction es arbitrary: seen s)
  case (Cons e es)
  have "contract_inv g C vc (insert e seen) (contract_edge g m vc e s)" by (rule contract_step [OF g vc Cons.prems(2)]) (use Cons.prems(1) in simp)
  from Cons.IH [OF _ this] Cons.prems(1) show ?case by simp
qed simp

lemma remove_vertices_next: "next_vertex_id (fold (\<lambda>v g. fst (remove_vertex v g)) C g) = next_vertex_id g"
  by (induction C arbitrary: g) (simp_all add: remove_vertex_next)

lemma contract_spec:
  fixes g :: "('v, int) digraph"
  assumes g: "dg_ok g"
  shows "\<exists>g' ii oi vc. contract attr g m C = ((g', ii, oi), vc) \<and> vc \<notin> verts g \<and> contract_inv g C vc (arcs g) (g', ii, oi)"
proof -
  let ?g0 = "fold (\<lambda>v g. fst (remove_vertex v g)) C g"
  note r = remove_vertices_spec [OF g, where vs = C]
  obtain g1 vc where a: "add_vertex attr ?g0 = (g1, vc)" by (cases "add_vertex attr ?g0")
  note sp = add_vertex_spec [OF r(1) a]
  have "vc = next_vertex_id g" using a by (simp add: add_vertex_def Let_def remove_vertices_next)
  then have vc: "vc \<notin> verts g" using dg_okD(10) [OF g, of vc] by blast
  have "contract_inv g C vc {} (g1, Map.empty, Map.empty)"
    by (rule contract_invI) (use sp r in auto)
  from contract_edges [OF g vc _ this, of "the (edges g)" m]
  have "contract_inv g C vc (arcs g) (fold (contract_edge g m vc) (the (edges g)) (g1, Map.empty, Map.empty))"
    by (simp add: edges_set [OF g])
  then show ?thesis using a vc by (cases "fold (contract_edge g m vc) (the (edges g)) (g1, Map.empty, Map.empty)") (auto simp: contract_def)
qed

section \<open>Expansion\<close>

lemma cycle_reach:
  assumes x0: "x0 \<in> C" and f: "\<And>x. x \<in> C \<Longrightarrow> f x \<in> C" "\<And>x y. x \<in> C \<Longrightarrow> y \<in> C \<Longrightarrow> \<exists>k. (f ^^ k) y = x"
    and A: "\<And>v. v \<in> C \<Longrightarrow> v \<noteq> x0 \<Longrightarrow> (f v, v) \<in> A" and y: "y \<in> C"
  shows "(x0, y) \<in> A\<^sup>*"
proof -
  define k where "k = (LEAST k. (f ^^ k) y = x0)"
  have k: "(f ^^ k) y = x0" unfolding k_def by (rule LeastI_ex) (rule f(2) [OF x0 y])
  have least: "(f ^^ i) y \<noteq> x0" if "i < k" for i using not_less_Least that unfolding k_def by blast
  have inC: "(f ^^ i) y \<in> C" for i by (induction i) (simp_all add: y f(1))
  have "j \<le> k \<Longrightarrow> (x0, (f ^^ (k - j)) y) \<in> A\<^sup>*" for j
  proof (induction j)
    case (Suc j)
    let ?v = "(f ^^ (k - Suc j)) y"
    have "k - j = Suc (k - Suc j)" using Suc.prems by simp
    then have "(f ^^ (k - j)) y = f ?v" by simp
    moreover have "(f ?v, ?v) \<in> A" by (rule A [OF inC least]) (use Suc.prems in simp)
    ultimately show ?case using Suc by (simp add: rtrancl.rtrancl_into_rtrancl)
  qed (simp add: k)
  from this [of k] show ?thesis by simp
qed

lemma expand_arborescence:
  assumes A': "arborescence (insert vc (V - C)) root A'" and vc: "vc \<notin> V" and C: "C \<subseteq> V - {root}" and root: "root \<in> V"
    and loop: "(vc, vc) \<notin> A'" and out: "\<And>w. (vc, w) \<in> A' \<Longrightarrow> p w \<in> C" and src: "(src, vc) \<in> A'" "x0 \<in> C"
    and f: "\<And>x. x \<in> C \<Longrightarrow> f x \<in> C" "\<And>x y. x \<in> C \<Longrightarrow> y \<in> C \<Longrightarrow> \<exists>k. (f ^^ k) y = x"
    and A: "\<And>u w. (u, w) \<in> A \<longleftrightarrow> ((u, w) \<in> A' \<and> u \<noteq> vc \<and> w \<noteq> vc) \<or> ((vc, w) \<in> A' \<and> u = p w) \<or> (u = src \<and> w = x0) \<or> (w \<in> C - {x0} \<and> u = f w)"
  shows "arborescence V root A"
proof -
  note a = arborescenceD(2-5) [OF A']
  have ends: "u \<noteq> vc \<Longrightarrow> u \<in> V - C" "w \<noteq> vc \<Longrightarrow> w \<in> V - C" if "(u, w) \<in> A'" for u w using a(1) that by auto
  have vcr: "vc \<noteq> root" using vc root by auto
  have srcV: "src \<in> V - C" using ends(1) [OF src(1)] loop src(1) by auto
  have pred_vc: "u = src" if "(u, vc) \<in> A'" for u using a(3) [of vc] vcr that src(1) by auto
  have reachC: "(root, y) \<in> A\<^sup>*" if r: "(root, x0) \<in> A\<^sup>*" and y: "y \<in> C" for y
  proof -
    have "(x0, y) \<in> A\<^sup>*" by (rule cycle_reach [OF src(2) f _ y]) (use A in auto)
    then show ?thesis using r by (rule rtrancl_trans [rotated])
  qed
  have reach: "(v \<noteq> vc \<longrightarrow> (root, v) \<in> A\<^sup>*) \<and> (v = vc \<longrightarrow> (\<forall>y \<in> C. (root, y) \<in> A\<^sup>*))" if "(root, v) \<in> A'\<^sup>*" for v
    using that
  proof (induction rule: rtrancl_induct)
    case base
    show ?case using vcr by simp
  next
    case (step u w)
    consider "w = vc" | "w \<noteq> vc" "u = vc" | "w \<noteq> vc" "u \<noteq> vc" by blast
    then show ?case
    proof cases
      case 1
      then have "u = src" "u \<noteq> vc" using pred_vc step(2) loop by auto
      then have "(root, src) \<in> A\<^sup>*" using step(3) by simp
      moreover have "(src, x0) \<in> A" using A [of src x0] by simp
      ultimately have "(root, x0) \<in> A\<^sup>*" by (rule rtrancl.rtrancl_into_rtrancl)
      then show ?thesis using reachC 1 by simp
    next
      case 2
      then have e: "(p w, w) \<in> A" "p w \<in> C" using A step(2) out by auto
      then have "(root, p w) \<in> A\<^sup>*" using step(3) 2 by blast
      from rtrancl.rtrancl_into_rtrancl [OF this e(1)] show ?thesis using 2 by blast
    next
      case 3
      then have "(u, w) \<in> A" using A step(2) by auto
      moreover have "(root, u) \<in> A\<^sup>*" using step(3) 3 by blast
      ultimately show ?thesis using 3 by (meson rtrancl.rtrancl_into_rtrancl)
    qed
  qed
  have allC: "(root, y) \<in> A\<^sup>*" if "y \<in> C" for y using reach [OF a(4) [of vc]] that by simp
  show ?thesis
    unfolding arborescence_def
  proof (intro conjI allI ballI)
    show "root \<in> V" by (rule root)
    show "A \<subseteq> V \<times> V"
    proof (rule subrelI)
      fix u w assume "(u, w) \<in> A"
      then consider "(u, w) \<in> A'" "u \<noteq> vc" "w \<noteq> vc" | "(vc, w) \<in> A'" "u = p w" | "u = src" "w = x0" | "w \<in> C" "u = f w" using A by auto
      then show "(u, w) \<in> V \<times> V"
      proof cases
        case 1 then show ?thesis using ends by blast
      next
        case 2
        have "w \<noteq> vc" using 2(1) loop by auto
        then show ?thesis using ends(2) [OF 2(1)] out [OF 2(1)] C 2(2) by auto
      next
        case 3 then show ?thesis using srcV src(2) C by auto
      next
        case 4 then show ?thesis using f(1) [of w] C by auto
      qed
    qed
    show "(u, root) \<notin> A" for u using A [of u root] a(2) C src(2) by auto
    show "\<exists>!u. (u, v) \<in> A" if v: "v \<in> V - {root}" for v
    proof (cases "v \<in> C")
      case True
      have no: "(u, v) \<notin> A'" for u using a(1) True vc C by auto
      show ?thesis using A [of _ v] no True by (cases "v = x0") auto
    next
      case False
      then have v': "v \<in> insert vc (V - C)" "v \<noteq> root" "v \<noteq> vc" using v vc by auto
      obtain u where u: "(u, v) \<in> A'" "\<And>u'. (u', v) \<in> A' \<Longrightarrow> u' = u" using a(3) [OF v'(1,2)] by blast
      have iff: "(x, v) \<in> A \<longleftrightarrow> ((x, v) \<in> A' \<and> x \<noteq> vc) \<or> ((vc, v) \<in> A' \<and> x = p v)" for x
        using A [of x v] False v'(3) src(2) by auto
      have in_A': "(x, v) \<in> A' \<longleftrightarrow> x = u" for x using u(1) u(2) [of x] by iprover
      have "(x, v) \<in> A \<longleftrightarrow> x = (if u = vc then p v else u)" for x
        by (simp only: iff in_A') auto
      then show ?thesis by simp
    qed
    show "(root, v) \<in> A\<^sup>*" if v: "v \<in> V" for v
      using reach [OF a(4) [of v]] allC [of v] v vc by (cases "v \<in> C") auto
  qed
qed

lemma expand_spec:
  fixes g :: "('v, int) digraph"
  assumes g: "dg_ok g" and h: "pred_graph h f root" "verts h = verts g" "arcs h \<subseteq> arcs g" "\<And>e. e \<in> arcs h \<Longrightarrow> edge_attr e h = edge_attr e g"
    and C: "is_cycle h f root C" and vc: "vc \<notin> verts g" and I: "contract_inv g C vc (arcs g) (g', ii, oi)"
    and t: "dg_ok t'" "verts t' = verts g'" "arborescence (verts g') root (arcs t')" "arcs t' \<subseteq> arcs g'"
      "\<And>e. e \<in> arcs t' \<Longrightarrow> edge_attr e t' = edge_attr e g'"
  shows "\<exists>t. expand attr g h C vc ii oi t' = Some t \<and> dg_ok t \<and> verts t = verts g \<and> arborescence (verts g) root (arcs t) \<and>
    arcs t \<subseteq> arcs g \<and> (\<forall>e \<in> arcs t. edge_attr e t = edge_attr e g)"
proof -
  note i = contract_invD [OF I]
  have C': "C \<noteq> []" "set C \<subseteq> verts g - {root}" "\<And>x. x \<in> set C \<Longrightarrow> f x \<in> set C" "\<And>x y. x \<in> set C \<Longrightarrow> y \<in> set C \<Longrightarrow> \<exists>k. (f ^^ k) y = x"
    using C h(2) unfolding is_cycle_def by blast+
  have root: "root \<in> verts g" using pred_graphD(2) [OF h(1)] h(2) by simp
  have t': "arborescence (insert vc (verts g - set C)) root (arcs t')" using t(3) i(2) by simp
  note a = arborescenceD [OF t']
  have vcr: "vc \<noteq> root" using vc root by auto
  have no: "(vc, x) \<notin> arcs g" "(x, vc) \<notin> arcs g" for x using dg_okD(9) [OF g] vc by blast+
  have "ii vc = None" "oi vc = None" using i(4) [of vc] i(5) [of vc] no by (auto intro: ccontr)
  then have "(vc, vc) \<notin> arcs g'" unfolding i(3) using no by simp
  then have loop: "(vc, vc) \<notin> arcs t'" using t(4) by blast
  have out: "oi w \<noteq> None" "the (oi w) \<in> set C" "(the (oi w), w) \<in> arcs g" "w \<noteq> vc" if w: "(vc, w) \<in> arcs t'" for w
  proof -
    show nv: "w \<noteq> vc" using w loop by auto
    have "(vc, w) \<in> arcs g'" using w t(4) by blast
    then show o: "oi w \<noteq> None" using i(3) no nv by auto
    then show "the (oi w) \<in> set C" "(the (oi w), w) \<in> arcs g" using i(5) [of w "the (oi w)"] by auto
  qed
  obtain src where src: "(src, vc) \<in> arcs t'" "\<And>u. (u, vc) \<in> arcs t' \<Longrightarrow> u = src" using a(4) [of vc] vcr by blast
  have srcv: "src \<noteq> vc" using src(1) loop by auto
  have "(src, vc) \<in> arcs g'" using src(1) t(4) by blast
  then obtain x0 where x0: "ii src = Some x0" using i(3) no srcv by auto
  have x0': "x0 \<in> set C" "(src, x0) \<in> arcs g" using i(4) [OF x0] by simp_all
  \<comment> \<open>the edges out of the cycle\<close>
  let ?m1 = "fold (add_vertex_with_id attr) C t'"
  note m1 = add_vertices_spec [OF t(1), where a = attr and vs = C]
  have vs1: "verts ?m1 = insert vc (verts g)" unfolding m1(2) t(2) i(2) using C'(2) by auto
  let ?outs = "neighbors_of vc (out_map ?m1)"
  have outs: "w \<in> set ?outs \<longleftrightarrow> (vc, w) \<in> arcs t'" for w using arcs_iff(1) [OF m1(1), of vc w] m1(3) by simp
  have r1: "out_neighbors vc ?m1 = Some ?outs" by (rule neighbors_at(1) [OF m1(1)]) (simp add: vs1)
  have defd: "list_all (\<lambda>w. oi w \<noteq> None) ?outs" using out(1) outs by (simp add: list_all_iff)
  let ?e2 = "map (\<lambda>w. (the (oi w), w)) ?outs"
  let ?m2 = "fold (\<lambda>w. add_edge (the (oi w), w) (cost g (the (oi w), w))) ?outs ?m1"
  have m2e: "?m2 = fold (\<lambda>e. add_edge e (cost g e)) ?e2 ?m1" by (simp add: fold_map comp_def)
  have sub2: "set ?e2 \<subseteq> verts ?m1 \<times> verts ?m1" unfolding vs1 using out(3) outs dg_okD(9) [OF g] by fastforce
  note m2 = add_edges_spec [OF m1(1) sub2, where c = "cost g", folded m2e]
  have arcs2: "(u, w) \<in> arcs ?m2 \<longleftrightarrow> ((vc, w) \<in> arcs t' \<and> u = the (oi w)) \<or> (u, w) \<in> arcs t'" for u w
    unfolding m2(3) m1(3) using outs by auto
  have "set (neighbors_of vc (in_map ?m2)) = {src}"
  proof -
    have "(u, vc) \<in> arcs ?m2 \<longleftrightarrow> u = src" for u unfolding arcs2 using src loop by blast
    then show ?thesis using arcs_iff(2) [OF m2(1), of _ vc] by (simp add: set_eq_iff)
  qed
  then have "neighbors_of vc (in_map ?m2) = [src]" by (rule distinct_one [OF dg_okD(7) [OF m2(1)]])
  then have r2: "in_neighbors vc ?m2 = Some [src]" using neighbors_at(2) [OF m2(1), of vc] m2(2) vs1 by simp
  \<comment> \<open>the edge into the cycle\<close>
  let ?m3 = "add_edge (src, x0) (cost g (src, x0)) ?m2"
  have "src \<in> verts ?m2" "x0 \<in> verts ?m2" unfolding m2(2) vs1 using x0'(2) dg_okD(9) [OF g] by auto
  then have m3: "dg_ok ?m3" "verts ?m3 = verts ?m2" "arcs ?m3 = insert (src, x0) (arcs ?m2)"
    "\<And>e. edge_attr e ?m3 = (if e = (src, x0) then Some (cost g (src, x0)) else edge_attr e ?m2)"
    using add_edge_spec [OF m2(1), of "(src, x0)"] by simp_all
  obtain m4 n where r4: "remove_vertex vc ?m3 = (m4, n)" by (cases "remove_vertex vc ?m3")
  note m4 = remove_vertex_spec [OF m3(1) r4]
  have vs4: "verts m4 = verts g" unfolding m4(2) m3(2) m2(2) vs1 using vc by auto
  have n: "n = 1" using m4(4) m3(2) m2(2) vs1 by simp
  \<comment> \<open>the edges of the cycle\<close>
  let ?e5 = "map (\<lambda>v. (first_pred h v, v)) (filter (\<lambda>v. v \<noteq> x0) C)"
  let ?t = "fold (\<lambda>v. add_edge (first_pred h v, v) (cost h (first_pred h v, v))) (filter (\<lambda>v. v \<noteq> x0) C) m4"
  have te: "?t = fold (\<lambda>e. add_edge e (cost h e)) ?e5 m4" by (simp add: fold_map comp_def)
  have fp: "first_pred h v = f v" "(f v, v) \<in> arcs h" if "v \<in> set C" for v
    using pred_graph_first [OF h(1), of v] pred_graphD(3) [OF h(1), of "f v" v] that C'(2) h(2) by auto
  have e5: "e \<in> set ?e5 \<longleftrightarrow> (\<exists>v. e = (f v, v) \<and> v \<in> set C \<and> v \<noteq> x0)" for e using fp(1) by force
  have sub5: "set ?e5 \<subseteq> verts m4 \<times> verts m4"
  proof
    fix e assume "e \<in> set ?e5"
    then have "e \<in> arcs g" unfolding e5 using fp(2) h(3) by blast
    then show "e \<in> verts m4 \<times> verts m4" using dg_okD(9) [OF g] vs4 by auto
  qed
  note m5 = add_edges_spec [OF m4(1) sub5, where c = "cost h", folded te]
  have A: "(u, w) \<in> arcs ?t \<longleftrightarrow> ((u, w) \<in> arcs t' \<and> u \<noteq> vc \<and> w \<noteq> vc) \<or> ((vc, w) \<in> arcs t' \<and> u = the (oi w)) \<or> (u = src \<and> w = x0) \<or>
      (w \<in> set C - {x0} \<and> u = f w)" for u w
  proof -
    have "(vc, w) \<in> arcs t' \<Longrightarrow> the (oi w) \<noteq> vc" using out(2) [of w] C'(2) vc by auto
    moreover have "x0 \<noteq> vc" using x0'(1) C'(2) vc by auto
    ultimately show ?thesis unfolding m5(3) m4(3) m3(3) using arcs2 [of u w] e5 [of "(u, w)"] out(4) [of w] srcv by auto
  qed
  have arb: "arborescence (verts g) root (arcs ?t)"
    by (rule expand_arborescence [OF t' vc C'(2) root loop out(2) src(1) x0'(1) C'(3,4) A])
  have old: "e \<in> arcs g \<and> edge_attr e t' = edge_attr e g" if e: "e \<in> arcs t'" "fst e \<noteq> vc" "snd e \<noteq> vc" for e
  proof -
    have eg: "e \<in> arcs g'" using e(1) t(4) by blast
    then have "e \<in> arcs g" using e(2,3) i(3) by auto
    then show ?thesis using i(8) [OF e(2,3) eg] t(5) [OF e(1)] by simp
  qed
  have sub: "e \<in> arcs g" if "e \<in> arcs ?t" for e
    using that A [of "fst e" "snd e"] old [of e] out(3) [of "snd e"] x0'(2) fp(2) [of "snd e"] h(3) by (cases e) auto
  have at: "edge_attr e ?t = edge_attr e g" if e: "e \<in> arcs ?t" for e
  proof (cases "e \<in> set ?e5")
    case True
    then have "e \<in> arcs h" unfolding e5 using fp(2) by blast
    then show ?thesis using m5(4) [of e] True edge_cost [OF pred_graphD(1) [OF h(1)], of e] h(4) [of e] by simp
  next
    case no5: False
    have ne: "fst e \<noteq> vc" "snd e \<noteq> vc" using dg_okD(9) [OF g] sub [OF e] vc by auto
    have "edge_attr e ?t = (if e = (src, x0) then Some (cost g e) else edge_attr e ?m2)"
      using m5(4) [of e] no5 m4(5) [of e] m3(4) [of e] ne by simp
    also have "\<dots> = Some (cost g e)"
    proof (cases "e = (src, x0) \<or> e \<in> set ?e2")
      case True
      then show ?thesis using m2(4) [of e] by auto
    next
      case False
      have "e \<in> arcs ?m2" using e no5 False m5(3) m4(3) m3(3) by auto
      then have "e \<in> arcs t'" using False m2(3) m1(3) by auto
      then have "edge_attr e t' = edge_attr e g" "e \<in> arcs g" using old [of e] ne by simp_all
      then show ?thesis using False m2(4) [of e] m1(4) edge_cost [OF g, of e] by simp
    qed
    finally show ?thesis using edge_cost [OF g sub [OF e]] by simp
  qed
  have vs: "verts ?t = verts g" using m5(2) vs4 by simp
  have "num_edges ?t = num_vertices g - 1"
    using num_edges_card [OF m5(1)] arborescence_card [OF arb] num_vertices_card [OF g] by simp
  then have "expand attr g h C vc ii oi t' = Some ?t"
    using r1 defd r2 x0 r4 n by (simp add: expand_def Let_def)
  then show ?thesis using m5(1) vs arb sub at by blast
qed

section \<open>Spanning arborescences\<close>

theorem spanning_arborescence_spec:
  fixes g :: "('v, int) digraph"
  assumes "complete_graph g" "root \<in> verts g" "card (verts g) \<le> fuel"
  shows "\<exists>t. spanning_arborescence fuel attr g root = Some t \<and> dg_ok t \<and> verts t = verts g \<and> arborescence (verts g) root (arcs t) \<and>
    arcs t \<subseteq> arcs g \<and> (\<forall>e \<in> arcs t. edge_attr e t = edge_attr e g)"
  using assms
proof (induction fuel arbitrary: g)
  case 0
  then show ?case by auto
next
  case (Suc fuel)
  have g: "dg_ok g" and all: "arcs g = {(u, v). u \<in> verts g \<and> v \<in> verts g \<and> u \<noteq> v}" using Suc.prems(1) by (simp_all add: complete_graph_def)
  have "\<exists>u. (u, v) \<in> arcs g" if "v \<in> verts g - {root}" for v using all that Suc.prems(2) by auto
  then obtain h f where b: "build_min_edge_subgraph attr g root = Some h" and h: "pred_graph h f root" "verts h = verts g" "arcs h \<subseteq> arcs g"
    "\<forall>e \<in> arcs h. edge_attr e h = edge_attr e g" using build_spec [OF g Suc.prems(2)] by blast
  consider (tree) "find_cycle h = NoCycle" "acyclic (arcs h)" | (cycle) C where "find_cycle h = Cycle C" "is_cycle h f root C"
    using find_cycle_spec [OF h(1)] by blast
  then show ?case
  proof cases
    case tree
    then show ?thesis using b h acyclic_arborescence [OF h(1)] pred_graphD(1) [OF h(1)] by simp
  next
    case cycle
    have C: "C \<noteq> []" "distinct C" "set C \<subseteq> verts g - {root}" "\<And>x. x \<in> set C \<Longrightarrow> f x \<in> set C"
      using cycle(2) h(2) unfolding is_cycle_def by blast+
    obtain g' ii oi vc where c: "contract attr g h C = ((g', ii, oi), vc)" "vc \<notin> verts g" "contract_inv g C vc (arcs g) (g', ii, oi)"
      using contract_spec [OF g] by blast
    note i = contract_invD [OF c(3)]
    obtain x where x: "x \<in> set C" using C(1) by (cases C) auto
    have xV: "x \<in> verts g - {root}" using x C(3) by blast
    have "(f x, x) \<in> arcs h" using pred_graphD(3) [OF h(1), of "f x" x] xV h(2) by simp
    then have "f x \<noteq> x" using h(3) all by auto
    then have "card {x, f x} = 2" by simp
    moreover have "{x, f x} \<subseteq> set C" using x C(4) by simp
    ultimately have two: "2 \<le> card (set C)" by (metis card_mono List.finite_set)
    have "card (verts g - set C) = card (verts g) - card (set C)" by (rule card_Diff_subset) (use C(3) in auto)
    moreover have "card (set C) \<le> card (verts g)" by (rule card_mono) (use C(3) in auto)
    moreover have "vc \<notin> verts g - set C" using c(2) by blast
    ultimately have fuel: "card (verts g') \<le> fuel" using two Suc.prems(3) i(2) by simp
    have ii: "ii u \<noteq> None \<longleftrightarrow> u \<in> verts g - set C" for u
    proof
      assume "ii u \<noteq> None"
      then obtain y where "ii u = Some y" by blast
      from i(4) [OF this] show "u \<in> verts g - set C" using all by auto
    next
      assume u: "u \<in> verts g - set C"
      then have "(u, x) \<in> arcs g" using all xV x by auto
      then show "ii u \<noteq> None" using i(6) [of u x] u x by simp
    qed
    have oi: "oi u \<noteq> None \<longleftrightarrow> u \<in> verts g - set C" for u
    proof
      assume "oi u \<noteq> None"
      then obtain y where "oi u = Some y" by blast
      from i(5) [OF this] show "u \<in> verts g - set C" using all by auto
    next
      assume u: "u \<in> verts g - set C"
      then have "(x, u) \<in> arcs g" using all xV x by auto
      then show "oi u \<noteq> None" using i(7) [of x u] u x by simp
    qed
    have "complete_graph g'" unfolding complete_graph_def i(3) ii oi i(2) all using i(1) c(2) by auto
    moreover have rg': "root \<in> verts g'" using i(2) Suc.prems(2) C(3) by auto
    ultimately obtain t' where t': "spanning_arborescence fuel attr g' root = Some t'" "dg_ok t'" "verts t' = verts g'"
      "arborescence (verts g') root (arcs t')" "arcs t' \<subseteq> arcs g'" "\<forall>e \<in> arcs t'. edge_attr e t' = edge_attr e g'"
      using Suc.IH [OF _ _ fuel] by blast
    from expand_spec [OF g h(1-3) _ cycle(2) c(2,3) t'(2-5), where attr = attr] h(4) t'(6)
    obtain t where "expand attr g h C vc ii oi t' = Some t" "dg_ok t" "verts t = verts g" "arborescence (verts g) root (arcs t)"
      "arcs t \<subseteq> arcs g" "\<forall>e \<in> arcs t. edge_attr e t = edge_attr e g" by blast
    then show ?thesis using b cycle(1) c(1) t'(1) by simp
  qed
qed

section \<open>The choice of the root\<close>

definition spans :: "('v, int) digraph \<Rightarrow> ('v, int) digraph \<Rightarrow> nat \<Rightarrow> bool" where
  "spans g t root \<longleftrightarrow> dg_ok t \<and> verts t = verts g \<and> arborescence (verts g) root (arcs t) \<and> arcs t \<subseteq> arcs g \<and>
     (\<forall>e \<in> arcs t. edge_attr e t = edge_attr e g)"

lemma edges_distinct:
  assumes g: "dg_ok g"
  shows "distinct (the (edges g))"
proof -
  let ?out = "\<lambda>v. map (\<lambda>dst. (v, dst)) (neighbors_of v (out_map g))"
  have "those (map (\<lambda>v. out_edges v g) vs) = Some (map ?out vs)" if "set vs \<subseteq> verts g" for vs
    using that by (induction vs) (simp_all add: out_edges_def neighbors_at [OF g])
  from this [of "vertices g"] have e: "the (edges g) = concat (map ?out (vertices g))" by (simp add: edges_def verts_def)
  have "distinct (concat (map ?out vs))" if "distinct vs" for vs
    using that
  proof (induction vs)
    case (Cons v vs)
    then show ?case using dg_okD(6) [OF g, of v] by (auto simp: distinct_map inj_on_def)
  qed simp
  then show ?thesis using dg_okD(1) [OF g] by (simp add: e)
qed

lemma total_weight_bound:
  assumes t: "spans g t root" and b: "\<And>e. e \<in> arcs g \<Longrightarrow> cost g e \<le> B"
  shows "total_weight t \<le> int (card (verts g) - 1) * B"
proof -
  have t': "dg_ok t" "arborescence (verts g) root (arcs t)" "arcs t \<subseteq> arcs g" "\<And>e. e \<in> arcs t \<Longrightarrow> edge_attr e t = edge_attr e g"
    using t by (simp_all add: spans_def)
  have "cost t e \<le> B" if "e \<in> set (the (edges t))" for e
    using that t'(3,4) b [of e] unfolding edges_set [OF t'(1)] by (auto simp: cost_def)
  then have "total_weight t \<le> (\<Sum>e \<leftarrow> the (edges t). B)" unfolding total_weight_def by (rule sum_list_mono)
  also have "\<dots> = int (length (the (edges t))) * B" by (simp add: sum_list_triv)
  also have "length (the (edges t)) = card (verts g) - 1"
    using distinct_card [OF edges_distinct [OF t'(1)]] edges_set [OF t'(1)] arborescence_card [OF t'(2)] by simp
  finally show ?thesis .
qed

lemma best_root_spec:
  assumes g: "complete_graph g" and b: "\<And>e. e \<in> arcs g \<Longrightarrow> cost g e \<le> B" "int (card (verts g) - 1) * B < max_cost"
  shows "set vs \<subseteq> verts g \<Longrightarrow> (spans g t r \<and> r \<in> verts g) \<or> (c = max_cost \<and> vs \<noteq> []) \<Longrightarrow>
    \<exists>t' r'. best_root attr g vs (c, t, r) = Some (t', r') \<and> spans g t' r' \<and> r' \<in> verts g"
proof (induction vs arbitrary: c t r)
  case (Cons v vs)
  have ok: "dg_ok g" using g by (simp add: complete_graph_def)
  have v: "v \<in> verts g" using Cons.prems(1) by simp
  obtain t1 where t1: "spanning_arborescence (num_vertices g) attr g v = Some t1" "spans g t1 v"
    using spanning_arborescence_spec [OF g v, of "num_vertices g" attr] num_vertices_card [OF ok] unfolding spans_def by auto
  have lt: "total_weight t1 < max_cost" using total_weight_bound [OF t1(2) b(1)] b(2) by linarith
  show ?case
  proof (cases "total_weight t1 < c")
    case True
    then show ?thesis using Cons.IH [of t1 v "total_weight t1"] t1 v Cons.prems(1) by simp
  next
    case False
    then have "spans g t r \<and> r \<in> verts g" using Cons.prems(2) lt by auto
    then show ?thesis using Cons.IH [of t r c] t1(1) False Cons.prems(1) by simp
  qed
qed auto

theorem minimum_spanning_arborescence_spans:
  assumes g: "complete_graph g" "vertices g \<noteq> []" and b: "\<And>e. e \<in> arcs g \<Longrightarrow> cost g e \<le> B" "int (card (verts g) - 1) * B < max_cost"
  shows "\<exists>t r. minimum_spanning_arborescence attr g = Some (t, r) \<and> spans g t r \<and> r \<in> verts g"
  unfolding minimum_spanning_arborescence_def
  by (rule best_root_spec [OF g(1) b]) (use g(2) in \<open>simp_all add: verts_def\<close>)

text \<open>The contraction adds the cost of the edge that is given up where it has to be subtracted: the arborescence can be
  more expensive than another one.\<close>

definition three_cities :: "(unit, int) digraph" where
  "three_cities = fold (\<lambda>(e, c). add_edge e c) [((0, 1), 10), ((0, 2), 9), ((1, 2), 1), ((2, 1), 5), ((1, 0), 20), ((2, 0), 20)]
     (fold (add_vertex_with_id ()) [0, 1, 2] dg_empty)"

definition cheaper_cities :: "(unit, int) digraph" where
  "cheaper_cities = fold (\<lambda>(e, c). add_edge e c) [((0, 1), 10), ((1, 2), 1)] (fold (add_vertex_with_id ()) [0, 1, 2] dg_empty)"

lemma cheaper_spans: "spans three_cities cheaper_cities 0"
proof -
  let ?vs = "fold (add_vertex_with_id ()) [0, 1, 2] dg_empty :: (unit, int) digraph"
  let ?c = "\<lambda>e. if e = (1 :: nat, 2 :: nat) then 1 :: int else 10"
  note v = add_vertices_spec [OF dg_empty_ok(1), where a = "()" and vs = "[0, 1, 2]"]
  have vs: "verts ?vs = {0, 1, 2}" "arcs ?vs = {}" using v(2,3) by (auto simp: dg_empty_ok)
  have e: "cheaper_cities = fold (\<lambda>e. add_edge e (?c e)) [(0, 1), (1, 2)] ?vs" by (simp add: cheaper_cities_def)
  have "set [(0, 1), (1, 2)] \<subseteq> verts ?vs \<times> verts ?vs" unfolding vs by simp
  note t = add_edges_spec [OF v(1) this, where c = ?c, folded e]
  have arcs: "arcs cheaper_cities = {(0, 1), (1, 2)}" unfolding t(3) vs by simp
  have verts: "verts cheaper_cities = {0, 1, 2}" unfolding t(2) vs by simp
  have g: "verts three_cities = {0, 1, 2}" "(0, 1) \<in> arcs three_cities" "(1, 2) \<in> arcs three_cities"
      "edge_attr (0, 1) three_cities = edge_attr (0, 1) cheaper_cities" "edge_attr (1, 2) three_cities = edge_attr (1, 2) cheaper_cities"
    unfolding verts_def arcs_def by code_simp+
  have "arborescence {0, 1, 2} 0 {(0, 1), (1, 2)}"
    unfolding arborescence_def by (auto intro: rtrancl.rtrancl_into_rtrancl)
  then show ?thesis unfolding spans_def arcs verts g(1) using t(1) g(2-5) by auto
qed

lemma arborescence_costs:
  "map_option total_weight (spanning_arborescence 3 () three_cities 0) = Some 14" "total_weight cheaper_cities = 11"
  by code_simp+

end
