(* ===== verification/MstSynthesis.thy ===== *)
theory MstSynthesis
  imports GraySynth ArborescenceSpan Todd
begin

text \<open>
  \<open>MstSynthesisStrategy\<close> of src/src/convert/tableau_to_qcir.cpp: in each round the rotation of least weight is
  gathered on the root of an arborescence of the parity graph of the remaining rotations. In the last round no rotation
  remains, and \<open>get_parity_graph\<close> reads the front of an empty vector: what this read gives is the argument \<open>stale\<close>.
\<close>

section \<open>The parity graph\<close>

definition hamming_weight :: "pauli_rotation \<Rightarrow> nat" where
  "hamming_weight R = length (filter (is_z_set (rot_product R)) [0..<rot_n_qubits R])"

definition get_best_rotation_idx :: "pauli_rotation list \<Rightarrow> nat" where
  "get_best_rotation_idx rs = first_least (map hamming_weight rs)"

definition z_column_weight :: "pauli_rotation list \<Rightarrow> nat \<Rightarrow> nat" where
  "z_column_weight rs q = length (filter (\<lambda>R. is_z_set (rot_product R) q) rs)"

definition column_distance :: "pauli_rotation list \<Rightarrow> nat \<Rightarrow> nat \<Rightarrow> nat" where
  "column_distance rs q1 q2 = length (filter (\<lambda>R. is_z_set (rot_product R) q1 \<noteq> is_z_set (rot_product R) q2) rs)"

definition get_parity_graph :: "nat option \<Rightarrow> pauli_rotation list \<Rightarrow> pauli_rotation \<Rightarrow> (nat, int) digraph option" where
  "get_parity_graph stale rs target =
     map_option (\<lambda>num_qubits.
       (let qubit_vec = filter (is_z_set (rot_product target)) [0..<num_qubits];
            g = fold (add_vertex_with_id 0) qubit_vec dg_empty
        in fold (\<lambda>(i, j) g.
             (let dist = int (column_distance rs i j);
                  weight_i = int (z_column_weight rs i);
                  weight_j = int (z_column_weight rs j)
              in add_edge (j, i) (dist - weight_i - 1) (add_edge (i, j) (dist - weight_j - 1) g)))
             (combinations2 qubit_vec) g))
       (if rs = [] then stale else Some (rot_n_qubits (hd rs)))"

section \<open>The strategy\<close>

text \<open>The swap with the back and the removal of the back.\<close>

definition swap_remove :: "nat \<Rightarrow> 'a list \<Rightarrow> 'a list" where
  "swap_remove i xs = butlast (xs[i := last xs])"

definition mst_cx :: "nat \<Rightarrow> nat \<Rightarrow> network \<Rightarrow> network" where
  "mst_cx ctrl targ s = (if ctrl = targ then s else network_cx (map (rot_cx ctrl targ)) ctrl targ s)"

text \<open>Both the stack and the vector of the order have their back at the head.\<close>

fun post_order :: "nat \<Rightarrow> (nat, int) digraph \<Rightarrow> nat list \<Rightarrow> nat list \<Rightarrow> nat list option" where
  "post_order 0 mst stack post_order_rev = None"
| "post_order (Suc fuel) mst [] post_order_rev = Some post_order_rev"
| "post_order (Suc fuel) mst (v # stack) post_order_rev =
     (case out_neighbors v mst of None \<Rightarrow> None | Some ns \<Rightarrow> post_order fuel mst (rev ns @ stack) (v # post_order_rev))"

fun gather_tree :: "(nat, int) digraph \<Rightarrow> nat \<Rightarrow> nat list \<Rightarrow> network \<Rightarrow> network option" where
  "gather_tree mst rt [] s = Some s"
| "gather_tree mst rt (v # vs) s =
     (case in_neighbors v mst of
        Some [p] \<Rightarrow> gather_tree mst rt vs (mst_cx v p s)
      | Some [] \<Rightarrow> if v = rt then gather_tree mst rt vs s else None
      | _ \<Rightarrow> None)"

definition mst_round :: "nat option \<Rightarrow> network \<Rightarrow> network option" where
  "mst_round stale s =
     (let rs = net_rotations s;
          idx = get_best_rotation_idx rs;
          best = rs ! idx;
          rest = swap_remove idx rs
      in case get_parity_graph stale rest best of
           None \<Rightarrow> None
         | Some g \<Rightarrow>
             (case minimum_spanning_arborescence 0 g of
                None \<Rightarrow> None
              | Some (mst, rt) \<Rightarrow>
                  (case post_order (num_vertices mst + 1) mst [rt] [] of
                     None \<Rightarrow> None
                   | Some vs \<Rightarrow>
                       map_option (network_rz (rot_phase best) rt) (gather_tree mst rt vs (s\<lparr>net_rotations := rest\<rparr>)))))"

text \<open>Every round removes one rotation.\<close>

fun mst_loop :: "nat \<Rightarrow> nat option \<Rightarrow> network \<Rightarrow> network option" where
  "mst_loop 0 stale s = (if net_rotations s = [] then Some s else None)"
| "mst_loop (Suc k) stale s = (if net_rotations s = [] then Some s else Option.bind (mst_round stale s) (mst_loop k stale))"

definition mst_synthesize :: "(nat \<Rightarrow> bool) \<Rightarrow> nat option \<Rightarrow> nat \<Rightarrow> pauli_rotation list \<Rightarrow> qcir outcome \<times> nat" where
  "mst_synthesize stop stale k rotations =
     (if rotations = [] then (Undefined, k)
      else (let num_qubits = rot_n_qubits (hd rotations) in
            if num_qubits = 0 then (Result (qcir_new 0), k)
            else if \<not> list_all rot_is_diagonal rotations then (NullOpt, k)
            else (case mst_loop (length rotations) stale (network_init num_qubits rotations) of
                    None \<Rightarrow> (Undefined, k)
                  | Some s \<Rightarrow> finish_network stop k s)))"

end
