(* ===== verification/MstCorrect.thy ===== *)
theory MstCorrect
  imports MstSynthesis "HOL-Library.Multiset"
begin

text \<open>The circuit of the arborescence strategy computes the rotations, when the read of the empty vector gives the number of qubits.\<close>

section \<open>The parity graph is complete\<close>

definition both_ways :: "nat list \<Rightarrow> (nat \<times> nat) list" where
  "both_ways qs = concat (map (\<lambda>(i, j). [(i, j), (j, i)]) (combinations2 qs))"

lemma both_ways_set: "distinct qs \<Longrightarrow> set (both_ways qs) = {(u, v). u \<in> set qs \<and> v \<in> set qs \<and> u \<noteq> v}"
  by (induction qs) (auto simp: both_ways_def)

definition parity_cost :: "pauli_rotation list \<Rightarrow> nat \<times> nat \<Rightarrow> int" where
  "parity_cost rs e = int (column_distance rs (fst e) (snd e)) - int (z_column_weight rs (snd e)) - 1"

lemma column_distance_sym: "column_distance rs i j = column_distance rs j i"
  unfolding column_distance_def by (rule arg_cong [of _ _ length], rule filter_cong) auto

lemma get_parity_graph_spec:
  assumes n: "(if rs = [] then stale else Some (rot_n_qubits (hd rs))) = Some n"
  shows "\<exists>g. get_parity_graph stale rs R = Some g \<and> complete_graph g \<and> vertices g \<noteq> [] = (\<exists>q < n. is_z_set (rot_product R) q) \<and>
    verts g = {q. q < n \<and> is_z_set (rot_product R) q} \<and> (\<forall>e \<in> arcs g. cost g e \<le> int (length rs))"
proof -
  let ?qs = "filter (is_z_set (rot_product R)) [0..<n]"
  let ?vs = "fold (add_vertex_with_id 0) ?qs dg_empty :: (nat, int) digraph"
  let ?g = "fold (\<lambda>e. add_edge e (parity_cost rs e)) (both_ways ?qs) ?vs"
  have fold: "fold (\<lambda>(i, j) g. add_edge (j, i) (int (column_distance rs i j) - int (z_column_weight rs i) - 1)
      (add_edge (i, j) (int (column_distance rs i j) - int (z_column_weight rs j) - 1) g)) ps g =
      fold (\<lambda>e. add_edge e (parity_cost rs e)) (concat (map (\<lambda>(i, j). [(i, j), (j, i)]) ps)) g" for ps and g :: "(nat, int) digraph"
    by (induction ps arbitrary: g) (auto simp: parity_cost_def column_distance_sym [of rs])
  have r: "get_parity_graph stale rs R = Some ?g" using n by (simp add: get_parity_graph_def Let_def fold both_ways_def)
  note v = add_vertices_spec [OF dg_empty_ok(1), where a = 0 and vs = ?qs]
  have vs: "verts ?vs = set ?qs" "arcs ?vs = {}" by (simp_all only: v(2,3) dg_empty_ok(2,3) Un_empty_right)
  have bw: "set (both_ways ?qs) = {(u, v). u \<in> set ?qs \<and> v \<in> set ?qs \<and> u \<noteq> v}" by (rule both_ways_set) simp
  have "set (both_ways ?qs) \<subseteq> verts ?vs \<times> verts ?vs" unfolding bw vs by blast
  note g = add_edges_spec [OF v(1) this, where c = "parity_cost rs"]
  have verts: "verts ?g = set ?qs" using g(2) vs(1) by simp
  have arcs: "arcs ?g = {(u, v). u \<in> set ?qs \<and> v \<in> set ?qs \<and> u \<noteq> v}" using g(3) by (simp only: vs(2) bw Un_empty_right)
  have "complete_graph ?g" unfolding complete_graph_def verts arcs using g(1) by simp
  moreover have "cost ?g e \<le> int (length rs)" if "e \<in> arcs ?g" for e
  proof -
    have "e \<in> set (both_ways ?qs)" using that unfolding arcs bw by simp
    then have "cost ?g e = parity_cost rs e" using g(4) [of e] by (simp add: cost_def)
    moreover have "column_distance rs (fst e) (snd e) \<le> length rs" by (simp add: column_distance_def)
    ultimately show ?thesis by (simp add: parity_cost_def)
  qed
  moreover have "vertices ?g \<noteq> [] = (\<exists>q < n. is_z_set (rot_product R) q)"
  proof -
    have "vertices ?g = [] \<longleftrightarrow> set ?qs = {}" using verts unfolding verts_def by (metis set_empty)
    then show ?thesis by (auto simp: filter_empty_conv)
  qed
  ultimately show ?thesis using r verts by (intro exI [of _ ?g]) auto
qed

section \<open>The order of the vertices\<close>

text \<open>The predecessor of a vertex comes later.\<close>

fun preds_later :: "(nat \<times> nat) set \<Rightarrow> nat list \<Rightarrow> bool" where
  "preds_later A [] \<longleftrightarrow> True"
| "preds_later A (v # vs) \<longleftrightarrow> (\<forall>u. (u, v) \<in> A \<longrightarrow> u \<in> set vs) \<and> preds_later A vs"

lemma preds_later_mem: "preds_later A vs \<Longrightarrow> v \<in> set vs \<Longrightarrow> (u, v) \<in> A \<Longrightarrow> u \<in> set vs"
  by (induction vs) auto

definition walk_inv :: "(nat, int) digraph \<Rightarrow> nat \<Rightarrow> nat list \<Rightarrow> nat list \<Rightarrow> bool" where
  "walk_inv t rt stack po \<longleftrightarrow> distinct stack \<and> distinct po \<and> set stack \<inter> set po = {} \<and> set stack \<subseteq> verts t \<and> set po \<subseteq> verts t \<and>
     preds_later (arcs t) po \<and> (\<forall>x \<in> set stack. \<forall>p. (p, x) \<in> arcs t \<longrightarrow> p \<in> set po) \<and>
     (\<forall>x \<in> set po. \<forall>y. (x, y) \<in> arcs t \<longrightarrow> y \<in> set po \<union> set stack) \<and> rt \<in> set po \<union> set stack \<and> (po \<noteq> [] \<longrightarrow> last po = rt) \<and>
     (po = [] \<longrightarrow> stack = [rt])"

lemma walk_invD:
  assumes "walk_inv t rt stack po"
  shows "distinct stack" "distinct po" "x \<in> set stack \<Longrightarrow> x \<notin> set po" "set stack \<subseteq> verts t" "set po \<subseteq> verts t"
    "preds_later (arcs t) po" "x \<in> set stack \<Longrightarrow> (p, x) \<in> arcs t \<Longrightarrow> p \<in> set po" "x \<in> set po \<Longrightarrow> (x, y) \<in> arcs t \<Longrightarrow> y \<in> set po \<union> set stack"
    "rt \<in> set po \<union> set stack" "po \<noteq> [] \<Longrightarrow> last po = rt" "po = [] \<Longrightarrow> stack = [rt]"
  using assms unfolding walk_inv_def by blast+

lemma walk_step:
  assumes t: "dg_ok t" "arborescence (verts t) rt (arcs t)" and I: "walk_inv t rt (v # stack) po"
  shows "out_neighbors v t = Some (neighbors_of v (out_map t))" "walk_inv t rt (rev (neighbors_of v (out_map t)) @ stack) (v # po)"
proof -
  note i = walk_invD [OF I] and a = arborescenceD [OF t(2)]
  let ?ns = "neighbors_of v (out_map t)"
  have v: "v \<in> verts t" "v \<notin> set po" "v \<notin> set stack" "distinct stack" using i(1,3,4) by auto
  show "out_neighbors v t = Some ?ns" by (rule neighbors_at(1) [OF t(1) v(1)])
  have ns: "u \<in> set ?ns \<longleftrightarrow> (v, u) \<in> arcs t" for u using arcs_iff(1) [OF t(1), of v u] by simp
  have new: "u \<notin> set po" "u \<notin> set stack" "u \<noteq> v" "u \<in> verts t" "(p, u) \<in> arcs t \<Longrightarrow> p = v" if u: "(v, u) \<in> arcs t" for u p
  proof -
    show "u \<notin> set po" using preds_later_mem [OF i(6) _ u] v(2) by blast
    show "u \<notin> set stack" using i(7) [of u v] u v(2) by auto
    show "u \<noteq> v" using i(7) [of v v] u v(2) by auto
    show uv: "u \<in> verts t" using a(2) u by auto
    have "u \<noteq> rt" using a(3) u by auto
    then show "(p, u) \<in> arcs t \<Longrightarrow> p = v" using a(4) [OF uv] u by auto
  qed
  show "walk_inv t rt (rev ?ns @ stack) (v # po)"
    unfolding walk_inv_def
  proof (intro conjI ballI allI impI)
    show "distinct (rev ?ns @ stack)" using dg_okD(6) [OF t(1), of v] v(4) new(2) ns by auto
    show "distinct (v # po)" using i(2) v(2) by simp
    show "set (rev ?ns @ stack) \<inter> set (v # po) = {}" using new(1,3) ns v(3) i(3) by fastforce
    show "set (rev ?ns @ stack) \<subseteq> verts t" using new(4) ns i(4) by auto
    show "set (v # po) \<subseteq> verts t" using v(1) i(5) by simp
    show "preds_later (arcs t) (v # po)" using i(6) i(7) [of v] by auto
    show "rt \<in> set (v # po) \<union> set (rev ?ns @ stack)" using i(9) by auto
    show "last (v # po) = rt" using i(10,11) by (cases "po = []") auto
  next
    fix x p assume "x \<in> set (rev ?ns @ stack)" "(p, x) \<in> arcs t"
    then show "p \<in> set (v # po)" using new(5) [of x p] ns [of x] i(7) [of x p] by auto
  next
    fix x y assume "x \<in> set (v # po)" "(x, y) \<in> arcs t"
    then show "y \<in> set (v # po) \<union> set (rev ?ns @ stack)" using ns [of y] i(8) [of x y] by auto
  qed simp
qed

lemma post_order_spec:
  assumes t: "dg_ok t" "arborescence (verts t) rt (arcs t)"
  shows "walk_inv t rt stack po \<Longrightarrow> card (verts t) < fuel + length po \<Longrightarrow>
    \<exists>vs. post_order fuel t stack po = Some (vs @ [rt]) \<and> distinct (vs @ [rt]) \<and> set (vs @ [rt]) = verts t \<and> preds_later (arcs t) (vs @ [rt])"
proof (induction fuel arbitrary: stack po)
  case 0
  note i = walk_invD [OF 0(1)]
  have "length po \<le> card (verts t)" using distinct_card [OF i(2)] card_mono [OF finite_verts i(5)] by simp
  then show ?case using 0(2) by simp
next
  case (Suc fuel)
  note i = walk_invD [OF Suc.prems(1)]
  show ?case
  proof (cases stack)
    case Nil
    have ne: "po \<noteq> []" using i(9) Nil by auto
    have "y \<in> set po" if "(rt, y) \<in> (arcs t)\<^sup>*" for y
      using that by (induction rule: rtrancl_induct) (use i(8,9) Nil in auto)
    then have "set po = verts t" using i(5) arborescenceD(5) [OF t(2)] by blast
    moreover have "po = butlast po @ [rt]" using append_butlast_last_id [OF ne] i(10) [OF ne] by simp
    ultimately show ?thesis using i(2,6) Nil by (intro exI [of _ "butlast po"]) simp
  next
    case (Cons v st)
    note w = walk_step [OF t Suc.prems(1) [unfolded Cons]]
    from Suc.IH [OF w(2)] Suc.prems(2) show ?thesis using w(1) Cons by simp
  qed
qed

lemma post_order_tree:
  assumes t: "dg_ok t" "arborescence (verts t) rt (arcs t)"
  shows "\<exists>vs. post_order (num_vertices t + 1) t [rt] [] = Some (vs @ [rt]) \<and> distinct (vs @ [rt]) \<and> set (vs @ [rt]) = verts t \<and> preds_later (arcs t) (vs @ [rt])"
  by (rule post_order_spec [OF t]) (use arborescenceD(1,3) [OF t(2)] in \<open>simp_all add: walk_inv_def num_vertices_card [OF t(1)]\<close>)

section \<open>Gathering a rotation on the root\<close>

definition carries_all :: "nat \<Rightarrow> phase_op list \<Rightarrow> pauli_rotation list \<Rightarrow> network \<Rightarrow> bool" where
  "carries_all n ops Rs s \<longleftrightarrow> list_all2 (carries n ops) Rs (net_rotations s)"

lemma mst_cx_keeps:
  assumes s: "net_gates n ops s" "carries_all n ops Rs s" and ct: "c < n" "t < n" "t \<noteq> c"
  shows "net_gates n (ops @ [make_cx c t]) (mst_cx c t s)" "carries_all n (ops @ [make_cx c t]) Rs (mst_cx c t s)"
proof -
  have ops: "list_all (phase_op_ok n) ops" using s(1) by (simp add: net_gates_def)
  have e: "mst_cx c t s = network_cx (map (rot_cx c t)) c t s" using ct by (simp add: mst_cx_def)
  show "net_gates n (ops @ [make_cx c t]) (mst_cx c t s)" unfolding e by (rule net_gates_cx [OF s(1) ct])
  show "carries_all n (ops @ [make_cx c t]) Rs (mst_cx c t s)"
    using s(2) carries_cx [OF _ ops ct] unfolding e carries_all_def network_cx_def
    by (auto simp: list_all2_conv_all_nth)
qed

lemma carries_ops_turn_cx: "ops_turn (ops @ [make_cx c t]) b = ops_turn ops b"
  by (simp add: ops_turn_append)

lemma gather_tree_spec:
  assumes "dg_ok t" "arborescence (verts t) rt (arcs t)" "verts t \<subseteq> {..<n}"
  shows "net_gates n ops s \<Longrightarrow> carries_all n ops Rs s \<Longrightarrow> carries n ops R S \<Longrightarrow>
    (\<And>q. q < n \<Longrightarrow> is_z (rot_product S) q \<longleftrightarrow> q \<in> set (vs @ [rt])) \<Longrightarrow> distinct (vs @ [rt]) \<Longrightarrow> set vs \<subseteq> verts t \<Longrightarrow>
    preds_later (arcs t) (vs @ [rt]) \<Longrightarrow>
    \<exists>s' ops'. gather_tree t rt (vs @ [rt]) s = Some s' \<and> net_gates n ops' s' \<and> carries_all n ops' Rs s' \<and>
      (\<forall>b. ops_turn ops' b = ops_turn ops b \<and> ops_bits ops' b rt = parity_at n R b)"
proof (induction vs arbitrary: ops s S)
  case Nil
  note a = arborescenceD [OF assms(2)]
  have rt: "rt < n" using a(1) assms(3) by auto
  have "neighbors_of rt (in_map t) = []" using arcs_iff(2) [OF assms(1), of _ rt] a(3) by (metis empty_set equals0I set_empty)
  then have in_rt: "in_neighbors rt t = Some []" using neighbors_at(2) [OF assms(1) a(1)] by simp
  have S: "rot_ok n S" "rot_is_diagonal S" "\<And>b. parity_at n S (ops_bits ops b) = parity_at n R b" using Nil.prems(3) by (simp_all add: carries_def)
  have "is_z_set (rot_product S) i = (i = rt)" if "i < n" for i
    using Nil.prems(4) [OF that] S(1,2) that rot_okD(1) [OF S(1)] by (auto simp: is_z_def rot_is_diagonal_def diag_iff)
  from unit_parity [OF S(1,2) this rt] have "ops_bits ops b rt = parity_at n R b" for b using S(3) by simp
  then show ?case using Nil.prems(1,2) in_rt by (intro exI [of _ s] exI [of _ ops]) simp
next
  case (Cons v vs)
  note a = arborescenceD [OF assms(2)]
  have v: "v \<in> verts t" "v \<noteq> rt" "v < n" using Cons.prems(5,6) assms(3) by auto
  obtain p where p: "(p, v) \<in> arcs t" "\<And>u. (u, v) \<in> arcs t \<Longrightarrow> u = p" using a(4) [OF v(1,2)] by blast
  have "(u, v) \<in> arcs t \<longleftrightarrow> u = p" for u using p(1) p(2) [of u] by iprover
  then have "set (neighbors_of v (in_map t)) = {p}" unfolding arcs_iff(2) [OF assms(1)] by blast
  then have "neighbors_of v (in_map t) = [p]" by (rule distinct_one [OF dg_okD(7) [OF assms(1)]])
  then have in_v: "in_neighbors v t = Some [p]" using neighbors_at(2) [OF assms(1) v(1)] by simp
  have pl: "p \<in> set (vs @ [rt])" "p < n" "p \<noteq> v" using Cons.prems(5,7) p(1) a(2) assms(3) by auto
  let ?ops = "ops @ [make_cx v p]"
  have ops: "list_all (phase_op_ok n) ops" using Cons.prems(1) by (simp add: net_gates_def)
  have S: "rot_ok n S" "rot_is_diagonal S" using Cons.prems(3) by (simp_all add: carries_def)
  have z: "is_z (rot_product (rot_cx v p S)) q \<longleftrightarrow> q \<in> set (vs @ [rt])" if q: "q < n" for q
    using rot_cx_diagonal(4) [OF S v(3) pl(2,3) q] Cons.prems(4) [OF q] Cons.prems(4) [OF v(3)] Cons.prems(4) [OF pl(2)] pl(1,3) Cons.prems(5)
    by auto
  note k = mst_cx_keeps [OF Cons.prems(1,2) v(3) pl(2,3)]
  have "carries n ?ops R (rot_cx v p S)" by (rule carries_cx [OF Cons.prems(3) ops v(3) pl(2,3)])
  from Cons.IH [OF k this z] Cons.prems(5-7) in_v show ?case by (simp add: carries_ops_turn_cx)
qed

section \<open>A round\<close>

lemma swap_remove_mset: "i < length xs \<Longrightarrow> mset xs = add_mset (xs ! i) (mset (swap_remove i xs))"
proof -
  assume i: "i < length xs"
  obtain ys y where xs: "xs = ys @ [y]" using i by (cases xs rule: rev_cases) auto
  show ?thesis
  proof (cases "i = length ys")
    case False
    then have "i < length ys" using i xs by simp
    then show ?thesis by (simp add: swap_remove_def xs list_update_append nth_append mset_update)
  qed (simp add: swap_remove_def xs list_update_append)
qed

lemma swap_remove_length: "length (swap_remove i xs) = length xs - 1"
  by (simp add: swap_remove_def)

lemma swap_remove_all2: "list_all2 P xs ys \<Longrightarrow> i < length xs \<Longrightarrow> list_all2 P (swap_remove i xs) (swap_remove i ys)"
  by (cases "xs = []"; cases "ys = []") (auto simp: swap_remove_def list_all2_conv_all_nth nth_butlast nth_list_update last_conv_nth)

lemma rots_turn_remove: "i < length Rs \<Longrightarrow> rots_turn n Rs b = turn_of n (Rs ! i) b + rots_turn n (swap_remove i Rs) b"
proof -
  assume i: "i < length Rs"
  have e: "rots_turn n xs b = (\<Sum>R \<in># mset xs. turn_of n R b)" for xs by (simp add: rots_turn_def turn_of_def flip: sum_mset_sum_list mset_map)
  show ?thesis unfolding e swap_remove_mset [OF i] by simp
qed

definition mst_inv :: "nat \<Rightarrow> pauli_rotation list \<Rightarrow> pauli_rotation list \<Rightarrow> phase_op list \<Rightarrow> network \<Rightarrow> bool" where
  "mst_inv n rs Rs ops s \<longleftrightarrow> net_gates n ops s \<and> carries_all n ops Rs s \<and> rots_ok n Rs \<and> diag_rotations Rs \<and> reducible Rs \<and>
     (\<forall>b. ops_turn ops b + rots_turn n Rs b = rots_turn n rs b)"

lemma list_all_swap_remove: "list_all P xs \<Longrightarrow> i < length xs \<Longrightarrow> list_all P (swap_remove i xs)"
  using swap_remove_mset [of i xs] by (metis list_all_iff set_mset_mset union_iff add_mset_add_single)

lemma mst_round_spec:
  assumes I: "mst_inv n rs Rs ops s" and ne: "Rs \<noteq> []" and b: "int n * int (length Rs) < max_cost"
  shows "\<exists>Rs' ops' s'. mst_round (Some n) s = Some s' \<and> mst_inv n rs Rs' ops' s' \<and> length Rs' = length Rs - 1"
proof -
  have i: "net_gates n ops s" "list_all2 (carries n ops) Rs (net_rotations s)" "rots_ok n Rs" "diag_rotations Rs" "reducible Rs"
    "\<And>b. ops_turn ops b + rots_turn n Rs b = rots_turn n rs b" using I by (simp_all add: mst_inv_def carries_all_def)
  let ?S = "net_rotations s" let ?i = "get_best_rotation_idx ?S"
  have len: "length ?S = length Rs" using i(2) by (simp add: list_all2_lengthD)
  have idx: "?i < length Rs" using extremes_in_range(1) [of "map hamming_weight ?S"] ne len by (cases "?S = []") (simp_all add: get_best_rotation_idx_def)
  let ?best = "?S ! ?i" and ?R = "Rs ! ?i" and ?rest = "swap_remove ?i ?S" and ?Rs = "swap_remove ?i Rs"
  have best: "carries n ops ?R ?best" using i(2) idx by (simp add: list_all2_conv_all_nth)
  have R: "rot_ok n ?R" "rot_is_diagonal ?R" "\<not> is_identity (rot_product ?R)"
    using i(3-5) idx by (simp_all add: rots_ok_def diag_rotations_def reducible_def list_all_length)
  have B: "rot_ok n ?best" "rot_is_diagonal ?best" "rot_phase ?best = rot_phase ?R" using best by (simp_all add: carries_def)
  have rest: "list_all2 (carries n ops) ?Rs ?rest" by (rule swap_remove_all2 [OF i(2) idx])
  have front: "(if ?rest = [] then Some n else Some (rot_n_qubits (hd ?rest))) = Some n"
  proof (cases ?rest)
    case (Cons S rest')
    then obtain R' where "carries n ops R' S" using rest by (auto simp: list_all2_Cons2)
    then have "rot_ok n S" by (simp add: carries_def)
    then show ?thesis using Cons by (simp add: rot_ok_def pp_ok_def rot_n_qubits_def)
  qed simp
  obtain g where g: "get_parity_graph (Some n) ?rest ?best = Some g" "complete_graph g" "vertices g \<noteq> [] = (\<exists>q < n. is_z_set (rot_product ?best) q)"
    "verts g = {q. q < n \<and> is_z_set (rot_product ?best) q}" "\<forall>e \<in> arcs g. cost g e \<le> int (length ?rest)"
    using get_parity_graph_spec [OF front] by blast
  have "\<exists>q < n. is_z_set (rot_product ?best) q" using carried_identity [OF best R(1,2)] R(3) by blast
  then have vs: "vertices g \<noteq> []" using g(3) by simp
  have "card (verts g) \<le> n" using card_mono [of "{..<n}" "verts g"] g(4) by (simp add: subset_iff)
  then have "(card (verts g) - 1) * length ?rest \<le> n * length Rs" by (intro mult_le_mono) (simp_all add: swap_remove_length len)
  then have "int (card (verts g) - 1) * int (length ?rest) \<le> int n * int (length Rs)" by (metis of_nat_le_iff of_nat_mult)
  then have bound: "int (card (verts g) - 1) * int (length ?rest) < max_cost" using b by linarith
  obtain t rt where t: "minimum_spanning_arborescence 0 g = Some (t, rt)" "spans g t rt"
    using minimum_spanning_arborescence_spans [OF g(2) vs _ bound] g(5) by blast
  have t': "dg_ok t" "verts t = verts g" "arborescence (verts t) rt (arcs t)" using t(2) by (simp_all add: spans_def)
  obtain po where po: "post_order (num_vertices t + 1) t [rt] [] = Some (po @ [rt])" "distinct (po @ [rt])" "set (po @ [rt]) = verts t"
    "preds_later (arcs t) (po @ [rt])" using post_order_tree [OF t'(1,3)] by blast
  let ?s = "s\<lparr>net_rotations := ?rest\<rparr>"
  have s: "net_gates n ops ?s" "carries_all n ops ?Rs ?s" using i(1) rest by (simp_all add: net_gates_def carries_all_def)
  have z: "is_z (rot_product ?best) q \<longleftrightarrow> q \<in> set (po @ [rt])" if "q < n" for q
    unfolding po(3) t'(2) g(4) using that B(1,2) rot_okD(1) [OF B(1)] by (auto simp: is_z_def rot_is_diagonal_def diag_iff)
  have sub: "verts t \<subseteq> {..<n}" "set po \<subseteq> verts t" using g(4) t'(2) po(3) by auto
  obtain s' ops' where s': "gather_tree t rt (po @ [rt]) ?s = Some s'" "net_gates n ops' s'" "carries_all n ops' ?Rs s'"
    "\<And>b. ops_turn ops' b = ops_turn ops b" "\<And>b. ops_bits ops' b rt = parity_at n ?R b"
    using gather_tree_spec [OF t'(1,3) sub(1) s best z po(2) sub(2) po(4)] by blast
  have rt: "rt < n" using arborescenceD(1) [OF t'(3)] sub(1) by auto
  let ?ops = "ops' @ [make_rz rt (rot_phase ?best)]"
  have "mst_inv n rs ?Rs ?ops (network_rz (rot_phase ?best) rt s')"
    unfolding mst_inv_def
  proof (intro conjI allI)
    show "net_gates n ?ops (network_rz (rot_phase ?best) rt s')" by (rule net_gates_rz [OF s'(2) rt rot_okD(3) [OF B(1)]])
    show "carries_all n ?ops ?Rs (network_rz (rot_phase ?best) rt s')"
      using s'(3) carries_rz by (auto simp: carries_all_def network_rz_def elim: list_all2_mono)
    show "rots_ok n ?Rs" "diag_rotations ?Rs" "reducible ?Rs"
      using i(3-5) idx by (simp_all add: rots_ok_def diag_rotations_def reducible_def list_all_swap_remove)
    show "ops_turn ?ops b + rots_turn n ?Rs b = rots_turn n rs b" for b
      using i(6) [of b] rots_turn_remove [OF idx, of n b] s'(4,5) by (simp add: ops_turn_append turn_of_def B(3))
  qed
  moreover have "mst_round (Some n) s = Some (network_rz (rot_phase ?best) rt s')"
    using g(1) t(1) po(1) s'(1) by (simp add: mst_round_def Let_def)
  ultimately show ?thesis by (intro exI [of _ ?Rs] exI [of _ ?ops] exI) (simp add: swap_remove_length)
qed

section \<open>The strategy\<close>

lemma mst_loop_spec:
  "mst_inv n rs Rs ops s \<Longrightarrow> int n * int (length Rs) < max_cost \<Longrightarrow>
    \<exists>ops' s'. mst_loop (length Rs) (Some n) s = Some s' \<and> mst_inv n rs [] ops' s'"
proof (induction "length Rs" arbitrary: Rs ops s)
  case 0
  then have "net_rotations s = []" by (simp add: mst_inv_def carries_all_def)
  then show ?case using 0 by auto
next
  case (Suc k)
  have ne: "Rs \<noteq> []" using Suc.hyps(2) by auto
  obtain Rs' ops' s' where r: "mst_round (Some n) s = Some s'" "mst_inv n rs Rs' ops' s'" "length Rs' = length Rs - 1"
    using mst_round_spec [OF Suc.prems(1) ne Suc.prems(2)] by blast
  have k: "k = length Rs'" using r(3) Suc.hyps(2) by simp
  have "int n * int (length Rs') \<le> int n * int (length Rs)" using r(3) by (intro mult_left_mono) simp_all
  then have "int n * int (length Rs') < max_cost" using Suc.prems(2) by linarith
  from Suc.hyps(1) [OF k r(2) this] obtain ops'' s'' where "mst_loop k (Some n) s' = Some s''" "mst_inv n rs [] ops'' s''" using k by auto
  moreover have "net_rotations s \<noteq> []" using ne Suc.prems(1) by (auto simp: mst_inv_def carries_all_def)
  ultimately show ?case using r(1) Suc.hyps(2) by (auto simp flip: Suc.hyps(2))
qed

theorem mst_synthesize_spec:
  assumes rs: "rots_ok n rs" "diag_rotations rs" "reducible rs" "rs \<noteq> []"
    and b: "int n * int (length rs) < max_cost" and stop: "\<And>i. \<not> stop i"
  shows "\<exists>c k'. mst_synthesize stop (Some n) k rs = (Result c, k') \<and> extends_by n (rots_op rs) (qcir_new n) c"
proof -
  note n = rotations_qubits [OF rs(1,4)]
  obtain R rs' where R: "rs = R # rs'" using rs(4) by (cases rs) auto
  have "pp_ok n (rot_product R)" "\<not> is_identity (rot_product R)" using rs R by (auto dest: rot_okD(1))
  then have n0: "0 < n" by (cases n) (auto simp: is_identity_def pp_ok_def)
  have I: "mst_inv n rs rs [] (network_init n rs)"
    unfolding mst_inv_def carries_all_def
    using rs net_gates_init [of n rs] by (auto simp: network_init_def list_all2_conv_all_nth rots_ok_def diag_rotations_def list_all_length intro: carries_refl)
  obtain ops' s' where s: "mst_loop (length rs) (Some n) (network_init n rs) = Some s'" "mst_inv n rs [] ops' s'"
    using mst_loop_spec [OF I b] by blast
  have "net_gates n ops' s'" "\<And>b. ops_turn ops' b = rots_turn n rs b" using s(2) by (auto simp: mst_inv_def rots_turn_def)
  then obtain c k' where "finish_network stop k s' = (Result c, k')" "extends_by n (rots_op rs) (qcir_new n) c"
    using finish_network_spec [OF _ _ rs(1,2), of ops' s' stop k, OF _ _ stop] by blast
  then show ?thesis using rs(2,4) n n0 s(1) by (simp add: mst_synthesize_def diag_rotations_def)
qed

text \<open>When the read of the empty vector is not defined, no run is: each ends with a round that has no rotation left.\<close>

lemma gather_tree_length: "gather_tree t rt vs s = Some s' \<Longrightarrow> length (net_rotations s') = length (net_rotations s)"
  by (induction t rt vs s rule: gather_tree.induct) (auto simp: mst_cx_def network_cx_def split: option.splits list.splits if_splits)

lemma mst_round_length: "mst_round stale s = Some s' \<Longrightarrow> length (net_rotations s') = length (net_rotations s) - 1"
  by (auto simp: mst_round_def Let_def network_rz_def swap_remove_length dest: gather_tree_length split: option.splits prod.splits)

lemma mst_round_stale: "length (net_rotations s) = 1 \<Longrightarrow> mst_round None s = None"
  by (simp add: mst_round_def Let_def get_parity_graph_def swap_remove_def butlast_conv_take)

lemma mst_loop_stale: "length (net_rotations s) = Suc k \<Longrightarrow> mst_loop (Suc k) None s = None"
proof (induction k arbitrary: s)
  case 0
  then show ?case using mst_round_stale [of s] by auto
next
  case (Suc k)
  have ne: "net_rotations s \<noteq> []" using Suc.prems by auto
  show ?case
  proof (cases "mst_round None s")
    case (Some s')
    then have "length (net_rotations s') = Suc k" using mst_round_length Suc.prems by fastforce
    from Suc.IH [OF this] show ?thesis using Some ne by (subst mst_loop.simps(2)) (simp del: mst_loop.simps)
  qed (use ne in simp)
qed

theorem mst_synthesize_undefined:
  assumes "rs \<noteq> []" "rot_n_qubits (hd rs) \<noteq> 0" "list_all rot_is_diagonal rs"
  shows "mst_synthesize stop None k rs = (Undefined, k)"
proof -
  obtain m where "length rs = Suc m" using assms(1) by (cases rs) auto
  then have "mst_loop (length rs) None (network_init (rot_n_qubits (hd rs)) rs) = None"
    using mst_loop_stale [of "network_init (rot_n_qubits (hd rs)) rs" m] by (simp add: network_init_def)
  then show ?thesis using assms by (simp add: mst_synthesize_def Let_def)
qed

end
