(* ===== verification/TableauToCircuit.thy ===== *)
theory TableauToCircuit
  imports MstCorrect PhaseStrategy
begin

text \<open>
  The end of src/src/convert/tableau_to_qcir.cpp: the phase-polynomial strategy, the joint synthesis of a Clifford operator
  with the rotations behind it, and the conversion of a tableau to a circuit. Every call carries the number of the next
  poll of \<open>stop_requested\<close>. A call that does not return is \<open>Undefined\<close>.
\<close>

section \<open>The phase-polynomial strategy\<close>

definition is_control_gate :: "operation \<Rightarrow> bool" where
  "is_control_gate op = (case op of ControlGate op' k \<Rightarrow> True | _ \<Rightarrow> False)"

definition count_cx_gates :: "qcir \<Rightarrow> nat" where
  "count_cx_gates c = length (filter (\<lambda>g. is_control_gate (fst g)) (qc_gates c))"

definition build_circuit :: "nat \<Rightarrow> phase_op list \<Rightarrow> qcir" where
  "build_circuit n gates = append_all (map phase_gate (snd (build_qcir n gates))) (qcir_new n)"

record phasepoly_strategy =
  strategy_config :: phase_poly_config
  replace_only_if_better :: bool

definition phasepoly_rotations ::
  "(nat \<Rightarrow> bool) \<Rightarrow> phasepoly_strategy \<Rightarrow> nat option \<Rightarrow> nat \<Rightarrow> pauli_rotation list \<Rightarrow> qcir outcome \<times> nat" where
  "phasepoly_rotations stop strategy stale k rotations =
     (if rotations = [] then (Result (qcir_new 0), k)
      else if \<not> list_all rot_is_diagonal rotations then (NullOpt, k)
      else (let n = rot_n_qubits (hd rotations); problem = rotations_to_problem rotations (pm_identity n) in
            if problem_is_trivial problem then (Result (qcir_new n), k)
            else (case synthesize_phasepoly (strategy_config strategy) problem of
                    None \<Rightarrow> (Undefined, k)
                  | Some r \<Rightarrow>
                      (if \<not> verify_synthesis problem r then (NullOpt, k)
                       else (let built = build_circuit (res_qubits r) (res_gates r) in
                             if replace_only_if_better strategy
                             then (case mst_synthesize stop stale k rotations of
                                     (Undefined, k') \<Rightarrow> (Undefined, k')
                                   | (NullOpt, k') \<Rightarrow> (Result built, k')
                                   | (Result baseline, k') \<Rightarrow>
                                       (Result (if count_cx_gates baseline \<le> num_cx r then baseline else built), k'))
                             else (Result built, k))))))"

definition synthesize_cooptimized_block ::
  "(nat \<Rightarrow> bool) \<Rightarrow> st_strategy \<Rightarrow> phasepoly_strategy \<Rightarrow> nat option \<Rightarrow> nat \<Rightarrow> stabilizer_tableau \<Rightarrow> pauli_rotation list \<Rightarrow> qcir outcome \<times> nat" where
  "synthesize_cooptimized_block stop st strategy stale k clifford_prefix rotations =
     (if rotations \<noteq> [] \<and> \<not> list_all rot_is_diagonal rotations then (NullOpt, k)
      else (let (ops, k1) = st_synthesize stop st k clifford_prefix in
            case tableau_block_to_problem (\<lambda>_. ops) clifford_prefix rotations of
              None \<Rightarrow> (NullOpt, k1)
            | Some problem \<Rightarrow>
                (if problem_is_trivial problem then clifford_to_qcir stop st k1 clifford_prefix
                 else (case synthesize_phasepoly (strategy_config strategy) problem of
                         None \<Rightarrow> (Undefined, k1)
                       | Some r \<Rightarrow>
                           (if \<not> verify_synthesis problem r then (NullOpt, k1)
                            else (let built = build_circuit (res_qubits r) (res_gates r) in
                                  if replace_only_if_better strategy
                                  then (let (prefix_circ, k2) = clifford_to_qcir stop st k1 clifford_prefix;
                                            (rot_circ, k3) = mst_synthesize stop stale k2 rotations
                                        in case (prefix_circ, rot_circ) of
                                             (Undefined, _) \<Rightarrow> (Undefined, k3)
                                           | (_, Undefined) \<Rightarrow> (Undefined, k3)
                                           | (Result p, Result q) \<Rightarrow>
                                               (Result (if count_cx_gates p + count_cx_gates q \<le> num_cx r
                                                        then qc_compose (qc_compose (qcir_new (st_n_qubits clifford_prefix)) p) q
                                                        else built), k3)
                                           | _ \<Rightarrow> (Result built, k3))
                                  else (Result built, k1)))))))"

section \<open>The strategies\<close>

text \<open>The order of the qubits of the Gray synthesis is drawn anew for every block of rotations.\<close>

datatype pr_strategy =
    PrNaive
  | PrTPar
  | PrGray gray_mode "nat \<Rightarrow> nat list"
  | PrMst "nat option"
  | PrPhasePoly phasepoly_strategy "nat option"

definition pr_synthesize :: "(nat \<Rightarrow> bool) \<Rightarrow> pr_strategy \<Rightarrow> nat \<Rightarrow> nat \<Rightarrow> pauli_rotation list \<Rightarrow> qcir outcome \<times> nat" where
  "pr_synthesize stop strategy i k rotations =
     (case strategy of
        PrNaive \<Rightarrow> (naive_rotation_synthesis rotations, k)
      | PrTPar \<Rightarrow> (tpar_rotation_synthesis rotations, k)
      | PrGray mode orders \<Rightarrow> gray_synthesize stop mode (orders i) k rotations
      | PrMst stale \<Rightarrow> mst_synthesize stop stale k rotations
      | PrPhasePoly pp stale \<Rightarrow> phasepoly_rotations stop pp stale k rotations)"

section \<open>Tableaux\<close>

definition cooptimize :: "(nat \<Rightarrow> bool) \<Rightarrow> st_strategy \<Rightarrow> pr_strategy \<Rightarrow> nat \<Rightarrow> sub_tableau \<Rightarrow> sub_tableau list \<Rightarrow> qcir outcome \<times> nat" where
  "cooptimize stop st strategy k s ss =
     (case (strategy, s, ss) of
        (PrPhasePoly pp stale, SubST T, SubPR rs # _) \<Rightarrow> synthesize_cooptimized_block stop st pp stale k T rs
      | _ \<Rightarrow> (NullOpt, k))"

definition sub_to_qcir :: "(nat \<Rightarrow> bool) \<Rightarrow> st_strategy \<Rightarrow> pr_strategy \<Rightarrow> nat \<Rightarrow> nat \<Rightarrow> sub_tableau \<Rightarrow> qcir outcome \<times> nat" where
  "sub_to_qcir stop st strategy i k s =
     (case s of SubST T \<Rightarrow> clifford_to_qcir stop st k T | SubPR rs \<Rightarrow> pr_synthesize stop strategy i k rs)"

function subs_to_qcir :: "(nat \<Rightarrow> bool) \<Rightarrow> st_strategy \<Rightarrow> pr_strategy \<Rightarrow> nat \<Rightarrow> nat \<Rightarrow> sub_tableau list \<Rightarrow> qcir \<Rightarrow> qcir outcome \<times> nat" where
  "subs_to_qcir stop st strategy i k [] c = (Result c, k)"
| "subs_to_qcir stop st strategy i k (s # ss) c =
     (if stop k then (NullOpt, Suc k)
      else (case cooptimize stop st strategy (Suc k) s ss of
              (Undefined, k1) \<Rightarrow> (Undefined, k1)
            | (Result joint, k1) \<Rightarrow> subs_to_qcir stop st strategy (i + 2) k1 (tl ss) (qc_compose c joint)
            | (NullOpt, k1) \<Rightarrow>
                (case sub_to_qcir stop st strategy i k1 s of
                   (Result fragment, k2) \<Rightarrow> subs_to_qcir stop st strategy (i + 1) k2 ss (qc_compose c fragment)
                 | (r, k2) \<Rightarrow> (r, k2))))"
  by pat_completeness auto
termination by (relation "measure (\<lambda>(stop, st, strategy, i, k, ss, c). length ss)") auto

definition tableau_to_qcir :: "(nat \<Rightarrow> bool) \<Rightarrow> st_strategy \<Rightarrow> pr_strategy \<Rightarrow> tableau \<Rightarrow> qcir outcome" where
  "tableau_to_qcir stop st strategy t =
     fst (subs_to_qcir stop st strategy 0 0 (subtableaux t) (qcir_new (tab_n_qubits t)))"

section \<open>Circuits of blocks\<close>

definition realizes :: "nat \<Rightarrow> (qvec \<Rightarrow> qvec) \<Rightarrow> qcir \<Rightarrow> bool" where
  "realizes n F c \<longleftrightarrow> qc_qubits c \<le> n \<and> gates_ok n (qc_gates c) \<and> op_eq n (gates_sem (qc_gates c)) F"

lemma emits_extends: "extends_by n F (qcir_new m) c \<Longrightarrow> m \<le> n \<Longrightarrow> realizes n F c"
  by (auto simp: extends_by_def realizes_def qcir_new_def)

lemma emits_new: "m \<le> n \<Longrightarrow> op_eq n (\<lambda>v. v) F \<Longrightarrow> realizes n F (qcir_new m)"
proof -
  have "gates_sem [] = (\<lambda>v. v)" by (rule ext) simp
  then show "m \<le> n \<Longrightarrow> op_eq n (\<lambda>v. v) F \<Longrightarrow> ?thesis" by (simp add: realizes_def qcir_new_def gates_ok_def)
qed

lemma compose_emits:
  assumes c: "qc_qubits c = n" and e: "realizes n F c'"
  shows "extends_by n F c (qc_compose c c')"
proof -
  have "qc_compose c c' = append_all (qc_gates c') c" by (rule qc_compose_gates) (use c e in \<open>simp add: realizes_def\<close>)
  then show ?thesis using e by (auto simp: realizes_def intro: extends_append)
qed

lemma extends_qubits: "extends_by n F c c' \<Longrightarrow> qc_qubits c' = qc_qubits c"
  by (auto simp: extends_by_def)

section \<open>Strategies that synthesize their blocks\<close>

text \<open>The contract of a strategy: for the rotations that it accepts it emits a circuit of them. The conversion of a
  tableau, without joint blocks, then emits a circuit of the tableau.\<close>

locale rotation_synthesis =
  fixes strategy :: pr_strategy and accepts :: "nat \<Rightarrow> nat \<Rightarrow> pauli_rotation list \<Rightarrow> bool"
  assumes synthesizes: "rots_ok n rs \<Longrightarrow> accepts i n rs \<Longrightarrow> \<exists>c k'. pr_synthesize (\<lambda>_. False) strategy i k rs = (Result c, k') \<and> realizes n (rots_op rs) c"
    and alone: "cooptimize (\<lambda>_. False) st strategy k s ss = (NullOpt, k)"

definition subs_accepted :: "(nat \<Rightarrow> nat \<Rightarrow> pauli_rotation list \<Rightarrow> bool) \<Rightarrow> nat \<Rightarrow> nat \<Rightarrow> sub_tableau list \<Rightarrow> bool" where
  "subs_accepted accepts i n ss \<longleftrightarrow> (\<forall>j < length ss. \<forall>rs. ss ! j = SubPR rs \<longrightarrow> accepts (i + j) n rs)"

lemma subs_accepted_Cons: "subs_accepted accepts i n (s # ss) \<longleftrightarrow> (\<forall>rs. s = SubPR rs \<longrightarrow> accepts i n rs) \<and> subs_accepted accepts (Suc i) n ss"
  by (auto simp: subs_accepted_def All_less_Suc2)

context rotation_synthesis
begin

lemma sub_synthesizes:
  assumes "sub_ok n s" "\<And>rs. s = SubPR rs \<Longrightarrow> accepts i n rs"
  shows "\<exists>c k'. sub_to_qcir (\<lambda>_. False) st strategy i k s = (Result c, k') \<and> realizes n (sub_op s) c"
proof (cases s)
  case (SubST T)
  have T: "st_ok n T" using assms(1) SubST by simp
  obtain c k' where "clifford_to_qcir (\<lambda>_. False) st k T = (Result c, k')" "extends_by n (st_op T) (qcir_new n) c"
    using clifford_to_qcir_spec [OF T, of "\<lambda>_. False" st k] by blast
  then show ?thesis using emits_extends SubST by (auto simp: sub_to_qcir_def)
next
  case (SubPR rs)
  then show ?thesis using synthesizes [of n rs i k] assms by (simp add: sub_to_qcir_def)
qed

lemma subs_synthesize:
  "subs_ok n ss \<Longrightarrow> subs_accepted accepts i n ss \<Longrightarrow> qc_qubits c = n \<Longrightarrow>
    \<exists>c' k'. subs_to_qcir (\<lambda>_. False) st strategy i k ss c = (Result c', k') \<and> extends_by n (subs_op ss) c c'"
proof (induction ss arbitrary: i k c)
  case Nil
  have "subs_op [] = (\<lambda>v. v)" by (rule ext) simp
  then show ?case by simp
next
  case (Cons s ss)
  have s: "sub_ok n s" "subs_ok n ss" "\<And>rs. s = SubPR rs \<Longrightarrow> accepts i n rs" "subs_accepted accepts (Suc i) n ss"
    using Cons.prems by (simp_all add: subs_accepted_Cons)
  obtain f k1 where f: "sub_to_qcir (\<lambda>_. False) st strategy i (Suc k) s = (Result f, k1)" "realizes n (sub_op s) f"
    using sub_synthesizes [OF s(1,3)] by blast
  have e: "extends_by n (sub_op s) c (qc_compose c f)" by (rule compose_emits [OF Cons.prems(3) f(2)])
  obtain c' k' where c': "subs_to_qcir (\<lambda>_. False) st strategy (Suc i) k1 ss (qc_compose c f) = (Result c', k')"
    "extends_by n (subs_op ss) (qc_compose c f) c'"
    using Cons.IH [OF s(2,4), of "qc_compose c f" k1] extends_qubits [OF e] Cons.prems(3) by auto
  have "extends_by n (\<lambda>v. subs_op ss (sub_op s v)) c c'" by (rule extends_trans [OF e c'(2)]) (use s(1) in auto)
  moreover have "subs_op (s # ss) = (\<lambda>v. subs_op ss (sub_op s v))" by (rule ext) simp
  ultimately show ?case using c'(1) f(1) by (simp add: alone)
qed

lemma tableau_synthesizes:
  assumes t: "tab_ok n t" "subs_accepted accepts 0 n (subtableaux t)"
  shows "\<exists>c. tableau_to_qcir (\<lambda>_. False) st strategy t = Result c \<and> extends_by n (subs_op (subtableaux t)) (qcir_new n) c"
proof -
  have "subs_ok n (subtableaux t)" "tab_n_qubits t = n" using t(1) by (simp_all add: tab_ok_def)
  then show ?thesis
    using subs_synthesize [OF _ t(2), of "qcir_new n" st 0] by (auto simp: tableau_to_qcir_def qcir_new_def)
qed

end

definition naive_accepts :: "nat \<Rightarrow> nat \<Rightarrow> pauli_rotation list \<Rightarrow> bool" where
  "naive_accepts i n rs \<longleftrightarrow> reducible rs"

definition diagonal_block :: "pauli_rotation list \<Rightarrow> bool" where
  "diagonal_block rs \<longleftrightarrow> rs \<noteq> [] \<and> diag_rotations rs \<and> reducible rs"

definition gray_accepts :: "(nat \<Rightarrow> nat list) \<Rightarrow> nat \<Rightarrow> nat \<Rightarrow> pauli_rotation list \<Rightarrow> bool" where
  "gray_accepts orders i n rs \<longleftrightarrow> diagonal_block rs \<and> distinct (orders i) \<and> length (orders i) = n"

definition mst_accepts :: "nat option \<Rightarrow> nat \<Rightarrow> nat \<Rightarrow> pauli_rotation list \<Rightarrow> bool" where
  "mst_accepts stale i n rs \<longleftrightarrow> diagonal_block rs \<and> stale = Some n \<and> int n * int (length rs) < max_cost"

interpretation naive: rotation_synthesis PrNaive naive_accepts
proof
  fix n i k rs assume rs: "rots_ok n rs" "naive_accepts i n rs"
  show "\<exists>c k'. pr_synthesize (\<lambda>_. False) PrNaive i k rs = (Result c, k') \<and> realizes n (rots_op rs) c"
  proof (cases "rs = []")
    case True
    have "rots_op [] = (\<lambda>v. v)" by (rule ext) simp
    then show ?thesis using True emits_new [of 0 n "\<lambda>v. v"] by (simp add: pr_synthesize_def naive_rotation_synthesis_def)
  next
    case False
    then show ?thesis
      using naive_rotation_synthesis_spec [OF rs(1) _ False] rs(2) emits_extends by (auto simp: pr_synthesize_def naive_accepts_def)
  qed
qed (simp add: cooptimize_def)

interpretation gray: rotation_synthesis "PrGray mode orders" "gray_accepts orders" for mode orders
proof
  fix n i k rs assume rs: "rots_ok n rs" "gray_accepts orders i n rs"
  then show "\<exists>c k'. pr_synthesize (\<lambda>_. False) (PrGray mode orders) i k rs = (Result c, k') \<and> realizes n (rots_op rs) c"
    using gray_synthesize_spec [OF rs(1), of "orders i" "\<lambda>_. False" mode k] emits_extends
    by (auto simp: pr_synthesize_def gray_accepts_def diagonal_block_def)
qed (simp add: cooptimize_def)

interpretation mst: rotation_synthesis "PrMst stale" "mst_accepts stale" for stale
proof
  fix n i k rs assume rs: "rots_ok n rs" "mst_accepts stale i n rs"
  then show "\<exists>c k'. pr_synthesize (\<lambda>_. False) (PrMst stale) i k rs = (Result c, k') \<and> realizes n (rots_op rs) c"
    using mst_synthesize_spec [OF rs(1), of "\<lambda>_. False" k] emits_extends
    by (auto simp: pr_synthesize_def mst_accepts_def diagonal_block_def)
qed (simp add: cooptimize_def)

end
