(* ===== verification/CircuitPipeline.thy ===== *)
theory CircuitPipeline
  imports TableauToCircuit ConversionCorrect FullOptimize
begin

text \<open>
  The route that the command line offers: a circuit is converted to a tableau (convert/qcir_to_tableau.cpp), optimised
  (tableau/tableau_optimization.cpp) and converted back (convert/tableau_to_qcir.cpp). The contracts of the three parts meet:
  the conversion gives a well-formed tableau, the optimisation leaves blocks that the strategies accept.
\<close>

section \<open>Which blocks a strategy accepts\<close>

definition strategy_accepts :: "pr_strategy \<Rightarrow> nat \<Rightarrow> nat \<Rightarrow> pauli_rotation list \<Rightarrow> bool" where
  "strategy_accepts strategy i n rs =
     (case strategy of
        PrNaive \<Rightarrow> naive_accepts i n rs
      | PrGray mode orders \<Rightarrow> gray_accepts orders i n rs
      | PrMst stale \<Rightarrow> mst_accepts stale i n rs
      | _ \<Rightarrow> False)"

definition synthesizes_alone :: "pr_strategy \<Rightarrow> bool" where
  "synthesizes_alone strategy \<longleftrightarrow> (case strategy of PrTPar \<Rightarrow> False | PrPhasePoly pp stale \<Rightarrow> False | _ \<Rightarrow> True)"

lemma strategy_synthesizes:
  assumes covered: "synthesizes_alone strategy" and t: "tab_ok n t" "subs_accepted (strategy_accepts strategy) 0 n (subtableaux t)"
  shows "\<exists>c. tableau_to_qcir (\<lambda>_. False) st strategy t = Result c \<and> extends_by n (subs_op (subtableaux t)) (qcir_new n) c"
proof -
  have a: "subs_accepted accepts 0 n (subtableaux t)" if "\<And>i rs. strategy_accepts strategy i n rs \<Longrightarrow> accepts i n rs" for accepts
    using t(2) that by (auto simp: subs_accepted_def)
  from covered consider "strategy = PrNaive" | mode orders where "strategy = PrGray mode orders" | stale where "strategy = PrMst stale"
    by (cases strategy) (auto simp: synthesizes_alone_def)
  then show ?thesis
  proof cases
    case 1
    then show ?thesis using naive.tableau_synthesizes [OF t(1) a] by (simp add: strategy_accepts_def)
  next
    case 2
    then show ?thesis using gray.tableau_synthesizes [OF t(1) a] by (simp add: strategy_accepts_def)
  next
    case 3
    then show ?thesis using mst.tableau_synthesizes [OF t(1) a] by (simp add: strategy_accepts_def)
  qed
qed

section \<open>Circuit to circuit\<close>

theorem optimised_circuit:
  assumes c: "qc_ok c" "\<forall>g \<in> set (qc_gates c). supported (fst g)"
    and covered: "synthesizes_alone strategy" and s: "\<And>i rs. diagonal_block rs \<Longrightarrow> strategy_accepts strategy i (qc_qubits c) rs"
  shows "\<exists>t t' c'. to_tableau (\<lambda>_. False) c = Some t \<and> full_optimize (\<lambda>_. False) t = Some t' \<and>
    tableau_to_qcir (\<lambda>_. False) st strategy t' = Result c' \<and> qc_ok c' \<and> qc_qubits c' = qc_qubits c \<and>
    op_eq (qc_qubits c) (gates_sem (qc_gates c')) (gates_sem (qc_gates c))"
proof -
  let ?n = "qc_qubits c"
  obtain t where t: "to_tableau (\<lambda>_. False) c = Some t" using to_tableau_total [OF c, of "\<lambda>_. False"] by auto
  note sound = to_tableau_sound [OF c t]
  obtain t' where t': "full_optimize (\<lambda>_. False) t = Some t'" "tab_n_qubits t' = ?n" "equivalent ?n (subtableaux t) (subtableaux t')"
    "\<And>rs. SubPR rs \<in> set (subtableaux t') \<Longrightarrow> diagonal_block rs"
    using full_optimize_equiv [OF sound(1), of "\<lambda>_. False"] by (auto simp: diagonal_block_def)
  have ok: "tab_ok ?n t'" using t'(2) equivD(2) [OF t'(3)] by (simp add: tab_ok_def)
  have "subs_accepted (strategy_accepts strategy) 0 ?n (subtableaux t')"
    unfolding subs_accepted_def
  proof (intro allI impI)
    fix j rs assume "j < length (subtableaux t')" "subtableaux t' ! j = SubPR rs"
    then have "SubPR rs \<in> set (subtableaux t')" by (metis nth_mem)
    then show "strategy_accepts strategy (0 + j) ?n rs" by (intro s t'(4))
  qed
  from strategy_synthesizes [OF covered ok this, of st] obtain c' where c':
    "tableau_to_qcir (\<lambda>_. False) st strategy t' = Result c'" "extends_by ?n (subs_op (subtableaux t')) (qcir_new ?n) c'" by blast
  have e: "qc_qubits c' = ?n" "gates_ok ?n (qc_gates c')" "op_eq ?n (gates_sem (qc_gates c')) (subs_op (subtableaux t'))"
    using c'(2) by (auto simp: extends_by_def qcir_new_def)
  have "op_eq ?n (subs_op (subtableaux t')) (gates_sem (qc_gates c))"
    using op_eq_trans [OF op_eq_sym [OF equivD(3) [OF t'(3)]] sound(3)] .
  then show ?thesis using t t'(1) c'(1) e op_eq_trans [OF e(3)] by (auto simp: qc_ok_def)
qed

end
