(* ===== verification/JointSynthesis.thy ===== *)
theory JointSynthesis
  imports TableauToCircuit
begin

text \<open>
  What the phase-polynomial strategy realizes: alone, the rotations of its block; together with the Clifford operator in front,
  the rotations first and the operator behind them, which is the wrong order.
\<close>

section \<open>Circuits of phase polynomials\<close>

lemma build_circuit_gates: "list_all (phase_op_ok n) gates \<Longrightarrow> qc_gates (build_circuit m gates) = map phase_gate gates"
  "qc_qubits (build_circuit m gates) = m"
  using build_qcir_ok [of n gates] by (simp_all add: build_circuit_def build_qcir_def append_all_gates qcir_new_def)

text \<open>A solution of a problem is its phases, and then the CX gates of its output matrix.\<close>

lemma solution_emits:
  assumes s: "solves_problem n P gates" and ops: "list_all (phase_op_ok n) ops" "\<And>b. turn (ops_turn ops b) = 1"
    and out: "\<And>b q. q < n \<Longrightarrow> problem_map P b q = ops_bits ops b q" and F: "\<And>v b. F v b = turn (problem_turn P b) * v b"
  shows "realizes n (\<lambda>v. phase_ops_op ops (F v)) (build_circuit n gates)"
proof -
  have ok: "list_all (phase_op_ok n) gates" using s by (simp add: solves_problem_def)
  have bits: "ops_bits gates b = ops_bits ops b" for b
  proof
    fix q
    show "ops_bits gates b q = ops_bits ops b q"
    proof (cases "q < n")
      case True
      then show ?thesis using s out by (simp add: solves_problem_def)
    next
      case False
      then show ?thesis using ops_bits_outside [OF ok] ops_bits_outside [OF ops(1)] by simp
    qed
  qed
  have "phase_ops_op ops (F v) = phase_ops_op gates v" for v
  proof (rule phase_ops_unique [OF ok])
    fix b
    show "phase_ops_op ops (F v) (ops_bits gates b) = turn (ops_turn gates b) * v b"
      unfolding bits using phase_ops_basis [OF ops(1), of "F v" b] ops(2) F s by (simp add: solves_problem_def)
  qed
  then have "gates_sem (map phase_gate gates) = (\<lambda>v. phase_ops_op ops (F v))"
    using phase_gates_op [OF ok] by (simp add: fun_eq_iff)
  then show ?thesis
    using build_circuit_gates(1) [OF ok] build_circuit_gates(2) phase_gates_ok [OF ok] by (simp add: realizes_def op_eq_refl)
qed

lemma trivial_problem:
  assumes "problem_is_trivial (rotations_to_problem rs out)" "rots_ok n rs" "diag_rotations rs" "pm_ok n n out" "invertible n (pm_get out)"
  shows "rots_op rs = (\<lambda>v. v)"
proof -
  have "problem_turn (rotations_to_problem rs out) b = 0" for b
    using assms(1) rotations_to_problem_spec(1) [OF assms(2-5)]
    by (auto simp: problem_is_trivial_def problem_turn_def cols_turn_def has_no_columns_def problem_ok_def phase_dims_def pm_ok_def intro!: sum.neutral)
  then show ?thesis using rotations_to_problem_spec(3) [OF assms(2-5)] by (intro ext) (simp add: turn_def)
qed

section \<open>The strategy alone\<close>

theorem phasepoly_rotations_sound:
  assumes rs: "rots_ok n rs" "reducible rs"
    and mst: "replace_only_if_better pp \<Longrightarrow> stale = Some n \<and> int n * int (length rs) < max_cost"
    and r: "phasepoly_rotations (\<lambda>_. False) pp stale k rs = (Result c, k')"
  shows "realizes n (rots_op rs) c"
proof (cases "rs = []")
  case True
  have "rots_op [] = (\<lambda>v. v)" by (rule ext) simp
  then show ?thesis using r True emits_new [of 0 n "\<lambda>v. v"] by (auto simp: phasepoly_rotations_def)
next
  case False
  let ?out = "pm_identity n" and ?P = "rotations_to_problem rs (pm_identity n)"
  have n: "rot_n_qubits (hd rs) = n" by (rule rotations_qubits [OF rs(1) False])
  have d: "diag_rotations rs" using r False by (auto simp: phasepoly_rotations_def diag_rotations_def split: if_splits)
  note p = rotations_to_problem_spec [OF rs(1) d pm_identity_spec(1) pm_identity_invertible]
  show ?thesis
  proof (cases "problem_is_trivial ?P")
    case True
    then have "c = qcir_new n" using r False d n by (simp add: phasepoly_rotations_def diag_rotations_def Let_def)
    then show ?thesis
      using trivial_problem [OF True rs(1) d pm_identity_spec(1) pm_identity_invertible] emits_new [of n n "\<lambda>v. v"] by simp
  next
    case triv: False
    obtain res where res: "synthesize_phasepoly (strategy_config pp) ?P = Some res" "solves_problem n ?P (res_gates res)"
      using synthesize_phasepoly_spec [OF p(1,2)] by blast
    have rq: "res_qubits res = n"
      using res(1) p(1) by (auto simp: synthesize_phasepoly_def to_result_def problem_ok_def split: option.splits if_splits prod.splits)
    have out: "problem_map ?P b q = ops_bits [] b q" if "q < n" for b q
    proof -
      have "problem_map ?P b q = dot n (\<lambda>i. i = q) b" unfolding p(4) by (rule dot_cong) (use that pm_identity_spec(2) in auto)
      then show ?thesis using dot_unit(1) [OF that] by simp
    qed
    have "realizes n (\<lambda>v. phase_ops_op [] (rots_op rs v)) (build_circuit n (res_gates res))"
      by (rule solution_emits [OF res(2) _ _ out]) (simp_all add: p(3) turn_def)
    then have built: "realizes n (rots_op rs) (build_circuit n (res_gates res))" by (simp add: phase_ops_op_def)
    consider "c = build_circuit n (res_gates res)" | k1 where "replace_only_if_better pp" "mst_synthesize (\<lambda>_. False) stale k rs = (Result c, k1)"
      using r False d n triv res(1) rq
      by (auto simp: phasepoly_rotations_def diag_rotations_def Let_def split: if_splits prod.splits outcome.splits)
    then show ?thesis
    proof cases
      case 2
      then obtain c1 k2 where "mst_synthesize (\<lambda>_. False) stale k rs = (Result c1, k2)" "extends_by n (rots_op rs) (qcir_new n) c1"
        using mst_synthesize_spec [OF rs(1) d rs(2) False, of "\<lambda>_. False" k] mst by blast
      then show ?thesis using 2(2) emits_extends by auto
    qed (use built in simp)
  qed
qed

theorem phasepoly_rotations_total:
  assumes rs: "rots_ok n rs" "reducible rs" "diag_rotations rs"
    and mst: "replace_only_if_better pp \<Longrightarrow> stale = Some n \<and> int n * int (length rs) < max_cost"
  shows "\<exists>c k'. phasepoly_rotations (\<lambda>_. False) pp stale k rs = (Result c, k') \<and> realizes n (rots_op rs) c"
proof -
  let ?P = "rotations_to_problem rs (pm_identity n)"
  note p = rotations_to_problem_spec [OF rs(1,3) pm_identity_spec(1) pm_identity_invertible]
  have "\<exists>c k'. phasepoly_rotations (\<lambda>_. False) pp stale k rs = (Result c, k')"
  proof (cases "rs = [] \<or> problem_is_trivial ?P")
    case True
    then show ?thesis using rs(3) rotations_qubits [OF rs(1)] by (auto simp: phasepoly_rotations_def diag_rotations_def)
  next
    case False
    obtain r where r: "synthesize_phasepoly (strategy_config pp) ?P = Some r" "solves_problem n ?P (res_gates r)"
      using synthesize_phasepoly_spec [OF p(1,2)] by blast
    obtain ts where "merged_problem n ts ?P"
      using rotations_problem_merged [OF rs(1,3) pm_identity_spec(1) pm_identity_invertible] by blast
    then have v: "verify_synthesis ?P r" by (rule verify_synthesis_complete [OF _ r(2)])
    have b: "\<exists>c k'. mst_synthesize (\<lambda>_. False) stale k rs = (Result c, k')" if "replace_only_if_better pp"
      using mst_synthesize_spec [OF rs(1,3,2), of "\<lambda>_. False" k] mst [OF that] False by auto
    then show ?thesis
      using False rs(3) rotations_qubits [OF rs(1)] r(1) v
      by (cases "replace_only_if_better pp") (auto simp: phasepoly_rotations_def diag_rotations_def Let_def)
  qed
  then show ?thesis using phasepoly_rotations_sound [OF rs(1,2) mst] by blast
qed

section \<open>Joint synthesis\<close>

theorem joint_block_order:
  assumes T: "st_ok n T" and rs: "rots_ok n rs" and pp: "\<not> replace_only_if_better pp"
    and r: "synthesize_cooptimized_block (\<lambda>_. False) st pp stale k T rs = (Result c, k')"
  shows "realizes n (\<lambda>v. st_op T (rots_op rs v)) c"
proof -
  obtain ops k1 where o: "st_synthesize (\<lambda>_. False) st k T = (ops, k1)" by (cases "st_synthesize (\<lambda>_. False) st k T")
  note ops = st_synthesize_spec [OF T, of "\<lambda>_. False" st k, unfolded o fst_conv, simplified]
  have d: "diag_rotations rs" using r by (auto simp: synthesize_cooptimized_block_def diag_rotations_def split: if_splits)
  have nq: "st_n_qubits T = n" using st_ok_wf [OF T] by simp
  obtain P where P: "tableau_block_to_problem (\<lambda>_. ops) T rs = Some P"
    using r d o by (cases "tableau_block_to_problem (\<lambda>_. ops) T rs")
      (auto simp: synthesize_cooptimized_block_def diag_rotations_def Let_def split: if_splits)
  then obtain out where out: "output_matrix_from_stabilizer (\<lambda>_. ops) T = Some out" "P = rotations_to_problem rs out"
    by (auto simp: tableau_block_to_problem_def split: if_splits)
  note m = output_matrix_from_stabilizer_spec [OF ops(1) nq out(1)]
  obtain cs where cs: "list_all (phase_op_ok n) cs" "\<And>v. trait_apply_string q_trait ops v = phase_ops_op cs v"
    "\<And>b. turn (ops_turn cs b) = 1" "\<And>b q. q < n \<Longrightarrow> dot n (\<lambda>r. pm_get out r q) b = ops_bits cs b q" using m(3) by blast
  note p = rotations_to_problem_spec [OF rs d m(1,2), folded out(2)]
  have eq: "op_eq n (\<lambda>v. phase_ops_op cs (rots_op rs v)) (\<lambda>v. st_op T (rots_op rs v))"
  proof -
    have "phase_ops_op cs = trait_apply_string q_trait ops" using cs(2) by (simp add: fun_eq_iff)
    then have "op_eq n (phase_ops_op cs) (st_op T)" "space_op n (phase_ops_op cs)" using ops by auto
    from op_eq_comp [OF this(1) op_eq_refl this(2) space_op_rots [OF rs]] show ?thesis .
  qed
  show ?thesis
  proof (cases "problem_is_trivial P")
    case True
    have "rots_op rs = (\<lambda>v. v)" by (rule trivial_problem [OF True [unfolded out(2)] rs d m(1,2)])
    moreover obtain c1 k2 where "clifford_to_qcir (\<lambda>_. False) st k1 T = (Result c1, k2)" "extends_by n (st_op T) (qcir_new n) c1"
      using clifford_to_qcir_spec [OF T, of "\<lambda>_. False" st k1] by blast
    ultimately show ?thesis using r d o P True emits_extends by (auto simp: synthesize_cooptimized_block_def diag_rotations_def Let_def)
  next
    case False
    obtain res where res: "synthesize_phasepoly (strategy_config pp) P = Some res" "solves_problem n P (res_gates res)"
      using synthesize_phasepoly_spec [OF p(1,2)] by blast
    have rq: "res_qubits res = n"
      using res(1) p(1) by (auto simp: synthesize_phasepoly_def to_result_def problem_ok_def split: option.splits if_splits prod.splits)
    have "realizes n (\<lambda>v. phase_ops_op cs (rots_op rs v)) (build_circuit n (res_gates res))"
      by (rule solution_emits [OF res(2) cs(1,3)]) (simp_all add: p(3,4) cs(4))
    moreover have "c = build_circuit n (res_gates res)"
      using r d o P False res(1) rq pp by (auto simp: synthesize_cooptimized_block_def diag_rotations_def Let_def split: if_splits)
    ultimately show ?thesis using eq op_eq_trans unfolding realizes_def by blast
  qed
qed

text \<open>It returns whenever the stabilizer tableau is synthesized with CX gates only.\<close>

lemma replay_cnots_total: "list_all (\<lambda>x. fst x = COT_cx) ops \<Longrightarrow> replay_cnots ops s \<noteq> None"
  by (induction ops s rule: replay_cnots.induct) auto

theorem joint_block_total:
  assumes T: "st_ok n T" and rs: "rots_ok n rs" "diag_rotations rs" and pp: "\<not> replace_only_if_better pp"
    and cx: "list_all (\<lambda>x. fst x = COT_cx) (fst (st_synthesize (\<lambda>_. False) st k T))"
  shows "\<exists>c k'. synthesize_cooptimized_block (\<lambda>_. False) st pp stale k T rs = (Result c, k') \<and>
    realizes n (\<lambda>v. st_op T (rots_op rs v)) c"
proof -
  obtain ops k1 where o: "st_synthesize (\<lambda>_. False) st k T = (ops, k1)" by (cases "st_synthesize (\<lambda>_. False) st k T")
  note ops = st_synthesize_spec [OF T, of "\<lambda>_. False" st k, unfolded o fst_conv, simplified]
  have nq: "st_n_qubits T = n" using st_ok_wf [OF T] by simp
  obtain out where out: "output_matrix_from_stabilizer (\<lambda>_. ops) T = Some out"
    using replay_cnots_total [of ops "sym_init (st_n_qubits T)"] cx o by (auto simp: output_matrix_from_stabilizer_def)
  note m = output_matrix_from_stabilizer_spec [OF ops(1) nq out]
  let ?P = "rotations_to_problem rs out"
  have P: "tableau_block_to_problem (\<lambda>_. ops) T rs = Some ?P"
    using out rs(2) by (simp add: tableau_block_to_problem_def diag_rotations_def)
  note p = rotations_to_problem_spec [OF rs m(1,2)]
  have "\<exists>c k'. synthesize_cooptimized_block (\<lambda>_. False) st pp stale k T rs = (Result c, k')"
  proof (cases "problem_is_trivial ?P")
    case True
    then show ?thesis
      using clifford_to_qcir_spec [OF T, of "\<lambda>_. False" st k1] rs(2) o P
      by (auto simp: synthesize_cooptimized_block_def diag_rotations_def)
  next
    case False
    obtain r where r: "synthesize_phasepoly (strategy_config pp) ?P = Some r" "solves_problem n ?P (res_gates r)"
      using synthesize_phasepoly_spec [OF p(1,2)] by blast
    obtain ts where "merged_problem n ts ?P" using rotations_problem_merged [OF rs m(1,2)] by blast
    then have "verify_synthesis ?P r" by (rule verify_synthesis_complete [OF _ r(2)])
    then show ?thesis using False r(1) rs(2) o P pp by (auto simp: synthesize_cooptimized_block_def diag_rotations_def Let_def)
  qed
  then show ?thesis using joint_block_order [OF T rs(1) pp] by blast
qed

section \<open>A block in the wrong order\<close>

text \<open>A CX gate before a rotation around \<open>Z\<otimes>Z\<close>. The search is switched off (\<open>max_expansions = 0\<close>), so that the greedy fallback answers.\<close>

definition joint_clifford :: stabilizer_tableau where
  "joint_clifford = trait_apply_string st_trait [(COT_cx, 0, 1)] (st_init 2)"

definition joint_rotations :: "pauli_rotation list" where
  "joint_rotations = [mk_rotation (pp_of_paulis [PZ, PZ] False) (mk_phase 1 4)]"

definition joint_tableau :: tableau where
  "joint_tableau = \<lparr>subtableaux = [SubST joint_clifford, SubPR joint_rotations], tab_n_qubits = 2, tab_filename = [], tab_procedures = []\<rparr>"

definition joint_strategy :: phasepoly_strategy where
  "joint_strategy = \<lparr>strategy_config = default_config\<lparr>max_expansions := 0\<rparr>, replace_only_if_better = True\<rparr>"

definition joint_problem :: phase_poly_problem where
  "joint_problem = \<lparr>prob_qubits = 2, phase_matrix = \<lparr>n_cols = 1, pm_rows = [[True], [True]]\<rparr>, phase_angles = [mk_phase 1 4],
     output_matrix = \<lparr>n_cols = 2, pm_rows = [[True, True], [False, True]]\<rparr>\<rparr>"

definition joint_gates :: "phase_op list" where
  "joint_gates = [make_cx 0 1, make_rz 1 (mk_phase 1 4)]"

lemma joint_evaluation:
  "st_synthesize (\<lambda>_. False) AGSynthesis 1 joint_clifford = ([(COT_cx, 0, 1)], 4)"
  "tableau_block_to_problem (\<lambda>_. [(COT_cx, 0, 1)]) joint_clifford joint_rotations = Some joint_problem"
  "list_all rot_is_diagonal joint_rotations" "\<not> problem_is_trivial joint_problem"
  "map_option (\<lambda>s. (s_gates s, g_cost s)) (greedy_synthesize PatelMarkovHayes joint_problem) = Some (joint_gates, 1)"
  "map_prod (\<lambda>r. case r of Result c \<Rightarrow> count_cx_gates c | _ \<Rightarrow> 0) id (clifford_to_qcir (\<lambda>_. False) AGSynthesis 4 joint_clifford) = (1, 8)"
  "map_prod (\<lambda>r. case r of Result c \<Rightarrow> count_cx_gates c | _ \<Rightarrow> 0) id (mst_synthesize (\<lambda>_. False) (Some 2) 8 joint_rotations) = (2, 12)"
  by code_simp+

definition joint_result :: synthesis_result where
  "joint_result = \<lparr>res_qubits = 2, res_gates = joint_gates, num_cx = 1, num_rz = 1, expansions = 0, max_queue = 1, num_solutions = 0,
     used_fallback = True\<rparr>"

lemma joint_search: "synthesize_phasepoly (strategy_config joint_strategy) joint_problem = Some joint_result"
proof -
  let ?cfg = "strategy_config joint_strategy"
  have modes: "max_expansions ?cfg = 0" "finish_mode ?cfg = PatelMarkovHayes" "h2_mode ?cfg = GaussJordan"
    by (simp_all add: joint_strategy_def default_config_def)
  have "linear_reversible_cnot_cost GaussJordan (s_output (root_state joint_problem)) \<noteq> None" by code_simp
  then obtain p where p: "priority_of ?cfg 0 (root_state joint_problem) = Some p" 
    by (cases "priority_of ?cfg 0 (root_state joint_problem)") (auto simp: priority_of_def modes)
  obtain os where os: "push_state ?cfg (root_state joint_problem) \<lparr>queue = [], best_g = Map.empty, counter = 0\<rparr> = Some os" "length (queue os) = 1"
    using p by (auto simp: push_state_def Let_def)
  have loop: "astar_loop ?cfg os [] 0 1 = Some ([], 0, 1)" by (subst astar_loop.simps) (simp add: modes)
  obtain g where g: "greedy_synthesize PatelMarkovHayes joint_problem = Some g" "s_gates g = joint_gates" "g_cost g = 1"
    using joint_evaluation(5) by auto
  have "to_result g joint_problem = \<lparr>res_qubits = 2, res_gates = joint_gates, num_cx = 1, num_rz = 1, expansions = 0, max_queue = 0,
      num_solutions = 0, used_fallback = False\<rparr>"
    using g by (simp add: to_result_def joint_problem_def num_phase_terms_def)
  then show ?thesis by (simp add: synthesize_phasepoly_def os loop modes g(1) joint_result_def del: One_nat_def)
qed

lemma joint_verified: "verify_synthesis joint_problem joint_result"
  by code_simp

lemma joint_block:
  "synthesize_cooptimized_block (\<lambda>_. False) AGSynthesis joint_strategy (Some 2) 1 joint_clifford joint_rotations = (Result (build_circuit 2 joint_gates), 12)"
proof -
  obtain p where p: "clifford_to_qcir (\<lambda>_. False) AGSynthesis 4 joint_clifford = (Result p, 8)" "count_cx_gates p = 1"
    using joint_evaluation(6) by (cases "clifford_to_qcir (\<lambda>_. False) AGSynthesis 4 joint_clifford") (auto split: outcome.splits)
  obtain q where q: "mst_synthesize (\<lambda>_. False) (Some 2) 8 joint_rotations = (Result q, 12)" "count_cx_gates q = 2"
    using joint_evaluation(7) by (cases "mst_synthesize (\<lambda>_. False) (Some 2) 8 joint_rotations") (auto split: outcome.splits)
  have b: "replace_only_if_better joint_strategy" "\<not> count_cx_gates p + count_cx_gates q \<le> num_cx joint_result"
    "res_qubits joint_result = 2" "res_gates joint_result = joint_gates"
    using p(2) q(2) by (simp_all add: joint_strategy_def joint_result_def)
  show ?thesis
    using joint_evaluation(2-4) joint_search joint_verified b
    by (simp add: synthesize_cooptimized_block_def joint_evaluation(1) p(1) q(1) Let_def del: One_nat_def)
qed

theorem joint_tableau_wrong:
  "\<exists>c. tableau_to_qcir (\<lambda>_. False) AGSynthesis (PrPhasePoly joint_strategy (Some 2)) joint_tableau = Result c \<and>
    \<not> op_eq 2 (gates_sem (qc_gates c)) (subs_op (subtableaux joint_tableau))"
proof -
  have ok: "list_all (phase_op_ok 2) joint_gates" by code_simp
  let ?c = "qc_compose (qcir_new 2) (build_circuit 2 joint_gates)"
  have g: "qc_gates ?c = map phase_gate joint_gates"
    using build_circuit_gates(1) [OF ok, of 2] build_circuit_gates(2) [of 2 joint_gates] by (simp add: qc_compose_gates qcir_new_def append_all_gates)
  have c: "tableau_to_qcir (\<lambda>_. False) AGSynthesis (PrPhasePoly joint_strategy (Some 2)) joint_tableau = Result ?c"
    by (simp add: tableau_to_qcir_def joint_tableau_def cooptimize_def joint_block [unfolded One_nat_def])
  let ?R = "rots_op joint_rotations" and ?C = "trait_apply_string q_trait [(COT_cx, 0, 1)]" and ?b = "\<lambda>i. i = (0 :: nat)"
  have cx: "string_ok 2 [(COT_cx, 0, 1)]" by simp
  have rs: "rots_ok 2 joint_rotations" "diag_rotations joint_rotations" unfolding joint_rotations_def rots_ok_def diag_rotations_def by code_simp+
  have "parity_at 2 (hd joint_rotations) b = (b 0 \<noteq> b 1)" for b
  proof -
    have "is_z (rot_product (hd joint_rotations)) 0" "is_z (rot_product (hd joint_rotations)) 1" by code_simp+
    then show ?thesis by (simp add: parity_at_def dot_def numeral_2_eq_2 bxor_def)
  qed
  moreover have "phase_val (rot_phase (hd joint_rotations)) = 1 / 4" by code_simp
  moreover have "rots_turn 2 joint_rotations b = rots_turn 2 [hd joint_rotations] b" for b by (simp add: joint_rotations_def)
  ultimately have "rots_turn 2 joint_rotations b = (if b 0 \<noteq> b 1 then 1 / 4 else 0)" for b by (simp only: rots_turn_def list.map sum_list.Cons sum_list.Nil add_0_right)
  then have R: "?R v b = turn (if b 0 \<noteq> b 1 then 1 / 4 else 0) * v b" for v b
    unfolding rots_op_rots_turn [OF rs] by simp
  have "\<not> op_eq 2 (gates_sem (qc_gates ?c)) (\<lambda>v. ?R (?C v))"
  proof (rule not_op_eqI [OF uniform_space [of 2], where b = zero_state and b' = ?b])
    have q: "turn (1 / 4) \<noteq> 1"
    proof
      assume "turn (1 / 4) = 1"
      then have "Im (turn (1 / 4)) = 0" by simp
      then show False using sin_45 by (simp add: turn_def of_rat_divide)
    qed
    have "phase_ops_op joint_gates (uniform 2) zero_state = 1" "phase_ops_op joint_gates (uniform 2) ?b = 1"
      by (simp_all add: joint_gates_def phase_ops_op_def phase_op_op_def make_cx_def make_rz_def is_cx_def op_qubit_def q_cx_def cx_state_def
          uniform_def zero_state_def)
    moreover have "?R (?C (uniform 2)) zero_state = 1" "?R (?C (uniform 2)) ?b = turn (1 / 4)"
      unfolding R by (simp_all add: q_cx_def cx_state_def uniform_def zero_state_def turn_def)
    ultimately show "gates_sem (qc_gates ?c) (uniform 2) zero_state * ?R (?C (uniform 2)) ?b \<noteq>
        gates_sem (qc_gates ?c) (uniform 2) ?b * ?R (?C (uniform 2)) zero_state"
      using q unfolding g phase_gates_op [OF ok] by simp
  qed
  moreover have "op_eq 2 (subs_op (subtableaux joint_tableau)) (\<lambda>v. ?R (?C v))"
  proof -
    have "op_eq 2 (\<lambda>v. ?R (st_op joint_clifford v)) (\<lambda>v. ?R (?C v))"
      unfolding joint_clifford_def
      by (rule op_eq_comp [OF op_eq_refl st_op_circuit [OF cx] space_op_rots [OF rs(1)] space_op_string [OF cx]])
    moreover have "subs_op (subtableaux joint_tableau) = (\<lambda>v. ?R (st_op joint_clifford v))" by (rule ext) (simp add: joint_tableau_def)
    ultimately show ?thesis by simp
  qed
  ultimately show ?thesis using c op_eq_trans by blast
qed

end
