(* ===== verification/Multiblock.thy ===== *)
theory Multiblock
  imports TableauToCircuit ToddPreprocess
begin

text \<open>
  Phase-polynomial optimisation of whole circuits (src/src/tableau/phasepoly/multiblock.cpp, qcir_optimizer.cpp): the circuit is
  split into segments, a block of CX and phase gates with the other gates that follow it; groups of segments are
  merged across H gates, where each H gate gives its qubit a new row, synthesized again, and the best group is taken. Also the
  blocks of a circuit (extract_phase_blocks of extractor.cpp). \<open>stop\<close> answers the polls inside TODD.
\<close>

section \<open>Blocks of a circuit\<close>

definition as_cx :: "operation \<Rightarrow> nat list \<Rightarrow> (nat \<times> nat) option" where
  "as_cx op qubits =
     (case op of
        ControlGate target k \<Rightarrow>
          (if k \<noteq> 1 then None
           else (case target of PXGate p \<Rightarrow> if phase_eq p (phase_of_int 1) then Some (qubits ! 0, qubits ! 1) else None | _ \<Rightarrow> None))
      | _ \<Rightarrow> None)"

definition as_rz :: "operation \<Rightarrow> phase option" where
  "as_rz op = (case op of PZGate p \<Rightarrow> Some p | RZGate p \<Rightarrow> Some p | _ \<Rightarrow> None)"

definition flush_blocks :: "nat \<Rightarrow> phase_block list \<times> phase_block \<Rightarrow> phase_block list \<times> phase_block" where
  "flush_blocks n s = (case s of (blocks, current) \<Rightarrow> if blk_ops current \<noteq> [] then (blocks @ [current], block_new n) else s)"

definition extract_step :: "nat \<Rightarrow> gate \<Rightarrow> phase_block list \<times> phase_block \<Rightarrow> phase_block list \<times> phase_block" where
  "extract_step n g s =
     (case g of (op, qubits) \<Rightarrow>
        (case as_cx op qubits of
           Some (c, t) \<Rightarrow> (fst s, append_cx c t (snd s))
         | None \<Rightarrow> (case as_rz op of
                      Some angle \<Rightarrow> (fst s, append_rz (qubits ! 0) angle (snd s))
                    | None \<Rightarrow> flush_blocks n s)))"

definition extract_phase_blocks :: "qcir \<Rightarrow> phase_block list" where
  "extract_phase_blocks c =
     (let n = qc_qubits c in fst (flush_blocks n (fold (extract_step n) (qc_gates c) ([], block_new n))))"

section \<open>Segments\<close>

record phase_segment =
  seg_block :: phase_block
  trailing :: "gate list"

text \<open>The block with the gate appended, or \<open>None\<close> when the gate belongs in no block.\<close>

definition is_phase_op :: "operation \<Rightarrow> nat list \<Rightarrow> phase_block \<Rightarrow> phase_block option" where
  "is_phase_op op qubits block =
     (case op of
        ControlGate target k \<Rightarrow>
          (if k \<noteq> 1 then None
           else (case target of
                   PXGate p \<Rightarrow>
                     (if \<not> phase_eq p (phase_of_int 1) then None
                      else if qubits ! 0 = qubits ! 1 then None
                      else Some (append_cx (qubits ! 0) (qubits ! 1) block))
                 | _ \<Rightarrow> None))
      | PZGate p \<Rightarrow> Some (append_rz (qubits ! 0) p block)
      | RZGate p \<Rightarrow> Some (append_rz (qubits ! 0) p block)
      | _ \<Rightarrow> None)"

definition flush_block :: "nat \<Rightarrow> phase_segment list \<times> phase_block \<Rightarrow> phase_segment list \<times> phase_block" where
  "flush_block n s =
     (case s of (segments, current) \<Rightarrow>
        if blk_ops current = [] then s else (segments @ [\<lparr>seg_block = current, trailing = []\<rparr>], block_new n))"

definition add_boundary :: "nat \<Rightarrow> gate \<Rightarrow> phase_segment list \<Rightarrow> phase_segment list" where
  "add_boundary n g segments =
     (if segments = [] then [\<lparr>seg_block = block_new n, trailing = [g]\<rparr>]
      else butlast segments @ [(last segments)\<lparr>trailing := trailing (last segments) @ [g]\<rparr>])"

definition segment_step :: "nat \<Rightarrow> gate \<Rightarrow> phase_segment list \<times> phase_block \<Rightarrow> phase_segment list \<times> phase_block" where
  "segment_step n g s =
     (case is_phase_op (fst g) (snd g) (snd s) of
        Some current \<Rightarrow> (fst s, current)
      | None \<Rightarrow> (let (segments, current) = flush_block n s in (add_boundary n g segments, current)))"

definition segment_phase_poly_regions :: "qcir \<Rightarrow> phase_segment list" where
  "segment_phase_poly_regions c =
     (let n = qc_qubits c
      in filter (\<lambda>s. \<not> (blk_ops (seg_block s) = [] \<and> trailing s = []))
           (fst (flush_block n (fold (segment_step n) (qc_gates c) ([], block_new n)))))"

section \<open>Merging\<close>

record ssa_context =
  row_map :: "nat list"
  row_to_logical :: "nat list"

definition ssa_new :: "nat \<Rightarrow> ssa_context" where
  "ssa_new n = \<lparr>row_map = [0..<n], row_to_logical = [0..<n]\<rparr>"

definition ssa_h_gate :: "nat \<Rightarrow> ssa_context \<Rightarrow> ssa_context" where
  "ssa_h_gate q ctx =
     (let rows = row_to_logical ctx @ [q] in ctx\<lparr>row_to_logical := rows, row_map := (row_map ctx)[q := length rows - 1]\<rparr>)"

definition remapped_op :: "ssa_context \<Rightarrow> phase_op \<Rightarrow> phase_op" where
  "remapped_op ctx op =
     (if is_cx op then make_cx (row_map ctx ! op_control op) (row_map ctx ! op_target op)
      else make_rz (row_map ctx ! op_qubit op) (op_phase op))"

definition append_remapped :: "phase_block \<Rightarrow> ssa_context \<Rightarrow> phase_op list \<Rightarrow> phase_op list" where
  "append_remapped block ctx ops = ops @ map (remapped_op ctx) (blk_ops block)"

definition is_ssa_boundary :: "gate \<Rightarrow> bool" where
  "is_ssa_boundary g = (case fst g of HGate \<Rightarrow> True | _ \<Rightarrow> False)"

definition merge_step :: "phase_segment list \<Rightarrow> nat \<Rightarrow> ssa_context \<times> phase_op list \<Rightarrow> (ssa_context \<times> phase_op list) option" where
  "merge_step segments j s =
     (case s of (ctx, ops) \<Rightarrow>
        if blk_ops (seg_block (segments ! j)) = [] then None
        else if \<not> list_all (\<lambda>g. is_ssa_boundary g \<and> length (snd g) = 1) (trailing (segments ! j)) then None
        else if blk_ops (seg_block (segments ! (j + 1))) = [] then None
        else (let ctx' = fold (\<lambda>g. ssa_h_gate (hd (snd g))) (trailing (segments ! j)) ctx
              in Some (ctx', append_remapped (seg_block (segments ! (j + 1))) ctx' ops)))"

definition merge_segments_ssa :: "phase_segment list \<Rightarrow> nat \<Rightarrow> nat \<Rightarrow> phase_block option" where
  "merge_segments_ssa segments start k =
     (if k = 0 \<or> length segments < start + k then None
      else if blk_ops (seg_block (segments ! start)) = [] then None
      else (let ctx = ssa_new (blk_qubits (seg_block (segments ! start)))
            in map_option (\<lambda>(ctx, ops). from_ops (length (row_to_logical ctx)) ops)
                 (fold (\<lambda>j s. Option.bind s (merge_step segments j)) [start..<start + k - 1]
                    (Some (ctx, append_remapped (seg_block (segments ! start)) ctx [])))))"

definition ssa_row_to_logical_map :: "phase_segment list \<Rightarrow> nat \<Rightarrow> nat \<Rightarrow> nat list" where
  "ssa_row_to_logical_map segments start k =
     row_to_logical
       (fold (\<lambda>j ctx. fold (\<lambda>g ctx. if length (snd g) = 1 then ssa_h_gate (hd (snd g)) ctx else ctx) (trailing (segments ! j)) ctx)
          [start..<start + k - 1] (ssa_new (blk_qubits (seg_block (segments ! start)))))"

section \<open>Synthesis of a group\<close>

definition build_qcir_mapped :: "nat \<Rightarrow> phase_op list \<Rightarrow> nat list \<Rightarrow> qcir" where
  "build_qcir_mapped n gates rows =
     fold (\<lambda>op c.
        if is_cx op
        then (if rows ! op_control op = rows ! op_target op then c
              else qc_append CXGate [rows ! op_control op, rows ! op_target op] c)
        else qc_append (PZGate (op_phase op)) [rows ! op_qubit op] c) gates (qcir_new n)"

definition count_cx_rz :: "qcir \<Rightarrow> nat" where
  "count_cx_rz c =
     length (filter (\<lambda>g. case fst g of ControlGate _ _ \<Rightarrow> True | PZGate _ \<Rightarrow> True | RZGate _ \<Rightarrow> True | _ \<Rightarrow> False) (qc_gates c))"

definition group_cx :: "phase_segment list \<Rightarrow> nat \<Rightarrow> nat \<Rightarrow> nat" where
  "group_cx segments start k = sum_list (map (\<lambda>j. blk_num_cx (seg_block (segments ! j))) [start..<start + k])"

definition synthesize_segment_group ::
  "(nat \<Rightarrow> bool) \<Rightarrow> phase_segment list \<Rightarrow> nat \<Rightarrow> nat \<Rightarrow> phase_poly_config \<Rightarrow> bool \<Rightarrow> qcir outcome" where
  "synthesize_segment_group stop segments start k cfg only_if_better =
     (case merge_segments_ssa segments start k of
        None \<Rightarrow> NullOpt
      | Some merged \<Rightarrow>
          (if blk_ops merged = [] then NullOpt
           else (let n = blk_qubits (seg_block (hd segments));
                     rows = ssa_row_to_logical_map segments start k;
                     fallback = build_qcir_mapped n (blk_ops merged) rows;
                     extracted = phase_block_to_problem merged
                 in case (if apply_block_todd cfg then todd_optimize_problem stop extracted else Some None) of
                      None \<Rightarrow> Undefined
                    | Some opt \<Rightarrow>
                        (let problem = (case opt of None \<Rightarrow> extracted | Some optimised \<Rightarrow> optimised) in
                         if problem_is_trivial problem then Result fallback
                         else (case synthesize_phasepoly cfg problem of
                                 None \<Rightarrow> Undefined
                               | Some r \<Rightarrow>
                                   (if \<not> verify_synthesis problem r then Result fallback
                                    else if only_if_better \<and> group_cx segments start k \<le> num_cx r then Result fallback
                                    else Result (build_qcir_mapped n (res_gates r) rows)))))))"

section \<open>The choice of a group\<close>

text \<open>The chosen circuit, the number of segments that it covers and its CX gates. A call that does not return is \<open>None\<close>.\<close>

type_synonym choice = "qcir \<times> nat \<times> nat"

definition try_group ::
  "(nat \<Rightarrow> bool) \<Rightarrow> phase_segment list \<Rightarrow> nat \<Rightarrow> phase_poly_config \<Rightarrow> bool \<Rightarrow> nat \<Rightarrow> choice \<Rightarrow> choice option" where
  "try_group stop segments i cfg only_if_better k ch =
     (if length segments < i + k then Some ch
      else if merge_segments_ssa segments i k = None then Some ch
      else (case synthesize_segment_group stop segments i k cfg only_if_better of
              Undefined \<Rightarrow> None
            | NullOpt \<Rightarrow> Some ch
            | Result synth \<Rightarrow>
                (let cx = count_cx_gates synth in
                 if qc_gates (fst ch) = [] \<or> cx < snd (snd ch) then Some (synth, k, cx) else Some ch)))"

definition choose_group :: "(nat \<Rightarrow> bool) \<Rightarrow> phase_segment list \<Rightarrow> nat \<Rightarrow> phase_poly_config \<Rightarrow> bool \<Rightarrow> nat \<Rightarrow> choice option" where
  "choose_group stop segments i cfg only_if_better n =
     (let cx = blk_num_cx (seg_block (segments ! i)) in
      map_option (\<lambda>ch. if qc_gates (fst ch) = []
                       then (build_qcir_mapped n (blk_ops (seg_block (segments ! i))) (ssa_row_to_logical_map segments i 1), 1, cx)
                       else ch)
        (fold (\<lambda>k ch. Option.bind ch (try_group stop segments i cfg only_if_better k)) (group_sizes cfg) (Some (qcir_new n, 1, cx))))"

lemma try_group_span: "try_group stop segments i cfg b k ch = Some ch' \<Longrightarrow> 0 < fst (snd ch) \<Longrightarrow> 0 < fst (snd ch')"
  by (auto simp: try_group_def merge_segments_ssa_def Let_def split: if_splits outcome.splits)

lemma try_groups_span:
  "fold (\<lambda>k ch. Option.bind ch (try_group stop segments i cfg b k)) ks ch0 = Some ch \<Longrightarrow>
    (\<And>ch. ch0 = Some ch \<Longrightarrow> 0 < fst (snd ch)) \<Longrightarrow> 0 < fst (snd ch)"
proof (induction ks arbitrary: ch0)
  case (Cons k ks)
  have "0 < fst (snd ch1)" if "Option.bind ch0 (try_group stop segments i cfg b k) = Some ch1" for ch1
    using that Cons.prems(2) try_group_span by (cases ch0) auto
  then show ?case using Cons.IH Cons.prems(1) by simp
qed simp

lemma choose_group_span:
  assumes "choose_group stop segments i cfg b n = Some (c, taken, cx)"
  shows "0 < taken"
proof -
  obtain ch where ch: "fold (\<lambda>k ch. Option.bind ch (try_group stop segments i cfg b k)) (group_sizes cfg)
      (Some (qcir_new n, 1, blk_num_cx (seg_block (segments ! i)))) = Some ch" "qc_gates (fst ch) = [] \<or> ch = (c, taken, cx)"
    using assms by (auto simp: choose_group_def Let_def split: if_splits)
  have "0 < fst (snd ch)" by (rule try_groups_span [OF ch(1)]) auto
  then show ?thesis using assms ch by (auto simp: choose_group_def Let_def split: if_splits)
qed

section \<open>The circuit\<close>

record optimize_stats =
  num_blocks :: nat
  blocks_optimized :: nat
  cx_before :: nat
  cx_after :: nat

definition no_stats :: optimize_stats where
  "no_stats = \<lparr>num_blocks = 0, blocks_optimized = 0, cx_before = 0, cx_after = 0\<rparr>"

text \<open>The result so far, the statistics and the gates counted for the caller.\<close>

type_synonym progress = "qcir \<times> optimize_stats \<times> nat"

definition take_group :: "phase_segment list \<Rightarrow> nat \<Rightarrow> choice \<Rightarrow> progress \<Rightarrow> progress" where
  "take_group segments i ch p =
     (let (chosen, taken, cx) = ch; (result, stats, phase_gates) = p; cx_orig = group_cx segments i taken
      in (append_all (concat (map (\<lambda>j. trailing (segments ! j)) [i..<i + taken])) (qc_compose result chosen),
          \<lparr>num_blocks = num_blocks stats + taken,
           blocks_optimized = blocks_optimized stats + (if cx < cx_orig then taken else 0),
           cx_before = cx_before stats + cx_orig, cx_after = cx_after stats + cx\<rparr>,
          phase_gates + count_cx_rz chosen))"

function multiblock_loop ::
  "(nat \<Rightarrow> bool) \<Rightarrow> phase_segment list \<Rightarrow> phase_poly_config \<Rightarrow> bool \<Rightarrow> nat \<Rightarrow> nat \<Rightarrow> progress \<Rightarrow> progress option" where
  "multiblock_loop stop segments cfg only_if_better n i p =
     (if \<not> i < length segments then Some p
      else if blk_ops (seg_block (segments ! i)) = []
      then multiblock_loop stop segments cfg only_if_better n (i + 1)
             (append_all (trailing (segments ! i)) (fst p), snd p)
      else (case choose_group stop segments i cfg only_if_better n of
              None \<Rightarrow> None
            | Some (chosen, taken, cx) \<Rightarrow>
                multiblock_loop stop segments cfg only_if_better n (i + taken) (take_group segments i (chosen, taken, cx) p)))"
  by pat_completeness auto
termination
  by (relation "measure (\<lambda>(stop, segments, cfg, b, n, i, p). length segments - i)") (auto dest: choose_group_span)

declare multiblock_loop.simps [simp del]

definition optimize_qcir_phasepoly_multiblock :: "(nat \<Rightarrow> bool) \<Rightarrow> qcir \<Rightarrow> phase_poly_config \<Rightarrow> bool \<Rightarrow> progress option" where
  "optimize_qcir_phasepoly_multiblock stop circuit cfg only_if_better =
     (let segments = segment_phase_poly_regions circuit in
      if segments = [] then Some (circuit, no_stats, 0)
      else multiblock_loop stop segments cfg only_if_better (qc_qubits circuit) 0 (qcir_new (qc_qubits circuit), no_stats, 0))"

definition optimize_qcir_phasepoly :: "(nat \<Rightarrow> bool) \<Rightarrow> qcir \<Rightarrow> phase_poly_config \<Rightarrow> bool \<Rightarrow> progress option" where
  "optimize_qcir_phasepoly stop circuit cfg only_if_better = optimize_qcir_phasepoly_multiblock stop circuit cfg only_if_better"

end
