(* ===== verification/MultiblockCorrect.thy ===== *)
theory MultiblockCorrect
  imports Multiblock
begin

text \<open>
  Splitting a circuit into segments keeps its operator, and so does the optimisation when each block is synthesized alone and
  TODD is switched off. Merging across H gates does not: the gates of all blocks come before the H gates between them.
\<close>

section \<open>Circuits with the same operator\<close>

definition same_gates :: "nat \<Rightarrow> gate list \<Rightarrow> gate list \<Rightarrow> bool" where
  "same_gates n gs gs' \<longleftrightarrow> gates_ok n gs \<and> gates_ok n gs' \<and> op_eq n (gates_sem gs) (gates_sem gs')"

lemma same_refl: "gates_ok n gs \<Longrightarrow> same_gates n gs gs"
  by (simp add: same_gates_def)

lemma same_trans: "same_gates n a b \<Longrightarrow> same_gates n b c \<Longrightarrow> same_gates n a c"
  unfolding same_gates_def using op_eq_trans by blast

lemma same_sym: "same_gates n a b \<Longrightarrow> same_gates n b a"
  unfolding same_gates_def using op_eq_sym by blast

lemma same_ok: "same_gates n a b \<Longrightarrow> gates_ok n a" "same_gates n a b \<Longrightarrow> gates_ok n b"
  by (simp_all add: same_gates_def)

lemma same_append:
  assumes "same_gates n a a'" "same_gates n b b'"
  shows "same_gates n (a @ b) (a' @ b')"
proof -
  have e: "gates_sem (x @ y) = (\<lambda>v. gates_sem y (gates_sem x v))" for x y by (rule ext) simp
  show ?thesis
    using assms op_eq_comp [of n "gates_sem b" "gates_sem b'" "gates_sem a" "gates_sem a'"] by (auto simp: same_gates_def e)
qed

section \<open>Segments\<close>

definition block_ok :: "nat \<Rightarrow> phase_block \<Rightarrow> bool" where
  "block_ok n B \<longleftrightarrow> blk_qubits B = n \<and> list_all (phase_op_ok n) (blk_ops B) \<and> blk_num_cx B = length (filter is_cx (blk_ops B))"

definition segment_ok :: "nat \<Rightarrow> phase_segment \<Rightarrow> bool" where
  "segment_ok n s \<longleftrightarrow> block_ok n (seg_block s) \<and> gates_ok n (trailing s)"

definition block_gates :: "phase_block \<Rightarrow> gate list" where
  "block_gates B = map phase_gate (blk_ops B)"

definition segments_gates :: "phase_segment list \<Rightarrow> gate list" where
  "segments_gates ss = concat (map (\<lambda>s. block_gates (seg_block s) @ trailing s) ss)"

lemma segments_gates_simps [simp]: "segments_gates [] = []" "segments_gates (s # ss) = block_gates (seg_block s) @ trailing s @ segments_gates ss"
  "segments_gates (xs @ ys) = segments_gates xs @ segments_gates ys"
  by (simp_all add: segments_gates_def)

lemma block_new_ok [simp]: "block_ok n (block_new n)" "blk_ops (block_new n) = []" "block_gates (block_new n) = []"
  by (simp_all add: block_ok_def block_new_def block_gates_def)

lemma block_gates_ok: "block_ok n B \<Longrightarrow> gates_ok n (block_gates B)"
  unfolding block_ok_def block_gates_def using phase_gates_ok by blast

lemma append_rz_same:
  assumes B: "block_ok n B" and q: "q < n" "phase_ok p" and g: "gate_ok n g" "op_eq n (op_sem (fst g) (snd g)) (q_pz (phase_factor p) q)"
  shows "block_ok n (append_rz q p B)" "same_gates n (block_gates B @ [g]) (block_gates (append_rz q p B))"
proof -
  show "block_ok n (append_rz q p B)" using B q by (simp add: block_ok_def append_rz_def)
  have "gates_sem [g] = op_sem (fst g) (snd g)" "gates_sem [phase_gate (make_rz q p)] = q_pz (phase_factor p) q" by (simp_all add: fun_eq_iff)
  moreover have "gate_ok n (phase_gate (make_rz q p))" by (rule phase_gate_ok) (use q in simp)
  ultimately have "same_gates n [g] [phase_gate (make_rz q p)]" using g by (simp add: same_gates_def gates_ok_def)
  from same_append [OF same_refl [OF block_gates_ok [OF B]] this]
  show "same_gates n (block_gates B @ [g]) (block_gates (append_rz q p B))" by (simp add: block_gates_def append_rz_def)
qed

lemma is_phase_op_spec:
  assumes B: "block_ok n B" and g: "gate_ok n (op, qs)" and r: "is_phase_op op qs B = Some B'"
  shows "block_ok n B'" "same_gates n (block_gates B @ [(op, qs)]) (block_gates B')"
proof -
  have "block_ok n B' \<and> same_gates n (block_gates B @ [(op, qs)]) (block_gates B')"
  proof (cases op)
    case (PZGate p)
    then have q: "qs ! 0 < n" "phase_ok p" "hd qs = qs ! 0"
      using g by (auto simp: gate_ok_def on_qubits_def length_Suc_conv)
    have "block_ok n (append_rz (qs ! 0) p B)" "same_gates n (block_gates B @ [(op, qs)]) (block_gates (append_rz (qs ! 0) p B))"
      by (rule append_rz_same [OF B q(1,2) g]; simp add: PZGate q(3))+
    then show ?thesis using r by (simp add: is_phase_op_def PZGate)
  next
    case (RZGate p)
    then have q: "qs ! 0 < n" "phase_ok p" "hd qs = qs ! 0"
      using g by (auto simp: gate_ok_def on_qubits_def length_Suc_conv)
    have e: "op_eq n (op_sem (fst (op, qs)) (snd (op, qs))) (q_pz (phase_factor p) (qs ! 0))"
      by (rule op_eqI [of "half_factor p"]) (simp_all add: half_factor_nonzero RZGate q(3))
    show ?thesis using r append_rz_same [OF B q(1,2) g e] by (simp add: is_phase_op_def RZGate)
  next
    case (ControlGate target k)
    obtain p where p: "target = PXGate p" "phase_eq p (phase_of_int 1)" "k = 1" "qs ! 0 \<noteq> qs ! 1" "B' = append_cx (qs ! 0) (qs ! 1) B"
      using r by (auto simp: is_phase_op_def ControlGate split: if_splits operation.splits)
    have qs: "length qs = 2" "qs ! 0 < n" "qs ! 1 < n"
      using g by (auto simp: gate_ok_def on_qubits_def ControlGate p(1,3) length_Suc_conv numeral_2_eq_2)
    then have "qs = [qs ! 0, qs ! 1]" by (auto simp: length_Suc_conv numeral_2_eq_2)
    moreover have "p = phase_of_int 1"
      using g p(2) by (intro phase_eqI) (auto simp: ControlGate p(1) gate_ok_def phase_of_int_ok phase_eq_iff)
    ultimately have gate: "(op, qs) = phase_gate (make_cx (qs ! 0) (qs ! 1))" using ControlGate p(1,3) by simp
    have "block_gates B' = block_gates B @ [(op, qs)]" unfolding gate by (simp add: p(5) block_gates_def append_cx_def)
    moreover have "block_ok n B'" using B qs p(4) by (simp add: p(5) block_ok_def append_cx_def)
    ultimately show ?thesis using same_refl block_gates_ok by metis
  qed (use r in \<open>auto simp: is_phase_op_def\<close>)
  then show "block_ok n B'" "same_gates n (block_gates B @ [(op, qs)]) (block_gates B')" by auto
qed

definition split_inv :: "nat \<Rightarrow> gate list \<Rightarrow> phase_segment list \<times> phase_block \<Rightarrow> bool" where
  "split_inv n gs s \<longleftrightarrow> list_all (segment_ok n) (fst s) \<and> block_ok n (snd s) \<and>
     same_gates n gs (segments_gates (fst s) @ block_gates (snd s))"

lemma flush_inv:
  assumes "split_inv n gs s"
  shows "split_inv n gs (flush_block n s)" "blk_ops (snd (flush_block n s)) = []"
  using assms by (auto simp: split_inv_def flush_block_def segment_ok_def gates_ok_def split: prod.splits)

lemma add_boundary_spec:
  assumes "list_all (segment_ok n) ss" "gate_ok n g"
  shows "list_all (segment_ok n) (add_boundary n g ss)" "segments_gates (add_boundary n g ss) = segments_gates ss @ [g]"
  using assms by (cases ss rule: rev_cases; auto simp: add_boundary_def segment_ok_def gates_ok_def)+

lemma segment_step_inv:
  assumes s: "split_inv n gs s" and g: "gate_ok n g"
  shows "split_inv n (gs @ [g]) (segment_step n g s)"
proof (cases "is_phase_op (fst g) (snd g) (snd s)")
  case (Some B)
  have "block_ok n (snd s)" "gate_ok n (fst g, snd g)" using s g by (simp_all add: split_inv_def)
  note p = is_phase_op_spec [OF this Some]
  have ok: "gates_ok n (segments_gates (fst s))" using s by (auto simp: split_inv_def same_gates_def)
  have "same_gates n (gs @ [g]) ((segments_gates (fst s) @ block_gates (snd s)) @ [g])"
    by (rule same_append [OF _ same_refl]) (use s g in \<open>simp_all add: split_inv_def gates_ok_def\<close>)
  then have "same_gates n (gs @ [g]) (segments_gates (fst s) @ block_gates B)"
    using same_trans same_append [OF same_refl [OF ok] p(2)] by fastforce
  then show ?thesis using s p(1) Some by (simp add: split_inv_def segment_step_def)
next
  case None
  obtain ss B where f: "flush_block n s = (ss, B)" by fastforce
  have i: "split_inv n gs (ss, B)" "blk_ops B = []" using flush_inv [OF s] by (simp_all add: f)
  then have i': "list_all (segment_ok n) ss" "block_ok n B" "same_gates n gs (segments_gates ss)" "block_gates B = []"
    by (simp_all add: split_inv_def block_gates_def)
  have "same_gates n (gs @ [g]) (segments_gates ss @ [g])"
    by (rule same_append [OF i'(3) same_refl]) (use g in \<open>simp add: gates_ok_def\<close>)
  then show ?thesis using None f i' add_boundary_spec [OF i'(1) g] by (simp add: split_inv_def segment_step_def)
qed

theorem segments_spec:
  assumes "qc_ok c"
  defines "n \<equiv> qc_qubits c"
  shows "list_all (segment_ok n) (segment_phase_poly_regions c)" "same_gates n (qc_gates c) (segments_gates (segment_phase_poly_regions c))"
proof -
  have "gates_ok n gs \<Longrightarrow> split_inv n gs (fold (segment_step n) gs ([], block_new n))" for gs
  proof (induction gs rule: rev_induct)
    case Nil
    then show ?case by (simp add: split_inv_def same_refl)
  next
    case (snoc g gs)
    then show ?case using segment_step_inv [of n gs _ g] by (simp add: gates_ok_def)
  qed
  then have "split_inv n (qc_gates c) (fold (segment_step n) (qc_gates c) ([], block_new n))" using assms by (simp add: qc_ok_def)
  note f = flush_inv [OF this]
  have drop: "segments_gates (filter (\<lambda>s. \<not> (blk_ops (seg_block s) = [] \<and> trailing s = [])) ss) = segments_gates ss" for ss
    by (induction ss) (auto simp: block_gates_def)
  have "block_gates (snd (flush_block n (fold (segment_step n) (qc_gates c) ([], block_new n)))) = []" using f(2) by (simp add: block_gates_def)
  then show "list_all (segment_ok n) (segment_phase_poly_regions c)" "same_gates n (qc_gates c) (segments_gates (segment_phase_poly_regions c))"
    using f(1) drop by (auto simp: split_inv_def segment_phase_poly_regions_def Let_def n_def list_all_iff)
qed

text \<open>The blocks that the extractor finds are the non-empty blocks of the segments.\<close>

lemma step_blocks:
  assumes g: "gate_ok n g" and e: "fst e = map seg_block (filter (\<lambda>s. blk_ops (seg_block s) \<noteq> []) (fst s))" "snd e = snd s"
  shows "fst (extract_step n g e) = map seg_block (filter (\<lambda>s. blk_ops (seg_block s) \<noteq> []) (fst (segment_step n g s))) \<and>
    snd (extract_step n g e) = snd (segment_step n g s)"
proof -
  obtain op qs where op: "g = (op, qs)" by fastforce
  show ?thesis
  proof (cases "is_phase_op op qs (snd s)")
    case (Some B)
    consider c t where "as_cx op qs = Some (c, t)" "B = append_cx c t (snd s)" |
      p where "as_cx op qs = None" "as_rz op = Some p" "B = append_rz (qs ! 0) p (snd s)"
      using Some by (auto simp: is_phase_op_def as_cx_def as_rz_def split: operation.splits if_splits)
    then show ?thesis using e Some by cases (simp_all add: op extract_step_def segment_step_def)
  next
    case None
    have "qs ! 0 \<noteq> qs ! 1" if "op = ControlGate t 1" "as_cx op qs \<noteq> None" for t
      using g that by (auto simp: op gate_ok_def on_qubits_def as_cx_def distinct_conv_nth split: operation.splits)
    then have "as_cx op qs = None \<and> as_rz op = None"
      using None by (auto simp: is_phase_op_def as_cx_def as_rz_def split: operation.splits if_splits)
    moreover have "map seg_block (filter (\<lambda>s. blk_ops (seg_block s) \<noteq> []) (add_boundary n g ss)) =
        map seg_block (filter (\<lambda>s. blk_ops (seg_block s) \<noteq> []) ss)" for ss
      by (cases ss rule: rev_cases) (auto simp: add_boundary_def block_new_def)
    ultimately show ?thesis
      using None e by (cases e; cases s) (auto simp: op extract_step_def segment_step_def flush_blocks_def flush_block_def)
  qed
qed

theorem extract_blocks_agree:
  assumes "qc_ok c"
  shows "extract_phase_blocks c = map seg_block (filter (\<lambda>s. blk_ops (seg_block s) \<noteq> []) (segment_phase_poly_regions c))"
proof -
  let ?n = "qc_qubits c" and ?ne = "\<lambda>s. blk_ops (seg_block s) \<noteq> []"
  have "gates_ok ?n gs \<Longrightarrow>
      fst (fold (extract_step ?n) gs ([], block_new ?n)) = map seg_block (filter ?ne (fst (fold (segment_step ?n) gs ([], block_new ?n)))) \<and>
      snd (fold (extract_step ?n) gs ([], block_new ?n)) = snd (fold (segment_step ?n) gs ([], block_new ?n))" for gs
  proof (induction gs rule: rev_induct)
    case (snoc g gs)
    then show ?case using step_blocks by (simp add: gates_ok_def)
  qed simp
  from this [of "qc_gates c"] show ?thesis
    using assms unfolding extract_phase_blocks_def segment_phase_poly_regions_def qc_ok_def Let_def
    by (auto simp: flush_blocks_def flush_block_def split: prod.splits intro!: arg_cong [of _ _ "map seg_block"] filter_cong)
qed

section \<open>One block alone\<close>

lemma copy_gate: "phase_gate (op_copy op) = phase_gate op"
  by (auto simp: op_copy_def phase_gate_def is_cx_def make_cx_def make_rz_def op_qubit_def)

lemma remapped_identity: "phase_op_ok n op \<Longrightarrow> remapped_op (ssa_new n) op = op_copy op"
  by (auto simp: remapped_op_def ssa_new_def op_copy_def phase_op_ok_def op_qubit_def)

lemma merge_one:
  assumes s: "segment_ok n (segments ! i)" "i < length segments" "blk_ops (seg_block (segments ! i)) \<noteq> []"
  shows "\<exists>M. merge_segments_ssa segments i 1 = Some M \<and> block_ok n M \<and> blk_ops M \<noteq> [] \<and>
    block_gates M = block_gates (seg_block (segments ! i)) \<and> blk_num_cx M = blk_num_cx (seg_block (segments ! i))"
proof -
  let ?B = "seg_block (segments ! i)"
  have B: "blk_qubits ?B = n" "list_all (phase_op_ok n) (blk_ops ?B)" "blk_num_cx ?B = length (filter is_cx (blk_ops ?B))"
    using s(1) by (simp_all add: segment_ok_def block_ok_def)
  have "map (remapped_op (ssa_new n)) (blk_ops ?B) = map op_copy (blk_ops ?B)"
    using B(2) remapped_identity by (auto simp: list_all_iff)
  then have m: "merge_segments_ssa segments i 1 = Some (from_ops n (map op_copy (blk_ops ?B)))"
    using s(2,3) B(1) by (simp add: merge_segments_ssa_def append_remapped_def Let_def del: map_eq_conv) (simp add: ssa_new_def)
  have "length (filter is_cx (map op_copy (blk_ops ?B))) = length (filter is_cx (blk_ops ?B))"
    by (induction "blk_ops ?B") (simp_all add: filter_map comp_def)
  moreover have "list_all (phase_op_ok n) (map op_copy (blk_ops ?B))" using B(2) by (auto simp: list_all_iff)
  ultimately show ?thesis
    using m s(3) B(3) by (auto simp: from_ops_spec block_ok_def block_gates_def copy_gate filter_map comp_def list_all_iff)
qed

lemma one_row_map: "blk_qubits (seg_block (segments ! i)) = n \<Longrightarrow> ssa_row_to_logical_map segments i 1 = [0..<n]"
  by (simp add: ssa_row_to_logical_map_def ssa_new_def)

lemma build_mapped_identity:
  "list_all (phase_op_ok n) gates \<Longrightarrow> build_qcir_mapped n gates [0..<n] = append_all (map phase_gate gates) (qcir_new n)"
proof -
  let ?f = "\<lambda>op c. if is_cx op
        then (if [0..<n] ! op_control op = [0..<n] ! op_target op then c
              else qc_append CXGate [[0..<n] ! op_control op, [0..<n] ! op_target op] c)
        else qc_append (PZGate (op_phase op)) [[0..<n] ! op_qubit op] c"
  have "list_all (phase_op_ok n) gates \<Longrightarrow> fold ?f gates c = append_all (map phase_gate gates) c" for c
    by (induction gates arbitrary: c) (auto simp: append_all_def phase_gate_def phase_op_ok_def op_qubit_def)
  then show "list_all (phase_op_ok n) gates \<Longrightarrow> ?thesis" by (simp add: build_qcir_mapped_def)
qed

lemma solution_same:
  assumes B: "block_ok n B" and s: "solves_problem n (phase_block_to_problem B) gates"
  shows "same_gates n (block_gates B) (map phase_gate gates)"
proof -
  let ?ops = "blk_ops B"
  have ops: "list_all (phase_op_ok n) ?ops" "blk_qubits B = n" using B by (simp_all add: block_ok_def)
  note p = phase_block_spec [OF ops]
  have g: "list_all (phase_op_ok n) gates" using s by (simp add: solves_problem_def)
  have bits: "ops_bits ?ops b = ops_bits gates b" for b
  proof
    fix q
    show "ops_bits ?ops b q = ops_bits gates b q"
    proof (cases "q < n")
      case True
      then show ?thesis using s p(4) by (simp add: solves_problem_def)
    next
      case False
      then show ?thesis using ops_bits_outside [OF g] ops_bits_outside [OF ops(1)] by simp
    qed
  qed
  have turn: "turn (ops_turn gates b) = turn (ops_turn ?ops b)" for b
    using turn_mod2 [OF p(3), of b] s by (simp add: solves_problem_def)
  have "phase_ops_op ?ops v = phase_ops_op gates v" for v
  proof (rule phase_ops_unique [OF g])
    fix b
    show "phase_ops_op ?ops v (ops_bits gates b) = turn (ops_turn gates b) * v b"
      using phase_ops_basis [OF ops(1), of v b] by (simp add: bits turn)
  qed
  then have "gates_sem (map phase_gate gates) = gates_sem (block_gates B)"
    using phase_gates_op [OF g] phase_gates_op [OF ops(1)] by (simp add: fun_eq_iff block_gates_def)
  then show ?thesis using phase_gates_ok [OF g] block_gates_ok [OF B] by (simp add: same_gates_def)
qed

definition resynthesized :: "nat \<Rightarrow> phase_block \<Rightarrow> bool \<Rightarrow> qcir \<Rightarrow> nat \<Rightarrow> bool" where
  "resynthesized n B only_if_better c cx \<longleftrightarrow> qc_qubits c = n \<and> same_gates n (block_gates B) (qc_gates c) \<and>
     (only_if_better \<longrightarrow> cx \<le> blk_num_cx B)"

lemma count_mapped: "count_cx_gates (append_all (map phase_gate gates) (qcir_new n)) = length (filter is_cx gates)"
  by (induction gates) (auto simp: count_cx_gates_def append_all_gates qcir_new_def is_control_gate_def phase_gate_def)

lemma mapped_props: "qc_qubits (append_all gs (qcir_new n)) = n" "qc_gates (append_all gs (qcir_new n)) = gs"
  by (simp_all add: append_all_gates qcir_new_def)

lemma group_of_one:
  assumes segs: "list_all (segment_ok n) segments" and i: "i < length segments" "blk_ops (seg_block (segments ! i)) \<noteq> []"
    and todd: "\<not> apply_block_todd cfg"
  shows "\<exists>c. synthesize_segment_group stop segments i 1 cfg b = Result c \<and>
    resynthesized n (seg_block (segments ! i)) b c (count_cx_gates c)"
proof -
  let ?B = "seg_block (segments ! i)"
  have seg: "segment_ok n (segments ! i)" "segment_ok n (hd segments)"
    using segs i(1) by (cases segments; simp add: list_all_length; fastforce)+
  have nq: "blk_qubits (seg_block (hd segments)) = n" "blk_qubits ?B = n"
    using seg by (simp_all add: segment_ok_def block_ok_def)
  obtain M where M: "merge_segments_ssa segments i 1 = Some M" "block_ok n M" "blk_ops M \<noteq> []" "block_gates M = block_gates ?B"
    "blk_num_cx M = blk_num_cx ?B" using merge_one [OF seg(1) i] by blast
  have ok: "list_all (phase_op_ok n) (blk_ops M)" "blk_qubits M = n" "blk_num_cx M = length (filter is_cx (blk_ops M))"
    using M(2) by (simp_all add: block_ok_def)
  note build = build_mapped_identity [of n]
  have fallback: "resynthesized n ?B b (build_qcir_mapped n (blk_ops M) [0..<n]) (count_cx_gates (build_qcir_mapped n (blk_ops M) [0..<n]))"
    using same_refl [OF block_gates_ok [OF M(2)]] ok(3) M(4,5) count_mapped [of "blk_ops M" n]
    unfolding build [OF ok(1)] resynthesized_def mapped_props block_gates_def by simp
  note p = phase_block_spec [OF ok(1,2)]
  obtain r where r: "synthesize_phasepoly cfg (phase_block_to_problem M) = Some r" "solves_problem n (phase_block_to_problem M) (res_gates r)"
    "num_cx r = length (filter is_cx (res_gates r))"
    using synthesize_phasepoly_spec [OF p(1,2)] by blast
  have g: "list_all (phase_op_ok n) (res_gates r)" using r(2) by (simp add: solves_problem_def)
  have better: "resynthesized n ?B b (build_qcir_mapped n (res_gates r) [0..<n]) (count_cx_gates (build_qcir_mapped n (res_gates r) [0..<n]))"
    if "\<not> (b \<and> group_cx segments i 1 \<le> num_cx r)"
    using solution_same [OF M(2) r(2)] that M(4) r(3)
    by (auto simp: build [OF g] resynthesized_def mapped_props count_mapped group_cx_def)
  show ?thesis
    using fallback better r(1) M(1,3) nq todd one_row_map [OF nq(2)]
    by (auto simp: synthesize_segment_group_def Let_def simp del: One_nat_def)
qed

lemma choose_alone:
  assumes segs: "list_all (segment_ok n) segments" and i: "i < length segments" "blk_ops (seg_block (segments ! i)) \<noteq> []"
    and cfg: "\<not> apply_block_todd cfg" "\<forall>k \<in> set (group_sizes cfg). k \<le> 1"
  shows "\<exists>c cx. choose_group stop segments i cfg b n = Some (c, 1, cx) \<and> resynthesized n (seg_block (segments ! i)) b c cx"
proof -
  let ?B = "seg_block (segments ! i)" and ?cx = "blk_num_cx (seg_block (segments ! i))"
  define ok where "ok = (\<lambda>ch :: choice. (\<exists>cx. ch = (qcir_new n, 1, cx)) \<or> (\<exists>c cx. ch = (c, 1, cx) \<and> resynthesized n ?B b c cx))"
  have "\<exists>ch'. try_group stop segments i cfg b k ch = Some ch' \<and> ok ch'" if "k \<le> 1" "ok ch" for k ch
  proof (cases "k = 1")
    case True
    obtain c where "synthesize_segment_group stop segments i 1 cfg b = Result c" "resynthesized n ?B b c (count_cx_gates c)"
      using group_of_one [OF segs i cfg(1), of stop b] by blast
    then show ?thesis using that(2) by (auto simp: True try_group_def ok_def Let_def simp del: One_nat_def)
  next
    case False
    then have "k = 0" using that by simp
    then have "try_group stop segments i cfg b k ch = Some ch" by (simp add: try_group_def merge_segments_ssa_def)
    then show ?thesis using that(2) by simp
  qed
  then have "\<forall>k \<in> set ks. k \<le> 1 \<Longrightarrow> ok ch \<Longrightarrow>
      \<exists>ch'. fold (\<lambda>k ch. Option.bind ch (try_group stop segments i cfg b k)) ks (Some ch) = Some ch' \<and> ok ch'" for ks ch
  proof (induction ks arbitrary: ch)
    case (Cons k ks)
    then show ?case by simp (metis Cons.IH)
  qed simp
  from this [OF cfg(2), of "(qcir_new n, 1, ?cx)"] obtain ch where ch:
    "fold (\<lambda>k ch. Option.bind ch (try_group stop segments i cfg b k)) (group_sizes cfg) (Some (qcir_new n, 1, ?cx)) = Some ch" "ok ch"
    by (auto simp: ok_def)
  have B: "block_ok n ?B" using segs i(1) by (auto simp: list_all_length segment_ok_def)
  then have ops: "list_all (phase_op_ok n) (blk_ops ?B)" "blk_qubits ?B = n" by (simp_all add: block_ok_def)
  have own: "resynthesized n ?B b (build_qcir_mapped n (blk_ops ?B) [0..<n]) ?cx"
    using same_refl [OF block_gates_ok [OF B]] by (simp add: build_mapped_identity [OF ops(1)] resynthesized_def mapped_props block_gates_def)
  show ?thesis
    using ch own one_row_map [OF ops(2)] by (auto simp: choose_group_def ok_def qcir_new_def Let_def simp del: One_nat_def)
qed

section \<open>The loop\<close>

lemma extend_same:
  assumes c: "qc_qubits c = n" "same_gates n gs (qc_gates c)" and f: "qc_qubits f = n" "same_gates n fs (qc_gates f)" and t: "gates_ok n ts"
  shows "qc_qubits (append_all ts (qc_compose c f)) = n" "same_gates n (gs @ fs @ ts) (qc_gates (append_all ts (qc_compose c f)))"
proof -
  have e: "append_all ts (qc_compose c f) = c\<lparr>qc_gates := qc_gates c @ qc_gates f @ ts\<rparr>"
    using c(1) f(1) by (simp add: qc_compose_gates append_all_gates)
  show "qc_qubits (append_all ts (qc_compose c f)) = n" using c(1) by (simp add: e)
  show "same_gates n (gs @ fs @ ts) (qc_gates (append_all ts (qc_compose c f)))"
    unfolding e using same_append [OF c(2) same_append [OF f(2) same_refl [OF t]]] by simp
qed

lemma multiblock_loop_alone:
  assumes segs: "list_all (segment_ok n) segments" and cfg: "\<not> apply_block_todd cfg" "\<forall>k \<in> set (group_sizes cfg). k \<le> 1"
  shows "i \<le> length segments \<Longrightarrow> qc_qubits c = n \<Longrightarrow> same_gates n (segments_gates (take i segments)) (qc_gates c) \<Longrightarrow>
    (b \<Longrightarrow> cx_after st \<le> cx_before st) \<Longrightarrow>
    \<exists>c' st' pg'. multiblock_loop stop segments cfg b n i (c, st, pg) = Some (c', st', pg') \<and> qc_qubits c' = n \<and>
      same_gates n (segments_gates segments) (qc_gates c') \<and> (b \<longrightarrow> cx_after st' \<le> cx_before st')"
proof (induction "length segments - i" arbitrary: i c st pg rule: less_induct)
  case less
  show ?case
  proof (cases "i < length segments")
    case False
    then show ?thesis using less.prems by (subst multiblock_loop.simps) simp
  next
    case True
    let ?s = "segments ! i"
    have s: "block_ok n (seg_block ?s)" "gates_ok n (trailing ?s)" using segs True by (auto simp: list_all_length segment_ok_def)
    have next_gates: "segments_gates (take (i + 1) segments) = segments_gates (take i segments) @ block_gates (seg_block ?s) @ trailing ?s"
      using True by (simp add: take_Suc_conv_app_nth)
    show ?thesis
    proof (cases "blk_ops (seg_block ?s) = []")
      case empty: True
      then have "block_gates (seg_block ?s) = []" by (simp add: block_gates_def)
      then have "same_gates n (segments_gates (take (i + 1) segments)) (qc_gates (append_all (trailing ?s) c))"
        using same_append [OF less.prems(3) same_refl [OF s(2)]] unfolding next_gates by (simp add: append_all_gates)
      then show ?thesis
        using less.hyps [of "i + 1" "append_all (trailing ?s) c" st pg] True empty less.prems(2,4)
        by (subst multiblock_loop.simps) (simp add: append_all_gates)
    next
      case nonempty: False
      obtain f cx where f: "choose_group stop segments i cfg b n = Some (f, 1, cx)" "resynthesized n (seg_block ?s) b f cx"
        using choose_alone [OF segs True nonempty cfg] by blast
      then have f': "qc_qubits f = n" "same_gates n (block_gates (seg_block ?s)) (qc_gates f)" "b \<longrightarrow> cx \<le> blk_num_cx (seg_block ?s)"
        by (simp_all add: resynthesized_def)
      let ?c = "append_all (trailing ?s) (qc_compose c f)"
      obtain st1 pg1 where t: "take_group segments i (f, 1, cx) (c, st, pg) = (?c, st1, pg1)" "b \<longrightarrow> cx_after st1 \<le> cx_before st1"
        using less.prems(4) f'(3) by (simp add: take_group_def group_cx_def Let_def del: One_nat_def) (force simp: add_mono)
      note e = extend_same [OF less.prems(2,3) f'(1,2) s(2)]
      have "\<exists>c' st' pg'. multiblock_loop stop segments cfg b n (i + 1) (?c, st1, pg1) = Some (c', st', pg') \<and> qc_qubits c' = n \<and>
        same_gates n (segments_gates segments) (qc_gates c') \<and> (b \<longrightarrow> cx_after st' \<le> cx_before st')"
        by (rule less.hyps) (use True e t(2) next_gates in auto)
      then show ?thesis using True nonempty f(1) t(1) by (subst multiblock_loop.simps) simp
    qed
  qed
qed

theorem optimize_alone:
  assumes c: "qc_ok c" and cfg: "\<not> apply_block_todd cfg" "\<forall>k \<in> set (group_sizes cfg). k \<le> 1"
  shows "\<exists>c' st pg. optimize_qcir_phasepoly stop c cfg b = Some (c', st, pg) \<and> qc_qubits c' = qc_qubits c \<and> qc_ok c' \<and>
    op_eq (qc_qubits c) (gates_sem (qc_gates c')) (gates_sem (qc_gates c)) \<and> (b \<longrightarrow> cx_after st \<le> cx_before st)"
proof -
  let ?n = "qc_qubits c"
  note s = segments_spec [OF c]
  show ?thesis
  proof (cases "segment_phase_poly_regions c = []")
    case True
    then show ?thesis using c by (simp add: optimize_qcir_phasepoly_def optimize_qcir_phasepoly_multiblock_def no_stats_def)
  next
    case False
    obtain c' st pg where r: "multiblock_loop stop (segment_phase_poly_regions c) cfg b ?n 0 (qcir_new ?n, no_stats, 0) = Some (c', st, pg)"
      "qc_qubits c' = ?n" "same_gates ?n (segments_gates (segment_phase_poly_regions c)) (qc_gates c')" "b \<longrightarrow> cx_after st \<le> cx_before st"
      using multiblock_loop_alone [OF s(1) cfg, of 0 "qcir_new ?n" b no_stats stop 0] same_refl [of ?n "[]"]
      by (auto simp: qcir_new_def no_stats_def)
    have "same_gates ?n (qc_gates c) (qc_gates c')" by (rule same_trans [OF s(2) r(3)])
    then show ?thesis
      using r False op_eq_sym by (auto simp: optimize_qcir_phasepoly_def optimize_qcir_phasepoly_multiblock_def same_gates_def qc_ok_def)
  qed
qed

section \<open>Merging across an H gate\<close>

text \<open>Two blocks with an H gate on qubit 2 between them. Merged they need no CX gate, and both T gates end up in front of the
  H gate. The search is switched off, so that the greedy synthesis answers.\<close>

definition h_split :: qcir where
  "h_split = append_all [(CXGate, [0, 1]), (TGate, [2]), (HGate, [2]), (CXGate, [0, 1]), (TGate, [2])] (qcir_new 3)"

definition h_config :: phase_poly_config where
  "h_config = default_config\<lparr>max_expansions := 0, group_sizes := [1, 2], apply_block_todd := False\<rparr>"

definition h_segments :: "phase_segment list" where
  "h_segments = [\<lparr>seg_block = from_ops 3 [make_cx 0 1, make_rz 2 (mk_phase 1 4)], trailing = [(HGate, [2])]\<rparr>,
     \<lparr>seg_block = from_ops 3 [make_cx 0 1, make_rz 2 (mk_phase 1 4)], trailing = []\<rparr>]"

lemma synthesize_without_search:
  assumes P: "problem_ok n P" and m: "max_expansions cfg = 0" and g: "greedy_synthesize (finish_mode cfg) P = Some s"
  shows "\<exists>r. synthesize_phasepoly cfg P = Some r \<and> res_gates r = s_gates s \<and> num_cx r = g_cost s \<and> res_qubits r = prob_qubits P"
proof -
  obtain os where os: "push_state cfg (root_state P) \<lparr>queue = [], best_g = Map.empty, counter = 0\<rparr> = Some os"
    using push_state_spec [of "search_inv n P" n P "root_state P" "\<lparr>queue = [], best_g = Map.empty, counter = 0\<rparr>" cfg] root_state_inv [OF P]
    by (auto simp: open_inv_def)
  have "astar_loop cfg os [] 0 (length (queue os)) = Some ([], 0, length (queue os))" by (subst astar_loop.simps) (simp add: m)
  then show ?thesis using os g by (simp add: synthesize_phasepoly_def to_result_def)
qed

lemma h_evaluation:
  "segment_phase_poly_regions h_split = h_segments"
  "merge_segments_ssa h_segments 0 1 = Some (from_ops 3 [make_cx 0 1, make_rz 2 (mk_phase 1 4)])"
  "merge_segments_ssa h_segments 0 2 = Some (from_ops 4 [make_cx 0 1, make_rz 2 (mk_phase 1 4), make_cx 0 1, make_rz 3 (mk_phase 1 4)])"
  "ssa_row_to_logical_map h_segments 0 1 = [0, 1, 2]" "ssa_row_to_logical_map h_segments 0 2 = [0, 1, 2, 2]"
  "group_cx h_segments 0 1 = 1" "group_cx h_segments 0 2 = 2"
  by code_simp+

definition h_block :: "nat \<Rightarrow> phase_block" where
  "h_block k = (if k = 1 then from_ops 3 [make_cx 0 1, make_rz 2 (mk_phase 1 4)]
     else from_ops 4 [make_cx 0 1, make_rz 2 (mk_phase 1 4), make_cx 0 1, make_rz 3 (mk_phase 1 4)])"

lemma h_problems:
  "\<not> problem_is_trivial (phase_block_to_problem (h_block 1))" "\<not> problem_is_trivial (phase_block_to_problem (h_block 2))"
  "map_option (\<lambda>s. (s_gates s, g_cost s)) (greedy_synthesize PatelMarkovHayes (phase_block_to_problem (h_block 1))) =
    Some ([make_rz 2 (mk_phase 1 4), make_cx 0 1], 1)"
  "map_option (\<lambda>s. (s_gates s, g_cost s)) (greedy_synthesize PatelMarkovHayes (phase_block_to_problem (h_block 2))) =
    Some ([make_rz 2 (mk_phase 1 4), make_rz 3 (mk_phase 1 4)], 0)"
  by code_simp+

lemma block_problem_merged:
  assumes B: "list_all (phase_op_ok n) (blk_ops B)" "blk_qubits B = n"
  shows "\<exists>ts. merged_problem n ts (phase_block_to_problem B)"
proof -
  obtain st ts where s: "fold scan_op (blk_ops B) (sym_init n, []) = (st, ts)" by fastforce
  have ok: "terms_ok n ts" using scan_inv_all [OF B(1)] s by (simp add: scan_inv_def)
  have P: "phase_block_to_problem B = problem_of_terms n (live_terms ts) (to_output_matrix st)"
    by (simp add: phase_block_to_problem_def B(2) s)
  have "live_terms (live_terms ts) = live_terms ts" by (simp add: live_terms_def)
  then have "merged_problem n (live_terms ts) (phase_block_to_problem B)"
    using phase_block_spec(1) [OF B] live_terms_ok [OF ok]
    unfolding merged_problem_def P by (simp add: problem_terms_def problem_of_terms_def problem_terms_of del: mset_map)
  then show ?thesis ..
qed

lemma h_search:
  assumes "k = 1 \<or> k = 2"
  shows "\<exists>r. synthesize_phasepoly h_config (phase_block_to_problem (h_block k)) = Some r \<and>
    verify_synthesis (phase_block_to_problem (h_block k)) r \<and>
    (k = 1 \<longrightarrow> num_cx r = 1) \<and> (k = 2 \<longrightarrow> num_cx r = 0 \<and> res_gates r = [make_rz 2 (mk_phase 1 4), make_rz 3 (mk_phase 1 4)])"
proof -
  let ?P = "phase_block_to_problem (h_block k)" and ?n = "if k = 1 then 3 else 4 :: nat"
  have b: "list_all (phase_op_ok ?n) (blk_ops (h_block k))" "blk_qubits (h_block k) = ?n"
    using assms by (auto simp: h_block_def from_ops_spec mk_phase_ok)
  note p = phase_block_spec [OF b]
  obtain s where s: "greedy_synthesize PatelMarkovHayes ?P = Some s" "k = 1 \<Longrightarrow> g_cost s = 1"
    "k = 2 \<Longrightarrow> g_cost s = 0 \<and> s_gates s = [make_rz 2 (mk_phase 1 4), make_rz 3 (mk_phase 1 4)]"
    using assms h_problems(3,4) by auto
  have cfg: "max_expansions h_config = 0" "finish_mode h_config = PatelMarkovHayes" by (simp_all add: h_config_def default_config_def)
  obtain r where r: "synthesize_phasepoly h_config ?P = Some r" "res_gates r = s_gates s" "num_cx r = g_cost s"
    using synthesize_without_search [OF p(1) cfg(1)] s(1) cfg(2) by auto
  obtain r' where "synthesize_phasepoly h_config ?P = Some r'" "solves_problem ?n ?P (res_gates r')"
    using synthesize_phasepoly_spec [OF p(1,2)] by blast
  then have sol: "solves_problem ?n ?P (res_gates r)" using r(1) by simp
  obtain ts where "merged_problem ?n ts ?P" using block_problem_merged [OF b] by blast
  then have "verify_synthesis ?P r" by (rule verify_synthesis_complete [OF _ sol])
  then show ?thesis using r s(2,3) by auto
qed

lemma h_groups:
  "\<exists>c. synthesize_segment_group stop h_segments 0 1 h_config True = Result c \<and> count_cx_gates c = 1 \<and> qc_gates c \<noteq> []"
  "\<exists>c. synthesize_segment_group stop h_segments 0 2 h_config True = Result c \<and> qc_gates c = [(TGate, [2]), (TGate, [2])] \<and> qc_qubits c = 3"
proof -
  have cfg: "\<not> apply_block_todd h_config" by (simp add: h_config_def)
  have q: "blk_qubits (seg_block (hd h_segments)) = 3" by (simp add: h_segments_def from_ops_spec)
  have ne: "blk_ops (h_block k) \<noteq> []" for k by (simp add: h_block_def from_ops_spec)
  have m: "merge_segments_ssa h_segments 0 1 = Some (h_block 1)" "merge_segments_ssa h_segments 0 2 = Some (h_block 2)"
    using h_evaluation(2,3) by (simp_all add: h_block_def)
  obtain r where r: "synthesize_phasepoly h_config (phase_block_to_problem (h_block 1)) = Some r"
    "verify_synthesis (phase_block_to_problem (h_block 1)) r" "num_cx r = 1" using h_search [of 1] by auto
  have "count_cx_gates (build_qcir_mapped 3 (blk_ops (h_block 1)) [0, 1, 2]) = 1 \<and>
      qc_gates (build_qcir_mapped 3 (blk_ops (h_block 1)) [0, 1, 2]) \<noteq> []" by code_simp
  then show "\<exists>c. synthesize_segment_group stop h_segments 0 1 h_config True = Result c \<and> count_cx_gates c = 1 \<and> qc_gates c \<noteq> []"
    using m(1) ne q h_evaluation(4,6) h_problems(1) r cfg by (simp add: synthesize_segment_group_def Let_def del: One_nat_def)
  obtain r2 where r2: "synthesize_phasepoly h_config (phase_block_to_problem (h_block 2)) = Some r2"
    "verify_synthesis (phase_block_to_problem (h_block 2)) r2" "num_cx r2 = 0"
    "res_gates r2 = [make_rz 2 (mk_phase 1 4), make_rz 3 (mk_phase 1 4)]" using h_search [of 2] by auto
  have "qc_gates (build_qcir_mapped 3 [make_rz 2 (mk_phase 1 4), make_rz 3 (mk_phase 1 4)] [0, 1, 2, 2]) = [(TGate, [2]), (TGate, [2])] \<and>
      qc_qubits (build_qcir_mapped 3 [make_rz 2 (mk_phase 1 4), make_rz 3 (mk_phase 1 4)] [0, 1, 2, 2]) = 3" by code_simp
  then show "\<exists>c. synthesize_segment_group stop h_segments 0 2 h_config True = Result c \<and> qc_gates c = [(TGate, [2]), (TGate, [2])] \<and> qc_qubits c = 3"
    using m(2) ne q h_evaluation(5,7) h_problems(2) r2 cfg by (simp add: synthesize_segment_group_def Let_def)
qed

lemma h_choice: "\<exists>c. choose_group stop h_segments 0 h_config True 3 = Some (c, 2, 0) \<and> qc_gates c = [(TGate, [2]), (TGate, [2])] \<and> qc_qubits c = 3"
proof -
  obtain c1 c2 where c: "synthesize_segment_group stop h_segments 0 1 h_config True = Result c1" "count_cx_gates c1 = 1" "qc_gates c1 \<noteq> []"
    "synthesize_segment_group stop h_segments 0 2 h_config True = Result c2" "qc_gates c2 = [(TGate, [2]), (TGate, [2])]" "qc_qubits c2 = 3"
    using h_groups by blast
  have "count_cx_gates c2 = 0" by (simp add: count_cx_gates_def c(5) is_control_gate_def)
  moreover have "group_sizes h_config = [1, 2]" "length h_segments = 2" "qc_gates (qcir_new 3) = []"
    by (simp_all add: h_config_def h_segments_def qcir_new_def)
  ultimately show ?thesis
    using c h_evaluation(2,3) by (simp add: choose_group_def try_group_def Let_def del: One_nat_def)
qed

theorem h_split_wrong:
  "\<exists>c st pg. optimize_qcir_phasepoly stop h_split h_config True = Some (c, st, pg) \<and>
    \<not> op_eq 3 (gates_sem (qc_gates c)) (gates_sem (qc_gates h_split))"
proof -
  obtain c where c: "choose_group stop h_segments 0 h_config True 3 = Some (c, 2, 0)" "qc_gates c = [(TGate, [2]), (TGate, [2])]" "qc_qubits c = 3"
    using h_choice by blast
  have t: "concat (map (\<lambda>j. trailing (h_segments ! j)) [0..<2]) = [(HGate, [2])]" "length h_segments = 2"
    "blk_ops (seg_block (h_segments ! 0)) \<noteq> []" "qc_qubits h_split = 3" "h_segments \<noteq> []"
    by (simp_all add: h_segments_def numeral_2_eq_2 from_ops_spec h_split_def append_all_gates qcir_new_def)
  let ?r = "append_all [(HGate, [2])] (qc_compose (qcir_new 3) c)"
  have "\<exists>st pg. multiblock_loop stop h_segments h_config True 3 0 (qcir_new 3, no_stats, 0) = Some (?r, st, pg)"
    using t c by (subst multiblock_loop.simps, simp, subst multiblock_loop.simps) (simp add: take_group_def Let_def t(1))
  then obtain st pg where r: "optimize_qcir_phasepoly stop h_split h_config True = Some (?r, st, pg)"
    using t(4,5) h_evaluation(1) by (auto simp: optimize_qcir_phasepoly_def optimize_qcir_phasepoly_multiblock_def)
  have g: "qc_gates ?r = [(TGate, [2]), (TGate, [2]), (HGate, [2])]"
    using c(2,3) by (simp add: qc_compose_gates append_all_gates qcir_new_def)
  have h: "qc_gates h_split = [(CXGate, [0, 1]), (TGate, [2]), (HGate, [2]), (CXGate, [0, 1]), (TGate, [2])]"
    by (simp add: h_split_def append_all_gates qcir_new_def)
  define two :: qstate where "two = (\<lambda>i. i = 2)"
  have u: "zero_state(2 := False) = zero_state" "zero_state(2 := True) = two" "two(2 := False) = zero_state" "two(2 := True) = two"
    "zero_state \<noteq> two" "\<not> zero_state 2" "two 2" "cx_state 0 1 zero_state = zero_state" "cx_state 0 1 two = two"
    by (auto simp: zero_state_def two_def cx_state_def fun_eq_iff)
  have at: "q_h 2 v zero_state = (v zero_state + v two) / complex_of_real (sqrt 2)" "q_h 2 v two = (v zero_state - v two) / complex_of_real (sqrt 2)"
    "q_cx 0 (Suc 0) v zero_state = v zero_state" "q_cx 0 (Suc 0) v two = v two" "q_pz x 2 v zero_state = v zero_state" "q_pz x 2 v two = x * v two" for v x
    using u by (simp_all add: q_h_def q_cx_def q_pz_def)
  have "\<not> op_eq 3 (gates_sem (qc_gates ?r)) (gates_sem (qc_gates h_split))"
  proof (rule not_op_eqI [where v = "ket zero_state" and b = zero_state and b' = two])
    show "in_space 3 (ket zero_state)" by (auto simp: in_space_def ket_def zero_state_def)
    have w: "phase_factor (mk_phase 1 4) \<noteq> 1"
    proof
      assume "phase_factor (mk_phase 1 4) = 1"
      moreover have "phase_rational (mk_phase 1 4) = \<lparr>numer = 1, denom = 4\<rparr>" by code_simp
      ultimately have "Im (cis (pi / 4)) = 0" by (simp add: phase_factor_def phase_angle_def phase_val_def rat_val_def of_rat_divide)
      then show False using sin_45 by simp
    qed
    have k: "ket zero_state zero_state = 1" "ket zero_state two = 0" using u(5) by (simp_all add: ket_def)
    show "gates_sem (qc_gates ?r) (ket zero_state) zero_state * gates_sem (qc_gates h_split) (ket zero_state) two \<noteq>
        gates_sem (qc_gates ?r) (ket zero_state) two * gates_sem (qc_gates h_split) (ket zero_state) zero_state"
      unfolding g h using w by (simp add: q_cx_controlled [symmetric] phase_factors at k)
  qed
  then show ?thesis using r by blast
qed

end
