(* ===== verification/OrderedHashTable.thy ===== *)
theory OrderedHashTable
  imports Prelude "HOL-Library.Multiset"
begin

text \<open>
  \<open>dvlab::utils::ordered_hashtable\<close> (src/src/util/ordered_hashtable.hpp) with its two forms \<open>ordered_hashset\<close> and
  \<open>ordered_hashmap\<close>. The elements stand in a vector in the order of insertion, an erased one leaves a placeholder, and a
  hash map gives the place of each key. The function \<open>key\<close> of the two forms is an argument. A table refines the list
  of its elements: the lookup, insertion, erasure and iteration of the code are those of a list with distinct keys.
\<close>

section \<open>The table\<close>

record ('k, 's) otable =
  key2id :: "'k \<rightharpoonup> nat"
  ot_data :: "'s option list"
  ot_size :: nat

definition ot_empty :: "('k, 's) otable" where
  "ot_empty = \<lparr>key2id = (\<lambda>_. None), ot_data = [], ot_size = 0\<rparr>"

text \<open>\<open>contains\<close>; the index is in range for a well-formed table.\<close>

definition ot_contains :: "'k \<Rightarrow> ('k, 's) otable \<Rightarrow> bool" where
  "ot_contains k t = (case key2id t k of None \<Rightarrow> False | Some i \<Rightarrow> ot_data t ! i \<noteq> None)"

text \<open>Iteration from \<open>begin()\<close> skips the placeholders.\<close>

definition ot_items :: "('k, 's) otable \<Rightarrow> 's list" where
  "ot_items t = map the (filter (\<lambda>x. x \<noteq> None) (ot_data t))"

text \<open>The place of an element, \<open>None\<close> for \<open>end()\<close>.\<close>

definition ot_find :: "'k \<Rightarrow> ('k, 's) otable \<Rightarrow> nat option" where
  "ot_find k t = (if ot_contains k t then key2id t k else None)"

definition ot_emplace :: "('s \<Rightarrow> 'k) \<Rightarrow> 's \<Rightarrow> ('k, 's) otable \<Rightarrow> ('k, 's) otable \<times> bool" where
  "ot_emplace key v t =
     (let data = ot_data t @ [Some v]; k = key v in
      if key2id t k \<noteq> None then (t\<lparr>ot_data := butlast data\<rparr>, False)
      else (t\<lparr>ot_data := data, key2id := (key2id t)(k \<mapsto> length data - 1), ot_size := ot_size t + 1\<rparr>, True))"

definition ot_insert_range :: "('s \<Rightarrow> 'k) \<Rightarrow> 's list \<Rightarrow> ('k, 's) otable \<Rightarrow> ('k, 's) otable" where
  "ot_insert_range key vs t = fold (\<lambda>v t. fst (ot_emplace key v t)) vs t"

definition reindex :: "('s \<Rightarrow> 'k) \<Rightarrow> ('k, 's) otable \<Rightarrow> ('k, 's) otable" where
  "reindex key t =
     fold (\<lambda>i t. case ot_data t ! i of None \<Rightarrow> t | Some v \<Rightarrow> t\<lparr>key2id := (key2id t)(key v \<mapsto> i)\<rparr>) [0..<length (ot_data t)] t"

definition ot_sweep :: "('s \<Rightarrow> 'k) \<Rightarrow> ('k, 's) otable \<Rightarrow> ('k, 's) otable" where
  "ot_sweep key t = reindex key (t\<lparr>ot_data := filter (\<lambda>x. x \<noteq> None) (ot_data t)\<rparr>)"

definition ot_erase :: "('s \<Rightarrow> 'k) \<Rightarrow> 'k \<Rightarrow> ('k, 's) otable \<Rightarrow> ('k, 's) otable \<times> nat" where
  "ot_erase key k t =
     (if \<not> ot_contains k t then (t, 0)
      else (let t1 = t\<lparr>ot_data := (ot_data t)[the (key2id t k) := None], key2id := (key2id t)(k := None),
                       ot_size := ot_size t - 1\<rparr>
            in (if ot_size t1 * 4 \<le> length (ot_data t1) then ot_sweep key t1 else t1, 1)))"

text \<open>\<open>std::sort\<close>, which leaves the order of equivalent elements open, is an argument.\<close>

definition ot_sort ::
  "(('s option \<Rightarrow> 's option \<Rightarrow> bool) \<Rightarrow> 's option list \<Rightarrow> 's option list) \<Rightarrow> ('s \<Rightarrow> 'k) \<Rightarrow> ('s \<Rightarrow> 's \<Rightarrow> bool) \<Rightarrow>
    ('k, 's) otable \<Rightarrow> ('k, 's) otable" where
  "ot_sort std_sort key lt t =
     reindex key (t\<lparr>ot_data := std_sort (\<lambda>a b. case a of None \<Rightarrow> False
                                         | Some x \<Rightarrow> (case b of None \<Rightarrow> True | Some y \<Rightarrow> lt x y)) (ot_data t)\<rparr>)"

text \<open>\<open>operator==\<close>.\<close>

definition ot_equal :: "('s \<Rightarrow> 'k) \<Rightarrow> ('k, 's) otable \<Rightarrow> ('k, 's) otable \<Rightarrow> bool" where
  "ot_equal key a b \<longleftrightarrow> ot_size a = ot_size b \<and> list_ex (\<lambda>v. ot_contains (key v) b) (ot_items a)"

text \<open>The constructors from a list do not look for a key that is already there.\<close>

definition ot_of_list :: "('s \<Rightarrow> 'k) \<Rightarrow> 's list \<Rightarrow> ('k, 's) otable" where
  "ot_of_list key vs =
     (let t = fold (\<lambda>v t. t\<lparr>ot_data := ot_data t @ [Some v],
                            key2id := (if key2id t (key v) = None then (key2id t)(key v \<mapsto> length (ot_data t)) else key2id t)\<rparr>) vs ot_empty
      in t\<lparr>ot_size := length vs\<rparr>)"

section \<open>The forms of a map\<close>

definition om_at :: "'k \<Rightarrow> ('k, 'k \<times> 'v) otable \<Rightarrow> 'v option" where
  "om_at k t = (if ot_contains k t then map_option snd (ot_data t ! the (key2id t k)) else None)"

definition om_set :: "nat \<Rightarrow> 'v \<Rightarrow> ('k, 'k \<times> 'v) otable \<Rightarrow> ('k, 'k \<times> 'v) otable" where
  "om_set i v t = t\<lparr>ot_data := (ot_data t)[i := map_option (\<lambda>(k, _). (k, v)) (ot_data t ! i)]\<rparr>"

text \<open>\<open>operator[]\<close>, followed by an assignment.\<close>

definition om_assign :: "'v \<Rightarrow> 'k \<Rightarrow> 'v \<Rightarrow> ('k, 'k \<times> 'v) otable \<Rightarrow> ('k, 'k \<times> 'v) otable" where
  "om_assign dflt k v t =
     (let t1 = (if \<not> ot_contains k t then fst (ot_emplace fst (k, dflt) t) else t) in om_set (the (key2id t1 k)) v t1)"

definition om_try_emplace :: "'k \<Rightarrow> 'v \<Rightarrow> ('k, 'k \<times> 'v) otable \<Rightarrow> ('k, 'k \<times> 'v) otable \<times> bool" where
  "om_try_emplace k v t =
     (if ot_find k t \<noteq> None then (t, False)
      else (t\<lparr>ot_data := ot_data t @ [Some (k, v)], key2id := (key2id t)(k \<mapsto> length (ot_data t)), ot_size := ot_size t + 1\<rparr>, True))"

definition om_insert_or_assign :: "'k \<Rightarrow> 'v \<Rightarrow> ('k, 'k \<times> 'v) otable \<Rightarrow> ('k, 'k \<times> 'v) otable \<times> bool" where
  "om_insert_or_assign k v t =
     (let (t1, fresh) = om_try_emplace k v t in (if fresh then t1 else om_set (the (ot_find k t1)) v t1, fresh))"

section \<open>Well-formed tables\<close>

definition ot_ok :: "('s \<Rightarrow> 'k) \<Rightarrow> ('k, 's) otable \<Rightarrow> bool" where
  "ot_ok key t \<longleftrightarrow> ot_size t = length (ot_items t) \<and>
     (\<forall>k i. key2id t k = Some i \<longleftrightarrow> i < length (ot_data t) \<and> (\<exists>v. ot_data t ! i = Some v \<and> key v = k))"

lemma ot_okD:
  assumes "ot_ok key t"
  shows "ot_size t = length (ot_items t)"
    "key2id t k = Some i \<Longrightarrow> i < length (ot_data t)" "key2id t k = Some i \<Longrightarrow> \<exists>v. ot_data t ! i = Some v \<and> key v = k"
    "i < length (ot_data t) \<Longrightarrow> ot_data t ! i = Some v \<Longrightarrow> key2id t (key v) = Some i"
  using assms by (auto simp: ot_ok_def)

lemma items_iff: "v \<in> set (ot_items t) \<longleftrightarrow> (\<exists>i < length (ot_data t). ot_data t ! i = Some v)"
  by (force simp: ot_items_def in_set_conv_nth)

lemma contains_iff:
  assumes t: "ot_ok key t"
  shows "ot_contains k t \<longleftrightarrow> k \<in> key ` set (ot_items t)" "ot_contains k t \<longleftrightarrow> key2id t k \<noteq> None"
proof -
  show a: "ot_contains k t \<longleftrightarrow> key2id t k \<noteq> None"
    using ot_okD(3) [OF t] by (auto simp: ot_contains_def split: option.splits)
  show "ot_contains k t \<longleftrightarrow> k \<in> key ` set (ot_items t)"
  proof
    assume "ot_contains k t"
    then obtain i where i: "key2id t k = Some i" using a by auto
    then obtain v where "ot_data t ! i = Some v" "key v = k" using ot_okD(3) [OF t] by blast
    then show "k \<in> key ` set (ot_items t)" using ot_okD(2) [OF t i] by (auto simp: items_iff intro!: image_eqI)
  next
    assume "k \<in> key ` set (ot_items t)"
    then show "ot_contains k t" using a ot_okD(4) [OF t] by (auto simp: items_iff)
  qed
qed

lemma distinct_keys:
  assumes t: "ot_ok key t"
  shows "distinct (map key (ot_items t))"
proof -
  have "distinct (map key (map the (filter (\<lambda>x. x \<noteq> None) xs)))"
    if "\<And>i j v w. i < length xs \<Longrightarrow> j < length xs \<Longrightarrow> xs ! i = Some v \<Longrightarrow> xs ! j = Some w \<Longrightarrow> key v = key w \<Longrightarrow> i = j" for xs
    using that
  proof (induction xs)
    case (Cons x xs)
    have IH: "distinct (map key (map the (filter (\<lambda>x. x \<noteq> None) xs)))"
      by (rule Cons.IH) (use Cons.prems in \<open>metis Suc_less_eq length_Cons nat.inject nth_Cons_Suc\<close>)
    have "key v \<noteq> key w" if x: "x = Some v" and w: "Some w \<in> set xs" for v w
    proof
      assume e: "key v = key w"
      obtain j where "j < length xs" "xs ! j = Some w" using w by (auto simp: in_set_conv_nth)
      then show False using Cons.prems [of 0 "Suc j" v w] x e by simp
    qed
    then show ?case using IH by (auto simp: comp_def)
  qed simp
  moreover have "i = j" if "i < length (ot_data t)" "j < length (ot_data t)" "ot_data t ! i = Some v" "ot_data t ! j = Some w" "key v = key w" for i j v w
    using ot_okD(4) [OF t that(1,3)] ot_okD(4) [OF t that(2,4)] that(5) by simp
  ultimately show ?thesis unfolding ot_items_def by blast
qed

section \<open>The operations refine those of a list\<close>

lemma ot_empty_spec: "ot_ok key ot_empty" "ot_items ot_empty = []"
  by (simp_all add: ot_ok_def ot_empty_def ot_items_def)

lemma ot_append_spec:
  assumes t: "ot_ok key t" and k: "\<not> ot_contains (key v) t"
  defines "t' \<equiv> t\<lparr>ot_data := ot_data t @ [Some v], key2id := (key2id t)(key v \<mapsto> length (ot_data t)), ot_size := ot_size t + 1\<rparr>"
  shows "ot_ok key t'" "ot_items t' = ot_items t @ [v]"
proof -
  show i: "ot_items t' = ot_items t @ [v]" by (simp add: t'_def ot_items_def)
  have none: "key2id t (key v) = None" using k contains_iff(2) [OF t] by blast
  have "key2id t' k = Some i \<longleftrightarrow> i < length (ot_data t') \<and> (\<exists>w. ot_data t' ! i = Some w \<and> key w = k)" for k i
  proof (cases "k = key v")
    case True
    then show ?thesis using ot_okD(4) [OF t, of i] none by (auto simp: t'_def nth_append less_Suc_eq)
  next
    case False
    then show ?thesis using t by (auto simp: t'_def ot_ok_def nth_append less_Suc_eq)
  qed
  then show "ot_ok key t'" using ot_okD(1) [OF t] i by (simp add: ot_ok_def) (simp add: t'_def)
qed

theorem ot_emplace_spec:
  assumes t: "ot_ok key t"
  shows "ot_ok key (fst (ot_emplace key v t))"
    "ot_items (fst (ot_emplace key v t)) = (if key v \<in> key ` set (ot_items t) then ot_items t else ot_items t @ [v])"
    "snd (ot_emplace key v t) \<longleftrightarrow> key v \<notin> key ` set (ot_items t)"
  using ot_append_spec [OF t] contains_iff [OF t, of "key v"] t
  by (auto simp: ot_emplace_def Let_def simp del: not_None_eq)

text \<open>A vector with distinct keys, and a hash map that knows no other keys, are well-formed after \<open>reindex\<close>.\<close>

definition indexable :: "('s \<Rightarrow> 'k) \<Rightarrow> ('k, 's) otable \<Rightarrow> bool" where
  "indexable key t \<longleftrightarrow> distinct (map key (ot_items t)) \<and> dom (key2id t) \<subseteq> key ` set (ot_items t) \<and> ot_size t = length (ot_items t)"

lemma items_position:
  "distinct (map key (map the (filter (\<lambda>x. x \<noteq> None) xs))) \<Longrightarrow> i < length xs \<Longrightarrow> j < length xs \<Longrightarrow>
    xs ! i = Some v \<Longrightarrow> xs ! j = Some w \<Longrightarrow> key v = key w \<Longrightarrow> i = j"
proof (induction xs arbitrary: i j)
  case (Cons x xs)
  have no: "key u \<noteq> key u'" if "x = Some u" "k < length xs" "xs ! k = Some u'" for u u' k
  proof -
    have "u' \<in> set (map the (filter (\<lambda>x. x \<noteq> None) xs))" using that(2,3) by (force simp: in_set_conv_nth)
    then show ?thesis using Cons.prems(1) that(1) by (auto simp: image_iff)
  qed
  have d: "distinct (map key (map the (filter (\<lambda>x. x \<noteq> None) xs)))" using Cons.prems(1) by (cases x) auto
  show ?case
  proof (cases i)
    case 0
    show ?thesis
    proof (cases j)
      case (Suc j')
      then show ?thesis using Cons.prems(2-6) no [of v j' w] 0 by simp
    qed (use 0 in simp)
  next
    case (Suc i')
    show ?thesis
    proof (cases j)
      case 0
      then show ?thesis using Cons.prems(2-6) no [of w i' v] Suc by simp
    next
      case (Suc j')
      then show ?thesis using Cons.prems(2-6) Cons.IH [OF d, of i' j'] \<open>i = Suc i'\<close> by simp
    qed
  qed
qed simp

lemma reindex_spec:
  assumes t: "indexable key t"
  shows "ot_ok key (reindex key t)" "ot_items (reindex key t) = ot_items t"
proof -
  let ?xs = "ot_data t" and ?n = "length (ot_data t)"
  let ?f = "\<lambda>i u. case ot_data t ! i of None \<Rightarrow> u | Some v \<Rightarrow> u\<lparr>key2id := (key2id u)(key v \<mapsto> i)\<rparr>"
  have pos: "i = j" if "i < ?n" "j < ?n" "?xs ! i = Some v" "?xs ! j = Some w" "key v = key w" for i j v w
    using items_position [OF _ that] t by (simp add: indexable_def ot_items_def)
  let ?I = "\<lambda>m u. ot_data u = ?xs \<and> ot_size u = ot_size t \<and>
     (\<forall>k. key2id u k = (if \<exists>i < m. \<exists>v. ?xs ! i = Some v \<and> key v = k then Some (THE i. i < ?n \<and> (\<exists>v. ?xs ! i = Some v \<and> key v = k)) else key2id t k))"
  have the: "(THE i. i < ?n \<and> (\<exists>v. ?xs ! i = Some v \<and> key v = k)) = j" if "j < ?n" "?xs ! j = Some w" "key w = k" for j w k
    using that pos by (intro the_equality) auto
  have I: "?I ?n (fold ?f [0..<?n] t)"
  proof (rule fold_upt_induct [where I = ?I])
    fix m u assume m: "0 \<le> m" "m < ?n" "?I m u"
    show "?I (Suc m) (?f m u)"
    proof (cases "?xs ! m")
      case None
      then show ?thesis using m by (auto simp: less_Suc_eq)
    next
      case (Some w)
      have "key2id (?f m u) k = (if \<exists>i < Suc m. \<exists>v. ?xs ! i = Some v \<and> key v = k
          then Some (THE i. i < ?n \<and> (\<exists>v. ?xs ! i = Some v \<and> key v = k)) else key2id t k)" for k
      proof (cases "key w = k")
        case True
        then show ?thesis using the [OF m(2) Some True] Some by (auto simp: less_Suc_eq)
      next
        case False
        then show ?thesis using m(3) Some by (auto simp: less_Suc_eq)
      qed
      then show ?thesis using m Some by simp
    qed
  qed simp_all
  let ?r = "fold ?f [0..<?n] t"
  have r: "reindex key t = ?r"
  proof -
    have q: "fold (\<lambda>i u. case ot_data u ! i of None \<Rightarrow> u | Some v \<Rightarrow> u\<lparr>key2id := (key2id u)(key v \<mapsto> i)\<rparr>) is u = fold ?f is u"
      if "ot_data u = ?xs" for "is" u
      using that by (induction "is" arbitrary: u) (auto split: option.splits)
    show ?thesis unfolding reindex_def by (rule q) simp
  qed
  show items: "ot_items (reindex key t) = ot_items t" using I by (simp add: r ot_items_def)
  have "key2id ?r k = Some i \<longleftrightarrow> i < ?n \<and> (\<exists>v. ?xs ! i = Some v \<and> key v = k)" for k i
  proof (cases "\<exists>j < ?n. \<exists>v. ?xs ! j = Some v \<and> key v = k")
    case True
    then obtain j v where j: "j < ?n" "?xs ! j = Some v" "key v = k" by blast
    then have "key2id ?r k = Some j" using I the [OF j] by auto
    then show ?thesis using j pos by auto
  next
    case False
    then have "k \<notin> key ` set (ot_items t)" unfolding image_iff bex_simps items_iff Bex_def by blast
    then have "key2id t k = None" using t by (auto simp: indexable_def)
    then have "key2id ?r k = None" using False I by auto
    then show ?thesis using False by auto
  qed
  then show "ot_ok key (reindex key t)"
    using I t items by (auto simp: ot_ok_def r indexable_def ot_items_def)
qed

lemma ot_ok_indexable: "ot_ok key t \<Longrightarrow> indexable key t"
  using distinct_keys contains_iff by (fastforce simp: indexable_def ot_okD(1))

lemma sweep_spec:
  assumes t: "indexable key t"
  shows "ot_ok key (ot_sweep key t)" "ot_items (ot_sweep key t) = ot_items t" "None \<notin> set (ot_data (ot_sweep key t))"
proof -
  let ?t = "t\<lparr>ot_data := filter (\<lambda>x. x \<noteq> None) (ot_data t)\<rparr>"
  have i: "ot_items ?t = ot_items t" by (simp add: ot_items_def)
  have "indexable key ?t" using t unfolding indexable_def i by simp
  note r = reindex_spec [OF this]
  show "ot_ok key (ot_sweep key t)" "ot_items (ot_sweep key t) = ot_items t" using r i by (simp_all add: ot_sweep_def)
  have d: "ot_data (fold (\<lambda>i u. case ot_data u ! i of None \<Rightarrow> u | Some v \<Rightarrow> u\<lparr>key2id := (key2id u)(key v \<mapsto> i)\<rparr>) is u) = ot_data u" for "is" u
    by (induction "is" arbitrary: u) (auto split: option.splits)
  show "None \<notin> set (ot_data (ot_sweep key t))" unfolding ot_sweep_def reindex_def d by simp
qed

lemma filter_items_update:
  assumes "i < length xs" "xs ! i = Some v" "distinct (map key (map the (filter (\<lambda>x. x \<noteq> None) xs)))"
  shows "map the (filter (\<lambda>x. x \<noteq> None) (xs[i := None])) = filter (\<lambda>w. key w \<noteq> key v) (map the (filter (\<lambda>x. x \<noteq> None) xs))"
  using assms
proof (induction xs arbitrary: i)
  case (Cons x xs)
  show ?case
  proof (cases i)
    case 0
    then have "x = Some v" using Cons.prems by simp
    then have "\<forall>w \<in> set (map the (filter (\<lambda>x. x \<noteq> None) xs)). key w \<noteq> key v" using Cons.prems(3) by (auto simp: image_iff)
    then show ?thesis using 0 \<open>x = Some v\<close> by (simp add: filter_id_conv [THEN iffD2])
  next
    case (Suc j)
    have d: "distinct (map key (map the (filter (\<lambda>x. x \<noteq> None) xs)))" using Cons.prems(3) by (cases x) auto
    have "x = Some u \<Longrightarrow> key u \<noteq> key v" for u
    proof -
      assume x: "x = Some u"
      have "v \<in> set (map the (filter (\<lambda>x. x \<noteq> None) xs))" using Cons.prems(1,2) Suc by (force simp: in_set_conv_nth)
      then show ?thesis using Cons.prems(3) x by (auto simp: image_iff)
    qed
    then show ?thesis using Suc Cons.prems(1,2) Cons.IH [OF _ _ d, of j] by (cases x) auto
  qed
qed simp

theorem ot_erase_spec:
  assumes t: "ot_ok key t"
  shows "ot_ok key (fst (ot_erase key k t))" "ot_items (fst (ot_erase key k t)) = filter (\<lambda>v. key v \<noteq> k) (ot_items t)"
    "snd (ot_erase key k t) = (if k \<in> key ` set (ot_items t) then 1 else 0)"
proof -
  show "snd (ot_erase key k t) = (if k \<in> key ` set (ot_items t) then 1 else 0)"
    using contains_iff(1) [OF t, of k] by (simp add: ot_erase_def Let_def)
  have "ot_ok key (fst (ot_erase key k t)) \<and> ot_items (fst (ot_erase key k t)) = filter (\<lambda>v. key v \<noteq> k) (ot_items t)"
  proof (cases "ot_contains k t")
    case False
    then have "filter (\<lambda>v. key v \<noteq> k) (ot_items t) = ot_items t" using contains_iff(1) [OF t] by (auto simp: filter_id_conv)
    then show ?thesis using False t by (simp add: ot_erase_def)
  next
    case True
    then obtain i where i: "key2id t k = Some i" using contains_iff(2) [OF t] by blast
    obtain v where v: "ot_data t ! i = Some v" "key v = k" using ot_okD(3) [OF t i] by blast
    note il = ot_okD(2) [OF t i]
    let ?t1 = "t\<lparr>ot_data := (ot_data t)[i := None], key2id := (key2id t)(k := None), ot_size := ot_size t - 1\<rparr>"
    have items: "ot_items ?t1 = filter (\<lambda>v. key v \<noteq> k) (ot_items t)"
      using filter_items_update [OF il v(1), of key] distinct_keys [OF t] v(2) by (simp add: ot_items_def)
    have mem: "v \<in> set (ot_items t)" using il v by (auto simp: items_iff)
    have "length (filter (\<lambda>w. key w \<noteq> k) ws) = length ws - 1" if "distinct (map key ws)" "v \<in> set ws" for ws
      using that v(2)
    proof (induction ws)
      case (Cons w ws)
      show ?case
      proof (cases "w = v")
        case True
        then have "\<forall>u \<in> set ws. key u \<noteq> k" using Cons.prems by (auto simp: image_iff)
        then show ?thesis using True Cons.prems by (simp add: filter_id_conv [THEN iffD2])
      next
        case False
        then have "key w \<noteq> k" "v \<in> set ws" using Cons.prems by (auto simp: image_iff)
        then show ?thesis using Cons by (cases ws) auto
      qed
    qed simp
    then have size: "ot_size ?t1 = length (ot_items ?t1)" using items distinct_keys [OF t] mem ot_okD(1) [OF t] by simp
    have ok: "ot_ok key ?t1"
      unfolding ot_ok_def
    proof (intro conjI allI size)
      fix k' j
      show "key2id ?t1 k' = Some j \<longleftrightarrow> j < length (ot_data ?t1) \<and> (\<exists>w. ot_data ?t1 ! j = Some w \<and> key w = k')"
      proof (cases "k' = k")
        case True
        then show ?thesis using ot_okD(4) [OF t, of j] i il by (cases "j = i") auto
      next
        case False
        then show ?thesis using t v il by (cases "j = i") (auto simp: ot_ok_def)
      qed
    qed
    have e: "fst (ot_erase key k t) = (if ot_size ?t1 * 4 \<le> length (ot_data ?t1) then ot_sweep key ?t1 else ?t1)"
      using True i by (simp add: ot_erase_def Let_def)
    show ?thesis using sweep_spec [OF ot_ok_indexable [OF ok]] ok items unfolding e by simp
  qed
  then show "ot_ok key (fst (ot_erase key k t))" "ot_items (fst (ot_erase key k t)) = filter (\<lambda>v. key v \<noteq> k) (ot_items t)" by simp_all
qed

text \<open>Sorting needs of \<open>std::sort\<close> only that it permutes.\<close>

theorem ot_sort_spec:
  assumes t: "ot_ok key t" and perm: "\<And>lt xs. mset (std_sort lt xs) = mset xs"
  shows "ot_ok key (ot_sort std_sort key lt t)" "mset (ot_items (ot_sort std_sort key lt t)) = mset (ot_items t)"
proof -
  let ?lt = "\<lambda>a b. case a of None \<Rightarrow> False | Some x \<Rightarrow> (case b of None \<Rightarrow> True | Some y \<Rightarrow> lt x y)"
  let ?t = "t\<lparr>ot_data := std_sort ?lt (ot_data t)\<rparr>"
  have m: "mset (ot_items ?t) = mset (ot_items t)" by (simp add: ot_items_def perm)
  then have "mset (map key (ot_items ?t)) = mset (map key (ot_items t))" by simp
  then have d: "distinct (map key (ot_items ?t)) = distinct (map key (ot_items t))" by (rule mset_eq_imp_distinct_iff)
  have "set (ot_items ?t) = set (ot_items t)" "length (ot_items ?t) = length (ot_items t)"
    using m by (auto dest: mset_eq_setD mset_eq_length)
  then have "indexable key ?t" using ot_ok_indexable [OF t] d by (simp add: indexable_def)
  note r = reindex_spec [OF this]
  show "ot_ok key (ot_sort std_sort key lt t)" "mset (ot_items (ot_sort std_sort key lt t)) = mset (ot_items t)"
    using r m by (simp_all add: ot_sort_def)
qed

section \<open>Maps\<close>

lemma om_at_spec:
  assumes t: "ot_ok fst t"
  shows "om_at k t = map_of (ot_items t) k"
proof (cases "ot_contains k t")
  case False
  then have "map_of (ot_items t) k = None" using contains_iff(1) [OF t, of k] by (simp add: map_of_eq_None_iff)
  then show ?thesis using False by (simp add: om_at_def)
next
  case True
  then obtain i where i: "key2id t k = Some i" using contains_iff(2) [OF t] by blast
  obtain v where v: "ot_data t ! i = Some (k, v)" using ot_okD(3) [OF t i] by auto
  have "(k, v) \<in> set (ot_items t)" using v ot_okD(2) [OF t i] by (auto simp: items_iff)
  then have "map_of (ot_items t) k = Some v" using distinct_keys [OF t] by (simp add: map_of_eq_Some_iff)
  then show ?thesis using True i v by (simp add: om_at_def)
qed

definition set_value :: "'k \<Rightarrow> 'v \<Rightarrow> ('k \<times> 'v) list \<Rightarrow> ('k \<times> 'v) list" where
  "set_value k v kvs = map (\<lambda>(k', w). (k', if k' = k then v else w)) kvs"

lemma set_value_props: "map fst (set_value k v kvs) = map fst kvs" "length (set_value k v kvs) = length kvs"
  "map_of (set_value k v kvs) = (if k \<in> fst ` set kvs then (map_of kvs)(k \<mapsto> v) else map_of kvs)"
proof -
  show "map fst (set_value k v kvs) = map fst kvs" "length (set_value k v kvs) = length kvs"
    by (auto simp: set_value_def)
  show "map_of (set_value k v kvs) = (if k \<in> fst ` set kvs then (map_of kvs)(k \<mapsto> v) else map_of kvs)"
    by (induction kvs) (auto simp: set_value_def fun_eq_iff)
qed

lemma set_value_items:
  assumes "i < length xs" "xs ! i = Some (k, u)" "distinct (map fst (map the (filter (\<lambda>x. x \<noteq> None) xs)))"
  shows "map the (filter (\<lambda>x. x \<noteq> None) (xs[i := Some (k, v)])) = set_value k v (map the (filter (\<lambda>x. x \<noteq> None) xs))"
  using assms
proof (induction xs arbitrary: i)
  case (Cons x xs)
  have same: "set_value k v ws = ws" if "k \<notin> fst ` set ws" for ws
    using that by (induction ws) (auto simp: set_value_def)
  show ?case
  proof (cases i)
    case 0
    then have x: "x = Some (k, u)" using Cons.prems by simp
    have "map the (filter (\<lambda>x. x \<noteq> None) (x # xs)) = (k, u) # map the (filter (\<lambda>x. x \<noteq> None) xs)" by (simp add: x)
    then have "k \<notin> fst ` set (map the (filter (\<lambda>x. x \<noteq> None) xs))" using Cons.prems(3) unfolding set_map [symmetric] by simp
    from same [OF this] show ?thesis using 0 x by (simp add: set_value_def)
  next
    case (Suc j)
    have d: "distinct (map fst (map the (filter (\<lambda>x. x \<noteq> None) xs)))" using Cons.prems(3) by (cases x) auto
    have "(k, u) \<in> set (map the (filter (\<lambda>x. x \<noteq> None) xs))" using Cons.prems(1,2) Suc by (force simp: in_set_conv_nth)
    then have "x = Some (k', w) \<Longrightarrow> k' \<noteq> k" for k' w using Cons.prems(3) by (auto simp: image_iff)
    then show ?thesis using Suc Cons.prems(1,2) Cons.IH [OF _ _ d, of j] by (cases x) (auto simp: set_value_def)
  qed
qed simp

lemma om_set_spec:
  assumes t: "ot_ok fst t" and i: "key2id t k = Some i"
  shows "ot_ok fst (om_set i v t)" "ot_items (om_set i v t) = set_value k v (ot_items t)"
proof -
  obtain u where u: "ot_data t ! i = Some (k, u)" using ot_okD(3) [OF t i] by auto
  note il = ot_okD(2) [OF t i]
  have e: "om_set i v t = t\<lparr>ot_data := (ot_data t)[i := Some (k, v)]\<rparr>" by (simp add: om_set_def u)
  show items: "ot_items (om_set i v t) = set_value k v (ot_items t)"
    using set_value_items [OF il u] distinct_keys [OF t] by (simp add: e ot_items_def)
  show "ot_ok fst (om_set i v t)"
    unfolding ot_ok_def
  proof (intro conjI allI)
    show "ot_size (om_set i v t) = length (ot_items (om_set i v t))"
      unfolding items set_value_props using ot_okD(1) [OF t] by (simp add: e)
    fix k' j
    show "key2id (om_set i v t) k' = Some j \<longleftrightarrow>
        j < length (ot_data (om_set i v t)) \<and> (\<exists>w. ot_data (om_set i v t) ! j = Some w \<and> fst w = k')"
      using t u il by (cases "j = i") (auto simp: e ot_ok_def)
  qed
qed

theorem om_assign_spec:
  assumes t: "ot_ok fst t"
  shows "ot_ok fst (om_assign dflt k v t)" "map_of (ot_items (om_assign dflt k v t)) = (map_of (ot_items t))(k \<mapsto> v)"
    "map fst (ot_items (om_assign dflt k v t)) = map fst (ot_items t) @ (if k \<in> fst ` set (ot_items t) then [] else [k])"
proof -
  let ?t = "if \<not> ot_contains k t then fst (ot_emplace fst (k, dflt) t) else t"
  note em = ot_emplace_spec [OF t, of "(k, dflt)"]
  have ok: "ot_ok fst ?t" using em t by simp
  have items: "ot_items ?t = ot_items t @ (if k \<in> fst ` set (ot_items t) then [] else [(k, dflt)])"
    using em contains_iff(1) [OF t, of k] by auto
  have "k \<in> fst ` set (ot_items ?t)" unfolding items by auto
  then have "key2id ?t k \<noteq> None" using contains_iff [OF ok] by blast
  then obtain i where i: "key2id ?t k = Some i" by auto
  note s = om_set_spec [OF ok i, of v]
  have e: "om_assign dflt k v t = om_set i v ?t" using i by (simp add: om_assign_def Let_def)
  show "ot_ok fst (om_assign dflt k v t)" unfolding e by (rule s(1))
  show "map_of (ot_items (om_assign dflt k v t)) = (map_of (ot_items t))(k \<mapsto> v)"
    unfolding e s(2) set_value_props(3) items by (auto simp: map_add_def fun_eq_iff split: option.splits)
  show "map fst (ot_items (om_assign dflt k v t)) = map fst (ot_items t) @ (if k \<in> fst ` set (ot_items t) then [] else [k])"
    unfolding e s(2) set_value_props(1) items by simp
qed

lemma om_try_emplace_spec:
  assumes t: "ot_ok fst t"
  shows "ot_ok fst (fst (om_try_emplace k v t))"
    "ot_items (fst (om_try_emplace k v t)) = (if k \<in> fst ` set (ot_items t) then ot_items t else ot_items t @ [(k, v)])"
    "snd (om_try_emplace k v t) \<longleftrightarrow> k \<notin> fst ` set (ot_items t)"
proof -
  have f: "ot_find k t \<noteq> None \<longleftrightarrow> k \<in> fst ` set (ot_items t)" "ot_contains k t \<longleftrightarrow> k \<in> fst ` set (ot_items t)"
    using contains_iff [OF t, of k] by (auto simp: ot_find_def)
  have p: "\<not> ot_contains (fst (k, v)) t \<longleftrightarrow> k \<notin> fst ` set (ot_items t)" by (simp add: f(2))
  have e: "fst (om_try_emplace k v t) = (if k \<in> fst ` set (ot_items t) then t
      else t\<lparr>ot_data := ot_data t @ [Some (k, v)], key2id := (key2id t)(fst (k, v) \<mapsto> length (ot_data t)), ot_size := ot_size t + 1\<rparr>)"
    unfolding om_try_emplace_def f(1) by simp
  show "ot_ok fst (fst (om_try_emplace k v t))"
    "ot_items (fst (om_try_emplace k v t)) = (if k \<in> fst ` set (ot_items t) then ot_items t else ot_items t @ [(k, v)])"
    unfolding e using ot_append_spec [OF t, of "(k, v)", unfolded p] t by auto
  show "snd (om_try_emplace k v t) \<longleftrightarrow> k \<notin> fst ` set (ot_items t)" unfolding om_try_emplace_def f(1) by simp
qed

theorem om_insert_or_assign_spec:
  assumes t: "ot_ok fst t"
  shows "ot_ok fst (fst (om_insert_or_assign k v t))"
    "map_of (ot_items (fst (om_insert_or_assign k v t))) = (map_of (ot_items t))(k \<mapsto> v)"
    "snd (om_insert_or_assign k v t) \<longleftrightarrow> k \<notin> fst ` set (ot_items t)"
proof -
  note em = om_try_emplace_spec [OF t, of k v]
  show snd: "snd (om_insert_or_assign k v t) \<longleftrightarrow> k \<notin> fst ` set (ot_items t)"
    using em(3) by (simp add: om_insert_or_assign_def split_beta)
  have "ot_ok fst (fst (om_insert_or_assign k v t)) \<and> map_of (ot_items (fst (om_insert_or_assign k v t))) = (map_of (ot_items t))(k \<mapsto> v)"
  proof (cases "k \<in> fst ` set (ot_items t)")
    case True
    have t1: "fst (om_try_emplace k v t) = t" using True contains_iff [OF t, of k] by (auto simp: om_try_emplace_def ot_find_def)
    obtain i where i: "key2id t k = Some i" using True contains_iff [OF t, of k] by blast
    have "fst (om_insert_or_assign k v t) = om_set i v t"
      using True em(3) i contains_iff(1) [OF t, of k] by (simp add: om_insert_or_assign_def split_beta t1 ot_find_def)
    then show ?thesis using om_set_spec [OF t i, of v] True by (simp add: set_value_props)
  next
    case False
    then have "map_of (ot_items t) k = None" by (simp add: map_of_eq_None_iff)
    then show ?thesis using False em
      by (auto simp: om_insert_or_assign_def split_beta map_add_def fun_eq_iff split: option.splits)
  qed
  then show "ot_ok fst (fst (om_insert_or_assign k v t))"
    "map_of (ot_items (fst (om_insert_or_assign k v t))) = (map_of (ot_items t))(k \<mapsto> v)" by simp_all
qed

section \<open>Two flaws\<close>

text \<open>The comparison asks for one common key only, and two empty tables are different.\<close>

lemma ot_equal_wrong:
  "ot_equal id (fst (ot_emplace id 2 (fst (ot_emplace id (1 :: nat) ot_empty)))) (fst (ot_emplace id 3 (fst (ot_emplace id 1 ot_empty))))"
  "\<not> ot_equal id (ot_empty :: (nat, nat) otable) ot_empty"
  by (simp_all add: ot_equal_def ot_emplace_def ot_empty_def ot_items_def ot_contains_def Let_def)

text \<open>A list with a repeated key gives a table that is not well-formed.\<close>

lemma ot_of_list_duplicates: "\<not> ot_ok fst (ot_of_list fst [(1 :: nat, v), (1, w)])"
proof
  assume "ot_ok fst (ot_of_list fst [(1 :: nat, v), (1, w)])"
  from distinct_keys [OF this] show False
    by (simp add: ot_of_list_def ot_empty_def ot_items_def)
qed

theorem ot_of_list_spec:
  assumes "distinct (map key vs)"
  shows "ot_ok key (ot_of_list key vs)" "ot_items (ot_of_list key vs) = vs"
proof -
  let ?f = "\<lambda>v t. t\<lparr>ot_data := ot_data t @ [Some v],
                            key2id := (if key2id t (key v) = None then (key2id t)(key v \<mapsto> length (ot_data t)) else key2id t)\<rparr>"
  have "ot_ok key ((fold ?f ws ot_empty)\<lparr>ot_size := length ws\<rparr>) \<and> ot_items (fold ?f ws ot_empty) = ws" if "distinct (map key ws)" for ws
    using that
  proof (induction ws rule: rev_induct)
    case Nil
    show ?case by (simp add: ot_ok_def ot_empty_def ot_items_def)
  next
    case (snoc v ws)
    let ?t = "(fold ?f ws ot_empty)\<lparr>ot_size := length ws\<rparr>"
    have t: "ot_ok key ?t" "ot_items ?t = ws" using snoc by (auto simp: ot_items_def)
    have k: "\<not> ot_contains (key v) ?t" using contains_iff(1) [OF t(1)] t(2) snoc.prems by auto
    then have "key2id ?t (key v) = None" using contains_iff(2) [OF t(1)] by blast
    then show ?case using ot_append_spec [OF t(1) k] t(2) by (simp add: ot_items_def)
  qed
  from this [OF assms] show "ot_ok key (ot_of_list key vs)" "ot_items (ot_of_list key vs) = vs"
    by (simp_all add: ot_of_list_def ot_items_def)
qed

end
