(* ===== verification/Device.thy ===== *)
theory Device
  imports Operations "HOL-Library.Word"
begin

text \<open>
  The device a circuit is mapped to (src/src/device/device.hpp, device.cpp): the topology with its tables of
  distances and predecessors, the physical qubits with the logical qubit each of them holds and the fields the
  router searches with, and the operations of the router on them. A table is a list of rows. Times and costs
  are natural numbers: they stay far below \<open>2 ^ 64\<close>. The two floats of a \<open>DeviceInfo\<close> are stored and printed
  only; they are kept as bit patterns, \<open>0\<close> for \<open>0.0\<close>. All copies of a device share one topology, which no
  operation changes after \<open>calculate_path\<close>, so a device holds it by value. Assertions are off in the default
  (release) build.
\<close>

definition max_qubit_id :: nat where
  "max_qubit_id = 2 ^ 64 - 1"

definition max_dist :: nat where
  "max_dist = 100000"

section \<open>The topology\<close>

record device_info =
  di_time :: "32 word"
  di_error :: "32 word"

record topology =
  tp_name :: string
  tp_num_qubit :: nat
  tp_gate_set :: "string list"
  tp_qubit_info :: "nat \<rightharpoonup> device_info"
  tp_adjacency_info :: "nat \<times> nat \<rightharpoonup> device_info"
  tp_predecessor :: "nat list list"
  tp_distance :: "nat list list"

definition no_info :: device_info where
  "no_info = \<lparr>di_time = 0, di_error = 0\<rparr>"

definition topology_new :: topology where
  "topology_new = \<lparr>tp_name = [], tp_num_qubit = 0, tp_gate_set = [], tp_qubit_info = Map.empty, tp_adjacency_info = Map.empty,
     tp_predecessor = [], tp_distance = []\<rparr>"

text \<open>\<open>operator[]\<close> of a map inserts a default value for a key it does not hold.\<close>

definition get_adjacency_pair_info :: "nat \<Rightarrow> nat \<Rightarrow> topology \<Rightarrow> device_info \<times> topology" where
  "get_adjacency_pair_info a b t =
     (let key = (if a > b then (b, a) else (a, b)) in
      case tp_adjacency_info t key of Some info \<Rightarrow> (info, t)
      | None \<Rightarrow> (no_info, t\<lparr>tp_adjacency_info := (tp_adjacency_info t)(key \<mapsto> no_info)\<rparr>))"

definition get_qubit_info :: "nat \<Rightarrow> topology \<Rightarrow> device_info \<times> topology" where
  "get_qubit_info a t =
     (case tp_qubit_info t a of Some info \<Rightarrow> (info, t)
      | None \<Rightarrow> (no_info, t\<lparr>tp_qubit_info := (tp_qubit_info t)(a \<mapsto> no_info)\<rparr>))"

definition add_adjacency_info :: "nat \<Rightarrow> nat \<Rightarrow> device_info \<Rightarrow> topology \<Rightarrow> topology" where
  "add_adjacency_info a b info t =
     (let key = (if a > b then (b, a) else (a, b)) in
      t\<lparr>tp_adjacency_info := (tp_adjacency_info t)(key \<mapsto> info)\<rparr>)"

definition add_qubit_info :: "nat \<Rightarrow> device_info \<Rightarrow> topology \<Rightarrow> topology" where
  "add_qubit_info a info t = t\<lparr>tp_qubit_info := (tp_qubit_info t)(a \<mapsto> info)\<rparr>"

definition get_predecessor :: "nat \<Rightarrow> nat \<Rightarrow> topology \<Rightarrow> nat option" where
  "get_predecessor dest src t =
     (if dest < length (tp_predecessor t) \<and> src < length (tp_predecessor t ! dest) then Some (tp_predecessor t ! dest ! src) else None)"

section \<open>Physical qubits\<close>

record phys_qubit =
  pq_id :: nat
  pq_adjacencies :: "nat list"
  pq_logical :: "nat option"
  pq_occupied :: nat
  pq_marked :: bool
  pq_pred :: nat
  pq_cost :: nat
  pq_swap_time :: nat
  pq_source :: bool
  pq_taken :: bool

definition phys_qubit_new :: "nat \<Rightarrow> phys_qubit" where
  "phys_qubit_new i = \<lparr>pq_id = i, pq_adjacencies = [], pq_logical = None, pq_occupied = 0, pq_marked = False, pq_pred = 0,
     pq_cost = 0, pq_swap_time = 0, pq_source = False, pq_taken = False\<rparr>"

definition is_adjacency :: "phys_qubit \<Rightarrow> phys_qubit \<Rightarrow> bool" where
  "is_adjacency q pq \<longleftrightarrow> pq_id pq \<in> set (pq_adjacencies q)"

definition pq_mark :: "bool \<Rightarrow> nat \<Rightarrow> phys_qubit \<Rightarrow> phys_qubit" where
  "pq_mark source pred q = q\<lparr>pq_marked := True, pq_source := source, pq_pred := pred\<rparr>"

definition take_route :: "nat \<Rightarrow> nat \<Rightarrow> phys_qubit \<Rightarrow> phys_qubit" where
  "take_route cost swap_time q = q\<lparr>pq_cost := cost, pq_swap_time := swap_time, pq_taken := True\<rparr>"

definition pq_reset :: "phys_qubit \<Rightarrow> phys_qubit" where
  "pq_reset q = q\<lparr>pq_marked := False, pq_taken := False, pq_cost := pq_occupied q\<rparr>"

section \<open>The device\<close>

record device =
  dv_num_qubit :: nat
  dv_topology :: topology
  dv_qubits :: "phys_qubit list"

abbreviation phys :: "device \<Rightarrow> nat \<Rightarrow> phys_qubit" where
  "phys d i \<equiv> dv_qubits d ! i"

definition upd_qubit :: "nat \<Rightarrow> (phys_qubit \<Rightarrow> phys_qubit) \<Rightarrow> device \<Rightarrow> device" where
  "upd_qubit i f d = d\<lparr>dv_qubits := (dv_qubits d)[i := f (phys d i)]\<rparr>"

definition get_delay :: "gate \<Rightarrow> nat" where
  "get_delay g =
     (if get_type (fst g) = ''swap'' then 6
      else if length (snd g) = 1 then 1
      else if length (snd g) = 2 then 2
      else 5)"

text \<open>The call reads behind the tables when there is no path (the predecessor is \<open>max_qubit_id\<close>): \<open>None\<close>.\<close>

definition get_next_swap_cost :: "nat \<Rightarrow> nat \<Rightarrow> device \<Rightarrow> (nat \<times> nat) option" where
  "get_next_swap_cost source target d =
     (case get_predecessor target source (dv_topology d) of None \<Rightarrow> None
      | Some next_idx \<Rightarrow>
          if source < length (dv_qubits d) \<and> next_idx < length (dv_qubits d)
          then Some (next_idx, max (pq_occupied (phys d source)) (pq_occupied (phys d next_idx)))
          else None)"

definition get_physical_by_logical :: "nat \<Rightarrow> device \<Rightarrow> nat" where
  "get_physical_by_logical i d =
     (case find (\<lambda>q. pq_logical q = Some i) (dv_qubits d) of Some q \<Rightarrow> pq_id q | None \<Rightarrow> max_qubit_id)"

definition add_adjacency :: "nat \<Rightarrow> nat \<Rightarrow> device \<Rightarrow> device" where
  "add_adjacency x y d =
     (let (a, b) = (if x > y then (y, x) else (x, y));
          d = upd_qubit a (\<lambda>q. q\<lparr>pq_adjacencies := pq_adjacencies q @ [pq_id (phys d b)]\<rparr>) d;
          d = upd_qubit b (\<lambda>q. q\<lparr>pq_adjacencies := pq_adjacencies q @ [pq_id (phys d a)]\<rparr>) d in
      d\<lparr>dv_topology := add_adjacency_info a b no_info (dv_topology d)\<rparr>)"

definition set_occupied :: "nat \<Rightarrow> phys_qubit \<Rightarrow> phys_qubit" where
  "set_occupied t q = q\<lparr>pq_occupied := t\<rparr>"

definition set_logical :: "nat option \<Rightarrow> phys_qubit \<Rightarrow> phys_qubit" where
  "set_logical l q = q\<lparr>pq_logical := l\<rparr>"

definition apply_gate :: "gate \<Rightarrow> nat \<Rightarrow> device \<Rightarrow> device" where
  "apply_gate g time_begin d =
     (let q0 = snd g ! 0; q1 = snd g ! 1; t = time_begin + get_delay g in
      if operation_eq (fst g) SwapGate then
        let temp = pq_logical (phys d q0);
            d = upd_qubit q0 (set_logical (pq_logical (phys d q1))) d;
            d = upd_qubit q1 (set_logical temp) d in
        upd_qubit q1 (set_occupied t) (upd_qubit q0 (set_occupied t) d)
      else if length (snd g) = 2 then upd_qubit q1 (set_occupied t) (upd_qubit q0 (set_occupied t) d)
      else d)"

definition mapping :: "device \<Rightarrow> nat option list" where
  "mapping d = map pq_logical (dv_qubits d)"

definition place :: "nat list \<Rightarrow> device \<Rightarrow> device" where
  "place assignment d = fold (\<lambda>i. upd_qubit (assignment ! i) (set_logical (Some i))) [0..<length assignment] d"

section \<open>All pairs of shortest paths\<close>

abbreviation cell :: "'a list list \<Rightarrow> nat \<Rightarrow> nat \<Rightarrow> 'a" where
  "cell m i j \<equiv> m ! i ! j"

definition set_entry :: "nat \<Rightarrow> nat \<Rightarrow> 'a \<Rightarrow> 'a list list \<Rightarrow> 'a list list" where
  "set_entry i j x m = m[i := (m ! i)[j := x]]"

text \<open>\<open>std::vector::resize\<close> with a value for the new elements.\<close>

definition resize_list :: "nat \<Rightarrow> 'a \<Rightarrow> 'a list \<Rightarrow> 'a list" where
  "resize_list n x xs = take n xs @ replicate (n - length xs) x"

definition resize_to_num_qubit :: "topology \<Rightarrow> topology" where
  "resize_to_num_qubit t =
     (let n = tp_num_qubit t in
      t\<lparr>tp_distance := map (resize_list n 0) (resize_list n [] (tp_distance t)),
        tp_predecessor := map (resize_list n max_qubit_id) (resize_list n [] (tp_predecessor t))\<rparr>)"

definition init_entry :: "nat list list \<Rightarrow> phys_qubit list \<Rightarrow> nat \<Rightarrow> nat \<Rightarrow> topology \<Rightarrow> topology" where
  "init_entry adjacency_matrix qubit_list i j t =
     (let t = t\<lparr>tp_distance := set_entry i j (cell adjacency_matrix i j) (tp_distance t)\<rparr> in
      if cell (tp_distance t) i j \<noteq> 0 \<and> cell (tp_distance t) i j \<noteq> max_dist
      then t\<lparr>tp_predecessor := set_entry i j (pq_id (qubit_list ! i)) (tp_predecessor t)\<rparr> else t)"

definition for_entries :: "nat \<Rightarrow> (nat \<Rightarrow> nat \<Rightarrow> 's \<Rightarrow> 's) \<Rightarrow> 's \<Rightarrow> 's" where
  "for_entries n f = fold (\<lambda>i. fold (f i) [0..<n]) [0..<n]"

definition init_predecessor_and_distance :: "nat list list \<Rightarrow> phys_qubit list \<Rightarrow> topology \<Rightarrow> topology" where
  "init_predecessor_and_distance adjacency_matrix qubit_list t =
     for_entries (tp_num_qubit t) (init_entry adjacency_matrix qubit_list) (resize_to_num_qubit t)"

definition set_weight :: "nat \<Rightarrow> phys_qubit list \<Rightarrow> nat list list \<Rightarrow> nat list list" where
  "set_weight n qubit_list m = fold (\<lambda>i. fold (\<lambda>adj. set_entry i adj 1) (pq_adjacencies (qubit_list ! i))) [0..<n] m"

definition relax_entry :: "nat \<Rightarrow> nat \<Rightarrow> nat \<Rightarrow> topology \<Rightarrow> topology" where
  "relax_entry k i j t =
     (let d = tp_distance t in
      if cell d i j > cell d i k + cell d k j \<and> cell d i k \<noteq> max_dist
      then t\<lparr>tp_distance := set_entry i j (cell d i k + cell d k j) d,
             tp_predecessor := set_entry i j (cell (tp_predecessor t) k j) (tp_predecessor t)\<rparr>
      else t)"

definition floyd_warshall :: "nat list list \<Rightarrow> phys_qubit list \<Rightarrow> topology \<Rightarrow> topology" where
  "floyd_warshall adjacency_matrix qubit_list t =
     (let n = tp_num_qubit t;
          adjacency_matrix = set_weight n qubit_list adjacency_matrix in
      fold (\<lambda>k. for_entries n (relax_entry k)) [0..<n] (init_predecessor_and_distance adjacency_matrix qubit_list t))"

definition calculate_path :: "device \<Rightarrow> device" where
  "calculate_path d =
     (let n = dv_num_qubit d;
          t = (dv_topology d)\<lparr>tp_predecessor := [], tp_distance := []\<rparr>;
          adjacency_matrix = map (\<lambda>i. (replicate n max_dist)[i := 0]) [0..<n] in
      d\<lparr>dv_topology := floyd_warshall adjacency_matrix (dv_qubits d) t\<rparr>)"

text \<open>The loop of \<open>get_path\<close> may not end or read behind the tables; the value is then \<open>None\<close>.\<close>

partial_function (option) path_tail :: "device \<Rightarrow> nat \<Rightarrow> nat \<Rightarrow> phys_qubit list option" where
  "path_tail d dest new_pred =
     (case get_predecessor dest new_pred (dv_topology d) of None \<Rightarrow> None
      | Some p \<Rightarrow> if p = max_qubit_id then Some []
                  else if p < length (dv_qubits d)
                  then Option.bind (path_tail d dest p) (\<lambda>path. Some (phys d p # path))
                  else None)"

definition get_path :: "nat \<Rightarrow> nat \<Rightarrow> device \<Rightarrow> phys_qubit list option" where
  "get_path src dest d =
     (if length (dv_qubits d) \<le> src then None
      else if src = dest then Some [phys d src]
      else (case get_predecessor dest src (dv_topology d) of None \<Rightarrow> None
            | Some new_pred \<Rightarrow> map_option (\<lambda>path. phys d src # phys_qubit_new new_pred # path) (path_tail d dest new_pred)))"

section \<open>Building a device\<close>

text \<open>The last part of \<open>read_device\<close>: the lists read from the file are stored, an edge with the qubit of the smaller number.\<close>

definition store_edges :: "nat \<Rightarrow> nat list list \<Rightarrow> 32 word list list \<Rightarrow> 32 word list list \<Rightarrow> device \<Rightarrow> device" where
  "store_edges i adj_list cx_delay cx_err d =
     fold (\<lambda>j d. let adj = cell adj_list i j in
              if adj > i then
                let d = add_adjacency i adj d in
                d\<lparr>dv_topology := add_adjacency_info i adj \<lparr>di_time = cell cx_delay i j, di_error = cell cx_err i j\<rparr> (dv_topology d)\<rparr>
              else d)
       [0..<length (adj_list ! i)] d"

definition store_device ::
  "string \<Rightarrow> nat \<Rightarrow> string list \<Rightarrow> nat list list \<Rightarrow> 32 word list list \<Rightarrow> 32 word list list \<Rightarrow> 32 word list \<Rightarrow> 32 word list \<Rightarrow> device" where
  "store_device name n gate_set adj_list cx_delay cx_err sg_delay sg_err =
     (let t = topology_new\<lparr>tp_name := name, tp_num_qubit := n, tp_gate_set := gate_set\<rparr>;
          d = \<lparr>dv_num_qubit = n, dv_topology = t, dv_qubits = map phys_qubit_new [0..<length adj_list]\<rparr>;
          d = fold (\<lambda>i. store_edges i adj_list cx_delay cx_err) [0..<length adj_list] d;
          d = fold (\<lambda>i d. d\<lparr>dv_topology := add_qubit_info i \<lparr>di_time = sg_delay ! i, di_error = sg_err ! i\<rparr> (dv_topology d)\<rparr>)
                [0..<length sg_err] d in
      calculate_path d)"

end
