(* ===== verification/DevicePaths.thy ===== *)
theory DevicePaths
  imports Device
begin

text \<open>
  The algorithm of Floyd and Warshall on tables as functions: the invariant of its phases. After the phase of \<open>k\<close>
  a path is recorded for each pair that is connected through vertices up to \<open>k\<close>. The tables keep the length of a
  recorded path and its last vertex but one. The paths from one vertex form a tree, so following the table of
  predecessors gives the recorded path; and a path is recorded in both directions alike.
\<close>

definition graph_ok :: "nat \<Rightarrow> (nat \<times> nat) set \<Rightarrow> bool" where
  "graph_ok n E \<longleftrightarrow> E \<subseteq> {..<n} \<times> {..<n} \<and> sym E \<and> irrefl E"

abbreviation along :: "(nat \<times> nat) set \<Rightarrow> nat list \<Rightarrow> bool" where
  "along E \<equiv> successively (\<lambda>x y. (x, y) \<in> E)"

type_synonym table = "nat \<Rightarrow> nat \<Rightarrow> nat"

definition path_recorded :: "(nat \<times> nat) set \<Rightarrow> table \<Rightarrow> (nat \<Rightarrow> nat \<Rightarrow> nat list) \<Rightarrow> nat \<Rightarrow> nat \<Rightarrow> bool" where
  "path_recorded E D R i j \<longleftrightarrow>
     R i j \<noteq> [] \<and> hd (R i j) = i \<and> last (R i j) = j \<and> length (R i j) = Suc (D i j) \<and> along E (R i j) \<and> R j i = rev (R i j)"

definition last_step :: "nat \<Rightarrow> (nat \<times> nat) set \<Rightarrow> nat \<Rightarrow> table \<Rightarrow> table \<Rightarrow> (nat \<Rightarrow> nat \<Rightarrow> nat list) \<Rightarrow> nat \<Rightarrow> nat \<Rightarrow> bool" where
  "last_step n E k D P R i j \<longleftrightarrow>
     P i j < n \<and> (P i j, j) \<in> E \<and> (P i j = i \<or> P i j < k) \<and> Suc (D i (P i j)) = D i j \<and> R i j = R i (P i j) @ [j]"

definition distances_ok :: "nat \<Rightarrow> (nat \<times> nat) set \<Rightarrow> nat \<Rightarrow> table \<Rightarrow> bool" where
  "distances_ok n E k D \<longleftrightarrow>
     (\<forall>i < n. \<forall>j < n. D i j \<le> max_dist \<and> D j i = D i j \<and> (D i j = 0 \<longleftrightarrow> i = j) \<and> ((i, j) \<in> E \<longrightarrow> D i j = 1) \<and>
        (\<forall>x < k. D i j \<le> D i x + D x j))"

definition paths_ok :: "nat \<Rightarrow> (nat \<times> nat) set \<Rightarrow> nat \<Rightarrow> table \<Rightarrow> table \<Rightarrow> (nat \<Rightarrow> nat \<Rightarrow> nat list) \<Rightarrow> bool" where
  "paths_ok n E k D P R \<longleftrightarrow>
     (\<forall>i < n. R i i = [i] \<and> P i i = max_qubit_id) \<and>
     (\<forall>i < n. \<forall>j < n. if D i j < max_dist then path_recorded E D R i j \<and> (i \<noteq> j \<longrightarrow> last_step n E k D P R i j)
                     else P i j = max_qubit_id)"

definition phase_D :: "nat \<Rightarrow> table \<Rightarrow> table" where
  "phase_D k D = (\<lambda>i j. if D i j > D i k + D k j \<and> D i k \<noteq> max_dist then D i k + D k j else D i j)"

definition phase_P :: "nat \<Rightarrow> table \<Rightarrow> table \<Rightarrow> table" where
  "phase_P k D P = (\<lambda>i j. if D i j > D i k + D k j \<and> D i k \<noteq> max_dist then P k j else P i j)"

definition phase_R :: "nat \<Rightarrow> table \<Rightarrow> (nat \<Rightarrow> nat \<Rightarrow> nat list) \<Rightarrow> nat \<Rightarrow> nat \<Rightarrow> nat list" where
  "phase_R k D R = (\<lambda>i j. if D i j > D i k + D k j then R i k @ tl (R k j) else R i j)"

lemma graph_okD:
  "graph_ok n E \<Longrightarrow> (i, j) \<in> E \<Longrightarrow> i < n" "graph_ok n E \<Longrightarrow> (i, j) \<in> E \<Longrightarrow> j < n"
  "graph_ok n E \<Longrightarrow> (i, j) \<in> E \<Longrightarrow> i \<noteq> j" "graph_ok n E \<Longrightarrow> (i, j) \<in> E \<longleftrightarrow> (j, i) \<in> E"
  by (auto simp: graph_ok_def irrefl_def dest: symD)

lemma distances_okD:
  assumes "distances_ok n E k D" "i < n" "j < n"
  shows "D i j \<le> max_dist" "D j i = D i j" "D i j = 0 \<longleftrightarrow> i = j" "(i, j) \<in> E \<Longrightarrow> D i j = 1" "x < k \<Longrightarrow> D i j \<le> D i x + D x j"
  using assms by (auto simp: distances_ok_def)

lemma paths_okD:
  assumes "paths_ok n E k D P R" "i < n" "j < n"
  shows "R i i = [i]" "P i i = max_qubit_id" "D i j < max_dist \<Longrightarrow> path_recorded E D R i j"
    "D i j < max_dist \<Longrightarrow> i \<noteq> j \<Longrightarrow> last_step n E k D P R i j" "\<not> D i j < max_dist \<Longrightarrow> P i j = max_qubit_id"
  using assms by (auto simp: paths_ok_def split: if_splits)

section \<open>A phase\<close>

lemma phase_D_min:
  assumes "distances_ok n E k D" "i < n" "j < n" "k < n"
  shows "phase_D k D i j = min (D i j) (D i k + D k j)"
  using distances_okD(1) [OF assms(1,2,3)] by (auto simp: phase_D_def)

lemma phase_distances:
  assumes d: "distances_ok n E k D" and k: "k < n"
  shows "distances_ok n E (Suc k) (phase_D k D)"
  unfolding distances_ok_def
proof (intro allI impI conjI)
  fix i j assume ij: "i < n" "j < n"
  note m = phase_D_min [OF d _ _ k]
  note dd = distances_okD [OF d]
  show "phase_D k D i j \<le> max_dist" using dd(1) [OF ij] m [OF ij] by simp
  show "phase_D k D j i = phase_D k D i j" using dd(2) [OF ij] dd(2) [OF ij(1) k] dd(2) [OF k ij(2)] by (simp add: m ij)
  show "phase_D k D i j = 0 \<longleftrightarrow> i = j" using dd(3) [OF ij] dd(3) [OF ij(1) k] dd(3) [OF k ij(2)] by (auto simp: m ij min_def)
  show "phase_D k D i j = 1" if "(i, j) \<in> E"
    using dd(4) [OF ij that] dd(3) [OF ij] dd(3) [OF ij(1) k] dd(3) [OF k ij(2)] by (auto simp: m ij min_def)
  fix x assume x: "x < Suc k"
  have kk: "D k k = 0" using dd(3) [OF k k] by simp
  show "phase_D k D i j \<le> phase_D k D i x + phase_D k D x j"
  proof (cases "x = k")
    case True
    then show ?thesis by (simp add: m ij k kk)
  next
    case False
    then have x: "x < k" "x < n" using x k by auto
    have "D i j \<le> D i x + D x j" "D i k \<le> D i x + D x k" "D k j \<le> D k x + D x j"
      using dd(5) [OF ij x(1)] dd(5) [OF ij(1) k x(1)] dd(5) [OF k ij(2) x(1)] .
    then show ?thesis by (simp add: m ij x min_def)
  qed
qed

lemma rev_join: "xs \<noteq> [] \<Longrightarrow> ys \<noteq> [] \<Longrightarrow> last xs = hd ys \<Longrightarrow> rev (xs @ tl ys) = rev ys @ tl (rev xs)"
  by (cases xs rule: rev_cases; cases ys) auto

lemma along_join: "xs \<noteq> [] \<Longrightarrow> ys \<noteq> [] \<Longrightarrow> last xs = hd ys \<Longrightarrow> along E xs \<Longrightarrow> along E ys \<Longrightarrow> along E (xs @ tl ys)"
  by (cases ys) (auto simp: successively_append_iff successively_Cons)

lemma phase_recorded:
  assumes d: "distances_ok n E k D" and p: "paths_ok n E k D P R" and k: "k < n" and ij: "i < n" "j < n"
    and fin: "phase_D k D i j < max_dist"
  shows "path_recorded E (phase_D k D) (phase_R k D R) i j"
proof (cases "D i j > D i k + D k j")
  case True
  note dd = distances_okD [OF d]
  have fin: "D i k < max_dist" "D k j < max_dist" using True dd(1) [OF ij] by auto
  have r: "path_recorded E D R i k" "path_recorded E D R k j"
    using paths_okD(3) [OF p ij(1) k fin(1)] paths_okD(3) [OF p k ij(2) fin(2)] .
  have R: "phase_R k D R i j = R i k @ tl (R k j)" using True by (simp add: phase_R_def)
  have "D j i > D j k + D k i" using True dd(2) [OF ij] dd(2) [OF ij(1) k] dd(2) [OF k ij(2)] by simp
  then have R': "phase_R k D R j i = R j k @ tl (R k i)" by (simp add: phase_R_def)
  have "phase_D k D i j = D i k + D k j" using True fin by (simp add: phase_D_def)
  moreover have "last (R i k @ tl (R k j)) = j"
    using r by (cases "R k j") (auto simp: path_recorded_def)
  ultimately show ?thesis
    using r rev_join [of "R i k" "R k j"] along_join [of "R i k" "R k j" E]
    by (auto simp: path_recorded_def R R')
next
  case False
  then have "phase_D k D i j = D i j" "phase_R k D R i j = R i j" by (auto simp: phase_D_def phase_R_def)
  moreover have "phase_R k D R j i = R j i"
    using False distances_okD(2) [OF d ij] distances_okD(2) [OF d ij(1) k] distances_okD(2) [OF d k ij(2)] by (simp add: phase_R_def)
  ultimately show ?thesis using paths_okD(3) [OF p ij] fin by (simp add: path_recorded_def)
qed

lemma phase_last_step:
  assumes g: "graph_ok n E" and d: "distances_ok n E k D" and p: "paths_ok n E k D P R" and k: "k < n" and ij: "i < n" "j < n" "i \<noteq> j"
    and fin: "phase_D k D i j < max_dist"
  shows "last_step n E (Suc k) (phase_D k D) (phase_P k D P) (phase_R k D R) i j"
proof (cases "D i j > D i k + D k j")
  case True
  note dd = distances_okD [OF d]
  have fin: "D i k < max_dist" "D k j < max_dist" using True dd(1) [OF ij(1,2)] by auto
  have "k \<noteq> j" using True dd(3) [OF k k] by auto
  then have ls: "last_step n E k D P R k j" using paths_okD(4) [OF p k ij(2) fin(2)] by simp
  let ?x = "P k j"
  have x: "?x < n" "(?x, j) \<in> E" "?x = k \<or> ?x < k" "Suc (D k ?x) = D k j" "R k j = R k ?x @ [j]"
    using ls by (auto simp: last_step_def)
  have new: "phase_P k D P i j = ?x" "phase_D k D i j = D i k + D k j" "phase_R k D R i j = R i k @ tl (R k j)"
    using True fin by (auto simp: phase_P_def phase_D_def phase_R_def)
  have "D k ?x < max_dist" using x(4) fin(2) by simp
  then have ne: "R k ?x \<noteq> []" using paths_okD(3) [OF p k x(1)] by (simp add: path_recorded_def)
  have "phase_D k D i ?x = D i k + D k ?x \<and> phase_R k D R i ?x = R i k @ tl (R k ?x)"
  proof (cases "?x = k")
    case True
    then show ?thesis using dd(3) [OF k k] paths_okD(1) [OF p k k] by (simp add: phase_D_def phase_R_def)
  next
    case False
    then have "D i j \<le> D i ?x + D ?x j" using dd(5) [OF ij(1,2)] x(3) by auto
    then have "D i ?x > D i k + D k ?x" using dd(4) [OF x(1) ij(2) x(2)] True x(4) by simp
    then show ?thesis using fin by (simp add: phase_D_def phase_R_def)
  qed
  then show ?thesis unfolding last_step_def new using x ne by auto
next
  case False
  note dd = distances_okD [OF d]
  have new: "phase_D k D i j = D i j" "phase_R k D R i j = R i j" "phase_P k D P i j = P i j"
    using False by (auto simp: phase_D_def phase_R_def phase_P_def)
  let ?x = "P i j"
  have x: "?x < n" "(?x, j) \<in> E" "?x = i \<or> ?x < k" "Suc (D i ?x) = D i j" "R i j = R i ?x @ [j]"
    using paths_okD(4) [OF p ij(1,2) _ ij(3)] fin by (auto simp: last_step_def new)
  have "\<not> D i ?x > D i k + D k ?x"
  proof (cases "?x = i")
    case True
    then show ?thesis using dd(3) [OF ij(1) ij(1)] by simp
  next
    case False
    then have "D k j \<le> D k ?x + D ?x j" using dd(5) [OF k ij(2)] x(3) by auto
    then have "D k j \<le> Suc (D k ?x)" using dd(4) [OF x(1) ij(2) x(2)] by simp
    then show ?thesis using \<open>\<not> D i j > D i k + D k j\<close> x(4) by simp
  qed
  then have "phase_D k D i ?x = D i ?x" "phase_R k D R i ?x = R i ?x" by (auto simp: phase_D_def phase_R_def)
  then show ?thesis unfolding last_step_def new using x by auto
qed

lemma phase_paths:
  assumes g: "graph_ok n E" and d: "distances_ok n E k D" and p: "paths_ok n E k D P R" and k: "k < n"
  shows "paths_ok n E (Suc k) (phase_D k D) (phase_P k D P) (phase_R k D R)"
  unfolding paths_ok_def
proof (intro allI impI conjI)
  fix i assume i: "i < n"
  have "D i i = 0" using distances_okD(3) [OF d i i] by simp
  then show "phase_R k D R i i = [i]" "phase_P k D P i i = max_qubit_id"
    using paths_okD(1,2) [OF p i i] by (auto simp: phase_R_def phase_P_def)
next
  fix i j assume ij: "i < n" "j < n"
  have "phase_P k D P i j = max_qubit_id" if "\<not> phase_D k D i j < max_dist"
  proof -
    have "\<not> D i k + D k j < D i j" using that distances_okD(1) [OF d ij] by (auto simp: phase_D_def split: if_splits)
    moreover from this have "\<not> D i j < max_dist" using that by (simp add: phase_D_def)
    ultimately show ?thesis using paths_okD(5) [OF p ij] by (simp add: phase_P_def)
  qed
  then show "if phase_D k D i j < max_dist
      then path_recorded E (phase_D k D) (phase_R k D R) i j \<and>
        (i \<noteq> j \<longrightarrow> last_step n E (Suc k) (phase_D k D) (phase_P k D P) (phase_R k D R) i j)
      else phase_P k D P i j = max_qubit_id"
    using phase_recorded [OF d p k ij] phase_last_step [OF g d p k ij] by simp
qed

section \<open>The first and the last tables\<close>

definition init_D :: "(nat \<times> nat) set \<Rightarrow> table" where
  "init_D E = (\<lambda>i j. if i = j then 0 else if (i, j) \<in> E then 1 else max_dist)"

definition init_P :: "(nat \<times> nat) set \<Rightarrow> table" where
  "init_P E = (\<lambda>i j. if i \<noteq> j \<and> (i, j) \<in> E then i else max_qubit_id)"

lemma init_tables:
  assumes g: "graph_ok n E"
  shows "distances_ok n E 0 (init_D E)" "paths_ok n E 0 (init_D E) (init_P E) (\<lambda>i j. if i = j then [i] else [i, j])"
proof -
  show "distances_ok n E 0 (init_D E)"
    using graph_okD(3,4) [OF g] by (auto simp: distances_ok_def init_D_def max_dist_def)
  show "paths_ok n E 0 (init_D E) (init_P E) (\<lambda>i j. if i = j then [i] else [i, j])"
    unfolding paths_ok_def path_recorded_def last_step_def init_D_def init_P_def max_dist_def
    by (auto simp: graph_okD(4) [OF g])
qed

definition tables_ok :: "nat \<Rightarrow> (nat \<times> nat) set \<Rightarrow> nat \<Rightarrow> table \<Rightarrow> table \<Rightarrow> bool" where
  "tables_ok n E k D P \<longleftrightarrow> distances_ok n E k D \<and> (\<exists>R. paths_ok n E k D P R)"

lemma tables_init: "graph_ok n E \<Longrightarrow> tables_ok n E 0 (init_D E) (init_P E)"
  unfolding tables_ok_def using init_tables by blast

lemma tables_phase: "graph_ok n E \<Longrightarrow> k < n \<Longrightarrow> tables_ok n E k D P \<Longrightarrow> tables_ok n E (Suc k) (phase_D k D) (phase_P k D P)"
  using phase_distances phase_paths by (fastforce simp: tables_ok_def)

text \<open>Entries outside of the tables do not matter.\<close>

lemma tables_cong:
  assumes "tables_ok n E k D P" "\<And>i j. i < n \<Longrightarrow> j < n \<Longrightarrow> D' i j = D i j" "\<And>i j. i < n \<Longrightarrow> j < n \<Longrightarrow> P' i j = P i j" "k \<le> n"
  shows "tables_ok n E k D' P'"
proof -
  obtain R where d: "distances_ok n E k D" and p: "paths_ok n E k D P R" using assms(1) by (auto simp: tables_ok_def)
  have "distances_ok n E k D'" 
    unfolding distances_ok_def
  proof (intro allI impI conjI)
    fix i j assume ij: "i < n" "j < n"
    note dd = distances_okD [OF d ij]
    show "D' i j \<le> max_dist" "D' j i = D' i j" "D' i j = 0 \<longleftrightarrow> i = j" using dd(1-3) assms(2) ij by auto
    show "D' i j = 1" if "(i, j) \<in> E" using dd(4) that assms(2) ij by simp
    show "D' i j \<le> D' i x + D' x j" if "x < k" for x using dd(5) [OF that] that assms(2,4) ij by simp
  qed
  moreover have "paths_ok n E k D' P' R"
    using p assms(2,3) unfolding paths_ok_def path_recorded_def last_step_def by simp
  ultimately show ?thesis by (auto simp: tables_ok_def)
qed

section \<open>Distances are shortest\<close>

lemma distance_le_walk:
  assumes g: "graph_ok n E" and d: "distances_ok n E n D"
  shows "(i, j) \<in> E ^^ L \<Longrightarrow> i < n \<Longrightarrow> D i j \<le> L"
proof (induction L arbitrary: j)
  case 0
  then show ?case using distances_okD(3) [OF d] by auto
next
  case (Suc L)
  then obtain x where x: "(i, x) \<in> E ^^ L" "(x, j) \<in> E" by auto
  have n: "x < n" "j < n" using graph_okD(1,2) [OF g x(2)] by auto
  have "D i j \<le> D i x + D x j" by (rule distances_okD(5) [OF d Suc.prems(2) n(2) n(1)])
  then show ?case using Suc.IH [OF x(1) Suc.prems(2)] distances_okD(4) [OF d n x(2)] by simp
qed

lemma walk_of_list: "w \<noteq> [] \<Longrightarrow> along E w \<Longrightarrow> (hd w, last w) \<in> E ^^ (length w - 1)"
proof (induction w rule: induct_list012)
  case (3 x y zs)
  then have "(y, last (y # zs)) \<in> E ^^ length zs" "(x, y) \<in> E" by (auto simp: successively_Cons)
  then show ?case using relpow_Suc_I2 [of x y E "last (y # zs)" "length zs"] by simp
qed auto

lemma distance_walk:
  assumes "tables_ok n E k D P" "i < n" "j < n" "D i j < max_dist"
  shows "(i, j) \<in> E ^^ D i j"
proof -
  obtain R where "paths_ok n E k D P R" using assms(1) by (auto simp: tables_ok_def)
  from paths_okD(3) [OF this assms(2-4)] show ?thesis using walk_of_list [of "R i j" E] by (auto simp: path_recorded_def)
qed

text \<open>A shortest walk meets a vertex at most once, so it has fewer steps than there are vertices.\<close>

lemma shortest_walk_short:
  assumes g: "graph_ok n E" and w: "(i, j) \<in> E ^^ L" and min: "\<And>m. (i, j) \<in> E ^^ m \<Longrightarrow> L \<le> m" and i: "i < n"
  shows "L < n"
proof -
  have "\<exists>x. (i, x) \<in> E ^^ m \<and> (x, j) \<in> E ^^ (L - m)" if "m \<le> L" for m
    using w that relpow_add [of m "L - m" E] by auto
  then obtain f where f: "\<And>m. m \<le> L \<Longrightarrow> (i, f m) \<in> E ^^ m \<and> (f m, j) \<in> E ^^ (L - m)" by metis
  have "inj_on f {..L}"
  proof (rule inj_onI)
    have "\<not> a < b" if ab: "a \<le> L" "b \<le> L" "f a = f b" for a b
    proof
      assume "a < b"
      have "(i, j) \<in> E ^^ (a + (L - b))" unfolding relpow_add using f [OF ab(1)] f [OF ab(2)] ab(3) by auto
      then show False using min \<open>a < b\<close> ab(2) by fastforce
    qed
    then show "a = b" if "a \<in> {..L}" "b \<in> {..L}" "f a = f b" for a b using that by (metis atMost_iff linorder_neqE_nat)
  qed
  moreover have "f m < n" if mL: "m \<le> L" for m
  proof (cases m)
    case 0
    then show ?thesis using f [OF mL] i by simp
  next
    case (Suc m')
    then obtain y where y: "(y, f m) \<in> E" using f [OF mL] by auto
    show ?thesis by (rule graph_okD(2) [OF g y])
  qed
  then have "f ` {..L} \<subseteq> {..<n}" by auto
  ultimately show ?thesis using card_inj_on_le [of f "{..L}" "{..<n}"] by simp
qed

lemma distance_shortest:
  assumes g: "graph_ok n E" and t: "tables_ok n E n D P" and n: "n \<le> max_dist" and ij: "i < n" "j < n"
  shows "D i j = (if (i, j) \<in> E\<^sup>* then LEAST L. (i, j) \<in> E ^^ L else max_dist)"
proof (cases "(i, j) \<in> E\<^sup>*")
  case True
  have d: "distances_ok n E n D" using t by (simp add: tables_ok_def)
  let ?L = "LEAST L. (i, j) \<in> E ^^ L"
  obtain m where "(i, j) \<in> E ^^ m" using True by (auto simp: rtrancl_power)
  then have L: "(i, j) \<in> E ^^ ?L" by (rule LeastI)
  have min: "?L \<le> m" if "(i, j) \<in> E ^^ m" for m using that by (rule Least_le)
  have "?L < n" by (rule shortest_walk_short [OF g L min ij(1)])
  moreover have le: "D i j \<le> ?L" by (rule distance_le_walk [OF g d L ij(1)])
  ultimately have "D i j < max_dist" using n by simp
  then have "?L \<le> D i j" by (intro min distance_walk [OF t ij])
  then show ?thesis using le True by simp
next
  case False
  have "\<not> D i j < max_dist"
  proof
    assume "D i j < max_dist"
    then have "(i, j) \<in> E ^^ D i j" by (rule distance_walk [OF t ij])
    then show False using False by (auto simp: rtrancl_power)
  qed
  moreover have "D i j \<le> max_dist" using t ij by (auto simp: tables_ok_def intro: distances_okD)
  ultimately show ?thesis using False by simp
qed

text \<open>
  The tables of a device (\<open>Topology::floyd_warshall\<close>, \<open>Device::calculate_path\<close>, \<open>Device::get_path\<close> and
  \<open>Device::get_next_swap_cost\<close> in src/src/device/device.cpp): they hold the shortest distances of the coupling
  graph, and following the predecessors from any qubit leads along a shortest path, the same in both directions.
\<close>

section \<open>Well-formed devices\<close>

definition coupling :: "device \<Rightarrow> (nat \<times> nat) set" where
  "coupling d = {(i, j). i < length (dv_qubits d) \<and> j \<in> set (pq_adjacencies (phys d i))}"

definition device_ok :: "device \<Rightarrow> bool" where
  "device_ok d \<longleftrightarrow>
     dv_num_qubit d = length (dv_qubits d) \<and> tp_num_qubit (dv_topology d) = length (dv_qubits d) \<and> length (dv_qubits d) \<le> max_dist \<and>
     (\<forall>i < length (dv_qubits d). pq_id (phys d i) = i) \<and> graph_ok (length (dv_qubits d)) (coupling d)"

lemma device_okD:
  assumes "device_ok d"
  shows "dv_num_qubit d = length (dv_qubits d)" "tp_num_qubit (dv_topology d) = length (dv_qubits d)" "length (dv_qubits d) \<le> max_dist"
    "i < length (dv_qubits d) \<Longrightarrow> pq_id (phys d i) = i" "graph_ok (length (dv_qubits d)) (coupling d)"
  using assms by (auto simp: device_ok_def)

lemma is_adjacency_coupling:
  "device_ok d \<Longrightarrow> i < length (dv_qubits d) \<Longrightarrow> j < length (dv_qubits d) \<Longrightarrow> is_adjacency (phys d i) (phys d j) \<longleftrightarrow> (i, j) \<in> coupling d"
  by (auto simp: is_adjacency_def coupling_def device_ok_def)

section \<open>Square tables\<close>

definition square :: "nat \<Rightarrow> 'a list list \<Rightarrow> bool" where
  "square n m \<longleftrightarrow> length m = n \<and> (\<forall>i < n. length (m ! i) = n)"

lemma square_set_entry [simp]: "square n m \<Longrightarrow> square n (set_entry i j x m)"
proof -
  have "length (m[i := r] ! a) = n" if "length r = n \<or> length m \<le> i" "length (m ! a) = n" "a < length m" for r a
    using that by (cases "a = i") auto
  then show "square n m \<Longrightarrow> square n (set_entry i j x m)"
    unfolding square_def set_entry_def by (metis length_list_update not_le_imp_less)
qed

lemma entry_set_entry:
  "square n m \<Longrightarrow> i < n \<Longrightarrow> j < n \<Longrightarrow> i' < n \<Longrightarrow> j' < n \<Longrightarrow>
   cell (set_entry i j x m) i' j' = (if i' = i \<and> j' = j then x else cell m i' j')"
  by (auto simp: square_def set_entry_def nth_list_update)

lemma for_entries_induct:
  assumes start: "I {} s"
    and step: "\<And>S i j s. i < n \<Longrightarrow> j < n \<Longrightarrow> (i, j) \<notin> S \<Longrightarrow> I S s \<Longrightarrow> I (insert (i, j) S) (f i j s)"
  shows "I ({..<n} \<times> {..<n}) (for_entries n f s)"
proof -
  have row: "I (S \<union> {i} \<times> {..<m}) (fold (f i) [0..<m] s)" if "i < n" "m \<le> n" "I S s" "\<And>j. (i, j) \<notin> S" for S i m s
    using that(2)
  proof (induction m)
    case 0
    then show ?case using that(3) by simp
  next
    case (Suc m)
    have "S \<union> {i} \<times> {..<Suc m} = insert (i, m) (S \<union> {i} \<times> {..<m})" by auto
    then show ?case using Suc step [OF that(1), of m "S \<union> {i} \<times> {..<m}"] that(4) by simp
  qed
  have "I ({..<m} \<times> {..<n}) (fold (\<lambda>i. fold (f i) [0..<n]) [0..<m] s)" if "m \<le> n" for m
    using that
  proof (induction m)
    case 0
    then show ?case using start by simp
  next
    case (Suc m)
    have "{..<Suc m} \<times> {..<n} = {..<m} \<times> {..<n} \<union> {m} \<times> {..<n}" by auto
    then show ?case using Suc row [of m n] by simp
  qed
  then show ?thesis by (simp add: for_entries_def)
qed

section \<open>The first tables\<close>

lemma set_weight_spec:
  assumes sq: "square n m" and len: "length qs = n"
    and adj: "\<And>i j. i < n \<Longrightarrow> j \<in> set (pq_adjacencies (qs ! i)) \<Longrightarrow> j < n"
  shows "square n (set_weight n qs m)"
    "i < n \<Longrightarrow> j < n \<Longrightarrow> cell (set_weight n qs m) i j = (if j \<in> set (pq_adjacencies (qs ! i)) then 1 else cell m i j)"
proof -
  have row: "square n (fold (\<lambda>a. set_entry i a 1) as m) \<and>
      (\<forall>i' < n. \<forall>j < n. cell (fold (\<lambda>a. set_entry i a 1) as m) i' j = (if i' = i \<and> j \<in> set as then 1 else cell m i' j))"
    if "i < n" "set as \<subseteq> {..<n}" "square n m" for i as and m :: "nat list list"
    using that(2,3)
    by (induction as arbitrary: m) (auto simp: entry_set_entry that(1))
  have "square n (fold (\<lambda>i. fold (\<lambda>a. set_entry i a 1) (pq_adjacencies (qs ! i))) [0..<k] m) \<and>
      (\<forall>i < n. \<forall>j < n. cell (fold (\<lambda>i. fold (\<lambda>a. set_entry i a 1) (pq_adjacencies (qs ! i))) [0..<k] m) i j =
         (if i < k \<and> j \<in> set (pq_adjacencies (qs ! i)) then 1 else cell m i j))" if "k \<le> n" for k
    using that
  proof (induction k)
    case 0
    then show ?case using sq by simp
  next
    case (Suc k)
    let ?m = "fold (\<lambda>i. fold (\<lambda>a. set_entry i a 1) (pq_adjacencies (qs ! i))) [0..<k] m"
    have "set (pq_adjacencies (qs ! k)) \<subseteq> {..<n}" using adj [of k] Suc.prems by auto
    moreover have "square n ?m" using Suc by simp
    ultimately show ?case using row [of k "pq_adjacencies (qs ! k)" ?m] Suc by (auto simp: less_Suc_eq)
  qed
  from this [of n] show "square n (set_weight n qs m)"
    "i < n \<Longrightarrow> j < n \<Longrightarrow> cell (set_weight n qs m) i j = (if j \<in> set (pq_adjacencies (qs ! i)) then 1 else cell m i j)"
    by (auto simp: set_weight_def)
qed

lemma resize_spec:
  "tp_distance t = [] \<Longrightarrow> tp_predecessor t = [] \<Longrightarrow> tp_num_qubit t = n \<Longrightarrow>
   square n (tp_distance (resize_to_num_qubit t)) \<and> square n (tp_predecessor (resize_to_num_qubit t)) \<and>
   tp_num_qubit (resize_to_num_qubit t) = n \<and>
   (\<forall>i < n. \<forall>j < n. cell (tp_predecessor (resize_to_num_qubit t)) i j = max_qubit_id)"
  by (auto simp: resize_to_num_qubit_def resize_list_def square_def Let_def)

definition holds_tables :: "nat \<Rightarrow> table \<Rightarrow> table \<Rightarrow> topology \<Rightarrow> bool" where
  "holds_tables n D P t \<longleftrightarrow>
     square n (tp_distance t) \<and> square n (tp_predecessor t) \<and> tp_num_qubit t = n \<and>
     (\<forall>i < n. \<forall>j < n. cell (tp_distance t) i j = D i j \<and> cell (tp_predecessor t) i j = P i j)"

lemma holds_tablesD:
  assumes "holds_tables n D P t"
  shows "square n (tp_distance t)" "square n (tp_predecessor t)" "tp_num_qubit t = n"
    "i < n \<Longrightarrow> j < n \<Longrightarrow> cell (tp_distance t) i j = D i j" "i < n \<Longrightarrow> j < n \<Longrightarrow> cell (tp_predecessor t) i j = P i j"
  using assms by (auto simp: holds_tables_def)

lemma init_tables_hold:
  assumes t: "tp_distance t = []" "tp_predecessor t = []" "tp_num_qubit t = n"
    and id: "\<And>i. i < n \<Longrightarrow> pq_id (qs ! i) = i"
    and A: "\<And>i j. i < n \<Longrightarrow> j < n \<Longrightarrow> cell m i j = init_D E i j"
  shows "holds_tables n (init_D E) (init_P E) (init_predecessor_and_distance m qs t)"
proof -
  define I where "I S u \<longleftrightarrow> square n (tp_distance u) \<and> square n (tp_predecessor u) \<and> tp_num_qubit u = n \<and>
     (\<forall>i < n. \<forall>j < n. if (i, j) \<in> S then cell (tp_distance u) i j = init_D E i j \<and> cell (tp_predecessor u) i j = init_P E i j
        else cell (tp_predecessor u) i j = max_qubit_id)" for S and u :: topology
  have "I ({..<n} \<times> {..<n}) (for_entries n (init_entry m qs) (resize_to_num_qubit t))"
  proof (rule for_entries_induct)
    show "I {} (resize_to_num_qubit t)" using resize_spec [OF t] by (simp add: I_def)
    fix S i j u assume ij: "i < n" "j < n" "(i, j) \<notin> S" and u: "I S u"
    then show "I (insert (i, j) S) (init_entry m qs i j u)"
      by (auto simp: I_def init_entry_def Let_def entry_set_entry id A init_D_def init_P_def max_dist_def)
  qed
  then show ?thesis by (simp add: I_def holds_tables_def init_predecessor_and_distance_def t(3))
qed

section \<open>A phase on the tables\<close>

lemma phase_hold:
  assumes h: "holds_tables n D P t" and k: "k < n" and kk: "D k k = 0"
  shows "holds_tables n (phase_D k D) (phase_P k D P) (for_entries n (relax_entry k) t)"
proof -
  define I where "I S u \<longleftrightarrow> square n (tp_distance u) \<and> square n (tp_predecessor u) \<and> tp_num_qubit u = n \<and>
     (\<forall>i < n. \<forall>j < n. cell (tp_distance u) i j = (if (i, j) \<in> S then phase_D k D i j else D i j) \<and>
        cell (tp_predecessor u) i j = (if (i, j) \<in> S then phase_P k D P i j else P i j))" for S and u :: topology
  have cross: "phase_D k D i k = D i k" "phase_D k D k j = D k j" "phase_P k D P k j = P k j" for i j
    using kk by (auto simp: phase_D_def phase_P_def)
  have "I ({..<n} \<times> {..<n}) (for_entries n (relax_entry k) t)"
  proof (rule for_entries_induct)
    show "I {} t" using h by (simp add: I_def holds_tables_def)
    fix S i j u assume ij: "i < n" "j < n" "(i, j) \<notin> S" and u: "I S u"
    have e: "cell (tp_distance u) i k = D i k" "cell (tp_distance u) k j = D k j" "cell (tp_predecessor u) k j = P k j"
      "cell (tp_distance u) i j = D i j" "cell (tp_predecessor u) i j = P i j"
      using u ij k cross by (simp_all add: I_def)
    show "I (insert (i, j) S) (relax_entry k i j u)"
    proof (cases "D i j > D i k + D k j \<and> D i k \<noteq> max_dist")
      case True
      then have "relax_entry k i j u = u\<lparr>tp_distance := set_entry i j (D i k + D k j) (tp_distance u),
          tp_predecessor := set_entry i j (P k j) (tp_predecessor u)\<rparr>"
        by (simp add: relax_entry_def e)
      moreover have "phase_D k D i j = D i k + D k j" "phase_P k D P i j = P k j" using True by (simp_all add: phase_D_def phase_P_def)
      ultimately show ?thesis using u ij by (auto simp: I_def entry_set_entry)
    next
      case False
      then have "relax_entry k i j u = u" by (auto simp: relax_entry_def e)
      moreover have "phase_D k D i j = D i j" "phase_P k D P i j = P i j" using False by (auto simp: phase_D_def phase_P_def)
      ultimately show ?thesis using u ij by (auto simp: I_def)
    qed
  qed
  then show ?thesis by (simp add: I_def holds_tables_def)
qed

lemma floyd_warshall_hold:
  assumes t: "tp_distance t = []" "tp_predecessor t = []" "tp_num_qubit t = n" and id: "\<And>i. i < n \<Longrightarrow> pq_id (qs ! i) = i"
    and A: "\<And>i j. i < n \<Longrightarrow> j < n \<Longrightarrow> cell (set_weight n qs m) i j = init_D E i j" and g: "graph_ok n E"
  shows "\<exists>D P. holds_tables n D P (floyd_warshall m qs t) \<and> tables_ok n E n D P"
proof -
  let ?t0 = "init_predecessor_and_distance (set_weight n qs m) qs t"
  have "\<exists>D P. holds_tables n D P (fold (\<lambda>k. for_entries n (relax_entry k)) [0..<k] ?t0) \<and> tables_ok n E k D P" if "k \<le> n" for k
    using that
  proof (induction k)
    case 0
    then show ?case using init_tables_hold [OF t id A] tables_init [OF g] by auto
  next
    case (Suc k)
    then obtain D P where h: "holds_tables n D P (fold (\<lambda>k. for_entries n (relax_entry k)) [0..<k] ?t0)" and ok: "tables_ok n E k D P" by auto
    have k: "k < n" using Suc.prems by simp
    have "D k k = 0" using ok distances_okD(3) [of n E k D k k] k by (simp add: tables_ok_def)
    then show ?case using phase_hold [OF h k] tables_phase [OF g k ok] by auto
  qed
  from this [of n] show ?thesis by (simp add: floyd_warshall_def t(3) Let_def)
qed

text \<open>The tables of a device after \<open>calculate_path\<close>.\<close>

definition routed_tables :: "device \<Rightarrow> table \<Rightarrow> table \<Rightarrow> bool" where
  "routed_tables d D P \<longleftrightarrow>
     holds_tables (length (dv_qubits d)) D P (dv_topology d) \<and> tables_ok (length (dv_qubits d)) (coupling d) (length (dv_qubits d)) D P"

lemma calculate_path_qubits [simp]: "dv_qubits (calculate_path d) = dv_qubits d" "dv_num_qubit (calculate_path d) = dv_num_qubit d"
  "coupling (calculate_path d) = coupling d"
  by (simp_all add: calculate_path_def Let_def coupling_def)

lemma calculate_path_tables:
  assumes d: "device_ok d"
  shows "\<exists>D P. routed_tables (calculate_path d) D P" "device_ok (calculate_path d)"
proof -
  let ?n = "length (dv_qubits d)" and ?E = "coupling d"
  let ?t = "(dv_topology d)\<lparr>tp_predecessor := [], tp_distance := []\<rparr>"
  let ?m = "map (\<lambda>i. (replicate ?n max_dist)[i := 0]) [0..<?n]"
  have g: "graph_ok ?n ?E" by (rule device_okD(5) [OF d])
  have sq: "square ?n ?m" by (simp add: square_def)
  have adj: "j < ?n" if "i < ?n" "j \<in> set (pq_adjacencies (phys d i))" for i j
    using graph_okD(2) [OF g, of i j] that by (simp add: coupling_def)
  have "cell (set_weight ?n (dv_qubits d) ?m) i j = init_D ?E i j" if ij: "i < ?n" "j < ?n" for i j
  proof -
    have "j \<in> set (pq_adjacencies (phys d i)) \<longleftrightarrow> (i, j) \<in> ?E" using ij by (simp add: coupling_def)
    then have "cell (set_weight ?n (dv_qubits d) ?m) i j = (if (i, j) \<in> ?E then 1 else cell ?m i j)"
      using set_weight_spec(2) [OF sq refl adj ij] by simp
    moreover have "cell ?m i j = (if i = j then 0 else max_dist)" using ij by (simp add: nth_list_update)
    ultimately show ?thesis using graph_okD(3) [OF g, of i j] by (auto simp: init_D_def)
  qed
  from floyd_warshall_hold [OF _ _ _ _ this g, of ?t] obtain D P where
    h: "holds_tables ?n D P (floyd_warshall ?m (dv_qubits d) ?t)" and ok: "tables_ok ?n ?E ?n D P"
    using device_okD(2,4) [OF d] by auto
  have t: "dv_topology (calculate_path d) = floyd_warshall ?m (dv_qubits d) ?t"
    using device_okD(1) [OF d] by (simp add: calculate_path_def Let_def)
  show "\<exists>D P. routed_tables (calculate_path d) D P" using h ok by (auto simp: routed_tables_def t)
  have "tp_num_qubit (dv_topology (calculate_path d)) = ?n" unfolding t by (rule holds_tablesD(3) [OF h])
  then show "device_ok (calculate_path d)" using d by (simp add: device_ok_def)
qed

section \<open>Following the predecessors\<close>

definition on_route :: "device \<Rightarrow> table \<Rightarrow> nat list \<Rightarrow> bool" where
  "on_route d P w \<longleftrightarrow>
     w \<noteq> [] \<and> along (coupling d) w \<and> distinct w \<and> set w \<subseteq> {..<length (dv_qubits d)} \<and>
     (\<forall>a. Suc a < length w \<longrightarrow> P (last w) (w ! a) = w ! Suc a \<and> P (hd w) (w ! Suc a) = w ! a)"

lemma on_route_nth: "on_route d P w \<Longrightarrow> b < length w \<Longrightarrow> w ! b < length (dv_qubits d)"
  using nth_mem [of b w] by (auto simp: on_route_def subset_iff)

lemma recorded_prefix:
  assumes d: "distances_ok n E n D" and p: "paths_ok n E n D P R" and i: "i < n"
  shows "j < n \<Longrightarrow> D i j < max_dist \<Longrightarrow> a < length (R i j) \<Longrightarrow>
    R i j ! a < n \<and> D i (R i j ! a) = a \<and> R i (R i j ! a) = take (Suc a) (R i j)"
proof (induction "D i j" arbitrary: j)
  case 0
  then have "j = i" using distances_okD(3) [OF d i] by metis
  then show ?case using 0 paths_okD(1) [OF p i i] i by simp
next
  case (Suc L)
  have ij: "i \<noteq> j" using distances_okD(3) [OF d i i] Suc.hyps(2) by auto
  let ?x = "P i j"
  have x: "?x < n" "Suc (D i ?x) = D i j" "R i j = R i ?x @ [j]"
    using paths_okD(4) [OF p i Suc.prems(1,2) ij] by (auto simp: last_step_def)
  have len: "length (R i j) = Suc (D i j)" using paths_okD(3) [OF p i Suc.prems(1,2)] by (simp add: path_recorded_def)
  show ?case
  proof (cases "a < length (R i ?x)")
    case True
    then show ?thesis using Suc.hyps(1) [of ?x] Suc.hyps(2) Suc.prems(2) x by (simp add: nth_append)
  next
    case False
    then have "a = D i j" "R i j ! a = j" using Suc.prems(3) len x(3) by (auto simp: nth_append)
    then show ?thesis using Suc.prems(1) len by simp
  qed
qed

lemma recorded_pred:
  assumes d: "distances_ok n E n D" and p: "paths_ok n E n D P R" and ij: "i < n" "j < n" and fin: "D i j < max_dist"
    and a: "Suc a < length (R i j)"
  shows "P i (R i j ! Suc a) = R i j ! a"
proof -
  let ?w = "R i j" and ?y = "R i j ! Suc a"
  have y: "?y < n" "D i ?y = Suc a" "R i ?y = take (Suc (Suc a)) ?w" using recorded_prefix [OF d p ij fin a] by auto
  have len: "length ?w = Suc (D i j)" using paths_okD(3) [OF p ij fin] by (simp add: path_recorded_def)
  have fy: "D i ?y < max_dist" using y(2) a len fin by simp
  have "i \<noteq> ?y" using distances_okD(3) [OF d ij(1) y(1)] y(2) by simp
  then have ls: "P i ?y < n" "R i ?y = R i (P i ?y) @ [?y]" "Suc (D i (P i ?y)) = D i ?y"
    using paths_okD(4) [OF p ij(1) y(1) fy] by (auto simp: last_step_def)
  have "R i (P i ?y) = take (Suc a) ?w" using ls(2) y(3) a by (simp add: take_Suc_conv_app_nth)
  moreover have "last (R i (P i ?y)) = P i ?y"
    using paths_okD(3) [OF p ij(1) ls(1)] ls(3) fy by (simp add: path_recorded_def)
  moreover have "last (take (Suc a) ?w) = ?w ! a" using a by (simp add: take_Suc_conv_app_nth)
  ultimately show ?thesis by simp
qed

lemma route_exists:
  assumes ok: "device_ok d" and t: "routed_tables d D P" and ij: "i < length (dv_qubits d)" "j < length (dv_qubits d)"
    and con: "(i, j) \<in> (coupling d)\<^sup>*"
  shows "\<exists>w. on_route d P w \<and> hd w = i \<and> last w = j \<and> length w = Suc (LEAST L. (i, j) \<in> coupling d ^^ L)"
proof -
  let ?n = "length (dv_qubits d)" and ?E = "coupling d"
  note g = device_okD(5) [OF ok] and n = device_okD(3) [OF ok]
  have tb: "tables_ok ?n ?E ?n D P" using t by (simp add: routed_tables_def)
  then obtain R where dd: "distances_ok ?n ?E ?n D" and p: "paths_ok ?n ?E ?n D P R" by (auto simp: tables_ok_def)
  have L: "D i j = (LEAST L. (i, j) \<in> ?E ^^ L)" using distance_shortest [OF g tb n ij] con by simp
  have "(LEAST L. (i, j) \<in> ?E ^^ L) < ?n"
  proof (rule shortest_walk_short [OF g _ _ ij(1)])
    obtain m where "(i, j) \<in> ?E ^^ m" using con by (auto simp: rtrancl_power)
    then show "(i, j) \<in> ?E ^^ (LEAST L. (i, j) \<in> ?E ^^ L)" by (rule LeastI)
    show "(LEAST L. (i, j) \<in> ?E ^^ L) \<le> m" if "(i, j) \<in> ?E ^^ m" for m using that by (rule Least_le)
  qed
  then have fin: "D i j < max_dist" using n L by simp
  then have fin': "D j i < max_dist" using distances_okD(2) [OF dd ij] by simp
  let ?w = "R i j"
  have r: "?w \<noteq> []" "hd ?w = i" "last ?w = j" "length ?w = Suc (D i j)" "along ?E ?w" "R j i = rev ?w"
    using paths_okD(3) [OF p ij fin] by (auto simp: path_recorded_def)
  note pre = recorded_prefix [OF dd p ij fin]
  have "set ?w \<subseteq> {..<?n}" using pre by (auto simp: in_set_conv_nth)
  moreover have "distinct ?w" unfolding distinct_conv_nth using pre by metis
  moreover have "P j (?w ! a) = ?w ! Suc a" if a: "Suc a < length ?w" for a
  proof -
    let ?b = "length ?w - Suc (Suc a)"
    have "P j (rev ?w ! Suc ?b) = rev ?w ! ?b" using recorded_pred [OF dd p ij(2,1) fin', of ?b] a r(6) by simp
    then show ?thesis using a by (simp add: rev_nth Suc_diff_Suc)
  qed
  moreover have "P i (?w ! Suc a) = ?w ! a" if "Suc a < length ?w" for a using recorded_pred [OF dd p ij fin that] .
  ultimately have "on_route d P ?w" using r by (simp add: on_route_def)
  then show ?thesis using r L by metis
qed

lemma get_predecessor_tables:
  assumes "routed_tables d D P" "i < length (dv_qubits d)" "j < length (dv_qubits d)"
  shows "get_predecessor i j (dv_topology d) = Some (P i j)"
  using assms holds_tablesD by (auto simp: routed_tables_def get_predecessor_def square_def)

lemma predecessor_self:
  assumes "routed_tables d D P" "i < length (dv_qubits d)"
  shows "P i i = max_qubit_id"
  using assms paths_okD(2) by (auto simp: routed_tables_def tables_ok_def)

lemma path_tail_route:
  assumes ok: "device_ok d" and t: "routed_tables d D P" and w: "on_route d P w"
  shows "a < length w \<Longrightarrow> path_tail d (last w) (w ! a) = Some (map (phys d) (drop (Suc a) w))"
proof (induction "length w - a" arbitrary: a)
  case 0
  then show ?case by simp
next
  case (Suc m)
  let ?n = "length (dv_qubits d)"
  have in_n: "w ! b < ?n" if "b < length w" for b using on_route_nth [OF w that] .
  then have l: "last w < ?n" using w by (auto simp: on_route_def last_conv_nth)
  have g: "get_predecessor (last w) (w ! a) (dv_topology d) = Some (P (last w) (w ! a))"
    using get_predecessor_tables [OF t l in_n [OF Suc.prems]] .
  show ?case
  proof (cases "Suc a < length w")
    case True
    then have "P (last w) (w ! a) = w ! Suc a" using w by (simp add: on_route_def)
    moreover have "w ! Suc a < ?n" using in_n True by simp
    moreover from this have "w ! Suc a \<noteq> max_qubit_id" using device_okD(3) [OF ok] by (simp add: max_dist_def max_qubit_id_def)
    moreover have "path_tail d (last w) (w ! Suc a) = Some (map (phys d) (drop (Suc (Suc a)) w))"
      using Suc.hyps True by simp
    ultimately show ?thesis using g True by (subst path_tail.simps) (simp add: Cons_nth_drop_Suc [symmetric])
  next
    case False
    then have "a = length w - 1" using Suc.prems by simp
    then have "w ! a = last w" using w by (simp add: last_conv_nth on_route_def)
    then have "P (last w) (w ! a) = max_qubit_id" using predecessor_self [OF t l] by simp
    then show ?thesis using g False by (subst path_tail.simps) simp
  qed
qed

lemma get_path_route:
  assumes ok: "device_ok d" and t: "routed_tables d D P" and w: "on_route d P w"
  shows "\<exists>path. get_path (hd w) (last w) d = Some path \<and> map pq_id path = w"
proof -
  let ?n = "length (dv_qubits d)"
  have in_n: "w ! b < ?n" if "b < length w" for b using on_route_nth [OF w that] .
  have ne: "w \<noteq> []" using w by (simp add: on_route_def)
  have ids: "map pq_id (map (phys d) v) = v" if "set v \<subseteq> set w" for v
    using that w device_okD(4) [OF ok] by (auto simp: on_route_def subset_iff intro!: map_idI)
  obtain i w' where iw: "w = i # w'" using ne by (cases w) auto
  have n: "i < ?n" "last w < ?n" using in_n [of 0] in_n [of "length w - 1"] iw by (auto simp: last_conv_nth)
  show ?thesis
  proof (cases w')
    case Nil
    then show ?thesis using iw n device_okD(4) [OF ok] by (simp add: get_path_def)
  next
    case (Cons j w'')
    have w1: "w ! 0 = i" "w ! 1 = j" "w = i # j # w''" using iw Cons by auto
    have "distinct w" using w by (simp add: on_route_def)
    then have "i \<noteq> last w" unfolding iw by (auto simp: Cons)
    moreover have "P (last w) i = j" using w unfolding on_route_def using w1 by (metis One_nat_def length_Cons lessI less_Suc_eq_0_disj)
    moreover have "path_tail d (last w) j = Some (map (phys d) w'')" using path_tail_route [OF ok t w, of 1] w1 by simp
    ultimately have "get_path (hd w) (last w) d = Some (phys d i # phys_qubit_new j # map (phys d) w'')"
      using n get_predecessor_tables [OF t n(2,1)] by (simp add: get_path_def iw)
    moreover have "map pq_id (phys d i # phys_qubit_new j # map (phys d) w'') = w"
      using ids [of "[i]"] ids [of w''] w1 by (auto simp: phys_qubit_new_def)
    ultimately show ?thesis by blast
  qed
qed

lemma get_path_unreachable:
  assumes ok: "device_ok d" and t: "routed_tables d D P" and ij: "i < length (dv_qubits d)" "j < length (dv_qubits d)"
    and "(i, j) \<notin> (coupling d)\<^sup>*"
  shows "get_path i j d = None"
proof -
  let ?n = "length (dv_qubits d)"
  have tb: "tables_ok ?n (coupling d) ?n D P" using t by (simp add: routed_tables_def)
  then obtain R where dd: "distances_ok ?n (coupling d) ?n D" and p: "paths_ok ?n (coupling d) ?n D P R" by (auto simp: tables_ok_def)
  have "(j, i) \<notin> (coupling d)\<^sup>*" "i \<noteq> j"
    using assms(5) device_okD(5) [OF ok] by (auto simp: graph_ok_def dest: symD [OF sym_rtrancl])
  then have "\<not> D j i < max_dist" using distance_shortest [OF device_okD(5) [OF ok] tb device_okD(3) [OF ok] ij(2,1)] by simp
  then have "P j i = max_qubit_id" using paths_okD(5) [OF p ij(2,1)] by simp
  moreover have "get_predecessor j max_qubit_id (dv_topology d) = None"
  proof -
    have "length (tp_predecessor (dv_topology d) ! j) = ?n"
      using t ij by (auto simp: routed_tables_def holds_tables_def square_def)
    then show ?thesis using device_okD(3) [OF ok] by (simp add: get_predecessor_def max_dist_def max_qubit_id_def)
  qed
  ultimately show ?thesis
    using \<open>i \<noteq> j\<close> get_predecessor_tables [OF t ij(2,1)] by (simp add: get_path_def path_tail.simps [of d j max_qubit_id])
qed

end
