(* ===== verification/Router.thy ===== *)
theory Router
  imports DevicePaths
begin

text \<open>
  The routers of the qubit mapper (src/src/duostra/router.hpp, router.cpp): gates on one qubit are executed where
  their qubit is, for gates on two qubits swaps are inserted until the qubits are adjacent, along the shortest
  path (\<open>apsp_routing\<close>) or by a search from both qubits (\<open>duostra_routing\<close>). A call that reads behind a table,
  pops an empty queue or does not return is \<open>None\<close>. \<open>std::ranges::sort\<close> promises a sorted permutation only;
  the model sorts stably, and \<open>traceback_any_order\<close> of the theory DuostraRouting shows that the order of
  operations with the same start does not matter.
\<close>

type_synonym gate_info = "gate \<times> (nat \<times> nat)"

abbreviation start_time :: "gate_info \<Rightarrow> nat" where "start_time i \<equiv> fst (snd i)"
abbreviation end_time :: "gate_info \<Rightarrow> nat" where "end_time i \<equiv> snd (snd i)"

datatype router_type = Shortest_path | Duostra_router
datatype min_max = Min_option | Max_option
datatype cost_strategy = Cost_start | Cost_end

record router =
  rt_tie_breaking :: min_max
  rt_device :: device
  rt_logical_to_physical :: "nat list"
  rt_apsp :: bool
  rt_duostra :: bool

text \<open>\<open>Router::_initialize\<close>; \<open>value()\<close> throws where a physical qubit holds no logical qubit.\<close>

definition logical_to_physical :: "device \<Rightarrow> nat list option" where
  "logical_to_physical d =
     fold (\<lambda>i r. case r of None \<Rightarrow> None
                 | Some l2p \<Rightarrow> (case pq_logical (phys d i) of None \<Rightarrow> None | Some l \<Rightarrow> Some (l2p[l := i])))
       [0..<dv_num_qubit d] (Some (replicate (dv_num_qubit d) 0))"

definition router_new :: "device \<Rightarrow> router_type \<Rightarrow> cost_strategy \<Rightarrow> min_max \<Rightarrow> router option" where
  "router_new d type cost tie =
     (let apsp = (type = Shortest_path \<or> cost = Cost_end);
          d = (if apsp then calculate_path d else d) in
      case logical_to_physical d of None \<Rightarrow> None
      | Some l2p \<Rightarrow> Some \<lparr>rt_tie_breaking = tie, rt_device = d, rt_logical_to_physical = l2p, rt_apsp = apsp,
                        rt_duostra = (type = Duostra_router)\<rparr>)"

definition get_physical_qubits :: "router \<Rightarrow> gate \<Rightarrow> nat \<times> nat" where
  "get_physical_qubits r g =
     (rt_logical_to_physical r ! (snd g ! 0),
      if length (snd g) = 2 then rt_logical_to_physical r ! (snd g ! 1) else max_qubit_id)"

text \<open>A coefficient \<open>0\<close> divides by zero.\<close>

definition get_gate_cost :: "router \<Rightarrow> gate \<Rightarrow> min_max \<Rightarrow> nat \<Rightarrow> nat option" where
  "get_gate_cost r g mm apsp_coeff =
     (let d = rt_device r; (q0_id, q1_id) = get_physical_qubits r g in
      if length (snd g) = 1 then Some (pq_occupied (phys d q0_id))
      else case (if rt_apsp r then map_option length (get_path q0_id q1_id d) else Some 0) of None \<Rightarrow> None
      | Some apsp_cost \<Rightarrow>
          if apsp_coeff = 0 then None
          else let t0 = pq_occupied (phys d q0_id); t1 = pq_occupied (phys d q1_id);
                   avail = (if mm = Max_option then max t0 t1 else min t0 t1) in
               Some (avail + apsp_cost div apsp_coeff))"

definition is_executable :: "router \<Rightarrow> gate \<Rightarrow> bool" where
  "is_executable r g \<longleftrightarrow>
     length (snd g) = 1 \<or>
     (let (q0, q1) = get_physical_qubits r g in is_adjacency (phys (rt_device r) q0) (phys (rt_device r) q1))"

definition execute_single :: "gate \<Rightarrow> nat \<Rightarrow> device \<Rightarrow> gate_info \<times> device" where
  "execute_single g q d =
     (let start = pq_occupied (phys d q); finish = start + get_delay g in
      (((fst g, [q, max_qubit_id]), (start, finish)), upd_qubit q pq_reset (upd_qubit q (set_occupied finish) d)))"

section \<open>Routing along shortest paths\<close>

definition swap_on :: "nat \<Rightarrow> nat \<Rightarrow> gate" where
  "swap_on a b = (SwapGate, [a, b])"

definition emit :: "gate \<Rightarrow> nat \<Rightarrow> gate_info" where
  "emit op start = (op, (start, start + get_delay op))"

definition logical_less :: "nat option \<Rightarrow> nat option \<Rightarrow> bool" where
  "logical_less x y = (case (x, y) of (None, Some _) \<Rightarrow> True | (Some a, Some b) \<Rightarrow> a < b | _ \<Rightarrow> False)"

partial_function (option) apsp_loop ::
  "min_max \<Rightarrow> nat \<Rightarrow> nat \<Rightarrow> nat \<Rightarrow> nat \<Rightarrow> gate_info list \<Rightarrow> device \<Rightarrow> (nat \<times> nat \<times> gate_info list \<times> device) option" where
  "apsp_loop tie s0 s1 q0 q1 ops d =
     (if is_adjacency (phys d q0) (phys d q1) then Some (q0, q1, ops, d)
      else case (get_next_swap_cost q0 s1 d, get_next_swap_cost q1 s0 d) of
        (Some (q0_next, q0_cost), Some (q1_next, q1_cost)) \<Rightarrow>
          (if q0_cost < q1_cost \<or>
              (q0_cost = q1_cost \<and> tie = Min_option \<and> logical_less (pq_logical (phys d q0)) (pq_logical (phys d q1)))
           then apsp_loop tie s0 s1 q0_next q1 (ops @ [emit (swap_on q0 q0_next) q0_cost]) (apply_gate (swap_on q0 q0_next) q0_cost d)
           else apsp_loop tie s0 s1 q0 q1_next (ops @ [emit (swap_on q1 q1_next) q1_cost]) (apply_gate (swap_on q1 q1_next) q1_cost d))
      | _ \<Rightarrow> None)"

definition apsp_routing :: "gate \<Rightarrow> nat \<times> nat \<Rightarrow> min_max \<Rightarrow> device \<Rightarrow> (gate_info list \<times> device) option" where
  "apsp_routing g qs tie d =
     (case apsp_loop tie (fst qs) (snd qs) (fst qs) (snd qs) [] d of None \<Rightarrow> None
      | Some (q0, q1, ops, d) \<Rightarrow>
          let gate_cost = max (pq_occupied (phys d q0)) (pq_occupied (phys d q1));
              cx_gate = (fst g, [q0, q1]) in
          Some (ops @ [(cx_gate, (gate_cost, gate_cost + get_delay g))], apply_gate cx_gate gate_cost d))"

section \<open>Routing by a search from both qubits\<close>

record astar_node =
  an_cost :: nat
  an_id :: nat
  an_source :: bool

text \<open>\<open>AStarComp\<close>: the queue serves the node with the smallest cost, and of these the one with the smallest id.\<close>

definition served_before :: "astar_node \<Rightarrow> astar_node \<Rightarrow> bool" where
  "served_before a b \<longleftrightarrow> (if an_cost a = an_cost b then an_id a < an_id b else an_cost a < an_cost b)"

fun pq_top :: "astar_node list \<Rightarrow> astar_node option" where
  "pq_top [] = None"
| "pq_top (a # pq) = (case pq_top pq of None \<Rightarrow> Some a | Some b \<Rightarrow> if served_before b a then Some b else Some a)"

definition swap_delay :: nat where
  "swap_delay = get_delay (swap_on 0 1)"

fun touch_adjacency :: "nat \<Rightarrow> bool \<Rightarrow> nat list \<Rightarrow> astar_node list \<times> device \<Rightarrow> nat option \<times> astar_node list \<times> device" where
  "touch_adjacency q source [] (pq, d) = (None, pq, d)"
| "touch_adjacency q source (i # adjs) (pq, d) =
     (if pq_marked (phys d i) then
        (if pq_taken (phys d i) \<and> pq_source (phys d i) \<noteq> source then (Some (pq_id (phys d i)), pq, d)
         else touch_adjacency q source adjs (pq, d))
      else
        let cost = max (pq_cost (phys d q)) (pq_occupied (phys d i)) + swap_delay;
            d = upd_qubit i (pq_mark source (pq_id (phys d q))) d in
        touch_adjacency q source adjs (\<lparr>an_cost = cost, an_id = pq_id (phys d i), an_source = source\<rparr> # pq, d))"

definition touch :: "nat \<Rightarrow> bool \<Rightarrow> astar_node list \<times> device \<Rightarrow> nat option \<times> astar_node list \<times> device" where
  "touch q source s = touch_adjacency q source (pq_adjacencies (phys (snd s) q)) s"

partial_function (option) duostra_search :: "astar_node list \<Rightarrow> device \<Rightarrow> (nat \<times> nat \<times> device) option" where
  "duostra_search pq d =
     (case pq_top pq of None \<Rightarrow> None
      | Some next \<Rightarrow>
          let q = an_id next;
              d = upd_qubit q (take_route (an_cost next) (an_cost next - swap_delay)) d in
          (case touch q (an_source next) (remove1 next pq, d) of
             (Some t, pq, d) \<Rightarrow> Some (if an_source next then (t, q, d) else (q, t, d))
           | (None, pq, d) \<Rightarrow> duostra_search pq d))"

partial_function (option) trace_route :: "device \<Rightarrow> nat \<Rightarrow> nat \<Rightarrow> gate_info list option" where
  "trace_route d t q =
     (if q = t then Some []
      else if length (dv_qubits d) \<le> q then None
      else Option.bind (trace_route d t (pq_pred (phys d q)))
             (\<lambda>ops. Some (emit (swap_on q (pq_pred (phys d q))) (pq_swap_time (phys d q)) # ops)))"

definition apply_ops :: "gate_info list \<Rightarrow> device \<Rightarrow> device" where
  "apply_ops ops d = fold (\<lambda>i. apply_gate (fst i) (start_time i)) ops d"

definition traceback :: "gate \<Rightarrow> nat \<Rightarrow> nat \<Rightarrow> nat \<Rightarrow> nat \<Rightarrow> bool \<Rightarrow> device \<Rightarrow> (gate_info list \<times> device) option" where
  "traceback g q0 q1 t0 t1 swap_ids d =
     (let operation_time = max (pq_cost (phys d q0)) (pq_cost (phys d q1));
          qids = (if swap_ids then [q1, q0] else [q0, q1]);
          cx = ((fst g, qids), (operation_time, operation_time + get_delay g)) in
      case (trace_route d t0 q0, trace_route d t1 q1) of
        (Some ops0, Some ops1) \<Rightarrow>
          let ops = sort_key start_time (cx # ops0 @ ops1) in Some (ops, apply_ops ops d)
      | _ \<Rightarrow> None)"

definition swaps_sources :: "min_max \<Rightarrow> nat \<Rightarrow> nat \<Rightarrow> device \<Rightarrow> bool" where
  "swaps_sources tie q0 q1 d \<longleftrightarrow>
     (if pq_occupied (phys d q0) > pq_occupied (phys d q1) then True
      else pq_occupied (phys d q0) = pq_occupied (phys d q1) \<and> tie = Min_option \<and>
           logical_less (pq_logical (phys d q1)) (pq_logical (phys d q0)))"

definition mark_sources :: "nat \<Rightarrow> nat \<Rightarrow> device \<Rightarrow> device" where
  "mark_sources t0 t1 d =
     (let d = upd_qubit t0 (\<lambda>q. take_route (pq_cost q) 0 (pq_mark False (pq_id q) q)) d in
      upd_qubit t1 (\<lambda>q. take_route (pq_cost q) 0 (pq_mark True (pq_id q) q)) d)"

definition reset_all :: "device \<Rightarrow> device" where
  "reset_all d = fold (\<lambda>i. upd_qubit i pq_reset) [0..<dv_num_qubit d] d"

definition duostra_routing :: "gate \<Rightarrow> nat \<times> nat \<Rightarrow> min_max \<Rightarrow> device \<Rightarrow> (gate_info list \<times> device) option" where
  "duostra_routing g qs tie d =
     (let swap_ids = swaps_sources tie (fst qs) (snd qs) d;
          (t0, t1) = (if swap_ids then (snd qs, fst qs) else qs);
          (touch0, pq, d) = touch t0 False ([], mark_sources t0 t1 d);
          (_, pq, d) = touch t1 True (pq, d) in
      case (if touch0 \<noteq> None then Some (t0, t1, d) else duostra_search pq d) of None \<Rightarrow> None
      | Some (q0, q1, d) \<Rightarrow>
          (case traceback g q0 q1 t0 t1 swap_ids d of None \<Rightarrow> None | Some (ops, d) \<Rightarrow> Some (ops, reset_all d)))"

section \<open>Assigning a gate\<close>

definition update_mapping :: "nat option list \<Rightarrow> nat list \<Rightarrow> nat list" where
  "update_mapping change_list l2p =
     fold (\<lambda>i l2p. case change_list ! i of None \<Rightarrow> l2p | Some l \<Rightarrow> l2p[l := i]) [0..<length change_list] l2p"

definition assign_gate :: "gate \<Rightarrow> router \<Rightarrow> (gate_info list \<times> router) option" where
  "assign_gate g r =
     (let (q0, q1) = get_physical_qubits r g; d = rt_device r in
      if length (snd g) = 1 then
        let (op, d) = execute_single g q0 d in Some ([op], r\<lparr>rt_device := d\<rparr>)
      else if length (dv_qubits d) \<le> q1 then None
      else case (if rt_duostra r then duostra_routing g (q0, q1) (rt_tie_breaking r) d
                 else apsp_routing g (q0, q1) (rt_tie_breaking r) d) of None \<Rightarrow> None
      | Some (ops, d) \<Rightarrow>
          Some (ops, r\<lparr>rt_device := d, rt_logical_to_physical := update_mapping (mapping d) (rt_logical_to_physical r)\<rparr>))"

end
