(* ===== verification/CircuitGraph.thy ===== *)
theory CircuitGraph
  imports OperationSemantics "HOL-Library.Multiset"
begin

text \<open>
  Lists of operations on wires up to the order of neighbours that share no wire: the order a dependency graph
  leaves open, and the order a sort by start time may choose. Whatever commutes on such neighbours does not
  see the difference.
\<close>

section \<open>Exchanging neighbours\<close>

inductive reorder :: "('a \<Rightarrow> nat set) \<Rightarrow> 'a list \<Rightarrow> 'a list \<Rightarrow> bool" for w where
  reorder_refl [simp, intro]: "reorder w xs xs"
| reorder_step: "reorder w xs (us @ x # y # vs) \<Longrightarrow> w x \<inter> w y = {} \<Longrightarrow> reorder w xs (us @ y # x # vs)"

lemma reorder_mset: "reorder w xs ys \<Longrightarrow> mset ys = mset xs"
  by (induction rule: reorder.induct) (auto simp: add_mset_commute)

lemma reorder_set: "reorder w xs ys \<Longrightarrow> set ys = set xs"
  using reorder_mset mset_eq_setD by metis

lemma reorder_length: "reorder w xs ys \<Longrightarrow> length ys = length xs"
  using reorder_mset mset_eq_length by metis

lemma reorder_trans: "reorder w ys zs \<Longrightarrow> reorder w xs ys \<Longrightarrow> reorder w xs zs"
  by (induction rule: reorder.induct) (auto intro: reorder_step)

lemma reorder_append: "reorder w xs ys \<Longrightarrow> reorder w (us @ xs @ vs) (us @ ys @ vs)"
proof (induction rule: reorder.induct)
  case (reorder_step xs as x y bs)
  then have "reorder w (us @ xs @ vs) ((us @ as) @ x # y # (bs @ vs))" by simp
  from reorder.reorder_step [OF this reorder_step.hyps(2)] show ?case by simp
qed simp

lemma reorder_Cons: "reorder w xs ys \<Longrightarrow> reorder w (x # xs) (x # ys)"
  using reorder_append [of w xs ys "[x]" "[]"] by simp

lemma reorder_appendL: "reorder w xs ys \<Longrightarrow> reorder w (us @ xs) (us @ ys)"
  using reorder_append [of w xs ys us "[]"] by simp

lemma reorder_appendR: "reorder w xs ys \<Longrightarrow> reorder w (xs @ vs) (ys @ vs)"
  using reorder_append [of w xs ys "[]" vs] by simp

lemma reorder_swap: "w x \<inter> w y = {} \<Longrightarrow> reorder w (x # y # vs) (y # x # vs)"
  using reorder_step [of w "x # y # vs" "[]" x y vs] by simp

lemma reorder_sym: "reorder w xs ys \<Longrightarrow> reorder w ys xs"
proof (induction rule: reorder.induct)
  case (reorder_step xs us x y vs)
  have "reorder w (us @ y # x # vs) (us @ x # y # vs)"
    by (rule reorder_appendL, rule reorder_swap) (use reorder_step.hyps(2) in auto)
  from reorder_trans [OF reorder_step.IH this] show ?case .
qed simp

lemma reorder_move: "\<forall>a \<in> set as. w a \<inter> w y = {} \<Longrightarrow> reorder w (as @ y # bs) (y # as @ bs)"
proof (induction as)
  case (Cons a as)
  then have "reorder w (a # as @ y # bs) (a # y # as @ bs)" by (intro reorder_Cons) auto
  moreover have "reorder w (a # y # as @ bs) (y # a # as @ bs)" by (rule reorder_swap) (use Cons.prems in auto)
  ultimately show ?case using reorder_trans by fastforce
qed simp

lemma reorder_single: "reorder w [x] ys \<Longrightarrow> ys = [x]"
  using reorder_mset [of w "[x]" ys] by simp

lemma reorder_map:
  assumes "\<And>x y. w x \<inter> w y = {} \<Longrightarrow> w' (f x) \<inter> w' (f y) = {}"
  shows "reorder w xs ys \<Longrightarrow> reorder w' (map f xs) (map f ys)"
proof (induction rule: reorder.induct)
  case (reorder_step xs us x y vs)
  have "w' (f x) \<inter> w' (f y) = {}" using assms reorder_step.hyps(2) .
  with reorder.reorder_step [of w' "map f xs" "map f us" "f x" "f y" "map f vs"] show ?case using reorder_step.IH by simp
qed simp

section \<open>What a reordering keeps\<close>

text \<open>Operations whose actions on a state commute when they share no wire.\<close>

locale wired_action =
  fixes w :: "'a \<Rightarrow> nat set" and ok :: "'a \<Rightarrow> bool" and act :: "'a \<Rightarrow> 's \<Rightarrow> 's"
  assumes act_commute: "ok x \<Longrightarrow> ok y \<Longrightarrow> w x \<inter> w y = {} \<Longrightarrow> act y (act x s) = act x (act y s)"
begin

lemma fold_reorder: "reorder w xs ys \<Longrightarrow> \<forall>x \<in> set xs. ok x \<Longrightarrow> fold act ys s = fold act xs s"
proof (induction rule: reorder.induct)
  case (reorder_step xs us x y vs)
  have "ok x" "ok y" using reorder_set [OF reorder_step.hyps(1)] reorder_step.prems by auto
  then show ?case using reorder_step act_commute by simp
qed simp

end

text \<open>The operations that meet one wire keep their order.\<close>

definition on_wire :: "('a \<Rightarrow> nat set) \<Rightarrow> nat \<Rightarrow> 'a list \<Rightarrow> 'a list" where
  "on_wire w q xs = filter (\<lambda>x. q \<in> w x) xs"

lemma reorder_on_wire: "reorder w xs ys \<Longrightarrow> on_wire w q ys = on_wire w q xs"
  by (induction rule: reorder.induct) (auto simp: on_wire_def)

section \<open>Sorting by time\<close>

text \<open>Operations that share a wire have the order of their keys.\<close>

definition in_order :: "('a \<Rightarrow> nat set) \<Rightarrow> ('a \<Rightarrow> nat) \<Rightarrow> 'a list \<Rightarrow> bool" where
  "in_order w f xs = sorted_wrt (\<lambda>x y. w x \<inter> w y \<noteq> {} \<longrightarrow> f x < f y) xs"

lemma in_order_simps [simp]: "in_order w f []" "in_order w f (x # xs) \<longleftrightarrow> (\<forall>y \<in> set xs. w x \<inter> w y \<noteq> {} \<longrightarrow> f x < f y) \<and> in_order w f xs"
  "in_order w f (xs @ ys) \<longleftrightarrow> in_order w f xs \<and> in_order w f ys \<and> (\<forall>x \<in> set xs. \<forall>y \<in> set ys. w x \<inter> w y \<noteq> {} \<longrightarrow> f x < f y)"
  by (auto simp: in_order_def sorted_wrt_append)

lemma sorted_reorder:
  "in_order w f xs \<Longrightarrow> mset ys = mset xs \<Longrightarrow> sorted (map f ys) \<Longrightarrow> reorder w xs ys"
proof (induction ys arbitrary: xs)
  case Nil
  then show ?case by simp
next
  case (Cons y ys)
  have "y \<in> set xs" using Cons.prems(2) by (metis list.set_intros(1) mset_eq_setD)
  then obtain as bs where xs: "xs = as @ y # bs" by (auto simp: in_set_conv_decomp)
  have "mset ys = mset (as @ bs)" using Cons.prems(2) by (simp add: xs)
  moreover have "in_order w f (as @ bs)" using Cons.prems(1) by (auto simp: xs)
  ultimately have "reorder w (as @ bs) ys" using Cons.IH Cons.prems(3) by simp
  then have "reorder w (y # as @ bs) (y # ys)" by (rule reorder_Cons)
  moreover have "w a \<inter> w y = {}" if "a \<in> set as" for a
  proof (rule ccontr)
    assume "w a \<inter> w y \<noteq> {}"
    then have "f a < f y" using Cons.prems(1) that by (auto simp: xs)
    moreover have "a \<in> set (y # ys)" using that mset_eq_setD [OF Cons.prems(2)] by (auto simp: xs)
    then have "f y \<le> f a" using Cons.prems(3) by auto
    ultimately show False by simp
  qed
  then have "reorder w xs (y # as @ bs)" unfolding xs by (intro reorder_move) simp
  ultimately show ?case by (rule reorder_trans)
qed

lemma sort_key_reorder: "in_order w f xs \<Longrightarrow> reorder w xs (sort_key f xs)"
  by (rule sorted_reorder) (auto simp: mset_sort intro: sorted_sort_key)

text \<open>
  The graph inside a circuit (src/src/qcir/qcir.cpp): gates have ids in the order of their creation, and for each
  pin of a gate the circuit keeps the gate before and the gate after it on that qubit (\<open>_connect\<close>, \<open>append\<close>,
  \<open>prepend\<close>, \<open>remove_gate\<close>). A removed gate leaves a hole among the ids. For gates that were appended the links
  are the neighbours on each qubit in the list of gates.
\<close>

section \<open>The graph\<close>

record qcir_graph =
  qg_gates :: "gate option list"
  qg_preds :: "nat option list list"
  qg_succs :: "nat option list list"
  qg_first :: "nat option list"
  qg_last :: "nat option list"

definition qg_new :: "nat \<Rightarrow> qcir_graph" where
  "qg_new n = \<lparr>qg_gates = [], qg_preds = [], qg_succs = [], qg_first = replicate n None, qg_last = replicate n None\<rparr>"

definition qg_get_gate :: "qcir_graph \<Rightarrow> nat \<Rightarrow> gate option" where
  "qg_get_gate G i = (if i < length (qg_gates G) then qg_gates G ! i else None)"

definition qg_num_gates :: "qcir_graph \<Rightarrow> nat" where
  "qg_num_gates G = length (filter (\<lambda>g. g \<noteq> None) (qg_gates G))"

definition qg_predecessors :: "qcir_graph \<Rightarrow> nat \<Rightarrow> nat option list" where
  "qg_predecessors G i = (if qg_get_gate G i = None then [] else qg_preds G ! i)"

definition qg_successors :: "qcir_graph \<Rightarrow> nat \<Rightarrow> nat option list" where
  "qg_successors G i = (if qg_get_gate G i = None then [] else qg_succs G ! i)"

definition set_pin :: "nat \<Rightarrow> nat \<Rightarrow> nat option \<Rightarrow> nat option list list \<Rightarrow> nat option list list" where
  "set_pin i pin x m = m[i := (m ! i)[pin := x]]"

definition qg_set_successor :: "nat \<Rightarrow> nat \<Rightarrow> nat option \<Rightarrow> qcir_graph \<Rightarrow> qcir_graph" where
  "qg_set_successor i pin x G =
     (case qg_get_gate G i of None \<Rightarrow> G
      | Some g \<Rightarrow> if length (snd g) \<le> pin then G else G\<lparr>qg_succs := set_pin i pin x (qg_succs G)\<rparr>)"

definition qg_set_predecessor :: "nat \<Rightarrow> nat \<Rightarrow> nat option \<Rightarrow> qcir_graph \<Rightarrow> qcir_graph" where
  "qg_set_predecessor i pin x G =
     (case qg_get_gate G i of None \<Rightarrow> G
      | Some g \<Rightarrow> if length (snd g) \<le> pin then G else G\<lparr>qg_preds := set_pin i pin x (qg_preds G)\<rparr>)"

definition pin_by_qubit :: "gate \<Rightarrow> nat \<Rightarrow> nat option" where
  "pin_by_qubit g q = (if q \<in> set (snd g) then Some (length (takeWhile (\<lambda>r. r \<noteq> q) (snd g))) else None)"

definition qg_connect :: "nat \<Rightarrow> nat \<Rightarrow> nat \<Rightarrow> qcir_graph \<Rightarrow> qcir_graph" where
  "qg_connect gid1 gid2 q G =
     (case (qg_get_gate G gid1, qg_get_gate G gid2) of
        (Some g1, Some g2) \<Rightarrow>
          (case (pin_by_qubit g1 q, pin_by_qubit g2 q) of
             (Some pin1, Some pin2) \<Rightarrow> qg_set_predecessor gid2 pin2 (Some gid1) (qg_set_successor gid1 pin1 (Some gid2) G)
           | _ \<Rightarrow> G)
      | _ \<Rightarrow> G)"

definition qg_push :: "gate \<Rightarrow> qcir_graph \<Rightarrow> qcir_graph" where
  "qg_push g G = G\<lparr>qg_gates := qg_gates G @ [Some g], qg_preds := qg_preds G @ [replicate (length (snd g)) None],
     qg_succs := qg_succs G @ [replicate (length (snd g)) None]\<rparr>"

definition link_last :: "nat \<Rightarrow> nat \<Rightarrow> qcir_graph \<Rightarrow> qcir_graph" where
  "link_last i qb G =
     (let G = (case qg_last G ! qb of Some l \<Rightarrow> qg_connect l i qb G | None \<Rightarrow> G\<lparr>qg_first := (qg_first G)[qb := Some i]\<rparr>) in
      G\<lparr>qg_last := (qg_last G)[qb := Some i]\<rparr>)"

definition link_first :: "nat \<Rightarrow> nat \<Rightarrow> qcir_graph \<Rightarrow> qcir_graph" where
  "link_first i qb G =
     (let G = (case qg_first G ! qb of Some f \<Rightarrow> qg_connect i f qb G | None \<Rightarrow> G\<lparr>qg_last := (qg_last G)[qb := Some i]\<rparr>) in
      G\<lparr>qg_first := (qg_first G)[qb := Some i]\<rparr>)"

definition qg_append :: "gate \<Rightarrow> qcir_graph \<Rightarrow> qcir_graph" where
  "qg_append g G = fold (link_last (length (qg_gates G))) (snd g) (qg_push g G)"

definition qg_prepend :: "gate \<Rightarrow> qcir_graph \<Rightarrow> qcir_graph" where
  "qg_prepend g G = fold (link_first (length (qg_gates G))) (snd g) (qg_push g G)"

definition bypass_pin :: "nat \<Rightarrow> gate \<Rightarrow> nat \<Rightarrow> qcir_graph \<Rightarrow> qcir_graph" where
  "bypass_pin i g pin G =
     (let pred = qg_predecessors G i ! pin; succ = qg_successors G i ! pin; q = snd g ! pin;
          G1 = (case Option.bind pred (qg_get_gate G) of
                  Some h \<Rightarrow> qg_set_successor (the pred) (the (pin_by_qubit h q)) succ G
                | None \<Rightarrow> G\<lparr>qg_first := (qg_first G)[q := succ]\<rparr>) in
      (case Option.bind succ (qg_get_gate G) of
         Some h \<Rightarrow> qg_set_predecessor (the succ) (the (pin_by_qubit h q)) pred G1
       | None \<Rightarrow> G1\<lparr>qg_last := (qg_last G1)[q := pred]\<rparr>))"

definition qg_remove_gate :: "nat \<Rightarrow> qcir_graph \<Rightarrow> qcir_graph \<times> bool" where
  "qg_remove_gate i G =
     (case qg_get_gate G i of None \<Rightarrow> (G, False)
      | Some g \<Rightarrow> let G = fold (bypass_pin i g) [0..<length (snd g)] G in (G\<lparr>qg_gates := (qg_gates G)[i := None]\<rparr>, True))"

definition qg_of_gates :: "nat \<Rightarrow> gate list \<Rightarrow> qcir_graph" where
  "qg_of_gates n gs = fold qg_append gs (qg_new n)"

section \<open>Neighbours in a list of gates\<close>

definition meets :: "gate list \<Rightarrow> nat \<Rightarrow> nat \<Rightarrow> bool" where
  "meets gs q j \<longleftrightarrow> q \<in> set (snd (gs ! j))"

definition prev_on :: "gate list \<Rightarrow> nat \<Rightarrow> nat \<Rightarrow> nat option" where
  "prev_on gs i q = find (meets gs q) (rev [0..<i])"

definition next_on :: "gate list \<Rightarrow> nat \<Rightarrow> nat \<Rightarrow> nat option" where
  "next_on gs i q = find (meets gs q) [Suc i..<length gs]"

lemma find_Some_iff': "find P (xs @ ys) = (case find P xs of Some x \<Rightarrow> Some x | None \<Rightarrow> find P ys)"
  by (induction xs) auto

lemma find_cong': "(\<And>x. x \<in> set xs \<Longrightarrow> P x = Q x) \<Longrightarrow> find P xs = find Q xs"
  by (induction xs) auto

lemma prev_on_app: "i \<le> length gs \<Longrightarrow> prev_on (gs @ hs) i q = prev_on gs i q"
  unfolding prev_on_def by (rule find_cong') (auto simp: meets_def nth_append)

lemma next_on_app:
  "i < length gs \<Longrightarrow> next_on (gs @ [g]) i q =
    (case next_on gs i q of Some j \<Rightarrow> Some j | None \<Rightarrow> if q \<in> set (snd g) then Some (length gs) else None)"
proof -
  assume "i < length gs"
  then have "[Suc i..<length (gs @ [g])] = [Suc i..<length gs] @ [length gs]" by simp
  moreover have "find (meets (gs @ [g]) q) [Suc i..<length gs] = find (meets gs q) [Suc i..<length gs]"
    by (rule find_cong') (auto simp: meets_def nth_append)
  moreover have "find (meets (gs @ [g]) q) [length gs] = (if q \<in> set (snd g) then Some (length gs) else None)"
    by (simp add: meets_def)
  ultimately show ?thesis by (simp only: next_on_def find_Some_iff')
qed

lemma prev_on_Suc: "prev_on gs (Suc i) q = (if meets gs q i then Some i else prev_on gs i q)"
  by (simp add: prev_on_def)

lemma prev_on_SomeD:
  assumes "prev_on gs i q = Some j"
  shows "j < i" "meets gs q j" "j < k \<Longrightarrow> k < i \<Longrightarrow> \<not> meets gs q k"
proof -
  have "j < i \<and> meets gs q j \<and> (\<forall>k. j < k \<and> k < i \<longrightarrow> \<not> meets gs q k)"
    using assms
  proof (induction i)
    case (Suc i)
    then show ?case by (auto simp: prev_on_Suc less_Suc_eq split: if_splits)
  qed (simp add: prev_on_def)
  then show "j < i" "meets gs q j" "j < k \<Longrightarrow> k < i \<Longrightarrow> \<not> meets gs q k" by auto
qed

lemma prev_on_NoneD: "prev_on gs i q = None \<Longrightarrow> k < i \<Longrightarrow> \<not> meets gs q k"
  by (auto simp: prev_on_def find_None_iff)

text \<open>A gate on a qubit has no next gate there exactly if it is the last one.\<close>

lemma next_on_None_iff: "i < length gs \<Longrightarrow> meets gs q i \<Longrightarrow> next_on gs i q = None \<longleftrightarrow> prev_on gs (length gs) q = Some i"
proof
  assume i: "i < length gs" "meets gs q i"
  show "prev_on gs (length gs) q = Some i" if n: "next_on gs i q = None"
  proof (cases "prev_on gs (length gs) q")
    case None
    then show ?thesis using prev_on_NoneD i by blast
  next
    case (Some j)
    note j = prev_on_SomeD [OF Some]
    have "\<not> meets gs q k" if "i < k" "k < length gs" for k using n that by (auto simp: next_on_def find_None_iff)
    then have "j \<le> i" using j by (meson not_le)
    moreover have "i \<le> j" using j(3) [of i] i by (meson not_le)
    ultimately show ?thesis using Some by simp
  qed
  show "next_on gs i q = None" if p: "prev_on gs (length gs) q = Some i"
    using prev_on_SomeD [OF p] by (auto simp: next_on_def find_None_iff)
qed

section \<open>The links of appended gates\<close>

lemma pin_by_qubit_nth:
  assumes "distinct (snd g)"
  shows "pin_by_qubit g q = Some k \<longleftrightarrow> k < length (snd g) \<and> snd g ! k = q"
proof (cases "q \<in> set (snd g)")
  case True
  let ?k = "length (takeWhile (\<lambda>r. r \<noteq> q) (snd g))"
  have ne: "takeWhile (\<lambda>r. r \<noteq> q) (snd g) \<noteq> snd g" using True by (auto simp: takeWhile_eq_all_conv)
  then have k: "?k < length (snd g)" by (metis length_takeWhile_le le_neq_implies_less takeWhile_eq_take take_all)
  then have "snd g ! ?k = q" using nth_length_takeWhile [of "\<lambda>r. r \<noteq> q" "snd g"] by simp
  then show ?thesis using k True assms nth_eq_iff_index_eq [OF assms] by (auto simp: pin_by_qubit_def)
qed (auto simp: pin_by_qubit_def)

definition links_ok :: "nat \<Rightarrow> gate list \<Rightarrow> gate \<Rightarrow> nat set \<Rightarrow> qcir_graph \<Rightarrow> bool" where
  "links_ok n gs g S G \<longleftrightarrow>
     qg_gates G = map Some (gs @ [g]) \<and> length (qg_last G) = n \<and> length (qg_first G) = n \<and>
     length (qg_preds G) = Suc (length gs) \<and> length (qg_succs G) = Suc (length gs) \<and>
     (\<forall>i \<le> length gs. length (qg_preds G ! i) = length (snd ((gs @ [g]) ! i)) \<and> length (qg_succs G ! i) = length (snd ((gs @ [g]) ! i))) \<and>
     (\<forall>q < n. qg_last G ! q = (if q \<in> S then Some (length gs) else prev_on gs (length gs) q)) \<and>
     (\<forall>i < length gs. \<forall>k < length (snd (gs ! i)). qg_preds G ! i ! k = prev_on gs i (snd (gs ! i) ! k) \<and>
        qg_succs G ! i ! k = (case next_on gs i (snd (gs ! i) ! k) of Some j \<Rightarrow> Some j
           | None \<Rightarrow> if snd (gs ! i) ! k \<in> S then Some (length gs) else None)) \<and>
     (\<forall>k < length (snd g). qg_preds G ! length gs ! k = (if snd g ! k \<in> S then prev_on gs (length gs) (snd g ! k) else None) \<and>
        qg_succs G ! length gs ! k = None)"

definition graph_links :: "nat \<Rightarrow> gate list \<Rightarrow> qcir_graph \<Rightarrow> bool" where
  "graph_links n gs G \<longleftrightarrow>
     qg_gates G = map Some gs \<and> length (qg_last G) = n \<and> length (qg_first G) = n \<and>
     length (qg_preds G) = length gs \<and> length (qg_succs G) = length gs \<and>
     (\<forall>i < length gs. length (qg_preds G ! i) = length (snd (gs ! i)) \<and> length (qg_succs G ! i) = length (snd (gs ! i))) \<and>
     (\<forall>q < n. qg_last G ! q = prev_on gs (length gs) q) \<and>
     (\<forall>i < length gs. \<forall>k < length (snd (gs ! i)). qg_preds G ! i ! k = prev_on gs i (snd (gs ! i) ! k) \<and>
        qg_succs G ! i ! k = next_on gs i (snd (gs ! i) ! k))"

lemma links_push:
  assumes "graph_links n gs G" "on_qubits n g"
  shows "links_ok n gs g {} (qg_push g G)"
  using assms by (auto simp: graph_links_def links_ok_def qg_push_def nth_append split: option.splits)

lemma links_done:
  assumes l: "links_ok n gs g (set (snd g)) G" and g: "on_qubits n g"
  shows "graph_links n (gs @ [g]) G"
proof -
  have m: "meets (gs @ [g]) q (length gs) \<longleftrightarrow> q \<in> set (snd g)" for q by (simp add: meets_def)
  have "next_on (gs @ [g]) (length gs) q = None" for q by (simp add: next_on_def)
  then show ?thesis
    using l unfolding graph_links_def links_ok_def
    by (auto simp: nth_append less_Suc_eq prev_on_app next_on_app prev_on_Suc m split: option.splits)
qed

lemma links_step:
  assumes l: "links_ok n gs g S G" and gs: "gates_ok n gs" and g: "on_qubits n g" and q: "q \<in> set (snd g)" "q \<notin> S"
  shows "links_ok n gs g (insert q S) (link_last (length gs) q G)"
proof -
  let ?m = "length gs"
  have qn: "q < n" and dg: "distinct (snd g)" using g q by (auto simp: on_qubits_def)
  obtain k where k: "k < length (snd g)" "snd g ! k = q" using q(1) by (auto simp: in_set_conv_nth)
  have pk: "pin_by_qubit g q = Some k" using pin_by_qubit_nth [OF dg] k by simp
  have only_k: "snd g ! k' = q \<longleftrightarrow> k' = k" if "k' < length (snd g)" for k' using nth_eq_iff_index_eq [OF dg that k(1)] k(2) by simp
  have lq: "qg_last G ! q = prev_on gs ?m q" using l q(2) qn by (simp add: links_ok_def)
  have gm: "qg_get_gate G ?m = Some g" using l by (simp add: links_ok_def qg_get_gate_def nth_append)
  show ?thesis
  proof (cases "prev_on gs ?m q")
    case None
    then have e: "link_last ?m q G = G\<lparr>qg_first := (qg_first G)[q := Some ?m], qg_last := (qg_last G)[q := Some ?m]\<rparr>"
      by (simp add: link_last_def lq)
    have no: "snd (gs ! i) ! k' \<noteq> q" if "i < ?m" "k' < length (snd (gs ! i))" for i k'
      using prev_on_NoneD [OF None that(1)] that(2) by (auto simp: meets_def)
    have last: "(qg_last G)[q := Some ?m] ! r = (if r \<in> insert q S then Some ?m else prev_on gs ?m r)" if "r < n" for r
      using l qn that by (auto simp: links_ok_def nth_list_update)
    have pr: "qg_preds G ! ?m ! k' = (if snd g ! k' \<in> insert q S then prev_on gs ?m (snd g ! k') else None)" if "k' < length (snd g)" for k'
      using l that None by (auto simp: links_ok_def)
    have su: "qg_succs G ! i ! k' = (case next_on gs i (snd (gs ! i) ! k') of Some j \<Rightarrow> Some j
        | None \<Rightarrow> if snd (gs ! i) ! k' \<in> insert q S then Some ?m else None)" if "i < ?m" "k' < length (snd (gs ! i))" for i k'
      using l that no [OF that] by (simp add: links_ok_def)
    show ?thesis unfolding e links_ok_def qcir_graph.simps using l last pr su unfolding links_ok_def by simp
  next
    case (Some i)
    have i: "i < ?m" "meets gs q i" using prev_on_SomeD [OF Some] by auto
    have di: "distinct (snd (gs ! i))" using gs i(1) by (auto simp: gates_ok_def list_all_length gate_ok_def on_qubits_def)
    obtain k1 where k1: "k1 < length (snd (gs ! i))" "snd (gs ! i) ! k1 = q" using i(2) by (auto simp: meets_def in_set_conv_nth)
    have p1: "pin_by_qubit (gs ! i) q = Some k1" using pin_by_qubit_nth [OF di] k1 by simp
    have only_k1: "snd (gs ! i) ! k' = q \<longleftrightarrow> k' = k1" if "k' < length (snd (gs ! i))" for k'
      using nth_eq_iff_index_eq [OF di that k1(1)] k1(2) by simp
    have gi: "qg_get_gate G i = Some (gs ! i)" using l i(1) by (simp add: links_ok_def qg_get_gate_def nth_append)
    let ?G = "G\<lparr>qg_succs := set_pin i k1 (Some ?m) (qg_succs G), qg_preds := set_pin ?m k (Some i) (qg_preds G),
        qg_last := (qg_last G)[q := Some ?m]\<rparr>"
    have gm': "qg_get_gate (G\<lparr>qg_succs := x\<rparr>) ?m = Some g" for x using gm by (simp add: qg_get_gate_def split: if_splits)
    have e: "link_last ?m q G = ?G"
      using lq Some gm gi pk p1 k(1) k1(1) gm'
      by (simp add: link_last_def qg_connect_def qg_set_successor_def qg_set_predecessor_def)
    have nx: "next_on gs i q = None" using next_on_None_iff [OF i] Some by simp
    have nx1: "next_on gs i (snd (gs ! i) ! k1) = None" using nx k1(2) by simp
    have nx': "next_on gs i' (snd (gs ! i') ! k') \<noteq> None" if "i' < ?m" "k' < length (snd (gs ! i'))" "snd (gs ! i') ! k' = q" "i' \<noteq> i" for i' k'
      using next_on_None_iff [of i' gs q] that Some by (auto simp: meets_def)
    have su: "qg_succs ?G ! i' ! k' = (if i' = i \<and> k' = k1 then Some ?m else qg_succs G ! i' ! k')" if "i' \<le> ?m" for i' k'
      using l that i(1) k1(1) by (auto simp: links_ok_def set_pin_def nth_list_update nth_append)
    have pr: "qg_preds ?G ! i' ! k' = (if i' = ?m \<and> k' = k then Some i else qg_preds G ! i' ! k')" if "i' \<le> ?m" for i' k'
      using l that k(1) by (auto simp: links_ok_def set_pin_def nth_list_update nth_append)
    show ?thesis
      unfolding e links_ok_def
    proof (intro conjI allI impI)
      show "qg_gates ?G = map Some (gs @ [g])" "length (qg_last ?G) = n" "length (qg_first ?G) = n"
        "length (qg_preds ?G) = Suc ?m" "length (qg_succs ?G) = Suc ?m" using l by (auto simp: links_ok_def set_pin_def)
      fix i' assume "i' \<le> ?m"
      then show "length (qg_preds ?G ! i') = length (snd ((gs @ [g]) ! i'))" "length (qg_succs ?G ! i') = length (snd ((gs @ [g]) ! i'))"
        using l i(1) by (auto simp: links_ok_def set_pin_def nth_list_update)
    next
      fix r assume "r < n"
      then show "qg_last ?G ! r = (if r \<in> insert q S then Some ?m else prev_on gs ?m r)"
        using l qn by (auto simp: links_ok_def nth_list_update)
    next
      fix i' k' assume i': "i' < ?m" "k' < length (snd (gs ! i'))"
      then show "qg_preds ?G ! i' ! k' = prev_on gs i' (snd (gs ! i') ! k')" using l pr [of i' k'] by (simp add: links_ok_def)
      have "qg_succs ?G ! i' ! k' = (if i' = i \<and> k' = k1 then Some ?m else qg_succs G ! i' ! k')" using su [of i' k'] i' by simp
      moreover have "qg_succs G ! i' ! k' = (case next_on gs i' (snd (gs ! i') ! k') of Some j \<Rightarrow> Some j
          | None \<Rightarrow> if snd (gs ! i') ! k' \<in> S then Some ?m else None)" using l i' by (simp add: links_ok_def)
      moreover have "snd (gs ! i') ! k' = q \<Longrightarrow> i' = i \<and> k' = k1 \<or> next_on gs i' (snd (gs ! i') ! k') \<noteq> None"
        using nx' [OF i'] only_k1 i' by auto
      moreover have "next_on gs i' (snd (gs ! i') ! k') = None \<and> snd (gs ! i') ! k' = q" if "i' = i \<and> k' = k1" using that nx1 k1(2) by simp
      ultimately show "qg_succs ?G ! i' ! k' = (case next_on gs i' (snd (gs ! i') ! k') of Some j \<Rightarrow> Some j
          | None \<Rightarrow> if snd (gs ! i') ! k' \<in> insert q S then Some ?m else None)"
        by (cases "i' = i \<and> k' = k1") (auto split: option.splits)
    next
      fix k' assume k': "k' < length (snd g)"
      then show "qg_preds ?G ! ?m ! k' = (if snd g ! k' \<in> insert q S then prev_on gs ?m (snd g ! k') else None)"
      proof (cases "k' = k")
        case True
        then have "snd g ! k' = q" using k(2) by simp
        then show ?thesis using pr [of ?m k'] True Some by simp
      next
        case False
        then have "snd g ! k' \<noteq> q" using only_k [OF k'] by simp
        then show ?thesis using l pr [of ?m k'] False k' by (simp add: links_ok_def)
      qed
      show "qg_succs ?G ! ?m ! k' = None" using l su [of ?m k'] k' i(1) by (simp add: links_ok_def)
    qed
  qed
qed

lemma qg_append_links:
  assumes l: "graph_links n gs G" and gs: "gates_ok n gs" and g: "gate_ok n g"
  shows "graph_links n (gs @ [g]) (qg_append g G)"
proof -
  have gq: "on_qubits n g" using g by (simp add: gate_ok_def)
  have len: "length (qg_gates G) = length gs" using l by (simp add: graph_links_def)
  have "links_ok n gs g (S \<union> set qs) (fold (link_last (length gs)) qs H)"
    if "links_ok n gs g S H" "distinct qs" "set qs \<inter> S = {}" "set qs \<subseteq> set (snd g)" for qs S H
    using that
  proof (induction qs arbitrary: S H)
    case (Cons q qs)
    have "links_ok n gs g (insert q S) (link_last (length gs) q H)" by (rule links_step [OF Cons.prems(1) gs gq]) (use Cons.prems in auto)
    from Cons.IH [OF this] Cons.prems show ?case by simp
  qed simp
  from this [OF links_push [OF l gq], of "snd g"] have "links_ok n gs g (set (snd g)) (qg_append g G)"
    using gq by (simp add: qg_append_def len on_qubits_def)
  then show ?thesis by (rule links_done [OF _ gq])
qed

lemma qg_of_gates_links: "gates_ok n gs \<Longrightarrow> graph_links n gs (qg_of_gates n gs)"
proof (induction gs rule: rev_induct)
  case Nil
  then show ?case by (simp add: qg_of_gates_def qg_new_def graph_links_def prev_on_def)
next
  case (snoc g gs)
  then show ?case using qg_append_links [of n gs "qg_of_gates n gs" g] by (simp add: qg_of_gates_def)
qed

end
