(* ===== verification/Placement.thy ===== *)
theory Placement
  imports Router CircuitGraph
begin

text \<open>
  What a sequence of routed operations means. A placement lists the logical qubit of each physical qubit; a
  SWAP operation exchanges two entries, any other operation stands for the logical gate on the logical qubits
  its physical qubits hold (\<open>unroute\<close>). \<open>runs\<close> says that a sequence of operations, on coupled qubits and
  at times at which the qubits are free, performs logical gates and leads from one device to another.
\<close>

section \<open>Placements\<close>

definition exchange :: "nat \<Rightarrow> nat \<Rightarrow> 'a list \<Rightarrow> 'a list" where
  "exchange a b p = p[a := p ! b, b := p ! a]"

definition placement :: "nat \<Rightarrow> nat list \<Rightarrow> bool" where
  "placement n p \<longleftrightarrow> length p = n \<and> distinct p \<and> set p = {..<n}"

definition placed :: "device \<Rightarrow> nat list \<Rightarrow> bool" where
  "placed d p \<longleftrightarrow> mapping d = map Some p \<and> placement (length (dv_qubits d)) p"

lemma placed_logical: "placed d p \<Longrightarrow> i < length (dv_qubits d) \<Longrightarrow> pq_logical (phys d i) = Some (p ! i)"
proof -
  assume p: "placed d p" and i: "i < length (dv_qubits d)"
  then have "mapping d ! i = Some (p ! i)" by (simp add: placed_def placement_def)
  then show ?thesis using i by (simp add: mapping_def)
qed

lemma placedI:
  "placement (length (dv_qubits d)) p \<Longrightarrow> (\<And>i. i < length (dv_qubits d) \<Longrightarrow> pq_logical (phys d i) = Some (p ! i)) \<Longrightarrow> placed d p"
  by (auto simp: placed_def placement_def mapping_def intro: nth_equalityI)

lemma length_exchange [simp]: "length (exchange a b p) = length p"
  by (simp add: exchange_def)

lemma nth_exchange:
  "a < length p \<Longrightarrow> b < length p \<Longrightarrow> i < length p \<Longrightarrow> exchange a b p ! i = (if i = b then p ! a else if i = a then p ! b else p ! i)"
  by (simp add: exchange_def nth_list_update)

lemma exchange_placement: "placement n p \<Longrightarrow> a < n \<Longrightarrow> b < n \<Longrightarrow> placement n (exchange a b p)"
  by (auto simp: placement_def exchange_def distinct_swap set_swap)

section \<open>Logical gates of physical operations\<close>

definition real_qubits :: "gate \<Rightarrow> nat list" where
  "real_qubits g = filter (\<lambda>q. q \<noteq> max_qubit_id) (snd g)"

definition wires :: "gate \<Rightarrow> nat set" where
  "wires g = set (real_qubits g)"

abbreviation is_swap_op :: "gate \<Rightarrow> bool" where
  "is_swap_op g \<equiv> operation_eq (fst g) SwapGate"

definition logical_gate :: "nat list \<Rightarrow> gate \<Rightarrow> gate" where
  "logical_gate p g = (fst g, map (\<lambda>q. p ! q) (real_qubits g))"

definition move_qubits :: "gate \<Rightarrow> nat list \<Rightarrow> nat list" where
  "move_qubits g p = (if is_swap_op g then exchange (snd g ! 0) (snd g ! 1) p else p)"

fun unroute :: "gate list \<Rightarrow> nat list \<Rightarrow> gate list" where
  "unroute [] p = []"
| "unroute (g # gs) p = (if is_swap_op g then unroute gs (move_qubits g p) else logical_gate p g # unroute gs p)"

definition final_placement :: "gate list \<Rightarrow> nat list \<Rightarrow> nat list" where
  "final_placement gs p = fold move_qubits gs p"

lemma unroute_append: "unroute (gs @ hs) p = unroute gs p @ unroute hs (final_placement gs p)"
  by (induction gs arbitrary: p) (auto simp: final_placement_def move_qubits_def)

lemma final_placement_append [simp]: "final_placement (gs @ hs) p = final_placement hs (final_placement gs p)"
  by (simp add: final_placement_def)

lemma swap_on_is_swap [simp]: "is_swap_op (swap_on a b)"
  by (simp add: swap_on_def operation_eq_def)

section \<open>Devices that differ in what they hold\<close>

definition same_frame :: "device \<Rightarrow> device \<Rightarrow> bool" where
  "same_frame d d' \<longleftrightarrow>
     length (dv_qubits d') = length (dv_qubits d) \<and> dv_num_qubit d' = dv_num_qubit d \<and> dv_topology d' = dv_topology d \<and>
     (\<forall>i < length (dv_qubits d). pq_id (phys d' i) = pq_id (phys d i) \<and> pq_adjacencies (phys d' i) = pq_adjacencies (phys d i))"

lemma same_frame_refl [simp, intro]: "same_frame d d"
  by (simp add: same_frame_def)

lemma same_frame_trans: "same_frame d d' \<Longrightarrow> same_frame d' d'' \<Longrightarrow> same_frame d d''"
  by (auto simp: same_frame_def)

lemma same_frame_length: "same_frame d d' \<Longrightarrow> length (dv_qubits d') = length (dv_qubits d)"
  by (simp add: same_frame_def)

lemma same_frame_coupling: "same_frame d d' \<Longrightarrow> coupling d' = coupling d"
  by (auto simp: same_frame_def coupling_def)

lemma same_frame_ok: "same_frame d d' \<Longrightarrow> device_ok d \<Longrightarrow> device_ok d'"
  using same_frame_coupling [of d d'] by (auto simp: device_ok_def same_frame_def)

lemma same_frame_tables: "same_frame d d' \<Longrightarrow> routed_tables d D P \<Longrightarrow> routed_tables d' D P"
  using same_frame_coupling [of d d'] by (simp add: routed_tables_def same_frame_def)

lemma same_frame_route: "same_frame d d' \<Longrightarrow> on_route d P w \<Longrightarrow> on_route d' P w"
  using same_frame_coupling [of d d'] by (simp add: on_route_def same_frame_def)

lemma nth_list_update': "(xs[i := x]) ! j = (if i = j \<and> j < length xs then x else xs ! j)"
  by (cases "i < length xs") (auto simp: nth_list_update list_update_beyond)

lemma same_frame_upd:
  "(\<And>q. pq_id (f q) = pq_id q) \<Longrightarrow> (\<And>q. pq_adjacencies (f q) = pq_adjacencies q) \<Longrightarrow> same_frame d (upd_qubit i f d)"
  unfolding same_frame_def upd_qubit_def by (simp add: nth_list_update')

lemma length_upd_qubit [simp]: "length (dv_qubits (upd_qubit i f d)) = length (dv_qubits d)"
  by (simp add: upd_qubit_def)

lemma phys_upd_qubit: "j < length (dv_qubits d) \<Longrightarrow> phys (upd_qubit i f d) j = (if j = i then f (phys d j) else phys d j)"
  by (simp add: upd_qubit_def nth_list_update)

lemma set_fields [simp]:
  "pq_id (set_occupied t q) = pq_id q" "pq_adjacencies (set_occupied t q) = pq_adjacencies q"
  "pq_logical (set_occupied t q) = pq_logical q" "pq_occupied (set_occupied t q) = t"
  "pq_id (set_logical l q) = pq_id q" "pq_adjacencies (set_logical l q) = pq_adjacencies q"
  "pq_logical (set_logical l q) = l" "pq_occupied (set_logical l q) = pq_occupied q"
  by (simp_all add: set_occupied_def set_logical_def)

lemma same_frame_set: "same_frame d d' \<Longrightarrow> same_frame d (upd_qubit a (set_logical l) d')"
  "same_frame d d' \<Longrightarrow> same_frame d (upd_qubit a (set_occupied t) d')"
  by (erule same_frame_trans, rule same_frame_upd; simp)+

lemma same_frame_apply_gate: "same_frame d (apply_gate g t d)"
  by (simp add: apply_gate_def Let_def same_frame_set)

section \<open>Times\<close>

definition occupied :: "device \<Rightarrow> nat \<Rightarrow> nat" where
  "occupied d i = pq_occupied (phys d i)"

definition busy :: "gate_info \<Rightarrow> (nat \<Rightarrow> nat) \<Rightarrow> nat \<Rightarrow> nat" where
  "busy x f = (\<lambda>q. if q \<in> wires (fst x) then end_time x else f q)"

fun timeline :: "(nat \<Rightarrow> nat) \<Rightarrow> gate_info list \<Rightarrow> bool" where
  "timeline f [] = True"
| "timeline f (x # xs) \<longleftrightarrow> (\<forall>q \<in> wires (fst x). f q \<le> start_time x) \<and> start_time x < end_time x \<and> timeline (busy x f) xs"

definition busy_after :: "gate_info list \<Rightarrow> (nat \<Rightarrow> nat) \<Rightarrow> nat \<Rightarrow> nat" where
  "busy_after xs f = fold busy xs f"

lemma timeline_append: "timeline f (xs @ ys) \<longleftrightarrow> timeline f xs \<and> timeline (busy_after xs f) ys"
  by (induction xs arbitrary: f) (auto simp: busy_after_def)

lemma busy_after_append: "busy_after (xs @ ys) f = busy_after ys (busy_after xs f)"
  by (simp add: busy_after_def)

lemma timeline_cong:
  "(\<And>x q. x \<in> set xs \<Longrightarrow> q \<in> wires (fst x) \<Longrightarrow> q < n) \<Longrightarrow> (\<And>q. q < n \<Longrightarrow> f q = f' q) \<Longrightarrow> timeline f xs = timeline f' xs"
proof (induction xs arbitrary: f f')
  case (Cons x xs)
  have "timeline (busy x f) xs = timeline (busy x f') xs"
  proof (rule Cons.IH)
    show "q < n" if "y \<in> set xs" "q \<in> wires (fst y)" for y q using Cons.prems(1) [of y q] that by simp
    show "busy x f q = busy x f' q" if "q < n" for q using Cons.prems(2) [OF that] by (simp add: busy_def)
  qed
  moreover have "f q = f' q" if "q \<in> wires (fst x)" for q using Cons.prems(1) [of x q] Cons.prems(2) that by simp
  ultimately show ?case by simp
qed simp

lemma busy_after_cong: "(\<And>q. q < n \<Longrightarrow> f q = f' q) \<Longrightarrow> q < n \<Longrightarrow> busy_after xs f q = busy_after xs f' q"
proof (induction xs arbitrary: f f')
  case (Cons x xs)
  have "busy_after xs (busy x f) q = busy_after xs (busy x f') q" by (rule Cons.IH) (use Cons.prems in \<open>auto simp: busy_def\<close>)
  then show ?case by (simp add: busy_after_def)
qed (simp add: busy_after_def)

lemma timeline_lower: "timeline f xs \<Longrightarrow> x \<in> set xs \<Longrightarrow> q \<in> wires (fst x) \<Longrightarrow> f q \<le> start_time x"
proof (induction xs arbitrary: f)
  case (Cons y ys)
  show ?case
  proof (cases "x = y")
    case False
    then have "busy y f q \<le> start_time x" using Cons by simp
    then show ?thesis using Cons.prems(1) by (force simp: busy_def split: if_splits)
  qed (use Cons.prems in simp)
qed simp

lemma timeline_in_order: "timeline f xs \<Longrightarrow> in_order (\<lambda>x. wires (fst x)) start_time xs"
proof (induction xs arbitrary: f)
  case (Cons x xs)
  have "start_time x < start_time y" if y: "y \<in> set xs" and w: "wires (fst x) \<inter> wires (fst y) \<noteq> {}" for y
  proof -
    obtain q where q: "q \<in> wires (fst x)" "q \<in> wires (fst y)" using w by auto
    have "busy x f q \<le> start_time y" using timeline_lower [of "busy x f" xs y q] Cons.prems y q(2) by simp
    then show ?thesis using q(1) Cons.prems by (simp add: busy_def)
  qed
  then show ?case using Cons by auto
qed simp

section \<open>Runs\<close>

definition on_coupling :: "device \<Rightarrow> gate \<Rightarrow> bool" where
  "on_coupling d g \<longleftrightarrow>
     (\<exists>q < length (dv_qubits d). snd g = [q, max_qubit_id] \<and> \<not> is_swap_op g) \<or> (\<exists>a b. (a, b) \<in> coupling d \<and> snd g = [a, b])"

definition runs :: "device \<Rightarrow> nat list \<Rightarrow> gate_info list \<Rightarrow> gate list \<Rightarrow> device \<Rightarrow> nat list \<Rightarrow> bool" where
  "runs d p xs gs d' p' \<longleftrightarrow>
     same_frame d d' \<and> placed d' p' \<and> unroute (map fst xs) p = gs \<and> final_placement (map fst xs) p = p' \<and>
     (\<forall>x \<in> set xs. on_coupling d (fst x)) \<and> timeline (occupied d) xs \<and>
     (\<forall>q < length (dv_qubits d). busy_after xs (occupied d) q = occupied d' q)"

lemma runsD:
  assumes "runs d p xs gs d' p'"
  shows "same_frame d d'" "placed d' p'" "unroute (map fst xs) p = gs" "final_placement (map fst xs) p = p'"
    "x \<in> set xs \<Longrightarrow> on_coupling d (fst x)" "timeline (occupied d) xs"
    "q < length (dv_qubits d) \<Longrightarrow> busy_after xs (occupied d) q = occupied d' q"
  using assms by (auto simp: runs_def)

lemma small_qubit: "device_ok d \<Longrightarrow> q < length (dv_qubits d) \<Longrightarrow> q < max_qubit_id"
  using device_okD(3) [of d] by (simp add: max_dist_def max_qubit_id_def)

lemma wires_on_coupling: "device_ok d \<Longrightarrow> on_coupling d g \<Longrightarrow> wires g \<subseteq> {..<length (dv_qubits d)}"
  using graph_okD(1,2) [OF device_okD(5), of d] by (auto simp: on_coupling_def wires_def real_qubits_def)

lemma runs_refl: "placed d p \<Longrightarrow> runs d p [] [] d p"
  by (simp add: runs_def final_placement_def busy_after_def)

lemma runs_append:
  assumes ok: "device_ok d" and a: "runs d p xs gs d' p'" and b: "runs d' p' ys hs d'' p''"
  shows "runs d p (xs @ ys) (gs @ hs) d'' p''"
proof -
  note aa = runsD [OF a] and bb = runsD [OF b]
  have n: "length (dv_qubits d') = length (dv_qubits d)" "coupling d' = coupling d"
    using same_frame_length [OF aa(1)] same_frame_coupling [OF aa(1)] .
  have wy: "q < length (dv_qubits d)" if "y \<in> set ys" "q \<in> wires (fst y)" for y q
    using wires_on_coupling [OF same_frame_ok [OF aa(1) ok] bb(5) [OF that(1)]] that(2) n by auto
  have "timeline (busy_after xs (occupied d)) ys"
    using timeline_cong [of ys "length (dv_qubits d)" "busy_after xs (occupied d)" "occupied d'"] wy aa(7) bb(6) by simp
  moreover have "busy_after ys (busy_after xs (occupied d)) q = occupied d'' q" if "q < length (dv_qubits d)" for q
    using busy_after_cong [of "length (dv_qubits d)" "busy_after xs (occupied d)" "occupied d'" q ys] aa(7) bb(7) that n by simp
  moreover have "on_coupling d (fst y)" if "y \<in> set ys" for y using bb(5) [OF that] n by (simp add: on_coupling_def)
  ultimately show ?thesis
    using same_frame_trans [OF aa(1) bb(1)] aa bb by (auto simp: runs_def unroute_append timeline_append busy_after_append)
qed

lemma get_delay_pos: "0 < get_delay g"
  by (simp add: get_delay_def)

lemma runs_pair:
  assumes ok: "device_ok d" and p: "placed d p" and ab: "(a, b) \<in> coupling d" and g: "snd g = [a, b]"
    and t: "occupied d a \<le> t" "occupied d b \<le> t"
  shows "runs d p [(g, (t, t + get_delay g))] (if is_swap_op g then [] else [logical_gate p g]) (apply_gate g t d) (move_qubits g p)"
proof -
  have gr: "graph_ok (length (dv_qubits d)) (coupling d)" by (rule device_okD(5) [OF ok])
  have n: "a < length (dv_qubits d)" "b < length (dv_qubits d)" "a \<noteq> b" using graph_okD(1-3) [OF gr ab] .
  have pl: "placement (length (dv_qubits d)) p" using p by (simp add: placed_def)
  have rq: "real_qubits g = [a, b]" using n small_qubit [OF ok] g by (fastforce simp: real_qubits_def)
  have ph: "phys (apply_gate g t d) i =
      (if i = a then set_occupied (t + get_delay g) ((if is_swap_op g then set_logical (pq_logical (phys d b)) else id) (phys d a))
       else if i = b then set_occupied (t + get_delay g) ((if is_swap_op g then set_logical (pq_logical (phys d a)) else id) (phys d b))
       else phys d i)" if "i < length (dv_qubits d)" for i
    using n that g by (simp add: apply_gate_def Let_def phys_upd_qubit)
  have lp: "length p = length (dv_qubits d)" using pl by (simp add: placement_def)
  have len: "length (dv_qubits (apply_gate g t d)) = length (dv_qubits d)"
    using same_frame_length [OF same_frame_apply_gate] .
  have "placed (apply_gate g t d) (move_qubits g p)"
  proof (rule placedI, unfold len)
    show "placement (length (dv_qubits d)) (move_qubits g p)"
      using exchange_placement [OF pl n(1,2)] pl g by (simp add: move_qubits_def)
    fix i assume i: "i < length (dv_qubits d)"
    show "pq_logical (phys (apply_gate g t d) i) = Some (move_qubits g p ! i)"
      unfolding ph [OF i] using placed_logical [OF p] n i lp g by (simp add: move_qubits_def nth_exchange)
  qed
  moreover have "busy (g, (t, t + get_delay g)) (occupied d) q = occupied (apply_gate g t d) q" if "q < length (dv_qubits d)" for q
    unfolding occupied_def ph [OF that] using that by (auto simp: busy_def wires_def rq)
  ultimately show ?thesis
    using t ab g get_delay_pos [of g]
    by (auto simp: runs_def same_frame_apply_gate final_placement_def on_coupling_def wires_def rq busy_after_def)
qed

text \<open>
  \<open>Router::apsp_routing\<close> (src/src/duostra/router.cpp): the two qubits move towards each other on one shortest
  path, since the tables of predecessors lead along it from both of its ends. The loop ends, each operation is on
  coupled and free qubits, and the operations perform the gate that was routed.
\<close>

lemma next_swap_cost_route:
  assumes ok: "device_ok d" and t: "routed_tables d D P" and w: "on_route d P w" and a: "Suc a < length w"
  shows "get_next_swap_cost (w ! a) (last w) d = Some (w ! Suc a, max (occupied d (w ! a)) (occupied d (w ! Suc a)))"
    "get_next_swap_cost (w ! Suc a) (hd w) d = Some (w ! a, max (occupied d (w ! a)) (occupied d (w ! Suc a)))"
proof -
  have n: "w ! a < length (dv_qubits d)" "w ! Suc a < length (dv_qubits d)" "last w < length (dv_qubits d)" "hd w < length (dv_qubits d)"
    using on_route_nth [OF w] a w by (auto simp: last_conv_nth hd_conv_nth on_route_def)
  have p: "P (last w) (w ! a) = w ! Suc a" "P (hd w) (w ! Suc a) = w ! a" using w a by (auto simp: on_route_def)
  show "get_next_swap_cost (w ! a) (last w) d = Some (w ! Suc a, max (occupied d (w ! a)) (occupied d (w ! Suc a)))"
    using get_predecessor_tables [OF t n(3,1)] n p by (simp add: get_next_swap_cost_def occupied_def)
  show "get_next_swap_cost (w ! Suc a) (hd w) d = Some (w ! a, max (occupied d (w ! a)) (occupied d (w ! Suc a)))"
    using get_predecessor_tables [OF t n(4,2)] n p by (simp add: get_next_swap_cost_def occupied_def max.commute)
qed

lemma runs_swap:
  assumes ok: "device_ok d" and r: "runs d p ops [] d' p'" and ab: "(a, b) \<in> coupling d"
    and t: "occupied d' a \<le> t" "occupied d' b \<le> t"
  shows "runs d p (ops @ [emit (swap_on a b) t]) [] (apply_gate (swap_on a b) t d') (exchange a b p')"
proof -
  have ok': "device_ok d'" and c: "coupling d' = coupling d"
    using same_frame_ok [OF runsD(1) [OF r] ok] same_frame_coupling [OF runsD(1) [OF r]] .
  have "runs d' p' [(swap_on a b, (t, t + get_delay (swap_on a b)))] [] (apply_gate (swap_on a b) t d') (exchange a b p')"
    using runs_pair [OF ok' runsD(2) [OF r], of a b "swap_on a b" t] ab t
    by (simp add: c) (simp add: swap_on_def move_qubits_def operation_eq_def)
  from runs_append [OF ok r this] show ?thesis by (simp add: emit_def)
qed

lemma apsp_loop_correct:
  assumes ok: "device_ok d" and t: "routed_tables d D P" and w: "on_route d P w"
  shows "a < b \<Longrightarrow> b < length w \<Longrightarrow> runs d p ops [] d' p' \<Longrightarrow>
    \<exists>q0 q1 ops' d'' p''. apsp_loop tie (hd w) (last w) (w ! a) (w ! b) ops d' = Some (q0, q1, ops', d'') \<and>
      runs d p ops' [] d'' p'' \<and> (q0, q1) \<in> coupling d \<and> p'' ! q0 = p' ! (w ! a) \<and> p'' ! q1 = p' ! (w ! b)"
proof (induction "b - a" arbitrary: a b ops d' p')
  case 0
  then show ?case by simp
next
  case (Suc m)
  have f: "same_frame d d'" by (rule runsD(1) [OF Suc.prems(3)])
  note ok' = same_frame_ok [OF f ok] and t' = same_frame_tables [OF f t] and w' = same_frame_route [OF f w]
    and c = same_frame_coupling [OF f] and l = same_frame_length [OF f]
  have n: "w ! i < length (dv_qubits d')" if "i < length w" for i using on_route_nth [OF w that] l by simp
  have adj: "is_adjacency (phys d' (w ! a)) (phys d' (w ! b)) \<longleftrightarrow> (w ! a, w ! b) \<in> coupling d"
    using is_adjacency_coupling [OF ok' n n, of a b] Suc.prems(1,2) c by simp
  show ?case
  proof (cases "(w ! a, w ! b) \<in> coupling d")
    case True
    then show ?thesis using Suc.prems(3) adj by (subst apsp_loop.simps) auto
  next
    case False
    have al: "(w ! i, w ! Suc i) \<in> coupling d" if "Suc i < length w" for i
      using w that successively_nth [of "\<lambda>x y. (x, y) \<in> coupling d" w i] by (simp add: on_route_def)
    have "b \<noteq> Suc a" using False al [of a] Suc.prems(2) by auto
    then obtain b' where b: "b = Suc b'" "Suc a < b" "a < b'" using Suc.prems(1) by (cases b) auto
    let ?c0 = "max (occupied d' (w ! a)) (occupied d' (w ! Suc a))" and ?c1 = "max (occupied d' (w ! b')) (occupied d' (w ! b))"
    have nx: "get_next_swap_cost (w ! a) (last w) d' = Some (w ! Suc a, ?c0)" "get_next_swap_cost (w ! b) (hd w) d' = Some (w ! b', ?c1)"
      using next_swap_cost_route(1) [OF ok' t' w', of a] next_swap_cost_route(2) [OF ok' t' w', of b'] b Suc.prems(1,2) by auto
    have pl: "length p' = length (dv_qubits d)" using runsD(2) [OF Suc.prems(3)] l by (simp add: placed_def placement_def)
    have dist: "w ! i \<noteq> w ! j" if "i < length w" "j < length w" "i \<noteq> j" for i j
      using w that nth_eq_iff_index_eq [of w i j] by (simp add: on_route_def)
    have r0: "runs d p (ops @ [emit (swap_on (w ! a) (w ! Suc a)) ?c0]) [] (apply_gate (swap_on (w ! a) (w ! Suc a)) ?c0 d')
        (exchange (w ! a) (w ! Suc a) p')"
      by (rule runs_swap [OF ok Suc.prems(3)]) (use al [of a] b Suc.prems in auto)
    have r1: "runs d p (ops @ [emit (swap_on (w ! b) (w ! b')) ?c1]) [] (apply_gate (swap_on (w ! b) (w ! b')) ?c1 d')
        (exchange (w ! b) (w ! b') p')"
      by (rule runs_swap [OF ok Suc.prems(3)])
        (use al [of b'] b Suc.prems graph_okD(4) [OF device_okD(5) [OF ok], of "w ! b" "w ! b'"] in auto)
    have x0: "exchange (w ! a) (w ! Suc a) p' ! (w ! Suc a) = p' ! (w ! a)" "exchange (w ! a) (w ! Suc a) p' ! (w ! b) = p' ! (w ! b)"
      using n l pl dist [of b a] dist [of b "Suc a"] b Suc.prems by (simp_all add: nth_exchange)
    have x1: "exchange (w ! b) (w ! b') p' ! (w ! b') = p' ! (w ! b)" "exchange (w ! b) (w ! b') p' ! (w ! a) = p' ! (w ! a)"
      using n l pl dist [of a b] dist [of a b'] b Suc.prems by (simp_all add: nth_exchange)
    have m: "m = b - Suc a" "m = b' - a" "b' < length w" using Suc.hyps(2) b Suc.prems(2) by auto
    note i0 = Suc.hyps(1) [OF m(1) b(2) Suc.prems(2) r0, unfolded x0] and i1 = Suc.hyps(1) [OF m(2) b(3) m(3) r1, unfolded x1]
    have nadj: "\<not> is_adjacency (phys d' (w ! a)) (phys d' (w ! b))" using adj False by simp
    show ?thesis
      by (subst apsp_loop.simps) (simp only: nadj nx if_False option.case prod.case, cases "?c0 < ?c1 \<or> ?c0 = ?c1 \<and> tie = Min_option \<and>
          logical_less (pq_logical (phys d' (w ! a))) (pq_logical (phys d' (w ! b)))"; simp only: if_True if_False i0 i1)
  qed
qed

definition routable :: "device \<Rightarrow> nat \<Rightarrow> nat \<Rightarrow> bool" where
  "routable d a b \<longleftrightarrow> a < length (dv_qubits d) \<and> b < length (dv_qubits d) \<and> a \<noteq> b \<and> (a, b) \<in> (coupling d)\<^sup>*"

text \<open>A SWAP gate of the circuit is taken for a swap of the router: it only moves qubits.\<close>

lemma apsp_routing_correct:
  assumes ok: "device_ok d" and t: "routed_tables d D P" and p: "placed d p" and q: "routable d q0 q1" and g: "length (snd g) = 2"
  shows "\<exists>ops d' p'. apsp_routing g (q0, q1) tie d = Some (ops, d') \<and>
    runs d p ops (if is_swap_op g then [] else [(fst g, [p ! q0, p ! q1])]) d' p'"
proof -
  obtain w where w: "on_route d P w" "hd w = q0" "last w = q1"
    using route_exists [OF ok t, of q0 q1] q by (auto simp: routable_def)
  have ne: "w \<noteq> []" using w(1) by (simp add: on_route_def)
  have "0 < length w - 1"
  proof (rule ccontr)
    assume "\<not> 0 < length w - 1"
    then have "hd w = last w" using ne by (cases w) auto
    then show False using w(2,3) q by (simp add: routable_def)
  qed
  from apsp_loop_correct [OF ok t w(1) this _ runs_refl [OF p], of tie] obtain r0 r1 ops d' p' where
    l: "apsp_loop tie q0 q1 q0 q1 [] d = Some (r0, r1, ops, d')" and r: "runs d p ops [] d' p'"
    and c: "(r0, r1) \<in> coupling d" and h: "p' ! r0 = p ! q0" "p' ! r1 = p ! q1"
    using ne w(2,3) by (auto simp: hd_conv_nth last_conv_nth)
  let ?cx = "(fst g, [r0, r1])" and ?t = "max (pq_occupied (phys d' r0)) (pq_occupied (phys d' r1))"
  have delay: "get_delay g = get_delay ?cx" using g by (simp add: get_delay_def)
  have rq: "real_qubits ?cx = [r0, r1]"
    using graph_okD(1,2) [OF device_okD(5) [OF ok] c] small_qubit [OF ok] by (fastforce simp: real_qubits_def)
  have "runs d' p' [(?cx, (?t, ?t + get_delay ?cx))] (if is_swap_op g then [] else [(fst g, [p ! q0, p ! q1])]) (apply_gate ?cx ?t d')
      (move_qubits ?cx p')"
    using runs_pair [OF same_frame_ok [OF runsD(1) [OF r] ok] runsD(2) [OF r], of r0 r1 ?cx ?t] c
      same_frame_coupling [OF runsD(1) [OF r]] rq h
    by (simp add: occupied_def logical_gate_def split del: if_split cong: if_cong)
  from runs_append [OF ok r this] show ?thesis
    by (auto simp: apsp_routing_def l delay Let_def)
qed

text \<open>
  Routed operations up to the order of neighbours that share no physical qubit: the placement, the times and, up
  to the order of gates that share no logical qubit, the logical gates stay the same. So any sort of the
  operations by start time is as good as the order in which they were routed.
\<close>

abbreviation op_wires :: "gate_info \<Rightarrow> nat set" where
  "op_wires x \<equiv> wires (fst x)"

section \<open>Actions that commute\<close>

definition op_shape :: "nat \<Rightarrow> gate \<Rightarrow> bool" where
  "op_shape n g \<longleftrightarrow> (\<exists>q < n. snd g = [q, max_qubit_id] \<and> \<not> is_swap_op g) \<or> (\<exists>a < n. \<exists>b < n. a \<noteq> b \<and> snd g = [a, b])"

lemma op_shape_wires:
  assumes "op_shape n g" "n \<le> max_qubit_id"
  shows "real_qubits g = [snd g ! 0] \<and> \<not> is_swap_op g \<or> real_qubits g = [snd g ! 0, snd g ! 1]" "wires g \<subseteq> {..<n}"
  using assms by (auto simp: op_shape_def real_qubits_def wires_def)

interpretation busy: wired_action op_wires "\<lambda>_. True" busy
  by unfold_locales (auto simp: busy_def fun_eq_iff)

lemma exchange_other: "a \<noteq> i \<Longrightarrow> b \<noteq> i \<Longrightarrow> exchange a b p ! i = p ! i"
  by (simp add: exchange_def)

lemma exchange_commute: "a \<notin> {c, e} \<Longrightarrow> b \<notin> {c, e} \<Longrightarrow> exchange a b (exchange c e p) = exchange c e (exchange a b p)"
  by (simp add: exchange_def nth_list_update_neq list_update_swap)

lemma move_commute:
  assumes "op_shape n x" "op_shape n y" "n \<le> max_qubit_id" "wires x \<inter> wires y = {}"
  shows "move_qubits y (move_qubits x p) = move_qubits x (move_qubits y p)"
  using op_shape_wires(1) [OF assms(1,3)] op_shape_wires(1) [OF assms(2,3)] assms(4)
    exchange_commute [of "snd y ! 0" "snd x ! 0" "snd x ! 1" "snd y ! 1" p]
  by (auto simp: move_qubits_def wires_def)

interpretation moves: wired_action wires "\<lambda>g. op_shape max_qubit_id g" move_qubits
  by unfold_locales (rule move_commute [of max_qubit_id]; simp)

section \<open>The logical gates\<close>

lemma logical_gate_moved:
  assumes "op_shape n x" "op_shape n y" "n \<le> max_qubit_id" "wires x \<inter> wires y = {}"
  shows "logical_gate (move_qubits x p) y = logical_gate p y"
proof (cases "is_swap_op x")
  case True
  then have "real_qubits x = [snd x ! 0, snd x ! 1]" using op_shape_wires(1) [OF assms(1,3)] by auto
  then have "snd x ! 0 \<notin> set (real_qubits y)" "snd x ! 1 \<notin> set (real_qubits y)" using assms(4) by (auto simp: wires_def)
  then have "exchange (snd x ! 0) (snd x ! 1) p ! q = p ! q" if "q \<in> set (real_qubits y)" for q
    using that by (intro exchange_other) auto
  then show ?thesis using True by (simp add: logical_gate_def move_qubits_def)
qed (simp add: move_qubits_def)

lemma move_placement: "op_shape n g \<Longrightarrow> n \<le> max_qubit_id \<Longrightarrow> placement n p \<Longrightarrow> placement n (move_qubits g p)"
  by (auto simp: move_qubits_def op_shape_def intro: exchange_placement)

lemma moves_placement: "\<forall>g \<in> set gs. op_shape n g \<Longrightarrow> n \<le> max_qubit_id \<Longrightarrow> placement n p \<Longrightarrow> placement n (final_placement gs p)"
  unfolding final_placement_def by (induction gs arbitrary: p) (auto intro: move_placement)

lemma logical_gates_apart:
  assumes "placement n p" "wires x \<subseteq> {..<n}" "wires y \<subseteq> {..<n}" "wires x \<inter> wires y = {}"
  shows "set (snd (logical_gate p x)) \<inter> set (snd (logical_gate p y)) = {}"
proof -
  have "inj_on ((!) p) {..<n}" using assms(1) by (auto simp: placement_def inj_on_def nth_eq_iff_index_eq)
  then have "(!) p ` wires x \<inter> (!) p ` wires y = {}"
    using assms(2-4) inj_on_image_Int [of "(!) p" "{..<n}" "wires x" "wires y"] by simp
  then show ?thesis by (simp add: logical_gate_def wires_def)
qed

lemma unroute_reorder:
  assumes n: "n \<le> max_qubit_id" and p: "placement n p"
  shows "reorder wires xs ys \<Longrightarrow> \<forall>g \<in> set xs. op_shape n g \<Longrightarrow> reorder (\<lambda>g. set (snd g)) (unroute xs p) (unroute ys p)"
proof (induction rule: reorder.induct)
  case (reorder_step xs us x y vs)
  have sh: "\<forall>g \<in> set (us @ x # y # vs). op_shape n g" using reorder_set [OF reorder_step.hyps(1)] reorder_step.prems by simp
  then have x: "op_shape n x" and y: "op_shape n y" by auto
  let ?p = "final_placement us p"
  have p': "placement n ?p" using moves_placement [OF _ n p, of us] sh by simp
  have yx: "wires y \<inter> wires x = {}" using reorder_step.hyps(2) by auto
  note w = op_shape_wires(2) [OF x n] op_shape_wires(2) [OF y n]
  note c = move_commute [OF x y n reorder_step.hyps(2), of ?p]
  note l = logical_gate_moved [OF x y n reorder_step.hyps(2), of ?p] logical_gate_moved [OF y x n yx, of ?p]
  have mv: "unroute (x # y # vs) ?p = (if is_swap_op x then [] else [logical_gate ?p x]) @
      (if is_swap_op y then [] else [logical_gate ?p y]) @ unroute vs (move_qubits y (move_qubits x ?p))"
    "unroute (y # x # vs) ?p = (if is_swap_op y then [] else [logical_gate ?p y]) @
      (if is_swap_op x then [] else [logical_gate ?p x]) @ unroute vs (move_qubits y (move_qubits x ?p))"
    using l c by (auto simp: move_qubits_def)
  have "reorder (\<lambda>g. set (snd g)) (unroute (x # y # vs) ?p) (unroute (y # x # vs) ?p)"
    unfolding mv using logical_gates_apart [OF p' w reorder_step.hyps(2)] by (auto intro: reorder_swap)
  then have "reorder (\<lambda>g. set (snd g)) (unroute (us @ x # y # vs) p) (unroute (us @ y # x # vs) p)"
    unfolding unroute_append by (rule reorder_appendL)
  then show ?case using reorder_trans reorder_step.IH reorder_step.prems by blast
qed simp

lemma final_placement_reorder:
  "reorder wires xs ys \<Longrightarrow> \<forall>g \<in> set xs. op_shape max_qubit_id g \<Longrightarrow> final_placement ys p = final_placement xs p"
  unfolding final_placement_def by (rule moves.fold_reorder)

section \<open>The times\<close>

lemma timeline_reorder: "reorder op_wires xs ys \<Longrightarrow> timeline f xs \<Longrightarrow> timeline f ys"
proof (induction rule: reorder.induct)
  case (reorder_step xs us x y vs)
  have "busy y (busy x g) = busy x (busy y g)" for g using reorder_step.hyps(2) by (auto simp: busy_def fun_eq_iff)
  then have "timeline g (x # y # vs) \<longleftrightarrow> timeline g (y # x # vs)" for g
    using reorder_step.hyps(2) by (auto simp: busy_def)
  then show ?case using reorder_step.IH [OF reorder_step.prems] by (simp only: timeline_append)
qed simp

lemma busy_reorder: "reorder op_wires xs ys \<Longrightarrow> busy_after ys f = busy_after xs f"
  unfolding busy_after_def by (rule busy.fold_reorder) simp_all

lemma reorder_ops: "reorder op_wires xs ys \<Longrightarrow> reorder wires (map fst xs) (map fst ys)"
  by (rule reorder_map) auto

section \<open>Applying operations to a device\<close>

definition pair_op :: "device \<Rightarrow> gate_info \<Rightarrow> bool" where
  "pair_op d x \<longleftrightarrow> (\<exists>a b. (a, b) \<in> coupling d \<and> snd (fst x) = [a, b]) \<and> end_time x = start_time x + get_delay (fst x)"

lemma runs_apply_ops:
  assumes ok: "device_ok d"
  shows "placed d p \<Longrightarrow> \<forall>x \<in> set xs. pair_op d x \<Longrightarrow> timeline (occupied d) xs \<Longrightarrow>
    runs d p xs (unroute (map fst xs) p) (apply_ops xs d) (final_placement (map fst xs) p)"
proof (induction xs rule: rev_induct)
  case Nil
  then show ?case using runs_refl by (simp add: apply_ops_def final_placement_def)
next
  case (snoc x xs)
  have r: "runs d p xs (unroute (map fst xs) p) (apply_ops xs d) (final_placement (map fst xs) p)"
    using snoc by (simp add: timeline_append)
  obtain a b where x: "(a, b) \<in> coupling d" "snd (fst x) = [a, b]" "end_time x = start_time x + get_delay (fst x)"
    using snoc.prems(2) by (auto simp: pair_op_def)
  let ?d = "apply_ops xs d" and ?p = "final_placement (map fst xs) p"
  have f: "device_ok ?d" "coupling ?d = coupling d" using same_frame_ok [OF runsD(1) [OF r] ok] same_frame_coupling [OF runsD(1) [OF r]] .
  have n: "a < length (dv_qubits d)" "b < length (dv_qubits d)" using graph_okD(1,2) [OF device_okD(5) [OF ok] x(1)] .
  have w: "wires (fst x) = {a, b}"
    using small_qubit [OF ok n(1)] small_qubit [OF ok n(2)] x(2) by (simp add: wires_def real_qubits_def)
  have "\<forall>q \<in> {a, b}. busy_after xs (occupied d) q \<le> start_time x" using snoc.prems(3) w by (simp add: timeline_append)
  then have t: "occupied ?d a \<le> start_time x" "occupied ?d b \<le> start_time x" using runsD(7) [OF r] n by auto
  have "runs ?d ?p [x] (if is_swap_op (fst x) then [] else [logical_gate ?p (fst x)]) (apply_gate (fst x) (start_time x) ?d) (move_qubits (fst x) ?p)"
    using runs_pair [OF f(1) runsD(2) [OF r], of a b "fst x" "start_time x"] x f(2) t by (metis prod.collapse)
  from runs_append [OF ok r this] have "runs d p (xs @ [x]) (unroute (map fst xs) p @ (if is_swap_op (fst x) then [] else [logical_gate ?p (fst x)]))
      (apply_gate (fst x) (start_time x) ?d) (move_qubits (fst x) ?p)" .
  moreover have "apply_ops (xs @ [x]) d = apply_gate (fst x) (start_time x) ?d" by (simp add: apply_ops_def)
  moreover have "final_placement (map fst (xs @ [x])) p = move_qubits (fst x) ?p" by (simp add: final_placement_def)
  moreover have "unroute (map fst (xs @ [x])) p = unroute (map fst xs) p @ (if is_swap_op (fst x) then [] else [logical_gate ?p (fst x)])"
    by (simp add: unroute_append)
  ultimately show ?case by (simp only:)
qed

lemma pair_op_shape: "device_ok d \<Longrightarrow> pair_op d x \<Longrightarrow> op_shape (length (dv_qubits d)) (fst x)"
  using graph_okD(1-3) [OF device_okD(5), of d] by (auto simp: pair_op_def op_shape_def)

lemma small_device: "device_ok d \<Longrightarrow> length (dv_qubits d) \<le> max_qubit_id"
  using device_okD(3) [of d] by (simp add: max_dist_def max_qubit_id_def)

lemma op_shape_mono: "op_shape n g \<Longrightarrow> n \<le> m \<Longrightarrow> op_shape m g"
  unfolding op_shape_def by (meson order_less_le_trans)

lemma runs_reordered:
  assumes ok: "device_ok d" and r: "runs d p xs gs d' p'" and x: "\<forall>x \<in> set xs. pair_op d x" and p: "placed d p"
    and o: "reorder op_wires xs ys"
  shows "\<exists>gs'. runs d p ys gs' (apply_ops ys d) p' \<and> reorder (\<lambda>g. set (snd g)) gs gs'"
proof -
  have sh: "\<forall>g \<in> set (map fst xs). op_shape (length (dv_qubits d)) g" using x pair_op_shape [OF ok] by auto
  then have sh': "\<forall>g \<in> set (map fst xs). op_shape max_qubit_id g" using op_shape_mono small_device [OF ok] by blast
  have "runs d p ys (unroute (map fst ys) p) (apply_ops ys d) (final_placement (map fst ys) p)"
    by (rule runs_apply_ops [OF ok p]) (use x reorder_set [OF o] timeline_reorder [OF o runsD(6) [OF r]] in auto)
  moreover have "final_placement (map fst ys) p = p'"
    using final_placement_reorder [OF reorder_ops [OF o] sh'] runsD(4) [OF r] by simp
  moreover have "reorder (\<lambda>g. set (snd g)) gs (unroute (map fst ys) p)"
    using unroute_reorder [OF small_device [OF ok] _ reorder_ops [OF o] sh, of p] p runsD(3) [OF r] by (simp add: placed_def)
  ultimately show ?thesis by auto
qed

section \<open>Devices that agree\<close>

definition agree :: "device \<Rightarrow> device \<Rightarrow> bool" where
  "agree d e \<longleftrightarrow> same_frame d e \<and>
     (\<forall>i < length (dv_qubits d). pq_logical (phys e i) = pq_logical (phys d i) \<and> pq_occupied (phys e i) = pq_occupied (phys d i))"

lemma agree_refl [simp, intro]: "agree d d"
  by (simp add: agree_def)

lemma agree_trans: "agree d e \<Longrightarrow> agree e f \<Longrightarrow> agree d f"
  by (auto simp: agree_def same_frame_length intro: same_frame_trans)

lemma agree_placed: "agree d e \<Longrightarrow> placed d p \<Longrightarrow> placed e p"
  using placed_logical [of d p] same_frame_length [of d e] by (intro placedI) (auto simp: agree_def placed_def)

lemma agree_sym: "agree d e \<Longrightarrow> agree e d"
  by (auto simp: agree_def same_frame_def)

lemma runs_agree_start:
  assumes ok: "device_ok d" and a: "agree d e" and r: "runs e p xs gs d' p'"
  shows "runs d p xs gs d' p'"
proof -
  have f: "same_frame d e" using a by (simp add: agree_def)
  have occ: "occupied e q = occupied d q" if "q < length (dv_qubits d)" for q using a that by (simp add: agree_def occupied_def)
  have len: "length (dv_qubits e) = length (dv_qubits d)" by (rule same_frame_length [OF f])
  have w: "q < length (dv_qubits d)" if "x \<in> set xs" "q \<in> wires (fst x)" for x q
    using wires_on_coupling [OF same_frame_ok [OF f ok] runsD(5) [OF r that(1)]] that(2) len by auto
  have "timeline (occupied d) xs" using timeline_cong [of xs "length (dv_qubits d)" "occupied d" "occupied e"] w occ runsD(6) [OF r] by simp
  moreover have "busy_after xs (occupied d) q = occupied d' q" if "q < length (dv_qubits d)" for q
    using busy_after_cong [of "length (dv_qubits d)" "occupied d" "occupied e" q xs] occ runsD(7) [OF r] that len by simp
  moreover have "on_coupling d (fst x)" if "x \<in> set xs" for x
    using runsD(5) [OF r that] same_frame_coupling [OF f] len by (simp add: on_coupling_def)
  ultimately show ?thesis using same_frame_trans [OF f runsD(1) [OF r]] r by (simp add: runs_def)
qed

lemma runs_agree_end:
  assumes r: "runs d p xs gs d' p'" and a: "agree d' e"
  shows "runs d p xs gs e p'"
proof -
  have len: "length (dv_qubits d') = length (dv_qubits d)" by (rule same_frame_length [OF runsD(1) [OF r]])
  have "occupied e q = occupied d' q" if "q < length (dv_qubits d)" for q using a that len by (simp add: agree_def occupied_def)
  moreover have "same_frame d e" using same_frame_trans [OF runsD(1) [OF r]] a by (simp add: agree_def)
  ultimately show ?thesis using r agree_placed [OF a runsD(2) [OF r]] by (simp add: runs_def)
qed

end
