(* ===== verification/DuostraRouting.thy ===== *)
theory DuostraRouting
  imports Placement
begin

text \<open>
  The search of \<open>Router::duostra_routing\<close> (src/src/duostra/router.cpp). Two trees of taken qubits grow from the
  two qubits of the gate; the queue holds the marked qubits at their border. The search never runs out of qubits
  while the two are connected, and ends with a coupled pair of qubits of the two trees.
\<close>

section \<open>The invariant\<close>

abbreviation parent :: "device \<Rightarrow> nat \<Rightarrow> nat" where
  "parent d i \<equiv> pq_pred (phys d i)"

definition arrival :: "device \<Rightarrow> nat \<Rightarrow> nat" where
  "arrival d i = max (pq_cost (phys d (parent d i))) (pq_occupied (phys d i)) + swap_delay"

definition parent_ok :: "device \<Rightarrow> nat \<Rightarrow> bool" where
  "parent_ok d i \<longleftrightarrow> (i, parent d i) \<in> coupling d \<and> pq_taken (phys d (parent d i)) \<and>
     pq_source (phys d (parent d i)) = pq_source (phys d i)"

definition taken_ok :: "nat \<Rightarrow> nat \<Rightarrow> device \<Rightarrow> nat \<Rightarrow> bool" where
  "taken_ok t0 t1 d i \<longleftrightarrow>
     (if i = t0 \<or> i = t1 then pq_source (phys d i) = (i = t1) \<and> pq_cost (phys d i) = pq_occupied (phys d i)
      else parent_ok d i \<and> pq_cost (phys d i) = arrival d i \<and> pq_swap_time (phys d i) = pq_cost (phys d i) - swap_delay)"

definition node_ok :: "device \<Rightarrow> astar_node \<Rightarrow> bool" where
  "node_ok d x \<longleftrightarrow> an_id x < length (dv_qubits d) \<and> pq_marked (phys d (an_id x)) \<and> \<not> pq_taken (phys d (an_id x)) \<and>
     an_source x = pq_source (phys d (an_id x)) \<and> parent_ok d (an_id x) \<and> an_cost x = arrival d (an_id x)"

definition search_ok :: "device \<Rightarrow> nat \<Rightarrow> nat \<Rightarrow> astar_node list \<Rightarrow> device \<Rightarrow> bool" where
  "search_ok d0 t0 t1 pq d \<longleftrightarrow>
     agree d0 d \<and> pq_taken (phys d t0) \<and> pq_taken (phys d t1) \<and>
     (\<forall>i < length (dv_qubits d). pq_taken (phys d i) \<longrightarrow> pq_marked (phys d i) \<and> taken_ok t0 t1 d i) \<and>
     (\<forall>x \<in> set pq. node_ok d x) \<and> distinct (map an_id pq) \<and>
     (\<forall>i < length (dv_qubits d). pq_marked (phys d i) \<longrightarrow> pq_taken (phys d i) \<or> i \<in> an_id ` set pq)"

definition explored :: "device \<Rightarrow> nat \<Rightarrow> bool" where
  "explored d i \<longleftrightarrow>
     (\<forall>j. (i, j) \<in> coupling d \<longrightarrow> pq_marked (phys d j) \<and> (pq_taken (phys d j) \<longrightarrow> pq_source (phys d j) = pq_source (phys d i)))"

lemma search_okD:
  assumes "search_ok d0 t0 t1 pq d"
  shows "agree d0 d" "pq_taken (phys d t0)" "pq_taken (phys d t1)"
    "i < length (dv_qubits d) \<Longrightarrow> pq_taken (phys d i) \<Longrightarrow> pq_marked (phys d i)"
    "i < length (dv_qubits d) \<Longrightarrow> pq_taken (phys d i) \<Longrightarrow> taken_ok t0 t1 d i"
    "x \<in> set pq \<Longrightarrow> node_ok d x" "distinct (map an_id pq)"
    "i < length (dv_qubits d) \<Longrightarrow> pq_marked (phys d i) \<Longrightarrow> pq_taken (phys d i) \<or> i \<in> an_id ` set pq"
  using assms by (auto simp: search_ok_def)

lemma search_ok_device:
  assumes "device_ok d0" "search_ok d0 t0 t1 pq d"
  shows "device_ok d" "coupling d = coupling d0" "length (dv_qubits d) = length (dv_qubits d0)"
  using same_frame_ok [OF _ assms(1)] same_frame_coupling [of d0 d] same_frame_length [of d0 d] search_okD(1) [OF assms(2)]
  by (auto simp: agree_def)

text \<open>What is known of a qubit depends on the qubit and its parent.\<close>

lemma local_cong:
  assumes "coupling d' = coupling d" "phys d' i = phys d i" "phys d' (parent d i) = phys d (parent d i)"
  shows "parent_ok d' i = parent_ok d i" "arrival d' i = arrival d i" "taken_ok t0 t1 d' i = taken_ok t0 t1 d i"
  using assms by (auto simp: parent_ok_def arrival_def taken_ok_def)

lemma mark_fields [simp]:
  "pq_id (pq_mark s p q) = pq_id q" "pq_adjacencies (pq_mark s p q) = pq_adjacencies q" "pq_logical (pq_mark s p q) = pq_logical q"
  "pq_occupied (pq_mark s p q) = pq_occupied q" "pq_marked (pq_mark s p q)" "pq_taken (pq_mark s p q) = pq_taken q"
  "pq_source (pq_mark s p q) = s" "pq_pred (pq_mark s p q) = p" "pq_cost (pq_mark s p q) = pq_cost q"
  by (simp_all add: pq_mark_def)

lemma take_fields [simp]:
  "pq_id (take_route c t q) = pq_id q" "pq_adjacencies (take_route c t q) = pq_adjacencies q" "pq_logical (take_route c t q) = pq_logical q"
  "pq_occupied (take_route c t q) = pq_occupied q" "pq_marked (take_route c t q) = pq_marked q" "pq_taken (take_route c t q)"
  "pq_source (take_route c t q) = pq_source q" "pq_pred (take_route c t q) = pq_pred q" "pq_cost (take_route c t q) = c"
  "pq_swap_time (take_route c t q) = t"
  by (simp_all add: take_route_def)

lemma agree_upd:
  "(\<And>q. pq_id (f q) = pq_id q) \<Longrightarrow> (\<And>q. pq_adjacencies (f q) = pq_adjacencies q) \<Longrightarrow> (\<And>q. pq_logical (f q) = pq_logical q) \<Longrightarrow>
   (\<And>q. pq_occupied (f q) = pq_occupied q) \<Longrightarrow> agree d (upd_qubit i f d)"
  unfolding agree_def using same_frame_upd [of f d i] by (simp add: phys_upd_qubit)

lemma coupling_upd:
  "(\<And>q. pq_id (f q) = pq_id q) \<Longrightarrow> (\<And>q. pq_adjacencies (f q) = pq_adjacencies q) \<Longrightarrow> coupling (upd_qubit i f d) = coupling d"
  using same_frame_coupling [OF same_frame_upd [of f d i]] by simp

section \<open>Marking and taking a qubit\<close>

lemma distinct_map_remove1: "distinct (map f xs) \<Longrightarrow> distinct (map f (remove1 x xs))"
proof (induction xs)
  case (Cons a xs)
  then show ?case using set_remove1_subset [of x xs] by auto
qed simp

lemma search_mark:
  assumes ok: "device_ok d0" and s: "search_ok d0 t0 t1 pq d" and i: "\<not> pq_marked (phys d i)" and q: "pq_taken (phys d q)"
    and e: "(q, i) \<in> coupling d0" and src: "pq_source (phys d q) = source"
  shows "search_ok d0 t0 t1
    (\<lparr>an_cost = max (pq_cost (phys d q)) (pq_occupied (phys d i)) + swap_delay, an_id = i, an_source = source\<rparr> # pq)
    (upd_qubit i (pq_mark source q) d)" (is "search_ok d0 t0 t1 (?x # pq) ?d")
proof -
  note dd = search_ok_device [OF ok s] and so = search_okD [OF s]
  have c: "coupling ?d = coupling d" by (rule coupling_upd) simp_all
  have gr: "graph_ok (length (dv_qubits d)) (coupling d)" by (rule device_okD(5) [OF dd(1)])
  have iq: "(i, q) \<in> coupling d" "i < length (dv_qubits d)" "q < length (dv_qubits d)"
    using graph_okD(1,2,4) [OF gr, of q i] e dd(2) by auto
  have ni: "\<not> pq_taken (phys d i)" using so(4) [OF iq(2)] i by auto
  have ph: "phys ?d j = phys d j" if "j \<noteq> i" "j < length (dv_qubits d)" for j using that by (simp add: phys_upd_qubit)
  have phi: "phys ?d i = pq_mark source q (phys d i)" using iq(2) by (simp add: phys_upd_qubit)
  have tk: "pq_taken (phys ?d j) = pq_taken (phys d j)" if "j < length (dv_qubits d)" for j using that by (simp add: phys_upd_qubit)
  have qi: "q \<noteq> i" using q ni by auto
  have keep: "phys ?d j = phys d j" "phys ?d (parent d j) = phys d (parent d j)" if "parent_ok d j" "j \<noteq> i" for j
  proof -
    have "j < length (dv_qubits d)" "parent d j < length (dv_qubits d)" "parent d j \<noteq> i"
      using that(1) ni graph_okD(1,2) [OF gr, of j "parent d j"] by (auto simp: parent_ok_def)
    then show "phys ?d j = phys d j" "phys ?d (parent d j) = phys d (parent d j)" using ph that(2) by simp_all
  qed
  have tok: "taken_ok t0 t1 ?d j" if "j < length (dv_qubits d)" "pq_taken (phys d j)" for j
  proof -
    have j: "taken_ok t0 t1 d j" "j \<noteq> i" using so(5) that ni by auto
    show ?thesis
    proof (cases "j = t0 \<or> j = t1")
      case True
      then show ?thesis using j ph [OF j(2) that(1)] by (simp add: taken_ok_def)
    next
      case False
      then have "parent_ok d j" using j(1) by (simp add: taken_ok_def)
      then show ?thesis using local_cong(3) [OF c keep] j by simp
    qed
  qed
  have nok: "node_ok ?d y" if "y \<in> set pq" for y
  proof -
    have y: "node_ok d y" "an_id y \<noteq> i" using so(6) [OF that] i by (auto simp: node_ok_def)
    then have p: "parent_ok d (an_id y)" by (simp add: node_ok_def)
    show ?thesis using y keep(1) [OF p y(2)] local_cong(1,2) [OF c keep [OF p y(2)]] by (simp add: node_ok_def)
  qed
  have "parent_ok ?d i" using phi iq qi q src c ph [of q] by (simp add: parent_ok_def)
  moreover have "arrival ?d i = an_cost ?x" using phi ph [of q] qi iq by (simp add: arrival_def)
  ultimately have "node_ok ?d ?x" using phi ni iq by (simp add: node_ok_def)
  moreover have "i \<notin> an_id ` set pq" using so(6) i by (auto simp: node_ok_def)
  moreover have "t0 < length (dv_qubits d) \<Longrightarrow> pq_taken (phys ?d t0)" using tk so(2) by simp
  moreover have "pq_taken (phys ?d t)" if "pq_taken (phys d t)" for t
    using that ni by (cases "t < length (dv_qubits d)") (simp add: tk, simp add: upd_qubit_def nth_list_update' iq)
  moreover have "agree d0 ?d" by (rule agree_trans [OF so(1)], rule agree_upd) simp_all
  ultimately show ?thesis
    using so tok nok tk phi ph unfolding search_ok_def by (auto simp: phys_upd_qubit)
qed

lemma search_take:
  assumes ok: "device_ok d0" and s: "search_ok d0 t0 t1 pq d" and x: "x \<in> set pq"
  shows "search_ok d0 t0 t1 (remove1 x pq) (upd_qubit (an_id x) (take_route (an_cost x) (an_cost x - swap_delay)) d)"
    (is "search_ok d0 t0 t1 _ ?d")
proof -
  note dd = search_ok_device [OF ok s] and so = search_okD [OF s]
  let ?i = "an_id x"
  have c: "coupling ?d = coupling d" by (rule coupling_upd) simp_all
  have gr: "graph_ok (length (dv_qubits d)) (coupling d)" by (rule device_okD(5) [OF dd(1)])
  have nx: "node_ok d x" by (rule so(6) [OF x])
  then have i: "?i < length (dv_qubits d)" "\<not> pq_taken (phys d ?i)" "parent_ok d ?i" "an_cost x = arrival d ?i" "pq_marked (phys d ?i)"
    by (auto simp: node_ok_def)
  have ph: "phys ?d j = phys d j" if "j \<noteq> ?i" "j < length (dv_qubits d)" for j using that by (simp add: phys_upd_qubit)
  have phi: "phys ?d ?i = take_route (an_cost x) (an_cost x - swap_delay) (phys d ?i)" using i(1) by (simp add: phys_upd_qubit)
  have par: "phys ?d (parent d j) = phys d (parent d j)" if "parent_ok d j" for j
  proof -
    have "parent d j < length (dv_qubits d)" "parent d j \<noteq> ?i"
      using that i(2) graph_okD(2) [OF gr, of j "parent d j"] by (auto simp: parent_ok_def)
    then show ?thesis using ph by simp
  qed
  have "t0 \<noteq> ?i" "t1 \<noteq> ?i" using so(2,3) i(2) by auto
  have new: "taken_ok t0 t1 ?d ?i"
    using i par [OF i(3)] phi \<open>t0 \<noteq> ?i\<close> \<open>t1 \<noteq> ?i\<close> c by (simp add: taken_ok_def parent_ok_def arrival_def)
  have tok: "taken_ok t0 t1 ?d j" if "j < length (dv_qubits d)" "pq_taken (phys d j)" for j
  proof -
    have j: "taken_ok t0 t1 d j" "j \<noteq> ?i" using so(5) that i by auto
    show ?thesis
    proof (cases "j = t0 \<or> j = t1")
      case True
      then show ?thesis using j ph [OF j(2) that(1)] by (simp add: taken_ok_def)
    next
      case False
      then have "parent_ok d j" using j(1) by (simp add: taken_ok_def)
      then show ?thesis using local_cong(3) [OF c ph [OF j(2) that(1)] par] j by simp
    qed
  qed
  have di: "distinct (map an_id pq)" by (rule so(7))
  have rm: "y \<in> set (remove1 x pq) \<longleftrightarrow> y \<in> set pq \<and> an_id y \<noteq> ?i" for y
    using di x by (auto simp: distinct_map set_remove1_eq inj_on_def)
  have nok: "node_ok ?d y" if "y \<in> set (remove1 x pq)" for y
  proof -
    have y: "node_ok d y" "an_id y \<noteq> ?i" using so(6) that rm by auto
    then have p: "parent_ok d (an_id y)" "an_id y < length (dv_qubits d)" by (auto simp: node_ok_def)
    show ?thesis using y ph [OF y(2) p(2)] local_cong(1,2) [OF c ph [OF y(2) p(2)] par [OF p(1)]] by (simp add: node_ok_def)
  qed
  have "distinct (map an_id (remove1 x pq))" using di by (rule distinct_map_remove1)
  moreover have "pq_taken (phys ?d t0)" "pq_taken (phys ?d t1)"
    using so(2,3) \<open>t0 \<noteq> ?i\<close> \<open>t1 \<noteq> ?i\<close> by (simp_all add: upd_qubit_def nth_list_update')
  moreover have "agree d0 ?d" by (rule agree_trans [OF so(1)], rule agree_upd) simp_all
  moreover have "pq_marked (phys ?d j) \<and> taken_ok t0 t1 ?d j" if "j < length (dv_qubits d)" "pq_taken (phys ?d j)" for j
    using that new tok so(4) i(5) phi ph by (cases "j = ?i") auto
  moreover have "pq_taken (phys ?d j) \<or> j \<in> an_id ` set (remove1 x pq)" if "j < length (dv_qubits d)" "pq_marked (phys ?d j)" for j
    using that so(8) [OF that(1)] phi ph rm by (cases "j = ?i") (auto simp: image_iff)
  ultimately show ?thesis using nok unfolding search_ok_def by simp
qed

section \<open>Looking at the neighbours\<close>

definition grows :: "device \<Rightarrow> device \<Rightarrow> bool" where
  "grows d d' \<longleftrightarrow> length (dv_qubits d') = length (dv_qubits d) \<and>
     (\<forall>i < length (dv_qubits d). pq_taken (phys d' i) = pq_taken (phys d i) \<and> (pq_marked (phys d i) \<longrightarrow> phys d' i = phys d i))"

lemma grows_refl [simp, intro]: "grows d d"
  by (simp add: grows_def)

lemma grows_trans: "grows d d' \<Longrightarrow> grows d' d'' \<Longrightarrow> grows d d''"
  by (auto simp: grows_def)

lemma touch_adjacency_spec:
  assumes ok: "device_ok d0"
  shows "search_ok d0 t0 t1 pq d \<Longrightarrow> q < length (dv_qubits d0) \<Longrightarrow> pq_taken (phys d q) \<Longrightarrow> pq_source (phys d q) = source \<Longrightarrow>
    \<forall>j \<in> set adjs. (q, j) \<in> coupling d0 \<Longrightarrow> touch_adjacency q source adjs (pq, d) = (r, pq', d') \<Longrightarrow>
    search_ok d0 t0 t1 pq' d' \<and> grows d d' \<and>
    (case r of None \<Rightarrow> \<forall>j \<in> set adjs. pq_marked (phys d' j) \<and> (pq_taken (phys d' j) \<longrightarrow> pq_source (phys d' j) = source)
     | Some t \<Rightarrow> t \<in> set adjs \<and> pq_taken (phys d' t) \<and> pq_source (phys d' t) \<noteq> source)"
proof (induction adjs arbitrary: pq d)
  case Nil
  then show ?case by auto
next
  case (Cons i adjs)
  note s = Cons.prems(1) and so = search_okD [OF Cons.prems(1)]
  note dd = search_ok_device [OF ok s]
  have i: "i < length (dv_qubits d)" and q: "q < length (dv_qubits d)"
    using graph_okD(2) [OF device_okD(5) [OF ok], of q i] Cons.prems(2,5) dd(3) by auto
  have id: "pq_id (phys d j) = j" if "j < length (dv_qubits d)" for j by (rule device_okD(4) [OF dd(1) that])
  show ?case
  proof (cases "pq_marked (phys d i)")
    case True
    show ?thesis
    proof (cases "pq_taken (phys d i) \<and> pq_source (phys d i) \<noteq> source")
      case True
      then show ?thesis using Cons.prems(1,6) \<open>pq_marked (phys d i)\<close> id [OF i] by auto
    next
      case False
      then have "touch_adjacency q source adjs (pq, d) = (r, pq', d')"
        using Cons.prems(6) True by (simp del: not_imp disj_not1 split: if_splits)
      from Cons.IH [OF s Cons.prems(2-4) _ this] Cons.prems(5) have
        ih: "search_ok d0 t0 t1 pq' d' \<and> grows d d' \<and>
          (case r of None \<Rightarrow> \<forall>j \<in> set adjs. pq_marked (phys d' j) \<and> (pq_taken (phys d' j) \<longrightarrow> pq_source (phys d' j) = source)
           | Some t \<Rightarrow> t \<in> set adjs \<and> pq_taken (phys d' t) \<and> pq_source (phys d' t) \<noteq> source)" by simp
      then have "phys d' i = phys d i" using i True by (simp add: grows_def)
      then show ?thesis using ih True False by (auto split: option.splits)
    qed
  next
    case False
    let ?d = "upd_qubit i (pq_mark source q) d"
    let ?x = "\<lparr>an_cost = max (pq_cost (phys d q)) (pq_occupied (phys d i)) + swap_delay, an_id = i, an_source = source\<rparr>"
    have t: "touch_adjacency q source adjs (?x # pq, ?d) = (r, pq', d')"
      using Cons.prems(6) False i q by (simp add: id Let_def phys_upd_qubit)
    have s': "search_ok d0 t0 t1 (?x # pq) ?d"
      using search_mark [OF ok s False Cons.prems(3) _ Cons.prems(4)] Cons.prems(5) by simp
    have qi: "q \<noteq> i" using so(4) [OF q Cons.prems(3)] False by auto
    have "search_ok d0 t0 t1 pq' d' \<and> grows ?d d' \<and>
        (case r of None \<Rightarrow> \<forall>j \<in> set adjs. pq_marked (phys d' j) \<and> (pq_taken (phys d' j) \<longrightarrow> pq_source (phys d' j) = source)
         | Some t \<Rightarrow> t \<in> set adjs \<and> pq_taken (phys d' t) \<and> pq_source (phys d' t) \<noteq> source)"
      by (rule Cons.IH [OF s' Cons.prems(2) _ _ _ t]) (use Cons.prems qi q in \<open>auto simp: phys_upd_qubit\<close>)
    note ih = this
    have "phys d' i = phys ?d i" using ih i by (auto simp: grows_def phys_upd_qubit)
    then have "pq_marked (phys d' i)" "pq_source (phys d' i) = source" using i by (simp_all add: phys_upd_qubit)
    moreover have "grows d ?d" using False by (auto simp: grows_def phys_upd_qubit)
    then have "grows d d'" using ih grows_trans by blast
    ultimately show ?thesis using ih by (auto split: option.splits)
  qed
qed

lemma touch_spec:
  assumes ok: "device_ok d0" and s: "search_ok d0 t0 t1 pq d" and q: "q < length (dv_qubits d0)" "pq_taken (phys d q)" "pq_source (phys d q) = source"
    and t: "touch q source (pq, d) = (r, pq', d')"
  shows "search_ok d0 t0 t1 pq' d'" "grows d d'" "r = None \<Longrightarrow> explored d' q"
    "r = Some t \<Longrightarrow> (q, t) \<in> coupling d0 \<and> pq_taken (phys d' t) \<and> pq_source (phys d' t) \<noteq> source"
proof -
  note dd = search_ok_device [OF ok s]
  have adj: "j \<in> set (pq_adjacencies (phys d q)) \<longleftrightarrow> (q, j) \<in> coupling d0" for j
    using q(1) dd(2,3) by (simp add: coupling_def [of d] flip: dd(2))
  have "touch_adjacency q source (pq_adjacencies (phys d q)) (pq, d) = (r, pq', d')" using t by (simp add: touch_def)
  from touch_adjacency_spec [OF ok s q _ this] adj have
    sp: "search_ok d0 t0 t1 pq' d'" "grows d d'"
      "case r of None \<Rightarrow> \<forall>j \<in> set (pq_adjacencies (phys d q)). pq_marked (phys d' j) \<and> (pq_taken (phys d' j) \<longrightarrow> pq_source (phys d' j) = source)
       | Some t \<Rightarrow> t \<in> set (pq_adjacencies (phys d q)) \<and> pq_taken (phys d' t) \<and> pq_source (phys d' t) \<noteq> source" by auto
  show "search_ok d0 t0 t1 pq' d'" "grows d d'" by fact+
  have "phys d' q = phys d q" using sp(2) q(1,2) dd(3) search_okD(4) [OF s, of q] by (simp add: grows_def)
  then show "explored d' q" if "r = None"
    using sp(3) that q(3) adj search_ok_device(2) [OF ok sp(1)] by (auto simp: explored_def)
  show "(q, t) \<in> coupling d0 \<and> pq_taken (phys d' t) \<and> pq_source (phys d' t) \<noteq> source" if "r = Some t"
    using sp(3) that adj by auto
qed

section \<open>The search ends\<close>

lemma pq_top_spec: "pq_top pq = None \<longleftrightarrow> pq = []" "pq_top pq = Some x \<Longrightarrow> x \<in> set pq"
  by (induction pq arbitrary: x) (auto split: option.splits if_splits)

definition all_explored :: "device \<Rightarrow> bool" where
  "all_explored d \<longleftrightarrow> (\<forall>i < length (dv_qubits d). pq_taken (phys d i) \<longrightarrow> explored d i)"

text \<open>With an empty queue the tree of the first qubit is closed under the coupling.\<close>

lemma search_stuck:
  assumes ok: "device_ok d0" and s: "search_ok d0 t0 t1 [] d" and e: "all_explored d"
    and t: "t0 \<noteq> t1" "t0 < length (dv_qubits d0)" "t1 < length (dv_qubits d0)"
  shows "(t0, t1) \<notin> (coupling d0)\<^sup>*"
proof
  note dd = search_ok_device [OF ok s] and so = search_okD [OF s]
  assume "(t0, t1) \<in> (coupling d0)\<^sup>*"
  then have "pq_taken (phys d t1) \<and> \<not> pq_source (phys d t1)"
  proof (induction rule: rtrancl_induct)
    case base
    show ?case using so(2) so(5) [of t0] t dd(3) by (simp add: taken_ok_def)
  next
    case (step i j)
    have n: "i < length (dv_qubits d)" "j < length (dv_qubits d)" using graph_okD(1,2) [OF device_okD(5) [OF ok] step.hyps(2)] dd(3) by auto
    have "explored d i" using e n step.IH by (simp add: all_explored_def)
    then have "pq_marked (phys d j)" "pq_taken (phys d j) \<longrightarrow> pq_source (phys d j) = pq_source (phys d i)"
      using step.hyps(2) dd(2) by (auto simp: explored_def)
    then show ?case using so(8) [OF n(2)] step.IH by auto
  qed
  then show False using so(5) [of t1] so(3) t dd(3) by (simp add: taken_ok_def)
qed

definition untaken :: "device \<Rightarrow> nat set" where
  "untaken d = {i. i < length (dv_qubits d) \<and> \<not> pq_taken (phys d i)}"

lemma explored_grows:
  assumes ok: "device_ok d0" and s: "search_ok d0 t0 t1 pq d" "search_ok d0 t0 t1 pq' d'" and g: "grows d d'"
    and i: "i < length (dv_qubits d)" "pq_taken (phys d i)" and e: "explored d i"
  shows "explored d' i"
  unfolding explored_def
proof (intro allI impI)
  fix j assume ij: "(i, j) \<in> coupling d'"
  then have c: "(i, j) \<in> coupling d" using search_ok_device(2) [OF ok s(1)] search_ok_device(2) [OF ok s(2)] by simp
  have j: "j < length (dv_qubits d)" using graph_okD(2) [OF device_okD(5) [OF search_ok_device(1) [OF ok s(1)]] c] .
  have m: "pq_marked (phys d j)" "pq_taken (phys d j) \<longrightarrow> pq_source (phys d j) = pq_source (phys d i)" using e c by (auto simp: explored_def)
  have "phys d' j = phys d j" "phys d' i = phys d i" using g i j m search_okD(4) [OF s(1) i] by (auto simp: grows_def)
  then show "pq_marked (phys d' j) \<and> (pq_taken (phys d' j) \<longrightarrow> pq_source (phys d' j) = pq_source (phys d' i))" using m by simp
qed

lemma duostra_search_spec:
  assumes ok: "device_ok d0" and t: "t0 \<noteq> t1" "t0 < length (dv_qubits d0)" "t1 < length (dv_qubits d0)" "(t0, t1) \<in> (coupling d0)\<^sup>*"
  shows "search_ok d0 t0 t1 pq d \<Longrightarrow> all_explored d \<Longrightarrow>
    \<exists>q0 q1 pq' d'. duostra_search pq d = Some (q0, q1, d') \<and> search_ok d0 t0 t1 pq' d' \<and> (q0, q1) \<in> coupling d0 \<and>
      pq_taken (phys d' q0) \<and> pq_taken (phys d' q1) \<and> \<not> pq_source (phys d' q0) \<and> pq_source (phys d' q1)"
proof (induction "card (untaken d)" arbitrary: pq d rule: less_induct)
  case less
  note s = less.prems(1)
  note dd = search_ok_device [OF ok s] and so = search_okD [OF s]
  have "pq \<noteq> []" using search_stuck [OF ok _ less.prems(2) t(1-3)] s t(4) by auto
  then obtain x where x: "pq_top pq = Some x" using pq_top_spec(1) by blast
  then have xin: "x \<in> set pq" by (rule pq_top_spec(2))
  let ?q = "an_id x" and ?d = "upd_qubit (an_id x) (take_route (an_cost x) (an_cost x - swap_delay)) d"
  have nx: "node_ok d x" by (rule so(6) [OF xin])
  then have q: "?q < length (dv_qubits d)" "\<not> pq_taken (phys d ?q)" "pq_source (phys d ?q) = an_source x" "pq_marked (phys d ?q)"
    by (auto simp: node_ok_def)
  have ph: "phys ?d j = phys d j" if "j \<noteq> ?q" "j < length (dv_qubits d)" for j using that by (simp add: phys_upd_qubit)
  have phq: "phys ?d ?q = take_route (an_cost x) (an_cost x - swap_delay) (phys d ?q)" using q(1) by (simp add: phys_upd_qubit)
  note s' = search_take [OF ok s xin]
  note dd' = search_ok_device [OF ok s']
  obtain r pq' d' where tch: "touch ?q (an_source x) (remove1 x pq, ?d) = (r, pq', d')" by (metis prod_cases3)
  have qd: "?q < length (dv_qubits d0)" "pq_taken (phys ?d ?q)" "pq_source (phys ?d ?q) = an_source x" using q dd(3) phq by auto
  note tsp = touch_spec [OF ok s' qd tch]
  note dd'' = search_ok_device [OF ok tsp(1)]
  have phq': "phys d' ?q = phys ?d ?q" using tsp(2) q(1,4) phq by (simp add: grows_def)
  show ?case
  proof (cases r)
    case None
    have "all_explored d'"
      unfolding all_explored_def
    proof (intro allI impI)
      fix i assume i: "i < length (dv_qubits d')" "pq_taken (phys d' i)"
      then have i': "i < length (dv_qubits d)" "pq_taken (phys ?d i)" using tsp(2) by (auto simp: grows_def)
      show "explored d' i"
      proof (cases "i = ?q")
        case True
        then show ?thesis using tsp(3) None by simp
      next
        case False
        then have it: "pq_taken (phys d i)" using i' ph by simp
        have ex: "explored d i" using less.prems(2) i'(1) it by (simp add: all_explored_def)
        have "explored ?d i \<or> (i, ?q) \<in> coupling d \<and> pq_source (phys d ?q) \<noteq> pq_source (phys d i)"
          using ex graph_okD(2) [OF device_okD(5) [OF dd(1)], of i] ph phq False i'(1) dd(2) dd'(2)
          unfolding explored_def by (metis take_fields(5,7))
        moreover have "\<not> ((i, ?q) \<in> coupling d \<and> pq_source (phys d ?q) \<noteq> pq_source (phys d i))"
        proof
          assume a: "(i, ?q) \<in> coupling d \<and> pq_source (phys d ?q) \<noteq> pq_source (phys d i)"
          then have "(?q, i) \<in> coupling d'"
            using graph_okD(4) [OF device_okD(5) [OF dd(1)], of i ?q] dd(2) dd''(2) by simp
          then have "pq_source (phys d' i) = pq_source (phys d' ?q)" using tsp(3) [OF None] i(2) by (simp add: explored_def)
          moreover have "phys d' i = phys d i"
            using tsp(2) i'(1) ph [OF False i'(1)] so(4) [OF i'(1) it] by (simp add: grows_def)
          ultimately show False using a phq' phq by simp
        qed
        ultimately have "explored ?d i" by blast
        then show ?thesis using explored_grows [OF ok s' tsp(1,2), of i] i' by simp
      qed
    qed
    moreover have "card (untaken d') < card (untaken d)"
    proof (rule psubset_card_mono)
      show "finite (untaken d)" by (simp add: untaken_def)
      have "untaken d' = untaken d - {?q}"
        using tsp(2) q(1) unfolding untaken_def grows_def by (auto simp: phys_upd_qubit split: if_splits)
      then show "untaken d' \<subset> untaken d" using q by (auto simp: untaken_def)
    qed
    moreover have "duostra_search pq d = duostra_search pq' d'"
      by (subst duostra_search.simps) (simp add: x Let_def tch None)
    ultimately show ?thesis using less.hyps [of d' pq'] tsp(1) by simp
  next
    case (Some u)
    note u = tsp(4) [OF Some]
    have "(u, ?q) \<in> coupling d0" using u graph_okD(4) [OF device_okD(5) [OF ok], of u ?q] by simp
    moreover have "duostra_search pq d = Some (if an_source x then (u, ?q, d') else (?q, u, d'))"
      by (subst duostra_search.simps) (simp add: x Let_def tch Some)
    moreover have "pq_taken (phys d' ?q)" "pq_source (phys d' ?q) = an_source x" using phq' qd by auto
    ultimately show ?thesis using u tsp(1) by (cases "an_source x") auto
  qed
qed

text \<open>
  \<open>Router::_traceback\<close> and \<open>Router::duostra_routing\<close> (src/src/duostra/router.cpp): the two qubits move along the
  branches of the trees to the pair of coupled qubits the search found, then the gate is executed. The operations
  are sorted by start time; every sorted order gives the same device.
\<close>

section \<open>The start of the search\<close>

definition device_idle :: "device \<Rightarrow> bool" where
  "device_idle d \<longleftrightarrow> (\<forall>i < length (dv_qubits d). \<not> pq_marked (phys d i) \<and> \<not> pq_taken (phys d i) \<and> pq_cost (phys d i) = pq_occupied (phys d i))"

lemma mark_sources_phys:
  assumes "t0 \<noteq> t1" "i < length (dv_qubits d)"
  shows "phys (mark_sources t0 t1 d) i =
    (if i = t0 \<or> i = t1 then take_route (pq_cost (phys d i)) 0 (pq_mark (i = t1) (pq_id (phys d i)) (phys d i)) else phys d i)"
    "length (dv_qubits (mark_sources t0 t1 d)) = length (dv_qubits d)"
  using assms by (auto simp: mark_sources_def Let_def phys_upd_qubit)

lemma mark_sources_ok:
  assumes t: "t0 \<noteq> t1" "t0 < length (dv_qubits d)" "t1 < length (dv_qubits d)" and i: "device_idle d"
  shows "search_ok d t0 t1 [] (mark_sources t0 t1 d)"
    "i < length (dv_qubits d) \<Longrightarrow> pq_taken (phys (mark_sources t0 t1 d) i) \<longleftrightarrow> i = t0 \<or> i = t1"
proof -
  have "agree d (mark_sources t0 t1 d)"
    unfolding mark_sources_def Let_def by (rule agree_trans; rule agree_upd) simp_all
  then show "search_ok d t0 t1 [] (mark_sources t0 t1 d)"
    using mark_sources_phys [OF t(1)] t i unfolding search_ok_def by (auto simp: taken_ok_def device_idle_def)
  show "i < length (dv_qubits d) \<Longrightarrow> pq_taken (phys (mark_sources t0 t1 d) i) \<longleftrightarrow> i = t0 \<or> i = t1"
    using mark_sources_phys(1) [OF t(1), of i] i by (auto simp: device_idle_def)
qed

lemma search_phase:
  assumes ok: "device_ok d0" and q: "routable d0 t0 t1" and i: "device_idle d0"
    and t0: "touch t0 False ([], mark_sources t0 t1 d0) = (r0, pq1, d1)" and t1: "touch t1 True (pq1, d1) = (r1, pq2, d2)"
  shows "\<exists>q0 q1 pq d. (if r0 \<noteq> None then Some (t0, t1, d2) else duostra_search pq2 d2) = Some (q0, q1, d) \<and> search_ok d0 t0 t1 pq d \<and>
    (q0, q1) \<in> coupling d0 \<and> pq_taken (phys d q0) \<and> pq_taken (phys d q1) \<and> \<not> pq_source (phys d q0) \<and> pq_source (phys d q1)"
proof -
  have t: "t0 \<noteq> t1" "t0 < length (dv_qubits d0)" "t1 < length (dv_qubits d0)" "(t0, t1) \<in> (coupling d0)\<^sup>*"
    using q by (auto simp: routable_def)
  let ?m = "mark_sources t0 t1 d0"
  note m = mark_sources_ok [OF t(1-3) i]
  have src: "pq_taken (phys d t0) \<and> pq_taken (phys d t1) \<and> \<not> pq_source (phys d t0) \<and> pq_source (phys d t1)"
    if "search_ok d0 t0 t1 pq d" for pq d
    using search_okD(2,3,5) [OF that] search_ok_device(3) [OF ok that] t by (auto simp: taken_ok_def)
  note s1 = touch_spec [OF ok m(1) t(2) _ _ t0]
  have o1: "search_ok d0 t0 t1 pq1 d1" "grows ?m d1" "r0 = None \<Longrightarrow> explored d1 t0"
    "\<And>u. r0 = Some u \<Longrightarrow> (t0, u) \<in> coupling d0 \<and> pq_taken (phys d1 u) \<and> pq_source (phys d1 u) \<noteq> False"
    using s1 src [OF m(1)] by auto
  have o2: "search_ok d0 t0 t1 pq2 d2" "grows d1 d2" "r1 = None \<Longrightarrow> explored d2 t1"
    "\<And>u. r1 = Some u \<Longrightarrow> (t1, u) \<in> coupling d0 \<and> pq_taken (phys d2 u) \<and> pq_source (phys d2 u) \<noteq> True"
    using touch_spec [OF ok o1(1) t(3) _ _ t1] src [OF o1(1)] by auto
  have n1: "length (dv_qubits d1) = length (dv_qubits d0)" "length (dv_qubits d2) = length (dv_qubits d0)"
    using search_ok_device(3) [OF ok o1(1)] search_ok_device(3) [OF ok o2(1)] .
  have tk1: "pq_taken (phys d1 u) \<longleftrightarrow> u = t0 \<or> u = t1" if "u < length (dv_qubits d0)" for u
    using o1(2) m(2) [OF that] that n1 by (auto simp: grows_def)
  have tk2: "pq_taken (phys d2 u) \<longleftrightarrow> u = t0 \<or> u = t1" if "u < length (dv_qubits d0)" for u
    using o2(2) tk1 [OF that] that n1 by (auto simp: grows_def)
  have gr: "graph_ok (length (dv_qubits d0)) (coupling d0)" by (rule device_okD(5) [OF ok])
  show ?thesis
  proof (cases r0)
    case None
    have e0: "explored d2 t0"
      using explored_grows [OF ok o1(1) o2(1,2) _ _ o1(3) [OF None]] n1 t src [OF o1(1)] by simp
    have "r1 = None"
    proof (cases r1)
      case (Some u)
      note u = o2(4) [OF Some]
      then have "u < length (dv_qubits d0)" using graph_okD(2) [OF gr] by blast
      then have "u = t0" using tk2 u src [OF o2(1)] by auto
      then have "(t0, t1) \<in> coupling d2" using u graph_okD(4) [OF gr] search_ok_device(2) [OF ok o2(1)] by blast
      then show ?thesis using e0 src [OF o2(1)] by (auto simp: explored_def)
    qed simp
    then have "explored d2 t1" by (rule o2(3))
    then have "all_explored d2" using e0 tk2 n1 by (auto simp: all_explored_def)
    then show ?thesis using duostra_search_spec [OF ok t o2(1)] None by auto
  next
    case (Some u)
    note u = o1(4) [OF Some]
    then have "u < length (dv_qubits d0)" using graph_okD(2) [OF gr] by blast
    then have "u = t1" using tk1 u src [OF o1(1)] by auto
    then show ?thesis using Some u src [OF o2(1)] o2(1) by auto
  qed
qed

section \<open>Tracing a branch\<close>

lemma wires_swap_on: "device_ok d \<Longrightarrow> a < length (dv_qubits d) \<Longrightarrow> b < length (dv_qubits d) \<Longrightarrow> wires (swap_on a b) = {a, b}"
  using small_qubit [of d a] small_qubit [of d b] by (simp add: wires_def real_qubits_def swap_on_def)

lemma runs_snoc_occupied:
  assumes "runs d p (xs @ [x]) gs d' p'" "runs d p xs hs e r" "i < length (dv_qubits d)"
  shows "occupied d' i = (if i \<in> op_wires x then end_time x else occupied e i)"
  using runsD(7) [OF assms(1,3)] runsD(7) [OF assms(2,3)] by (auto simp: busy_after_def busy_def)

definition on_side :: "device \<Rightarrow> bool \<Rightarrow> nat \<Rightarrow> bool" where
  "on_side d s i \<longleftrightarrow> i < length (dv_qubits d) \<and> pq_taken (phys d i) \<and> pq_source (phys d i) = s"

definition branch_moves :: "device \<Rightarrow> nat list \<Rightarrow> device \<Rightarrow> bool \<Rightarrow> nat \<Rightarrow> nat \<Rightarrow> gate_info list \<Rightarrow> bool" where
  "branch_moves d0 p d s t q ops \<longleftrightarrow>
     (\<forall>x \<in> set ops. pair_op d0 x) \<and>
     (\<forall>xs dx px. runs d0 p xs [] dx px \<longrightarrow> (\<forall>i. on_side d s i \<longrightarrow> occupied dx i = occupied d0 i) \<longrightarrow>
        (\<exists>dy py. runs d0 p (xs @ rev ops) [] dy py \<and> py ! q = px ! t \<and> occupied dy q \<le> pq_cost (phys d q) \<and>
           (\<forall>i < length (dv_qubits d). \<not> on_side d s i \<longrightarrow> py ! i = px ! i \<and> occupied dy i = occupied dx i) \<and>
           (\<forall>i. on_side d s i \<longrightarrow> pq_cost (phys d q) < pq_cost (phys d i) \<longrightarrow> occupied dy i = occupied d0 i)))"

lemma branch_movesD:
  assumes "branch_moves d0 p d s t q ops" "runs d0 p xs [] dx px" "\<forall>i. on_side d s i \<longrightarrow> occupied dx i = occupied d0 i"
  obtains dy py where "runs d0 p (xs @ rev ops) [] dy py" "py ! q = px ! t" "occupied dy q \<le> pq_cost (phys d q)"
    "\<forall>i < length (dv_qubits d). \<not> on_side d s i \<longrightarrow> py ! i = px ! i \<and> occupied dy i = occupied dx i"
    "\<forall>i. on_side d s i \<longrightarrow> pq_cost (phys d q) < pq_cost (phys d i) \<longrightarrow> occupied dy i = occupied d0 i"
proof -
  have "\<exists>dy py. runs d0 p (xs @ rev ops) [] dy py \<and> py ! q = px ! t \<and> occupied dy q \<le> pq_cost (phys d q) \<and>
      (\<forall>i < length (dv_qubits d). \<not> on_side d s i \<longrightarrow> py ! i = px ! i \<and> occupied dy i = occupied dx i) \<and>
      (\<forall>i. on_side d s i \<longrightarrow> pq_cost (phys d q) < pq_cost (phys d i) \<longrightarrow> occupied dy i = occupied d0 i)"
    using assms unfolding branch_moves_def by simp
  with that show ?thesis by blast
qed

lemma swap_delay_eq [simp]: "swap_delay = 6" "get_delay (swap_on a b) = 6"
  by (simp_all add: swap_delay_def get_delay_def swap_on_def)

lemma trace_route_spec:
  assumes ok: "device_ok d0" and s: "search_ok d0 t0 t1 pq d" and t: "t0 \<noteq> t1"
    and n: "t0 < length (dv_qubits d0)" "t1 < length (dv_qubits d0)"
  shows "on_side d s q \<Longrightarrow> \<exists>ops. trace_route d (if s then t1 else t0) q = Some ops \<and> branch_moves d0 p d s (if s then t1 else t0) q ops"
proof (induction "pq_cost (phys d q)" arbitrary: q rule: less_induct)
  case less
  let ?t = "if s then t1 else t0"
  note dd = search_ok_device [OF ok s] and so = search_okD [OF s]
  have gr: "graph_ok (length (dv_qubits d0)) (coupling d0)" by (rule device_okD(5) [OF ok])
  have q: "q < length (dv_qubits d)" "pq_taken (phys d q)" "pq_source (phys d q) = s" using less.prems by (auto simp: on_side_def)
  have occ: "pq_occupied (phys d i) = occupied d0 i" if "i < length (dv_qubits d)" for i
    using so(1) that dd(3) by (simp add: agree_def occupied_def)
  have tq: "taken_ok t0 t1 d q" by (rule so(5) [OF q(1,2)])
  show ?case
  proof (cases "q = ?t")
    case True
    then have "pq_cost (phys d q) = occupied d0 q" using tq occ [OF q(1)] by (cases s) (auto simp: taken_ok_def)
    then have "\<exists>dy py. runs d0 p (xs @ rev []) [] dy py \<and> py ! q = px ! ?t \<and> occupied dy q \<le> pq_cost (phys d q) \<and>
        (\<forall>i < length (dv_qubits d). \<not> on_side d s i \<longrightarrow> py ! i = px ! i \<and> occupied dy i = occupied dx i) \<and>
        (\<forall>i. on_side d s i \<longrightarrow> pq_cost (phys d q) < pq_cost (phys d i) \<longrightarrow> occupied dy i = occupied d0 i)"
      if "runs d0 p xs [] dx px" "\<forall>i. on_side d s i \<longrightarrow> occupied dx i = occupied d0 i" for xs dx px
      using that True less.prems by (intro exI [of _ dx] exI [of _ px]) simp
    then have "branch_moves d0 p d s ?t q []" unfolding branch_moves_def by simp
    moreover have "trace_route d ?t q = Some []" using True by (subst trace_route.simps) simp
    ultimately show ?thesis by blast
  next
    case False
    have src: "pq_source (phys d t1)" "\<not> pq_source (phys d t0)" using so(2,3,5) n dd(3) t by (auto simp: taken_ok_def)
    then have nt: "q \<noteq> t0" "q \<noteq> t1" using False q(3) by (cases s; auto)+
    let ?c = "parent d q"
    have pq: "parent_ok d q" "pq_cost (phys d q) = arrival d q" "pq_swap_time (phys d q) = pq_cost (phys d q) - swap_delay"
      using tq nt by (auto simp: taken_ok_def)
    have qc: "(q, ?c) \<in> coupling d0" using pq(1) dd(2) by (simp add: parent_ok_def)
    have c: "?c < length (dv_qubits d)" "?c < length (dv_qubits d0)" "q \<noteq> ?c" using graph_okD(2,3) [OF gr qc] dd(3) by auto
    have side: "on_side d s ?c" using pq(1) q(3) c by (simp add: on_side_def parent_ok_def)
    have cost: "pq_cost (phys d ?c) \<le> pq_swap_time (phys d q)" "occupied d0 q \<le> pq_swap_time (phys d q)"
      "pq_swap_time (phys d q) + 6 = pq_cost (phys d q)" using pq(2,3) occ [OF q(1)] by (auto simp: arrival_def)
    obtain ops where ops: "trace_route d ?t ?c = Some ops" and bm: "branch_moves d0 p d s ?t ?c ops"
      using less.hyps [OF _ side] cost by auto
    let ?x = "emit (swap_on q ?c) (pq_swap_time (phys d q))"
    have tr: "trace_route d ?t q = Some (?x # ops)" using False q(1) ops by (subst trace_route.simps) simp
    have "branch_moves d0 p d s ?t q (?x # ops)"
      unfolding branch_moves_def
    proof (intro conjI allI impI)
      show "\<forall>x \<in> set (?x # ops). pair_op d0 x" using bm qc by (auto simp: branch_moves_def pair_op_def emit_def swap_on_def)
      fix xs dx px assume r: "runs d0 p xs [] dx px" and o: "\<forall>i. on_side d s i \<longrightarrow> occupied dx i = occupied d0 i"
      obtain dy py where y: "runs d0 p (xs @ rev ops) [] dy py" "py ! ?c = px ! ?t" "occupied dy ?c \<le> pq_cost (phys d ?c)"
        "\<forall>i < length (dv_qubits d). \<not> on_side d s i \<longrightarrow> py ! i = px ! i \<and> occupied dy i = occupied dx i"
        "\<forall>i. on_side d s i \<longrightarrow> pq_cost (phys d ?c) < pq_cost (phys d i) \<longrightarrow> occupied dy i = occupied d0 i"
        by (rule branch_movesD [OF bm r o])
      let ?dz = "apply_gate (swap_on q ?c) (pq_swap_time (phys d q)) dy" and ?pz = "exchange q ?c py"
      have oq: "occupied dy q = occupied d0 q" using y(5) less.prems cost by simp
      have z: "runs d0 p ((xs @ rev ops) @ [?x]) [] ?dz ?pz"
        by (rule runs_swap [OF ok y(1) qc]) (use oq cost y(3) in auto)
      have w: "op_wires ?x = {q, ?c}" using wires_swap_on [OF ok, of q ?c] q(1) c(2) dd(3) by (simp add: emit_def)
      have oz: "occupied ?dz i = (if i = q \<or> i = ?c then pq_cost (phys d q) else occupied dy i)" if "i < length (dv_qubits d)" for i
        using runs_snoc_occupied [OF z y(1), of i] that dd(3) w cost(3) by (simp add: emit_def)
      have "length py = length (dv_qubits d)" using runsD(1,2) [OF y(1)] dd(3) by (simp add: placed_def placement_def same_frame_def)
      then have ez: "?pz ! i = (if i = ?c then py ! q else if i = q then py ! ?c else py ! i)" if "i < length (dv_qubits d)" for i
        using that q(1) c(1) by (simp add: nth_exchange)
      have "?pz ! q = px ! ?t" using ez [OF q(1)] c(3) y(2) by simp
      moreover have "occupied ?dz q \<le> pq_cost (phys d q)" using oz [OF q(1)] by simp
      moreover have "?pz ! i = px ! i \<and> occupied ?dz i = occupied dx i" if "i < length (dv_qubits d)" "\<not> on_side d s i" for i
        using that ez oz y(4) side less.prems by auto
      moreover have "occupied ?dz i = occupied d0 i" if "on_side d s i" "pq_cost (phys d q) < pq_cost (phys d i)" for i
      proof -
        have "i < length (dv_qubits d)" "i \<noteq> q" "i \<noteq> ?c" using that cost by (auto simp: on_side_def)
        then show ?thesis using oz y(5) that cost by simp
      qed
      ultimately show "\<exists>dy py. runs d0 p (xs @ rev (?x # ops)) [] dy py \<and> py ! q = px ! ?t \<and> occupied dy q \<le> pq_cost (phys d q) \<and>
          (\<forall>i < length (dv_qubits d). \<not> on_side d s i \<longrightarrow> py ! i = px ! i \<and> occupied dy i = occupied dx i) \<and>
          (\<forall>i. on_side d s i \<longrightarrow> pq_cost (phys d q) < pq_cost (phys d i) \<longrightarrow> occupied dy i = occupied d0 i)"
        using z by (intro exI [of _ ?dz] exI [of _ ?pz]) auto
    qed
    then show ?thesis using tr by blast
  qed
qed

section \<open>Both branches and the gate\<close>

lemma traceback_spec:
  assumes ok: "device_ok d0" and p: "placed d0 p" and s: "search_ok d0 t0 t1 pq d" and t: "t0 \<noteq> t1"
    and n: "t0 < length (dv_qubits d0)" "t1 < length (dv_qubits d0)"
    and q: "(q0, q1) \<in> coupling d0" "on_side d False q0" "on_side d True q1" and g: "length (snd g) = 2"
    and qids: "qids = (if swap_ids then [q1, q0] else [q0, q1])"
  shows "\<exists>ops0 ops1 time d1 p1. trace_route d t0 q0 = Some ops0 \<and> trace_route d t1 q1 = Some ops1 \<and>
    time = max (pq_cost (phys d q0)) (pq_cost (phys d q1)) \<and>
    (\<forall>x \<in> set (rev ops0 @ rev ops1 @ [((fst g, qids), (time, time + get_delay g))]). pair_op d0 x) \<and>
    runs d0 p (rev ops0 @ rev ops1 @ [((fst g, qids), (time, time + get_delay g))])
      (if is_swap_op g then [] else [(fst g, if swap_ids then [p ! t1, p ! t0] else [p ! t0, p ! t1])]) d1 p1"
proof -
  note dd = search_ok_device [OF ok s] and so = search_okD [OF s]
  have gr: "graph_ok (length (dv_qubits d0)) (coupling d0)" by (rule device_okD(5) [OF ok])
  have src: "on_side d False t0" "on_side d True t1" using so(2,3,5) n dd(3) t by (auto simp: taken_ok_def on_side_def)
  obtain ops0 where o0: "trace_route d t0 q0 = Some ops0" "branch_moves d0 p d False t0 q0 ops0"
    using trace_route_spec [OF ok s t n q(2), of p] by auto
  obtain ops1 where o1: "trace_route d t1 q1 = Some ops1" "branch_moves d0 p d True t1 q1 ops1"
    using trace_route_spec [OF ok s t n q(3), of p] by auto
  obtain dy py where y: "runs d0 p (rev ops0) [] dy py" "py ! q0 = p ! t0" "occupied dy q0 \<le> pq_cost (phys d q0)"
    "\<forall>i < length (dv_qubits d). \<not> on_side d False i \<longrightarrow> py ! i = p ! i \<and> occupied dy i = occupied d0 i"
    using branch_movesD [OF o0(2) runs_refl [OF p]] by (metis append_Nil)
  have "\<forall>i. on_side d True i \<longrightarrow> occupied dy i = occupied d0 i" using y(4) by (auto simp: on_side_def)
  then obtain dz pz where z: "runs d0 p (rev ops0 @ rev ops1) [] dz pz" "pz ! q1 = py ! t1" "occupied dz q1 \<le> pq_cost (phys d q1)"
    "\<forall>i < length (dv_qubits d). \<not> on_side d True i \<longrightarrow> pz ! i = py ! i \<and> occupied dz i = occupied dy i"
    using branch_movesD [OF o1(2) y(1)] by metis
  have side: "\<not> on_side d True q0" "\<not> on_side d False t1" "q0 < length (dv_qubits d)" "t1 < length (dv_qubits d)"
    using q(2) src by (auto simp: on_side_def)
  have h: "pz ! q0 = p ! t0" "pz ! q1 = p ! t1" "occupied dz q0 \<le> pq_cost (phys d q0)" using z y side by auto
  let ?time = "max (pq_cost (phys d q0)) (pq_cost (phys d q1))"
  let ?cx = "(fst g, qids)"
  obtain a b where ab: "qids = [a, b]" "(a, b) \<in> coupling d0" "a \<in> {q0, q1}" "b \<in> {q0, q1}"
    "[pz ! a, pz ! b] = (if swap_ids then [p ! t1, p ! t0] else [p ! t0, p ! t1])"
    using qids q(1) graph_okD(4) [OF gr, of q0 q1] h by (cases swap_ids) auto
  have delay: "get_delay g = get_delay ?cx" using g ab(1) by (simp add: get_delay_def)
  note f = same_frame_ok [OF runsD(1) [OF z(1)] ok] same_frame_coupling [OF runsD(1) [OF z(1)]]
  have le: "occupied dz a \<le> ?time" "occupied dz b \<le> ?time" using ab(3,4) h(3) z(3) by (auto simp: le_max_iff_disj)
  have rq: "real_qubits ?cx = [a, b]"
    using graph_okD(1,2) [OF gr ab(2)] small_qubit [OF ok] ab(1) by (fastforce simp: real_qubits_def)
  have "runs dz pz [(?cx, (?time, ?time + get_delay ?cx))]
      (if is_swap_op g then [] else [(fst g, if swap_ids then [p ! t1, p ! t0] else [p ! t0, p ! t1])])
      (apply_gate ?cx ?time dz) (move_qubits ?cx pz)"
    using runs_pair [OF f(1) runsD(2) [OF z(1)], of a b ?cx ?time] ab f(2) le rq
    by (simp add: logical_gate_def split del: if_split cong: if_cong)
  from runs_append [OF ok z(1) this] have
    r: "runs d0 p (rev ops0 @ rev ops1 @ [(?cx, (?time, ?time + get_delay g))])
      (if is_swap_op g then [] else [(fst g, if swap_ids then [p ! t1, p ! t0] else [p ! t0, p ! t1])])
      (apply_gate ?cx ?time dz) (move_qubits ?cx pz)" by (simp add: delay split del: if_split)
  moreover have "pair_op d0 x" if "x \<in> set (rev ops0 @ rev ops1 @ [(?cx, (?time, ?time + get_delay g))])" for x
    using that o0(2) o1(2) ab(1,2) delay by (auto simp: branch_moves_def pair_op_def)
  ultimately show ?thesis using o0(1) o1(1) by blast
qed

lemma phys_reset_all:
  "i < length (dv_qubits d) \<Longrightarrow> phys (reset_all d) i = (if i < dv_num_qubit d then pq_reset (phys d i) else phys d i)"
  "length (dv_qubits (reset_all d)) = length (dv_qubits d)" "agree d (reset_all d)"
proof -
  have "length (dv_qubits (fold (\<lambda>i. upd_qubit i pq_reset) [0..<m] d)) = length (dv_qubits d) \<and>
      agree d (fold (\<lambda>i. upd_qubit i pq_reset) [0..<m] d) \<and>
      (\<forall>i < length (dv_qubits d). phys (fold (\<lambda>i. upd_qubit i pq_reset) [0..<m] d) i = (if i < m then pq_reset (phys d i) else phys d i))" for m
  proof (induction m)
    case (Suc m)
    have "agree e (upd_qubit m pq_reset e)" for e :: device by (rule agree_upd) (simp_all add: pq_reset_def)
    then show ?case using Suc by (auto simp: phys_upd_qubit less_Suc_eq intro: agree_trans)
  qed simp
  note a = this [of "dv_num_qubit d"]
  show "i < length (dv_qubits d) \<Longrightarrow> phys (reset_all d) i = (if i < dv_num_qubit d then pq_reset (phys d i) else phys d i)"
    "length (dv_qubits (reset_all d)) = length (dv_qubits d)" "agree d (reset_all d)"
    using a by (auto simp: reset_all_def)
qed

lemma reset_all_idle: "device_ok d \<Longrightarrow> device_idle (reset_all d)"
  using device_okD(1) [of d] by (auto simp: device_idle_def phys_reset_all pq_reset_def)

text \<open>Every order that \<open>std::ranges::sort\<close> may return performs the same gate and leaves the same placement and times.\<close>

lemma traceback_any_order:
  assumes ok: "device_ok d0" and p: "placed d0 p" and a: "agree d0 d" and x: "\<forall>x \<in> set xs. pair_op d0 x"
    and r: "runs d0 p xs gs d1 p1" and gs: "length gs \<le> 1" and ys: "mset ys = mset xs" "sorted (map start_time ys)"
  shows "runs d0 p ys gs (apply_ops ys d) p1"
proof -
  have "in_order op_wires start_time xs" by (rule timeline_in_order [OF runsD(6) [OF r]])
  then have o: "reorder op_wires xs ys" by (rule sorted_reorder [OF _ ys])
  from runs_reordered [OF ok r x p o] obtain gs' where
    r': "runs d0 p ys gs' (apply_ops ys d0) p1" and g: "reorder (\<lambda>g. set (snd g)) gs gs'" by blast
  have gs': "gs' = gs" using gs reorder_mset [OF g] by (cases gs) (auto simp: size_mset [symmetric] simp del: size_mset)
  have f: "same_frame d0 d" using a by (simp add: agree_def)
  have ok': "device_ok d" by (rule same_frame_ok [OF f ok])
  have c: "coupling d = coupling d0" by (rule same_frame_coupling [OF f])
  have "runs d p ys (unroute (map fst ys) p) (apply_ops ys d) (final_placement (map fst ys) p)"
  proof (rule runs_apply_ops [OF ok' agree_placed [OF a p]])
    show "\<forall>y \<in> set ys. pair_op d y" using x reorder_set [OF o] c by (simp add: pair_op_def)
    have "timeline (occupied d0) ys" by (rule runsD(6) [OF r'])
    moreover have "q < length (dv_qubits d0)" if "y \<in> set ys" "q \<in> op_wires y" for y q
      using wires_on_coupling [OF ok runsD(5) [OF r' that(1)]] that(2) by auto
    moreover have "occupied d q = occupied d0 q" if "q < length (dv_qubits d0)" for q using a that by (simp add: agree_def occupied_def)
    ultimately show "timeline (occupied d) ys" using timeline_cong [of ys "length (dv_qubits d0)" "occupied d" "occupied d0"] by simp
  qed
  then have "runs d0 p ys (unroute (map fst ys) p) (apply_ops ys d) (final_placement (map fst ys) p)" by (rule runs_agree_start [OF ok a])
  then show ?thesis using runsD(3,4) [OF r'] gs' by simp
qed

lemma duostra_routing_correct:
  assumes ok: "device_ok d" and i: "device_idle d" and p: "placed d p" and q: "routable d q0 q1" and g: "length (snd g) = 2"
  shows "\<exists>ops d' p'. duostra_routing g (q0, q1) tie d = Some (ops, d') \<and>
    runs d p ops (if is_swap_op g then [] else [(fst g, [p ! q0, p ! q1])]) d' p' \<and> device_idle d' \<and> sorted (map start_time ops)"
proof -
  let ?w = "swaps_sources tie q0 q1 d"
  define t0 where "t0 = (if ?w then q1 else q0)"
  define t1 where "t1 = (if ?w then q0 else q1)"
  have sy: "(q1, q0) \<in> (coupling d)\<^sup>*"
    using q device_okD(5) [OF ok] by (auto simp: routable_def graph_ok_def dest: symD [OF sym_rtrancl])
  then have rt: "routable d t0 t1" using q by (auto simp: t0_def t1_def routable_def)
  then have t: "t0 \<noteq> t1" "t0 < length (dv_qubits d)" "t1 < length (dv_qubits d)" by (auto simp: routable_def)
  obtain r0 pq1 d1 where e0: "touch t0 False ([], mark_sources t0 t1 d) = (r0, pq1, d1)" by (metis prod_cases3)
  obtain r1 pq2 d2 where e1: "touch t1 True (pq1, d1) = (r1, pq2, d2)" by (metis prod_cases3)
  from search_phase [OF ok rt i e0 e1] obtain s0 s1 pq e where
    se: "(if r0 \<noteq> None then Some (t0, t1, d2) else duostra_search pq2 d2) = Some (s0, s1, e)" and s: "search_ok d t0 t1 pq e"
    and c: "(s0, s1) \<in> coupling d" and tk: "pq_taken (phys e s0)" "pq_taken (phys e s1)" "\<not> pq_source (phys e s0)" "pq_source (phys e s1)"
    by blast
  have len: "length (dv_qubits e) = length (dv_qubits d)" by (rule search_ok_device(3) [OF ok s])
  have side: "on_side e False s0" "on_side e True s1"
    using tk graph_okD(1,2) [OF device_okD(5) [OF ok] c] len by (auto simp: on_side_def)
  let ?gs = "if is_swap_op g then [] else [(fst g, [p ! q0, p ! q1])]"
  have gs: "(if is_swap_op g then [] else [(fst g, if ?w then [p ! t1, p ! t0] else [p ! t0, p ! t1])]) = ?gs"
    by (auto simp: t0_def t1_def)
  obtain ops0 ops1 time d3 p3 where o: "trace_route e t0 s0 = Some ops0" "trace_route e t1 s1 = Some ops1"
    and time: "time = max (pq_cost (phys e s0)) (pq_cost (phys e s1))"
    and x: "\<forall>x \<in> set (rev ops0 @ rev ops1 @ [((fst g, if ?w then [s1, s0] else [s0, s1]), (time, time + get_delay g))]). pair_op d x"
    and r: "runs d p (rev ops0 @ rev ops1 @ [((fst g, if ?w then [s1, s0] else [s0, s1]), (time, time + get_delay g))]) ?gs d3 p3"
    using traceback_spec [OF ok p s t c side g refl, of ?w, unfolded gs] by blast
  let ?cx = "((fst g, if ?w then [s1, s0] else [s0, s1]), (time, time + get_delay g))"
  let ?ops = "sort_key start_time (?cx # ops0 @ ops1)"
  have tb: "traceback g s0 s1 t0 t1 ?w e = Some (?ops, apply_ops ?ops e)"
    by (simp add: traceback_def o time Let_def)
  have rr: "runs d p ?ops ?gs (apply_ops ?ops e) p3"
  proof (rule traceback_any_order [OF ok p search_okD(1) [OF s] x r])
    show "mset ?ops = mset (rev ops0 @ rev ops1 @ [?cx])" by (simp add: ac_simps)
    show "sorted (map start_time ?ops)" by (rule sorted_sort_key)
  qed simp
  have "duostra_routing g (q0, q1) tie d = Some (?ops, reset_all (apply_ops ?ops e))"
    using e0 e1 se tb by (simp add: duostra_routing_def t0_def t1_def Let_def split: if_splits)
  moreover have "runs d p ?ops ?gs (reset_all (apply_ops ?ops e)) p3" by (rule runs_agree_end [OF rr phys_reset_all(3)])
  moreover have "device_idle (reset_all (apply_ops ?ops e))"
    by (rule reset_all_idle [OF same_frame_ok [OF runsD(1) [OF rr] ok]])
  moreover have "sorted (map start_time ?ops)" by (rule sorted_sort_key)
  ultimately show ?thesis by blast
qed

end
