(* ===== verification/GateAssignment.thy ===== *)
theory GateAssignment
  imports DuostraRouting
begin

text \<open>
  \<open>Router::_initialize\<close> and \<open>Router::assign_gate\<close> (src/src/duostra/router.cpp): the router keeps the inverse of
  the placement, and assigning a gate performs that gate, whichever router is chosen.
\<close>

section \<open>The invariant of a router\<close>

definition connected_device :: "device \<Rightarrow> bool" where
  "connected_device d \<longleftrightarrow> (\<forall>i < length (dv_qubits d). \<forall>j < length (dv_qubits d). (i, j) \<in> (coupling d)\<^sup>*)"

definition locates :: "nat list \<Rightarrow> nat list \<Rightarrow> bool" where
  "locates l2p p \<longleftrightarrow> length l2p = length p \<and> (\<forall>i < length p. l2p ! (p ! i) = i)"

definition router_ok :: "router \<Rightarrow> nat list \<Rightarrow> bool" where
  "router_ok r p \<longleftrightarrow> device_ok (rt_device r) \<and> connected_device (rt_device r) \<and> placed (rt_device r) p \<and> locates (rt_logical_to_physical r) p \<and>
     (if rt_duostra r then device_idle (rt_device r) else \<exists>D P. routed_tables (rt_device r) D P) \<and>
     (rt_apsp r \<longrightarrow> (\<exists>D P. routed_tables (rt_device r) D P))"

lemma locates_at:
  assumes "placement n p" "locates l2p p" "l < n"
  shows "l2p ! l < n" "p ! (l2p ! l) = l"
proof -
  obtain i where "i < length p" "p ! i = l" using assms by (metis in_set_conv_nth lessThan_iff placement_def)
  then show "l2p ! l < n" "p ! (l2p ! l) = l" using assms by (auto simp: locates_def placement_def)
qed

lemma update_mapping_locates:
  assumes "placement n p" "length l2p = n"
  shows "locates (update_mapping (map Some p) l2p) p"
proof -
  have p: "length p = n" "distinct p" "set p = {..<n}" using assms(1) by (auto simp: placement_def)
  have "length (fold (\<lambda>i l2p. l2p[p ! i := i]) [0..<m] l2p) = n \<and>
      (\<forall>i < m. fold (\<lambda>i l2p. l2p[p ! i := i]) [0..<m] l2p ! (p ! i) = i)" if "m \<le> n" for m
    using that
  proof (induction m)
    case 0
    then show ?case using assms(2) by simp
  next
    case (Suc m)
    have "p ! m < n" using Suc.prems p nth_mem [of m p] by auto
    moreover have "p ! m \<noteq> p ! i" if "i < m" for i using that Suc.prems p nth_eq_iff_index_eq [of p i m] by auto
    ultimately show ?case using Suc by (auto simp: less_Suc_eq)
  qed
  from this [of n] have "length (fold (\<lambda>i l2p. l2p[p ! i := i]) [0..<n] l2p) = n \<and>
      (\<forall>i < n. fold (\<lambda>i l2p. l2p[p ! i := i]) [0..<n] l2p ! (p ! i) = i)" by simp
  moreover have "update_mapping (map Some p) l2p = fold (\<lambda>i l2p. l2p[p ! i := i]) [0..<n] l2p"
    unfolding update_mapping_def by (simp add: p(1)) (rule fold_cong; simp add: p(1))
  ultimately show ?thesis using p by (simp add: locates_def)
qed

lemma logical_to_physical_locates:
  assumes "device_ok d" "placed d p"
  shows "\<exists>l2p. logical_to_physical d = Some l2p \<and> locates l2p p"
proof -
  let ?n = "length (dv_qubits d)"
  have pl: "placement ?n p" "length p = ?n" using assms(2) by (auto simp: placed_def placement_def)
  have "fold (\<lambda>i r. case r of None \<Rightarrow> None | Some l2p \<Rightarrow> (case pq_logical (phys d i) of None \<Rightarrow> None | Some l \<Rightarrow> Some (l2p[l := i]))) [0..<m] (Some l2p) =
      Some (fold (\<lambda>i l2p. l2p[p ! i := i]) [0..<m] l2p)" if "m \<le> ?n" for m l2p
    using that by (induction m) (auto simp: placed_logical [OF assms(2)])
  from this [of ?n "replicate ?n 0"] have "logical_to_physical d = Some (fold (\<lambda>i l2p. l2p[p ! i := i]) [0..<?n] (replicate ?n 0))"
    using device_okD(1) [OF assms(1)] by (simp add: logical_to_physical_def)
  moreover have "fold (\<lambda>i l2p. l2p[p ! i := i]) [0..<?n] (replicate ?n 0) = update_mapping (map Some p) (replicate ?n 0)"
    unfolding update_mapping_def by (simp add: pl(2)) (rule fold_cong; simp add: pl(2))
  ultimately show ?thesis using update_mapping_locates [OF pl(1), of "replicate ?n 0"] by simp
qed

lemma same_frame_connected: "same_frame d d' \<Longrightarrow> connected_device d \<Longrightarrow> connected_device d'"
  using same_frame_coupling [of d d'] same_frame_length [of d d'] by (simp add: connected_device_def)

lemma router_new_ok:
  assumes ok: "device_ok d" and c: "connected_device d" and p: "placed d p" and i: "device_idle d"
  shows "\<exists>r. router_new d type cost tie = Some r \<and> router_ok r p \<and> coupling (rt_device r) = coupling d \<and>
    dv_qubits (rt_device r) = dv_qubits d"
proof -
  let ?d = "if type = Shortest_path \<or> cost = Cost_end then calculate_path d else d"
  have ok': "device_ok ?d" using ok calculate_path_tables(2) [OF ok] by simp
  have q: "dv_qubits ?d = dv_qubits d" "coupling ?d = coupling d" by simp_all
  have p': "placed ?d p" using p q by (simp add: placed_def mapping_def)
  obtain l2p where l: "logical_to_physical ?d = Some l2p" "locates l2p p" using logical_to_physical_locates [OF ok' p'] by auto
  have ci: "connected_device ?d" "device_idle ?d" using c i unfolding connected_device_def device_idle_def q by simp_all
  have t: "\<exists>D P. routed_tables ?d D P" if "type = Shortest_path \<or> cost = Cost_end" using calculate_path_tables(1) [OF ok] that by simp
  let ?r = "\<lparr>rt_tie_breaking = tie, rt_device = ?d, rt_logical_to_physical = l2p, rt_apsp = (type = Shortest_path \<or> cost = Cost_end),
      rt_duostra = (type = Duostra_router)\<rparr>"
  have "router_ok ?r p"
    unfolding router_ok_def router.simps using ok' ci p' l(2) t by (cases type) (simp_all del: if_split)
  moreover have "router_new d type cost tie = Some ?r" using l(1) by (simp add: router_new_def Let_def del: if_split)
  ultimately show ?thesis using q by (metis router.select_convs(2))
qed

section \<open>A gate on one qubit\<close>

lemma runs_single:
  assumes ok: "device_ok d" and p: "placed d p" and q: "q < length (dv_qubits d)" and g: "\<not> is_swap_op g"
  shows "runs d p [fst (execute_single g q d)] [(fst g, [p ! q])] (snd (execute_single g q d)) p"
    "device_idle d \<Longrightarrow> device_idle (snd (execute_single g q d))"
proof -
  let ?f = "pq_occupied (phys d q) + get_delay g" and ?op = "(fst g, [q, max_qubit_id])"
  let ?d = "upd_qubit q pq_reset (upd_qubit q (set_occupied ?f) d)"
  have e: "execute_single g q d = ((?op, (pq_occupied (phys d q), ?f)), ?d)" by (simp add: execute_single_def Let_def)
  have rq: "real_qubits ?op = [q]" using small_qubit [OF ok q] by (simp add: real_qubits_def)
  have len: "length (dv_qubits ?d) = length (dv_qubits d)" by simp
  have ph: "phys ?d i = (if i = q then pq_reset (set_occupied ?f (phys d i)) else phys d i)" if "i < length (dv_qubits d)" for i
    using that by (simp add: phys_upd_qubit)
  have "same_frame d ?d"
    by (rule same_frame_trans [of _ "upd_qubit q (set_occupied ?f) d"]; rule same_frame_upd) (simp_all add: pq_reset_def)
  moreover have "placed ?d p"
    by (rule placedI) (use p placed_logical [OF p] ph in \<open>auto simp: placed_def pq_reset_def\<close>)
  moreover have "busy_after [(?op, (pq_occupied (phys d q), ?f))] (occupied d) i = occupied ?d i" if "i < length (dv_qubits d)" for i
    using that ph by (simp add: busy_after_def busy_def wires_def rq occupied_def pq_reset_def)
  ultimately show "runs d p [fst (execute_single g q d)] [(fst g, [p ! q])] (snd (execute_single g q d)) p"
    using g q get_delay_pos [of g]
    by (auto simp: e runs_def logical_gate_def rq final_placement_def move_qubits_def on_coupling_def wires_def occupied_def)
  show "device_idle (snd (execute_single g q d))" if "device_idle d"
    using that ph by (auto simp: e device_idle_def pq_reset_def)
qed

section \<open>Assigning a gate\<close>

definition mappable :: "nat \<Rightarrow> gate \<Rightarrow> bool" where
  "mappable n g \<longleftrightarrow> gate_ok n g \<and> (length (snd g) = 1 \<or> length (snd g) = 2)"

definition performed :: "gate list \<Rightarrow> gate list" where
  "performed gs = filter (\<lambda>g. \<not> is_swap_op g) gs"

lemma performed_simps [simp]: "performed [] = []" "performed (g # gs) = (if is_swap_op g then performed gs else g # performed gs)"
  "performed (gs @ hs) = performed gs @ performed hs"
  by (simp_all add: performed_def)

lemma swap_gate_two: "gate_ok n g \<Longrightarrow> is_swap_op g \<Longrightarrow> length (snd g) = 2"
  by (simp add: gate_ok_def on_qubits_def operation_eq_def)

lemma assign_gate_correct:
  assumes r: "router_ok r p" and g: "mappable (length (dv_qubits (rt_device r))) g"
  shows "\<exists>ops r' p'. assign_gate g r = Some (ops, r') \<and> runs (rt_device r) p ops (performed [g]) (rt_device r') p' \<and> router_ok r' p' \<and>
    rt_tie_breaking r' = rt_tie_breaking r \<and> rt_apsp r' = rt_apsp r \<and> rt_duostra r' = rt_duostra r"
proof -
  let ?d = "rt_device r" and ?n = "length (dv_qubits (rt_device r))" and ?l2p = "rt_logical_to_physical r"
  have ok: "device_ok ?d" and con: "connected_device ?d" and p: "placed ?d p" and loc: "locates ?l2p p"
    using r by (auto simp: router_ok_def)
  have pl: "placement ?n p" using p by (simp add: placed_def)
  have gq: "distinct (snd g)" "set (snd g) \<subseteq> {..<?n}" using g by (auto simp: mappable_def gate_ok_def on_qubits_def)
  show ?thesis
  proof (cases "length (snd g) = 1")
    case True
    then obtain l where l: "snd g = [l]" by (auto simp: length_Suc_conv)
    then have q: "?l2p ! l < ?n" "p ! (?l2p ! l) = l" using locates_at [OF pl loc] gq by auto
    have ns: "\<not> is_swap_op g" using swap_gate_two g True by (fastforce simp: mappable_def)
    obtain op d' where e: "execute_single g (?l2p ! l) ?d = (op, d')" by (cases "execute_single g (?l2p ! l) ?d")
    have rn: "runs ?d p [op] [g] d' p" "device_idle ?d \<Longrightarrow> device_idle d'"
      using runs_single [OF ok p q(1) ns] q(2) l by (simp_all add: e) (metis prod.collapse)
    have f: "same_frame ?d d'" by (rule runsD(1) [OF rn(1)])
    have "router_ok (r\<lparr>rt_device := d'\<rparr>) p"
      using r rn(2) same_frame_ok [OF f ok] same_frame_connected [OF f con] runsD(2) [OF rn(1)] same_frame_tables [OF f]
      unfolding router_ok_def by (auto split: if_splits)
    moreover have "assign_gate g r = Some ([op], r\<lparr>rt_device := d'\<rparr>)" using l e by (simp add: assign_gate_def get_physical_qubits_def)
    ultimately show ?thesis using rn(1) ns by fastforce
  next
    case False
    then have two: "length (snd g) = 2" using g by (simp add: mappable_def)
    then obtain a b where ab: "snd g = [a, b]" by (auto simp: length_Suc_conv numeral_2_eq_2)
    let ?q0 = "?l2p ! a" and ?q1 = "?l2p ! b"
    have q: "?q0 < ?n" "p ! ?q0 = a" "?q1 < ?n" "p ! ?q1 = b" using locates_at [OF pl loc] gq ab by auto
    have rt: "routable ?d ?q0 ?q1" using q con gq ab by (auto simp: routable_def connected_device_def)
    have gs: "(if is_swap_op g then [] else [(fst g, [p ! ?q0, p ! ?q1])]) = performed [g]"
      using q ab by (simp add: performed_def) (metis prod.collapse)
    have "\<exists>ops d' p'. (if rt_duostra r then duostra_routing g (?q0, ?q1) (rt_tie_breaking r) ?d else apsp_routing g (?q0, ?q1) (rt_tie_breaking r) ?d)
        = Some (ops, d') \<and> runs ?d p ops (performed [g]) d' p' \<and> (rt_duostra r \<longrightarrow> device_idle d')"
    proof (cases "rt_duostra r")
      case True
      then have "device_idle ?d" using r by (simp add: router_ok_def)
      from duostra_routing_correct [OF ok this p rt two, of "rt_tie_breaking r", unfolded gs] show ?thesis using True by auto
    next
      case False
      then obtain D P where "routed_tables ?d D P" using r by (auto simp: router_ok_def)
      from apsp_routing_correct [OF ok this p rt two, of "rt_tie_breaking r", unfolded gs] show ?thesis using False by auto
    qed
    then obtain ops d' p' where e: "(if rt_duostra r then duostra_routing g (?q0, ?q1) (rt_tie_breaking r) ?d
        else apsp_routing g (?q0, ?q1) (rt_tie_breaking r) ?d) = Some (ops, d')"
      and rn: "runs ?d p ops (performed [g]) d' p'" and id: "rt_duostra r \<longrightarrow> device_idle d'" by blast
    let ?r = "r\<lparr>rt_device := d', rt_logical_to_physical := update_mapping (mapping d') ?l2p\<rparr>"
    have f: "same_frame ?d d'" and p': "placed d' p'" using runsD(1,2) [OF rn] .
    have "locates (update_mapping (mapping d') ?l2p) p'"
      using update_mapping_locates [of ?n p' ?l2p] p' loc pl same_frame_length [OF f] by (simp add: placed_def locates_def placement_def)
    then have "router_ok ?r p'"
      using r id same_frame_ok [OF f ok] same_frame_connected [OF f con] p' same_frame_tables [OF f]
      unfolding router_ok_def by (auto split: if_splits)
    moreover have "assign_gate g r = Some (ops, ?r)" using two ab q e by (simp add: assign_gate_def get_physical_qubits_def)
    ultimately show ?thesis using rn by fastforce
  qed
qed

end
