(* ===== verification/Placer.thy ===== *)
theory Placer
  imports GateAssignment
begin

text \<open>
  The initial placements (src/src/duostra/placer.cpp): every placer lists the physical qubits, and the qubit at
  position \<open>i\<close> receives the logical qubit \<open>i\<close>. The order \<open>std::ranges::shuffle\<close> produces is an argument. The recursion of
  the depth-first search has fuel; each call marks a qubit, so the number of qubits is enough.
\<close>

section \<open>The placers\<close>

datatype placer_type = Placer_naive | Placer_random | Placer_dfs

definition static_place :: "device \<Rightarrow> nat list" where
  "static_place d = [0..<dv_num_qubit d]"

definition random_place :: "(nat list \<Rightarrow> nat list) \<Rightarrow> device \<Rightarrow> nat list" where
  "random_place shuffle d = shuffle [0..<dv_num_qubit d]"

type_synonym dfs_state = "nat list \<times> bool list"

text \<open>One step of the first loop: a marked qubit is passed over, the only neighbour is visited, any other waits.\<close>

definition visit_or_wait ::
  "(nat \<Rightarrow> dfs_state \<Rightarrow> dfs_state option) \<Rightarrow> bool \<Rightarrow> nat \<Rightarrow> (nat list \<times> dfs_state) option \<Rightarrow> (nat list \<times> dfs_state) option" where
  "visit_or_wait visit corner adj r =
     (case r of None \<Rightarrow> None
      | Some (waitlist, s) \<Rightarrow>
          if length (snd s) \<le> adj then None
          else if snd s ! adj then Some (waitlist, s)
          else if corner then map_option (\<lambda>s. (waitlist, s)) (visit adj s)
          else Some (waitlist @ [adj], s))"

definition visit_unmarked :: "(nat \<Rightarrow> dfs_state \<Rightarrow> dfs_state option) \<Rightarrow> nat \<Rightarrow> dfs_state option \<Rightarrow> dfs_state option" where
  "visit_unmarked visit adj r = (case r of None \<Rightarrow> None | Some s \<Rightarrow> if snd s ! adj then Some s else visit adj s)"

fun dfs_device :: "nat \<Rightarrow> device \<Rightarrow> nat \<Rightarrow> dfs_state \<Rightarrow> dfs_state option" where
  "dfs_device 0 d current s = None"
| "dfs_device (Suc fuel) d current s =
     (if length (snd s) \<le> current \<or> length (dv_qubits d) \<le> current then None
      else
        let s = (fst s @ [current], (snd s)[current := True]);
            adjs = pq_adjacencies (phys d current) in
        case fold (visit_or_wait (dfs_device fuel d) (length adjs = 1)) adjs (Some ([], s)) of None \<Rightarrow> None
        | Some (waitlist, s) \<Rightarrow> fold (visit_unmarked (dfs_device fuel d)) waitlist (Some s))"

definition dfs_place :: "device \<Rightarrow> nat list option" where
  "dfs_place d = map_option fst (dfs_device (dv_num_qubit d) d 0 ([], replicate (dv_num_qubit d) False))"

definition place_qubits :: "placer_type \<Rightarrow> (nat list \<Rightarrow> nat list) \<Rightarrow> device \<Rightarrow> nat list option" where
  "place_qubits type shuffle d =
     (case type of Placer_naive \<Rightarrow> Some (static_place d)
      | Placer_random \<Rightarrow> Some (random_place shuffle d)
      | Placer_dfs \<Rightarrow> dfs_place d)"

definition place_and_assign :: "placer_type \<Rightarrow> (nat list \<Rightarrow> nat list) \<Rightarrow> device \<Rightarrow> (nat list \<times> device) option" where
  "place_and_assign type shuffle d = map_option (\<lambda>assign. (assign, place assign d)) (place_qubits type shuffle d)"

section \<open>The search visits every qubit\<close>

definition marks_ok :: "nat \<Rightarrow> dfs_state \<Rightarrow> bool" where
  "marks_ok n s \<longleftrightarrow> distinct (fst s) \<and> set (fst s) \<subseteq> {..<n} \<and> length (snd s) = n \<and> (\<forall>i < n. snd s ! i \<longleftrightarrow> i \<in> set (fst s))"

text \<open>What a call, or a loop of calls, adds: new qubits whose neighbours are all visited.\<close>

definition extends :: "nat \<Rightarrow> device \<Rightarrow> dfs_state \<Rightarrow> dfs_state \<Rightarrow> nat set \<Rightarrow> bool" where
  "extends n d s s' from \<longleftrightarrow>
     marks_ok n s' \<and> set (fst s) \<subseteq> set (fst s') \<and> from \<subseteq> set (fst s') \<and>
     (\<forall>x \<in> set (fst s') - set (fst s). set (pq_adjacencies (phys d x)) \<subseteq> set (fst s'))"

lemma visited_trans: "extends n d s s' A \<Longrightarrow> extends n d s' s'' B \<Longrightarrow> extends n d s s'' (A \<union> B)"
  unfolding extends_def by (intro conjI ballI; blast)

definition visits :: "nat \<Rightarrow> device \<Rightarrow> nat \<Rightarrow> (nat \<Rightarrow> dfs_state \<Rightarrow> dfs_state option) \<Rightarrow> bool" where
  "visits n d fuel visit \<longleftrightarrow>
     (\<forall>x s. marks_ok n s \<and> x < n \<and> x \<notin> set (fst s) \<and> n - length (fst s) \<le> fuel \<longrightarrow> (\<exists>s'. visit x s = Some s' \<and> extends n d s s' {x}))"

lemma visitsD:
  "visits n d fuel visit \<Longrightarrow> marks_ok n s \<Longrightarrow> x < n \<Longrightarrow> x \<notin> set (fst s) \<Longrightarrow> n - length (fst s) \<le> fuel \<Longrightarrow>
    \<exists>s'. visit x s = Some s' \<and> extends n d s s' {x}"
  unfolding visits_def by blast

lemma marks_length: "set (fst s) \<subseteq> set (fst s') \<Longrightarrow> marks_ok n s \<Longrightarrow> marks_ok n s' \<Longrightarrow> length (fst s) \<le> length (fst s')"
  unfolding marks_ok_def by (metis List.finite_set card_mono distinct_card)

lemma visited_refl: "marks_ok n s \<Longrightarrow> A \<subseteq> set (fst s) \<Longrightarrow> extends n d s s A"
  by (simp add: extends_def)

lemma visit_unmarked_fold:
  assumes v: "visits n d fuel visit"
  shows "marks_ok n s \<Longrightarrow> set xs \<subseteq> {..<n} \<Longrightarrow> n - length (fst s) \<le> fuel \<Longrightarrow>
    \<exists>s'. fold (visit_unmarked visit) xs (Some s) = Some s' \<and> extends n d s s' (set xs)"
proof (induction xs arbitrary: s)
  case Nil
  then show ?case by (simp add: visited_refl)
next
  case (Cons x xs)
  obtain s1 where s1: "visit_unmarked visit x (Some s) = Some s1" "extends n d s s1 {x}"
  proof (cases "x \<in> set (fst s)")
    case True
    then show ?thesis using that [of s] Cons.prems by (simp add: visit_unmarked_def marks_ok_def extends_def)
  next
    case False
    then obtain s' where "visit x s = Some s'" "extends n d s s' {x}" using visitsD [OF v Cons.prems(1), of x] Cons.prems by auto
    then show ?thesis using that [of s'] False Cons.prems by (simp add: visit_unmarked_def marks_ok_def)
  qed
  have m: "marks_ok n s1" "n - length (fst s1) \<le> fuel"
    using s1(2) marks_length [of s s1 n] Cons.prems by (auto simp: extends_def)
  obtain s' where "fold (visit_unmarked visit) xs (Some s1) = Some s'" "extends n d s1 s' (set xs)"
    using Cons.IH [OF m(1) _ m(2)] Cons.prems by auto
  then show ?case using s1(1) visited_trans [OF s1(2)] by fastforce
qed

lemma visit_or_wait_fold:
  assumes v: "visits n d fuel visit"
  shows "marks_ok n s \<Longrightarrow> set xs \<subseteq> {..<n} \<Longrightarrow> n - length (fst s) \<le> fuel \<Longrightarrow>
    \<exists>ys s'. fold (visit_or_wait visit corner) xs (Some (w, s)) = Some (w @ ys, s') \<and> set ys \<subseteq> set xs \<and> extends n d s s' (set xs - set ys)"
proof (induction xs arbitrary: s w)
  case Nil
  then show ?case by (simp add: visited_refl)
next
  case (Cons x xs)
  obtain zs s1 where s1: "visit_or_wait visit corner x (Some (w, s)) = Some (w @ zs, s1)" "set zs \<subseteq> {x}" "extends n d s s1 ({x} - set zs)"
  proof (cases "x \<in> set (fst s)")
    case True
    then show ?thesis using that [of "[]" s] Cons.prems by (simp add: visit_or_wait_def marks_ok_def extends_def)
  next
    case fresh: False
    show ?thesis
    proof (cases corner)
      case True
      obtain s' where "visit x s = Some s'" "extends n d s s' {x}" using visitsD [OF v Cons.prems(1), of x] Cons.prems fresh by auto
      then show ?thesis using that [of "[]" s'] fresh True Cons.prems by (simp add: visit_or_wait_def marks_ok_def)
    next
      case False
      then show ?thesis using that [of "[x]" s] fresh Cons.prems by (simp add: visit_or_wait_def marks_ok_def extends_def)
    qed
  qed
  have m: "marks_ok n s1" "n - length (fst s1) \<le> fuel"
    using s1(3) marks_length [of s s1 n] Cons.prems by (auto simp: extends_def)
  obtain ys s' where f: "fold (visit_or_wait visit corner) xs (Some (w @ zs, s1)) = Some ((w @ zs) @ ys, s')" "set ys \<subseteq> set xs"
    "extends n d s1 s' (set xs - set ys)" using Cons.IH [OF m(1) _ m(2), of "w @ zs"] Cons.prems by auto
  have "extends n d s s' (set (x # xs) - set (zs @ ys))"
    using visited_trans [OF s1(3) f(3)] by (auto simp: extends_def)
  then show ?case using s1(1,2) f(1,2) by (intro exI [of _ "zs @ ys"] exI [of _ s']) auto
qed

lemma dfs_device_visits:
  assumes ok: "device_ok d"
  shows "visits (length (dv_qubits d)) d fuel (dfs_device fuel d)"
proof (induction fuel)
  case 0
  have "length (dv_qubits d) - length (fst s) \<noteq> 0" if "marks_ok (length (dv_qubits d)) s" "x < length (dv_qubits d)" "x \<notin> set (fst s)" for x s
  proof -
    have "set (fst s) \<subset> {..<length (dv_qubits d)}" using that by (auto simp: marks_ok_def)
    then have "card (set (fst s)) < length (dv_qubits d)" using psubset_card_mono [of "{..<length (dv_qubits d)}"] by simp
    then show ?thesis using that(1) by (simp add: marks_ok_def distinct_card)
  qed
  then show ?case by (auto simp: visits_def)
next
  case (Suc fuel)
  let ?n = "length (dv_qubits d)"
  show ?case
    unfolding visits_def
  proof (intro allI impI)
    fix x s assume a: "marks_ok ?n s \<and> x < ?n \<and> x \<notin> set (fst s) \<and> ?n - length (fst s) \<le> Suc fuel"
    let ?s = "(fst s @ [x], (snd s)[x := True])" and ?adjs = "pq_adjacencies (phys d x)"
    have m: "marks_ok ?n ?s" using a by (auto simp: marks_ok_def nth_list_update)
    have adj: "set ?adjs \<subseteq> {..<?n}" 
    proof
      fix j assume "j \<in> set ?adjs"
      then have "(x, j) \<in> coupling d" using a by (simp add: coupling_def)
      then show "j \<in> {..<?n}" using graph_okD(2) [OF device_okD(5) [OF ok]] by blast
    qed
    have fu: "?n - length (fst ?s) \<le> fuel" using conjunct2 [OF conjunct2 [OF conjunct2 [OF a]]] by (simp add: le_diff_conv)
    obtain w s1 where 1: "fold (visit_or_wait (dfs_device fuel d) (length ?adjs = 1)) ?adjs (Some ([], ?s)) = Some (w, s1)"
      "set w \<subseteq> set ?adjs" "extends ?n d ?s s1 (set ?adjs - set w)"
      using visit_or_wait_fold [OF Suc.IH m adj fu, of "length ?adjs = 1" "[]"] by auto
    have m1: "marks_ok ?n s1" "?n - length (fst s1) \<le> fuel"
      using 1(3) marks_length [of ?s s1 ?n] m fu by (auto simp: extends_def)
    obtain s2 where 2: "fold (visit_unmarked (dfs_device fuel d)) w (Some s1) = Some s2" "extends ?n d s1 s2 (set w)"
      using visit_unmarked_fold [OF Suc.IH m1(1) _ m1(2), of w] 1(2) adj by auto
    have e: "extends ?n d ?s s2 (set ?adjs)" using visited_trans [OF 1(3) 2(2)] 1(2) by (auto simp: extends_def)
    have "extends ?n d s s2 {x}" using e a unfolding extends_def by auto
    moreover have "dfs_device (Suc fuel) d x s = Some s2" using a 1(1) 2(1) by (simp add: marks_ok_def Let_def)
    ultimately show "\<exists>s'. dfs_device (Suc fuel) d x s = Some s' \<and> extends ?n d s s' {x}" by blast
  qed
qed

definition orders :: "nat \<Rightarrow> nat list \<Rightarrow> bool" where
  "orders n xs \<longleftrightarrow> distinct xs \<and> set xs = {..<n}"

lemma dfs_place_orders:
  assumes ok: "device_ok d" and c: "connected_device d" and n: "0 < length (dv_qubits d)"
  shows "\<exists>xs. dfs_place d = Some xs \<and> orders (length (dv_qubits d)) xs"
proof -
  let ?n = "length (dv_qubits d)" and ?s = "([] :: nat list, replicate (length (dv_qubits d)) False)"
  have "marks_ok ?n ?s" by (simp add: marks_ok_def)
  then obtain s' where s': "dfs_device ?n d 0 ?s = Some s'" "extends ?n d ?s s' {0}"
    using visitsD [OF dfs_device_visits [OF ok, of ?n], of ?s 0] n by auto
  have closed: "j \<in> set (fst s')" if "(i, j) \<in> coupling d" "i \<in> set (fst s')" for i j
    using s'(2) that by (auto simp: extends_def coupling_def)
  have "j \<in> set (fst s')" if "j < ?n" for j
  proof -
    have "(0, j) \<in> (coupling d)\<^sup>*" using c n that by (auto simp: connected_device_def)
    then show ?thesis by (induction rule: rtrancl_induct) (use s'(2) closed in \<open>auto simp: extends_def\<close>)
  qed
  then have "orders ?n (fst s')" using s'(2) by (auto simp: orders_def extends_def marks_ok_def)
  then show ?thesis using s'(1) device_okD(1) [OF ok] by (simp add: dfs_place_def)
qed

lemma orders_nth:
  assumes "orders n xs"
  shows "length xs = n" "j < n \<Longrightarrow> xs ! j < n" "q < n \<Longrightarrow> \<exists>j < n. xs ! j = q"
proof -
  have d: "distinct xs" and s: "set xs = {..<n}" using assms by (simp_all add: orders_def)
  show l: "length xs = n" using distinct_card [OF d] by (simp add: s)
  show "j < n \<Longrightarrow> xs ! j < n" using nth_mem [of j xs] unfolding l s by simp
  show "q < n \<Longrightarrow> \<exists>j < n. xs ! j = q" using s l in_set_conv_nth [of q xs] by simp
qed

definition shuffles :: "(nat list \<Rightarrow> nat list) \<Rightarrow> bool" where
  "shuffles shuffle \<longleftrightarrow> (\<forall>xs. mset (shuffle xs) = mset xs)"

lemma place_qubits_orders:
  assumes ok: "device_ok d" and c: "connected_device d" and n: "0 < length (dv_qubits d)" and sh: "shuffles shuffle"
  shows "\<exists>xs. place_qubits type shuffle d = Some xs \<and> orders (length (dv_qubits d)) xs"
proof (cases type)
  case Placer_naive
  then show ?thesis using device_okD(1) [OF ok] by (auto simp: place_qubits_def static_place_def orders_def)
next
  case Placer_random
  have "mset (shuffle [0..<length (dv_qubits d)]) = mset [0..<length (dv_qubits d)]" using sh unfolding shuffles_def by blast
  then have "orders (length (dv_qubits d)) (shuffle [0..<length (dv_qubits d)])"
    unfolding orders_def using mset_eq_imp_distinct_iff mset_eq_setD by (metis distinct_upt atLeast_upt)
  then show ?thesis using Placer_random device_okD(1) [OF ok] by (simp add: place_qubits_def random_place_def)
next
  case Placer_dfs
  then show ?thesis using dfs_place_orders [OF ok c n] by (simp add: place_qubits_def)
qed

section \<open>The placement\<close>

definition same_but_logical :: "device \<Rightarrow> device \<Rightarrow> bool" where
  "same_but_logical d e \<longleftrightarrow> same_frame d e \<and>
     (\<forall>q < length (dv_qubits d). pq_occupied (phys e q) = pq_occupied (phys d q) \<and> pq_marked (phys e q) = pq_marked (phys d q) \<and>
        pq_taken (phys e q) = pq_taken (phys d q) \<and> pq_cost (phys e q) = pq_cost (phys d q))"

lemma place_steps:
  assumes o: "orders (length (dv_qubits d)) xs"
  shows "m \<le> length xs \<Longrightarrow> same_but_logical d (fold (\<lambda>i. upd_qubit (xs ! i) (set_logical (Some i))) [0..<m] d) \<and>
    (\<forall>j < m. pq_logical (phys (fold (\<lambda>i. upd_qubit (xs ! i) (set_logical (Some i))) [0..<m] d) (xs ! j)) = Some j)"
proof (induction m)
  case 0
  then show ?case by (simp add: same_but_logical_def)
next
  case (Suc m)
  let ?e = "fold (\<lambda>i. upd_qubit (xs ! i) (set_logical (Some i))) [0..<m] d"
  have e: "same_but_logical d ?e" "\<forall>j < m. pq_logical (phys ?e (xs ! j)) = Some j" using Suc by simp_all
  then have len: "length (dv_qubits ?e) = length (dv_qubits d)" by (simp add: same_but_logical_def same_frame_length)
  have q: "xs ! j < length (dv_qubits d)" if "j \<le> m" for j
    using orders_nth(2) [OF o, of j] orders_nth(1) [OF o] that Suc.prems by simp
  have ne: "xs ! j \<noteq> xs ! m" if "j < m" for j using o that Suc.prems nth_eq_iff_index_eq [of xs j m] by (auto simp: orders_def)
  have "same_but_logical d (upd_qubit (xs ! m) (set_logical (Some m)) ?e)"
    using e(1) len by (auto simp: same_but_logical_def same_frame_set phys_upd_qubit set_logical_def)
  moreover have "pq_logical (phys (upd_qubit (xs ! m) (set_logical (Some m)) ?e) (xs ! j)) = Some j" if "j < Suc m" for j
    using that e(2) q [of j] len ne [of j] by (cases "j = m") (simp_all add: phys_upd_qubit)
  ultimately show ?case by simp
qed

lemma place_placed:
  assumes ok: "device_ok d" and o: "orders (length (dv_qubits d)) xs"
  shows "\<exists>p. placed (place xs d) p \<and> same_but_logical d (place xs d)"
proof -
  let ?n = "length (dv_qubits d)" and ?e = "place xs d"
  note l = orders_nth(1) [OF o]
  have e: "same_but_logical d ?e" "\<And>j. j < ?n \<Longrightarrow> pq_logical (phys ?e (xs ! j)) = Some j"
    using place_steps [OF o, of "length xs"] l by (auto simp: place_def)
  then have len: "length (dv_qubits ?e) = ?n" by (simp add: same_but_logical_def same_frame_length)
  define p where "p = map (\<lambda>q. the (pq_logical (phys ?e q))) [0..<?n]"
  have ex: "\<exists>j < ?n. xs ! j = q" if "q < ?n" for q using orders_nth(3) [OF o that] .
  have lo: "pq_logical (phys ?e q) = Some (p ! q)" if "q < ?n" for q using ex [OF that] e(2) that by (auto simp: p_def)
  have at: "p ! (xs ! j) = j" if "j < ?n" for j 
    using lo [OF orders_nth(2) [OF o that]] e(2) [OF that] by simp
  have "set p = {..<?n}"
  proof
    show "set p \<subseteq> {..<?n}"
    proof
      fix x assume "x \<in> set p"
      then obtain q where q: "q < ?n" "x = p ! q" by (auto simp: p_def in_set_conv_nth)
      then show "x \<in> {..<?n}" using ex [OF q(1)] at by auto
    qed
    show "{..<?n} \<subseteq> set p"
    proof
      fix j assume "j \<in> {..<?n}"
      then have j: "j < ?n" by simp
      have "xs ! j < length p" using orders_nth(2) [OF o j] by (simp add: p_def)
      then show "j \<in> set p" using at [OF j] by (metis nth_mem)
    qed
  qed
  then have "placement ?n p" using card_distinct [of p] by (simp add: placement_def p_def)
  then have "placed ?e p" by (intro placedI) (simp_all add: len lo)
  then show ?thesis using e(1) by blast
qed

lemma same_but_logical_idle: "same_but_logical d e \<Longrightarrow> device_idle d \<Longrightarrow> device_idle e"
  by (auto simp: same_but_logical_def device_idle_def same_frame_length)

end
