(* ===== verification/Scheduler.thy ===== *)
theory Scheduler
  imports GateAssignment
begin

text \<open>
  The order in which gates are routed (src/src/duostra/circuit_topology.cpp, scheduler.cpp, scheduler_greedy.cpp):
  the set of gates whose predecessors are executed, and the schedulers that pick from it. A call that
  dereferences a null gate, reads an empty list or does not return is \<open>None\<close>. Nothing asks the program to stop
  during a run. The numbers \<open>rand()\<close> returns are a function of the number of calls made.
\<close>

section \<open>The available gates\<close>

record circuit_topology =
  ct_graph :: qcir_graph
  ct_available :: "nat list"
  ct_executed :: "nat \<rightharpoonup> nat"

definition ct_is_available :: "circuit_topology \<Rightarrow> nat \<Rightarrow> bool" where
  "ct_is_available ct i \<longleftrightarrow>
     list_all (\<lambda>x. case x of None \<Rightarrow> True | Some prev \<Rightarrow> ct_executed ct prev \<noteq> None) (qg_predecessors (ct_graph ct) i)"

definition circuit_topology_new :: "qcir_graph \<Rightarrow> circuit_topology option" where
  "circuit_topology_new G =
     fold (\<lambda>i r. case r of None \<Rightarrow> None
                 | Some ct \<Rightarrow>
                     if qg_get_gate G i = None then None
                     else Some (if ct_is_available ct i then ct\<lparr>ct_available := ct_available ct @ [i]\<rparr> else ct))
       [0..<qg_num_gates G] (Some \<lparr>ct_graph = G, ct_available = [], ct_executed = Map.empty\<rparr>)"

definition push_if_available :: "nat option \<Rightarrow> circuit_topology \<Rightarrow> circuit_topology" where
  "push_if_available x ct =
     (case x of None \<Rightarrow> ct
      | Some i \<Rightarrow> if ct_is_available ct i then ct\<lparr>ct_available := ct_available ct @ [i]\<rparr> else ct)"

definition count_successor :: "nat option \<Rightarrow> circuit_topology \<times> nat list \<Rightarrow> circuit_topology \<times> nat list" where
  "count_successor x s =
     (case x of None \<Rightarrow> s
      | Some prev \<Rightarrow>
          let (ct, trim) = s;
              executed = (case ct_executed ct prev of None \<Rightarrow> 0 | Some c \<Rightarrow> c) + 1;
              ct = ct\<lparr>ct_executed := (ct_executed ct)(prev \<mapsto> executed)\<rparr> in
          (ct, if executed \<ge> length (filter (\<lambda>y. y \<noteq> None) (qg_successors (ct_graph ct) prev)) then trim @ [prev] else trim))"

definition update_available_gates :: "nat \<Rightarrow> circuit_topology \<Rightarrow> circuit_topology" where
  "update_available_gates executed ct =
     (let ct = ct\<lparr>ct_available := filter (\<lambda>i. i \<noteq> executed) (ct_available ct), ct_executed := (ct_executed ct)(executed \<mapsto> 0)\<rparr>;
          ct = fold push_if_available (qg_successors (ct_graph ct) executed) ct;
          (ct, trim) = fold count_successor (qg_predecessors (ct_graph ct) executed) (ct, []) in
      ct\<lparr>ct_executed := fold (\<lambda>i m. m(i := None)) trim (ct_executed ct)\<rparr>)"

section \<open>Routing one gate\<close>

record scheduler =
  sc_topology :: circuit_topology
  sc_operations :: "gate_info list"
  sc_sorted :: bool

definition scheduler_new :: "circuit_topology \<Rightarrow> scheduler" where
  "scheduler_new ct = \<lparr>sc_topology = ct, sc_operations = [], sc_sorted = False\<rparr>"

abbreviation sc_available :: "scheduler \<Rightarrow> nat list" where
  "sc_available sc \<equiv> ct_available (sc_topology sc)"

abbreviation sc_gate :: "scheduler \<Rightarrow> nat \<Rightarrow> gate option" where
  "sc_gate sc i \<equiv> qg_get_gate (ct_graph (sc_topology sc)) i"

definition route_one_gate :: "nat \<Rightarrow> bool \<Rightarrow> router \<times> scheduler \<Rightarrow> (nat \<times> router \<times> scheduler) option" where
  "route_one_gate gate_id forget s =
     (case sc_gate (snd s) gate_id of None \<Rightarrow> None
      | Some g \<Rightarrow>
          (case assign_gate g (fst s) of None \<Rightarrow> None
           | Some (ops, r) \<Rightarrow>
               let max_cost = fold (\<lambda>x m. if end_time x > m then end_time x else m) ops 0;
                   sc = (if forget then snd s else (snd s)\<lparr>sc_operations := sc_operations (snd s) @ ops\<rparr>) in
               Some (max_cost, r, sc\<lparr>sc_topology := update_available_gates gate_id (sc_topology sc)\<rparr>)))"

definition run_gate :: "nat \<Rightarrow> router \<times> scheduler \<Rightarrow> (router \<times> scheduler) option" where
  "run_gate gate_id s = map_option snd (route_one_gate gate_id False s)"

fun find_executable :: "scheduler \<Rightarrow> router \<Rightarrow> nat list \<Rightarrow> nat option option" where
  "find_executable sc r [] = Some None"
| "find_executable sc r (i # is) =
     (case sc_gate sc i of None \<Rightarrow> None
      | Some g \<Rightarrow> if is_executable r g then Some (Some i) else find_executable sc r is)"

definition get_executable_gate :: "router \<times> scheduler \<Rightarrow> nat option option" where
  "get_executable_gate s = find_executable (snd s) (fst s) (sc_available (snd s))"

section \<open>The schedulers\<close>

text \<open>\<open>repeat_assign\<close> is the loop over the number of gates; its argument chooses the next gate.\<close>

fun repeat_assign :: "(nat \<Rightarrow> router \<times> scheduler \<Rightarrow> nat option) \<Rightarrow> nat list \<Rightarrow> router \<times> scheduler \<Rightarrow> (router \<times> scheduler) option" where
  "repeat_assign pick [] s = Some s"
| "repeat_assign pick (k # ks) s =
     (case pick k s of None \<Rightarrow> None
      | Some i \<Rightarrow> (case run_gate i s of None \<Rightarrow> None | Some s \<Rightarrow> repeat_assign pick ks s))"

definition all_rounds :: "router \<times> scheduler \<Rightarrow> nat list" where
  "all_rounds s = [0..<qg_num_gates (ct_graph (sc_topology (snd s)))]"

definition base_assign :: "router \<times> scheduler \<Rightarrow> (router \<times> scheduler) option" where
  "base_assign s = repeat_assign (\<lambda>k s. Some k) (all_rounds s) s"

definition random_choice :: "(nat \<Rightarrow> nat) \<Rightarrow> nat \<Rightarrow> router \<times> scheduler \<Rightarrow> nat option" where
  "random_choice rand k s =
     (let waitlist = sc_available (snd s) in
      if waitlist = [] then None else Some (waitlist ! (rand k mod length waitlist)))"

definition random_assign :: "(nat \<Rightarrow> nat) \<Rightarrow> router \<times> scheduler \<Rightarrow> (router \<times> scheduler) option" where
  "random_assign rand s = repeat_assign (random_choice rand) (all_rounds s) s"

definition naive_choice :: "nat \<Rightarrow> router \<times> scheduler \<Rightarrow> nat option" where
  "naive_choice k s =
     (case get_executable_gate s of None \<Rightarrow> None
      | Some (Some i) \<Rightarrow> Some i
      | Some None \<Rightarrow> (case sc_available (snd s) of [] \<Rightarrow> None | i # _ \<Rightarrow> Some i))"

definition naive_assign :: "router \<times> scheduler \<Rightarrow> (router \<times> scheduler) option" where
  "naive_assign s = repeat_assign naive_choice (all_rounds s) s"

record greedy_conf =
  gc_available_time :: min_max
  gc_cost_type :: min_max
  gc_num_candidates :: nat
  gc_apsp_coeff :: nat

definition candidate_gates :: "nat \<Rightarrow> circuit_topology \<Rightarrow> nat list" where
  "candidate_gates num_candidates ct =
     (if length (ct_available ct) < num_candidates then ct_available ct else take num_candidates (ct_available ct))"

text \<open>\<open>std::ranges::max_element\<close> and \<open>min_element\<close>: the first of the elements that no other exceeds.\<close>

fun best_index :: "(nat \<Rightarrow> nat \<Rightarrow> bool) \<Rightarrow> nat \<Rightarrow> nat \<Rightarrow> nat \<Rightarrow> nat list \<Rightarrow> nat" where
  "best_index better i best c [] = best"
| "best_index better i best c (x # xs) =
     (if better x c then best_index better (Suc i) i x xs else best_index better (Suc i) best c xs)"

definition greedy_fallback :: "greedy_conf \<Rightarrow> router \<times> scheduler \<Rightarrow> nat list \<Rightarrow> nat option" where
  "greedy_fallback conf s waitlist =
     (case those (map (\<lambda>i. Option.bind (sc_gate (snd s) i)
                       (\<lambda>g. get_gate_cost (fst s) g (gc_available_time conf) (gc_apsp_coeff conf))) waitlist) of
        None \<Rightarrow> None
      | Some [] \<Rightarrow> None
      | Some (c # cs) \<Rightarrow>
          Some (waitlist ! best_index (if gc_cost_type conf = Max_option then (>) else (<)) 1 0 c cs))"

definition greedy_choice :: "greedy_conf \<Rightarrow> router \<times> scheduler \<Rightarrow> nat option" where
  "greedy_choice conf s =
     (case get_executable_gate s of None \<Rightarrow> None
      | Some (Some i) \<Rightarrow> Some i
      | Some None \<Rightarrow> greedy_fallback conf s (candidate_gates (gc_num_candidates conf) (sc_topology (snd s))))"

partial_function (option) greedy_assign :: "greedy_conf \<Rightarrow> router \<times> scheduler \<Rightarrow> (router \<times> scheduler) option" where
  "greedy_assign conf s =
     (if candidate_gates (gc_num_candidates conf) (sc_topology (snd s)) = [] then Some s
      else case greedy_choice conf s of None \<Rightarrow> None
      | Some i \<Rightarrow> (case run_gate i s of None \<Rightarrow> None | Some s \<Rightarrow> greedy_assign conf s))"

text \<open>\<open>std::ranges::sort\<close> promises a permutation in order of the start times; the order of equal times is left to it.\<close>

definition sorts :: "(gate_info list \<Rightarrow> gate_info list) \<Rightarrow> bool" where
  "sorts std_sort \<longleftrightarrow> (\<forall>xs. mset (std_sort xs) = mset xs \<and> sorted (map start_time (std_sort xs)))"

definition sort_operations :: "(gate_info list \<Rightarrow> gate_info list) \<Rightarrow> scheduler \<Rightarrow> scheduler" where
  "sort_operations std_sort sc = sc\<lparr>sc_operations := std_sort (sc_operations sc), sc_sorted := True\<rparr>"

section \<open>What a schedule costs\<close>

definition get_final_cost :: "scheduler \<Rightarrow> nat option" where
  "get_final_cost sc = (if sc_operations sc = [] then None else Some (end_time (last (sc_operations sc))))"

text \<open>\<open>std::reduce\<close> starts with the literal \<open>0\<close>, so the sum is kept in an \<open>int\<close> and cast to \<open>size_t\<close> at the end.\<close>

definition get_total_time :: "scheduler \<Rightarrow> 64 word" where
  "get_total_time sc =
     (let total = fold (\<lambda>x t. ucast (scast t + word_of_nat (end_time x - start_time x) :: 64 word)) (sc_operations sc) (0 :: 32 word) in
      scast total)"

definition get_num_swaps :: "scheduler \<Rightarrow> nat" where
  "get_num_swaps sc = length (filter (\<lambda>x. is_swap_op (fst x)) (sc_operations sc))"

text \<open>
  \<open>CircuitTopology\<close> (src/src/duostra/circuit_topology.cpp): the list of available gates holds the gates that are not
  executed and whose predecessors are, although executed gates are forgotten once all their successors are executed.
\<close>

section \<open>Neighbours on a qubit\<close>

lemma find_upt: "find P [a..<b] = Some j \<longleftrightarrow> a \<le> j \<and> j < b \<and> P j \<and> (\<forall>k. a \<le> k \<and> k < j \<longrightarrow> \<not> P k)"
proof
  assume "find P [a..<b] = Some j"
  then obtain i where i: "i < b - a" "P (a + i)" "j = a + i" "\<And>l. l < i \<Longrightarrow> \<not> P (a + l)" by (auto simp: find_Some_iff)
  have "\<not> P k" if "a \<le> k" "k < j" for k using i(4) [of "k - a"] that i(3) by simp
  then show "a \<le> j \<and> j < b \<and> P j \<and> (\<forall>k. a \<le> k \<and> k < j \<longrightarrow> \<not> P k)" using i by auto
next
  assume j: "a \<le> j \<and> j < b \<and> P j \<and> (\<forall>k. a \<le> k \<and> k < j \<longrightarrow> \<not> P k)"
  then show "find P [a..<b] = Some j" unfolding find_Some_iff by (intro exI [of _ "j - a"]) auto
qed

lemma next_on_Some_iff:
  "next_on gs i q = Some j \<longleftrightarrow> i < j \<and> j < length gs \<and> meets gs q j \<and> (\<forall>k. i < k \<and> k < j \<longrightarrow> \<not> meets gs q k)"
  unfolding next_on_def find_upt by (simp add: Suc_le_eq)

lemma prev_on_Some_iff:
  "prev_on gs i q = Some j \<longleftrightarrow> j < i \<and> meets gs q j \<and> (\<forall>k. j < k \<and> k < i \<longrightarrow> \<not> meets gs q k)"
proof
  assume "prev_on gs i q = Some j"
  then show "j < i \<and> meets gs q j \<and> (\<forall>k. j < k \<and> k < i \<longrightarrow> \<not> meets gs q k)" using prev_on_SomeD by blast
next
  assume j: "j < i \<and> meets gs q j \<and> (\<forall>k. j < k \<and> k < i \<longrightarrow> \<not> meets gs q k)"
  show "prev_on gs i q = Some j"
  proof (cases "prev_on gs i q")
    case None
    then show ?thesis using prev_on_NoneD j by blast
  next
    case (Some j')
    from prev_on_SomeD [OF this] j have "\<not> j < j'" "\<not> j' < j" by blast+
    then show ?thesis using Some by simp
  qed
qed

lemma neighbours_dual:
  "e < length gs \<Longrightarrow> prev_on gs e q = Some x \<and> meets gs q e \<longleftrightarrow> next_on gs x q = Some e \<and> meets gs q x"
  by (auto simp: prev_on_Some_iff next_on_Some_iff)

section \<open>The invariant\<close>

definition gate_ready :: "gate list \<Rightarrow> nat set \<Rightarrow> nat \<Rightarrow> bool" where
  "gate_ready gs X i \<longleftrightarrow> (\<forall>q \<in> set (snd (gs ! i)). \<forall>j. prev_on gs i q = Some j \<longrightarrow> j \<in> X)"

definition down_closed :: "gate list \<Rightarrow> nat set \<Rightarrow> bool" where
  "down_closed gs X \<longleftrightarrow> X \<subseteq> {..<length gs} \<and> (\<forall>i \<in> X. gate_ready gs X i)"

definition done_pins :: "gate list \<Rightarrow> nat set \<Rightarrow> nat \<Rightarrow> nat" where
  "done_pins gs X x = card {q \<in> set (snd (gs ! x)). \<exists>e \<in> X. next_on gs x q = Some e}"

definition topo_ok :: "nat \<Rightarrow> gate list \<Rightarrow> nat set \<Rightarrow> circuit_topology \<Rightarrow> bool" where
  "topo_ok n gs X ct \<longleftrightarrow>
     graph_links n gs (ct_graph ct) \<and> down_closed gs X \<and>
     set (ct_available ct) = {i. i < length gs \<and> i \<notin> X \<and> gate_ready gs X i} \<and>
     (\<forall>x c. ct_executed ct x = Some c \<longrightarrow> x \<in> X \<and> c = done_pins gs X x) \<and>
     (\<forall>x \<in> X. \<forall>q \<in> set (snd (gs ! x)). \<forall>e. next_on gs x q = Some e \<longrightarrow> e \<notin> X \<longrightarrow> ct_executed ct x \<noteq> None)"

lemma topo_okD:
  assumes "topo_ok n gs X ct"
  shows "graph_links n gs (ct_graph ct)" "down_closed gs X" "set (ct_available ct) = {i. i < length gs \<and> i \<notin> X \<and> gate_ready gs X i}"
    "ct_executed ct x = Some c \<Longrightarrow> x \<in> X" "ct_executed ct x = Some c \<Longrightarrow> c = done_pins gs X x"
    "x \<in> X \<Longrightarrow> q \<in> set (snd (gs ! x)) \<Longrightarrow> next_on gs x q = Some e \<Longrightarrow> e \<notin> X \<Longrightarrow> ct_executed ct x \<noteq> None"
  using assms unfolding topo_ok_def by blast+

lemma graph_linksD:
  assumes "graph_links n gs G" "i < length gs"
  shows "qg_get_gate G i = Some (gs ! i)" "qg_predecessors G i = map (prev_on gs i) (snd (gs ! i))"
    "qg_successors G i = map (next_on gs i) (snd (gs ! i))"
proof -
  show g: "qg_get_gate G i = Some (gs ! i)" using assms by (simp add: graph_links_def qg_get_gate_def)
  show "qg_predecessors G i = map (prev_on gs i) (snd (gs ! i))" "qg_successors G i = map (next_on gs i) (snd (gs ! i))"
    using assms g by (auto simp: graph_links_def qg_predecessors_def qg_successors_def intro!: nth_equalityI)
qed

lemma graph_links_num: "graph_links n gs G \<Longrightarrow> qg_num_gates G = length gs"
  by (simp add: graph_links_def qg_num_gates_def filter_map o_def)

text \<open>A gate is available exactly when the gates before it are executed.\<close>

lemma is_available_iff:
  assumes t: "graph_links n gs (ct_graph ct)" and x: "\<And>x c. ct_executed ct x = Some c \<Longrightarrow> x \<in> X"
    and pending: "\<And>x q e. x \<in> X \<Longrightarrow> q \<in> set (snd (gs ! x)) \<Longrightarrow> next_on gs x q = Some e \<Longrightarrow> e \<notin> X \<Longrightarrow> ct_executed ct x \<noteq> None"
    and i: "i < length gs" "i \<notin> X"
  shows "ct_is_available ct i \<longleftrightarrow> gate_ready gs X i"
proof -
  have "ct_executed ct j \<noteq> None \<longleftrightarrow> j \<in> X" if "q \<in> set (snd (gs ! i))" "prev_on gs i q = Some j" for q j
  proof -
    have "next_on gs j q = Some i" "q \<in> set (snd (gs ! j))" using neighbours_dual [OF i(1), of q j] that by (auto simp: meets_def)
    then show ?thesis using pending [of j q i] x i(2) by auto
  qed
  then show ?thesis
    unfolding ct_is_available_def gate_ready_def graph_linksD(2) [OF t i(1)] list_all_iff by (auto split: option.splits)
qed

lemma ct_is_available_cong:
  "ct_graph ct' = ct_graph ct \<Longrightarrow> ct_executed ct' = ct_executed ct \<Longrightarrow> ct_is_available ct' = ct_is_available ct"
  by (auto simp: ct_is_available_def fun_eq_iff cong: option.case_cong)

section \<open>The first available gates\<close>

lemma topology_new_ok:
  assumes g: "graph_links n gs G"
  shows "\<exists>ct. circuit_topology_new G = Some ct \<and> topo_ok n gs {} ct \<and> ct_graph ct = G"
proof -
  let ?ct = "\<lparr>ct_graph = G, ct_available = [], ct_executed = Map.empty\<rparr>"
  let ?f = "\<lambda>i r. case r of None \<Rightarrow> None | Some ct \<Rightarrow> if qg_get_gate G i = None then None
      else Some (if ct_is_available ct i then ct\<lparr>ct_available := ct_available ct @ [i]\<rparr> else ct)"
  define av where "av = ct_is_available ?ct"
  have av: "ct_is_available \<lparr>ct_graph = G, ct_available = a, ct_executed = Map.empty\<rparr> = av" for a
    unfolding av_def by (rule ct_is_available_cong) simp_all
  have "fold ?f [0..<m] (Some ?ct) = Some (?ct\<lparr>ct_available := filter av [0..<m]\<rparr>)" if "m \<le> length gs" for m
    using that by (induction m) (simp_all add: graph_linksD(1) [OF g] av)
  from this [of "length gs"] have e: "circuit_topology_new G = Some (?ct\<lparr>ct_available := filter av [0..<length gs]\<rparr>)"
    by (simp add: circuit_topology_new_def graph_links_num [OF g])
  have "av i \<longleftrightarrow> gate_ready gs {} i" if "i < length gs" for i
    unfolding av_def by (rule is_available_iff [of n]) (use g that in auto)
  then show ?thesis unfolding e using g by (auto simp: topo_ok_def down_closed_def)
qed

section \<open>Executing a gate\<close>

lemma push_steps:
  "push_if_available None ct = ct"
  "push_if_available (Some i) ct = (if ct_is_available ct i then ct\<lparr>ct_available := ct_available ct @ [i]\<rparr> else ct)"
  by (simp_all add: push_if_available_def)

lemma push_fold:
  "fold push_if_available xs ct = ct\<lparr>ct_available := ct_available ct @ filter (ct_is_available ct) (map the (filter (\<lambda>x. x \<noteq> None) xs))\<rparr>"
proof (induction xs arbitrary: ct)
  case (Cons x xs)
  have "ct_is_available (ct\<lparr>ct_available := a\<rparr>) = ct_is_available ct" for a by (rule ct_is_available_cong) simp_all
  then show ?case by (cases x) (simp_all add: Cons.IH push_steps)
qed simp

definition occurrences :: "nat option list \<Rightarrow> nat \<Rightarrow> nat" where
  "occurrences xs y = length (filter (\<lambda>x. x = Some y) xs)"

definition num_succs :: "qcir_graph \<Rightarrow> nat \<Rightarrow> nat" where
  "num_succs G y = length (filter (\<lambda>x. x \<noteq> None) (qg_successors G y))"

lemma count_steps:
  "count_successor None s = s"
  "count_successor (Some y) (ct, trim) =
     (let c = (case ct_executed ct y of None \<Rightarrow> 0 | Some c \<Rightarrow> c) + 1 in
      (ct\<lparr>ct_executed := (ct_executed ct)(y \<mapsto> c)\<rparr>, if c \<ge> num_succs (ct_graph ct) y then trim @ [y] else trim))"
  by (simp_all add: count_successor_def num_succs_def Let_def)

lemma count_fold:
  assumes "fold count_successor xs (ct, trim) = (ct', trim')"
  shows "ct_graph ct' = ct_graph ct \<and> ct_available ct' = ct_available ct \<and>
    (\<forall>y. ct_executed ct' y = (if occurrences xs y = 0 then ct_executed ct y
        else Some ((case ct_executed ct y of None \<Rightarrow> 0 | Some c \<Rightarrow> c) + occurrences xs y))) \<and>
    (\<forall>y. y \<in> set trim' \<longleftrightarrow> y \<in> set trim \<or> (0 < occurrences xs y \<and>
        (case ct_executed ct y of None \<Rightarrow> 0 | Some c \<Rightarrow> c) + occurrences xs y \<ge> num_succs (ct_graph ct) y))"
  using assms
proof (induction xs arbitrary: ct trim)
  case Nil
  then show ?case by (simp add: occurrences_def)
next
  case (Cons x xs)
  show ?case
  proof (cases x)
    case None
    then have "fold count_successor xs (ct, trim) = (ct', trim')" using Cons.prems by (simp add: None count_steps)
    from Cons.IH [OF this] show ?thesis by (simp add: occurrences_def None)
  next
    case (Some z)
    define c where "c y = (case ct_executed ct y of None \<Rightarrow> 0 | Some c \<Rightarrow> c)" for y
    define ct1 where "ct1 = ct\<lparr>ct_executed := (ct_executed ct)(z \<mapsto> c z + 1)\<rparr>"
    define trim1 where "trim1 = (if c z + 1 \<ge> num_succs (ct_graph ct) z then trim @ [z] else trim)"
    have "fold count_successor xs (ct1, trim1) = (ct', trim')"
      using Cons.prems by (simp add: Some count_steps ct1_def trim1_def c_def Let_def)
    note ih = Cons.IH [OF this]
    have c1: "(case ct_executed ct1 y of None \<Rightarrow> 0 | Some c \<Rightarrow> c) = c y + (if y = z then 1 else 0)" for y by (simp add: ct1_def c_def)
    have occ: "occurrences (x # xs) y = occurrences xs y + (if y = z then 1 else 0)" for y by (simp add: occurrences_def Some)
    have g: "ct_graph ct1 = ct_graph ct" by (simp add: ct1_def)
    show ?thesis
      using ih unfolding c1 occ g c_def [symmetric]
      by (auto simp: ct1_def trim1_def c_def)
  qed
qed

lemma occurrences_prev:
  assumes e: "e < length gs" and d: "distinct (snd (gs ! e))"
  shows "occurrences (map (prev_on gs e) (snd (gs ! e))) y = card {q \<in> set (snd (gs ! y)). next_on gs y q = Some e}"
proof -
  have "occurrences (map (prev_on gs e) (snd (gs ! e))) y = length (filter (\<lambda>q. prev_on gs e q = Some y) (snd (gs ! e)))"
    unfolding occurrences_def filter_map o_def by simp
  also have "\<dots> = card {q \<in> set (snd (gs ! e)). prev_on gs e q = Some y}"
    unfolding distinct_length_filter [OF d] by (rule arg_cong [of _ _ card]) auto
  also have "{q \<in> set (snd (gs ! e)). prev_on gs e q = Some y} = {q \<in> set (snd (gs ! y)). next_on gs y q = Some e}"
    using neighbours_dual [OF e] by (auto simp: meets_def)
  finally show ?thesis .
qed

lemma done_pins_insert:
  assumes "e \<notin> X"
  shows "done_pins gs (insert e X) y = done_pins gs X y + card {q \<in> set (snd (gs ! y)). next_on gs y q = Some e}"
proof -
  have "{q \<in> set (snd (gs ! y)). \<exists>z \<in> insert e X. next_on gs y q = Some z} =
      {q \<in> set (snd (gs ! y)). \<exists>z \<in> X. next_on gs y q = Some z} \<union> {q \<in> set (snd (gs ! y)). next_on gs y q = Some e}" by auto
  moreover have "{q \<in> set (snd (gs ! y)). \<exists>z \<in> X. next_on gs y q = Some z} \<inter> {q \<in> set (snd (gs ! y)). next_on gs y q = Some e} = {}"
    using assms by auto
  ultimately show ?thesis unfolding done_pins_def by (simp add: card_Un_disjoint)
qed

lemma num_succs_card:
  assumes g: "graph_links n gs G" and y: "y < length gs" and d: "distinct (snd (gs ! y))"
  shows "num_succs G y = card {q \<in> set (snd (gs ! y)). next_on gs y q \<noteq> None}"
proof -
  have "num_succs G y = length (filter (\<lambda>q. next_on gs y q \<noteq> None) (snd (gs ! y)))"
    unfolding num_succs_def graph_linksD(3) [OF g y] filter_map o_def by simp
  also have "\<dots> = card {q \<in> set (snd (gs ! y)). next_on gs y q \<noteq> None}"
    unfolding distinct_length_filter [OF d] by (rule arg_cong [of _ _ card]) auto
  finally show ?thesis .
qed

text \<open>A gate with a successor that is not executed has not counted all of its successors.\<close>

lemma done_pins_less:
  assumes "q \<in> set (snd (gs ! y))" "next_on gs y q = Some z" "z \<notin> X"
  shows "done_pins gs X y < card {q \<in> set (snd (gs ! y)). next_on gs y q \<noteq> None}"
proof -
  have "{q \<in> set (snd (gs ! y)). \<exists>e \<in> X. next_on gs y q = Some e} \<subseteq> {q \<in> set (snd (gs ! y)). next_on gs y q \<noteq> None}" by auto
  moreover have "q \<in> {q \<in> set (snd (gs ! y)). next_on gs y q \<noteq> None}" "q \<notin> {q \<in> set (snd (gs ! y)). \<exists>e \<in> X. next_on gs y q = Some e}"
    using assms by auto
  ultimately show ?thesis unfolding done_pins_def by (intro psubset_card_mono) (simp, blast)
qed

lemma fold_erase: "fold (\<lambda>i m. m(i := None)) xs m = (\<lambda>y. if y \<in> set xs then None else m y)"
  by (induction xs arbitrary: m) (auto simp: fun_eq_iff)

lemma update_available_ok:
  assumes t: "topo_ok n gs X ct" and gs: "gates_ok n gs" and e: "e < length gs" "e \<notin> X" "gate_ready gs X e"
  shows "topo_ok n gs (insert e X) (update_available_gates e ct)" "ct_graph (update_available_gates e ct) = ct_graph ct"
proof -
  note td = topo_okD [OF t]
  let ?X = "insert e X" and ?G = "ct_graph ct"
  have dist: "distinct (snd (gs ! i))" if "i < length gs" for i
    using gs that by (auto simp: gates_ok_def list_all_length gate_ok_def on_qubits_def)
  define ct1 where "ct1 = ct\<lparr>ct_available := filter (\<lambda>i. i \<noteq> e) (ct_available ct), ct_executed := (ct_executed ct)(e \<mapsto> 0)\<rparr>"
  define ct2 where "ct2 = fold push_if_available (qg_successors (ct_graph ct1) e) ct1"
  obtain ct3 trim where c3: "fold count_successor (qg_predecessors (ct_graph ct2) e) (ct2, []) = (ct3, trim)"
    by (cases "fold count_successor (qg_predecessors (ct_graph ct2) e) (ct2, [])")
  have up: "update_available_gates e ct = ct3\<lparr>ct_executed := fold (\<lambda>i m. m(i := None)) trim (ct_executed ct3)\<rparr>"
    using c3 by (simp add: update_available_gates_def ct1_def ct2_def Let_def)
  have g1: "ct_graph ct1 = ?G" "ct_graph ct2 = ?G" by (simp_all add: ct1_def ct2_def push_fold)
  note cf = count_fold [OF c3, unfolded g1]
  show gr: "ct_graph (update_available_gates e ct) = ?G" using cf up g1 by simp
  have dc: "down_closed gs ?X" using td(2) e by (auto simp: down_closed_def gate_ready_def)
  have ex2: "ct_executed ct2 = (ct_executed ct)(e \<mapsto> 0)" by (simp add: ct2_def push_fold ct1_def)
  have later: "z \<notin> ?X" if "next_on gs e q = Some z" "q \<in> set (snd (gs ! e))" for z q
  proof
    assume z: "z \<in> ?X"
    have zl: "z < length gs" "z \<noteq> e" using that(1) by (auto simp: next_on_Some_iff)
    then have "prev_on gs z q = Some e" "q \<in> set (snd (gs ! z))" using neighbours_dual [OF zl(1), of q e] that by (auto simp: meets_def)
    moreover have "z \<in> X" using z zl by simp
    ultimately show False using td(2) e(2) by (auto simp: down_closed_def gate_ready_def)
  qed
  have fin: "e \<notin> ?X \<Longrightarrow> False" by simp
  have pend1: "ct_executed ct1 x \<noteq> None" if "x \<in> ?X" "q \<in> set (snd (gs ! x))" "next_on gs x q = Some z" "z \<notin> ?X" for x q z
    using that td(6) [of x q z] by (cases "x = e") (auto simp: ct1_def)
  have avail1: "ct_is_available ct1 i \<longleftrightarrow> gate_ready gs ?X i" if "i < length gs" "i \<notin> ?X" for i
    by (rule is_available_iff [of n gs ct1 ?X]) (use td that pend1 g1 in \<open>auto simp: ct1_def split: if_splits\<close>)
  have "set (ct_available ct2) = {i. i < length gs \<and> i \<notin> ?X \<and> gate_ready gs ?X i}"
  proof -
    have s: "set (ct_available ct2) = set (ct_available ct) - {e} \<union>
        {z. (\<exists>q \<in> set (snd (gs ! e)). next_on gs e q = Some z) \<and> ct_is_available ct1 z}"
    proof -
      have "set (map the (filter (\<lambda>x. x \<noteq> None) (map (next_on gs e) (snd (gs ! e))))) =
          {z. \<exists>q \<in> set (snd (gs ! e)). next_on gs e q = Some z}" by (force simp: image_iff)
      then have "set (ct_available ct2) = set (ct_available ct1) \<union>
          {z. (\<exists>q \<in> set (snd (gs ! e)). next_on gs e q = Some z) \<and> ct_is_available ct1 z}"
        unfolding ct2_def push_fold g1 graph_linksD(3) [OF td(1) e(1)] by auto
      then show ?thesis by (auto simp: ct1_def)
    qed
    have "z \<in> set (ct_available ct2)" if z: "z < length gs" "z \<notin> ?X" "gate_ready gs ?X z" for z
    proof (cases "gate_ready gs X z")
      case True
      then show ?thesis using z td(3) s by auto
    next
      case False
      then obtain q where q: "q \<in> set (snd (gs ! z))" "prev_on gs z q = Some e" using z(3) by (auto simp: gate_ready_def)
      then have "next_on gs e q = Some z" "q \<in> set (snd (gs ! e))" using neighbours_dual [OF z(1), of q e] by (auto simp: meets_def)
      then show ?thesis using s avail1 [OF z(1,2)] z(3) by auto
    qed
    moreover have "z < length gs \<and> z \<notin> ?X \<and> gate_ready gs ?X z" if z: "z \<in> set (ct_available ct2)" for z
    proof (cases "z \<in> set (ct_available ct) - {e}")
      case True
      then show ?thesis using td(3) by (auto simp: gate_ready_def)
    next
      case False
      then obtain q where q: "q \<in> set (snd (gs ! e))" "next_on gs e q = Some z" "ct_is_available ct1 z" using z s by auto
      have "z < length gs" using q(2) by (simp add: next_on_Some_iff)
      then show ?thesis using later [OF q(2,1)] avail1 q(3) by blast
    qed
    ultimately show ?thesis by blast
  qed
  then have av: "set (ct_available (update_available_gates e ct)) = {i. i < length gs \<and> i \<notin> ?X \<and> gate_ready gs ?X i}" using cf up by simp
  define k where "k y = card {q \<in> set (snd (gs ! y)). next_on gs y q = Some e}" for y
  have occ: "occurrences (qg_predecessors ?G e) y = k y" for y
    unfolding graph_linksD(2) [OF td(1) e(1)] k_def by (rule occurrences_prev [OF e(1) dist [OF e(1)]])
  have kpos: "0 < k y \<longleftrightarrow> (\<exists>q \<in> set (snd (gs ! y)). next_on gs y q = Some e)" for y by (auto simp: k_def card_gt_0_iff)
  have kX: "y \<in> X \<and> y \<noteq> e \<and> ct_executed ct y = Some (done_pins gs X y)" if ky: "0 < k y" for y
  proof -
    obtain q where q: "q \<in> set (snd (gs ! y))" "next_on gs y q = Some e" using ky kpos by auto
    then have "prev_on gs e q = Some y" "q \<in> set (snd (gs ! e))" using neighbours_dual [OF e(1), of q y] by (auto simp: meets_def)
    then have y: "y \<in> X" using e(3) by (auto simp: gate_ready_def)
    then obtain c where "ct_executed ct y = Some c" using td(6) [OF y q e(2)] by auto
    then show ?thesis using y td(5) e(2) by auto
  qed
  have dp: "done_pins gs ?X y = done_pins gs X y + k y" for y unfolding k_def by (rule done_pins_insert [OF e(2)])
  have de: "done_pins gs ?X e = 0" using later unfolding done_pins_def by fastforce
  have final: "ct_executed (update_available_gates e ct) y =
      (if 0 < k y then (if done_pins gs ?X y \<ge> num_succs ?G y then None else Some (done_pins gs ?X y)) else ((ct_executed ct)(e \<mapsto> 0)) y)" for y
  proof (cases "0 < k y")
    case True
    then have "(case ct_executed ct2 y of None \<Rightarrow> 0 | Some c \<Rightarrow> c) = done_pins gs X y" using kX [OF True] by (simp add: ex2)
    then show ?thesis using cf True by (simp add: up fold_erase occ dp)
  next
    case False
    then show ?thesis using cf by (simp add: up fold_erase occ ex2)
  qed
  have cnt: "y \<in> ?X \<and> c = done_pins gs ?X y" if "ct_executed (update_available_gates e ct) y = Some c" for y c
  proof (cases "0 < k y")
    case True
    then have "c = done_pins gs ?X y" using that by (simp add: final split: if_splits)
    then show ?thesis using kX [OF True] by simp
  next
    case False
    then have c: "((ct_executed ct)(e \<mapsto> 0)) y = Some c" using that unfolding final by simp
    show ?thesis
    proof (cases "y = e")
      case True
      then show ?thesis using c de by simp
    next
      case ne: False
      then have "y \<in> X" "c = done_pins gs X y" using c td(4,5) [of y c] by auto
      then show ?thesis using dp [of y] False by simp
    qed
  qed
  have pend: "ct_executed (update_available_gates e ct) x \<noteq> None"
    if x: "x \<in> ?X" "q \<in> set (snd (gs ! x))" "next_on gs x q = Some z" "z \<notin> ?X" for x q z
  proof -
    have "x < length gs" using x(1) dc by (auto simp: down_closed_def)
    then have "done_pins gs ?X x < num_succs ?G x" using done_pins_less [OF x(2-4)] num_succs_card [OF td(1) _ dist] by simp
    moreover have "((ct_executed ct)(e \<mapsto> 0)) x \<noteq> None" using pend1 [OF x] unfolding ct1_def by simp
    ultimately show ?thesis unfolding final by (auto split: if_splits)
  qed
  show "topo_ok n gs ?X (update_available_gates e ct)"
    unfolding topo_ok_def gr by (intro conjI allI ballI impI td(1) dc av) (use cnt in blast, use cnt in blast, use pend in blast)
qed

lemma some_ready:
  assumes "down_closed gs X" "X \<noteq> {..<length gs}"
  shows "\<exists>i < length gs. i \<notin> X \<and> gate_ready gs X i"
proof -
  obtain j where j: "j < length gs" "j \<notin> X" using assms by (auto simp: down_closed_def)
  define i where "i = (LEAST j. j < length gs \<and> j \<notin> X)"
  have i: "i < length gs \<and> i \<notin> X" unfolding i_def by (rule LeastI [of _ j]) (use j in simp)
  moreover have "k \<in> X" if "k < i" for k using not_less_Least [of k "\<lambda>j. j < length gs \<and> j \<notin> X"] that i unfolding i_def by auto
  ultimately show ?thesis by (auto simp: gate_ready_def prev_on_Some_iff)
qed

end
