(* ===== verification/ScheduleCorrect.thy ===== *)
theory ScheduleCorrect
  imports Scheduler
begin

text \<open>
  Every scheduler of src/src/duostra/scheduler.cpp and scheduler_greedy.cpp routes each gate once, after the gates it
  depends on, so the routed operations perform the circuit up to the order of gates that share no qubit.
\<close>

lemma closed_wire:
  assumes "down_closed gs X" "q \<in> set (snd (gs ! a))" "q \<in> set (snd (gs ! e))" "a \<in> X" "e < a"
  shows "e \<in> X"
  using assms(2,4,5)
proof (induction a rule: less_induct)
  case (less a)
  have a: "gate_ready gs X a" using assms(1) less.prems(2) by (simp add: down_closed_def)
  obtain j where j: "prev_on gs a q = Some j"
    using prev_on_NoneD [of gs a q e] less.prems(3) assms(3) by (cases "prev_on gs a q") (auto simp: meets_def)
  have jX: "j \<in> X" using a j less.prems(1) by (auto simp: gate_ready_def)
  note jj = prev_on_SomeD [OF j]
  have "e \<le> j"
  proof (rule ccontr)
    assume "\<not> e \<le> j"
    then have "\<not> meets gs q e" using jj(3) less.prems(3) by simp
    then show False using assms(3) by (simp add: meets_def)
  qed
  then show ?case using less.IH [of j] jj(1,2) jX by (cases "e = j") (auto simp: meets_def)
qed

abbreviation qubit_set :: "gate \<Rightarrow> nat set" where
  "qubit_set g \<equiv> set (snd g)"

definition keeps_order :: "gate list \<Rightarrow> nat list \<Rightarrow> bool" where
  "keeps_order gs order = in_order (\<lambda>i. qubit_set (gs ! i)) (\<lambda>i. i) order"

lemma keeps_order_snoc:
  assumes "keeps_order gs order" "down_closed gs (set order)" "e \<notin> set order"
  shows "keeps_order gs (order @ [e])"
proof -
  have "a < e" if a: "a \<in> set order" and w: "qubit_set (gs ! a) \<inter> qubit_set (gs ! e) \<noteq> {}" for a
  proof (rule ccontr)
    assume "\<not> a < e"
    moreover have "a \<noteq> e" using a assms(3) by auto
    ultimately have "e < a" by simp
    obtain q where "q \<in> qubit_set (gs ! a)" "q \<in> qubit_set (gs ! e)" using w by auto
    then have "e \<in> set order" using closed_wire [OF assms(2) _ _ a \<open>e < a\<close>] by blast
    then show False using assms(3) by simp
  qed
  then show ?thesis using assms(1) by (simp add: keeps_order_def)
qed

lemma keeps_order_reorder:
  assumes "keeps_order gs order" "distinct order" "set order = {..<length gs}"
  shows "reorder qubit_set gs (map ((!) gs) order)"
proof -
  have "mset [0..<length gs] = mset order" using mset_set_set [OF assms(2)] assms(3) by (simp add: atLeast0LessThan)
  then have "reorder (\<lambda>i. qubit_set (gs ! i)) order [0..<length gs]"
    using assms(1) by (intro sorted_reorder [of _ "\<lambda>i. i"]) (simp_all add: keeps_order_def)
  then have "reorder qubit_set (map ((!) gs) order) (map ((!) gs) [0..<length gs])" by (rule reorder_map [rotated])
  then show ?thesis using reorder_sym by (simp add: map_nth)
qed

lemma reorder_filter: "reorder w xs ys \<Longrightarrow> reorder w (filter P xs) (filter P ys)"
proof (induction rule: reorder.induct)
  case (reorder_step xs us x y vs)
  have "reorder w (filter P (us @ x # y # vs)) (filter P (us @ y # x # vs))"
    using reorder_swap [of w x y "filter P vs"] reorder_step.hyps(2) by (auto intro!: reorder_appendL)
  then show ?case using reorder_trans reorder_step.IH by blast
qed simp

section \<open>The operations of a routed gate\<close>

definition swaps_or :: "operation \<Rightarrow> gate_info list \<Rightarrow> bool" where
  "swaps_or op ops \<longleftrightarrow> (\<forall>x \<in> set ops. fst (fst x) = SwapGate \<or> fst (fst x) = op)"

lemma swaps_or_simps:
  "swaps_or op []" "swaps_or op (x # xs) \<longleftrightarrow> (fst (fst x) = SwapGate \<or> fst (fst x) = op) \<and> swaps_or op xs"
  "swaps_or op (xs @ ys) \<longleftrightarrow> swaps_or op xs \<and> swaps_or op ys" "swaps_or op (sort_key f xs) = swaps_or op xs"
  "fst (fst (emit (swap_on a b) t)) = SwapGate"
  by (auto simp: swaps_or_def emit_def swap_on_def)

lemma swaps_or_insort: "swaps_or op (insort_key f x xs) \<longleftrightarrow> swaps_or op (x # xs)"
  by (simp add: swaps_or_def set_insort_key)

lemma apsp_loop_swaps:
  "apsp_loop tie s0 s1 q0 q1 ops d = Some y \<Longrightarrow> swaps_or op ops \<longrightarrow> swaps_or op (fst (snd (snd y)))"
proof (erule apsp_loop.raw_induct [rotated])
  fix loop tie s0 s1 q0 q1 ops d y
  assume IH: "\<And>tie s0 s1 q0 q1 ops d y. loop tie s0 s1 q0 q1 ops d = Some y \<Longrightarrow> swaps_or op ops \<longrightarrow> swaps_or op (fst (snd (snd y)))"
    and y: "(if is_adjacency (phys d q0) (phys d q1) then Some (q0, q1, ops, d)
      else case (get_next_swap_cost q0 s1 d, get_next_swap_cost q1 s0 d) of
        (Some (q0_next, q0_cost), Some (q1_next, q1_cost)) \<Rightarrow>
          (if q0_cost < q1_cost \<or>
              (q0_cost = q1_cost \<and> tie = Min_option \<and> logical_less (pq_logical (phys d q0)) (pq_logical (phys d q1)))
           then loop tie s0 s1 q0_next q1 (ops @ [emit (swap_on q0 q0_next) q0_cost]) (apply_gate (swap_on q0 q0_next) q0_cost d)
           else loop tie s0 s1 q0 q1_next (ops @ [emit (swap_on q1 q1_next) q1_cost]) (apply_gate (swap_on q1 q1_next) q1_cost d))
      | _ \<Rightarrow> None) = Some y"
  show "swaps_or op ops \<longrightarrow> swaps_or op (fst (snd (snd y)))"
    using y by (auto simp: swaps_or_simps split: if_splits option.splits prod.splits dest!: IH)
qed

lemma trace_route_swaps: "trace_route d t q = Some ops \<Longrightarrow> swaps_or op ops"
proof (erule trace_route.raw_induct [rotated])
  fix trace :: "device \<Rightarrow> nat \<Rightarrow> nat \<Rightarrow> gate_info list option" and d t q ops
  assume "\<And>d t q ops. trace d t q = Some ops \<Longrightarrow> swaps_or op ops"
    and "(if q = t then Some []
      else if length (dv_qubits d) \<le> q then None
      else Option.bind (trace d t (pq_pred (phys d q)))
             (\<lambda>ops. Some (emit (swap_on q (pq_pred (phys d q))) (pq_swap_time (phys d q)) # ops))) = Some ops"
  then show "swaps_or op ops" by (auto simp: swaps_or_simps split: if_splits bind_splits)
qed

lemma traceback_swaps: "traceback g q0 q1 t0 t1 s d = Some (ops, d') \<Longrightarrow> swaps_or (fst g) ops"
  by (auto simp: traceback_def Let_def swaps_or_simps swaps_or_insort split: option.splits dest: trace_route_swaps)

lemma assign_gate_swaps: "assign_gate g r = Some (ops, r') \<Longrightarrow> swaps_or (fst g) ops"
proof -
  assume a: "assign_gate g r = Some (ops, r')"
  have ap: "swaps_or (fst g) ops" if "apsp_routing g qs tie d = Some (ops, d')" for qs tie d d'
    using that apsp_loop_swaps [of tie "fst qs" "snd qs" "fst qs" "snd qs" "[]" d _ "fst g"]
    by (auto simp: apsp_routing_def Let_def swaps_or_simps split: option.splits prod.splits)
  have du: "swaps_or (fst g) ops" if "duostra_routing g qs tie d = Some (ops, d')" for qs tie d d'
    using that by (auto simp: duostra_routing_def Let_def split: option.splits prod.splits if_splits dest: traceback_swaps)
  show ?thesis
    using a by (auto simp: assign_gate_def Let_def execute_single_def swaps_or_simps split: if_splits option.splits prod.splits dest: ap du)
qed

section \<open>One gate\<close>

definition scheduled :: "nat \<Rightarrow> gate list \<Rightarrow> device \<Rightarrow> nat list \<Rightarrow> router \<times> scheduler \<Rightarrow> nat list \<Rightarrow> bool" where
  "scheduled n gs d0 p0 s order \<longleftrightarrow>
     topo_ok n gs (set order) (sc_topology (snd s)) \<and> distinct order \<and> keeps_order gs order \<and>
     fst ` fst ` set (sc_operations (snd s)) \<subseteq> insert SwapGate (fst ` set gs) \<and>
     (\<exists>p. router_ok (fst s) p \<and> runs d0 p0 (sc_operations (snd s)) (performed (map ((!) gs) order)) (rt_device (fst s)) p)"

lemma scheduledD:
  assumes "scheduled n gs d0 p0 s order"
  shows "topo_ok n gs (set order) (sc_topology (snd s))" "distinct order" "keeps_order gs order" "down_closed gs (set order)"
    "set order \<subseteq> {..<length gs}" "i < length gs \<Longrightarrow> sc_gate (snd s) i = Some (gs ! i)"
    "\<exists>p. router_ok (fst s) p \<and> runs d0 p0 (sc_operations (snd s)) (performed (map ((!) gs) order)) (rt_device (fst s)) p"
  using assms topo_okD(1,2) [of n gs "set order" "sc_topology (snd s)"] graph_linksD(1)
  by (auto simp: scheduled_def down_closed_def)

lemma scheduled_operations:
  assumes "scheduled n gs d0 p0 s order" "x \<in> set (sc_operations (snd s))"
  shows "fst (fst x) = SwapGate \<or> fst (fst x) \<in> fst ` set gs"
proof -
  have "fst (fst x) \<in> fst ` fst ` set (sc_operations (snd s))" using assms(2) by blast
  then show ?thesis using assms(1) unfolding scheduled_def by blast
qed

definition circuit_fits :: "nat \<Rightarrow> gate list \<Rightarrow> device \<Rightarrow> bool" where
  "circuit_fits n gs d \<longleftrightarrow> device_ok d \<and> n \<le> length (dv_qubits d) \<and> (\<forall>g \<in> set gs. mappable n g)"

lemma mappable_mono: "mappable n g \<Longrightarrow> n \<le> m \<Longrightarrow> mappable m g"
  by (auto simp: mappable_def gate_ok_def on_qubits_def)

lemma fits_gates_ok: "circuit_fits n gs d \<Longrightarrow> gates_ok n gs"
  by (auto simp: circuit_fits_def gates_ok_def list_all_iff mappable_def)

lemma fits_mappable:
  "circuit_fits n gs d \<Longrightarrow> i < length gs \<Longrightarrow> length (dv_qubits e) = length (dv_qubits d) \<Longrightarrow> mappable (length (dv_qubits e)) (gs ! i)"
  using mappable_mono [of n "gs ! i"] by (simp add: circuit_fits_def)

lemma run_gate_scheduled:
  assumes f: "circuit_fits n gs d0" and s: "scheduled n gs d0 p0 s order" and e: "e < length gs" "e \<notin> set order" "gate_ready gs (set order) e"
  shows "\<exists>s'. run_gate e s = Some s' \<and> scheduled n gs d0 p0 s' (order @ [e]) \<and> rt_duostra (fst s') = rt_duostra (fst s) \<and>
    rt_apsp (fst s') = rt_apsp (fst s)"
proof -
  note sd = scheduledD [OF s]
  obtain r sc where rs: "s = (r, sc)" by (cases s)
  obtain p where p: "router_ok r p" and rn: "runs d0 p0 (sc_operations sc) (performed (map ((!) gs) order)) (rt_device r) p"
    using sd(7) rs by auto
  have ok: "device_ok d0" using f by (simp add: circuit_fits_def)
  have "mappable (length (dv_qubits (rt_device r))) (gs ! e)"
    by (rule fits_mappable [OF f e(1) same_frame_length [OF runsD(1) [OF rn]]])
  from assign_gate_correct [OF p this] obtain ops r' p' where a: "assign_gate (gs ! e) r = Some (ops, r')"
    and rn': "runs (rt_device r) p ops (performed [gs ! e]) (rt_device r') p'" and ok': "router_ok r' p'"
    and flags: "rt_duostra r' = rt_duostra r" "rt_apsp r' = rt_apsp r" by blast
  let ?sc = "sc\<lparr>sc_operations := sc_operations sc @ ops, sc_topology := update_available_gates e (sc_topology sc)\<rparr>"
  have run: "run_gate e s = Some (r', ?sc)"
    using sd(6) [OF e(1)] a by (simp add: run_gate_def route_one_gate_def rs Let_def)
  have "topo_ok n gs (set (order @ [e])) (update_available_gates e (sc_topology sc))"
    using update_available_ok(1) [OF sd(1) fits_gates_ok [OF f] e] rs by simp
  moreover have "runs d0 p0 (sc_operations ?sc) (performed (map ((!) gs) (order @ [e]))) (rt_device r') p'"
    using runs_append [OF ok rn rn'] by (simp del: performed_simps(1,2))
  moreover have "fst ` fst ` set (sc_operations ?sc) \<subseteq> insert SwapGate (fst ` set gs)"
    using scheduled_operations [OF s] rs assign_gate_swaps [OF a] nth_mem [OF e(1)] by (fastforce simp: swaps_or_def)
  ultimately have "scheduled n gs d0 p0 (r', ?sc) (order @ [e])"
    using sd(2) e(2) keeps_order_snoc [OF sd(3,4) e(2)] ok' unfolding scheduled_def by auto
  then show ?thesis using run flags rs by auto
qed

section \<open>A scheduler\<close>

definition routes_all :: "nat \<Rightarrow> gate list \<Rightarrow> device \<Rightarrow> nat list \<Rightarrow> (router \<times> scheduler) option \<Rightarrow> bool" where
  "routes_all n gs d0 p0 result \<longleftrightarrow> (\<exists>s order. result = Some s \<and> scheduled n gs d0 p0 s order \<and> set order = {..<length gs})"

lemma repeat_assign_complete:
  assumes f: "circuit_fits n gs d0"
    and pick: "\<And>s order. scheduled n gs d0 p0 s order \<Longrightarrow> Q s order \<Longrightarrow> length order < length gs \<Longrightarrow>
      \<exists>e. pick (length order) s = Some e \<and> e < length gs \<and> e \<notin> set order \<and> gate_ready gs (set order) e \<and>
        (\<forall>s'. run_gate e s = Some s' \<longrightarrow> Q s' (order @ [e]))"
  shows "scheduled n gs d0 p0 s order \<Longrightarrow> Q s order \<Longrightarrow> length order \<le> length gs \<Longrightarrow>
    routes_all n gs d0 p0 (repeat_assign pick [length order..<length gs] s)"
proof (induction "length gs - length order" arbitrary: s order)
  case 0
  note sd = scheduledD [OF 0(2)]
  have "card (set order) = length gs" using 0 distinct_card [OF sd(2)] by simp
  then have "set order = {..<length gs}" using sd(5) card_subset_eq [of "{..<length gs}" "set order"] by simp
  then show ?case using 0 by (auto simp: routes_all_def)
next
  case (Suc m)
  then have l: "length order < length gs" by simp
  obtain e where e: "pick (length order) s = Some e" "e < length gs" "e \<notin> set order" "gate_ready gs (set order) e"
    "\<forall>s'. run_gate e s = Some s' \<longrightarrow> Q s' (order @ [e])" using pick [OF Suc.prems(1,2) l] by blast
  obtain s' where s': "run_gate e s = Some s'" "scheduled n gs d0 p0 s' (order @ [e])"
    using run_gate_scheduled [OF f Suc.prems(1) e(2-4)] by blast
  have "routes_all n gs d0 p0 (repeat_assign pick [length (order @ [e])..<length gs] s')"
    by (rule Suc.hyps(1)) (use Suc.hyps(2) e(5) s' l in auto)
  moreover have "[length order..<length gs] = length order # [Suc (length order)..<length gs]" using l by (simp add: upt_conv_Cons)
  ultimately show ?case by (simp add: e(1) s'(1))
qed

definition starts :: "nat \<Rightarrow> gate list \<Rightarrow> device \<Rightarrow> nat list \<Rightarrow> router \<times> scheduler \<Rightarrow> bool" where
  "starts n gs d0 p0 s \<longleftrightarrow> circuit_fits n gs d0 \<and> scheduled n gs d0 p0 s []"

lemma all_rounds_gates: "scheduled n gs d0 p0 s order \<Longrightarrow> all_rounds s = [0..<length gs]"
  using graph_links_num topo_okD(1) by (simp add: all_rounds_def scheduled_def) metis

lemma available_iff:
  assumes "scheduled n gs d0 p0 s order"
  shows "e \<in> set (sc_available (snd s)) \<longleftrightarrow> e < length gs \<and> e \<notin> set order \<and> gate_ready gs (set order) e"
  using topo_okD(3) [OF scheduledD(1) [OF assms]] by simp

lemma available_nonempty:
  assumes s: "scheduled n gs d0 p0 s order" and l: "length order < length gs"
  shows "sc_available (snd s) \<noteq> []"
proof -
  have "card (set order) < length gs" using distinct_card [OF scheduledD(2) [OF s]] l by simp
  then have "set order \<noteq> {..<length gs}" by (metis card_lessThan less_irrefl)
  from some_ready [OF scheduledD(4) [OF s] this] obtain i where "i < length gs" "i \<notin> set order" "gate_ready gs (set order) i" by blast
  then have "i \<in> set (sc_available (snd s))" using available_iff [OF s] by simp
  then show ?thesis by auto
qed

lemma find_executable_spec:
  assumes "\<forall>i \<in> set is. sc_gate sc i \<noteq> None"
  shows "find_executable sc r is = Some None \<or> (\<exists>i \<in> set is. find_executable sc r is = Some (Some i))"
  using assms by (induction "is") (auto split: option.splits)

lemma executable_choice:
  assumes s: "scheduled n gs d0 p0 s order"
  shows "get_executable_gate s = Some None \<or> (\<exists>i \<in> set (sc_available (snd s)). get_executable_gate s = Some (Some i))"
  unfolding get_executable_gate_def
  by (rule find_executable_spec) (use available_iff [OF s] scheduledD(6) [OF s] in simp)

lemma base_assign_complete: "starts n gs d0 p0 s \<Longrightarrow> routes_all n gs d0 p0 (base_assign s)"
proof -
  assume s: "starts n gs d0 p0 s"
  have "routes_all n gs d0 p0 (repeat_assign (\<lambda>k s. Some k) [length ([] :: nat list)..<length gs] s)"
  proof (rule repeat_assign_complete [where Q = "\<lambda>s order. order = [0..<length order]"])
    fix s order assume o: "order = [0..<length order]" "length order < length gs"
    have "length order \<notin> set order" by (subst o(1)) simp
    moreover have "gate_ready gs (set order) (length order)" by (subst o(1)) (auto simp: gate_ready_def prev_on_Some_iff)
    moreover have "order @ [length order] = [0..<length (order @ [length order])]" using o(1) by simp
    ultimately show "\<exists>e. Some (length order) = Some e \<and> e < length gs \<and> e \<notin> set order \<and> gate_ready gs (set order) e \<and>
        (\<forall>s'. run_gate e s = Some s' \<longrightarrow> order @ [e] = [0..<length (order @ [e])])" using o(2) by blast
  qed (use s in \<open>auto simp: starts_def\<close>)
  then show ?thesis using s by (simp add: base_assign_def starts_def all_rounds_gates [of n gs d0 p0 s "[]"])
qed

lemma random_assign_complete: "starts n gs d0 p0 s \<Longrightarrow> routes_all n gs d0 p0 (random_assign rand s)"
proof -
  assume s: "starts n gs d0 p0 s"
  have "routes_all n gs d0 p0 (repeat_assign (random_choice rand) [length ([] :: nat list)..<length gs] s)"
  proof (rule repeat_assign_complete [where Q = "\<lambda>s order. True"])
    fix s order assume sc: "scheduled n gs d0 p0 s order" and l: "length order < length gs"
    let ?w = "sc_available (snd s)"
    have w: "?w \<noteq> []" by (rule available_nonempty [OF sc l])
    then have "?w ! (rand (length order) mod length ?w) \<in> set ?w" by simp
    then show "\<exists>e. random_choice rand (length order) s = Some e \<and> e < length gs \<and> e \<notin> set order \<and> gate_ready gs (set order) e \<and>
        (\<forall>s'. run_gate e s = Some s' \<longrightarrow> True)"
      using available_iff [OF sc] w by (simp add: random_choice_def Let_def)
  qed (use s in \<open>auto simp: starts_def\<close>)
  then show ?thesis using s by (simp add: random_assign_def starts_def all_rounds_gates [of n gs d0 p0 s "[]"])
qed

lemma naive_assign_complete: "starts n gs d0 p0 s \<Longrightarrow> routes_all n gs d0 p0 (naive_assign s)"
proof -
  assume s: "starts n gs d0 p0 s"
  have "routes_all n gs d0 p0 (repeat_assign naive_choice [length ([] :: nat list)..<length gs] s)"
  proof (rule repeat_assign_complete [where Q = "\<lambda>s order. True"])
    fix s order assume sc: "scheduled n gs d0 p0 s order" and l: "length order < length gs"
    have "\<exists>e \<in> set (sc_available (snd s)). naive_choice (length order) s = Some e"
      using executable_choice [OF sc] available_nonempty [OF sc l] by (auto simp: naive_choice_def split: list.splits)
    then show "\<exists>e. naive_choice (length order) s = Some e \<and> e < length gs \<and> e \<notin> set order \<and> gate_ready gs (set order) e \<and>
        (\<forall>s'. run_gate e s = Some s' \<longrightarrow> True)"
      using available_iff [OF sc] by auto
  qed (use s in \<open>auto simp: starts_def\<close>)
  then show ?thesis using s by (simp add: naive_assign_def starts_def all_rounds_gates [of n gs d0 p0 s "[]"])
qed

section \<open>The greedy scheduler\<close>

lemma best_index_bound: "best < i \<Longrightarrow> best_index better i best c xs < i + length xs"
proof (induction xs arbitrary: i best c)
  case (Cons x xs)
  show ?case using Cons.IH [of i "Suc i" x] Cons.IH [of best "Suc i" c] Cons.prems by auto
qed simp

lemma gate_cost_exists:
  assumes r: "router_ok r p" and g: "mappable (length (dv_qubits (rt_device r))) g" and c: "coeff \<noteq> 0"
  shows "get_gate_cost r g mm coeff \<noteq> None"
proof (cases "length (snd g) = 1 \<or> \<not> rt_apsp r")
  case True
  then show ?thesis using c by (auto simp: get_gate_cost_def Let_def get_physical_qubits_def)
next
  case False
  let ?d = "rt_device r"
  obtain a b where ab: "snd g = [a, b]" using False g by (auto simp: mappable_def length_Suc_conv numeral_2_eq_2)
  have ok: "device_ok ?d" and con: "connected_device ?d" and pl: "placement (length (dv_qubits ?d)) p" and loc: "locates (rt_logical_to_physical r) p"
    using r by (auto simp: router_ok_def placed_def)
  obtain D P where t: "routed_tables ?d D P" using r False by (auto simp: router_ok_def)
  have n: "rt_logical_to_physical r ! a < length (dv_qubits ?d)" "rt_logical_to_physical r ! b < length (dv_qubits ?d)"
    using locates_at(1) [OF pl loc] g ab by (auto simp: mappable_def gate_ok_def on_qubits_def)
  obtain w where w: "on_route ?d P w" "hd w = rt_logical_to_physical r ! a" "last w = rt_logical_to_physical r ! b"
    using route_exists [OF ok t n] con n by (auto simp: connected_device_def)
  have "get_path (rt_logical_to_physical r ! a) (rt_logical_to_physical r ! b) ?d \<noteq> None"
    using get_path_route [OF ok t w(1)] w(2,3) by auto
  then show ?thesis using c ab False by (auto simp: get_gate_cost_def Let_def get_physical_qubits_def)
qed

lemma greedy_choice_exists:
  assumes f: "circuit_fits n gs d0" and s: "scheduled n gs d0 p0 s order" and l: "length order < length gs"
    and conf: "0 < gc_num_candidates conf" "gc_apsp_coeff conf \<noteq> 0"
  shows "\<exists>e \<in> set (sc_available (snd s)). greedy_choice conf s = Some e"
    "candidate_gates (gc_num_candidates conf) (sc_topology (snd s)) \<noteq> []"
proof -
  let ?w = "candidate_gates (gc_num_candidates conf) (sc_topology (snd s))"
  show ne: "?w \<noteq> []" using available_nonempty [OF s l] conf(1) by (simp add: candidate_gates_def)
  have sub: "set ?w \<subseteq> set (sc_available (snd s))" by (auto simp: candidate_gates_def dest: in_set_takeD)
  obtain p where p: "router_ok (fst s) p" and rn: "runs d0 p0 (sc_operations (snd s)) (performed (map ((!) gs) order)) (rt_device (fst s)) p"
    using scheduledD(7) [OF s] by auto
  let ?c = "\<lambda>i. Option.bind (sc_gate (snd s) i) (\<lambda>g. get_gate_cost (fst s) g (gc_available_time conf) (gc_apsp_coeff conf))"
  have "?c i \<noteq> None" if "i \<in> set ?w" for i
  proof -
    have i: "i < length gs" using that sub available_iff [OF s] by auto
    have "mappable (length (dv_qubits (rt_device (fst s)))) (gs ! i)"
      by (rule fits_mappable [OF f i same_frame_length [OF runsD(1) [OF rn]]])
    then show ?thesis using gate_cost_exists [OF p _ conf(2)] scheduledD(6) [OF s i] by simp
  qed
  then have "those (map ?c ws) = Some (map (\<lambda>i. the (?c i)) ws)" if "set ws \<subseteq> set ?w" for ws
    using that
  proof (induction ws)
    case (Cons i ws)
    obtain y where "?c i = Some y" using Cons.prems(1) [of i] Cons.prems(2) by auto
    then show ?case using Cons by simp
  qed simp
  from this [of ?w] have th: "those (map ?c ?w) = Some (map (\<lambda>i. the (?c i)) ?w)" by simp
  obtain i ws where w: "?w = i # ws" using ne by (cases ?w) auto
  have "\<exists>e \<in> set ?w. greedy_fallback conf s ?w = Some e"
  proof -
    let ?k = "best_index (if gc_cost_type conf = Max_option then (>) else (<)) 1 0 (the (?c i)) (map (\<lambda>i. the (?c i)) ws)"
    have "?k < length ?w" using best_index_bound [of 0 1 _ "the (?c i)" "map (\<lambda>i. the (?c i)) ws"] by (simp add: w)
    then have "?w ! ?k \<in> set ?w" by (rule nth_mem)
    moreover have "greedy_fallback conf s ?w = Some (?w ! ?k)" using th by (simp add: greedy_fallback_def w)
    ultimately show ?thesis by blast
  qed
  then show "\<exists>e \<in> set (sc_available (snd s)). greedy_choice conf s = Some e"
    using executable_choice [OF s] sub by (auto simp: greedy_choice_def)
qed

lemma greedy_assign_complete:
  assumes conf: "0 < gc_num_candidates conf" "gc_apsp_coeff conf \<noteq> 0" and f: "circuit_fits n gs d0"
  shows "scheduled n gs d0 p0 s order \<Longrightarrow> routes_all n gs d0 p0 (greedy_assign conf s)"
proof (induction "length gs - length order" arbitrary: s order)
  case 0
  note sd = scheduledD [OF 0(2)]
  have "card (set order) = length gs" using 0 distinct_card [OF sd(2)] card_mono [OF _ sd(5)] by simp
  then have X: "set order = {..<length gs}" using sd(5) card_subset_eq [of "{..<length gs}" "set order"] by simp
  have "set (sc_available (snd s)) = {}" by (rule equals0I) (simp only: available_iff [OF 0(2)] X lessThan_iff, blast)
  then have "candidate_gates (gc_num_candidates conf) (sc_topology (snd s)) = []" by (simp add: candidate_gates_def)
  then have "greedy_assign conf s = Some s" by (subst greedy_assign.simps) simp
  then show ?case using 0 X by (auto simp: routes_all_def)
next
  case (Suc m)
  then have l: "length order < length gs" by simp
  note g = greedy_choice_exists [OF f Suc.prems l conf]
  obtain e where e: "e \<in> set (sc_available (snd s))" "greedy_choice conf s = Some e" using g(1) by blast
  obtain s' where s': "run_gate e s = Some s'" "scheduled n gs d0 p0 s' (order @ [e])"
    using run_gate_scheduled [OF f Suc.prems] e(1) available_iff [OF Suc.prems] by blast
  have "routes_all n gs d0 p0 (greedy_assign conf s')" by (rule Suc.hyps(1) [OF _ s'(2)]) (use Suc.hyps(2) in simp)
  moreover have "greedy_assign conf s = greedy_assign conf s'" using g(2) e(2) s'(1) by (subst greedy_assign.simps) simp
  ultimately show ?case by simp
qed

section \<open>The sorted operations\<close>

lemma on_coupling_shape: "device_ok d \<Longrightarrow> on_coupling d g \<Longrightarrow> op_shape (length (dv_qubits d)) g"
  using graph_okD(1-3) [OF device_okD(5), of d] by (fastforce simp: on_coupling_def op_shape_def)

lemma sorted_operations:
  assumes ok: "device_ok d" and p: "placement (length (dv_qubits d)) p" and r: "runs d p xs hs d' p'" and std: "sorts std_sort"
  shows "reorder qubit_set hs (unroute (map fst (std_sort xs)) p)" "final_placement (map fst (std_sort xs)) p = p'"
    "timeline (occupied d) (std_sort xs)" "set (std_sort xs) = set xs"
proof -
  have o: "reorder op_wires xs (std_sort xs)"
    by (rule sorted_reorder [OF timeline_in_order [OF runsD(6) [OF r]]]) (use std in \<open>simp_all add: sorts_def\<close>)
  have sh: "\<forall>g \<in> set (map fst xs). op_shape (length (dv_qubits d)) g" using runsD(5) [OF r] on_coupling_shape [OF ok] by auto
  then have sh': "\<forall>g \<in> set (map fst xs). op_shape max_qubit_id g" using op_shape_mono small_device [OF ok] by blast
  show "reorder qubit_set hs (unroute (map fst (std_sort xs)) p)"
    using unroute_reorder [OF small_device [OF ok] p reorder_ops [OF o] sh] runsD(3) [OF r] by simp
  show "final_placement (map fst (std_sort xs)) p = p'"
    using final_placement_reorder [OF reorder_ops [OF o] sh'] runsD(4) [OF r] by simp
  show "timeline (occupied d) (std_sort xs)" by (rule timeline_reorder [OF o runsD(6) [OF r]])
  show "set (std_sort xs) = set xs" by (rule reorder_set [OF o])
qed

end
