(* ===== verification/SearchScheduler.thy ===== *)
theory SearchScheduler
  imports ScheduleCorrect
begin

text \<open>
  The scheduler that looks ahead (src/src/duostra/scheduler_search.cpp, class \<open>TreeNode\<close> of scheduler.hpp): a tree of
  the gates that may be routed next, grown to a depth, with the cost of its best leaf. A node owns copies of the router
  and of the scheduler, which route the gates of the node but forget the operations. \<open>nth_element\<close> is an
  argument of the definitions: the standard leaves the order of the children to it.
\<close>

section \<open>The tree\<close>

record tree_node_conf =
  tc_never_cache :: bool
  tc_execute_single :: bool
  tc_candidates :: nat

datatype tree_node = TreeNode (tn_gate_ids: "nat list") (tn_children: "tree_node list") (tn_max_cost: nat) (tn_state: "router \<times> scheduler")

definition largest_size :: nat where
  "largest_size = 2 ^ 64 - 1"

definition tn_available :: "tree_node \<Rightarrow> nat list" where
  "tn_available node = sc_available (snd (tn_state node))"

definition is_leaf :: "tree_node \<Rightarrow> bool" where
  "is_leaf node \<longleftrightarrow> tn_children node = []"

definition can_grow :: "tree_node \<Rightarrow> bool" where
  "can_grow node \<longleftrightarrow> tn_available node \<noteq> []"

definition immediate_next :: "router \<times> scheduler \<Rightarrow> nat option option" where
  "immediate_next s =
     (case get_executable_gate s of None \<Rightarrow> None
      | Some (Some i) \<Rightarrow> Some (Some i)
      | Some None \<Rightarrow> Some (if length (sc_available (snd s)) = 1 then Some (sc_available (snd s) ! 0) else None))"

definition route_forget :: "nat \<Rightarrow> nat \<times> router \<times> scheduler \<Rightarrow> (nat \<times> router \<times> scheduler) option" where
  "route_forget i cs = map_option (\<lambda>(c, s). (max (fst cs) c, s)) (route_one_gate i True (snd cs))"

fun route_listed :: "nat list \<Rightarrow> nat \<times> router \<times> scheduler \<Rightarrow> (nat \<times> router \<times> scheduler) option" where
  "route_listed [] cs = Some cs"
| "route_listed (i # is) cs = Option.bind (route_forget i cs) (route_listed is)"

partial_function (option) route_immediate :: "nat list \<Rightarrow> nat \<times> router \<times> scheduler \<Rightarrow> (nat list \<times> nat \<times> router \<times> scheduler) option" where
  "route_immediate gate_ids cs =
     (case immediate_next (snd cs) of None \<Rightarrow> None
      | Some None \<Rightarrow> Some (gate_ids, cs)
      | Some (Some i) \<Rightarrow> (case route_forget i cs of None \<Rightarrow> None | Some cs \<Rightarrow> route_immediate (gate_ids @ [i]) cs))"

definition tree_node_new :: "tree_node_conf \<Rightarrow> nat list \<Rightarrow> router \<times> scheduler \<Rightarrow> nat \<Rightarrow> tree_node option" where
  "tree_node_new conf gate_ids s max_cost =
     (case route_listed gate_ids (max_cost, s) of None \<Rightarrow> None
      | Some cs \<Rightarrow>
          if gate_ids = [] \<or> \<not> tc_execute_single conf then Some (TreeNode gate_ids [] (fst cs) (snd cs))
          else map_option (\<lambda>(gate_ids, cs). TreeNode gate_ids [] (fst cs) (snd cs)) (route_immediate gate_ids cs))"

definition new_children :: "tree_node_conf \<Rightarrow> tree_node \<Rightarrow> tree_node list option" where
  "new_children conf node = those (map (\<lambda>i. tree_node_new conf [i] (tn_state node) (tn_max_cost node)) (tn_available node))"

definition set_children :: "tree_node list \<Rightarrow> tree_node \<Rightarrow> tree_node" where
  "set_children cs node = TreeNode (tn_gate_ids node) cs (tn_max_cost node) (tn_state node)"

definition grow :: "tree_node_conf \<Rightarrow> tree_node \<Rightarrow> tree_node option" where
  "grow conf node = map_option (\<lambda>cs. set_children (tn_children node @ cs) node) (new_children conf node)"

section \<open>The best leaf\<close>

text \<open>The call without a depth.\<close>

definition next_cost :: "tree_node_conf \<Rightarrow> tree_node \<Rightarrow> nat option" where
  "next_cost conf node = map_option (\<lambda>cs. fold (\<lambda>c best. min best (tn_max_cost c)) cs largest_size) (new_children conf node)"

text \<open>
  A call with depth \<open>0\<close> only reaches leaves. Without candidates \<open>std::ranges::min\<close> reads an empty range: \<open>None\<close>.
\<close>

fun best_cost :: "(nat \<Rightarrow> tree_node list \<Rightarrow> tree_node list) \<Rightarrow> tree_node_conf \<Rightarrow> nat \<Rightarrow> tree_node \<Rightarrow> (nat \<times> tree_node) option" where
  "best_cost nth_element conf 0 node = (if is_leaf node then Some (tn_max_cost node, node) else None)"
| "best_cost nth_element conf (Suc 0) node =
     (if is_leaf node \<and> \<not> can_grow node then Some (tn_max_cost node, node)
      else map_option (\<lambda>c. (c, node)) (next_cost conf node))"
| "best_cost nth_element conf (Suc (Suc depth)) node =
     (if is_leaf node \<and> \<not> can_grow node then Some (tn_max_cost node, node)
      else case (if is_leaf node then grow conf node else Some node) of None \<Rightarrow> None
      | Some node \<Rightarrow>
          let k = tc_candidates conf;
              cs = (if k < length (tn_children node) then nth_element k (tn_children node) else tn_children node) in
          case those (map (best_cost nth_element conf (Suc depth)) (take k cs)) of None \<Rightarrow> None
          | Some [] \<Rightarrow> None
          | Some (r # rs) \<Rightarrow>
              Some (fold (\<lambda>r best. min best (fst r)) rs (fst r),
                    set_children (if tc_never_cache conf then [] else map snd (r # rs) @ drop k cs) node))"

definition best_child :: "(nat \<Rightarrow> tree_node list \<Rightarrow> tree_node list) \<Rightarrow> tree_node_conf \<Rightarrow> nat \<Rightarrow> tree_node \<Rightarrow> tree_node option" where
  "best_child nth_element conf depth node =
     (case (if is_leaf node then grow conf node else Some node) of None \<Rightarrow> None
      | Some node \<Rightarrow>
          (case those (map (best_cost nth_element conf depth) (tn_children node)) of None \<Rightarrow> None
           | Some [] \<Rightarrow> None
           | Some (r # rs) \<Rightarrow> Some (snd ((r # rs) ! best_index (<) 0 0 largest_size (map fst (r # rs))))))"

section \<open>The scheduler\<close>

fun run_gates :: "nat list \<Rightarrow> router \<times> scheduler \<Rightarrow> (router \<times> scheduler) option" where
  "run_gates [] s = Some s"
| "run_gates (i # is) s = Option.bind (run_gate i s) (run_gates is)"

partial_function (option) search_loop ::
  "(nat \<Rightarrow> tree_node list \<Rightarrow> tree_node list) \<Rightarrow> tree_node_conf \<Rightarrow> nat \<Rightarrow> tree_node \<Rightarrow> router \<times> scheduler \<Rightarrow> (router \<times> scheduler) option" where
  "search_loop nth_element conf depth node s =
     (if tn_available node = [] then Some s
      else case best_child nth_element conf depth node of None \<Rightarrow> None
      | Some node \<Rightarrow> (case run_gates (tn_gate_ids node) s of None \<Rightarrow> None | Some s \<Rightarrow> search_loop nth_element conf depth node s))"

text \<open>The depth is cast to an \<open>int\<close> and back to \<open>size_t\<close>; with a depth of one nothing is cached.\<close>

definition cast_depth :: "nat \<Rightarrow> nat" where
  "cast_depth lookahead = unat (scast (word_of_nat lookahead :: 32 word) :: 64 word)"

definition search_assign ::
  "(nat \<Rightarrow> tree_node list \<Rightarrow> tree_node list) \<Rightarrow> tree_node_conf \<Rightarrow> nat \<Rightarrow> router \<times> scheduler \<Rightarrow> (router \<times> scheduler) option" where
  "search_assign nth_element conf lookahead s =
     (let conf = conf\<lparr>tc_never_cache := tc_never_cache conf \<or> lookahead = 1\<rparr> in
      Option.bind (tree_node_new conf [] s 0) (\<lambda>node. search_loop nth_element conf (cast_depth lookahead) node s))"

definition partitions :: "(nat \<Rightarrow> tree_node list \<Rightarrow> tree_node list) \<Rightarrow> bool" where
  "partitions nth_element \<longleftrightarrow>
     (\<forall>k cs. k < length cs \<longrightarrow> mset (nth_element k cs) = mset cs \<and>
        (\<forall>i < k. \<forall>j < length cs. k \<le> j \<longrightarrow> tn_max_cost (nth_element k cs ! i) \<le> tn_max_cost (nth_element k cs ! j)))"

section \<open>The nodes follow the schedule\<close>

definition with_operations :: "gate_info list \<Rightarrow> router \<times> scheduler \<Rightarrow> router \<times> scheduler" where
  "with_operations ops s = (fst s, (snd s)\<lparr>sc_operations := ops\<rparr>)"

definition shadow :: "nat \<Rightarrow> gate list \<Rightarrow> device \<Rightarrow> nat list \<Rightarrow> router \<times> scheduler \<Rightarrow> nat list \<Rightarrow> bool" where
  "shadow n gs d0 p0 s order \<longleftrightarrow> (\<exists>ops. scheduled n gs d0 p0 (with_operations ops s) order)"

definition free_gate :: "gate list \<Rightarrow> nat set \<Rightarrow> nat \<Rightarrow> bool" where
  "free_gate gs X e \<longleftrightarrow> e < length gs \<and> e \<notin> X \<and> gate_ready gs X e"

fun legal :: "gate list \<Rightarrow> nat list \<Rightarrow> nat list \<Rightarrow> bool" where
  "legal gs order [] = True"
| "legal gs order (e # es) \<longleftrightarrow> free_gate gs (set order) e \<and> legal gs (order @ [e]) es"

lemma legal_append: "legal gs order (es @ es') \<longleftrightarrow> legal gs order es \<and> legal gs (order @ es) es'"
  by (induction es arbitrary: order) auto

fun tree_ok :: "nat \<Rightarrow> gate list \<Rightarrow> device \<Rightarrow> nat list \<Rightarrow> nat list \<Rightarrow> tree_node \<Rightarrow> bool" where
  "tree_ok n gs d0 p0 order (TreeNode es cs c s) \<longleftrightarrow>
     legal gs order es \<and> shadow n gs d0 p0 s (order @ es) \<and> (\<forall>x \<in> set cs. tn_gate_ids x \<noteq> [] \<and> tree_ok n gs d0 p0 (order @ es) x)"

lemma tree_okD:
  assumes "tree_ok n gs d0 p0 order node"
  shows "legal gs order (tn_gate_ids node)" "shadow n gs d0 p0 (tn_state node) (order @ tn_gate_ids node)"
    "x \<in> set (tn_children node) \<Longrightarrow> tn_gate_ids x \<noteq> []" "x \<in> set (tn_children node) \<Longrightarrow> tree_ok n gs d0 p0 (order @ tn_gate_ids node) x"
  using assms by (cases node; simp)+

lemma shadow_available:
  assumes "shadow n gs d0 p0 s order"
  shows "e \<in> set (sc_available (snd s)) \<longleftrightarrow> free_gate gs (set order) e" "length order < length gs \<Longrightarrow> sc_available (snd s) \<noteq> []"
    "length order \<le> length gs" "get_executable_gate s = Some None \<or> (\<exists>i \<in> set (sc_available (snd s)). get_executable_gate s = Some (Some i))"
proof -
  obtain ops where s: "scheduled n gs d0 p0 (with_operations ops s) order" using assms by (auto simp: shadow_def)
  show "e \<in> set (sc_available (snd s)) \<longleftrightarrow> free_gate gs (set order) e"
    using available_iff [OF s] by (simp add: with_operations_def free_gate_def)
  show "length order < length gs \<Longrightarrow> sc_available (snd s) \<noteq> []" using available_nonempty [OF s] by (simp add: with_operations_def)
  show "length order \<le> length gs"
    using card_mono [of "{..<length gs}" "set order"] scheduledD(5) [OF s] distinct_card [OF scheduledD(2) [OF s]] by simp
  show "get_executable_gate s = Some None \<or> (\<exists>i \<in> set (sc_available (snd s)). get_executable_gate s = Some (Some i))"
    unfolding get_executable_gate_def
    by (rule find_executable_spec) (use available_iff [OF s] scheduledD(6) [OF s] in \<open>simp add: with_operations_def\<close>)
qed

lemma route_forget_shadow:
  assumes f: "circuit_fits n gs d0" and s: "shadow n gs d0 p0 s order" and e: "free_gate gs (set order) e"
  shows "\<exists>c' s'. route_forget e (c, s) = Some (c', s') \<and> shadow n gs d0 p0 s' (order @ [e])"
proof -
  obtain ops where sh: "scheduled n gs d0 p0 (with_operations ops s) order" using s by (auto simp: shadow_def)
  obtain s' where s': "run_gate e (with_operations ops s) = Some s'" "scheduled n gs d0 p0 s' (order @ [e])"
    using run_gate_scheduled [OF f sh, of e] e unfolding free_gate_def by blast
  then obtain c'' s'' where "route_one_gate e True s = Some (c'', s'')" "s' = with_operations (sc_operations (snd s')) s''"
    by (auto simp: run_gate_def route_one_gate_def with_operations_def Let_def split: option.splits prod.splits)
  then show ?thesis using s'(2) by (auto simp: route_forget_def shadow_def) metis
qed

lemma route_listed_shadow:
  assumes f: "circuit_fits n gs d0"
  shows "shadow n gs d0 p0 s order \<Longrightarrow> legal gs order es \<Longrightarrow>
    \<exists>c' s'. route_listed es (c, s) = Some (c', s') \<and> shadow n gs d0 p0 s' (order @ es)"
proof (induction es arbitrary: c s order)
  case (Cons e es)
  obtain c1 s1 where 1: "route_forget e (c, s) = Some (c1, s1)" "shadow n gs d0 p0 s1 (order @ [e])"
    using route_forget_shadow [OF f Cons.prems(1), of e c] Cons.prems(2) by auto
  then show ?case using Cons.IH [OF 1(2), of c1] Cons.prems(2) by simp
qed auto

lemma immediate_next_shadow:
  assumes s: "shadow n gs d0 p0 s order"
  shows "immediate_next s = Some None \<or> (\<exists>e. immediate_next s = Some (Some e) \<and> free_gate gs (set order) e)"
proof (cases "length (sc_available (snd s)) = 1")
  case True
  then have "sc_available (snd s) ! 0 \<in> set (sc_available (snd s))" by simp
  then show ?thesis using shadow_available(1,4) [OF s] True by (auto simp: immediate_next_def)
next
  case False
  then show ?thesis using shadow_available(1,4) [OF s] by (auto simp: immediate_next_def)
qed

lemma route_immediate_shadow:
  assumes f: "circuit_fits n gs d0"
  shows "shadow n gs d0 p0 s (order @ es) \<Longrightarrow> legal gs order es \<Longrightarrow>
    \<exists>more c' s'. route_immediate es (c, s) = Some (es @ more, c', s') \<and> shadow n gs d0 p0 s' (order @ es @ more) \<and> legal gs order (es @ more)"
proof (induction "length gs - length (order @ es)" arbitrary: es c s rule: less_induct)
  case less
  show ?case
  proof (cases "immediate_next s = Some None")
    case True
    then show ?thesis using less.prems by (subst route_immediate.simps) (auto intro: exI [of _ "[]"])
  next
    case False
    then obtain e where e: "immediate_next s = Some (Some e)" "free_gate gs (set (order @ es)) e"
      using immediate_next_shadow [OF less.prems(1)] by blast
    obtain c1 s1 where 1: "route_forget e (c, s) = Some (c1, s1)" "shadow n gs d0 p0 s1 ((order @ es) @ [e])"
      using route_forget_shadow [OF f less.prems(1) e(2)] by blast
    have sh: "shadow n gs d0 p0 s1 (order @ es @ [e])" using 1(2) by simp
    have "legal gs order (es @ [e])" using less.prems(2) e(2) by (simp add: legal_append)
    moreover have "length gs - length (order @ es @ [e]) < length gs - length (order @ es)"
      using shadow_available(3) [OF sh] by simp
    ultimately obtain more c' s' where "route_immediate (es @ [e]) (c1, s1) = Some ((es @ [e]) @ more, c', s')"
      "shadow n gs d0 p0 s' (order @ (es @ [e]) @ more)" "legal gs order ((es @ [e]) @ more)"
      using less.hyps [of "es @ [e]" s1 c1] sh by auto
    then show ?thesis using e(1) 1(1) by (subst route_immediate.simps) (auto intro!: exI [of _ "e # more"])
  qed
qed

lemma tree_node_new_ok:
  assumes f: "circuit_fits n gs d0" and s: "shadow n gs d0 p0 s order" and es: "legal gs order es"
  shows "\<exists>node. tree_node_new conf es s c = Some node \<and> tree_ok n gs d0 p0 order node \<and> tn_children node = [] \<and>
    (\<exists>more. tn_gate_ids node = es @ more) \<and> (es = [] \<longrightarrow> tn_gate_ids node = [])"
proof -
  obtain c' s' where 1: "route_listed es (c, s) = Some (c', s')" "shadow n gs d0 p0 s' (order @ es)"
    using route_listed_shadow [OF f s es] by blast
  obtain more c2 s2 where 2: "route_immediate es (c', s') = Some (es @ more, c2, s2)" "shadow n gs d0 p0 s2 (order @ es @ more)"
    "legal gs order (es @ more)" using route_immediate_shadow [OF f 1(2) es] by blast
  show ?thesis
  proof (cases "es = [] \<or> \<not> tc_execute_single conf")
    case True
    then show ?thesis using 1 es by (auto simp: tree_node_new_def)
  next
    case False
    then show ?thesis using 1 2 by (auto simp: tree_node_new_def)
  qed
qed

lemma those_all: "(\<And>x. x \<in> set xs \<Longrightarrow> \<exists>y. f x = Some y \<and> Q x y) \<Longrightarrow> \<exists>ys. those (map f xs) = Some ys \<and> list_all2 Q xs ys"
proof (induction xs)
  case (Cons x xs)
  obtain y where "f x = Some y" "Q x y" using Cons.prems [of x] by auto
  moreover obtain ys where "those (map f xs) = Some ys" "list_all2 Q xs ys" using Cons by auto
  ultimately show ?case by auto
qed simp

lemma new_children_ok:
  assumes f: "circuit_fits n gs d0" and node: "tree_ok n gs d0 p0 order node"
  shows "\<exists>cs. new_children conf node = Some cs \<and> length cs = length (tn_available node) \<and>
    (\<forall>x \<in> set cs. tn_gate_ids x \<noteq> [] \<and> tree_ok n gs d0 p0 (order @ tn_gate_ids node) x)"
proof -
  let ?P = "\<lambda>i x. tn_gate_ids x \<noteq> [] \<and> tree_ok n gs d0 p0 (order @ tn_gate_ids node) x"
  have "\<exists>x. tree_node_new conf [i] (tn_state node) (tn_max_cost node) = Some x \<and> ?P i x" if "i \<in> set (tn_available node)" for i
    using tree_node_new_ok [OF f tree_okD(2) [OF node], of "[i]" conf "tn_max_cost node"] that shadow_available(1) [OF tree_okD(2) [OF node]]
    by (auto simp: tn_available_def)
  then obtain cs where cs: "new_children conf node = Some cs" "list_all2 ?P (tn_available node) cs"
    using those_all [of "tn_available node" "\<lambda>i. tree_node_new conf [i] (tn_state node) (tn_max_cost node)" ?P]
    unfolding new_children_def by blast
  then show ?thesis by (auto simp: list_all2_conv_all_nth in_set_conv_nth)
qed

definition same_node :: "tree_node \<Rightarrow> tree_node \<Rightarrow> bool" where
  "same_node a b \<longleftrightarrow> tn_gate_ids b = tn_gate_ids a \<and> tn_state b = tn_state a"

lemma set_children_ok:
  "tree_ok n gs d0 p0 order node \<Longrightarrow> \<forall>x \<in> set cs. tn_gate_ids x \<noteq> [] \<and> tree_ok n gs d0 p0 (order @ tn_gate_ids node) x \<Longrightarrow>
    tree_ok n gs d0 p0 order (set_children cs node) \<and> same_node node (set_children cs node) \<and> tn_children (set_children cs node) = cs"
  by (cases node) (simp add: set_children_def same_node_def)

lemma grow_ok:
  assumes f: "circuit_fits n gs d0" and node: "tree_ok n gs d0 p0 order node" and g: "is_leaf node \<Longrightarrow> can_grow node"
  shows "\<exists>node'. (if is_leaf node then grow conf node else Some node) = Some node' \<and> tree_ok n gs d0 p0 order node' \<and>
    same_node node node' \<and> tn_children node' \<noteq> []"
proof (cases "is_leaf node")
  case True
  obtain cs where cs: "new_children conf node = Some cs" "length cs = length (tn_available node)"
    "\<forall>x \<in> set cs. tn_gate_ids x \<noteq> [] \<and> tree_ok n gs d0 p0 (order @ tn_gate_ids node) x" using new_children_ok [OF f node] by blast
  moreover have "cs \<noteq> []" using cs(2) g True by (auto simp: can_grow_def)
  ultimately show ?thesis using set_children_ok [OF node cs(3)] True by (simp add: grow_def is_leaf_def)
next
  case False
  then show ?thesis using node by (simp add: is_leaf_def same_node_def)
qed

lemma best_cost_ok:
  assumes f: "circuit_fits n gs d0" and nth: "partitions nth_element" and k: "0 < tc_candidates conf"
  shows "0 < depth \<Longrightarrow> tree_ok n gs d0 p0 order node \<Longrightarrow>
    \<exists>c node'. best_cost nth_element conf depth node = Some (c, node') \<and> tree_ok n gs d0 p0 order node' \<and> same_node node node'"
proof (induction depth arbitrary: order node rule: less_induct)
  case (less depth)
  show ?case
  proof (cases "is_leaf node \<and> \<not> can_grow node")
    case True
    then show ?thesis using less.prems by (cases depth; cases "depth - 1") (auto simp: same_node_def)
  next
    case grows: False
    show ?thesis
    proof (cases "depth = 1")
      case True
      then show ?thesis using grows new_children_ok [OF f less.prems(2), of conf] less.prems
        by (auto simp: next_cost_def same_node_def)
    next
      case False
      then obtain m where m: "depth = Suc (Suc m)" using less.prems(1) by (metis One_nat_def Suc_pred neq0_conv)
      obtain node1 where n1: "(if is_leaf node then grow conf node else Some node) = Some node1" "tree_ok n gs d0 p0 order node1"
        "same_node node node1" "tn_children node1 \<noteq> []" using grow_ok [OF f less.prems(2)] grows by blast
      let ?k = "tc_candidates conf"
      define cs where "cs = (if ?k < length (tn_children node1) then nth_element ?k (tn_children node1) else tn_children node1)"
      have ms: "mset cs = mset (tn_children node1)" using nth by (simp add: cs_def partitions_def)
      then have set_cs: "set cs = set (tn_children node1)" and ne: "cs \<noteq> []" using n1(4) by (metis mset_eq_setD, auto)
      have ok: "tn_gate_ids x \<noteq> []" "tree_ok n gs d0 p0 (order @ tn_gate_ids node1) x" if "x \<in> set cs" for x
        using that tree_okD(3,4) [OF n1(2)] set_cs by auto
      let ?Q = "\<lambda>x r. tree_ok n gs d0 p0 (order @ tn_gate_ids node1) (snd r) \<and> same_node x (snd r)"
      have "\<exists>r. best_cost nth_element conf (Suc m) x = Some r \<and> ?Q x r" if "x \<in> set (take ?k cs)" for x
        using less.IH [of "Suc m" "order @ tn_gate_ids node1" x] ok(2) [of x] in_set_takeD [OF that] m by fastforce
      then obtain rs where rs: "those (map (best_cost nth_element conf (Suc m)) (take ?k cs)) = Some rs" "list_all2 ?Q (take ?k cs) rs"
        using those_all [of "take ?k cs" "best_cost nth_element conf (Suc m)" ?Q] by blast
      have "rs \<noteq> []" using list_all2_lengthD [OF rs(2)] ne k by (auto simp: min_def split: if_splits)
      then obtain r rs' where r: "rs = r # rs'" by (cases rs) auto
      let ?cs = "if tc_never_cache conf then [] else map snd rs @ drop ?k cs"
      have "tn_gate_ids (snd y) \<noteq> [] \<and> tree_ok n gs d0 p0 (order @ tn_gate_ids node1) (snd y)" if "y \<in> set rs" for y
      proof -
        obtain i where i: "i < length rs" "rs ! i = y" using \<open>y \<in> set rs\<close> by (auto simp: in_set_conv_nth)
        then have "?Q (take ?k cs ! i) y" "i < length (take ?k cs)"
          using list_all2_nthD2 [OF rs(2), of i] list_all2_lengthD [OF rs(2)] by auto
        moreover have "take ?k cs ! i \<in> set cs" using calculation(2) in_set_takeD nth_mem by metis
        ultimately show ?thesis using ok(1) by (auto simp: same_node_def)
      qed
      then have "\<forall>x \<in> set ?cs. tn_gate_ids x \<noteq> [] \<and> tree_ok n gs d0 p0 (order @ tn_gate_ids node1) x"
        using ok by (auto dest: in_set_dropD)
      from set_children_ok [OF n1(2) this]
      have "tree_ok n gs d0 p0 order (set_children ?cs node1) \<and> same_node node (set_children ?cs node1)"
        using n1(3) by (simp only: same_node_def simp_thms)
      moreover have "best_cost nth_element conf depth node =
          Some (fold (\<lambda>r best. min best (fst r)) rs' (fst r), set_children ?cs node1)"
        using grows n1(1) rs(1) unfolding m best_cost.simps(3) r
        by (simp only: cs_def [symmetric] Let_def simp_thms if_False option.case list.case)
      ultimately show ?thesis by blast
    qed
  qed
qed

lemma best_child_ok:
  assumes f: "circuit_fits n gs d0" and nth: "partitions nth_element" and k: "0 < tc_candidates conf" and depth: "0 < depth"
    and node: "tree_ok n gs d0 p0 order node" "tn_available node \<noteq> []"
  shows "\<exists>x. best_child nth_element conf depth node = Some x \<and> tree_ok n gs d0 p0 (order @ tn_gate_ids node) x \<and> tn_gate_ids x \<noteq> []"
proof -
  obtain node1 where n1: "(if is_leaf node then grow conf node else Some node) = Some node1" "tree_ok n gs d0 p0 order node1"
    "same_node node node1" "tn_children node1 \<noteq> []" using grow_ok [OF f node(1)] node(2) by (auto simp: can_grow_def)
  let ?Q = "\<lambda>x r. tn_gate_ids (snd r) \<noteq> [] \<and> tree_ok n gs d0 p0 (order @ tn_gate_ids node) (snd r)"
  have "\<exists>r. best_cost nth_element conf depth x = Some r \<and> ?Q x r" if "x \<in> set (tn_children node1)" for x
    using best_cost_ok [OF f nth k depth tree_okD(4) [OF n1(2) that]] tree_okD(3) [OF n1(2) that] n1(3) by (auto simp: same_node_def)
  then obtain rs where rs: "those (map (best_cost nth_element conf depth) (tn_children node1)) = Some rs" "list_all2 ?Q (tn_children node1) rs"
    using those_all [of "tn_children node1" "best_cost nth_element conf depth" ?Q] by blast
  then have "rs \<noteq> []" using n1(4) by auto
  let ?i = "best_index (<) 0 0 largest_size (map fst rs)"
  have "best_index (<) 0 0 largest_size (map fst rs) < length rs"
  proof -
    obtain r rs' where r: "rs = r # rs'" using \<open>rs \<noteq> []\<close> by (cases rs) auto
    show ?thesis using best_index_bound [of 0 "Suc 0" _ _ "map fst rs'"] by (simp add: r)
  qed
  then have "?Q undefined (rs ! ?i)" using list_all2_nthD2 [OF rs(2), of ?i] by simp
  moreover have "best_child nth_element conf depth node = Some (snd (rs ! ?i))"
    using n1(1) rs(1) \<open>rs \<noteq> []\<close> by (cases rs) (auto simp: best_child_def)
  ultimately show ?thesis by auto
qed

lemma run_gates_scheduled:
  assumes f: "circuit_fits n gs d0"
  shows "scheduled n gs d0 p0 s order \<Longrightarrow> legal gs order es \<Longrightarrow> \<exists>s'. run_gates es s = Some s' \<and> scheduled n gs d0 p0 s' (order @ es)"
proof (induction es arbitrary: s order)
  case (Cons e es)
  obtain s1 where s1: "run_gate e s = Some s1" "scheduled n gs d0 p0 s1 (order @ [e])"
    using run_gate_scheduled [OF f Cons.prems(1), of e] Cons.prems(2) by (auto simp: free_gate_def)
  then show ?case using Cons.IH [OF s1(2)] Cons.prems(2) by simp
qed auto

lemma search_loop_complete:
  assumes f: "circuit_fits n gs d0" and nth: "partitions nth_element" and k: "0 < tc_candidates conf" and depth: "0 < depth"
  shows "tree_ok n gs d0 p0 order node \<Longrightarrow> scheduled n gs d0 p0 s (order @ tn_gate_ids node) \<Longrightarrow>
    routes_all n gs d0 p0 (search_loop nth_element conf depth node s)"
proof (induction "length gs - length (order @ tn_gate_ids node)" arbitrary: order node s rule: less_induct)
  case less
  let ?order = "order @ tn_gate_ids node"
  note sd = scheduledD [OF less.prems(2)] and sh = tree_okD(2) [OF less.prems(1)]
  show ?case
  proof (cases "tn_available node = []")
    case True
    then have "length ?order = length gs"
      using shadow_available(2,3) [OF sh] by (fastforce simp: tn_available_def)
    then have "card (set ?order) = card {..<length gs}" using distinct_card [OF sd(2)] by simp
    then have "set ?order = {..<length gs}" using sd(5) card_subset_eq [of "{..<length gs}" "set ?order"] by simp
    moreover have "search_loop nth_element conf depth node s = Some s" using True by (subst search_loop.simps) simp
    ultimately show ?thesis using less.prems(2) unfolding routes_all_def by blast
  next
    case False
    obtain x where x: "best_child nth_element conf depth node = Some x" "tree_ok n gs d0 p0 ?order x" "tn_gate_ids x \<noteq> []"
      using best_child_ok [OF f nth k depth less.prems(1) False] by blast
    obtain s' where s': "run_gates (tn_gate_ids x) s = Some s'" "scheduled n gs d0 p0 s' (?order @ tn_gate_ids x)"
      using run_gates_scheduled [OF f less.prems(2) tree_okD(1) [OF x(2)]] by blast
    have "length gs - length (?order @ tn_gate_ids x) < length gs - length ?order"
      using shadow_available(3) [OF tree_okD(2) [OF x(2)]] x(3) by (cases "tn_gate_ids x") simp_all
    from less.hyps [OF this x(2) s'(2)] show ?thesis using False x(1) s'(1) by (subst search_loop.simps) simp
  qed
qed

lemma search_assign_complete:
  assumes nth: "partitions nth_element" and k: "0 < tc_candidates conf" and depth: "0 < cast_depth lookahead" and s: "starts n gs d0 p0 s"
  shows "routes_all n gs d0 p0 (search_assign nth_element conf lookahead s)"
proof -
  have f: "circuit_fits n gs d0" and sc: "scheduled n gs d0 p0 s []" using s by (auto simp: starts_def)
  let ?conf = "conf\<lparr>tc_never_cache := tc_never_cache conf \<or> lookahead = 1\<rparr>"
  have "with_operations (sc_operations (snd s)) s = s" by (cases s) (simp add: with_operations_def)
  then have "shadow n gs d0 p0 s []" using sc unfolding shadow_def by metis
  from tree_node_new_ok [OF f this, of "[]" ?conf 0] obtain node where
    node: "tree_node_new ?conf [] s 0 = Some node" "tree_ok n gs d0 p0 [] node" "tn_gate_ids node = []" by auto
  have "routes_all n gs d0 p0 (search_loop nth_element ?conf (cast_depth lookahead) node s)"
    by (rule search_loop_complete [OF f nth _ depth node(2)]) (use k sc node(3) in auto)
  then show ?thesis using node(1) by (simp add: search_assign_def Let_def)
qed

end
