(* ===== verification/MappingSemantics.thy ===== *)
theory MappingSemantics
  imports ScheduleCorrect
begin

text \<open>
  What routing means for the state of the qubits. Operations without a common qubit commute; renaming the qubits of
  an operation renames the qubits of the state it works on; a SWAP moves the states of two qubits. So routed
  operations, seen through the placements, are the logical gates they stand for.
\<close>

section \<open>Operations that see their own qubits only\<close>

definition merge :: "nat set \<Rightarrow> (nat \<Rightarrow> bool) \<Rightarrow> (nat \<Rightarrow> bool) \<Rightarrow> nat \<Rightarrow> bool" where
  "merge Q x b = (\<lambda>i. if i \<in> Q then x i else b i)"

definition qubit_slice :: "nat set \<Rightarrow> qvec \<Rightarrow> (nat \<Rightarrow> bool) \<Rightarrow> qvec" where
  "qubit_slice Q v b = (\<lambda>x. v (merge Q x b))"

definition confined :: "nat set \<Rightarrow> (qvec \<Rightarrow> qvec) \<Rightarrow> bool" where
  "confined Q F \<longleftrightarrow> (\<forall>v b c. (\<forall>i \<in> Q. b i = c i) \<longrightarrow> F v b = F (qubit_slice Q v b) c)"

lemma confinedD: "confined Q F \<Longrightarrow> (\<And>i. i \<in> Q \<Longrightarrow> b i = c i) \<Longrightarrow> F v b = F (qubit_slice Q v b) c"
  by (simp add: confined_def)

lemma merge_simps: "merge Q (merge R x b) c = merge (Q \<inter> R) x (merge (Q - R) b c)" "merge Q b b = b"
  by (auto simp: merge_def fun_eq_iff)

lemma merge_upd:
  "q \<in> Q \<Longrightarrow> merge Q (x(q := y)) b = (merge Q x b)(q := y)" "q \<in> Q \<Longrightarrow> merge Q x b q = x q"
  by (auto simp: merge_def fun_eq_iff)

lemma merge_agree: "(\<And>i. i \<in> Q \<Longrightarrow> b i = c i) \<Longrightarrow> merge Q c b = b"
  by (auto simp: merge_def fun_eq_iff)

lemma confined_id: "confined Q (\<lambda>v. v)"
  by (simp add: confined_def qubit_slice_def merge_agree)

lemma confined_vscale: "confined Q (vscale c)"
  by (simp add: confined_def qubit_slice_def vscale_def merge_agree)

lemma confined_comp:
  assumes F: "confined Q F" and G: "confined Q G"
  shows "confined Q (\<lambda>v. F (G v))"
  unfolding confined_def
proof (intro allI impI)
  fix v :: qvec and b c :: "nat \<Rightarrow> bool" assume e: "\<forall>i \<in> Q. b i = c i"
  have "qubit_slice Q (G v) b x = G (qubit_slice Q v b) x" for x
  proof -
    have "G v (merge Q x b) = G (qubit_slice Q v (merge Q x b)) x" by (rule confinedD [OF G]) (simp add: merge_def)
    also have "qubit_slice Q v (merge Q x b) = qubit_slice Q v b" by (auto simp: qubit_slice_def merge_def fun_eq_iff intro!: arg_cong [of _ _ v])
    finally show ?thesis by (simp add: qubit_slice_def)
  qed
  then have "qubit_slice Q (G v) b = G (qubit_slice Q v b)" ..
  then show "F (G v) b = F (G (qubit_slice Q v b)) c" using confinedD [OF F, of b c "G v"] e by simp
qed

lemma confined_mono: "confined Q F \<Longrightarrow> Q \<subseteq> R \<Longrightarrow> confined R F"
  unfolding confined_def
proof (intro allI impI)
  fix v :: qvec and b c :: "nat \<Rightarrow> bool"
  assume F: "\<forall>v b c. (\<forall>i\<in>Q. b i = c i) \<longrightarrow> F v b = F (qubit_slice Q v b) c" and QR: "Q \<subseteq> R" and e: "\<forall>i \<in> R. b i = c i"
  have "merge R (merge Q x c) b = merge Q x b" for x using QR e by (auto simp: merge_def fun_eq_iff)
  then have "qubit_slice Q (qubit_slice R v b) c = qubit_slice Q v b" by (simp add: qubit_slice_def)
  moreover have "F v b = F (qubit_slice Q v b) c" "F (qubit_slice R v b) c = F (qubit_slice Q (qubit_slice R v b) c) c" using F QR e by (blast, blast)
  ultimately show "F v b = F (qubit_slice R v b) c" by simp
qed

lemma confinedI:
  "(\<And>v b c. merge Q c b = b \<Longrightarrow> (\<And>i. i \<in> Q \<Longrightarrow> b i = c i) \<Longrightarrow> F v b = F (qubit_slice Q v b) c) \<Longrightarrow> confined Q F"
  unfolding confined_def using merge_agree by blast

lemma confined_gates:
  "confined {q} (q_h q)" "confined {q} (q_pz w q)" "confined {q} (q_px w q)" "confined {q} (q_py w q)"
  "confined {p, q} (q_swap p q)" "confined {p, q} (q_ecr p q)"
  by (rule confinedI; simp add: qubit_slice_def q_h_def q_pz_def q_px_def q_py_def q_swap_def q_ecr_def merge_upd)+

lemma confined_controlled: "confined Q F \<Longrightarrow> confined (set cs \<union> Q) (controlled cs F)"
proof -
  assume "confined Q F"
  then have F: "confined (set cs \<union> Q) F" by (rule confined_mono) simp
  show ?thesis
    unfolding confined_def
  proof (intro allI impI)
    fix v :: qvec and b c :: "nat \<Rightarrow> bool" assume e: "\<forall>i \<in> set cs \<union> Q. b i = c i"
    have "F v b = F (qubit_slice (set cs \<union> Q) v b) c" using confinedD [OF F] e by blast
    moreover have "v b = qubit_slice (set cs \<union> Q) v b c" using merge_agree [of "set cs \<union> Q" b c] e by (simp add: qubit_slice_def)
    ultimately show "controlled cs F v b = controlled cs F (qubit_slice (set cs \<union> Q) v b) c" using e by (simp add: controlled_def)
  qed
qed

lemma confined_fold: "(\<And>F. F \<in> set Fs \<Longrightarrow> confined Q F) \<Longrightarrow> confined Q (fold (\<lambda>F. F) Fs)"
proof (induction Fs rule: rev_induct)
  case Nil
  then show ?case using confined_id by (simp add: id_def)
next
  case (snoc F Fs)
  then show ?case by (simp add: comp_def confined_comp)
qed

definition op_fits :: "gate \<Rightarrow> bool" where
  "op_fits g \<longleftrightarrow> op_wf (fst g) \<and> length (snd g) = op_num_qubits (fst g)"

lemma op_sem_confined: "op_wf op \<Longrightarrow> length qs = op_num_qubits op \<Longrightarrow> confined (set qs) (op_sem op qs)"
proof (induction op arbitrary: qs)
  case (ControlGate op k)
  then have "confined (set (drop k qs)) (op_sem op (drop k qs))" by simp
  moreover have "set (take k qs) \<union> set (drop k qs) = set qs" by (metis append_take_drop_id set_append)
  ultimately show ?case using confined_controlled by (metis op_sem.simps(11))
next
  case (QCirOp f n gs)
  let ?Fs = "map (\<lambda>g. op_sem (fst g) (map (\<lambda>i. qs ! i) (snd g))) gs"
  have "confined (set qs) F" if "F \<in> set ?Fs" for F
  proof -
    obtain g where g: "g \<in> set gs" "F = op_sem (fst g) (map (\<lambda>i. qs ! i) (snd g))" using \<open>F \<in> set ?Fs\<close> by auto
    have ok: "gate_ok n g" using QCirOp.prems(1) g(1) by (simp add: op_wf_circuit gates_ok_def list_all_iff del: op_wf.simps(12))
    then have "confined (set (map (\<lambda>i. qs ! i) (snd g))) F"
      unfolding g(2) using g(1) by (intro QCirOp.IH [of g]) (auto simp: gate_ok_def on_qubits_def intro: fsts.intros)
    moreover have "set (map (\<lambda>i. qs ! i) (snd g)) \<subseteq> set qs" using ok QCirOp.prems(2) by (auto simp: gate_ok_def on_qubits_def)
    ultimately show ?thesis using confined_mono by blast
  qed
  then have "confined (set qs) (fold (\<lambda>F. F) ?Fs)" by (rule confined_fold)
  moreover have "op_sem (QCirOp f n gs) qs = fold (\<lambda>F. F) ?Fs" by (simp add: fun_eq_iff fold_map comp_def)
  ultimately show ?case by (simp only:)
qed (auto simp: length_Suc_conv numeral_2_eq_2 confined_id confined_gates intro!: confined_comp [OF confined_vscale])

section \<open>Operations on other qubits commute\<close>

lemma confined_subst:
  assumes G: "confined R G" and h: "\<And>b i. i \<in> R \<Longrightarrow> h b i = b i" "\<And>x b. h (merge R x b) = merge R x (h b)"
  shows "G (\<lambda>b. v (h b)) b = G v (h b)"
proof -
  have "G (\<lambda>b. v (h b)) b = G (qubit_slice R (\<lambda>b. v (h b)) b) b" by (rule confinedD [OF G]) simp
  also have "qubit_slice R (\<lambda>b. v (h b)) b = qubit_slice R v (h b)" by (simp add: qubit_slice_def h(2))
  also have "G (qubit_slice R v (h b)) b = G v (h b)" by (rule confinedD [OF G, symmetric]) (simp add: h(1))
  finally show ?thesis .
qed

lemma confined_scale:
  assumes G: "confined R G" "linear_op G" and d: "\<And>x b. d (merge R x b) = d b"
  shows "G (\<lambda>b. d b * v b) b = d b * G v b"
proof -
  have "G (\<lambda>b. d b * v b) b = G (qubit_slice R (\<lambda>b. d b * v b) b) b" by (rule confinedD [OF G(1)]) simp
  also have "qubit_slice R (\<lambda>b. d b * v b) b = vscale (d b) (qubit_slice R v b)" by (simp add: qubit_slice_def d vscale_def)
  also have "G \<dots> b = d b * G (qubit_slice R v b) b" unfolding linear_opD(2) [OF G(2)] by (simp add: vscale_def)
  also have "G (qubit_slice R v b) b = G v b" by (rule confinedD [OF G(1), symmetric]) simp
  finally show ?thesis .
qed

lemma confined_flip:
  assumes G: "confined R G" and q: "q \<notin> R"
  shows "G (\<lambda>b. v (b(q := \<not> b q))) b = G v (b(q := \<not> b q))"
  by (rule confined_subst [OF G]) (use q in \<open>auto simp: merge_def fun_eq_iff\<close>)

lemma linear_lincomb: "linear_op G \<Longrightarrow> G (\<lambda>b. x b + y b) b = G x b + G y b"
  using fun_cong [OF linear_opD(1) [of G x y], of b] by (simp add: vplus_def)

definition commute :: "(qvec \<Rightarrow> qvec) \<Rightarrow> (qvec \<Rightarrow> qvec) \<Rightarrow> bool" where
  "commute F G \<longleftrightarrow> (\<forall>v. F (G v) = G (F v))"

lemma commute_comp: "commute F G \<Longrightarrow> commute F' G \<Longrightarrow> commute (\<lambda>v. F (F' v)) G"
  by (simp add: commute_def)

lemma commute_vscale: "linear_op G \<Longrightarrow> commute (vscale c) G"
  by (simp add: commute_def linear_opD(2))

lemma commute_fold: "(\<And>F. F \<in> set Fs \<Longrightarrow> commute F G) \<Longrightarrow> commute (fold (\<lambda>F. F) Fs) G"
  by (induction Fs) (auto simp: commute_def)

lemma commute_diagonal:
  "confined R G \<Longrightarrow> linear_op G \<Longrightarrow> (\<And>x b. d (merge R x b) = d b) \<Longrightarrow> commute (\<lambda>v b. d b * v b) G"
  using confined_scale [of R G d] by (simp add: commute_def fun_eq_iff)

lemma commute_subst:
  "confined R G \<Longrightarrow> (\<And>b i. i \<in> R \<Longrightarrow> h b i = b i) \<Longrightarrow> (\<And>x b. h (merge R x b) = merge R x (h b)) \<Longrightarrow>
    commute (\<lambda>v b. v (h b)) G"
  using confined_subst [of R G h] by (simp add: commute_def fun_eq_iff)

lemma commute_plus:
  "linear_op G \<Longrightarrow> commute F G \<Longrightarrow> commute F' G \<Longrightarrow> commute (\<lambda>v b. F v b + F' v b) G"
  by (simp add: commute_def fun_eq_iff linear_lincomb)

lemma merge_other: "q \<notin> R \<Longrightarrow> merge R x b q = b q" "q \<notin> R \<Longrightarrow> merge R x (b(q := y)) = (merge R x b)(q := y)"
  by (auto simp: merge_def fun_eq_iff)

definition moves_outside :: "nat set \<Rightarrow> ((nat \<Rightarrow> bool) \<Rightarrow> nat \<Rightarrow> bool) \<Rightarrow> bool" where
  "moves_outside R h \<longleftrightarrow> (\<forall>b. \<forall>i \<in> R. h b i = b i) \<and> (\<forall>x b. h (merge R x b) = merge R x (h b))"

lemma moves_outsideI:
  "moves_outside R (\<lambda>b. b)" "q \<notin> R \<Longrightarrow> moves_outside R (\<lambda>b. b(q := \<not> b q))"
  "p \<notin> R \<Longrightarrow> q \<notin> R \<Longrightarrow> moves_outside R (\<lambda>b. b(p := \<not> b p, q := \<not> b q))"
  "p \<notin> R \<Longrightarrow> q \<notin> R \<Longrightarrow> moves_outside R (\<lambda>b. b(p := b q, q := b p))"
  by (auto simp: moves_outside_def merge_other)

lemma commute_moves: "confined R G \<Longrightarrow> moves_outside R h \<Longrightarrow> commute (\<lambda>v b. v (h b)) G"
  by (rule commute_subst) (auto simp: moves_outside_def)

lemma commute_two_terms:
  assumes G: "confined R G" "linear_op G" and h: "moves_outside R h" "moves_outside R k"
    and d: "\<And>x b. d (merge R x b) = d b" "\<And>x b. e (merge R x b) = e b"
  shows "commute (\<lambda>v b. d b * v (h b) + e b * v (k b)) G"
proof -
  have "commute (\<lambda>v. (\<lambda>v b. d b * v b) ((\<lambda>v b. v (h b)) v)) G"
    by (rule commute_comp [OF commute_diagonal [OF G d(1)] commute_moves [OF G(1) h(1)]])
  moreover have "commute (\<lambda>v. (\<lambda>v b. e b * v b) ((\<lambda>v b. v (k b)) v)) G"
    by (rule commute_comp [OF commute_diagonal [OF G d(2)] commute_moves [OF G(1) h(2)]])
  ultimately show ?thesis by (intro commute_plus [OF G(2)])
qed

lemma commute_gates:
  assumes G: "confined R G" "linear_op G"
  shows "q \<notin> R \<Longrightarrow> commute (q_h q) G" "q \<notin> R \<Longrightarrow> commute (q_pz w q) G" "q \<notin> R \<Longrightarrow> commute (q_px w q) G"
    "q \<notin> R \<Longrightarrow> commute (q_py w q) G" "p \<notin> R \<Longrightarrow> q \<notin> R \<Longrightarrow> commute (q_swap p q) G" "p \<notin> R \<Longrightarrow> q \<notin> R \<Longrightarrow> commute (q_ecr p q) G"
proof -
  note two = commute_two_terms [OF G]
  show "commute (q_h q) G" if q: "q \<notin> R"
  proof -
    let ?r = "1 / complex_of_real (sqrt 2)"
    have "q_h q = (\<lambda>v b. (if b q then - ?r else ?r) * v b + ?r * v (b(q := \<not> b q)))"
      by (auto simp: q_h_def fun_eq_iff field_simps fun_upd_idem)
    moreover have "commute (\<lambda>v b. (if b q then - ?r else ?r) * v b + ?r * v (b(q := \<not> b q))) G"
      by (rule two) (use q in \<open>auto simp: merge_other intro: moves_outsideI\<close>)
    ultimately show ?thesis by simp
  qed
  show "commute (q_pz w q) G" if q: "q \<notin> R"
    unfolding q_pz_def by (rule commute_diagonal [OF G]) (use q in \<open>simp add: merge_other\<close>)
  show "commute (q_px w q) G" if q: "q \<notin> R"
    unfolding q_px_def by (rule two) (use q in \<open>auto simp: merge_other intro: moves_outsideI\<close>)
  show "commute (q_py w q) G" if q: "q \<notin> R"
    unfolding q_py_def mult.assoc [symmetric] by (rule two) (use q in \<open>auto simp: merge_other intro: moves_outsideI\<close>)
  show "commute (q_swap p q) G" if "p \<notin> R" "q \<notin> R"
    unfolding q_swap_def by (rule commute_moves [OF G(1)]) (use that in \<open>auto intro: moves_outsideI\<close>)
  show "commute (q_ecr p q) G" if p: "p \<notin> R" and q: "q \<notin> R"
  proof -
    let ?r = "1 / complex_of_real (sqrt 2)"
    have "q_ecr p q = (\<lambda>v b. ?r * v (b(p := \<not> b p)) + (if b p then - \<i> * ?r else \<i> * ?r) * v (b(p := \<not> b p, q := \<not> b q)))"
      by (auto simp: q_ecr_def fun_eq_iff field_simps)
    moreover have "commute (\<lambda>v b. ?r * v (b(p := \<not> b p)) + (if b p then - \<i> * ?r else \<i> * ?r) * v (b(p := \<not> b p, q := \<not> b q))) G"
      by (rule two) (use p q in \<open>auto simp: merge_other intro: moves_outsideI\<close>)
    ultimately show ?thesis by simp
  qed
qed

lemma commute_controlled:
  assumes G: "confined R G" "linear_op G" and cs: "set cs \<inter> R = {}" and F: "commute F G"
  shows "commute (controlled cs F) G"
proof -
  let ?d = "\<lambda>b. if \<forall>c \<in> set cs. b c then 1 else 0 :: complex"
  have d: "?d (merge R x b) = ?d b" for x b
  proof -
    have "merge R x b c = b c" if "c \<in> set cs" for c using that cs by (auto simp: merge_def)
    then show ?thesis by simp
  qed
  have "commute (\<lambda>v. (\<lambda>v b. ?d b * v b) (F v)) G" by (rule commute_comp [OF commute_diagonal [OF G d] F])
  moreover have "commute (\<lambda>v b. (1 - ?d b) * v b) G" by (rule commute_diagonal [OF G]) (simp only: d)
  ultimately have "commute (\<lambda>v b. ?d b * F v b + (1 - ?d b) * v b) G" by (intro commute_plus [OF G(2)])
  moreover have "controlled cs F = (\<lambda>v b. ?d b * F v b + (1 - ?d b) * v b)" by (auto simp: controlled_def fun_eq_iff)
  ultimately show ?thesis by simp
qed

lemma op_sem_commute:
  assumes G: "confined R G" "linear_op G"
  shows "op_wf op \<Longrightarrow> length qs = op_num_qubits op \<Longrightarrow> set qs \<inter> R = {} \<Longrightarrow> commute (op_sem op qs) G"
proof (induction op arbitrary: qs)
  case (ControlGate op k)
  have "set (drop k qs) \<inter> R = {}" "set (take k qs) \<inter> R = {}" using ControlGate.prems(3) set_take_subset [of k qs] set_drop_subset [of k qs] by blast+
  then show ?case using ControlGate commute_controlled [OF G] by simp
next
  case (QCirOp f n gs)
  let ?Fs = "map (\<lambda>g. op_sem (fst g) (map (\<lambda>i. qs ! i) (snd g))) gs"
  have "commute F G" if "F \<in> set ?Fs" for F
  proof -
    obtain g where g: "g \<in> set gs" "F = op_sem (fst g) (map (\<lambda>i. qs ! i) (snd g))" using \<open>F \<in> set ?Fs\<close> by auto
    have ok: "gate_ok n g" using QCirOp.prems(1) g(1) by (simp add: op_wf_circuit gates_ok_def list_all_iff del: op_wf.simps(12))
    then have "set (map (\<lambda>i. qs ! i) (snd g)) \<subseteq> set qs" using QCirOp.prems(2) by (auto simp: gate_ok_def on_qubits_def)
    then show ?thesis
      unfolding g(2) using g(1) ok QCirOp.prems(3)
      by (intro QCirOp.IH [of g]) (auto simp: gate_ok_def on_qubits_def intro: fsts.intros)
  qed
  then have "commute (fold (\<lambda>F. F) ?Fs) G" by (rule commute_fold)
  moreover have "op_sem (QCirOp f n gs) qs = fold (\<lambda>F. F) ?Fs" by (simp add: fun_eq_iff fold_map comp_def)
  ultimately show ?case by (simp only:)
qed (auto simp: length_Suc_conv numeral_2_eq_2 intro!: commute_gates [OF G] commute_comp [OF commute_vscale [OF G(2)]],
  simp add: commute_def)

interpretation gate_action: wired_action "\<lambda>g. set (snd g)" op_fits "\<lambda>g. op_sem (fst g) (snd g)"
proof
  fix x y :: gate and s
  assume x: "op_fits x" and y: "op_fits y" and d: "set (snd x) \<inter> set (snd y) = {}"
  have "commute (op_sem (fst y) (snd y)) (op_sem (fst x) (snd x))"
    by (rule op_sem_commute [of "set (snd x)"])
      (use x y d op_sem_confined op_sem_local in \<open>auto simp: op_fits_def\<close>)
  then show "op_sem (fst y) (snd y) (op_sem (fst x) (snd x) s) = op_sem (fst x) (snd x) (op_sem (fst y) (snd y) s)"
    by (simp add: commute_def)
qed

lemma gates_sem_reorder: "reorder (\<lambda>g. set (snd g)) gs hs \<Longrightarrow> \<forall>g \<in> set gs. op_fits g \<Longrightarrow> gates_sem hs v = gates_sem gs v"
  unfolding gates_sem_def by (rule gate_action.fold_reorder)

text \<open>
  The state of the logical qubits read off the physical qubits through a placement: routed operations, SWAPs included,
  act on it as the logical gates they stand for.
\<close>

section \<open>Renamed qubits\<close>

definition renames :: "(nat \<Rightarrow> nat) \<Rightarrow> (qvec \<Rightarrow> qvec) \<Rightarrow> (qvec \<Rightarrow> qvec) \<Rightarrow> bool" where
  "renames s F' F \<longleftrightarrow> (\<forall>v. F' (\<lambda>b. v (b \<circ> s)) = (\<lambda>b. F v (b \<circ> s)))"

lemma renamesI: "(\<And>v b. F' (\<lambda>b. v (b \<circ> s)) b = F v (b \<circ> s)) \<Longrightarrow> renames s F' F"
  by (simp add: renames_def fun_eq_iff)

lemma renames_comp: "renames s F' F \<Longrightarrow> renames s G' G \<Longrightarrow> renames s (\<lambda>v. F' (G' v)) (\<lambda>v. F (G v))"
  by (simp add: renames_def)

lemma renames_id: "renames s (\<lambda>v. v) (\<lambda>v. v)"
  by (simp add: renames_def)

lemma renames_vscale: "renames s (vscale c) (vscale c)"
  by (simp add: renames_def vscale_def)

lemma upd_rename: "inj s \<Longrightarrow> (b(s q := x)) \<circ> s = (b \<circ> s)(q := x)"
  by (auto simp: fun_eq_iff inj_eq)

lemma renames_gates:
  assumes "inj s"
  shows "renames s (q_h (s q)) (q_h q)" "renames s (q_pz w (s q)) (q_pz w q)" "renames s (q_px w (s q)) (q_px w q)"
    "renames s (q_py w (s q)) (q_py w q)" "renames s (q_swap (s p) (s q)) (q_swap p q)" "renames s (q_ecr (s p) (s q)) (q_ecr p q)"
  by (rule renamesI; simp add: q_h_def q_pz_def q_px_def q_py_def q_swap_def q_ecr_def upd_rename [OF assms])+

lemma renames_controlled: "renames s F' F \<Longrightarrow> renames s (controlled (map s cs) F') (controlled cs F)"
  by (auto simp: renames_def controlled_def fun_eq_iff)

lemma renames_fold:
  "(\<And>x. x \<in> set xs \<Longrightarrow> renames s (F' x) (F x)) \<Longrightarrow> renames s (fold F' xs) (fold F xs)"
  by (induction xs rule: rev_induct) (auto simp: renames_def)

lemma op_sem_renames:
  assumes s: "inj s"
  shows "op_wf op \<Longrightarrow> length qs = op_num_qubits op \<Longrightarrow> renames s (op_sem op (map s qs)) (op_sem op qs)"
proof (induction op arbitrary: qs)
  case (ControlGate op k)
  then show ?case using renames_controlled [of s "op_sem op (map s (drop k qs))"] by (simp add: take_map drop_map)
next
  case (QCirOp f n gs)
  have "renames s (op_sem (fst g) (map (\<lambda>i. map s qs ! i) (snd g))) (op_sem (fst g) (map (\<lambda>i. qs ! i) (snd g)))" if g: "g \<in> set gs" for g
  proof -
    have ok: "gate_ok n g" using QCirOp.prems(1) g by (simp add: op_wf_circuit gates_ok_def list_all_iff del: op_wf.simps(12))
    have m: "map (\<lambda>i. map s qs ! i) (snd g) = map s (map (\<lambda>i. qs ! i) (snd g))"
      unfolding map_map by (rule map_cong [OF refl]) (use ok QCirOp.prems(2) in \<open>auto simp: gate_ok_def on_qubits_def\<close>)
    show ?thesis unfolding m using QCirOp.IH [of g "fst g" "map (\<lambda>i. qs ! i) (snd g)"] g ok
      by (simp add: gate_ok_def on_qubits_def fsts.intros)
  qed
  then have "renames s (fold (\<lambda>g. op_sem (fst g) (map (\<lambda>i. map s qs ! i) (snd g))) gs) (fold (\<lambda>g. op_sem (fst g) (map (\<lambda>i. qs ! i) (snd g))) gs)"
    by (rule renames_fold)
  then show ?case by (simp add: fold_map comp_def)
qed (auto simp: length_Suc_conv numeral_2_eq_2 renames_id intro!: renames_gates [OF s] renames_comp [OF renames_vscale])

section \<open>The logical state\<close>

definition place_fun :: "nat list \<Rightarrow> nat \<Rightarrow> nat" where
  "place_fun p i = (if i < length p then p ! i else i)"

definition logical_state :: "nat list \<Rightarrow> qvec \<Rightarrow> qvec" where
  "logical_state p v = (\<lambda>b. v (b \<circ> place_fun p))"

lemma place_fun_inj: "placement n p \<Longrightarrow> inj (place_fun p)"
proof (rule injI)
  fix i j assume p: "placement n p" and e: "place_fun p i = place_fun p j"
  have "p ! i < length p" if "i < length p" for i using that p nth_mem [OF that] by (auto simp: placement_def)
  then show "i = j" using p e nth_eq_iff_index_eq [of p i j] by (fastforce simp: place_fun_def placement_def split: if_splits)
qed

lemma logical_state_gate:
  assumes p: "placement n p" and g: "op_fits g" "set (snd g) \<subseteq> {..<n}"
  shows "op_sem (fst g) (map (\<lambda>q. p ! q) (snd g)) (logical_state p v) = logical_state p (op_sem (fst g) (snd g) v)"
proof -
  have m: "map (\<lambda>q. p ! q) (snd g) = map (place_fun p) (snd g)"
    by (rule map_cong [OF refl]) (use g(2) p in \<open>auto simp: place_fun_def placement_def\<close>)
  have "renames (place_fun p) (op_sem (fst g) (map (place_fun p) (snd g))) (op_sem (fst g) (snd g))"
    using op_sem_renames [OF place_fun_inj [OF p]] g(1) by (simp add: op_fits_def)
  then show ?thesis unfolding m logical_state_def renames_def by simp
qed

lemma logical_state_swap:
  assumes p: "placement n p" and ab: "a < n" "b < n"
  shows "logical_state (exchange a b p) (q_swap a b v) = logical_state p v"
proof
  fix c :: "nat \<Rightarrow> bool"
  have l: "length p = n" using p by (simp add: placement_def)
  let ?c = "c \<circ> place_fun (exchange a b p)"
  have "?c(a := ?c b, b := ?c a) = c \<circ> place_fun p"
    using ab l by (auto simp: fun_eq_iff place_fun_def nth_exchange)
  then show "logical_state (exchange a b p) (q_swap a b v) c = logical_state p v c"
    by (simp add: logical_state_def q_swap_def)
qed

text \<open>Physical operations list \<open>max_qubit_id\<close> as the second qubit of a gate on one qubit.\<close>

definition physical_gate :: "gate \<Rightarrow> gate" where
  "physical_gate g = (fst g, real_qubits g)"

lemma routed_state:
  assumes n: "n \<le> max_qubit_id"
  shows "placement n p \<Longrightarrow> \<forall>g \<in> set gs. op_shape n g \<and> (is_swap_op g \<longrightarrow> fst g = SwapGate) \<Longrightarrow> \<forall>g \<in> set (unroute gs p). op_fits g \<Longrightarrow>
    logical_state (final_placement gs p) (gates_sem (map physical_gate gs) v) = gates_sem (unroute gs p) (logical_state p v)"
proof (induction gs arbitrary: p v)
  case Nil
  then show ?case by (simp add: final_placement_def)
next
  case (Cons g gs)
  have sh: "op_shape n g" using Cons.prems(2) by simp
  have fin: "final_placement (g # gs) p = final_placement gs (move_qubits g p)" by (simp add: final_placement_def)
  have p': "placement n (move_qubits g p)" by (rule move_placement [OF sh n Cons.prems(1)])
  show ?case
  proof (cases "is_swap_op g")
    case True
    have sw: "fst g = SwapGate" using Cons.prems(2) True by simp
    have q: "real_qubits g = [snd g ! 0, snd g ! 1]" "snd g ! 0 < n" "snd g ! 1 < n"
      using op_shape_wires [OF sh n] True by (auto simp: wires_def)
    have "logical_state (move_qubits g p) (op_sem (fst g) (real_qubits g) v) = logical_state p v"
      using logical_state_swap [OF Cons.prems(1) q(2,3)] True by (simp add: move_qubits_def sw q(1))
    then show ?thesis
      using Cons.IH [OF p', of "op_sem (fst g) (real_qubits g) v"] Cons.prems(2,3) True fin by (simp add: physical_gate_def)
  next
    case False
    have fits: "op_fits (logical_gate p g)" using Cons.prems(3) False by simp
    have "set (real_qubits g) \<subseteq> {..<n}" using op_shape_wires(2) [OF sh n] by (simp add: wires_def)
    moreover have "op_fits (fst g, real_qubits g)" using fits by (simp add: op_fits_def logical_gate_def)
    ultimately have e: "op_sem (fst g) (map (\<lambda>q. p ! q) (real_qubits g)) (logical_state p v) =
        logical_state p (op_sem (fst g) (real_qubits g) v)" using logical_state_gate [OF Cons.prems(1), of "(fst g, real_qubits g)"] by simp
    have "move_qubits g p = p" using False by (simp add: move_qubits_def)
    then show ?thesis
      using Cons.IH [OF Cons.prems(1), of "op_sem (fst g) (real_qubits g) v"] Cons.prems(2,3) False fin
      by (simp add: physical_gate_def logical_gate_def e)
  qed
qed

end
