(* ===== verification/TopologicalOrder.thy ===== *)
theory TopologicalOrder
  imports MappingSemantics
begin

text \<open>
  \<open>QCir::get_gates\<close> (src/src/qcir/qcir_action.cpp) lists the gates of a circuit by a depth-first search along the
  successors, and the passes over a circuit read that list (\<open>calculate_gate_times\<close>, \<open>calculate_depth\<close> and the cones
  of qcir.cpp). For a circuit built by appending gates the list is those gates up to the order of gates that share no
  qubit, so that the list of gates by which the other theories model a circuit stands for the graph.
\<close>

section \<open>The order of the gates\<close>

fun push_successors :: "nat set \<Rightarrow> nat option list \<Rightarrow> (bool \<times> nat) list \<Rightarrow> (bool \<times> nat) list" where
  "push_successors visited [] stack = stack"
| "push_successors visited (None # succs) stack = push_successors visited succs stack"
| "push_successors visited (Some i # succs) stack =
     push_successors visited succs (if i \<in> visited then stack else (False, i) # stack)"

text \<open>The null pointer in place of a gate that is missing would be dereferenced.\<close>

partial_function (option) dfs_gates :: "qcir_graph \<Rightarrow> (bool \<times> nat) list \<Rightarrow> nat set \<Rightarrow> nat list \<Rightarrow> nat list option" where
  "dfs_gates G stack visited topo_order =
     (case stack of [] \<Rightarrow> Some (rev topo_order)
      | (children_visited, i) # stack \<Rightarrow>
          if children_visited then dfs_gates G stack visited (topo_order @ [i])
          else if i \<in> visited then dfs_gates G stack visited topo_order
          else if qg_get_gate G i = None then None
          else let visited = insert i visited in
               dfs_gates G (push_successors visited (qg_successors G i) ((True, i) # stack)) visited topo_order)"

definition qg_order :: "qcir_graph \<Rightarrow> nat list option" where
  "qg_order G = dfs_gates G (push_successors {} (qg_first G) []) {} []"

definition qg_get_gates :: "qcir_graph \<Rightarrow> gate list option" where
  "qg_get_gates G = Option.bind (qg_order G) (\<lambda>order. those (map (qg_get_gate G) order))"

definition gate_time :: "qcir_graph \<Rightarrow> (nat \<rightharpoonup> nat) \<Rightarrow> nat \<Rightarrow> nat option" where
  "gate_time G tm i =
     map_option (\<lambda>ts. fold max ts 0 + 1)
       (those (map (\<lambda>x. case x of None \<Rightarrow> Some 0 | Some j \<Rightarrow> tm j) (qg_predecessors G i)))"

text \<open>\<open>at\<close> throws on a gate that has no time yet.\<close>

fun gate_times :: "qcir_graph \<Rightarrow> nat list \<Rightarrow> (nat \<rightharpoonup> nat) \<Rightarrow> (nat \<rightharpoonup> nat) option" where
  "gate_times G [] tm = Some tm"
| "gate_times G (i # order) tm =
     (case gate_time G tm i of None \<Rightarrow> None | Some t \<Rightarrow> gate_times G order (tm(i \<mapsto> t)))"

definition calculate_gate_times :: "qcir_graph \<Rightarrow> (nat \<rightharpoonup> nat) option" where
  "calculate_gate_times G = Option.bind (qg_order G) (\<lambda>order. gate_times G order Map.empty)"

definition calculate_depth :: "qcir_graph \<Rightarrow> nat option" where
  "calculate_depth G =
     (if qg_first G = [] \<or> qg_num_gates G = 0 then Some 0
      else Option.bind (qg_order G) (\<lambda>order. map_option (\<lambda>tm. fold max (map (\<lambda>i. the (tm i)) order) 0) (gate_times G order Map.empty)))"

section \<open>The invariant of the search\<close>

definition entry_ids :: "(bool \<times> nat) list \<Rightarrow> nat set" where
  "entry_ids stack = snd ` set stack"

definition open_gates :: "(bool \<times> nat) list \<Rightarrow> nat set" where
  "open_gates stack = {i. (True, i) \<in> set stack}"

text \<open>What lies above an open gate on the stack was reached from it, and covers its successors.\<close>

definition stack_ok :: "gate list \<Rightarrow> nat set \<Rightarrow> (bool \<times> nat) list \<Rightarrow> bool" where
  "stack_ok gs post stack \<longleftrightarrow>
     entry_ids stack \<subseteq> {..<length gs} \<and>
     (\<forall>us i vs. stack = us @ (True, i) # vs \<longrightarrow>
        (\<forall>j \<in> entry_ids us. i < j) \<and> (\<forall>q \<in> set (snd (gs ! i)). \<forall>j. next_on gs i q = Some j \<longrightarrow> j \<in> post \<union> entry_ids us))"

fun post_ok :: "gate list \<Rightarrow> nat list \<Rightarrow> bool" where
  "post_ok gs [] = True"
| "post_ok gs (i # is) \<longleftrightarrow> (\<forall>q \<in> set (snd (gs ! i)). \<forall>j. next_on gs i q = Some j \<longrightarrow> j \<in> set is) \<and> post_ok gs is"

definition dfs_ok :: "gate list \<Rightarrow> (bool \<times> nat) list \<Rightarrow> nat set \<Rightarrow> nat list \<Rightarrow> bool" where
  "dfs_ok gs stack visited topo_order \<longleftrightarrow>
     stack_ok gs (set topo_order) stack \<and> post_ok gs (rev topo_order) \<and> distinct topo_order \<and> visited \<subseteq> {..<length gs} \<and>
     visited = set topo_order \<union> open_gates stack \<and> set topo_order \<inter> open_gates stack = {} \<and>
     (\<forall>i < length gs. \<forall>q \<in> set (snd (gs ! i)). prev_on gs i q = None \<longrightarrow> i \<in> visited \<union> entry_ids stack)"

lemma entry_simps [simp]:
  "entry_ids [] = {}" "entry_ids (x # xs) = insert (snd x) (entry_ids xs)" "entry_ids (xs @ ys) = entry_ids xs \<union> entry_ids ys"
  "open_gates [] = {}" "open_gates ((b, i) # xs) = (if b then insert i (open_gates xs) else open_gates xs)"
  "open_gates (xs @ ys) = open_gates xs \<union> open_gates ys"
  by (auto simp: entry_ids_def open_gates_def)

lemma push_successors_eq:
  "push_successors visited succs stack = map (Pair False) (rev (filter (\<lambda>i. i \<notin> visited) (map the (filter (\<lambda>x. x \<noteq> None) succs)))) @ stack"
  by (induction visited succs stack rule: push_successors.induct) auto

lemma pushed_entries [simp]: "entry_ids (map (Pair False) is) = set is" "open_gates (map (Pair False) is) = {}"
  by (auto simp: entry_ids_def open_gates_def image_iff)

lemma stack_okD:
  assumes "stack_ok gs post (us @ (True, i) # vs)"
  shows "j \<in> entry_ids us \<Longrightarrow> i < j" "q \<in> set (snd (gs ! i)) \<Longrightarrow> next_on gs i q = Some j \<Longrightarrow> j \<in> post \<union> entry_ids us"
  using assms unfolding stack_ok_def by blast+

lemma open_below: "stack_ok gs post (us @ (b, i) # vs) \<Longrightarrow> j \<in> open_gates vs \<Longrightarrow> j < i"
proof -
  assume s: "stack_ok gs post (us @ (b, i) # vs)" and "j \<in> open_gates vs"
  then obtain ws xs where "vs = ws @ (True, j) # xs" by (auto simp: open_gates_def in_set_conv_decomp)
  then show "j < i" using stack_okD(1) [of gs post "us @ (b, i) # ws" j xs i] s by simp
qed

lemma dfs_close:
  assumes d: "dfs_ok gs ((True, i) # stack) visited post"
  shows "dfs_ok gs stack visited (post @ [i])"
proof -
  have s: "stack_ok gs (set post) ((True, i) # stack)" using d by (simp add: dfs_ok_def)
  have "i \<notin> open_gates stack" using open_below [of gs "set post" "[]" True i stack i] s by auto
  moreover have "stack_ok gs (set (post @ [i])) stack"
    unfolding stack_ok_def
  proof (intro conjI allI impI)
    show "entry_ids stack \<subseteq> {..<length gs}" using s by (simp add: stack_ok_def)
    fix us k vs assume e: "stack = us @ (True, k) # vs"
    have "stack_ok gs (set post) (((True, i) # us) @ (True, k) # vs)" using s e by simp
    note sk = stack_okD [OF this]
    show "\<forall>j \<in> entry_ids us. k < j" using sk(1) by auto
    show "\<forall>q \<in> set (snd (gs ! k)). \<forall>j. next_on gs k q = Some j \<longrightarrow> j \<in> set (post @ [i]) \<union> entry_ids us" using sk(2) by fastforce
  qed
  moreover have "\<forall>q \<in> set (snd (gs ! i)). \<forall>j. next_on gs i q = Some j \<longrightarrow> j \<in> set post"
    using stack_okD(2) [of gs "set post" "[]" i stack] s by auto
  ultimately show ?thesis using d unfolding dfs_ok_def by auto
qed

lemma dfs_skip:
  assumes d: "dfs_ok gs ((False, i) # stack) visited post" and i: "i \<in> visited"
  shows "dfs_ok gs stack visited post"
proof -
  have s: "stack_ok gs (set post) ((False, i) # stack)" using d by (simp add: dfs_ok_def)
  have "stack_ok gs (set post) stack"
    unfolding stack_ok_def
  proof (intro conjI allI impI)
    show "entry_ids stack \<subseteq> {..<length gs}" using s by (simp add: stack_ok_def)
    fix us k vs assume e: "stack = us @ (True, k) # vs"
    have sk': "stack_ok gs (set post) (((False, i) # us) @ (True, k) # vs)" using s e by simp
    note sk = stack_okD [OF sk']
    show "\<forall>j \<in> entry_ids us. k < j" using sk(1) by auto
    show "\<forall>q \<in> set (snd (gs ! k)). \<forall>j. next_on gs k q = Some j \<longrightarrow> j \<in> set post \<union> entry_ids us"
    proof (intro ballI allI impI)
      fix q j assume q: "q \<in> set (snd (gs ! k))" "next_on gs k q = Some j"
      then have kj: "k < j" by (simp add: next_on_Some_iff)
      have "i \<notin> open_gates ((True, k) # vs)" if "j = i"
        using kj that open_below [OF sk', of i] by auto
      moreover have "i \<in> set post \<union> open_gates stack" using d i by (simp add: dfs_ok_def)
      moreover have "open_gates us \<subseteq> entry_ids us" by (force simp: open_gates_def entry_ids_def)
      ultimately show "j \<in> set post \<union> entry_ids us" using sk(2) [OF q] e by auto
    qed
  qed
  then show ?thesis using d i unfolding dfs_ok_def by auto
qed

lemma dfs_open:
  assumes d: "dfs_ok gs ((False, i) # stack) visited post" and i: "i \<notin> visited" and g: "graph_links n gs G"
  shows "dfs_ok gs (push_successors (insert i visited) (qg_successors G i) ((True, i) # stack)) (insert i visited) post" "i < length gs"
proof -
  have s: "stack_ok gs (set post) ((False, i) # stack)" using d by (simp add: dfs_ok_def)
  show il: "i < length gs" using s by (simp add: stack_ok_def)
  define js where "js = rev (filter (\<lambda>j. j \<notin> insert i visited) (map the (filter (\<lambda>x. x \<noteq> None) (qg_successors G i))))"
  have js: "j \<in> set js \<longleftrightarrow> j \<notin> insert i visited \<and> (\<exists>q \<in> set (snd (gs ! i)). next_on gs i q = Some j)" for j
    unfolding js_def graph_linksD(3) [OF g il] by (force simp: image_iff)
  have later: "i < j \<and> j < length gs" if "next_on gs i q = Some j" for q j using that by (simp add: next_on_Some_iff)
  let ?stack = "map (Pair False) js @ (True, i) # stack"
  have "stack_ok gs (set post) ?stack"
    unfolding stack_ok_def
  proof (intro conjI allI impI)
    show "entry_ids ?stack \<subseteq> {..<length gs}" using s js later il by (auto simp: stack_ok_def)
    fix us k vs assume e: "?stack = us @ (True, k) # vs"
    have "(us = map (Pair False) js \<and> k = i) \<or> (\<exists>ws. us = map (Pair False) js @ (True, i) # ws \<and> stack = ws @ (True, k) # vs)"
      using e by (auto simp: append_eq_append_conv2 append_eq_Cons_conv Cons_eq_append_conv map_eq_append_conv)
    then consider "us = map (Pair False) js" "k = i" | ws where "us = map (Pair False) js @ (True, i) # ws" "stack = ws @ (True, k) # vs" by blast
    then have "(\<forall>j \<in> entry_ids us. k < j) \<and>
        (\<forall>q \<in> set (snd (gs ! k)). \<forall>j. next_on gs k q = Some j \<longrightarrow> j \<in> set post \<union> entry_ids us)"
    proof cases
      case 1
      have "j \<in> set post \<union> set js" if j: "q \<in> set (snd (gs ! i))" "next_on gs i q = Some j" for q j
      proof (rule ccontr)
        assume "j \<notin> set post \<union> set js"
        then have "j \<in> open_gates stack" using j js later [OF j(2)] d by (auto simp: dfs_ok_def)
        then show False using open_below [of gs "set post" "[]" False i stack j] s later [OF j(2)] by simp
      qed
      then show ?thesis using 1 js later by auto
    next
      case 2
      then have "stack_ok gs (set post) (((False, i) # ws) @ (True, k) # vs)" using s by simp
      note sk = stack_okD [OF this]
      have "k < i" using sk(1) by simp
      then have "k < j" if "j \<in> set js" for j using that js later by (meson less_trans)
      then show ?thesis using sk 2(1) \<open>k < i\<close> by fastforce
    qed
    then show "\<forall>j \<in> entry_ids us. k < j"
      "\<forall>q \<in> set (snd (gs ! k)). \<forall>j. next_on gs k q = Some j \<longrightarrow> j \<in> set post \<union> entry_ids us" by blast+
  qed
  moreover have "push_successors (insert i visited) (qg_successors G i) ((True, i) # stack) = ?stack"
    by (simp add: push_successors_eq js_def)
  ultimately show "dfs_ok gs (push_successors (insert i visited) (qg_successors G i) ((True, i) # stack)) (insert i visited) post"
    using d i il unfolding dfs_ok_def by auto
qed

section \<open>The first gates\<close>

lemma connect_ends [simp]: "qg_first (qg_connect i j q G) = qg_first G" "qg_last (qg_connect i j q G) = qg_last G"
  by (auto simp: qg_connect_def qg_set_predecessor_def qg_set_successor_def split: option.splits)

lemma link_last_ends:
  assumes "q < n" "length (qg_first G) = n" "length (qg_last G) = n"
  shows "length (qg_first (fold (link_last i) qs G)) = n \<and> length (qg_last (fold (link_last i) qs G)) = n \<and>
    qg_first (fold (link_last i) qs G) ! q = (if q \<in> set qs \<and> qg_last G ! q = None then Some i else qg_first G ! q)"
  using assms
proof (induction qs arbitrary: G)
  case (Cons r qs)
  let ?G = "link_last i r G"
  have l: "length (qg_first ?G) = n" "length (qg_last ?G) = n" using Cons.prems by (auto simp: link_last_def split: option.splits)
  have "qg_first ?G ! q = (if q = r \<and> qg_last G ! q = None then Some i else qg_first G ! q)" "qg_last ?G ! q = (if q = r then Some i else qg_last G ! q)"
    using Cons.prems by (auto simp: link_last_def nth_list_update split: option.splits)
  then show ?case using Cons.IH [OF Cons.prems(1) l] by auto
qed simp

lemma first_gates:
  assumes "q < n"
  shows "gates_ok n gs \<Longrightarrow> qg_first (qg_of_gates n gs) ! q = find (meets gs q) [0..<length gs]"
proof (induction gs rule: rev_induct)
  case Nil
  then show ?case using assms by (simp add: qg_of_gates_def qg_new_def)
next
  case (snoc g gs)
  let ?G = "qg_of_gates n gs"
  have gr: "graph_links n gs ?G" using qg_of_gates_links snoc.prems by simp
  then have l: "length (qg_first (qg_push g ?G)) = n" "length (qg_last (qg_push g ?G)) = n" "length (qg_gates ?G) = length gs"
    by (auto simp: graph_links_def qg_push_def)
  have "qg_last (qg_push g ?G) ! q = prev_on gs (length gs) q" using gr assms by (simp add: graph_links_def qg_push_def)
  moreover have "prev_on gs (length gs) q = None \<longleftrightarrow> find (meets gs q) [0..<length gs] = None"
    by (simp add: prev_on_def find_None_iff)
  moreover have "find (meets (gs @ [g]) q) [0..<length gs] = find (meets gs q) [0..<length gs]"
    by (rule find_cong') (simp add: meets_def nth_append)
  moreover have "qg_first (qg_push g ?G) = qg_first ?G" by (simp add: qg_push_def)
  moreover have "qg_first ?G ! q = find (meets gs q) [0..<length gs]" using snoc by simp
  moreover have "find (meets (gs @ [g]) q) [0..<length (gs @ [g])] =
      (case find (meets gs q) [0..<length gs] of Some i \<Rightarrow> Some i | None \<Rightarrow> if q \<in> set (snd g) then Some (length gs) else None)"
    using calculation(3) by (simp add: find_Some_iff' meets_def [of "gs @ [g]" _ "length gs"] split: option.split)
  moreover have "qg_of_gates n (gs @ [g]) = fold (link_last (length gs)) (snd g) (qg_push g ?G)"
    by (simp add: qg_of_gates_def qg_append_def l(3) [unfolded qg_of_gates_def])
  ultimately show ?case
    using link_last_ends [OF assms l(1,2), of "length gs" "snd g"] by (auto split: option.splits)
qed

section \<open>The search ends with an order of all gates\<close>

lemma dfs_gates_ends:
  assumes g: "graph_links n gs G"
  shows "dfs_ok gs stack visited post \<Longrightarrow> \<exists>order. dfs_gates G stack visited post = Some order \<and> dfs_ok gs [] (set order) (rev order) \<and>
    (\<forall>i < length gs. \<forall>q \<in> set (snd (gs ! i)). prev_on gs i q = None \<longrightarrow> i \<in> set order)"
proof (induction "(length gs - card visited, length stack)" arbitrary: stack visited post rule: wf_induct_rule [OF wf_lex_prod [OF wf_less_than wf_less_than]])
  case less: (1 stack visited post)
  show ?case
  proof (cases stack)
    case Nil
    then have "visited = set post" using less.prems by (simp add: dfs_ok_def)
    then show ?thesis using less.prems Nil by (subst dfs_gates.simps) (simp add: dfs_ok_def)
  next
    case (Cons x stack')
    obtain b i where x: "x = (b, i)" by (cases x)
    consider "b" | "\<not> b" "i \<in> visited" | "\<not> b" "i \<notin> visited" by blast
    then show ?thesis
    proof cases
      case 1
      have "dfs_ok gs stack' visited (post @ [i])" using dfs_close less.prems 1 Cons x by simp
      from less.hyps [OF _ this] show ?thesis using 1 Cons x by (subst dfs_gates.simps) simp
    next
      case 2
      have "dfs_ok gs stack' visited post" using dfs_skip less.prems 2 Cons x by simp
      from less.hyps [OF _ this] show ?thesis using 2 Cons x by (subst dfs_gates.simps) simp
    next
      case 3
      have d: "dfs_ok gs ((False, i) # stack') visited post" using less.prems 3 Cons x by simp
      note o = dfs_open [OF d 3(2) g]
      have v: "visited \<subseteq> {..<length gs}" using d unfolding dfs_ok_def by blast
      then have "card visited < length gs" using psubset_card_mono [of "{..<length gs}" visited] o(2) 3(2) by auto
      moreover have "card (insert i visited) = Suc (card visited)" using 3(2) finite_subset [OF v] by simp
      ultimately have "length gs - card (insert i visited) < length gs - card visited" by simp
      then show ?thesis using less.hyps [OF _ o(1)] 3 Cons x graph_linksD(1) [OF g o(2)]
        by (subst dfs_gates.simps) (simp add: Let_def)
    qed
  qed
qed

lemma post_ok_next:
  "post_ok gs xs \<Longrightarrow> i \<in> set xs \<Longrightarrow> q \<in> set (snd (gs ! i)) \<Longrightarrow> next_on gs i q = Some j \<Longrightarrow> j \<in> set xs"
  by (induction xs) auto

lemma post_ok_wire:
  assumes p: "post_ok gs xs" and j: "j \<in> set xs" "meets gs q j"
  shows "j < i \<Longrightarrow> i < length gs \<Longrightarrow> meets gs q i \<Longrightarrow> i \<in> set xs"
proof (induction i rule: less_induct)
  case (less i)
  obtain k where k: "prev_on gs i q = Some k" using prev_on_NoneD less.prems(1) j(2) by (cases "prev_on gs i q") auto
  note kk = prev_on_SomeD [OF k]
  have "j \<le> k" using kk(3) [of j] less.prems(1) j(2) by (meson not_le)
  then have "k \<in> set xs" using less.IH [OF kk(1)] kk(1,2) less.prems(2) j(1) by (cases "j = k") auto
  moreover have "next_on gs k q = Some i" using neighbours_dual [OF less.prems(2), of q k] k less.prems(3) by blast
  ultimately show ?case using post_ok_next [OF p] kk(2) by (auto simp: meets_def)
qed

lemma post_ok_keeps_order: "post_ok gs xs \<Longrightarrow> distinct xs \<Longrightarrow> set xs \<subseteq> {..<length gs} \<Longrightarrow> keeps_order gs xs"
  unfolding keeps_order_def
proof (induction xs)
  case (Cons i xs)
  have "i < j" if j: "j \<in> set xs" and w: "qubit_set (gs ! i) \<inter> qubit_set (gs ! j) \<noteq> {}" for j
  proof (rule ccontr)
    assume "\<not> i < j"
    moreover have "i \<noteq> j" using j Cons.prems(2) by auto
    ultimately have "j < i" by simp
    moreover obtain q where "meets gs q j" "meets gs q i" using w by (auto simp: meets_def)
    ultimately have "i \<in> set xs" using post_ok_wire [of gs xs j q i] Cons.prems j by simp
    then show False using Cons.prems(2) by simp
  qed
  then show ?case using Cons by simp
qed simp

theorem qg_order_spec:
  assumes gs: "gates_ok n gs" and q: "\<forall>g \<in> set gs. snd g \<noteq> []"
  shows "\<exists>order. qg_order (qg_of_gates n gs) = Some order \<and> distinct order \<and> set order = {..<length gs} \<and> keeps_order gs order"
proof -
  let ?G = "qg_of_gates n gs"
  have g: "graph_links n gs ?G" by (rule qg_of_gates_links [OF gs])
  let ?s = "push_successors {} (qg_first ?G) []"
  have len: "length (qg_first ?G) = n" using g by (simp add: graph_links_def)
  have s: "?s = map (Pair False) (rev (map the (filter (\<lambda>x. x \<noteq> None) (qg_first ?G))))" by (simp add: push_successors_eq)
  have ids: "i \<in> entry_ids ?s \<longleftrightarrow> (\<exists>q < n. find (meets gs q) [0..<length gs] = Some i)" for i
  proof -
    have "i \<in> entry_ids ?s \<longleftrightarrow> Some i \<in> set (qg_first ?G)" unfolding s by (force simp: image_iff)
    also have "\<dots> \<longleftrightarrow> (\<exists>q < n. qg_first ?G ! q = Some i)" using len by (auto simp: in_set_conv_nth)
    finally show ?thesis using first_gates [OF _ gs] by auto
  qed
  have "stack_ok gs {} ?s"
    unfolding stack_ok_def
  proof (intro conjI)
    show "entry_ids ?s \<subseteq> {..<length gs}" using ids by (auto simp: find_upt)
    have "(True, i) \<notin> set ?s" for i unfolding s by auto
    then have "?s \<noteq> us @ (True, i) # vs" for us i vs by (metis in_set_conv_decomp)
    then show "\<forall>us i vs. ?s = us @ (True, i) # vs \<longrightarrow> (\<forall>j \<in> entry_ids us. i < j) \<and>
        (\<forall>q \<in> set (snd (gs ! i)). \<forall>j. next_on gs i q = Some j \<longrightarrow> j \<in> {} \<union> entry_ids us)" by blast
  qed
  moreover have "open_gates ?s = {}" unfolding s by simp
  moreover have "i \<in> entry_ids ?s" if i: "i < length gs" "q \<in> set (snd (gs ! i))" "prev_on gs i q = None" for i q
  proof -
    have "q < n" using gs i by (auto simp: gates_ok_def list_all_length gate_ok_def on_qubits_def)
    moreover have "find (meets gs q) [0..<length gs] = Some i"
      using prev_on_NoneD [OF i(3)] i(1,2) by (auto simp: find_upt meets_def)
    ultimately show ?thesis using ids by blast
  qed
  ultimately have "dfs_ok gs ?s {} []" by (simp add: dfs_ok_def)
  from dfs_gates_ends [OF g this] obtain order where o: "qg_order ?G = Some order" "dfs_ok gs [] (set order) (rev order)"
    "\<forall>i < length gs. \<forall>q \<in> set (snd (gs ! i)). prev_on gs i q = None \<longrightarrow> i \<in> set order" by (auto simp: qg_order_def)
  have p: "post_ok gs order" "distinct order" "set order \<subseteq> {..<length gs}" using o(2) by (auto simp: dfs_ok_def)
  have "i \<in> set order" if "i < length gs" for i
    using that
  proof (induction i rule: less_induct)
    case (less i)
    obtain q where qi: "q \<in> set (snd (gs ! i))" using q less.prems by (metis last_in_set nth_mem)
    show ?case
    proof (cases "prev_on gs i q")
      case None
      then show ?thesis using o(3) less.prems qi by blast
    next
      case (Some j)
      note j = prev_on_SomeD [OF Some]
      have "next_on gs j q = Some i" using neighbours_dual [OF less.prems, of q j] Some qi by (simp add: meets_def)
      then show ?thesis using post_ok_next [OF p(1)] less.IH [OF j(1)] j(1,2) less.prems by (auto simp: meets_def)
    qed
  qed
  then have "set order = {..<length gs}" using p(3) by auto
  then show ?thesis using o(1) p post_ok_keeps_order by blast
qed

theorem get_gates_reorder:
  assumes gs: "gates_ok n gs" and q: "\<forall>g \<in> set gs. snd g \<noteq> []"
  shows "\<exists>hs. qg_get_gates (qg_of_gates n gs) = Some hs \<and> reorder qubit_set gs hs \<and> gates_sem hs = gates_sem gs"
proof -
  obtain order where o: "qg_order (qg_of_gates n gs) = Some order" "distinct order" "set order = {..<length gs}" "keeps_order gs order"
    using qg_order_spec [OF gs q] by blast
  have "those (map (qg_get_gate (qg_of_gates n gs)) is) = Some (map ((!) gs) is)" if "set is \<subseteq> {..<length gs}" for "is"
    using that graph_linksD(1) [OF qg_of_gates_links [OF gs]] by (induction "is") auto
  then have "qg_get_gates (qg_of_gates n gs) = Some (map ((!) gs) order)" using o(1,3) by (simp add: qg_get_gates_def)
  moreover have r: "reorder qubit_set gs (map ((!) gs) order)" by (rule keeps_order_reorder [OF o(4,2,3)])
  moreover have "gates_sem (map ((!) gs) order) = gates_sem gs"
    by (rule ext, rule gates_sem_reorder [OF r])
      (use gs in \<open>auto simp: gates_ok_def list_all_iff gate_ok_def on_qubits_def op_fits_def\<close>)
  ultimately show ?thesis by blast
qed

section \<open>Times\<close>

definition time_ok :: "gate list \<Rightarrow> (nat \<rightharpoonup> nat) \<Rightarrow> nat \<Rightarrow> bool" where
  "time_ok gs tm i \<longleftrightarrow>
     (\<exists>t. tm i = Some (Suc t) \<and> (\<forall>q \<in> set (snd (gs ! i)). \<forall>j. prev_on gs i q = Some j \<longrightarrow> (\<exists>u \<le> t. tm j = Some u)) \<and>
        (t = 0 \<or> (\<exists>q \<in> set (snd (gs ! i)). \<exists>j. prev_on gs i q = Some j \<and> tm j = Some t)))"

lemma time_ok_cong:
  assumes "time_ok gs tm i" "tm' i = tm i" "\<And>q j. q \<in> set (snd (gs ! i)) \<Longrightarrow> prev_on gs i q = Some j \<Longrightarrow> tm' j = tm j"
  shows "time_ok gs tm' i"
proof -
  obtain t where t: "tm i = Some (Suc t)" "\<forall>q \<in> set (snd (gs ! i)). \<forall>j. prev_on gs i q = Some j \<longrightarrow> (\<exists>u \<le> t. tm j = Some u)"
    "t = 0 \<or> (\<exists>q \<in> set (snd (gs ! i)). \<exists>j. prev_on gs i q = Some j \<and> tm j = Some t)" using assms(1) unfolding time_ok_def by blast
  have "t = 0 \<or> (\<exists>q \<in> set (snd (gs ! i)). \<exists>j. prev_on gs i q = Some j \<and> tm' j = Some t)" using t(3) assms(3) by metis
  then show ?thesis using t(1,2) assms(2,3) by (intro time_ok_def [THEN iffD2] exI [of _ t]) simp
qed

lemma those_Some: "(\<And>x. x \<in> set xs \<Longrightarrow> f x \<noteq> None) \<Longrightarrow> those (map f xs) = Some (map (\<lambda>x. the (f x)) xs)"
  by (induction xs) (auto split: option.splits)

lemma fold_max_lower: "m \<le> fold max ts (m :: nat)"
proof (induction ts arbitrary: m)
  case (Cons a ts)
  have "m \<le> max a m" by simp
  also have "\<dots> \<le> fold max ts (max a m)" by (rule Cons.IH)
  finally show ?case by simp
qed simp

lemma fold_max_attained: "fold max ts (m :: nat) = m \<or> fold max ts m \<in> set ts"
proof (induction ts arbitrary: m)
  case (Cons a ts)
  have "max a m = a \<or> max a m = m" by (simp add: max_def)
  then show ?case using Cons.IH [of "max a m"] by auto
qed simp

lemma fold_max_upper: "t \<in> set ts \<Longrightarrow> t \<le> fold max ts (m :: nat)"
proof (induction ts arbitrary: m)
  case (Cons u ts)
  then show ?case using fold_max_lower [of "max u m" ts] by auto
qed simp

lemma gate_times_spec:
  assumes g: "graph_links n gs G"
  shows "keeps_order gs (done @ order) \<Longrightarrow> distinct (done @ order) \<Longrightarrow> set (done @ order) = {..<length gs} \<Longrightarrow>
    dom tm = set done \<Longrightarrow> \<forall>i \<in> set done. time_ok gs tm i \<Longrightarrow>
    \<exists>tm'. gate_times G order tm = Some tm' \<and> dom tm' = {..<length gs} \<and> (\<forall>i < length gs. time_ok gs tm' i)"
proof (induction order arbitrary: "done" tm)
  case Nil
  then show ?case by auto
next
  case (Cons i order)
  have il: "i < length gs" and fresh: "i \<notin> set done" using Cons.prems by auto
  have prev: "j \<in> set done" if j: "q \<in> set (snd (gs ! i))" "prev_on gs i q = Some j" for q j
  proof (rule ccontr)
    assume "j \<notin> set done"
    note jj = prev_on_SomeD [OF j(2)]
    have "j < length gs" "j \<noteq> i" using jj(1) il by simp_all
    then have "j \<in> set order" using \<open>j \<notin> set done\<close> Cons.prems(3) by (metis UnE lessThan_iff set_ConsD set_append)
    moreover have "qubit_set (gs ! i) \<inter> qubit_set (gs ! j) \<noteq> {}" using j(1) jj(2) by (auto simp: meets_def)
    ultimately have "i < j" using Cons.prems(1) unfolding keeps_order_def in_order_simps by blast
    then show False using jj(1) by simp
  qed
  let ?f = "\<lambda>q. case prev_on gs i q of None \<Rightarrow> Some 0 | Some j \<Rightarrow> tm j"
  let ?ts = "map (\<lambda>q. the (?f q)) (snd (gs ! i))"
  have "?f q \<noteq> None" if "q \<in> set (snd (gs ! i))" for q using prev [OF that] Cons.prems(4) by (auto split: option.splits)
  then have "those (map ?f (snd (gs ! i))) = Some ?ts" by (rule those_Some)
  then have gt: "gate_time G tm i = Some (Suc (fold max ?ts 0))"
    by (simp add: gate_time_def graph_linksD(2) [OF g il] o_def)
  let ?tm = "tm(i \<mapsto> Suc (fold max ?ts 0))"
  have other: "?tm j = tm j" if "j \<in> set done" for j using that fresh by auto
  have "time_ok gs ?tm i"
    unfolding time_ok_def
  proof (rule exI [of _ "fold max ?ts 0"], intro conjI ballI allI impI)
    fix q j assume j: "q \<in> set (snd (gs ! i))" "prev_on gs i q = Some j"
    obtain u where u: "tm j = Some u" using prev [OF j] Cons.prems(4) by auto
    have "the (?f q) \<in> set ?ts" using j(1) by auto
    then have "u \<in> set ?ts" using j u by simp
    then show "\<exists>u \<le> fold max ?ts 0. ?tm j = Some u" using fold_max_upper [of u ?ts 0] other [OF prev [OF j]] u by metis
  next
    have "fold max ?ts 0 = 0 \<or> fold max ?ts 0 \<in> set ?ts" by (rule fold_max_attained)
    then show "fold max ?ts 0 = 0 \<or> (\<exists>q \<in> set (snd (gs ! i)). \<exists>j. prev_on gs i q = Some j \<and> ?tm j = Some (fold max ?ts 0))"
    proof
      assume "fold max ?ts 0 \<in> set ?ts"
      then obtain q where q: "q \<in> set (snd (gs ! i))" "the (?f q) = fold max ?ts 0" by auto
      show ?thesis
      proof (cases "prev_on gs i q")
        case None
        then show ?thesis using q by simp
      next
        case (Some j)
        obtain u where "tm j = Some u" using prev [OF q(1) Some] Cons.prems(4) by auto
        then show ?thesis using q Some other [OF prev [OF q(1) Some]] by (intro disjI2 bexI [of _ q]) auto
      qed
    qed simp
  qed simp
  moreover have "time_ok gs ?tm k" if k: "k \<in> set done" for k
  proof -
    have kt: "time_ok gs tm k" using Cons.prems(5) k by blast
    have "?tm j = tm j" if j: "q \<in> set (snd (gs ! k))" "prev_on gs k q = Some j" for q j
    proof (rule other)
      obtain u where "tm j = Some u" using kt j unfolding time_ok_def by blast
      then show "j \<in> set done" using Cons.prems(4) by blast
    qed
    then show ?thesis using time_ok_cong [OF kt] other [OF k] by blast
  qed
  ultimately have t: "\<forall>k \<in> set (done @ [i]). time_ok gs ?tm k" by simp
  have d: "dom ?tm = set (done @ [i])" using Cons.prems(4) by auto
  have "\<exists>tm'. gate_times G order ?tm = Some tm' \<and> dom tm' = {..<length gs} \<and> (\<forall>i < length gs. time_ok gs tm' i)"
    by (rule Cons.IH [OF _ _ _ d t]) (use Cons.prems(1-3) in simp_all)
  then show ?case by (simp only: gate_times.simps(2) gt option.case)
qed

theorem gate_times_correct:
  assumes gs: "gates_ok n gs" and q: "\<forall>g \<in> set gs. snd g \<noteq> []"
  shows "\<exists>tm. calculate_gate_times (qg_of_gates n gs) = Some tm \<and> dom tm = {..<length gs} \<and> (\<forall>i < length gs. time_ok gs tm i)"
proof -
  obtain order where o: "qg_order (qg_of_gates n gs) = Some order" "distinct order" "set order = {..<length gs}" "keeps_order gs order"
    using qg_order_spec [OF gs q] by blast
  show ?thesis
    using gate_times_spec [OF qg_of_gates_links [OF gs], of "[]" order Map.empty] o
    by (simp add: calculate_gate_times_def)
qed

end
