(* ===== verification/Duostra.thy ===== *)
theory Duostra
  imports Placer SearchScheduler TopologicalOrder
begin

text \<open>
  Mapping a circuit to a device (src/src/duostra/duostra.cpp) and the check of the result
  (src/src/duostra/mapping_eqv_checker.cpp). A call that throws, reads a null pointer or behind a vector is \<open>None\<close>.
  What \<open>rand\<close>, \<open>shuffle\<close>, \<open>sort\<close> and \<open>nth_element\<close> return is an argument. Messages are left out, and nothing asks
  the program to stop during a run.
\<close>

section \<open>The configuration\<close>

datatype scheduler_type = Sched_base | Sched_naive | Sched_random | Sched_greedy | Sched_search

record duostra_config =
  dc_scheduler :: scheduler_type
  dc_router :: router_type
  dc_placer :: placer_type
  dc_tie_breaking :: min_max
  dc_num_candidates :: nat
  dc_apsp_coeff :: nat
  dc_available_time :: min_max
  dc_cost_selection :: min_max
  dc_search_depth :: nat
  dc_never_cache :: bool
  dc_execute_single :: bool

text \<open>The configuration of the command (src/src/cmd/duostra_cmd.cpp).\<close>

definition duostra_default_config :: duostra_config where
  "duostra_default_config =
     \<lparr>dc_scheduler = Sched_search, dc_router = Duostra_router, dc_placer = Placer_dfs, dc_tie_breaking = Min_option,
      dc_num_candidates = largest_size, dc_apsp_coeff = 1, dc_available_time = Max_option, dc_cost_selection = Min_option,
      dc_search_depth = 4, dc_never_cache = True, dc_execute_single = False\<rparr>"

record std_calls =
  std_rand :: "nat \<Rightarrow> nat"
  std_shuffle :: "nat list \<Rightarrow> nat list"
  std_sort :: "gate_info list \<Rightarrow> gate_info list"
  std_nth_element :: "nat \<Rightarrow> tree_node list \<Rightarrow> tree_node list"

definition greedy_conf_of :: "duostra_config \<Rightarrow> greedy_conf" where
  "greedy_conf_of conf =
     \<lparr>gc_available_time = dc_available_time conf, gc_cost_type = dc_cost_selection conf,
      gc_num_candidates = dc_num_candidates conf, gc_apsp_coeff = dc_apsp_coeff conf\<rparr>"

definition assign_gates :: "std_calls \<Rightarrow> duostra_config \<Rightarrow> router \<times> scheduler \<Rightarrow> (router \<times> scheduler) option" where
  "assign_gates std conf s =
     (case dc_scheduler conf of
        Sched_base \<Rightarrow> base_assign s
      | Sched_naive \<Rightarrow> naive_assign s
      | Sched_random \<Rightarrow> random_assign (std_rand std) s
      | Sched_greedy \<Rightarrow> greedy_assign (greedy_conf_of conf) s
      | Sched_search \<Rightarrow>
          search_assign (std_nth_element std)
            \<lparr>tc_never_cache = dc_never_cache conf, tc_execute_single = dc_execute_single conf, tc_candidates = dc_num_candidates conf\<rparr>
            (dc_search_depth conf) s)"

definition assign_gates_and_sort :: "std_calls \<Rightarrow> duostra_config \<Rightarrow> router \<times> scheduler \<Rightarrow> (device \<times> scheduler) option" where
  "assign_gates_and_sort std conf s =
     map_option (\<lambda>(r, sc). (rt_device r, sort_operations (std_sort std) sc)) (assign_gates std conf s)"

section \<open>The physical circuit\<close>

definition emit_gates :: "gate \<Rightarrow> gate list" where
  "emit_gates g =
     (let q0 = snd g ! 0; q1 = snd g ! 1;
          qu = (if q1 \<noteq> max_qubit_id then [q0, q1] else [q0]) in
      if fst g = SwapGate then [(CXGate, qu), (CXGate, [q1, q0]), (CXGate, qu)] else [(fst g, qu)])"

definition build_circuit_by_result :: "nat \<Rightarrow> gate list \<Rightarrow> qcir_graph" where
  "build_circuit_by_result n result = fold (\<lambda>g G. fold qg_append (emit_gates g) G) result (qg_new n)"

lemma build_circuit_eq: "build_circuit_by_result n gs = qg_of_gates n (concat (map emit_gates gs))"
proof -
  have "fold (\<lambda>g G. fold qg_append (emit_gates g) G) gs G = fold qg_append (concat (map emit_gates gs)) G" for G
    by (induction gs arbitrary: G) simp_all
  then show ?thesis by (simp add: build_circuit_by_result_def qg_of_gates_def)
qed

section \<open>The check of a mapping\<close>

record checker =
  mc_device :: device
  mc_dependency :: "nat \<rightharpoonup> nat"

definition mc_next :: "bool \<Rightarrow> qcir_graph \<Rightarrow> nat \<Rightarrow> nat \<Rightarrow> nat option" where
  "mc_next reverse G i pin =
     (let xs = (if reverse then qg_predecessors G i else qg_successors G i) in
      if length xs \<le> pin then None
      else Option.bind (xs ! pin) (\<lambda>j. if qg_get_gate G j = None then None else Some j))"

definition checker_new ::
  "placer_type \<Rightarrow> (nat list \<Rightarrow> nat list) \<Rightarrow> nat list \<Rightarrow> bool \<Rightarrow> qcir_graph \<Rightarrow> device \<Rightarrow> checker option" where
  "checker_new type shuffle init reverse logical d =
     map_option (\<lambda>d. \<lparr>mc_device = d, mc_dependency =
         (\<lambda>q. if q < length (qg_first logical) then (if reverse then qg_last logical ! q else qg_first logical ! q) else None)\<rparr>)
       (if init = [] then map_option snd (place_and_assign type shuffle d) else Some (place init d))"

abbreviation op_at :: "qcir_graph \<Rightarrow> nat \<Rightarrow> operation" where
  "op_at G i \<equiv> fst (the (qg_get_gate G i))"

abbreviation qubit_at :: "qcir_graph \<Rightarrow> nat \<Rightarrow> nat \<Rightarrow> nat" where
  "qubit_at G i pin \<equiv> snd (the (qg_get_gate G i)) ! pin"

text \<open>The gate behind a CX on both qubits, if it is a CX the other way round.\<close>

definition crossed_cx :: "bool \<Rightarrow> qcir_graph \<Rightarrow> nat \<Rightarrow> nat option" where
  "crossed_cx reverse G i =
     (case mc_next reverse G i 0 of None \<Rightarrow> None
      | Some j \<Rightarrow>
          if mc_next reverse G i 1 \<noteq> Some j \<or> \<not> operation_eq (op_at G j) CXGate then None
          else if qubit_at G i 0 \<noteq> qubit_at G j 1 \<or> qubit_at G i 1 \<noteq> qubit_at G j 0 then None
          else Some j)"

definition mc_is_swap :: "bool \<Rightarrow> qcir_graph \<Rightarrow> qcir_graph \<Rightarrow> checker \<Rightarrow> nat \<Rightarrow> bool option" where
  "mc_is_swap reverse physical logical mc i =
     (if \<not> operation_eq (op_at physical i) CXGate then Some False
      else case crossed_cx reverse physical i of None \<Rightarrow> Some False
      | Some j \<Rightarrow>
          (case crossed_cx reverse physical j of None \<Rightarrow> Some False
           | Some _ \<Rightarrow>
               (case (pq_logical (phys (mc_device mc) (qubit_at physical j 0)), pq_logical (phys (mc_device mc) (qubit_at physical j 1))) of
                  (Some ctrl, Some targ) \<Rightarrow>
                    let gate0 = mc_dependency mc ctrl; gate1 = mc_dependency mc targ in
                    Some (gate0 \<noteq> gate1 \<or> gate0 = None \<or> \<not> operation_eq (op_at logical (the gate0)) CXGate)
                | _ \<Rightarrow> None)))"

definition mc_adjacent :: "qcir_graph \<Rightarrow> checker \<Rightarrow> nat \<Rightarrow> bool" where
  "mc_adjacent physical mc i =
     is_adjacency (phys (mc_device mc) (qubit_at physical i 0)) (phys (mc_device mc) (qubit_at physical i 1))"

text \<open>The handlers return whether the gate is accepted and the new state, with the gates of a SWAP that follow it.\<close>

definition mc_execute_swap :: "bool \<Rightarrow> qcir_graph \<Rightarrow> nat \<Rightarrow> checker \<times> nat set \<Rightarrow> (bool \<times> checker \<times> nat set) option" where
  "mc_execute_swap reverse physical i s =
     (let mc = fst s; q0 = qubit_at physical i 0; q1 = qubit_at physical i 1 in
      if \<not> mc_adjacent physical mc i then Some (False, s)
      else case mc_next reverse physical i 0 of None \<Rightarrow> None
      | Some j \<Rightarrow>
          let swaps = insert i (insert j (case mc_next reverse physical j 0 of None \<Rightarrow> snd s | Some k \<Rightarrow> insert k (snd s)));
              d = mc_device mc; temp = pq_logical (phys d q0);
              d = upd_qubit q0 (set_logical (pq_logical (phys d q1))) d;
              d = upd_qubit q1 (set_logical temp) d in
          Some (True, mc\<lparr>mc_device := d\<rparr>, swaps))"

definition mc_execute_single :: "bool \<Rightarrow> qcir_graph \<Rightarrow> qcir_graph \<Rightarrow> nat \<Rightarrow> checker \<Rightarrow> (bool \<times> checker) option" where
  "mc_execute_single reverse physical logical i mc =
     (case pq_logical (phys (mc_device mc) (qubit_at physical i 0)) of None \<Rightarrow> None
      | Some q \<Rightarrow>
          (case mc_dependency mc q of None \<Rightarrow> Some (False, mc)
           | Some g \<Rightarrow>
               if \<not> operation_eq (op_at logical g) (op_at physical i) then Some (False, mc)
               else if qubit_at logical g 0 \<noteq> q then Some (False, mc)
               else Some (True, mc\<lparr>mc_dependency := (mc_dependency mc)(q := mc_next reverse logical g 0)\<rparr>)))"

definition mc_execute_double :: "bool \<Rightarrow> qcir_graph \<Rightarrow> qcir_graph \<Rightarrow> nat \<Rightarrow> checker \<Rightarrow> (bool \<times> checker) option" where
  "mc_execute_double reverse physical logical i mc =
     (case (pq_logical (phys (mc_device mc) (qubit_at physical i 0)), pq_logical (phys (mc_device mc) (qubit_at physical i 1))) of
        (Some ctrl, Some targ) \<Rightarrow>
          if mc_dependency mc ctrl \<noteq> mc_dependency mc targ then Some (False, mc)
          else (case mc_dependency mc targ of None \<Rightarrow> Some (False, mc)
                | Some g \<Rightarrow>
                    if \<not> operation_eq (op_at logical g) (op_at physical i) \<or> qubit_at logical g 0 \<noteq> ctrl \<or> qubit_at logical g 1 \<noteq> targ \<or>
                       \<not> mc_adjacent physical mc i then Some (False, mc)
                    else Some (True, mc\<lparr>mc_dependency :=
                      (mc_dependency mc)(ctrl := mc_next reverse logical g 0, targ := mc_next reverse logical g 1)\<rparr>))
      | _ \<Rightarrow> None)"

definition mc_step :: "bool \<Rightarrow> qcir_graph \<Rightarrow> qcir_graph \<Rightarrow> nat \<Rightarrow> checker \<times> nat set \<Rightarrow> (bool \<times> checker \<times> nat set) option" where
  "mc_step reverse physical logical i s =
     (let n = length (snd (the (qg_get_gate physical i))); swaps = snd s;
          keep = map_option (\<lambda>(ok, mc). (ok, mc, swaps)) in
      if i \<in> swaps then Some (True, s)
      else if n = 2 then
        (case mc_is_swap reverse physical logical (fst s) i of None \<Rightarrow> None
         | Some True \<Rightarrow> mc_execute_swap reverse physical i s
         | Some False \<Rightarrow> keep (mc_execute_double reverse physical logical i (fst s)))
      else if n > 1 then Some (False, s)
      else keep (mc_execute_single reverse physical logical i (fst s)))"

text \<open>\<open>check_remaining\<close> prints a warning for every qubit with gates left, and the result is \<open>true\<close> all the same.\<close>

fun mc_check_gates :: "bool \<Rightarrow> qcir_graph \<Rightarrow> qcir_graph \<Rightarrow> nat list \<Rightarrow> checker \<times> nat set \<Rightarrow> bool option" where
  "mc_check_gates reverse physical logical [] s = Some True"
| "mc_check_gates reverse physical logical (i # is) s =
     (case mc_step reverse physical logical i s of None \<Rightarrow> None
      | Some (ok, s) \<Rightarrow> if ok then mc_check_gates reverse physical logical is s else Some False)"

definition mapping_check :: "bool \<Rightarrow> qcir_graph \<Rightarrow> qcir_graph \<Rightarrow> checker \<Rightarrow> bool option" where
  "mapping_check reverse physical logical mc =
     Option.bind (qg_order physical) (\<lambda>order.
       mc_check_gates reverse physical logical (if reverse then rev order else order) (mc, {}))"

section \<open>The mapper\<close>

record mapped =
  mp_device :: device
  mp_result :: "gate list"
  mp_circuit :: qcir_graph

text \<open>\<open>Some None\<close> is a call that returns \<open>false\<close>. The check places the qubits of the device once more.\<close>

definition duostra_map :: "std_calls \<Rightarrow> std_calls \<Rightarrow> duostra_config \<Rightarrow> bool \<Rightarrow> bool \<Rightarrow> qcir_graph \<Rightarrow> device \<Rightarrow> mapped option option" where
  "duostra_map std std_check conf check use_device_as_placement logical d =
     (case circuit_topology_new logical of None \<Rightarrow> None
      | Some topo \<Rightarrow>
          if length (qg_first logical) > dv_num_qubit d then Some None
          else
            case (if use_device_as_placement then Some d else map_option snd (place_and_assign (dc_placer conf) (std_shuffle std) d)) of
              None \<Rightarrow> None
            | Some placed_device \<Rightarrow>
                let cost = (if dc_scheduler conf = Sched_greedy then Cost_end else Cost_start) in
                case router_new placed_device (dc_router conf) cost (dc_tie_breaking conf) of None \<Rightarrow> None
                | Some router \<Rightarrow>
                    (case assign_gates_and_sort std conf (router, scheduler_new topo) of None \<Rightarrow> None
                     | Some (d', sc) \<Rightarrow>
                         let result = map fst (sc_operations sc);
                             m = \<lparr>mp_device = d', mp_result = result, mp_circuit = build_circuit_by_result (dv_num_qubit d') result\<rparr> in
                         if \<not> check then Some (Some m)
                         else (case checker_new (dc_placer conf) (std_shuffle std_check) [] False logical d of None \<Rightarrow> None
                               | Some mc \<Rightarrow>
                                   map_option (\<lambda>ok. if ok then Some m else None) (mapping_check False (mp_circuit m) logical mc))))"

section \<open>Every scheduler routes the circuit\<close>

definition std_ok :: "std_calls \<Rightarrow> bool" where
  "std_ok std \<longleftrightarrow> shuffles (std_shuffle std) \<and> sorts (std_sort std) \<and> partitions (std_nth_element std)"

text \<open>The greedy scheduler needs a candidate and divides by the coefficient; the search needs a candidate and a depth.\<close>

definition conf_ok :: "duostra_config \<Rightarrow> bool" where
  "conf_ok conf \<longleftrightarrow>
     (dc_scheduler conf = Sched_greedy \<longrightarrow> 0 < dc_num_candidates conf \<and> dc_apsp_coeff conf \<noteq> 0) \<and>
     (dc_scheduler conf = Sched_search \<longrightarrow> 0 < dc_num_candidates conf \<and> 0 < cast_depth (dc_search_depth conf))"

lemma cast_depth_default: "cast_depth 4 = 4"
  by code_simp

lemma default_config_ok: "conf_ok duostra_default_config"
  using cast_depth_default by (simp add: conf_ok_def duostra_default_config_def largest_size_def)

lemma assign_gates_routes_all:
  assumes s: "starts n gs d0 p0 s" and c: "conf_ok conf" and std: "std_ok std"
  shows "routes_all n gs d0 p0 (assign_gates std conf s)"
proof (cases "dc_scheduler conf")
  case Sched_base
  then show ?thesis using base_assign_complete [OF s] by (simp add: assign_gates_def)
next
  case Sched_naive
  then show ?thesis using naive_assign_complete [OF s] by (simp add: assign_gates_def)
next
  case Sched_random
  then show ?thesis using random_assign_complete [OF s] by (simp add: assign_gates_def)
next
  case Sched_greedy
  have "routes_all n gs d0 p0 (greedy_assign (greedy_conf_of conf) s)"
    by (rule greedy_assign_complete [of _ n gs d0 p0 s "[]"]) (use s c Sched_greedy in \<open>auto simp: starts_def conf_ok_def greedy_conf_of_def\<close>)
  then show ?thesis by (simp add: Sched_greedy assign_gates_def)
next
  case Sched_search
  let ?c = "\<lparr>tc_never_cache = dc_never_cache conf, tc_execute_single = dc_execute_single conf, tc_candidates = dc_num_candidates conf\<rparr>"
  have "routes_all n gs d0 p0 (search_assign (std_nth_element std) ?c (dc_search_depth conf) s)"
    by (rule search_assign_complete [OF _ _ _ s]) (use c std Sched_search in \<open>simp_all add: conf_ok_def std_ok_def\<close>)
  then show ?thesis by (simp add: Sched_search assign_gates_def)
qed

section \<open>The operations of the physical circuit\<close>

lemma phase_pi: "phase_factor (phase_of_int 1) = - 1"
  by (simp add: phase_factor_def phase_angle_def phase_constants)

lemma cx_sem: "a \<noteq> b \<Longrightarrow> op_sem CXGate [a, b] v = q_cx a b v"
  using q_cx_controlled [of a b] by (simp add: phase_pi)

lemma three_cx_swap: "a \<noteq> b \<Longrightarrow> q_cx a b (q_cx b a (q_cx a b v)) = q_swap a b v"
  by (rule ext) (auto simp: q_cx_def q_swap_def cx_state_def bxor_def fun_eq_iff intro!: arg_cong [of _ _ v])

text \<open>An operation on the device with a well-formed gate.\<close>

definition device_gate :: "device \<Rightarrow> gate \<Rightarrow> bool" where
  "device_gate d g \<longleftrightarrow> on_coupling d g \<and> (is_swap_op g \<longrightarrow> fst g = SwapGate) \<and> op_fits (physical_gate g)"

lemma emit_gates_shape:
  assumes ok: "device_ok d" and g: "device_gate d g"
  shows "fst g \<noteq> SwapGate \<Longrightarrow> emit_gates g = [physical_gate g]"
    "fst g = SwapGate \<Longrightarrow> \<exists>a b. (a, b) \<in> coupling d \<and> physical_gate g = (SwapGate, [a, b]) \<and> a \<noteq> b \<and>
       emit_gates g = [(CXGate, [a, b]), (CXGate, [b, a]), (CXGate, [a, b])]"
    "distinct (real_qubits g)" "set (real_qubits g) \<subseteq> {..<length (dv_qubits d)}"
    "length (real_qubits g) = 2 \<Longrightarrow> (real_qubits g ! 0, real_qubits g ! 1) \<in> coupling d"
proof -
  note gr = graph_okD(1-3) [OF device_okD(5) [OF ok]]
  have c: "on_coupling d g" using g by (simp add: device_gate_def)
  consider (one) q where "q < length (dv_qubits d)" "snd g = [q, max_qubit_id]" "\<not> is_swap_op g"
    | (two) a b where "(a, b) \<in> coupling d" "snd g = [a, b]" using c by (auto simp: on_coupling_def)
  then have "(fst g \<noteq> SwapGate \<longrightarrow> emit_gates g = [physical_gate g]) \<and>
    (fst g = SwapGate \<longrightarrow> (\<exists>a b. (a, b) \<in> coupling d \<and> physical_gate g = (SwapGate, [a, b]) \<and> a \<noteq> b \<and>
       emit_gates g = [(CXGate, [a, b]), (CXGate, [b, a]), (CXGate, [a, b])])) \<and>
    distinct (real_qubits g) \<and> set (real_qubits g) \<subseteq> {..<length (dv_qubits d)} \<and>
    (length (real_qubits g) = 2 \<longrightarrow> (real_qubits g ! 0, real_qubits g ! 1) \<in> coupling d)"
  proof cases
    case one
    have q: "q \<noteq> max_qubit_id" using small_qubit [OF ok one(1)] by simp
    have "fst g \<noteq> SwapGate" using one(3) by (auto simp: operation_eq_def)
    then show ?thesis using one q by (simp add: emit_gates_def physical_gate_def real_qubits_def)
  next
    case two
    have n: "a < length (dv_qubits d)" "b < length (dv_qubits d)" "a \<noteq> b" using gr [OF two(1)] by simp_all
    then have "a \<noteq> max_qubit_id" "b \<noteq> max_qubit_id" using small_qubit [OF ok] by (metis less_irrefl)+
    then show ?thesis using two n by (simp add: emit_gates_def physical_gate_def real_qubits_def Let_def)
  qed
  then show "fst g \<noteq> SwapGate \<Longrightarrow> emit_gates g = [physical_gate g]"
    "fst g = SwapGate \<Longrightarrow> \<exists>a b. (a, b) \<in> coupling d \<and> physical_gate g = (SwapGate, [a, b]) \<and> a \<noteq> b \<and>
       emit_gates g = [(CXGate, [a, b]), (CXGate, [b, a]), (CXGate, [a, b])]"
    "distinct (real_qubits g)" "set (real_qubits g) \<subseteq> {..<length (dv_qubits d)}"
    "length (real_qubits g) = 2 \<Longrightarrow> (real_qubits g ! 0, real_qubits g ! 1) \<in> coupling d" by blast+
qed

lemma emit_gates_sem:
  assumes ok: "device_ok d" and g: "device_gate d g"
  shows "gates_sem (emit_gates g) v = op_sem (fst g) (real_qubits g) v"
proof (cases "fst g = SwapGate")
  case True
  then obtain a b where ab: "physical_gate g = (SwapGate, [a, b])" "a \<noteq> b"
    "emit_gates g = [(CXGate, [a, b]), (CXGate, [b, a]), (CXGate, [a, b])]" using emit_gates_shape(2) [OF ok g] by blast
  have "gates_sem (emit_gates g) v = q_swap a b v"
    unfolding ab(3) using cx_sem three_cx_swap ab(2) by (simp del: op_sem.simps)
  then show ?thesis using ab(1) True by (simp add: physical_gate_def)
next
  case False
  then show ?thesis using emit_gates_shape(1) [OF ok g] by (simp add: physical_gate_def)
qed

definition coupled :: "device \<Rightarrow> gate list \<Rightarrow> bool" where
  "coupled d gs \<longleftrightarrow>
     gates_ok (length (dv_qubits d)) gs \<and> (\<forall>g \<in> set gs. length (snd g) = 1 \<or> (length (snd g) = 2 \<and> (snd g ! 0, snd g ! 1) \<in> coupling d))"

lemma cx_wf: "op_wf CXGate" "op_num_qubits CXGate = 2"
  by (simp_all add: phase_of_int_ok)

lemma emit_gates_coupled:
  assumes ok: "device_ok d" and g: "device_gate d g" "\<not> is_swap_op g \<or> fst g = SwapGate"
  shows "coupled d (emit_gates g)"
proof (cases "fst g = SwapGate")
  case True
  then obtain a b where ab: "(a, b) \<in> coupling d" "a \<noteq> b"
    "emit_gates g = [(CXGate, [a, b]), (CXGate, [b, a]), (CXGate, [a, b])]" using emit_gates_shape(2) [OF ok g(1)] by blast
  have gr: "graph_ok (length (dv_qubits d)) (coupling d)" by (rule device_okD(5) [OF ok])
  have n: "a < length (dv_qubits d)" "b < length (dv_qubits d)" "(b, a) \<in> coupling d"
    using graph_okD(1,2) [OF gr ab(1)] graph_okD(4) [OF gr, of a b] ab(1) by simp_all
  have "gate_ok (length (dv_qubits d)) (CXGate, [a, b])" "gate_ok (length (dv_qubits d)) (CXGate, [b, a])"
    using n ab(2) cx_wf by (simp_all add: gate_ok_def on_qubits_def)
  then show ?thesis unfolding ab(3) coupled_def using n ab(1) by simp
next
  case False
  note e = emit_gates_shape(1,3-5) [OF ok g(1)]
  have "gate_ok (length (dv_qubits d)) (physical_gate g)"
    using g(1) e by (simp add: device_gate_def gate_ok_def on_qubits_def op_fits_def physical_gate_def)
  moreover have "length (real_qubits g) = 1 \<or> length (real_qubits g) = 2"
    using g(1) op_shape_wires(1) [OF on_coupling_shape [OF ok] small_device [OF ok], of g] by (auto simp: device_gate_def)
  ultimately show ?thesis unfolding e(1) [OF False] coupled_def using e(4) by (auto simp: physical_gate_def)
qed

lemma emit_all:
  assumes ok: "device_ok d"
  shows "\<forall>g \<in> set gs. device_gate d g \<Longrightarrow> coupled d (concat (map emit_gates gs)) \<and>
    (\<forall>v. gates_sem (concat (map emit_gates gs)) v = gates_sem (map physical_gate gs) v)"
proof (induction gs)
  case Nil
  then show ?case by (simp add: coupled_def)
next
  case (Cons g gs)
  then have g: "device_gate d g" by simp
  have "coupled d (emit_gates g)" by (rule emit_gates_coupled [OF ok g]) (use g in \<open>auto simp: device_gate_def\<close>)
  then show ?case using Cons emit_gates_sem [OF ok g] by (auto simp: coupled_def physical_gate_def)
qed

section \<open>The mapper is correct\<close>

text \<open>A device no circuit was mapped to yet.\<close>

definition fresh_device :: "device \<Rightarrow> bool" where
  "fresh_device d \<longleftrightarrow> device_ok d \<and> connected_device d \<and> 0 < length (dv_qubits d) \<and> device_idle d"

definition mappable_circuit :: "nat \<Rightarrow> gate list \<Rightarrow> bool" where
  "mappable_circuit n gs \<longleftrightarrow> (\<forall>g \<in> set gs. mappable n g \<and> (is_swap_op g \<longrightarrow> fst g = SwapGate))"

text \<open>
  \<open>maps_to d start gs m\<close>: the physical circuit consists of gates on coupled qubits of \<open>d\<close>, and on the states read
  through the placement of the device \<open>start\<close> and through the one it ends with it acts as the gates \<open>gs\<close>.
\<close>

definition maps_to :: "device \<Rightarrow> device \<Rightarrow> gate list \<Rightarrow> mapped \<Rightarrow> bool" where
  "maps_to d start gs m \<longleftrightarrow>
     (\<exists>ps p p'. mp_circuit m = qg_of_gates (length (dv_qubits d)) ps \<and> coupled d ps \<and> placed start p \<and> placed (mp_device m) p' \<and> (\<forall>v. logical_state p' (gates_sem ps v) = gates_sem gs (logical_state p v)))"

lemma sorted_result:
  assumes gs: "mappable_circuit n gs" and fit: "circuit_fits n gs d" and p: "placement (length (dv_qubits d)) p" and std: "sorts srt"
    and s: "scheduled n gs d p s order" and all: "set order = {..<length gs}"
  shows "\<exists>p'. placed (rt_device (fst s)) p' \<and> (\<forall>g \<in> set (map fst (srt (sc_operations (snd s)))). device_gate d g) \<and>
    (\<forall>v. logical_state p' (gates_sem (map physical_gate (map fst (srt (sc_operations (snd s))))) v) =
       gates_sem (performed gs) (logical_state p v))"
proof -
  let ?ops = "sc_operations (snd s)" and ?hs = "performed (map ((!) gs) order)"
  let ?rs = "map fst (srt ?ops)"
  have ok: "device_ok d" using fit by (simp add: circuit_fits_def)
  note sd = scheduledD [OF s]
  obtain p' where r: "runs d p ?ops ?hs (rt_device (fst s)) p'" using sd(7) by auto
  note so = sorted_operations [OF ok p r std]
  have in_ops: "g \<in> fst ` set ?ops" if "g \<in> set ?rs" for g using that so(4) by simp
  have gs_fit: "op_fits g" if "g \<in> set gs" for g
    using fit that by (auto simp: circuit_fits_def mappable_def gate_ok_def on_qubits_def op_fits_def)
  have "(!) gs ` {..<length gs} = set gs" by (metis atLeast_upt map_nth set_map)
  then have "set (map ((!) gs) order) = set gs" using all by simp
  then have hs_fit: "op_fits g" if "g \<in> set ?hs" for g using that gs_fit by (simp add: performed_def)
  then have un_fit: "\<forall>g \<in> set (unroute ?rs p). op_fits g" using reorder_set [OF so(1)] by simp
  have coup: "on_coupling d g" if "g \<in> set ?rs" for g using in_ops [OF that] runsD(5) [OF r] by auto
  have sw: "fst g = SwapGate" if g: "g \<in> set ?rs" "is_swap_op g" for g
  proof -
    obtain x where x: "x \<in> set ?ops" "g = fst x" using in_ops [OF g(1)] by auto
    from scheduled_operations [OF s x(1)] show ?thesis
    proof
      assume "fst (fst x) \<in> fst ` set gs"
      then obtain h where "h \<in> set gs" "fst h = fst g" using x(2) by auto
      then show ?thesis using gs g(2) by (auto simp: mappable_circuit_def)
    qed (simp add: x(2))
  qed
  have shape: "\<forall>g \<in> set ?rs. op_shape (length (dv_qubits d)) g \<and> (is_swap_op g \<longrightarrow> fst g = SwapGate)"
    using on_coupling_shape [OF ok coup] sw by blast
  have dev: "device_gate d g" if g: "g \<in> set ?rs" for g
  proof (cases "is_swap_op g")
    case True
    then have "op_fits (physical_gate g)"
      using sw [OF g] op_shape_wires(1) [OF on_coupling_shape [OF ok coup [OF g]] small_device [OF ok]]
      by (auto simp: op_fits_def physical_gate_def)
    then show ?thesis using coup [OF g] sw [OF g] by (simp add: device_gate_def)
  next
    case False
    have "fst g \<in> fst ` set (unroute gs' p)" if "g \<in> set gs'" for gs' p using that False
      by (induction gs' arbitrary: p) (auto simp: logical_gate_def)
    moreover have "length (real_qubits g) = op_num_qubits (fst g)"
    proof -
      have "\<exists>h \<in> set (unroute gs' p). fst h = fst g \<and> length (snd h) = length (real_qubits g)" if "g \<in> set gs'" for gs' p
        using that False by (induction gs' arbitrary: p) (auto simp: logical_gate_def)
      from this [OF g, of p] show ?thesis using un_fit by (auto simp: op_fits_def)
    qed
    ultimately have "op_fits (physical_gate g)" using g un_fit by (force simp: op_fits_def physical_gate_def)
    then show ?thesis using coup [OF g] False by (simp add: device_gate_def)
  qed
  have "reorder qubit_set (performed gs) ?hs"
    unfolding performed_def by (rule reorder_filter, rule keeps_order_reorder [OF sd(3,2) all])
  then have "reorder qubit_set (performed gs) (unroute ?rs p)" by (rule reorder_trans [OF so(1)])
  then have sem: "gates_sem (unroute ?rs p) v = gates_sem (performed gs) v" for v
    by (rule gates_sem_reorder) (use gs_fit in \<open>simp add: performed_def\<close>)
  have "logical_state p' (gates_sem (map physical_gate ?rs) v) = gates_sem (performed gs) (logical_state p v)" for v
    using routed_state [OF small_device [OF ok] p shape un_fit, of v] so(2) sem by simp
  then show ?thesis using runsD(2) [OF r] dev by blast
qed

theorem duostra_map_performs:
  assumes d: "fresh_device d" and gs: "mappable_circuit n gs" and n: "n \<le> length (dv_qubits d)"
    and conf: "conf_ok conf" and std: "std_ok std"
  shows "\<exists>xs m. place_qubits (dc_placer conf) (std_shuffle std) d = Some xs \<and> orders (length (dv_qubits d)) xs \<and>
    duostra_map std std' conf False False (qg_of_gates n gs) d = Some (Some m) \<and> maps_to d (place xs d) (performed gs) m"
proof -
  have ok: "device_ok d" and con: "connected_device d" and pos: "0 < length (dv_qubits d)" and device_idle: "device_idle d" using d by (auto simp: fresh_device_def)
  let ?G = "qg_of_gates n gs" and ?n = "length (dv_qubits d)"
  have gok: "gates_ok n gs" using gs by (auto simp: mappable_circuit_def mappable_def gates_ok_def list_all_iff)
  have g: "graph_links n gs ?G" by (rule qg_of_gates_links [OF gok])
  obtain topo where topo: "circuit_topology_new ?G = Some topo" "topo_ok n gs {} topo" using topology_new_ok [OF g] by blast
  obtain xs where xs: "place_qubits (dc_placer conf) (std_shuffle std) d = Some xs" "orders ?n xs"
    using place_qubits_orders [OF ok con pos] std by (auto simp: std_ok_def)
  let ?e = "place xs d"
  obtain p where p: "placed ?e p" "same_but_logical d ?e" using place_placed [OF ok xs(2)] by blast
  have f: "same_frame d ?e" using p(2) by (simp add: same_but_logical_def)
  note len = same_frame_length [OF f]
  have ok': "device_ok ?e" by (rule same_frame_ok [OF f ok])
  have con': "connected_device ?e" by (rule same_frame_connected [OF f con])
  let ?cost = "if dc_scheduler conf = Sched_greedy then Cost_end else Cost_start"
  obtain r where r: "router_new ?e (dc_router conf) ?cost (dc_tie_breaking conf) = Some r" "router_ok r p"
    "coupling (rt_device r) = coupling ?e" "dv_qubits (rt_device r) = dv_qubits ?e"
    using router_new_ok [OF ok' con' p(1) same_but_logical_idle [OF p(2) device_idle]] by blast
  let ?d = "rt_device r"
  have len_r: "length (dv_qubits ?d) = ?n" using r(4) len by simp
  have coup: "coupling ?d = coupling d" using r(3) same_frame_coupling [OF f] by simp
  have pl: "placed ?d p" and okr: "device_ok ?d" using r(2) by (auto simp: router_ok_def)
  have fit: "circuit_fits n gs ?d" using gs n len_r okr by (simp add: circuit_fits_def mappable_circuit_def)
  have "scheduled n gs ?d p (r, scheduler_new topo) []"
    using topo(2) r(2) runs_refl [OF pl] by (auto simp: scheduled_def scheduler_new_def keeps_order_def)
  then have "starts n gs ?d p (r, scheduler_new topo)" using fit by (simp add: starts_def)
  from assign_gates_routes_all [OF this conf std] obtain s order where
    s: "assign_gates std conf (r, scheduler_new topo) = Some s" "scheduled n gs ?d p s order" "set order = {..<length gs}"
    by (auto simp: routes_all_def)
  have plc: "placement ?n p" using pl len_r by (simp add: placed_def)
  obtain p' where p': "placed (rt_device (fst s)) p'" "\<forall>g \<in> set (map fst (std_sort std (sc_operations (snd s)))). device_gate ?d g"
    "\<And>v. logical_state p' (gates_sem (map physical_gate (map fst (std_sort std (sc_operations (snd s))))) v) =
       gates_sem (performed gs) (logical_state p v)"
    using sorted_result [OF gs fit _ _ s(2,3), of "std_sort std"] plc len_r std by (auto simp: std_ok_def)
  let ?rs = "map fst (std_sort std (sc_operations (snd s)))"
  obtain q where "runs ?d p (sc_operations (snd s)) (performed (map ((!) gs) order)) (rt_device (fst s)) q" using scheduledD(7) [OF s(2)] by auto
  then have fr: "same_frame ?d (rt_device (fst s))" by (rule runsD(1))
  have num: "dv_num_qubit (rt_device (fst s)) = ?n"
    using device_okD(1) [OF same_frame_ok [OF fr okr]] same_frame_length [OF fr] len_r by simp
  let ?m = "\<lparr>mp_device = rt_device (fst s), mp_result = ?rs, mp_circuit = build_circuit_by_result ?n ?rs\<rparr>"
  have "length (qg_first ?G) = n" using g by (simp add: graph_links_def)
  then have "duostra_map std std' conf False False ?G d = Some (Some ?m)"
    using topo(1) n device_okD(1) [OF ok] xs(1) r(1) s(1) num
    by (cases s) (simp add: duostra_map_def place_and_assign_def assign_gates_and_sort_def sort_operations_def Let_def)
  moreover have "coupled d (concat (map emit_gates ?rs))" "gates_sem (concat (map emit_gates ?rs)) v = gates_sem (map physical_gate ?rs) v" for v
    using emit_all [OF okr p'(2)] coup len_r by (simp_all add: coupled_def)
  then have "maps_to d ?e (performed gs) ?m"
    using p'(1,3) p(1) unfolding maps_to_def by (intro exI [of _ "concat (map emit_gates ?rs)"] exI [of _ p] exI [of _ p']) (simp add: build_circuit_eq)
  ultimately show ?thesis using xs by blast
qed

section \<open>SWAP gates of the circuit\<close>

text \<open>
  The router takes a SWAP gate of the circuit for one of its own: the qubits trade places, and the placement
  follows them, so that the exchange the circuit asks for does not take place.
\<close>

lemma logical_state_onto:
  assumes "placement n p"
  shows "\<exists>v. logical_state p v = w"
proof -
  have inj: "inj (place_fun p)" by (rule place_fun_inj [OF assms])
  have p: "length p = n" "set p = {..<n}" using assms by (simp_all add: placement_def)
  have "place_fun p ` {..<n} \<subseteq> {..<n}"
  proof
    fix x assume "x \<in> place_fun p ` {..<n}"
    then obtain i where "i < n" "x = p ! i" using p(1) by (auto simp: place_fun_def)
    then have "x \<in> set p" using p(1) by simp
    then show "x \<in> {..<n}" unfolding p(2) .
  qed
  then have im: "place_fun p ` {..<n} = {..<n}" using inj by (intro endo_inj_surj) (auto intro: inj_on_subset)
  have "i \<in> range (place_fun p)" for i
  proof (cases "i < n")
    case True
    then have "i \<in> place_fun p ` {..<n}" using im by simp
    then show ?thesis by blast
  next
    case False
    then have "place_fun p i = i" using p(1) by (simp add: place_fun_def)
    then show ?thesis by (metis rangeI)
  qed
  then have "place_fun p \<circ> inv (place_fun p) = id" by (auto simp: fun_eq_iff intro: f_inv_into_f)
  then have "(b \<circ> place_fun p) \<circ> inv (place_fun p) = b" for b :: "nat \<Rightarrow> bool" by (simp add: comp_assoc)
  then have "logical_state p (\<lambda>b. w (b \<circ> inv (place_fun p))) = w" by (simp add: logical_state_def)
  then show ?thesis by blast
qed

lemma qg_of_gates_gates: "qg_gates (qg_of_gates n gs) = map Some gs"
proof -
  have l: "qg_gates (link_last i q G) = qg_gates G" for i q G
    by (auto simp: link_last_def qg_connect_def qg_set_predecessor_def qg_set_successor_def split: option.splits)
  have "qg_gates (fold (link_last i) qs G) = qg_gates G" for i qs G by (induction qs arbitrary: G) (simp_all add: l)
  then have "qg_gates (fold qg_append gs G) = qg_gates G @ map Some gs" for G
    by (induction gs arbitrary: G) (simp_all add: qg_append_def qg_push_def)
  then show ?thesis by (simp add: qg_of_gates_def qg_new_def)
qed

lemma maps_to_unique:
  assumes a: "maps_to d start gs m" and b: "maps_to d start hs m"
  shows "gates_sem gs = gates_sem hs"
proof
  fix w
  have p_eq: "p = q" if "placed e p" "placed e q" for e p q using that inj_map_eq_map [OF inj_Some] by (auto simp: placed_def)
  obtain ps p p' where 1: "mp_circuit m = qg_of_gates (length (dv_qubits d)) ps" "placed start p" "placed (mp_device m) p'"
    "\<And>v. logical_state p' (gates_sem ps v) = gates_sem gs (logical_state p v)" using a by (auto simp: maps_to_def)
  obtain qs q q' where 2: "mp_circuit m = qg_of_gates (length (dv_qubits d)) qs" "placed start q" "placed (mp_device m) q'"
    "\<And>v. logical_state q' (gates_sem qs v) = gates_sem hs (logical_state q v)" using b by (auto simp: maps_to_def)
  have "map Some ps = map Some qs" using 1(1) 2(1) qg_of_gates_gates by metis
  then have "ps = qs" using inj_map_eq_map [OF inj_Some] by blast
  moreover have "placement (length (dv_qubits start)) p" using 1(2) by (simp add: placed_def)
  then obtain v where "logical_state p v = w" using logical_state_onto by blast
  ultimately show "gates_sem gs w = gates_sem hs w" using 1 2 p_eq by metis
qed

theorem swap_gate_lost:
  assumes d: "fresh_device d" and ab: "a < n" "b < n" "a \<noteq> b" and n: "n \<le> length (dv_qubits d)"
    and conf: "conf_ok conf" and std: "std_ok std"
  shows "\<exists>xs m. place_qubits (dc_placer conf) (std_shuffle std) d = Some xs \<and>
    duostra_map std std' conf False False (qg_of_gates n [(SwapGate, [a, b])]) d = Some (Some m) \<and>
    maps_to d (place xs d) [] m \<and> \<not> maps_to d (place xs d) [(SwapGate, [a, b])] m"
proof -
  have gs: "mappable_circuit n [(SwapGate, [a, b])]"
    using ab by (simp add: mappable_circuit_def mappable_def gate_ok_def on_qubits_def)
  have pf: "performed [(SwapGate, [a, b])] = []" by (simp add: operation_eq_def)
  from duostra_map_performs [OF d gs n conf std, of std', unfolded pf] obtain xs m where
    m: "place_qubits (dc_placer conf) (std_shuffle std) d = Some xs"
    "duostra_map std std' conf False False (qg_of_gates n [(SwapGate, [a, b])]) d = Some (Some m)" "maps_to d (place xs d) [] m" by blast
  let ?w = "\<lambda>c. if c a \<and> \<not> c b then 1 else 0 :: complex" and ?c = "\<lambda>i. i = a"
  have ne: "gates_sem [(SwapGate, [a, b])] ?w ?c \<noteq> gates_sem [] ?w ?c" using ab by (simp add: q_swap_def)
  have "\<not> maps_to d (place xs d) [(SwapGate, [a, b])] m"
  proof
    assume "maps_to d (place xs d) [(SwapGate, [a, b])] m"
    from fun_cong [OF fun_cong [OF maps_to_unique [OF this m(3)]]] ne show False by blast
  qed
  then show ?thesis using m by blast
qed

section \<open>Gates the check misses\<close>

text \<open>Whatever the logical circuit is, the check accepts a physical circuit without gates.\<close>

theorem check_accepts_empty:
  "mapping_check reverse (qg_new n) logical mc = Some True"
  by (subst mapping_check_def) (simp add: qg_order_def qg_new_def push_successors_eq dfs_gates.simps)

text \<open>Without candidates the greedy scheduler stops at once, and the mapper succeeds with no gate routed.\<close>

lemma greedy_no_candidates: "gc_num_candidates conf = 0 \<Longrightarrow> greedy_assign conf s = Some s"
  by (subst greedy_assign.simps) (simp add: candidate_gates_def)

end
