(* ===== verification/CircuitSamples.thy ===== *)
theory CircuitSamples
  imports Samples CircuitPipeline JointSynthesis MultiblockCorrect OrderedHashTable Duostra
begin

text \<open>Circuits, graphs and tables on which the properties of the root theory are applied.\<close>

definition sample_qcir :: qcir where
  "sample_qcir = qc_append (PZGate (mk_phase 1 4)) [1] (qc_append CXGate [0, 1] (qc_append HGate [0] (qcir_new 2)))"

lemma sample_qcir_ok [simp]: "qc_ok sample_qcir" "qc_qubits sample_qcir = 2" "\<forall>g \<in> set (qc_gates sample_qcir). supported (fst g)"
  "g \<in> set (qc_gates sample_qcir) \<Longrightarrow> adjointable (fst g)"
  by (auto simp: sample_qcir_def qc_append_def qcir_new_def qc_ok_def gates_ok_def gate_ok_def on_qubits_def mk_phase_ok phase_of_int_ok)

definition sample_order :: "nat \<Rightarrow> nat list" where
  "sample_order i = (if even i then [0, 1] else [1, 0])"

lemma sample_order_ok [simp]: "distinct (sample_order i)" "length (sample_order i) = 2"
  by (simp_all add: sample_order_def)

definition sample_table :: "(nat, nat \<times> nat) otable" where
  "sample_table = ot_of_list fst [(1, 10), (2, 20), (3, 30)]"

lemma sample_table_ok [simp]: "ot_ok fst sample_table" "ot_items sample_table = [(1, 10), (2, 20), (3, 30)]"
  using ot_of_list_spec [of fst "[(1 :: nat, 10 :: nat), (2, 20), (3, 30)]"] by (simp_all add: sample_table_def)

lemma three_cities_complete: "complete_graph three_cities" "vertices three_cities \<noteq> []" "verts three_cities = {0, 1, 2}"
proof -
  let ?vs = "fold (add_vertex_with_id ()) [0, 1, 2] dg_empty :: (unit, int) digraph"
  let ?es = "[(0, 1), (0, 2), (1, 2), (2, 1), (1, 0), (2, 0)] :: (nat \<times> nat) list"
  let ?c = "\<lambda>e. the (map_of [((0, 1), 10), ((0, 2), 9), ((1, 2), 1), ((2, 1), 5), ((1, 0), 20), ((2, 0), 20)] e) :: int"
  note v = add_vertices_spec [OF dg_empty_ok(1), where a = "()" and vs = "[0, 1, 2]"]
  have vs: "verts ?vs = {0, 1, 2}" "arcs ?vs = {}" using v(2,3) by (auto simp: dg_empty_ok)
  have e: "three_cities = fold (\<lambda>e. add_edge e (?c e)) ?es ?vs" by (simp add: three_cities_def)
  have "set ?es \<subseteq> verts ?vs \<times> verts ?vs" unfolding vs by simp
  note t = add_edges_spec [OF v(1) this, where c = ?c, folded e]
  show verts: "verts three_cities = {0, 1, 2}" unfolding t(2) vs by simp
  show "vertices three_cities \<noteq> []" using verts by (auto simp: verts_def)
  have "arcs three_cities = set ?es" unfolding t(3) vs by simp
  also have "set ?es = {(u, v). u \<in> {0, 1, 2} \<and> v \<in> {0, 1, 2} \<and> u \<noteq> v}" by auto
  finally show "complete_graph three_cities" unfolding complete_graph_def verts by (intro conjI t(1))
qed

lemma three_cities_cost: "e \<in> arcs three_cities \<Longrightarrow> cost three_cities e \<le> 20"
proof -
  have c: "cost three_cities (0, 1) \<le> 20" "cost three_cities (0, 2) \<le> 20" "cost three_cities (1, 2) \<le> 20"
    "cost three_cities (2, 1) \<le> 20" "cost three_cities (1, 0) \<le> 20" "cost three_cities (2, 0) \<le> 20" by code_simp+
  assume "e \<in> arcs three_cities"
  then show ?thesis using c three_cities_complete by (auto simp: complete_graph_def)
qed

text \<open>A device of three qubits in a line, a circuit for it, and the calls of the standard library.\<close>

definition line_device :: device where
  "line_device = store_device ''line'' 3 [''cx''] [[1], [0, 2], [1]] [[0], [0, 0], [0]] [[0], [0, 0], [0]] [0, 0, 0] [0, 0, 0]"

lemma line_stored:
  "\<exists>d. line_device = calculate_path d \<and> dv_num_qubit d = 3 \<and> tp_num_qubit (dv_topology d) = 3 \<and>
     dv_qubits d = [(phys_qubit_new 0)\<lparr>pq_adjacencies := [1]\<rparr>, (phys_qubit_new 1)\<lparr>pq_adjacencies := [0, 2]\<rparr>, (phys_qubit_new 2)\<lparr>pq_adjacencies := [1]\<rparr>]"
  unfolding line_device_def store_device_def Let_def
  by (rule exI, rule conjI, rule refl)
    (simp add: store_edges_def add_adjacency_def upd_qubit_def phys_qubit_new_def add_adjacency_info_def add_qubit_info_def topology_new_def
      upt_rec numeral_3_eq_3 numeral_2_eq_2)

lemma line_qubits:
  "dv_qubits line_device =
     [(phys_qubit_new 0)\<lparr>pq_adjacencies := [1]\<rparr>, (phys_qubit_new 1)\<lparr>pq_adjacencies := [0, 2]\<rparr>, (phys_qubit_new 2)\<lparr>pq_adjacencies := [1]\<rparr>]"
  using line_stored calculate_path_qubits(1) by metis

lemma line_coupling: "coupling line_device = {(0, 1), (1, 0), (1, 2), (2, 1)}"
  by (auto simp: coupling_def line_qubits nth_Cons' numeral_3_eq_3 less_Suc_eq)

lemma line_connected: "i < 3 \<Longrightarrow> j < 3 \<Longrightarrow> (i, j) \<in> (coupling line_device)\<^sup>*"
proof -
  have e: "(0, 1) \<in> coupling line_device" "(1, 0) \<in> coupling line_device" "(1, 2) \<in> coupling line_device" "(2, 1) \<in> coupling line_device"
    by (simp_all add: line_coupling)
  have "(i, 1) \<in> (coupling line_device)\<^sup>*" if "i < 3" for i
    using e that by (cases "i = 1") (auto simp: numeral_3_eq_3 less_Suc_eq numeral_2_eq_2)
  moreover have "(1, j) \<in> (coupling line_device)\<^sup>*" if "j < 3" for j
    using e that by (cases "j = 1") (auto simp: numeral_3_eq_3 less_Suc_eq numeral_2_eq_2)
  ultimately show "i < 3 \<Longrightarrow> j < 3 \<Longrightarrow> (i, j) \<in> (coupling line_device)\<^sup>*" by (meson rtrancl_trans)
qed

lemma line_graph: "graph_ok 3 (coupling line_device)"
  unfolding line_coupling graph_ok_def by (auto simp: irrefl_def sym_def)

lemma three_cases: "i < 3 \<Longrightarrow> i = 0 \<or> i = 1 \<or> i = (2 :: nat)"
  by auto

lemma line_fresh: "fresh_device line_device" "length (dv_qubits line_device) = 3"
proof -
  show l: "length (dv_qubits line_device) = 3" by (simp add: line_qubits)
  obtain d where d: "line_device = calculate_path d" "dv_num_qubit d = 3" "tp_num_qubit (dv_topology d) = 3" "dv_qubits d = dv_qubits line_device"
    using line_stored line_qubits by metis
  have at: "pq_id (phys line_device i) = i \<and> \<not> pq_marked (phys line_device i) \<and> \<not> pq_taken (phys line_device i) \<and>
      pq_cost (phys line_device i) = pq_occupied (phys line_device i)" if "i < 3" for i
    using three_cases [OF that] by (elim disjE) (simp_all add: line_qubits phys_qubit_new_def)
  have "coupling d = coupling line_device" by (simp add: coupling_def d(4))
  then have "device_ok d" using line_graph at l by (simp add: device_ok_def d(2-4) max_dist_def)
  then have "device_ok line_device" using calculate_path_tables(2) d(1) by metis
  then show "fresh_device line_device"
    using line_connected at by (simp add: fresh_device_def l connected_device_def device_idle_def)
qed

definition line_gates :: "gate list" where
  "line_gates = [(CXGate, [0, 2]), (HGate, [1])]"

lemma line_gates_ok: "mappable_circuit 3 line_gates"
  by (auto simp: line_gates_def mappable_circuit_def mappable_def gate_ok_def on_qubits_def phase_of_int_ok operation_eq_def)

definition plain_std :: std_calls where
  "plain_std = \<lparr>std_rand = (\<lambda>_. 0), std_shuffle = rev, std_sort = sort_key start_time, std_nth_element = (\<lambda>_. sort_key tn_max_cost)\<rparr>"

lemma plain_std_ok: "std_ok plain_std"
proof -
  have "tn_max_cost (sort_key tn_max_cost cs ! i) \<le> tn_max_cost (sort_key tn_max_cost cs ! j)" if "i < k" "k \<le> j" "j < length cs" for i j k cs
    using sorted_nth_mono [OF sorted_sort_key [of tn_max_cost cs], of i j] that by simp
  then show ?thesis by (auto simp: std_ok_def plain_std_def shuffles_def sorts_def partitions_def)
qed

lemma line_gates_wf: "gates_ok 3 line_gates" "\<forall>g \<in> set line_gates. snd g \<noteq> []"
  using line_gates_ok by (auto simp: mappable_circuit_def mappable_def gates_ok_def list_all_iff)

lemma line_router:
  "\<exists>r p. router_new (place [0, 1, 2] line_device) Duostra_router Cost_start Min_option = Some r \<and> router_ok r p \<and>
     length (dv_qubits (rt_device r)) = 3 \<and> placed (rt_device r) p"
proof -
  have d: "device_ok line_device" "connected_device line_device" "device_idle line_device"
    using line_fresh(1) by (simp_all add: fresh_device_def)
  have "orders 3 [0, 1, 2]" by (auto simp: orders_def)
  then have o: "orders (length (dv_qubits line_device)) [0, 1, 2]" by (simp add: line_fresh(2))
  obtain p where p: "placed (place [0, 1, 2] line_device) p" "same_but_logical line_device (place [0, 1, 2] line_device)"
    using place_placed [OF d(1) o] by blast
  have f: "same_frame line_device (place [0, 1, 2] line_device)" using p(2) by (simp add: same_but_logical_def)
  obtain r where r: "router_new (place [0, 1, 2] line_device) Duostra_router Cost_start Min_option = Some r" "router_ok r p"
    "dv_qubits (rt_device r) = dv_qubits (place [0, 1, 2] line_device)"
    using router_new_ok [OF same_frame_ok [OF f d(1)] same_frame_connected [OF f d(2)] p(1) same_but_logical_idle [OF p(2) d(3)]] by blast
  then show ?thesis using same_frame_length [OF f] line_fresh(2) by (auto simp: router_ok_def)
qed

lemma line_starts: "\<exists>d p s. starts 3 line_gates d p s"
proof -
  obtain r p where r: "router_ok r p" "length (dv_qubits (rt_device r)) = 3" "placed (rt_device r) p" using line_router by blast
  obtain topo where topo: "topo_ok 3 line_gates {} topo"
    using topology_new_ok [OF qg_of_gates_links [OF line_gates_wf(1)]] by blast
  have "circuit_fits 3 line_gates (rt_device r)"
    using r line_gates_ok by (auto simp: circuit_fits_def mappable_circuit_def router_ok_def)
  moreover have "scheduled 3 line_gates (rt_device r) p (r, scheduler_new topo) []"
    using topo r(1) runs_refl [OF r(3)] by (auto simp: scheduled_def scheduler_new_def keeps_order_def)
  ultimately show ?thesis unfolding starts_def by blast
qed

end
