(* ===== verification/Corollaries.thy ===== *)
theory Corollaries
  imports CircuitSamples
begin

text \<open>
  What the components promise one by one: the facts on which the properties of the root theory rest, stated for the
  code's operations and applied to a small input each.
\<close>

text \<open>
  A parity matrix is recovered from its columns, and from its rows.
\<close>

theorem parity_matrix_roundtrip:
  assumes "pm_ok m k M" "0 < m"
  shows "from_columns m (map (pm_column M) [0..<k]) = M \<and> from_rows (pm_rows M) = M"
  using columns_roundtrip [OF assms(1)] rows_roundtrip [OF assms] by simp

lemma parity_matrix_roundtrip_witness: "from_rows (pm_rows (pm_identity 2)) = pm_identity 2"
  using parity_matrix_roundtrip [of 2 2 "pm_identity 2"] by (simp add: pm_identity_spec(1))

text \<open>
  Every row of the transposed nullspace is orthogonal to every row of the matrix.
\<close>

theorem nullspace_correct:
  assumes "bm_ok m k M" "0 < m" "0 < k" "y \<in> set (bm_rows (get_nullspace_transposed M))" "c < m"
  shows "row_ok k y \<and> orth k (bit_at y) (bm_fun M c)"
  using nullspace_spec [OF assms(1-4)] assms(5) by auto

lemma nullspace_correct_witness:
  "row_ok 3 [1, 1, 1] \<and> orth 3 (bit_at [1, 1, 1]) (bm_fun (bm_of_rows [[1, 0, 1], [0, 1, 1]]) 0)"
proof (rule nullspace_correct)
  show "bm_ok 2 3 (bm_of_rows [[1, 0, 1], [0, 1, 1]])" by (simp add: bm_ok_def bm_of_rows_def)
  show "[1, 1, 1] \<in> set (bm_rows (get_nullspace_transposed (bm_of_rows [[1, 0, 1], [0, 1, 1]])))" by code_simp
qed simp_all

text \<open>
  Cancelling pairs of equal row operations leaves their effect on every matrix unchanged, and the returned number is how many operations were removed.
\<close>

theorem filtered_operations_agree:
  assumes "ops_ok m (bm_ops M)"
  shows "row_adds (bm_ops (snd (filter_duplicate_row_operations M))) f = row_adds (bm_ops M) f \<and>
    length (bm_ops (snd (filter_duplicate_row_operations M))) + fst (filter_duplicate_row_operations M) = length (bm_ops M)"
  using filter_duplicate_spec(1,3) [OF assms] by blast

lemma filtered_operations_agree_witness:
  "fst (filter_duplicate_row_operations \<lparr>bm_rows = [[1], [0]], bm_ops = [(0, 1), (0, 1)]\<rparr>) \<le> 2"
  using filtered_operations_agree [of 2 "\<lparr>bm_rows = [[1], [0]], bm_ops = [(0, 1), (0, 1)]\<rparr>" "\<lambda>_ _. False"] by simp

text \<open>
  The elimination of an augmented matrix returns whether the linear system over GF(2) has a solution.
\<close>

theorem augmented_elimination_decides:
  assumes "bm_ok m (Suc nv) M" "0 < m"
  shows "fst (gaussian_elimination_augmented track M) \<longleftrightarrow> (\<exists>x. solves (bm_fun M) m nv nv x)"
  using augmented_solvable(1) [OF assms] .

lemma augmented_elimination_decides_witness:
  "fst (gaussian_elimination_augmented False sample_matrix) \<longleftrightarrow> (\<exists>x. solves (bm_fun sample_matrix) 2 2 2 x)"
  by (rule augmented_elimination_decides) (simp_all add: numeral_3_eq_3 [symmetric] del: One_nat_def)

text \<open>
  The loop that makes a phase proper ends for every phase in normal form, with a phase in $[0, \pi/2)$ and a complement that is a multiple of $\pi/2$ and accounts for the difference.
\<close>

theorem complement_loop_terminates:
  assumes "phase_ok ph"
  shows "\<exists>ph' c. complement_loop ph (phase_of_int 0) = Some (ph', c) \<and> phase_ok ph' \<and> is_proper_phase ph' \<and>
    mod2 (phase_val c + phase_val ph') (phase_val ph) \<and> (c = phase_of_int 0 \<or> quarter c)"
  using complement_loop_result [OF assms] by blast

lemma complement_loop_terminates_witness:
  "\<exists>ph' c. complement_loop (mk_phase (-1) 4) (phase_of_int 0) = Some (ph', c) \<and> is_proper_phase ph'"
  using complement_loop_terminates [of "mk_phase (-1) 4"] by (auto simp: mk_phase_ok)

text \<open>
  \<open>properize\<close> on a stabilizer tableau and a list of rotations returns, keeps the operator and leaves only non-trivial rotations by an angle in $[0, \pi/2)$.
\<close>

theorem properize_correct:
  assumes "st_ok n T" "rots_ok n rs"
  shows "\<exists>T' rs'. properize T rs = Some (T', rs') \<and> equivalent n [SubST T, SubPR rs] [SubST T', SubPR rs'] \<and>
    (\<forall>R \<in> set rs'. is_proper_phase (rot_phase R) \<and> \<not> rot_is_trivial R)"
  using properize_rel [OF assms] by (auto simp: pass_rel_def all_proper_def list_all_iff)

lemma properize_correct_witness: "\<exists>T' rs'. properize sample_st sample_rotations = Some (T', rs')"
  using properize_correct [of 2 sample_st sample_rotations] by auto

text \<open>
  Removing trivial rotations, empty lists and identity tableaux and merging neighbouring stabilizer tableaux keeps the operator of the sequence.
\<close>

theorem remove_identities_correct:
  assumes "tab_ok n t" "\<And>i. \<not> stop i"
  shows "equivalent n (subtableaux t) (subtableaux (remove_identities stop t))"
  using remove_identities_equiv [OF assms(1), of stop, OF assms(2)] .

lemma remove_identities_correct_witness:
  "equivalent 2 (subtableaux sample_tableau) (subtableaux (remove_identities (\<lambda>_. False) sample_tableau))"
  by (rule remove_identities_correct) simp_all

text \<open>
  The gates of a tableau act after its operator, provided it holds a stabilizer tableau: conjugating the rotations from the back up to the last stabilizer tableau and applying the gate there is the gate at the end. A tableau without one loses the gate.
\<close>

theorem tableau_gates:
  assumes "tab_ok n t" "has_clifford (subtableaux t)" "string_ok n xs"
  shows "tab_ok n (trait_apply_string tab_trait xs t) \<and>
    op_eq n (\<lambda>v. subs_op (subtableaux (trait_apply_string tab_trait xs t)) v)
      (\<lambda>v. trait_apply_string q_trait xs (subs_op (subtableaux t) v))"
  using acts_string [OF assms(3)] assms(1,2) by (simp add: acts_def)

lemma tableau_gates_witness: "tab_ok 2 (trait_apply_string tab_trait sample_circuit sample_tableau)"
  using tableau_gates [of 2 sample_tableau sample_circuit] by simp

text \<open>
  Moving an operator string past a list of rotations, by applying it to every rotation, gives the same unitary: the sign of a conjugated product is folded into the phase by \<open>_normalize\<close>.
\<close>

theorem rotation_conjugation:
  assumes "string_ok n xs" "rots_ok n rs"
  shows "op_eq n (\<lambda>v. trait_apply_string q_trait xs (rots_op rs v))
    (\<lambda>v. rots_op (map (trait_apply_string rot_trait xs) rs) (trait_apply_string q_trait xs v))"
  using assms by (rule string_through_rotations)

lemma rotation_conjugation_witness:
  "op_eq 2 (\<lambda>v. trait_apply_string q_trait sample_circuit (rots_op sample_rotations v))
    (\<lambda>v. rots_op (map (trait_apply_string rot_trait sample_circuit) sample_rotations) (trait_apply_string q_trait sample_circuit v))"
  by (rule rotation_conjugation) simp_all

text \<open>
  The operators extracted for a rotation conjugate it to a rotation around \<open>Z\<close> of the returned qubit with the same phase; the code reads \<open>back()\<close> of an empty vector exactly when the product is the identity.
\<close>

theorem rotation_extraction:
  assumes "rot_ok n R"
  shows "(rot_extract_clifford_operators R = None \<longleftrightarrow> is_identity (rot_product R)) \<and>
    (\<forall>ops q. rot_extract_clifford_operators R = Some (ops, q) \<longrightarrow> string_ok n ops \<and> q < n \<and>
       trait_apply_string rot_trait ops R = \<lparr>rot_product = z_gen n q, rot_phase = rot_phase R\<rparr>)"
  using rot_extract_spec [OF assms] by blast

lemma rotation_extraction_witness:
  "rot_extract_clifford_operators (mk_rotation (x_gen 2 1) (mk_phase 1 2)) \<noteq> None"
proof -
  have "rot_ok 2 (mk_rotation (x_gen 2 1) (mk_phase 1 2))" by (intro mk_rotation_ok mk_phase_ok) simp_all
  from rotation_extraction [OF this] show ?thesis
    by (simp add: mk_rotation_def rot_normalize_def gen_not_identity)
qed

text \<open>
  Conjugation by an operator string is an automorphism of the signed Pauli group: it commutes with the product computed by \<open>operator*\<close>, whose sign comes from counting powers of $i$.
\<close>

theorem conjugation_homomorphism:
  assumes "string_ok n xs" "pp_ok n P" "pp_ok n Q"
  shows "trait_apply_string pp_trait xs (pp_times P Q) =
    pp_times (trait_apply_string pp_trait xs P) (trait_apply_string pp_trait xs Q)"
  using homD(2) [OF hom_apply_string [OF assms(1)] assms(2,3)] .

lemma conjugation_homomorphism_witness:
  "trait_apply_string pp_trait sample_circuit (pp_times (x_gen 2 0) (z_gen 2 0)) =
    pp_times (trait_apply_string pp_trait sample_circuit (x_gen 2 0)) (trait_apply_string pp_trait sample_circuit (z_gen 2 0))"
  by (rule conjugation_homomorphism [of 2]) simp_all

text \<open>
  Phases are an abelian group under addition, with equality of the stored fractions: \<open>operator+\<close> is commutative and associative, the zero phase is neutral and multiplication by \<open>-1\<close> inverts.
\<close>

theorem phase_group:
  assumes "phase_ok p" "phase_ok q" "phase_ok r"
  shows "phase_plus p q = phase_plus q p \<and> phase_plus (phase_plus p q) r = phase_plus p (phase_plus q r) \<and>
    phase_plus p phase_zero = p \<and> phase_plus p (phase_negate p) = phase_zero"
  using phase_plus_comm [OF assms(1,2)] phase_plus_assoc [OF assms] phase_plus_zero [OF assms(1)]
    phase_plus_negate [OF assms(1)] by blast

lemma phase_group_witness:
  "phase_plus (phase_plus (mk_phase 3 4) (mk_phase 3 4)) (mk_phase 1 2) =
    phase_plus (mk_phase 3 4) (phase_plus (mk_phase 3 4) (mk_phase 1 2))"
  using phase_group [of "mk_phase 3 4" "mk_phase 3 4" "mk_phase 1 2"] by (simp add: mk_phase_ok)

text \<open>
  Taking the adjoint of a tableau twice gives it back, and the adjoint of the tableau of a circuit is the tableau of the adjoint circuit, whatever circuit the synthesis finds in between.
\<close>

theorem st_adjoint_involution:
  assumes "string_ok n xs" "\<And>i. \<not> stop i"
  shows "st_adjoint stop (trait_apply_string st_trait xs (st_init n)) = trait_apply_string st_trait (adjoint_string xs) (st_init n) \<and>
    st_adjoint stop (st_adjoint stop (trait_apply_string st_trait xs (st_init n))) = trait_apply_string st_trait xs (st_init n)"
proof -
  have T: "st_ok n (trait_apply_string st_trait xs (st_init n))" by (rule st_apply_string_ok [OF st_init_ok assms(1)])
  show ?thesis
    using st_adjoint_props(2) [OF T, of stop xs, OF assms(2) assms(1) refl] st_adjoint_adjoint [OF T, of stop, OF assms(2)] by blast
qed

lemma st_adjoint_involution_witness:
  "st_adjoint (\<lambda>_. False) (trait_apply_string st_trait sample_circuit (st_init 2)) =
    trait_apply_string st_trait (adjoint_string sample_circuit) (st_init 2)"
  using st_adjoint_involution [of 2 sample_circuit "\<lambda>_. False"] by simp

text \<open>
  The stabilizer tableau is a faithful representation: two operator strings with the same tableau are the same unitary on $n$ qubits up to a global factor.
\<close>

theorem tableau_faithful:
  assumes "string_ok n xs" "string_ok n ys"
    "trait_apply_string st_trait xs (st_init n) = trait_apply_string st_trait ys (st_init n)"
  shows "op_eq n (trait_apply_string q_trait xs) (trait_apply_string q_trait ys)"
  using assms by (rule tableau_determines_circuit)

lemma tableau_faithful_witness:
  "op_eq 2 (trait_apply_string q_trait [(COT_h, 0, 0), (COT_h, 0, 0)]) (trait_apply_string q_trait [(COT_x, 1, 0), (COT_x, 1, 0)])"
proof (rule tableau_faithful)
  show "trait_apply_string st_trait [(COT_h, 0, 0), (COT_h, 0, 0)] (st_init 2) =
      trait_apply_string st_trait [(COT_x, 1, 0), (COT_x, 1, 0)] (st_init 2)"
    by code_simp
qed simp_all

text \<open>
  \<open>collapse\<close> keeps the operator of the sequence and leaves one stabilizer tableau followed by at most one list of rotations, as the assertions at its end say.
\<close>

theorem collapse_correct:
  assumes "tab_ok n t" "\<And>i. \<not> stop i"
  shows "equivalent n (subtableaux t) (subtableaux (collapse stop t)) \<and> collapsed (subtableaux (collapse stop t))"
  using collapse_equiv(1,2) [OF assms(1), of stop, OF assms(2)] by blast

lemma collapse_correct_witness: "collapsed (subtableaux (collapse (\<lambda>_. False) sample_tableau))"
  using collapse_correct [of 2 sample_tableau "\<lambda>_. False"] by simp

text \<open>
  The printed form of a phase determines it: two phases in normal form that print alike are equal.
\<close>

theorem phase_print_roundtrip:
  assumes "phase_ok p" "phase_ok q" "get_print_string p = get_print_string q"
  shows "p = q"
  using assms by (rule print_string_inj)

lemma phase_print_roundtrip_witness:
  "get_print_string (mk_phase 9 4) = get_print_string (mk_phase 1 4) \<and> mk_phase 9 4 = mk_phase 1 4"
proof -
  have e: "get_print_string (mk_phase 9 4) = get_print_string (mk_phase 1 4)" by code_simp
  with phase_print_roundtrip [of "mk_phase 9 4" "mk_phase 1 4"] show ?thesis by (simp add: mk_phase_ok)
qed

text \<open>
  The rows of a tableau stay a symplectic basis: the identity tableau has the relation, and every operator, appended or prepended, keeps it.
\<close>

theorem symplectic_invariant:
  assumes "st_ok n T" "op_ok n x"
  shows "st_ok n (st_init n) \<and> st_ok n (trait_apply st_trait x T) \<and> st_ok n (st_prepend x T)"
  by (intro conjI st_init_ok st_apply_ok [OF assms] st_prepend_ok [OF assms])

lemma symplectic_invariant_witness: "st_ok 2 (st_prepend (COT_ecr, 1, 0) sample_st)"
  using symplectic_invariant [of 2 sample_st "(COT_ecr, 1, 0)"] by simp

text \<open>
  Block elimination, for every block size, leaves a matrix in echelon form with as many pivots as the rank it returns, reached by row additions that are exactly those recorded; with full reduction the pivot columns are unit columns.
\<close>

theorem elimination_echelon:
  assumes "bm_ok m k M" "0 < bs" "0 < m" "gaussian_elimination_skip bs full track M = (rank, N)"
  shows "\<exists>ps ops. length ps = rank \<and> echelon (bm_fun N) m ps k \<and> (full \<longrightarrow> unit_cols (bm_fun N) m ps 0) \<and>
    ops_ok m ops \<and> bm_ops N = (if track then bm_ops M @ ops else bm_ops M) \<and>
    (\<forall>r < m. \<forall>j < k. bm_fun N r j = row_adds ops (bm_fun M) r j)"
  by (rule gaussian_elimination_spec [OF assms]) (auto simp: steps_def)

lemma elimination_echelon_witness:
  "\<exists>ps. length ps = fst (gaussian_elimination_skip 2 True True sample_matrix) \<and>
    echelon (bm_fun (snd (gaussian_elimination_skip 2 True True sample_matrix))) 2 ps 3"
  using elimination_echelon [OF sample_matrix_ok, of 2 True True "fst (gaussian_elimination_skip 2 True True sample_matrix)"
      "snd (gaussian_elimination_skip 2 True True sample_matrix)"] by auto

text \<open>
  The adjoint of a sequence of sub-tableaux is its inverse: running the sequence and then its adjoint is the identity up to a global factor.
\<close>

theorem tableau_adjoint:
  assumes "tab_ok n t" "\<And>i. \<not> stop i"
  shows "tab_ok n (tab_adjoint stop t) \<and>
    op_eq n (\<lambda>v. subs_op (subtableaux (tab_adjoint stop t)) (subs_op (subtableaux t) v)) (\<lambda>v. v)"
  using subs_adjoint_op [of n "subtableaux t" stop, OF _ assms(2)] assms(1)
  by (simp add: tab_adjoint_def tab_ok_def)

lemma tableau_adjoint_witness: "tab_ok 2 (tab_adjoint (\<lambda>_. False) sample_tableau)"
  using tableau_adjoint [of 2 sample_tableau "\<lambda>_. False"] by simp

text \<open>
  Conjugating a Pauli product by an operator string is what the code says it is: for the unitary of the string, applying the product and then the unitary equals applying the unitary and then the conjugated product, signs included, for all twelve operator types; and the adjoint string undoes it.
\<close>

theorem conjugation_sound:
  assumes "string_ok n xs" "pp_ok n P"
  shows "pp_ok n (trait_apply_string pp_trait xs P) \<and>
    trait_apply_string q_trait xs (q_pauli P v) = q_pauli (trait_apply_string pp_trait xs P) (trait_apply_string q_trait xs v) \<and>
    trait_apply_string pp_trait (adjoint_string xs) (trait_apply_string pp_trait xs P) = P"
  using conjugates_string [OF assms(1)] pp.apply_adjoint_string [OF assms(2,1)] assms(2)
  by (simp add: conjugates_def)

lemma conjugation_sound_witness:
  "trait_apply_string pp_trait (adjoint_string sample_circuit) (trait_apply_string pp_trait sample_circuit (x_gen 2 0)) = x_gen 2 0"
  using conjugation_sound [of 2 sample_circuit "x_gen 2 0"] by simp

text \<open>
  The sum of two fractions is computed without overflow of the 32-bit casts in \<open>reduce\<close> as long as all numerators and denominators are below $2^{15}$ in absolute value.
\<close>

theorem rational_sum_fits:
  assumes "\<bar>numer l\<bar> < 2 ^ 15" "\<bar>denom l\<bar> < 2 ^ 15" "\<bar>numer r\<bar> < 2 ^ 15" "\<bar>denom r\<bar> < 2 ^ 15"
  shows "rat_plus l r = rat_reduce \<lparr>numer = numer l * denom r + denom l * numer r, denom = denom l * denom r\<rparr> \<and>
    reduce_in_range \<lparr>numer = numer l * denom r + denom l * numer r, denom = denom l * denom r\<rparr>"
  using rat_plus_in_range [OF assms] by (simp add: rat_plus_def mk_rational_def)

lemma rational_sum_fits_witness:
  "reduce_in_range \<lparr>numer = 32767 * 32766 + 32767 * 1, denom = 32767 * 32766\<rparr>"
  using rational_sum_fits [of "\<lparr>numer = 32767, denom = 32767\<rparr>" "\<lparr>numer = 1, denom = 32766\<rparr>"] by simp

text \<open>
  Removing a vertex of a directed graph keeps the graph well-formed (the two neighbour maps mirror each other and match the edge attributes), removes exactly the vertex and the edges at it with their attributes, and returns how many vertices were removed.
\<close>

theorem digraph_remove_vertex:
  assumes "dg_ok g" "remove_vertex v g = (g', n)"
  shows "dg_ok g' \<and> verts g' = verts g - {v} \<and> arcs g' = {(u, w) \<in> arcs g. u \<noteq> v \<and> w \<noteq> v} \<and> n = (if v \<in> verts g then 1 else 0) \<and>
    edge_attr e g' = (if fst e = v \<or> snd e = v then None else edge_attr e g)"
  by (intro conjI remove_vertex_spec [OF assms])

lemma digraph_remove_vertex_witness: "verts (fst (remove_vertex 1 three_cities)) = {0, 1, 2} - {1}"
  using digraph_remove_vertex [of three_cities 1 "fst (remove_vertex 1 three_cities)" "snd (remove_vertex 1 three_cities)"]
    three_cities_complete by (simp add: complete_graph_def)

text \<open>
  Erasing from an ordered hash table keeps the table well-formed, removes exactly the element with the key, keeps the others in their order whether or not the table is swept of its placeholders, and returns how many elements were removed.
\<close>

theorem ordered_table_erase:
  assumes "ot_ok key t"
  shows "ot_ok key (fst (ot_erase key k t)) \<and> ot_items (fst (ot_erase key k t)) = filter (\<lambda>v. key v \<noteq> k) (ot_items t) \<and>
    snd (ot_erase key k t) = (if k \<in> key ` set (ot_items t) then 1 else 0)"
  by (intro conjI ot_erase_spec [OF assms])

lemma ordered_table_erase_witness: "ot_items (fst (ot_erase fst 2 sample_table)) = [(1, 10), (3, 30)]"
  using ordered_table_erase [OF sample_table_ok(1), of 2] by simp

text \<open>
  Both linear-reversible syntheses return, on an invertible parity matrix, CNOTs on distinct qubits of the matrix that turn it into the identity; the error branch of Gauss-Jordan is not taken.
\<close>

theorem linear_synthesis_correct:
  assumes "pm_ok n n M" "invertible n (pm_get M)"
  shows "\<exists>ops. synthesize_linear_reversible mode M = Some ops \<and> ops_ok n ops \<and> is_square_identity (pm_cnots ops M)"
  by (rule synthesize_linear_spec [OF assms])

lemma linear_synthesis_correct_witness: "\<exists>ops. synthesize_linear_reversible PatelMarkovHayes (pm_identity 3) = Some ops \<and> ops_ok 3 ops"
  using linear_synthesis_correct [of 3 "pm_identity 3" PatelMarkovHayes] by (auto simp: pm_identity_spec(1) pm_identity_invertible)

text \<open>
  Prepending an operator to the tableau of a circuit gives exactly the tableau of the circuit with that operator in front, for each of the twelve operator types, although \<open>prepend_y\<close> and \<open>prepend_ecr\<close> put their factors in another order than the mixin does.
\<close>

theorem prepend_correct:
  assumes "op_ok n x" "string_ok n xs"
  shows "st_prepend x (trait_apply_string st_trait xs (st_init n)) = trait_apply_string st_trait (x # xs) (st_init n)"
  using assms by (rule st_prepend_circuit)

lemma prepend_correct_witness:
  "st_prepend (COT_ecr, 1, 0) (trait_apply_string st_trait [(COT_v, 0, 0), (COT_cx, 0, 1)] (st_init 2)) =
    trait_apply_string st_trait [(COT_ecr, 1, 0), (COT_v, 0, 0), (COT_cx, 0, 1)] (st_init 2)"
  by (rule prepend_correct) simp_all

text \<open>
  Extraction of a block of CNOTs and Z rotations gives a well-formed problem without all-zero parities whose phase polynomial and linear map are those of executing the block gate by gate.
\<close>

theorem phase_block_extraction:
  assumes "list_all (phase_op_ok n) (blk_ops B)" "blk_qubits B = n"
  shows "problem_ok n (phase_block_to_problem B) \<and> no_zero_columns (phase_matrix (phase_block_to_problem B)) \<and>
    mod2 (problem_turn (phase_block_to_problem B) b) (ops_turn (blk_ops B) b) \<and>
    (\<forall>q < n. problem_map (phase_block_to_problem B) b q = ops_bits (blk_ops B) b q)"
  using phase_block_spec [OF assms] by blast

lemma phase_block_extraction_witness:
  "problem_map (phase_block_to_problem sample_block) (\<lambda>q. q = 0) 1 = ops_bits (blk_ops sample_block) (\<lambda>q. q = 0) 1"
  using phase_block_extraction [of 2 sample_block "\<lambda>q. q = 0"] sample_block_ops by simp

end
