(* ===== verification/Spec2Isabelle.thy ===== *)
theory Spec2Isabelle
  imports Corollaries
begin

text \<open>
  A verification of two parts of qsyn, a compiler for quantum circuits written in C++ (directory src/src). The tableau core
  takes a circuit, turns it into a tableau of Pauli rotations and Clifford operators, optimises the tableau and turns it
  back into a circuit; beside it there is a search for cheap circuits of phase polynomials. The development follows this
  route from end to end: \<open>optimised_circuit_correct\<close> says that the circuit that comes out has the operator of the circuit
  that went in. The mapper (duostra) takes a circuit to a device on which only some pairs of qubits are coupled: it places
  the qubits, schedules and routes the gates with swaps and builds the physical circuit; \<open>duostra_map_correct\<close> says that
  it does not fail and that the physical circuit acts as the circuit that went in, SWAP gates apart.

  The parts of the program and the theories that model them:

  \<^item> util/rational, util/phase: \<open>Rational\<close> and \<open>Phase\<close>. Fractions are a record of two integers, reduced as the code does;
    the range in which the casts of the code are exact is \<open>reduce_in_range\<close>. Phases are fractions of \<open>\<pi>\<close> in \<open>(-1, 1]\<close>
    (\<open>phase_ok\<close>), with their printed form.
  \<^item> tableau/pauli_rotation: \<open>Pauli\<close>, \<open>PauliProduct\<close>, \<open>Rotations\<close>. The mixin \<open>PauliProductTrait\<close> is a record of the three
    operations \<open>h\<close>, \<open>s\<close> and \<open>cx\<close> (\<open>trait\<close>), on which the derived gates and operator strings are defined once, as in
    the code; the locale on it has the laws of an action and is interpreted for products, rotations, tableaux and
    state vectors. \<open>PauliAlgebra\<close>, \<open>PauliSemantics\<close> and \<open>RotationSemantics\<close> relate them to operators on state vectors.
  \<^item> tableau/stabilizer_tableau: \<open>Stabilizer\<close> (the tableau, invariant \<open>st_ok\<close>), \<open>StabilizerPrepend\<close>,
    \<open>StabilizerSynthesis\<close> (Aaronson-Gottesman and H-optimal synthesis, adjoint), \<open>Circuits\<close> (the operator of a tableau).
  \<^item> tableau/tableau and tableau/tableau_optimization: \<open>Tableau\<close>, \<open>TableauOptimization\<close>, with the correctness of the passes
    in \<open>TableauPasses\<close>, \<open>SequencePasses\<close>, \<open>PhasePolynomials\<close>, \<open>DiagonalProperize\<close>, \<open>PolynomialStrategies\<close>; the
    optimize directory in \<open>InternalH\<close>, \<open>Todd\<close> and the Todd* theories; \<open>FullOptimize\<close> composes them.
  \<^item> util/boolean_matrix: \<open>BooleanMatrix\<close>, \<open>Gf2Matrix\<close>, \<open>GaussianElimination\<close>, \<open>RowOperations\<close>.
  \<^item> tableau/phasepoly: \<open>ParityMatrices\<close>, \<open>LinearSynthesis\<close>, \<open>PhaseProblems\<close>, \<open>PhaseExtraction\<close>, \<open>PhaseSearch\<close>,
    \<open>PhaseSearchCorrect\<close>, \<open>PhaseStrategy\<close>, \<open>ToddPreprocess\<close>, \<open>Multiblock\<close>, \<open>MultiblockCorrect\<close>.
  \<^item> qcir: \<open>Operations\<close> (gates, circuits as lists of gates), \<open>OperationSemantics\<close>, \<open>AdjointCircuits\<close>; \<open>CircuitGraph\<close> has the
    links between the gates that a circuit keeps, and \<open>TopologicalOrder\<close> the order, times and depth computed from them.
    \<open>gate_list_faithful\<close> joins the two views of a circuit.
  \<^item> device: \<open>Device\<close> (topology, physical qubits, Floyd-Warshall), \<open>DevicePaths\<close> (the paths are shortest).
  \<^item> duostra/router: \<open>Router\<close> has both routers; \<open>Placement\<close> has placements of logical qubits as permutations, what a list
    of operations does to them and in which order times put them, and the router along shortest paths; \<open>DuostraRouting\<close>
    has the invariant of the search from both qubits and its traceback, \<open>GateAssignment\<close> the invariant of a router.
  \<^item> duostra/circuit_topology and the schedulers: \<open>Scheduler\<close>, \<open>ScheduleCorrect\<close> (base, naive, random and greedy) and
    \<open>SearchScheduler\<close> (the tree of candidate schedules).
  \<^item> duostra/placer: \<open>Placer\<close>; duostra/duostra and duostra/mapping_eqv_checker: \<open>Duostra\<close>. \<open>MappingSemantics\<close> relates the
    operator of a routed circuit to that of the gates it routes: gates on other qubits commute, and swaps rename qubits.
  \<^item> convert/qcir_to_tableau: \<open>CircuitToTableau\<close>, \<open>ConversionCorrect\<close>.
  \<^item> convert/tableau_to_qcir: \<open>CliffordToCircuit\<close>, \<open>ParityNetworks\<close>, \<open>GraySynth\<close>, \<open>MstSynthesis\<close>, \<open>MstCorrect\<close>,
    \<open>TableauToCircuit\<close>, \<open>JointSynthesis\<close>; \<open>CircuitPipeline\<close> composes both conversions with the optimisation.
  \<^item> util/ordered_hashtable and ordered_hashmap: \<open>OrderedHashTable\<close>; util/graph: \<open>Digraph\<close>, \<open>Arborescence\<close>,
    \<open>ArborescenceSpan\<close>.
  \<^item> \<open>Prelude\<close> holds the shared lemmas; \<open>Samples\<close> and \<open>CircuitSamples\<close> hold the inputs on which the properties are
    applied; \<open>Corollaries\<close> states what the components promise one by one.

  How the state corresponds. A C++ vector is a list, an ordered table a list with an index, an object that a method changes
  the argument and the result of a function. Reading a vector out of range, \<open>front()\<close> or \<open>back()\<close> of an empty one, and
  loops that do not end are \<open>None\<close> (or \<open>Undefined\<close> where the code also returns \<open>std::nullopt\<close>, which is \<open>NullOpt\<close>).
  The function \<open>stop\<close> answers the polls of \<open>stop_requested()\<close> by their number; where the number matters for the result it
  is threaded through the calls. Random choices (the order of the qubits in Gray synthesis, the random placer and
  scheduler) and the parts of sort and nth_element that the standard leaves open are arguments.

  What the lemmas show. The meaning of every structure is an operator on state vectors, functions from bit assignments to
  complex numbers; \<open>op_eq n\<close> is equality on \<open>n\<close> qubits up to a non-zero factor, \<open>equivalent n\<close> the same for sequences of
  sub-tableaux. Every pass and every conversion is shown to keep it; every loop of the code is shown to end, or to diverge
  where it does (\<open>phasepoly_identity_diverges\<close>). Strategies are locales, whose laws are proved for the strategies of the
  code (\<open>rotation_synthesis\<close> for naive, Gray and MST synthesis; a strategy for phase polynomials and for matroid
  partition). The properties below are ordered by importance; several show behaviour of the code that is not what it
  means to do.

  Bounds and fuel. Loops are \<open>partial_function\<close>s or have measures; the recursion of the arborescence on contracted graphs
  carries fuel, and the number of vertices is enough (\<open>arborescence_spans\<close>). The A* search is bounded by the limits of its
  configuration, as in the code. Integers are unbounded except where the code's width decides a result: the
  reduction of fractions, the largest cost of the arborescence and the total time of a schedule.

  Not modelled. ZX graphs with their simplifier, flow and the extraction of circuits from them are a second core of the
  program, on mutable graphs, of about the size of the one modelled. Tensors and the conversions to them rest on an
  external library and on floating-point numbers. The optimizer of qcir edits the links between gates in place, and its
  oracle synthesis calls a SAT solver. The device file is modelled from the lists that were read on. The readers,
  printers, the command line and the benchmark tables are input and output.
\<close>

text \<open>
  C1. The whole route from circuit to circuit is correct and total: a well-formed circuit of supported gates is converted to a tableau, the complete optimisation returns, and the naive strategy, or Gray synthesis in either mode and with any order of the qubits drawn for each block, gives a circuit on the same qubits with the operator of the original circuit up to a global factor.
\<close>

theorem optimised_circuit_correct:
  assumes "qc_ok c" "\<forall>g \<in> set (qc_gates c). supported (fst g)"
    "strategy = PrNaive \<or> (\<exists>mode orders. strategy = PrGray mode orders \<and> (\<forall>i. distinct (orders i) \<and> length (orders i) = qc_qubits c))"
  shows "\<exists>t t' c'. to_tableau (\<lambda>_. False) c = Some t \<and> full_optimize (\<lambda>_. False) t = Some t' \<and>
    tableau_to_qcir (\<lambda>_. False) st strategy t' = Result c' \<and> qc_ok c' \<and> qc_qubits c' = qc_qubits c \<and>
    op_eq (qc_qubits c) (gates_sem (qc_gates c')) (gates_sem (qc_gates c))"
  by (rule optimised_circuit [OF assms(1,2)])
    (use assms(3) in \<open>auto simp: synthesizes_alone_def strategy_accepts_def naive_accepts_def gray_accepts_def diagonal_block_def\<close>)

lemma optimised_circuit_correct_witness:
  "\<exists>t t' c'. to_tableau (\<lambda>_. False) sample_qcir = Some t \<and> full_optimize (\<lambda>_. False) t = Some t' \<and>
    tableau_to_qcir (\<lambda>_. False) AGSynthesis (PrGray GrayStar sample_order) t' = Result c' \<and>
    op_eq 2 (gates_sem (qc_gates c')) (gates_sem (qc_gates sample_qcir))"
  using optimised_circuit_correct [OF sample_qcir_ok(1,3), of "PrGray GrayStar sample_order" AGSynthesis] by auto

text \<open>
  C2. The complete optimisation routine returns on every well-formed tableau: its loop ends, no pass fails, the result acts as the input does, and every list of rotations left is non-empty, diagonal and without rotations around the identity.
\<close>

theorem full_optimize_correct:
  assumes "tab_ok n t" "\<And>i. \<not> stop i"
  shows "\<exists>t'. full_optimize stop t = Some t' \<and> tab_n_qubits t' = n \<and> equivalent n (subtableaux t) (subtableaux t') \<and>
    (\<forall>rs. SubPR rs \<in> set (subtableaux t') \<longrightarrow> rs \<noteq> [] \<and> diag_rotations rs \<and> reducible rs)"
  using full_optimize_equiv [OF assms(1), of stop, OF assms(2)] .

lemma full_optimize_correct_witness: "\<exists>t'. full_optimize (\<lambda>_. False) sample_tableau = Some t'"
  using full_optimize_correct [of 2 sample_tableau "\<lambda>_. False"] by auto



text \<open>
  C4. Converting a circuit of supported gates to a tableau returns a well-formed tableau, which starts with a stabilizer tableau and has the operator of the circuit up to a global factor. Supported is every gate of the code, nested circuits included, except controlled gates that are not phase gates around X, Y or Z.
\<close>

theorem circuit_to_tableau_correct:
  assumes "qc_ok c" "\<forall>g \<in> set (qc_gates c). supported (fst g)" "\<And>i. \<not> stop i"
  shows "\<exists>t. to_tableau stop c = Some t \<and> tab_ok (qc_qubits c) t \<and> has_clifford (subtableaux t) \<and>
    op_eq (qc_qubits c) (subs_op (subtableaux t)) (gates_sem (qc_gates c))"
  using to_tableau_total [OF assms(1,2), of stop, OF assms(3)] to_tableau_sound [OF assms(1,2), of stop] by blast

lemma circuit_to_tableau_correct_witness:
  "\<exists>t. to_tableau (\<lambda>_. False) sample_qcir = Some t \<and> op_eq 2 (subs_op (subtableaux t)) (gates_sem (qc_gates sample_qcir))"
  using circuit_to_tableau_correct [OF sample_qcir_ok(1,3), of "\<lambda>_. False"] by auto

text \<open>
  C5. Mapping a circuit of gates on one and two qubits to a connected device that no circuit was mapped to yet succeeds with every scheduler (the greedy one and the search need a candidate to choose from), router and placer. The physical circuit has gates on single or coupled qubits only, and read through the placements at its start and at its end it acts as the gates of the circuit other than SWAP gates.
\<close>

theorem duostra_map_correct:
  assumes d: "fresh_device d" and gs: "mappable_circuit n gs" and n: "n \<le> length (dv_qubits d)"
    and conf: "conf_ok conf" and std: "std_ok std"
  shows "\<exists>xs m. place_qubits (dc_placer conf) (std_shuffle std) d = Some xs \<and> orders (length (dv_qubits d)) xs \<and>
    duostra_map std std' conf False False (qg_of_gates n gs) d = Some (Some m) \<and> maps_to d (place xs d) (performed gs) m"
  by (rule duostra_map_performs [OF d gs n conf std])

lemma duostra_map_correct_witness:
  "\<exists>xs m. orders 3 xs \<and> duostra_map plain_std plain_std duostra_default_config False False (qg_of_gates 3 [(CXGate, [0, 2]), (HGate, [1])]) line_device = Some (Some m) \<and>
     maps_to line_device (place xs line_device) [(CXGate, [0, 2]), (HGate, [1])] m"
  using duostra_map_correct [OF line_fresh(1) line_gates_ok _ default_config_ok plain_std_ok, of plain_std]
  by (auto simp: line_fresh(2) line_gates_def operation_eq_def)

text \<open>
  C6. TODD on a list of diagonal rotations returns, whenever its search is interrupted: the new tableau is the old one with a diagonal Clifford string applied, and that string followed by the new rotations is the operator of the old ones.
\<close>

theorem todd_correct:
  assumes "rots_ok n rs" "diag_rotations rs"
  shows "\<exists>d rs'. todd_optimize stop T rs = Some (trait_apply_string st_trait d T, rs') \<and> diag_string n d \<and> rots_ok n rs' \<and>
    diag_rotations rs' \<and> op_eq n (rots_op rs) (\<lambda>v. rots_op rs' (trait_apply_string q_trait d v))"
  by (rule todd_optimize_spec [OF assms])

lemma todd_correct_witness: "\<exists>T rs'. todd_optimize (\<lambda>_. False) sample_st sample_diagonal = Some (T, rs')"
  using todd_correct [of 2 sample_diagonal "\<lambda>_. False" sample_st] by auto

text \<open>
  C7. The memory-bounded A* search, with its greedy fallback and whatever its bounds are, ends on every problem without an all-zero parity and never without a solution: the gates realise the phases and the linear map of the problem, the reported counts are those of the gates, and no more states are expanded than the configuration allows.
\<close>

theorem phasepoly_search_correct:
  assumes "problem_ok n P" "no_zero_columns (phase_matrix P)"
  shows "\<exists>r. synthesize_phasepoly cfg P = Some r \<and> solves_problem n P (res_gates r) \<and>
    num_cx r = length (filter is_cx (res_gates r)) \<and> num_rz r = length (filter (\<lambda>op. \<not> is_cx op) (res_gates r)) \<and>
    expansions r \<le> max_expansions cfg"
  by (rule synthesize_phasepoly_spec [OF assms])

lemma phasepoly_search_correct_witness:
  "\<exists>r. synthesize_phasepoly default_config (phase_block_to_problem sample_block) = Some r \<and> expansions r \<le> max_expansions default_config"
  using phasepoly_search_correct [OF sample_block_ok, of default_config] by auto

text \<open>
  C8. The phase-polynomial strategy returns a circuit on every non-empty list of diagonal rotations that are not around the identity, under every configuration of the search: the CNOTs and Z rotations of the circuit are the operator of the rotations, and there are at most as many Z rotations as input rotations.
\<close>

theorem phasepoly_strategy_correct:
  assumes "rots_ok n rs" "diag_rotations rs" "reducible rs" "rs \<noteq> []"
  shows "\<exists>gates. phasepoly_synthesize cfg rs = Some (Some (n, gates)) \<and> list_all (phase_op_ok n) gates \<and>
    (\<forall>v. phase_ops_op gates v = rots_op rs v) \<and> length (filter (\<lambda>op. \<not> is_cx op) gates) \<le> length rs"
  by (rule phasepoly_synthesize_spec [OF assms])

lemma phasepoly_strategy_correct_witness: "\<exists>gates. phasepoly_synthesize default_config sample_diagonal = Some (Some (2, gates))"
  using phasepoly_strategy_correct [of 2 sample_diagonal default_config] sample_diagonal_nonempty by auto



text \<open>
  C10. Minimising the internal Hadamard gates of a tableau whose rotations are not around the identity returns a tableau that acts as the input does, in which every list of rotations is non-empty and diagonal.
\<close>

theorem internal_hadamards_correct:
  assumes "tab_ok n t" "\<And>i. \<not> stop i" "subs_reducible (subtableaux t)"
  shows "\<exists>t'. minimize_internal_hadamards stop t = Some t' \<and> tab_n_qubits t' = n \<and>
    equivalent n (subtableaux t) (subtableaux t') \<and>
    (\<forall>rs. SubPR rs \<in> set (subtableaux t') \<longrightarrow> rs \<noteq> [] \<and> diag_rotations rs \<and> reducible rs)"
  using minimize_internal_hadamards_equiv [OF assms(1), of stop, OF assms(2,3)] .

lemma internal_hadamards_correct_witness: "\<exists>t'. minimize_internal_hadamards (\<lambda>_. False) sample_tableau = Some t'"
  using internal_hadamards_correct [of 2 sample_tableau "\<lambda>_. False"] sample_reducible by auto

text \<open>
  C11. Resynthesis of the CX and phase blocks of a circuit, each block alone and without TODD, returns a circuit on the same qubits with the operator of the original one, and if blocks are replaced only when that is better, the statistics never report more CX gates after than before.
\<close>

theorem block_resynthesis_correct:
  assumes "qc_ok c" "\<not> apply_block_todd cfg" "\<forall>k \<in> set (group_sizes cfg). k \<le> 1"
  shows "\<exists>c' st pg. optimize_qcir_phasepoly stop c cfg b = Some (c', st, pg) \<and> qc_qubits c' = qc_qubits c \<and> qc_ok c' \<and>
    op_eq (qc_qubits c) (gates_sem (qc_gates c')) (gates_sem (qc_gates c)) \<and> (b \<longrightarrow> cx_after st \<le> cx_before st)"
  by (rule optimize_alone [OF assms])

lemma block_resynthesis_correct_witness:
  "\<exists>c' st pg. optimize_qcir_phasepoly (\<lambda>_. False) sample_qcir (h_config\<lparr>group_sizes := [1]\<rparr>) True = Some (c', st, pg) \<and>
    op_eq 2 (gates_sem (qc_gates c')) (gates_sem (qc_gates sample_qcir)) \<and> cx_after st \<le> cx_before st"
  using block_resynthesis_correct [OF sample_qcir_ok(1), of "h_config\<lparr>group_sizes := [1]\<rparr>" "\<lambda>_. False" True]
  by (auto simp: h_config_def)



text \<open>
  C13. Routing a gate, by either router, returns a list of operations on coupled qubits in which no qubit is used by two at a time. Undoing the swaps of the list leaves exactly the gate on its logical qubits (nothing for a SWAP gate), and the router's record of the places stays correct.
\<close>

theorem route_one_gate_correct:
  assumes r: "router_ok r p" and g: "mappable (length (dv_qubits (rt_device r))) g"
  shows "\<exists>ops r' p'. assign_gate g r = Some (ops, r') \<and> router_ok r' p' \<and> placed (rt_device r') p' \<and>
    unroute (map fst ops) p = (if is_swap_op g then [] else [g]) \<and> final_placement (map fst ops) p = p' \<and>
    (\<forall>x \<in> set ops. on_coupling (rt_device r) (fst x)) \<and> timeline (occupied (rt_device r)) ops"
proof -
  obtain ops r' p' where a: "assign_gate g r = Some (ops, r')" "runs (rt_device r) p ops (performed [g]) (rt_device r') p'" "router_ok r' p'"
    using assign_gate_correct [OF r g] by blast
  have "unroute (map fst ops) p = (if is_swap_op g then [] else [g])" using runsD(3) [OF a(2)] by simp
  then show ?thesis using a(1,3) runsD(2,4,6) [OF a(2)] runsD(5) [OF a(2)] by blast
qed

lemma route_one_gate_correct_witness:
  "\<exists>r p ops r'. router_new (place [0, 1, 2] line_device) Duostra_router Cost_start Min_option = Some r \<and>
     assign_gate (CXGate, [0, 2]) r = Some (ops, r') \<and> unroute (map fst ops) p = [(CXGate, [0, 2])]"
proof -
  obtain r p where r: "router_new (place [0, 1, 2] line_device) Duostra_router Cost_start Min_option = Some r" "router_ok r p"
    "length (dv_qubits (rt_device r)) = 3" using line_router by blast
  have "mappable (length (dv_qubits (rt_device r))) (CXGate, [0, 2])"
    using line_gates_ok r(3) by (simp add: mappable_circuit_def line_gates_def)
  from route_one_gate_correct [OF r(2) this] r(1) show ?thesis by (auto simp: operation_eq_def)
qed


text \<open>
  C15. A SWAP gate of the circuit is taken for a swap of the router: mapping a circuit of one SWAP gate gives a physical circuit that acts as the empty circuit and not as the SWAP gate.
\<close>

theorem swap_gates_lost:
  assumes d: "fresh_device d" and ab: "a < n" "b < n" "a \<noteq> b" and n: "n \<le> length (dv_qubits d)"
    and conf: "conf_ok conf" and std: "std_ok std"
  shows "\<exists>xs m. place_qubits (dc_placer conf) (std_shuffle std) d = Some xs \<and>
    duostra_map std std' conf False False (qg_of_gates n [(SwapGate, [a, b])]) d = Some (Some m) \<and>
    maps_to d (place xs d) [] m \<and> \<not> maps_to d (place xs d) [(SwapGate, [a, b])] m"
  by (rule swap_gate_lost [OF d ab n conf std])

lemma swap_gates_lost_witness:
  "\<exists>xs m. duostra_map plain_std plain_std duostra_default_config False False (qg_of_gates 3 [(SwapGate, [0, 2])]) line_device = Some (Some m) \<and>
     maps_to line_device (place xs line_device) [] m \<and> \<not> maps_to line_device (place xs line_device) [(SwapGate, [0, 2])] m"
proof -
  have "(0 :: nat) < 3" "(2 :: nat) < 3" "(0 :: nat) \<noteq> 2" "3 \<le> length (dv_qubits line_device)" by (simp_all add: line_fresh(2))
  from swap_gates_lost [OF line_fresh(1) this default_config_ok plain_std_ok, of plain_std] show ?thesis by blast
qed

text \<open>
  C16. Circuit extraction is correct: for every tableau whose rows satisfy the symplectic relation and for either mode, when no stop is requested, applying the extracted operator string to the identity tableau gives the tableau back, signs included, and every operator of the string addresses qubits of the tableau.
\<close>

theorem hopt_synthesize_correct:
  assumes "st_ok n T" "\<And>i. \<not> stop i"
  shows "trait_apply_string st_trait (hopt_synthesize stop mode k T) (st_init n) = T \<and>
    string_ok n (hopt_synthesize stop mode k T)"
  using hopt_synthesize_linked [OF assms(1), of stop mode k] assms(2) by blast

lemma hopt_synthesize_correct_witness:
  "let T = trait_apply_string st_trait [(COT_h, 0, 0), (COT_cx, 0, 1), (COT_s, 1, 0)] (st_init 2);
       ops = hopt_synthesize (\<lambda>_. False) Staircase 0 T
   in trait_apply_string st_trait ops (st_init 2) = T \<and> string_ok 2 ops"
proof -
  have "st_ok 2 (trait_apply_string st_trait [(COT_h, 0, 0), (COT_cx, 0, 1), (COT_s, 1, 0)] (st_init 2))"
    by (rule st_apply_string_ok [OF st_init_ok]) simp
  from hopt_synthesize_correct [OF this, of "\<lambda>_. False" Staircase 0] show ?thesis by (simp only: Let_def) simp
qed

text \<open>
  C17. After the computation of the paths of a device, the path between two qubits follows the coupling and is as short as possible when they are connected; when they are not, the code reads behind its tables.
\<close>

theorem shortest_routes:
  assumes d: "device_ok d" and ij: "i < length (dv_qubits d)" "j < length (dv_qubits d)"
  shows "if (i, j) \<in> (coupling d)\<^sup>*
    then \<exists>path. get_path i j (calculate_path d) = Some path \<and> hd (map pq_id path) = i \<and> last (map pq_id path) = j \<and>
      along (coupling d) (map pq_id path) \<and> length path = Suc (LEAST L. (i, j) \<in> coupling d ^^ L)
    else get_path i j (calculate_path d) = None"
proof -
  have ok: "device_ok (calculate_path d)" by (rule calculate_path_tables(2) [OF d])
  obtain D P where t: "routed_tables (calculate_path d) D P" using calculate_path_tables(1) [OF d] by blast
  show ?thesis
  proof (cases "(i, j) \<in> (coupling d)\<^sup>*")
    case True
    then obtain w where w: "on_route (calculate_path d) P w" "hd w = i" "last w = j" "length w = Suc (LEAST L. (i, j) \<in> coupling d ^^ L)"
      using route_exists [OF ok t, of i j] ij by auto
    obtain path where path: "get_path i j (calculate_path d) = Some path" "map pq_id path = w"
      using get_path_route [OF ok t w(1)] w(2,3) by auto
    have "along (coupling d) w" using w(1) by (simp add: on_route_def)
    moreover have "length path = length w" using path(2) by (metis length_map)
    ultimately show ?thesis using True w(2-4) path by simp
  next
    case False
    then show ?thesis using get_path_unreachable [OF ok t, of i j] ij by simp
  qed
qed

lemma shortest_routes_witness:
  "\<exists>path. get_path 0 2 (calculate_path line_device) = Some path \<and> along (coupling line_device) (map pq_id path)"
proof -
  have d: "device_ok line_device" and c: "(0, 2) \<in> (coupling line_device)\<^sup>*"
    using line_fresh(1) line_connected [of 0 2] by (simp_all add: fresh_device_def)
  have "0 < length (dv_qubits line_device)" "2 < length (dv_qubits line_device)" by (simp_all add: line_fresh(2))
  from shortest_routes [OF d this] c show ?thesis by auto
qed

text \<open>
  C18. The list of gates that the depth-first search over the links of a circuit returns has every appended gate once, differs from the order of appending only by exchanges of gates that share no qubit, and acts as that list.
\<close>

theorem gate_list_faithful:
  assumes gs: "gates_ok n gs" and q: "\<forall>g \<in> set gs. snd g \<noteq> []"
  shows "\<exists>hs. qg_get_gates (qg_of_gates n gs) = Some hs \<and> mset hs = mset gs \<and> reorder qubit_set gs hs \<and> gates_sem hs = gates_sem gs"
  using get_gates_reorder [OF gs q] reorder_mset by metis

lemma gate_list_faithful_witness:
  "\<exists>hs. qg_get_gates (qg_of_gates 3 [(CXGate, [0, 2]), (HGate, [1])]) = Some hs \<and>
     gates_sem hs = gates_sem [(CXGate, [0, 2]), (HGate, [1])]"
  using gate_list_faithful [OF line_gates_wf] unfolding line_gates_def by blast

text \<open>
  C19. After any gates have been executed, each when it was available, the available gates are exactly the gates not executed yet whose predecessors on all their qubits are, although the table of executed gates is trimmed on the way.
\<close>

theorem available_gates_exact:
  assumes gs: "gates_ok n gs" and new: "circuit_topology_new (qg_of_gates n gs) = Some ct"
    and order: "distinct order" "\<forall>k < length order. order ! k < length gs \<and> gate_ready gs (set (take k order)) (order ! k)"
  shows "set (ct_available (fold update_available_gates order ct)) = {i. i < length gs \<and> i \<notin> set order \<and> gate_ready gs (set order) i}"
proof -
  have "topo_ok n gs (set order) (fold update_available_gates order ct)"
    using order
  proof (induction order rule: rev_induct)
    case Nil
    then show ?case using topology_new_ok [OF qg_of_gates_links [OF gs]] new by auto
  next
    case (snoc e order)
    have "\<forall>k < length order. order ! k < length gs \<and> gate_ready gs (set (take k order)) (order ! k)"
    proof (intro allI impI)
      fix k assume "k < length order"
      then show "order ! k < length gs \<and> gate_ready gs (set (take k order)) (order ! k)"
        using spec [OF snoc.prems(2), of k] by (simp add: nth_append)
    qed
    moreover have "e < length gs \<and> gate_ready gs (set order) e" using spec [OF snoc.prems(2), of "length order"] by simp
    ultimately show ?case using update_available_ok(1) [OF snoc.IH gs] snoc.prems(1) by simp
  qed
  then show ?thesis by (rule topo_okD(3))
qed

lemma available_gates_exact_witness:
  "\<exists>ct. circuit_topology_new (qg_of_gates 3 [(CXGate, [0, 2]), (HGate, [1])]) = Some ct \<and>
     set (ct_available (fold update_available_gates [0] ct)) = {1}"
proof -
  obtain ct where ct: "circuit_topology_new (qg_of_gates 3 line_gates) = Some ct"
    using topology_new_ok [OF qg_of_gates_links [OF line_gates_wf(1)]] by blast
  have "{i. i < length line_gates \<and> i \<notin> set [0] \<and> gate_ready line_gates (set [0]) i} = {1}"
    by (auto simp: gate_ready_def line_gates_def prev_on_Some_iff)
  with available_gates_exact [OF line_gates_wf(1) ct, of "[0]"] ct show ?thesis
    by (auto simp: gate_ready_def line_gates_def prev_on_Some_iff)
qed

text \<open>
  C20. Converting a tableau with the phase-polynomial strategy can therefore give a wrong circuit: for a CX gate followed by a rotation around ZZ by pi/4 the circuit returned is not the operator of the tableau.
\<close>

theorem joint_tableau_reversed:
  "\<exists>c. tableau_to_qcir (\<lambda>_. False) AGSynthesis (PrPhasePoly joint_strategy (Some 2)) joint_tableau = Result c \<and>
    \<not> op_eq 2 (gates_sem (qc_gates c)) (subs_op (subtableaux joint_tableau))"
  by (rule joint_tableau_wrong)



text \<open>
  C22. On a complete directed graph whose costs stay below the bound of the code, minimum_spanning_arborescence returns: the contraction of cycles ends, and the result is a spanning arborescence of the graph, rooted at the returned vertex, with the edges and costs of the graph.
\<close>

theorem arborescence_spans:
  assumes "complete_graph g" "vertices g \<noteq> []" "\<And>e. e \<in> arcs g \<Longrightarrow> cost g e \<le> B" "int (card (verts g) - 1) * B < max_cost"
  shows "\<exists>t r. minimum_spanning_arborescence attr g = Some (t, r) \<and> spans g t r \<and> r \<in> verts g"
  by (rule minimum_spanning_arborescence_spans [OF assms])

lemma arborescence_spans_witness: "\<exists>t r. minimum_spanning_arborescence () three_cities = Some (t, r) \<and> spans three_cities t r"
  using arborescence_spans [OF three_cities_complete(1,2) three_cities_cost, of "()"] by (auto simp: three_cities_complete(3) max_cost_def)

text \<open>
  C23. The arborescence is not always minimal: the contraction adds the cost of the cycle edge that an entering edge replaces, where the algorithm of Chu, Liu and Edmonds subtracts it. On a graph of three vertices the result from root 0 costs 14 although an arborescence of cost 11 exists.
\<close>

theorem arborescence_not_minimal:
  "\<exists>t. spanning_arborescence 3 () three_cities 0 = Some t \<and> spans three_cities cheaper_cities 0 \<and> total_weight cheaper_cities < total_weight t"
  using arborescence_costs cheaper_spans by (cases "spanning_arborescence 3 () three_cities 0") auto


text \<open>
  C25. The error branch of TODD is unreachable: however often the search is interrupted, the loop ends, with at most as many rotations by pi/4, and the difference of the old and the new phase polynomial is Clifford.
\<close>

theorem todd_never_fails:
  assumes "poly_ok n rs" "reducible rs"
  shows "\<exists>rs'. todd_loop stop k rs = Some rs' \<and> poly_ok n rs' \<and> length rs' \<le> length rs \<and>
    mlp_is_clifford (add_rotations True rs' (add_rotations False rs empty_polynomial))"
  using todd_loop_total [OF assms, of stop k] difference_clifford [OF assms(1)] by (fastforce simp: good_round_def)

lemma todd_never_fails_witness: "\<exists>rs'. todd_loop (\<lambda>_. False) 0 sample_diagonal = Some rs'"
  using todd_never_fails [of 2 sample_diagonal "\<lambda>_. False" 0] by auto

text \<open>
  C26. The check of a synthesized block is sound: a result that passes has the linear map of the problem and, up to full turns, its phase on every basis state.
\<close>

theorem phasepoly_check_sound:
  assumes "problem_ok n P" "list_all (phase_op_ok n) (res_gates r)" "verify_synthesis P r"
  shows "mod2 (ops_turn (res_gates r) b) (problem_turn P b) \<and> (\<forall>q < n. ops_bits (res_gates r) b q = problem_map P b q)"
  by (rule verify_synthesis_sound [OF assms])

lemma phasepoly_check_sound_witness:
  "mod2 (ops_turn (res_gates sample_synthesis) (\<lambda>q. q = 0)) (problem_turn (phase_block_to_problem sample_block) (\<lambda>q. q = 0))"
  using phasepoly_check_sound [OF sample_block_ok(1) sample_synthesis_ok, of "\<lambda>q. q = 0"] by simp

text \<open>
  C27. The check of a synthesized block accepts whatever the search finds for the rotations of a tableau: the gates turn each parity of the problem once, with its angle, and end in its output matrix.
\<close>

theorem phasepoly_check_complete:
  assumes "rots_ok n rs" "diag_rotations rs" "pm_ok n n out" "invertible n (pm_get out)"
  shows "\<exists>r. synthesize_phasepoly cfg (rotations_to_problem rs out) = Some r \<and> verify_synthesis (rotations_to_problem rs out) r"
proof -
  note p = rotations_to_problem_spec [OF assms]
  obtain r where r: "synthesize_phasepoly cfg (rotations_to_problem rs out) = Some r" "solves_problem n (rotations_to_problem rs out) (res_gates r)"
    using synthesize_phasepoly_spec [OF p(1,2), of cfg] by blast
  moreover obtain ts where "merged_problem n ts (rotations_to_problem rs out)" using rotations_problem_merged [OF assms] by blast
  ultimately show ?thesis using verify_synthesis_complete by blast
qed

lemma phasepoly_check_complete_witness:
  "\<exists>r. synthesize_phasepoly default_config (rotations_to_problem sample_diagonal (pm_identity 2)) = Some r \<and>
    verify_synthesis (rotations_to_problem sample_diagonal (pm_identity 2)) r"
  by (rule phasepoly_check_complete [of 2]) (simp_all add: pm_identity_spec(1) pm_identity_invertible)

text \<open>
  C28. The adjoint of a circuit is its inverse up to a global factor, for all gates and nested circuits without a controlled rotation gate by pi (whose adjoint the code takes to be itself).
\<close>

theorem adjoint_circuit_correct:
  assumes "qc_ok c" "\<And>g. g \<in> set (qc_gates c) \<Longrightarrow> adjointable (fst g)"
  shows "qc_ok (adjoint_inplace c) \<and>
    op_eq (qc_qubits c) (\<lambda>v. gates_sem (qc_gates (adjoint_inplace c)) (gates_sem (qc_gates c) v)) (\<lambda>v. v)"
  by (intro conjI adjoint_circuit_inverse [OF assms])

lemma adjoint_circuit_correct_witness:
  "op_eq 2 (\<lambda>v. gates_sem (qc_gates (adjoint_inplace sample_qcir)) (gates_sem (qc_gates sample_qcir) v)) (\<lambda>v. v)"
  using adjoint_circuit_correct [OF sample_qcir_ok(1) sample_qcir_ok(4)] by simp

text \<open>
  C29. The times computed for the gates of a circuit are the least that respect the links: every gate has a time, larger than the times of all gates before it on its qubits, and it is either the first moment or just after one of these.
\<close>

theorem gate_times_right:
  assumes gs: "gates_ok n gs" and q: "\<forall>g \<in> set gs. snd g \<noteq> []"
  shows "\<exists>tm. calculate_gate_times (qg_of_gates n gs) = Some tm \<and> dom tm = {..<length gs} \<and> (\<forall>i < length gs. time_ok gs tm i)"
  by (rule gate_times_correct [OF gs q])

lemma gate_times_right_witness:
  "\<exists>tm. calculate_gate_times (qg_of_gates 3 [(CXGate, [0, 2]), (HGate, [1])]) = Some tm \<and> dom tm = {..<2}"
  using gate_times_right [OF line_gates_wf] by (auto simp: line_gates_def)

text \<open>
  C30. Assigning to an ordered map refines the update of a finite map, keeps the table well-formed and the order of the keys, and puts a new key last.
\<close>

theorem ordered_map_refines:
  assumes "ot_ok fst t"
  shows "ot_ok fst (om_assign dflt k v t) \<and> map_of (ot_items (om_assign dflt k v t)) = (map_of (ot_items t))(k \<mapsto> v) \<and>
    map fst (ot_items (om_assign dflt k v t)) = map fst (ot_items t) @ (if k \<in> fst ` set (ot_items t) then [] else [k])"
  by (intro conjI om_assign_spec [OF assms])

lemma ordered_map_refines_witness: "map fst (ot_items (om_assign 0 7 70 sample_table)) = [1, 2, 3, 7]"
  using ordered_map_refines [OF sample_table_ok(1), of 0 7 70] by simp

text \<open>
  C31. TMerge is correct and total: the pass on a tableau returns, keeps the operator of the sequence and never has more rotations than the collapsed input; no extraction in it meets an identity product.
\<close>

theorem merge_rotations_correct:
  assumes "tab_ok n t" "\<And>i. \<not> stop i"
  shows "\<exists>t'. merge_rotations_tableau stop t = Some t' \<and> equivalent n (subtableaux t) (subtableaux t') \<and>
    n_pauli_rotations (subtableaux t') \<le> n_pauli_rotations (subtableaux (collapse stop t))"
  using merge_rotations_tableau_equiv [OF assms(1), of stop, OF assms(2)] by blast

lemma merge_rotations_correct_witness: "\<exists>t'. merge_rotations_tableau (\<lambda>_. False) sample_tableau = Some t'"
  using merge_rotations_correct [of 2 sample_tableau "\<lambda>_. False"] by auto

text \<open>
  C32. \<open>properize\<close> on a tableau, which joins neighbours of the same kind and then walks over the sequence with the stabilizer tableau last seen, returns and keeps the operator of the sequence.
\<close>

theorem properize_tableau_correct:
  assumes "tab_ok n t" "\<And>i. \<not> stop i"
  shows "\<exists>t'. properize_tableau stop t = Some t' \<and> equivalent n (subtableaux t) (subtableaux t')"
  using properize_tableau_equiv [OF assms(1), of stop, OF assms(2)] by blast

lemma properize_tableau_correct_witness: "\<exists>t'. properize_tableau (\<lambda>_. False) sample_tableau = Some t'"
  using properize_tableau_correct [of 2 sample_tableau "\<lambda>_. False"] by auto

text \<open>
  C33. Partitioning a tableau of non-empty lists of non-trivial diagonal rotations with the naive strategy succeeds: the result has the same operator, every list in it is independent and the assertion at the end of the strategy holds.
\<close>

theorem matroid_partition_correct:
  assumes "tab_ok n t" "\<And>rs. SubPR rs \<in> set (subtableaux t) \<Longrightarrow> nontrivial_diag n rs"
  shows "\<exists>t'. matroid_partition_tableau naive_partition a t = Result t' \<and> equivalent n (subtableaux t) (subtableaux t') \<and>
    (\<forall>m. SubPR m \<in> set (subtableaux t') \<longrightarrow> is_independent a m)"
  by (rule naive.matroid_partition_tableau_spec) (use assms in auto)

lemma matroid_partition_correct_witness:
  "\<exists>t'. matroid_partition_tableau naive_partition 0
     \<lparr>subtableaux = [SubST sample_st, SubPR sample_diagonal], tab_n_qubits = 2, tab_filename = [], tab_procedures = []\<rparr> = Result t'"
  using matroid_partition_correct [of 2 "\<lparr>subtableaux = [SubST sample_st, SubPR sample_diagonal], tab_n_qubits = 2,
    tab_filename = [], tab_procedures = []\<rparr>" 0] by (auto simp: tab_ok_def)

text \<open>
  C34. The H-optimal strategy uses at most one H gate per qubit, and the assertion of the code holds: once the diagonalisation loop has run to its end, the Aaronson-Gottesman phase that follows realizes no H. This holds for any answers of stop_requested() that stay true once they are true.
\<close>

theorem hopt_h_bound:
  assumes "st_ok n T" "\<And>i. stop i \<Longrightarrow> stop (Suc i)"
  shows "h_count (hopt_synthesize stop mode k T) \<le> n \<and>
    (case hopt_loop stop mode k n 0 (T, []) of ((T', dops), k') \<Rightarrow>
       stop k' \<or> h_count (ag_synthesize stop (k' + 1) T') = 0)"
proof -
  have "h_count (hopt_synthesize stop mode k T) \<le> n"
    by (rule hopt_synthesize_linked(2) [OF assms(1)]) (rule assms(2))
  moreover obtain T' dops k' where L: "hopt_loop stop mode k n 0 (T, []) = ((T', dops), k')"
    by (metis surj_pair)
  moreover have "stop k' \<or> h_count (ag_synthesize stop (k' + 1) T') = 0"
    using hopt_assertion [OF assms(1) L assms(2)] by (cases "stop k'") auto
  ultimately show ?thesis by (simp add: L)
qed

lemma hopt_h_bound_witness:
  "h_count (hopt_synthesize (\<lambda>i. 7 \<le> i) Star 0 (st_init 2)) \<le> 2 \<and>
    (case hopt_loop (\<lambda>i. 7 \<le> i) Star 0 2 0 (st_init 2, []) of ((T', dops), k') \<Rightarrow>
       7 \<le> k' \<or> h_count (ag_synthesize (\<lambda>i. 7 \<le> i) (k' + 1) T') = 0)"
  using hopt_h_bound [OF st_init_ok, where stop = "\<lambda>i. 7 \<le> i" and n = 2 and mode = Star and k = 0] by simp



text \<open>
  C36. The strategy does not return on a rotation around the identity with a phase other than zero: it keeps the all-zero parity as a column of the problem, which no sequence of CNOTs makes ready.
\<close>

theorem phasepoly_identity_diverges:
  assumes "rot_ok n R" "is_identity (rot_product R)" "\<not> phase_eq (rot_phase R) (phase_of_int 0)" "0 < n"
  shows "phasepoly_synthesize cfg [R] = None"
  by (rule identity_rotation_diverges [OF assms])

lemma phasepoly_identity_diverges_witness: "phasepoly_synthesize default_config [sample_identity_rotation] = None"
  by (rule phasepoly_identity_diverges [OF sample_identity_rotation_ok]) simp







end
